(* ===== verification/Prelude.thy ===== *)
theory Prelude
  imports Main "HOL-Library.Word"
begin

text \<open>
  Shared vocabulary of the development: the fixed-width integers of the C code, the ways a C
  function can fail (\<open>fault\<close>), the sum-typed results that carry those failures, array reads
  that may leave the array, byte-addressed storage (\<open>load\<close>, \<open>store\<close>) and the little-endian
  encoding of integers (\<open>bytes_of\<close>, \<open>word_of\<close>).
\<close>

section \<open>Integers of the C code\<close>

type_synonym u8 = "8 word"
type_synonym u16 = "16 word"
type_synonym u32 = "32 word"
type_synonym u64 = "64 word"

lemma unat_ucast_up:
  "LENGTH('a::len) \<le> LENGTH('b::len) \<Longrightarrow> unat (ucast (w :: 'a word) :: 'b word) = unat w"
  by (simp add: unsigned_ucast_eq take_bit_nat_eq_self_iff)
    (meson le_less_trans less_le_trans unsigned_less power_increasing one_le_numeral order.strict_trans2)

named_theorems c_result \<open>rewriting of results that may be faults\<close>
named_theorems mem_simps \<open>reading bytes after writing bytes\<close>
named_theorems arch_simps \<open>evaluation of the per-architecture register tables\<close>

section \<open>Faults and results\<close>

text \<open>
  A C function that does not return normally ends in one of four ways: \<open>Exit n\<close> is the
  \<open>exit(n)\<close> of the \<open>ST_ERR\<close> macro, \<open>Abort\<close> is a failed \<open>assert\<close>, \<open>Undef\<close> is a step
  whose effect C leaves undefined (an access outside an array, a null or dangling pointer, a
  division by zero), and \<open>Diverge\<close> is a loop that has not stopped within the fuel it was given.
\<close>

datatype fault = Exit nat | Abort | Undef | Diverge

type_synonym 'a result = "fault + 'a"

definition bindE :: "'e + 'a \<Rightarrow> ('a \<Rightarrow> 'e + 'b) \<Rightarrow> 'e + 'b" where
  "bindE m f = (case m of Inl e \<Rightarrow> Inl e | Inr x \<Rightarrow> f x)"

lemma bindE_simps [simp, c_result]:
  "bindE (Inl e) f = Inl e" "bindE (Inr x) f = f x"
  by (simp_all add: bindE_def)

lemma bindE_eq_Inr [c_result]:
  "bindE m f = Inr y \<longleftrightarrow> (\<exists>x. m = Inr x \<and> f x = Inr y)"
  by (cases m) auto

lemma bindE_eq_Inl [c_result]:
  "bindE m f = Inl e \<longleftrightarrow> m = Inl e \<or> (\<exists>x. m = Inr x \<and> f x = Inl e)"
  by (cases m) auto

lemma bindE_InrE:
  assumes "bindE m f = Inr y"
  obtains x where "m = Inr x" "f x = Inr y"
  using assms by (cases m) auto

lemma bindE_assoc [c_result]: "bindE (bindE m f) g = bindE m (\<lambda>x. bindE (f x) g)"
  by (cases m) auto

lemma bindE_cong [fundef_cong]:
  "m = m' \<Longrightarrow> (\<And>x. m' = Inr x \<Longrightarrow> f x = f' x) \<Longrightarrow> bindE m f = bindE m' f'"
  by (cases m') (auto simp: bindE_def)

text \<open>A condition the code checks with an \<open>assert\<close> that stays in the build.\<close>

definition require :: "bool \<Rightarrow> fault \<Rightarrow> unit result" where
  "require b e = (if b then Inr () else Inl e)"

lemma require_simps [simp, c_result]:
  "require True e = Inr ()" "require False e = Inl e"
  by (simp_all add: require_def)

lemma require_eq_Inr [simp, c_result]: "require b e = Inr u \<longleftrightarrow> b"
  by (simp add: require_def)

text \<open>An option seen as a pointer: \<open>None\<close> is \<open>NULL\<close> and using it is undefined.\<close>

definition deref :: "'a option \<Rightarrow> 'a result" where
  "deref p = (case p of None \<Rightarrow> Inl Undef | Some x \<Rightarrow> Inr x)"

lemma deref_simps [simp, c_result]: "deref None = Inl Undef" "deref (Some x) = Inr x"
  by (simp_all add: deref_def)

lemma deref_eq_Inr [simp, c_result]: "deref p = Inr x \<longleftrightarrow> p = Some x"
  by (cases p) auto

section \<open>Counting loops\<close>

text \<open>\<open>for(i = a; i < b; i++)\<close> over a state, stopping at the first fault of the body.\<close>

function for_loop :: "nat \<Rightarrow> nat \<Rightarrow> (nat \<Rightarrow> 's \<Rightarrow> 'e + 's) \<Rightarrow> 's \<Rightarrow> 'e + 's" where
  "for_loop a b f s = (if a < b then bindE (f a s) (for_loop (Suc a) b f) else Inr s)"
  by pat_completeness auto
termination by (relation "measure (\<lambda>(a, b, f, s). b - a)") auto

declare for_loop.simps [simp del]

lemma for_loop_done [simp]: "b \<le> a \<Longrightarrow> for_loop a b f s = Inr s"
  by (simp add: for_loop.simps)

lemma for_loop_step [simp]: "a < b \<Longrightarrow> for_loop a b f s = bindE (f a s) (for_loop (Suc a) b f)"
  by (simp add: for_loop.simps)

text \<open>The invariant rule: a body that succeeds and keeps the invariant makes the loop succeed.\<close>

lemma for_loop_total:
  assumes "P a s" "a \<le> b"
    and "\<And>i s. a \<le> i \<Longrightarrow> i < b \<Longrightarrow> P i s \<Longrightarrow> \<exists>s'. f i s = Inr s' \<and> P (Suc i) s'"
  shows "\<exists>t. for_loop a b f s = Inr t \<and> P b t"
  using assms
proof (induction a b f s rule: for_loop.induct)
  case (1 a b f s)
  show ?case
  proof (cases "a < b")
    case True
    then obtain s' where s': "f a s = Inr s'" "P (Suc a) s'" using 1 by blast
    then have "\<exists>t. for_loop (Suc a) b f s' = Inr t \<and> P b t"
      using True 1 by (intro "1.IH") auto
    then show ?thesis using True s' by simp
  next
    case False
    then show ?thesis using 1 by simp
  qed
qed

text \<open>The same rule for a loop known to have returned.\<close>

lemma for_loop_inv:
  assumes "for_loop a b f s = Inr t" "P a s" "a \<le> b"
    and "\<And>i s s'. a \<le> i \<Longrightarrow> i < b \<Longrightarrow> P i s \<Longrightarrow> f i s = Inr s' \<Longrightarrow> P (Suc i) s'"
  shows "P b t"
  using assms
proof (induction a b f s rule: for_loop.induct)
  case (1 a b f s)
  show ?case
  proof (cases "a < b")
    case True
    then obtain s' where s': "f a s = Inr s'" "for_loop (Suc a) b f s' = Inr t"
      using 1 by (auto elim: bindE_InrE)
    then show ?thesis using True 1 by (intro "1.IH" [OF True s'(1) s'(2)]) auto
  next
    case False
    then show ?thesis using 1 by simp
  qed
qed

section \<open>Arrays\<close>

text \<open>
  Reading a C array by index. An index outside the array is undefined behaviour, so it is a
  fault of the model and never the unspecified value of \<open>nth\<close>.
\<close>

definition arr :: "'a list \<Rightarrow> nat \<Rightarrow> 'a result" where
  "arr xs i = (if i < length xs then Inr (xs ! i) else Inl Undef)"

lemma arr_eq_Inr [c_result]: "arr xs i = Inr x \<longleftrightarrow> i < length xs \<and> xs ! i = x"
  by (simp add: arr_def)

lemma arr_in [simp]: "i < length xs \<Longrightarrow> arr xs i = Inr (xs ! i)"
  by (simp add: arr_def)

lemma arr_out [simp]: "length xs \<le> i \<Longrightarrow> arr xs i = Inl Undef"
  by (simp add: arr_def)

lemma set_map_filter [simp]:
  "set (List.map_filter f xs) = {y. \<exists>x \<in> set xs. f x = Some y}"
  by (induction xs) (auto split: option.splits)

section \<open>Byte-addressed storage\<close>

text \<open>
  Storage maps an index to a byte. The index is a 64-bit address for the process memory (address
  arithmetic wraps) and a natural number for a block the code owns, such as the pool of register
  sets. \<open>load\<close> and \<open>store\<close> are \<open>memcpy\<close> out of and into such storage.
\<close>

type_synonym 'i storage = "'i \<Rightarrow> u8"
type_synonym memory = "u64 \<Rightarrow> u8"
type_synonym pool = "nat \<Rightarrow> u8"

definition load :: "('i::semiring_1_cancel) storage \<Rightarrow> 'i \<Rightarrow> nat \<Rightarrow> u8 list" where
  "load m a n = map (\<lambda>i. m (a + of_nat i)) [0..<n]"

fun store :: "('i::semiring_1_cancel) storage \<Rightarrow> 'i \<Rightarrow> u8 list \<Rightarrow> 'i storage" where
  "store m a [] = m"
| "store m a (b # bs) = store (m(a := b)) (a + 1) bs"

lemma length_load [simp]: "length (load m a n) = n"
  by (simp add: load_def)

lemma nth_load: "i < n \<Longrightarrow> load m a n ! i = m (a + of_nat i)"
  by (simp add: load_def)

lemma load_0 [simp]: "load m a 0 = []"
  by (simp add: load_def)

lemma store_other: "(\<And>i. i < length bs \<Longrightarrow> x \<noteq> a + of_nat i) \<Longrightarrow> store m a bs x = m x"
proof (induction bs arbitrary: m a)
  case Nil
  then show ?case by simp
next
  case (Cons b bs)
  have "x \<noteq> a" using Cons.prems [of 0] by simp
  moreover have "store (m(a := b)) (a + 1) bs x = (m(a := b)) x"
    using Cons.prems [of "Suc i" for i] by (intro Cons.IH) (simp add: add.assoc)
  ultimately show ?case by simp
qed

lemma store_at:
  assumes "inj_on (of_nat :: nat \<Rightarrow> 'i::semiring_1_cancel) {..<length bs}" "i < length bs"
  shows "store m (a::'i) bs (a + of_nat i) = bs ! i"
  using assms
proof (induction bs arbitrary: m a i)
  case Nil
  then show ?case by simp
next
  case (Cons b bs)
  have inj: "inj_on (of_nat :: nat \<Rightarrow> 'i) {..<length bs}"
    using Cons.prems(1) by (rule inj_on_subset) auto
  show ?case
  proof (cases i)
    case 0
    have "a \<noteq> (a + 1) + of_nat j" if "j < length bs" for j
    proof
      assume "a = (a + 1) + of_nat j"
      then have "a + of_nat 0 = a + of_nat (Suc j)"
        by (simp only: add.assoc of_nat_Suc semiring_1_class.of_nat_0 add_0_right)
      then have "(of_nat 0 :: 'i) = of_nat (Suc j)" by (simp only: add_left_cancel)
      from inj_onD [OF Cons.prems(1) this] that have "0 = Suc j" by simp
      then show False by simp
    qed
    then show ?thesis using 0 by (simp add: store_other)
  next
    case (Suc j)
    then show ?thesis
      using Cons.IH [OF inj, of j "\<lambda>x. if x = a then b else m x" "a + 1"] Cons.prems(2)
      by (simp add: add.assoc fun_upd_def)
  qed
qed

lemma load_store_same:
  assumes "inj_on (of_nat :: nat \<Rightarrow> 'i::semiring_1_cancel) {..<length bs}"
  shows "load (store m (a::'i) bs) a (length bs) = bs"
  using store_at [OF assms] by (intro nth_equalityI) (auto simp: nth_load)

lemma load_cong:
  "(\<And>i. i < n \<Longrightarrow> m (a + of_nat i) = m' (a + of_nat i)) \<Longrightarrow> load m a n = load m' a n"
  by (auto simp: load_def)

subsection \<open>Blocks indexed by natural numbers\<close>

lemma load_store_pool [simp]: "load (store m (a::nat) bs) a (length bs) = bs"
  by (rule load_store_same) simp

lemma store_pool_other [mem_simps]:
  "x < a \<or> a + length bs \<le> x \<Longrightarrow> store m (a::nat) bs x = m x"
  by (rule store_other) auto

lemma load_store_pool_other [mem_simps]:
  "b + n \<le> a \<or> a + length bs \<le> b \<Longrightarrow> load (store m (a::nat) bs) b n = load m b n"
  by (rule load_cong) (auto intro!: store_pool_other)

lemma store_pool_in: "a \<le> x \<Longrightarrow> x < a + length bs \<Longrightarrow> store m (a::nat) bs x = bs ! (x - a)"
  using store_at [of bs "x - a" m a] by simp

subsection \<open>Process memory\<close>

lemma inj_of_nat_u64: "n \<le> 2 ^ 64 \<Longrightarrow> inj_on (of_nat :: nat \<Rightarrow> u64) {..<n}"
  by (auto simp: inj_on_def word_of_nat_eq_iff take_bit_eq_mod)

lemma load_store_mem:
  "length bs \<le> 2 ^ 64 \<Longrightarrow> load (store m (a::u64) bs) a (length bs) = bs"
  by (rule load_store_same) (rule inj_of_nat_u64)

text \<open>Two address ranges that share no byte, taking the wrap-around of addresses into account.\<close>

definition apart :: "u64 \<Rightarrow> nat \<Rightarrow> u64 \<Rightarrow> nat \<Rightarrow> bool" where
  "apart a n b k \<longleftrightarrow> (\<forall>i<n. \<forall>j<k. a + of_nat i \<noteq> b + of_nat j)"

lemma load_store_mem_other [mem_simps]:
  "apart b n a (length bs) \<Longrightarrow> load (store m a bs) b n = load m b n"
  by (rule load_cong, rule store_other) (auto simp: apart_def)

section \<open>Little-endian integers\<close>

text \<open>All three instruction sets of the toolchain store integers little-endian.\<close>

definition bytes_of :: "nat \<Rightarrow> 'a::len word \<Rightarrow> u8 list" where
  "bytes_of n w = map (\<lambda>i. ucast (drop_bit (8 * i) w)) [0..<n]"

fun word_of :: "u8 list \<Rightarrow> 'a::len word" where
  "word_of [] = 0"
| "word_of (b # bs) = or (ucast b) (push_bit 8 (word_of bs))"

lemma length_bytes_of [simp]: "length (bytes_of n w) = n"
  by (simp add: bytes_of_def)

lemma bit_word_of:
  "bit (word_of bs :: 'a::len word) n \<longleftrightarrow>
     n < LENGTH('a) \<and> n div 8 < length bs \<and> bit (bs ! (n div 8)) (n mod 8)"
proof (induction bs arbitrary: n)
  case Nil
  then show ?case by simp
next
  case (Cons b bs)
  show ?case
  proof (cases "n < 8")
    case True
    then show ?thesis
      by (auto simp: bit_or_iff bit_push_bit_iff bit_ucast_iff dest: bit_imp_le_length)
  next
    case False
    then have d: "n div 8 = Suc ((n - 8) div 8)" "n mod 8 = (n - 8) mod 8"
      by (auto simp: div_if mod_if)
    have "\<not> bit b n" using False by (auto dest: bit_imp_le_length)
    then show ?thesis
      using False Cons.IH [of "n - 8"]
      by (auto simp: bit_or_iff bit_push_bit_iff bit_ucast_iff d)
  qed
qed

lemma word_of_bytes_of: "LENGTH('a) \<le> 8 * n \<Longrightarrow> word_of (bytes_of n w) = (w :: 'a::len word)"
proof (rule bit_word_eqI)
  fix k assume n: "LENGTH('a) \<le> 8 * n" and k: "k < LENGTH('a)"
  have "k div 8 < n" using n k by linarith
  moreover have "8 * (k div 8) + k mod 8 = k" by simp
  ultimately show "bit (word_of (bytes_of n w) :: 'a word) k = bit w k"
    using k by (simp add: bit_word_of bytes_of_def bit_ucast_iff bit_drop_bit_eq)
qed

lemma bytes_of_word_of:
  assumes "8 * length bs \<le> LENGTH('a)"
  shows "bytes_of (length bs) (word_of bs :: 'a::len word) = bs"
proof (rule nth_equalityI)
  fix i assume i: "i < length (bytes_of (length bs) (word_of bs :: 'a word))"
  show "bytes_of (length bs) (word_of bs :: 'a word) ! i = bs ! i"
  proof (rule bit_word_eqI)
    fix k assume "k < LENGTH(8)"
    then have k: "k < 8" by simp
    have "8 * i + k < LENGTH('a)" using i k assms by simp
    moreover have "(8 * i + k) div 8 = i" "(8 * i + k) mod 8 = k" using k by simp_all
    ultimately show "bit (bytes_of (length bs) (word_of bs :: 'a word) ! i) k = bit (bs ! i) k"
      using i k by (simp add: bytes_of_def bit_ucast_iff bit_drop_bit_eq bit_word_of)
  qed
qed simp

definition load64 :: "('i::semiring_1_cancel) storage \<Rightarrow> 'i \<Rightarrow> u64" where
  "load64 m a = word_of (load m a 8)"

definition store64 :: "('i::semiring_1_cancel) storage \<Rightarrow> 'i \<Rightarrow> u64 \<Rightarrow> 'i storage" where
  "store64 m a w = store m a (bytes_of 8 w)"

lemma word_of_bytes_of_8 [simp]: "word_of (bytes_of 8 w) = (w :: u64)"
  by (rule word_of_bytes_of) simp

lemma load64_store64_pool [simp]: "load64 (store64 m (a::nat) w) a = w"
  using load_store_pool [of m a "bytes_of 8 w"] by (simp add: load64_def store64_def)

lemma load64_store64_pool_other [mem_simps]:
  "b + 8 \<le> a \<or> a + 8 \<le> b \<Longrightarrow> load64 (store64 m (a::nat) w) b = load64 m b"
  by (simp add: load64_def store64_def load_store_pool_other)

lemma store64_pool_other [mem_simps]: "x < a \<or> a + 8 \<le> x \<Longrightarrow> store64 m (a::nat) w x = m x"
  by (simp add: store64_def store_pool_other)

lemma load64_store64_mem [simp]: "load64 (store64 m (a::u64) w) a = w"
  using load_store_mem [of "bytes_of 8 w" m a] by (simp add: load64_def store64_def)

lemma load64_store64_mem_other [mem_simps]:
  "apart b 8 a 8 \<Longrightarrow> load64 (store64 m a w) b = load64 m b"
  by (simp add: load64_def store64_def load_store_mem_other)

section \<open>Rounding to a multiple of 16\<close>

lemma round_up_16:
  "(x :: nat) + (if x mod 16 \<noteq> 0 then 16 - x mod 16 else 0) = (x + 15) div 16 * 16"
proof -
  define q t where "q = x div 16" and "t = x mod 16"
  have x: "x = 16 * q + t" "t < 16" by (simp_all add: q_def t_def)
  have "(x + 15) div 16 = q + (t + 15) div 16" unfolding x(1) by simp
  moreover have "(t + 15) div 16 = (if t = 0 then 0 else 1)"
  proof (cases "t = 0")
    case False
    then have "t + 15 = 16 + (t - 1)" "t - 1 < 16" using x(2) by simp_all
    then show ?thesis using False div_add_self1 [of 16 "t - 1"] by simp
  qed simp
  ultimately show ?thesis using x unfolding t_def [symmetric] by simp
qed

lemma round_up_16_diff:
  assumes "s \<le> 16 * (k :: nat)"
  shows "(16 * k - s + 15) div 16 * 16 = 16 * k - s div 16 * 16"
proof -
  define q t where "q = s div 16" and "t = s mod 16"
  have s: "s = 16 * q + t" "t < 16" by (simp_all add: q_def t_def)
  then have "q \<le> k" using assms by simp
  then obtain d where k: "k = q + d" using le_Suc_ex by blast
  have "t \<le> 16 * d" using assms s(1) k by simp
  then have "16 * k - s + 15 = 16 * d + (15 - t)" using s k by simp
  then have "(16 * k - s + 15) div 16 = d" using s(2) by simp
  then show ?thesis unfolding q_def [symmetric] using k by simp
qed

lemma unat_64: "unat (x :: u64) < 2 ^ 64"
  using unsigned_less [of x] by simp

end
