(* ===== verification/Spans.thy ===== *)
theory Spans
  imports Prelude
begin

text \<open>
  Lists of memory spans (\<open>lib/dsm-prefetch/src/list.c\<close>) at the level of the spans: what inserting and
  removing a span make of a sorted list, and the set of addresses a list stands for. This is the
  specification that the linked lists of \<open>Node_List\<close> implement.
\<close>

section \<open>Spans\<close>

text \<open>\<open>memory_span_t\<close>: the addresses from \<open>low\<close> up to, not including, \<open>high\<close>.\<close>

record memory_span =
  low :: u64
  high :: u64

definition addresses :: "memory_span \<Rightarrow> u64 set" where
  "addresses m = {low m..<high m}"

definition covered :: "memory_span list \<Rightarrow> u64 set" where
  "covered ms = (\<Union>m \<in> set ms. addresses m)"

lemma covered_simps [simp]:
  "covered [] = {}" "covered (m # ms) = addresses m \<union> covered ms"
  "covered (xs @ ys) = covered xs \<union> covered ys"
  by (auto simp: covered_def)

text \<open>The order of the list: no span is empty, and there is a gap between any two.\<close>

definition wf_spans :: "memory_span list \<Rightarrow> bool" where
  "wf_spans ms \<longleftrightarrow> sorted_wrt (\<lambda>a b. high a < low b) ms \<and> (\<forall>m \<in> set ms. low m < high m)"

lemma wf_spans_simps [simp]:
  "wf_spans []"
  "wf_spans (m # ms) \<longleftrightarrow> low m < high m \<and> (\<forall>n \<in> set ms. high m < low n) \<and> wf_spans ms"
  "wf_spans (xs @ ys) \<longleftrightarrow> wf_spans xs \<and> wf_spans ys \<and> (\<forall>a \<in> set xs. \<forall>b \<in> set ys. high a < low b)"
  by (auto simp: wf_spans_def sorted_wrt_append)

section \<open>The checks of the code\<close>

definition check_merge :: "memory_span \<Rightarrow> memory_span \<Rightarrow> bool" where
  "check_merge a b \<longleftrightarrow> low a = low b \<or> low b \<le> high a"

definition check_overlap :: "memory_span \<Rightarrow> memory_span \<Rightarrow> bool" where
  "check_overlap a b \<longleftrightarrow> low a = low b \<or> low b < high a"

definition check_contained :: "memory_span \<Rightarrow> memory_span \<Rightarrow> bool" where
  "check_contained a b \<longleftrightarrow> low a \<le> low b \<and> high b \<le> high a"

lemma check_overlap_iff:
  "low a \<le> low b \<Longrightarrow> low a < high a \<Longrightarrow> low b < high b \<Longrightarrow>
   check_overlap a b \<longleftrightarrow> addresses a \<inter> addresses b \<noteq> {}"
  by (auto simp: check_overlap_def addresses_def disjoint_iff)

section \<open>Inserting\<close>

definition merged :: "memory_span \<Rightarrow> memory_span \<Rightarrow> memory_span" where
  "merged a b = a\<lparr>high := max (high a) (high b)\<rparr>"

fun absorb :: "memory_span \<Rightarrow> memory_span list \<Rightarrow> memory_span list" where
  "absorb n [] = [n]"
| "absorb n (q # qs) = (if check_merge n q then absorb (merged n q) qs else n # q # qs)"

definition before :: "memory_span \<Rightarrow> memory_span list \<Rightarrow> memory_span list" where
  "before m = takeWhile (\<lambda>x. low x < low m)"

definition after :: "memory_span \<Rightarrow> memory_span list \<Rightarrow> memory_span list" where
  "after m = dropWhile (\<lambda>x. low x < low m)"

lemma before_after: "before m ms @ after m ms = ms"
  by (simp add: before_def after_def)

lemma in_before: "x \<in> set (before m ms) \<Longrightarrow> low x < low m"
  unfolding before_def by (drule set_takeWhileD) simp

lemma in_after: "wf_spans ms \<Longrightarrow> x \<in> set (after m ms) \<Longrightarrow> low m \<le> low x"
proof (induction ms)
  case (Cons a ms)
  show ?case
  proof (cases "low a < low m")
    case True
    then show ?thesis using Cons by (simp add: after_def)
  next
    case False
    then have "x = a \<or> x \<in> set ms" using Cons.prems(2) by (simp add: after_def)
    then show ?thesis
    proof
      assume "x \<in> set ms"
      then have "high a < low x" "low a < high a" using Cons.prems(1) by auto
      then show ?thesis using False by simp
    qed (use False in simp)
  qed
qed (simp add: after_def)

definition insert_span :: "memory_span \<Rightarrow> memory_span list \<Rightarrow> memory_span list" where
  "insert_span m ms =
     (let ps = before m ms in
      if ps \<noteq> [] \<and> check_merge (last ps) m
      then butlast ps @ absorb (merged (last ps) m) (after m ms)
      else ps @ absorb m (after m ms))"

lemma addresses_merged:
  "low a \<le> low b \<Longrightarrow> check_merge a b \<Longrightarrow> low a < high a \<Longrightarrow> low b < high b \<Longrightarrow>
   addresses (merged a b) = addresses a \<union> addresses b"
  by (auto simp: addresses_def merged_def check_merge_def max_def)

lemma merged_simps [simp]: "low (merged a b) = low a" "high (merged a b) = max (high a) (high b)"
  by (simp_all add: merged_def)

lemma absorb_covered:
  "wf_spans qs \<Longrightarrow> low n < high n \<Longrightarrow> \<forall>q \<in> set qs. low n \<le> low q \<Longrightarrow>
   covered (absorb n qs) = addresses n \<union> covered qs"
  by (induction n qs rule: absorb.induct) (auto simp: addresses_merged less_max_iff_disj)

lemma absorb_wf:
  "wf_spans qs \<Longrightarrow> low n < high n \<Longrightarrow> \<forall>q \<in> set qs. low n \<le> low q \<Longrightarrow>
   wf_spans (absorb n qs) \<and> (\<forall>x \<in> set (absorb n qs). low n \<le> low x)"
proof (induction n qs rule: absorb.induct)
  case (2 n q qs)
  show ?case
  proof (cases "check_merge n q")
    case True
    then show ?thesis using 2 by (auto simp: less_max_iff_disj)
  next
    case False
    then have "high n < low q" by (auto simp: check_merge_def)
    moreover have "low q < high q" "\<forall>x \<in> set qs. high q < low x" using "2.prems"(1) by simp_all
    ultimately have "\<forall>x \<in> set (q # qs). high n < low x" by (auto intro: order.strict_trans)
    then show ?thesis using "2.prems" False by simp
  qed
qed simp

lemma wf_split:
  assumes "wf_spans ms"
  shows "wf_spans (before m ms)" "wf_spans (after m ms)"
    "\<forall>a \<in> set (before m ms). \<forall>b \<in> set (after m ms). high a < low b"
  using assms before_after [of m ms] wf_spans_simps(3) [of "before m ms" "after m ms"] by simp_all

text \<open>Inserting adds the span's addresses and keeps the list sorted, with gaps.\<close>

lemma insert_span_spec:
  assumes wf: "wf_spans ms" and m: "low m < high m"
  shows "wf_spans (insert_span m ms) \<and> covered (insert_span m ms) = covered ms \<union> addresses m"
proof -
  let ?ps = "before m ms" and ?qs = "after m ms"
  note w = wf_split [OF wf, of m]
  have qs: "\<forall>q \<in> set ?qs. low m \<le> low q" using in_after [OF wf] by blast
  have cov: "covered ms = covered ?ps \<union> covered ?qs"
    by (metis before_after covered_simps(3))
  show ?thesis
  proof (cases "?ps \<noteq> [] \<and> check_merge (last ?ps) m")
    case True
    define p where "p = last ?ps"
    define ps where "ps = butlast ?ps"
    have ps: "?ps = ps @ [p]" using True by (simp add: p_def ps_def)
    have p: "low p < low m" "low p < high p" "check_merge p m"
      using True in_before [of p m ms] w(1) by (simp_all add: ps p_def [symmetric])
    let ?n = "merged p m"
    have n: "low ?n < high ?n" "\<forall>q \<in> set ?qs. low ?n \<le> low q"
      using p qs by (auto simp: less_max_iff_disj intro: order.trans less_imp_le)
    have gap: "\<forall>a \<in> set ps. high a < low p" using w(1) by (simp add: ps)
    have ab: "wf_spans (absorb ?n ?qs)" "\<forall>x \<in> set (absorb ?n ?qs). low ?n \<le> low x"
      using absorb_wf [OF w(2) n] by simp_all
    have "insert_span m ms = ps @ absorb ?n ?qs"
      using True by (simp add: insert_span_def Let_def ps_def p_def)
    moreover have "wf_spans (ps @ absorb ?n ?qs)"
      using ab gap w(1) ps by (auto intro: less_le_trans)
    moreover have "covered (ps @ absorb ?n ?qs) = covered ms \<union> addresses m"
      using absorb_covered [OF w(2) n] addresses_merged [of p m] p m cov ps by auto
    ultimately show ?thesis by simp
  next
    case False
    then have ins: "insert_span m ms = ?ps @ absorb m ?qs" by (auto simp: insert_span_def Let_def)
    have ab: "wf_spans (absorb m ?qs)" "\<forall>x \<in> set (absorb m ?qs). low m \<le> low x"
      using absorb_wf [OF w(2) m qs] by simp_all
    have gap: "\<forall>a \<in> set ?ps. high a < low m"
    proof (cases ?ps rule: rev_cases)
      case (snoc ps p)
      then have "high p < low m" using False by (auto simp: check_merge_def)
      moreover have "\<forall>a \<in> set ps. high a < low p" "low p < high p" using w(1) by (simp_all add: snoc)
      ultimately show ?thesis by (auto simp: snoc intro: order.strict_trans)
    qed simp
    have "wf_spans (?ps @ absorb m ?qs)" using ab gap w(1) by (auto intro: less_le_trans)
    moreover have "covered (?ps @ absorb m ?qs) = covered ms \<union> addresses m"
      using absorb_covered [OF w(2) m qs] cov by auto
    ultimately show ?thesis by (simp add: ins)
  qed
qed

section \<open>Removing\<close>

fun trim :: "memory_span \<Rightarrow> memory_span list \<Rightarrow> memory_span list" where
  "trim m [] = []"
| "trim m (q # qs) =
     (if check_overlap m q then
        if check_contained m q then trim m qs else q\<lparr>low := high m\<rparr> # qs
      else q # qs)"

text \<open>What is left of a span that starts before the removed one.\<close>

definition cut :: "memory_span \<Rightarrow> memory_span \<Rightarrow> memory_span list" where
  "cut m p =
     (if check_overlap p m then
        if high p \<le> high m then [p\<lparr>high := low m\<rparr>]
        else [p\<lparr>high := low m\<rparr>, p\<lparr>low := high m\<rparr>]
      else [p])"

definition remove_span :: "memory_span \<Rightarrow> memory_span list \<Rightarrow> memory_span list" where
  "remove_span m ms =
     (let ps = before m ms in
      (if ps = [] then [] else butlast ps @ cut m (last ps)) @ trim m (after m ms))"

lemma trim_spec:
  "low m < high m \<Longrightarrow> wf_spans qs \<Longrightarrow> \<forall>q \<in> set qs. low m \<le> low q \<Longrightarrow>
    wf_spans (trim m qs) \<and> covered (trim m qs) = covered qs - addresses m \<and>
    (\<forall>x \<in> set (trim m qs). high m \<le> low x \<and> (\<exists>q \<in> set qs. low q \<le> low x))"
proof (induction m qs rule: trim.induct)
  case (2 m q qs)
  have q: "low q < high q" "\<forall>x \<in> set qs. high q < low x" "wf_spans qs" "low m \<le> low q"
    using "2.prems" by simp_all
  note m = "2.prems"(1)
  show ?case
  proof (cases "check_overlap m q \<and> check_contained m q")
    case True
    then have "addresses q \<subseteq> addresses m" by (auto simp: check_contained_def addresses_def)
    then show ?thesis using True 2 by auto
  next
    case False
    have above: "\<forall>x \<in> set qs. high m \<le> low x" if "high m \<le> high q"
      using that q(2) by (auto intro: order.trans less_imp_le)
    have far: "covered qs \<inter> addresses m = {}" if "\<forall>x \<in> set qs. high m \<le> low x"
      using that by (force simp: covered_def addresses_def)
    show ?thesis
    proof (cases "check_overlap m q")
      case True
      then have hm: "high m < high q" "low q < high m"
        using False q(4) m by (auto simp: check_contained_def check_overlap_def not_le)
      then have "addresses (q\<lparr>low := high m\<rparr>) = addresses q - addresses m"
        using q(4) by (auto simp: addresses_def)
      then show ?thesis
        using True False hm q above far by (auto intro: less_imp_le)
    next
      case no: False
      then have hm: "high m \<le> low q" by (auto simp: check_overlap_def)
      then have "high m \<le> high q" using q(1) by simp
      then have "\<forall>x \<in> set (q # qs). high m \<le> low x" using above hm by simp
      moreover have "addresses q \<inter> addresses m = {}" using hm by (force simp: addresses_def)
      ultimately show ?thesis using no q far above by auto
    qed
  qed
qed simp

lemma cut_spec:
  assumes "low p < high p" "low m < high m" "low p < low m"
  shows "wf_spans (cut m p) \<and> covered (cut m p) = addresses p - addresses m \<and>
         (\<forall>x \<in> set (cut m p). low p \<le> low x \<and> high x \<le> high p \<and> (high x \<le> low m \<or> high m \<le> low x))"
proof (cases "check_overlap p m")
  case True
  then have "low m < high p" using assms by (auto simp: check_overlap_def)
  then show ?thesis using assms True
    by (cases "high p \<le> high m") (auto simp: cut_def addresses_def intro: less_imp_le)
next
  case False
  then have "high p \<le> low m" by (auto simp: check_overlap_def)
  then show ?thesis using assms False by (auto simp: cut_def addresses_def)
qed

text \<open>Removing takes the span's addresses away and keeps the list sorted, with gaps.\<close>

lemma remove_span_spec:
  assumes wf: "wf_spans ms" and m: "low m < high m"
  shows "wf_spans (remove_span m ms) \<and> covered (remove_span m ms) = covered ms - addresses m"
proof -
  let ?ps = "before m ms" and ?qs = "after m ms"
  note w = wf_split [OF wf, of m]
  have qs: "\<forall>q \<in> set ?qs. low m \<le> low q" using in_after [OF wf] by blast
  note t = trim_spec [OF m w(2) qs]
  have cov: "covered ms = covered ?ps \<union> covered ?qs" by (metis before_after covered_simps(3))
  show ?thesis
  proof (cases ?ps rule: rev_cases)
    case Nil
    then show ?thesis using t cov by (simp add: remove_span_def Let_def)
  next
    case (snoc ps p)
    have p: "low p < high p" "low p < low m" "\<forall>a \<in> set ps. high a < low p" "wf_spans ps"
      using w(1) in_before [of p m ms] by (simp_all add: snoc)
    note c = cut_spec [OF p(1) m p(2)]
    have "addresses a \<inter> addresses m = {}" if "a \<in> set ps" for a
    proof -
      have "high a < low m" using p(2,3) that by (auto intro: order.strict_trans)
      then show ?thesis by (force simp: addresses_def)
    qed
    then have ps: "covered ps \<inter> addresses m = {}" by (auto simp: covered_def)
    have "\<forall>b \<in> set (cut m p @ trim m ?qs). low p \<le> low b"
      using c t w(3) p(1) by (force simp: snoc)
    then have 1: "\<forall>a \<in> set ps. \<forall>b \<in> set (cut m p @ trim m ?qs). high a < low b"
      using p(3) by (auto intro: less_le_trans)
    have 2: "\<forall>a \<in> set (cut m p). \<forall>b \<in> set (trim m ?qs). high a < low b"
    proof (intro ballI)
      fix a b assume "a \<in> set (cut m p)" "b \<in> set (trim m ?qs)"
      then have "high a \<le> high p" "\<exists>q \<in> set ?qs. low q \<le> low b" using c t by auto
      moreover have "\<forall>q \<in> set ?qs. high p < low q" using w(3) by (simp add: snoc)
      ultimately show "high a < low b" by (meson le_less_trans less_le_trans)
    qed
    have "remove_span m ms = ps @ cut m p @ trim m ?qs" by (simp add: remove_span_def Let_def snoc)
    moreover have "wf_spans (ps @ cut m p @ trim m ?qs)" using p(4) c t 1 2 by simp
    moreover have "covered (ps @ cut m p @ trim m ?qs) = covered ms - addresses m"
      using c t ps cov by (auto simp: snoc)
    ultimately show ?thesis by simp
  qed
qed

section \<open>Overlapping\<close>

text \<open>Whether a span overlaps the list: only the spans on the two sides of its place count.\<close>

definition overlaps_span :: "memory_span \<Rightarrow> memory_span list \<Rightarrow> bool" where
  "overlaps_span m ms \<longleftrightarrow>
     (before m ms \<noteq> [] \<and> check_overlap (last (before m ms)) m) \<or>
     (after m ms \<noteq> [] \<and> check_overlap m (hd (after m ms)))"

lemma overlaps_span_spec:
  assumes wf: "wf_spans ms" and m: "low m < high m"
  shows "overlaps_span m ms \<longleftrightarrow> covered ms \<inter> addresses m \<noteq> {}"
proof -
  let ?ps = "before m ms" and ?qs = "after m ms"
  note w = wf_split [OF wf, of m]
  have cov: "covered ms = covered ?ps \<union> covered ?qs" by (metis before_after covered_simps(3))
  have "covered ?ps \<inter> addresses m \<noteq> {} \<longleftrightarrow> ?ps \<noteq> [] \<and> check_overlap (last ?ps) m"
  proof (cases ?ps rule: rev_cases)
    case (snoc ps p)
    have p: "low p < high p" "low p < low m" "\<forall>a \<in> set ps. high a < low p"
      using w(1) in_before [of p m ms] by (simp_all add: snoc)
    have "covered ps \<inter> addresses m = {}"
      using p by (force simp: covered_def addresses_def)
    then show ?thesis using snoc check_overlap_iff [of p m] p m by auto
  qed simp
  moreover have "covered ?qs \<inter> addresses m \<noteq> {} \<longleftrightarrow> ?qs \<noteq> [] \<and> check_overlap m (hd ?qs)"
  proof (cases ?qs)
    case (Cons q qs)
    have q: "low m \<le> low q" "low q < high q" "\<forall>x \<in> set qs. high q < low x"
      using in_after [OF wf, of q m] w(2) by (simp_all add: Cons)
    have "covered qs \<inter> addresses m = {}" if "\<not> check_overlap m q"
    proof -
      have "high m \<le> low q" using that by (auto simp: check_overlap_def)
      then show ?thesis using q by (force simp: covered_def addresses_def)
    qed
    then show ?thesis using Cons check_overlap_iff [of m q] q m by auto
  qed simp
  ultimately show ?thesis using cov by (auto simp: overlaps_span_def)
qed

section \<open>The bounds of the spans\<close>

text \<open>No operation makes up an address: the bounds of the spans are bounds that were given.\<close>

definition bounds :: "memory_span list \<Rightarrow> u64 set" where
  "bounds ms = (\<Union>m \<in> set ms. {low m, high m})"

lemma bounds_simps [simp]:
  "bounds [] = {}" "bounds (m # ms) = {low m, high m} \<union> bounds ms" "bounds (xs @ ys) = bounds xs \<union> bounds ys"
  by (auto simp: bounds_def)

lemma absorb_bounds: "bounds (absorb n qs) \<subseteq> {low n, high n} \<union> bounds qs"
  by (induction n qs rule: absorb.induct) (auto simp: max_def split: if_splits)

lemma insert_span_bounds: "bounds (insert_span m ms) \<subseteq> {low m, high m} \<union> bounds ms"
proof -
  have ms: "bounds ms = bounds (before m ms) \<union> bounds (after m ms)"
    by (metis before_after bounds_simps(3))
  show ?thesis
    using absorb_bounds [of m "after m ms"] absorb_bounds [of "merged (last (before m ms)) m" "after m ms"] ms
    by (cases "before m ms" rule: rev_cases) (auto simp: insert_span_def Let_def max_def split: if_splits)
qed

lemma trim_bounds: "bounds (trim m qs) \<subseteq> {high m} \<union> bounds qs"
  by (induction m qs rule: trim.induct) auto

lemma remove_span_bounds: "bounds (remove_span m ms) \<subseteq> {low m, high m} \<union> bounds ms"
proof -
  have ms: "bounds ms = bounds (before m ms) \<union> bounds (after m ms)"
    by (metis before_after bounds_simps(3))
  show ?thesis
    using trim_bounds [of m "after m ms"] ms
    by (cases "before m ms" rule: rev_cases) (auto simp: remove_span_def Let_def cut_def split: if_splits)
qed
end
