(* ===== verification/Platform.thy ===== *)
theory Platform
  imports Prelude
begin

text \<open>
  What the tools and libraries share (\<open>common/include\<close>): the architectures of \<open>arch.h\<close>, and the pages and nodes
  of \<open>platform.h\<close>.
\<close>

unbundle bit_operations_syntax

section \<open>Architectures\<close>

text \<open>\<open>enum arch\<close> of \<open>common/include/arch.h\<close>, ordered by its numbers.\<close>

datatype arch = ARCH_UNKNOWN | ARCH_AARCH64 | ARCH_X86_64 | ARCH_POWERPC64 | NUM_ARCHES

fun arch_num :: "arch \<Rightarrow> int" where
  "arch_num ARCH_UNKNOWN = - 1"
| "arch_num ARCH_AARCH64 = 0"
| "arch_num ARCH_X86_64 = 1"
| "arch_num ARCH_POWERPC64 = 2"
| "arch_num NUM_ARCHES = 3"

instantiation arch :: linorder
begin

definition less_eq_arch :: "arch \<Rightarrow> arch \<Rightarrow> bool" where
  "less_eq_arch a b \<longleftrightarrow> arch_num a \<le> arch_num b"

definition less_arch :: "arch \<Rightarrow> arch \<Rightarrow> bool" where
  "less_arch a b \<longleftrightarrow> arch_num a < arch_num b"

instance
proof
  fix a b :: arch
  show "a \<le> b \<Longrightarrow> b \<le> a \<Longrightarrow> a = b"
    by (cases a; cases b) (simp_all add: less_eq_arch_def)
qed (auto simp: less_eq_arch_def less_arch_def)

end

section \<open>Nodes\<close>

definition MAX_POPCORN_NODES :: int where "MAX_POPCORN_NODES = 32"

text \<open>\<open>struct popcorn_node_status\<close> and \<open>struct popcorn_thread_status\<close>, as the kernel fills them in.\<close>

record popcorn_node_status =
  status :: u32
  node_arch :: arch
  distance :: int

record popcorn_thread_status =
  current_nid :: int
  proposed_nid :: int
  peer_nid :: int
  peer_pid :: int

section \<open>Pages\<close>

definition PAGESZ :: u64 where "PAGESZ = 4096"

definition page_round_down :: "u64 \<Rightarrow> u64" where
  "page_round_down x = x AND NOT (PAGESZ - 1)"

definition page_round_up :: "u64 \<Rightarrow> u64" where
  "page_round_up x = page_round_down (x + PAGESZ - 1)"

definition page_aligned :: "u64 \<Rightarrow> bool" where
  "page_aligned x \<longleftrightarrow> 4096 dvd unat x"

lemma unat_page_round_down: "unat (page_round_down x) = unat x div 4096 * 4096"
proof -
  have "x AND (PAGESZ - 1) = take_bit 12 x"
    by (simp add: PAGESZ_def take_bit_eq_mask mask_eq_exp_minus_1)
  then have "unat (x AND (PAGESZ - 1)) = unat x mod 4096"
    by (simp add: take_bit_eq_mod unat_mod)
  moreover have "(x AND (PAGESZ - 1)) + page_round_down x = x"
  proof -
    have "(x AND (PAGESZ - 1)) AND page_round_down x = 0"
      by (simp add: page_round_down_def and.left_commute and.assoc)
    then have "(x AND (PAGESZ - 1)) + page_round_down x = (x AND (PAGESZ - 1)) OR page_round_down x"
      by (rule disjunctive_add_eq_or)
    then show ?thesis by (simp add: page_round_down_def flip: bit.conj_disj_distrib)
  qed
  moreover have "page_round_down x \<le> x"
    unfolding page_round_down_def by (rule word_and_le2)
  ultimately have "unat (page_round_down x) = unat x - unat x mod 4096"
    by (metis add_diff_cancel_left' unat_sub_if_size le_add_diff_inverse unat_plus_simple word_le_nat_alt add.commute
        add_diff_cancel_right' unat_sub)
  then show ?thesis by (simp add: minus_mod_eq_div_mult)
qed

lemma page_round_down_aligned: "page_aligned (page_round_down x)" "page_aligned (page_round_up x)"
  by (simp_all add: page_aligned_def unat_page_round_down page_round_up_def)

lemma unat_page_round_up:
  assumes "unat x \<le> 2 ^ 64 - 4096"
  shows "unat (page_round_up x) = (unat x + 4095) div 4096 * 4096"
proof -
  have "unat (x + PAGESZ - 1) = unat x + 4095"
    using assms by (simp add: PAGESZ_def unat_word_ariths)
  then show ?thesis by (simp add: page_round_up_def unat_page_round_down)
qed

lemma page_round_up_wraps:
  assumes "unat x > 2 ^ 64 - 4096"
  shows "page_round_up x = 0"
proof -
  have "unat (x + PAGESZ - 1) = (4095 + unat x) mod 2 ^ 64"
  proof -
    have "x + PAGESZ - 1 = x + 4095" by (simp add: PAGESZ_def)
    moreover have "unat (4095 + x) = (unat (4095 :: u64) + unat x) mod 2 ^ LENGTH(64)"
      by (rule unat_word_ariths(1))
    ultimately show ?thesis by (simp add: PAGESZ_def)
  qed
  also have "4095 + unat x = 2 ^ 64 + (4095 + unat x - 2 ^ 64)" using assms by simp
  also have "\<dots> mod 2 ^ 64 = (4095 + unat x - 2 ^ 64) mod 2 ^ 64" by (rule mod_add_self1)
  also have "\<dots> \<le> 4095 + unat x - 2 ^ 64" by (rule mod_less_eq_dividend)
  also have "\<dots> < 4096" using unat_64 [of x] by simp
  finally have "unat (page_round_up x) = 0" by (simp add: page_round_up_def unat_page_round_down)
  then show ?thesis by (simp add: unat_eq_0)
qed

end
