(* ===== verification/Node_List.thy ===== *)
theory Node_List
  imports Spans Platform
begin

text \<open>
  The doubly linked lists of memory spans (\<open>lib/dsm-prefetch/src/list.c\<close>), with their nodes at
  addresses. Every operation runs under the list's recursive lock, so it is one step. A freed node
  is no longer in the store: an access to it is a fault. The addresses below \<open>NODE_CACHE_SIZE\<close> are
  the nodes of the list's cache, and the allocator's addresses are above them and never reused.
\<close>

section \<open>Nodes\<close>

record node =
  prev :: "nat option"
  nxt :: "nat option"
  mem :: memory_span

record list_t =
  nodes :: "nat \<Rightarrow> node option"
  node_used :: "bool list"
  brk :: nat
  head :: "nat option"
  tail :: "nat option"
  list_size :: nat
  nid :: int

definition NODE_CACHE_SIZE :: nat where "NODE_CACHE_SIZE = 64"
definition NUM_CACHE :: nat where "NUM_CACHE = 96"

definition get_node :: "list_t \<Rightarrow> nat \<Rightarrow> node result" where
  "get_node l a = deref (nodes l a)"

definition put_node :: "list_t \<Rightarrow> nat \<Rightarrow> node \<Rightarrow> list_t" where
  "put_node l a n = l\<lparr>nodes := (nodes l)(a := Some n)\<rparr>"

definition upd_node :: "nat \<Rightarrow> (node \<Rightarrow> node) \<Rightarrow> list_t \<Rightarrow> list_t result" where
  "upd_node a f l = bindE (get_node l a) (\<lambda>n. Inr (put_node l a (f n)))"

text \<open>The first entry of the cache that is not in use.\<close>

fun free_entry :: "bool list \<Rightarrow> nat \<Rightarrow> nat option" where
  "free_entry [] i = None"
| "free_entry (u # us) i = (if \<not> u then Some i else free_entry us (Suc i))"

text \<open>
  Memory for a node can always be had: the code asserts that \<open>popcorn_malloc\<close> does not return null, and so
  ends the program when there is no memory left. That end of the program is not in the model.
\<close>

definition node_create :: "list_t \<Rightarrow> memory_span \<Rightarrow> (list_t \<times> nat) result" where
  "node_create l m =
     (if 0 \<le> nid l \<and> nid l < MAX_POPCORN_NODES then
        let n = \<lparr>prev = None, nxt = None, mem = m\<rparr> in
        (case free_entry (node_used l) 0 of
           Some i \<Rightarrow> Inr (put_node (l\<lparr>node_used := (node_used l)[i := True]\<rparr>) i n, i)
         | None \<Rightarrow> Inr (put_node (l\<lparr>brk := brk l + 1\<rparr>) (brk l) n, brk l))
      else Inl Abort)"

definition node_free :: "list_t \<Rightarrow> nat \<Rightarrow> list_t result" where
  "node_free l a =
     bindE (get_node l a) (\<lambda>_.
       let l' = l\<lparr>nodes := (nodes l)(a := None)\<rparr> in
       if a < NODE_CACHE_SIZE then
         bindE (arr (node_used l) a) (\<lambda>u.
           if u then Inr (l'\<lparr>node_used := (node_used l)[a := False]\<rparr>) else Inl Abort)
       else Inr l')"

section \<open>The operations on the list\<close>

definition list_check_merge :: "memory_span \<Rightarrow> memory_span \<Rightarrow> bool result" where
  "list_check_merge a b = (if low a \<le> low b then Inr (check_merge a b) else Inl Abort)"

definition list_check_overlap :: "memory_span \<Rightarrow> memory_span \<Rightarrow> bool result" where
  "list_check_overlap a b = (if low a \<le> low b then Inr (check_overlap a b) else Inl Abort)"

definition list_check_contained :: "memory_span \<Rightarrow> memory_span \<Rightarrow> bool result" where
  "list_check_contained a b = (if low a \<le> low b then Inr (check_contained a b) else Inl Abort)"

text \<open>
  The walk of \<open>list_seek\<close>. The loops follow pointers, so they have fuel; one more than the number of
  nodes is enough for a list that is not circular.
\<close>

fun seek_from :: "nat \<Rightarrow> list_t \<Rightarrow> memory_span \<Rightarrow> nat option \<Rightarrow> nat option result" where
  "seek_from fuel l m None = Inr None"
| "seek_from 0 l m (Some a) = Inl Diverge"
| "seek_from (Suc fuel) l m (Some a) =
     bindE (get_node l a) (\<lambda>n.
       if low (mem n) < low m then seek_from fuel l m (nxt n) else Inr (Some a))"

definition list_seek :: "list_t \<Rightarrow> memory_span \<Rightarrow> nat option result" where
  "list_seek l m = seek_from (Suc (list_size l)) l m (head l)"

definition list_merge :: "list_t \<Rightarrow> nat \<Rightarrow> nat \<Rightarrow> list_t result" where
  "list_merge l a b =
     bindE (get_node l a) (\<lambda>na. bindE (get_node l b) (\<lambda>nb.
       if low (mem na) \<le> low (mem nb) \<and> nxt na = Some b \<and> prev nb = Some a then
         let l = put_node l a (na\<lparr>mem := merged (mem na) (mem nb), nxt := nxt nb\<rparr>) in
         bindE (case nxt nb of
                  Some c \<Rightarrow> upd_node c (prev_update (\<lambda>_. Some a)) l
                | None \<Rightarrow> Inr (l\<lparr>tail := Some a\<rparr>)) (\<lambda>l.
         bindE (node_free l b) (\<lambda>l. Inr (l\<lparr>list_size := list_size l - 1\<rparr>)))
       else Inl Abort))"

definition list_delete :: "list_t \<Rightarrow> nat \<Rightarrow> (list_t \<times> nat option) result" where
  "list_delete l a =
     bindE (get_node l a) (\<lambda>n.
     bindE (if list_size l = 1 then Inr (l\<lparr>head := None, tail := None, list_size := 0\<rparr>, None)
            else
              bindE (if Some a = head l then
                       bindE (deref (nxt n)) (\<lambda>h.
                       bindE (upd_node h (prev_update (\<lambda>_. None)) (l\<lparr>head := nxt n\<rparr>)) (\<lambda>l. Inr (l, Some h)))
                     else if Some a = tail l then
                       bindE (deref (prev n)) (\<lambda>t.
                       bindE (upd_node t (nxt_update (\<lambda>_. None)) (l\<lparr>tail := prev n\<rparr>)) (\<lambda>l. Inr (l, None)))
                     else
                       bindE (deref (prev n)) (\<lambda>p. bindE (deref (nxt n)) (\<lambda>q.
                       bindE (upd_node p (nxt_update (\<lambda>_. Some q)) l) (\<lambda>l.
                       bindE (upd_node q (prev_update (\<lambda>_. Some p)) l) (\<lambda>l. Inr (l, Some q))))))
                (\<lambda>(l, next). Inr (l\<lparr>list_size := list_size l - 1\<rparr>, next)))
       (\<lambda>(l, next). bindE (node_free l a) (\<lambda>l. Inr (l, next))))"

text \<open>Linking a new node \<open>n\<close> into a list that is not empty, before the node \<open>cur\<close>.\<close>

definition link_node :: "list_t \<Rightarrow> nat \<Rightarrow> nat option \<Rightarrow> list_t result" where
  "link_node l n cur =
     (if cur = head l then
        bindE (deref cur) (\<lambda>c.
        bindE (upd_node c (prev_update (\<lambda>_. Some n)) l) (\<lambda>l.
        bindE (upd_node n (\<lambda>x. x\<lparr>nxt := cur, prev := None\<rparr>) l) (\<lambda>l. Inr (l\<lparr>head := Some n\<rparr>))))
      else
        (case cur of
           None \<Rightarrow>
             bindE (deref (tail l)) (\<lambda>t.
             bindE (upd_node t (nxt_update (\<lambda>_. Some n)) l) (\<lambda>l.
             bindE (upd_node n (\<lambda>x. x\<lparr>prev := Some t, nxt := None\<rparr>) l) (\<lambda>l. Inr (l\<lparr>tail := Some n\<rparr>))))
         | Some q \<Rightarrow>
             bindE (get_node l q) (\<lambda>nq. bindE (deref (prev nq)) (\<lambda>p.
             bindE (upd_node p (nxt_update (\<lambda>_. Some n)) l) (\<lambda>l.
             bindE (upd_node n (prev_update (\<lambda>_. Some p)) l) (\<lambda>l.
             bindE (upd_node q (prev_update (\<lambda>_. Some n)) l) (\<lambda>l.
               upd_node n (nxt_update (\<lambda>_. Some q)) l)))))))"

text \<open>The merging with successors; a list has at most as many of them as nodes.\<close>

fun merge_successors :: "nat \<Rightarrow> list_t \<Rightarrow> nat \<Rightarrow> list_t result" where
  "merge_successors 0 l n = Inl Diverge"
| "merge_successors (Suc fuel) l n =
     bindE (get_node l n) (\<lambda>x.
       case nxt x of None \<Rightarrow> Inr l
       | Some q \<Rightarrow>
           bindE (get_node l q) (\<lambda>y. bindE (list_check_merge (mem x) (mem y)) (\<lambda>c.
             if c then bindE (list_merge l n q) (\<lambda>l. merge_successors fuel l n) else Inr l)))"

definition list_insert :: "list_t \<Rightarrow> memory_span \<Rightarrow> list_t result" where
  "list_insert l m =
     (if low m < high m then
        bindE (node_create l m) (\<lambda>(l, n).
          if head l = None then
            Inr ((put_node l n \<lparr>prev = None, nxt = None, mem = m\<rparr>)
                   \<lparr>head := Some n, tail := Some n, list_size := 1\<rparr>)
          else
            bindE (list_seek l m) (\<lambda>cur.
            bindE (link_node l n cur) (\<lambda>l.
              let l = l\<lparr>list_size := list_size l + 1\<rparr> in
            bindE (get_node l n) (\<lambda>x.
            bindE (case prev x of None \<Rightarrow> Inr (l, n)
                   | Some p \<Rightarrow>
                       bindE (get_node l p) (\<lambda>y. bindE (list_check_merge (mem y) (mem x)) (\<lambda>c.
                         if c then bindE (list_merge l p n) (\<lambda>l. Inr (l, p)) else Inr (l, n)))) (\<lambda>(l, n).
              merge_successors (Suc (list_size l)) l n)))))
      else Inl Abort)"

definition list_overlaps :: "list_t \<Rightarrow> memory_span \<Rightarrow> bool result" where
  "list_overlaps l m =
     (if low m < high m then
        if head l \<noteq> None then
          bindE (list_seek l m) (\<lambda>next.
            case next of
              None \<Rightarrow> bindE (deref (tail l)) (\<lambda>t. bindE (get_node l t) (\<lambda>nt. list_check_overlap (mem nt) m))
            | Some q \<Rightarrow>
                bindE (get_node l q) (\<lambda>nq. bindE (deref (prev nq)) (\<lambda>p. bindE (get_node l p) (\<lambda>np.
                bindE (list_check_overlap (mem np) m) (\<lambda>c.
                  if c then Inr True else list_check_overlap m (mem nq))))))
        else Inr False
      else Inl Abort)"

text \<open>The loop of \<open>list_remove\<close> over the successors.\<close>

fun trim_successors :: "nat \<Rightarrow> list_t \<Rightarrow> memory_span \<Rightarrow> nat option \<Rightarrow> list_t result" where
  "trim_successors fuel l m None = Inr l"
| "trim_successors 0 l m (Some a) = Inl Diverge"
| "trim_successors (Suc fuel) l m (Some a) =
     bindE (get_node l a) (\<lambda>n. bindE (list_check_overlap m (mem n)) (\<lambda>c.
       if c then
         bindE (list_check_contained m (mem n)) (\<lambda>sub.
           if sub then bindE (list_delete l a) (\<lambda>(l, next). trim_successors fuel l m next)
           else trim_successors fuel (put_node l a (n\<lparr>mem := (mem n)\<lparr>low := high m\<rparr>\<rparr>)) m (Some a))
       else Inr l))"

definition list_remove :: "list_t \<Rightarrow> memory_span \<Rightarrow> list_t result" where
  "list_remove l m =
     (if low m < high m then
        if head l \<noteq> None then
          bindE (list_seek l m) (\<lambda>cur.
          bindE (case cur of Some c \<Rightarrow> bindE (get_node l c) (\<lambda>nc. Inr (prev nc)) | None \<Rightarrow> Inr (tail l)) (\<lambda>prv.
          bindE (case prv of None \<Rightarrow> Inr l
                 | Some p \<Rightarrow>
                     bindE (get_node l p) (\<lambda>np. bindE (list_check_overlap (mem np) m) (\<lambda>c.
                       if c then
                         if high (mem np) \<le> high m
                         then Inr (put_node l p (np\<lparr>mem := (mem np)\<lparr>high := low m\<rparr>\<rparr>))
                         else
                           bindE (list_delete l p) (\<lambda>(l, _).
                           bindE (list_insert l \<lparr>low = low (mem np), high = low m\<rparr>) (\<lambda>l.
                             list_insert l \<lparr>low = high m, high = high (mem np)\<rparr>))
                       else Inr l))) (\<lambda>l.
            trim_successors (Suc (list_size l) + 1) l m cur)))
        else Inr l
      else Inl Abort)"

fun clear_from :: "nat \<Rightarrow> list_t \<Rightarrow> nat option \<Rightarrow> list_t result" where
  "clear_from fuel l None = Inr l"
| "clear_from 0 l (Some a) = Inl Diverge"
| "clear_from (Suc fuel) l (Some a) =
     bindE (get_node l a) (\<lambda>n. bindE (node_free l a) (\<lambda>l. clear_from fuel l (nxt n)))"

definition list_clear :: "list_t \<Rightarrow> list_t result" where
  "list_clear l =
     bindE (clear_from (Suc (list_size l)) l (head l)) (\<lambda>l.
       Inr (l\<lparr>head := None, tail := None, list_size := 0\<rparr>))"

text \<open>\<open>cur_cache\<close> counts the caches handed out to the lists initialized so far.\<close>

definition list_init :: "nat \<Rightarrow> int \<Rightarrow> (list_t \<times> nat) result" where
  "list_init cur_cache n =
     (if cur_cache < NUM_CACHE then
        Inr (\<lparr>nodes = (\<lambda>_. None), node_used = replicate NODE_CACHE_SIZE False, brk = NODE_CACHE_SIZE,
              head = None, tail = None, list_size = 0, nid = n\<rparr>, cur_cache + 1)
      else Inl Abort)"

text \<open>The iterators.\<close>

definition list_begin :: "list_t \<Rightarrow> nat option" where "list_begin l = head l"

definition list_next :: "list_t \<Rightarrow> nat option \<Rightarrow> nat option result" where
  "list_next l n = (case n of None \<Rightarrow> Inr None | Some a \<Rightarrow> bindE (get_node l a) (\<lambda>x. Inr (nxt x)))"

definition list_end :: "list_t \<Rightarrow> nat option" where "list_end l = None"

definition list_get_span :: "list_t \<Rightarrow> nat option \<Rightarrow> memory_span result" where
  "list_get_span l n = (case n of None \<Rightarrow> Inl Abort | Some a \<Rightarrow> bindE (get_node l a) (\<lambda>x. Inr (mem x)))"

end
