(* ===== verification/Node_List_Refine.thy ===== *)
theory Node_List_Refine
  imports Node_List
begin

text \<open>
  The linked lists of \<open>lib/dsm-prefetch/src/list.c\<close> implement the lists of spans of \<open>Spans\<close>: no
  operation faults on a well-formed list, no node is lost or freed twice, and inserting, removing and searching
  do to the addresses a list stands for what they should.
\<close>

section \<open>Doubly linked segments\<close>

text \<open>
  The nodes \<open>xs\<close> (their addresses and spans) form a doubly linked segment: \<open>p\<close> is what the first
  points back to and \<open>n\<close> what the last points on to.
\<close>

definition first_addr :: "nat option \<Rightarrow> (nat \<times> memory_span) list \<Rightarrow> nat option" where
  "first_addr n xs = (case xs of [] \<Rightarrow> n | x # _ \<Rightarrow> Some (fst x))"

definition last_addr :: "nat option \<Rightarrow> (nat \<times> memory_span) list \<Rightarrow> nat option" where
  "last_addr p xs = (if xs = [] then p else Some (fst (last xs)))"

lemma first_addr_simps [simp]:
  "first_addr n [] = n" "first_addr n (x # xs) = Some (fst x)"
  "first_addr n (xs @ ys) = first_addr (first_addr n ys) xs"
  by (auto simp: first_addr_def split: list.splits)

lemma last_addr_simps [simp]:
  "last_addr p [] = p" "last_addr p (x # xs) = last_addr (Some (fst x)) xs"
  "last_addr p (xs @ ys) = last_addr (last_addr p xs) ys"
  by (auto simp: last_addr_def)

fun dll :: "(nat \<Rightarrow> node option) \<Rightarrow> nat option \<Rightarrow> (nat \<times> memory_span) list \<Rightarrow> nat option \<Rightarrow> bool" where
  "dll h p [] n \<longleftrightarrow> True"
| "dll h p ((a, m) # xs) n \<longleftrightarrow>
     h a = Some \<lparr>prev = p, nxt = first_addr n xs, mem = m\<rparr> \<and> dll h (Some a) xs n"

lemma dll_append [simp]:
  "dll h p (xs @ ys) n \<longleftrightarrow> dll h p xs (first_addr n ys) \<and> dll h (last_addr p xs) ys n"
proof (induction xs arbitrary: p)
  case (Cons x xs)
  then show ?case by (cases x) simp
qed simp

lemma dll_other [simp]: "a \<notin> fst ` set xs \<Longrightarrow> dll (h(a := v)) p xs n = dll h p xs n"
  by (induction xs arbitrary: p) auto

section \<open>The pool of nodes\<close>

definition pool_ok :: "list_t \<Rightarrow> nat set \<Rightarrow> bool" where
  "pool_ok l A \<longleftrightarrow>
     (\<forall>a. nodes l a \<noteq> None \<longleftrightarrow> a \<in> A) \<and>
     length (node_used l) = NODE_CACHE_SIZE \<and> (\<forall>i < NODE_CACHE_SIZE. node_used l ! i \<longleftrightarrow> i \<in> A) \<and>
     NODE_CACHE_SIZE \<le> brk l \<and> (\<forall>a \<in> A. a < brk l) \<and> 0 \<le> nid l \<and> nid l < MAX_POPCORN_NODES"

lemma put_node_simps [simp]:
  "nodes (put_node l a n) = (nodes l)(a \<mapsto> n)" "head (put_node l a n) = head l"
  "tail (put_node l a n) = tail l" "list_size (put_node l a n) = list_size l"
  by (simp_all add: put_node_def)

lemma pool_ok_put [simp]: "pool_ok l A \<Longrightarrow> a \<in> A \<Longrightarrow> pool_ok (put_node l a n) A"
  by (auto simp: pool_ok_def put_node_def)

lemma pool_ok_ends [simp]:
  "pool_ok (l\<lparr>head := h\<rparr>) A = pool_ok l A" "pool_ok (l\<lparr>tail := h\<rparr>) A = pool_ok l A"
  "pool_ok (l\<lparr>list_size := k\<rparr>) A = pool_ok l A"
  by (simp_all add: pool_ok_def)

lemma put_node_ends [simp]:
  "put_node (l\<lparr>head := h\<rparr>) a n = (put_node l a n)\<lparr>head := h\<rparr>"
  "put_node (l\<lparr>tail := h\<rparr>) a n = (put_node l a n)\<lparr>tail := h\<rparr>"
  "put_node (l\<lparr>list_size := k\<rparr>) a n = (put_node l a n)\<lparr>list_size := k\<rparr>"
  by (simp_all add: put_node_def)

lemma free_entry_Some:
  "free_entry us k = Some i \<Longrightarrow> k \<le> i \<and> i < k + length us \<and> \<not> us ! (i - k)"
  by (induction us k rule: free_entry.induct) (auto split: if_splits simp: nth_Cons')

lemma node_create_ok:
  assumes ok: "pool_ok l A"
  shows "\<exists>l' n. node_create l m = Inr (l', n) \<and> n \<notin> A \<and> pool_ok l' (insert n A) \<and>
           nodes l' = (nodes l)(n \<mapsto> \<lparr>prev = None, nxt = None, mem = m\<rparr>) \<and>
           head l' = head l \<and> tail l' = tail l \<and> list_size l' = list_size l"
proof (cases "free_entry (node_used l) 0")
  case None
  have "brk l \<notin> A" "\<not> brk l < NODE_CACHE_SIZE" using ok by (auto simp: pool_ok_def)
  then show ?thesis
    using None ok by (auto simp: node_create_def pool_ok_def put_node_def Let_def)
next
  case (Some i)
  then have i: "i < NODE_CACHE_SIZE" "\<not> node_used l ! i"
    using free_entry_Some [OF Some] ok by (auto simp: pool_ok_def)
  then show ?thesis
    using Some ok by (auto simp: node_create_def pool_ok_def put_node_def Let_def nth_list_update)
qed

lemma node_free_ok:
  assumes ok: "pool_ok l A" and a: "a \<in> A"
  shows "\<exists>l'. node_free l a = Inr l' \<and> pool_ok l' (A - {a}) \<and> nodes l' = (nodes l)(a := None) \<and>
           head l' = head l \<and> tail l' = tail l \<and> list_size l' = list_size l"
proof -
  have "nodes l a \<noteq> None" using ok a by (simp add: pool_ok_def)
  then obtain x where "nodes l a = Some x" by blast
  then show ?thesis
    using assms
    by (auto simp: node_free_def get_node_def Let_def pool_ok_def nth_list_update)
qed

section \<open>Lists\<close>

text \<open>The list \<open>l\<close> links the nodes \<open>xs\<close> in order; \<open>A\<close> are all the nodes that are allocated.\<close>

definition links :: "list_t \<Rightarrow> (nat \<times> memory_span) list \<Rightarrow> nat set \<Rightarrow> bool" where
  "links l xs A \<longleftrightarrow>
     dll (nodes l) None xs None \<and> distinct (map fst xs) \<and> fst ` set xs \<subseteq> A \<and>
     head l = first_addr None xs \<and> tail l = last_addr None xs \<and> pool_ok l A"

lemma get_node_Some [simp]: "nodes l a = Some n \<Longrightarrow> get_node l a = Inr n"
  by (simp add: get_node_def)

lemma seek_from_ok:
  assumes "dll (nodes l) p xs None" "length xs \<le> fuel"
  shows "seek_from fuel l m (first_addr None xs) =
           Inr (first_addr None (dropWhile (\<lambda>x. low (snd x) < low m) xs))"
  using assms
proof (induction xs arbitrary: p fuel)
  case (Cons x xs)
  obtain a s where "x = (a, s)" by (cases x)
  moreover obtain f where "fuel = Suc f" using Cons.prems(2) by (cases fuel) auto
  ultimately show ?case using Cons by auto
qed simp

text \<open>Linking a new node in at its place.\<close>

lemma first_addr_in: "first_addr n xs = Some a \<Longrightarrow> n = Some a \<or> a \<in> fst ` set xs"
  by (cases xs) auto

lemma first_addr_None [simp]: "first_addr (Some a) xs \<noteq> None" "None \<noteq> first_addr (Some a) xs"
  by (cases xs; simp)+

lemma upd_node_Some [simp]: "nodes l a = Some n \<Longrightarrow> upd_node a f l = Inr (put_node l a (f n))"
  by (simp add: upd_node_def)

lemma link_node_ok:
  assumes l: "links l (ps @ qs) A" and ne: "ps @ qs \<noteq> []"
    and n: "n \<in> A" "n \<notin> fst ` set (ps @ qs)" "nodes l n = Some x" "mem x = m"
  shows "\<exists>l'. link_node l n (first_addr None qs) = Inr l' \<and> links l' (ps @ (n, m) # qs) A \<and>
           list_size l' = list_size l"
proof (cases ps rule: rev_cases)
  case Nil
  then obtain q s qs' where q: "qs = (q, s) # qs'" using ne by (cases qs) auto
  then show ?thesis
    using l n Nil by (auto simp: links_def link_node_def)
next
  case (snoc ps' p)
  obtain a s where p: "p = (a, s)" by (cases p)
  have head: "head l = first_addr (Some a) ps'" "head l \<noteq> None"
    using l by (simp_all add: links_def snoc p)
  show ?thesis
  proof (cases qs)
    case Nil
    then show ?thesis
      using l n head by (auto simp: links_def link_node_def snoc p)
  next
    case (Cons q qs')
    obtain b t where q: "q = (b, t)" by (cases q)
    have "head l \<noteq> Some b"
    proof
      assume "head l = Some b"
      then have "a = b \<or> b \<in> fst ` set ps'" using first_addr_in head(1) by fastforce
      then show False using l by (auto simp: links_def snoc p Cons q)
    qed
    then show ?thesis
      using l n head by (auto simp: links_def link_node_def snoc p Cons q image_Un)
  qed
qed

text \<open>Freeing a node that is no longer linked.\<close>

lemma free_unlinked:
  assumes "links l xs A" "a \<in> A" "a \<notin> fst ` set xs"
  shows "\<exists>l'. node_free l a = Inr l' \<and> links l' xs (A - {a}) \<and> list_size l' = list_size l"
proof -
  have "pool_ok l A" using assms(1) by (simp add: links_def)
  from node_free_ok [OF this assms(2)] obtain l' where l': "node_free l a = Inr l'" "pool_ok l' (A - {a})"
    "nodes l' = (nodes l)(a := None)" "head l' = head l" "tail l' = tail l" "list_size l' = list_size l"
    by blast
  moreover have "fst ` set xs \<subseteq> A - {a}" using assms unfolding links_def by blast
  ultimately show ?thesis using assms by (simp add: links_def)
qed

lemma links_size [simp]: "links (l\<lparr>list_size := k\<rparr>) xs A = links l xs A"
  by (simp add: links_def)

text \<open>Merging two neighbours.\<close>

lemma list_merge_ok:
  assumes l: "links l (ps @ (a, s) # (b, t) # qs) A" and le: "low s \<le> low t"
  shows "\<exists>l'. list_merge l a b = Inr l' \<and> links l' (ps @ (a, merged s t) # qs) (A - {b}) \<and>
           list_size l' = list_size l - 1"
proof -
  let ?pa = "last_addr None ps" and ?qb = "first_addr None qs"
  have d: "distinct (map fst (ps @ (a, s) # (b, t) # qs))" "fst ` set (ps @ (a, s) # (b, t) # qs) \<subseteq> A"
    "pool_ok l A" "a \<noteq> b"
    using l by (auto simp: links_def)
  have na: "nodes l a = Some \<lparr>prev = ?pa, nxt = Some b, mem = s\<rparr>"
    and nb: "nodes l b = Some \<lparr>prev = Some a, nxt = ?qb, mem = t\<rparr>"
    using l by (simp_all add: links_def)
  define l1 where "l1 = put_node l a \<lparr>prev = ?pa, nxt = ?qb, mem = merged s t\<rparr>"
  have l1: "pool_ok l1 A" "list_size l1 = list_size l" using d by (simp_all add: l1_def)
  obtain l2 where l2: "(case ?qb of Some c \<Rightarrow> upd_node c (prev_update (\<lambda>_. Some a)) l1
                | None \<Rightarrow> Inr (l1\<lparr>tail := Some a\<rparr>)) = Inr l2"
    and n2: "links l2 (ps @ (a, merged s t) # qs) A" "list_size l2 = list_size l"
  proof (cases qs)
    case Nil
    then have "links (l1\<lparr>tail := Some a\<rparr>) (ps @ (a, merged s t) # qs) A"
      using l d l1 by (auto simp: links_def l1_def image_Un)
    then show ?thesis using that Nil l1(2) by simp
  next
    case (Cons q qs')
    obtain c u where q: "q = (c, u)" by (cases q)
    have "nodes l1 c = Some \<lparr>prev = Some b, nxt = first_addr None qs', mem = u\<rparr>"
      using l d by (auto simp: links_def l1_def Cons q)
    then have "upd_node c (prev_update (\<lambda>_. Some a)) l1 =
        Inr (put_node l1 c \<lparr>prev = Some a, nxt = first_addr None qs', mem = u\<rparr>)" by simp
    moreover have "links (put_node l1 c \<lparr>prev = Some a, nxt = first_addr None qs', mem = u\<rparr>)
        (ps @ (a, merged s t) # qs) A"
      using l d l1 by (auto simp: links_def l1_def image_Un Cons q)
    ultimately show ?thesis using that l1(2) Cons q by simp
  qed
  have "b \<in> A" using d(2) by auto
  moreover have "b \<notin> fst ` set (ps @ (a, merged s t) # qs)" using d(1,4) by auto
  ultimately obtain l3 where l3: "node_free l2 b = Inr l3" "links l3 (ps @ (a, merged s t) # qs) (A - {b})"
    "list_size l3 = list_size l2"
    using free_unlinked [OF n2(1)] by blast
  then show ?thesis
    using na nb le l2 l3 n2(2) by (simp add: list_merge_def Let_def flip: l1_def)
qed

text \<open>Merging with the successors: the list becomes what \<open>absorb\<close> makes of it.\<close>

lemma merge_successors_ok:
  assumes "links l (ps @ (n, s) # qs) A" "length qs < fuel" "\<forall>q \<in> set qs. low s \<le> low (snd q)"
    and "list_size l = length (ps @ (n, s) # qs)" "A = fst ` set (ps @ (n, s) # qs)"
  shows "\<exists>l' ys. merge_successors fuel l n = Inr l' \<and> links l' (ps @ ys) (fst ` set (ps @ ys)) \<and>
           list_size l' = length (ps @ ys) \<and> map snd ys = absorb s (map snd qs) \<and>
           (qs = [] \<or> \<not> check_merge s (snd (hd qs)) \<longrightarrow> ys = (n, s) # qs)"
  using assms
proof (induction fuel arbitrary: l s qs A)
  case (Suc fuel)
  have n: "nodes l n = Some \<lparr>prev = last_addr None ps, nxt = first_addr None qs, mem = s\<rparr>"
    using Suc.prems(1) by (simp add: links_def)
  show ?case
  proof (cases qs)
    case Nil
    then show ?thesis using Suc.prems n
      by (intro exI [of _ l] exI [of _ "[(n, s)]"]) simp
  next
    case (Cons q qs')
    obtain b t where q: "q = (b, t)" by (cases q)
    have le: "low s \<le> low t" using Suc.prems(3) by (simp add: Cons q)
    have nb: "nodes l b = Some \<lparr>prev = Some n, nxt = first_addr None qs', mem = t\<rparr>"
      using Suc.prems(1) by (simp add: links_def Cons q)
    show ?thesis
    proof (cases "check_merge s t")
      case False
      then show ?thesis using Suc.prems n nb le
        by (intro exI [of _ l] exI [of _ "(n, s) # qs"]) (simp add: Cons q list_check_merge_def)
    next
      case True
      obtain l1 where l1: "list_merge l n b = Inr l1" "links l1 (ps @ (n, merged s t) # qs') (A - {b})"
        "list_size l1 = list_size l - 1"
        using list_merge_ok [of l ps n s b t qs' A] Suc.prems(1) le by (auto simp: Cons q)
      have "A - {b} = fst ` set (ps @ (n, merged s t) # qs')"
        using Suc.prems(1,5) by (auto simp: links_def Cons q)
      then obtain l' ys where "merge_successors fuel l1 n = Inr l'" "links l' (ps @ ys) (fst ` set (ps @ ys))"
        "list_size l' = length (ps @ ys)" "map snd ys = absorb (merged s t) (map snd qs')"
        using Suc.IH [OF l1(2)] Suc.prems l1(3) by (auto simp: Cons q)
      then show ?thesis using n nb le True l1(1)
        by (intro exI [of _ l'] exI [of _ ys]) (simp add: Cons q list_check_merge_def)
    qed
  qed
qed simp

text \<open>Deleting a node.\<close>

lemma list_delete_ok:
  assumes l: "links l (ps @ (a, s) # qs) A" and sz: "list_size l = length (ps @ (a, s) # qs)"
  shows "\<exists>l'. list_delete l a = Inr (l', first_addr None qs) \<and> links l' (ps @ qs) (A - {a}) \<and>
           list_size l' = length (ps @ qs)"
proof -
  have na: "nodes l a = Some \<lparr>prev = last_addr None ps, nxt = first_addr None qs, mem = s\<rparr>"
    using l by (simp add: links_def)
  have a: "a \<in> A" "a \<notin> fst ` set (ps @ qs)" using l by (auto simp: links_def)
  have "\<exists>l1. (if list_size l = 1 then Inr (l\<lparr>head := None, tail := None, list_size := 0\<rparr>, None)
            else
              bindE (if Some a = head l then
                       bindE (deref (first_addr None qs)) (\<lambda>h.
                       bindE (upd_node h (prev_update (\<lambda>_. None)) (l\<lparr>head := first_addr None qs\<rparr>)) (\<lambda>l. Inr (l, Some h)))
                     else if Some a = tail l then
                       bindE (deref (last_addr None ps)) (\<lambda>t.
                       bindE (upd_node t (nxt_update (\<lambda>_. None)) (l\<lparr>tail := last_addr None ps\<rparr>)) (\<lambda>l. Inr (l, None)))
                     else
                       bindE (deref (last_addr None ps)) (\<lambda>p. bindE (deref (first_addr None qs)) (\<lambda>q.
                       bindE (upd_node p (nxt_update (\<lambda>_. Some q)) l) (\<lambda>l.
                       bindE (upd_node q (prev_update (\<lambda>_. Some p)) l) (\<lambda>l. Inr (l, Some q))))))
                (\<lambda>(l, next). Inr (l\<lparr>list_size := list_size l - 1\<rparr>, next))) = Inr (l1, first_addr None qs) \<and>
          links l1 (ps @ qs) A \<and> list_size l1 = length (ps @ qs)" (is "\<exists>l1. ?X = _ \<and> _ l1 \<and> _ l1")
  proof (cases ps rule: rev_cases)
    case Nil
    then show ?thesis
    proof (cases qs)
      case Nil
      then show ?thesis using l sz \<open>ps = []\<close> by (auto simp: links_def)
    next
      case (Cons q qs')
      obtain b t where "q = (b, t)" by (cases q)
      then show ?thesis using l sz \<open>ps = []\<close> Cons by (auto simp: links_def image_Un)
    qed
  next
    case (snoc ps' p)
    obtain c u where p: "p = (c, u)" by (cases p)
    have head: "head l = first_addr (Some c) ps'" using l by (simp add: links_def snoc p)
    have nh: "head l \<noteq> Some a"
    proof
      assume "head l = Some a"
      then have "c = a \<or> a \<in> fst ` set ps'" using first_addr_in head by fastforce
      then show False using a(2) by (auto simp: snoc p)
    qed
    show ?thesis
    proof (cases qs)
      case Nil
      then show ?thesis using l sz nh by (auto simp: links_def snoc p image_Un)
    next
      case (Cons q qs')
      obtain b t where q: "q = (b, t)" by (cases q)
      have "tail l \<noteq> Some a" using l a(2) by (auto simp: links_def Cons q last_addr_def snoc)
      then show ?thesis using l sz nh by (auto simp: links_def snoc p Cons q image_Un)
    qed
  qed
  then obtain l1 where l1: "?X = Inr (l1, first_addr None qs)" "links l1 (ps @ qs) A"
    "list_size l1 = length (ps @ qs)" by blast
  obtain l2 where "node_free l1 a = Inr l2" "links l2 (ps @ qs) (A - {a})" "list_size l2 = list_size l1"
    using free_unlinked [OF l1(2) a] by blast
  moreover have "list_delete l a = bindE ?X (\<lambda>(l, next). bindE (node_free l a) (\<lambda>l. Inr (l, next)))"
    using na by (simp add: list_delete_def)
  ultimately show ?thesis using l1(3) unfolding l1(1) by simp
qed

section \<open>The operations implement those on spans\<close>

text \<open>The list \<open>l\<close> holds exactly the nodes it links, and their spans are \<open>ms\<close>.\<close>

definition holds_list :: "list_t \<Rightarrow> (nat \<times> memory_span) list \<Rightarrow> bool" where
  "holds_list l xs \<longleftrightarrow> links l xs (fst ` set xs) \<and> list_size l = length xs"

definition holds :: "list_t \<Rightarrow> memory_span list \<Rightarrow> bool" where
  "holds l ms \<longleftrightarrow> (\<exists>xs. holds_list l xs \<and> map snd xs = ms)"

lemma holds_listD:
  assumes "holds_list l xs"
  shows "head l = first_addr None xs" "tail l = last_addr None xs" "dll (nodes l) None xs None"
    "list_size l = length xs" "distinct (map fst xs)"
  using assms by (simp_all add: holds_list_def links_def)

lemma list_seek_ok:
  assumes "holds_list l xs"
  shows "list_seek l m = Inr (first_addr None (dropWhile (\<lambda>x. low (snd x) < low m) xs))"
  using seek_from_ok [OF holds_listD(3) [OF assms], of "Suc (list_size l)" m] holds_listD [OF assms]
  by (simp add: list_seek_def)

lemma before_map: "before m (map snd xs) = map snd (takeWhile (\<lambda>x. low (snd x) < low m) xs)"
  by (simp add: before_def takeWhile_map comp_def)

lemma after_map: "after m (map snd xs) = map snd (dropWhile (\<lambda>x. low (snd x) < low m) xs)"
  by (simp add: after_def dropWhile_map comp_def)

text \<open>
  Inserting. When the new span touches neither neighbour, the other nodes keep their addresses.
\<close>

lemma list_insert_nodes:
  assumes h: "holds_list l xs" and wf: "wf_spans (map snd xs)" and m: "low m < high m"
    and ps: "ps = takeWhile (\<lambda>x. low (snd x) < low m) xs"
    and qs: "qs = dropWhile (\<lambda>x. low (snd x) < low m) xs"
  shows "\<exists>l' ys. list_insert l m = Inr l' \<and> holds_list l' ys \<and> map snd ys = insert_span m (map snd xs) \<and>
           ((ps = [] \<or> \<not> check_merge (snd (last ps)) m) \<and> (qs = [] \<or> \<not> check_merge m (snd (hd qs)))
             \<longrightarrow> (\<exists>n. ys = ps @ (n, m) # qs))"
proof -
  let ?A = "fst ` set xs"
  have xs: "xs = ps @ qs" by (simp add: ps qs)
  have bef: "before m (map snd xs) = map snd ps" and aft: "after m (map snd xs) = map snd qs"
    by (simp_all add: before_map after_map ps qs)
  have low_qs: "\<forall>q \<in> set qs. low m \<le> low (snd q)"
    using in_after [OF wf, of _ m] by (auto simp: aft)
  have low_ps: "\<forall>q \<in> set ps. low (snd q) < low m"
    using in_before [of _ m "map snd xs"] by (auto simp: bef)
  have pool: "pool_ok l ?A" and lk: "links l xs ?A" and sz: "list_size l = length xs"
    using h by (simp_all add: holds_list_def links_def)
  obtain l1 n where cr: "node_create l m = Inr (l1, n)" "n \<notin> ?A" "pool_ok l1 (insert n ?A)"
    "nodes l1 = (nodes l)(n \<mapsto> \<lparr>prev = None, nxt = None, mem = m\<rparr>)" "head l1 = head l" "tail l1 = tail l"
    "list_size l1 = list_size l"
    using node_create_ok [OF pool] by blast
  show ?thesis
  proof (cases xs)
    case Nil
    let ?l = "(put_node l1 n \<lparr>prev = None, nxt = None, mem = m\<rparr>)\<lparr>head := Some n, tail := Some n, list_size := 1\<rparr>"
    have "head l = None" using lk Nil by (simp add: links_def)
    then have "list_insert l m = Inr ?l" using m cr by (simp add: list_insert_def)
    moreover have "holds_list ?l [(n, m)]"
      using cr Nil by (simp add: holds_list_def links_def)
    ultimately show ?thesis using Nil xs
      by (intro exI [of _ ?l] exI [of _ "[(n, m)]"]) (simp add: insert_span_def before_def after_def)
  next
    case (Cons x xs')
    have l1: "links l1 (ps @ qs) (insert n ?A)"
      using lk cr unfolding xs [symmetric] by (auto simp: links_def)
    have ne: "ps @ qs \<noteq> []" "n \<notin> fst ` set (ps @ qs)" using Cons cr(2) xs by auto
    obtain h0 where h0: "head l1 = Some h0" using cr(5) holds_listD(1) [OF h] Cons by auto
    have "dll (nodes l1) None xs None"
      using holds_listD(3) [OF h] cr(2,4) by simp
    then have "list_seek l1 m = Inr (first_addr None qs)"
      using seek_from_ok [of l1 None xs "Suc (list_size l1)" m] holds_listD(1) [OF h] cr(5,7) sz
      by (simp add: list_seek_def qs)
    note sk = this
    obtain l2 where l2: "link_node l1 n (first_addr None qs) = Inr l2"
      "links l2 (ps @ (n, m) # qs) (insert n ?A)" "list_size l2 = list_size l1"
      using link_node_ok [OF l1 ne(1) _ ne(2), of "\<lparr>prev = None, nxt = None, mem = m\<rparr>" m] cr(4) by auto
    define l3 where "l3 = l2\<lparr>list_size := Suc (list_size l2)\<rparr>"
    have l3: "links l3 (ps @ (n, m) # qs) (insert n ?A)" "list_size l3 = length (ps @ (n, m) # qs)"
      using l2 cr(7) sz xs by (simp_all add: l3_def)
    have A: "insert n ?A = fst ` set (ps @ (n, m) # qs)" by (auto simp: xs)
    have n: "nodes l3 n = Some \<lparr>prev = last_addr None ps, nxt = first_addr None qs, mem = m\<rparr>"
      using l3(1) by (simp add: links_def)
    have ins: "list_insert l m =
        bindE (case last_addr None ps of None \<Rightarrow> Inr (l3, n)
               | Some p \<Rightarrow> bindE (get_node l3 p) (\<lambda>y. bindE (list_check_merge (mem y) m) (\<lambda>c.
                   if c then bindE (list_merge l3 p n) (\<lambda>l. Inr (l, p)) else Inr (l3, n))))
          (\<lambda>(l, n). merge_successors (Suc (list_size l)) l n)"
      using m cr(1) n l2(1) sk h0 unfolding l3_def
      by (simp add: list_insert_def Let_def del: merge_successors.simps cong: option.case_cong)
    show ?thesis
    proof (cases "ps = [] \<or> \<not> check_merge (snd (last ps)) m")
      case True
      have "(case last_addr None ps of None \<Rightarrow> Inr (l3, n)
               | Some p \<Rightarrow> bindE (get_node l3 p) (\<lambda>y. bindE (list_check_merge (mem y) m) (\<lambda>c.
                   if c then bindE (list_merge l3 p n) (\<lambda>l. Inr (l, p)) else Inr (l3, n)))) = Inr (l3, n)"
      proof (cases ps rule: rev_cases)
        case (snoc ps' p)
        obtain a u where p: "p = (a, u)" by (cases p)
        have "nodes l3 a = Some \<lparr>prev = last_addr None ps', nxt = Some n, mem = u\<rparr>"
          using l3(1) by (simp add: links_def snoc p)
        then show ?thesis using True low_ps by (simp add: snoc p list_check_merge_def less_imp_le)
      qed simp
      then have run: "list_insert l m = merge_successors (Suc (list_size l3)) l3 n" using ins by simp
      obtain l' ys where r: "merge_successors (Suc (list_size l3)) l3 n = Inr l'"
        "links l' (ps @ ys) (fst ` set (ps @ ys))" "list_size l' = length (ps @ ys)"
        "map snd ys = absorb m (map snd qs)" "qs = [] \<or> \<not> check_merge m (snd (hd qs)) \<longrightarrow> ys = (n, m) # qs"
        using merge_successors_ok [OF l3(1), of "Suc (list_size l3)"] l3(2) low_qs A by auto
      have "insert_span m (map snd xs) = map snd (ps @ ys)"
        using True by (auto simp: insert_span_def Let_def bef aft r(4) last_map)
      then show ?thesis using run r True
        by (intro exI [of _ l'] exI [of _ "ps @ ys"]) (auto simp: holds_list_def)
    next
      case False
      then obtain ps' a u where p: "ps = ps' @ [(a, u)]" by (metis rev_exhaust surj_pair)
      have lu: "low u < low m" using low_ps by (simp add: p)
      have na: "nodes l3 a = Some \<lparr>prev = last_addr None ps', nxt = Some n, mem = u\<rparr>"
        using l3(1) by (simp add: links_def p)
      obtain l4 where l4: "list_merge l3 a n = Inr l4" "links l4 (ps' @ (a, merged u m) # qs) (insert n ?A - {n})"
        "list_size l4 = list_size l3 - 1"
        using list_merge_ok [OF _ less_imp_le [OF lu], of l3 ps' a n qs "insert n ?A"] l3(1) unfolding p
        by auto
      have run: "list_insert l m = merge_successors (Suc (list_size l4)) l4 a"
        using ins na l4(1) lu False by (simp add: p list_check_merge_def less_imp_le)
      have "insert n ?A - {n} = fst ` set (ps' @ (a, merged u m) # qs)"
        using cr(2) by (auto simp: xs p)
      moreover have "\<forall>q \<in> set qs. low u \<le> low (snd q)" using low_qs lu by force
      ultimately obtain l' ys where r: "merge_successors (Suc (list_size l4)) l4 a = Inr l'"
        "links l' (ps' @ ys) (fst ` set (ps' @ ys))" "list_size l' = length (ps' @ ys)"
        "map snd ys = absorb (merged u m) (map snd qs)"
        using merge_successors_ok [OF l4(2), of "Suc (list_size l4)"] l4(3) l3(2) by (auto simp: p)
      have "insert_span m (map snd xs) = map snd (ps' @ ys)"
        using False by (simp add: insert_span_def Let_def bef aft r(4) p)
      then show ?thesis using run r False
        by (intro exI [of _ l'] exI [of _ "ps' @ ys"]) (simp add: holds_list_def)
    qed
  qed
qed

end
