(* ===== verification/Node_List_Ops.thy ===== *)
theory Node_List_Ops
  imports Node_List_Refine
begin

text \<open>
  The lists of \<open>lib/dsm-prefetch/src/list.c\<close> from the outside: removing, searching and clearing, the
  spans of a list as a function of it, and the contract \<open>span_store\<close> on which the prefetch library
  (\<open>Prefetch\<close>) rests.
\<close>

section \<open>Removing\<close>

lemma holds_node:
  "holds_list l (ps @ (a, s) # qs) \<Longrightarrow>
   nodes l a = Some \<lparr>prev = last_addr None ps, nxt = first_addr None qs, mem = s\<rparr>"
  by (simp add: holds_list_def links_def)

lemma holds_list_delete:
  assumes "holds_list l (ps @ (a, s) # qs)"
  shows "\<exists>l'. list_delete l a = Inr (l', first_addr None qs) \<and> holds_list l' (ps @ qs)"
proof -
  have "distinct (map fst (ps @ (a, s) # qs))" using holds_listD(5) [OF assms] .
  then have "fst ` set (ps @ (a, s) # qs) - {a} = fst ` set (ps @ qs)" by auto
  then show ?thesis
    using assms list_delete_ok [of l ps a s qs "fst ` set (ps @ (a, s) # qs)"]
    by (auto simp: holds_list_def)
qed

lemma holds_put_mem:
  assumes h: "holds_list l (ps @ (a, s) # qs)" and n: "nodes l a = Some n"
  shows "holds_list (put_node l a (n\<lparr>mem := t\<rparr>)) (ps @ (a, t) # qs)"
proof -
  have "a \<notin> fst ` set ps" "a \<notin> fst ` set qs" using holds_listD(5) [OF h] by auto
  then show ?thesis using h n by (auto simp: holds_list_def links_def)
qed

text \<open>The loop over the successors is \<open>trim\<close>.\<close>

lemma trim_successors_ok:
  assumes "holds_list l (ps @ qs)" "length qs < fuel" "\<forall>q \<in> set qs. low m \<le> low (snd q)" "low m < high m"
  shows "\<exists>l' ys. trim_successors fuel l m (first_addr None qs) = Inr l' \<and> holds_list l' (ps @ ys) \<and>
           map snd ys = trim m (map snd qs)"
  using assms
proof (induction qs arbitrary: l fuel)
  case Nil
  then show ?case by auto
next
  case (Cons q qs)
  obtain a s where q: "q = (a, s)" by (cases q)
  note na = holds_node [OF Cons.prems(1) [unfolded q]]
  obtain f where f: "fuel = Suc f" "length qs < f" using Cons.prems(2) by (cases fuel) auto
  have le: "low m \<le> low s" using Cons.prems(3) by (simp add: q)
  show ?case
  proof (cases "check_overlap m s")
    case False
    then show ?thesis using Cons.prems(1) na le
      by (intro exI [of _ l] exI [of _ "q # qs"]) (simp add: q f list_check_overlap_def)
  next
    case ov: True
    show ?thesis
    proof (cases "check_contained m s")
      case True
      obtain l1 where l1: "list_delete l a = Inr (l1, first_addr None qs)" "holds_list l1 (ps @ qs)"
        using holds_list_delete Cons.prems(1) unfolding q by blast
      obtain l' ys where "trim_successors f l1 m (first_addr None qs) = Inr l'" "holds_list l' (ps @ ys)"
        "map snd ys = trim m (map snd qs)"
        using Cons.IH [OF l1(2) f(2)] Cons.prems by auto
      then show ?thesis using na ov True le l1(1)
        by (intro exI [of _ l'] exI [of _ ys])
           (simp add: q f(1) list_check_overlap_def list_check_contained_def)
    next
      case False
      let ?n = "\<lparr>prev = last_addr None ps, nxt = first_addr None qs, mem = s\<rparr>"
      let ?l = "put_node l a (?n\<lparr>mem := s\<lparr>low := high m\<rparr>\<rparr>)"
      obtain g where g: "f = Suc g" using f(2) by (cases f) auto
      have "holds_list ?l (ps @ (a, s\<lparr>low := high m\<rparr>) # qs)"
        using holds_put_mem [OF Cons.prems(1) [unfolded q] na] .
      moreover have "trim_successors fuel l m (Some a) = trim_successors f ?l m (Some a)"
        using na ov False le by (simp add: f(1) list_check_overlap_def list_check_contained_def)
      moreover have "\<not> check_overlap m (s\<lparr>low := high m\<rparr>)"
        using Cons.prems(4) by (simp add: check_overlap_def)
      ultimately show ?thesis using Cons.prems(4) ov False
        by (intro exI [of _ ?l] exI [of _ "(a, s\<lparr>low := high m\<rparr>) # qs"])
           (simp add: q g list_check_overlap_def less_imp_le)
    qed
  qed
qed

lemma While_split:
  "\<forall>x \<in> set ps. P x \<Longrightarrow> qs = [] \<or> \<not> P (hd qs) \<Longrightarrow> takeWhile P (ps @ qs) = ps \<and> dropWhile P (ps @ qs) = qs"
  by (cases qs) auto

text \<open>The predecessor is cut, or split in two.\<close>

lemma split_predecessor_ok:
  assumes h: "holds_list l (ps @ (a, u) # qs)" and wf: "wf_spans (map snd (ps @ (a, u) # qs))"
    and m: "low u < low m" "low m < high m" "high m < high u"
  shows "\<exists>l1 l2 l3 n1 n2. list_delete l a = Inr (l1, first_addr None qs) \<and>
           list_insert l1 \<lparr>low = low u, high = low m\<rparr> = Inr l2 \<and>
           list_insert l2 \<lparr>low = high m, high = high u\<rparr> = Inr l3 \<and>
           holds_list l3 (ps @ (n1, u\<lparr>high := low m\<rparr>) # (n2, u\<lparr>low := high m\<rparr>) # qs)"
proof -
  let ?s = "\<lparr>low = low u, high = low m\<rparr>" and ?t = "\<lparr>low = high m, high = high u\<rparr>"
  have st: "u\<lparr>high := low m\<rparr> = ?s" "u\<lparr>low := high m\<rparr> = ?t" by simp_all
  have ps: "\<forall>p \<in> set ps. low (snd p) < high (snd p) \<and> high (snd p) < low u"
    and qs: "\<forall>q \<in> set qs. high u < low (snd q)"
    using wf by (auto simp: wf_spans_def sorted_wrt_append)
  have hq: "qs = [] \<or> high u < low (snd (hd qs))" using qs by (cases qs) auto
  have u: "low u < high u" using m by simp
  obtain l1 where l1: "list_delete l a = Inr (l1, first_addr None qs)" "holds_list l1 (ps @ qs)"
    using holds_list_delete [OF h] by blast
  have wf1: "wf_spans (map snd (ps @ qs))" using wf by auto
  have "takeWhile (\<lambda>x. low (snd x) < low u) (ps @ qs) = ps \<and> dropWhile (\<lambda>x. low (snd x) < low u) (ps @ qs) = qs"
    using ps hq u by (intro While_split) (auto dest: order.strict_trans simp: not_less less_imp_le)
  moreover have "\<not> check_merge (snd (last ps)) ?s" if "ps \<noteq> []"
  proof -
    have "last ps \<in> set ps" using that by simp
    then have "low (snd (last ps)) < high (snd (last ps))" "high (snd (last ps)) < low u" using ps by auto
    then show ?thesis by (auto simp: check_merge_def)
  qed
  moreover have "\<not> check_merge ?s (snd (hd qs))" if "qs \<noteq> []"
  proof -
    have "high u < low (snd (hd qs))" using qs that by simp
    then show ?thesis using m by (auto simp: check_merge_def)
  qed
  ultimately obtain l2 n1 where l2: "list_insert l1 ?s = Inr l2" "holds_list l2 (ps @ (n1, ?s) # qs)"
    using list_insert_nodes [OF l1(2) wf1, of ?s ps qs] m(1) by auto
  let ?ps = "ps @ [(n1, ?s)]"
  have h2: "holds_list l2 (?ps @ qs)" using l2(2) by simp
  have wf2: "wf_spans (map snd (?ps @ qs))" using wf1 ps qs m by auto
  have "takeWhile (\<lambda>x. low (snd x) < high m) (?ps @ qs) = ?ps \<and>
        dropWhile (\<lambda>x. low (snd x) < high m) (?ps @ qs) = qs"
    using ps hq m by (intro While_split) (auto dest: order.strict_trans simp: not_less less_imp_le)
  moreover have "\<not> check_merge (snd (last ?ps)) ?t" using m by (auto simp: check_merge_def)
  moreover have "\<not> check_merge ?t (snd (hd qs))" if "qs \<noteq> []"
  proof -
    have "high u < low (snd (hd qs))" using qs that by simp
    then show ?thesis using m by (auto simp: check_merge_def)
  qed
  ultimately obtain l3 n2 where l3: "list_insert l2 ?t = Inr l3" "holds_list l3 (?ps @ (n2, ?t) # qs)"
    using list_insert_nodes [OF h2 wf2, of ?t ?ps qs] m(3) by auto
  show ?thesis unfolding st using l1(1) l2(1) l3 by (intro exI conjI) (auto intro: l3(2))
qed

lemma list_remove_ok:
  assumes h: "holds_list l xs" and wf: "wf_spans (map snd xs)" and m: "low m < high m"
  shows "\<exists>l' ys. list_remove l m = Inr l' \<and> holds_list l' ys \<and> map snd ys = remove_span m (map snd xs)"
proof (cases "xs = []")
  case True
  then show ?thesis using h m holds_listD(1) [OF h]
    by (intro exI [of _ l] exI [of _ xs]) (simp add: list_remove_def remove_span_def before_def after_def)
next
  case False
  define ps where "ps = takeWhile (\<lambda>x. low (snd x) < low m) xs"
  define qs where "qs = dropWhile (\<lambda>x. low (snd x) < low m) xs"
  have xs: "xs = ps @ qs" by (simp add: ps_def qs_def)
  have bef: "before m (map snd xs) = map snd ps" and aft: "after m (map snd xs) = map snd qs"
    by (simp_all add: before_map after_map ps_def qs_def)
  have qs: "\<forall>q \<in> set qs. low m \<le> low (snd q)" using in_after [OF wf, of _ m] by (auto simp: aft)
  have ps: "\<forall>p \<in> set ps. low (snd p) < low m" using in_before [of _ m "map snd xs"] by (auto simp: bef)
  have head: "head l \<noteq> None" using holds_listD(1) [OF h] False by (cases xs) auto
  have seek: "list_seek l m = Inr (first_addr None qs)" using list_seek_ok [OF h] by (simp add: qs_def)
  have hl: "holds_list l (ps @ qs)" using h xs by simp
  have prv: "(case first_addr None qs of Some c \<Rightarrow> bindE (get_node l c) (\<lambda>nc. Inr (prev nc)) | None \<Rightarrow> Inr (tail l))
      = Inr (last_addr None ps)"
  proof (cases qs)
    case Nil
    then show ?thesis using holds_listD(2) [OF hl] by simp
  next
    case (Cons q qs')
    then show ?thesis using holds_node [of l ps "fst q" "snd q" qs'] hl by simp
  qed
  have "\<exists>l' ps'. (case last_addr None ps of None \<Rightarrow> Inr l
                 | Some p \<Rightarrow>
                     bindE (get_node l p) (\<lambda>np. bindE (list_check_overlap (mem np) m) (\<lambda>c.
                       if c then
                         if high (mem np) \<le> high m
                         then Inr (put_node l p (np\<lparr>mem := (mem np)\<lparr>high := low m\<rparr>\<rparr>))
                         else
                           bindE (list_delete l p) (\<lambda>(l, _).
                           bindE (list_insert l \<lparr>low = low (mem np), high = low m\<rparr>) (\<lambda>l.
                             list_insert l \<lparr>low = high m, high = high (mem np)\<rparr>))
                       else Inr l))) = Inr l' \<and> holds_list l' (ps' @ qs) \<and>
        map snd ps' = (if ps = [] then [] else butlast (map snd ps) @ cut m (snd (last ps)))"
    (is "\<exists>l' ps'. ?X = Inr l' \<and> _ l' ps' \<and> _ ps'")
  proof (cases ps rule: rev_cases)
    case Nil
    then show ?thesis using hl by (intro exI [of _ l] exI [of _ "[]"]) simp
  next
    case (snoc ps0 p)
    obtain a u where p: "p = (a, u)" by (cases p)
    have hp: "holds_list l (ps0 @ (a, u) # qs)" using hl by (simp add: snoc p)
    note na = holds_node [OF hp]
    have lu: "low u < low m" using ps by (simp add: snoc p)
    show ?thesis
    proof (cases "check_overlap u m")
      case False
      then show ?thesis using hl na lu
        by (intro exI [of _ l] exI [of _ ps]) (simp add: snoc p list_check_overlap_def less_imp_le cut_def)
    next
      case ov: True
      show ?thesis
      proof (cases "high u \<le> high m")
        case True
        let ?n = "\<lparr>prev = last_addr None ps0, nxt = first_addr None qs, mem = u\<rparr>"
        show ?thesis using na lu ov True holds_put_mem [OF hp na, of "u\<lparr>high := low m\<rparr>"]
          by (intro exI [of _ "put_node l a (?n\<lparr>mem := u\<lparr>high := low m\<rparr>\<rparr>)"]
                exI [of _ "ps0 @ [(a, u\<lparr>high := low m\<rparr>)]"])
             (simp add: snoc p list_check_overlap_def less_imp_le cut_def)
      next
        case False
        then have hu: "high m < high u" by simp
        have "wf_spans (map snd (ps0 @ (a, u) # qs))" using wf xs by (simp add: snoc p)
        from split_predecessor_ok [OF hp this lu m hu] obtain l1 l2 l3 n1 n2 where
          "list_delete l a = Inr (l1, first_addr None qs)"
          "list_insert l1 \<lparr>low = low u, high = low m\<rparr> = Inr l2"
          "list_insert l2 \<lparr>low = high m, high = high u\<rparr> = Inr l3"
          "holds_list l3 (ps0 @ (n1, u\<lparr>high := low m\<rparr>) # (n2, u\<lparr>low := high m\<rparr>) # qs)" by blast
        then show ?thesis using na lu ov False
          by (intro exI [of _ l3] exI [of _ "ps0 @ [(n1, u\<lparr>high := low m\<rparr>), (n2, u\<lparr>low := high m\<rparr>)]"])
             (simp add: snoc p list_check_overlap_def less_imp_le cut_def)
      qed
    qed
  qed
  then obtain l1 ps' where l1: "?X = Inr l1" "holds_list l1 (ps' @ qs)"
    "map snd ps' = (if ps = [] then [] else butlast (map snd ps) @ cut m (snd (last ps)))" by blast
  have "length qs < Suc (list_size l1) + 1" using holds_listD(4) [OF l1(2)] by simp
  from trim_successors_ok [OF l1(2) this qs m] obtain l' ys where
    r: "trim_successors (Suc (list_size l1) + 1) l1 m (first_addr None qs) = Inr l'" "holds_list l' (ps' @ ys)"
    "map snd ys = trim m (map snd qs)" by blast
  have "list_remove l m = trim_successors (Suc (list_size l1) + 1) l1 m (first_addr None qs)"
    using m head by (simp add: list_remove_def seek prv l1(1) del: trim_successors.simps)
  then show ?thesis using r l1(3)
    by (intro exI [of _ l'] exI [of _ "ps' @ ys"]) (simp add: remove_span_def Let_def bef aft last_map)
qed

section \<open>Searching and clearing\<close>

text \<open>
  Searching answers for every span that does not start before the whole list. For one that does, \<open>list_overlaps\<close>
  reads through the null \<open>prev\<close> of the head.
\<close>

lemma list_overlaps_ok:
  assumes h: "holds_list l xs" and m: "low m < high m" and wf: "wf_spans (map snd xs)"
  shows "list_overlaps l m =
           (if xs \<noteq> [] \<and> before m (map snd xs) = [] then Inl Undef else Inr (overlaps_span m (map snd xs)))"
proof (cases "xs = []")
  case True
  then show ?thesis using m holds_listD(1) [OF h]
    by (simp add: list_overlaps_def overlaps_span_def before_def after_def)
next
  case False
  define ps where "ps = takeWhile (\<lambda>x. low (snd x) < low m) xs"
  define qs where "qs = dropWhile (\<lambda>x. low (snd x) < low m) xs"
  have hl: "holds_list l (ps @ qs)" using h by (simp add: ps_def qs_def)
  have bef: "before m (map snd xs) = map snd ps" and aft: "after m (map snd xs) = map snd qs"
    by (simp_all add: before_map after_map ps_def qs_def)
  have qs: "\<forall>q \<in> set qs. low m \<le> low (snd q)" using in_after [OF wf, of _ m] by (auto simp: aft)
  have ps: "\<forall>p \<in> set ps. low (snd p) < low m" using in_before [of _ m "map snd xs"] by (auto simp: bef)
  have head: "head l \<noteq> None" using holds_listD(1) [OF h] False by (cases xs) auto
  have seek: "list_seek l m = Inr (first_addr None qs)" using list_seek_ok [OF h] by (simp add: qs_def)
  have tl: "tail l = last_addr None ps" if "qs = []" using holds_listD(2) [OF hl] that by simp
  have le: "low (snd p) \<le> low m" "nodes l (fst p) = Some \<lparr>prev = last_addr None ps0, nxt = first_addr None qs, mem = snd p\<rparr>"
    if "ps = ps0 @ [p]" for ps0 p
    using ps that holds_node [of l ps0 "fst p" "snd p" qs] hl by (auto intro: less_imp_le)
  show ?thesis
  proof (cases qs)
    case Nil
    then obtain ps0 p where "ps = ps0 @ [p]" using False ps_def qs_def
      by (metis rev_exhaust append_Nil2 takeWhile_dropWhile_id)
    then show ?thesis using head seek m tl le [of ps0 p] Nil False
      by (simp add: list_overlaps_def bef aft overlaps_span_def list_check_overlap_def)
  next
    case (Cons q qs')
    have nq: "nodes l (fst q) = Some \<lparr>prev = last_addr None ps, nxt = first_addr None qs', mem = snd q\<rparr>"
      using holds_node [of l ps "fst q" "snd q" qs'] hl by (simp add: Cons)
    have "low m \<le> low (snd q)" using qs by (simp add: Cons)
    then show ?thesis using head seek m nq Cons False le
      by (cases ps rule: rev_cases)
         (auto simp: list_overlaps_def bef aft overlaps_span_def list_check_overlap_def)
  qed
qed

lemma clear_from_ok:
  assumes "dll (nodes l) p xs None" "distinct (map fst xs)" "pool_ok l (fst ` set xs)" "length xs < fuel"
  shows "\<exists>l'. clear_from fuel l (first_addr None xs) = Inr l' \<and> pool_ok l' {}"
  using assms
proof (induction xs arbitrary: p l fuel)
  case Nil
  then show ?case by simp
next
  case (Cons x xs)
  obtain a s where x: "x = (a, s)" by (cases x)
  obtain f where f: "fuel = Suc f" "length xs < f" using Cons.prems(4) by (cases fuel) auto
  have na: "a \<notin> fst ` set xs" using Cons.prems(2) by (auto simp: x)
  obtain l1 where l1: "node_free l a = Inr l1" "pool_ok l1 (fst ` set (x # xs) - {a})"
    "nodes l1 = (nodes l)(a := None)"
    using node_free_ok [OF Cons.prems(3), of a] by (auto simp: x)
  have "fst ` set (x # xs) - {a} = fst ` set xs" using na by (auto simp: x)
  then have "pool_ok l1 (fst ` set xs)" using l1(2) by simp
  moreover have "dll (nodes l1) (Some a) xs None" using Cons.prems(1) l1(3) na by (simp add: x)
  ultimately show ?case using Cons.IH [OF _ _ _ f(2)] Cons.prems(1,2) l1(1) by (auto simp: x f(1))
qed

lemma list_clear_ok:
  assumes "holds_list l xs"
  shows "\<exists>l'. list_clear l = Inr l' \<and> holds_list l' []"
  using clear_from_ok [of l None xs "Suc (list_size l)"] assms
  by (auto simp: holds_list_def links_def list_clear_def)

lemma list_init_ok:
  "0 \<le> i \<Longrightarrow> i < MAX_POPCORN_NODES \<Longrightarrow> k < NUM_CACHE \<Longrightarrow>
   \<exists>l'. list_init k i = Inr (l', Suc k) \<and> holds_list l' []"
  by (simp add: list_init_def holds_list_def links_def pool_ok_def)

section \<open>The spans of a list\<close>

text \<open>Reading the spans along the \<open>next\<close> pointers, as the iterators do.\<close>

fun walk :: "nat \<Rightarrow> list_t \<Rightarrow> nat option \<Rightarrow> memory_span list" where
  "walk fuel l None = []"
| "walk 0 l (Some a) = []"
| "walk (Suc fuel) l (Some a) = (case nodes l a of None \<Rightarrow> [] | Some n \<Rightarrow> mem n # walk fuel l (nxt n))"

definition spans :: "list_t \<Rightarrow> memory_span list" where
  "spans l = walk (list_size l) l (head l)"

lemma walk_dll:
  "dll (nodes l) p xs None \<Longrightarrow> length xs \<le> fuel \<Longrightarrow> walk fuel l (first_addr None xs) = map snd xs"
proof (induction xs arbitrary: p fuel)
  case (Cons x xs)
  obtain a s where "x = (a, s)" by (cases x)
  moreover obtain f where "fuel = Suc f" using Cons.prems(2) by (cases fuel) auto
  ultimately show ?case using Cons by auto
qed simp

lemma holds_spans: "holds_list l xs \<Longrightarrow> spans l = map snd xs"
  using walk_dll [OF holds_listD(3), of l xs "list_size l"] holds_listD(1,4) [of l xs] by (simp add: spans_def)

text \<open>A list in order: linked both ways, its size and its cache right, its spans sorted with gaps.\<close>

definition list_ok :: "list_t \<Rightarrow> bool" where
  "list_ok l \<longleftrightarrow> (\<exists>xs. holds_list l xs) \<and> wf_spans (spans l)"

lemma list_okE:
  assumes "list_ok l"
  obtains xs where "holds_list l xs" "spans l = map snd xs" "wf_spans (map snd xs)"
  using assms holds_spans by (metis list_ok_def)

lemma list_okI: "holds_list l xs \<Longrightarrow> map snd xs = ms \<Longrightarrow> wf_spans ms \<Longrightarrow> list_ok l \<and> spans l = ms"
  using holds_spans by (auto simp: list_ok_def)

lemma insert_ok:
  assumes l: "list_ok l" and m: "low m < high m"
  shows "\<exists>l'. list_insert l m = Inr l' \<and> list_ok l' \<and> spans l' = insert_span m (spans l)"
proof -
  obtain xs where xs: "holds_list l xs" "spans l = map snd xs" "wf_spans (map snd xs)"
    using l by (rule list_okE)
  from list_insert_nodes [OF xs(1,3) m refl refl] obtain l' ys where
    "list_insert l m = Inr l'" "holds_list l' ys" "map snd ys = insert_span m (map snd xs)" by blast
  then show ?thesis using list_okI insert_span_spec [OF xs(3) m] xs(2) by metis
qed

lemma remove_ok:
  assumes l: "list_ok l" and m: "low m < high m"
  shows "\<exists>l'. list_remove l m = Inr l' \<and> list_ok l' \<and> spans l' = remove_span m (spans l)"
proof -
  obtain xs where xs: "holds_list l xs" "spans l = map snd xs" "wf_spans (map snd xs)"
    using l by (rule list_okE)
  from list_remove_ok [OF xs(1,3) m] obtain l' ys where
    "list_remove l m = Inr l'" "holds_list l' ys" "map snd ys = remove_span m (map snd xs)" by blast
  then show ?thesis using list_okI remove_span_spec [OF xs(3) m] xs(2) by metis
qed

lemma clear_ok:
  assumes "list_ok l"
  shows "\<exists>l'. list_clear l = Inr l' \<and> list_ok l' \<and> spans l' = []"
  using assms list_clear_ok list_okI [of _ "[]" "[]"] by (metis list_okE list.map(1) wf_spans_simps(1))

lemma init_ok:
  assumes "0 \<le> i" "i < MAX_POPCORN_NODES" "k < NUM_CACHE"
  shows "\<exists>l'. list_init k i = Inr (l', Suc k) \<and> list_ok l' \<and> spans l' = []"
  using list_init_ok [OF assms] list_okI [of _ "[]" "[]"] by auto

lemma list_size_spans: "list_ok l \<Longrightarrow> list_size l = length (spans l)"
  by (auto elim!: list_okE dest: holds_listD(4))

lemma list_ok_wf: "list_ok l \<Longrightarrow> wf_spans (spans l)"
  by (simp add: list_ok_def)

section \<open>The contract of a store of spans\<close>

text \<open>
  What the prefetch library needs of its lists: inserting and removing never fail on a \<open>good\<close> span,
  keep the list \<open>ok\<close>, and change the addresses it stands for by exactly the span's.
\<close>

fun each :: "('s \<Rightarrow> 'a \<Rightarrow> 's result) \<Rightarrow> 's \<Rightarrow> 'a list \<Rightarrow> 's result" where
  "each f s [] = Inr s"
| "each f s (x # xs) = bindE (f s x) (\<lambda>s. each f s xs)"

locale span_store =
  fixes good :: "memory_span \<Rightarrow> bool"
    and ok :: "'l \<Rightarrow> bool"
    and addrs :: "'l \<Rightarrow> u64 set"
    and ins :: "'l \<Rightarrow> memory_span \<Rightarrow> 'l result"
    and rem :: "'l \<Rightarrow> memory_span \<Rightarrow> 'l result"
  assumes ins: "ok l \<Longrightarrow> good m \<Longrightarrow> \<exists>l'. ins l m = Inr l' \<and> ok l' \<and> addrs l' = addrs l \<union> addresses m"
    and rem: "ok l \<Longrightarrow> good m \<Longrightarrow> \<exists>l'. rem l m = Inr l' \<and> ok l' \<and> addrs l' = addrs l - addresses m"
begin

text \<open>Removing, or inserting, many spans.\<close>

lemma rem_all:
  assumes "ok l" "\<forall>m \<in> set ms. good m"
  shows "\<exists>l'. each rem l ms = Inr l' \<and> ok l' \<and> addrs l' = addrs l - covered ms"
  using assms
proof (induction ms arbitrary: l)
  case (Cons m ms)
  obtain l1 where l1: "rem l m = Inr l1" "ok l1" "addrs l1 = addrs l - addresses m"
    using rem [of l m] Cons.prems by auto
  then show ?case using Cons.IH [OF l1(2)] Cons.prems by (auto simp: Diff_eq Un_assoc)
qed simp

lemma ins_all:
  assumes "ok l" "\<forall>m \<in> set ms. good m"
  shows "\<exists>l'. each ins l ms = Inr l' \<and> ok l' \<and> addrs l' = addrs l \<union> covered ms"
  using assms
proof (induction ms arbitrary: l)
  case (Cons m ms)
  obtain l1 where l1: "ins l m = Inr l1" "ok l1" "addrs l1 = addrs l \<union> addresses m"
    using ins [of l m] Cons.prems by auto
  then show ?case using Cons.IH [OF l1(2)] Cons.prems by (auto simp: Un_assoc)
qed simp

end

interpretation lists: span_store "\<lambda>m. low m < high m" list_ok "\<lambda>l. covered (spans l)" list_insert list_remove
proof (unfold_locales, goal_cases)
  case (1 l m)
  then show ?case using insert_ok [OF 1] insert_span_spec [OF list_ok_wf [OF 1(1)] 1(2)] by auto
next
  case (2 l m)
  then show ?case using remove_ok [OF 2] remove_span_spec [OF list_ok_wf [OF 2(1)] 2(2)] by auto
qed

text \<open>The same for spans whose bounds are in a set of addresses, as the bounds of pages are.\<close>

lemma insert_bounds_ok:
  assumes "list_ok l" "bounds (spans l) \<subseteq> B" "low m < high m" "{low m, high m} \<subseteq> B"
  shows "\<exists>l'. list_insert l m = Inr l' \<and> (list_ok l' \<and> bounds (spans l') \<subseteq> B) \<and>
           covered (spans l') = covered (spans l) \<union> addresses m"
proof -
  obtain l' where "list_insert l m = Inr l'" "list_ok l'" "spans l' = insert_span m (spans l)"
    using insert_ok [OF assms(1,3)] by blast
  then show ?thesis
    using insert_span_bounds [of m "spans l"] insert_span_spec [OF list_ok_wf [OF assms(1)] assms(3)] assms(2,4)
    by auto
qed

lemma remove_bounds_ok:
  assumes "list_ok l" "bounds (spans l) \<subseteq> B" "low m < high m" "{low m, high m} \<subseteq> B"
  shows "\<exists>l'. list_remove l m = Inr l' \<and> (list_ok l' \<and> bounds (spans l') \<subseteq> B) \<and>
           covered (spans l') = covered (spans l) - addresses m"
proof -
  obtain l' where "list_remove l m = Inr l'" "list_ok l'" "spans l' = remove_span m (spans l)"
    using remove_ok [OF assms(1,3)] by blast
  then show ?thesis
    using remove_span_bounds [of m "spans l"] remove_span_spec [OF list_ok_wf [OF assms(1)] assms(3)] assms(2,4)
    by auto
qed

section \<open>Properties\<close>

text \<open>An example: a list of two spans, made by inserting them into a new list.\<close>

lemma example_list:
  "\<exists>l. list_ok l \<and> spans l = [\<lparr>low = 0x1000, high = 0x2000\<rparr>, \<lparr>low = 0x4000, high = 0x6000\<rparr>]"
proof -
  obtain l where l: "list_ok l" "spans l = []" using init_ok [of 0 0]
    by (auto simp: MAX_POPCORN_NODES_def NUM_CACHE_def)
  obtain l1 where l1: "list_ok l1" "spans l1 = insert_span \<lparr>low = 0x4000, high = 0x6000\<rparr> (spans l)"
    using insert_ok [OF l(1), of "\<lparr>low = 0x4000, high = 0x6000\<rparr>"] by auto
  obtain l2 where l2: "list_ok l2" "spans l2 = insert_span \<lparr>low = 0x1000, high = 0x2000\<rparr> (spans l1)"
    using insert_ok [OF l1(1), of "\<lparr>low = 0x1000, high = 0x2000\<rparr>"] by auto
  show ?thesis using l2 l1(2) l(2)
    by (auto simp: insert_span_def before_def after_def check_merge_def Let_def)
qed

text \<open>
  C14: Inserting a span into a list in order never faults and leaves a list in order, which is what
  the specification \<open>insert_span\<close> makes of its spans: the addresses are those of before and those of the new span.
\<close>

theorem list_insert_correct:
  assumes "list_ok l" "low m < high m"
  shows "\<exists>l'. list_insert l m = Inr l' \<and> list_ok l' \<and> spans l' = insert_span m (spans l) \<and>
           covered (spans l') = covered (spans l) \<union> addresses m"
  using insert_ok [OF assms] lists.ins [OF assms] by auto

theorem list_insert_correct_witness:
  "\<exists>l l'. spans l = [\<lparr>low = 0x1000, high = 0x2000\<rparr>, \<lparr>low = 0x4000, high = 0x6000\<rparr>] \<and>
          list_insert l \<lparr>low = 0x2000, high = 0x5000\<rparr> = Inr l' \<and> spans l' = [\<lparr>low = 0x1000, high = 0x6000\<rparr>]"
proof -
  obtain l where l: "list_ok l" "spans l = [\<lparr>low = 0x1000, high = 0x2000\<rparr>, \<lparr>low = 0x4000, high = 0x6000\<rparr>]"
    using example_list by blast
  then show ?thesis using list_insert_correct [OF l(1), of "\<lparr>low = 0x2000, high = 0x5000\<rparr>"]
    by (auto simp: insert_span_def before_def after_def check_merge_def merged_def Let_def max_def)
qed

text \<open>
  C15: Removing a span from a list in order never faults, splits the span around it if there is one, and
  leaves a list in order, which is what the specification \<open>remove_span\<close> makes of its spans: exactly the
  removed span's addresses are gone.
\<close>

theorem list_remove_correct:
  assumes "list_ok l" "low m < high m"
  shows "\<exists>l'. list_remove l m = Inr l' \<and> list_ok l' \<and> spans l' = remove_span m (spans l) \<and>
           covered (spans l') = covered (spans l) - addresses m"
  using remove_ok [OF assms] lists.rem [OF assms] by auto

theorem list_remove_correct_witness:
  "\<exists>l l'. spans l = [\<lparr>low = 0x1000, high = 0x2000\<rparr>, \<lparr>low = 0x4000, high = 0x6000\<rparr>] \<and>
          list_remove l \<lparr>low = 0x4800, high = 0x5000\<rparr> = Inr l' \<and>
          spans l' = [\<lparr>low = 0x1000, high = 0x2000\<rparr>, \<lparr>low = 0x4000, high = 0x4800\<rparr>,
                      \<lparr>low = 0x5000, high = 0x6000\<rparr>]"
proof -
  obtain l where l: "list_ok l" "spans l = [\<lparr>low = 0x1000, high = 0x2000\<rparr>, \<lparr>low = 0x4000, high = 0x6000\<rparr>]"
    using example_list by blast
  then show ?thesis using list_remove_correct [OF l(1), of "\<lparr>low = 0x4800, high = 0x5000\<rparr>"]
    by (auto simp: remove_span_def before_def after_def check_overlap_def cut_def Let_def)
qed

text \<open>
  \<open>list_overlaps\<close> says whether a span shares an address with the list, except for a span that does not
  start after the first span of the list: then it reads through the null \<open>prev\<close> of the head.
\<close>

theorem list_overlaps_correct:
  assumes "list_ok l" "low m < high m"
  shows "list_overlaps l m =
           (if spans l \<noteq> [] \<and> low m \<le> low (hd (spans l)) then Inl Undef
            else Inr (covered (spans l) \<inter> addresses m \<noteq> {}))"
proof -
  obtain xs where xs: "holds_list l xs" "spans l = map snd xs" "wf_spans (map snd xs)"
    using assms(1) by (rule list_okE)
  have "before m (map snd xs) = [] \<longleftrightarrow> low m \<le> low (hd (map snd xs))" if "xs \<noteq> []"
    using that by (cases xs) (auto simp: before_def)
  then show ?thesis
    using list_overlaps_ok [OF xs(1) assms(2) xs(3)] overlaps_span_spec [OF xs(3) assms(2)] xs(2)
    by (auto simp: list.map_disc_iff)
qed

theorem list_overlaps_correct_witness:
  "\<exists>l. spans l = [\<lparr>low = 0x1000, high = 0x2000\<rparr>, \<lparr>low = 0x4000, high = 0x6000\<rparr>] \<and>
       list_overlaps l \<lparr>low = 0x2000, high = 0x4000\<rparr> = Inr False \<and>
       list_overlaps l \<lparr>low = 0x0800, high = 0x1800\<rparr> = Inl Undef"
proof -
  obtain l where l: "list_ok l" "spans l = [\<lparr>low = 0x1000, high = 0x2000\<rparr>, \<lparr>low = 0x4000, high = 0x6000\<rparr>]"
    using example_list by blast
  then show ?thesis
    using list_overlaps_correct [OF l(1), of "\<lparr>low = 0x2000, high = 0x4000\<rparr>"]
      list_overlaps_correct [OF l(1), of "\<lparr>low = 0x0800, high = 0x1800\<rparr>"]
    by (auto simp: addresses_def disjoint_iff not_less)
qed

end
