(* ===== verification/Prefetch.thy ===== *)
theory Prefetch
  imports Node_List_Ops
begin

text \<open>
  The batching of prefetch requests (\<open>lib/dsm-prefetch/src/dsm-prefetch.c\<close>): per node of the cluster, a
  list of spans to be read, one to be written and one to be released, which are queued by the
  application's threads and sent to the kernel together. The node on which the thread runs, which
  \<open>popcorn_getnid\<close> asks the kernel for, is an argument.
\<close>

unbundle bit_operations_syntax

section \<open>State\<close>

datatype access_type = READ | WRITE | EXECUTE | RELEASE

record node_requests =
  read_reqs :: list_t
  write_reqs :: list_t
  release_reqs :: list_t

text \<open>
  A call of \<open>madvise\<close>: the address, the length and the advice. Its result is ignored, so the calls are
  only recorded.
\<close>

type_synonym advice = "u64 \<times> u64 \<times> int"

record prefetcher =
  requests :: "node_requests list"
  total_num :: u64
  advised :: "advice list"

definition MADV_READ :: int where "MADV_READ = 20"
definition MADV_WRITE :: int where "MADV_WRITE = 19"
definition MADV_RELEASE :: int where "MADV_RELEASE = 18"

text \<open>The statically allocated lists start out zero; \<open>prefetch_initialize\<close> initializes all of them.\<close>

definition zero_list :: list_t where
  "zero_list = \<lparr>nodes = (\<lambda>_. None), node_used = replicate NODE_CACHE_SIZE False, brk = NODE_CACHE_SIZE,
                head = None, tail = None, list_size = 0, nid = 0\<rparr>"

definition prefetch_initialize :: "prefetcher result" where
  "prefetch_initialize =
     bindE (for_loop 0 (nat MAX_POPCORN_NODES)
       (\<lambda>i (rs, cur_cache).
          bindE (list_init cur_cache (int i)) (\<lambda>(rd, cur_cache).
          bindE (list_init cur_cache (int i)) (\<lambda>(wr, cur_cache).
          bindE (list_init cur_cache (int i)) (\<lambda>(rl, cur_cache).
            Inr (rs[i := \<lparr>read_reqs = rd, write_reqs = wr, release_reqs = rl\<rparr>], cur_cache)))))
       (replicate (nat MAX_POPCORN_NODES) \<lparr>read_reqs = zero_list, write_reqs = zero_list, release_reqs = zero_list\<rparr>, 0))
     (\<lambda>(rs, _). Inr \<lparr>requests = rs, total_num = 0, advised = []\<rparr>)"

section \<open>Queueing\<close>

definition valid_nid :: "int \<Rightarrow> bool" where
  "valid_nid n \<longleftrightarrow> \<not> (n < 0 \<or> n \<ge> MAX_POPCORN_NODES)"

definition popcorn_prefetch_node :: "prefetcher \<Rightarrow> int \<Rightarrow> access_type \<Rightarrow> u64 \<Rightarrow> u64 \<Rightarrow> prefetcher result" where
  "popcorn_prefetch_node st n type lo hi =
     (let span = \<lparr>low = page_round_down lo, high = page_round_up hi\<rparr> in
      if \<not> valid_nid n then Inr st
      else if lo \<ge> hi then Inr st
      else
        bindE (arr (requests st) (nat n)) (\<lambda>r.
        bindE (case type of
                 READ \<Rightarrow> bindE (list_insert (read_reqs r) span) (\<lambda>l. Inr (r\<lparr>read_reqs := l\<rparr>))
               | WRITE \<Rightarrow> bindE (list_insert (write_reqs r) span) (\<lambda>l. Inr (r\<lparr>write_reqs := l\<rparr>))
               | RELEASE \<Rightarrow> bindE (list_insert (release_reqs r) span) (\<lambda>l. Inr (r\<lparr>release_reqs := l\<rparr>))
               | EXECUTE \<Rightarrow> Inl Abort) (\<lambda>r.
          Inr (st\<lparr>requests := (requests st)[nat n := r]\<rparr>))))"

definition popcorn_prefetch :: "int \<Rightarrow> prefetcher \<Rightarrow> access_type \<Rightarrow> u64 \<Rightarrow> u64 \<Rightarrow> prefetcher result" where
  "popcorn_prefetch cur st type lo hi = popcorn_prefetch_node st cur type lo hi"

definition popcorn_prefetch_num_requests :: "prefetcher \<Rightarrow> int \<Rightarrow> access_type \<Rightarrow> nat result" where
  "popcorn_prefetch_num_requests st n type =
     (if \<not> valid_nid n then Inr 0
      else
        bindE (arr (requests st) (nat n)) (\<lambda>r.
          case type of
            READ \<Rightarrow> Inr (list_size (read_reqs r))
          | WRITE \<Rightarrow> Inr (list_size (write_reqs r))
          | RELEASE \<Rightarrow> Inr (list_size (release_reqs r))
          | EXECUTE \<Rightarrow> Inl Abort))"

section \<open>Executing\<close>

definition prefetch_span :: "access_type \<Rightarrow> memory_span \<Rightarrow> advice result" where
  "prefetch_span type m =
     (case type of
        READ \<Rightarrow> Inr (low m, high m - low m, MADV_READ)
      | WRITE \<Rightarrow> Inr (low m, high m - low m, MADV_WRITE)
      | RELEASE \<Rightarrow> Inr (low m, high m - low m, MADV_RELEASE)
      | EXECUTE \<Rightarrow> Inl Abort)"

text \<open>
  A loop \<open>n = list_begin(l); while(n != list_end(l)) { ... list_get_span(n) ... n = list_next(n); }\<close>. The
  body changes other lists only, and one step per node is enough.
\<close>

fun iterate :: "nat \<Rightarrow> list_t \<Rightarrow> nat option \<Rightarrow> ('s \<Rightarrow> memory_span \<Rightarrow> 's result) \<Rightarrow> 's \<Rightarrow> 's result" where
  "iterate fuel l n f s =
     (if n = list_end l then Inr s
      else (case fuel of
              0 \<Rightarrow> Inl Diverge
            | Suc k \<Rightarrow>
                bindE (list_get_span l n) (\<lambda>m. bindE (f s m) (\<lambda>s.
                bindE (list_next l n) (\<lambda>n. iterate k l n f s)))))"

declare iterate.simps [simp del]

text \<open>The bodies of the three loops; \<open>cs\<close> are the calls made and \<open>k\<close> is \<open>stats->num\<close>.\<close>

type_synonym batch = "advice list \<times> u64"

definition advise :: "access_type \<Rightarrow> batch \<Rightarrow> memory_span \<Rightarrow> batch result" where
  "advise type = (\<lambda>(cs, k) m. bindE (prefetch_span type m) (\<lambda>c. Inr (cs @ [c], k + 1)))"

definition send_write :: "list_t \<times> list_t \<times> batch \<Rightarrow> memory_span \<Rightarrow> (list_t \<times> list_t \<times> batch) result" where
  "send_write = (\<lambda>(rd, rl, b) m.
     bindE (list_remove rd m) (\<lambda>rd. bindE (list_remove rl m) (\<lambda>rl.
     bindE (advise WRITE b m) (\<lambda>b. Inr (rd, rl, b)))))"

definition send_read :: "list_t \<times> batch \<Rightarrow> memory_span \<Rightarrow> (list_t \<times> batch) result" where
  "send_read = (\<lambda>(rl, b) m.
     bindE (list_remove rl m) (\<lambda>rl. bindE (advise READ b m) (\<lambda>b. Inr (rl, b))))"

definition walk_list :: "list_t \<Rightarrow> ('s \<Rightarrow> memory_span \<Rightarrow> 's result) \<Rightarrow> 's \<Rightarrow> 's result" where
  "walk_list l f s = iterate (Suc (list_size l)) l (list_begin l) f s"

text \<open>The result is the new state and \<open>stats->num\<close>.\<close>

definition popcorn_prefetch_execute_internal ::
  "int \<Rightarrow> prefetcher \<Rightarrow> int \<Rightarrow> (prefetcher \<times> u64) result" where
  "popcorn_prefetch_execute_internal cur st n =
     (if 0 \<le> n \<and> n < MAX_POPCORN_NODES then
        bindE (arr (requests st) (nat n)) (\<lambda>r.
          if cur \<noteq> n then
            bindE (list_clear (write_reqs r)) (\<lambda>wr. bindE (list_clear (read_reqs r)) (\<lambda>rd.
            bindE (list_clear (release_reqs r)) (\<lambda>rl.
              Inr (st\<lparr>requests := (requests st)[nat n := \<lparr>read_reqs = rd, write_reqs = wr, release_reqs = rl\<rparr>]\<rparr>, 0))))
          else
            bindE (walk_list (write_reqs r) send_write (read_reqs r, release_reqs r, [], 0)) (\<lambda>(rd, rl, b).
            bindE (list_clear (write_reqs r)) (\<lambda>wr.
            bindE (walk_list rd send_read (rl, b)) (\<lambda>(rl, b).
            bindE (list_clear rd) (\<lambda>rd.
            bindE (walk_list rl (advise RELEASE) b) (\<lambda>(cs, k).
            bindE (list_clear rl) (\<lambda>rl.
              Inr (st\<lparr>requests := (requests st)[nat n := \<lparr>read_reqs = rd, write_reqs = wr, release_reqs = rl\<rparr>],
                      advised := advised st @ cs\<rparr>, k))))))))
      else Inl Abort)"

definition accumulate_global_stats :: "prefetcher \<Rightarrow> u64 \<Rightarrow> prefetcher" where
  "accumulate_global_stats st k = st\<lparr>total_num := total_num st + k\<rparr>"

definition popcorn_prefetch_execute_node :: "int \<Rightarrow> prefetcher \<Rightarrow> int \<Rightarrow> (prefetcher \<times> u64) result" where
  "popcorn_prefetch_execute_node cur st n =
     (if \<not> valid_nid n then Inr (st, 0)
      else bindE (popcorn_prefetch_execute_internal cur st n) (\<lambda>(st, k).
             Inr (accumulate_global_stats st k, k)))"

definition popcorn_prefetch_execute :: "int \<Rightarrow> prefetcher \<Rightarrow> (prefetcher \<times> u64) result" where
  "popcorn_prefetch_execute cur st = popcorn_prefetch_execute_node cur st cur"

section \<open>The pages of a request\<close>

text \<open>The span of the pages that addresses from \<open>lo\<close> up to \<open>hi\<close> are on.\<close>

definition page_span :: "u64 \<Rightarrow> u64 \<Rightarrow> memory_span" where
  "page_span lo hi = \<lparr>low = page_round_down lo, high = page_round_up hi\<rparr>"

definition page_of :: "u64 \<Rightarrow> nat" where
  "page_of x = unat x div 4096"

lemma page_span_bounds: "{low (page_span lo hi), high (page_span lo hi)} \<subseteq> {x. page_aligned x}"
  by (simp add: page_span_def page_round_down_aligned)

lemma page_span_nonempty:
  assumes "lo < hi" "unat hi \<le> 2 ^ 64 - 4096"
  shows "low (page_span lo hi) < high (page_span lo hi)"
proof -
  have "unat lo < unat hi" using assms(1) by (simp add: word_less_nat_alt)
  then have "unat lo div 4096 * 4096 < (unat hi + 4095) div 4096 * 4096" by linarith
  then show ?thesis by (simp add: page_span_def word_less_nat_alt unat_page_round_down unat_page_round_up [OF assms(2)])
qed

lemma last_page:
  assumes "0 < h" "h \<le> x" "x < (h + 4095) div 4096 * 4096"
  shows "(x :: nat) div 4096 = (h - 1) div 4096"
proof -
  obtain k where k: "h = Suc k" using assms(1) by (cases h) auto
  have "Suc k + 4095 = k + 4096" by simp
  then have "(Suc k + 4095) div 4096 = Suc (k div 4096)" by simp
  then have "x < Suc (k div 4096) * 4096" using assms(3) by (simp add: k)
  moreover have "k div 4096 * 4096 \<le> x" using assms(2) k by simp
  ultimately show ?thesis unfolding k by (intro div_nat_eqI) (simp_all add: mult.commute)
qed

lemma page_span_addresses:
  assumes "lo < hi" "unat hi \<le> 2 ^ 64 - 4096"
  shows "addresses (page_span lo hi) = {x. page_of x \<in> page_of ` {lo..<hi}}"
proof (intro equalityI subsetI)
  fix x assume "x \<in> addresses (page_span lo hi)"
  then have x: "unat lo div 4096 * 4096 \<le> unat x" "unat x < (unat hi + 4095) div 4096 * 4096"
    by (simp_all add: page_span_def addresses_def word_le_nat_alt word_less_nat_alt unat_page_round_down
          unat_page_round_up [OF assms(2)])
  show "x \<in> {x. page_of x \<in> page_of ` {lo..<hi}}"
  proof (cases "lo \<le> x \<and> x < hi")
    case True
    then show ?thesis by auto
  next
    case False
    show ?thesis
    proof (cases "lo \<le> x")
      case True
      let ?y = "hi - 1"
      have "unat hi \<le> unat x" using False True by (simp add: word_le_nat_alt word_less_nat_alt)
      have hy: "unat ?y = unat hi - 1" "lo \<le> ?y" "?y < hi"
      proof -
        have "hi \<noteq> 0" using assms(1) by auto
        then show "unat ?y = unat hi - 1" by (rule unat_minus_one)
        then show "lo \<le> ?y" "?y < hi"
          using assms(1) by (simp_all add: word_le_nat_alt word_less_nat_alt del: One_nat_def)
      qed
      have "0 < unat hi" using assms(1) by (simp add: word_less_nat_alt)
      then have "page_of x = page_of ?y"
        using last_page [of "unat hi" "unat x"] x(2) \<open>unat hi \<le> unat x\<close> by (simp add: page_of_def hy(1))
      then show ?thesis using hy by auto
    next
      case False
      then have "unat x < unat lo" by (simp add: word_le_nat_alt not_le)
      then have "page_of x = page_of lo" using x(1) unfolding page_of_def by linarith
      then show ?thesis using assms(1) by auto
    qed
  qed
next
  fix x assume "x \<in> {x. page_of x \<in> page_of ` {lo..<hi}}"
  then obtain y where y: "lo \<le> y" "y < hi" "unat x div 4096 = unat y div 4096"
    by (auto simp: page_of_def)
  then have "unat lo \<le> unat y" "unat y < unat hi" by (simp_all add: word_le_nat_alt word_less_nat_alt)
  then have "unat lo div 4096 \<le> unat y div 4096" "(unat y + 4096) div 4096 \<le> (unat hi + 4095) div 4096"
    by (simp_all add: div_le_mono)
  then have "unat lo div 4096 \<le> unat x div 4096" "unat x div 4096 < (unat hi + 4095) div 4096"
    using y(3) by simp_all
  then have "unat lo div 4096 * 4096 \<le> unat x" "unat x < (unat hi + 4095) div 4096 * 4096"
    by (simp_all add: less_mult_imp_div_less div_less_iff_less_mult less_eq_div_iff_mult_less_eq)
  then show "x \<in> addresses (page_span lo hi)"
    by (simp add: page_span_def addresses_def word_le_nat_alt word_less_nat_alt unat_page_round_down
          unat_page_round_up [OF assms(2)])
qed
end
