(* ===== verification/Prefetch_Correct.thy ===== *)
theory Prefetch_Correct
  imports Prefetch
begin

text \<open>
  What the prefetch library does with its lists: the queues hold exactly the pages that were asked
  for, executing sends each page once with the strongest access asked for, and every call of \<open>madvise\<close> in any
  run is about whole pages.
\<close>

section \<open>The queues\<close>

text \<open>A list whose spans are whole pages, and its contract.\<close>

definition whole_pages :: "memory_span \<Rightarrow> bool" where
  "whole_pages m \<longleftrightarrow> low m < high m \<and> page_aligned (low m) \<and> page_aligned (high m)"

definition page_list :: "list_t \<Rightarrow> bool" where
  "page_list l \<longleftrightarrow> list_ok l \<and> bounds (spans l) \<subseteq> {x. page_aligned x}"

interpretation pages: span_store whole_pages page_list "\<lambda>l. covered (spans l)" list_insert list_remove
proof (unfold_locales, goal_cases)
  case (1 l m)
  then show ?case using insert_bounds_ok [of l "{x. page_aligned x}" m]
    by (simp add: page_list_def whole_pages_def)
next
  case (2 l m)
  then show ?case using remove_bounds_ok [of l "{x. page_aligned x}" m]
    by (simp add: page_list_def whole_pages_def)
qed

lemma page_list_spans: "page_list l \<Longrightarrow> \<forall>m \<in> set (spans l). whole_pages m"
  using list_ok_wf [of l] by (auto simp: page_list_def whole_pages_def wf_spans_def bounds_def)

lemma page_list_clear: "page_list l \<Longrightarrow> \<exists>l'. list_clear l = Inr l' \<and> page_list l' \<and> spans l' = []"
  using clear_ok [of l] by (auto simp: page_list_def)

definition page_requests :: "node_requests \<Rightarrow> bool" where
  "page_requests r \<longleftrightarrow> page_list (read_reqs r) \<and> page_list (write_reqs r) \<and> page_list (release_reqs r)"

definition requests_ok :: "prefetcher \<Rightarrow> bool" where
  "requests_ok st \<longleftrightarrow> length (requests st) = nat MAX_POPCORN_NODES \<and> (\<forall>r \<in> set (requests st). page_requests r)"

text \<open>The addresses a node has queued for an access.\<close>

fun queued :: "access_type \<Rightarrow> node_requests \<Rightarrow> u64 set" where
  "queued READ r = covered (spans (read_reqs r))"
| "queued WRITE r = covered (spans (write_reqs r))"
| "queued RELEASE r = covered (spans (release_reqs r))"
| "queued EXECUTE r = {}"

lemma requests_okD:
  assumes "requests_ok st" "valid_nid n"
  shows "arr (requests st) (nat n) = Inr (requests st ! nat n)" "page_requests (requests st ! nat n)"
    "nat n < length (requests st)" "0 \<le> n" "n < MAX_POPCORN_NODES"
  using assms by (auto simp: requests_ok_def valid_nid_def MAX_POPCORN_NODES_def)

lemma requests_ok_update:
  assumes "requests_ok st" "page_requests r"
  shows "requests_ok (st\<lparr>requests := (requests st)[i := r]\<rparr>)"
  using assms by (auto simp: requests_ok_def dest: set_update_subset_insert [THEN subsetD])

lemma page_span_whole:
  "lo < hi \<Longrightarrow> unat hi \<le> 2 ^ 64 - 4096 \<Longrightarrow> whole_pages (page_span lo hi)"
  using page_span_bounds [of lo hi] page_span_nonempty [of lo hi] by (simp add: whole_pages_def)

lemma all_access: "(\<forall>t. P t) \<longleftrightarrow> P READ \<and> P WRITE \<and> P EXECUTE \<and> P RELEASE"
  by (metis access_type.exhaust)

lemma popcorn_prefetch_node_ok:
  assumes ok: "requests_ok st" and n: "valid_nid n" and type: "type \<noteq> EXECUTE"
    and lo: "lo < hi" and hi: "unat hi \<le> 2 ^ 64 - 4096"
  shows "\<exists>r'. popcorn_prefetch_node st n type lo hi = Inr (st\<lparr>requests := (requests st)[nat n := r']\<rparr>) \<and>
           page_requests r' \<and>
           (\<forall>t. queued t r' = queued t (requests st ! nat n) \<union>
                 (if t = type then addresses (page_span lo hi) else {}))"
proof -
  let ?r = "requests st ! nat n" and ?s = "page_span lo hi"
  note r = requests_okD [OF ok n]
  note w = page_span_whole [OF lo hi]
  have pg: "page_list (read_reqs ?r)" "page_list (write_reqs ?r)" "page_list (release_reqs ?r)"
    using r(2) by (simp_all add: page_requests_def)
  have run: "popcorn_prefetch_node st n type lo hi =
      bindE (case type of
                 READ \<Rightarrow> bindE (list_insert (read_reqs ?r) ?s) (\<lambda>l. Inr (?r\<lparr>read_reqs := l\<rparr>))
               | WRITE \<Rightarrow> bindE (list_insert (write_reqs ?r) ?s) (\<lambda>l. Inr (?r\<lparr>write_reqs := l\<rparr>))
               | RELEASE \<Rightarrow> bindE (list_insert (release_reqs ?r) ?s) (\<lambda>l. Inr (?r\<lparr>release_reqs := l\<rparr>))
               | EXECUTE \<Rightarrow> Inl Abort)
        (\<lambda>r. Inr (st\<lparr>requests := (requests st)[nat n := r]\<rparr>))"
    using n lo r(1) unfolding page_span_def by (simp add: popcorn_prefetch_node_def Let_def not_le [symmetric] del: not_le)
  have "\<exists>r'. (case type of
                 READ \<Rightarrow> bindE (list_insert (read_reqs ?r) ?s) (\<lambda>l. Inr (?r\<lparr>read_reqs := l\<rparr>))
               | WRITE \<Rightarrow> bindE (list_insert (write_reqs ?r) ?s) (\<lambda>l. Inr (?r\<lparr>write_reqs := l\<rparr>))
               | RELEASE \<Rightarrow> bindE (list_insert (release_reqs ?r) ?s) (\<lambda>l. Inr (?r\<lparr>release_reqs := l\<rparr>))
               | EXECUTE \<Rightarrow> Inl Abort) = Inr r' \<and> page_requests r' \<and>
          (\<forall>t. queued t r' = queued t ?r \<union> (if t = type then addresses ?s else {}))"
  proof (cases type)
    case READ
    obtain l where "list_insert (read_reqs ?r) ?s = Inr l" "page_list l"
      "covered (spans l) = covered (spans (read_reqs ?r)) \<union> addresses ?s"
      using pages.ins [OF pg(1) w] by blast
    then show ?thesis using READ pg by (simp add: page_requests_def all_access)
  next
    case WRITE
    obtain l where "list_insert (write_reqs ?r) ?s = Inr l" "page_list l"
      "covered (spans l) = covered (spans (write_reqs ?r)) \<union> addresses ?s"
      using pages.ins [OF pg(2) w] by blast
    then show ?thesis using WRITE pg by (simp add: page_requests_def all_access)
  next
    case RELEASE
    obtain l where "list_insert (release_reqs ?r) ?s = Inr l" "page_list l"
      "covered (spans l) = covered (spans (release_reqs ?r)) \<union> addresses ?s"
      using pages.ins [OF pg(3) w] by blast
    then show ?thesis using RELEASE pg by (simp add: page_requests_def all_access)
  qed (use type in simp)
  then show ?thesis unfolding run by auto
qed

text \<open>A span that ends in the last page of the address space wraps around, and \<open>list_insert\<close> aborts.\<close>

lemma popcorn_prefetch_node_wraps:
  assumes ok: "requests_ok st" and n: "valid_nid n" and lo: "lo < hi" and hi: "2 ^ 64 - 4096 < unat hi"
  shows "popcorn_prefetch_node st n type lo hi = Inl Abort"
  using requests_okD(1) [OF ok n] n lo page_round_up_wraps [OF hi]
  by (cases type) (simp_all add: popcorn_prefetch_node_def list_insert_def Let_def not_le)

section \<open>The loops\<close>

lemma iterate_each:
  "dll (nodes l) p xs None \<Longrightarrow> length xs < fuel \<Longrightarrow>
   iterate fuel l (first_addr None xs) f s = each f s (map snd xs)"
proof (induction xs arbitrary: p fuel s)
  case Nil
  then show ?case by (simp add: iterate.simps list_end_def)
next
  case (Cons x xs)
  obtain a m where x: "x = (a, m)" by (cases x)
  obtain k where k: "fuel = Suc k" "length xs < k" using Cons.prems(2) by (cases fuel) auto
  show ?case using Cons.IH [of "Some a" k] Cons.prems k
    by (subst iterate.simps) (simp add: x list_end_def list_get_span_def list_next_def)
qed

lemma walk_list_each:
  assumes "list_ok l"
  shows "walk_list l f s = each f s (spans l)"
proof -
  obtain xs where xs: "holds_list l xs" "spans l = map snd xs" using assms by (rule list_okE)
  then show ?thesis
    using iterate_each [OF holds_listD(3), of l xs "Suc (list_size l)"] holds_listD(1,4) [OF xs(1)]
    by (simp add: walk_list_def list_begin_def)
qed

text \<open>What each loop does, given what the removals do.\<close>

fun advice_of :: "access_type \<Rightarrow> memory_span \<Rightarrow> advice" where
  "advice_of READ m = (low m, high m - low m, MADV_READ)"
| "advice_of WRITE m = (low m, high m - low m, MADV_WRITE)"
| "advice_of RELEASE m = (low m, high m - low m, MADV_RELEASE)"
| "advice_of EXECUTE m = (0, 0, 0)"

lemma advise_ok: "type \<noteq> EXECUTE \<Longrightarrow> advise type (cs, k) m = Inr (cs @ [advice_of type m], k + 1)"
  by (cases type) (simp_all add: advise_def prefetch_span_def)

lemma each_advise:
  "type \<noteq> EXECUTE \<Longrightarrow>
   each (advise type) (cs, k) ms = Inr (cs @ map (advice_of type) ms, k + of_nat (length ms))"
  by (induction ms arbitrary: cs k) (simp_all add: advise_ok)

lemma each_send_read:
  "each list_remove rl ms = Inr rl' \<Longrightarrow>
   each send_read (rl, cs, k) ms = Inr (rl', cs @ map (advice_of READ) ms, k + of_nat (length ms))"
proof (induction ms arbitrary: rl cs k)
  case (Cons m ms)
  then obtain rl1 where "list_remove rl m = Inr rl1" "each list_remove rl1 ms = Inr rl'"
    by (auto elim: bindE_InrE)
  then show ?case using Cons.IH by (simp add: send_read_def advise_ok)
qed simp

lemma each_send_write:
  "each list_remove rd ms = Inr rd' \<Longrightarrow> each list_remove rl ms = Inr rl' \<Longrightarrow>
   each send_write (rd, rl, cs, k) ms =
     Inr (rd', rl', cs @ map (advice_of WRITE) ms, k + of_nat (length ms))"
proof (induction ms arbitrary: rd rl cs k)
  case (Cons m ms)
  then obtain rd1 rl1 where "list_remove rd m = Inr rd1" "each list_remove rd1 ms = Inr rd'"
    "list_remove rl m = Inr rl1" "each list_remove rl1 ms = Inr rl'"
    by (auto elim!: bindE_InrE)
  then show ?case using Cons.IH by (simp add: send_write_def advise_ok)
qed simp

section \<open>Executing\<close>

definition no_requests :: "node_requests \<Rightarrow> bool" where
  "no_requests r \<longleftrightarrow> spans (read_reqs r) = [] \<and> spans (write_reqs r) = [] \<and> spans (release_reqs r) = []"

text \<open>No address is in two of the spans, so advising each span once advises each address once.\<close>

definition each_once :: "memory_span list \<Rightarrow> bool" where
  "each_once ms \<longleftrightarrow> sorted_wrt (\<lambda>a b. addresses a \<inter> addresses b = {}) ms"

lemma each_once_append: "each_once (xs @ ys) \<longleftrightarrow> each_once xs \<and> each_once ys \<and> covered xs \<inter> covered ys = {}"
  by (auto simp: each_once_def sorted_wrt_append covered_def)

lemma wf_each_once: "wf_spans ms \<Longrightarrow> each_once ms"
  unfolding each_once_def wf_spans_def by (auto simp: addresses_def elim!: sorted_wrt_mono_rel [rotated])

lemma page_list_spans_wf: "page_list l \<Longrightarrow> wf_spans (spans l)"
  by (simp add: page_list_def list_ok_wf)

text \<open>
  Executing on the node: the spans to be written are asked for, then those to be read without what was asked for
  to write, then those to be released without either. All three queues are empty afterwards.
\<close>

lemma popcorn_prefetch_execute_internal_ok:
  assumes ok: "requests_ok st" and n: "valid_nid n"
  defines "r \<equiv> requests st ! nat n"
  shows "\<exists>r' ws rs ls. page_requests r' \<and> no_requests r' \<and>
           popcorn_prefetch_execute_internal n st n =
             Inr (st\<lparr>requests := (requests st)[nat n := r'],
                     advised := advised st @ map (advice_of WRITE) ws @ map (advice_of READ) rs
                                  @ map (advice_of RELEASE) ls\<rparr>,
                  of_nat (length ws + length rs + length ls)) \<and>
           (\<forall>m \<in> set (ws @ rs @ ls). whole_pages m) \<and> each_once (ws @ rs @ ls) \<and>
           covered ws = queued WRITE r \<and> covered rs = queued READ r - queued WRITE r \<and>
           covered ls = queued RELEASE r - queued WRITE r - queued READ r"
proof -
  let ?rd = "read_reqs r" and ?wr = "write_reqs r" and ?rl = "release_reqs r"
  note rD = requests_okD [OF ok n, folded r_def]
  have pg: "page_list ?rd" "page_list ?wr" "page_list ?rl" using rD(2) by (simp_all add: page_requests_def)
  have lok: "list_ok l" if "page_list l" for l using that by (simp add: page_list_def)
  obtain rd where rd: "each list_remove ?rd (spans ?wr) = Inr rd" "page_list rd"
    "covered (spans rd) = covered (spans ?rd) - covered (spans ?wr)"
    using pages.rem_all [OF pg(1) page_list_spans [OF pg(2)]] by blast
  obtain rl where rl: "each list_remove ?rl (spans ?wr) = Inr rl" "page_list rl"
    "covered (spans rl) = covered (spans ?rl) - covered (spans ?wr)"
    using pages.rem_all [OF pg(3) page_list_spans [OF pg(2)]] by blast
  obtain rl2 where rl2: "each list_remove rl (spans rd) = Inr rl2" "page_list rl2"
    "covered (spans rl2) = covered (spans rl) - covered (spans rd)"
    using pages.rem_all [OF rl(2) page_list_spans [OF rd(2)]] by blast
  obtain wr' where wr': "list_clear ?wr = Inr wr'" "page_list wr'" "spans wr' = []"
    using page_list_clear [OF pg(2)] by blast
  obtain rd' where rd': "list_clear rd = Inr rd'" "page_list rd'" "spans rd' = []"
    using page_list_clear [OF rd(2)] by blast
  obtain rl' where rl': "list_clear rl2 = Inr rl'" "page_list rl'" "spans rl' = []"
    using page_list_clear [OF rl2(2)] by blast
  have 1: "walk_list ?wr send_write (?rd, ?rl, [], 0) =
      Inr (rd, rl, map (advice_of WRITE) (spans ?wr), of_nat (length (spans ?wr)))"
    using each_send_write [OF rd(1) rl(1)] by (simp add: walk_list_each [OF lok [OF pg(2)]])
  have 2: "walk_list rd send_read (rl, cs, k) =
      Inr (rl2, cs @ map (advice_of READ) (spans rd), k + of_nat (length (spans rd)))" for cs k
    using each_send_read [OF rl2(1)] by (simp add: walk_list_each [OF lok [OF rd(2)]])
  have 3: "walk_list rl2 (advise RELEASE) (cs, k) =
      Inr (cs @ map (advice_of RELEASE) (spans rl2), k + of_nat (length (spans rl2)))" for cs k
    by (simp add: walk_list_each [OF lok [OF rl2(2)]] each_advise)
  let ?r' = "\<lparr>read_reqs = rd', write_reqs = wr', release_reqs = rl'\<rparr>"
  have run: "popcorn_prefetch_execute_internal n st n =
             Inr (st\<lparr>requests := (requests st)[nat n := ?r'],
                     advised := advised st @ map (advice_of WRITE) (spans ?wr) @ map (advice_of READ) (spans rd)
                                  @ map (advice_of RELEASE) (spans rl2)\<rparr>,
                  of_nat (length (spans ?wr) + length (spans rd) + length (spans rl2)))"
    using rD(1,4,5) wr'(1) rd'(1) rl'(1) by (simp add: popcorn_prefetch_execute_internal_def 1 2 3)
  have whole: "\<forall>m \<in> set (spans ?wr @ spans rd @ spans rl2). whole_pages m"
    using page_list_spans pg(2) rd(2) rl2(2) by fastforce
  have once: "each_once (spans ?wr @ spans rd @ spans rl2)"
    using wf_each_once page_list_spans_wf pg(2) rd(2,3) rl2(2,3) rl(3) by (auto simp: each_once_append)
  have "page_requests ?r'" "no_requests ?r'"
    using wr' rd' rl' by (simp_all add: page_requests_def no_requests_def)
  moreover have "covered (spans rl2) = queued RELEASE r - queued WRITE r - queued READ r"
    using rl2(3) rl(3) rd(3) by auto
  moreover have "covered (spans rd) = queued READ r - queued WRITE r" using rd(3) by simp
  ultimately show ?thesis using run whole once by (metis queued.simps(2))
qed

text \<open>On another node nothing can be asked for, and the queues are thrown away.\<close>

lemma popcorn_prefetch_execute_internal_elsewhere:
  assumes ok: "requests_ok st" and n: "valid_nid n" and "cur \<noteq> n"
  shows "\<exists>r'. page_requests r' \<and> no_requests r' \<and>
           popcorn_prefetch_execute_internal cur st n = Inr (st\<lparr>requests := (requests st)[nat n := r']\<rparr>, 0)"
proof -
  let ?r = "requests st ! nat n"
  note rD = requests_okD [OF ok n]
  have pg: "page_list (read_reqs ?r)" "page_list (write_reqs ?r)" "page_list (release_reqs ?r)"
    using rD(2) by (simp_all add: page_requests_def)
  obtain wr' where wr': "list_clear (write_reqs ?r) = Inr wr'" "page_list wr'" "spans wr' = []"
    using page_list_clear [OF pg(2)] by blast
  obtain rd' where rd': "list_clear (read_reqs ?r) = Inr rd'" "page_list rd'" "spans rd' = []"
    using page_list_clear [OF pg(1)] by blast
  obtain rl' where rl': "list_clear (release_reqs ?r) = Inr rl'" "page_list rl'" "spans rl' = []"
    using page_list_clear [OF pg(3)] by blast
  show ?thesis
    using wr' rd' rl' rD assms(3)
    by (intro exI [of _ "\<lparr>read_reqs = rd', write_reqs = wr', release_reqs = rl'\<rparr>"])
       (simp add: popcorn_prefetch_execute_internal_def page_requests_def no_requests_def)
qed

section \<open>Starting up\<close>

lemma prefetch_initialize_ok:
  "\<exists>st. prefetch_initialize = Inr st \<and> requests_ok st \<and> (\<forall>r \<in> set (requests st). no_requests r) \<and>
        advised st = [] \<and> total_num st = 0"
proof -
  let ?f = "\<lambda>i (rs, cur_cache).
          bindE (list_init cur_cache (int i)) (\<lambda>(rd, cur_cache).
          bindE (list_init cur_cache (int i)) (\<lambda>(wr, cur_cache).
          bindE (list_init cur_cache (int i)) (\<lambda>(rl, cur_cache).
            Inr (rs[i := \<lparr>read_reqs = rd, write_reqs = wr, release_reqs = rl\<rparr>], cur_cache))))"
  let ?rs = "replicate (nat MAX_POPCORN_NODES)
       \<lparr>read_reqs = zero_list, write_reqs = zero_list, release_reqs = zero_list\<rparr>"
  let ?P = "\<lambda>i (rs, c). c = 3 * i \<and> length rs = 32 \<and> (\<forall>j < i. page_requests (rs ! j) \<and> no_requests (rs ! j))"
  have "\<exists>t. for_loop 0 (nat MAX_POPCORN_NODES) ?f (?rs, 0) = Inr t \<and> ?P (nat MAX_POPCORN_NODES) t"
  proof (rule for_loop_total)
    fix i s assume i: "i < nat MAX_POPCORN_NODES" and "?P i s"
    then obtain rs where s: "s = (rs, 3 * i)" and rs: "length rs = 32"
      "\<forall>j < i. page_requests (rs ! j) \<and> no_requests (rs ! j)" by (cases s) auto
    have i': "i < 32" "int i < MAX_POPCORN_NODES" using i by (simp_all add: MAX_POPCORN_NODES_def)
    obtain a where a: "list_init (3 * i) (int i) = Inr (a, Suc (3 * i))" "list_ok a" "spans a = []"
      using init_ok [of "int i" "3 * i"] i' by (auto simp: NUM_CACHE_def)
    obtain b where b: "list_init (Suc (3 * i)) (int i) = Inr (b, Suc (Suc (3 * i)))" "list_ok b" "spans b = []"
      using init_ok [of "int i" "Suc (3 * i)"] i' by (auto simp: NUM_CACHE_def)
    obtain c where c: "list_init (Suc (Suc (3 * i))) (int i) = Inr (c, Suc (Suc (Suc (3 * i))))" "list_ok c"
      "spans c = []"
      using init_ok [of "int i" "Suc (Suc (3 * i))"] i' by (auto simp: NUM_CACHE_def)
    show "\<exists>s'. ?f i s = Inr s' \<and> ?P (Suc i) s'"
      using a b c rs i' by (simp add: s page_requests_def page_list_def no_requests_def less_Suc_eq nth_list_update)
  qed (simp_all add: MAX_POPCORN_NODES_def)
  then obtain rs where rs: "for_loop 0 (nat MAX_POPCORN_NODES) ?f (?rs, 0) = Inr (rs, 96)" "length rs = 32"
    "\<forall>j < 32. page_requests (rs ! j) \<and> no_requests (rs ! j)" by (auto simp: MAX_POPCORN_NODES_def)
  then have "\<forall>r \<in> set rs. page_requests r \<and> no_requests r" by (simp add: all_set_conv_all_nth)
  then show ?thesis using rs(2)
    unfolding prefetch_initialize_def rs(1)
    by (simp add: requests_ok_def MAX_POPCORN_NODES_def)
qed
section \<open>Runs of the library\<close>

text \<open>A step: some thread queues a request, or executes those of a node, wherever it runs.\<close>

inductive prefetch_step :: "prefetcher \<Rightarrow> prefetcher \<Rightarrow> bool" where
  queue: "popcorn_prefetch_node st n type lo hi = Inr st' \<Longrightarrow> prefetch_step st st'"
| execute: "popcorn_prefetch_execute_node cur st n = Inr (st', k) \<Longrightarrow> prefetch_step st st'"

inductive_cases prefetch_stepE [consumes 1, case_names queue execute]: "prefetch_step st st'"

inductive prefetch_run :: "prefetcher \<Rightarrow> bool" where
  start: "prefetch_initialize = Inr st \<Longrightarrow> prefetch_run st"
| step: "prefetch_run st \<Longrightarrow> prefetch_step st st' \<Longrightarrow> prefetch_run st'"

text \<open>The advice that is about whole pages.\<close>

definition page_advice :: "advice \<Rightarrow> bool" where
  "page_advice c \<longleftrightarrow> page_aligned (fst c) \<and> page_aligned (fst (snd c)) \<and> 0 < fst (snd c) \<and>
     snd (snd c) \<in> {MADV_READ, MADV_WRITE, MADV_RELEASE}"

lemma whole_pages_advice:
  assumes "whole_pages m" "type \<noteq> EXECUTE"
  shows "page_advice (advice_of type m)"
proof -
  have m: "low m < high m" "4096 dvd unat (low m)" "4096 dvd unat (high m)"
    using assms(1) by (simp_all add: whole_pages_def page_aligned_def)
  then have "unat (high m - low m) = unat (high m) - unat (low m)" by (simp add: unat_sub less_imp_le)
  then have "page_aligned (high m - low m)" "0 < high m - low m"
    using m by (simp_all add: page_aligned_def dvd_diff_nat word_less_nat_alt)
  then show ?thesis using assms by (cases type) (simp_all add: page_advice_def whole_pages_def)
qed

definition prefetcher_ok :: "prefetcher \<Rightarrow> bool" where
  "prefetcher_ok st \<longleftrightarrow> requests_ok st \<and> (\<forall>c \<in> set (advised st). page_advice c)"

lemma queue_keeps_ok:
  assumes "popcorn_prefetch_node st n type lo hi = Inr st'" "requests_ok st"
  shows "requests_ok st' \<and> advised st' = advised st"
proof (cases "valid_nid n \<and> lo < hi")
  case False
  then show ?thesis using assms by (auto simp: popcorn_prefetch_node_def Let_def split: if_splits)
next
  case True
  then have n: "valid_nid n" and lo: "lo < hi" by simp_all
  have hi: "unat hi \<le> 2 ^ 64 - 4096"
    using popcorn_prefetch_node_wraps [OF assms(2) n lo] assms(1) by (auto simp: not_less [symmetric])
  have "type \<noteq> EXECUTE"
    using assms(1) n lo requests_okD(1) [OF assms(2) n]
    by (auto simp: popcorn_prefetch_node_def Let_def not_le [symmetric] simp del: not_le)
  from popcorn_prefetch_node_ok [OF assms(2) n this lo hi]
  show ?thesis using assms requests_ok_update by auto
qed

lemma execute_keeps_ok:
  assumes "popcorn_prefetch_execute_node cur st n = Inr (st', k)" "prefetcher_ok st"
  shows "prefetcher_ok st'"
proof (cases "valid_nid n")
  case False
  then show ?thesis using assms by (simp add: popcorn_prefetch_execute_node_def)
next
  case n: True
  have ok: "requests_ok st" using assms(2) by (simp add: prefetcher_ok_def)
  show ?thesis
  proof (cases "cur = n")
    case True
    from popcorn_prefetch_execute_internal_ok [OF ok n] obtain r' ws rs ls where
      r: "page_requests r'" "\<forall>m \<in> set (ws @ rs @ ls). whole_pages m"
      and st': "requests st' = (requests st)[nat n := r']"
        "advised st' = advised st @ map (advice_of WRITE) ws @ map (advice_of READ) rs @ map (advice_of RELEASE) ls"
      using assms(1) n unfolding True
      by (auto simp: popcorn_prefetch_execute_node_def accumulate_global_stats_def)
    have "page_advice (advice_of t m)" if "m \<in> set (ws @ rs @ ls)" "t \<noteq> EXECUTE" for t m
      using whole_pages_advice r(2) that by blast
    then have "\<forall>c \<in> set (advised st'). page_advice c"
      using assms(2) unfolding st' prefetcher_ok_def by (auto simp del: advice_of.simps)
    moreover have "requests_ok st'"
      using requests_ok_update [OF ok r(1), of "nat n"] st'(1) by (simp add: requests_ok_def)
    ultimately show ?thesis by (simp add: prefetcher_ok_def)
  next
    case False
    from popcorn_prefetch_execute_internal_elsewhere [OF ok n False] obtain r' where
      "page_requests r'" "requests st' = (requests st)[nat n := r']" "advised st' = advised st"
      using assms(1) n by (auto simp: popcorn_prefetch_execute_node_def accumulate_global_stats_def)
    then show ?thesis
      using assms(2) requests_ok_update [OF ok, of r' "nat n"] by (simp add: prefetcher_ok_def requests_ok_def)
  qed
qed

lemma prefetch_run_ok: "prefetch_run st \<Longrightarrow> prefetcher_ok st"
proof (induction rule: prefetch_run.induct)
  case (start st)
  obtain st0 where "prefetch_initialize = Inr st0" "requests_ok st0" "advised st0 = []"
    using prefetch_initialize_ok by blast
  moreover from this(1) start have "st = st0" by (metis sum.inject(2))
  ultimately show ?case by (simp add: prefetcher_ok_def)
next
  case (step st st')
  from step.hyps(2) show ?case
  proof (cases rule: prefetch_stepE)
    case (queue n type lo hi)
    then show ?thesis using queue_keeps_ok step.IH by (auto simp: prefetcher_ok_def)
  next
    case (execute cur n k)
    then show ?thesis using execute_keeps_ok step.IH by blast
  qed
qed

section \<open>An example\<close>

lemma example_spans:
  "addresses (page_span 0x1000 0x3000) = {0x1000..<0x3000}" "addresses (page_span 0x2000 0x4000) = {0x2000..<0x4000}"
  by (simp_all add: addresses_def page_span_def page_round_up_def page_round_down_def PAGESZ_def)

lemma queue_first:
  assumes "requests_ok st" "valid_nid n" "type \<noteq> EXECUTE" "lo < hi" "unat hi \<le> 2 ^ 64 - 4096"
  shows "\<exists>st'. prefetch_step st st' \<and> requests_ok st' \<and> advised st' = advised st \<and>
           (\<forall>t. queued t (requests st' ! nat n) =
                  queued t (requests st ! nat n) \<union> (if t = type then addresses (page_span lo hi) else {}))"
proof -
  obtain r' where "page_requests r'"
    "popcorn_prefetch_node st n type lo hi = Inr (st\<lparr>requests := (requests st)[nat n := r']\<rparr>)"
    "\<forall>t. queued t r' = queued t (requests st ! nat n) \<union> (if t = type then addresses (page_span lo hi) else {})"
    using popcorn_prefetch_node_ok [OF assms] by blast
  then show ?thesis using requests_okD(3) [OF assms(1,2)] requests_ok_update [OF assms(1)]
    by (intro exI [of _ "st\<lparr>requests := (requests st)[nat n := r']\<rparr>"]) (simp add: prefetch_step.queue)
qed

text \<open>An example: a request to write two pages and one to read two, sharing one of them.\<close>

lemma example_run:
  "\<exists>st. prefetch_run st \<and> requests_ok st \<and> advised st = [] \<and>
     queued WRITE (requests st ! nat 0) = {0x1000..<0x3000} \<and>
     queued READ (requests st ! nat 0) = {0x2000..<0x4000} \<and> queued RELEASE (requests st ! nat 0) = {}"
proof -
  obtain st where st: "prefetch_initialize = Inr st" "requests_ok st" "\<forall>r \<in> set (requests st). no_requests r" "advised st = []"
    using prefetch_initialize_ok by blast
  have "requests st ! 0 \<in> set (requests st)" using st(2) by (simp add: requests_ok_def MAX_POPCORN_NODES_def)
  then have "\<forall>t. queued t (requests st ! nat 0) = {}"
    using st(3) by (simp add: no_requests_def all_access)
  note none = this
  have n: "valid_nid 0" by (simp add: valid_nid_def MAX_POPCORN_NODES_def)
  obtain st1 where st1: "prefetch_step st st1" "requests_ok st1" "advised st1 = []"
    "\<forall>t. queued t (requests st1 ! nat 0) = (if t = WRITE then {0x1000..<0x3000} else {})"
  proof -
    have "(0x1000 :: u64) < 0x3000" "unat (0x3000 :: u64) \<le> 2 ^ 64 - 4096" by simp_all
    from queue_first [OF st(2) n _ this, of WRITE] obtain st1 where "prefetch_step st st1" "requests_ok st1" "advised st1 = []"
      "\<forall>t. queued t (requests st1 ! nat 0) = {} \<union> (if t = WRITE then addresses (page_span 0x1000 0x3000) else {})"
      using st(4) none by auto
    then show ?thesis using that by (simp only: example_spans Un_empty_left)
  qed
  obtain st2 where st2: "prefetch_step st1 st2" "requests_ok st2" "advised st2 = []"
    "\<forall>t. queued t (requests st2 ! nat 0) =
       (if t = WRITE then {0x1000..<0x3000} else {}) \<union> (if t = READ then {0x2000..<0x4000} else {})"
  proof -
    have "(0x2000 :: u64) < 0x4000" "unat (0x4000 :: u64) \<le> 2 ^ 64 - 4096" by simp_all
    from queue_first [OF st1(2) n _ this, of READ] show ?thesis using that st1(3,4)
      by (simp only: example_spans access_type.distinct) blast
  qed
  have "queued WRITE (requests st2 ! nat 0) = {0x1000..<0x3000}"
    "queued READ (requests st2 ! nat 0) = {0x2000..<0x4000}" "queued RELEASE (requests st2 ! nat 0) = {}"
    using st2(4) by (simp_all del: queued.simps)
  moreover have "prefetch_run st2"
    using st(1) st1(1) st2(1) by (blast intro: prefetch_run.intros)
  ultimately show ?thesis using st2(2,3) by blast
qed

section \<open>Properties\<close>

text \<open>
  Queueing a request for the addresses from \<open>lo\<close> up to \<open>hi\<close> adds exactly the pages those addresses are on
  to the queue of the node and the access, and changes no other queue.
\<close>

theorem prefetch_node_queues_pages:
  assumes "requests_ok st" "valid_nid n" "type \<noteq> EXECUTE" "lo < hi" "unat hi \<le> 2 ^ 64 - 4096"
  shows "\<exists>st'. popcorn_prefetch_node st n type lo hi = Inr st' \<and> requests_ok st' \<and>
           (\<forall>t. queued t (requests st' ! nat n) =
                  queued t (requests st ! nat n) \<union>
                  (if t = type then {x. page_of x \<in> page_of ` {lo..<hi}} else {})) \<and>
           (\<forall>i. i \<noteq> nat n \<longrightarrow> requests st' ! i = requests st ! i)"
  using popcorn_prefetch_node_ok [OF assms] requests_okD(3) [OF assms(1,2)] requests_ok_update [OF assms(1)]
    page_span_addresses [OF assms(4,5)]
  by auto

theorem prefetch_node_queues_pages_witness:
  "\<exists>st st'. prefetch_initialize = Inr st \<and> popcorn_prefetch_node st 3 WRITE 0x1234 0x2001 = Inr st' \<and>
            0x1000 \<in> queued WRITE (requests st' ! 3) \<and> 0x2FFF \<in> queued WRITE (requests st' ! 3) \<and>
            0x3000 \<notin> queued WRITE (requests st' ! 3)"
proof -
  obtain st where st: "prefetch_initialize = Inr st" "requests_ok st" "\<forall>r \<in> set (requests st). no_requests r"
    using prefetch_initialize_ok by blast
  have "requests st ! 3 \<in> set (requests st)"
    using st(2) by (simp add: requests_ok_def MAX_POPCORN_NODES_def)
  then have none: "queued WRITE (requests st ! nat 3) = {}"
    using st(3) by (simp add: no_requests_def)
  obtain st' where st': "popcorn_prefetch_node st 3 WRITE 0x1234 0x2001 = Inr st'"
    "queued WRITE (requests st' ! nat 3) = {x. page_of x \<in> page_of ` {0x1234..<0x2001}}"
  proof -
    have "valid_nid 3" by (simp add: valid_nid_def MAX_POPCORN_NODES_def)
    then obtain st' where "popcorn_prefetch_node st 3 WRITE 0x1234 0x2001 = Inr st'"
      "\<forall>t. queued t (requests st' ! nat 3) = queued t (requests st ! nat 3) \<union>
         (if t = WRITE then {x. page_of x \<in> page_of ` {0x1234..<0x2001}} else {})"
      using prefetch_node_queues_pages [OF st(2), of 3 WRITE "0x1234" "0x2001"] by auto
    then show ?thesis using that none by (simp del: queued.simps)
  qed
  have "page_of 0x1234 = 1" "page_of 0x2000 = 2" by (simp_all add: page_of_def)
  moreover have "(0x1234 :: u64) \<in> {0x1234..<0x2001}" "(0x2000 :: u64) \<in> {0x1234..<0x2001}" by simp_all
  ultimately have "1 \<in> page_of ` {0x1234..<0x2001}" "2 \<in> page_of ` {0x1234..<0x2001}"
    by (metis imageI)+
  moreover have "3 \<notin> page_of ` {0x1234..<0x2001}"
    by (auto simp: page_of_def word_less_nat_alt word_le_nat_alt)
  moreover have "page_of 0x1000 = 1" "page_of 0x2FFF = 2" "page_of 0x3000 = 3" by (simp_all add: page_of_def)
  ultimately have "0x1000 \<in> queued WRITE (requests st' ! 3)" "0x2FFF \<in> queued WRITE (requests st' ! 3)"
    "0x3000 \<notin> queued WRITE (requests st' ! 3)"
    using st'(2) by (simp_all del: queued.simps)
  then show ?thesis using st(1) st'(1) by blast
qed

text \<open>
  A request that ends in the last page of the address space is not queued: rounding its end up wraps
  around to 0, and the check of the span in \<open>list_insert\<close> aborts the program.
\<close>

theorem prefetch_node_top_of_memory:
  assumes "requests_ok st" "valid_nid n" "lo < hi" "2 ^ 64 - 4096 < unat hi"
  shows "popcorn_prefetch_node st n type lo hi = Inl Abort"
  using popcorn_prefetch_node_wraps [OF assms] .

theorem prefetch_node_top_of_memory_witness:
  "\<exists>st. prefetch_initialize = Inr st \<and>
        popcorn_prefetch_node st 0 READ 0xFFFFFFFFFFFFE000 0xFFFFFFFFFFFFF001 = Inl Abort"
proof -
  obtain st where st: "prefetch_initialize = Inr st" "requests_ok st" using prefetch_initialize_ok by blast
  then show ?thesis
    using prefetch_node_top_of_memory [OF st(2), of 0 "0xFFFFFFFFFFFFE000" "0xFFFFFFFFFFFFF001" READ]
    by (intro exI [of _ st]) (simp add: valid_nid_def MAX_POPCORN_NODES_def)
qed

text \<open>
  C16: Executing the requests of the node the thread runs on asks for the pages queued for writing, then for those queued
  for reading that are not also queued for writing, then gives up those queued for release that are in neither. Each call of \<open>madvise\<close> is about whole pages, and no page is
  in two of them. The node's queues are empty afterwards, those of the other nodes as they were, and the number of
  requests sent is the result.
\<close>

theorem execute_node_advises:
  assumes "requests_ok st" "valid_nid n"
  shows "\<exists>st' ws rs ls. popcorn_prefetch_execute_node n st n = Inr (st', of_nat (length ws + length rs + length ls)) \<and>
           advised st' = advised st @ map (advice_of WRITE) ws @ map (advice_of READ) rs
                           @ map (advice_of RELEASE) ls \<and>
           covered ws = queued WRITE (requests st ! nat n) \<and>
           covered rs = queued READ (requests st ! nat n) - queued WRITE (requests st ! nat n) \<and>
           covered ls = queued RELEASE (requests st ! nat n) - queued WRITE (requests st ! nat n)
                          - queued READ (requests st ! nat n) \<and>
           (\<forall>m \<in> set (ws @ rs @ ls). whole_pages m) \<and>
           (\<forall>i j. i < j \<longrightarrow> j < length (ws @ rs @ ls) \<longrightarrow>
             addresses ((ws @ rs @ ls) ! i) \<inter> addresses ((ws @ rs @ ls) ! j) = {}) \<and>
           no_requests (requests st' ! nat n) \<and>
           (\<forall>i. i \<noteq> nat n \<longrightarrow> requests st' ! i = requests st ! i) \<and>
           total_num st' = total_num st + of_nat (length ws + length rs + length ls)"
proof -
  from popcorn_prefetch_execute_internal_ok [OF assms] obtain r' ws rs ls where r:
    "no_requests r'"
    "popcorn_prefetch_execute_internal n st n =
       Inr (st\<lparr>requests := (requests st)[nat n := r'],
               advised := advised st @ map (advice_of WRITE) ws @ map (advice_of READ) rs
                            @ map (advice_of RELEASE) ls\<rparr>,
            of_nat (length ws + length rs + length ls))"
    "covered ws = queued WRITE (requests st ! nat n)"
    "covered rs = queued READ (requests st ! nat n) - queued WRITE (requests st ! nat n)"
    "covered ls = queued RELEASE (requests st ! nat n) - queued WRITE (requests st ! nat n)
       - queued READ (requests st ! nat n)"
    "\<forall>m \<in> set (ws @ rs @ ls). whole_pages m" "each_once (ws @ rs @ ls)" by blast
  have "\<forall>i j. i < j \<longrightarrow> j < length (ws @ rs @ ls) \<longrightarrow>
      addresses ((ws @ rs @ ls) ! i) \<inter> addresses ((ws @ rs @ ls) ! j) = {}"
    using r(7) unfolding each_once_def sorted_wrt_iff_nth_less by blast
  note once = this
  show ?thesis
    using r(1-6) assms(2) requests_okD(3) [OF assms]
    by (intro exI [of _ "accumulate_global_stats (st\<lparr>requests := (requests st)[nat n := r'],
               advised := advised st @ map (advice_of WRITE) ws @ map (advice_of READ) rs
                            @ map (advice_of RELEASE) ls\<rparr>) (of_nat (length ws + length rs + length ls))"]
          exI [of _ ws] exI [of _ rs] exI [of _ ls] conjI once)
       (simp_all add: popcorn_prefetch_execute_node_def accumulate_global_stats_def)
qed

theorem execute_node_advises_witness:
  "\<exists>st st' ws rs ls. popcorn_prefetch_execute_node 0 st 0 = Inr (st', of_nat (length ws + length rs + length ls)) \<and>
     advised st' = map (advice_of WRITE) ws @ map (advice_of READ) rs @ map (advice_of RELEASE) ls \<and>
     covered ws = {0x1000..<0x3000} \<and> covered rs = {0x2000..<0x4000} - {0x1000..<0x3000} \<and> covered ls = {} \<and>
     no_requests (requests st' ! 0)"
proof -
  have n: "valid_nid 0" by (simp add: valid_nid_def MAX_POPCORN_NODES_def)
  obtain st2 where st2: "requests_ok st2" "advised st2 = []"
    "queued WRITE (requests st2 ! nat 0) = {0x1000..<0x3000}"
    "queued READ (requests st2 ! nat 0) = {0x2000..<0x4000}" "queued RELEASE (requests st2 ! nat 0) = {}"
    using example_run by blast
  from execute_node_advises [OF st2(1) n] obtain st' ws rs ls where
    "popcorn_prefetch_execute_node 0 st2 0 = Inr (st', of_nat (length ws + length rs + length ls))"
    "advised st' = advised st2 @ map (advice_of WRITE) ws @ map (advice_of READ) rs @ map (advice_of RELEASE) ls"
    "covered ws = queued WRITE (requests st2 ! nat 0)"
    "covered rs = queued READ (requests st2 ! nat 0) - queued WRITE (requests st2 ! nat 0)"
    "covered ls = queued RELEASE (requests st2 ! nat 0) - queued WRITE (requests st2 ! nat 0)
                    - queued READ (requests st2 ! nat 0)"
    "no_requests (requests st' ! nat 0)" by (elim exE conjE) (rule that)
  note run = this
  have "covered ws = {0x1000..<0x3000}" "covered rs = {0x2000..<0x4000} - {0x1000..<0x3000}" "covered ls = {}"
    using run(3-5) st2(3-5) by simp_all
  moreover have "advised st' = map (advice_of WRITE) ws @ map (advice_of READ) rs @ map (advice_of RELEASE) ls"
    "no_requests (requests st' ! 0)"
    using run(2,6) st2(2) by simp_all
  ultimately show ?thesis using run(1) by blast
qed

text \<open>
  C17: In every run of the library, whatever is queued and executed on whichever nodes, every call of \<open>madvise\<close>
  is about a whole number of pages, at least one, from the start of a page, with one of the three kinds of advice.
\<close>

theorem run_advises_pages:
  assumes "prefetch_run st" "c \<in> set (advised st)"
  shows "page_advice c"
  using prefetch_run_ok [OF assms(1)] assms(2) by (simp add: prefetcher_ok_def)

theorem run_advises_pages_witness:
  "\<exists>st c. prefetch_run st \<and> c \<in> set (advised st) \<and> page_advice c"
proof -
  have n: "valid_nid 0" by (simp add: valid_nid_def MAX_POPCORN_NODES_def)
  obtain st where st: "prefetch_run st" "requests_ok st"
    "queued WRITE (requests st ! nat 0) = {0x1000..<0x3000}"
    using example_run by blast
  from popcorn_prefetch_execute_internal_ok [OF st(2) n] obtain st' k ws cs where
    x: "popcorn_prefetch_execute_internal 0 st 0 = Inr (st', k)" "advised st' = advised st @ map (advice_of WRITE) ws @ cs"
    "covered ws = {0x1000..<0x3000}" unfolding st(3) by fastforce
  then have "prefetch_step st (accumulate_global_stats st' k)"
    using n by (intro prefetch_step.execute [of 0 _ 0]) (simp add: popcorn_prefetch_execute_node_def)
  then have run: "prefetch_run (accumulate_global_stats st' k)" using st(1) by (blast intro: prefetch_run.step)
  have "(0x1000 :: u64) \<in> covered ws" unfolding x(3) by simp
  then obtain m where "m \<in> set ws" by (auto simp: covered_def)
  then have "advice_of WRITE m \<in> set (advised (accumulate_global_stats st' k))"
    using x(2) by (simp add: accumulate_global_stats_def)
  then show ?thesis using run run_advises_pages [OF run] by blast
qed

end
