(* ===== verification/Regs.thy ===== *)
theory Regs
  imports Prelude
begin

text \<open>
  The architecture-agnostic register and stack-property interfaces
  (\<open>lib/stack_transformation/include/regs.h\<close>, \<open>properties.h\<close>): the two tables of operations,
  the layout of a C struct, and the contract (locale \<open>regset_iface\<close>) that the unwinder relies
  on. A register set is a block of \<open>regset_size\<close> bytes inside a pool of bytes, named by its
  offset in the pool, as \<open>init_data_pools\<close> and \<open>setup_regset\<close> lay them out.
\<close>

section \<open>The operation tables\<close>

text \<open>\<open>struct regops_t\<close>; a pointer to a register is its byte offset in the register set.\<close>

record regops =
  num_regs :: nat
  has_ra_reg :: bool
  regset_size :: nat
  fbp_regnum :: u16
  regset_default_op :: "bool \<Rightarrow> u8 list option"
  regset_init_op :: "bool \<Rightarrow> u8 list \<Rightarrow> u8 list result"
  regset_clone_op :: "pool \<Rightarrow> nat \<Rightarrow> nat \<Rightarrow> pool"
  regset_copyin_op :: "pool \<Rightarrow> nat \<Rightarrow> pool \<Rightarrow> pool"
  regset_copyout_op :: "pool \<Rightarrow> nat \<Rightarrow> pool \<Rightarrow> pool"
  pc_op :: "pool \<Rightarrow> nat \<Rightarrow> u64"
  sp_op :: "pool \<Rightarrow> nat \<Rightarrow> u64"
  fbp_op :: "pool \<Rightarrow> nat \<Rightarrow> u64"
  ra_reg_op :: "pool \<Rightarrow> nat \<Rightarrow> u64 result"
  set_pc_op :: "pool \<Rightarrow> nat \<Rightarrow> u64 \<Rightarrow> pool"
  set_sp_op :: "pool \<Rightarrow> nat \<Rightarrow> u64 \<Rightarrow> pool"
  set_fbp_op :: "pool \<Rightarrow> nat \<Rightarrow> u64 \<Rightarrow> pool"
  set_ra_reg_op :: "pool \<Rightarrow> nat \<Rightarrow> u64 \<Rightarrow> pool result"
  setup_fbp_op :: "pool \<Rightarrow> nat \<Rightarrow> u64 \<Rightarrow> pool"
  reg_size_op :: "u16 \<Rightarrow> nat result"
  reg_op :: "u16 \<Rightarrow> nat result"

text \<open>\<open>struct properties_t\<close>.\<close>

record properties =
  num_callee_saved :: nat
  callee_saved_regs :: "u16 list"
  callee_saved_size :: "nat list"
  ra_offset :: int
  cfa_offset_funcentry :: int
  align_sp_op :: "u64 \<Rightarrow> u64"
  is_callee_saved_op :: "u16 \<Rightarrow> bool"
  callee_reg_size_op :: "u16 \<Rightarrow> nat result"

section \<open>Layout of a register-set struct\<close>

text \<open>
  A member is its name, the size of one element (which is also its alignment for every type used
  in the register sets) and its number of elements. \<open>struct_offsets\<close> lays the members out in
  order, each at the next multiple of its alignment, as the three ABIs prescribe.
\<close>

type_synonym member = "string \<times> nat \<times> nat"

definition align_up :: "nat \<Rightarrow> nat \<Rightarrow> nat" where
  "align_up n a = (n + (a - 1)) div a * a"

fun struct_offsets :: "nat \<Rightarrow> member list \<Rightarrow> (string \<times> nat \<times> nat) list" where
  "struct_offsets p [] = []"
| "struct_offsets p ((f, sz, n) # ms) =
     (f, align_up p sz, sz) # struct_offsets (align_up p sz + sz * n) ms"

fun struct_end :: "nat \<Rightarrow> member list \<Rightarrow> nat" where
  "struct_end p [] = p"
| "struct_end p ((f, sz, n) # ms) = struct_end (align_up p sz + sz * n) ms"

definition struct_size :: "member list \<Rightarrow> nat" where
  "struct_size ms = align_up (struct_end 0 ms) (fold (\<lambda>(_, sz, _). max sz) ms 1)"

text \<open>Offset of element \<open>i\<close> of member \<open>f\<close> (\<open>&cur->f[i]\<close>).\<close>

definition member_off :: "member list \<Rightarrow> string \<Rightarrow> nat \<Rightarrow> nat" where
  "member_off ms f i =
     (case map_of (struct_offsets 0 ms) f of Some (off, sz) \<Rightarrow> off + sz * i | None \<Rightarrow> 0)"

text \<open>
  The \<open>switch(reg)\<close> of the \<open>reg_*\<close> functions: the first label whose register number equals
  \<open>reg\<close> selects the member, and no label ends in \<open>ST_ERR(1, ...)\<close>. \<open>defs\<close> are the
  \<open>#define\<close>d DWARF numbers.
\<close>

fun switch_reg :: "(string \<times> u16) list \<Rightarrow> member list \<Rightarrow> (string \<times> string \<times> nat) list \<Rightarrow>
    u16 \<Rightarrow> nat result" where
  "switch_reg defs ms [] reg = Inl (Exit 1)"
| "switch_reg defs ms ((lbl, f, i) # cs) reg =
     (if map_of defs lbl = Some reg then Inr (member_off ms f i) else switch_reg defs ms cs reg)"

text \<open>The \<open>switch(reg)\<close> of the size functions: groups of labels with one returned size each.\<close>

fun switch_size :: "(string \<times> u16) list \<Rightarrow> (string list \<times> nat) list \<Rightarrow> u16 \<Rightarrow> nat result" where
  "switch_size defs [] reg = Inl (Exit 1)"
| "switch_size defs ((lbls, n) # gs) reg =
     (if (\<exists>l \<in> set lbls. map_of defs l = Some reg) then Inr n else switch_size defs gs reg)"

text \<open>
  The tables in closed form: when the labels resolve to the numbers \<open>ns\<close> and the members to the
  offsets \<open>off n\<close>, the switch is membership in \<open>ns\<close>.
\<close>

lemma word_of_nat_eq_u16: "n < 65536 \<Longrightarrow> word_of_nat n = (reg::u16) \<longleftrightarrow> n = unat reg"
  by (auto simp: unat_of_nat)

lemma switch_reg_closed:
  assumes "map (\<lambda>(l, f, i). map_of defs l) cs = map (\<lambda>n. Some (word_of_nat n)) ns"
    and "map (\<lambda>(l, f, i). member_off ms f i) cs = map off ns"
    and "list_all (\<lambda>n. n < 65536) ns"
  shows "switch_reg defs ms cs reg =
           (if unat reg \<in> set ns then Inr (off (unat reg)) else Inl (Exit 1))"
  using assms
proof (induction cs arbitrary: ns)
  case Nil
  then show ?case by simp
next
  case (Cons c cs)
  obtain l f i where c: "c = (l, f, i)" by (cases c)
  from Cons.prems(1) obtain n ns' where ns: "ns = n # ns'" by (cases ns) (auto simp: c)
  have eq: "map_of defs l = Some reg \<longleftrightarrow> n = unat reg"
    using Cons.prems by (simp add: c ns word_of_nat_eq_u16)
  have IH: "switch_reg defs ms cs reg =
      (if unat reg \<in> set ns' then Inr (off (unat reg)) else Inl (Exit 1))"
    using Cons.prems by (intro Cons.IH) (simp_all add: c ns)
  show ?case
  proof (cases "n = unat reg")
    case True
    then show ?thesis using Cons.prems(2) eq by (simp add: c ns)
  next
    case False
    then show ?thesis using IH eq by (simp add: c ns)
  qed
qed

lemma switch_size_closed:
  assumes "map (\<lambda>(ls, k). (map (map_of defs) ls, k)) gs =
           map (\<lambda>(ns, k). (map (\<lambda>n. Some (word_of_nat n)) ns, k)) ks"
    and "list_all (\<lambda>(ns, k). list_all (\<lambda>n. n < 65536) ns) ks"
  shows "switch_size defs gs reg =
           (case find (\<lambda>(ns, k). unat reg \<in> set ns) ks of Some (ns, k) \<Rightarrow> Inr k
            | None \<Rightarrow> Inl (Exit 1))"
  using assms
proof (induction gs arbitrary: ks)
  case Nil
  then show ?case by simp
next
  case (Cons g gs)
  obtain ls n where g: "g = (ls, n)" by (cases g)
  from Cons.prems(1) obtain ns ks' where ks: "ks = (ns, n) # ks'" by (cases ks) (auto simp: g)
  have "map_of defs ` set ls = (\<lambda>n. Some (word_of_nat n)) ` set ns"
    using Cons.prems(1) by (simp add: g ks flip: set_map)
  then have "Some reg \<in> map_of defs ` set ls \<longleftrightarrow> Some reg \<in> (\<lambda>n. Some (word_of_nat n)) ` set ns"
    by (simp only:)
  then have "(\<exists>l \<in> set ls. map_of defs l = Some reg) \<longleftrightarrow> (\<exists>n \<in> set ns. word_of_nat n = reg)"
    by (simp add: image_iff eq_commute)
  also have "\<dots> \<longleftrightarrow> unat reg \<in> set ns"
    using Cons.prems(2) by (auto simp: g ks word_of_nat_eq_u16 list_all_iff)
  finally show ?case using Cons.IH [of ks'] Cons.prems by (auto simp: g ks)
qed

text \<open>Struct assignment copies all bytes of the struct.\<close>

definition copy_struct :: "nat \<Rightarrow> pool \<Rightarrow> nat \<Rightarrow> pool \<Rightarrow> nat \<Rightarrow> pool" where
  "copy_struct n from s to d = store to d (load from s n)"

lemma copy_struct_in: "i < n \<Longrightarrow> copy_struct n from s to d (d + i) = from (s + i)"
  using store_at [of "load from s n" i to d] by (simp add: copy_struct_def nth_load)

lemma copy_struct_out: "x < d \<or> d + n \<le> x \<Longrightarrow> copy_struct n from s to d x = to x"
  by (simp add: copy_struct_def store_pool_other)

section \<open>Stack alignment arithmetic\<close>

text \<open>The expression \<open>sp - (16 - sp % 16)\<close> the x86-64 and AArch64 properties share.\<close>

lemma unat_mod_16: "unat ((sp::u64) mod 16) = unat sp mod 16"
  by (simp add: unat_mod)

lemma unat_align_expr:
  assumes "16 \<le> unat (sp::u64)"
  shows "unat (sp - (16 - sp mod 16)) = unat sp + unat sp mod 16 - 16"
proof -
  have m: "unat (sp mod 16) < 16" by (simp add: unat_mod_16)
  then have le: "sp mod 16 \<le> 16" by (simp add: word_le_nat_alt)
  have "unat (16 - sp mod 16) = 16 - unat sp mod 16"
    using le by (simp add: unat_sub unat_mod_16)
  moreover have "16 - sp mod 16 \<le> sp"
    using assms calculation by (simp add: word_le_nat_alt)
  ultimately show ?thesis using assms m by (simp add: unat_sub unat_mod_16)
qed

lemma align_expr_mod:
  assumes "16 \<le> unat (sp::u64)" "8 dvd unat sp"
  shows "unat (sp - (16 - sp mod 16)) mod 16 = 0"
proof -
  obtain k where k: "unat sp = 8 * k" using assms(2) by (auto elim: dvdE)
  have "\<exists>m. unat sp + unat sp mod 16 - 16 = 16 * m"
  proof (cases "even k")
    case True
    then obtain m where "k = 2 * m" by (auto elim: evenE)
    then have "unat sp + unat sp mod 16 - 16 = 16 * (m - 1)" using k by simp
    then show ?thesis ..
  next
    case False
    then obtain m where "k = 2 * m + 1" by (auto elim: oddE)
    then have "unat sp + unat sp mod 16 - 16 = 16 * m" using k by simp
    then show ?thesis ..
  qed
  then show ?thesis unfolding unat_align_expr [OF assms(1)] by auto
qed

lemma align_expr_below:
  assumes "16 \<le> unat (sp::u64)"
  shows "unat (sp - (16 - sp mod 16)) < unat sp" "unat sp \<le> unat (sp - (16 - sp mod 16)) + 16"
  using assms by (simp_all add: unat_align_expr)

lemma and_not_7: "unat (and (sp::u64) (not 7)) = unat sp div 8 * 8"
proof -
  have "and sp (not (mask 3)) = push_bit 3 (drop_bit 3 sp)"
    by (rule bit_word_eqI) (auto simp: bit_and_iff bit_not_iff bit_mask_iff bit_push_bit_iff bit_drop_bit_eq)
  moreover have "mask 3 = (7::u64)" by (simp add: mask_eq_exp_minus_1)
  moreover have "unat (push_bit 3 (drop_bit 3 sp)) = unat sp div 8 * 8"
  proof -
    have "unat sp div 8 * 8 < 2 ^ 64"
      using unsigned_less [of sp, where ?'a = nat] by (simp add: le_less_trans [OF div_times_less_eq_dividend])
    then show ?thesis
      by (simp add: drop_bit_eq_div push_bit_eq_mult unat_word_ariths unat_div)
  qed
  ultimately show ?thesis by simp
qed
lemma and_8_zero: "and (x::u64) 8 = 0 \<longleftrightarrow> even (unat x div 8)"
proof -
  have "and x 8 = 0 \<longleftrightarrow> \<not> bit x 3"
    using and_exp_eq_0_iff_not_bit [of x 3] by simp
  also have "\<dots> \<longleftrightarrow> even (unat x div 8)"
  proof -
    have "bit x 3 = bit (unat x) 3" by (simp add: bit_unsigned_iff bit_imp_le_length)
    then show ?thesis by (simp add: bit_iff_odd)
  qed
  finally show ?thesis .
qed

section \<open>The contract of a register set\<close>

text \<open>
  Two register sets, possibly in two pools, with the same bytes.
\<close>

definition same_regset :: "nat \<Rightarrow> pool \<Rightarrow> nat \<Rightarrow> pool \<Rightarrow> nat \<Rightarrow> bool" where
  "same_regset n p b q c \<longleftrightarrow> (\<forall>i<n. p (b + i) = q (c + i))"

lemma same_regset_refl [simp]: "same_regset n p b p b"
  by (simp add: same_regset_def)

lemma same_regset_sym: "same_regset n p b q c \<Longrightarrow> same_regset n q c p b"
  by (simp add: same_regset_def)

lemma same_regset_trans: "same_regset n p b q c \<Longrightarrow> same_regset n q c r d \<Longrightarrow> same_regset n p b r d"
  by (simp add: same_regset_def)

lemma same_regset_copy: "same_regset n (copy_struct n from s to d) d from s"
  by (simp add: same_regset_def copy_struct_in)

lemma same_regset_load:
  "same_regset n p b q c \<Longrightarrow> off + k \<le> n \<Longrightarrow> load p (b + off) k = load q (c + off) k"
  unfolding same_regset_def load_def by (auto simp: add.assoc)

lemma same_regset_load64:
  "same_regset n p b q c \<Longrightarrow> off + 8 \<le> n \<Longrightarrow> load64 p (b + off) = load64 q (c + off)"
  by (simp add: load64_def same_regset_load)

lemma same_regset_load64_0:
  "same_regset n p b q c \<Longrightarrow> 8 \<le> n \<Longrightarrow> load64 p b = load64 q c"
  using same_regset_load64 [of n p b q c 0] by simp

text \<open>
  What the unwinder relies on. The first group relates the special registers to each other; the
  second says that every setter writes inside the register set it is given and that every getter
  reads only there; the third is about registers by number: each is at least eight bytes wide
  inside the set, two of them never share those bytes, and the frame base pointer is the numbered
  register \<open>fbp_regnum\<close>.
\<close>

locale regset_iface =
  fixes ops :: regops
  assumes pc_set_pc: "pc_op ops (set_pc_op ops p b v) b = v"
    and sp_set_sp: "sp_op ops (set_sp_op ops p b v) b = v"
    and fbp_set_fbp: "fbp_op ops (set_fbp_op ops p b v) b = v"
    and sp_set_pc: "sp_op ops (set_pc_op ops p b v) b = sp_op ops p b"
    and fbp_set_pc: "fbp_op ops (set_pc_op ops p b v) b = fbp_op ops p b"
    and pc_set_sp: "pc_op ops (set_sp_op ops p b v) b = pc_op ops p b"
    and fbp_set_sp: "fbp_op ops (set_sp_op ops p b v) b = fbp_op ops p b"
    and pc_set_fbp: "pc_op ops (set_fbp_op ops p b v) b = pc_op ops p b"
    and sp_set_fbp: "sp_op ops (set_fbp_op ops p b v) b = sp_op ops p b"
    and pc_setup_fbp: "pc_op ops (setup_fbp_op ops p b v) b = pc_op ops p b"
    and sp_setup_fbp: "sp_op ops (setup_fbp_op ops p b v) b = sp_op ops p b"
    and set_pc_frame: "x < b \<or> b + regset_size ops \<le> x \<Longrightarrow> set_pc_op ops p b v x = p x"
    and set_sp_frame: "x < b \<or> b + regset_size ops \<le> x \<Longrightarrow> set_sp_op ops p b v x = p x"
    and set_fbp_frame: "x < b \<or> b + regset_size ops \<le> x \<Longrightarrow> set_fbp_op ops p b v x = p x"
    and setup_fbp_frame: "x < b \<or> b + regset_size ops \<le> x \<Longrightarrow> setup_fbp_op ops p b v x = p x"
    and pc_cong: "same_regset (regset_size ops) p b q c \<Longrightarrow> pc_op ops p b = pc_op ops q c"
    and sp_cong: "same_regset (regset_size ops) p b q c \<Longrightarrow> sp_op ops p b = sp_op ops q c"
    and fbp_cong: "same_regset (regset_size ops) p b q c \<Longrightarrow> fbp_op ops p b = fbp_op ops q c"
    and clone_is_copy: "regset_clone_op ops p s d = copy_struct (regset_size ops) p s p d"
    and copyin_is_copy: "regset_copyin_op ops p d q = copy_struct (regset_size ops) q 0 p d"
    and copyout_is_copy: "regset_copyout_op ops p s q = copy_struct (regset_size ops) p s q 0"
    and reg_bound: "reg_op ops r = Inr off \<Longrightarrow> off + 8 \<le> regset_size ops"
    and reg_apart: "reg_op ops r = Inr off \<Longrightarrow> reg_op ops r' = Inr off' \<Longrightarrow> r \<noteq> r' \<Longrightarrow>
          off + 8 \<le> off' \<or> off' + 8 \<le> off"
    and reg_fbp: "\<exists>off. reg_op ops (fbp_regnum ops) = Inr off \<and>
          (\<forall>p b. fbp_op ops p b = load64 p (b + off))"
    and ra_reg_set: "has_ra_reg ops \<Longrightarrow>
          \<exists>q. set_ra_reg_op ops p b v = Inr q \<and> ra_reg_op ops q b = Inr v"
    and ra_reg_none: "\<not> has_ra_reg ops \<Longrightarrow> ra_reg_op ops p b = Inl (Exit 1)"
    and num_regs_reg: "reg_op ops r = Inr off \<Longrightarrow> unat r < num_regs ops"
begin

lemmas special_get_set [simp] =
  pc_set_pc sp_set_sp fbp_set_fbp sp_set_pc fbp_set_pc pc_set_sp fbp_set_sp pc_set_fbp
  sp_set_fbp pc_setup_fbp sp_setup_fbp

text \<open>A clone has the special registers of its source and leaves every other set alone.\<close>

lemma clone_same: "same_regset (regset_size ops) (regset_clone_op ops p s d) d p s"
  by (simp add: clone_is_copy same_regset_copy)

lemma clone_special:
  "pc_op ops (regset_clone_op ops p s d) d = pc_op ops p s"
  "sp_op ops (regset_clone_op ops p s d) d = sp_op ops p s"
  "fbp_op ops (regset_clone_op ops p s d) d = fbp_op ops p s"
  using clone_same by (auto intro: pc_cong sp_cong fbp_cong)

lemma clone_frame: "x < d \<or> d + regset_size ops \<le> x \<Longrightarrow> regset_clone_op ops p s d x = p x"
  by (simp add: clone_is_copy copy_struct_out)

text \<open>Copying a register set in and out again gives back the bytes that came in.\<close>

lemma copyin_copyout:
  "same_regset (regset_size ops) (regset_copyout_op ops (regset_copyin_op ops p b q) b q') 0 q 0"
  unfolding copyin_is_copy copyout_is_copy
  by (rule same_regset_trans [OF same_regset_copy same_regset_copy])

text \<open>Writing at most eight bytes to one numbered register leaves the others unchanged.\<close>

lemma reg_write_other:
  assumes "reg_op ops r = Inr off" "reg_op ops r' = Inr off'" "r \<noteq> r'" "length bs \<le> 8"
  shows "load64 (store p (b + off) bs) (b + off') = load64 p (b + off')"
  using reg_apart [OF assms(1-3)] assms(4)
  by (auto simp: load64_def intro!: arg_cong [of _ _ word_of] load_store_pool_other)

lemma reg_write_frame:
  assumes "reg_op ops r = Inr off" "length bs \<le> 8" "x < b \<or> b + regset_size ops \<le> x"
  shows "store p (b + off) bs x = p x"
  using reg_bound [OF assms(1)] assms(2,3) by (intro store_pool_other) auto

end

text \<open>
  A register set whose \<open>reg_size\<close> is the real width of every register: what code that copies
  \<open>reg_size\<close> bytes through a register pointer would need. x86-64 and AArch64 meet it; PowerPC64
  does not, because its size function answers 16 for the 8-byte floating-point registers.
\<close>

locale regset_sized = regset_iface +
  assumes size_domain: "reg_op ops r = Inr off \<Longrightarrow> \<exists>n. reg_size_op ops r = Inr n"
    and size_bound: "reg_op ops r = Inr off \<Longrightarrow> reg_size_op ops r = Inr n \<Longrightarrow>
          8 \<le> n \<and> off + n \<le> regset_size ops"
    and size_apart: "reg_op ops r = Inr off \<Longrightarrow> reg_size_op ops r = Inr n \<Longrightarrow>
          reg_op ops r' = Inr off' \<Longrightarrow> reg_size_op ops r' = Inr n' \<Longrightarrow> r \<noteq> r' \<Longrightarrow>
          off + n \<le> off' \<or> off' + n' \<le> off"
begin

text \<open>Writing a whole register and reading any register back.\<close>

lemma reg_full_write_other:
  assumes "reg_op ops r = Inr off" "reg_size_op ops r = Inr n"
    "reg_op ops r' = Inr off'" "reg_size_op ops r' = Inr n'" "r \<noteq> r'" "length bs = n"
  shows "load (store p (b + off) bs) (b + off') n' = load p (b + off') n'"
  using size_apart [OF assms(1-5)] assms(6) by (intro load_store_pool_other) auto

lemma reg_full_write_frame:
  assumes "reg_op ops r = Inr off" "reg_size_op ops r = Inr n" "length bs = n"
    "x < b \<or> b + regset_size ops \<le> x"
  shows "store p (b + off) bs x = p x"
  using size_bound [OF assms(1,2)] assms(3,4) by (intro store_pool_other) auto

end

end
