(* ===== verification/Regs_X86_64.thy ===== *)
theory Regs_X86_64
  imports Regs
begin

text \<open>
  The x86-64 register set (\<open>include/arch/x86_64/regs.h\<close>, \<open>src/arch/x86_64/regs.c\<close>) and stack
  properties (\<open>src/arch/x86_64/properties.c\<close>) of the stack transformation runtime.
\<close>

section \<open>Register set and register numbers\<close>

definition members_x86_64 :: "member list" where
  "members_x86_64 =
    [(''rip'', 8, 1), (''rax'', 8, 1), (''rdx'', 8, 1), (''rcx'', 8, 1), (''rbx'', 8, 1),
     (''rsi'', 8, 1), (''rdi'', 8, 1), (''rbp'', 8, 1), (''rsp'', 8, 1), (''r8'', 8, 1),
     (''r9'', 8, 1), (''r10'', 8, 1), (''r11'', 8, 1), (''r12'', 8, 1), (''r13'', 8, 1),
     (''r14'', 8, 1), (''r15'', 8, 1), (''mmx'', 8, 8), (''xmm'', 16, 16), (''st'', 16, 8),
     (''cs'', 4, 1), (''ss'', 4, 1), (''ds'', 4, 1), (''es'', 4, 1), (''fs'', 4, 1),
     (''gs'', 4, 1), (''rflags'', 8, 1)]"

definition dwarf_x86_64 :: "(string \<times> u16) list" where
  "dwarf_x86_64 =
    [(''RAX'', 0), (''RDX'', 1), (''RCX'', 2), (''RBX'', 3), (''RSI'', 4), (''RDI'', 5),
     (''RBP'', 6), (''RSP'', 7), (''R8'', 8), (''R9'', 9), (''R10'', 10), (''R11'', 11),
     (''R12'', 12), (''R13'', 13), (''R14'', 14), (''R15'', 15), (''RIP'', 16),
     (''XMM0'', 17), (''XMM1'', 18), (''XMM2'', 19), (''XMM3'', 20), (''XMM4'', 21),
     (''XMM5'', 22), (''XMM6'', 23), (''XMM7'', 24), (''XMM8'', 25), (''XMM9'', 26),
     (''XMM10'', 27), (''XMM11'', 28), (''XMM12'', 29), (''XMM13'', 30), (''XMM14'', 31),
     (''XMM15'', 32)]"

definition reg_cases_x86_64 :: "(string \<times> string \<times> nat) list" where
  "reg_cases_x86_64 =
    [(''RAX'', ''rax'', 0), (''RDX'', ''rdx'', 0), (''RCX'', ''rcx'', 0),
     (''RBX'', ''rbx'', 0), (''RSI'', ''rsi'', 0), (''RDI'', ''rdi'', 0),
     (''RBP'', ''rbp'', 0), (''RSP'', ''rsp'', 0), (''R8'', ''r8'', 0),
     (''R9'', ''r9'', 0), (''R10'', ''r10'', 0), (''R11'', ''r11'', 0),
     (''R12'', ''r12'', 0), (''R13'', ''r13'', 0), (''R14'', ''r14'', 0),
     (''R15'', ''r15'', 0), (''RIP'', ''rip'', 0), (''XMM0'', ''xmm'', 0),
     (''XMM1'', ''xmm'', 1), (''XMM2'', ''xmm'', 2), (''XMM3'', ''xmm'', 3),
     (''XMM4'', ''xmm'', 4), (''XMM5'', ''xmm'', 5), (''XMM6'', ''xmm'', 6),
     (''XMM7'', ''xmm'', 7), (''XMM8'', ''xmm'', 8), (''XMM9'', ''xmm'', 9),
     (''XMM10'', ''xmm'', 10), (''XMM11'', ''xmm'', 11), (''XMM12'', ''xmm'', 12),
     (''XMM13'', ''xmm'', 13), (''XMM14'', ''xmm'', 14), (''XMM15'', ''xmm'', 15)]"

definition reg_size_cases_x86_64 :: "(string list \<times> nat) list" where
  "reg_size_cases_x86_64 = [
      ([''RAX'', ''RDX'', ''RCX'', ''RBX'', ''RSI'', ''RDI'', ''RBP'', ''RSP'', ''R8'',
     ''R9'', ''R10'', ''R11'', ''R12'', ''R13'', ''R14'', ''R15'', ''RIP''], 8),
      ([''XMM0'', ''XMM1'', ''XMM2'', ''XMM3'', ''XMM4'', ''XMM5'', ''XMM6'', ''XMM7'',
     ''XMM8'', ''XMM9'', ''XMM10'', ''XMM11'', ''XMM12'', ''XMM13'', ''XMM14'', ''XMM15''], 16)
    ]"

section \<open>Register operations\<close>

definition pc_x86_64 :: "pool \<Rightarrow> nat \<Rightarrow> u64" where
  "pc_x86_64 regset b = load64 regset (b + member_off members_x86_64 ''rip'' 0)"

definition sp_x86_64 :: "pool \<Rightarrow> nat \<Rightarrow> u64" where
  "sp_x86_64 regset b = load64 regset (b + member_off members_x86_64 ''rsp'' 0)"

definition fbp_x86_64 :: "pool \<Rightarrow> nat \<Rightarrow> u64" where
  "fbp_x86_64 regset b = load64 regset (b + member_off members_x86_64 ''rbp'' 0)"

text \<open>The return address is always on the stack: asking for the register ends the program.\<close>

definition ra_reg_x86_64 :: "pool \<Rightarrow> nat \<Rightarrow> u64 result" where
  "ra_reg_x86_64 regset b = Inl (Exit 1)"

definition set_pc_x86_64 :: "pool \<Rightarrow> nat \<Rightarrow> u64 \<Rightarrow> pool" where
  "set_pc_x86_64 regset b v = store64 regset (b + member_off members_x86_64 ''rip'' 0) v"

definition set_sp_x86_64 :: "pool \<Rightarrow> nat \<Rightarrow> u64 \<Rightarrow> pool" where
  "set_sp_x86_64 regset b v = store64 regset (b + member_off members_x86_64 ''rsp'' 0) v"

definition set_fbp_x86_64 :: "pool \<Rightarrow> nat \<Rightarrow> u64 \<Rightarrow> pool" where
  "set_fbp_x86_64 regset b v = store64 regset (b + member_off members_x86_64 ''rbp'' 0) v"

definition set_ra_reg_x86_64 :: "pool \<Rightarrow> nat \<Rightarrow> u64 \<Rightarrow> pool result" where
  "set_ra_reg_x86_64 regset b v = Inl (Exit 1)"

definition setup_fbp_x86_64 :: "pool \<Rightarrow> nat \<Rightarrow> u64 \<Rightarrow> pool" where
  "setup_fbp_x86_64 regset b cfa =
     store64 regset (b + member_off members_x86_64 ''rbp'' 0) (cfa - 0x10)"

definition reg_size_x86_64 :: "u16 \<Rightarrow> nat result" where
  "reg_size_x86_64 reg = switch_size dwarf_x86_64 reg_size_cases_x86_64 reg"

definition reg_x86_64 :: "u16 \<Rightarrow> nat result" where
  "reg_x86_64 reg = switch_reg dwarf_x86_64 members_x86_64 reg_cases_x86_64 reg"

text \<open>
  Allocation: the Boolean says whether the allocator returned memory. A default set is all zeroes
  (\<open>calloc\<close>), and initializing a set copies the struct; writing through a null result is undefined.
\<close>

definition regset_default_x86_64 :: "bool \<Rightarrow> u8 list option" where
  "regset_default_x86_64 ok = (if ok then Some (replicate (struct_size members_x86_64) 0) else None)"

definition regset_init_x86_64 :: "bool \<Rightarrow> u8 list \<Rightarrow> u8 list result" where
  "regset_init_x86_64 ok regs =
     (if ok \<and> struct_size members_x86_64 \<le> length regs
      then Inr (take (struct_size members_x86_64) regs) else Inl Undef)"

definition regset_clone_x86_64 :: "pool \<Rightarrow> nat \<Rightarrow> nat \<Rightarrow> pool" where
  "regset_clone_x86_64 p src dest = copy_struct (struct_size members_x86_64) p src p dest"

definition regset_copyin_x86_64 :: "pool \<Rightarrow> nat \<Rightarrow> pool \<Rightarrow> pool" where
  "regset_copyin_x86_64 p b regs = copy_struct (struct_size members_x86_64) regs 0 p b"

definition regset_copyout_x86_64 :: "pool \<Rightarrow> nat \<Rightarrow> pool \<Rightarrow> pool" where
  "regset_copyout_x86_64 p b regs = copy_struct (struct_size members_x86_64) p b regs 0"

definition regs_x86_64 :: regops where
  "regs_x86_64 = \<lparr>
     num_regs = 67, has_ra_reg = False, regset_size = struct_size members_x86_64,
     fbp_regnum = 6,
     regset_default_op = regset_default_x86_64, regset_init_op = regset_init_x86_64,
     regset_clone_op = regset_clone_x86_64, regset_copyin_op = regset_copyin_x86_64,
     regset_copyout_op = regset_copyout_x86_64,
     pc_op = pc_x86_64, sp_op = sp_x86_64, fbp_op = fbp_x86_64, ra_reg_op = ra_reg_x86_64,
     set_pc_op = set_pc_x86_64, set_sp_op = set_sp_x86_64, set_fbp_op = set_fbp_x86_64,
     set_ra_reg_op = set_ra_reg_x86_64, setup_fbp_op = setup_fbp_x86_64,
     reg_size_op = reg_size_x86_64, reg_op = reg_x86_64 \<rparr>"

section \<open>Stack properties\<close>

definition callee_saved_x86_64 :: "string list" where
  "callee_saved_x86_64 =
    [''RBX'', ''RBP'', ''R12'', ''R13'', ''R14'', ''R15'', ''RIP'']"

definition callee_saved_size_x86_64 :: "nat list" where
  "callee_saved_size_x86_64 =
    [8, 8, 8, 8, 8, 8, 8]"

text \<open>"The value (%rsp + 8) is always a multiple of 16 when control is transferred to the function."\<close>

definition align_sp_x86_64 :: "u64 \<Rightarrow> u64" where
  "align_sp_x86_64 sp = sp - 0x8 - (0x10 - sp mod 0x10)"

definition is_callee_saved_x86_64 :: "u16 \<Rightarrow> bool" where
  "is_callee_saved_x86_64 reg \<longleftrightarrow>
     (\<exists>l \<in> set
    [''RBX'', ''RBP'', ''R12'', ''R13'', ''R14'', ''R15'', ''RIP''].
       map_of dwarf_x86_64 l = Some reg)"

definition callee_reg_size_x86_64 :: "u16 \<Rightarrow> nat result" where
  "callee_reg_size_x86_64 reg = switch_size dwarf_x86_64 [(
    [''RBX'', ''RBP'', ''R12'', ''R13'', ''R14'', ''R15'', ''RIP''], 8)] reg"

definition properties_x86_64 :: properties where
  "properties_x86_64 = \<lparr>
     num_callee_saved = length callee_saved_x86_64,
     callee_saved_regs = List.map_filter (map_of dwarf_x86_64) callee_saved_x86_64,
     callee_saved_size = callee_saved_size_x86_64,
     ra_offset = - 0x8, cfa_offset_funcentry = 0x8,
     align_sp_op = align_sp_x86_64, is_callee_saved_op = is_callee_saved_x86_64,
     callee_reg_size_op = callee_reg_size_x86_64 \<rparr>"

section \<open>The tables in closed form\<close>

lemma struct_offsets_x86_64 [arch_simps]:
  "struct_offsets 0 members_x86_64 =
     [(''rip'', 0, 8), (''rax'', 8, 8), (''rdx'', 16, 8), (''rcx'', 24, 8),
      (''rbx'', 32, 8), (''rsi'', 40, 8), (''rdi'', 48, 8), (''rbp'', 56, 8),
      (''rsp'', 64, 8), (''r8'', 72, 8), (''r9'', 80, 8), (''r10'', 88, 8),
      (''r11'', 96, 8), (''r12'', 104, 8), (''r13'', 112, 8), (''r14'', 120, 8),
      (''r15'', 128, 8), (''mmx'', 136, 8), (''xmm'', 208, 16), (''st'', 464, 16),
      (''cs'', 592, 4), (''ss'', 596, 4), (''ds'', 600, 4), (''es'', 604, 4),
      (''fs'', 608, 4), (''gs'', 612, 4), (''rflags'', 616, 8)]"
  by (simp add: members_x86_64_def align_up_def)

lemma struct_size_x86_64 [arch_simps]: "struct_size members_x86_64 = 624"
  by (simp add: members_x86_64_def struct_size_def align_up_def)

lemma reg_labels_x86_64:
  "map (\<lambda>(l, f, i). map_of dwarf_x86_64 l) reg_cases_x86_64 =
   map (\<lambda>n. Some (word_of_nat n)) [0..<33]"
  by code_simp

lemma reg_members_x86_64:
  "map (\<lambda>(l, f, i). member_off members_x86_64 f i) reg_cases_x86_64 =
   map (\<lambda>n. if n < 16 then 8 + 8 * n else if n = 16 then 0 else 208 + 16 * (n - 17)) [0..<33]"
  unfolding member_off_def struct_offsets_x86_64 reg_cases_x86_64_def by (simp add: upt_rec)

lemma reg_x86_64_eq:
  "reg_x86_64 reg =
     (if unat reg < 33
      then Inr (let n = unat reg in if n < 16 then 8 + 8 * n else if n = 16 then 0 else 208 + 16 * (n - 17))
      else Inl (Exit 1))"
  unfolding reg_x86_64_def
  by (subst switch_reg_closed [OF reg_labels_x86_64 reg_members_x86_64]) (auto simp: list_all_iff Let_def simp del: upt_rec_numeral)

lemma reg_size_cases_resolved_x86_64:
  "map (\<lambda>(ls, k). (map (map_of dwarf_x86_64) ls, k)) reg_size_cases_x86_64 =
   map (\<lambda>(ns, k). (map (\<lambda>n. Some (word_of_nat n)) ns, k)) [([0..<17], 8), ([17..<33], 16)]"
  by code_simp

lemma reg_size_x86_64_eq:
  "reg_size_x86_64 reg =
     (if unat reg < 17 then Inr 8 else if unat reg < 33 then Inr 16 else Inl (Exit 1))"
  unfolding reg_size_x86_64_def
  by (subst switch_size_closed [OF reg_size_cases_resolved_x86_64]) (auto simp: list_all_iff simp del: upt_rec_numeral)

lemma member_off_x86_64 [arch_simps]:
  shows "member_off members_x86_64 ''rip'' 0 = 0"
    and "member_off members_x86_64 ''rsp'' 0 = 64"
    and "member_off members_x86_64 ''rbp'' 0 = 56"
  by (simp_all add: member_off_def struct_offsets_x86_64)

lemmas special_regs_x86_64 =
  pc_x86_64_def sp_x86_64_def fbp_x86_64_def ra_reg_x86_64_def set_pc_x86_64_def set_sp_x86_64_def
  set_fbp_x86_64_def set_ra_reg_x86_64_def setup_fbp_x86_64_def member_off_x86_64

lemmas regset_copies_x86_64 =
  regset_clone_x86_64_def regset_copyin_x86_64_def regset_copyout_x86_64_def

lemma regs_x86_64_fields [simp]:
  "num_regs regs_x86_64 = 67" "has_ra_reg regs_x86_64 = False"
  "regset_size regs_x86_64 = 624" "fbp_regnum regs_x86_64 = 6"
  "reg_op regs_x86_64 = reg_x86_64" "reg_size_op regs_x86_64 = reg_size_x86_64"
  "pc_op regs_x86_64 = pc_x86_64" "sp_op regs_x86_64 = sp_x86_64" "fbp_op regs_x86_64 = fbp_x86_64"
  "ra_reg_op regs_x86_64 = ra_reg_x86_64" "set_pc_op regs_x86_64 = set_pc_x86_64"
  "set_sp_op regs_x86_64 = set_sp_x86_64" "set_fbp_op regs_x86_64 = set_fbp_x86_64"
  "set_ra_reg_op regs_x86_64 = set_ra_reg_x86_64" "setup_fbp_op regs_x86_64 = setup_fbp_x86_64"
  "regset_clone_op regs_x86_64 = regset_clone_x86_64"
  "regset_copyin_op regs_x86_64 = regset_copyin_x86_64"
  "regset_copyout_op regs_x86_64 = regset_copyout_x86_64"
  by (simp_all add: regs_x86_64_def struct_size_x86_64)

lemma reg_x86_64_bound: "reg_x86_64 r = Inr off \<Longrightarrow> off + 8 \<le> 624"
  by (auto simp: reg_x86_64_eq Let_def split: if_splits)

lemma reg_x86_64_apart:
  "reg_x86_64 r = Inr off \<Longrightarrow> reg_x86_64 r' = Inr off' \<Longrightarrow> r \<noteq> r' \<Longrightarrow> off + 8 \<le> off' \<or> off' + 8 \<le> off"
  unfolding word_unat_eq_iff by (auto simp: reg_x86_64_eq Let_def split: if_splits)

interpretation x86_64: regset_iface regs_x86_64
proof (unfold_locales, goal_cases)
  case (22 r off)
  then show ?case using reg_x86_64_bound by simp
next
  case (23 r off r' off')
  then show ?case using reg_x86_64_apart by simp
next
  case 24
  show ?case by (rule exI [of _ "56"]) (simp add: reg_x86_64_eq special_regs_x86_64)
next
  case (27 r off)
  then show ?case by (auto simp: reg_x86_64_eq split: if_splits)
next
  case (16 p b q c)
  then show ?case
    by (auto simp: special_regs_x86_64 elim: same_regset_load64 same_regset_load64_0)
next
  case (17 p b q c)
  then show ?case
    by (auto simp: special_regs_x86_64 elim: same_regset_load64 same_regset_load64_0)
next
  case (18 p b q c)
  then show ?case
    by (auto simp: special_regs_x86_64 elim: same_regset_load64 same_regset_load64_0)
qed (auto simp: special_regs_x86_64 regset_copies_x86_64 struct_size_x86_64 mem_simps)

interpretation x86_64_sized: regset_sized regs_x86_64
proof (unfold_locales, goal_cases)
  case (1 r off)
  then show ?case by (auto simp: reg_x86_64_eq reg_size_x86_64_eq split: if_splits)
next
  case (2 r off n)
  then show ?case by (auto simp: reg_x86_64_eq reg_size_x86_64_eq Let_def split: if_splits)
next
  case (3 r off n r' off' n')
  from \<open>r \<noteq> r'\<close> have "unat r \<noteq> unat r'" by (simp add: word_unat_eq_iff)
  with 3 show ?case by (auto simp: reg_x86_64_eq reg_size_x86_64_eq Let_def split: if_splits)
qed

section \<open>Stack properties of the architecture\<close>

lemma callee_saved_numbers_x86_64 [arch_simps]:
  "List.map_filter (map_of dwarf_x86_64) callee_saved_x86_64 =
   [3, 6, 12, 13, 14, 15, 16]"
  by code_simp

lemma properties_x86_64_fields [simp]:
  "ra_offset properties_x86_64 = - 8"
  "cfa_offset_funcentry properties_x86_64 = 8"
  "align_sp_op properties_x86_64 = align_sp_x86_64"
  "is_callee_saved_op properties_x86_64 = is_callee_saved_x86_64"
  "callee_reg_size_op properties_x86_64 = callee_reg_size_x86_64"
  by (simp_all add: properties_x86_64_def)

lemma is_callee_saved_x86_64_iff:
  "is_callee_saved_x86_64 r \<longleftrightarrow> r \<in> set (callee_saved_regs properties_x86_64)"
  by (simp add: is_callee_saved_x86_64_def properties_x86_64_def callee_saved_x86_64_def
      del: List.map_filter_simps list.set)


end
