(* ===== verification/Architectures.thy ===== *)
theory Architectures
  imports Regs_X86_64 Regs_AArch64 Regs_PowerPC64
begin

text \<open>
  The three instruction sets behind one interface (\<open>lib/stack_transformation/src/util.c\<close>): the
  selection of the register operations and stack properties by ELF machine number, the fact that
  every selected table meets the contract \<open>regset_iface\<close>, and the alignment of a new stack.
\<close>

section \<open>Selection by ELF machine number\<close>

text \<open>The machine numbers of the ELF specification.\<close>

abbreviation (input) EM_PPC64 :: u16 where "EM_PPC64 \<equiv> 21"
abbreviation (input) EM_X86_64 :: u16 where "EM_X86_64 \<equiv> 62"
abbreviation (input) EM_AARCH64 :: u16 where "EM_AARCH64 \<equiv> 183"

definition arch_name :: "u16 \<Rightarrow> string" where
  "arch_name arch =
     (if arch = EM_AARCH64 then ''aarch64''
      else if arch = EM_PPC64 then ''powerpc64''
      else if arch = EM_X86_64 then ''x86-64''
      else ''unknown/unsupported architecture'')"

definition get_regops :: "u16 \<Rightarrow> regops option" where
  "get_regops arch =
     (if arch = EM_AARCH64 then Some regs_aarch64
      else if arch = EM_PPC64 then Some regs_powerpc64
      else if arch = EM_X86_64 then Some regs_x86_64
      else None)"

definition get_properties :: "u16 \<Rightarrow> properties option" where
  "get_properties arch =
     (if arch = EM_AARCH64 then Some properties_aarch64
      else if arch = EM_PPC64 then Some properties_powerpc64
      else if arch = EM_X86_64 then Some properties_x86_64
      else None)"

lemma get_regops_iface: "get_regops arch = Some ops \<Longrightarrow> regset_iface ops"
  using x86_64.regset_iface_axioms aarch64.regset_iface_axioms powerpc64.regset_iface_axioms
  by (auto simp: get_regops_def split: if_splits)

lemma get_regops_properties: "get_regops arch = None \<longleftrightarrow> get_properties arch = None"
  by (simp add: get_regops_def get_properties_def)

lemma regset_size_le: "get_regops arch = Some ops \<Longrightarrow> regset_size ops \<le> 784 \<and> 8 \<le> regset_size ops"
  by (auto simp: get_regops_def split: if_splits)

section \<open>Callee-saved registers\<close>

lemma callee_saved_cases_x86_64:
  "is_callee_saved_x86_64 r \<Longrightarrow> r \<in> {3, 6, 12, 13, 14, 15, 16}"
  by (simp add: is_callee_saved_x86_64_iff properties_x86_64_def callee_saved_numbers_x86_64)

lemma callee_saved_cases_aarch64:
  "is_callee_saved_aarch64 r \<Longrightarrow>
   r \<in> {19, 20, 21, 22, 23, 24, 25, 26, 27, 28, 29, 30, 72, 73, 74, 75, 76, 77, 78, 79}"
  by (simp add: is_callee_saved_aarch64_iff properties_aarch64_def callee_saved_numbers_aarch64)

lemma callee_saved_cases_powerpc64:
  "is_callee_saved_powerpc64 r \<Longrightarrow>
   r \<in> {1, 2, 14, 15, 16, 17, 18, 19, 20, 21, 22, 23, 24, 25, 26, 27, 28, 29, 30, 31, 65,
        46, 47, 48, 49, 50, 51, 52, 53, 54, 55, 56, 57, 58, 59, 60, 61, 62, 63}"
  by (simp add: is_callee_saved_powerpc64_iff properties_powerpc64_def
      callee_saved_numbers_powerpc64)

lemma callee_reg_size_x86_64: "is_callee_saved_x86_64 r \<Longrightarrow> callee_reg_size_x86_64 r = Inr 8"
  by (simp add: is_callee_saved_x86_64_def callee_reg_size_x86_64_def del: list.set)

lemma callee_reg_size_aarch64: "is_callee_saved_aarch64 r \<Longrightarrow> callee_reg_size_aarch64 r = Inr 8"
  by (simp add: is_callee_saved_aarch64_def callee_reg_size_aarch64_def del: list.set)

lemma callee_reg_size_powerpc64:
  "is_callee_saved_powerpc64 r \<Longrightarrow> callee_reg_size_powerpc64 r = Inr 8"
  by (auto simp: is_callee_saved_powerpc64_def callee_reg_size_powerpc64_def)

text \<open>
  C35: On each supported architecture every register the ABI has the callee save can be unwound by
  number: the register table knows it, its eight bytes lie inside the register set, and the number
  of bytes to restore is eight, so restoring it never writes outside the set.
\<close>

theorem callee_saved_restorable:
  assumes "get_regops arch = Some ops" "get_properties arch = Some props"
    and "is_callee_saved_op props r"
  shows "\<exists>off. reg_op ops r = Inr off \<and> callee_reg_size_op props r = Inr 8 \<and>
               off + 8 \<le> regset_size ops"
proof -
  have "callee_reg_size_op props r = Inr 8"
    using assms callee_reg_size_x86_64 callee_reg_size_aarch64 callee_reg_size_powerpc64
    by (auto simp: get_regops_def get_properties_def split: if_splits)
  moreover have "\<exists>off. reg_op ops r = Inr off"
    using assms callee_saved_cases_x86_64 [of r] callee_saved_cases_aarch64 [of r]
      callee_saved_cases_powerpc64 [of r]
    by (auto simp: get_regops_def get_properties_def reg_x86_64_eq reg_aarch64_eq reg_powerpc64_eq
        split: if_splits)
  ultimately show ?thesis
    using regset_iface.reg_bound [OF get_regops_iface [OF assms(1)]] by blast
qed

theorem callee_saved_restorable_witness:
  "\<exists>off. reg_op regs_aarch64 30 = Inr off \<and> callee_reg_size_op properties_aarch64 30 = Inr 8 \<and>
         off + 8 \<le> regset_size regs_aarch64"
proof (rule callee_saved_restorable)
  show "get_regops EM_AARCH64 = Some regs_aarch64"
    "get_properties EM_AARCH64 = Some properties_aarch64"
    by (simp_all add: get_regops_def get_properties_def)
  show "is_callee_saved_op properties_aarch64 30"
    by (simp add: is_callee_saved_aarch64_iff properties_aarch64_def callee_saved_numbers_aarch64)
qed

section \<open>Alignment of a new stack\<close>

lemma align_sp_aarch64_unat:
  "16 \<le> unat sp \<Longrightarrow> unat (align_sp_aarch64 sp) = unat sp + unat sp mod 16 - 16"
  by (simp add: align_sp_aarch64_def unat_align_expr)

lemma align_sp_x86_64_unat:
  assumes "24 \<le> unat sp"
  shows "unat (align_sp_x86_64 sp) = unat sp + unat sp mod 16 - 24"
proof -
  have "unat (16 - sp mod 16) = 16 - unat sp mod 16"
    by (subst unat_sub) (auto simp: word_le_nat_alt unat_mod_16 intro: less_imp_le)
  moreover have "unat (sp - 8) = unat sp - 8"
    using assms by (subst unat_sub) (auto simp: word_le_nat_alt)
  ultimately show ?thesis
    using assms unfolding align_sp_x86_64_def
    by (subst unat_sub) (auto simp: word_le_nat_alt)
qed

lemma align_sp_powerpc64_unat:
  assumes "8 \<le> unat sp"
  shows "unat (align_sp_powerpc64 sp) =
           (if even (unat sp div 8) then unat sp div 8 * 8 - 8 else unat sp div 8 * 8)"
proof -
  define x where "x = and sp (not 7)"
  have u: "unat x = unat sp div 8 * 8" unfolding x_def by (rule and_not_7)
  then have "unat x div 8 = unat sp div 8" by simp
  then have e: "and x 8 = 0 \<longleftrightarrow> even (unat sp div 8)" by (simp only: and_8_zero)
  have "1 \<le> unat sp div 8" using assms by (simp add: div_greater_zero_iff flip: less_eq_Suc_le)
  then have "8 \<le> unat x" unfolding u by linarith
  then have "unat (x - 8) = unat sp div 8 * 8 - 8"
    by (subst unat_sub) (simp_all add: word_le_nat_alt u)
  moreover have "align_sp_powerpc64 sp = (if and x 8 = 0 then x - 8 else x)"
    by (simp add: align_sp_powerpc64_def x_def)
  ultimately show ?thesis by (simp add: e u)
qed

lemma eight_dvd_sum_mod:
  assumes "8 dvd (n::nat)" "16 \<le> n"
  shows "(n + n mod 16 - 16) mod 16 = 0"
proof (cases "n mod 16 = 0")
  case True
  then show ?thesis using assms(2) by (auto simp: mod_eq_0_iff_dvd)
next
  case False
  then have "n mod 16 = 8" using assms(1) by presburger
  then obtain q where "n = 16 * q + 8" by (metis div_mult_mod_eq mult.commute)
  then show ?thesis using \<open>n mod 16 = 8\<close> by simp
qed

text \<open>
  The function-entry alignment each architecture applies to the new stack pointer. For a stack
  pointer that is a multiple of eight, x86-64 leaves \<open>(%rsp + 8)\<close> a multiple of 16, AArch64
  leaves the stack pointer itself a multiple of 16, and PowerPC64 leaves it eight below a multiple
  of 16; none of them moves it up or by more than 24 bytes.
\<close>

theorem align_sp_entry:
  assumes "24 \<le> unat sp" "8 dvd unat sp"
  shows "(unat (align_sp_x86_64 sp) + 8) mod 16 = 0 \<and>
         unat (align_sp_aarch64 sp) mod 16 = 0 \<and>
         unat (align_sp_powerpc64 sp) mod 16 = 8 \<and>
         (\<forall>a \<in> {align_sp_x86_64, align_sp_aarch64, align_sp_powerpc64}.
            unat (a sp) \<le> unat sp \<and> unat sp \<le> unat (a sp) + 24)"
proof (intro conjI)
  have "unat (align_sp_x86_64 sp) + 8 = unat sp + unat sp mod 16 - 16"
    using assms(1) by (simp add: align_sp_x86_64_unat)
  then show "(unat (align_sp_x86_64 sp) + 8) mod 16 = 0"
    using eight_dvd_sum_mod [OF assms(2)] assms(1) by simp
  show "unat (align_sp_aarch64 sp) mod 16 = 0"
    using eight_dvd_sum_mod [OF assms(2)] assms(1) by (simp add: align_sp_aarch64_unat)
  obtain k where k: "unat sp = 8 * k" using assms(2) by (auto elim: dvdE)
  have p: "unat (align_sp_powerpc64 sp) = (if even k then 8 * k - 8 else 8 * k)"
    using assms(1) k by (simp add: align_sp_powerpc64_unat mult.commute)
  show "unat (align_sp_powerpc64 sp) mod 16 = 8"
  proof (cases "even k")
    case True
    then obtain m where "k = 2 * m" by (auto elim: evenE)
    moreover have "0 < m" using calculation assms(1) k by simp
    ultimately have "8 * k - 8 = 16 * (m - 1) + 8" by simp
    then show ?thesis using True p by simp
  next
    case False
    then obtain m where "k = 2 * m + 1" by (auto elim: oddE)
    then show ?thesis using False p by simp
  qed
  show "\<forall>a \<in> {align_sp_x86_64, align_sp_aarch64, align_sp_powerpc64}.
          unat (a sp) \<le> unat sp \<and> unat sp \<le> unat (a sp) + 24"
    using assms(1) p k by (auto simp: align_sp_x86_64_unat align_sp_aarch64_unat)
qed

theorem align_sp_entry_witness:
  "(unat (align_sp_x86_64 0x7ffe8) + 8) mod 16 = 0 \<and> unat (align_sp_aarch64 0x7ffe8) mod 16 = 0 \<and>
   unat (align_sp_powerpc64 0x7ffe8) mod 16 = 8 \<and> unat (align_sp_aarch64 0x7ffe8) \<le> unat (0x7ffe8 :: u64)"
proof -
  have h: "24 \<le> unat (0x7ffe8 :: u64)" "8 dvd unat (0x7ffe8 :: u64)" by simp_all
  show ?thesis using align_sp_entry [OF h] by blast
qed

section \<open>Where the tables disagree with their documentation\<close>

text \<open>
  The alignment expression \<open>sp - (16 - sp % 16)\<close> aligns only multiples of eight: a stack
  pointer that is four above a multiple of 16 is moved to eight above one, on AArch64 as on x86-64.
\<close>

theorem align_sp_misaligned:
  "unat (align_sp_aarch64 0x1004) mod 16 = 8 \<and> (unat (align_sp_x86_64 0x1004) + 8) mod 16 = 8"
  by (simp_all add: align_sp_aarch64_def align_sp_x86_64_def)

text \<open>
  On PowerPC64 the sizes the register table reports for the floating-point registers are twice
  their storage: F31, reported as 16 bytes wide, would end past the register set, and the
  table of callee-saved sizes is one entry shorter than the table of callee-saved registers it
  should match.
\<close>

theorem powerpc64_size_tables:
  "reg_powerpc64 63 = Inr 528 \<and> reg_size_powerpc64 63 = Inr 16 \<and>
   528 + 16 > regset_size regs_powerpc64 \<and>
   length (callee_saved_size properties_powerpc64) + 1 = length (callee_saved_regs properties_powerpc64)"
  by (simp_all add: reg_powerpc64_eq reg_size_powerpc64_eq properties_powerpc64_def
      callee_saved_numbers_powerpc64 callee_saved_size_powerpc64_def)

end
