(* ===== verification/Bitmap.thy ===== *)
theory Bitmap
  imports Prelude
begin

text \<open>
  The variable-size bitmaps of the stack transformation runtime
  (\<open>lib/stack_transformation/include/bitmap.h\<close>, \<open>src/bitmap.c\<close>), which record the callee-saved
  registers a frame stored. The words of a bitmap live in a pool of bytes at an offset; the
  macros become functions on that pool. \<open>bitmap_clear\<close> is not modelled: its body assigns to the
  pointer \<open>bitmap.bits\<close> and cannot be expanded in a compiling program.
\<close>

section \<open>Bitmaps\<close>

record bitmap =
  bsize :: nat
  bits :: "nat option"

definition bitmap_size :: "nat \<Rightarrow> nat" where
  "bitmap_size num = 8 * (if num mod 64 \<noteq> 0 then num div 64 + 1 else num div 64)"

text \<open>\<open>memset\<close> on a block of the pool.\<close>

definition memset :: "pool \<Rightarrow> nat \<Rightarrow> u8 \<Rightarrow> nat \<Rightarrow> pool" where
  "memset p a c n = store p a (replicate n c)"

text \<open>
  \<open>blk\<close> is what the allocator returned for the block of words; clearing a block that was not
  obtained is undefined. \<open>bitmap_free\<close> gives the block back to the set of allocated blocks.
\<close>

definition bitmap_init :: "nat option \<Rightarrow> nat set \<Rightarrow> pool \<Rightarrow> nat \<Rightarrow> (bitmap \<times> nat set \<times> pool) result" where
  "bitmap_init blk allocated p sz =
     bindE (deref blk) (\<lambda>b.
       Inr (\<lparr>bsize = sz, bits = Some b\<rparr>, insert b allocated, memset p b 0 (bitmap_size sz)))"

definition bitmap_free :: "nat set \<Rightarrow> bitmap \<Rightarrow> nat set result" where
  "bitmap_free allocated bm =
     (case bits bm of None \<Rightarrow> Inr allocated
      | Some b \<Rightarrow> bindE (require (b \<in> allocated) Undef) (\<lambda>_. Inr (allocated - {b})))"

definition bitmap_set :: "pool \<Rightarrow> bitmap \<Rightarrow> nat \<Rightarrow> pool result" where
  "bitmap_set p bm num =
     bindE (deref (bits bm)) (\<lambda>b.
       let coarse = num div 64; fine = num mod 64; a = b + 8 * coarse
       in Inr (store64 p a (or (load64 p a) (push_bit fine 1))))"

definition bitmap_set_all :: "pool \<Rightarrow> bitmap \<Rightarrow> pool result" where
  "bitmap_set_all p bm =
     bindE (deref (bits bm)) (\<lambda>b. Inr (memset p b 0xff (bitmap_size (bsize bm))))"

definition bitmap_clear_all :: "pool \<Rightarrow> bitmap \<Rightarrow> pool result" where
  "bitmap_clear_all p bm =
     bindE (deref (bits bm)) (\<lambda>b. Inr (memset p b 0 (bitmap_size (bsize bm))))"

definition bitmap_is_set :: "pool \<Rightarrow> bitmap \<Rightarrow> nat \<Rightarrow> bool result" where
  "bitmap_is_set p bm num =
     bindE (deref (bits bm)) (\<lambda>b.
       let coarse = num div 64; fine = num mod 64
       in Inr (and (load64 p (b + 8 * coarse)) (push_bit fine 1) \<noteq> 0))"

section \<open>Facts about single bits and blocks\<close>

lemma bitmap_is_set_Some [simp]:
  "bits bm = Some b \<Longrightarrow>
   bitmap_is_set p bm n = Inr (bit (load64 p (b + 8 * (n div 64))) (n mod 64))"
  by (simp add: bitmap_is_set_def and_exp_eq_0_iff_not_bit)

lemma bitmap_set_Some:
  "bits bm = Some b \<Longrightarrow>
   bitmap_set p bm n = Inr (store64 p (b + 8 * (n div 64))
     (or (load64 p (b + 8 * (n div 64))) (push_bit (n mod 64) 1)))"
  by (simp add: bitmap_set_def Let_def)

lemma bitmap_size_bound: "n < sz \<Longrightarrow> 8 * (n div 64) + 8 \<le> bitmap_size sz"
proof -
  assume "n < sz"
  have "n div 64 < (if sz mod 64 \<noteq> 0 then sz div 64 + 1 else sz div 64)"
  proof (cases "sz mod 64 = 0")
    case True
    then obtain k where "sz = 64 * k" by (auto elim: dvdE)
    then show ?thesis using \<open>n < sz\<close> by (simp add: div_less_iff_less_mult mult.commute)
  next
    case False
    then show ?thesis using \<open>n < sz\<close> by (simp add: less_Suc_eq_le div_le_mono)
  qed
  then show ?thesis by (auto simp: bitmap_size_def)
qed

lemma bitmap_size_le: "bitmap_size n \<le> n div 8 + 8"
  unfolding bitmap_size_def by (simp; linarith)

lemma memset_in: "a \<le> x \<Longrightarrow> x < a + n \<Longrightarrow> memset p a c n x = c"
  by (simp add: memset_def store_pool_in)

lemma memset_out [mem_simps]: "x < a \<or> a + n \<le> x \<Longrightarrow> memset p a c n x = p x"
  by (simp add: memset_def store_pool_other)

lemma load_memset: "a \<le> x \<Longrightarrow> x + k \<le> a + n \<Longrightarrow> load (memset p a c n) x k = replicate k c"
  by (intro nth_equalityI) (auto simp: nth_load memset_in)

lemma load64_memset:
  "a \<le> x \<Longrightarrow> x + 8 \<le> a + n \<Longrightarrow> load64 (memset p a c n) x = word_of (replicate 8 c)"
  by (simp add: load64_def load_memset)

section \<open>Bitmaps as sets of numbers\<close>

text \<open>The contract a client of a bitmap relies on: \<open>set\<close> adds one number, and nothing else changes.\<close>

locale bit_set =
  fixes insert_op :: "'s \<Rightarrow> 'b \<Rightarrow> nat \<Rightarrow> 's result"
    and clear_op :: "'s \<Rightarrow> 'b \<Rightarrow> 's result"
    and member_op :: "'s \<Rightarrow> 'b \<Rightarrow> nat \<Rightarrow> bool result"
    and valid :: "'b \<Rightarrow> bool"
    and universe :: "'b \<Rightarrow> nat"
  assumes insert_total: "valid b \<Longrightarrow> \<exists>s'. insert_op s b n = Inr s'"
    and clear_total: "valid b \<Longrightarrow> \<exists>s'. clear_op s b = Inr s'"
    and member_total: "valid b \<Longrightarrow> \<exists>r. member_op s b n = Inr r"
    and member_insert: "valid b \<Longrightarrow> insert_op s b n = Inr s' \<Longrightarrow>
          member_op s' b m = (if m = n then Inr True else member_op s b m)"
    and member_clear: "valid b \<Longrightarrow> clear_op s b = Inr s' \<Longrightarrow> m < universe b \<Longrightarrow>
          member_op s' b m = Inr False"
begin

definition contents :: "'s \<Rightarrow> 'b \<Rightarrow> nat set" where
  "contents s b = {n. member_op s b n = Inr True}"

lemma contents_insert: "valid b \<Longrightarrow> insert_op s b n = Inr s' \<Longrightarrow> contents s' b = insert n (contents s b)"
  by (auto simp: contents_def member_insert)

lemma contents_clear:
  "valid b \<Longrightarrow> clear_op s b = Inr s' \<Longrightarrow> contents s' b \<inter> {..<universe b} = {}"
  by (auto simp: contents_def member_clear)

text \<open>Inserting a sequence of numbers after a clear leaves exactly those numbers.\<close>

lemma contents_foldl:
  assumes "valid b" "foldl (\<lambda>m n. bindE m (\<lambda>s. insert_op s b n)) (Inr s) ns = Inr s'"
  shows "contents s' b = contents s b \<union> set ns"
  using assms(2)
proof (induction ns arbitrary: s)
  case Nil
  then show ?case by simp
next
  case (Cons n ns)
  obtain s1 where s1: "insert_op s b n = Inr s1" using insert_total [OF assms(1)] by blast
  then have "contents s' b = contents s1 b \<union> set ns"
    using Cons by simp
  then show ?case using contents_insert [OF assms(1) s1] by simp
qed

lemma contents_clear_fill:
  assumes "valid b" "clear_op s b = Inr s0"
    "foldl (\<lambda>m n. bindE m (\<lambda>s. insert_op s b n)) (Inr s0) ns = Inr s'"
    "\<forall>n \<in> set ns. n < universe b"
  shows "contents s' b \<inter> {..<universe b} = set ns"
  using contents_foldl [OF assms(1,3)] contents_clear [OF assms(1,2)] assms(4) by blast

end

lemma bitmap_is_set_set:
  assumes "bits bm = Some b" "bitmap_set p bm n = Inr q"
  shows "bitmap_is_set q bm m = (if m = n then Inr True else bitmap_is_set p bm m)"
proof (cases "m div 64 = n div 64")
  case True
  have "bit (or (load64 p (b + 8 * (n div 64))) (push_bit (n mod 64) 1)) (m mod 64) \<longleftrightarrow>
        bit (load64 p (b + 8 * (n div 64))) (m mod 64) \<or> m mod 64 = n mod 64"
    by (auto simp: bit_or_iff bit_exp_iff)
  moreover have "m = n \<longleftrightarrow> m mod 64 = n mod 64"
    using True by (metis mult_div_mod_eq)
  ultimately show ?thesis using assms True by (auto simp: bitmap_set_Some)
next
  case False
  then have "8 * (m div 64) + 8 \<le> 8 * (n div 64) \<or> 8 * (n div 64) + 8 \<le> 8 * (m div 64)"
    by linarith
  then show ?thesis using assms False by (auto simp: bitmap_set_Some load64_store64_pool_other)
qed

interpretation bitmaps: bit_set bitmap_set bitmap_clear_all bitmap_is_set
  "\<lambda>bm. bits bm \<noteq> None" bsize
proof (unfold_locales, goal_cases)
  case (1 b s n)
  then show ?case by (auto simp: bitmap_set_def Let_def)
next
  case (2 b s)
  then show ?case by (auto simp: bitmap_clear_all_def)
next
  case (3 b s n)
  then show ?case by auto
next
  case (4 b s n s' m)
  then show ?case using bitmap_is_set_set by blast
next
  case (5 bm s s' m)
  then obtain b where b: "bits bm = Some b" by auto
  have "8 * (m div 64) + 8 \<le> bitmap_size (bsize bm)" using 5 by (simp add: bitmap_size_bound)
  moreover have "word_of (replicate 8 (0::u8)) = (0::u64)" by (simp add: numeral_eq_Suc)
  ultimately show ?case
    using 5 b by (auto simp: bitmap_clear_all_def load64_memset)
qed

text \<open>
  A bitmap is a set of register numbers. After the pool's words are cleared and the numbers of
  any list below the bitmap's size are set in turn, exactly those numbers test as set, whatever the
  pool held before and in whatever order they were set.
\<close>

theorem bitmap_set_list:
  assumes "bits bm = Some b" "bitmap_clear_all p bm = Inr p0"
    and "foldl (\<lambda>m n. bindE m (\<lambda>q. bitmap_set q bm n)) (Inr p0) ns = Inr q"
    and "\<forall>n \<in> set ns. n < bsize bm" "m < bsize bm"
  shows "bitmap_is_set q bm m = Inr (m \<in> set ns)"
proof -
  have "bitmaps.contents q bm \<inter> {..<bsize bm} = set ns"
    using assms by (intro bitmaps.contents_clear_fill) auto
  then have "bitmap_is_set q bm m = Inr True \<longleftrightarrow> m \<in> set ns"
    using assms(5) by (auto simp: bitmaps.contents_def)
  moreover obtain r where "bitmap_is_set q bm m = Inr r" using assms(1) by auto
  ultimately show ?thesis by auto
qed

theorem bitmap_set_list_witness:
  "\<exists>q. bitmap_is_set q \<lparr>bsize = 67, bits = Some 16\<rparr> 65 = Inr True \<and>
       bitmap_is_set q \<lparr>bsize = 67, bits = Some 16\<rparr> 66 = Inr False"
proof -
  let ?bm = "\<lparr>bsize = 67, bits = Some 16\<rparr> :: bitmap"
  let ?p = "\<lambda>_. 0xAB :: u8"
  obtain p0 where p0: "bitmap_clear_all ?p ?bm = Inr p0" by (simp add: bitmap_clear_all_def)
  obtain q where q: "foldl (\<lambda>m n. bindE m (\<lambda>q. bitmap_set q ?bm n)) (Inr p0) [3, 65] = Inr q"
    by (simp add: bitmap_set_def Let_def)
  have "bitmap_is_set q ?bm m = Inr (m \<in> set [3, 65])" if "m < 67" for m
    by (rule bitmap_set_list [OF _ p0 q]) (use that in simp_all)
  from this [of 65] this [of 66] show ?thesis by auto
qed

text \<open>Setting a bit of one bitmap changes no byte outside its words.\<close>

lemma bitmap_set_frame:
  assumes "bits bm = Some b" "bitmap_set p bm n = Inr q" "n < bsize bm"
    "x < b \<or> b + bitmap_size (bsize bm) \<le> x"
  shows "q x = p x"
  using assms bitmap_size_bound [OF assms(3)]
  by (auto simp: bitmap_set_Some intro!: store64_pool_other)

end
