(* ===== verification/Metadata.thy ===== *)
theory Metadata
  imports Architectures Bitmap
begin

text \<open>
  The metadata the compiler's stack maps leave in each binary (\<open>common/include/call_site.h\<close>) and
  the state of a stack rewrite (\<open>lib/stack_transformation/include/definitions.h\<close>): call sites,
  unwinding records, live-value records, activations, handles and the two rewriting contexts.
\<close>

section \<open>Metadata records\<close>

text \<open>Function address and its slice of the unwinding section.\<close>

record unwind_addr =
  ua_addr :: u64
  ua_num_unwind :: u32
  ua_unwind_offset :: u32

text \<open>Stack slot of a callee-saved register, as an offset from the frame base pointer.\<close>

record unwind_loc =
  ul_reg :: u16
  ul_offset :: u16

record call_site =
  cs_id :: u64
  cs_addr :: u64
  frame_size :: u32
  cs_num_unwind :: u16
  cs_unwind_offset :: u64
  num_live :: u16
  live_offset :: u64
  num_arch_live :: u16
  arch_live_offset :: u64
  padding :: u16

definition EMPTY_CALL_SITE :: call_site where
  "EMPTY_CALL_SITE = \<lparr>cs_id = 0, cs_addr = 0, frame_size = 0, cs_num_unwind = 0,
     cs_unwind_offset = 0, num_live = 0, live_offset = 0, num_arch_live = 0,
     arch_live_offset = 0, padding = 0xffff\<rparr>"

text \<open>\<open>enum location_type\<close>.\<close>

abbreviation (input) SM_REGISTER :: "'a::len word" where "SM_REGISTER \<equiv> 1"
abbreviation (input) SM_DIRECT :: "'a::len word" where "SM_DIRECT \<equiv> 2"
abbreviation (input) SM_INDIRECT :: "'a::len word" where "SM_INDIRECT \<equiv> 3"
abbreviation (input) SM_CONSTANT :: "'a::len word" where "SM_CONSTANT \<equiv> 4"
abbreviation (input) SM_CONST_IDX :: "'a::len word" where "SM_CONST_IDX \<equiv> 5"

record live_value =
  is_temporary :: bool
  is_duplicate :: bool
  is_alloca :: bool
  is_ptr :: bool
  lv_type :: "4 word"
  lv_size :: u8
  regnum :: u16
  offset_or_constant :: u32
  alloca_size :: u32

text \<open>
  \<open>enum inst_type\<close>, in the order of \<open>StackTransformTypes.def\<close>; the numbers are the positions.
\<close>

abbreviation (input) ISet :: "4 word" where "ISet \<equiv> 0"
abbreviation (input) IAdd :: "4 word" where "IAdd \<equiv> 1"
abbreviation (input) ISubtract :: "4 word" where "ISubtract \<equiv> 2"
abbreviation (input) IMultiply :: "4 word" where "IMultiply \<equiv> 3"
abbreviation (input) IDivide :: "4 word" where "IDivide \<equiv> 4"
abbreviation (input) ILeftShift :: "4 word" where "ILeftShift \<equiv> 5"
abbreviation (input) IRightShiftLog :: "4 word" where "IRightShiftLog \<equiv> 6"
abbreviation (input) IRightShiftArith :: "4 word" where "IRightShiftArith \<equiv> 7"
abbreviation (input) IMask :: "4 word" where "IMask \<equiv> 8"
abbreviation (input) ILoad64 :: "4 word" where "ILoad64 \<equiv> 10"

record arch_live_value =
  av_is_ptr :: bool
  av_type :: "4 word"
  av_size :: u8
  av_regnum :: u16
  av_offset :: u32
  operand_type :: "3 word"
  is_gen :: bool
  inst_type :: "4 word"
  operand_size :: u8
  operand_regnum :: u16
  operand_offset_or_constant :: u64

definition VAL_SIZE :: "live_value \<Rightarrow> nat" where
  "VAL_SIZE val = (if is_alloca val then unat (alloca_size val) else unat (lv_size val))"

section \<open>Rewriting state\<close>

text \<open>A pointer to the stack that waits for the value it points to.\<close>

record fixup =
  src_addr :: u64
  fx_act :: nat
  dest_loc :: live_value

record activation =
  site :: call_site
  cfa :: u64
  regs :: "nat option"
  callee_saved :: bitmap

text \<open>
  The handle of one binary. A section's records are a list and its number of entries a counter of
  its own, as in the code, where the counter is read from the section header; a section that was
  not read is the empty list. \<open>elf\<close> and \<open>fd\<close> name the open descriptors.
\<close>

record st_handle =
  fd :: int
  elf :: nat
  h_fn :: string
  h_arch :: u16
  ptr_size :: u16
  h_regops :: regops
  h_props :: properties
  unwind_addr_count :: u64
  unwind_addrs :: "unwind_addr list"
  unwind_count :: u64
  unwind_locs :: "unwind_loc list"
  sites_count :: u64
  sites_id :: "call_site list"
  sites_addr :: "call_site list"
  live_vals_count :: u64
  live_vals :: "live_value list"
  arch_live_vals_count :: u64
  arch_live_vals :: "arch_live_value list"

text \<open>A handle in which no section has been read yet.\<close>

definition blank_handle :: "string \<Rightarrow> regops \<Rightarrow> properties \<Rightarrow> st_handle" where
  "blank_handle fn ops props =
     \<lparr>fd = 0, elf = 0, h_fn = fn, h_arch = 0, ptr_size = 0, h_regops = ops, h_props = props,
      unwind_addr_count = 0, unwind_addrs = [], unwind_count = 0, unwind_locs = [],
      sites_count = 0, sites_id = [], sites_addr = [], live_vals_count = 0, live_vals = [],
      arch_live_vals_count = 0, arch_live_vals = []\<rparr>"

text \<open>
  A rewriting context. \<open>ctx_regs\<close> is the caller's register set, the block that
  \<open>regset_copyin\<close> reads and \<open>regset_copyout\<close> writes; the two pools are byte blocks in which
  the register set of activation \<open>k\<close> lies at offset \<open>k * regset_size\<close>.
\<close>

record rewrite_context =
  handle :: st_handle
  stack_base :: u64
  stack :: u64
  ctx_regs :: pool
  num_acts :: nat
  act :: nat
  acts :: "activation list"
  stack_pointers :: "fixup list"
  regset_pool :: pool
  callee_saved_pool :: pool

definition MAX_FRAMES :: nat where "MAX_FRAMES = 512"

text \<open>The thread-local contexts before their first use: static storage starts as zeroes.\<close>

definition ZERO_CALL_SITE :: call_site where
  "ZERO_CALL_SITE = EMPTY_CALL_SITE\<lparr>padding := 0\<rparr>"

definition zero_activation :: activation where
  "zero_activation = \<lparr>site = ZERO_CALL_SITE, cfa = 0, regs = None,
     callee_saved = \<lparr>bsize = 0, bits = None\<rparr>\<rparr>"

definition zero_context :: "st_handle \<Rightarrow> rewrite_context" where
  "zero_context h = \<lparr>handle = h, stack_base = 0, stack = 0, ctx_regs = (\<lambda>_. 0), num_acts = 0,
     act = 0, acts = replicate MAX_FRAMES zero_activation, stack_pointers = [],
     regset_pool = (\<lambda>_. 0), callee_saved_pool = (\<lambda>_. 0)\<rparr>"

definition ACT :: "rewrite_context \<Rightarrow> activation result" where
  "ACT ctx = arr (acts ctx) (act ctx)"

definition PREV_ACT :: "rewrite_context \<Rightarrow> activation result" where
  "PREV_ACT ctx = (if act ctx = 0 then Inl Undef else arr (acts ctx) (act ctx - 1))"

definition NEXT_ACT :: "rewrite_context \<Rightarrow> activation result" where
  "NEXT_ACT ctx = arr (acts ctx) (act ctx + 1)"

text \<open>Assigning to members of an activation of the context; an index past the array is a fault.\<close>

definition upd_act :: "nat \<Rightarrow> (activation \<Rightarrow> activation) \<Rightarrow> rewrite_context \<Rightarrow> rewrite_context result" where
  "upd_act k f ctx = bindE (arr (acts ctx) k) (\<lambda>a. Inr (ctx\<lparr>acts := (acts ctx)[k := f a]\<rparr>))"

abbreviation REGOPS :: "rewrite_context \<Rightarrow> regops" where "REGOPS ctx \<equiv> h_regops (handle ctx)"
abbreviation PROPS :: "rewrite_context \<Rightarrow> properties" where "PROPS ctx \<equiv> h_props (handle ctx)"

lemma upd_act_eq_Inr [c_result]:
  "upd_act k f ctx = Inr ctx' \<longleftrightarrow>
     k < length (acts ctx) \<and> ctx' = ctx\<lparr>acts := (acts ctx)[k := f (acts ctx ! k)]\<rparr>"
  by (auto simp: upd_act_def arr_def)

lemma upd_act_in [simp]:
  "k < length (acts ctx) \<Longrightarrow>
   upd_act k f ctx = Inr (ctx\<lparr>acts := (acts ctx)[k := f (acts ctx ! k)]\<rparr>)"
  by (simp add: upd_act_def)

section \<open>The statically sized pools\<close>

text \<open>
  With compiler-provided thread-local storage the pools are static arrays, sized for the largest
  register set and bitmap of all architectures (\<open>include/arch_regs.h\<close>, \<open>REGSET_POOL\<close>).
\<close>

definition MAX_REGSET_SIZE :: nat where
  "MAX_REGSET_SIZE = max (struct_size members_aarch64)
     (max (struct_size members_powerpc64) (struct_size members_x86_64))"

definition MAX_CALLEE_SIZE :: nat where
  "MAX_CALLEE_SIZE = max (bitmap_size (num_regs regs_aarch64))
     (max (bitmap_size (num_regs regs_powerpc64)) (bitmap_size (num_regs regs_x86_64)))"

definition REGSET_POOL :: nat where "REGSET_POOL = MAX_REGSET_SIZE * MAX_FRAMES"
definition CALLEE_POOL :: nat where "CALLEE_POOL = MAX_CALLEE_SIZE * MAX_FRAMES"

lemma pool_slot_bound: "k < (n::nat) \<Longrightarrow> s \<le> m \<Longrightarrow> k * s + s \<le> m * n"
proof -
  assume "k < n" "s \<le> m"
  then have "Suc k * s \<le> n * m" by (intro mult_le_mono) simp_all
  then show "k * s + s \<le> m * n" by (simp add: mult.commute)
qed

text \<open>
  C36: The statically allocated pools are large enough for every architecture. The register set and
  the callee-saved bitmap of any activation number below the frame limit lie inside their pools,
  and the slots of two different activations do not overlap.
\<close>

theorem pools_large_enough:
  assumes "get_regops arch = Some ops" "k < MAX_FRAMES"
  shows "k * regset_size ops + regset_size ops \<le> REGSET_POOL \<and>
         k * bitmap_size (num_regs ops) + bitmap_size (num_regs ops) \<le> CALLEE_POOL \<and>
         (\<forall>j<k. j * regset_size ops + regset_size ops \<le> k * regset_size ops \<and>
                j * bitmap_size (num_regs ops) + bitmap_size (num_regs ops)
                  \<le> k * bitmap_size (num_regs ops))"
proof (intro conjI allI impI)
  have "regset_size ops \<le> MAX_REGSET_SIZE" "bitmap_size (num_regs ops) \<le> MAX_CALLEE_SIZE"
    using assms(1) by (auto simp: get_regops_def MAX_REGSET_SIZE_def MAX_CALLEE_SIZE_def regs_x86_64_def
        regs_aarch64_def regs_powerpc64_def split: if_splits)
  then show "k * regset_size ops + regset_size ops \<le> REGSET_POOL"
    "k * bitmap_size (num_regs ops) + bitmap_size (num_regs ops) \<le> CALLEE_POOL"
    using assms(2) by (simp_all add: REGSET_POOL_def CALLEE_POOL_def pool_slot_bound)
next
  fix j assume "j < k"
  then show "j * regset_size ops + regset_size ops \<le> k * regset_size ops"
    using pool_slot_bound [of j k "regset_size ops" "regset_size ops"] by (simp add: mult.commute)
  show "j * bitmap_size (num_regs ops) + bitmap_size (num_regs ops) \<le> k * bitmap_size (num_regs ops)"
    using \<open>j < k\<close> pool_slot_bound [of j k "bitmap_size (num_regs ops)" "bitmap_size (num_regs ops)"]
    by (simp add: mult.commute)
qed

theorem pools_large_enough_witness:
  "511 * regset_size regs_aarch64 + regset_size regs_aarch64 \<le> REGSET_POOL"
  using pools_large_enough [of EM_AARCH64 regs_aarch64 511] by (simp add: get_regops_def MAX_FRAMES_def)

section \<open>Starting functions\<close>

text \<open>The three call-site numbers that mark the functions below which there is no frame.\<close>

abbreviation (input) UINT64_MAX :: u64 where "UINT64_MAX \<equiv> - 1"

definition first_frame :: "u64 \<Rightarrow> bool" where
  "first_frame csid \<longleftrightarrow>
     (if csid = UINT64_MAX \<or> csid = UINT64_MAX - 1 \<or> csid = UINT64_MAX - 2 then True else False)"

end
