(* ===== verification/Search.thy ===== *)
theory Search
  imports Metadata
begin

text \<open>
  Finding metadata by key (\<open>lib/stack_transformation/src/util.c\<close>): the binary searches for a call
  site by return address or by number and for the function that encloses an address, and the
  contract (locale \<open>key_lookup\<close>) the unwinder relies on. Indices are C \<open>long\<close>s; they are
  integers here, with the initial upper bound read from the unsigned count as the code does.
\<close>

section \<open>The searches\<close>

function site_search :: "('a \<Rightarrow> u64) \<Rightarrow> 'a list \<Rightarrow> u64 \<Rightarrow> int \<Rightarrow> int \<Rightarrow> 'a option result" where
  "site_search key sites k mn mx =
     (if mn \<le> mx then
        let mid = (mx + mn) div 2
        in bindE (arr sites (nat mid)) (\<lambda>e.
             if key e = k then Inr (Some e)
             else if key e < k then site_search key sites k (mid + 1) mx
             else site_search key sites k mn (mid - 1))
      else Inr None)"
  by pat_completeness auto
termination by (relation "measure (\<lambda>(key, sites, k, mn, mx). nat (mx - mn + 1))") auto

definition get_site_by_addr :: "st_handle \<Rightarrow> u64 \<Rightarrow> call_site option result" where
  "get_site_by_addr h ret_addr =
     site_search cs_addr (sites_addr h) ret_addr 0 (sint (sites_count h - 1))"

definition get_site_by_id :: "st_handle \<Rightarrow> u64 \<Rightarrow> call_site option result" where
  "get_site_by_id h csid = site_search cs_id (sites_id h) csid 0 (sint (sites_count h - 1))"

text \<open>The macro \<open>IN_RANGE\<close>: whether an address lies in the range of a function record.\<close>

definition IN_RANGE :: "unwind_addr list \<Rightarrow> nat \<Rightarrow> u64 \<Rightarrow> bool result" where
  "IN_RANGE tab i addr =
     bindE (arr tab i) (\<lambda>e.
       if ua_addr e \<le> addr then bindE (arr tab (i + 1)) (\<lambda>n. Inr (addr < ua_addr n))
       else Inr False)"

function unwind_search :: "unwind_addr list \<Rightarrow> u64 \<Rightarrow> u64 \<Rightarrow> int \<Rightarrow> int \<Rightarrow> unwind_addr option result" where
  "unwind_search tab cnt addr mn mx =
     (if mn \<le> mx then
        let mid = (mx + mn) div 2
        in if word_of_int mid = cnt - 1
           then bindE (arr tab (nat mid)) (\<lambda>e. Inr (if ua_addr e \<le> addr then Some e else None))
           else bindE (IN_RANGE tab (nat mid) addr) (\<lambda>inr.
             bindE (arr tab (nat mid)) (\<lambda>e.
               if inr then Inr (Some e)
               else if ua_addr e < addr then unwind_search tab cnt addr (mid + 1) mx
               else unwind_search tab cnt addr mn (mid - 1)))
      else Inr None)"
  by pat_completeness auto
termination by (relation "measure (\<lambda>(tab, cnt, addr, mn, mx). nat (mx - mn + 1))") auto

definition get_unwind_offset_by_addr :: "st_handle \<Rightarrow> u64 \<Rightarrow> unwind_addr option result" where
  "get_unwind_offset_by_addr h addr =
     unwind_search (unwind_addrs h) (unwind_addr_count h) addr 0 (sint (unwind_addr_count h - 1))"

text \<open>The address of the enclosing function, or \<open>NULL\<close>.\<close>

definition get_function_address :: "st_handle \<Rightarrow> u64 \<Rightarrow> u64 result" where
  "get_function_address h pc =
     bindE (get_unwind_offset_by_addr h pc) (\<lambda>r.
       case r of None \<Rightarrow> Inr 0 | Some entry \<Rightarrow> Inr (ua_addr entry))"

declare site_search.simps [simp del] unwind_search.simps [simp del]

section \<open>Correctness of the search for a key\<close>

text \<open>On any table, sorted or not, a search inside the table's bounds never faults.\<close>

lemma site_search_total:
  "0 \<le> mn \<Longrightarrow> mx < int (length sites) \<Longrightarrow>
   \<exists>r. site_search key sites k mn mx = Inr r \<and> (\<forall>e. r = Some e \<longrightarrow> e \<in> set sites \<and> key e = k)"
proof (induction key sites k mn mx rule: site_search.induct)
  case (1 key sites k mn mx)
  define mid where "mid = (mx + mn) div 2"
  show ?case
  proof (cases "mn \<le> mx")
    case False
    then show ?thesis by (simp add: site_search.simps)
  next
    case True
    then have b: "mn \<le> mid" "mid \<le> mx" unfolding mid_def by auto
    then have l: "nat mid < length sites" using 1 by linarith
    then show ?thesis
      using 1 True b
      by (subst site_search.simps) (auto simp: Let_def mid_def [symmetric])
  qed
qed

lemma sorted_key_less:
  "sorted_wrt (\<lambda>a b. key a < (key b :: 'k::linorder)) xs \<Longrightarrow> i < j \<Longrightarrow> j < length xs \<Longrightarrow>
   key (xs ! i) < key (xs ! j)"
  by (rule sorted_wrt_nth_less)

lemma site_search_complete:
  assumes "sorted_wrt (\<lambda>a b. key a < key b) sites" "0 \<le> mn" "mx < int (length sites)"
    and "mn \<le> i" "i \<le> mx" "key (sites ! nat i) = k"
  shows "site_search key sites k mn mx = Inr (Some (sites ! nat i))"
  using assms
proof (induction key sites k mn mx rule: site_search.induct)
  case (1 key sites k mn mx)
  define mid where "mid = (mx + mn) div 2"
  have le: "mn \<le> mx" using 1 by linarith
  then have b: "mn \<le> mid" "mid \<le> mx" unfolding mid_def by auto
  then have l: "nat mid < length sites" using 1 by linarith
  note step = site_search.simps [of key sites k mn mx, unfolded Let_def, folded mid_def]
  have lt: "key (sites ! nat a) < key (sites ! nat b)" if "0 \<le> a" "a < b" "b \<le> mx" for a b
    using sorted_key_less [OF 1(3), of "nat a" "nat b"] that 1(5) by auto
  consider "i = mid" | "i < mid" | "mid < i" by linarith
  then show ?case
  proof cases
    case 1
    then show ?thesis using le l \<open>key (sites ! nat i) = k\<close> by (simp add: step)
  next
    case 2
    then have "k < key (sites ! nat mid)" using lt [of i mid] "1.prems" b by auto
    then have "\<not> key (sites ! nat mid) < k" "key (sites ! nat mid) \<noteq> k" by auto
    then show ?thesis
      using 2 le l b "1.prems" "1.IH"(2) [OF le mid_def] by (simp add: step)
  next
    case 3
    then have "key (sites ! nat mid) < k" using lt [of mid i] "1.prems" b by auto
    then show ?thesis
      using 3 le l b "1.prems" "1.IH"(1) [OF le mid_def] by (simp add: step)
  qed
qed

text \<open>The search is \<open>find\<close> by key on a strictly sorted table.\<close>

lemma find_key_sorted:
  "sorted_wrt (\<lambda>a b. key a < (key b :: 'k::linorder)) xs \<Longrightarrow> i < length xs \<Longrightarrow>
   find (\<lambda>e. key e = key (xs ! i)) xs = Some (xs ! i)"
  by (auto simp: find_Some_iff intro!: exI [of _ i])
    (metis less_irrefl less_trans nat_neq_iff sorted_wrt_nth_less)

lemma site_search_find:
  assumes "sorted_wrt (\<lambda>a b. key a < key b) sites"
  shows "site_search key sites k 0 (int (length sites) - 1) = Inr (find (\<lambda>e. key e = k) sites)"
proof (cases "\<exists>i<length sites. key (sites ! i) = k")
  case True
  then obtain i where i: "i < length sites" "key (sites ! i) = k" by blast
  then show ?thesis
    using site_search_complete [OF assms, of 0 "int (length sites) - 1" "int i" k]
      find_key_sorted [OF assms i(1)] by simp
next
  case False
  then have "find (\<lambda>e. key e = k) sites = None" by (auto simp: find_None_iff in_set_conv_nth)
  moreover obtain r where r: "site_search key sites k 0 (int (length sites) - 1) = Inr r"
    "\<forall>e. r = Some e \<longrightarrow> e \<in> set sites \<and> key e = k"
    using site_search_total [of 0 "int (length sites) - 1" sites key k] by auto
  moreover have "r = None" using r(2) False by (cases r) (auto simp: in_set_conv_nth)
  ultimately show ?thesis by simp
qed

section \<open>The contract of a lookup by key\<close>

text \<open>
  What the unwinder relies on: looking a key up in a well-formed handle returns the entry with
  that key, or nothing when there is none.
\<close>

locale key_lookup =
  fixes search :: "'t \<Rightarrow> u64 \<Rightarrow> 'e option result"
    and entries :: "'t \<Rightarrow> 'e list"
    and key :: "'e \<Rightarrow> u64"
    and wf :: "'t \<Rightarrow> bool"
  assumes search_find: "wf t \<Longrightarrow> search t k = Inr (find (\<lambda>e. key e = k) (entries t))"
    and keys_distinct: "wf t \<Longrightarrow> distinct (map key (entries t))"
begin

lemma search_total: "wf t \<Longrightarrow> \<exists>r. search t k = Inr r"
  by (simp add: search_find)

lemma search_Some_iff:
  assumes "wf t"
  shows "search t k = Inr (Some e) \<longleftrightarrow> e \<in> set (entries t) \<and> key e = k"
proof
  assume "search t k = Inr (Some e)"
  then show "e \<in> set (entries t) \<and> key e = k"
    using assms by (auto simp: search_find find_Some_iff)
next
  assume e: "e \<in> set (entries t) \<and> key e = k"
  then obtain i where i: "i < length (entries t)" "entries t ! i = e" by (auto simp: in_set_conv_nth)
  have "key (entries t ! j) \<noteq> k" if "j < i" for j
    using keys_distinct [OF assms] that i e by (auto simp: distinct_conv_nth)
  then show "search t k = Inr (Some e)"
    using assms e i by (auto simp: search_find find_Some_iff)
qed

lemma search_None_iff: "wf t \<Longrightarrow> search t k = Inr None \<longleftrightarrow> k \<notin> key ` set (entries t)"
  by (auto simp: search_find find_None_iff)

lemma search_own_key: "wf t \<Longrightarrow> e \<in> set (entries t) \<Longrightarrow> search t (key e) = Inr (Some e)"
  by (simp add: search_Some_iff)

end

text \<open>
  A handle whose call-site sections are complete and strictly sorted, one by return address and
  one by number, as the tool that writes them leaves them.
\<close>

definition wf_sites :: "st_handle \<Rightarrow> bool" where
  "wf_sites h \<longleftrightarrow>
     sint (sites_count h - 1) = int (length (sites_addr h)) - 1 \<and>
     length (sites_id h) = length (sites_addr h) \<and>
     sorted_wrt (\<lambda>a b. cs_addr a < cs_addr b) (sites_addr h) \<and>
     sorted_wrt (\<lambda>a b. cs_id a < cs_id b) (sites_id h)"

lemma sorted_key_distinct:
  "sorted_wrt (\<lambda>a b. key a < (key b :: 'k::linorder)) xs \<Longrightarrow> distinct (map key xs)"
  by (induction xs) auto

interpretation by_addr: key_lookup get_site_by_addr sites_addr cs_addr wf_sites
  by unfold_locales
    (simp_all add: wf_sites_def get_site_by_addr_def site_search_find sorted_key_distinct)

interpretation by_id: key_lookup get_site_by_id sites_id cs_id wf_sites
proof unfold_locales
  fix h k assume wf: "wf_sites h"
  then have "sint (sites_count h - 1) = int (length (sites_id h)) - 1" by (simp add: wf_sites_def)
  then show "get_site_by_id h k = Inr (find (\<lambda>e. cs_id e = k) (sites_id h))"
    using wf site_search_find [of cs_id "sites_id h" k] by (simp add: wf_sites_def get_site_by_id_def)
qed (simp add: wf_sites_def sorted_key_distinct)

text \<open>
  C6: The two call-site searches are exact. On a handle with strictly sorted call-site sections,
  searching by return address or by number succeeds with an entry exactly when that entry is in
  the section under that key, and fails exactly when there is no such entry.
\<close>

theorem get_site_correct:
  assumes "wf_sites h"
  shows "(get_site_by_addr h a = Inr (Some e) \<longleftrightarrow> e \<in> set (sites_addr h) \<and> cs_addr e = a) \<and>
         (get_site_by_addr h a = Inr None \<longleftrightarrow> a \<notin> cs_addr ` set (sites_addr h)) \<and>
         (get_site_by_id h i = Inr (Some d) \<longleftrightarrow> d \<in> set (sites_id h) \<and> cs_id d = i) \<and>
         (get_site_by_id h i = Inr None \<longleftrightarrow> i \<notin> cs_id ` set (sites_id h))"
  using assms by (simp add: by_addr.search_Some_iff by_addr.search_None_iff
      by_id.search_Some_iff by_id.search_None_iff)

theorem get_site_correct_witness:
  "\<exists>h e. get_site_by_addr h 0x400100 = Inr (Some e) \<and> frame_size e = 48 \<and>
         get_site_by_addr h 0x400104 = Inr None \<and> get_site_by_id h 7 = Inr (Some e)"
proof -
  define a where "a = EMPTY_CALL_SITE\<lparr>cs_id := 9, cs_addr := 0x400010\<rparr>"
  define e where "e = EMPTY_CALL_SITE\<lparr>cs_id := 7, cs_addr := 0x400100, frame_size := 48\<rparr>"
  define h where "h = (blank_handle ''a.out'' regs_x86_64 properties_x86_64)
    \<lparr>sites_count := 2, sites_addr := [a, e], sites_id := [e, a]\<rparr>"
  have wf: "wf_sites h" by (simp add: wf_sites_def h_def a_def e_def)
  have "e \<in> set (sites_addr h)" "cs_addr e = 0x400100" "e \<in> set (sites_id h)" "cs_id e = 7"
    "0x400104 \<notin> cs_addr ` set (sites_addr h)" "frame_size e = 48"
    by (simp_all add: h_def a_def e_def)
  then show ?thesis
    using get_site_correct [OF wf, where a = "0x400100" and e = e and i = 7 and d = e] 
      get_site_correct [OF wf, where a = "0x400104"]
    by blast
qed

section \<open>Correctness of the search for the enclosing function\<close>

text \<open>
  Specification: the last record whose function starts at or below the address.
\<close>

definition enclosing :: "unwind_addr list \<Rightarrow> u64 \<Rightarrow> unwind_addr option" where
  "enclosing tab addr = find (\<lambda>e. ua_addr e \<le> addr) (rev tab)"

lemma find_rev_nth:
  assumes "i < length xs" "P (xs ! i)" "\<And>j. i < j \<Longrightarrow> j < length xs \<Longrightarrow> \<not> P (xs ! j)"
  shows "find P (rev xs) = Some (xs ! i)"
proof -
  have "rev xs ! (length xs - 1 - i) = xs ! i" using assms(1) by (simp add: rev_nth)
  moreover have "\<not> P (rev xs ! j)" if "j < length xs - 1 - i" for j
    using assms(3) [of "length xs - 1 - j"] that by (simp add: rev_nth)
  ultimately show ?thesis
    using assms(1,2) by (auto simp: find_Some_iff intro!: exI [of _ "length xs - 1 - i"])
qed

lemma enclosing_nth:
  assumes "sorted_wrt (\<lambda>a b. ua_addr a < ua_addr b) tab" "i < length tab" "ua_addr (tab ! i) \<le> addr"
    and "i + 1 = length tab \<or> addr < ua_addr (tab ! (i + 1))"
  shows "enclosing tab addr = Some (tab ! i)"
proof -
  have "\<not> ua_addr (tab ! j) \<le> addr" if "i < j" "j < length tab" for j
  proof (cases "j = i + 1")
    case True
    then show ?thesis using assms(4) that by auto
  next
    case False
    then have "ua_addr (tab ! (i + 1)) < ua_addr (tab ! j)"
      using sorted_key_less [OF assms(1), of "i + 1" j] that by auto
    then show ?thesis using assms(4) that False by auto
  qed
  then show ?thesis using assms(2,3) unfolding enclosing_def by (intro find_rev_nth) auto
qed

lemma enclosing_None:
  assumes "sorted_wrt (\<lambda>a b. ua_addr a < ua_addr b) tab" "tab = [] \<or> addr < ua_addr (tab ! 0)"
  shows "enclosing tab addr = None"
proof -
  have "addr < ua_addr (tab ! j)" if j: "j < length tab" for j
  proof (cases "j = 0")
    case False
    then have "ua_addr (tab ! 0) < ua_addr (tab ! j)"
      using sorted_key_less [OF assms(1), of 0 j] j by auto
    then show ?thesis using assms(2) j by auto
  qed (use assms(2) j in auto)
  then show ?thesis by (auto simp: enclosing_def find_None_iff in_set_conv_nth not_le)
qed

lemma unwind_search_enclosing:
  assumes "sorted_wrt (\<lambda>a b. ua_addr a < ua_addr b) tab"
    and "unat cnt = length tab" "length tab < 2 ^ 63"
    and "0 \<le> mn" "mn = 0 \<or> mn < int (length tab) \<and> ua_addr (tab ! nat mn) \<le> addr"
    and "- 1 \<le> mx" "mx < int (length tab)"
    and "mx = int (length tab) - 1 \<or> addr < ua_addr (tab ! nat (mx + 1))"
  shows "unwind_search tab cnt addr mn mx = Inr (enclosing tab addr)"
  using assms
proof (induction tab cnt addr mn mx rule: unwind_search.induct)
  case (1 tab cnt addr mn mx)
  note sorted = "1.prems"(1) and len = "1.prems"(2,3)
  have lt: "ua_addr (tab ! a) < ua_addr (tab ! b)" if "a < b" "b < length tab" for a b
    using sorted_key_less [OF sorted that] .
  define mid where "mid = (mx + mn) div 2"
  note step = unwind_search.simps [of tab cnt addr mn mx, unfolded Let_def, folded mid_def]
  show ?case
  proof (cases "mn \<le> mx")
    case False
    have "enclosing tab addr = None"
    proof (rule enclosing_None [OF sorted])
      show "tab = [] \<or> addr < ua_addr (tab ! 0)"
      proof (cases "mn = 0")
        case True
        then show ?thesis using False "1.prems"(6,8) by auto
      next
        case mn: False
        then have "mx \<noteq> int (length tab) - 1" using False "1.prems"(5) by auto
        then have "addr < ua_addr (tab ! nat (mx + 1))" using "1.prems"(8) by simp
        moreover have "ua_addr (tab ! nat (mx + 1)) \<le> ua_addr (tab ! nat mn)"
          using False mn "1.prems"(5,6) lt [of "nat (mx + 1)" "nat mn"]
          by (cases "mx + 1 = mn") (auto intro: less_imp_le)
        ultimately show ?thesis using "1.prems"(5) mn by auto
      qed
    qed
    then show ?thesis using False by (simp add: step)
  next
    case True
    then have b: "mn \<le> mid" "mid \<le> mx" unfolding mid_def by auto
    have l: "nat mid < length tab" using b "1.prems" by linarith
    have last: "word_of_int mid = cnt - 1 \<longleftrightarrow> nat mid = length tab - 1"
    proof -
      have "1 \<le> unat cnt" using len l by linarith
      then have "unat (cnt - 1) = length tab - 1"
        using len by (subst unat_sub) (auto simp: word_le_nat_alt)
      moreover have "unat (word_of_int mid :: u64) = nat mid"
      proof -
        have "(word_of_int mid :: u64) = word_of_nat (nat mid)"
          using b "1.prems"(4) by (metis dual_order.trans int_nat_eq of_int_of_nat_eq)
        then show ?thesis using l len by (simp add: unat_of_nat)
      qed
      ultimately show ?thesis by (auto simp: word_unat_eq_iff)
    qed
    show ?thesis
    proof (cases "nat mid = length tab - 1")
      case last_mid: True
      have "length tab = nat mid + 1" "int (nat mid) = mid" using last_mid l b "1.prems"(4) by simp_all
      then have "mx \<le> mid" using "1.prems"(7) by linarith
      then have "mn = mx" using True unfolding mid_def by linarith
      then have mn: "mn = mid" using b by simp
      show ?thesis
      proof (cases "ua_addr (tab ! nat mid) \<le> addr")
        case le: True
        have "nat mid + 1 = length tab" using last_mid l by linarith
        then have "enclosing tab addr = Some (tab ! nat mid)"
          using enclosing_nth [OF sorted l le] by blast
        then show ?thesis using le l True last last_mid by (simp add: step)
      next
        case gt: False
        then have "mid = 0" using "1.prems"(5) mn by auto
        then have "addr < ua_addr (tab ! 0)" using gt by auto
        then have "enclosing tab addr = None" using enclosing_None [OF sorted, of addr] by blast
        moreover have "word_of_int mid = cnt - 1" using last last_mid by blast
        ultimately show ?thesis using gt l True by (simp add: step)
      qed
    next
      case False
      then have l1: "nat mid + 1 < length tab" using l by linarith
      have n1: "nat (mid + 1) = nat mid + 1" using b "1.prems"(4) by linarith
      note IH = "1.IH" [OF True mid_def]
      have w: "word_of_int mid \<noteq> cnt - 1" using last False by simp
      consider "ua_addr (tab ! nat mid) \<le> addr \<and> addr < ua_addr (tab ! (nat mid + 1))"
        | "ua_addr (tab ! (nat mid + 1)) \<le> addr" | "addr < ua_addr (tab ! nat mid)"
        by fastforce
      then show ?thesis
      proof cases
        case 1
        then show ?thesis
          using enclosing_nth [OF sorted l, of addr] True w l l1 by (simp add: step IN_RANGE_def)
      next
        case 2
        then have lo: "ua_addr (tab ! nat mid) < addr"
          using lt [of "nat mid" "nat mid + 1"] l1 by auto
        have ir: "IN_RANGE tab (nat mid) addr = Inr False"
          using 2 lo l l1 by (simp add: IN_RANGE_def not_less)
        have "unwind_search tab cnt addr (mid + 1) mx = Inr (enclosing tab addr)"
          by (rule IH(1) [OF w ir, of "tab ! nat mid"]) (use 2 lo l l1 b n1 "1.prems" in auto)
        then show ?thesis using True w ir lo l by (simp add: step)
      next
        case 3
        then have ir: "IN_RANGE tab (nat mid) addr = Inr False"
          using l by (simp add: IN_RANGE_def flip: not_less)
        have "\<not> ua_addr (tab ! nat mid) < addr" using 3 by auto
        moreover have "unwind_search tab cnt addr mn (mid - 1) = Inr (enclosing tab addr)"
          by (rule IH(2) [OF w ir, of "tab ! nat mid"]) (use 3 l b "1.prems" in auto)
        ultimately show ?thesis using True w ir l by (simp add: step)
      qed
    qed
  qed
qed

text \<open>
  A handle whose function table is complete and strictly sorted by address.
\<close>

definition wf_unwind_addrs :: "st_handle \<Rightarrow> bool" where
  "wf_unwind_addrs h \<longleftrightarrow>
     unat (unwind_addr_count h) = length (unwind_addrs h) \<and> length (unwind_addrs h) < 2 ^ 63 \<and>
     sorted_wrt (\<lambda>a b. ua_addr a < ua_addr b) (unwind_addrs h)"

lemma sint_pred:
  fixes c :: u64
  assumes "unat c < 2 ^ 63"
  shows "sint (c - 1) = int (unat c) - 1"
proof (cases "c = 0")
  case False
  then have "1 \<le> c" by (simp add: word_le_nat_alt unat_gt_0 Suc_le_eq)
  then have "unat (c - 1) = unat c - 1" by (subst unat_sub) auto
  moreover have "sint (c - 1) = int (unat (c - 1))"
  proof -
    have "unat (c - 1) < 2 ^ 63" using assms calculation by linarith
    then have "int (unat (c - 1)) < 2 ^ 63" by (metis of_nat_less_iff of_nat_numeral of_nat_power)
    moreover have "- (2 ^ 63) \<le> uint (c - 1)" by (rule order_trans [of _ 0]) simp_all
    ultimately show ?thesis by (simp add: sint_uint signed_take_bit_int_eq_self)
  qed
  ultimately show ?thesis using False by (simp add: unat_gt_0 of_nat_diff Suc_le_eq)
qed simp

text \<open>
  C7: The search for the function that encloses an address returns the last function record that
  starts at or below the address, and nothing exactly when the address is below every function;
  the corner case for the last record and the halving never lose the answer.
\<close>

theorem get_unwind_offset_by_addr_correct:
  assumes "wf_unwind_addrs h"
  shows "get_unwind_offset_by_addr h addr = Inr (enclosing (unwind_addrs h) addr)"
  unfolding get_unwind_offset_by_addr_def
  using assms by (intro unwind_search_enclosing) (auto simp: wf_unwind_addrs_def sint_pred)

theorem get_unwind_offset_by_addr_correct_witness:
  "\<exists>h e. get_unwind_offset_by_addr h 0x400180 = Inr (Some e) \<and> ua_addr e = 0x400100 \<and>
         get_unwind_offset_by_addr h 0x3fffff = Inr None"
proof -
  define a where "a = \<lparr>ua_addr = 0x400000, ua_num_unwind = 1, ua_unwind_offset = 0\<rparr>"
  define b where "b = \<lparr>ua_addr = 0x400100, ua_num_unwind = 1, ua_unwind_offset = 1\<rparr>"
  define h where "h = (blank_handle ''a.out'' regs_x86_64 properties_x86_64)
    \<lparr>unwind_addr_count := 2, unwind_addrs := [a, b]\<rparr>"
  have wf: "wf_unwind_addrs h" by (simp add: wf_unwind_addrs_def h_def a_def b_def)
  have "enclosing (unwind_addrs h) 0x400180 = Some b" "enclosing (unwind_addrs h) 0x3fffff = None"
    by (simp_all add: enclosing_def h_def a_def b_def)
  then show ?thesis
    using get_unwind_offset_by_addr_correct [OF wf] by (intro exI [of _ h] exI [of _ b]) (simp add: b_def)
qed

lemma get_function_address_eq:
  "wf_unwind_addrs h \<Longrightarrow>
   get_function_address h pc = Inr (case enclosing (unwind_addrs h) pc of None \<Rightarrow> 0 | Some e \<Rightarrow> ua_addr e)"
  using get_unwind_offset_by_addr_correct [of h pc]
  by (simp add: get_function_address_def split: option.splits)

end
