(* ===== verification/Abi.thy ===== *)
theory Abi
  imports Architectures
begin

text \<open>
  The application binary interface as the unwinder uses it: the contract \<open>abi\<close> ties an
  architecture's register operations to its stack properties (which numbered register is the stack
  pointer, where program counter, stack pointer and frame base pointer are stored, that callee-saved
  registers exist and are restored as eight bytes), and every architecture of
  \<open>get_regops\<close> and \<open>get_properties\<close> is an instance.
\<close>

section \<open>The contract\<close>

locale abi = regset_iface ops for ops :: regops +
  fixes props :: properties
    and sp_num :: u16
    and pc_num :: "u16 option"
    and ra_num :: u16
    and sp_off pc_off fbp_off ra_off :: nat
  assumes reg_ra: "reg_op ops ra_num = Inr ra_off"
    and ra_place: "has_ra_reg ops \<Longrightarrow> ra_reg_op ops p b = Inr (load64 p (b + ra_off))"
    and set_ra_place: "has_ra_reg ops \<Longrightarrow> set_ra_reg_op ops p b v = Inr (store64 p (b + ra_off) v)"
    and ra_pc: "pc_num = (if has_ra_reg ops then None else Some ra_num)"
    and ra_callee: "is_callee_saved_op props ra_num"
    and sp_not_ra: "sp_num \<noteq> ra_num"
    and reg_sp: "reg_op ops sp_num = Inr sp_off"
    and reg_pc: "pc_num = Some r \<Longrightarrow> reg_op ops r = Inr pc_off"
    and reg_fbp_off: "reg_op ops (fbp_regnum ops) = Inr fbp_off"
    and pc_bound: "pc_off + 8 \<le> regset_size ops"
    and pc_apart: "reg_op ops r = Inr off \<Longrightarrow> pc_num \<noteq> Some r \<Longrightarrow> off + 8 \<le> pc_off \<or> pc_off + 8 \<le> off"
    and sp_not_fbp: "sp_num \<noteq> fbp_regnum ops"
    and fbp_not_pc: "pc_num \<noteq> Some (fbp_regnum ops)"
    and sp_place: "sp_op ops p b = load64 p (b + sp_off)"
    and set_sp_place: "set_sp_op ops p b v = store64 p (b + sp_off) v"
    and pc_place: "pc_op ops p b = load64 p (b + pc_off)"
    and set_pc_place: "set_pc_op ops p b v = store64 p (b + pc_off) v"
    and fbp_place: "fbp_op ops p b = load64 p (b + fbp_off)"
    and set_fbp_place: "set_fbp_op ops p b v = store64 p (b + fbp_off) v"
    and setup_fbp_place: "\<exists>v. setup_fbp_op ops p b c = store64 p (b + fbp_off) v"
    and callee_reg: "is_callee_saved_op props r \<Longrightarrow> \<exists>off. reg_op ops r = Inr off"
    and callee_size: "is_callee_saved_op props r \<Longrightarrow> callee_reg_size_op props r = Inr 8"
begin

lemma sp_bound: "sp_off + 8 \<le> regset_size ops"
  by (rule reg_bound [OF reg_sp])

lemma fbp_bound: "fbp_off + 8 \<le> regset_size ops"
  by (rule reg_bound [OF reg_fbp_off])

text \<open>Registers by number after the special registers of the same set are written.\<close>

lemma reg_set_sp:
  "reg_op ops r = Inr off \<Longrightarrow> r \<noteq> sp_num \<Longrightarrow> load64 (set_sp_op ops p b v) (b + off) = load64 p (b + off)"
  using reg_apart [OF _ reg_sp, of r off] by (auto simp: set_sp_place load64_store64_pool_other)

lemma reg_set_pc:
  "reg_op ops r = Inr off \<Longrightarrow> pc_num \<noteq> Some r \<Longrightarrow>
   load64 (set_pc_op ops p b v) (b + off) = load64 p (b + off)"
  using pc_apart [of r off] by (auto simp: set_pc_place load64_store64_pool_other)

lemma reg_setup_fbp:
  "reg_op ops r = Inr off \<Longrightarrow> r \<noteq> fbp_regnum ops \<Longrightarrow>
   load64 (setup_fbp_op ops p b c) (b + off) = load64 p (b + off)"
  using reg_apart [OF _ reg_fbp_off, of r off] setup_fbp_place [of p b c]
  by (auto simp: load64_store64_pool_other)

end

section \<open>Every architecture meets it\<close>

interpretation x86_64_abi: abi regs_x86_64 properties_x86_64 7 "Some 16" 16 64 0 56 0
proof (unfold_locales, goal_cases)
  case (11 r off)
  then have "unat r \<noteq> 16" by (auto simp: word_unat_eq_iff)
  then show ?case using 11 by (auto simp: reg_x86_64_eq Let_def split: if_splits)
next
  case (21 r)
  then show ?case using callee_saved_cases_x86_64 [of r] by (auto simp: reg_x86_64_eq)
next
  case (22 r)
  then show ?case by (simp add: callee_reg_size_x86_64)
qed (auto simp: special_regs_x86_64 reg_x86_64_eq is_callee_saved_x86_64_iff
    properties_x86_64_def callee_saved_numbers_x86_64)

interpretation aarch64_abi: abi regs_aarch64 properties_aarch64 31 None 30 0 8 248 256
proof (unfold_locales, goal_cases)
  case (11 r off)
  then show ?case by (auto simp: reg_aarch64_eq Let_def split: if_splits)
next
  case (21 r)
  then show ?case using callee_saved_cases_aarch64 [of r] by (auto simp: reg_aarch64_eq)
next
  case (22 r)
  then show ?case by (simp add: callee_reg_size_aarch64)
qed (auto simp: special_regs_aarch64 reg_aarch64_eq is_callee_saved_aarch64_iff
    properties_aarch64_def callee_saved_numbers_aarch64)

interpretation powerpc64_abi: abi regs_powerpc64 properties_powerpc64 1 None 65 32 0 272 8
proof (unfold_locales, goal_cases)
  case (11 r off)
  then show ?case by (auto simp: reg_powerpc64_eq Let_def split: if_splits)
next
  case (21 r)
  then show ?case using callee_saved_cases_powerpc64 [of r] by (auto simp: reg_powerpc64_eq)
next
  case (22 r)
  then show ?case by (simp add: callee_reg_size_powerpc64)
qed (auto simp: special_regs_powerpc64 reg_powerpc64_eq is_callee_saved_powerpc64_iff
    properties_powerpc64_def callee_saved_numbers_powerpc64)

text \<open>
  The numbers of the stack pointer, of the program counter where it is a numbered register, and of
  the register whose saved value is the return address.
\<close>

definition sp_number :: "u16 \<Rightarrow> u16" where
  "sp_number arch = (if arch = EM_X86_64 then 7 else if arch = EM_AARCH64 then 31 else 1)"

definition pc_number :: "u16 \<Rightarrow> u16 option" where
  "pc_number arch = (if arch = EM_X86_64 then Some 16 else None)"

definition ra_number :: "u16 \<Rightarrow> u16" where
  "ra_number arch = (if arch = EM_X86_64 then 16 else if arch = EM_AARCH64 then 30 else 65)"

lemma arch_abi:
  assumes "get_regops arch = Some ops" "get_properties arch = Some props"
  obtains sp_off pc_off fbp_off ra_off where
    "abi ops props (sp_number arch) (pc_number arch) (ra_number arch) sp_off pc_off fbp_off ra_off"
  using assms x86_64_abi.abi_axioms aarch64_abi.abi_axioms powerpc64_abi.abi_axioms
  by (auto simp: get_regops_def get_properties_def sp_number_def pc_number_def ra_number_def
      split: if_splits)

end
