(* ===== verification/Unwind.thy ===== *)
theory Unwind
  imports Search Abi
begin

text \<open>
  Unwinding and un-unwinding of activations (\<open>lib/stack_transformation/src/unwind.c\<close>). Every
  operation takes the process memory (which it only reads) and a rewriting context and returns the
  updated context. The lemmas of the contract \<open>abi\<close> state what an unwinding step restores.
\<close>

section \<open>File-local operations\<close>

definition setup_regset :: "rewrite_context \<Rightarrow> nat \<Rightarrow> rewrite_context result" where
  "setup_regset ctx k =
     (let base = k * regset_size (REGOPS ctx) in
      bindE (upd_act k (regs_update (\<lambda>_. Some base)) ctx) (\<lambda>ctx.
      bindE (require (0 < k) Undef) (\<lambda>_.
      bindE (arr (acts ctx) (k - 1)) (\<lambda>prev.
      bindE (deref (regs prev)) (\<lambda>src.
        Inr (ctx\<lparr>regset_pool := regset_clone_op (REGOPS ctx) (regset_pool ctx) src base\<rparr>))))))"

definition setup_callee_saved_bits :: "rewrite_context \<Rightarrow> nat \<Rightarrow> rewrite_context result" where
  "setup_callee_saved_bits ctx k =
     (let n = num_regs (REGOPS ctx)
      in upd_act k (callee_saved_update (\<lambda>_. \<lparr>bsize = n, bits = Some (k * bitmap_size n)\<rparr>)) ctx)"

text \<open>
  One iteration of the loop of \<open>restore_callee_saved_regs\<close>: the saved location is relative to the
  frame base pointer of activation \<open>k - 1\<close>, which is read again in every iteration.
\<close>

definition restore_one :: "memory \<Rightarrow> nat \<Rightarrow> nat \<Rightarrow> rewrite_context \<Rightarrow> rewrite_context result" where
  "restore_one m k i ctx =
     bindE (arr (unwind_locs (handle ctx)) i) (\<lambda>loc.
     bindE (arr (acts ctx) (k - 1)) (\<lambda>prev.
     bindE (deref (regs prev)) (\<lambda>prev_regs.
     bindE (arr (acts ctx) k) (\<lambda>cur.
     bindE (deref (regs cur)) (\<lambda>cur_regs.
       let saved_loc = fbp_op (REGOPS ctx) (regset_pool ctx) prev_regs + scast (ul_offset loc) in
     bindE (reg_op (REGOPS ctx) (ul_reg loc)) (\<lambda>off.
     bindE (callee_reg_size_op (PROPS ctx) (ul_reg loc)) (\<lambda>n.
       let pool = store (regset_pool ctx) (cur_regs + off) (load m saved_loc n) in
     bindE (bitmap_set (callee_saved_pool ctx) (callee_saved prev) (unat (ul_reg loc))) (\<lambda>cpool.
       Inr (ctx\<lparr>regset_pool := pool, callee_saved_pool := cpool\<rparr>)))))))))"

definition restore_callee_saved_regs ::
    "memory \<Rightarrow> rewrite_context \<Rightarrow> nat \<Rightarrow> rewrite_context result" where
  "restore_callee_saved_regs m ctx k =
     bindE (require (0 < k) Undef) (\<lambda>_.
     bindE (arr (acts ctx) (k - 1)) (\<lambda>prev.
       let unwind_start = ucast (cs_unwind_offset (site prev)) :: u32;
           unwind_end = unwind_start + ucast (cs_num_unwind (site prev)) in
     bindE (for_loop (unat unwind_start) (unat unwind_end) (restore_one m k) ctx) (\<lambda>ctx.
       if has_ra_reg (REGOPS ctx) then
         bindE (arr (acts ctx) k) (\<lambda>cur.
         bindE (deref (regs cur)) (\<lambda>b.
         bindE (ra_reg_op (REGOPS ctx) (regset_pool ctx) b) (\<lambda>ra.
           Inr (ctx\<lparr>regset_pool := set_pc_op (REGOPS ctx) (regset_pool ctx) b ra\<rparr>))))
       else Inr ctx)))"

definition calculate_cfa :: "rewrite_context \<Rightarrow> nat \<Rightarrow> u64 result" where
  "calculate_cfa ctx k =
     bindE (arr (acts ctx) k) (\<lambda>a.
     bindE (deref (regs a)) (\<lambda>b.
       Inr (sp_op (REGOPS ctx) (regset_pool ctx) b + ucast (frame_size (site a)))))"

definition setup_frame_bounds :: "rewrite_context \<Rightarrow> nat \<Rightarrow> rewrite_context result" where
  "setup_frame_bounds ctx k =
     bindE (require (0 < k) Undef) (\<lambda>_.
     bindE (arr (acts ctx) (k - 1)) (\<lambda>prev.
       let new_sp = cfa prev in
     bindE (arr (acts ctx) k) (\<lambda>cur.
     bindE (deref (regs cur)) (\<lambda>b.
       let ctx = ctx\<lparr>regset_pool := set_sp_op (REGOPS ctx) (regset_pool ctx) b new_sp\<rparr> in
     bindE (calculate_cfa ctx k) (\<lambda>c.
     bindE (upd_act k (cfa_update (\<lambda>_. c)) ctx) (\<lambda>ctx.
       Inr (ctx\<lparr>regset_pool := setup_fbp_op (REGOPS ctx) (regset_pool ctx) b c\<rparr>)))))))"

section \<open>Unwinding\<close>

definition bootstrap_first_frame :: "rewrite_context \<Rightarrow> pool \<Rightarrow> rewrite_context result" where
  "bootstrap_first_frame ctx regset =
     bindE (setup_callee_saved_bits ctx 0) (\<lambda>ctx.
     bindE (upd_act 0 (regs_update (\<lambda>_. Some 0)) ctx) (\<lambda>ctx.
       Inr (ctx\<lparr>regset_pool := regset_copyin_op (REGOPS ctx) (regset_pool ctx) 0 regset\<rparr>)))"

definition bootstrap_first_frame_funcentry :: "rewrite_context \<Rightarrow> u64 \<Rightarrow> rewrite_context result" where
  "bootstrap_first_frame_funcentry ctx sp =
     bindE (setup_callee_saved_bits ctx 0) (\<lambda>ctx.
     bindE (upd_act 0 (regs_update (\<lambda>_. Some 0)) ctx) (\<lambda>ctx.
       let ctx = ctx\<lparr>regset_pool := set_sp_op (REGOPS ctx) (regset_pool ctx) 0 sp\<rparr>
       in upd_act 0 (cfa_update (\<lambda>_. sp + of_int (cfa_offset_funcentry (PROPS ctx)))) ctx))"

definition pop_frame :: "memory \<Rightarrow> rewrite_context \<Rightarrow> bool \<Rightarrow> rewrite_context result" where
  "pop_frame m ctx setup_bounds =
     (let next_frame = act ctx + 1 in
      bindE (setup_regset ctx next_frame) (\<lambda>ctx.
      bindE (setup_callee_saved_bits ctx next_frame) (\<lambda>ctx.
      bindE (restore_callee_saved_regs m ctx next_frame) (\<lambda>ctx.
      bindE (if setup_bounds then setup_frame_bounds ctx next_frame
             else bindE (NEXT_ACT ctx) (\<lambda>nxt. bindE (deref (regs nxt)) (\<lambda>b. bindE (ACT ctx) (\<lambda>cur.
               Inr (ctx\<lparr>regset_pool := set_sp_op (REGOPS ctx) (regset_pool ctx) b (cfa cur)\<rparr>))))) (\<lambda>ctx.
        Inr (ctx\<lparr>act := act ctx + 1\<rparr>))))))"

definition pop_frame_funcentry :: "memory \<Rightarrow> rewrite_context \<Rightarrow> rewrite_context result" where
  "pop_frame_funcentry m ctx =
     (let next_frame = act ctx + 1 in
      bindE (setup_regset ctx next_frame) (\<lambda>ctx.
      bindE (setup_callee_saved_bits ctx next_frame) (\<lambda>ctx.
      bindE (NEXT_ACT ctx) (\<lambda>nxt. bindE (deref (regs nxt)) (\<lambda>nb.
      bindE (ACT ctx) (\<lambda>cur. bindE (deref (regs cur)) (\<lambda>cb.
      bindE (if has_ra_reg (REGOPS ctx) then ra_reg_op (REGOPS ctx) (regset_pool ctx) cb
             else Inr (load64 m (sp_op (REGOPS ctx) (regset_pool ctx) cb))) (\<lambda>ra.
        let ctx = ctx\<lparr>regset_pool := set_pc_op (REGOPS ctx) (regset_pool ctx) nb ra\<rparr> in
      bindE (setup_frame_bounds ctx next_frame) (\<lambda>ctx.
        let ctx = ctx\<lparr>regset_pool := set_fbp_op (REGOPS ctx) (regset_pool ctx) cb
                     (fbp_op (REGOPS ctx) (regset_pool ctx) nb)\<rparr> in
        Inr (ctx\<lparr>act := act ctx + 1\<rparr>))))))))))"

text \<open>
  Where an activation saved a register: the first unwinding record of its function for the
  register, or \<open>NULL\<close>.
\<close>

function find_save_record :: "unwind_loc list \<Rightarrow> u16 \<Rightarrow> nat \<Rightarrow> nat \<Rightarrow> unwind_loc option result" where
  "find_save_record locs reg i e =
     (if i < e then
        bindE (arr locs i) (\<lambda>loc.
          if ul_reg loc = reg then Inr (Some loc) else find_save_record locs reg (Suc i) e)
      else Inr None)"
  by pat_completeness auto
termination by (relation "measure (\<lambda>(locs, reg, i, e). e - i)") auto

declare find_save_record.simps [simp del]

definition get_register_save_loc :: "rewrite_context \<Rightarrow> activation \<Rightarrow> u16 \<Rightarrow> u64 result" where
  "get_register_save_loc ctx a reg =
     (let unwind_start = ucast (cs_unwind_offset (site a)) :: u32;
          unwind_end = unwind_start + ucast (cs_num_unwind (site a))
      in bindE (find_save_record (unwind_locs (handle ctx)) reg (unat unwind_start) (unat unwind_end))
           (\<lambda>r. case r of None \<Rightarrow> Inr 0
             | Some loc \<Rightarrow> bindE (deref (regs a)) (\<lambda>b.
                 Inr (fbp_op (REGOPS ctx) (regset_pool ctx) b + scast (ul_offset loc)))))"

text \<open>Clearing an activation (only compiled in with sanity checks).\<close>

definition clear_activation :: "rewrite_context \<Rightarrow> nat \<Rightarrow> rewrite_context result" where
  "clear_activation ctx k =
     bindE (upd_act k (site_update (\<lambda>_. ZERO_CALL_SITE) \<circ> cfa_update (\<lambda>_. 0)) ctx) (\<lambda>ctx.
     bindE (arr (acts ctx) k) (\<lambda>a.
     bindE (deref (regs a)) (\<lambda>b.
       let ctx = ctx\<lparr>regset_pool := memset (regset_pool ctx) b 0 (regset_size (REGOPS ctx))\<rparr> in
       upd_act k (regs_update (\<lambda>_. None) \<circ> callee_saved_update (\<lambda>_. \<lparr>bsize = 0, bits = None\<rparr>)) ctx)))"

section \<open>What the operations leave alone\<close>

text \<open>
  These facts hold on every call that returns, whatever the metadata says: restoring registers
  touches the two pools only (\<open>pools_only\<close>), and popping a frame sets up exactly the next activation.
\<close>

definition pools_only :: "rewrite_context \<Rightarrow> rewrite_context \<Rightarrow> bool" where
  "pools_only ctx ctx' \<longleftrightarrow>
     ctx' = ctx\<lparr>regset_pool := regset_pool ctx', callee_saved_pool := callee_saved_pool ctx'\<rparr>"

lemma pools_only_refl: "pools_only ctx ctx"
  by (simp add: pools_only_def)

lemma pools_only_trans: "pools_only a b \<Longrightarrow> pools_only b c \<Longrightarrow> pools_only a c"
  unfolding pools_only_def
  by (cases a; cases b; cases c) simp

lemma restore_one_shape: "restore_one m k i ctx = Inr ctx' \<Longrightarrow> pools_only ctx ctx'"
  by (auto simp: restore_one_def Let_def pools_only_def elim!: bindE_InrE)

lemma restore_loop_shape:
  "for_loop a b (restore_one m k) ctx = Inr ctx' \<Longrightarrow> a \<le> b \<Longrightarrow> pools_only ctx ctx'"
  by (rule for_loop_inv [where P = "\<lambda>_. pools_only ctx"])
    (auto intro: pools_only_refl pools_only_trans restore_one_shape)

lemma restore_callee_saved_regs_shape:
  assumes "restore_callee_saved_regs m ctx k = Inr ctx'"
  shows "pools_only ctx ctx'"
proof -
  obtain a b c where loop: "for_loop a b (restore_one m k) ctx = Inr c"
    and rest: "(if has_ra_reg (REGOPS c) then
         bindE (arr (acts c) k) (\<lambda>cur.
         bindE (deref (regs cur)) (\<lambda>b.
         bindE (ra_reg_op (REGOPS c) (regset_pool c) b) (\<lambda>ra.
           Inr (c\<lparr>regset_pool := set_pc_op (REGOPS c) (regset_pool c) b ra\<rparr>))))
       else Inr c) = Inr ctx'"
    using assms unfolding restore_callee_saved_regs_def Let_def by (elim bindE_InrE) blast
  have "pools_only ctx c"
    using loop restore_loop_shape [OF loop] pools_only_refl [of ctx] by (cases "a \<le> b") auto
  moreover have "pools_only c ctx'"
    using rest by (auto simp: pools_only_def split: if_splits elim!: bindE_InrE)
  ultimately show ?thesis by (rule pools_only_trans)
qed

lemma calculate_cfa_eq:
  "k < length (acts ctx) \<Longrightarrow> regs (acts ctx ! k) = Some b \<Longrightarrow>
   calculate_cfa ctx k = Inr (sp_op (REGOPS ctx) (regset_pool ctx) b + ucast (frame_size (site (acts ctx ! k))))"
  by (simp add: calculate_cfa_def)

text \<open>
  The next activation after a pop, with the register-set pool \<open>p\<close> before its stack pointer is set.
\<close>

definition popped :: "rewrite_context \<Rightarrow> bool \<Rightarrow> pool \<Rightarrow> pool \<Rightarrow> rewrite_context" where
  "popped ctx setup_bounds p q =
     (let k = act ctx + 1; ops = REGOPS ctx; b = k * regset_size ops; nxt = acts ctx ! k;
          p = set_sp_op ops p b (cfa (acts ctx ! act ctx));
          c = sp_op ops p b + ucast (frame_size (site nxt)) in
      ctx\<lparr>acts := (acts ctx)[k := \<lparr>site = site nxt, cfa = if setup_bounds then c else cfa nxt, regs = Some b,
             callee_saved = \<lparr>bsize = num_regs ops, bits = Some (k * bitmap_size (num_regs ops))\<rparr>\<rparr>],
          regset_pool := if setup_bounds then setup_fbp_op ops p b c else p,
          callee_saved_pool := q, act := k\<rparr>)"

lemma setup_frame_bounds_eq:
  assumes "0 < k" "k < length (acts ctx)" "regs (acts ctx ! k) = Some b"
    and "p = set_sp_op (REGOPS ctx) (regset_pool ctx) b (cfa (acts ctx ! (k - 1)))"
    and "c = sp_op (REGOPS ctx) p b + ucast (frame_size (site (acts ctx ! k)))"
  shows "setup_frame_bounds ctx k =
           Inr (ctx\<lparr>acts := (acts ctx)[k := (acts ctx ! k)\<lparr>cfa := c\<rparr>],
                    regset_pool := setup_fbp_op (REGOPS ctx) p b c\<rparr>)"
  using assms by (simp add: setup_frame_bounds_def calculate_cfa_eq Let_def)

lemma activation_upd:
  "a\<lparr>regs := r, callee_saved := b\<rparr> = \<lparr>site = site a, cfa = cfa a, regs = r, callee_saved = b\<rparr>"
  by (cases a) simp

lemma pop_frame_shape:
  assumes pop: "pop_frame m ctx sb = Inr ctx'"
  shows "act ctx + 1 < length (acts ctx) \<and> (\<exists>p q. ctx' = popped ctx sb p q)"
proof -
  let ?k = "act ctx + 1" and ?ops = "REGOPS ctx"
  let ?b = "?k * regset_size ?ops" and ?nxt = "acts ctx ! ?k"
  let ?bm = "\<lparr>bsize = num_regs ?ops, bits = Some (?k * bitmap_size (num_regs ?ops))\<rparr>"
  define A where "A = (acts ctx)[?k := \<lparr>site = site ?nxt, cfa = cfa ?nxt, regs = Some ?b, callee_saved = ?bm\<rparr>]"
  from pop obtain c1 c2 c3 c4 where 1: "setup_regset ctx ?k = Inr c1"
    and 2: "setup_callee_saved_bits c1 ?k = Inr c2"
    and 3: "restore_callee_saved_regs m c2 ?k = Inr c3"
    and 4: "(if sb then setup_frame_bounds c3 ?k
             else bindE (NEXT_ACT c3) (\<lambda>nxt. bindE (deref (regs nxt)) (\<lambda>b. bindE (ACT c3) (\<lambda>cur.
               Inr (c3\<lparr>regset_pool := set_sp_op (REGOPS c3) (regset_pool c3) b (cfa cur)\<rparr>))))) = Inr c4"
    and c': "ctx' = c4\<lparr>act := act c4 + 1\<rparr>"
    unfolding pop_frame_def Let_def by (elim bindE_InrE) blast
  have k: "?k < length (acts ctx)" using 1 by (auto simp: setup_regset_def Let_def c_result)
  obtain p1 where c1: "c1 = ctx\<lparr>acts := (acts ctx)[?k := ?nxt\<lparr>regs := Some ?b\<rparr>], regset_pool := p1\<rparr>"
    using 1 k by (auto simp: setup_regset_def Let_def elim!: bindE_InrE)
  have c2: "c2 = ctx\<lparr>acts := A, regset_pool := p1\<rparr>"
    using 2 k by (auto simp: setup_callee_saved_bits_def Let_def c1 A_def activation_upd)
  obtain p q where c3: "c3 = ctx\<lparr>acts := A, regset_pool := p, callee_saved_pool := q\<rparr>"
    using restore_callee_saved_regs_shape [OF 3] c2 by (simp add: pools_only_def)
  have A: "length A = length (acts ctx)" "A ! act ctx = acts ctx ! act ctx"
    "A ! ?k = \<lparr>site = site ?nxt, cfa = cfa ?nxt, regs = Some ?b, callee_saved = ?bm\<rparr>"
    using k by (simp_all add: A_def)
  have "ctx' = popped ctx sb p q"
  proof (cases sb)
    case False
    then show ?thesis
      using 4 k c' A by (auto simp: c3 NEXT_ACT_def ACT_def popped_def Let_def A_def)
  next
    case True
    have "c4 = (popped ctx True p q)\<lparr>act := act ctx\<rparr>"
      using 4 True k A by (auto simp: c3 setup_frame_bounds_eq popped_def Let_def A_def)
    then show ?thesis using c' True by (simp add: popped_def Let_def)
  qed
  then show ?thesis using k by blast
qed

text \<open>Popping the frame of a function that has only just been entered.\<close>

lemma pop_frame_funcentry_shape:
  assumes pop: "pop_frame_funcentry m ctx = Inr ctx'"
  shows "act ctx + 1 < length (acts ctx) \<and>
    (\<exists>p p'. ctx' = (popped ctx True p (callee_saved_pool ctx))\<lparr>regset_pool := p'\<rparr>)"
proof -
  let ?k = "act ctx + 1" and ?ops = "REGOPS ctx"
  let ?b = "?k * regset_size ?ops" and ?nxt = "acts ctx ! ?k"
  let ?bm = "\<lparr>bsize = num_regs ?ops, bits = Some (?k * bitmap_size (num_regs ?ops))\<rparr>"
  define A where "A = (acts ctx)[?k := \<lparr>site = site ?nxt, cfa = cfa ?nxt, regs = Some ?b, callee_saved = ?bm\<rparr>]"
  from pop obtain c1 c2 nxt nb cb ra c3 where 1: "setup_regset ctx ?k = Inr c1"
    and 2: "setup_callee_saved_bits c1 ?k = Inr c2"
    and n: "NEXT_ACT c2 = Inr nxt" "deref (regs nxt) = Inr nb"
    and 3: "setup_frame_bounds (c2\<lparr>regset_pool := set_pc_op (REGOPS c2) (regset_pool c2) nb ra\<rparr>) ?k = Inr c3"
    and c': "Inr (c3\<lparr>regset_pool := set_fbp_op (REGOPS c3) (regset_pool c3) cb
                     (fbp_op (REGOPS c3) (regset_pool c3) nb), act := act c3 + 1\<rparr>) = (Inr ctx' :: rewrite_context result)"
    unfolding pop_frame_funcentry_def Let_def by (elim bindE_InrE) (auto simp del: add_Suc_right One_nat_def)
  have k: "?k < length (acts ctx)" using 1 by (auto simp: setup_regset_def Let_def c_result)
  obtain p1 where c1: "c1 = ctx\<lparr>acts := (acts ctx)[?k := ?nxt\<lparr>regs := Some ?b\<rparr>], regset_pool := p1\<rparr>"
    using 1 k by (auto simp: setup_regset_def Let_def elim!: bindE_InrE)
  have c2: "c2 = ctx\<lparr>acts := A, regset_pool := p1\<rparr>"
    using 2 k by (auto simp: setup_callee_saved_bits_def Let_def c1 A_def activation_upd)
  have A: "length A = length (acts ctx)" "A ! act ctx = acts ctx ! act ctx"
    "A ! ?k = \<lparr>site = site ?nxt, cfa = cfa ?nxt, regs = Some ?b, callee_saved = ?bm\<rparr>"
    using k by (simp_all add: A_def)
  have nb: "nb = ?b" using n k A by (auto simp: NEXT_ACT_def c2)
  let ?p = "set_pc_op ?ops p1 ?b ra"
  have c3: "c3 = (popped ctx True ?p (callee_saved_pool ctx))\<lparr>act := act ctx\<rparr>"
    using 3 k A by (auto simp: c2 nb setup_frame_bounds_eq popped_def Let_def A_def)
  have "ctx' = (popped ctx True ?p (callee_saved_pool ctx))\<lparr>regset_pool := regset_pool ctx'\<rparr>"
    using c' by (auto simp: c3 popped_def Let_def)
  then show ?thesis using k by blast
qed

lemma popped_simps [simp]:
  "act (popped ctx sb p q) = act ctx + 1" "handle (popped ctx sb p q) = handle ctx"
  "num_acts (popped ctx sb p q) = num_acts ctx" "stack (popped ctx sb p q) = stack ctx"
  "stack_base (popped ctx sb p q) = stack_base ctx"
  "stack_pointers (popped ctx sb p q) = stack_pointers ctx"
  "ctx_regs (popped ctx sb p q) = ctx_regs ctx"
  "length (acts (popped ctx sb p q)) = length (acts ctx)"
  by (simp_all add: popped_def Let_def)

lemma popped_acts:
  assumes "act ctx + 1 < length (acts ctx)"
  shows "k \<noteq> act ctx + 1 \<Longrightarrow> acts (popped ctx sb p q) ! k = acts ctx ! k"
    and "site (acts (popped ctx sb p q) ! (act ctx + 1)) = site (acts ctx ! (act ctx + 1))"
    and "regs (acts (popped ctx sb p q) ! (act ctx + 1)) = Some ((act ctx + 1) * regset_size (REGOPS ctx))"
  using assms by (simp_all add: popped_def Let_def)

context regset_iface
begin

text \<open>The frame address of the next frame: the one of this frame plus the next frame's size.\<close>

lemma popped_cfa:
  "REGOPS ctx = ops \<Longrightarrow> act ctx + 1 < length (acts ctx) \<Longrightarrow>
   cfa (acts (popped ctx True p q) ! (act ctx + 1)) =
     cfa (acts ctx ! act ctx) + ucast (frame_size (site (acts ctx ! (act ctx + 1))))"
  by (simp add: popped_def Let_def)

text \<open>The stack pointer of the next frame is the frame address of this one.\<close>

lemma popped_sp:
  "REGOPS ctx = ops \<Longrightarrow> act ctx + 1 < length (acts ctx) \<Longrightarrow>
   sp_op ops (regset_pool (popped ctx sb p q)) ((act ctx + 1) * regset_size ops) = cfa (acts ctx ! act ctx)"
  by (simp add: popped_def Let_def)

end

section \<open>The unwinding records of a frame\<close>

text \<open>The slice of the unwinding section that a call site names, and when it is sound to follow it.\<close>

definition unwind_slice :: "st_handle \<Rightarrow> call_site \<Rightarrow> unwind_loc list" where
  "unwind_slice h s =
     take (unat (cs_num_unwind s)) (drop (unat (ucast (cs_unwind_offset s) :: u32)) (unwind_locs h))"

definition valid_unwind :: "st_handle \<Rightarrow> call_site \<Rightarrow> bool" where
  "valid_unwind h s \<longleftrightarrow>
     unat (ucast (cs_unwind_offset s) :: u32) + unat (cs_num_unwind s) \<le> length (unwind_locs h) \<and>
     length (unwind_locs h) < 2 ^ 32 \<and>
     distinct (map ul_reg (unwind_slice h s)) \<and>
     (\<forall>l \<in> set (unwind_slice h s). is_callee_saved_op (h_props h) (ul_reg l))"

lemma unat_unwind_end:
  assumes "unat (a::u32) + unat (n::u16) < 2 ^ 32"
  shows "unat (a + ucast n :: u32) = unat a + unat n"
proof -
  have "unat (ucast n :: u32) = unat n" by (simp add: unat_ucast_up)
  then show ?thesis using assms by (simp add: unat_word_ariths)
qed

text \<open>
  What following the records of a slice leaves in the register set at \<open>b\<close>: each register of the
  slice holds the eight bytes its record points to, relative to the frame base pointer \<open>fb\<close>, and no
  byte outside those registers has changed.
\<close>

definition restored :: "regops \<Rightarrow> memory \<Rightarrow> u64 \<Rightarrow> unwind_loc list \<Rightarrow> pool \<Rightarrow> nat \<Rightarrow> pool \<Rightarrow> bool" where
  "restored ops m fb recs p0 b p \<longleftrightarrow>
     (\<forall>l \<in> set recs. \<forall>off. reg_op ops (ul_reg l) = Inr off \<longrightarrow>
        load64 p (b + off) = load64 m (fb + scast (ul_offset l))) \<and>
     (\<forall>x. (\<forall>l \<in> set recs. \<forall>off. reg_op ops (ul_reg l) = Inr off \<longrightarrow> x < b + off \<or> b + off + 8 \<le> x)
          \<longrightarrow> p x = p0 x)"

lemma restored_Nil: "restored ops m fb [] p b p"
  by (simp add: restored_def)

lemma load64_eqI: "(\<And>i. i < 8 \<Longrightarrow> p (a + i) = q (c + i)) \<Longrightarrow> load64 p (a::nat) = load64 q (c::nat)"
  by (auto simp: load64_def load_def intro: arg_cong [where f = word_of])

lemma load64_store_8: "length bs = 8 \<Longrightarrow> load64 (store p (a::nat) bs) a = word_of bs"
  using load_store_pool [of p a bs] by (simp add: load64_def)

context abi
begin

lemma restored_snoc:
  assumes r: "restored ops m fb recs p0 b p" and off: "reg_op ops (ul_reg l) = Inr off"
    and new: "ul_reg l \<notin> ul_reg ` set recs"
  shows "restored ops m fb (recs @ [l]) p0 b
           (store p (b + off) (load m (fb + scast (ul_offset l)) 8))"
proof -
  let ?q = "store p (b + off) (load m (fb + scast (ul_offset l)) 8)"
  have "load64 ?q (b + off') = load64 m (fb + scast (ul_offset l'))"
    if "l' \<in> set (recs @ [l])" "reg_op ops (ul_reg l') = Inr off'" for l' off'
  proof (cases "l' = l")
    case True
    then show ?thesis using that off by (simp add: load64_store_8) (simp add: load64_def)
  next
    case False
    then have l': "l' \<in> set recs" "ul_reg l \<noteq> ul_reg l'" using that new by auto
    then have "load64 ?q (b + off') = load64 p (b + off')"
      using reg_write_other [OF off that(2)] by simp
    then show ?thesis using r that l' by (simp add: restored_def)
  qed
  moreover have "?q x = p0 x"
    if "\<forall>l' \<in> set (recs @ [l]). \<forall>off. reg_op ops (ul_reg l') = Inr off \<longrightarrow>
          x < b + off \<or> b + off + 8 \<le> x" for x
  proof -
    have "?q x = p x" using that off by (intro store_pool_other) auto
    then show ?thesis using r that by (simp add: restored_def)
  qed
  ultimately show ?thesis by (simp add: restored_def)
qed

lemma restored_other_reg:
  assumes "restored ops m fb recs p0 b p" "reg_op ops r = Inr off" "r \<notin> ul_reg ` set recs"
  shows "load64 p (b + off) = load64 p0 (b + off)"
proof (rule load64_eqI)
  fix i :: nat assume "i < 8"
  have "b + off + i < b + off' \<or> b + off' + 8 \<le> b + off + i"
    if "l \<in> set recs" "reg_op ops (ul_reg l) = Inr off'" for l off'
  proof -
    have "r \<noteq> ul_reg l" using assms(3) that(1) by auto
    then show ?thesis using reg_apart [OF assms(2) that(2)] \<open>i < 8\<close> by auto
  qed
  then show "p (b + off + i) = p0 (b + off + i)"
    using assms(1) unfolding restored_def by blast
qed

lemma restored_frame:
  assumes "restored ops m fb recs p0 b p" "x < b \<or> b + regset_size ops \<le> x"
  shows "p x = p0 x"
proof -
  have "x < b + off \<or> b + off + 8 \<le> x" if "reg_op ops (ul_reg l) = Inr off" for l off
    using reg_bound [OF that] assms(2) by auto
  then show ?thesis using assms(1) unfolding restored_def by blast
qed

text \<open>One iteration, then the loop.\<close>

lemma restore_one_effect:
  assumes "REGOPS ctx = ops" "PROPS ctx = props" "k < length (acts ctx)"
    and "regs (acts ctx ! (k - 1)) = Some c" "regs (acts ctx ! k) = Some b"
    and "bits (callee_saved (acts ctx ! (k - 1))) = Some d"
    and "i < length (unwind_locs (handle ctx))" "l = unwind_locs (handle ctx) ! i"
    and "is_callee_saved_op props (ul_reg l)" "reg_op ops (ul_reg l) = Inr off"
  shows "\<exists>q. bitmap_set (callee_saved_pool ctx) (callee_saved (acts ctx ! (k - 1))) (unat (ul_reg l)) = Inr q \<and>
             restore_one m k i ctx =
               Inr (ctx\<lparr>regset_pool := store (regset_pool ctx) (b + off)
                      (load m (fbp_op ops (regset_pool ctx) c + scast (ul_offset l)) 8),
                    callee_saved_pool := q\<rparr>)"
proof -
  obtain q where "bitmap_set (callee_saved_pool ctx) (callee_saved (acts ctx ! (k - 1)))
      (unat (ul_reg l)) = Inr q"
    using assms(6) by (simp add: bitmap_set_def Let_def)
  then show ?thesis
    using assms callee_size [OF assms(9)] by (simp add: restore_one_def)
qed

lemma restore_loop_effect:
  assumes "REGOPS ctx = ops" "PROPS ctx = props" "k < length (acts ctx)"
    and "regs (acts ctx ! (k - 1)) = Some c" "regs (acts ctx ! k) = Some b"
    and "bits (callee_saved (acts ctx ! (k - 1))) = Some d"
    and apart: "c + regset_size ops \<le> b"
    and len: "s + n \<le> length (unwind_locs (handle ctx))"
    and recs: "recs = take n (drop s (unwind_locs (handle ctx)))"
    and dist: "distinct (map ul_reg recs)"
    and saved: "\<forall>l \<in> set recs. is_callee_saved_op props (ul_reg l)"
  shows "\<exists>p q. for_loop s (s + n) (restore_one m k) ctx =
             Inr (ctx\<lparr>regset_pool := p, callee_saved_pool := q\<rparr>) \<and>
           restored ops m (fbp_op ops (regset_pool ctx) c) recs (regset_pool ctx) b p \<and>
           (\<forall>x. bitmap_is_set q (callee_saved (acts ctx ! (k - 1))) x =
                (if x \<in> unat ` ul_reg ` set recs then Inr True
                 else bitmap_is_set (callee_saved_pool ctx) (callee_saved (acts ctx ! (k - 1))) x))"
proof -
  define bm where "bm = callee_saved (acts ctx ! (k - 1))"
  define P where "P = (\<lambda>i ctx'. \<exists>p q. ctx' = ctx\<lparr>regset_pool := p, callee_saved_pool := q\<rparr> \<and>
      restored ops m (fbp_op ops (regset_pool ctx) c) (take (i - s) recs) (regset_pool ctx) b p \<and>
      (\<forall>x. bitmap_is_set q bm x = (if x \<in> unat ` ul_reg ` set (take (i - s) recs) then Inr True
           else bitmap_is_set (callee_saved_pool ctx) bm x)))"
  have "\<exists>t. for_loop s (s + n) (restore_one m k) ctx = Inr t \<and> P (s + n) t"
  proof (rule for_loop_total)
    show "P s ctx" unfolding P_def
      by (intro exI [of _ "regset_pool ctx"] exI [of _ "callee_saved_pool ctx"]) (simp add: restored_Nil)
    show "s \<le> s + n" by simp
    fix i ctx' assume i: "s \<le> i" "i < s + n" and "P i ctx'"
    then obtain p q where c': "ctx' = ctx\<lparr>regset_pool := p, callee_saved_pool := q\<rparr>"
      and r: "restored ops m (fbp_op ops (regset_pool ctx) c) (take (i - s) recs) (regset_pool ctx) b p"
      and bm: "\<forall>x. bitmap_is_set q bm x = (if x \<in> unat ` ul_reg ` set (take (i - s) recs) then Inr True
           else bitmap_is_set (callee_saved_pool ctx) bm x)"
      unfolding P_def by blast
    define l where "l = unwind_locs (handle ctx) ! i"
    have j: "i - s < length recs" "recs ! (i - s) = l"
      using i len by (simp_all add: recs l_def)
    then have take: "take (Suc i - s) recs = take (i - s) recs @ [l]"
      using i by (simp add: Suc_diff_le take_Suc_conv_app_nth)
    have "l \<in> set recs" using j nth_mem by blast
    then have cs: "is_callee_saved_op props (ul_reg l)" using saved by blast
    then obtain off where off: "reg_op ops (ul_reg l) = Inr off" using callee_reg by blast
    have new: "ul_reg l \<notin> ul_reg ` set (take (i - s) recs)"
    proof
      assume "ul_reg l \<in> ul_reg ` set (take (i - s) recs)"
      then obtain j' where "j' < i - s" "ul_reg (recs ! j') = ul_reg l"
        using j by (auto simp: in_set_conv_nth)
      then show False using dist j by (auto simp: distinct_conv_nth)
    qed
    have fb: "fbp_op ops p c = fbp_op ops (regset_pool ctx) c"
      using restored_frame [OF r] apart by (intro fbp_cong) (auto simp: same_regset_def)
    obtain q' where q': "bitmap_set q bm (unat (ul_reg l)) = Inr q'"
      and step: "restore_one m k i ctx' = Inr (ctx'\<lparr>regset_pool := store p (b + off)
                      (load m (fbp_op ops (regset_pool ctx) c + scast (ul_offset l)) 8),
                    callee_saved_pool := q'\<rparr>)"
      using restore_one_effect [of ctx' k c b d i l off m] assms(1-6) i len cs off
      by (auto simp: c' bm_def l_def fb)
    have "P (Suc i) (ctx'\<lparr>regset_pool := store p (b + off)
                      (load m (fbp_op ops (regset_pool ctx) c + scast (ul_offset l)) 8),
                    callee_saved_pool := q'\<rparr>)"
      unfolding P_def
    proof (intro exI conjI allI)
      show "restored ops m (fbp_op ops (regset_pool ctx) c) (take (Suc i - s) recs) (regset_pool ctx) b
          (store p (b + off) (load m (fbp_op ops (regset_pool ctx) c + scast (ul_offset l)) 8))"
        unfolding take by (rule restored_snoc [OF r off new])
      show "bitmap_is_set q' bm x = (if x \<in> unat ` ul_reg ` set (take (Suc i - s) recs) then Inr True
           else bitmap_is_set (callee_saved_pool ctx) bm x)" for x
        using bitmap_is_set_set [of bm d q "unat (ul_reg l)" q' x] assms(6) q' bm
        by (auto simp: take bm_def)
    qed (simp add: c')
    then show "\<exists>s'. restore_one m k i ctx' = Inr s' \<and> P (Suc i) s'" using step by blast
  qed
  then obtain t where t: "for_loop s (s + n) (restore_one m k) ctx = Inr t" "P (s + n) t" by blast
  moreover have "take (s + n - s) recs = recs" by (simp add: recs)
  ultimately show ?thesis unfolding P_def bm_def by (metis (no_types, lifting))
qed

text \<open>Everything up to the stack pointer: the callee-saved registers and the program counter.\<close>

lemma restore_callee_saved_effect:
  assumes "REGOPS ctx = ops" "PROPS ctx = props" "0 < k" "k < length (acts ctx)"
    and "regs (acts ctx ! (k - 1)) = Some c" "regs (acts ctx ! k) = Some b"
    and "bits (callee_saved (acts ctx ! (k - 1))) = Some d"
    and apart: "c + regset_size ops \<le> b"
    and valid: "valid_unwind (handle ctx) (site (acts ctx ! (k - 1)))"
    and recs: "recs = unwind_slice (handle ctx) (site (acts ctx ! (k - 1)))"
  shows "\<exists>p p' q. restore_callee_saved_regs m ctx k =
             Inr (ctx\<lparr>regset_pool := p', callee_saved_pool := q\<rparr>) \<and>
           restored ops m (fbp_op ops (regset_pool ctx) c) recs (regset_pool ctx) b p \<and>
           p' = (if has_ra_reg ops then set_pc_op ops p b (load64 p (b + ra_off)) else p) \<and>
           (\<forall>x. bitmap_is_set q (callee_saved (acts ctx ! (k - 1))) x =
                (if x \<in> unat ` ul_reg ` set recs then Inr True
                 else bitmap_is_set (callee_saved_pool ctx) (callee_saved (acts ctx ! (k - 1))) x))"
proof -
  let ?s = "unat (ucast (cs_unwind_offset (site (acts ctx ! (k - 1)))) :: u32)"
  let ?n = "unat (cs_num_unwind (site (acts ctx ! (k - 1))))"
  have len: "?s + ?n \<le> length (unwind_locs (handle ctx))" "length (unwind_locs (handle ctx)) < 2 ^ 32"
    using valid by (simp_all add: valid_unwind_def)
  then have "?s + ?n < 2 ^ 32" by linarith
  then have e: "unat (ucast (cs_unwind_offset (site (acts ctx ! (k - 1)))) +
      ucast (cs_num_unwind (site (acts ctx ! (k - 1)))) :: u32) = ?s + ?n"
    by (rule unat_unwind_end)
  have recs': "recs = take ?n (drop ?s (unwind_locs (handle ctx)))"
    by (simp add: recs unwind_slice_def)
  have "distinct (map ul_reg recs)" "\<forall>l \<in> set recs. is_callee_saved_op props (ul_reg l)"
    using valid assms(2) recs by (auto simp: valid_unwind_def)
  from restore_loop_effect [OF assms(1,2,4,5,6,7) apart len(1) recs' this, of m]
  obtain p q where "for_loop ?s (?s + ?n) (restore_one m k) ctx =
             Inr (ctx\<lparr>regset_pool := p, callee_saved_pool := q\<rparr>)"
    and *: "restored ops m (fbp_op ops (regset_pool ctx) c) recs (regset_pool ctx) b p"
      "\<forall>x. bitmap_is_set q (callee_saved (acts ctx ! (k - 1))) x =
                (if x \<in> unat ` ul_reg ` set recs then Inr True
                 else bitmap_is_set (callee_saved_pool ctx) (callee_saved (acts ctx ! (k - 1))) x)"
    by blast
  then have "restore_callee_saved_regs m ctx k =
      Inr (ctx\<lparr>regset_pool := if has_ra_reg ops then set_pc_op ops p b (load64 p (b + ra_off)) else p,
               callee_saved_pool := q\<rparr>)"
    using assms(1-6) e by (simp add: restore_callee_saved_regs_def Let_def ra_place)
  with * show ?thesis by blast
qed

text \<open>
  The register set of the caller from the one with the callee-saved registers restored: the return
  address becomes the program counter where it is in a register, and the stack pointer is \<open>c\<close>.
\<close>

definition unwound :: "pool \<Rightarrow> nat \<Rightarrow> u64 \<Rightarrow> pool" where
  "unwound p b c =
     set_sp_op ops (if has_ra_reg ops then set_pc_op ops p b (load64 p (b + ra_off)) else p) b c"

lemma unwound_sp: "sp_op ops (unwound p b c) b = c"
  by (simp add: unwound_def)

lemma unwound_reg:
  assumes "reg_op ops r = Inr off" "r \<noteq> sp_num"
  shows "load64 (unwound p b c) (b + off) = load64 p (b + off)"
  using assms reg_set_pc [OF assms(1)] ra_pc by (simp add: unwound_def reg_set_sp)

lemma unwound_pc: "pc_op ops (unwound p b c) b = load64 p (b + ra_off)"
proof (cases "has_ra_reg ops")
  case True
  then show ?thesis by (simp add: unwound_def)
next
  case False
  then have "pc_off = ra_off" using ra_pc reg_ra reg_pc [of ra_num] by simp
  then show ?thesis using unwound_reg [OF reg_ra] sp_not_ra by (simp add: pc_place)
qed

lemma unwound_frame:
  assumes "restored ops m fb recs (regset_clone_op ops p0 c b) b p" "x < b"
  shows "unwound p b sp x = p0 x"
  using assms restored_frame [OF assms(1), of x] clone_frame [of x b p0 c]
  by (simp add: unwound_def set_sp_frame set_pc_frame)

lemma unwound_saved:
  assumes "restored ops m fb recs p0 b p" "l \<in> set recs" "is_callee_saved_op props (ul_reg l)"
    "ul_reg l \<noteq> sp_num"
  shows "\<exists>off. reg_op ops (ul_reg l) = Inr off \<and>
           load64 (unwound p b c) (b + off) = load64 m (fb + scast (ul_offset l))"
proof -
  obtain off where off: "reg_op ops (ul_reg l) = Inr off" using callee_reg [OF assms(3)] by blast
  then show ?thesis using assms(1,2,4) unwound_reg [OF off] by (auto simp: restored_def)
qed

lemma unwound_other:
  assumes "restored ops m fb recs (regset_clone_op ops p0 c b) b p" "reg_op ops r = Inr off"
    "r \<notin> ul_reg ` set recs" "r \<noteq> sp_num"
  shows "load64 (unwound p b sp) (b + off) = load64 p0 (c + off)"
proof -
  have "load64 (regset_clone_op ops p0 c b) (b + off) = load64 p0 (c + off)"
    by (rule same_regset_load64 [OF clone_same reg_bound [OF assms(2)]])
  then show ?thesis
    using unwound_reg [OF assms(2,4)] restored_other_reg [OF assms(1,2,3)] by simp
qed

text \<open>The whole step of the source stack, which leaves the frame bounds to its caller.\<close>

lemma pop_frame_effect:
  assumes ops: "REGOPS ctx = ops" "PROPS ctx = props" and k: "k = act ctx" "k + 1 < length (acts ctx)"
    and r: "regs (acts ctx ! k) = Some (k * regset_size ops)"
    and bits: "bits (callee_saved (acts ctx ! k)) = Some d"
    and valid: "valid_unwind (handle ctx) (site (acts ctx ! k))"
    and recs: "recs = unwind_slice (handle ctx) (site (acts ctx ! k))"
  defines "b \<equiv> (k + 1) * regset_size ops"
  shows "\<exists>p q. pop_frame m ctx False =
           Inr (ctx\<lparr>acts := (acts ctx)[k + 1 := (acts ctx ! (k + 1))
                      \<lparr>regs := Some b,
                       callee_saved := \<lparr>bsize = num_regs ops, bits = Some ((k + 1) * bitmap_size (num_regs ops))\<rparr>\<rparr>],
                    regset_pool := unwound p b (cfa (acts ctx ! k)),
                    callee_saved_pool := q, act := k + 1\<rparr>) \<and>
         restored ops m (fbp_op ops (regset_pool ctx) (k * regset_size ops)) recs
           (regset_clone_op ops (regset_pool ctx) (k * regset_size ops) b) b p \<and>
         (\<forall>x. bitmap_is_set q (callee_saved (acts ctx ! k)) x =
              (if x \<in> unat ` ul_reg ` set recs then Inr True
               else bitmap_is_set (callee_saved_pool ctx) (callee_saved (acts ctx ! k)) x))"
proof -
  define A where "A = (acts ctx)[k + 1 := (acts ctx ! (k + 1))
      \<lparr>regs := Some b,
       callee_saved := \<lparr>bsize = num_regs ops, bits = Some ((k + 1) * bitmap_size (num_regs ops))\<rparr>\<rparr>]"
  define pool where "pool = regset_clone_op ops (regset_pool ctx) (k * regset_size ops) b"
  let ?ctx = "ctx\<lparr>acts := A, regset_pool := pool\<rparr>"
  have 1: "setup_regset ctx (k + 1) = Inr (ctx\<lparr>acts := (acts ctx)[k + 1 := (acts ctx ! (k + 1))\<lparr>regs := Some b\<rparr>],
             regset_pool := pool\<rparr>)"
    using k r by (simp add: setup_regset_def Let_def ops b_def pool_def)
  have 2: "setup_callee_saved_bits (ctx\<lparr>acts := (acts ctx)[k + 1 := (acts ctx ! (k + 1))\<lparr>regs := Some b\<rparr>],
             regset_pool := pool\<rparr>) (k + 1) = Inr ?ctx"
    using k by (simp add: setup_callee_saved_bits_def Let_def ops A_def)
  have A: "length A = length (acts ctx)" "A ! k = acts ctx ! k" "regs (A ! (k + 1)) = Some b"
    using k by (simp_all add: A_def)
  have frame: "same_regset (regset_size ops) pool (k * regset_size ops) (regset_pool ctx) (k * regset_size ops)"
    using clone_frame by (auto simp: same_regset_def pool_def b_def)
  have fb: "fbp_op ops pool (k * regset_size ops) = fbp_op ops (regset_pool ctx) (k * regset_size ops)"
    by (rule fbp_cong [OF frame])
  obtain p p' q where 3: "restore_callee_saved_regs m ?ctx (k + 1) =
             Inr (?ctx\<lparr>regset_pool := p', callee_saved_pool := q\<rparr>)"
    and p: "restored ops m (fbp_op ops pool (k * regset_size ops)) recs pool b p"
    and p': "p' = (if has_ra_reg ops then set_pc_op ops p b (load64 p (b + ra_off)) else p)"
    and q: "\<forall>x. bitmap_is_set q (callee_saved (acts ctx ! k)) x =
                (if x \<in> unat ` ul_reg ` set recs then Inr True
                 else bitmap_is_set (callee_saved_pool ctx) (callee_saved (acts ctx ! k)) x)"
    using restore_callee_saved_effect [of ?ctx "k + 1" "k * regset_size ops" b d recs m]
      ops k r bits valid recs A b_def by (auto simp: add.commute)
  have "pop_frame m ctx False = Inr (?ctx\<lparr>regset_pool := set_sp_op ops p' b (cfa (acts ctx ! k)),
          callee_saved_pool := q, act := k + 1\<rparr>)"
    unfolding pop_frame_def Let_def k(1) [symmetric] 1 2 3 bindE_simps
    using k A by (simp add: NEXT_ACT_def ACT_def ops)
  then show ?thesis using p q unfolding A_def pool_def fb [unfolded pool_def] p' unwound_def
    by (intro exI [of _ p] exI [of _ q]) simp
qed

end

section \<open>Unwinding restores the caller\<close>

text \<open>The value of a numbered register in activation \<open>k\<close>.\<close>

definition reg_val :: "rewrite_context \<Rightarrow> nat \<Rightarrow> u16 \<Rightarrow> u64 result" where
  "reg_val ctx k r =
     bindE (arr (acts ctx) k) (\<lambda>a. bindE (deref (regs a)) (\<lambda>b. bindE (reg_op (REGOPS ctx) r) (\<lambda>off.
       Inr (load64 (regset_pool ctx) (b + off)))))"

text \<open>
  A context whose current activation \<open>k\<close> is set up: its architecture is supported, its register
  set has its slot of the pool, its bitmap is allocated and there is room for one more frame.
\<close>

definition ready :: "u16 \<Rightarrow> rewrite_context \<Rightarrow> bool" where
  "ready arch ctx \<longleftrightarrow>
     get_regops arch = Some (REGOPS ctx) \<and> get_properties arch = Some (PROPS ctx) \<and>
     act ctx + 1 < length (acts ctx) \<and>
     regs (acts ctx ! act ctx) = Some (act ctx * regset_size (REGOPS ctx)) \<and>
     bits (callee_saved (acts ctx ! act ctx)) \<noteq> None"

text \<open>One step of unwinding, with the return address as the value of its register.\<close>

lemma pop_frame_caller:
  assumes ready: "ready arch ctx" and k: "k = act ctx"
    and valid: "valid_unwind (handle ctx) (site (acts ctx ! k))"
    and recs: "recs = unwind_slice (handle ctx) (site (acts ctx ! k))"
    and fb: "fb = fbp_op (REGOPS ctx) (regset_pool ctx) (k * regset_size (REGOPS ctx))"
  shows "\<exists>ctx'. pop_frame m ctx False = Inr ctx' \<and> act ctx' = k + 1 \<and> handle ctx' = handle ctx \<and>
           sp_op (REGOPS ctx) (regset_pool ctx') ((k + 1) * regset_size (REGOPS ctx)) = cfa (acts ctx ! k) \<and>
           (\<forall>l \<in> set recs. ul_reg l \<noteq> sp_number arch \<longrightarrow>
              reg_val ctx' (k + 1) (ul_reg l) = Inr (load64 m (fb + scast (ul_offset l)))) \<and>
           (\<forall>r. r \<notin> ul_reg ` set recs \<longrightarrow> r \<noteq> sp_number arch \<longrightarrow>
              reg_val ctx' (k + 1) r = reg_val ctx k r) \<and>
           (\<forall>l \<in> set recs. ul_reg l = ra_number arch \<longrightarrow>
              pc_op (REGOPS ctx) (regset_pool ctx') ((k + 1) * regset_size (REGOPS ctx)) =
                load64 m (fb + scast (ul_offset l))) \<and>
           reg_val ctx' (k + 1) (ra_number arch) =
             Inr (pc_op (REGOPS ctx) (regset_pool ctx') ((k + 1) * regset_size (REGOPS ctx))) \<and>
           (\<forall>x < (k + 1) * regset_size (REGOPS ctx). regset_pool ctx' x = regset_pool ctx x) \<and>
           (\<forall>x. bitmap_is_set (callee_saved_pool ctx') (callee_saved (acts ctx ! k)) x =
              (if x \<in> unat ` ul_reg ` set recs then Inr True
               else bitmap_is_set (callee_saved_pool ctx) (callee_saved (acts ctx ! k)) x))"
proof -
  let ?ops = "REGOPS ctx"
  have a: "get_regops arch = Some ?ops" "get_properties arch = Some (PROPS ctx)"
    and len: "k + 1 < length (acts ctx)" and r: "regs (acts ctx ! k) = Some (k * regset_size ?ops)"
    using ready k by (simp_all add: ready_def)
  obtain d where d: "bits (callee_saved (acts ctx ! k)) = Some d" using ready k by (auto simp: ready_def)
  obtain sp_off pc_off fbp_off ra_off where abi: "abi ?ops (PROPS ctx) (sp_number arch)
      (pc_number arch) (ra_number arch) sp_off pc_off fbp_off ra_off"
    using arch_abi [OF a] .
  define b where "b = (k + 1) * regset_size ?ops"
  define bm where "bm = \<lparr>bsize = num_regs ?ops, bits = Some ((k + 1) * bitmap_size (num_regs ?ops))\<rparr>"
  let ?sp = "cfa (acts ctx ! k)"
  obtain p q where pop: "pop_frame m ctx False =
      Inr (ctx\<lparr>acts := (acts ctx)[k + 1 := (acts ctx ! (k + 1))\<lparr>regs := Some b, callee_saved := bm\<rparr>],
               regset_pool := abi.unwound ?ops ra_off p b ?sp, callee_saved_pool := q, act := k + 1\<rparr>)"
    and res: "restored ?ops m fb recs (regset_clone_op ?ops (regset_pool ctx) (k * regset_size ?ops) b) b p"
    and q: "\<forall>x. bitmap_is_set q (callee_saved (acts ctx ! k)) x =
              (if x \<in> unat ` ul_reg ` set recs then Inr True
               else bitmap_is_set (callee_saved_pool ctx) (callee_saved (acts ctx ! k)) x)"
    using abi.pop_frame_effect [OF abi refl refl k len r d valid recs] unfolding fb b_def bm_def by blast
  let ?c = "ctx\<lparr>acts := (acts ctx)[k + 1 := (acts ctx ! (k + 1))\<lparr>regs := Some b, callee_saved := bm\<rparr>],
               regset_pool := abi.unwound ?ops ra_off p b ?sp, callee_saved_pool := q, act := k + 1\<rparr>"
  have val: "reg_val ?c (k + 1) r =
       bindE (reg_op ?ops r) (\<lambda>off. Inr (load64 (abi.unwound ?ops ra_off p b ?sp) (b + off)))" for r
    using len by (simp add: reg_val_def)
  have cs: "is_callee_saved_op (PROPS ctx) (ul_reg l)" if "l \<in> set recs" for l
    using valid recs that by (simp add: valid_unwind_def)
  have saved: "reg_val ?c (k + 1) (ul_reg l) = Inr (load64 m (fb + scast (ul_offset l)))"
    if "l \<in> set recs" "ul_reg l \<noteq> sp_number arch" for l
    unfolding val using abi.unwound_saved [OF abi res that(1) cs [OF that(1)] that(2), where c = ?sp]
    by auto
  have other: "reg_val ?c (k + 1) r' = reg_val ctx k r'"
    if "r' \<notin> ul_reg ` set recs" "r' \<noteq> sp_number arch" for r'
    unfolding val using len r abi.unwound_other [OF abi res _ that]
    by (cases "reg_op ?ops r'") (simp_all add: reg_val_def)
  have pc: "pc_op ?ops (regset_pool ?c) b = load64 m (fb + scast (ul_offset l))"
    if "l \<in> set recs" "ul_reg l = ra_number arch" for l
    using that res abi.reg_ra [OF abi] abi.unwound_pc [OF abi] by (auto simp: restored_def)
  have ra: "reg_val ?c (k + 1) (ra_number arch) = Inr (pc_op ?ops (regset_pool ?c) b)"
    using abi.unwound_reg [OF abi abi.reg_ra [OF abi] not_sym [OF abi.sp_not_ra [OF abi]]] abi.unwound_pc [OF abi] abi.reg_ra [OF abi]
    unfolding val by simp
  have frame: "regset_pool ?c x = regset_pool ctx x" if "x < b" for x
    using abi.unwound_frame [OF abi res that] by simp
  have sp: "sp_op ?ops (regset_pool ?c) b = ?sp" using abi.unwound_sp [OF abi] by simp
  show ?thesis
    using pop saved other pc ra frame sp q unfolding b_def [symmetric]
    by (intro exI [of _ ?c]) simp
qed

text \<open>
  C3: Unwinding one frame of the source stack never fails on valid unwinding records, on any
  architecture, and restores the caller: the new stack pointer is the frame address of the callee,
  every callee-saved register holds the value its record points to in the callee's frame, every
  other register keeps its value, the program counter is the saved return address, the registers
  of the frames already unwound are untouched, and the callee's bitmap records exactly the
  registers that were restored besides those it held.
\<close>

theorem pop_frame_restores:
  assumes ready: "ready arch ctx" and k: "k = act ctx"
    and valid: "valid_unwind (handle ctx) (site (acts ctx ! k))"
    and recs: "recs = unwind_slice (handle ctx) (site (acts ctx ! k))"
    and fb: "fb = fbp_op (REGOPS ctx) (regset_pool ctx) (k * regset_size (REGOPS ctx))"
  shows "\<exists>ctx'. pop_frame m ctx False = Inr ctx' \<and> act ctx' = k + 1 \<and> handle ctx' = handle ctx \<and>
           sp_op (REGOPS ctx) (regset_pool ctx') ((k + 1) * regset_size (REGOPS ctx)) = cfa (acts ctx ! k) \<and>
           (\<forall>l \<in> set recs. ul_reg l \<noteq> sp_number arch \<longrightarrow>
              reg_val ctx' (k + 1) (ul_reg l) = Inr (load64 m (fb + scast (ul_offset l)))) \<and>
           (\<forall>r. r \<notin> ul_reg ` set recs \<longrightarrow> r \<noteq> sp_number arch \<longrightarrow>
              reg_val ctx' (k + 1) r = reg_val ctx k r) \<and>
           (\<forall>l \<in> set recs. ul_reg l = ra_number arch \<longrightarrow>
              pc_op (REGOPS ctx) (regset_pool ctx') ((k + 1) * regset_size (REGOPS ctx)) =
                load64 m (fb + scast (ul_offset l))) \<and>
           (\<forall>x < (k + 1) * regset_size (REGOPS ctx). regset_pool ctx' x = regset_pool ctx x) \<and>
           (\<forall>x. bitmap_is_set (callee_saved_pool ctx') (callee_saved (acts ctx ! k)) x =
              (if x \<in> unat ` ul_reg ` set recs then Inr True
               else bitmap_is_set (callee_saved_pool ctx) (callee_saved (acts ctx ! k)) x))"
  using pop_frame_caller [OF assms] by blast

text \<open>
  A small x86-64 context for evaluating properties: one activation whose register set is filled
  with zeroes and whose function saved RBP at FBP and the return address at FBP + 8.
\<close>

definition example_handle :: st_handle where
  "example_handle = (blank_handle ''a.out'' regs_x86_64 properties_x86_64)
     \<lparr>unwind_locs := [\<lparr>ul_reg = 6, ul_offset = 0\<rparr>, \<lparr>ul_reg = 16, ul_offset = 8\<rparr>]\<rparr>"

definition example_act :: activation where
  "example_act = \<lparr>site = ZERO_CALL_SITE\<lparr>cs_num_unwind := 2\<rparr>, cfa = 0x7010, regs = Some 0,
     callee_saved = \<lparr>bsize = 67, bits = Some 0\<rparr>\<rparr>"

definition example_ctx :: rewrite_context where
  "example_ctx = (zero_context example_handle)
     \<lparr>stack_base := 0x8000, stack := 0x7000, acts := example_act # replicate 511 zero_activation\<rparr>"

lemma example_simps [simp]:
  "h_regops example_handle = regs_x86_64" "h_props example_handle = properties_x86_64"
  "unwind_locs example_handle = [\<lparr>ul_reg = 6, ul_offset = 0\<rparr>, \<lparr>ul_reg = 16, ul_offset = 8\<rparr>]"
  "site example_act = ZERO_CALL_SITE\<lparr>cs_num_unwind := 2\<rparr>" "cfa example_act = 0x7010"
  "regs example_act = Some 0" "callee_saved example_act = \<lparr>bsize = 67, bits = Some 0\<rparr>"
  "handle example_ctx = example_handle" "act example_ctx = 0" "acts example_ctx ! 0 = example_act"
  "length (acts example_ctx) = 512" "regset_pool example_ctx = (\<lambda>_. 0)"
  "callee_saved_pool example_ctx = (\<lambda>_. 0)" "stack_base example_ctx = 0x8000"
  "stack example_ctx = 0x7000"
  "unwind_slice example_handle (ZERO_CALL_SITE\<lparr>cs_num_unwind := 2\<rparr>) = unwind_locs example_handle"
  by (simp_all add: example_handle_def example_act_def example_ctx_def zero_context_def blank_handle_def
      unwind_slice_def ZERO_CALL_SITE_def EMPTY_CALL_SITE_def)

lemma example_ready: "ready EM_X86_64 example_ctx"
  by (simp add: ready_def get_regops_def get_properties_def)

lemma example_valid_unwind: "valid_unwind example_handle (ZERO_CALL_SITE\<lparr>cs_num_unwind := 2\<rparr>)"
  by (simp add: valid_unwind_def)
    (simp add: ZERO_CALL_SITE_def EMPTY_CALL_SITE_def is_callee_saved_x86_64_iff
      properties_x86_64_def callee_saved_numbers_x86_64)

lemma replicate_8: "replicate 8 c = [c, c, c, c, c, c, c, c]"
  by (simp add: numeral_eq_Suc)

lemma load64_const_7: "load64 (\<lambda>_. 7) (x :: u64) = 0x0707070707070707"
proof -
  have "load (\<lambda>_. 7) x 8 = replicate 8 (7::u8)" by (simp add: load_def map_replicate_const)
  then show ?thesis by (simp add: load64_def replicate_8)
qed

lemma load64_const_0 [simp]: "load64 (\<lambda>_. 0) (x :: 'i::semiring_1_cancel) = 0"
proof -
  have "load (\<lambda>_. 0) x 8 = replicate 8 (0::u8)" by (simp add: load_def map_replicate_const)
  then show ?thesis by (simp add: load64_def replicate_8)
qed

theorem pop_frame_restores_witness:
  "\<exists>ctx'. pop_frame (\<lambda>_. 7) example_ctx False = Inr ctx' \<and> act ctx' = 1 \<and>
     sp_x86_64 (regset_pool ctx') 624 = 0x7010 \<and> pc_x86_64 (regset_pool ctx') 624 = 0x0707070707070707 \<and>
     reg_val ctx' 1 6 = Inr 0x0707070707070707 \<and> reg_val ctx' 1 3 = reg_val example_ctx 0 3"
  using pop_frame_restores [OF example_ready refl _ refl refl, where m = "\<lambda>_. 7"] example_valid_unwind
  by (auto simp: sp_number_def ra_number_def load64_const_7)

end
