(* ===== verification/Frame_Data.thy ===== *)
theory Frame_Data
  imports Unwind
begin

text \<open>
  Access to frame-specific data (\<open>lib/stack_transformation/src/data.c\<close>): locations of live values,
  copying a value from the source to the destination frame, architecture-specific values, pointers
  to the stack, the return address and the saved frame pointer. A \<open>void*\<close> of the code that may
  address the process memory, a register set or a constant inside the metadata is a \<open>ptr\<close>.
\<close>

section \<open>Locations\<close>

datatype ptr = Mem u64 | RegAt nat | ConstAt "u8 list"

abbreviation (input) NULL :: ptr where "NULL \<equiv> Mem 0"

text \<open>Reading and writing \<open>n\<close> bytes through a location, as \<open>memcpy\<close> does.\<close>

definition read_ptr :: "memory \<Rightarrow> rewrite_context \<Rightarrow> ptr \<Rightarrow> nat \<Rightarrow> u8 list result" where
  "read_ptr m ctx p n =
     (case p of Mem a \<Rightarrow> Inr (load m a n)
      | RegAt o' \<Rightarrow> Inr (load (regset_pool ctx) o' n)
      | ConstAt bs \<Rightarrow> if n \<le> length bs then Inr (take n bs) else Inl Undef)"

definition write_ptr :: "memory \<Rightarrow> rewrite_context \<Rightarrow> ptr \<Rightarrow> u8 list \<Rightarrow> (memory \<times> rewrite_context) result" where
  "write_ptr m ctx p bs =
     (case p of Mem a \<Rightarrow> Inr (store m a bs, ctx)
      | RegAt o' \<Rightarrow> Inr (m, ctx\<lparr>regset_pool := store (regset_pool ctx) o' bs\<rparr>)
      | ConstAt _ \<Rightarrow> Inl Undef)"

text \<open>The location of a register of activation \<open>k\<close> and the 64-bit value in it.\<close>

definition reg_loc :: "rewrite_context \<Rightarrow> nat \<Rightarrow> u16 \<Rightarrow> nat result" where
  "reg_loc ctx k r =
     bindE (arr (acts ctx) k) (\<lambda>a. bindE (deref (regs a)) (\<lambda>b. bindE (reg_op (REGOPS ctx) r) (\<lambda>off.
       Inr (b + off))))"

definition get_val_loc :: "rewrite_context \<Rightarrow> 4 word \<Rightarrow> u16 \<Rightarrow> u32 \<Rightarrow> nat \<Rightarrow> ptr result" where
  "get_val_loc ctx type reg offset k =
     (if type = SM_REGISTER then bindE (reg_loc ctx k reg) (\<lambda>o'. Inr (RegAt o'))
      else if type = SM_DIRECT \<or> type = SM_INDIRECT then
        bindE (reg_loc ctx k reg) (\<lambda>o'.
          Inr (Mem (load64 (regset_pool ctx) o' + scast offset)))
      else Inl (Exit 1))"

text \<open>
  A constant is read from the metadata record itself: the four bytes of \<open>offset_or_constant\<close> and,
  behind them, the four bytes of \<open>alloca_size\<close>, the last member of the record.
\<close>

definition get_src_loc :: "rewrite_context \<Rightarrow> live_value \<Rightarrow> nat \<Rightarrow> ptr result" where
  "get_src_loc ctx val k =
     (if lv_type val = SM_REGISTER \<or> lv_type val = SM_DIRECT \<or> lv_type val = SM_INDIRECT then
        get_val_loc ctx (lv_type val) (regnum val) (offset_or_constant val) k
      else if lv_type val = SM_CONSTANT then
        Inr (ConstAt (bytes_of 4 (offset_or_constant val) @ bytes_of 4 (alloca_size val)))
      else Inl (Exit 1))"

definition get_dest_loc :: "rewrite_context \<Rightarrow> live_value \<Rightarrow> nat \<Rightarrow> ptr result" where
  "get_dest_loc ctx val k = get_val_loc ctx (lv_type val) (regnum val) (offset_or_constant val) k"

text \<open>
  Where a callee-saved register of activation \<open>k\<close> lives: in the save slot of the nearest called
  activation that saved it, or still in the register set of the outermost one.
\<close>

fun callee_saved_walk :: "rewrite_context \<Rightarrow> u16 \<Rightarrow> nat \<Rightarrow> ptr result" where
  "callee_saved_walk ctx reg 0 = bindE (reg_loc ctx 0 reg) (\<lambda>o'. Inr (RegAt o'))"
| "callee_saved_walk ctx reg (Suc k) =
     bindE (arr (acts ctx) k) (\<lambda>a.
     bindE (bitmap_is_set (callee_saved_pool ctx) (callee_saved a) (unat reg)) (\<lambda>is_set.
       if is_set then bindE (get_register_save_loc ctx a reg) (\<lambda>saved_addr. Inr (Mem saved_addr))
       else callee_saved_walk ctx reg k))"

definition callee_saved_loc :: "rewrite_context \<Rightarrow> u16 \<Rightarrow> nat \<Rightarrow> ptr result" where
  "callee_saved_loc ctx reg k = (if k \<le> 0 then Inr NULL else callee_saved_walk ctx reg k)"

section \<open>Copying live values\<close>

definition put_val :: "memory \<Rightarrow> rewrite_context \<Rightarrow> live_value \<Rightarrow> rewrite_context \<Rightarrow> live_value \<Rightarrow>
    (memory \<times> rewrite_context) result" where
  "put_val m src src_val dest dest_val =
     (if lv_type dest_val = SM_CONSTANT \<or> lv_type dest_val = SM_CONST_IDX then Inr (m, dest)
      else
        bindE (get_src_loc src src_val (act src)) (\<lambda>src_addr.
        bindE (get_dest_loc dest dest_val (act src)) (\<lambda>dest_addr.
        bindE (if lv_type dest_val = SM_REGISTER \<and> is_callee_saved_op (PROPS dest) (regnum dest_val)
               then callee_saved_loc dest (regnum dest_val) (act dest) else Inr NULL) (\<lambda>callee_addr.
        bindE (read_ptr m src src_addr (VAL_SIZE dest_val)) (\<lambda>bs.
        bindE (write_ptr m dest dest_addr bs) (\<lambda>(m, dest).
          if callee_addr \<noteq> NULL then
            bindE (read_ptr m src src_addr (VAL_SIZE dest_val)) (\<lambda>bs. write_ptr m dest callee_addr bs)
          else Inr (m, dest)))))))"

definition put_val_data :: "memory \<Rightarrow> rewrite_context \<Rightarrow> live_value \<Rightarrow> nat \<Rightarrow> u64 \<Rightarrow>
    (memory \<times> rewrite_context) result" where
  "put_val_data m ctx val k data =
     (if lv_type val = SM_CONSTANT \<or> lv_type val = SM_CONST_IDX then Inr (m, ctx)
      else
        bindE (get_dest_loc ctx val k) (\<lambda>dest_addr.
        bindE (if lv_type val = SM_REGISTER \<and> is_callee_saved_op (PROPS ctx) (regnum val)
               then callee_saved_loc ctx (regnum val) k else Inr NULL) (\<lambda>callee_addr.
        bindE (write_ptr m ctx dest_addr (bytes_of 8 data)) (\<lambda>(m, ctx).
          if callee_addr \<noteq> NULL then write_ptr m ctx callee_addr (bytes_of 8 data)
          else Inr (m, ctx)))))"

section \<open>Architecture-specific values\<close>

text \<open>
  The generating instructions on unsigned 64-bit integers. Dividing by zero and shifting by 64 or
  more (a negative shift count among them) are undefined. The register and the constant operand
  go through the same operations: a signed operand is converted to unsigned, and the left operand
  of the arithmetic shift is unsigned too.
\<close>

definition gen_value :: "4 word \<Rightarrow> u64 \<Rightarrow> u64 \<Rightarrow> u64 result" where
  "gen_value inst orig v =
     (if inst = ISet then Inr v
      else if inst = IAdd then Inr (orig + v)
      else if inst = ISubtract then Inr (orig - v)
      else if inst = IMultiply then Inr (orig * v)
      else if inst = IDivide then bindE (require (v \<noteq> 0) Undef) (\<lambda>_. Inr (orig div v))
      else if inst = ILeftShift then
        bindE (require (v < 64) Undef) (\<lambda>_. Inr (push_bit (unat v) orig))
      else if inst = IRightShiftLog then
        bindE (require (v < 64) Undef) (\<lambda>_. Inr (drop_bit (unat v) orig))
      else if inst = IRightShiftArith then
        bindE (require (v < 64) Undef) (\<lambda>_. Inr (drop_bit (unat v) orig))
      else if inst = IMask then Inr (and orig v)
      else Inl (Exit 1))"

definition read64 :: "memory \<Rightarrow> rewrite_context \<Rightarrow> ptr \<Rightarrow> u64 result" where
  "read64 m ctx p = bindE (read_ptr m ctx p 8) (\<lambda>bs. Inr (word_of bs))"

text \<open>The bytes a non-generating record copies to its destination.\<close>

definition copy_operand :: "memory \<Rightarrow> rewrite_context \<Rightarrow> arch_live_value \<Rightarrow> u8 list result" where
  "copy_operand m ctx val =
     (let n = unat (operand_size val);
          slot = \<lambda>o'. load64 (regset_pool ctx) o' + operand_offset_or_constant val
      in if operand_type val = SM_REGISTER then
           bindE (reg_loc ctx (act ctx) (operand_regnum val)) (\<lambda>o'. Inr (load (regset_pool ctx) o' n))
         else if operand_type val = SM_DIRECT then
           bindE (reg_loc ctx (act ctx) (operand_regnum val)) (\<lambda>o'. Inr (load m (slot o') n))
         else if operand_type val = SM_INDIRECT then
           bindE (reg_loc ctx (act ctx) (operand_regnum val)) (\<lambda>o'.
           bindE (require (n \<le> 8) Undef) (\<lambda>_. Inr (take n (bytes_of 8 (slot o')))))
         else if operand_type val = SM_CONSTANT then
           if inst_type val = ILoad64 then Inr (load m (operand_offset_or_constant val) 8)
           else bindE (require (n \<le> 8) Undef) (\<lambda>_.
                  Inr (take n (bytes_of 8 (operand_offset_or_constant val))))
         else Inl (Exit 1))"

definition apply_arch_operation :: "memory \<Rightarrow> rewrite_context \<Rightarrow> ptr \<Rightarrow> ptr \<Rightarrow> arch_live_value \<Rightarrow>
    (memory \<times> rewrite_context) result" where
  "apply_arch_operation m ctx dest callee_dest val =
     bindE (if is_gen val then
              bindE (read64 m ctx dest) (\<lambda>orig.
              bindE (if operand_type val = SM_REGISTER then
                       bindE (reg_loc ctx (act ctx) (operand_regnum val)) (\<lambda>o'.
                         Inr (load64 (regset_pool ctx) o'))
                     else if operand_type val = SM_CONSTANT then Inr (operand_offset_or_constant val)
                     else Inl (Exit 1)) (\<lambda>v.
              bindE (gen_value (inst_type val) orig v) (\<lambda>w. write_ptr m ctx dest (bytes_of 8 w))))
            else bindE (copy_operand m ctx val) (\<lambda>bs. write_ptr m ctx dest bs)) (\<lambda>(m, ctx).
       if callee_dest \<noteq> NULL then
         bindE (read_ptr m ctx dest (unat (operand_size val))) (\<lambda>bs. write_ptr m ctx callee_dest bs)
       else Inr (m, ctx))"

definition put_val_arch :: "memory \<Rightarrow> rewrite_context \<Rightarrow> arch_live_value \<Rightarrow> (memory \<times> rewrite_context) result" where
  "put_val_arch m ctx val =
     bindE (get_val_loc ctx (av_type val) (av_regnum val) (av_offset val) (act ctx)) (\<lambda>dest_addr.
     bindE (if av_type val = SM_REGISTER \<and> is_callee_saved_op (PROPS ctx) (av_regnum val)
            then callee_saved_loc ctx (av_regnum val) (act ctx) else Inr NULL) (\<lambda>callee_addr.
       apply_arch_operation m ctx dest_addr callee_addr val))"

section \<open>Pointers to the stack\<close>

text \<open>The address a value points to if that is on the stack, else \<open>NULL\<close>.\<close>

definition points_to_stack :: "memory \<Rightarrow> rewrite_context \<Rightarrow> live_value \<Rightarrow> u64 result" where
  "points_to_stack m ctx val =
     (if is_ptr val \<or> is_temporary val then
        bindE (if lv_type val = SM_REGISTER then
                 bindE (reg_loc ctx (act ctx) (regnum val)) (\<lambda>o'. Inr (load64 (regset_pool ctx) o'))
               else if lv_type val = SM_DIRECT then
                 bindE (reg_loc ctx (act ctx) (regnum val)) (\<lambda>o'.
                   let stack_addr = load64 (regset_pool ctx) o' + scast (offset_or_constant val)
                   in Inr (if \<not> is_temporary val then load64 m stack_addr else stack_addr))
               else if lv_type val = SM_INDIRECT then
                 bindE (reg_loc ctx (act ctx) (regnum val)) (\<lambda>o'.
                   Inr (load64 m (load64 (regset_pool ctx) o' + scast (offset_or_constant val))))
               else Inl (Exit 1)) (\<lambda>stack_addr.
          Inr (if stack_addr < stack ctx \<or> stack_base ctx \<le> stack_addr then 0 else stack_addr))
      else Inr 0)"

text \<open>
  The destination address of the data \<open>src_ptr\<close> points to, if that data is \<open>src_val\<close>, else
  \<open>NULL\<close>. Only stack-allocated data is ever asked for, so a register location (which the code
  would compare as an address of the register pool) is a fault.
\<close>

definition ptr_addr :: "ptr \<Rightarrow> u64 result" where
  "ptr_addr p = (case p of Mem a \<Rightarrow> Inr a | RegAt _ \<Rightarrow> Inl Undef | ConstAt _ \<Rightarrow> Inl Undef)"

definition points_to_data :: "rewrite_context \<Rightarrow> live_value \<Rightarrow> rewrite_context \<Rightarrow> live_value \<Rightarrow> u64 \<Rightarrow>
    u64 result" where
  "points_to_data src src_val dest dest_val src_ptr =
     bindE (get_val_loc src (lv_type src_val) (regnum src_val) (offset_or_constant src_val) (act src)) (\<lambda>p.
     bindE (ptr_addr p) (\<lambda>src_addr.
       if src_addr \<le> src_ptr \<and> src_ptr < src_addr + ucast (alloca_size src_val) then
         bindE (get_val_loc dest (lv_type dest_val) (regnum dest_val) (offset_or_constant dest_val)
                  (act dest)) (\<lambda>q.
         bindE (ptr_addr q) (\<lambda>dest_addr. Inr (dest_addr + (src_ptr - src_addr))))
       else Inr 0))"

section \<open>Return address and saved frame pointer\<close>

definition set_return_address :: "memory \<Rightarrow> rewrite_context \<Rightarrow> u64 \<Rightarrow> memory result" where
  "set_return_address m ctx retaddr =
     bindE (ACT ctx) (\<lambda>a. Inr (store64 m (cfa a + of_int (ra_offset (PROPS ctx))) retaddr))"

definition set_return_address_funcentry :: "memory \<Rightarrow> rewrite_context \<Rightarrow> u64 \<Rightarrow>
    (memory \<times> rewrite_context) result" where
  "set_return_address_funcentry m ctx retaddr =
     bindE (ACT ctx) (\<lambda>a.
       if has_ra_reg (REGOPS ctx) then
         bindE (deref (regs a)) (\<lambda>b.
         bindE (set_ra_reg_op (REGOPS ctx) (regset_pool ctx) b retaddr) (\<lambda>p.
           Inr (m, ctx\<lparr>regset_pool := p\<rparr>)))
       else Inr (store64 m (cfa a + of_int (ra_offset (PROPS ctx))) retaddr, ctx))"

text \<open>
  The downward search for the frame pointer's record, on \<open>uint32_t\<close> indices as in the code: when
  the slice starts at index 0 and has no such record, the index wraps around. The fuel is one more
  than the indices that can be visited before the wrapped one.
\<close>

fun savedfbp_index :: "nat \<Rightarrow> unwind_loc list \<Rightarrow> u16 \<Rightarrow> u32 \<Rightarrow> u32 \<Rightarrow> u32 result" where
  "savedfbp_index 0 locs fbp unwind_start index = Inl Diverge"
| "savedfbp_index (Suc fuel) locs fbp unwind_start index =
     (if unwind_start \<le> index then
        bindE (arr locs (unat index)) (\<lambda>loc.
          if ul_reg loc = fbp then Inr index
          else savedfbp_index fuel locs fbp unwind_start (index - 1))
      else Inr index)"

definition get_savedfbp_loc :: "rewrite_context \<Rightarrow> u64 result" where
  "get_savedfbp_loc ctx =
     bindE (ACT ctx) (\<lambda>a.
       let locs = unwind_locs (handle ctx);
           unwind_start = ucast (cs_unwind_offset (site a)) :: u32;
           unwind_end = unwind_start + ucast (cs_num_unwind (site a)) in
     bindE (savedfbp_index (unat (unwind_end - 1) + 2) locs (fbp_regnum (REGOPS ctx))
              unwind_start (unwind_end - 1)) (\<lambda>index.
     bindE (deref (regs a)) (\<lambda>b.
     bindE (arr locs (unat index)) (\<lambda>loc.
       Inr (fbp_op (REGOPS ctx) (regset_pool ctx) b + scast (ul_offset loc))))))"

section \<open>Reading after writing\<close>

lemma apart_sym: "apart a n b k \<longleftrightarrow> apart b k a n"
  unfolding apart_def by metis

text \<open>Two locations of one context that share no byte.\<close>

fun ptr_apart :: "ptr \<Rightarrow> nat \<Rightarrow> ptr \<Rightarrow> nat \<Rightarrow> bool" where
  "ptr_apart (Mem a) n (Mem b) k \<longleftrightarrow> apart a n b k"
| "ptr_apart (RegAt a) n (RegAt b) k \<longleftrightarrow> a + n \<le> b \<or> b + k \<le> a"
| "ptr_apart _ n _ k \<longleftrightarrow> True"

text \<open>A source location and a destination location share at most process memory.\<close>

fun mem_apart :: "ptr \<Rightarrow> nat \<Rightarrow> ptr \<Rightarrow> nat \<Rightarrow> bool" where
  "mem_apart (Mem a) n (Mem b) k \<longleftrightarrow> apart a n b k"
| "mem_apart _ n _ k \<longleftrightarrow> True"

lemma length_read_ptr: "read_ptr m ctx p n = Inr bs \<Longrightarrow> length bs = n"
  by (cases p) (auto simp: read_ptr_def split: if_splits)

lemma read_write_same:
  "write_ptr m ctx p bs = Inr (m', ctx') \<Longrightarrow> length bs \<le> 2 ^ 64 \<Longrightarrow> read_ptr m' ctx' p (length bs) = Inr bs"
  by (cases p) (auto simp: write_ptr_def read_ptr_def load_store_mem)

lemma read_write_other:
  "write_ptr m ctx p bs = Inr (m', ctx') \<Longrightarrow> ptr_apart q n p (length bs) \<Longrightarrow>
   read_ptr m' ctx' q n = read_ptr m ctx q n"
  by (cases p; cases q) (auto simp: write_ptr_def read_ptr_def load_store_mem_other load_store_pool_other)

lemma read_write_src:
  "write_ptr m dest p bs = Inr (m', dest') \<Longrightarrow> mem_apart q n p (length bs) \<Longrightarrow>
   read_ptr m' src q n = read_ptr m src q n"
  by (cases p; cases q) (auto simp: write_ptr_def read_ptr_def load_store_mem_other)

lemma write_ptr_ctx:
  "write_ptr m ctx p bs = Inr (m', ctx') \<Longrightarrow> \<exists>pool. ctx' = ctx\<lparr>regset_pool := pool\<rparr>"
  by (cases p) (auto simp: write_ptr_def intro: exI [of _ "regset_pool ctx"])

text \<open>
  C4: Copying a live value moves its bytes. When the copy returns, the destination location and,
  for a callee-saved register, the place that keeps it for the caller hold exactly the bytes of the
  source location, and every location apart from those two is unchanged.
\<close>

theorem put_val_copies:
  assumes put: "put_val m src sv dest dv = Inr (m', dest')"
    and type: "lv_type dv \<noteq> SM_CONSTANT" "lv_type dv \<noteq> SM_CONST_IDX"
    and locs: "get_src_loc src sv (act src) = Inr p" "get_dest_loc dest dv (act src) = Inr q"
    and callee: "(if lv_type dv = SM_REGISTER \<and> is_callee_saved_op (PROPS dest) (regnum dv)
                  then callee_saved_loc dest (regnum dv) (act dest) else Inr NULL) = Inr c"
    and sep: "mem_apart p (VAL_SIZE dv) q (VAL_SIZE dv)"
      "c \<noteq> NULL \<longrightarrow> ptr_apart q (VAL_SIZE dv) c (VAL_SIZE dv)"
  shows "\<exists>bs. read_ptr m src p (VAL_SIZE dv) = Inr bs \<and>
              read_ptr m' dest' q (VAL_SIZE dv) = Inr bs \<and>
              (c \<noteq> NULL \<longrightarrow> read_ptr m' dest' c (VAL_SIZE dv) = Inr bs) \<and>
              (\<forall>r n. ptr_apart r n q (VAL_SIZE dv) \<longrightarrow> (c = NULL \<or> ptr_apart r n c (VAL_SIZE dv)) \<longrightarrow>
                 read_ptr m' dest' r n = read_ptr m dest r n)"
proof -
  let ?n = "VAL_SIZE dv"
  have small: "?n \<le> 2 ^ 64"
    using unsigned_less [of "alloca_size dv", where ?'a = nat]
      unsigned_less [of "lv_size dv", where ?'a = nat] by (simp add: VAL_SIZE_def)
  obtain bs m1 d1 where bs: "read_ptr m src p ?n = Inr bs"
    and w1: "write_ptr m dest q bs = Inr (m1, d1)"
    and rest: "(if c \<noteq> NULL then bindE (read_ptr m1 src p ?n) (\<lambda>bs. write_ptr m1 d1 c bs)
                else Inr (m1, d1)) = Inr (m', dest')"
    using put type locs callee by (auto simp: put_val_def split: prod.splits elim!: bindE_InrE)
  have len: "length bs = ?n" using length_read_ptr [OF bs] .
  have q1: "read_ptr m1 d1 q ?n = Inr bs" using read_write_same [OF w1] len small by simp
  have f1: "read_ptr m1 d1 r n = read_ptr m dest r n" if "ptr_apart r n q ?n" for r n
    using read_write_other [OF w1] that len by simp
  show ?thesis
  proof (cases "c = NULL")
    case True
    then show ?thesis using bs q1 f1 rest by auto
  next
    case False
    have "read_ptr m1 src p ?n = Inr bs" using read_write_src [OF w1] sep(1) bs len by simp
    then have w2: "write_ptr m1 d1 c bs = Inr (m', dest')" using rest False by simp
    have "read_ptr m' dest' c ?n = Inr bs" using read_write_same [OF w2] len small by simp
    moreover have "read_ptr m' dest' r n = read_ptr m1 d1 r n" if "ptr_apart r n c ?n" for r n
      using read_write_other [OF w2] that len by simp
    ultimately show ?thesis using bs q1 f1 sep(2) False by auto
  qed
qed

section \<open>Callee-saved registers in the call chain\<close>

lemma find_save_record_first:
  assumes "s \<le> i" "i < e" "e \<le> length locs" "ul_reg (locs ! i) = reg"
    "\<And>j. s \<le> j \<Longrightarrow> j < i \<Longrightarrow> ul_reg (locs ! j) \<noteq> reg"
  shows "find_save_record locs reg s e = Inr (Some (locs ! i))"
  using assms
proof (induction locs reg s e rule: find_save_record.induct)
  case (1 locs reg s e)
  show ?case
  proof (cases "s = i")
    case True
    then show ?thesis using "1.prems" by (subst find_save_record.simps) simp
  next
    case False
    then have "find_save_record locs reg (Suc s) e = Inr (Some (locs ! i))"
      using "1.prems" by (intro "1.IH" [of "locs ! s"]) auto
    then show ?thesis using False "1.prems" by (subst find_save_record.simps) simp
  qed
qed

text \<open>The index in the section of a record of a frame's slice.\<close>

lemma slice_index:
  assumes "valid_unwind h s" "l \<in> set (unwind_slice h s)"
  obtains i where "unat (ucast (cs_unwind_offset s) :: u32) \<le> i"
    "i < unat (ucast (cs_unwind_offset s) :: u32) + unat (cs_num_unwind s)"
    "unwind_locs h ! i = l"
    "\<And>j. unat (ucast (cs_unwind_offset s) :: u32) \<le> j \<Longrightarrow>
         j < unat (ucast (cs_unwind_offset s) :: u32) + unat (cs_num_unwind s) \<Longrightarrow>
         ul_reg (unwind_locs h ! j) = ul_reg l \<Longrightarrow> j = i"
proof -
  let ?s = "unat (ucast (cs_unwind_offset s) :: u32)" and ?n = "unat (cs_num_unwind s)"
  let ?recs = "unwind_slice h s"
  have bound: "?s + ?n \<le> length (unwind_locs h)" using assms(1) by (simp add: valid_unwind_def)
  then have len: "length ?recs = ?n" by (simp add: unwind_slice_def)
  have nth: "?recs ! j = unwind_locs h ! (?s + j)" if "j < ?n" for j
    using that bound by (simp add: unwind_slice_def)
  obtain j where j: "j < ?n" "?recs ! j = l" using assms(2) len by (auto simp: in_set_conv_nth)
  have "j' = j" if "j' < ?n" "ul_reg (?recs ! j') = ul_reg l" for j'
    using assms(1) that j len by (auto simp: valid_unwind_def distinct_conv_nth)
  then have "i = ?s + j" if "?s \<le> i" "i < ?s + ?n" "ul_reg (unwind_locs h ! i) = ul_reg l" for i
    using that nth [of "i - ?s"] by (metis add_diff_inverse_nat less_diff_conv2 add.commute not_less)
  then show ?thesis using that [of "?s + j"] j nth [OF j(1)] by simp
qed

lemma unwind_end_eq:
  assumes "valid_unwind h s"
  shows "unat (ucast (cs_unwind_offset s) + ucast (cs_num_unwind s) :: u32) =
         unat (ucast (cs_unwind_offset s) :: u32) + unat (cs_num_unwind s)"
  using assms by (intro unat_unwind_end) (simp add: valid_unwind_def)

lemma get_register_save_loc_slice:
  assumes valid: "valid_unwind (handle ctx) (site a)" and l: "l \<in> set (unwind_slice (handle ctx) (site a))"
    and "regs a = Some b"
  shows "get_register_save_loc ctx a (ul_reg l) =
           Inr (fbp_op (REGOPS ctx) (regset_pool ctx) b + scast (ul_offset l))"
proof -
  let ?s = "unat (ucast (cs_unwind_offset (site a)) :: u32)"
  let ?e = "?s + unat (cs_num_unwind (site a))"
  have e: "?e \<le> length (unwind_locs (handle ctx))" using valid by (simp add: valid_unwind_def)
  obtain i where i: "?s \<le> i" "i < ?e" "unwind_locs (handle ctx) ! i = l"
    and uniq: "\<And>j. ?s \<le> j \<Longrightarrow> j < ?e \<Longrightarrow> ul_reg (unwind_locs (handle ctx) ! j) = ul_reg l \<Longrightarrow> j = i"
    using slice_index [OF valid l] by blast
  have "find_save_record (unwind_locs (handle ctx)) (ul_reg l) ?s ?e = Inr (Some l)"
    using find_save_record_first [OF i(1,2) e, of "ul_reg l"] i uniq by fastforce
  then show ?thesis
    using assms(3) unwind_end_eq [OF valid] by (simp add: get_register_save_loc_def Let_def)
qed

lemma callee_saved_walk_found:
  assumes "j < k" "k \<le> length (acts ctx)" "\<forall>i<k. bits (callee_saved (acts ctx ! i)) \<noteq> None"
    and "bitmap_is_set (callee_saved_pool ctx) (callee_saved (acts ctx ! j)) (unat reg) = Inr True"
    and "\<forall>i. j < i \<longrightarrow> i < k \<longrightarrow>
           bitmap_is_set (callee_saved_pool ctx) (callee_saved (acts ctx ! i)) (unat reg) = Inr False"
    and "get_register_save_loc ctx (acts ctx ! j) reg = Inr addr"
  shows "callee_saved_walk ctx reg k = Inr (Mem addr)"
  using assms
proof (induction k)
  case 0
  then show ?case by simp
next
  case (Suc k)
  show ?case
  proof (cases "j = k")
    case True
    then show ?thesis using Suc.prems by simp
  next
    case False
    then have "callee_saved_walk ctx reg k = Inr (Mem addr)" using Suc by simp
    moreover have "bitmap_is_set (callee_saved_pool ctx) (callee_saved (acts ctx ! k)) (unat reg) = Inr False"
      using Suc.prems False by simp
    ultimately show ?thesis using Suc.prems by simp
  qed
qed

lemma callee_saved_walk_live:
  assumes "k \<le> length (acts ctx)"
    and "\<forall>i<k. bitmap_is_set (callee_saved_pool ctx) (callee_saved (acts ctx ! i)) (unat reg) = Inr False"
  shows "callee_saved_walk ctx reg k = bindE (reg_loc ctx 0 reg) (\<lambda>o'. Inr (RegAt o'))"
  using assms by (induction k) simp_all

text \<open>
  C5: A callee-saved register of a caller is found where it really lives. Walking down the call
  chain stops at the nearest called activation that saved the register and yields the stack slot
  its unwinding record names; when no called activation saved it, it yields the register of the
  outermost activation.
\<close>

theorem callee_saved_loc_correct:
  assumes k: "0 < k" "k \<le> length (acts ctx)"
    and bm: "\<forall>i<k. bits (callee_saved (acts ctx ! i)) \<noteq> None"
  shows "(\<forall>j<k. \<forall>l b.
            bitmap_is_set (callee_saved_pool ctx) (callee_saved (acts ctx ! j)) (unat (ul_reg l)) = Inr True \<longrightarrow>
            (\<forall>i. j < i \<longrightarrow> i < k \<longrightarrow>
               bitmap_is_set (callee_saved_pool ctx) (callee_saved (acts ctx ! i)) (unat (ul_reg l)) = Inr False) \<longrightarrow>
            valid_unwind (handle ctx) (site (acts ctx ! j)) \<longrightarrow>
            l \<in> set (unwind_slice (handle ctx) (site (acts ctx ! j))) \<longrightarrow> regs (acts ctx ! j) = Some b \<longrightarrow>
            callee_saved_loc ctx (ul_reg l) k =
              Inr (Mem (fbp_op (REGOPS ctx) (regset_pool ctx) b + scast (ul_offset l)))) \<and>
         (\<forall>reg. (\<forall>i<k. bitmap_is_set (callee_saved_pool ctx) (callee_saved (acts ctx ! i)) (unat reg) = Inr False) \<longrightarrow>
            callee_saved_loc ctx reg k = bindE (reg_loc ctx 0 reg) (\<lambda>o'. Inr (RegAt o')))"
  using callee_saved_walk_found [OF _ k(2) bm] callee_saved_walk_live [OF k(2)]
    get_register_save_loc_slice k(1)
  by (auto simp: callee_saved_loc_def)

section \<open>The saved frame pointer\<close>

lemma savedfbp_index_found:
  assumes "start \<le> index" "unat start \<le> j" "j \<le> unat index" "unat index < length locs"
    and "ul_reg (locs ! j) = fbp" "\<And>i. j < i \<Longrightarrow> i \<le> unat index \<Longrightarrow> ul_reg (locs ! i) \<noteq> fbp"
    and "unat index - j < fuel"
  shows "savedfbp_index fuel locs fbp start index = Inr (of_nat j)"
  using assms
proof (induction fuel locs fbp start index rule: savedfbp_index.induct)
  case (1 locs fbp start index)
  then show ?case by simp
next
  case (2 fuel locs fbp start index)
  show ?case
  proof (cases "unat index = j")
    case True
    then have "index = of_nat j" by auto
    then show ?thesis using 2 True by simp
  next
    case False
    then have lt: "j < unat index" using 2 by simp
    then have pos: "unat (index - 1) = unat index - 1"
      by (subst unat_sub) (auto simp: word_le_nat_alt)
    have "savedfbp_index fuel locs fbp start (index - 1) = Inr (of_nat j)"
      using 2 lt pos by (intro "2.IH" [of "locs ! unat index"]) (auto simp: word_le_nat_alt)
    then show ?thesis using 2 lt by simp
  qed
qed

lemma savedfbp_index_missing:
  assumes "0 < start" "start \<le> index + 1" "unat index < length locs" "index \<noteq> - 1"
    and "\<And>i. unat start \<le> i \<Longrightarrow> i \<le> unat index \<Longrightarrow> ul_reg (locs ! i) \<noteq> fbp"
    and "unat (index + 1) - unat start < fuel"
  shows "savedfbp_index fuel locs fbp start index = Inr (start - 1)"
  using assms
proof (induction fuel locs fbp start index rule: savedfbp_index.induct)
  case (1 locs fbp start index)
  then show ?case by simp
next
  case (2 fuel locs fbp start index)
  have suc: "unat (index + 1) = Suc (unat index)"
    using "2.prems"(4) unatSuc [of index] by (metis add.commute add_eq_0_iff2)
  show ?case
  proof (cases "start \<le> index")
    case False
    then have "index + 1 = start"
      using "2.prems"(2) suc by (simp add: word_le_nat_alt word_unat_eq_iff)
    then show ?thesis using False by auto
  next
    case True
    then have le: "unat start \<le> unat index" by (simp add: word_le_nat_alt)
    from True have "0 < unat index" using "2.prems"(1) by (simp add: word_le_nat_alt word_less_nat_alt)
    then have pos: "unat (index - 1) = unat index - 1"
      by (subst unat_sub) (auto simp: word_le_nat_alt)
    have ne: "ul_reg (locs ! unat index) \<noteq> fbp" using "2.prems"(5) True by (simp add: word_le_nat_alt)
    have "index - 1 \<noteq> - 1" using \<open>0 < unat index\<close> by auto
    then have "savedfbp_index fuel locs fbp start (index - 1) = Inr (start - 1)"
      using "2.prems" True ne pos suc le \<open>0 < unat index\<close>
      by (intro "2.IH" [of "locs ! unat index"]) auto
    then show ?thesis using True ne "2.prems"(3) by simp
  qed
qed

lemma get_savedfbp_loc_eq:
  assumes "act ctx < length (acts ctx)" "a = acts ctx ! act ctx" "regs a = Some b"
    and "w = (ucast (cs_unwind_offset (site a)) :: u32)" "e = w + ucast (cs_num_unwind (site a))"
    and "savedfbp_index (unat (e - 1) + 2) (unwind_locs (handle ctx)) (fbp_regnum (REGOPS ctx)) w (e - 1) = r"
  shows "get_savedfbp_loc ctx =
           bindE r (\<lambda>index. bindE (arr (unwind_locs (handle ctx)) (unat index)) (\<lambda>loc.
             Inr (fbp_op (REGOPS ctx) (regset_pool ctx) b + scast (ul_offset loc))))"
  using assms unfolding get_savedfbp_loc_def ACT_def Let_def
  by (simp del: savedfbp_index.simps add_2_eq_Suc' add_2_eq_Suc)

lemma savedfbp_index_wraps:
  assumes "length locs < 2 ^ 32" "index = - 1 \<or> unat index < length locs"
    and "\<And>i. i \<le> unat index \<Longrightarrow> i < length locs \<Longrightarrow> index \<noteq> - 1 \<Longrightarrow> ul_reg (locs ! i) \<noteq> fbp"
    and "unat (index + 1) < fuel"
  shows "savedfbp_index fuel locs fbp 0 index = Inl Undef"
  using assms
proof (induction fuel arbitrary: index)
  case 0
  then show ?case by simp
next
  case (Suc fuel)
  show ?case
  proof (cases "index = - 1")
    case True
    then have "unat index = 2 ^ 32 - 1" by (simp add: unsigned_minus_1_eq_mask mask_eq_exp_minus_1)
    then show ?thesis using Suc.prems(1) by simp
  next
    case False
    then have suc: "unat (index + 1) = Suc (unat index)"
      using unatSuc [of index] by (metis add.commute add_eq_0_iff2)
    have pos: "unat (index - 1) = unat index - 1" if "index \<noteq> 0"
      using that by (subst unat_sub) (auto simp: word_le_nat_alt unat_gt_0 Suc_le_eq)
    have "savedfbp_index fuel locs fbp 0 (index - 1) = Inl Undef"
    proof (rule Suc.IH)
      show "index - 1 = - 1 \<or> unat (index - 1) < length locs"
        using Suc.prems(2) False pos by (cases "index = 0") auto
      show "ul_reg (locs ! i) \<noteq> fbp" if "i \<le> unat (index - 1)" "i < length locs" "index - 1 \<noteq> - 1" for i
        using Suc.prems(3) that pos False by (cases "index = 0") auto
      show "unat (index - 1 + 1) < fuel" using Suc.prems(4) suc by simp
    qed (rule Suc.prems)
    then show ?thesis using Suc.prems(2,3) False by simp
  qed
qed

text \<open>
  The saved frame pointer of a frame is found through the frame's own record: when the
  unwinding records of the current function contain one for the frame base pointer, its slot is
  the frame base pointer plus that record's offset, however many records there are.
\<close>

theorem get_savedfbp_loc_correct:
  assumes "act ctx < length (acts ctx)" "a = acts ctx ! act ctx" "regs a = Some b"
    and valid: "valid_unwind (handle ctx) (site a)"
    and l: "l \<in> set (unwind_slice (handle ctx) (site a))" "ul_reg l = fbp_regnum (REGOPS ctx)"
  shows "get_savedfbp_loc ctx =
           Inr (fbp_op (REGOPS ctx) (regset_pool ctx) b + scast (ul_offset l))"
proof -
  define w where "w = (ucast (cs_unwind_offset (site a)) :: u32)"
  define e where "e = w + ucast (cs_num_unwind (site a))"
  let ?locs = "unwind_locs (handle ctx)"
  have e: "unat e = unat w + unat (cs_num_unwind (site a))"
    using unwind_end_eq [OF valid] by (simp add: e_def w_def)
  have len: "unat e \<le> length ?locs" "length ?locs < 2 ^ 32"
    using valid e by (simp_all add: valid_unwind_def w_def)
  obtain i where i: "unat w \<le> i" "i < unat e" "?locs ! i = l"
    and uniq: "\<And>j. unat w \<le> j \<Longrightarrow> j < unat e \<Longrightarrow> ul_reg (?locs ! j) = ul_reg l \<Longrightarrow> j = i"
    using slice_index [OF valid l(1)] e unfolding w_def by metis
  have last: "unat (e - 1) = unat e - 1"
    using i by (subst unat_sub) (auto simp: word_le_nat_alt)
  have "savedfbp_index (unat (e - 1) + 2) ?locs (fbp_regnum (REGOPS ctx)) w (e - 1) = Inr (of_nat i)"
  proof (rule savedfbp_index_found)
    show "w \<le> e - 1" using i last by (simp add: word_le_nat_alt)
    show "ul_reg (?locs ! k) \<noteq> fbp_regnum (REGOPS ctx)" if "i < k" "k \<le> unat (e - 1)" for k
    proof -
      have "k < unat e" "unat w \<le> k" using that i last by linarith+
      then show ?thesis using uniq [of k] that l(2) by auto
    qed
  qed (use i last len l in auto)
  moreover have "unat (of_nat i :: u32) = i" using i len by (simp add: unat_of_nat)
  ultimately show ?thesis
    using get_savedfbp_loc_eq [OF assms(1-3) w_def e_def] i len by simp
qed

text \<open>
  When the records of the current function contain none for the frame base pointer, the search
  does not stop inside them: if the slice does not begin the section, the function uses the record
  before the slice, which belongs to another function, and if it begins the section, the unsigned
  index wraps around and the next access is out of bounds.
\<close>

theorem get_savedfbp_loc_missing:
  assumes "act ctx < length (acts ctx)" "a = acts ctx ! act ctx" "regs a = Some b"
    and valid: "valid_unwind (handle ctx) (site a)"
    and none: "fbp_regnum (REGOPS ctx) \<notin> ul_reg ` set (unwind_slice (handle ctx) (site a))"
    and w: "w = (ucast (cs_unwind_offset (site a)) :: u32)"
  shows "get_savedfbp_loc ctx =
           (if 0 < w
            then Inr (fbp_op (REGOPS ctx) (regset_pool ctx) b +
                      scast (ul_offset (unwind_locs (handle ctx) ! (unat w - 1))))
            else Inl Undef)"
proof -
  define e where "e = w + ucast (cs_num_unwind (site a))"
  let ?locs = "unwind_locs (handle ctx)" and ?fbp = "fbp_regnum (REGOPS ctx)"
  have e: "unat e = unat w + unat (cs_num_unwind (site a))"
    using unwind_end_eq [OF valid] by (simp add: e_def w)
  have len: "unat e \<le> length ?locs" "length ?locs < 2 ^ 32"
    using valid e by (simp_all add: valid_unwind_def w)
  have none': "ul_reg (?locs ! k) \<noteq> ?fbp" if "unat w \<le> k" "k < unat e" for k
  proof -
    have k: "k - unat w < unat (cs_num_unwind (site a))" using that e by linarith
    have "length (unwind_slice (handle ctx) (site a)) = unat (cs_num_unwind (site a))"
      using len e by (simp add: unwind_slice_def w [symmetric])
    moreover have "unwind_slice (handle ctx) (site a) ! (k - unat w) = ?locs ! k"
      using k that len e by (simp add: unwind_slice_def w [symmetric])
    ultimately have "?locs ! k \<in> set (unwind_slice (handle ctx) (site a))" using k by (metis nth_mem)
    then show ?thesis using none by (metis imageI)
  qed
  have last: "unat (e - 1) = unat e - 1" if "e \<noteq> 0"
    using that by (subst unat_sub) (auto simp: word_le_nat_alt unat_gt_0 Suc_le_eq)
  show ?thesis
  proof (cases "0 < w")
    case True
    then have wpos: "0 < unat w" by (simp add: word_less_nat_alt)
    then have "e \<noteq> 0" using e by auto
    note last' = last [OF this]
    have "savedfbp_index (unat (e - 1) + 2) ?locs ?fbp w (e - 1) = Inr (w - 1)"
      using True e wpos last' len none' by (intro savedfbp_index_missing) (auto simp: word_le_nat_alt)
    moreover have "unat (w - 1) = unat w - 1"
      using wpos by (subst unat_sub) (auto simp: word_le_nat_alt)
    ultimately show ?thesis
      using get_savedfbp_loc_eq [OF assms(1-3) w e_def] len e wpos True by simp
  next
    case False
    then have w0: "w = 0" by (auto simp: word_gt_0)
    have "savedfbp_index (unat (e - 1) + 2) ?locs ?fbp 0 (e - 1) = Inl Undef"
    proof (rule savedfbp_index_wraps)
      show "length ?locs < 2 ^ 32" by (rule len(2))
      show "e - 1 = - 1 \<or> unat (e - 1) < length ?locs"
      proof (cases "e = 0")
        case False
        then have "0 < unat e" by (simp add: unat_gt_0)
        then show ?thesis using last [OF False] len(1) by linarith
      qed simp
      show "ul_reg (?locs ! i) \<noteq> ?fbp" if "i \<le> unat (e - 1)" "e - 1 \<noteq> - 1" for i
      proof -
        have "e \<noteq> 0" using that by auto
        then have "0 < unat e" "unat (e - 1) = unat e - 1" using last by (auto simp: unat_gt_0)
        then have "i < unat e" using that by linarith
        then show ?thesis using none' [of i] w0 by simp
      qed
      show "unat (e - 1 + 1) < unat (e - 1) + 2"
        using last by (cases "e = 0") auto
    qed
    then show ?thesis using get_savedfbp_loc_eq [OF assms(1-3) w e_def] w0 by simp
  qed
qed

section \<open>Pointers into the stack\<close>

text \<open>
  A pointer is treated as a pointer to the stack only when it points into the bounds of the
  source stack, and only a value marked as a pointer or a temporary is.
\<close>

theorem points_to_stack_bounds:
  assumes "points_to_stack m ctx val = Inr addr" "addr \<noteq> 0"
  shows "stack ctx \<le> addr \<and> addr < stack_base ctx \<and> (is_ptr val \<or> is_temporary val)"
  using assms
  by (auto simp: points_to_stack_def not_less not_le split: if_splits elim!: bindE_InrE)

text \<open>
  A pointer to stack data is reified at the same offset in the destination's copy of that data:
  if the source allocation at \<open>s\<close> contains the pointed-to address, the result lies in the
  destination allocation at \<open>d\<close>, as far from its start as the pointer is from the start of the
  source allocation; any other pointer yields no address.
\<close>

theorem points_to_data_offset:
  assumes locs: "get_val_loc src (lv_type sv) (regnum sv) (offset_or_constant sv) (act src) = Inr (Mem s)"
      "get_val_loc dest (lv_type dv) (regnum dv) (offset_or_constant dv) (act dest) = Inr (Mem d)"
    and room: "unat s + unat (alloca_size sv) < 2 ^ 64" "unat d + unat (alloca_size sv) < 2 ^ 64"
  shows "(unat s \<le> unat p \<and> unat p < unat s + unat (alloca_size sv) \<longrightarrow>
            (\<exists>r. points_to_data src sv dest dv p = Inr r \<and> unat r = unat d + (unat p - unat s))) \<and>
         (\<not> (unat s \<le> unat p \<and> unat p < unat s + unat (alloca_size sv)) \<longrightarrow>
            points_to_data src sv dest dv p = Inr 0)"
proof -
  have a: "unat (ucast (alloca_size sv) :: u64) = unat (alloca_size sv)" by (simp add: unat_ucast_up)
  have e: "unat (s + ucast (alloca_size sv)) = unat s + unat (alloca_size sv)"
    using room(1) by (simp add: unat_word_ariths a)
  have "unat (d + (p - s)) = unat d + (unat p - unat s)"
    if "unat s \<le> unat p" "unat p < unat s + unat (alloca_size sv)"
  proof -
    have "unat (p - s) = unat p - unat s" using that by (simp add: unat_sub word_le_nat_alt)
    then show ?thesis using that room(2) by (simp add: unat_word_ariths)
  qed
  then show ?thesis
    using locs e by (simp add: points_to_data_def ptr_addr_def word_le_nat_alt word_less_nat_alt)
qed

section \<open>Generated values\<close>

text \<open>
  The arithmetic right shift of an architecture-specific value is a logical one. Both shift
  instructions give the same result on every operand, so shifting a negative number, -8, by one
  gives a large positive number and not -4.
\<close>

theorem right_shift_arith_is_logical:
  "gen_value IRightShiftArith orig v = gen_value IRightShiftLog orig v \<and>
   gen_value IRightShiftArith (- 8) 1 \<noteq> Inr (- 4) \<and> signed_drop_bit 1 (- 8 :: u64) = - 4"
  by (simp add: gen_value_def)

lemma word_of_constant_bytes:
  "(word_of (bytes_of 4 (c :: u32) @ [0, 0, 0, 0]) :: u64) = ucast c"
proof (rule bit_word_eqI)
  fix n assume "n < LENGTH(64)"
  have z: "[0, 0, 0, 0] ! (n div 8 - 4) = (0 :: u8)" if "n div 8 < 8"
  proof -
    have "n div 8 - 4 \<in> {0, 1, 2, 3}" using that by auto
    then show ?thesis by (elim insertE) auto
  qed
  show "bit (word_of (bytes_of 4 c @ [0, 0, 0, 0]) :: u64) n = bit (ucast c :: u64) n"
  proof (cases "n div 8 < 4")
    case True
    moreover have "8 * (n div 8) + n mod 8 = n" by simp
    ultimately show ?thesis
      by (auto simp: bit_word_of nth_append bytes_of_def bit_ucast_iff bit_drop_bit_eq)
  next
    case False
    then have "\<not> bit c n" by (intro notI) (drule bit_imp_le_length, simp)
    then show ?thesis
      using False z by (auto simp: bit_word_of nth_append bit_ucast_iff)
  qed
qed

text \<open>
  A directly encoded constant is not sign-extended. Copying it into an eight-byte register takes
  the upper half from the member behind it in the metadata record, the \<open>alloca_size\<close>, which is 0 for
  a value that is no allocation: the register receives the zero extension of the 32-bit constant,
  so the constant -1 arrives as 4294967295.
\<close>

theorem put_val_constant_zero_extended:
  assumes src: "lv_type sv = SM_CONSTANT" "alloca_size sv = 0"
    and dest: "lv_type dv = SM_REGISTER" "VAL_SIZE dv = 8"
      "\<not> is_callee_saved_op (PROPS dest) (regnum dv)" "reg_loc dest (act src) (regnum dv) = Inr r"
  shows "\<exists>dest'. put_val m src sv dest dv = Inr (m, dest') \<and>
           load64 (regset_pool dest') r = ucast (offset_or_constant sv)"
proof -
  have z: "bytes_of 4 (0::u32) = [0, 0, 0, 0 :: u8]" by (simp add: bytes_of_def numeral_eq_Suc)
  show ?thesis
    using assms
    by (simp add: put_val_def get_src_loc_def get_dest_loc_def get_val_loc_def read_ptr_def write_ptr_def
        z load64_store_8 word_of_constant_bytes)
qed

section \<open>Concrete instances\<close>

definition example_val :: live_value where
  "example_val = \<lparr>is_temporary = False, is_duplicate = False, is_alloca = False, is_ptr = True,
     lv_type = SM_REGISTER, lv_size = 8, regnum = 0, offset_or_constant = 0, alloca_size = 0\<rparr>"

lemma reg_loc_example: "unat r < 33 \<Longrightarrow> reg_loc example_ctx 0 r = reg_x86_64 r"
  by (simp add: reg_loc_def reg_x86_64_eq)

theorem put_val_copies_witness:
  "\<exists>m' dest'. put_val (\<lambda>_. 7) example_ctx (example_val\<lparr>lv_type := SM_INDIRECT, regnum := 6\<rparr>)
       example_ctx (example_val\<lparr>regnum := 3\<rparr>) = Inr (m', dest') \<and>
     read_ptr m' dest' (RegAt 32) 8 = Inr (replicate 8 7)"
proof -
  let ?sv = "example_val\<lparr>lv_type := SM_INDIRECT, regnum := 6\<rparr>" and ?dv = "example_val\<lparr>regnum := 3\<rparr>"
  let ?m = "\<lambda>_. 7"
  have cs: "is_callee_saved_x86_64 3"
    by (simp add: is_callee_saved_x86_64_iff properties_x86_64_def callee_saved_numbers_x86_64)
  have locs: "get_src_loc example_ctx ?sv (act example_ctx) = Inr (Mem 0)"
    "get_dest_loc example_ctx ?dv (act example_ctx) = Inr (RegAt 32)"
    by (simp_all add: get_src_loc_def get_dest_loc_def get_val_loc_def reg_loc_example reg_x86_64_eq example_val_def)
  have callee: "(if lv_type ?dv = SM_REGISTER \<and> is_callee_saved_op (PROPS example_ctx) (regnum ?dv)
     then callee_saved_loc example_ctx (regnum ?dv) (act example_ctx) else Inr NULL) = Inr NULL"
    by (simp add: callee_saved_loc_def)
  have r: "read_ptr ?m example_ctx (Mem 0) 8 = Inr (replicate 8 7)"
    by (simp add: read_ptr_def load_def map_replicate_const)
  obtain m' dest' where put: "put_val ?m example_ctx ?sv example_ctx ?dv = Inr (m', dest')"
    using locs r
    by (simp add: put_val_def write_ptr_def example_val_def VAL_SIZE_def callee_saved_loc_def)
  have n: "VAL_SIZE ?dv = 8" "lv_type ?dv = SM_REGISTER" by (simp_all add: VAL_SIZE_def example_val_def)
  show ?thesis
    using put_val_copies [OF put _ _ locs callee] r put n by auto
qed

theorem callee_saved_loc_correct_witness:
  "callee_saved_loc (example_ctx\<lparr>callee_saved_pool := (\<lambda>_. 0x40)\<rparr>) 6 1 = Inr (Mem 0) \<and>
   callee_saved_loc example_ctx 3 1 = Inr (RegAt 32)"
proof -
  let ?c = "example_ctx\<lparr>callee_saved_pool := (\<lambda>_. 0x40)\<rparr>"
  have "load64 (\<lambda>_. 0x40) (0::nat) = 0x4040404040404040"
    by (simp add: load64_def load_def map_replicate_const replicate_8)
  then have b: "bitmap_is_set (\<lambda>_. 0x40) \<lparr>bsize = 67, bits = Some 0\<rparr> 6 = Inr True" by simp
  have "callee_saved_loc ?c 6 1 = Inr (Mem 0)"
    using callee_saved_loc_correct [of 1 ?c] b example_valid_unwind
    by (auto simp: special_regs_x86_64 dest!: spec [of _ "\<lparr>ul_reg = 6, ul_offset = 0\<rparr>"])
  moreover have "callee_saved_loc example_ctx 3 1 = Inr (RegAt 32)"
    using callee_saved_loc_correct [of 1 example_ctx] by (simp add: reg_loc_example reg_x86_64_eq)
  ultimately show ?thesis by blast
qed

theorem get_savedfbp_loc_correct_witness:
  "get_savedfbp_loc example_ctx = Inr (fbp_x86_64 (\<lambda>_. 0) 0)"
  using get_savedfbp_loc_correct [of example_ctx example_act 0 "\<lparr>ul_reg = 6, ul_offset = 0\<rparr>"]
    example_valid_unwind by simp

theorem get_savedfbp_loc_missing_witness:
  "\<exists>ctx. get_savedfbp_loc ctx = Inr 24 \<and> unwind_slice (handle ctx) (site (acts ctx ! 0)) = []"
proof -
  let ?s = "ZERO_CALL_SITE\<lparr>cs_unwind_offset := 1\<rparr>"
  let ?h = "example_handle\<lparr>unwind_locs := [\<lparr>ul_reg = 3, ul_offset = 24\<rparr>]\<rparr>"
  let ?c = "example_ctx\<lparr>handle := ?h, acts := [example_act\<lparr>site := ?s\<rparr>]\<rparr>"
  have e: "unwind_slice ?h ?s = []" by (simp add: unwind_slice_def)
  then have v: "valid_unwind ?h ?s"
    by (simp add: valid_unwind_def) (simp add: ZERO_CALL_SITE_def EMPTY_CALL_SITE_def)
  have "get_savedfbp_loc ?c = Inr 24"
    using get_savedfbp_loc_missing [of ?c "example_act\<lparr>site := ?s\<rparr>" 0 1] v e
    by (simp add: special_regs_x86_64)
  then show ?thesis using e by (intro exI [of _ ?c]) simp
qed

theorem points_to_stack_bounds_witness:
  "\<exists>ctx. points_to_stack (\<lambda>_. 0) ctx example_val = Inr 0x7800 \<and> 0x7800 < stack_base ctx"
proof -
  let ?c = "example_ctx\<lparr>regset_pool := store64 (\<lambda>_. 0) 8 0x7800\<rparr>"
  have "reg_loc ?c 0 0 = Inr 8" by (simp add: reg_loc_def reg_x86_64_eq)
  then have p: "points_to_stack (\<lambda>_. 0) ?c example_val = Inr 0x7800"
    by (simp add: points_to_stack_def example_val_def)
  then show ?thesis using points_to_stack_bounds [OF p] by (intro exI [of _ ?c]) simp
qed

theorem points_to_data_offset_witness:
  "\<exists>r. points_to_data example_ctx (example_val\<lparr>lv_type := SM_DIRECT, regnum := 6, offset_or_constant := 0x7100, alloca_size := 24\<rparr>)
     example_ctx (example_val\<lparr>lv_type := SM_DIRECT, regnum := 6, offset_or_constant := 0x7400, alloca_size := 24\<rparr>)
     0x7108 = Inr r \<and> unat r = 0x7408"
proof -
  let ?sv = "example_val\<lparr>lv_type := SM_DIRECT, regnum := 6, offset_or_constant := 0x7100, alloca_size := 24\<rparr>"
  let ?dv = "example_val\<lparr>lv_type := SM_DIRECT, regnum := 6, offset_or_constant := 0x7400, alloca_size := 24\<rparr>"
  have "get_val_loc example_ctx (lv_type ?sv) (regnum ?sv) (offset_or_constant ?sv) (act example_ctx) = Inr (Mem 0x7100)"
    "get_val_loc example_ctx (lv_type ?dv) (regnum ?dv) (offset_or_constant ?dv) (act example_ctx) = Inr (Mem 0x7400)"
    by (simp_all add: get_val_loc_def reg_loc_example reg_x86_64_eq)
  from points_to_data_offset [OF this, of "0x7108"] show ?thesis by simp
qed

theorem put_val_constant_zero_extended_witness:
  "\<exists>dest'. put_val (\<lambda>_. 0) example_ctx (example_val\<lparr>lv_type := SM_CONSTANT, offset_or_constant := - 1\<rparr>)
       example_ctx example_val = Inr (\<lambda>_. 0, dest') \<and> load64 (regset_pool dest') 8 = 4294967295"
proof -
  let ?sv = "example_val\<lparr>lv_type := SM_CONSTANT, offset_or_constant := - 1\<rparr>"
  have n: "\<not> is_callee_saved_x86_64 0"
    by (simp add: is_callee_saved_x86_64_iff properties_x86_64_def callee_saved_numbers_x86_64)
  have "\<exists>dest'. put_val (\<lambda>_. 0) example_ctx ?sv example_ctx example_val = Inr (\<lambda>_. 0, dest') \<and>
      load64 (regset_pool dest') 8 = ucast (offset_or_constant ?sv)"
    by (rule put_val_constant_zero_extended)
      (use n in \<open>simp_all add: example_val_def VAL_SIZE_def reg_loc_example reg_x86_64_eq\<close>)
  then show ?thesis by (simp add: unsigned_minus_1_eq_mask mask_eq_exp_minus_1)
qed

end
