(* ===== verification/Rewrite.thy ===== *)
theory Rewrite
  imports Frame_Data
begin

text \<open>
  The main rewriting logic (\<open>lib/stack_transformation/src/rewrite.c\<close>): setting up the two contexts,
  unwinding the source stack while sizing the destination stack, rewriting frame by frame with
  fix-ups for pointers into the stack, and the driver \<open>st_rewrite_stack\<close>. The thread-local contexts
  are arguments that keep the activations of earlier rewrites, as the static variables do. The
  list of fix-ups is a HOL list in traversal order.
\<close>

section \<open>Contexts\<close>

definition init_src_context :: "rewrite_context \<Rightarrow> st_handle \<Rightarrow> pool \<Rightarrow> u64 \<Rightarrow> rewrite_context result" where
  "init_src_context src_ctx h regset sp_base =
     (let ctx = src_ctx\<lparr>handle := h, num_acts := 1, act := 0, ctx_regs := regset,
                        stack_base := sp_base, stack_pointers := []\<rparr> in
      bindE (bootstrap_first_frame ctx regset) (\<lambda>ctx.
      bindE (ACT ctx) (\<lambda>a. bindE (deref (regs a)) (\<lambda>b.
        let ctx = ctx\<lparr>stack := sp_op (REGOPS ctx) (regset_pool ctx) b\<rparr> in
      bindE (get_site_by_addr h (pc_op (REGOPS ctx) (regset_pool ctx) b)) (\<lambda>s.
        case s of None \<Rightarrow> Inl (Exit 1)
        | Some cs \<Rightarrow>
            bindE (upd_act 0 (site_update (\<lambda>_. cs)) ctx) (\<lambda>ctx.
            bindE (calculate_cfa ctx 0) (\<lambda>c. upd_act 0 (cfa_update (\<lambda>_. c)) ctx)))))))"

definition init_dest_context :: "rewrite_context \<Rightarrow> st_handle \<Rightarrow> pool \<Rightarrow> u64 \<Rightarrow> rewrite_context" where
  "init_dest_context dest_ctx h regset sp_base =
     dest_ctx\<lparr>handle := h, num_acts := 1, act := 0, ctx_regs := regset, stack_base := sp_base,
              stack_pointers := []\<rparr>"

text \<open>Freeing drops the fix-ups that were not resolved, one node at a time.\<close>

fun drop_fixups :: "fixup list \<Rightarrow> fixup list" where
  "drop_fixups [] = []"
| "drop_fixups (node # rest) = drop_fixups rest"

definition free_context :: "rewrite_context \<Rightarrow> rewrite_context" where
  "free_context ctx = ctx\<lparr>stack_pointers := drop_fixups (stack_pointers ctx)\<rparr>"

section \<open>Unwinding and sizing\<close>

text \<open>
  The body of the \<open>do\<close>-\<open>while\<close> loop of \<open>unwind_and_size\<close>: pop a frame, look its call site up by
  return address in the source and by number in the destination, and set the frame address. The
  two sites are returned with the contexts.
\<close>

definition unwind_iter :: "memory \<Rightarrow> rewrite_context \<Rightarrow> rewrite_context \<Rightarrow>
    (rewrite_context \<times> rewrite_context \<times> call_site \<times> call_site) result" where
  "unwind_iter m src dest =
     bindE (pop_frame m src False) (\<lambda>src.
       let src = src\<lparr>num_acts := num_acts src + 1\<rparr>;
           dest = dest\<lparr>num_acts := num_acts dest + 1, act := act dest + 1\<rparr> in
     bindE (ACT src) (\<lambda>a. bindE (deref (regs a)) (\<lambda>b.
     bindE (get_site_by_addr (handle src) (pc_op (REGOPS src) (regset_pool src) b)) (\<lambda>s.
     bindE (case s of None \<Rightarrow> Inl (Exit 1) | Some cs \<Rightarrow> Inr cs) (\<lambda>cs.
     bindE (upd_act (act src) (site_update (\<lambda>_. cs)) src) (\<lambda>src.
     bindE (get_site_by_id (handle dest) (cs_id cs)) (\<lambda>d.
     bindE (case d of None \<Rightarrow> Inl (Exit 1) | Some ds \<Rightarrow> Inr ds) (\<lambda>ds.
     bindE (upd_act (act dest) (site_update (\<lambda>_. ds)) dest) (\<lambda>dest.
     bindE (calculate_cfa src (act src)) (\<lambda>c.
     bindE (upd_act (act src) (cfa_update (\<lambda>_. c)) src) (\<lambda>src.
       Inr (src, dest, cs, ds))))))))))))"

text \<open>
  The loop. Every iteration pops a frame, and the contexts have \<open>MAX_FRAMES\<close> activations, so the
  number of activations is enough fuel. The code checks the bound only by an \<open>ASSERT\<close>, which is compiled out unless
  \<open>_CHECKS\<close> is defined: without it a stack of more frames makes the code write behind the static array. That is undefined
  behaviour in C, and \<open>Undef\<close>, the result of an access out of bounds, is the model of it; nothing is claimed of such runs.
\<close>

fun unwind_loop :: "nat \<Rightarrow> memory \<Rightarrow> rewrite_context \<Rightarrow> rewrite_context \<Rightarrow> u64 \<Rightarrow>
    (rewrite_context \<times> rewrite_context \<times> u64) result" where
  "unwind_loop 0 m src dest stack_size = Inl Diverge"
| "unwind_loop (Suc fuel) m src dest stack_size =
     bindE (unwind_iter m src dest) (\<lambda>(src, dest, cs, ds).
       let stack_size = stack_size + ucast (frame_size ds) in
       if first_frame (cs_id cs) then Inr (src, dest, stack_size)
       else unwind_loop fuel m src dest stack_size)"

definition unwind_and_size :: "memory \<Rightarrow> rewrite_context \<Rightarrow> rewrite_context \<Rightarrow>
    (rewrite_context \<times> rewrite_context) result" where
  "unwind_and_size m src dest =
     bindE (unwind_loop (length (acts src)) m src dest 8) (\<lambda>(src, dest, stack_size).
       let src = src\<lparr>act := 0\<rparr>;
           dest = dest\<lparr>act := 0, stack := align_sp_op (PROPS dest) (stack_base dest - stack_size)\<rparr> in
     bindE (bootstrap_first_frame_funcentry dest (stack dest)) (\<lambda>dest.
     bindE (ACT src) (\<lambda>a. bindE (deref (regs a)) (\<lambda>b.
     bindE (get_function_address (handle src) (pc_op (REGOPS src) (regset_pool src) b)) (\<lambda>fn.
     bindE (ACT dest) (\<lambda>da. bindE (deref (regs da)) (\<lambda>db.
       let dest = dest\<lparr>regset_pool := set_pc_op (REGOPS dest) (regset_pool dest) db fn\<rparr> in
       Inr (src, dest\<lparr>callee_saved_pool :=
              memset (callee_saved_pool dest) 0 0 (bitmap_size (num_regs (REGOPS dest)) * num_acts dest)\<rparr>))))))))"

section \<open>Rewriting one value\<close>

text \<open>A \<open>va_list\<close> has different sizes on different architectures and is not copied.\<close>

definition skip_va_list :: "live_value \<Rightarrow> live_value \<Rightarrow> bool" where
  "skip_va_list val_src val_dest \<longleftrightarrow>
     (if is_alloca val_src \<and> VAL_SIZE val_src = 24 \<and> is_alloca val_dest \<and> VAL_SIZE val_dest = 32 then True
      else if is_alloca val_src \<and> VAL_SIZE val_src = 32 \<and> is_alloca val_dest \<and> VAL_SIZE val_dest = 24 then True
      else if is_alloca val_src \<and> VAL_SIZE val_src = 24 \<and> is_alloca val_dest \<and> VAL_SIZE val_dest = 8 then True
      else if is_alloca val_src \<and> VAL_SIZE val_src = 8 \<and> is_alloca val_dest \<and> VAL_SIZE val_dest = 24 then True
      else False)"

text \<open>
  The walk over the fix-ups that looks for pointers to the value just copied: a resolved fix-up is
  written to its pointer and leaves the list.
\<close>

fun resolve_fixups :: "memory \<Rightarrow> rewrite_context \<Rightarrow> live_value \<Rightarrow> rewrite_context \<Rightarrow> live_value \<Rightarrow>
    fixup list \<Rightarrow> (memory \<times> rewrite_context \<times> fixup list) result" where
  "resolve_fixups m src val_src dest val_dest [] = Inr (m, dest, [])"
| "resolve_fixups m src val_src dest val_dest (node # rest) =
     bindE (points_to_data src val_src dest val_dest (src_addr node)) (\<lambda>stack_addr.
       if stack_addr \<noteq> 0 then
         bindE (put_val_data m dest (dest_loc node) (fx_act node) stack_addr) (\<lambda>(m, dest).
           resolve_fixups m src val_src dest val_dest rest)
       else
         bindE (resolve_fixups m src val_src dest val_dest rest) (\<lambda>(m, dest, kept).
           Inr (m, dest, node # kept)))"

definition rewrite_val :: "memory \<Rightarrow> rewrite_context \<Rightarrow> live_value \<Rightarrow> rewrite_context \<Rightarrow> live_value \<Rightarrow>
    (bool \<times> memory \<times> rewrite_context) result" where
  "rewrite_val m src val_src dest val_dest =
     (if is_temporary val_dest then Inr (False, m, dest)
      else if skip_va_list val_src val_dest then Inr (False, m, dest)
      else
        bindE (points_to_stack m src val_src) (\<lambda>stack_addr.
        bindE (if stack_addr \<noteq> 0 then
                 bindE (PREV_ACT src) (\<lambda>prev.
                   if cfa prev \<le> stack_addr \<or> act src = 0 then
                     let fixup_data = \<lparr>src_addr = stack_addr, fx_act = act dest, dest_loc = val_dest\<rparr>;
                         dest = dest\<lparr>stack_pointers := stack_pointers dest @ [fixup_data]\<rparr>
                     in bindE (ACT src) (\<lambda>a. Inr (stack_addr < cfa a, m, dest))
                   else Inr (False, m, dest))
               else bindE (put_val m src val_src dest val_dest) (\<lambda>(m, dest). Inr (False, m, dest)))
          (\<lambda>(needs_local_fixup, m, dest).
        bindE (if is_alloca val_src \<and> \<not> is_temporary val_src then
                 bindE (resolve_fixups m src val_src dest val_dest (stack_pointers dest)) (\<lambda>(m, dest, kept).
                   Inr (m, dest\<lparr>stack_pointers := kept\<rparr>))
               else Inr (m, dest)) (\<lambda>(m, dest).
          Inr (needs_local_fixup, m, dest)))))"

section \<open>Pointers within a frame\<close>

text \<open>\<open>while(live_vals[i + 1 + off].is_duplicate) i++\<close>, with no test against the end of the section.\<close>

function skip_duplicates :: "live_value list \<Rightarrow> nat \<Rightarrow> nat \<Rightarrow> nat result" where
  "skip_duplicates vals off i =
     (if i + 1 + off < length vals then
        if is_duplicate (vals ! (i + 1 + off)) then skip_duplicates vals off (i + 1) else Inr i
      else Inl Undef)"
  by pat_completeness auto
termination by (relation "measure (\<lambda>(vals, off, i). length vals - (i + off))") auto

declare skip_duplicates.simps [simp del]

lemma skip_duplicates_le: "skip_duplicates vals off i = Inr i' \<Longrightarrow> i \<le> i'"
proof (induction vals off i rule: skip_duplicates.induct)
  case (1 vals off i)
  then show ?case by (subst (asm) skip_duplicates.simps) (auto split: if_splits)
qed

text \<open>
  The search of one fix-up's data among the live values of the frame: the value of the first
  allocation that contains the address, or nothing.
\<close>

function find_local :: "rewrite_context \<Rightarrow> rewrite_context \<Rightarrow> u64 \<Rightarrow> nat \<Rightarrow> nat \<Rightarrow> nat \<Rightarrow> nat \<Rightarrow> nat \<Rightarrow>
    u64 option result" where
  "find_local src dest addr n soff doff i j =
     (if j < n then
        bindE (arr (live_vals (handle src)) (i + soff)) (\<lambda>val_src.
        bindE (arr (live_vals (handle dest)) (j + doff)) (\<lambda>val_dest.
        bindE (skip_duplicates (live_vals (handle src)) soff i) (\<lambda>i.
        bindE (skip_duplicates (live_vals (handle dest)) doff j) (\<lambda>j'.
          if \<not> is_alloca val_src \<or> \<not> is_alloca val_dest then
            find_local src dest addr n soff doff (i + 1) (j' + 1)
          else
            bindE (points_to_data src val_src dest val_dest addr) (\<lambda>stack_addr.
              if stack_addr \<noteq> 0 then Inr (Some stack_addr)
              else find_local src dest addr n soff doff (i + 1) (j' + 1))))))
      else Inr None)"
  by pat_completeness auto
termination
  by (relation "measure (\<lambda>(src, dest, addr, n, soff, doff, i, j). n - j)")
    (auto dest: skip_duplicates_le)

declare find_local.simps [simp del]

text \<open>
  The outer loop of \<open>fixup_local_pointers\<close>. \<open>found\<close> is the variable \<open>found_fixup\<close>, which is not
  initialized (\<open>None\<close>) and which only the branch for a fix-up of this frame sets; \<open>kept\<close> holds the
  nodes already passed. Each unit of fuel is one iteration.
\<close>

fun local_loop :: "nat \<Rightarrow> memory \<Rightarrow> rewrite_context \<Rightarrow> rewrite_context \<Rightarrow> bool option \<Rightarrow> fixup list \<Rightarrow>
    fixup list \<Rightarrow> (memory \<times> rewrite_context) result" where
  "local_loop fuel m src dest found kept [] = Inr (m, dest\<lparr>stack_pointers := kept\<rparr>)"
| "local_loop 0 m src dest found kept (node # rest) = Inl Diverge"
| "local_loop (Suc fuel) m src dest found kept (node # rest) =
     bindE (ACT src) (\<lambda>a.
       if src_addr node \<le> cfa a then
         if fx_act node \<noteq> act src then local_loop fuel m src dest found (kept @ [node]) rest
         else
           bindE (ACT dest) (\<lambda>da.
           bindE (find_local src dest (src_addr node) (unat (num_live (site da)))
                    (unat (live_offset (site a))) (unat (live_offset (site da))) 0 0) (\<lambda>r.
             case r of
               Some stack_addr \<Rightarrow>
                 bindE (put_val_data m dest (dest_loc node) (fx_act node) stack_addr) (\<lambda>(m, dest).
                   local_loop fuel m src dest (Some True) kept rest)
             | None \<Rightarrow> local_loop fuel m src dest (Some False) (kept @ [node]) rest))
       else
         bindE (deref found) (\<lambda>f.
           if \<not> f then local_loop fuel m src dest found (kept @ [node]) rest
           else local_loop fuel m src dest found kept (node # rest)))"

definition fixup_local_pointers :: "memory \<Rightarrow> rewrite_context \<Rightarrow> rewrite_context \<Rightarrow>
    (memory \<times> rewrite_context) result" where
  "fixup_local_pointers m src dest =
     local_loop (length (stack_pointers dest)) m src dest None [] (stack_pointers dest)"

section \<open>Rewriting one frame\<close>

text \<open>The loop over the duplicate location records of a destination value.\<close>

function rewrite_duplicates :: "live_value list \<Rightarrow> u64 \<Rightarrow> nat \<Rightarrow> memory \<Rightarrow> rewrite_context \<Rightarrow> live_value \<Rightarrow>
    rewrite_context \<Rightarrow> nat \<Rightarrow> bool \<Rightarrow> (bool \<times> memory \<times> rewrite_context \<times> nat) result" where
  "rewrite_duplicates vals cnt off m src val_src dest j needs =
     (if j + 1 + off < unat cnt then
        bindE (arr vals (j + 1 + off)) (\<lambda>val_dest.
          if is_duplicate val_dest then
            bindE (rewrite_val m src val_src dest val_dest) (\<lambda>(needs', m, dest).
              rewrite_duplicates vals cnt off m src val_src dest (j + 1) (needs \<or> needs'))
          else Inr (needs, m, dest, j))
      else Inr (needs, m, dest, j))"
  by pat_completeness auto
termination by (relation "measure (\<lambda>(vals, cnt, off, m, src, val_src, dest, j, needs). unat cnt - (j + off))") auto

declare rewrite_duplicates.simps [simp del]

lemma rewrite_duplicates_le:
  "rewrite_duplicates vals cnt off m src v dest j needs = Inr (r, m', dest', j') \<Longrightarrow> j \<le> j'"
proof (induction vals cnt off m src v dest j needs rule: rewrite_duplicates.induct)
  case (1 vals cnt off m src v dest j needs)
  then show ?case
    by (subst (asm) rewrite_duplicates.simps)
      (fastforce split: if_splits prod.splits elim!: bindE_InrE)
qed

text \<open>\<open>while((i + 1 + off) < live_vals_count && live_vals[i + 1 + off].is_duplicate) i++\<close>.\<close>

function skip_counted :: "live_value list \<Rightarrow> u64 \<Rightarrow> nat \<Rightarrow> nat \<Rightarrow> nat result" where
  "skip_counted vals cnt off i =
     (if i + 1 + off < unat cnt then
        bindE (arr vals (i + 1 + off)) (\<lambda>v.
          if is_duplicate v then skip_counted vals cnt off (i + 1) else Inr i)
      else Inr i)"
  by pat_completeness auto
termination by (relation "measure (\<lambda>(vals, cnt, off, i). unat cnt - (i + off))") auto

declare skip_counted.simps [simp del]

text \<open>The loop over the live values of a frame.\<close>

function rewrite_values :: "memory \<Rightarrow> rewrite_context \<Rightarrow> rewrite_context \<Rightarrow> nat \<Rightarrow> nat \<Rightarrow> nat \<Rightarrow> nat \<Rightarrow> nat \<Rightarrow>
    bool \<Rightarrow> (bool \<times> memory \<times> rewrite_context) result" where
  "rewrite_values m src dest n soff doff i j needs =
     (if j < n then
        bindE (arr (live_vals (handle src)) (i + soff)) (\<lambda>val_src.
        bindE (arr (live_vals (handle dest)) (j + doff)) (\<lambda>val_dest.
        bindE (rewrite_val m src val_src dest val_dest) (\<lambda>(needs', m, dest).
        bindE (rewrite_duplicates (live_vals (handle dest)) (live_vals_count (handle dest)) doff
                 m src val_src dest j (needs \<or> needs')) (\<lambda>(needs, m, dest, j').
        bindE (skip_counted (live_vals (handle src)) (live_vals_count (handle src)) soff i) (\<lambda>i.
          rewrite_values m src dest n soff doff (i + 1) (j' + 1) needs)))))
      else Inr (needs, m, dest))"
  by pat_completeness auto
termination
  by (relation "measure (\<lambda>(m, src, dest, n, soff, doff, i, j, needs). n - j)")
    (auto dest: rewrite_duplicates_le)

declare rewrite_values.simps [simp del]

definition rewrite_frame :: "memory \<Rightarrow> rewrite_context \<Rightarrow> rewrite_context \<Rightarrow>
    (memory \<times> rewrite_context) result" where
  "rewrite_frame m src dest =
     bindE (ACT src) (\<lambda>sa. bindE (ACT dest) (\<lambda>da.
     bindE (rewrite_values m src dest (unat (num_live (site da))) (unat (live_offset (site sa)))
              (unat (live_offset (site da))) 0 0 False) (\<lambda>(needs_local_fixup, m, dest).
     bindE (for_loop 0 (unat (num_arch_live (site da))) (\<lambda>i (m, dest).
              bindE (arr (arch_live_vals (handle dest)) (i + unat (arch_live_offset (site da)))) (\<lambda>v.
                put_val_arch m dest v)) (m, dest)) (\<lambda>(m, dest).
       if needs_local_fixup then fixup_local_pointers m src dest else Inr (m, dest)))))"

section \<open>Rewriting the stack\<close>

text \<open>One iteration of the loop over the frames between the outermost and the starting one.\<close>

definition rewrite_step :: "rewrite_context \<Rightarrow> nat \<Rightarrow> memory \<times> rewrite_context \<Rightarrow>
    (memory \<times> rewrite_context) result" where
  "rewrite_step src k = (\<lambda>(m, dest).
     let src = src\<lparr>act := k\<rparr> in
     bindE (NEXT_ACT dest) (\<lambda>nxt.
     bindE (set_return_address m dest (cs_addr (site nxt))) (\<lambda>m.
     bindE (rewrite_frame m src dest) (\<lambda>(m, dest).
     bindE (get_savedfbp_loc dest) (\<lambda>saved_fbp.
     bindE (pop_frame m dest True) (\<lambda>dest.
     bindE (ACT dest) (\<lambda>a. bindE (deref (regs a)) (\<lambda>b.
       Inr (store64 m saved_fbp (fbp_op (REGOPS dest) (regset_pool dest) b), dest)))))))))"

definition rewrite_frames :: "memory \<Rightarrow> rewrite_context \<Rightarrow> rewrite_context \<Rightarrow>
    (memory \<times> rewrite_context \<times> rewrite_context) result" where
  "rewrite_frames m src dest =
     bindE (NEXT_ACT dest) (\<lambda>nxt.
     bindE (set_return_address_funcentry m dest (cs_addr (site nxt))) (\<lambda>(m, dest).
     bindE (pop_frame_funcentry m dest) (\<lambda>dest.
     bindE (for_loop 1 (num_acts src - 1) (rewrite_step src) (m, dest)) (\<lambda>(m, dest).
       let src = src\<lparr>act := max 1 (num_acts src - 1)\<rparr> in
     bindE (rewrite_frame m src dest) (\<lambda>(m, dest). Inr (m, src, dest))))))"

text \<open>
  The result of a rewrite: the return value, the process memory, the caller's destination register
  set and the two thread-local contexts.
\<close>

definition st_rewrite_stack :: "memory \<Rightarrow> rewrite_context \<Rightarrow> rewrite_context \<Rightarrow>
    st_handle option \<Rightarrow> pool option \<Rightarrow> u64 \<Rightarrow> st_handle option \<Rightarrow> pool option \<Rightarrow> u64 \<Rightarrow>
    (int \<times> memory \<times> pool option \<times> rewrite_context \<times> rewrite_context) result" where
  "st_rewrite_stack m src_ctx dest_ctx handle_src regset_src sp_base_src
       handle_dest regset_dest sp_base_dest =
     (case (handle_src, regset_src, handle_dest, regset_dest) of
        (Some hs, Some rs, Some hdl, Some rd) \<Rightarrow>
          if sp_base_src = 0 \<or> sp_base_dest = 0 then Inr (1, m, regset_dest, src_ctx, dest_ctx)
          else
            bindE (init_src_context src_ctx hs rs sp_base_src) (\<lambda>src.
              let dest = init_dest_context dest_ctx hdl rd sp_base_dest in
            bindE (unwind_and_size m src dest) (\<lambda>(src, dest).
            bindE (rewrite_frames m src dest) (\<lambda>(m, src, dest).
            bindE (arr (acts dest) 0) (\<lambda>a. bindE (deref (regs a)) (\<lambda>b.
              let out = regset_copyout_op (REGOPS dest) (regset_pool dest) b (ctx_regs dest) in
              Inr (0, m, Some out, free_context src, free_context (dest\<lparr>ctx_regs := out\<rparr>)))))))
      | _ \<Rightarrow> Inr (1, m, regset_dest, src_ctx, dest_ctx))"

text \<open>On-demand rewriting is declared but not supported.\<close>

definition st_rewrite_ondemand :: "st_handle option \<Rightarrow> pool option \<Rightarrow> u64 \<Rightarrow> st_handle option \<Rightarrow>
    pool option \<Rightarrow> u64 \<Rightarrow> int result" where
  "st_rewrite_ondemand handle_src regset_src sp_base_src handle_dest regset_dest sp_base_dest =
     Inl (Exit 1)"

end
