(* ===== verification/Rewrite_Unwind.thy ===== *)
theory Rewrite_Unwind
  imports Rewrite
begin

text \<open>
  Unwinding and sizing (\<open>unwind_and_size\<close> of \<open>lib/stack_transformation/src/rewrite.c\<close>): the frames it
  finds, the size it computes for the destination stack, and that it ends on every stack.
\<close>

section \<open>Correctness of unwinding and sizing\<close>

lemma site_search_sound:
  "site_search key sites k mn mx = Inr (Some e) \<Longrightarrow> 0 \<le> mn \<Longrightarrow> e \<in> set sites \<and> key e = k"
proof (induction key sites k mn mx rule: site_search.induct)
  case (1 key sites k mn mx)
  define mid where "mid = (mx + mn) div 2"
  have le: "mn \<le> mx" using "1.prems"(1) by (subst (asm) site_search.simps) (auto split: if_splits)
  then have mid: "mn \<le> mid" unfolding mid_def by auto
  from "1.prems"(1) le obtain x where x: "arr sites (nat mid) = Inr x"
    and r: "(if key x = k then Inr (Some x)
             else if key x < k then site_search key sites k (mid + 1) mx
             else site_search key sites k mn (mid - 1)) = Inr (Some e)"
    by (subst (asm) site_search.simps) (auto simp: Let_def mid_def [symmetric] elim!: bindE_InrE)
  from x have "x \<in> set sites" by (auto simp: arr_def split: if_splits)
  then show ?case
    using r "1.IH"(1) [OF le mid_def x] "1.IH"(2) [OF le mid_def x] "1.prems"(2) mid
    by (auto split: if_splits)
qed

lemma get_site_sound:
  "get_site_by_addr h a = Inr (Some e) \<Longrightarrow> e \<in> set (sites_addr h) \<and> cs_addr e = a"
  "get_site_by_id h i = Inr (Some d) \<Longrightarrow> d \<in> set (sites_id h) \<and> cs_id d = i"
  unfolding get_site_by_addr_def get_site_by_id_def by (auto dest: site_search_sound)

text \<open>
  Activation \<open>k\<close> of the source and of the destination describe the same call: their sites come from
  the two binaries' tables under the same number, and the source frames lie one above the other.
\<close>

definition frames_match :: "rewrite_context \<Rightarrow> rewrite_context \<Rightarrow> nat \<Rightarrow> bool" where
  "frames_match src dest k \<longleftrightarrow>
     site (acts src ! k) \<in> set (sites_addr (handle src)) \<and>
     site (acts dest ! k) \<in> set (sites_id (handle dest)) \<and>
     cs_id (site (acts dest ! k)) = cs_id (site (acts src ! k)) \<and>
     cfa (acts src ! k) = cfa (acts src ! (k - 1)) + ucast (frame_size (site (acts src ! k)))"

definition dest_size :: "rewrite_context \<Rightarrow> nat \<Rightarrow> nat \<Rightarrow> u64" where
  "dest_size dest a b = (\<Sum>k\<in>{a<..b}. ucast (frame_size (site (acts dest ! k))))"

text \<open>What one iteration of the unwinding loop does.\<close>

definition unwound_one :: "rewrite_context \<Rightarrow> rewrite_context \<Rightarrow> rewrite_context \<Rightarrow> rewrite_context \<Rightarrow> bool" where
  "unwound_one src dest src1 dest1 \<longleftrightarrow>
     act src + 1 < length (acts src) \<and>
     act src1 = act src + 1 \<and> num_acts src1 = num_acts src + 1 \<and> handle src1 = handle src \<and>
     length (acts src1) = length (acts src) \<and>
     (\<forall>k. k \<noteq> act src + 1 \<longrightarrow> acts src1 ! k = acts src ! k) \<and>
     dest1 = dest\<lparr>act := act dest + 1, num_acts := num_acts dest + 1, acts := acts dest1\<rparr> \<and>
     length (acts dest1) = length (acts dest) \<and>
     (\<forall>k. k \<noteq> act dest + 1 \<longrightarrow> acts dest1 ! k = acts dest ! k) \<and>
     (act dest = act src \<longrightarrow> frames_match src1 dest1 (act src + 1))"

context regset_iface
begin

lemma unwind_iter_effect:
  assumes run: "unwind_iter m src dest = Inr (src1, dest1, cs, ds)" and ops: "REGOPS src = ops"
  shows "unwound_one src dest src1 dest1 \<and> site (acts src1 ! (act src + 1)) = cs \<and>
         site (acts dest1 ! (act dest + 1)) = ds"
proof -
  let ?k = "act src + 1" and ?d = "act dest + 1"
  from run [unfolded unwind_iter_def Let_def] obtain c s d s3 cf a b where
    pop: "pop_frame m src False = Inr c"
    and s: "get_site_by_addr (handle c) (pc_op (REGOPS c) (regset_pool c) b) = Inr s"
      "(case s of None \<Rightarrow> Inl (Exit 1) | Some cs \<Rightarrow> Inr cs) = Inr cs"
    and s3: "upd_act (act c) (site_update (\<lambda>_. cs)) (c\<lparr>num_acts := num_acts c + 1\<rparr>) = Inr s3"
    and d: "get_site_by_id (handle dest) (cs_id cs) = Inr d"
      "(case d of None \<Rightarrow> Inl (Exit 1) | Some ds \<Rightarrow> Inr ds) = Inr ds"
    and d1: "upd_act ?d (site_update (\<lambda>_. ds)) (dest\<lparr>num_acts := num_acts dest + 1, act := ?d\<rparr>) = Inr dest1"
    and cf: "calculate_cfa s3 (act s3) = Inr cf"
    and s1: "upd_act (act s3) (cfa_update (\<lambda>_. cf)) s3 = Inr src1"
    by (elim bindE_InrE) (auto simp del: One_nat_def)
  obtain p q where c: "c = popped src False p q" and k: "?k < length (acts src)"
    using pop_frame_shape [OF pop] by blast
  have ka: "?k < length (acts c)" "act c = ?k" using k c by simp_all
  have s3': "s3 = c\<lparr>num_acts := num_acts c + 1, acts := (acts c)[?k := (acts c ! ?k)\<lparr>site := cs\<rparr>]\<rparr>"
    using s3 ka by (auto simp: upd_act_eq_Inr)
  have d1': "?d < length (acts dest)"
    "dest1 = dest\<lparr>num_acts := num_acts dest + 1, act := ?d, acts := (acts dest)[?d := (acts dest ! ?d)\<lparr>site := ds\<rparr>]\<rparr>"
    using d1 by (auto simp: upd_act_eq_Inr)
  have s1': "src1 = s3\<lparr>acts := (acts s3)[?k := (acts s3 ! ?k)\<lparr>cfa := cf\<rparr>]\<rparr>"
    using s1 ka by (simp add: s3' upd_act_eq_Inr)
  have "cf = cfa (acts src ! act src) + ucast (frame_size cs)"
    using cf ka popped_acts [OF k] popped_sp [OF ops k, of False p q] ops
    by (simp add: s3' calculate_cfa_eq c)
  moreover have "cs \<in> set (sites_addr (handle src))" "ds \<in> set (sites_id (handle dest))" "cs_id ds = cs_id cs"
    using get_site_sound s d c by (auto split: option.splits)
  ultimately show ?thesis
    using ka popped_acts [OF k] d1' c by (auto simp: unwound_one_def s1' s3' frames_match_def)
qed


lemma unwind_loop_effect:
  assumes "unwind_loop fuel m src dest sz = Inr (src', dest', sz')" "REGOPS src = ops" "act dest = act src"
  shows "\<exists>n>0. act src + n < length (acts src) \<and>
     act src' = act src + n \<and> num_acts src' = num_acts src + n \<and> handle src' = handle src \<and>
     length (acts src') = length (acts src) \<and> (\<forall>k\<le>act src. acts src' ! k = acts src ! k) \<and>
     dest' = dest\<lparr>act := act dest + n, num_acts := num_acts dest + n, acts := acts dest'\<rparr> \<and>
     length (acts dest') = length (acts dest) \<and> (\<forall>k\<le>act dest. acts dest' ! k = acts dest ! k) \<and>
     (\<forall>k\<in>{act src<..act src + n}. frames_match src' dest' k) \<and>
     (\<forall>k\<in>{act src<..<act src + n}. \<not> first_frame (cs_id (site (acts src' ! k)))) \<and>
     first_frame (cs_id (site (acts src' ! (act src + n)))) \<and>
     sz' = sz + dest_size dest' (act src) (act src + n)"
  using assms
proof (induction fuel arbitrary: src dest sz)
  case 0
  then show ?case by simp
next
  case (Suc fuel)
  from Suc.prems(1) obtain src1 dest1 cs ds where
    iter: "unwind_iter m src dest = Inr (src1, dest1, cs, ds)"
    and rest: "(if first_frame (cs_id cs) then Inr (src1, dest1, sz + ucast (frame_size ds))
       else unwind_loop fuel m src1 dest1 (sz + ucast (frame_size ds))) = Inr (src', dest', sz')"
    by (auto simp: Let_def elim!: bindE_InrE)
  let ?k = "act src + 1"
  from unwind_iter_effect [OF iter Suc.prems(2)] have one: "unwound_one src dest src1 dest1"
    and sites: "site (acts src1 ! ?k) = cs" "site (acts dest1 ! ?k) = ds" using Suc.prems(3) by auto
  note one' = one [unfolded unwound_one_def Suc.prems(3)]
  from one' have d1: "dest1 = dest\<lparr>act := ?k, num_acts := num_acts dest + 1, acts := acts dest1\<rparr>"
    and a1: "act src1 = ?k" "act dest1 = ?k" "handle src1 = handle src"
    using Suc.prems(3) by (auto dest: arg_cong [where f = act])
  show ?case
  proof (cases "first_frame (cs_id cs)")
    case True
    then have r: "src' = src1" "dest' = dest1" "sz' = sz + ucast (frame_size ds)" using rest by simp_all
    have "{act src<..?k} = {?k}" by auto
    then have "dest_size dest1 (act src) ?k = ucast (frame_size ds)"
      using sites by (simp add: dest_size_def)
    then show ?thesis
      using r one' d1 True sites Suc.prems(3)
      by (intro exI [of _ 1]) (auto, metis Suc_leI le_antisym)
  next
    case False
    then have run: "unwind_loop fuel m src1 dest1 (sz + ucast (frame_size ds)) = Inr (src', dest', sz')"
      using rest by simp
    have "REGOPS src1 = ops" "act dest1 = act src1" using a1 Suc.prems(2) by simp_all
    from Suc.IH [OF run this] obtain n where n: "0 < n" "act src1 + n < length (acts src1)"
      "act src' = act src1 + n" "num_acts src' = num_acts src1 + n" "handle src' = handle src1"
      "length (acts src') = length (acts src1)" "\<forall>k\<le>act src1. acts src' ! k = acts src1 ! k"
      "dest' = dest1\<lparr>act := act dest1 + n, num_acts := num_acts dest1 + n, acts := acts dest'\<rparr>"
      "length (acts dest') = length (acts dest1)" "\<forall>k\<le>act dest1. acts dest' ! k = acts dest1 ! k"
      and match: "\<forall>k\<in>{act src1<..act src1 + n}. frames_match src' dest' k"
      and first: "\<forall>k\<in>{act src1<..<act src1 + n}. \<not> first_frame (cs_id (site (acts src' ! k)))"
        "first_frame (cs_id (site (acts src' ! (act src1 + n))))"
      and sz: "sz' = sz + ucast (frame_size ds) + dest_size dest' (act src1) (act src1 + n)"
      by blast
    have keep: "acts src' ! k = acts src1 ! k" "acts dest' ! k = acts dest1 ! k" if "k \<le> ?k" for k
      using n(7,10) a1 that by auto
    have handle: "handle dest' = handle dest1" by (subst n(8)) simp
    have here: "frames_match src' dest' ?k"
      using one' keep n(5) a1 handle by (simp add: frames_match_def)
    have split: "P k" if "k \<in> {act src<..act src + Suc n}" "P ?k" "\<forall>k\<in>{act src1<..act src1 + n}. P k" for P k
      using that a1 by (cases "k = ?k") auto
    have sites': "site (acts src' ! ?k) = cs" "site (acts dest' ! ?k) = ds" using keep sites by simp_all
    have sum: "dest_size dest' (act src) (act src + Suc n) =
        ucast (frame_size ds) + dest_size dest' (act src1) (act src1 + n)"
    proof -
      have "{act src<..act src + Suc n} = insert ?k {?k<..?k + n}" by auto
      then show ?thesis using sites' a1 by (simp add: dest_size_def)
    qed
    show ?thesis
    proof (intro exI [of _ "Suc n"] conjI)
      show "\<forall>k\<in>{act src<..act src + Suc n}. frames_match src' dest' k" using split here match by blast
      show "\<forall>k\<in>{act src<..<act src + Suc n}. \<not> first_frame (cs_id (site (acts src' ! k)))"
      proof
        fix k assume "k \<in> {act src<..<act src + Suc n}"
        then show "\<not> first_frame (cs_id (site (acts src' ! k)))"
          using first(1) sites'(1) False a1 by (cases "k = ?k") auto
      qed
      show "dest' = dest\<lparr>act := act dest + Suc n, num_acts := num_acts dest + Suc n, acts := acts dest'\<rparr>"
      proof -
        have "num_acts dest1 = num_acts dest + 1" by (subst d1) simp
        moreover have "dest1\<lparr>act := x, num_acts := y, acts := z\<rparr> = dest\<lparr>act := x, num_acts := y, acts := z\<rparr>"
          for x y z by (subst d1) simp
        ultimately show ?thesis using n(8) a1(2) Suc.prems(3) by simp
      qed
    qed (use n a1 one' first(2) sum sz Suc.prems(3) in \<open>auto simp: add_ac\<close>)
  qed
qed

end

lemma bootstrap_funcentry_eq:
  "0 < length (acts ctx) \<Longrightarrow>
   bootstrap_first_frame_funcentry ctx sp =
     Inr (ctx\<lparr>acts := (acts ctx)[0 := \<lparr>site = site (acts ctx ! 0),
                cfa = sp + of_int (cfa_offset_funcentry (PROPS ctx)), regs = Some 0,
                callee_saved = \<lparr>bsize = num_regs (REGOPS ctx), bits = Some 0\<rparr>\<rparr>],
              regset_pool := set_sp_op (REGOPS ctx) (regset_pool ctx) 0 sp\<rparr>)"
  by (cases "acts ctx ! 0") (simp add: bootstrap_first_frame_funcentry_def setup_callee_saved_bits_def Let_def)

lemma unwind_and_size_effect:
  assumes arch: "get_regops arch = Some (REGOPS src)"
    and run: "unwind_and_size m src dest = Inr (src', dest')"
    and start: "act src = 0" "act dest = 0" "num_acts src = 1" "num_acts dest = 1" "acts dest \<noteq> []"
  shows "\<exists>n>0. n < length (acts src) \<and> num_acts src' = n + 1 \<and> num_acts dest' = n + 1 \<and>
           act src' = 0 \<and> act dest' = 0 \<and>
           (\<forall>k\<in>{1..n}. frames_match src' dest' k) \<and>
           (\<forall>k\<in>{1..<n}. \<not> first_frame (cs_id (site (acts src' ! k)))) \<and>
           first_frame (cs_id (site (acts src' ! n))) \<and>
           handle dest' = handle dest \<and>
           stack dest' = align_sp_op (PROPS dest) (stack_base dest - (8 + dest_size dest' 0 n)) \<and>
           cfa (acts dest' ! 0) = stack dest' + of_int (cfa_offset_funcentry (PROPS dest))"
proof -
  let ?props = "PROPS dest"
  obtain s d sz b fn db where
    loop: "unwind_loop (length (acts src)) m src dest 8 = Inr (s, d, sz)"
    and s': "src' = s\<lparr>act := 0\<rparr>"
    and boot: "bootstrap_first_frame_funcentry (d\<lparr>act := 0, stack := align_sp_op (PROPS d) (stack_base d - sz)\<rparr>)
                 (align_sp_op (PROPS d) (stack_base d - sz)) = Inr b"
    and d': "dest' = b\<lparr>regset_pool := set_pc_op (REGOPS b) (regset_pool b) db fn,
       callee_saved_pool := memset (callee_saved_pool b) 0 0 (bitmap_size (num_regs (REGOPS b)) * num_acts b)\<rparr>"
    using run unfolding unwind_and_size_def Let_def
    by (elim bindE_InrE) (auto split: prod.splits elim!: bindE_InrE)
  obtain n where n: "0 < n" "n < length (acts src)" "num_acts s = 1 + n"
    and d: "d = dest\<lparr>act := n, num_acts := 1 + n, acts := acts d\<rparr>" "length (acts d) = length (acts dest)"
    and match: "\<forall>k\<in>{0<..n}. frames_match s d k"
    and first: "\<forall>k\<in>{0<..<n}. \<not> first_frame (cs_id (site (acts s ! k)))" "first_frame (cs_id (site (acts s ! n)))"
    and sz: "sz = 8 + dest_size d 0 n"
    using regset_iface.unwind_loop_effect [OF get_regops_iface [OF arch] loop refl] start by auto
  have dh: "handle d = handle dest" "stack_base d = stack_base dest" "num_acts d = 1 + n"
    by (subst d(1), simp)+
  have len: "0 < length (acts d)" using d(2) start(5) by simp
  have b: "acts b ! k = acts d ! k" if "0 < k" for k
    using boot len that by (auto simp: bootstrap_funcentry_eq)
  have bb: "handle b = handle dest" "act b = 0" "num_acts b = 1 + n"
    "stack b = align_sp_op ?props (stack_base dest - sz)"
    "cfa (acts b ! 0) = stack b + of_int (cfa_offset_funcentry ?props)"
    using boot len by (auto simp: bootstrap_funcentry_eq dh)
  have "frames_match src' dest' k" if "k \<in> {1..n}" for k
    using match that b bb(1) dh(1) by (auto simp: frames_match_def s' d')
  moreover have "dest_size dest' 0 n = dest_size d 0 n"
    using b by (simp add: dest_size_def d')
  ultimately show ?thesis
    using n first sz bb by (intro exI [of _ n]) (auto simp: s' d' dh(1))
qed

text \<open>
  Activation \<open>k\<close> is the caller of activation \<open>k - 1\<close> on the stack in memory: its stack pointer is the frame address of the
  callee, its registers are those the callee saved in its frame, or still holds, by the callee's unwinding records, its program
  counter is the return address, and its call site is the one of that address.
\<close>

definition caller_of :: "memory \<Rightarrow> u16 \<Rightarrow> rewrite_context \<Rightarrow> nat \<Rightarrow> bool" where
  "caller_of m arch src k \<longleftrightarrow>
     (let ops = REGOPS src; pool = regset_pool src; b = k * regset_size ops;
          recs = unwind_slice (handle src) (site (acts src ! (k - 1)));
          fb = fbp_op ops pool ((k - 1) * regset_size ops) in
      sp_op ops pool b = cfa (acts src ! (k - 1)) \<and>
      (\<forall>l \<in> set recs. ul_reg l \<noteq> sp_number arch \<longrightarrow> reg_val src k (ul_reg l) = Inr (load64 m (fb + scast (ul_offset l)))) \<and>
      (\<forall>r. r \<notin> ul_reg ` set recs \<longrightarrow> r \<noteq> sp_number arch \<longrightarrow> reg_val src k r = reg_val src (k - 1) r) \<and>
      reg_val src k (ra_number arch) = Inr (pc_op ops pool b) \<and>
      cs_addr (site (acts src ! k)) = pc_op ops pool b)"

lemma pool_same_regset: "(\<And>x. x < (k + 1) * n \<Longrightarrow> q x = p x) \<Longrightarrow> j \<le> k \<Longrightarrow> same_regset n q (j * n) p (j * n)"
  for p q :: pool
proof -
  assume "\<And>x. x < (k + 1) * n \<Longrightarrow> q x = p x" "j \<le> k"
  moreover have "j * n + i < (k + 1) * n" if "i < n" for i
  proof -
    have "j * n + i < (j + 1) * n" using that by simp
    also have "\<dots> \<le> (k + 1) * n" using \<open>j \<le> k\<close> by (intro mult_le_mono1) simp
    finally show ?thesis .
  qed
  ultimately show ?thesis by (simp add: same_regset_def)
qed

lemma reg_val_cong:
  assumes arch: "get_regops arch = Some (REGOPS src)" and "REGOPS src' = REGOPS src" "acts src' ! j = acts src ! j" "length (acts src') = length (acts src)"
    and "regs (acts src ! j) = Some (j * regset_size (REGOPS src))"
    and same: "same_regset (regset_size (REGOPS src)) (regset_pool src') (j * regset_size (REGOPS src)) (regset_pool src) (j * regset_size (REGOPS src))"
  shows "reg_val src' j r = reg_val src j r"
proof (cases "reg_op (REGOPS src) r")
  case (Inr off)
  have "off + 8 \<le> regset_size (REGOPS src)" by (rule regset_iface.reg_bound [OF get_regops_iface [OF arch] Inr])
  from same_regset_load64 [OF same this] show ?thesis using assms(2-5) Inr by (simp add: reg_val_def arr_def)
qed (use assms in \<open>simp add: reg_val_def arr_def\<close>)

lemma caller_of_cong:
  assumes arch: "get_regops arch = Some (REGOPS src)" and h: "handle src' = handle src" and k: "0 < k" "length (acts src') = length (acts src)"
    and acts: "\<And>j. j \<le> k \<Longrightarrow> acts src' ! j = acts src ! j"
    and regs: "\<And>j. j \<le> k \<Longrightarrow> regs (acts src ! j) = Some (j * regset_size (REGOPS src))"
    and pool: "\<And>x. x < (k + 1) * regset_size (REGOPS src) \<Longrightarrow> regset_pool src' x = regset_pool src x"
    and c: "caller_of m arch src k"
  shows "caller_of m arch src' k"
proof -
  note iface = get_regops_iface [OF arch]
  have same: "same_regset (regset_size (REGOPS src)) (regset_pool src') (j * regset_size (REGOPS src)) (regset_pool src) (j * regset_size (REGOPS src))"
    if "j \<le> k" for j by (rule pool_same_regset [of k "regset_size (REGOPS src)" "regset_pool src'" "regset_pool src", OF pool that])
  have v: "reg_val src' j r = reg_val src j r" if "j \<le> k" for j r
    using reg_val_cong [OF arch _ acts [OF that] k(2) regs [OF that] same [OF that]] h by simp
  have s: "sp_op (REGOPS src) (regset_pool src') (k * regset_size (REGOPS src)) = sp_op (REGOPS src) (regset_pool src) (k * regset_size (REGOPS src))"
    "pc_op (REGOPS src) (regset_pool src') (k * regset_size (REGOPS src)) = pc_op (REGOPS src) (regset_pool src) (k * regset_size (REGOPS src))"
    "fbp_op (REGOPS src) (regset_pool src') ((k - 1) * regset_size (REGOPS src)) = fbp_op (REGOPS src) (regset_pool src) ((k - 1) * regset_size (REGOPS src))"
    using regset_iface.sp_cong [OF iface same [of k]] regset_iface.pc_cong [OF iface same [of k]] regset_iface.fbp_cong [OF iface same [of "k - 1"]]
    by simp_all
  show ?thesis using c acts [of k] acts [of "k - 1"] v [of k] v [of "k - 1"] s by (simp add: caller_of_def Let_def h)
qed

text \<open>The state of the loop: the register sets of the activations found so far have their slots of the pool.\<close>

definition slots_ready :: "u16 \<Rightarrow> rewrite_context \<Rightarrow> bool" where
  "slots_ready arch src \<longleftrightarrow> get_regops arch = Some (REGOPS src) \<and> get_properties arch = Some (PROPS src) \<and>
     (\<forall>j \<le> act src. regs (acts src ! j) = Some (j * regset_size (REGOPS src))) \<and>
     bits (callee_saved (acts src ! act src)) \<noteq> None \<and> valid_unwind (handle src) (site (acts src ! act src))"

lemma unwind_iter_caller:
  assumes run: "unwind_iter m src dest = Inr (src1, dest1, cs, ds)" and ready: "slots_ready arch src"
    and valid: "\<forall>s \<in> set (sites_addr (handle src)). valid_unwind (handle src) s"
  shows "caller_of m arch src1 (act src + 1)" "slots_ready arch src1"
    "\<And>x. x < (act src + 1) * regset_size (REGOPS src) \<Longrightarrow> regset_pool src1 x = regset_pool src x"
proof -
  let ?k = "act src" and ?n = "act src + 1" and ?ops = "REGOPS src"
  from run [unfolded unwind_iter_def Let_def] obtain c s s3 cf a b d where
    pop: "pop_frame m src False = Inr c"
    and a: "ACT (c\<lparr>num_acts := num_acts c + 1\<rparr>) = Inr a" "deref (regs a) = Inr b"
    and s: "get_site_by_addr (handle c) (pc_op (REGOPS c) (regset_pool c) b) = Inr s"
      "(case s of None \<Rightarrow> Inl (Exit 1) | Some cs \<Rightarrow> Inr cs) = Inr cs"
    and s3: "upd_act (act c) (site_update (\<lambda>_. cs)) (c\<lparr>num_acts := num_acts c + 1\<rparr>) = Inr s3"
    and s1: "upd_act (act s3) (cfa_update (\<lambda>_. cf)) s3 = Inr src1"
    by (elim bindE_InrE) (auto simp del: One_nat_def)
  obtain p q where c: "c = popped src False p q" and len: "?n < length (acts src)" using pop_frame_shape [OF pop] by blast
  have r: "ready arch src" using ready len by (simp add: slots_ready_def ready_def)
  have v: "valid_unwind (handle src) (site (acts src ! ?k))" using ready by (simp add: slots_ready_def)
  define recs where "recs = unwind_slice (handle src) (site (acts src ! ?k))"
  define fb where "fb = fbp_op ?ops (regset_pool src) (?k * regset_size ?ops)"
  obtain c' where "pop_frame m src False = Inr c'"
    and pf: "sp_op ?ops (regset_pool c') (?n * regset_size ?ops) = cfa (acts src ! ?k)"
    "\<forall>l \<in> set recs. ul_reg l \<noteq> sp_number arch \<longrightarrow> reg_val c' ?n (ul_reg l) = Inr (load64 m (fb + scast (ul_offset l)))"
    "\<forall>r. r \<notin> ul_reg ` set recs \<longrightarrow> r \<noteq> sp_number arch \<longrightarrow> reg_val c' ?n r = reg_val src ?k r"
    "reg_val c' ?n (ra_number arch) = Inr (pc_op ?ops (regset_pool c') (?n * regset_size ?ops))"
    "\<forall>x < ?n * regset_size ?ops. regset_pool c' x = regset_pool src x"
    using pop_frame_caller [OF r refl v recs_def fb_def, of m] by blast
  then have "c' = c" using pop by simp
  note pf = pf [unfolded this]
  have ops: "REGOPS c = ?ops" and ac: "act c = ?n" by (simp_all add: c)
  have regs_c: "regs (acts c ! ?n) = Some (?n * regset_size ?ops)" unfolding c by (rule popped_acts(3) [OF len])
  have b: "b = ?n * regset_size ?ops" using a regs_c len by (simp add: ACT_def ac) (simp add: c)
  have s3': "s3 = c\<lparr>num_acts := num_acts c + 1, acts := (acts c)[?n := (acts c ! ?n)\<lparr>site := cs\<rparr>]\<rparr>"
    using s3 len by (auto simp: upd_act_eq_Inr c)
  have s1': "src1 = s3\<lparr>acts := (acts s3)[?n := (acts s3 ! ?n)\<lparr>cfa := cf\<rparr>]\<rparr>" using s1 len by (auto simp: s3' upd_act_eq_Inr c)
  have pool: "regset_pool src1 = regset_pool c" and hd: "handle src1 = handle src" "act src1 = ?n" "length (acts src1) = length (acts src)"
    by (simp_all add: s1' s3' c)
  have old: "acts src1 ! j = acts src ! j" if "j \<noteq> ?n" for j using that popped_acts(1) [OF len] by (simp add: s1' s3' c)
  have regs1: "regs (acts src1 ! ?n) = Some (?n * regset_size ?ops)" "site (acts src1 ! ?n) = cs" "callee_saved (acts src1 ! ?n) = callee_saved (acts c ! ?n)"
    using len regs_c by (simp_all add: s1' s3' c)
  have val_n: "reg_val src1 ?n r = reg_val c ?n r" for r
    using len regs1(1) regs_c hd ops by (simp add: reg_val_def pool c)
  show pool': "regset_pool src1 x = regset_pool src x" if "x < ?n * regset_size ?ops" for x using pf(5) that by (simp add: pool)
  have rk: "regs (acts src ! ?k) = Some (?k * regset_size ?ops)" and arch: "get_regops arch = Some ?ops" using ready by (simp_all add: slots_ready_def)
  have same: "same_regset (regset_size ?ops) (regset_pool src1) (?k * regset_size ?ops) (regset_pool src) (?k * regset_size ?ops)"
    by (rule pool_same_regset [of ?k "regset_size ?ops" "regset_pool src1" "regset_pool src", OF pool' order_refl])
  have val_k: "reg_val src1 ?k r = reg_val src ?k r" for r
    using reg_val_cong [OF arch _ _ _ rk same] hd old by simp
  have fbk: "fbp_op ?ops (regset_pool src1) (?k * regset_size ?ops) = fb"
    unfolding fb_def by (rule regset_iface.fbp_cong [OF get_regops_iface [OF arch] same])
  have cs: "cs_addr cs = pc_op ?ops (regset_pool c) (?n * regset_size ?ops)" "cs \<in> set (sites_addr (handle src))"
    using get_site_sound(1) s by (auto simp: ops b c split: option.splits)
  show "caller_of m arch src1 ?n"
    using pf(1-4) cs(1) old [of ?k] regs1(2) by (simp add: caller_of_def Let_def hd val_n [simplified] val_k fbk recs_def) (simp add: pool)
  have "bits (callee_saved (acts c ! ?n)) \<noteq> None" using len by (simp add: c popped_def Let_def)
  moreover have "regs (acts src1 ! j) = Some (j * regset_size ?ops)" if "j \<le> ?n" for j
    using that regs1(1) old [of j] ready by (cases "j = ?n") (auto simp: slots_ready_def)
  ultimately show "slots_ready arch src1" using ready valid cs(2) by (simp add: slots_ready_def hd regs1 [simplified])
qed

lemma unwind_loop_callers:
  assumes "unwind_loop fuel m src dest sz = Inr (src', dest', sz')" "slots_ready arch src" "act dest = act src"
    "\<forall>s \<in> set (sites_addr (handle src)). valid_unwind (handle src) s"
  shows "(\<forall>k \<in> {act src<..act src'}. caller_of m arch src' k) \<and>
    (\<forall>x < (act src + 1) * regset_size (REGOPS src). regset_pool src' x = regset_pool src x)"
  using assms
proof (induction fuel arbitrary: src dest sz)
  case (Suc fuel)
  from Suc.prems(1) obtain src1 dest1 cs ds where iter: "unwind_iter m src dest = Inr (src1, dest1, cs, ds)"
    and rest: "(if first_frame (cs_id cs) then Inr (src1, dest1, sz + ucast (frame_size ds))
       else unwind_loop fuel m src1 dest1 (sz + ucast (frame_size ds))) = Inr (src', dest', sz')"
    by (auto simp: Let_def elim!: bindE_InrE)
  note it = unwind_iter_caller [OF iter Suc.prems(2,4)]
  have arch: "get_regops arch = Some (REGOPS src)" using Suc.prems(2) by (simp add: slots_ready_def)
  have one: "unwound_one src dest src1 dest1" using regset_iface.unwind_iter_effect [OF get_regops_iface [OF arch] iter refl] by simp
  then have o: "act src1 = act src + 1" "handle src1 = handle src" "act dest1 = act src1" using Suc.prems(3) by (auto simp: unwound_one_def dest: arg_cong [where f = act])
  show ?case
  proof (cases "first_frame (cs_id cs)")
    case True
    then have "src' = src1" using rest by simp
    moreover have "{act src<..act src1} = {act src + 1}" using o(1) by auto
    ultimately show ?thesis using it(1,3) by simp
  next
    case False
    then have run: "unwind_loop fuel m src1 dest1 (sz + ucast (frame_size ds)) = Inr (src', dest', sz')" using rest by simp
    have IH: "(\<forall>k \<in> {act src1<..act src'}. caller_of m arch src' k) \<and>
        (\<forall>x < (act src1 + 1) * regset_size (REGOPS src1). regset_pool src' x = regset_pool src1 x)"
      using Suc.IH [OF run it(2) o(3)] Suc.prems(4) by (simp add: o(2))
    from regset_iface.unwind_loop_effect [OF get_regops_iface [OF arch] run _ o(3)] obtain n where
      e: "handle src' = handle src1" "length (acts src') = length (acts src1)" "\<forall>k \<le> act src1. acts src' ! k = acts src1 ! k" "act src' = act src1 + n"
      by (auto simp: o(2))
    have "caller_of m arch src' (act src1)"
    proof (rule caller_of_cong [OF _ e(1) _ e(2)])
      show "get_regops arch = Some (REGOPS src1)" using arch by (simp add: o(2))
      show "caller_of m arch src1 (act src1)" using it(1) by (simp add: o(1))
      show "regs (acts src1 ! j) = Some (j * regset_size (REGOPS src1))" if "j \<le> act src1" for j using it(2) that by (simp add: slots_ready_def)
    qed (use e(3) IH o(1) in auto)
    moreover have "{act src<..act src'} = insert (act src1) {act src1<..act src'}" using o(1) e(4) by auto
    moreover have "regset_pool src' x = regset_pool src x" if "x < (act src + 1) * regset_size (REGOPS src)" for x
    proof -
      have "(act src + 1) * regset_size (REGOPS src) \<le> (act src1 + 1) * regset_size (REGOPS src1)" by (simp add: o)
      then have "regset_pool src' x = regset_pool src1 x" using IH that by (meson less_le_trans)
      then show ?thesis using it(3) [OF that] by simp
    qed
    ultimately show ?thesis using IH by simp
  qed
qed simp

lemma unwind_and_size_callers:
  assumes arch: "get_regops arch = Some (REGOPS src)" "get_properties arch = Some (PROPS src)"
    and run: "unwind_and_size m src dest = Inr (src', dest')"
    and start: "act src = 0" "act dest = 0" "num_acts src = 1"
    and first: "regs (acts src ! 0) = Some 0" "bits (callee_saved (acts src ! 0)) \<noteq> None" "valid_unwind (handle src) (site (acts src ! 0))"
    and valid: "\<forall>s \<in> set (sites_addr (handle src)). valid_unwind (handle src) s"
  shows "\<forall>k \<in> {1..<num_acts src'}. caller_of m arch src' k"
    and "\<forall>x < regset_size (REGOPS src). regset_pool src' x = regset_pool src x"
proof -
  obtain s d sz where loop: "unwind_loop (length (acts src)) m src dest 8 = Inr (s, d, sz)" and s': "src' = s\<lparr>act := 0\<rparr>"
    using run unfolding unwind_and_size_def Let_def by (elim bindE_InrE) (auto split: prod.splits elim!: bindE_InrE)
  have ready: "slots_ready arch src" using arch start first valid by (simp add: slots_ready_def)
  have c: "\<forall>k \<in> {0<..act s}. caller_of m arch s k" "\<forall>x < regset_size (REGOPS src). regset_pool s x = regset_pool src x"
    using unwind_loop_callers [OF loop ready _ valid] start by simp_all
  obtain n where "act s = n" "num_acts s = 1 + n"
    using regset_iface.unwind_loop_effect [OF get_regops_iface [OF arch(1)] loop refl] start by auto
  moreover have "caller_of m arch src' k = caller_of m arch s k" for k by (simp add: s' caller_of_def reg_val_def Let_def)
  ultimately show "\<forall>k \<in> {1..<num_acts src'}. caller_of m arch src' k" using c(1) by (auto simp: s')
  show "\<forall>x < regset_size (REGOPS src). regset_pool src' x = regset_pool src x" using c(2) by (simp add: s')
qed

text \<open>
  C1: Unwinding finds the live frames of the source stack and sizes the destination stack. Where the unwinding records
  are valid, a run that returns has found some number of frames, and each is the caller of the one before in memory: its
  registers are the ones its callee saved or still holds, its program counter is the return address, and its call site
  in the source table is the one of that address. The destination's site has the same number, the
  source frames are contiguous (each frame address is the previous one plus the frame's size), exactly the last one
  belongs to a starting function, the registers of the innermost activation are those the thread stopped with, and the destination's
  stack pointer is the aligned stack base less the sizes of all destination frames and the eight bytes of a pushed return address.
\<close>

theorem unwind_and_size_correct:
  assumes arch: "get_regops arch = Some (REGOPS src)" "get_properties arch = Some (PROPS src)"
    and run: "unwind_and_size m src dest = Inr (src', dest')"
    and start: "act src = 0" "act dest = 0" "num_acts src = 1" "num_acts dest = 1" "acts dest \<noteq> []"
    and first: "regs (acts src ! 0) = Some 0" "bits (callee_saved (acts src ! 0)) \<noteq> None"
    and valid: "\<forall>s \<in> insert (site (acts src ! 0)) (set (sites_addr (handle src))). valid_unwind (handle src) s"
  shows "\<exists>n>0. n < length (acts src) \<and> num_acts src' = n + 1 \<and> num_acts dest' = n + 1 \<and>
           act src' = 0 \<and> act dest' = 0 \<and>
           (\<forall>k\<in>{1..n}. caller_of m arch src' k \<and> frames_match src' dest' k) \<and>
           (\<forall>x < regset_size (REGOPS src). regset_pool src' x = regset_pool src x) \<and>
           (\<forall>k\<in>{1..<n}. \<not> first_frame (cs_id (site (acts src' ! k)))) \<and>
           first_frame (cs_id (site (acts src' ! n))) \<and>
           stack dest' = align_sp_op (PROPS dest) (stack_base dest - (8 + dest_size dest' 0 n)) \<and>
           cfa (acts dest' ! 0) = stack dest' + of_int (cfa_offset_funcentry (PROPS dest))"
proof -
  have c: "\<forall>k \<in> {1..<num_acts src'}. caller_of m arch src' k" "\<forall>x < regset_size (REGOPS src). regset_pool src' x = regset_pool src x"
    using unwind_and_size_callers [OF arch run start(1,2,3) first] valid by simp_all
  obtain n where "n > 0" "n < length (acts src)" "num_acts src' = n + 1" "num_acts dest' = n + 1" "act src' = 0" "act dest' = 0"
    "\<forall>k\<in>{1..n}. frames_match src' dest' k" "\<forall>k\<in>{1..<n}. \<not> first_frame (cs_id (site (acts src' ! k)))"
    "first_frame (cs_id (site (acts src' ! n)))" "stack dest' = align_sp_op (PROPS dest) (stack_base dest - (8 + dest_size dest' 0 n))"
    "cfa (acts dest' ! 0) = stack dest' + of_int (cfa_offset_funcentry (PROPS dest))"
    using unwind_and_size_effect [OF arch(1) run start] by blast
  then show ?thesis using c by (intro exI [of _ n]) auto
qed

section \<open>Unwinding ends\<close>

named_theorems no_div \<open>operations that never run out of fuel\<close>

lemma simple_no_div [no_div]:
  "arr xs i \<noteq> Inl Diverge" "deref p \<noteq> Inl Diverge" "require c Undef \<noteq> Inl Diverge"
  "upd_act k f ctx \<noteq> Inl Diverge" "ACT ctx \<noteq> Inl Diverge" "NEXT_ACT ctx \<noteq> Inl Diverge"
  "bitmap_set bp bm n \<noteq> Inl Diverge"
  by (auto simp: arr_def deref_def require_def upd_act_def ACT_def NEXT_ACT_def bitmap_set_def Let_def
      bindE_def split: option.splits)

lemma for_loop_no_div:
  "(\<And>i s. f i s \<noteq> Inl Diverge) \<Longrightarrow> for_loop a b f s \<noteq> Inl Diverge"
proof (induction a b f s rule: for_loop.induct)
  case (1 a b f s)
  then show ?case by (cases "a < b") (auto simp: bindE_eq_Inl)
qed

lemma switch_size_no_div: "switch_size defs gs r \<noteq> Inl Diverge"
  by (induction gs) (auto split: if_splits)

lemma switch_reg_no_div: "switch_reg defs ms cs r \<noteq> Inl Diverge"
  by (induction cs) (auto split: if_splits)

lemma arch_no_div:
  "get_regops arch = Some ops \<Longrightarrow> reg_op ops r \<noteq> Inl Diverge"
  "get_regops arch = Some ops \<Longrightarrow> ra_reg_op ops p b \<noteq> Inl Diverge"
  "get_properties arch = Some props \<Longrightarrow> callee_reg_size_op props r \<noteq> Inl Diverge"
  by (auto simp: get_regops_def get_properties_def reg_x86_64_def reg_aarch64_def reg_powerpc64_def
      ra_reg_x86_64_def ra_reg_aarch64_def ra_reg_powerpc64_def callee_reg_size_x86_64_def
      callee_reg_size_aarch64_def callee_reg_size_powerpc64_def switch_size_no_div switch_reg_no_div split: if_splits)

lemma site_search_no_div: "site_search key sites k mn mx \<noteq> Inl Diverge"
proof (induction key sites k mn mx rule: site_search.induct)
  case (1 key sites k mn mx)
  then show ?case
    by (subst site_search.simps) (auto simp: Let_def no_div bindE_eq_Inl split: if_splits)
qed

lemma get_site_no_div [no_div]:
  "get_site_by_addr h a \<noteq> Inl Diverge" "get_site_by_id h i \<noteq> Inl Diverge"
  by (simp_all add: get_site_by_addr_def get_site_by_id_def site_search_no_div)

lemma IN_RANGE_no_div [no_div]: "IN_RANGE tab i addr \<noteq> Inl Diverge"
  by (auto simp: IN_RANGE_def no_div bindE_eq_Inl split: if_splits)

lemma unwind_search_no_div: "unwind_search tab cnt addr mn mx \<noteq> Inl Diverge"
proof (induction tab cnt addr mn mx rule: unwind_search.induct)
  case (1 tab cnt addr mn mx)
  note IH = "1.IH" [OF _ refl]
  show ?case
    by (subst unwind_search.simps) (auto simp: Let_def no_div bindE_eq_Inl IH split: if_splits)
qed

lemma get_function_address_no_div [no_div]: "get_function_address h pc \<noteq> Inl Diverge"
  by (auto simp: get_function_address_def get_unwind_offset_by_addr_def unwind_search_no_div bindE_eq_Inl
      split: option.splits)

lemma calculate_cfa_no_div [no_div]: "calculate_cfa ctx k \<noteq> Inl Diverge"
  by (simp add: calculate_cfa_def no_div bindE_eq_Inl)

text \<open>A context of a supported architecture.\<close>

definition arch_ctx :: "u16 \<Rightarrow> rewrite_context \<Rightarrow> bool" where
  "arch_ctx arch ctx \<longleftrightarrow>
     get_regops arch = Some (REGOPS ctx) \<and> get_properties arch = Some (PROPS ctx)"

lemma arch_ctx_no_div:
  assumes "arch_ctx arch ctx"
  shows "reg_op (REGOPS ctx) r \<noteq> Inl Diverge" "ra_reg_op (REGOPS ctx) p b \<noteq> Inl Diverge"
    "callee_reg_size_op (PROPS ctx) r \<noteq> Inl Diverge"
  using assms arch_no_div unfolding arch_ctx_def by blast+

lemma pools_only_handle: "pools_only c c' \<Longrightarrow> handle c' = handle c"
  unfolding pools_only_def by (drule arg_cong [where f = handle]) simp

lemma restore_one_no_div: "arch_ctx arch ctx \<Longrightarrow> restore_one m k i ctx \<noteq> Inl Diverge"
  by (simp add: arch_ctx_no_div restore_one_def Let_def no_div bindE_eq_Inl)

lemma restore_loop_no_div:
  "arch_ctx arch ctx \<Longrightarrow> for_loop a b (restore_one m k) ctx \<noteq> Inl Diverge"
proof (induction a b "restore_one m k" ctx rule: for_loop.induct)
  case (1 a b ctx)
  have "arch_ctx arch c" if "restore_one m k a ctx = Inr c" for c
    using restore_one_shape [OF that] 1(2) by (simp add: pools_only_handle arch_ctx_def)
  then show ?case using 1 restore_one_no_div [OF 1(2)] by (cases "a < b") (auto simp: bindE_eq_Inl)
qed

lemma restore_callee_saved_no_div:
  assumes "arch_ctx arch ctx"
  shows "restore_callee_saved_regs m ctx k \<noteq> Inl Diverge"
proof -
  have "arch_ctx arch c" if "for_loop a b (restore_one m k) ctx = Inr c" for a b c
    using restore_loop_shape [OF that] that assms
    by (cases "a \<le> b") (auto simp: arch_ctx_def pools_only_handle)
  then show ?thesis
    using restore_loop_no_div [OF assms] arch_ctx_no_div
    by (simp add: restore_callee_saved_regs_def Let_def no_div bindE_eq_Inl if_distrib) metis
qed

lemma pop_frame_no_div:
  assumes "arch_ctx arch ctx"
  shows "pop_frame m ctx False \<noteq> Inl Diverge"
proof
  assume div: "pop_frame m ctx False = Inl Diverge"
  have "setup_regset ctx k \<noteq> Inl Diverge" "setup_callee_saved_bits ctx k \<noteq> Inl Diverge" for ctx k
    by (simp_all add: setup_regset_def setup_callee_saved_bits_def Let_def no_div bindE_eq_Inl)
  then obtain c1 c2 where 1: "setup_regset ctx (act ctx + 1) = Inr c1"
    "setup_callee_saved_bits c1 (act ctx + 1) = Inr c2"
    and 2: "restore_callee_saved_regs m c2 (act ctx + 1) = Inl Diverge"
    using div by (auto simp: pop_frame_def Let_def no_div bindE_eq_Inl)
  have "arch_ctx arch c2"
    using 1 assms by (auto simp: setup_regset_def setup_callee_saved_bits_def Let_def arch_ctx_def c_result)
  then show False using 2 restore_callee_saved_no_div by blast
qed

lemma unwind_iter_no_div:
  assumes "arch_ctx arch src"
  shows "unwind_iter m src dest \<noteq> Inl Diverge"
  using pop_frame_no_div [OF assms]
  by (simp add: unwind_iter_def Let_def no_div bindE_eq_Inl split: option.splits)

lemma unwind_loop_no_div:
  assumes "arch_ctx arch src" "act src < length (acts src)" "length (acts src) \<le> act src + fuel"
  shows "unwind_loop fuel m src dest sz \<noteq> Inl Diverge"
  using assms
proof (induction fuel arbitrary: src dest sz)
  case 0
  then show ?case by simp
next
  case (Suc fuel)
  have "unwind_loop fuel m s d z \<noteq> Inl Diverge"
    if "unwind_iter m src dest = Inr (s, d, cs, ds)" for s d cs ds z
  proof (rule Suc.IH)
    have one: "unwound_one src dest s d"
      using regset_iface.unwind_iter_effect [OF get_regops_iface that refl] Suc.prems(1)
      by (auto simp: arch_ctx_def)
    show "arch_ctx arch s" using one Suc.prems(1) by (simp add: unwound_one_def arch_ctx_def)
    show "act s < length (acts s)" "length (acts s) \<le> act s + fuel"
      using one Suc.prems(3) by (simp_all add: unwound_one_def)
  qed
  then show ?case
    using unwind_iter_no_div [OF Suc.prems(1)]
    by (auto simp: bindE_eq_Inl Let_def split: if_splits)
qed


section \<open>A small run\<close>

text \<open>
  A stack of two x86-64 frames, the outer one of a starting function, is unwound for AArch64. The
  process memory holds 7 in every byte, so the return address of the inner frame is
  \<open>0x0707070707070707\<close>.
\<close>

definition example_site :: call_site where
  "example_site = ZERO_CALL_SITE\<lparr>cs_id := -1, cs_addr := 0x0707070707070707, frame_size := 32\<rparr>"

definition example_src :: rewrite_context where
  "example_src = example_ctx\<lparr>num_acts := 1, handle := example_handle
     \<lparr>sites_count := 1, sites_addr := [example_site],
      unwind_addr_count := 1, unwind_addrs := [\<lparr>ua_addr = 0, ua_num_unwind = 2, ua_unwind_offset = 0\<rparr>]\<rparr>\<rparr>"

definition example_dest :: rewrite_context where
  "example_dest = (zero_context ((blank_handle ''b.out'' regs_aarch64 properties_aarch64)
     \<lparr>sites_count := 1, sites_id := [example_site\<lparr>cs_addr := 0x400, frame_size := 48\<rparr>]\<rparr>))
     \<lparr>num_acts := 1, stack_base := 0x9000\<rparr>"

lemma example_pair_simps [simp]:
  "acts example_src = acts example_ctx" "act example_src = 0" "num_acts example_src = 1"
  "REGOPS example_src = regs_x86_64" "PROPS example_src = properties_x86_64"
  "act example_dest = 0" "num_acts example_dest = 1" "stack_base example_dest = 0x9000"
  "length (acts example_dest) = 512" 
  "REGOPS example_dest = regs_aarch64" "PROPS example_dest = properties_aarch64"
  "get_site_by_addr (handle example_src) 0x0707070707070707 = Inr (Some example_site)"
  "get_site_by_id (handle example_dest) (-1) = Inr (Some (example_site\<lparr>cs_addr := 0x400, frame_size := 48\<rparr>))"
  "get_function_address (handle example_src) pc = Inr 0"
  "cs_id example_site = -1" "frame_size example_site = 32"
  by (simp_all add: example_src_def example_dest_def example_ctx_def zero_context_def blank_handle_def
      get_site_by_addr_def get_site_by_id_def site_search.simps unwind_search.simps MAX_FRAMES_def
      get_function_address_def get_unwind_offset_by_addr_def example_site_def Let_def)

lemma example_dest_acts [simp]: "acts example_dest \<noteq> []"
  using example_pair_simps(9) by (metis list.size(3) zero_neq_numeral)

lemma example_unwind:
  "\<exists>s d. unwind_and_size (\<lambda>_. 7) example_src example_dest = Inr (s, d) \<and> num_acts s = 2 \<and>
     length (acts s) = 512 \<and> act d = 0 \<and> handle d = handle example_dest \<and> length (acts d) = 512 \<and>
     regs (acts d ! 0) = Some 0 \<and> site (acts d ! 1) = example_site\<lparr>cs_addr := 0x400, frame_size := 48\<rparr>"
proof -
  have r: "ready EM_X86_64 example_src" by (simp add: ready_def get_regops_def get_properties_def)
  have u: "valid_unwind (handle example_src) (site (acts example_src ! 0))"
    "unwind_slice (handle example_src) (site (acts example_src ! 0)) = unwind_locs example_handle"
    using example_valid_unwind
    by (simp_all add: example_src_def valid_unwind_def unwind_slice_def ZERO_CALL_SITE_def EMPTY_CALL_SITE_def)
  obtain c where c: "pop_frame (\<lambda>_. 7) example_src False = Inr c" "act c = 1" "handle c = handle example_src"
    and pc: "pc_op regs_x86_64 (regset_pool c) (1 * regset_size regs_x86_64) = 0x0707070707070707"
    using pop_frame_caller [OF r refl _ refl refl, where m = "\<lambda>_. 7"] u
    by (auto simp: ra_number_def load64_const_7)
  obtain p q where p: "c = popped example_src False p q" using pop_frame_shape [OF c(1)] by blast
  obtain s d where it: "unwind_iter (\<lambda>_. 7) example_src example_dest =
      Inr (s, d, example_site, example_site\<lparr>cs_addr := 0x400, frame_size := 48\<rparr>)"
    and s: "handle s = handle example_src" "length (acts s) = 512" "regs (acts s ! 0) = Some 0"
      "handle d = handle example_dest" "length (acts d) = 512"
      "num_acts s = 2" "act d = 1" "site (acts d ! 1) = example_site\<lparr>cs_addr := 0x400, frame_size := 48\<rparr>"
    using pc popped_acts [of example_src] c
    by (simp add: unwind_iter_def p ACT_def Let_def calculate_cfa_def)
  have "unwind_loop (Suc 511) (\<lambda>_. 7) example_src example_dest 8 = Inr (s, d, 8 + 48)"
    unfolding unwind_loop.simps it by (simp add: first_frame_def)
  moreover have "length (acts example_src) = Suc 511" by simp
  ultimately show ?thesis
    using s unfolding unwind_and_size_def
    by (simp add: Let_def bootstrap_funcentry_eq ACT_def)
qed

theorem unwind_and_size_correct_witness:
  "\<exists>s d. unwind_and_size (\<lambda>_. 7) example_src example_dest = Inr (s, d) \<and>
     1 < num_acts s \<and> num_acts d = num_acts s \<and> frames_match s d 1 \<and> caller_of (\<lambda>_. 7) EM_X86_64 s 1"
proof -
  obtain s d where run: "unwind_and_size (\<lambda>_. 7) example_src example_dest = Inr (s, d)"
    using example_unwind by blast
  have arch: "get_regops EM_X86_64 = Some (REGOPS example_src)" "get_properties EM_X86_64 = Some (PROPS example_src)"
    by (simp_all add: get_regops_def get_properties_def)
  have "sites_addr (handle example_src) = [example_site]" by (simp add: example_src_def)
  moreover have "valid_unwind (handle example_src) (site (acts example_src ! 0))"
    using example_valid_unwind by (simp add: example_src_def valid_unwind_def unwind_slice_def ZERO_CALL_SITE_def EMPTY_CALL_SITE_def)
  moreover have "valid_unwind (handle example_src) example_site"
    by (simp add: example_site_def example_src_def valid_unwind_def unwind_slice_def ZERO_CALL_SITE_def EMPTY_CALL_SITE_def)
  ultimately show ?thesis
    using unwind_and_size_correct [OF arch run] run by force
qed


end
