(* ===== verification/Rewrite_Frames.thy ===== *)
theory Rewrite_Frames
  imports Rewrite_Unwind
begin

text \<open>
  Rewriting frame by frame (the rest of \<open>lib/stack_transformation/src/rewrite.c\<close>): what rewriting a
  frame leaves alone, the chain of destination frames, the fix-ups, and the driver.
\<close>

section \<open>What rewriting a frame leaves alone\<close>

text \<open>
  Rewriting the values of a frame writes memory, registers and the list of fix-ups; the activations
  of the destination, its bounds and its position are not touched.
\<close>

definition frames_kept :: "rewrite_context \<Rightarrow> rewrite_context \<Rightarrow> bool" where
  "frames_kept d d' \<longleftrightarrow>
     act d' = act d \<and> acts d' = acts d \<and> handle d' = handle d \<and> num_acts d' = num_acts d \<and>
     stack d' = stack d \<and> stack_base d' = stack_base d \<and> callee_saved_pool d' = callee_saved_pool d \<and>
     ctx_regs d' = ctx_regs d"

lemma frames_kept_refl [simp]: "frames_kept d d"
  by (simp add: frames_kept_def)

lemma frames_kept_upd [simp]:
  "frames_kept d (e\<lparr>stack_pointers := fs\<rparr>) = frames_kept d e"
  "frames_kept (e\<lparr>stack_pointers := fs\<rparr>) d = frames_kept e d"
  "frames_kept d (e\<lparr>regset_pool := p\<rparr>) = frames_kept d e"
  by (simp_all add: frames_kept_def)

lemma frames_kept_trans: "frames_kept a b \<Longrightarrow> frames_kept b c \<Longrightarrow> frames_kept a c"
  by (simp add: frames_kept_def)

lemma write_ptr_kept: "write_ptr m d p bs = Inr (m', d') \<Longrightarrow> frames_kept d d'"
  by (cases p) (auto simp: write_ptr_def)

lemma put_val_kept: "put_val m src sv d dv = Inr (m', d') \<Longrightarrow> frames_kept d d'"
  by (auto simp: put_val_def split: if_splits elim!: bindE_InrE
      dest!: write_ptr_kept intro: frames_kept_trans)

lemma put_val_data_kept: "put_val_data m d v k x = Inr (m', d') \<Longrightarrow> frames_kept d d'"
  by (auto simp: put_val_data_def split: if_splits elim!: bindE_InrE
      dest!: write_ptr_kept intro: frames_kept_trans)

lemma apply_arch_operation_kept: "apply_arch_operation m d p q v = Inr (m', d') \<Longrightarrow> frames_kept d d'"
  by (auto simp: apply_arch_operation_def split: if_splits elim!: bindE_InrE
      dest!: write_ptr_kept intro: frames_kept_trans)

lemma put_val_arch_kept: "put_val_arch m d v = Inr (m', d') \<Longrightarrow> frames_kept d d'"
  by (auto simp: put_val_arch_def elim!: bindE_InrE intro: apply_arch_operation_kept)

lemma resolve_fixups_kept:
  "resolve_fixups m src sv d dv fs = Inr (m', d', fs') \<Longrightarrow> frames_kept d d'"
proof (induction m src sv d dv fs arbitrary: m' d' fs' rule: resolve_fixups.induct)
  case (1 m src sv d dv)
  then show ?case by simp
next
  case (2 m src sv d dv f fs)
  then show ?case
  proof (cases "points_to_data src sv d dv (src_addr f)")
    case (Inr x)
    note IH = "2.IH" [OF Inr]
    show ?thesis
    proof (cases "x = 0")
      case True
      then obtain k where "resolve_fixups m src sv d dv fs = Inr (m', d', k)"
        using "2.prems" Inr by (auto elim!: bindE_InrE)
      then show ?thesis using IH(2) True by blast
    next
      case False
      then obtain m1 d1 where p: "put_val_data m d (dest_loc f) (fx_act f) x = Inr (m1, d1)"
        and r: "resolve_fixups m1 src sv d1 dv fs = Inr (m', d', fs')"
        using "2.prems" Inr by (auto elim!: bindE_InrE)
      show ?thesis
        by (rule frames_kept_trans [OF put_val_data_kept [OF p] IH(1) [OF False p refl r]])
    qed
  qed simp
qed

lemma rewrite_val_kept:
  assumes "rewrite_val m src sv d dv = Inr (b, m', d')"
  shows "frames_kept d d'"
  using assms
  by (auto simp: rewrite_val_def Let_def split: if_splits elim!: bindE_InrE
      dest!: put_val_kept resolve_fixups_kept) (blast intro: frames_kept_trans)+

lemma rewrite_duplicates_kept:
  "rewrite_duplicates vals cnt off m src v d j needs = Inr (r, m', d', j') \<Longrightarrow> frames_kept d d'"
proof (induction vals cnt off m src v d j needs rule: rewrite_duplicates.induct)
  case (1 vals cnt off m src v d j needs)
  show ?case
  proof (cases "j + 1 + off < unat cnt \<and> (\<exists>x. arr vals (j + 1 + off) = Inr x \<and> is_duplicate x)")
    case False
    then show ?thesis
      using "1.prems" by (subst (asm) rewrite_duplicates.simps) (auto split: if_splits elim!: bindE_InrE)
  next
    case True
    then obtain x where x: "j + 1 + off < unat cnt" "arr vals (j + 1 + off) = Inr x" "is_duplicate x"
      by blast
    from "1.prems" x obtain b1 m1 d1 where r: "rewrite_val m src v d x = Inr (b1, m1, d1)"
      and rest: "rewrite_duplicates vals cnt off m1 src v d1 (j + 1) (needs \<or> b1) = Inr (r, m', d', j')"
      by (subst (asm) rewrite_duplicates.simps) (auto elim!: bindE_InrE)
    have "frames_kept d1 d'" by (rule "1.IH" [OF x r refl refl rest])
    then show ?thesis using rewrite_val_kept [OF r] by (blast intro: frames_kept_trans)
  qed
qed

lemma rewrite_values_kept:
  "rewrite_values m src d n soff doff i j needs = Inr (r, m', d') \<Longrightarrow> frames_kept d d'"
proof (induction m src d n soff doff i j needs rule: rewrite_values.induct)
  case (1 m src d n soff doff i j needs)
  show ?case
  proof (cases "j < n")
    case False
    then show ?thesis using "1.prems" by (simp add: rewrite_values.simps)
  next
    case True
    from "1.prems" True obtain vs vd b1 m1 d1 b2 m2 d2 j' i' where
      s: "arr (live_vals (handle src)) (i + soff) = Inr vs" "arr (live_vals (handle d)) (j + doff) = Inr vd"
      "rewrite_val m src vs d vd = Inr (b1, m1, d1)"
      "rewrite_duplicates (live_vals (handle d1)) (live_vals_count (handle d1)) doff
                 m1 src vs d1 j (needs \<or> b1) = Inr (b2, m2, d2, j')"
      "skip_counted (live_vals (handle src)) (live_vals_count (handle src)) soff i = Inr i'"
      "rewrite_values m2 src d2 n soff doff (i' + 1) (j' + 1) b2 = Inr (r, m', d')"
      by (subst (asm) rewrite_values.simps) (auto elim!: bindE_InrE)
    have "frames_kept d2 d'" by (rule "1.IH" [OF True s(1-3) refl refl s(4) refl refl refl s(5,6)])
    then show ?thesis
      using rewrite_val_kept [OF s(3)] rewrite_duplicates_kept [OF s(4)] by (blast intro: frames_kept_trans)
  qed
qed

lemma local_loop_kept:
  "local_loop fuel m src d found kept fs = Inr (m', d') \<Longrightarrow> frames_kept d d'"
proof (induction fuel m src d found kept fs arbitrary: m' d' rule: local_loop.induct)
  case (3 fuel m src d found kept f fs)
  from "3.prems" obtain a where a: "ACT src = Inr a" by (auto elim!: bindE_InrE)
  consider (far) "\<not> src_addr f \<le> cfa a" | (other) "src_addr f \<le> cfa a" "fx_act f \<noteq> act src"
    | (here) "src_addr f \<le> cfa a" "\<not> fx_act f \<noteq> act src" by blast
  then show ?case
  proof cases
    case far
    then obtain g where g: "deref found = Inr g" using "3.prems" a by (auto elim!: bindE_InrE)
    show ?thesis
      using "3.prems" a g far "3.IH"(4,5) [OF a far g] by (cases g) simp_all
  next
    case other
    then show ?thesis using "3.prems" a "3.IH"(1) [OF a other] by simp
  next
    case here
    then obtain da r where da: "ACT d = Inr da" and r: "find_local src d (src_addr f) (unat (num_live (site da)))
        (unat (live_offset (site a))) (unat (live_offset (site da))) 0 0 = Inr r"
      using "3.prems" a by (auto elim!: bindE_InrE)
    note IH = "3.IH"(2) [OF a here da r] "3.IH"(3) [OF a here da r]
    show ?thesis
    proof (cases r)
      case None
      then show ?thesis using "3.prems" a here da r IH(1) by simp
    next
      case (Some x)
      then obtain m1 d1 where p: "put_val_data m d (dest_loc f) (fx_act f) x = Inr (m1, d1)"
        and l: "local_loop fuel m1 src d1 (Some True) kept fs = Inr (m', d')"
        using "3.prems" a here da r by (auto elim!: bindE_InrE)
      show ?thesis
        by (rule frames_kept_trans [OF put_val_data_kept [OF p] IH(2) [OF Some p refl l]])
    qed
  qed
qed auto

lemma fixup_local_pointers_kept:
  "fixup_local_pointers m src d = Inr (m', d') \<Longrightarrow> frames_kept d d'"
  unfolding fixup_local_pointers_def by (rule local_loop_kept)

lemma arch_loop_kept:
  assumes "for_loop 0 n (\<lambda>i (m, d). bindE (arr (arch_live_vals (handle d)) (i + off)) (\<lambda>v. put_val_arch m d v))
             (m, d) = Inr (m', d')"
  shows "frames_kept d d'"
proof -
  have "frames_kept d (snd (m', d'))"
    by (rule for_loop_inv [where P = "\<lambda>_ s. frames_kept d (snd s)", OF assms])
      (auto elim!: bindE_InrE dest!: put_val_arch_kept intro: frames_kept_trans)
  then show ?thesis by simp
qed

lemma rewrite_frame_kept:
  assumes "rewrite_frame m src d = Inr (m', d')"
  shows "frames_kept d d'"
  using assms unfolding rewrite_frame_def
  by (auto elim!: bindE_InrE split: if_splits
      dest!: rewrite_values_kept arch_loop_kept fixup_local_pointers_kept)
    (blast intro: frames_kept_trans)+

section \<open>The chain of destination frames\<close>

text \<open>
  The destination after \<open>k\<close> frames: the activations up to \<open>k\<close> have their frame addresses, each the
  previous one plus the frame's size, and no call site has changed.
\<close>

definition chained :: "rewrite_context \<Rightarrow> nat \<Rightarrow> rewrite_context \<Rightarrow> bool" where
  "chained d0 k d \<longleftrightarrow>
     act d = k \<and> k < length (acts d0) \<and> length (acts d) = length (acts d0) \<and> handle d = handle d0 \<and>
     (\<forall>j. site (acts d ! j) = site (acts d0 ! j)) \<and>
     (\<forall>j\<le>k. cfa (acts d ! j) = cfa (acts d0 ! 0) + dest_size d0 0 j)"

lemma dest_size_Suc:
  "dest_size d 0 (Suc k) = dest_size d 0 k + ucast (frame_size (site (acts d ! Suc k)))"
proof -
  have "{0<..Suc k} = insert (Suc k) {0<..k}" by auto
  then show ?thesis by (simp add: dest_size_def add.commute)
qed

lemma chained_kept: "chained d0 k d \<Longrightarrow> frames_kept d d' \<Longrightarrow> chained d0 k d'"
  by (simp add: chained_def frames_kept_def)

lemma chained_popped:
  assumes c: "chained d0 k d" and i: "regset_iface (REGOPS d0)" and len: "act d + 1 < length (acts d)"
    and d': "act d' = act d + 1" "acts d' = acts (popped d True p q)" "handle d' = handle d"
  shows "chained d0 (k + 1) d'"
proof -
  have k: "act d = k" "REGOPS d = REGOPS d0" "length (acts d) = length (acts d0)"
    "handle d = handle d0" "\<forall>j. site (acts d ! j) = site (acts d0 ! j)"
    "\<forall>j\<le>k. cfa (acts d ! j) = cfa (acts d0 ! 0) + dest_size d0 0 j"
    using c by (simp_all add: chained_def)
  have "site (acts d' ! j) = site (acts d0 ! j)" for j
    using popped_acts [OF len] k(5) d'(2) by (cases "j = act d + 1") simp_all
  moreover have "cfa (acts d' ! j) = cfa (acts d0 ! 0) + dest_size d0 0 j" if "j \<le> k + 1" for j
  proof (cases "j = k + 1")
    case True
    have "cfa (acts d' ! (k + 1)) = cfa (acts d ! k) + ucast (frame_size (site (acts d ! (k + 1))))"
      using regset_iface.popped_cfa [OF i k(2) len] d'(2) k(1) by simp
    then show ?thesis using True k(5,6) by (simp add: dest_size_Suc)
  next
    case False
    then show ?thesis using popped_acts(1) [OF len] d'(2) k that by simp
  qed
  ultimately show ?thesis using k len d' by (simp add: chained_def)
qed

lemma rewrite_step_chained:
  assumes run: "rewrite_step src k (m, d) = Inr (m', d')" and c: "chained d0 k d"
    and i: "regset_iface (REGOPS d0)"
  shows "chained d0 (k + 1) d'"
proof -
  from run [unfolded rewrite_step_def Let_def] obtain m1 m2 d1 where
    f: "rewrite_frame m1 (src\<lparr>act := k\<rparr>) d = Inr (m2, d1)" and pop: "pop_frame m2 d1 True = Inr d'"
    by (auto elim!: bindE_InrE)
  obtain p q where d': "d' = popped d1 True p q" and len: "act d1 + 1 < length (acts d1)"
    using pop_frame_shape [OF pop] by blast
  show ?thesis
    by (rule chained_popped [OF chained_kept [OF c rewrite_frame_kept [OF f]] i len]) (simp_all add: d')
qed

lemma rewrite_frames_chained:
  assumes run: "rewrite_frames m src d = Inr (m', src', d')"
    and a: "act d = 0" "regset_iface (REGOPS d)"
  shows "chained d (max 1 (num_acts src - 1)) d' \<and> act src' = max 1 (num_acts src - 1)"
proof -
  from run [unfolded rewrite_frames_def] obtain m1 d1 d2 m3 d3 m4 where
    ra: "\<exists>x. set_return_address_funcentry m d x = Inr (m1, d1)"
    and pop: "pop_frame_funcentry m1 d1 = Inr d2"
    and loop: "for_loop 1 (num_acts src - 1) (rewrite_step src) (m1, d2) = Inr (m3, d3)"
    and f: "rewrite_frame m3 (src\<lparr>act := max 1 (num_acts src - 1)\<rparr>) d3 = Inr (m4, d')"
    and s: "src' = src\<lparr>act := max 1 (num_acts src - 1)\<rparr>"
    by (auto simp: Let_def simp del: One_nat_def elim!: bindE_InrE) blast
  have k: "frames_kept d d1" using ra
    by (auto simp: set_return_address_funcentry_def split: if_splits elim!: bindE_InrE)
  obtain p p' where d2: "d2 = (popped d1 True p (callee_saved_pool d1))\<lparr>regset_pool := p'\<rparr>"
    and len: "act d1 + 1 < length (acts d1)" using pop_frame_funcentry_shape [OF pop] by blast
  have "chained d 0 d" using len k a by (auto simp: chained_def dest_size_def frames_kept_def)
  from chained_popped [OF chained_kept [OF this k] a(2) len, of d2 p "callee_saved_pool d1"]
  have 1: "chained d 1 d2" by (simp add: d2)
  have "chained d (max 1 (num_acts src - 1)) d3"
  proof (cases "1 \<le> num_acts src - 1")
    case True
    have "chained d (num_acts src - 1) (snd (m3, d3))"
      by (rule for_loop_inv [where P = "\<lambda>k s. chained d k (snd s)", OF loop])
        (use True 1 a(2) rewrite_step_chained in auto)
    then show ?thesis using True by (simp add: max_absorb2)
  next
    case False
    then have "max 1 (num_acts src - 1) = 1" by simp
    then show ?thesis using False loop 1 by simp
  qed
  then show ?thesis using chained_kept rewrite_frame_kept [OF f] s by auto
qed

lemma entry_cfa_bound:
  assumes "get_properties arch = Some props" "24 \<le> unat sp"
  shows "unat (align_sp_op props sp + of_int (cfa_offset_funcentry props)) \<le> unat sp"
proof -
  have x: "unat (align_sp_x86_64 sp + 8) \<le> unat sp"
  proof -
    have "unat (align_sp_x86_64 sp) + 8 \<le> unat sp"
      using assms(2) mod_less_divisor [of 16 "unat sp"] by (simp add: align_sp_x86_64_unat)
    moreover have "unat sp < 2 ^ 64" by (rule unat_64)
    ultimately show ?thesis by (simp add: unat_word_ariths)
  qed
  have "unat (align_sp_aarch64 sp) \<le> unat sp"
    using assms(2) mod_less_divisor [of 16 "unat sp"] by (simp add: align_sp_aarch64_unat)
  moreover have "unat (align_sp_powerpc64 sp) \<le> unat sp"
  proof -
    have "unat sp div 8 * 8 - 8 \<le> unat sp" by (rule le_trans [OF diff_le_self]) simp
    then show ?thesis using assms(2) by (simp add: align_sp_powerpc64_unat)
  qed
  ultimately show ?thesis
    using x assms(1) by (auto simp: get_properties_def properties_x86_64_def properties_aarch64_def
        properties_powerpc64_def split: if_splits)
qed

definition frames_total :: "rewrite_context \<Rightarrow> nat \<Rightarrow> nat" where
  "frames_total d j = (\<Sum>k\<in>{0<..j}. unat (frame_size (site (acts d ! k))))"

lemma frames_total_mono: "i \<le> j \<Longrightarrow> frames_total d i \<le> frames_total d j"
  unfolding frames_total_def by (rule sum_mono2) auto

lemma unat_dest_size: "frames_total d j < 2 ^ 64 \<Longrightarrow> unat (dest_size d 0 j) = frames_total d j"
proof (induction j)
  case 0
  then show ?case by (simp add: dest_size_def frames_total_def)
next
  case (Suc j)
  have S: "frames_total d (Suc j) = frames_total d j + unat (frame_size (site (acts d ! Suc j)))"
  proof -
    have "{0<..Suc j} = insert (Suc j) {0<..j}" by auto
    then show ?thesis by (simp add: frames_total_def)
  qed
  then have "unat (dest_size d 0 j) = frames_total d j" using Suc by simp
  then show ?case
    using Suc.prems S by (simp add: dest_size_Suc unat_word_ariths unat_ucast_up)
qed

text \<open>
  C2: The rewritten stack fits. For any supported pair of architectures, when the destination has
  room for its frames below the stack base, the destination frames built by the rewriting loop are
  as many as the source frames found, lie one directly above the other with the sizes their call
  sites give, and the outermost one ends at least eight bytes below the stack base: nothing is laid
  out past the end of the new stack.
\<close>

theorem rewritten_frames_fit:
  assumes src: "get_regops arch_s = Some (REGOPS src)" and dest: "arch_ctx arch_d dest"
    and start: "act src = 0" "act dest = 0" "num_acts src = 1" "num_acts dest = 1" "acts dest \<noteq> []"
    and unwind: "unwind_and_size m src dest = Inr (s1, d1)"
    and rewrite: "rewrite_frames m s1 d1 = Inr (m', s2, d2)"
    and room: "32 + frames_total d1 (num_acts s1 - 1) \<le> unat (stack_base dest)"
  shows "act d2 = num_acts s1 - 1 \<and> act s2 = act d2 \<and>
         (\<forall>j < act d2. unat (cfa (acts d2 ! Suc j)) =
            unat (cfa (acts d2 ! j)) + unat (frame_size (site (acts d2 ! Suc j)))) \<and>
         (\<forall>j \<le> act d2. site (acts d2 ! j) = site (acts d1 ! j)) \<and>
         unat (cfa (acts d2 ! act d2)) + 8 \<le> unat (stack_base dest)"
proof -
  let ?c = "cfa (acts d1 ! 0)"
  obtain n where n: "0 < n" "num_acts s1 = n + 1" and a: "act d1 = 0"
    and sp: "stack d1 = align_sp_op (PROPS dest) (stack_base dest - (8 + dest_size d1 0 n))"
    and c: "?c = stack d1 + of_int (cfa_offset_funcentry (PROPS dest))"
    and "handle d1 = handle dest"
    using unwind_and_size_effect [OF src unwind start] by blast
  then have "regset_iface (REGOPS d1)" using dest by (auto simp: arch_ctx_def intro: get_regops_iface)
  from rewrite_frames_chained [OF rewrite a this]
  have ch: "chained d1 n d2" and s2: "act s2 = n" using n by (simp_all add: max_absorb2)
  have room': "32 + frames_total d1 n \<le> unat (stack_base dest)" using room n by simp
  have lt: "frames_total d1 n + 32 < 2 ^ 64" using room' unat_64 [of "stack_base dest"] by simp
  have "unat (8 + dest_size d1 0 n) = 8 + frames_total d1 n"
    using lt by (simp add: unat_word_ariths unat_dest_size)
  then have sub: "unat (stack_base dest - (8 + dest_size d1 0 n)) = unat (stack_base dest) - (8 + frames_total d1 n)"
    using room' by (subst unat_sub) (simp_all add: word_le_nat_alt)
  have cb: "unat ?c + 8 + frames_total d1 n \<le> unat (stack_base dest)"
  proof -
    have p: "get_properties arch_d = Some (PROPS dest)" using dest by (simp add: arch_ctx_def)
    have "24 \<le> unat (stack_base dest - (8 + dest_size d1 0 n))" using room' by (simp add: sub)
    from entry_cfa_bound [OF p this]
    have "unat ?c \<le> unat (stack_base dest) - (8 + frames_total d1 n)" by (simp add: c sp sub)
    then show ?thesis using room' by linarith
  qed
  have cfa_j: "unat (cfa (acts d2 ! j)) = unat ?c + frames_total d1 j" if "j \<le> n" for j
  proof -
    have le: "frames_total d1 j \<le> frames_total d1 n" using that by (rule frames_total_mono)
    then have "unat ?c + frames_total d1 j < 2 ^ 64"
      using cb unat_64 [of "stack_base dest"] by simp
    then show ?thesis
      using ch that le lt by (simp add: chained_def unat_word_ariths unat_dest_size)
  qed
  have "frames_total d1 (Suc j) = frames_total d1 j + unat (frame_size (site (acts d1 ! Suc j)))" for j
  proof -
    have "{0<..Suc j} = insert (Suc j) {0<..j}" by auto
    then show ?thesis by (simp add: frames_total_def)
  qed
  then show ?thesis using n s2 ch cfa_j cb by (auto simp: chained_def)
qed

lemma example_rewrite:
  assumes "num_acts s = 2" "length (acts s) = 512" "act d = 0" "handle d = handle example_dest" "length (acts d) = 512"
    "regs (acts d ! 0) = Some 0" "site (acts d ! 1) = example_site\<lparr>cs_addr := 0x400, frame_size := 48\<rparr>"
  shows "\<exists>r. rewrite_frames m s d = Inr r"
proof -
  have "num_live example_site = 0" "num_arch_live example_site = 0"
    by (simp_all add: example_site_def ZERO_CALL_SITE_def EMPTY_CALL_SITE_def)
  then show ?thesis
    using assms
    by (simp add: rewrite_frames_def NEXT_ACT_def ACT_def set_return_address_funcentry_def
       pop_frame_funcentry_def setup_regset_def setup_callee_saved_bits_def setup_frame_bounds_eq
       rewrite_frame_def rewrite_values.simps Let_def set_ra_reg_aarch64_def ra_reg_aarch64_def)
qed

theorem rewritten_frames_fit_witness:
  "\<exists>s d m' s2 d2. unwind_and_size (\<lambda>_. 7) example_src example_dest = Inr (s, d) \<and>
     rewrite_frames (\<lambda>_. 7) s d = Inr (m', s2, d2) \<and> act d2 = 1 \<and>
     unat (cfa (acts d2 ! 1)) = unat (cfa (acts d2 ! 0)) + 48 \<and> unat (cfa (acts d2 ! 1)) + 8 \<le> 0x9000"
proof -
  obtain s d where run: "unwind_and_size (\<lambda>_. 7) example_src example_dest = Inr (s, d)"
    and sd: "num_acts s = 2" "length (acts s) = 512" "act d = 0" "handle d = handle example_dest"
      "length (acts d) = 512" "regs (acts d ! 0) = Some 0"
      "site (acts d ! 1) = example_site\<lparr>cs_addr := 0x400, frame_size := 48\<rparr>"
    using example_unwind by blast
  obtain m' s2 d2 where rw: "rewrite_frames (\<lambda>_. 7) s d = Inr (m', s2, d2)"
    using example_rewrite [OF sd] by (metis prod_cases3)
  have "{0<..1} = {Suc 0}" by auto
  then have "frames_total d 1 = 48" using sd(7) by (simp add: frames_total_def)
  moreover have "get_regops EM_X86_64 = Some (REGOPS example_src)" "arch_ctx EM_AARCH64 example_dest"
    by (simp_all add: get_regops_def get_properties_def arch_ctx_def)
  ultimately show ?thesis
    using rewritten_frames_fit [of EM_X86_64 example_src EM_AARCH64 example_dest "\<lambda>_. 7" s d m' s2 d2]
      run rw sd by auto
qed

section \<open>The list of fix-ups\<close>

text \<open>
  A fix-up beyond the frame when an earlier one of the frame has been resolved: the variable that
  records this stays set, so the list is not advanced.
\<close>

lemma local_loop_stuck:
  "ACT src = Inr a \<Longrightarrow> cfa a < src_addr f \<Longrightarrow>
   local_loop fuel m src d (Some True) kept (f # fs) = Inl Diverge"
  by (induction fuel) (simp_all add: not_le [symmetric] del: not_le)

text \<open>
  Resolving the pointers within a frame does not return when a pointer to the frame itself is
  followed, in the list of fix-ups, by a pointer beyond it. After the first one has been resolved
  the loop stays at the second for ever, however many iterations it is given.
\<close>

theorem fixup_local_pointers_runs_on:
  assumes "ACT src = Inr a" "ACT d = Inr da"
    and own: "src_addr f \<le> cfa a" "fx_act f = act src" and beyond: "cfa a < src_addr g"
    and found: "find_local src d (src_addr f) (unat (num_live (site da)))
                  (unat (live_offset (site a))) (unat (live_offset (site da))) 0 0 = Inr (Some x)"
    and wrote: "put_val_data m d (dest_loc f) (fx_act f) x = Inr (m', d')"
  shows "local_loop fuel m src d None [] (f # g # rest) = Inl Diverge"
proof (cases fuel)
  case (Suc n)
  then show ?thesis
    using assms local_loop_stuck [OF assms(1) beyond, of n m' d' "[]" rest] by simp
qed simp

text \<open>
  When the first fix-up already points beyond the frame, the loop reads the variable before
  anything has set it.
\<close>

theorem fixup_local_pointers_uninitialized:
  assumes "ACT src = Inr a" "stack_pointers d = f # fs" "cfa a < src_addr f"
  shows "fixup_local_pointers m src d = Inl Undef"
  using assms by (simp add: fixup_local_pointers_def not_le [symmetric] del: not_le)

lemma ptr_no_div [no_div]:
  "read_ptr m d p n \<noteq> Inl Diverge" "write_ptr m d p bs \<noteq> Inl Diverge"
  by (cases p; simp add: read_ptr_def write_ptr_def)+


lemma loc_no_div:
  assumes "arch_ctx arch c"
  shows "reg_loc c k r \<noteq> Inl Diverge" "get_val_loc c t r off k \<noteq> Inl Diverge"
    "get_dest_loc c v k \<noteq> Inl Diverge"
  using arch_ctx_no_div [OF assms]
  by (auto simp: reg_loc_def get_val_loc_def get_dest_loc_def no_div bindE_eq_Inl)

lemma find_save_record_no_div: "find_save_record locs r i e \<noteq> Inl Diverge"
proof (induction locs r i e rule: find_save_record.induct)
  case (1 locs r i e)
  then show ?case by (subst find_save_record.simps) (auto simp: no_div bindE_eq_Inl)
qed

lemma bitmap_is_set_no_div [no_div]: "bitmap_is_set p bm n \<noteq> Inl Diverge"
  by (auto simp: bitmap_is_set_def Let_def no_div bindE_eq_Inl)

lemma get_register_save_loc_no_div [no_div]: "get_register_save_loc c a r \<noteq> Inl Diverge"
  by (auto simp: get_register_save_loc_def Let_def no_div find_save_record_no_div bindE_eq_Inl split: option.splits)

lemma callee_saved_walk_no_div: "arch_ctx arch c \<Longrightarrow> callee_saved_walk c r k \<noteq> Inl Diverge"
  by (induction k) (auto simp: loc_no_div no_div bindE_eq_Inl)

lemma put_val_data_no_div: "arch_ctx arch d \<Longrightarrow> put_val_data m d v k x \<noteq> Inl Diverge"
  by (auto simp: put_val_data_def callee_saved_loc_def loc_no_div callee_saved_walk_no_div no_div bindE_eq_Inl
      split: if_splits)

lemma points_to_data_no_div:
  "arch_ctx a src \<Longrightarrow> arch_ctx b d \<Longrightarrow> points_to_data src sv d dv x \<noteq> Inl Diverge"
  by (auto simp: points_to_data_def ptr_addr_def loc_no_div bindE_eq_Inl split: if_splits ptr.splits)

lemma skip_duplicates_no_div [no_div]: "skip_duplicates vals off i \<noteq> Inl Diverge"
proof (induction vals off i rule: skip_duplicates.induct)
  case (1 vals off i)
  then show ?case by (subst skip_duplicates.simps) auto
qed

lemma find_local_no_div:
  assumes "arch_ctx a src" "arch_ctx b d"
  shows "find_local src d x n soff doff i j \<noteq> Inl Diverge"
  using assms
proof (induction src d x n soff doff i j rule: find_local.induct)
  case (1 src d x n soff doff i j)
  then show ?case
    by (subst find_local.simps) (auto simp: no_div points_to_data_no_div bindE_eq_Inl split: if_splits)
qed

lemma local_loop_no_div:
  assumes "arch_ctx a src" "arch_ctx b d" "ACT src = Inr sa" "\<forall>f \<in> set fs. src_addr f \<le> cfa sa"
    "length fs \<le> fuel"
  shows "local_loop fuel m src d found kept fs \<noteq> Inl Diverge"
  using assms
proof (induction fuel m src d found kept fs rule: local_loop.induct)
  case (3 fuel m src d found kept f fs)
  note le = "3.prems"
  have d: "arch_ctx b d1" if "put_val_data m d (dest_loc f) (fx_act f) x = Inr (m1, d1)" for x m1 d1
    using put_val_data_kept [OF that] le(2) by (simp add: arch_ctx_def frames_kept_def)
  show ?case
    using "3.IH"(1,2) "3.IH"(3) [OF le(3) _ _ _ _ _ _ refl le(1) d le(3)] le
      find_local_no_div [OF le(1,2)] put_val_data_no_div [OF le(2)]
    by (auto simp: no_div bindE_eq_Inl split: option.splits)
qed auto


text \<open>
  C0: When every recorded pointer points into the frame or below it, and those of the frame are kept in memory,
  resolving the pointers within the frame returns after one pass over the list: every pointer of the frame whose data is
  found among the live values is written to its slot in the destination frame and leaves the list; all others stay, in their
  order, and nothing else is written.
\<close>

theorem fixup_local_pointers_resolves:
  assumes "ACT src = Inr sa" "ACT d = Inr da" "\<forall>f \<in> set (stack_pointers d). src_addr f \<le> cfa sa"
    and "\<forall>f \<in> set (stack_pointers d). fx_act f = act src \<longrightarrow>
      find_local src d (src_addr f) (unat (num_live (site da))) (unat (live_offset (site sa)))
        (unat (live_offset (site da))) 0 0 = Inr (found f) \<and>
      get_dest_loc d (dest_loc f) (fx_act f) = Inr (Mem (slot f))"
  shows "fixup_local_pointers m src d =
    Inr (foldl (\<lambda>m f. case found f of Some x \<Rightarrow> store m (slot f) (bytes_of 8 x) | None \<Rightarrow> m) m
           (filter (\<lambda>f. fx_act f = act src) (stack_pointers d)),
         d\<lparr>stack_pointers := filter (\<lambda>f. fx_act f = act src \<longrightarrow> found f = None) (stack_pointers d)\<rparr>)"
proof -
  have put: "put_val_data m d v k x = Inr (store m p (bytes_of 8 x), d)" if "get_dest_loc d v k = Inr (Mem p)" for m v k p x
  proof -
    have "lv_type v = SM_DIRECT \<or> lv_type v = SM_INDIRECT"
      using that by (auto simp: get_dest_loc_def get_val_loc_def bindE_eq_Inr split: if_splits)
    then show ?thesis using that by (auto simp: put_val_data_def write_ptr_def)
  qed
  have "local_loop (length fs) m src d known kept fs =
    Inr (foldl (\<lambda>m f. case found f of Some x \<Rightarrow> store m (slot f) (bytes_of 8 x) | None \<Rightarrow> m) m
           (filter (\<lambda>f. fx_act f = act src) fs),
         d\<lparr>stack_pointers := kept @ filter (\<lambda>f. fx_act f = act src \<longrightarrow> found f = None) fs\<rparr>)"
    if "set fs \<subseteq> set (stack_pointers d)" for fs known kept m
    using that
  proof (induction fs arbitrary: known kept m)
    case (Cons f fs)
    have f: "src_addr f \<le> cfa sa" "fx_act f = act src \<Longrightarrow> find_local src d (src_addr f) (unat (num_live (site da)))
        (unat (live_offset (site sa))) (unat (live_offset (site da))) 0 0 = Inr (found f)"
      "fx_act f = act src \<Longrightarrow> get_dest_loc d (dest_loc f) (fx_act f) = Inr (Mem (slot f))"
      using assms(3,4) Cons.prems by auto
    show ?case
      using Cons assms(1,2) f put [OF f(3)] by (cases "found f") simp_all
  qed simp
  from this [of "stack_pointers d" m None "[]"] show ?thesis by (simp add: fixup_local_pointers_def)
qed


text \<open>A frame with one eight-byte allocation at its frame base pointer.\<close>

definition example_alloca :: live_value where
  "example_alloca = \<lparr>is_temporary = False, is_duplicate = False, is_alloca = True, is_ptr = False,
     lv_type = SM_DIRECT, lv_size = 8, regnum = 6, offset_or_constant = 0, alloca_size = 8\<rparr>"

definition example_local :: rewrite_context where
  "example_local = example_ctx\<lparr>handle := example_handle\<lparr>live_vals := [example_alloca, example_alloca]\<rparr>,
     acts := example_act\<lparr>site := ZERO_CALL_SITE\<lparr>num_live := 1\<rparr>\<rparr> # replicate 511 zero_activation\<rparr>"

definition example_fixup :: "u64 \<Rightarrow> fixup" where
  "example_fixup a = \<lparr>src_addr = a, fx_act = 0, dest_loc = example_alloca\<lparr>lv_type := SM_INDIRECT\<rparr>\<rparr>"

lemma example_local_simps [simp]:
  "ACT example_local = Inr (example_act\<lparr>site := ZERO_CALL_SITE\<lparr>num_live := 1\<rparr>\<rparr>)"
  "act example_local = 0" "REGOPS example_local = regs_x86_64" "PROPS example_local = properties_x86_64"
  "live_vals (handle example_local) = [example_alloca, example_alloca]"
  "live_offset ZERO_CALL_SITE = 0" "arch_ctx EM_X86_64 example_local"
  "stack_pointers example_local = []"
  by (simp_all add: example_local_def ACT_def example_ctx_def zero_context_def ZERO_CALL_SITE_def
      EMPTY_CALL_SITE_def arch_ctx_def get_regops_def get_properties_def)

lemma example_local_loc: "reg_loc example_local 0 6 = Inr 56"
  by (simp add: reg_loc_def example_local_def reg_x86_64_eq)

lemma example_local_found:
  "find_local example_local example_local 4 1 0 0 0 0 = Inr (Some 4)"
  by (simp add: find_local.simps skip_duplicates.simps points_to_data_def get_val_loc_def
      example_local_loc example_alloca_def ptr_addr_def) 
    (simp add: example_local_def)

lemma example_local_wrote:
  "put_val_data m example_local (example_alloca\<lparr>lv_type := SM_INDIRECT\<rparr>) 0 x =
     Inr (store m (0 :: u64) (bytes_of 8 x), example_local)"
  by (simp add: put_val_data_def get_dest_loc_def get_val_loc_def example_alloca_def example_local_loc write_ptr_def)
    (simp add: example_local_def)

theorem fixup_local_pointers_runs_on_witness:
  "local_loop 1000000 (\<lambda>_. 0) example_local example_local None [] [example_fixup 4, example_fixup 0x7fff] =
     Inl Diverge"
  using fixup_local_pointers_runs_on [of example_local _ example_local _ "example_fixup 4"
      "example_fixup 0x7fff" 4 "\<lambda>_. 0" "store (\<lambda>_. 0) (0 :: u64) (bytes_of 8 (4 :: u64))" example_local "1000000" "[]"]
  by (simp add: example_fixup_def example_local_found example_local_wrote del: One_nat_def)

theorem fixup_local_pointers_uninitialized_witness:
  "fixup_local_pointers (\<lambda>_. 0) example_local (example_local\<lparr>stack_pointers := [example_fixup 0x7fff]\<rparr>) =
     Inl Undef"
  by (rule fixup_local_pointers_uninitialized [where f = "example_fixup 0x7fff"
      and a = "example_act\<lparr>site := ZERO_CALL_SITE\<lparr>num_live := 1\<rparr>\<rparr>"])
    (simp_all add: example_fixup_def)


theorem fixup_local_pointers_resolves_witness:
  "fixup_local_pointers (\<lambda>_. 0) example_local (example_local\<lparr>stack_pointers := [example_fixup 4]\<rparr>) =
     Inr (store (\<lambda>_. 0) (0 :: u64) (bytes_of 8 (4 :: u64)), example_local\<lparr>stack_pointers := []\<rparr>)"
proof -
  let ?d = "example_local\<lparr>stack_pointers := [example_fixup 4]\<rparr>"
  have loc: "reg_loc (example_local\<lparr>stack_pointers := fs\<rparr>) 0 6 = Inr 56" for fs using example_local_loc by (simp add: reg_loc_def)
  have found: "find_local example_local ?d 4 1 0 0 0 0 = Inr (Some 4)"
    by (simp add: find_local.simps skip_duplicates.simps points_to_data_def get_val_loc_def
        example_local_loc loc example_alloca_def ptr_addr_def) (simp add: example_local_def)
  have dest: "get_dest_loc ?d (dest_loc (example_fixup 4)) 0 = Inr (Mem 0)"
    by (simp add: get_dest_loc_def get_val_loc_def example_fixup_def example_alloca_def loc) (simp add: example_local_def)
  have act: "ACT ?d = ACT example_local" by (simp add: ACT_def)
  show ?thesis
    by (subst fixup_local_pointers_resolves [where found = "\<lambda>_. Some 4" and slot = "\<lambda>_. 0",
          OF example_local_simps(1) act [unfolded example_local_simps(1)]])
      (use found dest in \<open>simp_all add: example_fixup_def del: One_nat_def\<close>)
qed

section \<open>The driver\<close>

lemma drop_all: "drop_fixups fs = []"
  by (induction fs) simp_all

definition valid_args :: "st_handle option \<Rightarrow> pool option \<Rightarrow> u64 \<Rightarrow> st_handle option \<Rightarrow> pool option \<Rightarrow> u64 \<Rightarrow> bool" where
  "valid_args hs rs bs hd' rd bd \<longleftrightarrow> hs \<noteq> None \<and> rs \<noteq> None \<and> hd' \<noteq> None \<and> rd \<noteq> None \<and> bs \<noteq> 0 \<and> bd \<noteq> 0"

text \<open>
  What a rewrite returns. It returns 1, having changed nothing, exactly when a handle or
  register set is missing or a stack base is \<open>NULL\<close>; otherwise it either returns 0 with all fix-ups of both
  contexts released and the destination registers those of the innermost destination frame, or it aborts.
\<close>

theorem st_rewrite_stack_result:
  "case st_rewrite_stack m src dest hs rs bs hd' rd bd of
     Inl e \<Rightarrow> valid_args hs rs bs hd' rd bd
   | Inr (r, m', out, src', dest') \<Rightarrow>
       (if valid_args hs rs bs hd' rd bd
        then r = 0 \<and> stack_pointers src' = [] \<and> stack_pointers dest' = [] \<and> out = Some (ctx_regs dest')
        else r = 1 \<and> m' = m \<and> out = rd \<and> src' = src \<and> dest' = dest)"
  by (auto simp: st_rewrite_stack_def valid_args_def free_context_def Let_def drop_all
      split: sum.splits option.splits if_splits elim!: bindE_InrE)

end
