(* ===== verification/Metadata_Layout.thy ===== *)
theory Metadata_Layout
  imports Metadata
begin

text \<open>
  The on-disk layout of the metadata records (\<open>common/include/call_site.h\<close>): packed little-endian
  structs, with the bit fields laid out from the least significant bit. A section is an array of
  records of one type. The two directions are what the offline tool writes and what the run-time
  library reads when it casts the bytes of a section.
\<close>

section \<open>Cutting a block into fields\<close>

fun split_fields :: "nat list \<Rightarrow> u8 list \<Rightarrow> u8 list list" where
  "split_fields [] bs = []"
| "split_fields (n # ns) bs = take n bs # split_fields ns (drop n bs)"

lemma split_fields_append:
  "length a = n \<Longrightarrow> split_fields (n # ns) (a @ bs) = a # split_fields ns bs"
  by simp

text \<open>\<open>f n\<close> is field \<open>n\<close> of a record whose fields have the sizes \<open>ns\<close>.\<close>

definition field :: "nat list \<Rightarrow> u8 list \<Rightarrow> nat \<Rightarrow> u8 list" where
  "field ns bs k = split_fields ns bs ! k"

lemma split_fields_concat: "length bs = sum_list ns \<Longrightarrow> concat (split_fields ns bs) = bs"
  by (induction ns arbitrary: bs) auto

lemma field_0 [simp]: "field (n # ns) bs 0 = take n bs"
  by (simp add: field_def)

lemma field_Suc [simp]: "field (n # ns) bs (Suc k) = field ns (drop n bs) k"
  by (simp add: field_def)

lemma field_numeral [simp]: "field (n # ns) bs (numeral k) = field ns (drop n bs) (pred_numeral k)"
  by (simp add: numeral_eq_Suc)

lemma bytes_of_word_of_n:
  "length bs = n \<Longrightarrow> LENGTH('a::len) = 8 * n \<Longrightarrow> bytes_of n (word_of bs :: 'a word) = bs"
  using bytes_of_word_of [of bs, where 'a = 'a] by simp

section \<open>The records\<close>

definition encode_unwind_addr :: "unwind_addr \<Rightarrow> u8 list" where
  "encode_unwind_addr r = bytes_of 8 (ua_addr r) @ bytes_of 4 (ua_num_unwind r) @ bytes_of 4 (ua_unwind_offset r)"

definition decode_unwind_addr :: "u8 list \<Rightarrow> unwind_addr" where
  "decode_unwind_addr bs =
     (let f = field [8, 4, 4] bs in
      \<lparr>ua_addr = word_of (f 0), ua_num_unwind = word_of (f 1), ua_unwind_offset = word_of (f 2)\<rparr>)"

definition encode_unwind_loc :: "unwind_loc \<Rightarrow> u8 list" where
  "encode_unwind_loc r = bytes_of 2 (ul_reg r) @ bytes_of 2 (ul_offset r)"

definition decode_unwind_loc :: "u8 list \<Rightarrow> unwind_loc" where
  "decode_unwind_loc bs =
     (let f = field [2, 2] bs in \<lparr>ul_reg = word_of (f 0), ul_offset = word_of (f 1)\<rparr>)"

definition encode_call_site :: "call_site \<Rightarrow> u8 list" where
  "encode_call_site r =
     bytes_of 8 (cs_id r) @ bytes_of 8 (cs_addr r) @ bytes_of 4 (frame_size r) @
     bytes_of 2 (cs_num_unwind r) @ bytes_of 8 (cs_unwind_offset r) @ bytes_of 2 (num_live r) @
     bytes_of 8 (live_offset r) @ bytes_of 2 (num_arch_live r) @ bytes_of 8 (arch_live_offset r) @
     bytes_of 2 (padding r)"

definition decode_call_site :: "u8 list \<Rightarrow> call_site" where
  "decode_call_site bs =
     (let f = field [8, 8, 4, 2, 8, 2, 8, 2, 8, 2] bs in
      \<lparr>cs_id = word_of (f 0), cs_addr = word_of (f 1), frame_size = word_of (f 2),
       cs_num_unwind = word_of (f 3), cs_unwind_offset = word_of (f 4), num_live = word_of (f 5),
       live_offset = word_of (f 6), num_arch_live = word_of (f 7), arch_live_offset = word_of (f 8),
       padding = word_of (f 9)\<rparr>)"

text \<open>The first byte of a live value: four flags and, above them, the four bits of the type.\<close>

definition pack_flags :: "bool \<Rightarrow> bool \<Rightarrow> bool \<Rightarrow> bool \<Rightarrow> 4 word \<Rightarrow> u8" where
  "pack_flags t d a p ty =
     or (of_bool t) (or (push_bit 1 (of_bool d)) (or (push_bit 2 (of_bool a))
       (or (push_bit 3 (of_bool p)) (push_bit 4 (ucast ty)))))"

definition flags_type :: "u8 \<Rightarrow> 4 word" where
  "flags_type b = ucast (drop_bit 4 b)"

definition encode_live_value :: "live_value \<Rightarrow> u8 list" where
  "encode_live_value r =
     pack_flags (is_temporary r) (is_duplicate r) (is_alloca r) (is_ptr r) (lv_type r) #
     bytes_of 1 (lv_size r) @ bytes_of 2 (regnum r) @ bytes_of 4 (offset_or_constant r) @
     bytes_of 4 (alloca_size r)"

definition decode_live_value :: "u8 list \<Rightarrow> live_value" where
  "decode_live_value bs =
     (let f = field [1, 1, 2, 4, 4] bs; b = word_of (f 0) :: u8 in
      \<lparr>is_temporary = bit b 0, is_duplicate = bit b 1, is_alloca = bit b 2, is_ptr = bit b 3,
       lv_type = flags_type b, lv_size = word_of (f 1), regnum = word_of (f 2),
       offset_or_constant = word_of (f 3), alloca_size = word_of (f 4)\<rparr>)"

text \<open>The three padding bits of an architecture-specific value are written as zero.\<close>

definition pack_operand :: "3 word \<Rightarrow> bool \<Rightarrow> 4 word \<Rightarrow> u8" where
  "pack_operand ty g i = or (ucast ty) (or (push_bit 3 (of_bool g)) (push_bit 4 (ucast i)))"

definition encode_arch_live_value :: "arch_live_value \<Rightarrow> u8 list" where
  "encode_arch_live_value r =
     pack_flags (av_is_ptr r) False False False (av_type r) #
     bytes_of 1 (av_size r) @ bytes_of 2 (av_regnum r) @ bytes_of 4 (av_offset r) @
     pack_operand (operand_type r) (is_gen r) (inst_type r) #
     bytes_of 1 (operand_size r) @ bytes_of 2 (operand_regnum r) @ bytes_of 8 (operand_offset_or_constant r)"

definition decode_arch_live_value :: "u8 list \<Rightarrow> arch_live_value" where
  "decode_arch_live_value bs =
     (let f = field [1, 1, 2, 4, 1, 1, 2, 8] bs; b = word_of (f 0) :: u8; o' = word_of (f 4) :: u8 in
      \<lparr>av_is_ptr = bit b 0, av_type = flags_type b, av_size = word_of (f 1), av_regnum = word_of (f 2),
       av_offset = word_of (f 3), operand_type = ucast o', is_gen = bit o' 3, inst_type = flags_type o',
       operand_size = word_of (f 5), operand_regnum = word_of (f 6),
       operand_offset_or_constant = word_of (f 7)\<rparr>)"

section \<open>Records and sections round-trip\<close>

lemma word_of_single [simp]: "word_of [b] = (b :: u8)"
  by simp

lemma bytes_of_1 [simp]: "bytes_of 1 (b :: u8) = [b]" "bytes_of (Suc 0) (b :: u8) = [b]"
  by (simp_all add: bytes_of_def)

lemma flags_unpack [simp]:
  "bit (pack_flags t d a p ty) 0 = t" "bit (pack_flags t d a p ty) (Suc 0) = d"
  "bit (pack_flags t d a p ty) 2 = a" "bit (pack_flags t d a p ty) 3 = p"
  by (auto simp: pack_flags_def bit_or_iff bit_push_bit_iff bit_of_bool_iff)

lemma flags_unpack_type [simp]: "flags_type (pack_flags t d a p ty) = ty"
  by (rule bit_word_eqI)
    (auto simp: pack_flags_def flags_type_def bit_simps)

lemma less_8_cases: "n < 8 \<Longrightarrow> n = 0 \<or> n = 1 \<or> n = 2 \<or> n = 3 \<or> (4 \<le> n \<and> n < (8::nat))"
  by linarith

lemma flags_repack [simp]:
  "pack_flags (bit b 0) (bit b 1) (bit b 2) (bit b 3) (flags_type b) = b"
  "pack_flags (bit b 0) (bit b (Suc 0)) (bit b 2) (bit b 3) (flags_type b) = b"
proof -
  show "pack_flags (bit b 0) (bit b 1) (bit b 2) (bit b 3) (flags_type b) = b"
  proof (rule bit_word_eqI)
    fix n assume "n < LENGTH(8)"
    then have "n < 8" by simp
    from less_8_cases [OF this]
    show "bit (pack_flags (bit b 0) (bit b 1) (bit b 2) (bit b 3) (flags_type b)) n = bit b n"
      by (elim disjE conjE) (auto simp: pack_flags_def flags_type_def bit_simps)
  qed
  then show "pack_flags (bit b 0) (bit b (Suc 0)) (bit b 2) (bit b 3) (flags_type b) = b" by simp
qed

lemma operand_unpack [simp]: "ucast (pack_operand ty g i) = ty" "bit (pack_operand ty g i) 3 = g"
  by (rule bit_word_eqI, auto simp: pack_operand_def bit_simps dest: bit_imp_le_length)

lemma operand_unpack_inst [simp]: "flags_type (pack_operand ty g i) = i"
  by (rule bit_word_eqI)
    (auto simp: pack_operand_def flags_type_def bit_simps dest: bit_imp_le_length)

text \<open>A record type with a layout of \<open>n\<close> bytes.\<close>

locale packed =
  fixes enc :: "'r \<Rightarrow> u8 list" and dec :: "u8 list \<Rightarrow> 'r" and n :: nat
  assumes dec_enc: "dec (enc r) = r"
    and length_enc: "length (enc r) = n"
    and n_pos: "0 < n"

text \<open>The records of a section: its bytes cut into pieces of the record size.\<close>

definition records :: "nat \<Rightarrow> (u8 list \<Rightarrow> 'r) \<Rightarrow> u8 list \<Rightarrow> 'r list" where
  "records n dec bs = map (\<lambda>i. dec (take n (drop (i * n) bs))) [0..<length bs div n]"

lemma length_records [simp]: "length (records n dec bs) = length bs div n"
  by (simp add: records_def)

context packed
begin

lemma length_section: "length (concat (map enc rs)) = length rs * n"
  by (induction rs) (simp_all add: length_enc)

lemma enc_inj: "enc r = enc r' \<Longrightarrow> r = r'"
  by (metis dec_enc)

lemma records_append: "records n dec (enc r @ bs) = r # records n dec bs"
proof -
  have "length (enc r @ bs) div n = Suc (length bs div n)"
    using n_pos div_add_self1 [of n "length bs"] by (simp add: length_enc)
  moreover have "[0..<Suc k] = 0 # map Suc [0..<k]" for k by (simp add: upt_conv_Cons map_Suc_upt)
  ultimately show ?thesis
    by (simp add: records_def length_enc dec_enc comp_def)
qed

text \<open>Reading a section that was written as an array of records gives the records back.\<close>

lemma records_section: "records n dec (concat (map enc rs)) = rs"
  by (induction rs) (simp_all add: records_append records_def [of n dec "[]"])

end

interpretation unwind_addr_packed: packed encode_unwind_addr decode_unwind_addr 16
  by unfold_locales (simp_all add: encode_unwind_addr_def decode_unwind_addr_def Let_def word_of_bytes_of)

interpretation unwind_loc_packed: packed encode_unwind_loc decode_unwind_loc 4
  by unfold_locales (simp_all add: encode_unwind_loc_def decode_unwind_loc_def Let_def word_of_bytes_of)

interpretation call_site_packed: packed encode_call_site decode_call_site 52
  by unfold_locales (simp_all add: encode_call_site_def decode_call_site_def Let_def word_of_bytes_of)

interpretation live_value_packed: packed encode_live_value decode_live_value 12
  by unfold_locales (simp_all add: encode_live_value_def decode_live_value_def Let_def word_of_bytes_of)

interpretation arch_live_value_packed: packed encode_arch_live_value decode_arch_live_value 20
  by unfold_locales
    (simp_all add: encode_arch_live_value_def decode_arch_live_value_def Let_def word_of_bytes_of)


end
