(* ===== verification/St_Init.thy ===== *)
theory St_Init
  imports Metadata_Layout
begin

text \<open>
  Opening and closing a binary's metadata (\<open>st_init\<close> and \<open>st_destroy\<close> of
  \<open>lib/stack_transformation/src/init.c\<close> and the section access of \<open>src/util.c\<close>). libelf and the
  operating system are outside the model: \<open>elf_lib\<close> holds what their calls return for the files at
  hand, and \<open>resources\<close> what the calls have opened and not yet closed.
\<close>

section \<open>The ELF library\<close>

text \<open>
  A section as the library describes it: the name its header points to (\<open>elf_strptr\<close>), size and
  entry size (\<open>gelf_getshdr\<close>), and its data descriptor with the buffer in it (\<open>elf_getdata\<close>, whose
  \<open>d_buf\<close> can be \<open>NULL\<close>).
\<close>

record elf_section =
  sec_name :: "string option"
  sec_shdr :: "(u64 \<times> u64) option"
  sec_data :: "u8 list option option"

record elf_lib =
  lib_malloc :: bool
  lib_open :: "string \<Rightarrow> int"
  lib_begin :: "int \<Rightarrow> nat option"
  lib_machine :: "nat \<Rightarrow> u16 option"
  lib_class :: "nat \<Rightarrow> u8 option"
  lib_shdrstrndx :: "nat \<Rightarrow> nat option"
  lib_sections :: "nat \<Rightarrow> elf_section list"

text \<open>\<open>get_section\<close>: a section whose header cannot be read ends the search.\<close>

fun find_section :: "string \<Rightarrow> elf_section list \<Rightarrow> elf_section option" where
  "find_section sec [] = None"
| "find_section sec (scn # scns) =
     (if sec_shdr scn = None then None
      else case sec_name scn of
             Some cur_sec \<Rightarrow> if sec = cur_sec then Some scn else find_section sec scns
           | None \<Rightarrow> find_section sec scns)"

definition get_section :: "elf_lib \<Rightarrow> nat \<Rightarrow> string \<Rightarrow> elf_section option" where
  "get_section lib e sec =
     (if lib_shdrstrndx lib e = None then None else find_section sec (lib_sections lib e))"

text \<open>The result is an \<open>int64_t\<close> whose -1 is the greatest \<open>uint64_t\<close> for the callers.\<close>

definition get_num_entries :: "elf_lib \<Rightarrow> nat \<Rightarrow> string \<Rightarrow> u64" where
  "get_num_entries lib e sec =
     (case get_section lib e sec of None \<Rightarrow> - 1
      | Some scn \<Rightarrow>
          (case sec_shdr scn of None \<Rightarrow> - 1
           | Some (sh_size, sh_entsize) \<Rightarrow> if sh_entsize \<noteq> 0 then sh_size div sh_entsize else - 1))"

definition get_section_data :: "elf_lib \<Rightarrow> nat \<Rightarrow> string \<Rightarrow> u8 list option" where
  "get_section_data lib e sec =
     (case get_section lib e sec of None \<Rightarrow> None
      | Some scn \<Rightarrow> (case sec_data scn of None \<Rightarrow> None | Some d_buf \<Rightarrow> d_buf))"

abbreviation (input) SECTION_ST_UNWIND_ADDR :: string where
  "SECTION_ST_UNWIND_ADDR \<equiv> ''.stack_transform.unwind_arange''"
abbreviation (input) SECTION_ST_UNWIND :: string where
  "SECTION_ST_UNWIND \<equiv> ''.stack_transform.unwind''"
abbreviation (input) SECTION_ST_ID :: string where "SECTION_ST_ID \<equiv> ''.stack_transform.id''"
abbreviation (input) SECTION_ST_ADDR :: string where "SECTION_ST_ADDR \<equiv> ''.stack_transform.addr''"
abbreviation (input) SECTION_ST_LIVE :: string where "SECTION_ST_LIVE \<equiv> ''.stack_transform.live''"
abbreviation (input) SECTION_ST_ARCH_LIVE :: string where
  "SECTION_ST_ARCH_LIVE \<equiv> ''.stack_transform.arch_const''"

section \<open>Opening a binary\<close>

text \<open>
  One table of the metadata: its counter and its records. A section with no entries is an error for
  the tables that must be there; a section that cannot be read always is one.
\<close>

definition read_table :: "bool \<Rightarrow> elf_lib \<Rightarrow> nat \<Rightarrow> string \<Rightarrow> nat \<Rightarrow> (u8 list \<Rightarrow> 'r) \<Rightarrow>
    (u64 \<times> 'r list) option" where
  "read_table required lib e sec n dec =
     (let count = get_num_entries lib e sec in
      if count > 0 then
        (case get_section_data lib e sec of None \<Rightarrow> None
         | Some bs \<Rightarrow> Some (count, records n dec bs))
      else if required then None
      else Some (count, []))"

definition read_sites :: "elf_lib \<Rightarrow> nat \<Rightarrow> (u64 \<times> call_site list \<times> call_site list) option" where
  "read_sites lib e =
     (let count = get_num_entries lib e SECTION_ST_ID in
      if count > 0 then
        (case (get_section_data lib e SECTION_ST_ID, get_section_data lib e SECTION_ST_ADDR) of
           (Some ids, Some addrs) \<Rightarrow>
             Some (count, records 52 decode_call_site ids, records 52 decode_call_site addrs)
         | _ \<Rightarrow> None)
      else None)"

text \<open>The part of \<open>st_init\<close> whose failures all go to \<open>close_elf\<close>.\<close>

definition read_handle :: "elf_lib \<Rightarrow> string \<Rightarrow> int \<Rightarrow> nat \<Rightarrow> st_handle option" where
  "read_handle lib fn fd_num e =
     (case lib_machine lib e of None \<Rightarrow> None | Some machine \<Rightarrow>
     (case lib_class lib e of None \<Rightarrow> None | Some cls \<Rightarrow>
     (case read_table True lib e SECTION_ST_UNWIND_ADDR 16 decode_unwind_addr of None \<Rightarrow> None
      | Some (ua_count, uas) \<Rightarrow>
     (case read_table True lib e SECTION_ST_UNWIND 4 decode_unwind_loc of None \<Rightarrow> None
      | Some (ul_count, uls) \<Rightarrow>
     (case read_sites lib e of None \<Rightarrow> None
      | Some (s_count, ids, addrs) \<Rightarrow>
     (case read_table False lib e SECTION_ST_LIVE 12 decode_live_value of None \<Rightarrow> None
      | Some (lv_count, lvs) \<Rightarrow>
     (case read_table False lib e SECTION_ST_ARCH_LIVE 20 decode_arch_live_value of None \<Rightarrow> None
      | Some (av_count, avs) \<Rightarrow>
     (case get_regops machine of None \<Rightarrow> None | Some ops \<Rightarrow>
     (case get_properties machine of None \<Rightarrow> None | Some props \<Rightarrow>
        Some \<lparr>fd = fd_num, elf = e, h_fn = fn, h_arch = machine, ptr_size = (if cls = 2 then 8 else 4),
              h_regops = ops, h_props = props, unwind_addr_count = ua_count, unwind_addrs = uas,
              unwind_count = ul_count, unwind_locs = uls, sites_count = s_count, sites_id = ids,
              sites_addr = addrs, live_vals_count = lv_count, live_vals = lvs,
              arch_live_vals_count = av_count, arch_live_vals = avs\<rparr>)))))))))"

text \<open>
  What is open: file descriptors, libelf descriptors and allocated handles. The labels of the
  cleanup code fall through to one another.
\<close>

record resources =
  open_fds :: "int list"
  open_elfs :: "nat list"
  handle_blocks :: nat

definition free_handle :: "resources \<Rightarrow> resources" where
  "free_handle r = r\<lparr>handle_blocks := handle_blocks r - 1\<rparr>"

definition close_file :: "int \<Rightarrow> resources \<Rightarrow> resources" where
  "close_file f r = free_handle (r\<lparr>open_fds := remove1 f (open_fds r)\<rparr>)"

definition close_elf :: "nat \<Rightarrow> int \<Rightarrow> resources \<Rightarrow> resources" where
  "close_elf e f r = close_file f (r\<lparr>open_elfs := remove1 e (open_elfs r)\<rparr>)"

definition st_init :: "elf_lib \<Rightarrow> string option \<Rightarrow> resources \<Rightarrow> st_handle option \<times> resources" where
  "st_init lib fn r =
     (case fn of None \<Rightarrow> (None, r) | Some f \<Rightarrow>
        if \<not> lib_malloc lib then (None, r)
        else
          let r = r\<lparr>handle_blocks := handle_blocks r + 1\<rparr>; n = lib_open lib f in
          if n < 0 then (None, free_handle r)
          else
            let r = r\<lparr>open_fds := n # open_fds r\<rparr> in
            (case lib_begin lib n of None \<Rightarrow> (None, close_file n r)
             | Some e \<Rightarrow>
                 let r = r\<lparr>open_elfs := e # open_elfs r\<rparr> in
                 (case read_handle lib f n e of None \<Rightarrow> (None, close_elf e n r)
                  | Some h \<Rightarrow> (Some h, r))))"

definition st_destroy :: "st_handle option \<Rightarrow> resources \<Rightarrow> resources" where
  "st_destroy hdl r =
     (case hdl of None \<Rightarrow> r
      | Some h \<Rightarrow> free_handle (r\<lparr>open_elfs := remove1 (elf h) (open_elfs r),
                                  open_fds := remove1 (fd h) (open_fds r)\<rparr>))"

section \<open>Resources\<close>

lemma read_handle_descriptors: "read_handle lib f n e = Some h \<Longrightarrow> fd h = n \<and> elf h = e"
  by (auto simp: read_handle_def split: option.splits prod.splits)

lemma st_init_opens:
  "case st_init lib fn r of
     (None, r') \<Rightarrow> r' = r
   | (Some h, r') \<Rightarrow> r' = r\<lparr>open_fds := fd h # open_fds r, open_elfs := elf h # open_elfs r,
                         handle_blocks := handle_blocks r + 1\<rparr>"
  by (auto simp: st_init_def close_elf_def close_file_def free_handle_def Let_def
      dest: read_handle_descriptors split: option.splits)

text \<open>
  C10: Opening a binary leaks nothing. When it fails, at whatever point, everything is as it was
  before; when it succeeds, exactly one file descriptor, one libelf descriptor and one handle are
  open in addition, and destroying the handle releases exactly these.
\<close>

theorem st_init_resources:
  "case st_init lib fn r of
     (None, r') \<Rightarrow> r' = r
   | (Some h, r') \<Rightarrow>
       r' = r\<lparr>open_fds := fd h # open_fds r, open_elfs := elf h # open_elfs r,
              handle_blocks := handle_blocks r + 1\<rparr> \<and>
       st_destroy (Some h) r' = r"
  using st_init_opens [where lib = lib and fn = fn and r = r]
  by (auto simp: st_destroy_def free_handle_def split: option.splits prod.splits)

section \<open>The tables of a handle\<close>

text \<open>A section of the binary that holds the records \<open>rs\<close> in the layout \<open>enc\<close> of \<open>n\<close> bytes.\<close>

definition holds :: "elf_lib \<Rightarrow> nat \<Rightarrow> string \<Rightarrow> nat \<Rightarrow> ('r \<Rightarrow> u8 list) \<Rightarrow> 'r list \<Rightarrow> bool" where
  "holds lib e sec n enc rs \<longleftrightarrow>
     lib_shdrstrndx lib e \<noteq> None \<and> length rs * n < 2 ^ 64 \<and>
     (\<exists>scn. find_section sec (lib_sections lib e) = Some scn \<and>
        sec_shdr scn = Some (of_nat (length rs * n), of_nat n) \<and>
        sec_data scn = Some (Some (concat (map enc rs))))"

lemma of_nat_div: "a < 2 ^ 64 \<Longrightarrow> b < 2 ^ 64 \<Longrightarrow> (of_nat a :: u64) div of_nat b = of_nat (a div b)"
  by (simp add: word_arith_nat_div unat_of_nat take_bit_nat_eq_self)

context packed
begin

lemma holds_entries:
  assumes "holds lib e sec n enc rs" "n < 2 ^ 64"
  shows "get_num_entries lib e sec = of_nat (length rs)"
    and "get_section_data lib e sec = Some (concat (map enc rs))"
proof -
  obtain scn where scn: "get_section lib e sec = Some scn"
    "sec_shdr scn = Some (of_nat (length rs * n), of_nat n)"
    "sec_data scn = Some (Some (concat (map enc rs)))" "length rs * n < 2 ^ 64"
    using assms(1) by (auto simp: holds_def get_section_def)
  have "(of_nat n :: u64) \<noteq> 0"
  proof
    assume "(of_nat n :: u64) = 0"
    then have "unat (of_nat n :: u64) = 0" by simp
    then show False using assms(2) n_pos by (simp add: unat_of_nat take_bit_nat_eq_self)
  qed
  then show "get_num_entries lib e sec = of_nat (length rs)"
    using scn assms(2) n_pos of_nat_div [OF scn(4) assms(2)] by (simp add: get_num_entries_def)
  show "get_section_data lib e sec = Some (concat (map enc rs))"
    using scn by (simp add: get_section_data_def)
qed

lemma read_table_holds:
  assumes "holds lib e sec n enc rs" "n < 2 ^ 64" "rs \<noteq> [] \<or> \<not> required"
  shows "read_table required lib e sec n dec = Some (of_nat (length rs), rs)"
proof -
  have "length rs * 1 \<le> length rs * n" using n_pos by (intro mult_le_mono) simp_all
  moreover have "length rs * n < 2 ^ 64" using assms(1) by (simp add: holds_def)
  ultimately have len: "length rs < 2 ^ 64" by linarith
  then have "(of_nat (length rs) :: u64) > 0 \<longleftrightarrow> rs \<noteq> []"
    by (simp add: word_less_nat_alt unat_of_nat take_bit_nat_eq_self)
  then show ?thesis
    using holds_entries [OF assms(1,2)] assms(3) records_section [of rs]
    by (auto simp: read_table_def Let_def)
qed

end

lemmas read_tables = unwind_addr_packed.read_table_holds unwind_loc_packed.read_table_holds
  live_value_packed.read_table_holds arch_live_value_packed.read_table_holds

lemma read_sites_holds:
  assumes "holds lib e SECTION_ST_ID 52 encode_call_site ids"
    and "holds lib e SECTION_ST_ADDR 52 encode_call_site addrs" and "ids \<noteq> []"
  shows "read_sites lib e = Some (of_nat (length ids), ids, addrs)"
proof -
  have "length ids < 2 ^ 64" using assms(1) by (simp add: holds_def)
  then have "(of_nat (length ids) :: u64) > 0"
    using assms(3) by (simp add: word_less_nat_alt unat_of_nat take_bit_nat_eq_self)
  then show ?thesis
    using call_site_packed.holds_entries [OF assms(1)] call_site_packed.holds_entries [OF assms(2)]
    by (simp add: read_sites_def Let_def call_site_packed.records_section)
qed

lemma st_init_handle:
  assumes "lib_malloc lib" "0 \<le> lib_open lib fn" "lib_begin lib (lib_open lib fn) = Some e"
    and "lib_machine lib e = Some machine" "lib_class lib e = Some 2"
    and "get_regops machine = Some ops" "get_properties machine = Some props"
    and "holds lib e SECTION_ST_UNWIND_ADDR 16 encode_unwind_addr uas" "uas \<noteq> []"
    and "holds lib e SECTION_ST_UNWIND 4 encode_unwind_loc uls" "uls \<noteq> []"
    and "holds lib e SECTION_ST_ID 52 encode_call_site ids"
    and "holds lib e SECTION_ST_ADDR 52 encode_call_site addrs" "ids \<noteq> []"
    and "holds lib e SECTION_ST_LIVE 12 encode_live_value lvs"
    and "holds lib e SECTION_ST_ARCH_LIVE 20 encode_arch_live_value avs"
  shows "fst (st_init lib (Some fn) r) = Some \<lparr>fd = lib_open lib fn, elf = e, h_fn = fn, h_arch = machine,
           ptr_size = 8, h_regops = ops, h_props = props, unwind_addr_count = of_nat (length uas), unwind_addrs = uas,
           unwind_count = of_nat (length uls), unwind_locs = uls, sites_count = of_nat (length ids), sites_id = ids,
           sites_addr = addrs, live_vals_count = of_nat (length lvs), live_vals = lvs,
           arch_live_vals_count = of_nat (length avs), arch_live_vals = avs\<rparr>"
  using assms read_tables(1) [OF assms(8), of True] read_tables(2) [OF assms(10), of True]
    read_sites_holds [OF assms(12-14)] read_tables(3) [OF assms(15), of False]
    read_tables(4) [OF assms(16), of False]
  by (simp add: st_init_def Let_def read_handle_def)

text \<open>
  C9: Opening a binary reads its metadata. When the file can be opened and is for a supported
  machine, and its sections hold tables in the layout of the offline tool (none of the first four empty),
  opening it succeeds and the handle carries exactly these tables, their numbers of records, and
  the register operations and stack properties of the machine.
\<close>

theorem st_init_reads_tables:
  assumes "lib_malloc lib" "0 \<le> lib_open lib fn" "lib_begin lib (lib_open lib fn) = Some e"
    and "lib_machine lib e = Some machine" "lib_class lib e = Some 2"
    and "get_regops machine = Some ops" "get_properties machine = Some props"
    and "holds lib e SECTION_ST_UNWIND_ADDR 16 encode_unwind_addr uas" "uas \<noteq> []"
    and "holds lib e SECTION_ST_UNWIND 4 encode_unwind_loc uls" "uls \<noteq> []"
    and "holds lib e SECTION_ST_ID 52 encode_call_site ids"
    and "holds lib e SECTION_ST_ADDR 52 encode_call_site addrs" "ids \<noteq> []"
    and "holds lib e SECTION_ST_LIVE 12 encode_live_value lvs"
    and "holds lib e SECTION_ST_ARCH_LIVE 20 encode_arch_live_value avs"
  shows "\<exists>h. fst (st_init lib (Some fn) r) = Some h \<and> h_arch h = machine \<and> ptr_size h = 8 \<and>
           h_regops h = ops \<and> h_props h = props \<and>
           unwind_addrs h = uas \<and> unwind_addr_count h = of_nat (length uas) \<and>
           unwind_locs h = uls \<and> unwind_count h = of_nat (length uls) \<and>
           sites_id h = ids \<and> sites_addr h = addrs \<and> sites_count h = of_nat (length ids) \<and>
           live_vals h = lvs \<and> live_vals_count h = of_nat (length lvs) \<and>
           arch_live_vals h = avs \<and> arch_live_vals_count h = of_nat (length avs)"
  by (simp add: st_init_handle [OF assms])

section \<open>Missing sections\<close>

lemma get_missing_section:
  assumes "sec \<notin> {s. \<exists>scn \<in> set (lib_sections lib e). sec_name scn = Some s}"
  shows "get_num_entries lib e sec = - 1" "get_section_data lib e sec = None"
proof -
  have "find_section sec scns = None" if "\<forall>scn \<in> set scns. sec_name scn \<noteq> Some sec" for scns
    using that by (induction scns) (auto split: option.splits)
  then have "get_section lib e sec = None" using assms by (auto simp: get_section_def)
  then show "get_num_entries lib e sec = - 1" "get_section_data lib e sec = None"
    by (simp_all add: get_num_entries_def get_section_data_def)
qed

lemma read_table_missing:
  assumes "\<And>e. sec \<notin> {s. \<exists>scn \<in> set (lib_sections lib e). sec_name scn = Some s}"
  shows "read_table q lib e sec n dec = None"
  using get_missing_section [OF assms, of e] by (simp add: read_table_def Let_def word_gt_0)

text \<open>
  A missing section always makes opening fail, also for the live values and the
  architecture-specific values, which the code means to be optional: the -1 for \<open>not found\<close> is stored in an
  unsigned counter and taken for a number of records.
\<close>

theorem st_init_missing_section:
  assumes "sec \<in> {SECTION_ST_LIVE, SECTION_ST_ARCH_LIVE}"
    and "\<And>e. sec \<notin> {s. \<exists>scn \<in> set (lib_sections lib e). sec_name scn = Some s}"
  shows "st_init lib fn r = (None, r)"
proof -
  have missing: "read_table q lib e sec n dec = None" for q e n and dec :: "u8 list \<Rightarrow> live_value"
    by (rule read_table_missing [OF assms(2)])
  have missing': "read_table q lib e sec n dec = None" for q e n and dec :: "u8 list \<Rightarrow> arch_live_value"
    by (rule read_table_missing [OF assms(2)])
  have "sec = SECTION_ST_LIVE \<or> sec = SECTION_ST_ARCH_LIVE" using assms(1) by blast
  then have "read_handle lib f n e = None" for f n e
    using missing [of False e] missing' [of False e]
    by (auto simp: read_handle_def split: option.splits prod.splits)
  then show ?thesis
    by (simp add: st_init_def Let_def close_elf_def close_file_def free_handle_def split: option.splits)
qed

section \<open>A small binary\<close>

definition example_section :: "string \<Rightarrow> nat \<Rightarrow> u8 list \<Rightarrow> elf_section" where
  "example_section nm n bs = \<lparr>sec_name = Some nm, sec_shdr = Some (of_nat (length bs), of_nat n),
     sec_data = Some (Some bs)\<rparr>"

definition example_lib :: elf_lib where
  "example_lib = \<lparr>lib_malloc = True, lib_open = (\<lambda>_. 3), lib_begin = (\<lambda>_. Some 0),
     lib_machine = (\<lambda>_. Some EM_X86_64), lib_class = (\<lambda>_. Some 2), lib_shdrstrndx = (\<lambda>_. Some 1),
     lib_sections = (\<lambda>_.
       [example_section SECTION_ST_UNWIND_ADDR 16 (encode_unwind_addr \<lparr>ua_addr = 16, ua_num_unwind = 1, ua_unwind_offset = 0\<rparr>),
        example_section SECTION_ST_UNWIND 4 (encode_unwind_loc \<lparr>ul_reg = 6, ul_offset = - 16\<rparr>),
        example_section SECTION_ST_ID 52 (encode_call_site EMPTY_CALL_SITE),
        example_section SECTION_ST_ADDR 52 (encode_call_site EMPTY_CALL_SITE),
        example_section SECTION_ST_LIVE 12 [], example_section SECTION_ST_ARCH_LIVE 20 []])\<rparr>"

lemma example_lib_holds:
  "holds example_lib 0 SECTION_ST_UNWIND_ADDR 16 encode_unwind_addr [\<lparr>ua_addr = 16, ua_num_unwind = 1, ua_unwind_offset = 0\<rparr>]"
  "holds example_lib 0 SECTION_ST_UNWIND 4 encode_unwind_loc [\<lparr>ul_reg = 6, ul_offset = - 16\<rparr>]"
  "holds example_lib 0 SECTION_ST_ID 52 encode_call_site [EMPTY_CALL_SITE]"
  "holds example_lib 0 SECTION_ST_ADDR 52 encode_call_site [EMPTY_CALL_SITE]"
  "holds example_lib 0 SECTION_ST_LIVE 12 encode_live_value []"
  "holds example_lib 0 SECTION_ST_ARCH_LIVE 20 encode_arch_live_value []"
  by (simp_all add: holds_def example_lib_def example_section_def unwind_addr_packed.length_enc
      unwind_loc_packed.length_enc call_site_packed.length_enc)

theorem st_init_reads_tables_witness:
  "\<exists>h. fst (st_init example_lib (Some ''a.out'') \<lparr>open_fds = [], open_elfs = [], handle_blocks = 0\<rparr>) = Some h \<and> sites_id h = [EMPTY_CALL_SITE] \<and>
       sites_count h = 1 \<and> live_vals_count h = 0"
  using st_init_reads_tables [of example_lib "''a.out''" 0 EM_X86_64 regs_x86_64 properties_x86_64
      "[\<lparr>ua_addr = 16, ua_num_unwind = 1, ua_unwind_offset = 0\<rparr>]" "[\<lparr>ul_reg = 6, ul_offset = - 16\<rparr>]"
      "[EMPTY_CALL_SITE]" "[EMPTY_CALL_SITE]" "[]" "[]"
      "\<lparr>open_fds = [], open_elfs = [], handle_blocks = 0\<rparr>"] example_lib_holds
  by (auto simp: get_regops_def get_properties_def example_lib_def)

theorem st_init_missing_section_witness:
  "\<forall>r. st_init (example_lib\<lparr>lib_sections := \<lambda>e. take 5 (lib_sections example_lib e)\<rparr>) (Some ''a.out'') r = (None, r)"
  by (rule allI, rule st_init_missing_section [of SECTION_ST_ARCH_LIVE]) (simp_all add: example_lib_def example_section_def)

end
