(* ===== verification/Userspace.thy ===== *)
theory Userspace
  imports Platform Rewrite_Frames St_Init "HOL-Library.Multiset"
begin

text \<open>
  Rewriting from user space (\<open>lib/stack_transformation/src/userspace.c\<close>, configured with
  compiler-provided thread-local storage): set-up and tear-down of the three handles, the bounds
  of a thread's stack, and the rewriting from the half of the stack in use to the other half.
\<close>

section \<open>The process\<close>

text \<open>
  What the process sees of its surroundings. A line of \<open>/proc/self/maps\<close> is what \<open>sscanf\<close> makes of
  it; \<open>p_maps\<close> is \<open>None\<close> when the file cannot be read. \<open>p_thread_stack\<close> is the lowest address and the size
  that the thread library reports.
\<close>

record maps_line =
  ml_fields :: int
  ml_start :: u64
  ml_end :: u64
  ml_path :: string

record process =
  p_lib :: elf_lib
  p_elf_version :: bool
  p_getenv :: "string \<Rightarrow> string option"
  p_progname :: string
  p_maps :: "maps_line list option"
  p_rlimit :: "u64 option"
  p_stack_base :: u64
  p_thread_stack :: "(u64 \<times> u64) option"

text \<open>A C string is in static storage (a symbol of the program) or allocated by this library.\<close>

datatype c_str = Static (str: string) | Heap (str: string)

record stack_bounds =
  high :: u64
  low :: u64

text \<open>The file-scope variables of \<open>userspace.c\<close>; \<open>bounds\<close> is the one of the current thread.\<close>

record userspace =
  aarch64_handle :: "st_handle option"
  powerpc64_handle :: "st_handle option"
  x86_64_handle :: "st_handle option"
  aarch64_fn :: "c_str option"
  alloc_aarch64_fn :: bool
  powerpc64_fn :: "c_str option"
  alloc_powerpc64_fn :: bool
  x86_64_fn :: "c_str option"
  alloc_x86_64_fn :: bool
  bounds :: stack_bounds
  us_res :: resources

abbreviation (input) BUF_SIZE :: nat where "BUF_SIZE \<equiv> 512"
abbreviation (input) MAX_STACK_SIZE :: u64 where "MAX_STACK_SIZE \<equiv> 8 * 1024 * 1024"
abbreviation (input) B_STACK_OFFSET :: u64 where "B_STACK_OFFSET \<equiv> 4 * 1024 * 1024"
abbreviation (input) ENV_AARCH64_BIN :: string where "ENV_AARCH64_BIN \<equiv> ''ST_AARCH64_BIN''"
abbreviation (input) ENV_POWERPC64_BIN :: string where "ENV_POWERPC64_BIN \<equiv> ''ST_POWERPC64_BIN''"
abbreviation (input) ENV_X86_64_BIN :: string where "ENV_X86_64_BIN \<equiv> ''ST_X86_64_BIN''"

section \<open>Stack bounds\<close>

fun find_stack_line :: "maps_line list \<Rightarrow> stack_bounds option" where
  "find_stack_line [] = None"
| "find_stack_line (l # ls) =
     (if ml_fields l = 7 \<and> take 7 (ml_path l) = ''[stack]''
      then Some \<lparr>high = ml_end l, low = ml_start l\<rparr> else find_stack_line ls)"

definition get_main_stack :: "process \<Rightarrow> bool \<times> stack_bounds" where
  "get_main_stack p =
     (case p_maps p of None \<Rightarrow> (False, \<lparr>high = 0, low = 0\<rparr>)
      | Some ls \<Rightarrow>
          (case find_stack_line ls of None \<Rightarrow> (False, \<lparr>high = 0, low = 0\<rparr>) | Some b \<Rightarrow> (True, b)))"

definition prep_stack :: "process \<Rightarrow> userspace \<Rightarrow> bool \<times> userspace" where
  "prep_stack p us =
     (let (found, b) = get_main_stack p; us = us\<lparr>bounds := b\<rparr> in
      if \<not> found then (False, us)
      else
        (case p_rlimit p of None \<Rightarrow> (False, us)
         | Some rlim_cur \<Rightarrow>
             let b = b\<lparr>low := high b - rlim_cur\<rparr>;
                 offset = high b - p_stack_base p;
                 offset = offset + (if offset mod 0x10 \<noteq> 0 then 0x10 - offset mod 0x10 else 0)
             in (True, us\<lparr>bounds := b\<lparr>high := high b - offset\<rparr>\<rparr>)))"

definition get_thread_stack :: "process \<Rightarrow> bool \<times> stack_bounds" where
  "get_thread_stack p =
     (case p_thread_stack p of None \<Rightarrow> (False, \<lparr>high = 0, low = 0\<rparr>)
      | Some (lowest, stack_size) \<Rightarrow>
          let b = \<lparr>high = lowest + stack_size, low = lowest\<rparr> in
          (True, if stack_size \<noteq> MAX_STACK_SIZE then b\<lparr>low := high b - MAX_STACK_SIZE\<rparr> else b))"

text \<open>Resolving the bounds of the thread unless this has been done before.\<close>

definition resolve_bounds :: "process \<Rightarrow> userspace \<Rightarrow> bool \<times> userspace" where
  "resolve_bounds p us =
     (if high (bounds us) = 0 then
        let (ok, b) = get_thread_stack p in (ok, us\<lparr>bounds := b\<rparr>)
      else (True, us))"

definition get_stack_bounds :: "process \<Rightarrow> u64 \<Rightarrow> userspace \<Rightarrow> stack_bounds \<times> userspace" where
  "get_stack_bounds p cur_stack us =
     (let (ok, us) = resolve_bounds p us in
      if \<not> ok then (\<lparr>high = 0, low = 0\<rparr>, us)
      else
        let cur_bounds = bounds us in
        if low cur_bounds + B_STACK_OFFSET \<le> cur_stack
        then (cur_bounds\<lparr>low := low cur_bounds + B_STACK_OFFSET\<rparr>, us)
        else (cur_bounds\<lparr>high := low cur_bounds + B_STACK_OFFSET\<rparr>, us))"

section \<open>Set-up and tear-down\<close>

text \<open>
  The handle of one architecture: the same three steps for each. The first call's handle is
  overwritten by the second's.
\<close>

definition init_binary :: "process \<Rightarrow> string \<Rightarrow> string \<Rightarrow> c_str option \<Rightarrow> bool \<Rightarrow> resources \<Rightarrow>
    (st_handle option \<times> c_str option \<times> bool \<times> resources) result" where
  "init_binary p var suffix fn alloc r =
     bindE (case p_getenv p var of
              Some f \<Rightarrow> Inr (fn, snd (st_init (p_lib p) (Some f) r))
            | None \<Rightarrow>
                (case fn of
                   Some s \<Rightarrow> Inr (fn, snd (st_init (p_lib p) (Some (str s)) r))
                 | None \<Rightarrow>
                     if lib_malloc (p_lib p)
                     then Inr (Some (Heap (take (BUF_SIZE - 1) (p_progname p @ suffix))), r)
                     else Inl Undef)) (\<lambda>(fn, r).
       let (h, r) = st_init (p_lib p) (map_option str fn) r in
       Inr (h, fn, alloc \<or> h \<noteq> None, r))"

definition st_userspace_ctor :: "process \<Rightarrow> userspace \<Rightarrow> userspace result" where
  "st_userspace_ctor p us =
     (let (prepped, us) = prep_stack p us in
      if \<not> prepped then Inr us
      else if \<not> p_elf_version p then Inr us
      else
        bindE (init_binary p ENV_AARCH64_BIN ''_aarch64'' (aarch64_fn us) (alloc_aarch64_fn us) (us_res us))
          (\<lambda>(h, fn, alloc, r).
          let us = us\<lparr>aarch64_handle := h, aarch64_fn := fn, alloc_aarch64_fn := alloc, us_res := r\<rparr> in
        bindE (init_binary p ENV_POWERPC64_BIN ''_powerpc64'' (powerpc64_fn us) (alloc_powerpc64_fn us) (us_res us))
          (\<lambda>(h, fn, alloc, r).
          let us = us\<lparr>powerpc64_handle := h, powerpc64_fn := fn, alloc_powerpc64_fn := alloc, us_res := r\<rparr> in
        bindE (init_binary p ENV_X86_64_BIN ''_x86-64'' (x86_64_fn us) (alloc_x86_64_fn us) (us_res us))
          (\<lambda>(h, fn, alloc, r).
          Inr (us\<lparr>x86_64_handle := h, x86_64_fn := fn, alloc_x86_64_fn := alloc, us_res := r\<rparr>)))))"

text \<open>Freeing a string that is not from the allocator is undefined; freeing \<open>NULL\<close> does nothing.\<close>

definition free_str :: "c_str option \<Rightarrow> unit result" where
  "free_str s = (case s of Some (Static _) \<Rightarrow> Inl Undef | _ \<Rightarrow> Inr ())"

definition destroy_binary :: "st_handle option \<Rightarrow> c_str option \<Rightarrow> bool \<Rightarrow> resources \<Rightarrow> resources result" where
  "destroy_binary h fn alloc r =
     (if h \<noteq> None then
        let r = st_destroy h r in
        if alloc then bindE (free_str fn) (\<lambda>_. Inr r) else Inr r
      else Inr r)"

definition st_userspace_dtor :: "userspace \<Rightarrow> userspace result" where
  "st_userspace_dtor us =
     bindE (destroy_binary (aarch64_handle us) (aarch64_fn us) (alloc_aarch64_fn us) (us_res us)) (\<lambda>r.
     bindE (destroy_binary (powerpc64_handle us) (powerpc64_fn us) (alloc_powerpc64_fn us) r) (\<lambda>r.
     bindE (destroy_binary (x86_64_handle us) (x86_64_fn us) (alloc_x86_64_fn us) r) (\<lambda>r.
       Inr (us\<lparr>us_res := r\<rparr>))))"

section \<open>Rewriting\<close>

definition userspace_rewrite_internal :: "process \<Rightarrow> memory \<Rightarrow> rewrite_context \<Rightarrow> rewrite_context \<Rightarrow>
    userspace \<Rightarrow> u64 \<Rightarrow> pool option \<Rightarrow> pool option \<Rightarrow> st_handle option \<Rightarrow> st_handle option \<Rightarrow>
    (int \<times> memory \<times> pool option \<times> userspace \<times> rewrite_context \<times> rewrite_context) result" where
  "userspace_rewrite_internal p m src dest us sp src_regs dest_regs src_handle dest_handle =
     (if sp = 0 \<or> src_regs = None \<or> dest_regs = None \<or> src_handle = None \<or> dest_handle = None
      then Inr (1, m, dest_regs, us, src, dest)
      else
        let (ok, us) = resolve_bounds p us in
        if \<not> ok then Inr (1, m, dest_regs, us, src, dest)
        else if sp < low (bounds us) \<or> high (bounds us) \<le> sp
        then Inr (1, m, dest_regs, us, src, dest)
        else
          let stack_a = high (bounds us);
              stack_b = low (bounds us) + B_STACK_OFFSET;
              cur_stack = (if stack_b \<le> sp then stack_a else stack_b);
              new_stack = (if stack_b \<le> sp then stack_b else stack_a) in
          bindE (st_rewrite_stack m src dest src_handle src_regs cur_stack dest_handle dest_regs new_stack)
            (\<lambda>(ret, m, dest_regs, src, dest).
              Inr (if ret \<noteq> 0 then 1 else 0, m, dest_regs, us, src, dest)))"

definition arch_handle :: "userspace \<Rightarrow> arch \<Rightarrow> st_handle option option" where
  "arch_handle us a =
     (case a of ARCH_AARCH64 \<Rightarrow> Some (aarch64_handle us)
      | ARCH_POWERPC64 \<Rightarrow> Some (powerpc64_handle us)
      | ARCH_X86_64 \<Rightarrow> Some (x86_64_handle us)
      | _ \<Rightarrow> None)"

definition st_userspace_rewrite :: "process \<Rightarrow> memory \<Rightarrow> rewrite_context \<Rightarrow> rewrite_context \<Rightarrow>
    userspace \<Rightarrow> u64 \<Rightarrow> arch \<Rightarrow> pool option \<Rightarrow> arch \<Rightarrow> pool option \<Rightarrow>
    (int \<times> memory \<times> pool option \<times> userspace \<times> rewrite_context \<times> rewrite_context) result" where
  "st_userspace_rewrite p m src dest us sp src_arch src_regs dest_arch dest_regs =
     (case arch_handle us src_arch of
        None \<Rightarrow> Inr (1, m, dest_regs, us, src, dest)
      | Some None \<Rightarrow> Inr (1, m, dest_regs, us, src, dest)
      | Some (Some src_handle) \<Rightarrow>
          (case arch_handle us dest_arch of
             None \<Rightarrow> Inr (1, m, dest_regs, us, src, dest)
           | Some None \<Rightarrow> Inr (1, m, dest_regs, us, src, dest)
           | Some (Some dest_handle) \<Rightarrow>
               userspace_rewrite_internal p m src dest us sp src_regs dest_regs
                 (Some src_handle) (Some dest_handle)))"

section \<open>The bounds of the main stack\<close>

lemma unat_mod_10: "unat ((x :: u64) mod 0x10) = unat x mod 16"
  by (simp add: unat_mod)

lemma unat_round_up:
  assumes "unat (x :: u64) + 16 \<le> 2 ^ 64"
  shows "unat (x + (if x mod 0x10 \<noteq> 0 then 0x10 - x mod 0x10 else 0)) = (unat x + 15) div 16 * 16"
proof (cases "x mod 0x10 = 0")
  case True
  then have "unat x mod 16 = 0" using unat_mod_10 [of x] by simp
  then show ?thesis using True round_up_16 [of "unat x"] by simp
next
  case False
  then have nz: "unat x mod 16 \<noteq> 0" using unat_mod_10 [of x] by (metis unat_eq_0)
  have "unat (0x10 - x mod 0x10) = 16 - unat x mod 16"
    by (subst unat_sub) (simp_all add: word_le_nat_alt unat_mod_10)
  then show ?thesis
    using assms False nz round_up_16 [of "unat x"] by (simp add: unat_word_ariths)
qed

text \<open>
  Preparing the main stack keeps the program's arguments and environment out of reach. When
  the process's maps list the main stack, whose upper end is a multiple of 16, and the position that the C library
  recorded lies in it, the bounds computed start at the lowest address the stack may grow to and end
  at the greatest multiple of 16 that is not above that position.
\<close>

theorem prep_stack_bounds:
  assumes "get_main_stack p = (True, b)" "p_rlimit p = Some lim"
    and "p_stack_base p \<le> high b" "16 dvd unat (high b)" "unat (high b) + 16 \<le> 2 ^ 64"
  shows "\<exists>us'. prep_stack p us = (True, us') \<and> low (bounds us') = high b - lim \<and>
           unat (high (bounds us')) = unat (p_stack_base p) div 16 * 16"
proof -
  let ?off = "high b - p_stack_base p"
  have off: "unat ?off = unat (high b) - unat (p_stack_base p)"
    using assms(3) by (simp add: unat_sub word_le_nat_alt)
  obtain k where k: "unat (high b) = 16 * k" using assms(4) by (auto elim: dvdE)
  define r where "r = ?off + (if ?off mod 0x10 \<noteq> 0 then 0x10 - ?off mod 0x10 else 0)"
  have r: "unat r = (16 * k - unat (p_stack_base p) + 15) div 16 * 16"
    unfolding r_def using unat_round_up [of ?off] assms(5) off k by simp
  have le: "unat (p_stack_base p) \<le> 16 * k" using assms(3) k by (simp add: word_le_nat_alt)
  have r': "unat r = unat (high b) - unat (p_stack_base p) div 16 * 16"
    using r round_up_16_diff [OF le] k by simp
  have "unat (p_stack_base p) div 16 * 16 \<le> unat (high b)"
    using le k by (metis div_times_less_eq_dividend le_trans)
  then have "unat (high b - r) = unat (p_stack_base p) div 16 * 16"
    using r' by (subst unat_sub) (simp_all add: word_le_nat_alt)
  then show ?thesis
    using assms(1,2) by (auto simp: prep_stack_def Let_def r_def split: if_splits)
qed

section \<open>The two halves of the stack\<close>

text \<open>The half of the stack below the base \<open>base\<close>, as a set of addresses.\<close>

definition half :: "stack_bounds \<Rightarrow> u64 \<Rightarrow> u64 set" where
  "half b base = (if base = high b then {low b + B_STACK_OFFSET..<high b} else {low b..<low b + B_STACK_OFFSET})"

definition wf_bounds :: "stack_bounds \<Rightarrow> bool" where
  "wf_bounds b \<longleftrightarrow> high b \<noteq> 0 \<and> unat (low b) + 4 * 1024 * 1024 < unat (high b)"

lemma wf_boundsD:
  assumes "wf_bounds b"
  shows "low b \<le> low b + B_STACK_OFFSET" "low b + B_STACK_OFFSET < high b" "high b \<noteq> 0"
proof -
  have "unat (low b) + 4 * 1024 * 1024 < 2 ^ 64"
    using assms unat_64 [of "high b"] by (simp add: wf_bounds_def)
  then have "unat (low b + B_STACK_OFFSET) = unat (low b) + 4 * 1024 * 1024"
    by (simp add: unat_word_ariths)
  then show "low b \<le> low b + B_STACK_OFFSET" "low b + B_STACK_OFFSET < high b" "high b \<noteq> 0"
    using assms by (auto simp: wf_bounds_def word_le_nat_alt word_less_nat_alt)
qed

text \<open>
  C34: A thread is rewritten from the half of its stack that it uses to the other half. For a stack
  pointer within the bounds, the rewrite is started with two stack bases that bound two disjoint
  halves, the first of which contains the stack pointer; everything else it is given is passed on.
\<close>

theorem rewrite_to_other_half:
  assumes "wf_bounds (bounds us)" "low (bounds us) \<le> sp" "sp < high (bounds us)" "sp \<noteq> 0"
  shows "\<exists>cur new. userspace_rewrite_internal p m src dest us sp (Some rs) (Some rd) (Some hs) (Some hdl) =
             bindE (st_rewrite_stack m src dest (Some hs) (Some rs) cur (Some hdl) (Some rd) new)
               (\<lambda>(ret, m, regs, src, dest). Inr (if ret \<noteq> 0 then 1 else 0, m, regs, us, src, dest)) \<and>
           {cur, new} = {high (bounds us), low (bounds us) + B_STACK_OFFSET} \<and>
           sp \<in> half (bounds us) cur \<and> half (bounds us) cur \<inter> half (bounds us) new = {}"
proof -
  note wf = wf_boundsD [OF assms(1)]
  have ne: "high (bounds us) \<noteq> low (bounds us) + B_STACK_OFFSET" using wf(2) by auto
  have rb: "resolve_bounds p us = (True, us)" using wf(3) by (simp add: resolve_bounds_def)
  show ?thesis
  proof (cases "low (bounds us) + B_STACK_OFFSET \<le> sp")
    case True
    show ?thesis
      by (rule exI [of _ "high (bounds us)"], rule exI [of _ "low (bounds us) + B_STACK_OFFSET"])
        (use True assms ne rb in \<open>auto simp: userspace_rewrite_internal_def Let_def half_def not_less\<close>)
  next
    case False
    show ?thesis
      by (rule exI [of _ "low (bounds us) + B_STACK_OFFSET"], rule exI [of _ "high (bounds us)"])
        (use False assms ne rb in \<open>auto simp: userspace_rewrite_internal_def Let_def half_def not_less\<close>)
  qed
qed

text \<open>
  The bounds reported to a thread are those of the half of the stack it is running on: they
  contain the stack pointer, and the half is the one a rewrite would take as its source.
\<close>

theorem get_stack_bounds_half:
  assumes "wf_bounds (bounds us)" "low (bounds us) \<le> sp" "sp < high (bounds us)"
  shows "\<exists>b. get_stack_bounds p sp us = (b, us) \<and> low b \<le> sp \<and> sp < high b \<and>
           {low b..<high b} = half (bounds us) (high b)"
  using wf_boundsD [OF assms(1)] assms(2,3)
  by (auto simp: get_stack_bounds_def resolve_bounds_def Let_def half_def not_le)

section \<open>Set-up and tear-down of the handles\<close>

text \<open>
  Naming a binary by its environment variable does not work: the handle that was opened for it
  is overwritten by that of the built-in name. Without such a name there is no handle at all, and what was opened
  for the variable stays open.
\<close>

theorem init_binary_env_lost:
  assumes "p_getenv p var = Some f"
  shows "init_binary p var suffix None alloc r = Inr (None, None, alloc, snd (st_init (p_lib p) (Some f) r))"
  using assms by (simp add: init_binary_def st_init_def)

text \<open>A name from the program's own symbol is opened twice and marked as allocated.\<close>

lemma init_binary_static:
  assumes "init_binary p var suffix (Some (Static s)) alloc r = Inr (Some h, fn, alloc', r')"
  shows "fn = Some (Static s) \<and> alloc'"
  using assms by (auto simp: init_binary_def split: option.splits prod.splits elim!: bindE_InrE)

text \<open>
  Tearing down after a start-up in which the program supplied a binary's name itself frees that
  name although it was never allocated.
\<close>

theorem dtor_frees_user_name:
  assumes "st_userspace_ctor p us = Inr us'" "fst (prep_stack p us)" "p_elf_version p"
    and "aarch64_fn us = Some (Static s)" "aarch64_handle us' \<noteq> None"
  shows "st_userspace_dtor us' = Inl Undef"
proof -
  have keep: "aarch64_fn (snd (prep_stack p us)) = aarch64_fn us"
    by (auto simp: prep_stack_def Let_def split: prod.splits option.splits)
  then have "aarch64_fn us' = Some (Static s) \<and> alloc_aarch64_fn us'"
    using assms(1-5)
    by (auto simp: st_userspace_ctor_def Let_def split: prod.splits elim!: bindE_InrE dest!: init_binary_static)
  then show ?thesis using assms(5) by (simp add: st_userspace_dtor_def destroy_binary_def free_str_def Let_def)
qed

text \<open>What one handle holds open, and the resources counted with multiplicity.\<close>

definition fds_of :: "st_handle option \<Rightarrow> int multiset" where
  "fds_of h = (case h of None \<Rightarrow> {#} | Some h \<Rightarrow> {#fd h#})"

definition elfs_of :: "st_handle option \<Rightarrow> nat multiset" where
  "elfs_of h = (case h of None \<Rightarrow> {#} | Some h \<Rightarrow> {#elf h#})"

definition counts :: "resources \<Rightarrow> int multiset \<times> nat multiset \<times> nat" where
  "counts r = (mset (open_fds r), mset (open_elfs r), handle_blocks r)"

lemma init_binary_counts:
  assumes "p_getenv p var = None" "init_binary p var suffix None False r = Inr (h, fn, alloc, r')"
  shows "(\<exists>s. fn = Some (Heap s)) \<and>
         counts r' = (mset (open_fds r) + fds_of h, mset (open_elfs r) + elfs_of h,
                      handle_blocks r + of_bool (h \<noteq> None))"
proof -
  from assms obtain s where s: "fn = Some (Heap s)" "st_init (p_lib p) (Some s) r = (h, r')"
    by (auto simp: init_binary_def split: if_splits prod.splits)
  have "case st_init (p_lib p) (Some s) r of (None, r') \<Rightarrow> r' = r
     | (Some h, r') \<Rightarrow> r' = r\<lparr>open_fds := fd h # open_fds r, open_elfs := elf h # open_elfs r,
              handle_blocks := handle_blocks r + 1\<rparr>"
    by (rule st_init_opens)
  then show ?thesis
    using s by (auto simp: counts_def fds_of_def elfs_of_def split: option.splits)
qed

lemma destroy_binary_counts:
  assumes "fn = Some (Heap s)" "counts r = (F, E, n)"
  shows "\<exists>r'. destroy_binary h fn alloc r = Inr r' \<and>
           counts r' = (F - fds_of h, E - elfs_of h, n - of_bool (h \<noteq> None))"
  using assms
  by (auto simp: destroy_binary_def st_destroy_def free_handle_def free_str_def counts_def fds_of_def
      elfs_of_def Let_def split: option.splits)

text \<open>
  Tearing down releases what start-up opened. When no binary was named by an environment
  variable or by the program, the tear-down after the start-up frees no foreign memory and leaves
  exactly the descriptors and handles open that were open before, whichever of the three binaries exist.
\<close>

theorem ctor_dtor_balanced:
  assumes run: "st_userspace_ctor p us = Inr us'"
    and env: "p_getenv p ENV_AARCH64_BIN = None" "p_getenv p ENV_POWERPC64_BIN = None"
      "p_getenv p ENV_X86_64_BIN = None"
    and names: "aarch64_fn us = None" "powerpc64_fn us = None" "x86_64_fn us = None"
    and unset: "\<not> alloc_aarch64_fn us" "\<not> alloc_powerpc64_fn us" "\<not> alloc_x86_64_fn us"
      "aarch64_handle us = None" "powerpc64_handle us = None" "x86_64_handle us = None"
  shows "\<exists>us''. st_userspace_dtor us' = Inr us'' \<and> counts (us_res us'') = counts (us_res us)"
proof -
  define ps where "ps = snd (prep_stack p us)"
  have keep: "ps = us\<lparr>bounds := bounds ps\<rparr>"
    by (auto simp: ps_def prep_stack_def Let_def split: prod.splits option.splits)
  have k: "us_res ps = us_res us" "aarch64_fn ps = None" "powerpc64_fn ps = None" "x86_64_fn ps = None"
    "\<not> alloc_aarch64_fn ps" "\<not> alloc_powerpc64_fn ps" "\<not> alloc_x86_64_fn ps"
    "aarch64_handle ps = None" "powerpc64_handle ps = None" "x86_64_handle ps = None"
    using names unset by (subst keep, simp)+
  show ?thesis
  proof (cases "fst (prep_stack p us) \<and> p_elf_version p")
    case False
    then have "us' = ps" using run by (auto simp: st_userspace_ctor_def Let_def ps_def split: prod.splits if_splits)
    then show ?thesis using k by (simp add: st_userspace_dtor_def destroy_binary_def)
  next
    case True
    then obtain h1 f1 a1 r1 h2 f2 a2 r2 h3 f3 a3 r3 where
      1: "init_binary p ENV_AARCH64_BIN ''_aarch64'' None False (us_res us) = Inr (h1, f1, a1, r1)"
      and 2: "init_binary p ENV_POWERPC64_BIN ''_powerpc64'' None False r1 = Inr (h2, f2, a2, r2)"
      and 3: "init_binary p ENV_X86_64_BIN ''_x86-64'' None False r2 = Inr (h3, f3, a3, r3)"
      and us': "aarch64_handle us' = h1" "aarch64_fn us' = f1" "alloc_aarch64_fn us' = a1"
        "powerpc64_handle us' = h2" "powerpc64_fn us' = f2" "alloc_powerpc64_fn us' = a2"
        "x86_64_handle us' = h3" "x86_64_fn us' = f3" "alloc_x86_64_fn us' = a3" "us_res us' = r3"
      using run k
      by (auto simp: st_userspace_ctor_def Let_def ps_def split: prod.splits elim!: bindE_InrE)
    obtain F E n where c: "counts (us_res us) = (F, E, n)" by (cases "counts (us_res us)")
    note i1 = init_binary_counts [OF env(1) 1] and i2 = init_binary_counts [OF env(2) 2]
      and i3 = init_binary_counts [OF env(3) 3]
    have c3: "counts r3 = (F + fds_of h1 + fds_of h2 + fds_of h3, E + elfs_of h1 + elfs_of h2 + elfs_of h3,
        n + of_bool (h1 \<noteq> None) + of_bool (h2 \<noteq> None) + of_bool (h3 \<noteq> None))"
      using i1 i2 i3 c by (simp add: counts_def)
    obtain s1 s2 s3 where s: "f1 = Some (Heap s1)" "f2 = Some (Heap s2)" "f3 = Some (Heap s3)"
      using i1 i2 i3 by blast
    obtain q1 where q1: "destroy_binary h1 f1 a1 r3 = Inr q1"
      "counts q1 = (F + fds_of h2 + fds_of h3, E + elfs_of h2 + elfs_of h3,
         n + of_bool (h2 \<noteq> None) + of_bool (h3 \<noteq> None))"
      using destroy_binary_counts [OF s(1) c3, of h1 a1] by (auto simp: add_ac)
    obtain q2 where q2: "destroy_binary h2 f2 a2 q1 = Inr q2"
      "counts q2 = (F + fds_of h3, E + elfs_of h3, n + of_bool (h3 \<noteq> None))"
      using destroy_binary_counts [OF s(2) q1(2), of h2 a2] by (auto simp: add_ac)
    obtain q3 where q3: "destroy_binary h3 f3 a3 q2 = Inr q3" "counts q3 = (F, E, n)"
      using destroy_binary_counts [OF s(3) q2(2), of h3 a3] by (auto simp: add_ac)
    show ?thesis using q1(1) q2(1) q3 us' c by (simp add: st_userspace_dtor_def)
  qed
qed

section \<open>A small process\<close>

definition example_process :: process where
  "example_process = \<lparr>p_lib = example_lib, p_elf_version = True, p_getenv = (\<lambda>_. None), p_progname = ''prog'',
     p_maps = Some [\<lparr>ml_fields = 7, ml_start = 0x400000, ml_end = 0x401000, ml_path = ''[heap]''\<rparr>,
                    \<lparr>ml_fields = 7, ml_start = 0x7ffde000, ml_end = 0x7ffff000, ml_path = ''[stack]''\<rparr>],
     p_rlimit = Some 0x800000, p_stack_base = 0x7fffec38, p_thread_stack = None\<rparr>"

definition example_us :: userspace where
  "example_us = \<lparr>aarch64_handle = None, powerpc64_handle = None, x86_64_handle = None,
     aarch64_fn = None, alloc_aarch64_fn = False, powerpc64_fn = None, alloc_powerpc64_fn = False,
     x86_64_fn = None, alloc_x86_64_fn = False, bounds = \<lparr>high = 0x7fffec30, low = 0x7f7ff000\<rparr>,
     us_res = \<lparr>open_fds = [], open_elfs = [], handle_blocks = 0\<rparr>\<rparr>"

lemma example_init: "fst (st_init example_lib (Some f) r) \<noteq> None"
  using read_tables(1) [OF example_lib_holds(1), of True] read_tables(2) [OF example_lib_holds(2), of True]
    read_sites_holds [OF example_lib_holds(3,4)] read_tables(3) [OF example_lib_holds(5), of False]
    read_tables(4) [OF example_lib_holds(6), of False]
  by (simp add: st_init_def Let_def read_handle_def example_lib_def get_regops_def get_properties_def)

lemma example_process_simps [simp]:
  "p_lib example_process = example_lib" "p_elf_version example_process" "p_getenv example_process v = None"
  "get_main_stack example_process = (True, \<lparr>high = 0x7ffff000, low = 0x7ffde000\<rparr>)"
  "p_rlimit example_process = Some 0x800000" "p_stack_base example_process = 0x7fffec38"
  "fst (prep_stack example_process us)" "lib_malloc example_lib"
  by (simp_all add: example_process_def get_main_stack_def prep_stack_def Let_def example_lib_def)

lemma init_binary_total: "lib_malloc (p_lib p) \<Longrightarrow> \<exists>x. init_binary p var suffix fn alloc r = Inr x"
  by (auto simp: init_binary_def split: option.splits prod.splits)

lemma ctor_total:
  assumes "lib_malloc (p_lib p)"
  shows "\<exists>us'. st_userspace_ctor p us = Inr us'"
proof -
  have "\<exists>h fn alloc r'. init_binary p var suffix fn0 alloc0 r = Inr (h, fn, alloc, r')"
    for var suffix fn0 alloc0 r
    using init_binary_total [OF assms] by (metis prod_cases4)
  then show ?thesis
    by (auto simp: st_userspace_ctor_def Let_def bindE_eq_Inr split: prod.splits) (metis)
qed

theorem prep_stack_bounds_witness:
  "\<exists>us'. prep_stack example_process example_us = (True, us') \<and> low (bounds us') = 0x7f7ff000 \<and>
     unat (high (bounds us')) = 0x7fffec30"
  using prep_stack_bounds [of example_process "\<lparr>high = 0x7ffff000, low = 0x7ffde000\<rparr>" "0x800000" example_us]
  by simp

theorem rewrite_to_other_half_witness:
  "\<exists>cur new. userspace_rewrite_internal example_process (\<lambda>_. 0) example_src example_dest example_us 0x7fffe000
       (Some (\<lambda>_. 0)) (Some (\<lambda>_. 0)) (Some (handle example_src)) (Some (handle example_dest)) =
     bindE (st_rewrite_stack (\<lambda>_. 0) example_src example_dest (Some (handle example_src)) (Some (\<lambda>_. 0)) cur
              (Some (handle example_dest)) (Some (\<lambda>_. 0)) new)
       (\<lambda>(ret, m, regs, src, dest). Inr (if ret \<noteq> 0 then 1 else 0, m, regs, example_us, src, dest)) \<and>
     0x7fffe000 \<in> half (bounds example_us) cur \<and> half (bounds example_us) cur \<inter> half (bounds example_us) new = {}"
  using rewrite_to_other_half [of example_us "0x7fffe000" example_process "\<lambda>_. 0"
      example_src example_dest "\<lambda>_. 0" "\<lambda>_. 0" "handle example_src" "handle example_dest"]
  by (simp add: example_us_def wf_bounds_def) blast

theorem get_stack_bounds_half_witness:
  "\<exists>b. get_stack_bounds example_process 0x7f800000 example_us = (b, example_us) \<and>
       low b \<le> 0x7f800000 \<and> 0x7f800000 < high b"
  using get_stack_bounds_half [of example_us "0x7f800000" example_process]
  by (auto simp: example_us_def wf_bounds_def)

theorem init_binary_env_lost_witness:
  "\<exists>r'. init_binary (example_process\<lparr>p_getenv := \<lambda>_. Some ''a.out''\<rparr>) ENV_X86_64_BIN ''_x86-64'' None False
          (us_res example_us) = Inr (None, None, False, r')"
  using init_binary_env_lost [of "example_process\<lparr>p_getenv := \<lambda>_. Some ''a.out''\<rparr>"] by simp

theorem dtor_frees_user_name_witness:
  "\<exists>us'. st_userspace_ctor example_process (example_us\<lparr>aarch64_fn := Some (Static ''a.arm'')\<rparr>) = Inr us' \<and>
         st_userspace_dtor us' = Inl Undef"
proof -
  let ?us = "example_us\<lparr>aarch64_fn := Some (Static ''a.arm'')\<rparr>"
  obtain us' where us': "st_userspace_ctor example_process ?us = Inr us'"
    using ctor_total [of example_process ?us] by auto
  obtain q where q: "prep_stack example_process ?us = (True, q)" "aarch64_fn q = Some (Static ''a.arm'')"
    by (simp add: prep_stack_def Let_def)
  have init: "st_init example_lib (Some f) r = (h, r') \<Longrightarrow> h \<noteq> None" for f r h r'
    using example_init [of f r] by auto
  have "aarch64_handle us' \<noteq> None"
    using us' q
    by (auto simp: st_userspace_ctor_def Let_def init_binary_def split: prod.splits elim!: bindE_InrE dest!: init)
  then show ?thesis
    using dtor_frees_user_name [of example_process ?us us'] us' by simp
qed

theorem ctor_dtor_balanced_witness:
  "\<exists>us' us''. st_userspace_ctor example_process example_us = Inr us' \<and>
     st_userspace_dtor us' = Inr us'' \<and> counts (us_res us'') = ({#}, {#}, 0)"
proof -
  obtain us' where us': "st_userspace_ctor example_process example_us = Inr us'"
    using ctor_total [of example_process example_us] by auto
  have "\<exists>us''. st_userspace_dtor us' = Inr us'' \<and> counts (us_res us'') = counts (us_res example_us)"
    by (rule ctor_dtor_balanced [OF us']) (simp_all add: example_us_def)
  then show ?thesis using us' by (simp add: example_us_def counts_def)
qed

end
