(* ===== verification/Thread_Schedule.thy ===== *)
theory Thread_Schedule
  imports Prelude "HOL-Library.Multiset"
begin

text \<open>
  Thread schedules (\<open>lib/migration/src/mapping.c\<close>): the file that maps the threads of each region of
  the program to nodes, as \<open>read_mapping_schedule\<close> reads it, and the look-up \<open>get_node_mapping\<close>. The C
  library's \<open>bsearch\<close> and the number conversions of its \<open>fscanf\<close> are those of the musl sources in
  \<open>lib/musl-1.1.18\<close>; of its \<open>qsort\<close> only the documented contract is used, as an argument.
\<close>

section \<open>Reading numbers\<close>

definition is_space :: "char \<Rightarrow> bool" where
  "is_space c \<longleftrightarrow> of_char c = (32 :: nat) \<or> (9 \<le> (of_char c :: nat) \<and> of_char c \<le> (13 :: nat))"

definition is_digit :: "char \<Rightarrow> bool" where
  "is_digit c \<longleftrightarrow> 48 \<le> (of_char c :: nat) \<and> of_char c \<le> (57 :: nat)"

definition digit :: "char \<Rightarrow> nat" where
  "digit c = of_char c - 48"

text \<open>
  One conversion: there is no more input, the input is not a number, or there is a number; then its
  64 bits and the rest of the input.
\<close>

datatype scanned = Input_failure | Match_failure | Number u64 string

fun scan_digits :: "nat \<Rightarrow> string \<Rightarrow> nat \<times> string" where
  "scan_digits n [] = (n, [])"
| "scan_digits n (c # cs) = (if is_digit c then scan_digits (10 * n + digit c) cs else (n, c # cs))"

text \<open>\<open>__intscan\<close> in base 10 with the limit \<open>ULLONG_MAX\<close>: it saturates, and then ignores the sign.\<close>

definition intscan :: "string \<Rightarrow> scanned" where
  "intscan cs =
     (let neg = (cs \<noteq> [] \<and> hd cs = CHR ''-'');
          ds = (if cs \<noteq> [] \<and> (hd cs = CHR ''+'' \<or> hd cs = CHR ''-'') then tl cs else cs) in
      if ds = [] \<or> \<not> is_digit (hd ds) then Match_failure
      else
        let (n, rest) = scan_digits 0 ds in
        if n < 2 ^ 64 then Number (if neg then - of_nat n else of_nat n) rest
        else Number (- 1) rest)"

text \<open>A conversion \<open>%lu\<close> or \<open>%d\<close> skips white space, and fails on the end of the input before it starts.\<close>

definition scan :: "string \<Rightarrow> scanned" where
  "scan cs = (let cs = dropWhile is_space cs in if cs = [] then Input_failure else intscan cs)"

section \<open>The schedule\<close>

text \<open>A mapping; \<open>node\<close> is \<open>None\<close> when the pointer is null.\<close>

record mapping =
  region :: u64
  num :: u64
  node :: "int list option"

text \<open>The file-scope variables; the list has \<open>num_mappings\<close> elements.\<close>

record schedule =
  default_node :: int
  mappings :: "mapping list"

definition set_default_node :: "int \<Rightarrow> schedule \<Rightarrow> schedule" where
  "set_default_node n s = s\<lparr>default_node := n\<rparr>"

definition cleanup :: "schedule \<Rightarrow> schedule" where
  "cleanup s = s\<lparr>mappings := []\<rparr>"

text \<open>\<open>fscanf(fp, "%d", ...)\<close> keeps the lower 32 bits of the number.\<close>

definition to_int :: "u64 \<Rightarrow> int" where
  "to_int w = sint (ucast w :: u32)"

text \<open>The loop over the nodes of a line: \<open>None\<close> when a conversion does not give one.\<close>

fun read_nodes :: "nat \<Rightarrow> string \<Rightarrow> (int list \<times> string) option" where
  "read_nodes n cs =
     (if n = 0 then Some ([], cs)
      else
        (case scan cs of
           Number w cs \<Rightarrow> map_option (\<lambda>(ns, cs). (to_int w # ns, cs)) (read_nodes (n - 1) cs)
         | _ \<Rightarrow> None))"

declare read_nodes.simps [simp del]

text \<open>
  The loop over the lines, with \<open>k\<close> entries to go; \<open>alloc\<close> says whether memory for that many nodes can be
  had. The code does not check that: storing the first node through the null pointer is undefined. The result is \<open>None\<close> when the format is wrong,
  and otherwise the entries read and whether the loop stopped at the end of the file.
\<close>

fun read_entries :: "(nat \<Rightarrow> bool) \<Rightarrow> nat \<Rightarrow> string \<Rightarrow> (mapping list \<times> bool) option result" where
  "read_entries alloc 0 cs = Inr (Some ([], False))"
| "read_entries alloc (Suc k) cs =
     (case scan cs of
        Input_failure \<Rightarrow> Inr (Some ([], True))
      | Match_failure \<Rightarrow> Inr None
      | Number r cs \<Rightarrow>
          (case scan cs of
             Number n cs \<Rightarrow>
               if \<not> alloc (unat n) \<and> n \<noteq> 0 then (case scan cs of Number w cs \<Rightarrow> Inl Undef | _ \<Rightarrow> Inr None)
               else
                 (case read_nodes (unat n) cs of
                    None \<Rightarrow> Inr None
                  | Some (ns, cs) \<Rightarrow>
                      bindE (read_entries alloc k cs) (\<lambda>x.
                        Inr (map_option (\<lambda>(ms, eof).
                          (\<lparr>region = r, num = n, node = Some ns\<rparr> # ms, eof)) x)))
           | _ \<Rightarrow> Inr None))"

text \<open>An entry that was allocated and never read.\<close>

definition blank :: mapping where
  "blank = \<lparr>region = 0, num = 0, node = None\<rparr>"

definition DEF_THREAD_SCHEDULE :: string where "DEF_THREAD_SCHEDULE = ''thread-schedule.txt''"
definition ENV_POPCORN_THREAD_SCHEDULE :: string where
  "ENV_POPCORN_THREAD_SCHEDULE = ''POPCORN_THREAD_SCHEDULE''"

text \<open>
  \<open>getenv\<close> and \<open>files\<close> are the environment and the files that can be opened. At the end of the file one entry is
  taken off the count, however many are missing: the rest of the array is blank.
\<close>

definition read_mapping_schedule ::
  "(mapping list \<Rightarrow> mapping list) \<Rightarrow> (nat \<Rightarrow> bool) \<Rightarrow> (string \<Rightarrow> string option) \<Rightarrow>
   (string \<Rightarrow> string option) \<Rightarrow> schedule \<Rightarrow> schedule result" where
  "read_mapping_schedule qsort alloc getenv files s =
     (let fn = (case getenv ENV_POPCORN_THREAD_SCHEDULE of Some f \<Rightarrow> f | None \<Rightarrow> DEF_THREAD_SCHEDULE) in
      case files fn of
        None \<Rightarrow> Inr s
      | Some cs \<Rightarrow>
          let num_mappings = 1 + length (filter (\<lambda>c. c = CHR 0x0A) cs) in
          bindE (read_entries alloc num_mappings cs) (\<lambda>x.
            case x of
              None \<Rightarrow> Inr (cleanup s)
            | Some (ms, eof) \<Rightarrow>
                let n = (if eof then num_mappings - 1 else num_mappings) in
                Inr (s\<lparr>mappings := qsort (ms @ replicate (n - length ms) blank)\<rparr>)))"

section \<open>Look-up\<close>

definition region_find :: "u64 \<Rightarrow> mapping \<Rightarrow> int" where
  "region_find key m = (if key < region m then - 1 else if key > region m then 1 else 0)"

text \<open>musl's \<open>bsearch\<close>: the index of the entry found, searching \<open>nel\<close> entries from \<open>base\<close>.\<close>

function bsearch :: "('a \<Rightarrow> int) \<Rightarrow> 'a list \<Rightarrow> nat \<Rightarrow> nat \<Rightarrow> nat option" where
  "bsearch cmp xs base nel =
     (if nel > 0 then
        let try = base + nel div 2; sign = cmp (xs ! try) in
        if sign = 0 then Some try
        else if nel = 1 then None
        else if sign < 0 then bsearch cmp xs base (nel div 2)
        else bsearch cmp xs try (nel - nel div 2)
      else None)"
  by pat_completeness auto
termination by (relation "measure (\<lambda>(cmp, xs, base, nel). nel)") auto

declare bsearch.simps [simp del]

definition get_node_mapping :: "schedule \<Rightarrow> u64 \<Rightarrow> int \<Rightarrow> int result" where
  "get_node_mapping s r ptid =
     (if ptid < 0 then Inr (default_node s)
      else
        (case bsearch (region_find r) (mappings s) 0 (length (mappings s)) of
           None \<Rightarrow> Inr (default_node s)
         | Some i \<Rightarrow>
             bindE (arr (mappings s) i) (\<lambda>m.
               if ptid < uint (num m) then bindE (deref (node m)) (\<lambda>ns. arr ns (nat ptid))
               else Inr (default_node s))))"

end
