(* ===== verification/Migration.thy ===== *)
theory Migration
  imports Userspace Thread_Schedule
begin

text \<open>
  Thread migration (\<open>lib/migration/src/migrate.c\<close>, the migration macros of
  \<open>include/arch/*/migrate.h\<close>, and the per-node counts of \<open>debug.c\<close>), in the default configuration: requests come
  from the kernel or the program, and stacks are rewritten. \<open>_CLEAN_CRASH\<close> is a parameter. The
  code runs up to the migration system call, and goes on where the kernel lets it: after the call, or on the
  destination in one of the \<open>__migrate_fixup\<close> routines.
\<close>

section \<open>State\<close>

text \<open>
  Where the fix-up routine continues: at the start of \<open>__migrate_shim_internal\<close> after a migration to another
  architecture, and otherwise right after the system call.
\<close>

datatype resume = Reenter | After_syscall

record shim_data =
  callback :: u64
  callback_data :: u64
  regset :: pool
  post_syscall :: resume

text \<open>
  A thread: the node and the architecture it runs on, its thread pointer, the migration arguments
  that \<open>pthread_set_migrate_args\<close> keeps in the thread's descriptor, which lies at a fixed
  distance from the start of its thread-local storage, the callbacks made (function, argument and node), the memory, and what the stack
  rewriting keeps. \<open>debug_threads\<close> and \<open>handlers\<close> are the counts of \<open>debug_info\<close> and the nodes on which the handler was
  registered.
\<close>

record thread =
  nid :: int
  cpu :: arch
  tp :: u64
  migrate_args :: "u64 \<Rightarrow> shim_data option"
  calls :: "(u64 \<times> u64 \<times> int) list"
  tmem :: memory
  tstacks :: userspace
  src_ctx :: rewrite_context
  dest_ctx :: rewrite_context
  debug_threads :: "u64 list"
  handlers :: "int list"

text \<open>
  What does not change: the process, the nodes' status as \<open>__init_nodes_info\<close> got it, the addresses of the
  fix-up routines, and the configuration.
\<close>

record cluster =
  cl_process :: process
  ni :: "popcorn_node_status list"
  origin_nid :: int
  fixup_pc :: "arch \<Rightarrow> u64"
  CLEAN_CRASH :: bool

text \<open>The system call in progress: its arguments, and the local variable \<open>cur_nid\<close>.\<close>

record migrate_call =
  to_nid :: int
  to_regs :: pool
  to_sp :: u64
  to_bp :: u64
  cur_nid :: int

datatype progress = Returned | In_syscall migrate_call

section \<open>Nodes\<close>

text \<open>The reply of the kernel is \<open>None\<close> when the system call fails.\<close>

definition popcorn_getnodeinfo :: "(int \<times> popcorn_node_status list) option \<Rightarrow> int \<times> popcorn_node_status list" where
  "popcorn_getnodeinfo reply =
     (case reply of
        Some r \<Rightarrow> r
      | None \<Rightarrow> (- 1, replicate (nat MAX_POPCORN_NODES) \<lparr>status = 0, node_arch = ARCH_UNKNOWN, distance = - 1\<rparr>))"

definition init_nodes_info ::
  "(int \<times> popcorn_node_status list) option \<Rightarrow> cluster \<times> schedule \<Rightarrow> cluster \<times> schedule" where
  "init_nodes_info reply = (\<lambda>(c, s).
     let (origin, nodes) = popcorn_getnodeinfo reply in
     (c\<lparr>ni := nodes, origin_nid := origin\<rparr>, set_default_node origin s))"

definition node_available :: "cluster \<Rightarrow> int \<Rightarrow> bool result" where
  "node_available c n =
     (if n < 0 \<or> n \<ge> MAX_POPCORN_NODES then Inr False
      else bindE (arr (ni c) (nat n)) (\<lambda>s. Inr (status s \<noteq> 0)))"

definition current_arch :: "cluster \<Rightarrow> int \<Rightarrow> arch result" where
  "current_arch c n =
     (if n < 0 \<or> n \<ge> MAX_POPCORN_NODES then Inr ARCH_UNKNOWN
      else bindE (arr (ni c) (nat n)) (\<lambda>s. Inr (node_arch s)))"

section \<open>Thread-local storage\<close>

definition MUSL_PTHREAD_DESCRIPTOR_SIZE :: u64 where "MUSL_PTHREAD_DESCRIPTOR_SIZE = 288"

text \<open>\<open>GET_TLS_POINTER\<close>: the start of the thread-local storage, from the thread pointer.\<close>

definition get_tls_pointer :: "arch \<Rightarrow> u64 \<Rightarrow> u64" where
  "get_tls_pointer a self =
     (case a of
        ARCH_AARCH64 \<Rightarrow> self + 16
      | ARCH_POWERPC64 \<Rightarrow> self - 0x7000
      | ARCH_X86_64 \<Rightarrow> self + MUSL_PTHREAD_DESCRIPTOR_SIZE
      | _ \<Rightarrow> self)"

definition get_thread_pointer :: "u64 \<Rightarrow> arch \<Rightarrow> u64 result" where
  "get_thread_pointer raw_tls dest =
     (case dest of
        ARCH_AARCH64 \<Rightarrow> Inr (raw_tls - 16)
      | ARCH_POWERPC64 \<Rightarrow> Inr (raw_tls + 0x7000)
      | ARCH_X86_64 \<Rightarrow> Inr (raw_tls - MUSL_PTHREAD_DESCRIPTOR_SIZE)
      | _ \<Rightarrow> Inl Abort)"

text \<open>The code of an architecture finds the thread's descriptor from the thread pointer.\<close>

definition pthread_get_migrate_args :: "thread \<Rightarrow> shim_data option" where
  "pthread_get_migrate_args t = migrate_args t (get_tls_pointer (cpu t) (tp t))"

definition pthread_set_migrate_args :: "shim_data option \<Rightarrow> thread \<Rightarrow> thread" where
  "pthread_set_migrate_args d t =
     t\<lparr>migrate_args := (migrate_args t)(get_tls_pointer (cpu t) (tp t) := d)\<rparr>"

section \<open>The counts of threads per node\<close>

definition remote_debug_init :: "int \<Rightarrow> thread \<Rightarrow> thread result" where
  "remote_debug_init n t =
     (if n < 0 \<or> n \<ge> MAX_POPCORN_NODES then Inr t
      else
        bindE (arr (debug_threads t) (nat n)) (\<lambda>k.
          let t = (if k = 0 then t\<lparr>handlers := handlers t @ [n]\<rparr> else t) in
          Inr (t\<lparr>debug_threads := (debug_threads t)[nat n := k + 1]\<rparr>)))"

definition remote_debug_cleanup :: "int \<Rightarrow> thread \<Rightarrow> thread result" where
  "remote_debug_cleanup n t =
     (if n < 0 \<or> n \<ge> MAX_POPCORN_NODES then Inr t
      else
        bindE (arr (debug_threads t) (nat n)) (\<lambda>k.
          Inr (t\<lparr>debug_threads := (debug_threads t)[nat n := k - 1]\<rparr>)))"

section \<open>Rewriting the stack\<close>

definition arch_regops :: "arch \<Rightarrow> regops option" where
  "arch_regops a =
     (case a of
        ARCH_AARCH64 \<Rightarrow> Some regs_aarch64
      | ARCH_POWERPC64 \<Rightarrow> Some regs_powerpc64
      | ARCH_X86_64 \<Rightarrow> Some regs_x86_64
      | _ \<Rightarrow> None)"

text \<open>
  The stack pointer that \<open>REWRITE_STACK\<close> passes on. On PowerPC64 the macro passes the program
  counter.
\<close>

definition rewrite_stack_sp :: "arch \<Rightarrow> pool \<Rightarrow> u64" where
  "rewrite_stack_sp a regs_src =
     (case a of
        ARCH_AARCH64 \<Rightarrow> sp_aarch64 regs_src 0
      | ARCH_POWERPC64 \<Rightarrow> pc_powerpc64 regs_src 0
      | _ \<Rightarrow> sp_x86_64 regs_src 0)"

text \<open>
  \<open>REWRITE_STACK\<close>: whether it worked, the destination registers, and the thread. For the same architecture the
  registers are copied.
\<close>

definition rewrite_stack_macro ::
  "cluster \<Rightarrow> thread \<Rightarrow> pool \<Rightarrow> pool \<Rightarrow> arch \<Rightarrow> (bool \<times> pool \<times> thread) result" where
  "rewrite_stack_macro c t regs_src regs_dst dst_arch =
     (if dst_arch \<noteq> cpu t then
        bindE (st_userspace_rewrite (cl_process c) (tmem t) (src_ctx t) (dest_ctx t) (tstacks t)
                 (rewrite_stack_sp (cpu t) regs_src) (cpu t) (Some regs_src) dst_arch (Some regs_dst))
          (\<lambda>(ret, m, regs, us, src, dest).
             Inr (ret = 0, (case regs of Some r \<Rightarrow> r | None \<Rightarrow> regs_dst),
                  t\<lparr>tmem := m, tstacks := us, src_ctx := src, dest_ctx := dest\<rparr>))
      else
        (case arch_regops (cpu t) of
           Some ops \<Rightarrow> Inr (True, copy_struct (regset_size ops) regs_src 0 regs_dst 0, t)
         | None \<Rightarrow> Inl Abort))"

section \<open>Migrating\<close>

text \<open>After the migration: the callback, and the arguments are forgotten.\<close>

definition post_migration :: "cluster \<Rightarrow> int \<Rightarrow> shim_data \<Rightarrow> thread \<Rightarrow> (thread \<times> progress) result" where
  "post_migration c cur d t =
     bindE (if CLEAN_CRASH c \<and> cur \<noteq> origin_nid c then remote_debug_init cur t else Inr t) (\<lambda>t.
       let t = (if callback d \<noteq> 0 then t\<lparr>calls := calls t @ [(callback d, callback_data d, nid t)]\<rparr> else t) in
       Inr (pthread_set_migrate_args None t, Returned))"

text \<open>
  \<open>__migrate_shim_internal\<close> up to the system call. \<open>regs_src\<close> are the registers it reads, and \<open>regs_dst\<close> is
  what the uninitialized local variable holds.
\<close>

definition migrate_shim_internal ::
  "cluster \<Rightarrow> pool \<Rightarrow> pool \<Rightarrow> int \<Rightarrow> u64 \<Rightarrow> u64 \<Rightarrow> thread \<Rightarrow> (thread \<times> progress) result" where
  "migrate_shim_internal c regs_src regs_dst n cb cb_data t =
     (let cur = nid t in
      bindE (node_available c n) (\<lambda>available.
        if \<not> available then Inr (t, Returned)
        else
          (case pthread_get_migrate_args t of
             Some d \<Rightarrow> post_migration c cur d t
           | None \<Rightarrow>
               bindE (arr (ni c) (nat n)) (\<lambda>s.
               let dst_arch = node_arch s in
               bindE (rewrite_stack_macro c t regs_src regs_dst dst_arch) (\<lambda>(rewritten, regs, t).
                 if rewritten then
                   (case arch_regops dst_arch of
                      None \<Rightarrow> Inl Abort
                    | Some ops \<Rightarrow>
                        let regs = set_pc_op ops regs 0 (fixup_pc c dst_arch);
                            t = pthread_set_migrate_args
                                  (Some \<lparr>callback = cb, callback_data = cb_data, regset = regs,
                                         post_syscall = (if dst_arch \<noteq> cpu t then Reenter else After_syscall)\<rparr>) t in
                        bindE (if CLEAN_CRASH c \<and> cur \<noteq> origin_nid c then remote_debug_cleanup cur t else Inr t) (\<lambda>t.
                        bindE (get_thread_pointer (get_tls_pointer (cpu t) (tp t)) dst_arch) (\<lambda>p.
                          Inr (t\<lparr>tp := p\<rparr>,
                               In_syscall \<lparr>to_nid = n, to_regs = regs, to_sp = sp_op ops regs 0,
                                           to_bp = fbp_op ops regs 0, cur_nid = cur\<rparr>))))
                 else Inr (t, Returned))))))"

text \<open>The system call failed: the thread is where it was.\<close>

definition migrate_failed :: "thread \<Rightarrow> thread \<times> progress" where
  "migrate_failed t = (pthread_set_migrate_args None t, Returned)"

text \<open>
  The system call succeeded: the thread runs on the destination, in the fix-up routine, which crashes
  without arguments and otherwise continues as they say. On re-entering \<open>__migrate_shim_internal\<close> its arguments are
  what the argument registers hold, which the routine does not restore.
\<close>

definition migrate_arrived ::
  "cluster \<Rightarrow> migrate_call \<Rightarrow> pool \<Rightarrow> pool \<Rightarrow> int \<Rightarrow> u64 \<Rightarrow> u64 \<Rightarrow> thread \<Rightarrow> (thread \<times> progress) result" where
  "migrate_arrived c call regs_src regs_dst n cb cb_data t =
     bindE (arr (ni c) (nat (to_nid call))) (\<lambda>s.
       let t = t\<lparr>nid := to_nid call, cpu := node_arch s\<rparr> in
       (case pthread_get_migrate_args t of
          None \<Rightarrow> Inl Abort
        | Some d \<Rightarrow>
            (case post_syscall d of
               Reenter \<Rightarrow> migrate_shim_internal c regs_src regs_dst n cb cb_data t
             | After_syscall \<Rightarrow> post_migration c (cur_nid call) d t)))"

section \<open>The entry points\<close>

text \<open>The kernel's reply to \<open>popcorn_getthreadinfo\<close> is \<open>None\<close> when the system call fails.\<close>

definition do_migrate :: "popcorn_thread_status option \<Rightarrow> int" where
  "do_migrate reply = (case reply of None \<Rightarrow> - 1 | Some st \<Rightarrow> proposed_nid st)"

definition check_migrate ::
  "cluster \<Rightarrow> popcorn_thread_status option \<Rightarrow> pool \<Rightarrow> pool \<Rightarrow> u64 \<Rightarrow> u64 \<Rightarrow> thread \<Rightarrow> (thread \<times> progress) result" where
  "check_migrate c reply regs_src regs_dst cb cb_data t =
     (let n = do_migrate reply in
      if n \<ge> 0 \<and> n \<noteq> nid t then migrate_shim_internal c regs_src regs_dst n cb cb_data t
      else Inr (t, Returned))"

definition migrate :: "cluster \<Rightarrow> pool \<Rightarrow> pool \<Rightarrow> int \<Rightarrow> u64 \<Rightarrow> u64 \<Rightarrow> thread \<Rightarrow> (thread \<times> progress) result" where
  "migrate c regs_src regs_dst n cb cb_data t =
     (if n \<noteq> nid t then migrate_shim_internal c regs_src regs_dst n cb cb_data t
      else Inr (t, Returned))"

definition migrate_schedule ::
  "cluster \<Rightarrow> schedule \<Rightarrow> pool \<Rightarrow> pool \<Rightarrow> u64 \<Rightarrow> int \<Rightarrow> u64 \<Rightarrow> u64 \<Rightarrow> thread \<Rightarrow> (thread \<times> progress) result" where
  "migrate_schedule c s regs_src regs_dst r popcorn_tid cb cb_data t =
     bindE (get_node_mapping s r popcorn_tid) (\<lambda>n.
       if n \<noteq> nid t then migrate_shim_internal c regs_src regs_dst n cb cb_data t
       else Inr (t, Returned))"

section \<open>The fix-up routines\<close>

text \<open>
  The registers that \<open>__migrate_fixup_x86_64\<close>, \<open>__migrate_fixup_aarch64\<close> and \<open>__migrate_fixup_powerpc64\<close>
  (\<open>src/arch/*/migrate_*.s\<close>) load from the register set, by their DWARF numbers, with the offsets they load them from. On
  AArch64 the floating-point registers are addressed from 264 bytes into the register set.
\<close>

definition fixup_loads_x86_64 :: "(u16 \<times> nat) list" where
  "fixup_loads_x86_64 = [(3, 32), (6, 56), (12, 104), (13, 112), (14, 120), (15, 128)]"

definition fixup_loads_x_aarch64 :: "(u16 \<times> nat) list" where
  "fixup_loads_x_aarch64 =
     [(19, 168), (20, 176), (21, 184), (22, 192), (23, 200), (24, 208), (25, 216), (26, 224),
     (27, 232), (28, 240), (29, 248)]"

definition fixup_loads_v_aarch64 :: "(u16 \<times> nat) list" where
  "fixup_loads_v_aarch64 =
     [(72, 264 + 128), (73, 264 + 144), (74, 264 + 160), (75, 264 + 176), (76, 264 + 192), (77,
     264 + 208), (78, 264 + 224), (79, 264 + 240)]"

definition fixup_loads_r_powerpc64 :: "(u16 \<times> nat) list" where
  "fixup_loads_r_powerpc64 =
     [(2, 40), (14, 136), (15, 144), (16, 152), (17, 160), (18, 168), (19, 176), (20, 184),
     (21, 192), (22, 200), (23, 208), (24, 216), (25, 224), (26, 232), (27, 240), (28, 248),
     (29, 256), (30, 264), (31, 272)]"

definition fixup_loads_f_powerpc64 :: "(u16 \<times> nat) list" where
  "fixup_loads_f_powerpc64 =
     [(46, 392), (47, 400), (48, 408), (49, 416), (50, 424), (51, 432), (52, 440), (53, 448),
     (54, 456), (55, 464), (56, 472), (57, 480), (58, 488), (59, 496), (60, 504), (61, 512),
     (62, 520), (63, 528)]"

end
