(* ===== verification/Migration_Correct.thy ===== *)
theory Migration_Correct
  imports Migration
begin

text \<open>
  What migrating does: a migration that the kernel carries out ends on the destination with the same thread-local storage, no
  arguments left, and the callback made once; one that it refuses leaves the thread as it was only when both
  nodes have the same architecture. The fix-up routines are checked against the register sets.
\<close>

section \<open>Thread-local storage\<close>

definition supported :: "arch \<Rightarrow> bool" where
  "supported a \<longleftrightarrow> a \<in> {ARCH_AARCH64, ARCH_POWERPC64, ARCH_X86_64}"

definition tls_offset :: "arch \<Rightarrow> u64" where
  "tls_offset a = get_tls_pointer a 0"

lemma supported_regops: "supported a \<longleftrightarrow> arch_regops a \<noteq> None"
  by (cases a) (simp_all add: supported_def arch_regops_def)

lemma tls_pointers:
  assumes "supported a"
  shows "get_tls_pointer a x = x + tls_offset a" "get_thread_pointer r a = Inr (r - tls_offset a)"
  using assms by (auto simp: supported_def tls_offset_def get_tls_pointer_def get_thread_pointer_def)

lemma tls_offset_inj:
  "supported a \<Longrightarrow> supported b \<Longrightarrow> tls_offset a = tls_offset b \<longleftrightarrow> a = b"
  by (auto simp: supported_def tls_offset_def get_tls_pointer_def MUSL_PTHREAD_DESCRIPTOR_SIZE_def)

lemma tls_of_other:
  assumes "supported a" "supported b" "get_thread_pointer (get_tls_pointer a x) b = Inr y"
  shows "get_tls_pointer b y = get_tls_pointer a x" "get_tls_pointer a y = get_tls_pointer a x \<longleftrightarrow> a = b"
proof -
  have y: "y = x + tls_offset a - tls_offset b" using assms by (simp add: tls_pointers)
  then show "get_tls_pointer b y = get_tls_pointer a x" using assms by (simp add: tls_pointers)
  have "get_tls_pointer a y = get_tls_pointer a x \<longleftrightarrow> tls_offset a = tls_offset b"
    using y assms(1) by (auto simp: tls_pointers algebra_simps)
  then show "get_tls_pointer a y = get_tls_pointer a x \<longleftrightarrow> a = b"
    using tls_offset_inj [OF assms(1,2)] by simp
qed

lemma args_simps [simp]:
  "pthread_get_migrate_args (pthread_set_migrate_args d t) = d"
  "nid (pthread_set_migrate_args d t) = nid t" "cpu (pthread_set_migrate_args d t) = cpu t"
  "tp (pthread_set_migrate_args d t) = tp t" "calls (pthread_set_migrate_args d t) = calls t"
  "tmem (pthread_set_migrate_args d t) = tmem t"
  "debug_threads (pthread_set_migrate_args d t) = debug_threads t"
  by (simp_all add: pthread_get_migrate_args_def pthread_set_migrate_args_def)

section \<open>Up to the system call\<close>

lemma rewrite_stack_macro_frame:
  assumes "rewrite_stack_macro c t regs_src regs_dst a = Inr (ok, dregs, t1)"
  shows "nid t1 = nid t" "cpu t1 = cpu t" "tp t1 = tp t" "migrate_args t1 = migrate_args t" "calls t1 = calls t"
    "debug_threads t1 = debug_threads t"
proof -
  have "nid t1 = nid t \<and> cpu t1 = cpu t \<and> tp t1 = tp t \<and> migrate_args t1 = migrate_args t \<and> calls t1 = calls t \<and>
    debug_threads t1 = debug_threads t"
  proof (cases "a = cpu t")
    case True
    then show ?thesis using assms by (simp add: rewrite_stack_macro_def split: option.splits)
  next
    case False
    then show ?thesis using assms by (auto simp: rewrite_stack_macro_def elim!: bindE_InrE)
  qed
  then show "nid t1 = nid t" "cpu t1 = cpu t" "tp t1 = tp t" "migrate_args t1 = migrate_args t" "calls t1 = calls t"
    "debug_threads t1 = debug_threads t" by simp_all
qed

text \<open>A request that can be served: the node is there, and the thread is not already migrating.\<close>

definition can_migrate :: "cluster \<Rightarrow> thread \<Rightarrow> int \<Rightarrow> bool" where
  "can_migrate c t n \<longleftrightarrow>
     node_available c n = Inr True \<and> n \<noteq> nid t \<and> pthread_get_migrate_args t = None \<and>
     supported (cpu t) \<and> supported (node_arch (ni c ! nat n))"

lemma can_migrateD:
  assumes "can_migrate c t n"
  shows "0 \<le> n" "n < MAX_POPCORN_NODES" "nat n < length (ni c)" "status (ni c ! nat n) \<noteq> 0"
  using assms by (auto simp: can_migrate_def node_available_def c_result split: if_splits)

lemma migrate_to_syscall:
  assumes can: "can_migrate c t n"
    and rw: "rewrite_stack_macro c t regs_src regs_dst (node_arch (ni c ! nat n)) = Inr (True, dregs, t1)"
    and crash: "\<not> CLEAN_CRASH c"
  defines "a \<equiv> node_arch (ni c ! nat n)"
  shows "\<exists>t2 d call. migrate c regs_src regs_dst n cb cb_data t = Inr (t2, In_syscall call) \<and>
           to_nid call = n \<and> cur_nid call = nid t \<and>
           callback d = cb \<and> callback_data d = cb_data \<and> post_syscall d = (if a \<noteq> cpu t then Reenter else After_syscall) \<and>
           nid t2 = nid t \<and> cpu t2 = cpu t \<and> calls t2 = calls t \<and> tmem t2 = tmem t1 \<and>
           migrate_args t2 = (migrate_args t)(get_tls_pointer (cpu t) (tp t) := Some d) \<and>
           get_thread_pointer (get_tls_pointer (cpu t) (tp t)) a = Inr (tp t2)"
proof -
  note f = rewrite_stack_macro_frame [OF rw]
  note n = can_migrateD [OF can]
  have s: "supported (cpu t)" "supported a" using can by (simp_all add: can_migrate_def a_def)
  obtain ops where ops: "arch_regops a = Some ops" using s(2) supported_regops by blast
  define regs2 where "regs2 = set_pc_op ops dregs 0 (fixup_pc c a)"
  define d where "d = \<lparr>callback = cb, callback_data = cb_data, regset = regs2,
                        post_syscall = (if a \<noteq> cpu t then Reenter else After_syscall)\<rparr>"
  let ?p = "get_tls_pointer (cpu t) (tp t) - tls_offset a"
  let ?t2 = "(pthread_set_migrate_args (Some d) t1)\<lparr>tp := ?p\<rparr>"
  let ?call = "\<lparr>to_nid = n, to_regs = regs2, to_sp = sp_op ops regs2 0, to_bp = fbp_op ops regs2 0, cur_nid = nid t\<rparr>"
  have "migrate c regs_src regs_dst n cb cb_data t = Inr (?t2, In_syscall ?call)"
    using can n rw crash f ops s tls_pointers(2) [OF s(2)]
    by (simp add: migrate_def migrate_shim_internal_def can_migrate_def Let_def a_def regs2_def d_def)
  then show ?thesis using f s
    by (intro exI [of _ ?t2] exI [of _ d] exI [of _ ?call])
       (simp add: d_def pthread_set_migrate_args_def tls_pointers)
qed

section \<open>Properties\<close>

text \<open>The request and, if it comes to the system call, the arrival on the destination.\<close>

definition migrate_and_arrive ::
  "cluster \<Rightarrow> pool \<Rightarrow> pool \<Rightarrow> int \<Rightarrow> u64 \<Rightarrow> u64 \<Rightarrow> pool \<Rightarrow> pool \<Rightarrow> int \<Rightarrow> u64 \<Rightarrow> u64 \<Rightarrow> thread \<Rightarrow>
   (thread \<times> progress) result" where
  "migrate_and_arrive c regs_src regs_dst n cb cb_data regs_src' regs_dst' n' cb' cb_data' t =
     bindE (migrate c regs_src regs_dst n cb cb_data t) (\<lambda>(t, pr).
       case pr of
         Returned \<Rightarrow> Inr (t, Returned)
       | In_syscall call \<Rightarrow> migrate_arrived c call regs_src' regs_dst' n' cb' cb_data' t)"

definition migrate_and_fail ::
  "cluster \<Rightarrow> pool \<Rightarrow> pool \<Rightarrow> int \<Rightarrow> u64 \<Rightarrow> u64 \<Rightarrow> thread \<Rightarrow> (thread \<times> progress) result" where
  "migrate_and_fail c regs_src regs_dst n cb cb_data t =
     bindE (migrate c regs_src regs_dst n cb cb_data t) (\<lambda>(t, pr).
       case pr of
         Returned \<Rightarrow> Inr (t, Returned)
       | In_syscall call \<Rightarrow> Inr (migrate_failed t))"


text \<open>An example: 32 nodes of which node 3 is the only PowerPC64 one, and threads on them.\<close>

definition example_cluster :: "bool \<Rightarrow> cluster" where
  "example_cluster clean_crash =
     \<lparr>cl_process = example_process,
      ni = (replicate 32 \<lparr>status = 1, node_arch = ARCH_X86_64, distance = 0\<rparr>)
             [3 := \<lparr>status = 1, node_arch = ARCH_POWERPC64, distance = 1\<rparr>],
      origin_nid = 0, fixup_pc = (\<lambda>_. 0x400000), CLEAN_CRASH = clean_crash\<rparr>"

definition example_thread :: "int \<Rightarrow> arch \<Rightarrow> thread" where
  "example_thread n a =
     \<lparr>nid = n, cpu = a, tp = 0x10000, migrate_args = (\<lambda>_. None), calls = [], tmem = (\<lambda>_. 0), tstacks = example_us,
      src_ctx = example_src, dest_ctx = example_dest, debug_threads = replicate 32 1, handlers = []\<rparr>"

lemma example_can_migrate:
  "can_migrate (example_cluster cc) (example_thread 1 ARCH_X86_64) 2"
  "can_migrate (example_cluster cc) (example_thread 3 ARCH_POWERPC64) 2"
  "node_arch (ni (example_cluster cc) ! 2) = ARCH_X86_64"
  by (simp_all add: can_migrate_def node_available_def example_cluster_def example_thread_def supported_def
      MAX_POPCORN_NODES_def pthread_get_migrate_args_def)

lemma rewrite_stack_macro_same:
  "arch_regops (cpu t) = Some ops \<Longrightarrow>
   rewrite_stack_macro c t regs_src regs_dst (cpu t) =
     Inr (True, copy_struct (regset_size ops) regs_src 0 regs_dst 0, t)"
  by (simp add: rewrite_stack_macro_def)

lemma example_same_rewrite:
  "rewrite_stack_macro c (example_thread n ARCH_X86_64) regs_src regs_dst ARCH_X86_64 =
     Inr (True, copy_struct (regset_size regs_x86_64) regs_src 0 regs_dst 0, example_thread n ARCH_X86_64)"
  using rewrite_stack_macro_same [of "example_thread n ARCH_X86_64"] by (simp add: example_thread_def arch_regops_def)


text \<open>
  A migration that the kernel refuses. Between nodes of one architecture the thread is left as it was, with no arguments
  pending. To another architecture it is not: the thread pointer has been set for the destination and is not set back, so
  the thread's thread-local storage is no longer found, and the arguments stay behind in its descriptor.
\<close>

theorem refused_migration:
  assumes "supported (cpu t)" "supported a"
    and "migrate_args t (get_tls_pointer (cpu t) p) = Some d"
    and "get_thread_pointer (get_tls_pointer (cpu t) p) a = Inr (tp t)"
  shows "\<exists>t'. migrate_failed t = (t', Returned) \<and> nid t' = nid t \<and> cpu t' = cpu t \<and>
           (if a = cpu t then tp t' = p \<and> migrate_args t' (get_tls_pointer (cpu t) p) = None
            else get_tls_pointer (cpu t') (tp t') \<noteq> get_tls_pointer (cpu t) p \<and>
                 migrate_args t' (get_tls_pointer (cpu t) p) = Some d)"
proof (cases "a = cpu t")
  case True
  then have "tp t = p" using assms by (simp add: tls_pointers)
  then show ?thesis using True by (simp add: migrate_failed_def pthread_set_migrate_args_def)
next
  case False
  have "get_tls_pointer (cpu t) (tp t) \<noteq> get_tls_pointer (cpu t) p"
    using tls_of_other(2) [OF assms(1,2,4)] False by auto
  then show ?thesis using False assms(3) by (simp add: migrate_failed_def pthread_set_migrate_args_def)
qed

theorem refused_migration_witness:
  "\<exists>t'. migrate_failed ((example_thread 1 ARCH_X86_64)
            \<lparr>tp := 0x10000 + 288 - 16,
             migrate_args := [0x10000 + 288 \<mapsto> \<lparr>callback = 0, callback_data = 0, regset = (\<lambda>_. 0), post_syscall = Reenter\<rparr>]\<rparr>)
          = (t', Returned) \<and>
        get_tls_pointer (cpu t') (tp t') \<noteq> 0x10000 + 288 \<and> migrate_args t' (0x10000 + 288) \<noteq> None"
  using refused_migration [of "(example_thread 1 ARCH_X86_64)
            \<lparr>tp := 0x10000 + 288 - 16,
             migrate_args := [0x10000 + 288 \<mapsto> \<lparr>callback = 0, callback_data = 0, regset = (\<lambda>_. 0), post_syscall = Reenter\<rparr>]\<rparr>"
        ARCH_AARCH64 "0x10000"]
  by (auto simp: supported_def example_thread_def get_tls_pointer_def get_thread_pointer_def
      MUSL_PTHREAD_DESCRIPTOR_SIZE_def)

text \<open>
  A thread on a PowerPC64 node never leaves for another architecture, because the stack pointer that is passed to the
  rewriting is the program counter: with its stack bounds known and its code outside its stack, the request returns and
  the thread stays where it is.
\<close>

theorem powerpc64_stays:
  assumes can: "can_migrate c t n" and "cpu t = ARCH_POWERPC64" "node_arch (ni c ! nat n) \<noteq> ARCH_POWERPC64"
    and "high (bounds (tstacks t)) \<noteq> 0"
    and "pc_powerpc64 regs_src 0 < low (bounds (tstacks t)) \<or> high (bounds (tstacks t)) \<le> pc_powerpc64 regs_src 0"
  shows "migrate c regs_src regs_dst n cb cb_data t = Inr (t, Returned)"
proof -
  let ?a = "node_arch (ni c ! nat n)"
  have "st_userspace_rewrite (cl_process c) (tmem t) (src_ctx t) (dest_ctx t) (tstacks t)
          (rewrite_stack_sp (cpu t) regs_src) (cpu t) (Some regs_src) ?a (Some regs_dst) =
        Inr (1, tmem t, Some regs_dst, tstacks t, src_ctx t, dest_ctx t)"
    using assms
    by (simp add: st_userspace_rewrite_def userspace_rewrite_internal_def resolve_bounds_def rewrite_stack_sp_def
        split: option.split)
  then have "rewrite_stack_macro c t regs_src regs_dst ?a = Inr (False, regs_dst, t)"
    using assms(2,3) by (simp add: rewrite_stack_macro_def)
  then show ?thesis
    using can can_migrateD [OF can] by (simp add: migrate_def migrate_shim_internal_def can_migrate_def Let_def)
qed

theorem powerpc64_stays_witness:
  "migrate (example_cluster False) (\<lambda>_. 0) (\<lambda>_. 0) 2 0 0 (example_thread 3 ARCH_POWERPC64) =
     Inr (example_thread 3 ARCH_POWERPC64, Returned)"
  using powerpc64_stays [OF example_can_migrate(2), of False "\<lambda>_. 0"] example_can_migrate(3) [of False]
  by (simp add: example_thread_def example_us_def pc_powerpc64_def load64_def)

text \<open>
  The fix-up routines load exactly the callee-saved registers, as the rewriting library's descriptions of the
  architectures list them, but for those that the kernel has set: the return address (on PowerPC the link register) and, on PowerPC,
  the stack pointer. They load each from where the register set has it, except for the
  floating-point registers of AArch64: the register set has eight bytes of padding before them, which the routine does not
  skip, so it loads the upper half of the register before and the lower half never.
\<close>

theorem fixup_loads_registers:
  "fst ` set fixup_loads_x86_64 = {r. is_callee_saved_x86_64 r} - {16} \<and>
   map (\<lambda>(r, off). reg_x86_64 r) fixup_loads_x86_64 = map (\<lambda>(r, off). Inr off) fixup_loads_x86_64 \<and>
   fst ` set (fixup_loads_x_aarch64 @ fixup_loads_v_aarch64) = {r. is_callee_saved_aarch64 r} - {30} \<and>
   map (\<lambda>(r, off). reg_aarch64 r) fixup_loads_x_aarch64 = map (\<lambda>(r, off). Inr off) fixup_loads_x_aarch64 \<and>
   map (\<lambda>(r, off). reg_aarch64 r) fixup_loads_v_aarch64 = map (\<lambda>(r, off). Inr (off + 8)) fixup_loads_v_aarch64 \<and>
   fst ` set (fixup_loads_r_powerpc64 @ fixup_loads_f_powerpc64) = {r. is_callee_saved_powerpc64 r} - {1, 65} \<and>
   map (\<lambda>(r, off). reg_powerpc64 r) (fixup_loads_r_powerpc64 @ fixup_loads_f_powerpc64) =
     map (\<lambda>(r, off). Inr off) (fixup_loads_r_powerpc64 @ fixup_loads_f_powerpc64)"
proof (intro conjI)
  show "fst ` set fixup_loads_x86_64 = {r. is_callee_saved_x86_64 r} - {16}"
    by (auto simp: fixup_loads_x86_64_def is_callee_saved_x86_64_iff properties_x86_64_def callee_saved_numbers_x86_64)
  show "fst ` set (fixup_loads_x_aarch64 @ fixup_loads_v_aarch64) = {r. is_callee_saved_aarch64 r} - {30}"
    by (auto simp: fixup_loads_x_aarch64_def fixup_loads_v_aarch64_def is_callee_saved_aarch64_iff properties_aarch64_def
        callee_saved_numbers_aarch64)
  show "fst ` set (fixup_loads_r_powerpc64 @ fixup_loads_f_powerpc64) = {r. is_callee_saved_powerpc64 r} - {1, 65}"
    by (auto simp: fixup_loads_r_powerpc64_def fixup_loads_f_powerpc64_def is_callee_saved_powerpc64_iff properties_powerpc64_def
        callee_saved_numbers_powerpc64)
qed (simp_all add: fixup_loads_x86_64_def fixup_loads_x_aarch64_def fixup_loads_r_powerpc64_def
      fixup_loads_f_powerpc64_def fixup_loads_v_aarch64_def reg_x86_64_eq reg_aarch64_eq reg_powerpc64_eq Let_def)

text \<open>
  With \<open>_CLEAN_CRASH\<close>, a thread that migrates between two nodes of one architecture, neither of them the origin, is still counted on the node it
  came from: the count after the migration is that of the local variable read before it, so the destination's count stays and
  its crash handler is not set up.
\<close>

theorem clean_crash_counts_source:
  assumes can: "can_migrate c t n" and crash: "CLEAN_CRASH c" and same: "node_arch (ni c ! nat n) = cpu t"
    and cur: "0 \<le> nid t" "nid t < MAX_POPCORN_NODES" "nid t \<noteq> origin_nid c"
    and len: "length (debug_threads t) = nat MAX_POPCORN_NODES"
  shows "\<exists>t'. migrate_and_arrive c regs_src regs_dst n cb cb_data rs rd n' cb' cb_data' t = Inr (t', Returned) \<and>
           nid t' = n \<and> debug_threads t' = debug_threads t"
proof -
  note n = can_migrateD [OF can]
  have s: "supported (cpu t)" using can by (simp add: can_migrate_def)
  then obtain ops where ops: "arch_regops (cpu t) = Some ops" using supported_regops by blast
  have i: "nat (nid t) < length (debug_threads t)" using cur len by (simp add: MAX_POPCORN_NODES_def)
  have tls: "get_thread_pointer (get_tls_pointer (cpu t) x) (cpu t) = Inr x" for x
    using s by (simp add: tls_pointers)
  have range: "\<not> (nid t < 0 \<or> nid t \<ge> MAX_POPCORN_NODES)" using cur by simp
  show ?thesis
    using can crash same cur(3) n ops range i tls rewrite_stack_macro_same [OF ops]
    by (simp add: migrate_and_arrive_def migrate_def migrate_shim_internal_def can_migrate_def Let_def
        remote_debug_cleanup_def migrate_arrived_def pthread_get_migrate_args_def post_migration_def
        remote_debug_init_def pthread_set_migrate_args_def) (metis list_update_id)
qed

theorem clean_crash_counts_source_witness:
  "\<exists>t'. migrate_and_arrive (example_cluster True) (\<lambda>_. 0) (\<lambda>_. 0) 2 0 0 (\<lambda>_. 0) (\<lambda>_. 0) 0 0 0
           (example_thread 1 ARCH_X86_64) = Inr (t', Returned) \<and>
         nid t' = 2 \<and> debug_threads t' = replicate 32 1"
  using clean_crash_counts_source [OF example_can_migrate(1) [of True], of "\<lambda>_. 0" "\<lambda>_. 0" 0 0 "\<lambda>_. 0" "\<lambda>_. 0" 0 0 0]
  by (simp add: example_cluster_def example_thread_def MAX_POPCORN_NODES_def)

end
