(* ===== verification/Thread_Schedule_Correct.thy ===== *)
theory Thread_Schedule_Correct
  imports Thread_Schedule
begin

text \<open>
  What the thread schedules do: the binary search finds a region if it is there, a schedule that is
  written to a file is read back as written, and no file makes a look-up fault.
\<close>

section \<open>The binary search\<close>

lemma bsearch_spec:
  assumes "sorted (map region xs)" "base + nel \<le> length xs"
    and "\<forall>i < length xs. i < base \<or> base + nel \<le> i \<longrightarrow> region (xs ! i) \<noteq> key"
  shows "case bsearch (region_find key) xs base nel of
           Some i \<Rightarrow> i < length xs \<and> region (xs ! i) = key
         | None \<Rightarrow> \<forall>x \<in> set xs. region x \<noteq> key"
  using assms
proof (induction "region_find key" xs base nel rule: bsearch.induct)
  case (1 xs base nel)
  have le: "region (xs ! i) \<le> region (xs ! j)" if "i \<le> j" "j < length xs" for i j
    using 1(3) that by (simp add: sorted_iff_nth_mono)
  let ?t = "base + nel div 2"
  show ?case
  proof (cases "nel = 0")
    case True
    then have "\<forall>i < length xs. region (xs ! i) \<noteq> key" using 1(5) by (metis add_0_right not_le)
    then show ?thesis using True by (auto simp: bsearch.simps in_set_conv_nth)
  next
    case False
    then have t: "?t < length xs" "nel > 0" using 1(4) by auto
    consider "region (xs ! ?t) = key" | "nel = 1" "region (xs ! ?t) \<noteq> key"
      | "nel \<noteq> 1" "key < region (xs ! ?t)" | "nel \<noteq> 1" "region (xs ! ?t) < key"
      by fastforce
    then show ?thesis
    proof cases
      case 1
      then show ?thesis using t by (subst bsearch.simps) (simp add: region_find_def)
    next
      case 2
      have "region (xs ! i) \<noteq> key" if "i < length xs" for i
        using "1.prems"(3) 2 that by (cases "i = base") auto
      then have "\<forall>x \<in> set xs. region x \<noteq> key" by (metis in_set_conv_nth)
      then show ?thesis using t 2(1) 2(2) [symmetric] by (subst bsearch.simps) (simp add: region_find_def Let_def)
    next
      case 3
      have cmp: "region_find key (xs ! ?t) = - 1" using 3 by (simp add: region_find_def)
      have "region (xs ! i) \<noteq> key" if "i < length xs" "i < base \<or> base + nel div 2 \<le> i" for i
        using that "1.prems"(3) le [of ?t i] 3(2) by (cases "?t \<le> i") auto
      then have "case bsearch (region_find key) xs base (nel div 2) of
           Some i \<Rightarrow> i < length xs \<and> region (xs ! i) = key
         | None \<Rightarrow> \<forall>x \<in> set xs. region x \<noteq> key"
        using "1.hyps"(1) [OF t(2) refl refl] "1.prems" cmp 3(1) by simp
      then show ?thesis using t cmp 3(1) by (subst bsearch.simps) (simp add: Let_def)
    next
      case 4
      have cmp: "region_find key (xs ! ?t) = 1" using 4 by (auto simp: region_find_def)
      have "region (xs ! i) \<noteq> key" if "i < length xs" "i < ?t \<or> ?t + (nel - nel div 2) \<le> i" for i
        using that "1.prems"(3) le [of i ?t] 4(2) t by (cases "i < ?t") auto
      then have "case bsearch (region_find key) xs ?t (nel - nel div 2) of
           Some i \<Rightarrow> i < length xs \<and> region (xs ! i) = key
         | None \<Rightarrow> \<forall>x \<in> set xs. region x \<noteq> key"
        using "1.hyps"(2) [OF t(2) refl refl] "1.prems" cmp 4(1) by simp
      then show ?thesis using t cmp 4(1) by (subst bsearch.simps) (simp add: Let_def)
    qed
  qed
qed

section \<open>Printing\<close>

text \<open>A schedule as a text: one line per region, the number of its nodes, and the nodes.\<close>

fun show_nat :: "nat \<Rightarrow> string" where
  "show_nat n = (if n < 10 then [char_of (48 + n)] else show_nat (n div 10) @ [char_of (48 + n mod 10)])"

declare show_nat.simps [simp del]

definition show_int :: "int \<Rightarrow> string" where
  "show_int i = (if i < 0 then CHR ''-'' # show_nat (nat (- i)) else show_nat (nat i))"

definition show_line :: "nat \<times> int list \<Rightarrow> string" where
  "show_line = (\<lambda>(r, ns). show_nat r @ CHR '' '' # show_nat (length ns) @
     concat (map (\<lambda>i. CHR '' '' # show_int i) ns) @ [CHR 0x0A])"

definition show_schedule :: "(nat \<times> int list) list \<Rightarrow> string" where
  "show_schedule ls = concat (map show_line ls)"

definition fits_line :: "nat \<times> int list \<Rightarrow> bool" where
  "fits_line = (\<lambda>(r, ns). r < 2 ^ 64 \<and> length ns < 2 ^ 64 \<and> (\<forall>i \<in> set ns. - (2 ^ 31) \<le> i \<and> i < 2 ^ 31))"

lemma digit_char:
  assumes "(k :: nat) < 10"
  shows "is_digit (char_of (48 + k))" "digit (char_of (48 + k)) = k" "\<not> is_space (char_of (48 + k))"
    "char_of (48 + k) \<noteq> CHR ''-''" "char_of (48 + k) \<noteq> CHR ''+''" "char_of (48 + k) \<noteq> CHR 0x0A"
proof -
  have of: "of_char (char_of (48 + k) :: char) = 48 + k" using assms by simp
  show "is_digit (char_of (48 + k))" "digit (char_of (48 + k)) = k" "\<not> is_space (char_of (48 + k))"
    using of assms by (simp_all add: is_digit_def digit_def is_space_def)
  show "char_of (48 + k) \<noteq> CHR ''-''" "char_of (48 + k) \<noteq> CHR ''+''" "char_of (48 + k) \<noteq> CHR 0x0A"
    using assms of by (auto dest!: arg_cong [where f = "of_char :: char \<Rightarrow> nat"])
qed

lemma show_nat_not_nil [simp]: "show_nat n \<noteq> []"
  by (subst show_nat.simps) simp

lemma show_nat_digits: "c \<in> set (show_nat n) \<Longrightarrow> \<exists>k < (10 :: nat). c = char_of (48 + k)"
proof (induction n rule: show_nat.induct)
  case (1 n)
  show ?case
  proof (cases "n < 10")
    case True
    then show ?thesis using 1(2) by (auto simp: show_nat.simps [of n])
  next
    case False
    then have "c \<in> set (show_nat (n div 10)) \<or> c = char_of (48 + n mod 10)"
      using 1(2) by (auto simp: show_nat.simps [of n])
    then show ?thesis using 1(1) [OF False] by (metis mod_less_divisor zero_less_numeral)
  qed
qed

lemma scan_digits_show:
  "scan_digits m (show_nat n @ cs) = scan_digits (m * 10 ^ length (show_nat n) + n) cs"
proof (induction n arbitrary: m cs rule: show_nat.induct)
  case (1 n)
  show ?case
  proof (cases "n < 10")
    case True
    then show ?thesis by (simp add: show_nat.simps [of n] digit_char mult.commute)
  next
    case False
    have "scan_digits m (show_nat n @ cs) = scan_digits m (show_nat (n div 10) @ char_of (48 + n mod 10) # cs)"
      using False by (simp add: show_nat.simps [of n])
    also have "\<dots> = scan_digits (10 * (m * 10 ^ length (show_nat (n div 10)) + n div 10) + n mod 10) cs"
      using 1 [OF False] by (simp add: digit_char)
    also have "10 * (m * 10 ^ length (show_nat (n div 10)) + n div 10) + n mod 10 = m * 10 ^ length (show_nat n) + n"
      using False by (simp add: show_nat.simps [of n] algebra_simps)
    finally show ?thesis .
  qed
qed

definition ends :: "string \<Rightarrow> bool" where
  "ends cs \<longleftrightarrow> cs = [] \<or> \<not> is_digit (hd cs)"

lemma scan_digits_ends [simp]: "ends cs \<Longrightarrow> scan_digits n cs = (n, cs)"
  by (cases cs) (auto simp: ends_def)

lemma hd_show_nat: "\<exists>k < (10 :: nat). hd (show_nat n @ cs) = char_of (48 + k)"
  using show_nat_digits [of "hd (show_nat n)" n] by auto

lemma scan_show_nat:
  assumes "n < 2 ^ 64" "ends cs"
  shows "scan (show_nat n @ cs) = Number (of_nat n) cs"
proof -
  obtain k :: nat where k: "k < 10" "hd (show_nat n @ cs) = char_of (48 + k)" using hd_show_nat by blast
  then have "dropWhile is_space (show_nat n @ cs) = show_nat n @ cs"
    by (cases "show_nat n @ cs") (auto simp: digit_char)
  then show ?thesis using assms k digit_char(1,4,5) [OF k(1)] scan_digits_show [of 0 n cs]
    by (simp add: scan_def intscan_def Let_def)
qed

lemma scan_show_int:
  assumes "- (2 ^ 31) \<le> i" "i < 2 ^ 31" "ends cs"
  shows "scan (show_int i @ cs) = Number (of_int i) cs"
proof (cases "i < 0")
  case False
  then have "nat i < 2 ^ 64" "of_nat (nat i) = (of_int i :: u64)" using assms by simp_all
  then show ?thesis using False assms(3) scan_show_nat [of "nat i" cs] by (simp add: show_int_def)
next
  case True
  obtain k :: nat where k: "k < 10" "hd (show_nat (nat (- i)) @ cs) = char_of (48 + k)" using hd_show_nat by blast
  have "nat (- i) < 2 ^ 64" using assms True by simp
  moreover have "- of_nat (nat (- i)) = (of_int i :: u64)" using True by simp
  moreover have "\<not> is_space (CHR ''-'')" by (simp add: is_space_def)
  ultimately show ?thesis
    using True assms(3) k digit_char(1) [OF k(1)] scan_digits_show [of 0 "nat (- i)" cs]
    by (simp add: show_int_def scan_def intscan_def Let_def)
qed

lemma to_int_of_int: "- (2 ^ 31) \<le> i \<Longrightarrow> i < 2 ^ 31 \<Longrightarrow> to_int (of_int i) = i"
proof -
  assume i: "- (2 ^ 31) \<le> i" "i < 2 ^ 31"
  have "ucast (of_int i :: u64) = (of_int i :: u32)"
    by (transfer, simp add: take_bit_take_bit min_def)
  then have "to_int (of_int i) = signed_take_bit 31 i"
    unfolding to_int_def by (simp only:) (transfer, simp)
  also have "\<dots> = i" using i by (simp add: signed_take_bit_int_eq_self)
  finally show "to_int (of_int i) = i" .
qed

lemma scan_space [simp]: "is_space c \<Longrightarrow> scan (c # cs) = scan cs"
  by (simp add: scan_def)

lemma is_space_simps [simp]: "is_space CHR '' ''" "is_space CHR 0x0A" "\<not> is_digit CHR '' ''" "\<not> is_digit CHR 0x0A"
  by (simp_all add: is_space_def is_digit_def)

lemma read_nodes_show:
  assumes "\<forall>i \<in> set ns. - (2 ^ 31) \<le> i \<and> i < 2 ^ 31" "ends cs"
  shows "read_nodes (length ns) (concat (map (\<lambda>i. CHR '' '' # show_int i) ns) @ cs) = Some (ns, cs)"
  using assms
proof (induction ns)
  case Nil
  then show ?case by (simp add: read_nodes.simps)
next
  case (Cons i ns)
  let ?rest = "concat (map (\<lambda>i. CHR '' '' # show_int i) ns) @ cs"
  have "ends ?rest" using Cons.prems(2) by (cases ns) (auto simp: ends_def)
  then have "scan (show_int i @ ?rest) = Number (of_int i) ?rest"
    using Cons.prems(1) by (intro scan_show_int) simp_all
  then show ?case using Cons to_int_of_int [of i] by (simp add: read_nodes.simps [of "Suc _"])
qed

text \<open>The entry of a line.\<close>

definition entry :: "nat \<times> int list \<Rightarrow> mapping" where
  "entry = (\<lambda>(r, ns). \<lparr>region = of_nat r, num = of_nat (length ns), node = Some ns\<rparr>)"

lemma ends_nodes: "ends (concat (map (\<lambda>i. CHR '' '' # show_int i) ns) @ CHR 0x0A # cs)"
  by (cases ns) (auto simp: ends_def)

lemma read_entries_show:
  assumes "\<forall>l \<in> set ls. fits_line l" "\<forall>n. alloc n" "\<forall>c \<in> set ws. is_space c"
  shows "read_entries alloc (Suc (length ls + k)) (show_schedule ls @ ws) = Inr (Some (map entry ls, True))"
proof -
  have nl: "read_entries alloc (Suc k) (CHR 0x0A # cs) = read_entries alloc (Suc k) cs" for k cs
    by simp
  have ws: "dropWhile is_space ws = []" using assms(3) by (simp add: dropWhile_eq_Nil_conv)
  show ?thesis
    using assms(1)
  proof (induction ls)
    case Nil
    then show ?case using ws by (simp add: show_schedule_def scan_def)
  next
    case (Cons l ls)
    obtain r ns where l: "l = (r, ns)" by (cases l)
    let ?nodes = "concat (map (\<lambda>i. CHR '' '' # show_int i) ns)"
    let ?rest = "CHR 0x0A # show_schedule ls @ ws"
    have fits: "r < 2 ^ 64" "length ns < 2 ^ 64" "\<forall>i \<in> set ns. - (2 ^ 31) \<le> i \<and> i < 2 ^ 31"
      using Cons.prems by (auto simp: fits_line_def l)
    have line: "show_schedule (l # ls) @ ws = show_nat r @ CHR '' '' # show_nat (length ns) @ ?nodes @ ?rest"
      by (simp add: show_schedule_def show_line_def l)
    have "scan (show_schedule (l # ls) @ ws) = Number (of_nat r) (CHR '' '' # show_nat (length ns) @ ?nodes @ ?rest)"
      unfolding line using fits(1) by (intro scan_show_nat) (simp_all add: ends_def)
    moreover have "scan (CHR '' '' # show_nat (length ns) @ ?nodes @ ?rest) = Number (of_nat (length ns)) (?nodes @ ?rest)"
      using scan_show_nat [OF fits(2) ends_nodes [of ns "show_schedule ls @ ws"]] by simp
    moreover have "unat (of_nat (length ns) :: u64) = length ns"
      using fits(2) by (simp add: unat_of_nat)
    moreover have "read_nodes (length ns) (?nodes @ ?rest) = Some (ns, ?rest)"
      using read_nodes_show [OF fits(3), of ?rest] by (simp add: ends_def)
    moreover have "read_entries alloc (Suc (length ls + k)) ?rest = Inr (Some (map entry ls, True))"
      using nl Cons.IH Cons.prems by simp
    ultimately have "read_entries alloc (Suc (Suc (length ls + k))) (show_schedule (l # ls) @ ws) =
        Inr (Some (entry l # map entry ls, True))"
      using assms(2) [rule_format, of "length ns"] unfolding read_entries.simps(2) [of alloc "Suc (length ls + k)"]
      by (simp add: entry_def l del: read_entries.simps)
    then show ?case by simp
  qed
qed

lemma show_nat_newline [simp]: "filter (\<lambda>c. c = CHR 0x0A) (show_nat n) = []"
  using show_nat_digits digit_char(6) by (fastforce simp: filter_empty_conv)

lemma count_newlines: "length (filter (\<lambda>c. c = CHR 0x0A) (show_schedule ls)) = length ls"
proof (induction ls)
  case (Cons l ls)
  have nodes: "filter (\<lambda>c. c = CHR 0x0A) (concat (map (\<lambda>i. CHR '' '' # show_int i) ns)) = []" for ns
    by (induction ns) (simp_all add: show_int_def)
  show ?case using Cons by (cases l) (simp add: show_schedule_def show_line_def nodes)
qed (simp add: show_schedule_def)

text \<open>Each line break after the last line leaves a blank entry behind.\<close>

lemma read_mapping_schedule_blanks:
  assumes "\<forall>l \<in> set ls. fits_line l" "\<forall>n. alloc n"
    and "files (case getenv ENV_POPCORN_THREAD_SCHEDULE of Some f \<Rightarrow> f | None \<Rightarrow> DEF_THREAD_SCHEDULE)
           = Some (show_schedule ls @ replicate k (CHR 0x0A))"
  shows "read_mapping_schedule qsort alloc getenv files s =
           Inr (s\<lparr>mappings := qsort (map entry ls @ replicate k blank)\<rparr>)"
  using assms(3) read_entries_show [OF assms(1,2), of "replicate k (CHR 0x0A)" k]
  by (simp add: read_mapping_schedule_def Let_def count_newlines del: read_entries.simps)

lemmas read_mapping_schedule_show =
  read_mapping_schedule_blanks [where k = 0, unfolded replicate_0 append_Nil2]

text \<open>What \<open>qsort\<close> promises: a permutation in order; it does not promise which of two equal regions is first.\<close>

definition sorts :: "(mapping list \<Rightarrow> mapping list) \<Rightarrow> bool" where
  "sorts qsort \<longleftrightarrow> (\<forall>ms. mset (qsort ms) = mset ms \<and> sorted (map region (qsort ms)))"

lemma sorts_sort_key: "sorts (sort_key region)"
  by (simp add: sorts_def)

lemma get_node_mapping_entries:
  assumes "sorts qsort" "\<forall>l \<in> set ls. fits_line l" "distinct (map fst ls)" "mappings s = qsort (map entry ls)"
  shows "get_node_mapping s r p =
           Inr (case map_of ls (unat r) of
                  Some ns \<Rightarrow> if 0 \<le> p \<and> p < int (length ns) then ns ! nat p else default_node s
                | None \<Rightarrow> default_node s)"
proof (cases "p < 0")
  case True
  then show ?thesis by (simp add: get_node_mapping_def split: option.splits)
next
  case False
  let ?ms = "mappings s"
  have set: "set ?ms = entry ` set ls"
    using assms(1,4) by (metis sorts_def set_map set_mset_mset)
  have region: "region (entry l) = r \<longleftrightarrow> fst l = unat r" if "l \<in> set ls" for l
  proof -
    have "fst l < 2 ^ 64" using assms(2) that by (auto simp: fits_line_def)
    then show ?thesis by (auto simp: entry_def unat_of_nat split: prod.splits)
  qed
  have spec: "case bsearch (region_find r) ?ms 0 (length ?ms) of
           Some i \<Rightarrow> i < length ?ms \<and> region (?ms ! i) = r
         | None \<Rightarrow> \<forall>x \<in> set ?ms. region x \<noteq> r"
    using assms(1,4) by (intro bsearch_spec) (auto simp: sorts_def)
  show ?thesis
  proof (cases "bsearch (region_find r) ?ms 0 (length ?ms)")
    case None
    then have "\<forall>l \<in> set ls. fst l \<noteq> unat r" using spec set region by auto
    then have "map_of ls (unat r) = None" by (metis map_of_eq_None_iff imageE)
    then show ?thesis using False None by (simp add: get_node_mapping_def)
  next
    case (Some i)
    then have i: "i < length ?ms" "region (?ms ! i) = r" using spec by simp_all
    then obtain r' ns where l: "(r', ns) \<in> set ls" "?ms ! i = entry (r', ns)"
      using set by (metis imageE nth_mem surj_pair)
    then have "r' = unat r" using region i(2) by fastforce
    then have "map_of ls (unat r) = Some ns" using l(1) assms(3) by (simp add: map_of_eq_Some_iff)
    moreover have "length ns < 2 ^ 64" using assms(2) l(1) by (auto simp: fits_line_def)
    then have "uint (of_nat (length ns) :: u64) = int (length ns)" by (simp add: uint_nat unat_of_nat)
    ultimately show ?thesis using False Some i(1) l(2) by (simp add: get_node_mapping_def entry_def)
  qed
qed
section \<open>Any file\<close>

definition schedule_ok :: "schedule \<Rightarrow> bool" where
  "schedule_ok s \<longleftrightarrow> sorted (map region (mappings s)) \<and>
     (\<forall>m \<in> set (mappings s). num m = 0 \<or> (\<exists>ns. node m = Some ns \<and> length ns = unat (num m)))"

lemma read_nodes_length: "read_nodes n cs = Some (ns, rest) \<Longrightarrow> length ns = n"
proof (induction n arbitrary: cs ns)
  case (Suc n)
  then show ?case by (auto simp: read_nodes.simps [of "Suc n"] split: scanned.splits)
qed (simp add: read_nodes.simps)

text \<open>The numbers of nodes that the lines of a file give, up to the first line that cannot be read.\<close>

fun counts :: "nat \<Rightarrow> string \<Rightarrow> nat list" where
  "counts 0 cs = []"
| "counts (Suc k) cs =
     (case scan cs of
        Number r cs \<Rightarrow>
          (case scan cs of
             Number n cs \<Rightarrow>
               unat n # (case read_nodes (unat n) cs of Some (ns, cs) \<Rightarrow> counts k cs | None \<Rightarrow> [])
           | _ \<Rightarrow> [])
      | _ \<Rightarrow> [])"

definition file_counts :: "string \<Rightarrow> nat list" where
  "file_counts cs = counts (1 + length (filter (\<lambda>c. c = CHR 0x0A) cs)) cs"

lemma read_entries_ok:
  "(\<exists>n \<in> set (counts k cs). n \<noteq> 0 \<and> \<not> alloc n) \<and> read_entries alloc k cs = Inl Undef \<or>
   (\<exists>x. read_entries alloc k cs = Inr x \<and>
     (\<forall>ms eof. x = Some (ms, eof) \<longrightarrow> (\<forall>m \<in> set ms. \<exists>ns. node m = Some ns \<and> length ns = unat (num m))))"
proof (induction k arbitrary: cs)
  case (Suc k)
  show ?case
  proof (cases "scan cs")
    case (Number r rest)
    note first = this
    show ?thesis
    proof (cases "scan rest")
      case (Number n rest')
      note second = this
      show ?thesis
      proof (cases "\<not> alloc (unat n) \<and> n \<noteq> 0")
        case True
        then have "unat n \<noteq> 0" by (simp add: unat_eq_0)
        then show ?thesis using first second True by (cases "scan rest'") auto
      next
        case had: False
        show ?thesis
        proof (cases "read_nodes (unat n) rest'")
          case None
          then show ?thesis using first second had by auto
        next
          case (Some y)
          obtain ns cs' where y: "y = (ns, cs')" by (cases y)
          note len = read_nodes_length [of "unat n" rest' ns cs']
          from Suc.IH [of cs'] show ?thesis
          proof (elim disjE conjE exE)
            assume "\<exists>n \<in> set (counts k cs'). n \<noteq> 0 \<and> \<not> alloc n" "read_entries alloc k cs' = Inl Undef"
            then show ?thesis using first second had Some by (auto simp: y)
          next
            fix x
            assume "read_entries alloc k cs' = Inr x"
              "\<forall>ms eof. x = Some (ms, eof) \<longrightarrow> (\<forall>m \<in> set ms. \<exists>ns. node m = Some ns \<and> length ns = unat (num m))"
            then show ?thesis using first second had Some len by (cases x) (auto simp: y)
          qed
        qed
      qed
    qed (use first in simp_all)
  qed simp_all
qed simp

definition schedule_file :: "(string \<Rightarrow> string option) \<Rightarrow> (string \<Rightarrow> string option) \<Rightarrow> string option" where
  "schedule_file getenv files =
     files (case getenv ENV_POPCORN_THREAD_SCHEDULE of Some f \<Rightarrow> f | None \<Rightarrow> DEF_THREAD_SCHEDULE)"

lemma read_mapping_schedule_ok:
  assumes "sorts qsort" "schedule_ok s"
  shows "(\<exists>cs. schedule_file getenv files = Some cs \<and> (\<exists>n \<in> set (file_counts cs). n \<noteq> 0 \<and> \<not> alloc n)) \<and>
           read_mapping_schedule qsort alloc getenv files s = Inl Undef \<or>
         (\<exists>s'. read_mapping_schedule qsort alloc getenv files s = Inr s' \<and> schedule_ok s' \<and>
           default_node s' = default_node s)"
proof (cases "schedule_file getenv files")
  case None
  then show ?thesis using assms(2) by (simp add: read_mapping_schedule_def schedule_file_def)
next
  case (Some cs)
  note opened = this [unfolded schedule_file_def]
  let ?k = "1 + length (filter (\<lambda>c. c = CHR 0x0A) cs)"
  from read_entries_ok [of ?k cs alloc] show ?thesis
  proof (elim disjE conjE exE)
    assume "\<exists>n \<in> set (counts ?k cs). n \<noteq> 0 \<and> \<not> alloc n" "read_entries alloc ?k cs = Inl Undef"
    then show ?thesis using opened Some
      by (simp add: read_mapping_schedule_def file_counts_def del: read_entries.simps counts.simps)
  next
    fix x
    assume x: "read_entries alloc ?k cs = Inr x"
      "\<forall>ms eof. x = Some (ms, eof) \<longrightarrow> (\<forall>m \<in> set ms. \<exists>ns. node m = Some ns \<and> length ns = unat (num m))"
    show ?thesis
    proof (cases x)
      case None
      then show ?thesis using opened x(1)
        by (simp add: read_mapping_schedule_def cleanup_def schedule_ok_def del: read_entries.simps)
    next
      case (Some y)
      obtain ms eof where y: "y = (ms, eof)" by (cases y)
      define all where "all = ms @ replicate ((if eof then ?k - 1 else ?k) - length ms) blank"
      have "\<forall>m \<in> set all. num m = 0 \<or> (\<exists>ns. node m = Some ns \<and> length ns = unat (num m))"
        using x(2) Some y by (auto simp: all_def blank_def)
      moreover have "set (qsort all) = set all"
        using assms(1) by (metis sorts_def set_mset_mset)
      ultimately have "schedule_ok (s\<lparr>mappings := qsort all\<rparr>)"
        using assms(1) by (simp add: schedule_ok_def sorts_def)
      moreover have "read_mapping_schedule qsort alloc getenv files s = Inr (s\<lparr>mappings := qsort all\<rparr>)"
        using opened x(1) Some y
        by (simp add: read_mapping_schedule_def all_def Let_def del: read_entries.simps)
      ultimately show ?thesis by simp
    qed
  qed
qed

lemma get_node_mapping_ok:
  assumes "schedule_ok s"
  shows "\<exists>n. get_node_mapping s r p = Inr n \<and>
           (n = default_node s \<or> (\<exists>m \<in> set (mappings s). \<exists>ns. region m = r \<and> node m = Some ns \<and> n \<in> set ns))"
proof -
  have spec: "case bsearch (region_find r) (mappings s) 0 (length (mappings s)) of
           Some i \<Rightarrow> i < length (mappings s) \<and> region (mappings s ! i) = r
         | None \<Rightarrow> \<forall>x \<in> set (mappings s). region x \<noteq> r"
    using assms by (intro bsearch_spec) (auto simp: schedule_ok_def)
  show ?thesis
  proof (cases "p < 0 \<or> bsearch (region_find r) (mappings s) 0 (length (mappings s)) = None")
    case True
    then show ?thesis by (auto simp: get_node_mapping_def)
  next
    case False
    then obtain i where i: "bsearch (region_find r) (mappings s) 0 (length (mappings s)) = Some i" by auto
    let ?m = "mappings s ! i"
    have m: "?m \<in> set (mappings s)" "region ?m = r" "i < length (mappings s)" using spec i by simp_all
    show ?thesis
    proof (cases "p < uint (num ?m)")
      case True
      then have "num ?m \<noteq> 0" using False by auto
      then obtain ns where ns: "node ?m = Some ns" "length ns = unat (num ?m)"
        using assms m(1) by (auto simp: schedule_ok_def)
      have "uint (num ?m) = int (unat (num ?m))" by (rule uint_nat)
      then have "nat p < length ns" using True False ns(2) by linarith
      then show ?thesis using False i True ns m by (auto simp: get_node_mapping_def)
    next
      case no: False
      then show ?thesis using False i m(3) by (simp add: get_node_mapping_def)
    qed
  qed
qed

section \<open>Properties\<close>

text \<open>
  C19: A schedule written as a file is looked up as it was written: after reading the file, a thread of a region runs on
  the node listed for it, and on the default node when the region is not listed or has too few nodes.
\<close>

theorem schedule_round_trip:
  assumes "sorts qsort" "\<forall>n. alloc n" "\<forall>l \<in> set ls. fits_line l" "distinct (map fst ls)"
    and "files (case getenv ENV_POPCORN_THREAD_SCHEDULE of Some f \<Rightarrow> f | None \<Rightarrow> DEF_THREAD_SCHEDULE)
           = Some (show_schedule ls)"
  shows "bindE (read_mapping_schedule qsort alloc getenv files s) (\<lambda>s. get_node_mapping s r p) =
           Inr (case map_of ls (unat r) of
                  Some ns \<Rightarrow> if 0 \<le> p \<and> p < int (length ns) then ns ! nat p else default_node s
                | None \<Rightarrow> default_node s)"
  using read_mapping_schedule_show [OF assms(3,2), of files getenv qsort s, OF assms(5)]
    get_node_mapping_entries [OF assms(1,3,4), of "s\<lparr>mappings := qsort (map entry ls)\<rparr>"]
  by (simp cong: option.case_cong if_cong)

theorem schedule_round_trip_witness:
  "bindE (read_mapping_schedule (sort_key region) (\<lambda>_. True) (\<lambda>_. Some ''f'')
      (\<lambda>_. Some (show_schedule [(7, [1, 0, -1]), (2, [4])])) \<lparr>default_node = 9, mappings = []\<rparr>)
     (\<lambda>s. get_node_mapping s 7 2) = Inr (- 1)"
  using schedule_round_trip [OF sorts_sort_key, of "\<lambda>_. True" "[(7, [1, 0, -1]), (2, [4])]"
      "\<lambda>_. Some (show_schedule [(7, [1, 0, -1]), (2, [4])])" "\<lambda>_. Some ''f''"
      "\<lparr>default_node = 9, mappings = []\<rparr>" 7 2]
  by (simp add: fits_line_def)



text \<open>
  A line that asks for more nodes than memory can be had for, as $2^{64} - 1$ nodes always are, makes reading the
  file write through a null pointer, as soon as the line lists one node.
\<close>

theorem refused_line_faults:
  assumes "\<not> alloc n" "0 < n" "n < 2 ^ 64" "r < 2 ^ 64" "- (2 ^ 31) \<le> i" "i < 2 ^ 31"
    and "schedule_file getenv files = Some (show_nat r @ CHR '' '' # show_nat n @ CHR '' '' # show_int i @ CHR 0x0A # cs)"
  shows "read_mapping_schedule qsort alloc getenv files s = Inl Undef"
proof -
  have ends: "ends (CHR '' '' # xs)" "ends (CHR 0x0A # xs)" for xs by (simp_all add: ends_def)
  have "scan (show_nat r @ CHR '' '' # xs) = Number (of_nat r) (CHR '' '' # xs)" for xs
    by (rule scan_show_nat [OF assms(4) ends(1)])
  moreover have "scan (show_nat n @ CHR '' '' # xs) = Number (of_nat n) (CHR '' '' # xs)" for xs
    by (rule scan_show_nat [OF assms(3) ends(1)])
  moreover have "scan (show_int i @ CHR 0x0A # cs) = Number (of_int i) (CHR 0x0A # cs)"
    by (rule scan_show_int [OF assms(5,6) ends(2)])
  moreover have "unat (of_nat n :: u64) = n" "(of_nat n :: u64) \<noteq> 0"
    using assms(2,3) by (simp_all add: unat_of_nat word_of_nat_eq_0_iff nat_dvd_not_less)
  ultimately show ?thesis
    using assms(1) assms(7) [unfolded schedule_file_def] by (simp add: read_mapping_schedule_def)
qed

theorem refused_line_faults_witness:
  "read_mapping_schedule (sort_key region) (\<lambda>n. n < 2 ^ 62) (\<lambda>_. None)
     (\<lambda>_. Some (show_nat 7 @ CHR '' '' # show_nat (2 ^ 64 - 1) @ CHR '' '' # show_int 0 @ CHR 0x0A # []))
     \<lparr>default_node = 9, mappings = []\<rparr> = Inl Undef"
  by (rule refused_line_faults [where n = "2 ^ 64 - 1" and r = 7 and i = 0 and cs = "[]"]) (simp_all add: schedule_file_def)

text \<open>
  Blank lines at the end of the file can hide the mapping of region 0: each but the first leaves a blank entry for that
  region behind, and the search may find it first. The same file without the blank lines is read as written.
\<close>

theorem blank_lines_hide_region_0:
  "bindE (read_mapping_schedule (sort_key region) (\<lambda>_. True) (\<lambda>_. None)
            (\<lambda>_. Some (show_schedule [(0, [5])] @ replicate 2 (CHR 0x0A))) \<lparr>default_node = 9, mappings = []\<rparr>)
     (\<lambda>s. get_node_mapping s 0 0) = Inr 9 \<and>
   bindE (read_mapping_schedule (sort_key region) (\<lambda>_. True) (\<lambda>_. None)
            (\<lambda>_. Some (show_schedule [(0, [5])])) \<lparr>default_node = 9, mappings = []\<rparr>)
     (\<lambda>s. get_node_mapping s 0 0) = Inr 5"
proof -
  let ?files = "\<lambda>k _. Some (show_schedule [(0, [5])] @ replicate k (CHR 0x0A))"
  let ?s = "\<lparr>default_node = 9, mappings = []\<rparr>"
  have read: "read_mapping_schedule (sort_key region) (\<lambda>_. True) (\<lambda>_. None) (?files k) ?s =
      Inr (?s\<lparr>mappings := sort_key region (map entry [(0, [5])] @ replicate k blank)\<rparr>)" for k
    by (rule read_mapping_schedule_blanks) (simp_all add: fits_line_def)
  let ?e = "\<lparr>region = 0, num = 1, node = Some [5]\<rparr>"
  have e: "entry (0, [5]) = ?e" by (simp add: entry_def)
  have "bsearch (region_find 0) [?e, blank, blank] 0 3 = Some 1"
    "bsearch (region_find 0) [?e] 0 1 = Some 0"
    by (subst bsearch.simps, simp add: region_find_def blank_def)+
  moreover have "sort_key region [?e, blank, blank] = [?e, blank, blank]" "sort_key region [?e] = [?e]"
    by (simp_all add: blank_def)
  ultimately show ?thesis
    using read [of 2] read [of 0] by (simp add: e get_node_mapping_def blank_def numeral_2_eq_2 numeral_3_eq_3)
qed

end
