(* ===== verification/Elf_File.thy ===== *)
theory Elf_File
  imports St_Init Platform
begin

text \<open>
  The binary that the stack metadata tool edits (\<open>tool/stack_metadata/src/util.c\<close>, \<open>src/bin.c\<close>), as
  libelf presents it: the section headers and their data, the table of section names, and the operations that find, add and
  update sections. Where libelf can fail, a field of the file says whether it does.
\<close>

section \<open>Return codes and sections\<close>

datatype ret_t = SUCCESS | INVALID_ARGUMENT | INVALID_ARCHITECTURE | INVALID_ELF_VERSION |
  OPEN_FILE_FAILED | INVALID_ELF | OPEN_ELF_FAILED | LAYOUT_CONTROL_FAILED | READ_ELF_FAILED |
  FIND_SECTION_FAILED | WRITE_ELF_FAILED | ADD_SECTION_FAILED | UPDATE_SECTION_FAILED |
  CREATE_METADATA_FAILED | INVALID_METADATA

definition TOOL_BUF_SIZE :: nat where "TOOL_BUF_SIZE = 512"

abbreviation (input) SHT_PROGBITS :: u32 where "SHT_PROGBITS \<equiv> 1"
abbreviation (input) SHT_STRTAB :: u32 where "SHT_STRTAB \<equiv> 3"

text \<open>
  A section: its header, and the buffers of its data descriptors (\<open>None\<close> is a \<open>NULL\<close> buffer).
  \<open>readable\<close> says whether libelf gives out the header.
\<close>

record elf_scn =
  readable :: bool
  sh_name :: nat
  sh_type :: u32
  sh_offset :: u64
  sh_size :: u64
  sh_entsize :: u64
  d_bufs :: "u8 list option list"

text \<open>
  The file. Section 0 is the null section. \<open>can_add\<close> and \<open>can_write\<close> say whether libelf can create a section
  and write the file.
\<close>

record elf_file =
  e_machine :: u16
  shstrndx :: "nat option"
  scns :: "elf_scn list"
  e_shoff :: u64
  can_add :: bool
  can_write :: bool

definition elf_getscn :: "elf_file \<Rightarrow> nat \<Rightarrow> elf_scn option" where
  "elf_getscn e i = (if i < length (scns e) then Some (scns e ! i) else None)"

definition elf_getdata :: "elf_scn \<Rightarrow> u8 list option option" where
  "elf_getdata scn = (case d_bufs scn of [] \<Rightarrow> None | b # _ \<Rightarrow> Some b)"

definition put_scn :: "elf_file \<Rightarrow> nat \<Rightarrow> elf_scn \<Rightarrow> elf_file" where
  "put_scn e i scn = e\<lparr>scns := (scns e)[i := scn]\<rparr>"

text \<open>The C string at the start of a block, and the bytes of a string.\<close>

definition cstr :: "u8 list \<Rightarrow> string" where
  "cstr bs = map (\<lambda>b. char_of (unat b)) (takeWhile (\<lambda>b. b \<noteq> 0) bs)"

definition chars :: "string \<Rightarrow> u8 list" where
  "chars s = map (\<lambda>c. of_nat (of_char c)) s"

text \<open>
  \<open>elf_strptr\<close> of libelf for 64-bit files: strings are looked up in the first buffer of a string table (the name tables of
  binaries have no other), and only handed out terminated.
\<close>

definition elf_strptr :: "elf_file \<Rightarrow> nat \<Rightarrow> nat \<Rightarrow> string option" where
  "elf_strptr e ndx off =
     (if ndx = 0 then None
      else case elf_getscn e ndx of None \<Rightarrow> None
      | Some scn \<Rightarrow>
          if sh_type scn \<noteq> SHT_STRTAB then None
          else case elf_getdata scn of
                 Some (Some b) \<Rightarrow>
                   if off < length b \<and> 0 \<in> set (drop off b) then Some (cstr (drop off b)) else None
               | _ \<Rightarrow> None)"

section \<open>Finding sections\<close>

text \<open>The walk over the sections from number \<open>i\<close> on; a header that cannot be read ends it.\<close>

fun find_by_name :: "elf_file \<Rightarrow> nat \<Rightarrow> string \<Rightarrow> nat \<Rightarrow> elf_scn list \<Rightarrow> nat option" where
  "find_by_name e ndx name i [] = None"
| "find_by_name e ndx name i (scn # rest) =
     (if \<not> readable scn then None
      else case elf_strptr e ndx (sh_name scn) of
             Some sec \<Rightarrow> if name = sec then Some i else find_by_name e ndx name (Suc i) rest
           | None \<Rightarrow> find_by_name e ndx name (Suc i) rest)"

definition get_section_by_name :: "elf_file \<Rightarrow> string \<Rightarrow> nat option" where
  "get_section_by_name e name =
     (case shstrndx e of None \<Rightarrow> None | Some ndx \<Rightarrow> find_by_name e ndx name 1 (tl (scns e)))"

definition get_num_data_blocks :: "elf_scn \<Rightarrow> nat" where
  "get_num_data_blocks scn = length (d_bufs scn)"

definition section_data :: "elf_scn \<Rightarrow> u8 list option" where
  "section_data scn =
     (if get_num_data_blocks scn > 1 then None
      else case elf_getdata scn of None \<Rightarrow> None | Some d_buf \<Rightarrow> d_buf)"

section \<open>Adding and updating sections\<close>

text \<open>
  \<open>add_section_name\<close>: a new name goes to the end of the name table. The result is its offset, 0 when
  something could not be read.
\<close>

definition add_section_name :: "elf_file \<Rightarrow> string \<Rightarrow> (nat \<times> elf_file) result" where
  "add_section_name e name =
     (case shstrndx e of None \<Rightarrow> Inr (0, e) | Some ndx \<Rightarrow>
     (case elf_getscn e ndx of None \<Rightarrow> Inr (0, e) | Some scn \<Rightarrow>
      if \<not> readable scn then Inr (0, e)
      else (case d_bufs scn of [] \<Rightarrow> Inr (0, e)
      | buf # others \<Rightarrow>
          bindE (deref buf) (\<lambda>old.
            let name_size = min (length name) TOOL_BUF_SIZE;
                shstrtab = old @ take name_size (chars name) @ [0];
                scn = scn\<lparr>d_bufs := Some shstrtab # others, sh_size := of_nat (length shstrtab)\<rparr>
            in Inr (length shstrtab - name_size - 1, put_scn e ndx scn)))))"

text \<open>The data is a buffer of \<open>num_entries\<close> times \<open>entry_size\<close> bytes.\<close>

definition add_section ::
    "elf_file \<Rightarrow> string \<Rightarrow> nat \<Rightarrow> u8 list option \<Rightarrow> (ret_t \<times> elf_file) result" where
  "add_section e name entry_size buf =
     (case buf of None \<Rightarrow> Inr (INVALID_ARGUMENT, e) | Some bytes \<Rightarrow>
      bindE (add_section_name e name) (\<lambda>(name_off, e).
        if name_off = 0 then Inr (WRITE_ELF_FAILED, e)
        else if \<not> can_add e then Inr (ADD_SECTION_FAILED, e)
        else Inr (SUCCESS, e\<lparr>scns := scns e @
          [\<lparr>readable = True, sh_name = name_off, sh_type = SHT_PROGBITS, sh_offset = 0,
            sh_size = of_nat (length bytes), sh_entsize = of_nat entry_size, d_bufs = [Some bytes]\<rparr>]\<rparr>)))"

text \<open>\<open>update_section\<close> replaces the data; the entry size stays.\<close>

definition update_section :: "elf_file \<Rightarrow> nat \<Rightarrow> u8 list option \<Rightarrow> ret_t \<times> elf_file" where
  "update_section e i buf =
     (case buf of None \<Rightarrow> (INVALID_ARGUMENT, e) | Some bytes \<Rightarrow>
     (case elf_getscn e i of None \<Rightarrow> (INVALID_ARGUMENT, e) | Some scn \<Rightarrow>
     (case d_bufs scn of [] \<Rightarrow> (UPDATE_SECTION_FAILED, e) | _ # others \<Rightarrow>
      if \<not> readable scn then (UPDATE_SECTION_FAILED, e)
      else (SUCCESS, put_scn e i (scn\<lparr>d_bufs := Some bytes # others, sh_size := of_nat (length bytes)\<rparr>)))))"

section \<open>Opening a binary\<close>

text \<open>What libelf and the system answer about the file to be opened.\<close>

record bin_lib =
  b_open :: int
  b_begin :: "nat option"
  b_is_elf :: bool
  b_class64 :: bool
  b_data :: "u8 option"
  b_ehdr :: "u16 option"
  b_flagelf :: bool

definition check_elf_ehdr :: "bin_lib \<Rightarrow> bool" where
  "check_elf_ehdr b =
     (if \<not> b_is_elf b then False
      else if \<not> b_class64 b then False
      else case b_data b of None \<Rightarrow> False | Some d \<Rightarrow>
        if d \<noteq> 1 then False
        else case b_ehdr b of None \<Rightarrow> False | Some machine \<Rightarrow>
          if machine \<noteq> EM_AARCH64 \<and> machine \<noteq> EM_PPC64 \<and> machine \<noteq> EM_X86_64 then False else True)"

record bin =
  bin_name :: string
  bin_arch :: u16
  bin_fd :: int
  bin_e :: nat

definition init_elf_bin :: "bin_lib \<Rightarrow> string option \<Rightarrow> resources \<Rightarrow> ret_t \<times> bin option \<times> resources" where
  "init_elf_bin lib bin_fn r =
     (case bin_fn of None \<Rightarrow> (INVALID_ARGUMENT, None, r)
      | Some fn \<Rightarrow>
        let r = r\<lparr>handle_blocks := handle_blocks r + 1\<rparr>; n = b_open lib in
        if n = - 1 then (OPEN_FILE_FAILED, None, free_handle r)
        else
          let r = r\<lparr>open_fds := n # open_fds r\<rparr> in
          case b_begin lib of None \<Rightarrow> (OPEN_ELF_FAILED, None, close_file n r)
          | Some e \<Rightarrow>
              let r = r\<lparr>open_elfs := e # open_elfs r\<rparr> in
              if \<not> check_elf_ehdr lib then (INVALID_ELF, None, close_elf e n r)
              else case b_ehdr lib of None \<Rightarrow> (INVALID_ELF, None, close_elf e n r)
              | Some machine \<Rightarrow>
                  if \<not> b_flagelf lib then (LAYOUT_CONTROL_FAILED, None, close_elf e n r)
                  else (SUCCESS, Some \<lparr>bin_name = fn, bin_arch = machine, bin_fd = n, bin_e = e\<rparr>, r))"

definition free_elf_bin :: "bin option \<Rightarrow> resources \<Rightarrow> ret_t \<times> resources" where
  "free_elf_bin b r =
     (case b of None \<Rightarrow> (INVALID_ARGUMENT, r)
      | Some b \<Rightarrow> (SUCCESS, close_elf (bin_e b) (bin_fd b) r))"

text \<open>Opening a binary for editing leaks nothing, and closing it releases what opening acquired.\<close>

lemma init_elf_bin_resources:
  "case init_elf_bin lib fn r of
     (ret, None, r') \<Rightarrow> ret \<noteq> SUCCESS \<and> r' = r
   | (ret, Some b, r') \<Rightarrow> ret = SUCCESS \<and> free_elf_bin (Some b) r' = (SUCCESS, r) \<and>
       bin_arch b \<in> {EM_AARCH64, EM_PPC64, EM_X86_64}"
  by (auto simp: init_elf_bin_def free_elf_bin_def close_elf_def close_file_def free_handle_def Let_def
      check_elf_ehdr_def split: option.splits if_splits)

end
