(* ===== verification/Stackmap.thy ===== *)
theory Stackmap
  imports Elf_File
begin

text \<open>
  The stack maps that the compiler leaves in a binary (\<open>tool/stack_metadata/include/stackmap.h\<close>,
  \<open>src/stackmap.c\<close>): one stack map per module, each with arrays of function records and constants and
  with call site records of variable size. The section is scanned twice, first to count the stack maps and then to fill
  them in. The arrays stay where they are in the section: a pointer to one is its offset there.
\<close>

section \<open>Records\<close>

record function_record =
  func_addr :: u64
  stack_size :: u64
  record_count :: u64
  fr_num_unwind :: u32
  fr_unwind_offset :: u32

record live_out_record =
  lo_regnum :: u16
  lo_reserved :: u8
  lo_size :: u8

record call_site_record =
  sr_id :: u64
  func_idx :: u32
  sr_offset :: u32
  sr_reserved :: u16
  num_locations :: u16
  locations :: nat
  num_live_outs :: u16
  live_outs :: nat
  sr_num_arch_live :: u16
  sr_arch_live :: nat

record stack_map_section =
  sm_version :: u8
  sm_reserved :: u8
  sm_reserved2 :: u16
  num_functions :: u32
  num_constants :: u32
  num_records :: u32
  function_records :: nat
  constants :: nat
  call_sites :: "call_site_record list"

definition decode_function_record :: "u8 list \<Rightarrow> function_record" where
  "decode_function_record bs =
     (let f = field [8, 8, 8, 4, 4] bs in
      \<lparr>func_addr = word_of (f 0), stack_size = word_of (f 1), record_count = word_of (f 2),
       fr_num_unwind = word_of (f 3), fr_unwind_offset = word_of (f 4)\<rparr>)"

section \<open>Reading from the section\<close>

text \<open>The \<open>n\<close> bytes at an offset; reading past the data of the section is undefined.\<close>

definition slice :: "u8 list \<Rightarrow> nat \<Rightarrow> nat \<Rightarrow> u8 list result" where
  "slice bs off n = (if off + n \<le> length bs then Inr (take n (drop off bs)) else Inl Undef)"

definition get16 :: "u8 list \<Rightarrow> nat \<Rightarrow> u16 result" where
  "get16 bs off = bindE (slice bs off 2) (\<lambda>b. Inr (word_of b))"

definition function_record_at :: "u8 list \<Rightarrow> stack_map_section \<Rightarrow> nat \<Rightarrow> function_record result" where
  "function_record_at bs sm i =
     bindE (slice bs (function_records sm + 32 * i) 32) (\<lambda>b. Inr (decode_function_record b))"

definition location_at :: "u8 list \<Rightarrow> call_site_record \<Rightarrow> nat \<Rightarrow> live_value result" where
  "location_at bs sr k = bindE (slice bs (locations sr + 12 * k) 12) (\<lambda>b. Inr (decode_live_value b))"

text \<open>
  Padding to a multiple of eight of the address: \<open>base\<close> is the address of the section's data. Addresses and
  sizes are those of data in memory, so they do not wrap.
\<close>

definition align8 :: "nat \<Rightarrow> nat \<Rightarrow> nat" where
  "align8 base raw = (if (base + raw) mod 8 \<noteq> 0 then raw + (8 - (base + raw) mod 8) else raw)"

section \<open>The two scans\<close>

definition skip_record :: "nat \<Rightarrow> u8 list \<Rightarrow> nat \<Rightarrow> nat result" where
  "skip_record base bs raw =
     (let raw = raw + 18 in
      bindE (get16 bs raw) (\<lambda>num. let raw = raw + (4 + 12 * unat num) in
      bindE (get16 bs raw) (\<lambda>num. let raw = raw + (4 + 4 * unat num) in
      bindE (get16 bs raw) (\<lambda>num. let raw = raw + (2 + 20 * unat num) in
        Inr (align8 base raw)))))"

definition stackmap_records_size :: "nat \<Rightarrow> u8 list \<Rightarrow> nat \<Rightarrow> u32 \<Rightarrow> nat result" where
  "stackmap_records_size base bs raw num =
     bindE (for_loop 0 (unat num) (\<lambda>i. skip_record base bs) raw) (\<lambda>end. Inr (end - raw))"

definition read_record :: "nat \<Rightarrow> u8 list \<Rightarrow> nat \<Rightarrow> (call_site_record \<times> nat) result" where
  "read_record base bs raw =
     bindE (slice bs raw 18) (\<lambda>hd. let raw = raw + 18; f = field [8, 4, 4, 2] hd in
     bindE (get16 bs raw) (\<lambda>nloc.
       let raw = raw + 2; loc = raw; raw = raw + 12 * unat nloc; raw = raw + 2 in
     bindE (get16 bs raw) (\<lambda>nout.
       let raw = raw + 2; out = raw; raw = raw + 4 * unat nout; raw = raw + 2 in
     bindE (get16 bs raw) (\<lambda>narch.
       let raw = raw + 2; arch = raw; raw = raw + 20 * unat narch in
       Inr (\<lparr>sr_id = word_of (f 0), func_idx = word_of (f 1), sr_offset = word_of (f 2),
             sr_reserved = word_of (f 3), num_locations = nloc, locations = loc, num_live_outs = nout,
             live_outs = out, sr_num_arch_live = narch, sr_arch_live = arch\<rparr>, align8 base raw)))))"

text \<open>The records of one stack map, and the size of what was read.\<close>

definition read_stackmap_records ::
    "nat \<Rightarrow> u8 list \<Rightarrow> nat \<Rightarrow> stack_map_section \<Rightarrow> (nat \<times> stack_map_section) result" where
  "read_stackmap_records base bs raw sm =
     bindE (for_loop 0 (unat (num_records sm))
              (\<lambda>i (end, recs). bindE (read_record base bs end) (\<lambda>(r, end). Inr (end, recs @ [r])))
              (raw, []))
       (\<lambda>(end, recs). Inr (end - raw, sm\<lparr>call_sites := recs\<rparr>))"

text \<open>The part of a stack map that is copied as it is in the section.\<close>

definition read_header :: "u8 list \<Rightarrow> nat \<Rightarrow> stack_map_section result" where
  "read_header bs off =
     bindE (slice bs off 16) (\<lambda>hd. let f = field [1, 1, 2, 4, 4, 4] hd in
       Inr \<lparr>sm_version = word_of (f 0), sm_reserved = word_of (f 1), sm_reserved2 = word_of (f 2),
            num_functions = word_of (f 3), num_constants = word_of (f 4), num_records = word_of (f 5),
            function_records = 0, constants = 0, call_sites = []\<rparr>)"

text \<open>The first scan: each stack map takes at least the sixteen bytes of its header.\<close>

function count_stackmaps :: "nat \<Rightarrow> u8 list \<Rightarrow> nat \<Rightarrow> nat \<Rightarrow> nat \<Rightarrow> nat result" where
  "count_stackmaps base bs sz offset num =
     (if offset < sz then
        bindE (read_header bs offset) (\<lambda>tmp.
          let offset' = offset + 16 + 32 * unat (num_functions tmp) + 8 * unat (num_constants tmp) in
          bindE (stackmap_records_size base bs offset' (num_records tmp)) (\<lambda>n.
            count_stackmaps base bs sz (offset' + n) (num + 1)))
      else Inr num)"
  by pat_completeness auto
termination by (relation "measure (\<lambda>(base, bs, sz, offset, num). sz - offset)") auto

declare count_stackmaps.simps [simp del]

text \<open>The second scan.\<close>

definition read_stackmap :: "nat \<Rightarrow> u8 list \<Rightarrow> nat \<Rightarrow> (nat \<times> stack_map_section) result" where
  "read_stackmap base bs offset =
     bindE (read_header bs offset) (\<lambda>sm.
       let offset = offset + 16; sm = sm\<lparr>function_records := offset\<rparr>;
           offset = offset + 32 * unat (num_functions sm); sm = sm\<lparr>constants := offset\<rparr>;
           offset = offset + 8 * unat (num_constants sm) in
       bindE (read_stackmap_records base bs offset sm) (\<lambda>(n, sm). Inr (offset + n, sm)))"

definition read_stackmaps :: "nat \<Rightarrow> u8 list \<Rightarrow> nat \<Rightarrow> stack_map_section list result" where
  "read_stackmaps base bs sz =
     bindE (count_stackmaps base bs sz 0 0) (\<lambda>num_sm.
     bindE (for_loop 0 num_sm
              (\<lambda>i (offset, sms). bindE (read_stackmap base bs offset)
                 (\<lambda>(offset, sm). Inr (offset, sms @ [sm])))
              (0, []))
       (\<lambda>(offset, sms). Inr sms))"

text \<open>
  Reading the stack maps of a binary; they stay valid as long as the section's data, which comes with
  them.
\<close>

definition init_stackmap ::
    "nat \<Rightarrow> elf_file \<Rightarrow> (ret_t + u8 list \<times> stack_map_section list) result" where
  "init_stackmap base e =
     (case get_section_by_name e ''.llvm_pcn_stackmaps'' of None \<Rightarrow> Inr (Inl FIND_SECTION_FAILED)
      | Some i \<Rightarrow>
     (case elf_getscn e i of None \<Rightarrow> Inr (Inl READ_ELF_FAILED)
      | Some scn \<Rightarrow>
          if \<not> readable scn then Inr (Inl READ_ELF_FAILED)
          else if get_num_data_blocks scn \<noteq> 1 then Inr (Inl READ_ELF_FAILED)
          else case elf_getdata scn of None \<Rightarrow> Inr (Inl READ_ELF_FAILED)
          | Some d_buf \<Rightarrow>
              if sh_size scn = 0 then Inr (Inr ([], []))
              else bindE (deref d_buf) (\<lambda>bs.
                bindE (read_stackmaps base bs (unat (sh_size scn))) (\<lambda>sms. Inr (Inr (bs, sms))))))"

end
