(* ===== verification/Stack_Metadata.thy ===== *)
theory Stack_Metadata
  imports Stackmap Search "HOL-Library.Multiset"
begin

text \<open>
  The tool that turns the compiler's stack maps into the tables of the run-time library
  (\<open>tool/stack_metadata/src/write.c\<close>, \<open>src/main.c\<close>, \<open>include/arch.h\<close>): it numbers the call sites, gives each its
  slices of the tables of live values and unwinding records, sorts the tables, and adds them to the binary.
\<close>

section \<open>Sorting\<close>

text \<open>
  \<open>qsort\<close> with a comparison of keys. The order in which the C library leaves entries with the same key is its own
  choice; here it is the order they had, and nothing that follows depends on this: the locale states what the C standard promises.
\<close>

definition qsort :: "('a \<Rightarrow> u64) \<Rightarrow> 'a list \<Rightarrow> 'a list" where
  "qsort key xs = sort_key key xs"

locale sorting =
  fixes sort_by :: "('a \<Rightarrow> u64) \<Rightarrow> 'a list \<Rightarrow> 'a list"
  assumes mset_sort: "mset (sort_by key xs) = mset xs"
    and sorted_sort: "sorted (map key (sort_by key xs))"
begin

lemma set_sort: "set (sort_by key xs) = set xs"
  using mset_sort by (metis set_mset_mset)

lemma length_sort: "length (sort_by key xs) = length xs"
  using mset_sort by (metis size_mset)

lemma strict_sort:
  assumes "distinct (map key xs)"
  shows "sorted_wrt (\<lambda>a b. key a < key b) (sort_by key xs)"
proof -
  have "mset (map key (sort_by key xs)) = mset (map key xs)" by (simp add: mset_sort)
  then have "distinct (map key (sort_by key xs))" using assms by (metis mset_eq_imp_distinct_iff)
  then have "sorted_wrt (<) (map key (sort_by key xs))"
    using sorted_sort [of key xs] by (simp only: strict_sorted_iff simp_thms)
  then show ?thesis by (simp only: sorted_wrt_map)
qed

end

interpretation qsort: sorting qsort
  by unfold_locales (simp_all add: qsort_def)

section \<open>The table of functions\<close>

text \<open>
  \<open>update_function_addr\<close>. The records of all modules lie one after the other in the section, and so do their unwinding
  records; the offset of a function is the number of unwinding records before it. Then the entries of
  the section are sorted by address.
\<close>

definition set_offset :: "nat \<Rightarrow> (u8 list \<times> u64) \<Rightarrow> (u8 list \<times> u64) result" where
  "set_offset i = (\<lambda>(bs, cur_offset).
     bindE (slice bs (16 * i) 16) (\<lambda>b.
       let ua = decode_unwind_addr b in
       Inr (take (16 * i) bs @ encode_unwind_addr (ua\<lparr>ua_unwind_offset := ucast cur_offset\<rparr>) @ drop (16 * i + 16) bs,
            cur_offset + ucast (ua_num_unwind ua))))"

definition entries :: "nat \<Rightarrow> nat \<Rightarrow> u8 list \<Rightarrow> u8 list list" where
  "entries num sz bs = map (\<lambda>i. take sz (drop (i * sz) bs)) [0..<num]"

definition sort_unwind_addr :: "u8 list \<Rightarrow> u64" where
  "sort_unwind_addr b = word_of (take 8 b)"

definition update_function_addr :: "elf_file \<Rightarrow> string \<Rightarrow> (ret_t \<times> elf_file) result" where
  "update_function_addr e sec =
     (case get_section_by_name e sec of None \<Rightarrow> Inr (FIND_SECTION_FAILED, e) | Some i \<Rightarrow>
     (case elf_getscn e i of None \<Rightarrow> Inr (READ_ELF_FAILED, e) | Some scn \<Rightarrow>
      if \<not> readable scn then Inr (READ_ELF_FAILED, e)
      else if sh_size scn = 0 \<or> sh_entsize scn = 0 then Inr (INVALID_METADATA, e)
      else case section_data scn of None \<Rightarrow> Inr (READ_ELF_FAILED, e)
      | Some bs \<Rightarrow>
          let num_records = unat (sh_size scn div sh_entsize scn); record_size = unat (sh_entsize scn) in
          bindE (for_loop 0 num_records set_offset (bs, 0)) (\<lambda>(bs, cur_offset).
            let ua = qsort sort_unwind_addr (entries num_records record_size bs) in
            Inr (update_section e i (Some (concat ua))))))"

section \<open>The call sites\<close>

definition cfa_correction :: "u16 \<Rightarrow> u64 \<Rightarrow> u64" where
  "cfa_correction arch sz = (if arch = EM_X86_64 then sz + 8 else sz)"

text \<open>
  The search for the function that encloses an address is the loop of the run-time library
  (\<open>unwind_search\<close>) with the tool's own argument order.
\<close>

definition get_func_unwind_data :: "u64 \<Rightarrow> u64 \<Rightarrow> unwind_addr list \<Rightarrow> unwind_addr option result" where
  "get_func_unwind_data addr num addrs = unwind_search addrs num addr 0 (sint (num - 1))"

text \<open>
  The state of \<open>create_call_site_metadata\<close> while it fills its three arrays. An array is what has been written of it so
  far; its capacity is what the counting loop found. \<open>loc_num\<close> and \<open>arch_num\<close> are indices of records.
\<close>

record site_state =
  next_id :: u64
  loc_num :: nat
  arch_num :: nat
  out_sites :: "call_site list"
  out_locs :: "u8 list"
  out_archs :: "u8 list"

definition count_records :: "stack_map_section list \<Rightarrow> (nat \<times> nat \<times> nat) result" where
  "count_records sms =
     for_loop 0 (length sms) (\<lambda>i (sites_num, locs, archs).
       bindE (arr sms i) (\<lambda>sm.
         for_loop 0 (unat (num_records sm)) (\<lambda>j (sites_num, locs, archs).
           bindE (arr (call_sites sm) j) (\<lambda>r.
             Inr (sites_num, locs + unat (num_locations r), archs + unat (sr_num_arch_live r))))
           (sites_num + unat (num_records sm), locs, archs)))
       (0, 0, 0)"

text \<open>
  One call site. \<open>stale\<close> is what the fresh memory of the call sites holds: their padding is not set.
  A function that is not found makes the whole fail (\<open>Inl None\<close>).
\<close>

definition lift :: "'a result \<Rightarrow> fault option + 'a" where
  "lift m = (case m of Inl f \<Rightarrow> Inl (Some f) | Inr x \<Rightarrow> Inr x)"

definition add_site :: "u16 \<Rightarrow> (nat \<Rightarrow> u16) \<Rightarrow> u8 list \<Rightarrow> nat \<times> nat \<times> nat \<Rightarrow> u64 \<Rightarrow> unwind_addr list \<Rightarrow>
    stack_map_section \<Rightarrow> nat \<Rightarrow> site_state \<Rightarrow> fault option + site_state" where
  "add_site arch stale bs room num_addrs addrs sm j st =
     bindE (lift (arr (call_sites sm) j)) (\<lambda>r.
     bindE (lift (function_record_at bs sm (unat (func_idx r)))) (\<lambda>fr.
     let special = sr_id r = UINT64_MAX \<or> sr_id r = UINT64_MAX - 1 \<or> sr_id r = UINT64_MAX - 2;
         id = (if special then sr_id r else next_id st);
         start_id = (if special then next_id st else next_id st + 1);
         addr = func_addr fr + ucast (sr_offset r) in
     bindE (lift (get_func_unwind_data addr num_addrs addrs)) (\<lambda>ua.
     case ua of None \<Rightarrow> Inl None
     | Some ua \<Rightarrow>
         let s = \<lparr>cs_id = id, cs_addr = addr, frame_size = ucast (cfa_correction arch (stack_size fr)),
               cs_num_unwind = ucast (fr_num_unwind fr), cs_unwind_offset = ucast (ua_unwind_offset ua),
               num_live = num_locations r, live_offset = of_nat (loc_num st),
               num_arch_live = sr_num_arch_live r, arch_live_offset = of_nat (arch_num st),
               padding = stale (length (out_sites st))\<rparr>;
             nloc = unat (num_locations r); narch = unat (sr_num_arch_live r) in
         bindE (lift (slice bs (locations r) (12 * nloc))) (\<lambda>locs.
         bindE (lift (slice bs (sr_arch_live r) (20 * narch))) (\<lambda>archs.
         bindE (lift (require (length (out_sites st) < fst room \<and> loc_num st + nloc \<le> fst (snd room) \<and>
                        arch_num st + narch \<le> snd (snd room)) Undef)) (\<lambda>_.
           Inr \<lparr>next_id = start_id, loc_num = loc_num st + nloc, arch_num = arch_num st + narch,
                out_sites = out_sites st @ [s], out_locs = out_locs st @ locs, out_archs = out_archs st @ archs\<rparr>))))))"

definition create_call_site_metadata :: "u16 \<Rightarrow> (nat \<Rightarrow> u16) \<Rightarrow> u64 \<Rightarrow> u8 list \<Rightarrow> stack_map_section list \<Rightarrow>
    u64 \<Rightarrow> unwind_addr list \<Rightarrow> site_state option result" where
  "create_call_site_metadata arch stale start_id bs sms num_addrs addrs =
     bindE (count_records sms) (\<lambda>room.
       case for_loop 0 (length sms) (\<lambda>i st.
              bindE (lift (arr sms i)) (\<lambda>sm.
                for_loop 0 (unat (num_records sm)) (add_site arch stale bs room num_addrs addrs sm) st))
              \<lparr>next_id = start_id, loc_num = 0, arch_num = 0, out_sites = [], out_locs = [], out_archs = []\<rparr> of
         Inl None \<Rightarrow> Inr None
       | Inl (Some f) \<Rightarrow> Inl f
       | Inr st \<Rightarrow> Inr (Some st))"

section \<open>Writing the sections\<close>

text \<open>A section is updated if the binary has one of this name, and added otherwise.\<close>

definition put_section :: "elf_file \<Rightarrow> string \<Rightarrow> nat \<Rightarrow> u8 list \<Rightarrow> (ret_t \<times> elf_file) result" where
  "put_section e name entry_size bytes =
     (case get_section_by_name e name of
        Some i \<Rightarrow> Inr (update_section e i (Some bytes))
      | None \<Rightarrow> add_section e name entry_size (Some bytes))"

definition buffer_name :: "string \<Rightarrow> string \<Rightarrow> string" where
  "buffer_name sec postfix = take (TOOL_BUF_SIZE - 1) (sec @ ''.'' @ postfix)"

text \<open>Going on only after success.\<close>

definition succeed :: "(ret_t \<times> elf_file) result \<Rightarrow> (elf_file \<Rightarrow> (ret_t \<times> elf_file) result) \<Rightarrow> (ret_t \<times> elf_file) result" where
  "succeed m k = bindE m (\<lambda>(ret, e). if ret \<noteq> SUCCESS then Inr (ret, e) else k e)"

text \<open>
  The end of \<open>add_sections\<close>: the four sections are laid out behind the section before them, the table of
  section headers behind these, and the file is written.
\<close>

definition place_section :: "nat \<Rightarrow> elf_file \<times> u64 \<Rightarrow> (ret_t \<times> elf_file) + (elf_file \<times> u64)" where
  "place_section i = (\<lambda>(e, cur_offset).
     case elf_getscn e i of None \<Rightarrow> Inl (READ_ELF_FAILED, e)
     | Some scn \<Rightarrow>
         if \<not> readable scn then Inl (READ_ELF_FAILED, e)
         else Inr (put_scn e i (scn\<lparr>sh_offset := cur_offset\<rparr>), cur_offset + sh_size scn))"

definition layout_sections :: "elf_file \<Rightarrow> nat \<Rightarrow> ret_t \<times> elf_file" where
  "layout_sections e added =
     (let num_shdr = length (scns e) in
      if num_shdr < added + 1 then (READ_ELF_FAILED, e)
      else let scn = scns e ! (num_shdr - (added + 1)) in
        if \<not> readable scn then (READ_ELF_FAILED, e)
        else case for_loop (num_shdr - added) num_shdr place_section (e, sh_offset scn + sh_size scn) of
               Inl (ret, e) \<Rightarrow> (ret, e)
             | Inr (e, cur_offset) \<Rightarrow>
                 let e = e\<lparr>e_shoff := cur_offset\<rparr> in
                 if \<not> can_write e then (WRITE_ELF_FAILED, e) else (SUCCESS, e))"

definition add_sections :: "u16 \<Rightarrow> (nat \<Rightarrow> u16) \<Rightarrow> elf_file \<Rightarrow> u8 list \<Rightarrow> stack_map_section list \<Rightarrow> string \<Rightarrow>
    u64 \<Rightarrow> string \<Rightarrow> (ret_t \<times> elf_file) result" where
  "add_sections arch stale e bs sms sec start_id unwind_sec =
     (case get_section_by_name e unwind_sec of None \<Rightarrow> Inr (FIND_SECTION_FAILED, e) | Some i \<Rightarrow>
     (case elf_getscn e i of None \<Rightarrow> Inr (READ_ELF_FAILED, e) | Some scn \<Rightarrow>
      if \<not> readable scn then Inr (READ_ELF_FAILED, e)
      else if sh_size scn = 0 \<or> sh_entsize scn = 0 then Inr (INVALID_METADATA, e)
      else let num_unwind = sh_size scn div sh_entsize scn in
        case section_data scn of None \<Rightarrow> Inr (READ_ELF_FAILED, e)
        | Some unwind \<Rightarrow>
          bindE (create_call_site_metadata arch stale start_id bs sms num_unwind (records 16 decode_unwind_addr unwind)) (\<lambda>c.
          case c of None \<Rightarrow> Inr (CREATE_METADATA_FAILED, e)
          | Some st \<Rightarrow>
              let id_sites = qsort cs_id (out_sites st); addr_sites = qsort cs_addr id_sites in
              succeed (put_section e (buffer_name sec ''id'') 52 (concat (map encode_call_site id_sites))) (\<lambda>e.
              succeed (put_section e (buffer_name sec ''addr'') 52 (concat (map encode_call_site addr_sites))) (\<lambda>e.
              succeed (put_section e (buffer_name sec ''live'') 12 (out_locs st)) (\<lambda>e.
              succeed (put_section e (buffer_name sec ''arch_const'') 20 (out_archs st)) (\<lambda>e.
                Inr (layout_sections e 4))))))))"

section \<open>The tool\<close>

text \<open>
  \<open>main\<close> after the binary has been opened: any failure ends the program with exit code 1, and the file
  on disk is only written by the last step.
\<close>

definition check_ret :: "(ret_t \<times> elf_file) result \<Rightarrow> elf_file result" where
  "check_ret m = bindE m (\<lambda>(ret, e). if ret \<noteq> SUCCESS then Inl (Exit 1) else Inr e)"

definition gen_stackinfo :: "nat \<Rightarrow> (nat \<Rightarrow> u16) \<Rightarrow> string \<Rightarrow> u64 \<Rightarrow> elf_file \<Rightarrow> elf_file result" where
  "gen_stackinfo base stale section_name start_id e =
     (let unwind_addr_name = take 511 (section_name @ ''.'' @ ''unwind_arange'') in
      bindE (init_stackmap base e) (\<lambda>r.
      case r of Inl ret \<Rightarrow> Inl (Exit 1)
      | Inr (bs, sms) \<Rightarrow>
          bindE (check_ret (update_function_addr e unwind_addr_name)) (\<lambda>e.
            check_ret (add_sections (e_machine e) stale e bs sms section_name start_id unwind_addr_name))))"

end
