(* ===== verification/Elf_Sections.thy ===== *)
theory Elf_Sections
  imports Stack_Metadata
begin

text \<open>
  The sections of a binary as a store of tables by name: adding and updating sections as the stack metadata tool
  does it keeps all names readable and all other tables, and the run-time library finds what was stored.
\<close>

section \<open>Strings in the name table\<close>

text \<open>A section name: no terminator inside, and short enough for the tool's buffers.\<close>

definition good_name :: "string \<Rightarrow> bool" where
  "good_name name \<longleftrightarrow> CHR 0x00 \<notin> set name \<and> length name < TOOL_BUF_SIZE"

lemma cstr_chars: "CHR 0x00 \<notin> set s \<Longrightarrow> cstr (chars s @ 0 # bs) = s"
proof (induction s)
  case Nil
  then show ?case by (simp add: cstr_def chars_def)
next
  case (Cons c s)
  have lt: "(of_char c :: nat) < 256" by simp
  then have u: "unat (of_nat (of_char c) :: u8) = of_char c" by (simp add: unat_of_nat take_bit_nat_eq_self)
  moreover have "(of_nat (of_char c) :: u8) \<noteq> 0"
  proof
    assume "(of_nat (of_char c) :: u8) = 0"
    then have "(of_char c :: nat) = 0" using u by simp
    then have "char_of (of_char c :: nat) = (char_of (0::nat) :: char)" by simp
    then have "c = char_of (0 :: nat)" by (simp only: char_of_char)
    moreover have "char_of (0 :: nat) = CHR 0x00" by (simp add: char_of_def)
    ultimately show False using Cons.prems by simp
  qed
  ultimately show ?case using Cons by (simp add: cstr_def chars_def)
qed

lemma cstr_append: "0 \<in> set bs \<Longrightarrow> cstr (bs @ xs) = cstr bs"
  by (simp add: cstr_def takeWhile_append1)

section \<open>Files whose sections all have names\<close>

definition wf_elf :: "elf_file \<Rightarrow> bool" where
  "wf_elf e \<longleftrightarrow> 5 \<le> length (scns e) \<and> can_add e \<and> can_write e \<and> (\<forall>s \<in> set (scns e). readable s) \<and>
     (\<exists>ndx tab. shstrndx e = Some ndx \<and> 0 < ndx \<and> ndx < length (scns e) \<and>
        sh_type (scns e ! ndx) = SHT_STRTAB \<and> d_bufs (scns e ! ndx) = [Some tab] \<and> tab \<noteq> [] \<and>
        (\<forall>s \<in> set (tl (scns e)). \<exists>n. elf_strptr e ndx (sh_name s) = Some n))"

definition scn_name :: "elf_file \<Rightarrow> elf_scn \<Rightarrow> string option" where
  "scn_name e s = (case shstrndx e of None \<Rightarrow> None | Some ndx \<Rightarrow> elf_strptr e ndx (sh_name s))"

lemma find_by_name_iff:
  assumes "\<forall>s \<in> set ss. readable s"
  shows "find_by_name e ndx name i ss =
    (case find (\<lambda>j. elf_strptr e ndx (sh_name (ss ! j)) = Some name) [0..<length ss] of
       None \<Rightarrow> None | Some j \<Rightarrow> Some (i + j))"
  using assms
proof (induction ss arbitrary: i)
  case Nil
  then show ?case by simp
next
  case (Cons s ss)
  have m: "find P (map Suc js) = map_option Suc (find (P \<circ> Suc) js)" for P js
    by (induction js) auto
  have "[0..<length (s # ss)] = 0 # map Suc [0..<length ss]"
    by (simp add: upt_conv_Cons map_Suc_upt del: upt_Suc)
  then have step: "find P [0..<length (s # ss)] = (if P 0 then Some 0 else map_option Suc (find (P \<circ> Suc) [0..<length ss]))" for P
    by (simp only: m find.simps)
  show ?case
    using Cons unfolding step by (auto simp: comp_def split: option.splits)
qed

lemma set_tl: "x \<in> set (tl xs) \<Longrightarrow> x \<in> set xs"
  by (cases xs) auto

lemma get_section_by_name_Some:
  assumes "wf_elf e"
  shows "get_section_by_name e name = Some i \<longleftrightarrow>
    0 < i \<and> i < length (scns e) \<and> scn_name e (scns e ! i) = Some name \<and>
    (\<forall>j. 0 < j \<and> j < i \<longrightarrow> scn_name e (scns e ! j) \<noteq> Some name)"
proof -
  obtain ndx where ndx: "shstrndx e = Some ndx" and r: "\<forall>s \<in> set (tl (scns e)). readable s"
    using assms by (auto simp: wf_elf_def dest: set_tl)
  have len: "0 < length (scns e)" using assms by (auto simp: wf_elf_def)
  have tl: "tl (scns e) ! j = scns e ! Suc j" if "j < length (scns e) - 1" for j
    using that by (simp add: nth_tl)
  have "get_section_by_name e name = Some i \<longleftrightarrow>
    (\<exists>j. find (\<lambda>j. scn_name e (tl (scns e) ! j) = Some name) [0..<length (tl (scns e))] = Some j \<and> i = Suc j)"
    using ndx by (auto simp: get_section_by_name_def find_by_name_iff [OF r] scn_name_def split: option.splits)
  also have "\<dots> \<longleftrightarrow> 0 < i \<and> i < length (scns e) \<and> scn_name e (scns e ! i) = Some name \<and>
    (\<forall>j. 0 < j \<and> j < i \<longrightarrow> scn_name e (scns e ! j) \<noteq> Some name)"
  proof
    assume "\<exists>j. find (\<lambda>j. scn_name e (tl (scns e) ! j) = Some name) [0..<length (tl (scns e))] = Some j \<and> i = Suc j"
    then obtain j where "j < length (scns e) - 1" "scn_name e (tl (scns e) ! j) = Some name" "i = Suc j"
      "\<forall>k<j. scn_name e (tl (scns e) ! k) \<noteq> Some name"
      by (auto simp: find_Some_iff)
    moreover have "scn_name e (scns e ! k) \<noteq> Some name" if "0 < k" "k < i" for k
      using calculation(1,3,4) that tl [of "k - 1"] by (cases k) auto
    ultimately show "0 < i \<and> i < length (scns e) \<and> scn_name e (scns e ! i) = Some name \<and>
      (\<forall>j. 0 < j \<and> j < i \<longrightarrow> scn_name e (scns e ! j) \<noteq> Some name)" using tl [of j] by auto
  next
    assume a: "0 < i \<and> i < length (scns e) \<and> scn_name e (scns e ! i) = Some name \<and>
      (\<forall>j. 0 < j \<and> j < i \<longrightarrow> scn_name e (scns e ! j) \<noteq> Some name)"
    then obtain j where j: "i = Suc j" by (cases i) auto
    then show "\<exists>j. find (\<lambda>j. scn_name e (tl (scns e) ! j) = Some name) [0..<length (tl (scns e))] = Some j \<and> i = Suc j"
      using a by (auto simp: find_Some_iff nth_tl intro!: exI [of _ j])
  qed
  finally show ?thesis .
qed

section \<open>Editing keeps the names\<close>

lemma get_section_by_name_cong:
  assumes "wf_elf e" "wf_elf e'" "length (scns e') = length (scns e)"
    and "\<And>j. 0 < j \<Longrightarrow> j < length (scns e) \<Longrightarrow> scn_name e' (scns e' ! j) = scn_name e (scns e ! j)"
  shows "get_section_by_name e' name = get_section_by_name e name"
proof -
  have "get_section_by_name e' name = Some i \<longleftrightarrow> get_section_by_name e name = Some i" for i
    unfolding get_section_by_name_Some [OF assms(1)] get_section_by_name_Some [OF assms(2)]
    using assms(3,4) by auto
  then show ?thesis by (metis option.exhaust)
qed

text \<open>Replacing a section under its name, without touching the names.\<close>

lemma put_scn_wf:
  assumes "wf_elf e" "readable s" "sh_name s = sh_name (scns e ! i)"
    and "shstrndx e = Some i \<Longrightarrow> d_bufs s = d_bufs (scns e ! i) \<and> sh_type s = sh_type (scns e ! i)"
  shows "wf_elf (put_scn e i s)" "get_section_by_name (put_scn e i s) = get_section_by_name e"
proof -
  let ?e = "put_scn e i s"
  obtain ndx tab where ndx: "shstrndx e = Some ndx" "0 < ndx" "ndx < length (scns e)"
    "sh_type (scns e ! ndx) = SHT_STRTAB" "d_bufs (scns e ! ndx) = [Some tab]" "tab \<noteq> []"
    "\<forall>s \<in> set (tl (scns e)). \<exists>n. elf_strptr e ndx (sh_name s) = Some n"
    and e: "5 \<le> length (scns e)" "can_add e" "can_write e" "\<forall>s \<in> set (scns e). readable s"
    using assms(1) by (auto simp: wf_elf_def)
  have tab: "sh_type (scns ?e ! ndx) = SHT_STRTAB" "d_bufs (scns ?e ! ndx) = [Some tab]"
    using assms(4) ndx by (cases "i = ndx"; simp add: put_scn_def)+
  then have str: "elf_strptr ?e ndx off = elf_strptr e ndx off" for off
    using ndx by (simp add: elf_strptr_def elf_getscn_def elf_getdata_def) (simp add: put_scn_def)
  have name: "sh_name (scns ?e ! j) = sh_name (scns e ! j)" for j
    using assms(3) by (cases "i < length (scns e)") (auto simp: put_scn_def nth_list_update list_update_beyond not_less)
  have all: "\<exists>n. elf_strptr ?e ndx (sh_name (scns ?e ! j)) = Some n" if "0 < j" "j < length (scns e)" for j
  proof -
    have "tl (scns e) ! (j - 1) \<in> set (tl (scns e))" using that by (intro nth_mem) auto
    moreover have "tl (scns e) ! (j - 1) = scns e ! j" using that by (simp add: nth_tl)
    ultimately show ?thesis using ndx(7) name str by auto
  qed
  show wf: "wf_elf ?e"
    unfolding wf_elf_def
  proof (intro conjI exI [of _ ndx] exI [of _ tab])
    show "\<forall>s \<in> set (scns ?e). readable s"
      using e(4) assms(2) set_update_subset_insert [of "scns e" i s] by (auto simp: put_scn_def)
    show "\<forall>s \<in> set (tl (scns ?e)). \<exists>n. elf_strptr ?e ndx (sh_name s) = Some n"
    proof
      fix s' assume "s' \<in> set (tl (scns ?e))"
      then obtain k where "k < length (tl (scns ?e))" "s' = tl (scns ?e) ! k" by (auto simp: in_set_conv_nth)
      then show "\<exists>n. elf_strptr ?e ndx (sh_name s') = Some n"
        using all [of "Suc k"] by (simp add: nth_tl put_scn_def)
    qed
  qed (use ndx tab e in \<open>auto simp: put_scn_def\<close>)
  show "get_section_by_name ?e = get_section_by_name e"
    by (rule ext, rule get_section_by_name_cong [OF assms(1) wf])
      (use str name ndx(1) in \<open>auto simp: scn_name_def put_scn_def\<close>)
qed

text \<open>Adding a section under a new name.\<close>

lemma add_section_ok:
  assumes wf: "wf_elf e" and name: "good_name name" and new: "get_section_by_name e name = None"
  obtains e' where "add_section e name n (Some bytes) = Inr (SUCCESS, e')" "wf_elf e'"
    "get_section_by_name e' name = Some (length (scns e))"
    "\<And>m. m \<noteq> name \<Longrightarrow> get_section_by_name e' m = get_section_by_name e m"
    "shstrndx e' = shstrndx e" "e_machine e' = e_machine e" "length (scns e') = length (scns e) + 1"
    "\<And>i. i < length (scns e) \<Longrightarrow> shstrndx e \<noteq> Some i \<Longrightarrow> scns e' ! i = scns e ! i"
    "sh_size (scns e' ! length (scns e)) = of_nat (length bytes)"
    "sh_entsize (scns e' ! length (scns e)) = of_nat n" "d_bufs (scns e' ! length (scns e)) = [Some bytes]"
    "get_section_by_name e name = None"
proof -
  obtain ndx tab where ndx: "shstrndx e = Some ndx" "0 < ndx" "ndx < length (scns e)"
    "sh_type (scns e ! ndx) = SHT_STRTAB" "d_bufs (scns e ! ndx) = [Some tab]" "tab \<noteq> []"
    "\<forall>s \<in> set (tl (scns e)). \<exists>n. elf_strptr e ndx (sh_name s) = Some n"
    and e: "5 \<le> length (scns e)" "can_add e" "can_write e" "\<forall>s \<in> set (scns e). readable s"
    using wf by (auto simp: wf_elf_def)
  define tab' where "tab' = tab @ chars name @ [0]"
  define st where "st = (scns e ! ndx)\<lparr>d_bufs := [Some tab'], sh_size := of_nat (length tab')\<rparr>"
  define scn where "scn = \<lparr>readable = True, sh_name = length tab, sh_type = SHT_PROGBITS, sh_offset = 0,
    sh_size = of_nat (length bytes), sh_entsize = of_nat n, d_bufs = [Some bytes]\<rparr>"
  define e' where "e' = e\<lparr>scns := (scns e)[ndx := st] @ [scn]\<rparr>"
  have len: "min (length name) TOOL_BUF_SIZE = length name" "length (chars name) = length name"
    using name by (simp_all add: good_name_def chars_def)
  have run: "add_section e name n (Some bytes) = Inr (SUCCESS, e')"
    using ndx e len by (simp add: add_section_def add_section_name_def elf_getscn_def Let_def put_scn_def
        e'_def st_def scn_def tab'_def)
  have old: "elf_strptr e' ndx off = Some s" if "elf_strptr e ndx off = Some s" for off s
    using that ndx by (auto simp: elf_strptr_def elf_getscn_def elf_getdata_def e'_def nth_append st_def tab'_def
        cstr_append split: if_splits)
  have here: "elf_strptr e' ndx (length tab) = Some name"
    using ndx name cstr_chars [of name "[]"]
    by (simp add: elf_strptr_def elf_getscn_def elf_getdata_def e'_def nth_append st_def tab'_def good_name_def)
  have at: "scns e' ! j = (if j = ndx then st else scns e ! j)" if "j < length (scns e)" for j
    using that by (auto simp: e'_def nth_append)
  have last: "scns e' ! length (scns e) = scn" by (simp add: e'_def nth_append)
  have len': "length (scns e') = length (scns e) + 1" by (simp add: e'_def)
  have st_name: "sh_name st = sh_name (scns e ! ndx)" by (simp add: st_def)
  have ndx': "shstrndx e' = Some ndx" using ndx(1) by (simp add: e'_def)
  have name_at: "sh_name (scns e' ! j) = sh_name (scns e ! j)" if "j < length (scns e)" for j
    using at [OF that] st_name by simp
  have names: "scn_name e' (scns e' ! j) = scn_name e (scns e ! j)" "\<exists>s. scn_name e (scns e ! j) = Some s"
    if j: "0 < j" "j < length (scns e)" for j
  proof -
    have "tl (scns e) ! (j - 1) \<in> set (tl (scns e))" using j by (intro nth_mem) auto
    moreover have "tl (scns e) ! (j - 1) = scns e ! j" using j by (simp add: nth_tl)
    ultimately obtain s where s: "elf_strptr e ndx (sh_name (scns e ! j)) = Some s" using ndx(7) by auto
    then show "\<exists>s. scn_name e (scns e ! j) = Some s" using ndx(1) by (simp add: scn_name_def)
    show "scn_name e' (scns e' ! j) = scn_name e (scns e ! j)"
      using s old [OF s] ndx' name_at [OF j(2)] ndx(1) by (simp add: scn_name_def)
  qed
  have last_name: "scn_name e' (scns e' ! length (scns e)) = Some name"
    using here ndx(1) by (simp add: scn_name_def last) (simp add: e'_def scn_def)
  have wf': "wf_elf e'"
    unfolding wf_elf_def
  proof (intro conjI exI [of _ ndx] exI [of _ tab'])
    show "\<forall>s \<in> set (scns e'). readable s"
      using e(4) ndx(3) set_update_subset_insert [of "scns e" ndx st] by (auto simp: e'_def st_def scn_def)
    show "\<forall>s \<in> set (tl (scns e')). \<exists>n. elf_strptr e' ndx (sh_name s) = Some n"
    proof
      fix s' assume "s' \<in> set (tl (scns e'))"
      then obtain k where k: "k < length (tl (scns e'))" "s' = tl (scns e') ! k" by (auto simp: in_set_conv_nth)
      then have "s' = scns e' ! Suc k" by (simp add: nth_tl)
      then have "\<exists>n. scn_name e' s' = Some n"
        using names [of "Suc k"] last_name k(1) len' by (cases "Suc k < length (scns e)") (auto simp: not_less le_Suc_eq)
      moreover have "shstrndx e' = Some ndx" using ndx(1) by (simp add: e'_def)
      ultimately show "\<exists>n. elf_strptr e' ndx (sh_name s') = Some n" by (simp add: scn_name_def)
    qed
  qed (use ndx e at len' in \<open>auto simp: e'_def st_def tab'_def\<close>)
  have none: "scn_name e (scns e ! j) \<noteq> Some name" if "0 < j" "j < length (scns e)" for j
  proof
    assume "scn_name e (scns e ! j) = Some name"
    then have "\<exists>i. 0 < i \<and> i < length (scns e) \<and> scn_name e (scns e ! i) = Some name" using that by blast
    then obtain i where "0 < i \<and> i < length (scns e) \<and> scn_name e (scns e ! i) = Some name"
      "\<forall>k<i. \<not> (0 < k \<and> k < length (scns e) \<and> scn_name e (scns e ! k) = Some name)"
      by (subst (asm) (1) exists_least_iff) blast
    then have "get_section_by_name e name = Some i"
      by (auto simp: get_section_by_name_Some [OF wf])
    then show False using new by simp
  qed
  show thesis
  proof
    show "get_section_by_name e' name = Some (length (scns e))"
      using last_name none names len' e(1) by (auto simp: get_section_by_name_Some [OF wf'])
    fix m assume "m \<noteq> name"
    have "get_section_by_name e' m = Some i \<longleftrightarrow> get_section_by_name e m = Some i" for i
      unfolding get_section_by_name_Some [OF wf] get_section_by_name_Some [OF wf']
      using names last_name len' \<open>m \<noteq> name\<close> by (cases "i < length (scns e)") (auto simp: less_Suc_eq)
    then show "get_section_by_name e' m = get_section_by_name e m" by (metis option.exhaust)
  qed (use run wf' len' at last ndx(1) new in \<open>auto simp: scn_def e'_def\<close>)
qed

section \<open>Tables by name\<close>

text \<open>
  The table that a section holds: its entry size and its bytes. The section of the names itself is not a
  table, nor is a section with several data descriptors.
\<close>

definition scn_table :: "elf_scn \<Rightarrow> (nat \<times> u8 list) option" where
  "scn_table s =
     (case d_bufs s of
        [Some b] \<Rightarrow> if sh_size s = of_nat (length b) then Some (unat (sh_entsize s), b) else None
      | _ \<Rightarrow> None)"

lemma scn_table_single:
  "d_bufs s = [Some b] \<Longrightarrow> sh_size s = of_nat (length b) \<Longrightarrow> scn_table s = Some (unat (sh_entsize s), b)"
  by (simp add: scn_table_def)

lemma scn_table_offset [simp]: "scn_table (s\<lparr>sh_offset := off\<rparr>) = scn_table s"
  by (auto simp: scn_table_def split: list.splits option.splits)

definition get_table :: "elf_file \<Rightarrow> string \<Rightarrow> (nat \<times> u8 list) option" where
  "get_table e name =
     (case get_section_by_name e name of None \<Rightarrow> None
      | Some i \<Rightarrow>
          if shstrndx e = Some i then None else scn_table (scns e ! i))"

text \<open>There is room for a table: no section has the name, or one that holds a table with the same entry size.\<close>

definition room :: "elf_file \<Rightarrow> string \<Rightarrow> nat \<Rightarrow> bool" where
  "room e name n \<longleftrightarrow> get_section_by_name e name = None \<or> (\<exists>b. get_table e name = Some (n, b))"

lemma get_tableE:
  assumes "get_table e name = Some (n, b)" "wf_elf e"
  obtains i where "get_section_by_name e name = Some i" "shstrndx e \<noteq> Some i" "i < length (scns e)" "0 < i"
    "readable (scns e ! i)" "d_bufs (scns e ! i) = [Some b]" "sh_size (scns e ! i) = of_nat (length b)"
    "n = unat (sh_entsize (scns e ! i))"
proof -
  have r: "\<forall>s \<in> set (scns e). readable s" using assms(2) by (auto simp: wf_elf_def)
  obtain i where "get_section_by_name e name = Some i" "shstrndx e \<noteq> Some i" "d_bufs (scns e ! i) = [Some b]"
    "sh_size (scns e ! i) = of_nat (length b)" "n = unat (sh_entsize (scns e ! i))"
    using assms(1) by (auto simp: get_table_def scn_table_def split: option.splits list.splits if_splits)
  then show thesis using that [of i] get_section_by_name_Some [OF assms(2)] r by simp
qed

lemma get_by_name_inj:
  assumes "wf_elf e" "get_section_by_name e a = Some i" "get_section_by_name e b = Some i"
  shows "a = b"
  using assms(2,3) by (simp add: get_section_by_name_Some [OF assms(1)])

lemma update_table:
  assumes wf: "wf_elf e" and t: "get_table e name = Some (n, b)" and i: "get_section_by_name e name = Some i"
  obtains e' where "update_section e i (Some bytes) = (SUCCESS, e')" "wf_elf e'"
    "get_table e' name = Some (n, bytes)" "\<And>m. m \<noteq> name \<Longrightarrow> get_table e' m = get_table e m"
    "get_section_by_name e' = get_section_by_name e" "e_machine e' = e_machine e"
    "e' = put_scn e i ((scns e ! i)\<lparr>d_bufs := [Some bytes], sh_size := of_nat (length bytes)\<rparr>)"
proof -
  from t wf obtain i' where "get_section_by_name e name = Some i'" "shstrndx e \<noteq> Some i'" "i' < length (scns e)"
    "readable (scns e ! i')" "d_bufs (scns e ! i') = [Some b]" "n = unat (sh_entsize (scns e ! i'))"
    by (rule get_tableE) blast
  then have s: "shstrndx e \<noteq> Some i" "i < length (scns e)" "readable (scns e ! i)" "d_bufs (scns e ! i) = [Some b]"
    "n = unat (sh_entsize (scns e ! i))"
    using i by simp_all
  let ?s = "(scns e ! i)\<lparr>d_bufs := [Some bytes], sh_size := of_nat (length bytes)\<rparr>"
  have w: "wf_elf (put_scn e i ?s)" "get_section_by_name (put_scn e i ?s) = get_section_by_name e"
    using put_scn_wf [OF wf, of ?s i] s(1,3) by simp_all
  show thesis
  proof
    show "update_section e i (Some bytes) = (SUCCESS, put_scn e i ?s)"
      using s by (simp add: update_section_def elf_getscn_def)
    show "get_table (put_scn e i ?s) name = Some (n, bytes)"
      using s i w(2) by (simp add: get_table_def put_scn_def scn_table_single)
    fix m assume "m \<noteq> name"
    then have "get_section_by_name e m \<noteq> Some i" using get_by_name_inj [OF wf i] by blast
    then show "get_table (put_scn e i ?s) m = get_table e m"
      using w(2) by (auto simp: get_table_def put_scn_def split: option.splits)
  qed (use w in \<open>auto simp: put_scn_def\<close>)
qed

text \<open>What putting a table under a new name does to the sections: the table of names grows, and a section is added at the end.\<close>

lemma put_new:
  assumes wf: "wf_elf e" and name: "good_name name" and new: "get_section_by_name e name = None"
    and put: "put_section e name n bytes = Inr (r, e')"
    and ndx: "shstrndx e = Some ndx" "d_bufs (scns e ! ndx) = [Some tab]"
  obtains tab' where "wf_elf e'" "\<And>m. m \<noteq> name \<Longrightarrow> get_section_by_name e' m = get_section_by_name e m"
    "shstrndx e' = Some ndx" "length (scns e') = Suc (length (scns e))"
    "\<And>i. i < length (scns e) \<Longrightarrow> i \<noteq> ndx \<Longrightarrow> scns e' ! i = scns e ! i"
    "d_bufs (scns e' ! ndx) = [Some tab']" "length tab' = length tab + length name + 1"
    "sh_offset (scns e' ! ndx) = sh_offset (scns e ! ndx)" "sh_size (scns e' ! ndx) = of_nat (length tab')"
    "sh_size (scns e' ! length (scns e)) = of_nat (length bytes)"
proof -
  have e: "ndx < length (scns e)" "can_add e" "tab \<noteq> []" "readable (scns e ! ndx)" "shstrndx e = Some ndx"
    "d_bufs (scns e ! ndx) = [Some tab]"
    using wf ndx by (auto simp: wf_elf_def)
  have len: "min (length name) TOOL_BUF_SIZE = length name" "length (chars name) = length name"
    using name by (simp_all add: good_name_def chars_def)
  define tab' where "tab' = tab @ chars name @ [0]"
  define st where "st = (scns e ! ndx)\<lparr>d_bufs := [Some tab'], sh_size := of_nat (length tab')\<rparr>"
  define scn where "scn = \<lparr>readable = True, sh_name = length tab, sh_type = SHT_PROGBITS, sh_offset = 0,
    sh_size = of_nat (length bytes), sh_entsize = of_nat n, d_bufs = [Some bytes]\<rparr>"
  have run: "put_section e name n bytes = Inr (SUCCESS, e\<lparr>scns := (scns e)[ndx := st] @ [scn]\<rparr>)"
    using e len new by (simp add: put_section_def add_section_def add_section_name_def elf_getscn_def Let_def put_scn_def
        st_def scn_def tab'_def)
  then have e': "e' = e\<lparr>scns := (scns e)[ndx := st] @ [scn]\<rparr>" using put by simp
  obtain e'' where "add_section e name n (Some bytes) = Inr (SUCCESS, e'')" "wf_elf e''"
    "\<And>m. m \<noteq> name \<Longrightarrow> get_section_by_name e'' m = get_section_by_name e m"
    by (rule add_section_ok [OF wf name new]) blast
  then have "wf_elf e'" "\<And>m. m \<noteq> name \<Longrightarrow> get_section_by_name e' m = get_section_by_name e m"
    using put new by (auto simp: put_section_def)
  then show thesis
    using e(1,5) len by (intro that [of tab']) (simp_all add: e' nth_append st_def scn_def tab'_def)
qed

text \<open>
  The contract that the rest of the tool relies on: storing a table under a good name succeeds where there is room, and
  changes nothing but what is stored there.
\<close>

locale table_store =
  fixes wf :: "'e \<Rightarrow> bool" and good :: "string \<Rightarrow> bool"
    and put :: "'e \<Rightarrow> string \<Rightarrow> nat \<Rightarrow> u8 list \<Rightarrow> (ret_t \<times> 'e) result"
    and get :: "'e \<Rightarrow> string \<Rightarrow> (nat \<times> u8 list) option"
    and fits :: "'e \<Rightarrow> string \<Rightarrow> nat \<Rightarrow> bool"
    and machine :: "'e \<Rightarrow> u16"
  assumes put: "wf e \<Longrightarrow> good name \<Longrightarrow> fits e name n \<Longrightarrow> n < 2 ^ 64 \<Longrightarrow>
      \<exists>e'. put e name n bytes = Inr (SUCCESS, e') \<and> wf e' \<and> get e' name = Some (n, bytes) \<and>
           (\<forall>m. m \<noteq> name \<longrightarrow> get e' m = get e m) \<and> (\<forall>m k. m \<noteq> name \<longrightarrow> fits e m k \<longrightarrow> fits e' m k) \<and>
           machine e' = machine e"
begin

lemma put_four:
  assumes "wf e" "distinct [a, b, c, d]" "good a" "good b" "good c" "good d"
    and "fits e a na" "fits e b nb" "fits e c nc" "fits e d nd" "na < 2 ^ 64" "nb < 2 ^ 64" "nc < 2 ^ 64" "nd < 2 ^ 64"
  shows "\<exists>e1 e2 e3 e4. put e a na x = Inr (SUCCESS, e1) \<and> put e1 b nb y = Inr (SUCCESS, e2) \<and>
           put e2 c nc z = Inr (SUCCESS, e3) \<and> put e3 d nd w = Inr (SUCCESS, e4) \<and> wf e4 \<and>
           get e4 a = Some (na, x) \<and> get e4 b = Some (nb, y) \<and> get e4 c = Some (nc, z) \<and> get e4 d = Some (nd, w) \<and>
           (\<forall>m. m \<notin> {a, b, c, d} \<longrightarrow> get e4 m = get e m) \<and> machine e4 = machine e"
proof -
  obtain e1 where 1: "put e a na x = Inr (SUCCESS, e1)" "wf e1" "get e1 a = Some (na, x)"
    "\<forall>m. m \<noteq> a \<longrightarrow> get e1 m = get e m" "\<forall>m k. m \<noteq> a \<longrightarrow> fits e m k \<longrightarrow> fits e1 m k" "machine e1 = machine e"
    using put [OF assms(1,3,7,11)] by blast
  have "fits e1 b nb" using 1(5) assms(2,8) by auto
  then obtain e2 where 2: "put e1 b nb y = Inr (SUCCESS, e2)" "wf e2" "get e2 b = Some (nb, y)"
    "\<forall>m. m \<noteq> b \<longrightarrow> get e2 m = get e1 m" "\<forall>m k. m \<noteq> b \<longrightarrow> fits e1 m k \<longrightarrow> fits e2 m k" "machine e2 = machine e1"
    using put [OF 1(2) assms(4) _ assms(12)] by blast
  have "fits e2 c nc" using 1(5) 2(5) assms(2,9) by auto
  then obtain e3 where 3: "put e2 c nc z = Inr (SUCCESS, e3)" "wf e3" "get e3 c = Some (nc, z)"
    "\<forall>m. m \<noteq> c \<longrightarrow> get e3 m = get e2 m" "\<forall>m k. m \<noteq> c \<longrightarrow> fits e2 m k \<longrightarrow> fits e3 m k" "machine e3 = machine e2"
    using put [OF 2(2) assms(5) _ assms(13)] by blast
  have "fits e3 d nd" using 1(5) 2(5) 3(5) assms(2,10) by auto
  then obtain e4 where 4: "put e3 d nd w = Inr (SUCCESS, e4)" "wf e4" "get e4 d = Some (nd, w)"
    "\<forall>m. m \<noteq> d \<longrightarrow> get e4 m = get e3 m" "machine e4 = machine e3"
    using put [OF 3(2) assms(6) _ assms(14)] by blast
  show ?thesis
    using assms(2) by (intro exI [of _ e1] exI [of _ e2] exI [of _ e3] exI [of _ e4])
      (simp add: 1 2 3 4)
qed

end

lemma put_section_ok:
  assumes "wf_elf e" "good_name name" "room e name n" "n < 2 ^ 64"
  shows "\<exists>e'. put_section e name n bytes = Inr (SUCCESS, e') \<and> wf_elf e' \<and> get_table e' name = Some (n, bytes) \<and>
           (\<forall>m. m \<noteq> name \<longrightarrow> get_table e' m = get_table e m) \<and>
           (\<forall>m k. m \<noteq> name \<longrightarrow> room e m k \<longrightarrow> room e' m k) \<and> e_machine e' = e_machine e"
proof (cases "get_section_by_name e name")
  case None
  from assms(1,2) None show ?thesis
  proof (rule add_section_ok [where n = n and bytes = bytes])
    fix e'
    assume e': "add_section e name n (Some bytes) = Inr (SUCCESS, e')" "wf_elf e'"
      "get_section_by_name e' name = Some (length (scns e))"
      "\<And>m. m \<noteq> name \<Longrightarrow> get_section_by_name e' m = get_section_by_name e m"
      "shstrndx e' = shstrndx e" "e_machine e' = e_machine e" "length (scns e') = length (scns e) + 1"
      "\<And>i. i < length (scns e) \<Longrightarrow> shstrndx e \<noteq> Some i \<Longrightarrow> scns e' ! i = scns e ! i"
      "sh_size (scns e' ! length (scns e)) = of_nat (length bytes)"
      "sh_entsize (scns e' ! length (scns e)) = of_nat n" "d_bufs (scns e' ! length (scns e)) = [Some bytes]"
    have "shstrndx e \<noteq> Some (length (scns e))" using assms(1) by (auto simp: wf_elf_def)
    then have "get_table e' name = Some (n, bytes)"
      using e' assms(4) by (simp add: get_table_def scn_table_single unat_of_nat take_bit_nat_eq_self)
    moreover have other: "get_table e' m = get_table e m" if "m \<noteq> name" for m
    proof (cases "get_section_by_name e m")
      case (Some i)
      then have "i < length (scns e)" by (simp add: get_section_by_name_Some [OF assms(1)])
      then show ?thesis using Some e'(4) [OF that] e'(5) e'(8) [of i] by (auto simp: get_table_def)
    qed (use e'(4) [OF that] in \<open>simp add: get_table_def\<close>)
    moreover have "room e' m k" if "m \<noteq> name" "room e m k" for m k
      using that other e'(4) [OF that(1)] by (simp add: room_def)
    ultimately show ?thesis using None e'(1,2,6) by (simp add: put_section_def)
  qed
next
  case (Some i)
  then obtain b where "get_table e name = Some (n, b)" using assms(3) by (auto simp: room_def)
  with assms(1) show ?thesis
  proof (rule update_table [where bytes = bytes, OF _ _ Some])
    fix e'
    assume "update_section e i (Some bytes) = (SUCCESS, e')" "wf_elf e'" "get_table e' name = Some (n, bytes)"
      "\<And>m. m \<noteq> name \<Longrightarrow> get_table e' m = get_table e m" "get_section_by_name e' = get_section_by_name e"
      "e_machine e' = e_machine e"
    then show ?thesis using Some by (intro exI [of _ e']) (auto simp: put_section_def room_def)
  qed
qed

interpretation elf_tables: table_store wf_elf good_name put_section get_table room e_machine
  by unfold_locales (rule put_section_ok)

section \<open>The layout of the new sections\<close>

text \<open>Each of the last \<open>n\<close> sections starts where the one before it ends, and the headers follow the last one.\<close>

definition laid_out :: "elf_file \<Rightarrow> nat \<Rightarrow> bool" where
  "laid_out e n \<longleftrightarrow>
     (\<forall>i \<in> {length (scns e) - n..<length (scns e)}.
        sh_offset (scns e ! i) = sh_offset (scns e ! (i - 1)) + sh_size (scns e ! (i - 1))) \<and>
     e_shoff e = sh_offset (last (scns e)) + sh_size (last (scns e))"

definition only_moved :: "elf_file \<Rightarrow> elf_file \<Rightarrow> bool" where
  "only_moved e e' \<longleftrightarrow> wf_elf e' \<and> get_section_by_name e' = get_section_by_name e \<and>
     shstrndx e' = shstrndx e \<and> e_machine e' = e_machine e \<and> can_write e' = can_write e \<and>
     length (scns e') = length (scns e) \<and>
     (\<forall>j<length (scns e). \<exists>off. scns e' ! j = (scns e ! j)\<lparr>sh_offset := off\<rparr>)"

lemma only_moved_tables: "only_moved e e' \<Longrightarrow> wf_elf e \<Longrightarrow> get_table e' = get_table e"
proof (rule ext)
  fix m assume m: "only_moved e e'" "wf_elf e"
  show "get_table e' m = get_table e m"
  proof (cases "get_section_by_name e m")
    case (Some i)
    then have "i < length (scns e)" by (simp add: get_section_by_name_Some [OF m(2)])
    then obtain off where "scns e' ! i = (scns e ! i)\<lparr>sh_offset := off\<rparr>" using m(1) by (auto simp: only_moved_def)
    then have "scn_table (scns e' ! i) = scn_table (scns e ! i)" by simp
    then show ?thesis using Some m(1) by (simp add: get_table_def only_moved_def)
  qed (use m(1) in \<open>simp add: get_table_def only_moved_def\<close>)
qed

lemma place_section_step:
  assumes "only_moved e d" "i < length (scns e)"
  shows "\<exists>d'. place_section i (d, cur) = Inr (d', cur + sh_size (scns e ! i)) \<and> only_moved e d' \<and>
           sh_offset (scns d' ! i) = cur \<and> (\<forall>j<length (scns e). j \<noteq> i \<longrightarrow> scns d' ! j = scns d ! j)"
proof -
  let ?s = "(scns d ! i)\<lparr>sh_offset := cur\<rparr>"
  have d: "wf_elf d" "length (scns d) = length (scns e)" using assms(1) by (auto simp: only_moved_def)
  have r: "readable (scns d ! i)" using d assms(2) by (auto simp: wf_elf_def)
  have w: "wf_elf (put_scn d i ?s)" "get_section_by_name (put_scn d i ?s) = get_section_by_name d"
    using put_scn_wf [OF d(1), of ?s i] r by simp_all
  obtain off where off: "scns d ! i = (scns e ! i)\<lparr>sh_offset := off\<rparr>" using assms by (auto simp: only_moved_def)
  have "only_moved e (put_scn d i ?s)"
    using assms w off unfolding only_moved_def by (auto simp: put_scn_def nth_list_update)
  then show ?thesis
    using d r off assms(2)
    by (intro exI [of _ "put_scn d i ?s"]) (simp add: place_section_def elf_getscn_def put_scn_def)
qed

lemma elf_strptr_shoff [simp]: "elf_strptr (d\<lparr>e_shoff := c\<rparr>) n off = elf_strptr d n off"
  by (simp add: elf_strptr_def elf_getscn_def)

lemma layout_ok:
  assumes wf: "wf_elf e"
  shows "\<exists>e'. layout_sections e 4 = (SUCCESS, e') \<and> only_moved e e' \<and> laid_out e' 4 \<and>
    (\<forall>j<length (scns e) - 4. scns e' ! j = scns e ! j)"
proof -
  let ?n = "length (scns e)" and ?scn = "scns e ! (length (scns e) - 5)"
  have e: "5 \<le> ?n" "readable ?scn" "can_write e" using wf by (auto simp: wf_elf_def)
  have "\<exists>off. s = s\<lparr>sh_offset := off\<rparr>" for s :: elf_scn by (rule exI [of _ "sh_offset s"]) simp
  then have moved: "only_moved e e" using wf unfolding only_moved_def by blast
  define P where "P i s \<longleftrightarrow> (case s of (d, cur) \<Rightarrow>
      only_moved e d \<and> (\<forall>j<?n - 4. scns d ! j = scns e ! j) \<and> cur = sh_offset (scns d ! (i - 1)) + sh_size (scns d ! (i - 1)) \<and>
      (\<forall>j \<in> {?n - 4..<i}. sh_offset (scns d ! j) = sh_offset (scns d ! (j - 1)) + sh_size (scns d ! (j - 1))))"
    for i and s :: "elf_file \<times> u64"
  have "\<exists>t. for_loop (?n - 4) ?n place_section (e, sh_offset ?scn + sh_size ?scn) = Inr t \<and> P ?n t"
  proof (rule for_loop_total)
    show "P (?n - 4) (e, sh_offset ?scn + sh_size ?scn)" using moved by (simp add: P_def)
    fix i s assume i: "?n - 4 \<le> i" "i < ?n" and "P i s"
    then obtain d cur where s: "s = (d, cur)" "only_moved e d"
      "\<forall>j<?n - 4. scns d ! j = scns e ! j"
      "cur = sh_offset (scns d ! (i - 1)) + sh_size (scns d ! (i - 1))"
      "\<forall>j \<in> {?n - 4..<i}. sh_offset (scns d ! j) = sh_offset (scns d ! (j - 1)) + sh_size (scns d ! (j - 1))"
      by (auto simp: P_def)
    obtain d' where d': "place_section i (d, cur) = Inr (d', cur + sh_size (scns e ! i))" "only_moved e d'"
      "sh_offset (scns d' ! i) = cur" "\<forall>j<?n. j \<noteq> i \<longrightarrow> scns d' ! j = scns d ! j"
      using place_section_step [OF s(2) i(2)] by blast
    have "sh_size (scns d' ! i) = sh_size (scns e ! i)" using d'(2) i(2) by (auto simp: only_moved_def)
    then have "P (Suc i) (d', cur + sh_size (scns e ! i))"
      using s d' i e(1) unfolding P_def by (auto simp: less_Suc_eq)
    then show "\<exists>s'. place_section i s = Inr s' \<and> P (Suc i) s'" using d'(1) s(1) by blast
  qed simp
  then obtain d cur where d: "for_loop (?n - 4) ?n place_section (e, sh_offset ?scn + sh_size ?scn) = Inr (d, cur)"
    "P ?n (d, cur)" by (cases rule: exE) auto
  let ?e = "d\<lparr>e_shoff := cur\<rparr>"
  have m: "only_moved e d" "length (scns d) = ?n" using d(2) by (auto simp: P_def only_moved_def)
  have w: "wf_elf ?e = wf_elf d" by (simp add: wf_elf_def)
  have g: "get_section_by_name ?e = get_section_by_name d" if "wf_elf d"
    by (rule ext, rule get_section_by_name_cong [OF that]) (use w that in \<open>simp_all add: scn_name_def split: option.splits\<close>)
  have "only_moved e ?e" using m(1) w g by (simp add: only_moved_def)
  moreover have "last (scns d) = scns d ! (?n - 1)"
    using m(2) e(1) last_conv_nth [of "scns d"] by (cases "scns d = []") auto
  then have "laid_out ?e 4"
    using d(2) m e(1) by (auto simp: laid_out_def P_def)
  moreover have "\<forall>j<?n - 4. scns d ! j = scns e ! j" using d(2) by (simp add: P_def)
  ultimately show ?thesis
    using d(1) e m(1) by (intro exI [of _ ?e]) (simp add: layout_sections_def Let_def only_moved_def)
qed

section \<open>What the run-time library sees\<close>

definition view_section :: "elf_file \<Rightarrow> elf_scn \<Rightarrow> elf_section" where
  "view_section e s = \<lparr>sec_name = scn_name e s,
     sec_shdr = (if readable s then Some (sh_size s, sh_entsize s) else None), sec_data = elf_getdata s\<rparr>"

text \<open>The library's answers about an open binary are those of this file.\<close>

definition sees :: "elf_lib \<Rightarrow> nat \<Rightarrow> elf_file \<Rightarrow> bool" where
  "sees lib d e \<longleftrightarrow> lib_machine lib d = Some (e_machine e) \<and> lib_class lib d = Some 2 \<and>
     lib_shdrstrndx lib d = shstrndx e \<and> lib_sections lib d = map (view_section e) (tl (scns e))"

lemma find_section_view:
  assumes "\<forall>s \<in> set ss. readable s" "shstrndx e = Some ndx"
  shows "find_section name (map (view_section e) ss) =
    (case find_by_name e ndx name i ss of None \<Rightarrow> None | Some j \<Rightarrow> Some (view_section e (ss ! (j - i))))"
  using assms(1)
proof (induction ss arbitrary: i)
  case Nil
  then show ?case by simp
next
  case (Cons s ss)
  have "find_by_name e ndx name (Suc i) ss = Some j \<Longrightarrow> Suc i \<le> j" for j
    using Cons.prems by (auto simp: find_by_name_iff split: option.splits)
  then show ?case
    using Cons.IH [of "Suc i"] Cons.prems assms(2)
    by (auto simp: view_section_def scn_name_def nth_Cons' Suc_diff_le split: option.splits)
qed

lemma holds_view:
  assumes wf: "wf_elf e" and lib: "sees lib d e" and t: "get_table e name = Some (n, concat (map enc rs))"
    and len: "\<And>r. length (enc r) = n" and small: "length rs * n < 2 ^ 64" "n < 2 ^ 64"
  shows "holds lib d name n enc rs"
proof -
  obtain i where i: "get_section_by_name e name = Some i" "i < length (scns e)" "0 < i" "readable (scns e ! i)"
    "d_bufs (scns e ! i) = [Some (concat (map enc rs))]" "sh_size (scns e ! i) = of_nat (length (concat (map enc rs)))"
    "n = unat (sh_entsize (scns e ! i))"
    by (rule get_tableE [OF t wf]) blast
  obtain ndx where ndx: "shstrndx e = Some ndx" using wf by (auto simp: wf_elf_def)
  have r: "\<forall>s \<in> set (tl (scns e)). readable s" using wf by (auto simp: wf_elf_def dest: set_tl)
  have "find_by_name e ndx name 1 (tl (scns e)) = Some i" using i(1) ndx by (simp add: get_section_by_name_def)
  then have f: "find_section name (lib_sections lib d) = Some (view_section e (scns e ! i))"
    using find_section_view [OF r ndx, of name 1] lib i(2,3) by (simp add: sees_def nth_tl)
  have l: "length (concat (map enc rs)) = length rs * n" using len by (induction rs) simp_all
  have "sh_entsize (scns e ! i) = of_nat n" using i(7) by simp
  then show ?thesis
    using f i l ndx lib small by (auto simp: holds_def sees_def view_section_def elf_getdata_def)
qed

text \<open>
  Only the new sections are laid out. The table of names grows with every section that is added but stays where it is, so in a file
  where another section follows it directly, the two overlap.
\<close>

theorem name_table_runs_into_next:
  assumes "shstrndx e = Some ndx" "ndx + 1 < length (scns e)" "readable (scns e ! ndx)" "d_bufs (scns e ! ndx) = [Some tab]"
    and "tab \<noteq> []" "length name < TOOL_BUF_SIZE" "can_add e"
    and "unat (sh_offset (scns e ! ndx)) + length tab + length name + 1 < 2 ^ 64"
    and "sh_offset (scns e ! (ndx + 1)) = sh_offset (scns e ! ndx) + of_nat (length tab)"
  shows "\<exists>e'. add_section e name n (Some bytes) = Inr (SUCCESS, e') \<and>
    unat (sh_offset (scns e' ! (ndx + 1))) < unat (sh_offset (scns e' ! ndx)) + unat (sh_size (scns e' ! ndx))"
proof -
  let ?tab = "tab @ take (min (length name) TOOL_BUF_SIZE) (chars name) @ [0]"
  have l: "length (chars name) = length name" "min (length name) TOOL_BUF_SIZE = length name"
    using assms(6) by (simp_all add: chars_def)
  have n: "unat (of_nat (length tab) :: u64) = length tab"
    "unat (of_nat (length tab + length name + 1) :: u64) = length tab + length name + 1"
    using assms(8) by (simp_all only: unat_of_nat take_bit_nat_eq_self_iff) auto
  have off: "unat (sh_offset (scns e ! ndx) + of_nat (length tab)) = unat (sh_offset (scns e ! ndx)) + length tab"
    using assms(8) n(1) by (subst unat_add_lem [THEN iffD1]) simp_all
  define scn where "scn = (scns e ! ndx)\<lparr>d_bufs := [Some ?tab], sh_size := of_nat (length tab + length name + 1)\<rparr>"
  define new where "new = \<lparr>readable = True, sh_name = length tab, sh_type = SHT_PROGBITS, sh_offset = 0,
    sh_size = of_nat (length bytes), sh_entsize = of_nat n, d_bufs = [Some bytes]\<rparr>"
  have run: "add_section e name n (Some bytes) = Inr (SUCCESS, e\<lparr>scns := (scns e)[ndx := scn] @ [new]\<rparr>)"
    using assms(1-5,7) l by (simp add: add_section_def add_section_name_def elf_getscn_def put_scn_def Let_def
        scn_def new_def add_ac)
  show ?thesis
    unfolding run using assms(2,9) off n(2) by (simp add: nth_append scn_def)
qed

end

