(* ===== verification/Stackmap_Correct.thy ===== *)
theory Stackmap_Correct
  imports Stackmap
begin

text \<open>
  Reading stack maps back: what the compiler lays out in the section, and that both scans of
  \<open>tool/stack_metadata/src/stackmap.c\<close> recover it.
\<close>

section \<open>What the compiler writes\<close>

definition encode_function_record :: "function_record \<Rightarrow> u8 list" where
  "encode_function_record r = bytes_of 8 (func_addr r) @ bytes_of 8 (stack_size r) @
     bytes_of 8 (record_count r) @ bytes_of 4 (fr_num_unwind r) @ bytes_of 4 (fr_unwind_offset r)"

definition encode_live_out :: "live_out_record \<Rightarrow> u8 list" where
  "encode_live_out r = bytes_of 2 (lo_regnum r) @ bytes_of 1 (lo_reserved r) @ bytes_of 1 (lo_size r)"

interpretation function_record_packed: packed encode_function_record decode_function_record 32
  by unfold_locales
    (simp_all add: encode_function_record_def decode_function_record_def Let_def word_of_bytes_of)

lemma length_live_out [simp]: "length (encode_live_out r) = 4"
  by (simp add: encode_live_out_def)

text \<open>A call site and a module as the compiler describes them.\<close>

record site_map =
  m_id :: u64
  m_func :: u32
  m_offset :: u32
  m_reserved :: u16
  m_locations :: "live_value list"
  m_pad :: u16
  m_live_outs :: "live_out_record list"
  m_pad2 :: u16
  m_archs :: "arch_live_value list"

record module_map =
  mm_version :: u8
  mm_reserved :: u8
  mm_reserved2 :: u16
  mm_functions :: "function_record list"
  mm_constants :: "u64 list"
  mm_sites :: "site_map list"

definition pad8 :: "u8 list \<Rightarrow> u8 list" where
  "pad8 bs = bs @ replicate ((8 - length bs mod 8) mod 8) 0"

definition encode_site :: "site_map \<Rightarrow> u8 list" where
  "encode_site s = pad8
     (bytes_of 8 (m_id s) @ bytes_of 4 (m_func s) @ bytes_of 4 (m_offset s) @ bytes_of 2 (m_reserved s) @
      bytes_of 2 (of_nat (length (m_locations s)) :: u16) @ concat (map encode_live_value (m_locations s)) @
      bytes_of 2 (m_pad s) @
      bytes_of 2 (of_nat (length (m_live_outs s)) :: u16) @ concat (map encode_live_out (m_live_outs s)) @
      bytes_of 2 (m_pad2 s) @
      bytes_of 2 (of_nat (length (m_archs s)) :: u16) @ concat (map encode_arch_live_value (m_archs s)))"

definition encode_module :: "module_map \<Rightarrow> u8 list" where
  "encode_module m =
     bytes_of 1 (mm_version m) @ bytes_of 1 (mm_reserved m) @ bytes_of 2 (mm_reserved2 m) @
     bytes_of 4 (of_nat (length (mm_functions m)) :: u32) @ bytes_of 4 (of_nat (length (mm_constants m)) :: u32) @
     bytes_of 4 (of_nat (length (mm_sites m)) :: u32) @
     concat (map encode_function_record (mm_functions m)) @ concat (map (bytes_of 8) (mm_constants m)) @
     concat (map encode_site (mm_sites m))"

text \<open>The counts fit their fields.\<close>

definition site_fits :: "site_map \<Rightarrow> bool" where
  "site_fits s \<longleftrightarrow> length (m_locations s) < 2 ^ 16 \<and> length (m_live_outs s) < 2 ^ 16 \<and> length (m_archs s) < 2 ^ 16"

definition module_fits :: "module_map \<Rightarrow> bool" where
  "module_fits m \<longleftrightarrow> length (mm_functions m) < 2 ^ 32 \<and> length (mm_constants m) < 2 ^ 32 \<and>
     length (mm_sites m) < 2 ^ 32 \<and> (\<forall>s \<in> set (mm_sites m). site_fits s)"

section \<open>Blocks of a section\<close>

text \<open>\<open>block_at bs off x\<close>: the bytes \<open>x\<close> lie at the offset \<open>off\<close>.\<close>

definition block_at :: "u8 list \<Rightarrow> nat \<Rightarrow> u8 list \<Rightarrow> bool" where
  "block_at bs off x \<longleftrightarrow> slice bs off (length x) = Inr x"

lemma block_atI: "off = length pre \<Longrightarrow> block_at (pre @ x @ post) off x"
  by (simp add: block_at_def slice_def)

lemma block_at_whole [simp]: "block_at bs 0 bs"
  using block_atI [of 0 "[]" bs "[]"] by simp

lemma block_at_append:
  "block_at bs off (x @ y) \<longleftrightarrow> block_at bs off x \<and> block_at bs (off + length x) y"
  by (auto simp: block_at_def slice_def take_add drop_drop add.commute split: if_splits)

lemma slice_block: "block_at bs off x \<Longrightarrow> n = length x \<Longrightarrow> slice bs off n = Inr x"
  by (simp add: block_at_def)

lemma get16_block: "block_at bs off (bytes_of 2 (w :: u16)) \<Longrightarrow> get16 bs off = Inr w"
  by (simp add: get16_def slice_block word_of_bytes_of)

lemma length_concat_enc:
  "(\<And>x. x \<in> set xs \<Longrightarrow> length (enc x) = n) \<Longrightarrow> length (concat (map enc xs)) = n * length xs"
  by (induction xs) simp_all

lemma length_encs [simp]:
  "length (concat (map encode_live_value ls)) = 12 * length ls"
  "length (concat (map encode_live_out os)) = 4 * length os"
  "length (concat (map encode_arch_live_value as)) = 20 * length as"
  "length (concat (map encode_function_record fs)) = 32 * length fs"
  "length (concat (map (bytes_of 8) (cs :: u64 list))) = 8 * length cs"
  by (rule length_concat_enc,
      simp add: live_value_packed.length_enc arch_live_value_packed.length_enc function_record_packed.length_enc)+

lemma block_at_nth:
  assumes "block_at bs off (concat (map enc xs))" "\<And>x. x \<in> set xs \<Longrightarrow> length (enc x) = n" "i < length xs"
  shows "block_at bs (off + n * i) (enc (xs ! i))"
proof -
  have "concat (map enc xs) = concat (map enc (take i xs)) @ enc (xs ! i) @ concat (map enc (drop (Suc i) xs))"
    using assms(3) by (subst id_take_nth_drop [of i xs]) auto
  moreover have "length (concat (map enc (take i xs))) = n * i"
    using assms(2,3) length_concat_enc [of "take i xs" enc n] by (auto dest: in_set_takeD)
  ultimately show ?thesis using assms(1) by (simp add: block_at_append)
qed

lemma unat_of_nat_u16 [simp]: "n < 2 ^ 16 \<Longrightarrow> unat (of_nat n :: u16) = n"
  and unat_of_nat_u32 [simp]: "n < 2 ^ 32 \<Longrightarrow> unat (of_nat n :: u32) = n"
  by (simp_all add: unat_of_nat take_bit_nat_eq_self)

section \<open>One record\<close>

lemma length_pad8: "length (pad8 bs) = align8 0 (length bs)"
proof -
  have "length bs mod 8 < 8" by simp
  then have "(8 - length bs mod 8) mod 8 = (if length bs mod 8 \<noteq> 0 then 8 - length bs mod 8 else 0)" by simp
  then show ?thesis by (simp add: pad8_def align8_def)
qed

lemma align8_dvd: "8 dvd base + align8 base n"
proof -
  define k where "k = base + n"
  have "8 dvd k + (8 - k mod 8)" if "k mod 8 \<noteq> 0"
    using that by presburger
  then show ?thesis unfolding align8_def k_def [symmetric]
    by (auto simp: k_def add.assoc [symmetric])
qed

lemma pad8_dvd: "8 dvd length (pad8 bs)"
  using align8_dvd [of 0 "length bs"] by (simp add: length_pad8)

lemma align8_plus:
  assumes "8 dvd base + raw" "x = raw + n"
  shows "align8 base x = raw + align8 0 n"
proof -
  obtain k where "base + raw = 8 * k" using assms(1) by (rule dvdE)
  then have "base + (raw + n) = 8 * k + n" by simp
  then have "(base + (raw + n)) mod 8 = n mod 8" by presburger
  then show ?thesis using assms(2) by (simp add: align8_def add.assoc)
qed

text \<open>What a record read from the section says about the call site it was made from.\<close>

definition reads_site :: "u8 list \<Rightarrow> call_site_record \<Rightarrow> site_map \<Rightarrow> bool" where
  "reads_site bs r s \<longleftrightarrow>
     sr_id r = m_id s \<and> func_idx r = m_func s \<and> sr_offset r = m_offset s \<and> sr_reserved r = m_reserved s \<and>
     num_locations r = of_nat (length (m_locations s)) \<and>
     block_at bs (locations r) (concat (map encode_live_value (m_locations s))) \<and>
     num_live_outs r = of_nat (length (m_live_outs s)) \<and>
     block_at bs (live_outs r) (concat (map encode_live_out (m_live_outs s))) \<and>
     sr_num_arch_live r = of_nat (length (m_archs s)) \<and>
     block_at bs (sr_arch_live r) (concat (map encode_arch_live_value (m_archs s)))"

lemma record_blocks:
  assumes "block_at bs raw (encode_site s)" "site_fits s"
  defines "n1 \<equiv> length (m_locations s)" and "n2 \<equiv> length (m_live_outs s)" and "n3 \<equiv> length (m_archs s)"
  shows "slice bs raw 18 = Inr (bytes_of 8 (m_id s) @ bytes_of 4 (m_func s) @ bytes_of 4 (m_offset s) @
           bytes_of 2 (m_reserved s))"
    and "get16 bs (raw + 18) = Inr (of_nat n1)"
    and "block_at bs (raw + 20) (concat (map encode_live_value (m_locations s)))"
    and "get16 bs (raw + 22 + 12 * n1) = Inr (of_nat n2)"
    and "block_at bs (raw + 24 + 12 * n1) (concat (map encode_live_out (m_live_outs s)))"
    and "get16 bs (raw + 26 + 12 * n1 + 4 * n2) = Inr (of_nat n3)"
    and "block_at bs (raw + 28 + 12 * n1 + 4 * n2) (concat (map encode_arch_live_value (m_archs s)))"
    and "length (encode_site s) = align8 0 (28 + 12 * n1 + 4 * n2 + 20 * n3)"
proof -
  note b = assms(1) [unfolded encode_site_def pad8_def]
  have "block_at bs raw (bytes_of 8 (m_id s) @ bytes_of 4 (m_func s) @ bytes_of 4 (m_offset s) @
           bytes_of 2 (m_reserved s))"
    using b by (simp add: block_at_append)
  then show "slice bs raw 18 = Inr (bytes_of 8 (m_id s) @ bytes_of 4 (m_func s) @ bytes_of 4 (m_offset s) @
           bytes_of 2 (m_reserved s))" by (rule slice_block) simp
  show "length (encode_site s) = align8 0 (28 + 12 * n1 + 4 * n2 + 20 * n3)"
    by (simp add: encode_site_def length_pad8 n1_def n2_def n3_def add_ac)
qed (use assms(1) in \<open>auto simp: encode_site_def pad8_def block_at_append n1_def n2_def n3_def add_ac
  intro!: get16_block\<close>)

lemma skip_site:
  assumes "block_at bs raw (encode_site s)" "site_fits s" "8 dvd base + raw"
  shows "skip_record base bs raw = Inr (raw + length (encode_site s))"
proof -
  note r = record_blocks [OF assms(1,2)] and f = assms(2) [unfolded site_fits_def]
  show ?thesis
    using r(2,4,6,8) f by (auto simp: skip_record_def Let_def add_ac intro!: align8_plus [OF assms(3)])
qed

lemma read_site:
  assumes "block_at bs raw (encode_site s)" "site_fits s" "8 dvd base + raw"
  shows "\<exists>r. read_record base bs raw = Inr (r, raw + length (encode_site s)) \<and> reads_site bs r s"
proof -
  note r = record_blocks [OF assms(1,2)] and f = assms(2) [unfolded site_fits_def]
  show ?thesis
    using r f by (auto simp: read_record_def Let_def add_ac reads_site_def word_of_bytes_of
        intro!: align8_plus [OF assms(3)])
qed

section \<open>The loops over records\<close>

lemma block_at_concat:
  assumes "block_at bs off (concat (map enc xs))" "i < length xs"
  shows "block_at bs (off + length (concat (map enc (take i xs)))) (enc (xs ! i))"
proof -
  have "concat (map enc xs) = concat (map enc (take i xs)) @ enc (xs ! i) @ concat (map enc (drop (Suc i) xs))"
    using assms(2) by (subst id_take_nth_drop [of i xs]) auto
  then show ?thesis using assms(1) by (simp add: block_at_append)
qed

lemma length_take_Suc:
  "i < length xs \<Longrightarrow>
   length (concat (map enc (take (Suc i) xs))) = length (concat (map enc (take i xs))) + length (enc (xs ! i))"
  by (simp add: take_Suc_conv_app_nth)

lemma dvd_concat:
  assumes "\<And>x. x \<in> set xs \<Longrightarrow> 8 dvd length (enc x)"
  shows "8 dvd length (concat (map enc xs))"
  using assms by (induction xs) auto

lemma dvd_site [simp]: "8 dvd length (encode_site s)"
  unfolding encode_site_def by (rule pad8_dvd)

text \<open>The places where the records of a stack map start; both loops visit these.\<close>

abbreviation (input) site_start :: "nat \<Rightarrow> site_map list \<Rightarrow> nat \<Rightarrow> nat" where
  "site_start raw ss i \<equiv> raw + length (concat (map encode_site (take i ss)))"

definition sites_at :: "nat \<Rightarrow> u8 list \<Rightarrow> nat \<Rightarrow> site_map list \<Rightarrow> bool" where
  "sites_at base bs raw ss \<longleftrightarrow>
     block_at bs raw (concat (map encode_site ss)) \<and> (\<forall>s \<in> set ss. site_fits s) \<and> 8 dvd base + raw"

lemma site_at:
  assumes "sites_at base bs raw ss" "i < length ss"
  shows "block_at bs (site_start raw ss i) (encode_site (ss ! i))" "site_fits (ss ! i)"
    "8 dvd base + site_start raw ss i"
proof -
  note a = assms(1) [unfolded sites_at_def]
  show "block_at bs (site_start raw ss i) (encode_site (ss ! i))"
    using a assms(2) by (intro block_at_concat) simp_all
  show "site_fits (ss ! i)" using a assms(2) by simp
  have "8 dvd length (concat (map encode_site (take i ss)))" by (rule dvd_concat) simp
  then show "8 dvd base + site_start raw ss i" using a by (simp add: add.assoc [symmetric])
qed

lemma skip_sites:
  assumes "sites_at base bs raw ss"
  shows "for_loop 0 (length ss) (\<lambda>i. skip_record base bs) raw = Inr (site_start raw ss (length ss))"
proof -
  have "\<exists>t. for_loop 0 (length ss) (\<lambda>i. skip_record base bs) raw = Inr t \<and> t = site_start raw ss (length ss)"
    by (rule for_loop_total [where P = "\<lambda>i t. t = site_start raw ss i"])
      (simp_all add: skip_site [OF site_at [OF assms]] length_take_Suc)
  then show ?thesis by simp
qed

lemma read_sites_loop:
  assumes "sites_at base bs raw ss"
  shows "\<exists>rs. for_loop 0 (length ss)
      (\<lambda>i (end, recs). bindE (read_record base bs end) (\<lambda>(r, end). Inr (end, recs @ [r]))) (raw, []) =
        Inr (site_start raw ss (length ss), rs) \<and> list_all2 (reads_site bs) rs ss"
proof -
  let ?f = "\<lambda>i (end, recs). bindE (read_record base bs end) (\<lambda>(r, end). Inr (end, recs @ [r]))"
  let ?P = "\<lambda>i (end, rs). end = site_start raw ss i \<and> list_all2 (reads_site bs) rs (take i ss)"
  have "\<exists>t. for_loop 0 (length ss) ?f (raw, []) = Inr t \<and> ?P (length ss) t"
  proof (rule for_loop_total [where P = ?P])
    fix i and t :: "nat \<times> call_site_record list"
    assume i: "i < length ss" and P: "?P i t"
    obtain r where r: "read_record base bs (site_start raw ss i) =
        Inr (r, site_start raw ss i + length (encode_site (ss ! i)))" "reads_site bs r (ss ! i)"
      using read_site [OF site_at [OF assms i]] by blast
    then show "\<exists>t'. ?f i t = Inr t' \<and> ?P (Suc i) t'"
      using P i by (cases t) (auto simp: take_Suc_conv_app_nth intro!: list_all2_appendI)
  qed auto
  then show ?thesis by auto
qed

section \<open>Whole stack maps\<close>

text \<open>What a stack map read from the section says about the module it was made from.\<close>

definition reads_module :: "u8 list \<Rightarrow> stack_map_section \<Rightarrow> module_map \<Rightarrow> bool" where
  "reads_module bs sm m \<longleftrightarrow>
     sm_version sm = mm_version m \<and> sm_reserved sm = mm_reserved m \<and> sm_reserved2 sm = mm_reserved2 m \<and>
     unat (num_functions sm) = length (mm_functions m) \<and>
     (\<forall>i<length (mm_functions m). function_record_at bs sm i = Inr (mm_functions m ! i)) \<and>
     unat (num_constants sm) = length (mm_constants m) \<and>
     block_at bs (constants sm) (concat (map (bytes_of 8) (mm_constants m))) \<and>
     unat (num_records sm) = length (mm_sites m) \<and> list_all2 (reads_site bs) (call_sites sm) (mm_sites m)"

lemma module_blocks:
  assumes "block_at bs off (encode_module m)" "module_fits m" "8 dvd base + off"
  defines "n1 \<equiv> length (mm_functions m)" and "n2 \<equiv> length (mm_constants m)"
  shows "read_header bs off = Inr \<lparr>sm_version = mm_version m, sm_reserved = mm_reserved m,
           sm_reserved2 = mm_reserved2 m, num_functions = of_nat n1, num_constants = of_nat n2,
           num_records = of_nat (length (mm_sites m)), function_records = 0, constants = 0, call_sites = []\<rparr>"
    and "block_at bs (off + 16) (concat (map encode_function_record (mm_functions m)))"
    and "block_at bs (off + 16 + 32 * n1) (concat (map (bytes_of 8) (mm_constants m)))"
    and "sites_at base bs (off + 16 + 32 * n1 + 8 * n2) (mm_sites m)"
    and "length (encode_module m) = 16 + 32 * n1 + 8 * n2 + length (concat (map encode_site (mm_sites m)))"
proof -
  note b = assms(1) [unfolded encode_module_def block_at_append, folded n1_def n2_def]
  define hd where "hd = bytes_of 1 (mm_version m) @ bytes_of 1 (mm_reserved m) @ bytes_of 2 (mm_reserved2 m) @
     bytes_of 4 (of_nat n1 :: u32) @ bytes_of 4 (of_nat n2 :: u32) @ bytes_of 4 (of_nat (length (mm_sites m)) :: u32)"
  have enc: "encode_module m = hd @ concat (map encode_function_record (mm_functions m)) @
      concat (map (bytes_of 8) (mm_constants m)) @ concat (map encode_site (mm_sites m))"
    by (simp add: encode_module_def hd_def n1_def n2_def)
  have len: "length hd = 16" by (simp add: hd_def)
  have "block_at bs off hd" using assms(1) enc by (simp only: block_at_append)
  from slice_block [OF this, of 16] show "read_header bs off = Inr \<lparr>sm_version = mm_version m, sm_reserved = mm_reserved m,
           sm_reserved2 = mm_reserved2 m, num_functions = of_nat n1, num_constants = of_nat n2,
           num_records = of_nat (length (mm_sites m)), function_records = 0, constants = 0, call_sites = []\<rparr>"
    by (simp add: read_header_def Let_def word_of_bytes_of hd_def)
  have "8 dvd base + (off + 16 + 32 * n1 + 8 * n2)" using assms(3) by presburger
  then show "sites_at base bs (off + 16 + 32 * n1 + 8 * n2) (mm_sites m)"
    using b assms(2) by (simp add: sites_at_def module_fits_def n1_def n2_def add_ac)
  show "length (encode_module m) = 16 + 32 * n1 + 8 * n2 + length (concat (map encode_site (mm_sites m)))"
    by (simp add: encode_module_def n1_def n2_def)
  show "block_at bs (off + 16) (concat (map encode_function_record (mm_functions m)))"
    "block_at bs (off + 16 + 32 * n1) (concat (map (bytes_of 8) (mm_constants m)))"
    using assms(1) len by (simp_all add: enc block_at_append n1_def add.assoc)
qed

lemma dvd_module [simp]: "8 dvd length (encode_module m)"
proof -
  have "8 dvd length (concat (map encode_site (mm_sites m)))" by (rule dvd_concat) simp
  then show ?thesis by (simp add: encode_module_def)
qed

lemma length_module_pos: "16 \<le> length (encode_module m)"
  by (simp add: encode_module_def)

lemma records_size:
  assumes "sites_at base bs raw ss" "length ss < 2 ^ 32"
  shows "stackmap_records_size base bs raw (of_nat (length ss)) = Inr (length (concat (map encode_site ss)))"
  using skip_sites [OF assms(1)] assms(2) by (simp add: stackmap_records_size_def)

lemma read_stackmap_module:
  assumes "block_at bs off (encode_module m)" "module_fits m" "8 dvd base + off"
  shows "\<exists>sm. read_stackmap base bs off = Inr (off + length (encode_module m), sm) \<and> reads_module bs sm m"
proof -
  note b = module_blocks [OF assms] and f = assms(2) [unfolded module_fits_def]
  obtain rs where rs: "list_all2 (reads_site bs) rs (mm_sites m)"
    "for_loop 0 (length (mm_sites m))
      (\<lambda>i (end, recs). bindE (read_record base bs end) (\<lambda>(r, end). Inr (end, recs @ [r])))
      (off + 16 + 32 * length (mm_functions m) + 8 * length (mm_constants m), []) =
     Inr (site_start (off + 16 + 32 * length (mm_functions m) + 8 * length (mm_constants m))
            (mm_sites m) (length (mm_sites m)), rs)"
    using read_sites_loop [OF b(4)] by blast
  have "function_record_at bs sm i = Inr (mm_functions m ! i)"
    if "i < length (mm_functions m)" "function_records sm = off + 16" for sm i
    using block_at_nth [OF b(2) _ that(1), of 32] that(2)
    by (simp add: function_record_at_def slice_block function_record_packed.length_enc function_record_packed.dec_enc)
  then show ?thesis
    using b(1,3,5) f rs
    by (simp add: read_stackmap_def read_stackmap_records_def Let_def reads_module_def add_ac)
qed

lemma count_modules:
  assumes "block_at bs off (concat (map encode_module ms))" "\<forall>m \<in> set ms. module_fits m" "8 dvd base + off"
    and "sz = off + length (concat (map encode_module ms))"
  shows "count_stackmaps base bs sz off num = Inr (num + length ms)"
  using assms
proof (induction ms arbitrary: off num)
  case Nil
  then show ?case by (simp add: count_stackmaps.simps)
next
  case (Cons m ms)
  have b: "block_at bs off (encode_module m)"
    "block_at bs (off + length (encode_module m)) (concat (map encode_module ms))"
    using Cons.prems(1) by (simp_all add: block_at_append)
  have f: "module_fits m" "length (mm_functions m) < 2 ^ 32" "length (mm_constants m) < 2 ^ 32"
    "length (mm_sites m) < 2 ^ 32"
    using Cons.prems(2) by (auto simp: module_fits_def)
  note mb = module_blocks [OF b(1) f(1) Cons.prems(3)]
  have "8 dvd base + (off + length (encode_module m))"
    using Cons.prems(3) dvd_module [of m] by (simp add: add.assoc [symmetric])
  then have "count_stackmaps base bs sz (off + length (encode_module m)) (num + 1) = Inr (num + 1 + length ms)"
    using Cons.prems b by (intro Cons.IH) simp_all
  moreover have "off < sz"
  proof -
    have "16 \<le> length (concat (map encode_module (m # ms)))"
      using length_module_pos [of m] by (simp only: list.map concat.simps length_append)
    then show ?thesis using Cons.prems(4) by linarith
  qed
  ultimately show ?case
    using mb(1,5) records_size [OF mb(4) f(4)] f
    by (subst count_stackmaps.simps) (simp add: Let_def add_ac)
qed

lemma read_stackmaps_modules:
  assumes "\<forall>m \<in> set ms. module_fits m" "8 dvd base"
  defines "bs \<equiv> concat (map encode_module ms)"
  shows "\<exists>sms. read_stackmaps base bs (length bs) = Inr sms \<and> list_all2 (reads_module bs) sms ms"
proof -
  have cnt: "count_stackmaps base bs (length bs) 0 0 = Inr (length ms)"
    using count_modules [of bs 0 ms base "length bs" 0] assms by simp
  let ?f = "\<lambda>i (offset, sms). bindE (read_stackmap base bs offset) (\<lambda>(offset, sm). Inr (offset, sms @ [sm]))"
  let ?P = "\<lambda>i (offset, sms). offset = length (concat (map encode_module (take i ms))) \<and>
    list_all2 (reads_module bs) sms (take i ms)"
  have "\<exists>t. for_loop 0 (length ms) ?f (0, []) = Inr t \<and> ?P (length ms) t"
  proof (rule for_loop_total [where P = ?P])
    fix i and t :: "nat \<times> stack_map_section list"
    assume i: "i < length ms" and P: "?P i t"
    let ?o = "length (concat (map encode_module (take i ms)))"
    have "block_at bs ?o (encode_module (ms ! i))"
      using block_at_concat [of bs 0 encode_module ms i] i by (simp add: bs_def)
    moreover have "8 dvd base + ?o" using assms(2) dvd_concat [of "take i ms" encode_module] by simp
    ultimately obtain sm where "read_stackmap base bs ?o = Inr (?o + length (encode_module (ms ! i)), sm)"
      "reads_module bs sm (ms ! i)"
      using read_stackmap_module assms(1) i by (meson nth_mem)
    then show "\<exists>t'. ?f i t = Inr t' \<and> ?P (Suc i) t'"
      using P i by (cases t) (auto simp: take_Suc_conv_app_nth intro!: list_all2_appendI)
  qed auto
  then show ?thesis using cnt by (auto simp: read_stackmaps_def)
qed

text \<open>
  C13: Reading the stack maps of a binary gives back what the compiler wrote. When the section holds the stack
  maps of some modules one after the other, with each record padded to a multiple of eight bytes, and its data starts at such
  an address, then the two scans agree: the first counts the modules, and the second returns one stack map per module,
  with the header, every function record, the constants and every call site as written, and with pointers at the arrays of
  live values, live-out registers and architecture-specific values of the call site.
\<close>

theorem read_stackmaps_round_trip:
  assumes "\<forall>m \<in> set ms. module_fits m" "8 dvd base"
  defines "bs \<equiv> concat (map encode_module ms)"
  shows "\<exists>sms. read_stackmaps base bs (length bs) = Inr sms \<and> list_all2 (reads_module bs) sms ms"
  unfolding bs_def by (rule read_stackmaps_modules [OF assms(1,2)])

definition example_module :: module_map where
  "example_module = \<lparr>mm_version = 2, mm_reserved = 0, mm_reserved2 = 0,
     mm_functions = [\<lparr>func_addr = 0x400000, stack_size = 24, record_count = 1, fr_num_unwind = 1, fr_unwind_offset = 0\<rparr>],
     mm_constants = [7],
     mm_sites = [\<lparr>m_id = 3, m_func = 0, m_offset = 20, m_reserved = 0, m_locations = [], m_pad = 0,
       m_live_outs = [], m_pad2 = 0, m_archs = []\<rparr>]\<rparr>"

theorem read_stackmaps_round_trip_witness:
  "\<exists>sm. read_stackmaps 4096 (encode_module example_module) (length (encode_module example_module)) = Inr [sm] \<and>
     function_record_at (encode_module example_module) sm 0 = Inr (mm_functions example_module ! 0) \<and>
     sr_offset (call_sites sm ! 0) = 20"
  using read_stackmaps_round_trip [of "[example_module]" 4096]
  by (auto simp: module_fits_def site_fits_def example_module_def list_all2_Cons2 reads_module_def reads_site_def)

end
