(* ===== verification/Stack_Metadata_Correct.thy ===== *)
theory Stack_Metadata_Correct
  imports Elf_Sections Stackmap_Correct Unwind
begin

text \<open>
  What the stack metadata tool promises: the tables it writes are those of the compiler's stack maps, sorted
  and numbered as the run-time library needs them, and a call site has the same number in every binary.
\<close>

section \<open>The table of functions\<close>

context packed
begin

lemma take_section: "i \<le> length xs \<Longrightarrow> take (n * i) (concat (map enc xs)) = concat (map enc (take i xs))"
proof -
  assume i: "i \<le> length xs"
  then have "length (concat (map enc (take i xs))) = n * i" using length_section [of "take i xs"] by (simp add: mult.commute)
  moreover have "concat (map enc xs) = concat (map enc (take i xs)) @ concat (map enc (drop i xs))"
    by (metis append_take_drop_id concat_append map_append)
  ultimately show ?thesis by simp
qed

lemma drop_section: "i \<le> length xs \<Longrightarrow> drop (n * i) (concat (map enc xs)) = concat (map enc (drop i xs))"
proof -
  assume i: "i \<le> length xs"
  then have "length (concat (map enc (take i xs))) = n * i" using length_section [of "take i xs"] by (simp add: mult.commute)
  moreover have "concat (map enc xs) = concat (map enc (take i xs)) @ concat (map enc (drop i xs))"
    by (metis append_take_drop_id concat_append map_append)
  ultimately show ?thesis by simp
qed

lemma entry_section: "i < length xs \<Longrightarrow> take n (drop (n * i) (concat (map enc xs))) = enc (xs ! i)"
  by (simp add: drop_section Cons_nth_drop_Suc [symmetric] length_enc)

lemma slice_section: "i < length xs \<Longrightarrow> slice (concat (map enc xs)) (n * i) n = Inr (enc (xs ! i))"
proof -
  assume i: "i < length xs"
  then have "Suc i * n \<le> length xs * n" by (intro mult_le_mono) simp_all
  then have "n * i + n \<le> length (concat (map enc xs))" using length_section [of xs] by (simp add: mult.commute)
  then show ?thesis using entry_section [OF i] by (simp add: slice_def)
qed

lemma update_entry:
  "i < length xs \<Longrightarrow>
   take (n * i) (concat (map enc xs)) @ enc y @ drop (n * i + n) (concat (map enc xs)) = concat (map enc (xs[i := y]))"
  using take_section [of i xs] drop_section [of "Suc i" xs] by (simp add: upd_conv_take_nth_drop add.commute)

lemma entries_section: "entries (length xs) n (concat (map enc xs)) = map enc xs"
  by (rule nth_equalityI) (simp_all add: entries_def entry_section [unfolded mult.commute [of n]])

end

text \<open>The offset of a function is the number of unwinding records before it.\<close>

definition offset_before :: "unwind_addr list \<Rightarrow> nat \<Rightarrow> u64" where
  "offset_before uas i = sum_list (map (\<lambda>u. ucast (ua_num_unwind u)) (take i uas))"

definition with_offsets :: "unwind_addr list \<Rightarrow> unwind_addr list" where
  "with_offsets uas = map (\<lambda>i. (uas ! i)\<lparr>ua_unwind_offset := ucast (offset_before uas i)\<rparr>) [0..<length uas]"

lemma length_with_offsets [simp]: "length (with_offsets uas) = length uas"
  by (simp add: with_offsets_def)

lemma set_offset_loop:
  "\<exists>c. for_loop 0 (length uas) set_offset (concat (map encode_unwind_addr uas), 0) =
     Inr (concat (map encode_unwind_addr (with_offsets uas)), c)"
proof -
  let ?now = "\<lambda>i. take i (with_offsets uas) @ drop i uas"
  let ?P = "\<lambda>i (bs, c). bs = concat (map encode_unwind_addr (?now i)) \<and> c = offset_before uas i"
  have "\<exists>t. for_loop 0 (length uas) set_offset (concat (map encode_unwind_addr uas), 0) = Inr t \<and> ?P (length uas) t"
  proof (rule for_loop_total)
    fix i and t :: "u8 list \<times> u64" assume i: "i < length uas" and P: "?P i t"
    obtain bs c where t: "t = (bs, c)" by (cases t)
    have "?now i ! i = uas ! i" using i by (simp add: nth_append)
    then have "slice bs (16 * i) 16 = Inr (encode_unwind_addr (uas ! i))"
      using P t i unwind_addr_packed.slice_section [of i "?now i"] by simp
    moreover have "(?now i)[i := with_offsets uas ! i] = ?now (Suc i)"
      using i by (simp add: list_update_append take_Suc_conv_app_nth Cons_nth_drop_Suc [symmetric])
    then have "take (16 * i) bs @ encode_unwind_addr ((uas ! i)\<lparr>ua_unwind_offset := ucast c\<rparr>) @ drop (16 * i + 16) bs =
        concat (map encode_unwind_addr (?now (Suc i)))"
      using P t i unwind_addr_packed.update_entry [of i "?now i" "with_offsets uas ! i"] by (simp add: with_offsets_def)
    ultimately show "\<exists>t'. set_offset i t = Inr t' \<and> ?P (Suc i) t'"
      using P t i by (simp add: set_offset_def Let_def unwind_addr_packed.dec_enc offset_before_def take_Suc_conv_app_nth)
  qed (simp_all add: offset_before_def)
  then show ?thesis by auto
qed

lemma sort_entries:
  obtains ps where "qsort sort_unwind_addr (map encode_unwind_addr us) = map encode_unwind_addr ps"
    "mset ps = mset us" "sorted (map ua_addr ps)"
proof
  let ?q = "qsort sort_unwind_addr (map encode_unwind_addr us)" and ?ps = "map decode_unwind_addr (qsort sort_unwind_addr (map encode_unwind_addr us))"
  have "\<forall>b \<in> set ?q. encode_unwind_addr (decode_unwind_addr b) = b"
    by (auto simp: qsort.set_sort unwind_addr_packed.dec_enc)
  then show eq: "?q = map encode_unwind_addr ?ps" by (simp add: map_idI)
  have "mset ?ps = image_mset decode_unwind_addr (mset (map encode_unwind_addr us))" by (simp add: qsort.mset_sort)
  also have "\<dots> = mset us" by (simp add: multiset.map_comp comp_def unwind_addr_packed.dec_enc)
  finally show "mset ?ps = mset us" .
  have "sort_unwind_addr (encode_unwind_addr u) = ua_addr u" for u
    by (simp add: sort_unwind_addr_def encode_unwind_addr_def word_of_bytes_of)
  then have "map ua_addr ?ps = map sort_unwind_addr ?q" using eq by (metis (no_types, lifting) map_map comp_apply map_eq_conv)
  then show "sorted (map ua_addr ?ps)" using qsort.sorted_sort by metis
qed

text \<open>A table with entries of sixteen bytes that can hold nothing but records of functions.\<close>

lemma table_count:
  assumes "length us * 16 < 2 ^ 64"
  shows "(of_nat (length (concat (map encode_unwind_addr us))) :: u64) div 16 = of_nat (length us)"
  using assms of_nat_div [of "length us * 16" 16] unwind_addr_packed.length_section [of us] by simp

lemma update_function_addr_ok:
  assumes wf: "wf_elf e" and t: "get_table e sec = Some (16, concat (map encode_unwind_addr uas))"
    and "uas \<noteq> []" "length uas * 16 < 2 ^ 64"
  obtains e' ps where "update_function_addr e sec = Inr (SUCCESS, e')" "wf_elf e'"
    "mset ps = mset (with_offsets uas)" "sorted (map ua_addr ps)"
    "get_table e' sec = Some (16, concat (map encode_unwind_addr ps))"
    "\<And>m. m \<noteq> sec \<Longrightarrow> get_table e' m = get_table e m"
    "get_section_by_name e' = get_section_by_name e" "e_machine e' = e_machine e"
    "\<exists>i bs. shstrndx e \<noteq> Some i \<and> i < length (scns e) \<and> e' = put_scn e i ((scns e ! i)\<lparr>d_bufs := [Some bs]\<rparr>)"
proof -
  let ?bs = "concat (map encode_unwind_addr uas)"
  obtain i where i: "get_section_by_name e sec = Some i" "shstrndx e \<noteq> Some i" "i < length (scns e)"
    "readable (scns e ! i)" "d_bufs (scns e ! i) = [Some ?bs]" "sh_size (scns e ! i) = of_nat (length ?bs)"
    "16 = unat (sh_entsize (scns e ! i))"
    by (rule get_tableE [OF t wf]) blast
  have ent: "sh_entsize (scns e ! i) = 16" 
  proof -
    have "of_nat (unat (sh_entsize (scns e ! i))) = (of_nat 16 :: u64)" by (simp only: i(7) [symmetric])
    then show ?thesis by simp
  qed
  have num: "sh_size (scns e ! i) div sh_entsize (scns e ! i) = of_nat (length uas)"
    using table_count [OF assms(4)] i(6) ent by simp
  have lt: "length uas < 2 ^ 64" using assms(4) by linarith
  then have n: "unat (of_nat (length uas) :: u64) = length uas" by (simp add: unat_of_nat take_bit_nat_eq_self)
  have "sh_size (scns e ! i) \<noteq> 0"
  proof
    assume "sh_size (scns e ! i) = 0"
    then have "(of_nat (length uas) :: u64) = 0" using num by simp
    then show False using n assms(3) by simp
  qed
  obtain c where loop: "for_loop 0 (length uas) set_offset (?bs, 0) =
      Inr (concat (map encode_unwind_addr (with_offsets uas)), c)"
    using set_offset_loop by blast
  obtain ps where ps: "qsort sort_unwind_addr (map encode_unwind_addr (with_offsets uas)) = map encode_unwind_addr ps"
    "mset ps = mset (with_offsets uas)" "sorted (map ua_addr ps)" by (rule sort_entries)
  have ents: "entries (length uas) 16 (concat (map encode_unwind_addr (with_offsets uas))) =
      map encode_unwind_addr (with_offsets uas)"
    using unwind_addr_packed.entries_section [of "with_offsets uas"] by simp
  obtain e' where e': "update_section e i (Some (concat (map encode_unwind_addr ps))) = (SUCCESS, e')" "wf_elf e'"
    "get_table e' sec = Some (16, concat (map encode_unwind_addr ps))"
    "\<And>m. m \<noteq> sec \<Longrightarrow> get_table e' m = get_table e m"
    "get_section_by_name e' = get_section_by_name e" "e_machine e' = e_machine e"
    "e' = put_scn e i ((scns e ! i)\<lparr>d_bufs := [Some (concat (map encode_unwind_addr ps))],
       sh_size := of_nat (length (concat (map encode_unwind_addr ps)))\<rparr>)"
    using update_table [OF wf t i(1)] by blast
  have same_size: "s\<lparr>d_bufs := x, sh_size := k\<rparr> = s\<lparr>d_bufs := x\<rparr>" if "sh_size s = k" for s :: elf_scn and x k
    using that by (cases s) simp
  have "length ps = length uas" using arg_cong [OF ps(2), of size] by simp
  then have "sh_size (scns e ! i) = of_nat (length (concat (map encode_unwind_addr ps)))"
    using i(6) by (simp add: unwind_addr_packed.length_section)
  then have "e' = put_scn e i ((scns e ! i)\<lparr>d_bufs := [Some (concat (map encode_unwind_addr ps))]\<rparr>)"
    using e'(7) same_size by simp
  then have same: "\<exists>i bs. shstrndx e \<noteq> Some i \<and> i < length (scns e) \<and> e' = put_scn e i ((scns e ! i)\<lparr>d_bufs := [Some bs]\<rparr>)"
    using i(2,3) by blast
  have "update_function_addr e sec = Inr (SUCCESS, e')"
    using i(1,3,4,5) num n ent \<open>sh_size (scns e ! i) \<noteq> 0\<close> loop ents ps(1) e'(1)
    by (simp add: update_function_addr_def elf_getscn_def section_data_def get_num_data_blocks_def elf_getdata_def Let_def)
  with e'(2-6) ps(2,3) same show thesis by (intro that)
qed

section \<open>The call sites, as a function\<close>

text \<open>The call sites of all modules in order, each with the record of its function.\<close>

definition function_of :: "module_map \<Rightarrow> site_map \<Rightarrow> function_record" where
  "function_of m s = mm_functions m ! unat (m_func s)"

definition flat :: "module_map list \<Rightarrow> (function_record \<times> site_map) list" where
  "flat ms = concat (map (\<lambda>m. map (\<lambda>s. (function_of m s, s)) (mm_sites m)) ms)"

definition return_address :: "function_record \<times> site_map \<Rightarrow> u64" where
  "return_address = (\<lambda>(fr, s). func_addr fr + ucast (m_offset s))"

definition entry_of :: "u16 \<Rightarrow> (nat \<Rightarrow> u16) \<Rightarrow> unwind_addr list \<Rightarrow> site_state \<Rightarrow> function_record \<times> site_map \<Rightarrow> call_site" where
  "entry_of arch stale tab st = (\<lambda>(fr, s).
     \<lparr>cs_id = (if first_frame (m_id s) then m_id s else next_id st), cs_addr = return_address (fr, s),
      frame_size = ucast (cfa_correction arch (stack_size fr)), cs_num_unwind = ucast (fr_num_unwind fr),
      cs_unwind_offset = (case enclosing tab (return_address (fr, s)) of None \<Rightarrow> 0 | Some ua \<Rightarrow> ucast (ua_unwind_offset ua)),
      num_live = of_nat (length (m_locations s)), live_offset = of_nat (loc_num st),
      num_arch_live = of_nat (length (m_archs s)), arch_live_offset = of_nat (arch_num st),
      padding = stale (length (out_sites st))\<rparr>)"

definition then_site :: "u16 \<Rightarrow> (nat \<Rightarrow> u16) \<Rightarrow> unwind_addr list \<Rightarrow> function_record \<times> site_map \<Rightarrow> site_state \<Rightarrow> site_state" where
  "then_site arch stale tab x st =
     \<lparr>next_id = (if first_frame (m_id (snd x)) then next_id st else next_id st + 1),
      loc_num = loc_num st + length (m_locations (snd x)), arch_num = arch_num st + length (m_archs (snd x)),
      out_sites = out_sites st @ [entry_of arch stale tab st x],
      out_locs = out_locs st @ concat (map encode_live_value (m_locations (snd x))),
      out_archs = out_archs st @ concat (map encode_arch_live_value (m_archs (snd x)))\<rparr>"

lemma then_site_simps [simp]:
  "next_id (then_site arch stale tab x st) = (if first_frame (m_id (snd x)) then next_id st else next_id st + 1)"
  "loc_num (then_site arch stale tab x st) = loc_num st + length (m_locations (snd x))"
  "arch_num (then_site arch stale tab x st) = arch_num st + length (m_archs (snd x))"
  "out_sites (then_site arch stale tab x st) = out_sites st @ [entry_of arch stale tab st x]"
  "out_locs (then_site arch stale tab x st) = out_locs st @ concat (map encode_live_value (m_locations (snd x)))"
  "out_archs (then_site arch stale tab x st) = out_archs st @ concat (map encode_arch_live_value (m_archs (snd x)))"
  by (simp_all add: then_site_def)

definition start_state :: "u64 \<Rightarrow> site_state" where
  "start_state start_id = \<lparr>next_id = start_id, loc_num = 0, arch_num = 0, out_sites = [], out_locs = [], out_archs = []\<rparr>"

abbreviation (input) sites_done :: "u16 \<Rightarrow> (nat \<Rightarrow> u16) \<Rightarrow> unwind_addr list \<Rightarrow> u64 \<Rightarrow> (function_record \<times> site_map) list \<Rightarrow> site_state" where
  "sites_done arch stale tab start_id xs \<equiv> fold (then_site arch stale tab) xs (start_state start_id)"

text \<open>The inputs are usable: the functions of the call sites exist and enclose them.\<close>

definition usable :: "unwind_addr list \<Rightarrow> module_map list \<Rightarrow> bool" where
  "usable tab ms \<longleftrightarrow>
     (\<forall>m \<in> set ms. module_fits m \<and> (\<forall>s \<in> set (mm_sites m). unat (m_func s) < length (mm_functions m))) \<and>
     (\<forall>x \<in> set (flat ms). \<exists>u \<in> set tab. ua_addr u \<le> return_address x) \<and>
     sorted_wrt (\<lambda>a b. ua_addr a < ua_addr b) tab \<and> length tab < 2 ^ 63"

definition all_locations :: "(function_record \<times> site_map) list \<Rightarrow> live_value list" where
  "all_locations xs = concat (map (\<lambda>x. m_locations (snd x)) xs)"

definition all_archs :: "(function_record \<times> site_map) list \<Rightarrow> arch_live_value list" where
  "all_archs xs = concat (map (\<lambda>x. m_archs (snd x)) xs)"

lemma sites_done_sizes:
  "loc_num (sites_done arch stale tab start_id xs) = length (all_locations xs)"
  "arch_num (sites_done arch stale tab start_id xs) = length (all_archs xs)"
  "length (out_sites (sites_done arch stale tab start_id xs)) = length xs"
  "out_locs (sites_done arch stale tab start_id xs) = concat (map encode_live_value (all_locations xs))"
  "out_archs (sites_done arch stale tab start_id xs) = concat (map encode_arch_live_value (all_archs xs))"
  by (induction xs rule: rev_induct) (simp_all add: start_state_def all_locations_def all_archs_def)

lemma sites_done_nth:
  assumes "k < length xs"
  shows "out_sites (sites_done arch stale tab start_id xs) ! k =
    entry_of arch stale tab (sites_done arch stale tab start_id (take k xs)) (xs ! k)"
  using assms
proof (induction xs rule: rev_induct)
  case (snoc x xs)
  then show ?case
    using sites_done_sizes(3) [of arch stale tab xs start_id]
    by (cases "k < length xs") (auto simp: nth_append not_less less_Suc_eq)
qed simp

section \<open>The loops do what the function says\<close>

lemma get_func_unwind_data_enclosing:
  assumes "sorted_wrt (\<lambda>a b. ua_addr a < ua_addr b) tab" "length tab < 2 ^ 63" "unat num = length tab"
  shows "get_func_unwind_data addr num tab = Inr (enclosing tab addr)"
  unfolding get_func_unwind_data_def
  using assms by (intro unwind_search_enclosing) (auto simp: sint_pred)

lemma lift_Inr [simp]: "lift (Inr x) = Inr x"
  by (simp add: lift_def)

lemma add_site_step:
  assumes sm: "reads_module bs sm m" "module_fits m" "j < length (mm_sites m)"
    and fn: "unat (m_func (mm_sites m ! j)) < length (mm_functions m)"
    and tab: "sorted_wrt (\<lambda>a b. ua_addr a < ua_addr b) tab" "length tab < 2 ^ 63" "unat num = length tab"
    and enc: "enclosing tab (return_address (function_of m (mm_sites m ! j), mm_sites m ! j)) \<noteq> None"
    and room: "length (out_sites st) < r1" "loc_num st + length (m_locations (mm_sites m ! j)) \<le> r2"
      "arch_num st + length (m_archs (mm_sites m ! j)) \<le> r3"
  shows "add_site arch stale bs (r1, r2, r3) num tab sm j st =
    Inr (then_site arch stale tab (function_of m (mm_sites m ! j), mm_sites m ! j) st)"
proof -
  define s where "s = mm_sites m ! j"
  have l: "list_all2 (reads_site bs) (call_sites sm) (mm_sites m)" using sm(1) by (simp add: reads_module_def)
  then have j: "j < length (call_sites sm)" and r: "reads_site bs (call_sites sm ! j) s"
    using sm(3) by (auto simp: list_all2_conv_all_nth s_def)
  have fits: "site_fits s" using sm(2,3) by (auto simp: module_fits_def s_def)
  have fr: "function_record_at bs sm (unat (m_func s)) = Inr (function_of m s)"
    using sm(1) fn by (simp add: reads_module_def function_of_def s_def)
  obtain ua where ua: "enclosing tab (return_address (function_of m s, s)) = Some ua" using enc by (auto simp: s_def)
  have look: "get_func_unwind_data (return_address (function_of m s, s)) num tab = Inr (Some ua)"
    using get_func_unwind_data_enclosing [OF tab] ua by simp
  note r' = r [unfolded reads_site_def] and f' = fits [unfolded site_fits_def]
  have n: "unat (of_nat (length (m_locations s)) :: u16) = length (m_locations s)"
    "unat (of_nat (length (m_archs s)) :: u16) = length (m_archs s)" using f' by simp_all
  have b: "slice bs (locations (call_sites sm ! j)) (12 * length (m_locations s)) = Inr (concat (map encode_live_value (m_locations s)))"
    "slice bs (sr_arch_live (call_sites sm ! j)) (20 * length (m_archs s)) = Inr (concat (map encode_arch_live_value (m_archs s)))"
    using r' by (auto intro!: slice_block)
  show ?thesis
    unfolding s_def [symmetric]
    using j r' fr look ua b n room [folded s_def]
    by (simp add: add_site_def Let_def then_site_def entry_of_def return_address_def first_frame_def)
qed

lemma flat_simps [simp]:
  "flat [] = []" "flat (m # ms) = map (\<lambda>s. (function_of m s, s)) (mm_sites m) @ flat ms"
  "flat (ms @ ms') = flat ms @ flat ms'"
  by (simp_all add: flat_def)

lemma all_append [simp]:
  "all_locations (xs @ ys) = all_locations xs @ all_locations ys" "all_archs (xs @ ys) = all_archs xs @ all_archs ys"
  "all_locations (x # xs) = m_locations (snd x) @ all_locations xs" "all_archs (x # xs) = m_archs (snd x) @ all_archs xs" "all_locations [] = []" "all_archs [] = []"
  by (simp_all add: all_locations_def all_archs_def)

lemma map_split:
  "j < length xs \<Longrightarrow> map f xs = map f (take j xs) @ f (xs ! j) # map f (drop (Suc j) xs)"
  using arg_cong [OF id_take_nth_drop [of j xs], of "map f"] by (simp only: map_append list.map)

lemma create_ok:
  assumes maps: "list_all2 (reads_module bs) sms ms" and use: "usable tab ms" and num: "unat num = length tab"
    and cnt: "count_records sms = Inr (length (flat ms), length (all_locations (flat ms)), length (all_archs (flat ms)))"
  shows "create_call_site_metadata arch stale start_id bs sms num tab =
    Inr (Some (sites_done arch stale tab start_id (flat ms)))"
proof -
  let ?room = "(length (flat ms), length (all_locations (flat ms)), length (all_archs (flat ms)))"
  let ?D = "\<lambda>xs. sites_done arch stale tab start_id xs"
  let ?pair = "\<lambda>m s. (function_of m s, s)"
  have len: "length sms = length ms" using maps by (rule list_all2_lengthD)
  have tab: "sorted_wrt (\<lambda>a b. ua_addr a < ua_addr b) tab" "length tab < 2 ^ 63" using use by (auto simp: usable_def)
  let ?f = "\<lambda>i st. bindE (lift (arr sms i)) (\<lambda>sm.
      for_loop 0 (unat (num_records sm)) (add_site arch stale bs ?room num tab sm) st)"
  have "\<exists>t. for_loop 0 (length sms) ?f (start_state start_id) = Inr t \<and> t = ?D (flat (take (length sms) ms))"
  proof (rule for_loop_total [where P = "\<lambda>i t. t = ?D (flat (take i ms))"])
    fix i t assume i: "i < length sms" and t: "t = ?D (flat (take i ms))"
    define m where "m = ms ! i"
    have m: "reads_module bs (sms ! i) m" "m \<in> set ms" using maps i len by (auto simp: list_all2_conv_all_nth m_def)
    have fits: "module_fits m" and fn: "\<forall>s \<in> set (mm_sites m). unat (m_func s) < length (mm_functions m)"
      using use m(2) by (auto simp: usable_def)
    have ms: "ms = take i ms @ m # drop (Suc i) ms" using i len by (simp add: m_def id_take_nth_drop)
    have encl: "enclosing tab (return_address (?pair m s)) \<noteq> None" if "s \<in> set (mm_sites m)" for s

    proof -
      have "?pair m s \<in> set (flat ms)" using m(2) that by (auto simp: flat_def)
      then obtain u where "u \<in> set tab" "ua_addr u \<le> return_address (?pair m s)" using use unfolding usable_def by blast
      then show ?thesis by (auto simp: enclosing_def find_None_iff)
    qed
    have "\<exists>u. for_loop 0 (length (mm_sites m)) (add_site arch stale bs ?room num tab (sms ! i)) t = Inr u \<and>
      u = ?D (flat (take i ms) @ map (?pair m) (take (length (mm_sites m)) (mm_sites m)))"
    proof (rule for_loop_total [where P = "\<lambda>j u. u = ?D (flat (take i ms) @ map (?pair m) (take j (mm_sites m)))"])
      fix j u assume j: "j < length (mm_sites m)" and u: "u = ?D (flat (take i ms) @ map (?pair m) (take j (mm_sites m)))"
      let ?s = "mm_sites m ! j" and ?pre = "flat (take i ms) @ map (?pair m) (take j (mm_sites m))"
      note map_split [OF j, of "?pair m"]
      then have split: "flat ms = ?pre @ [?pair m ?s] @ map (?pair m) (drop (Suc j) (mm_sites m)) @ flat (drop (Suc i) ms)"
        by (subst ms) (simp del: take_map drop_map)
      note size = arg_cong [OF split, of length] arg_cong [OF split, of "\<lambda>x. length (all_locations x)"]
        arg_cong [OF split, of "\<lambda>x. length (all_archs x)"]
      have "add_site arch stale bs ?room num tab (sms ! i) j u = Inr (then_site arch stale tab (?pair m ?s) u)"
        by (rule add_site_step [OF m(1) fits j _ tab num encl])
          (use fn j size sites_done_sizes [of arch stale tab ?pre start_id] u in \<open>simp_all\<close>)
      then show "\<exists>u'. add_site arch stale bs ?room num tab (sms ! i) j u = Inr u' \<and>
          u' = ?D (flat (take i ms) @ map (?pair m) (take (Suc j) (mm_sites m)))"
        using u j by (simp add: take_Suc_conv_app_nth)
    qed (simp_all add: t)
    moreover have "unat (num_records (sms ! i)) = length (mm_sites m)" using m(1) by (simp add: reads_module_def)
    ultimately show "\<exists>t'. ?f i t = Inr t' \<and> t' = ?D (flat (take (Suc i) ms))"
      using i len by (simp add: take_Suc_conv_app_nth m_def)
  qed simp_all
  then show ?thesis using cnt len by (simp add: create_call_site_metadata_def start_state_def)
qed

lemma count_ok:
  assumes maps: "list_all2 (reads_module bs) sms ms" and fits: "\<forall>m \<in> set ms. module_fits m"
  shows "count_records sms = Inr (length (flat ms), length (all_locations (flat ms)), length (all_archs (flat ms)))"
proof -
  let ?pair = "\<lambda>m s. (function_of m s, s)"
  let ?n = "\<lambda>xs. (length (all_locations xs), length (all_archs xs))"
  have len: "length sms = length ms" using maps by (rule list_all2_lengthD)
  let ?g = "\<lambda>sm j (sites_num, locs, archs). bindE (arr (call_sites sm) j) (\<lambda>r.
      Inr (sites_num, locs + unat (num_locations r), archs + unat (sr_num_arch_live r)))"
  let ?f = "\<lambda>i (sites_num, locs, archs). bindE (arr sms i) (\<lambda>sm.
      for_loop 0 (unat (num_records sm)) (?g sm) (sites_num + unat (num_records sm), locs, archs))"
  have "\<exists>t. for_loop 0 (length sms) ?f (0, 0, 0) = Inr t \<and>
      t = (length (flat (take (length sms) ms)), ?n (flat (take (length sms) ms)))"
  proof (rule for_loop_total [where P = "\<lambda>i t. t = (length (flat (take i ms)), ?n (flat (take i ms)))"])
    fix i t assume i: "i < length sms" and t: "t = (length (flat (take i ms)), ?n (flat (take i ms)))"
    define m where "m = ms ! i"
    have m: "reads_module bs (sms ! i) m" "m \<in> set ms" using maps i len by (auto simp: list_all2_conv_all_nth m_def)
    have l: "list_all2 (reads_site bs) (call_sites (sms ! i)) (mm_sites m)" using m(1) by (simp add: reads_module_def)
    have n: "unat (num_records (sms ! i)) = length (mm_sites m)" using m(1) by (simp add: reads_module_def)
    let ?c = "length (flat (take i ms)) + length (mm_sites m)"
    have "\<exists>u. for_loop 0 (length (mm_sites m)) (?g (sms ! i)) (?c, ?n (flat (take i ms))) = Inr u \<and>
      u = (?c, ?n (flat (take i ms) @ map (?pair m) (take (length (mm_sites m)) (mm_sites m))))"
    proof (rule for_loop_total [where P = "\<lambda>j u. u = (?c, ?n (flat (take i ms) @ map (?pair m) (take j (mm_sites m))))"])
      fix j u assume j: "j < length (mm_sites m)" and u: "u = (?c, ?n (flat (take i ms) @ map (?pair m) (take j (mm_sites m))))"
      have r: "reads_site bs (call_sites (sms ! i) ! j) (mm_sites m ! j)" "j < length (call_sites (sms ! i))"
        using l j by (auto simp: list_all2_conv_all_nth)
      have "site_fits (mm_sites m ! j)" using fits m(2) j by (auto simp: module_fits_def)
      then show "\<exists>u'. ?g (sms ! i) j u = Inr u' \<and> u' = (?c, ?n (flat (take i ms) @ map (?pair m) (take (Suc j) (mm_sites m))))"
        using u j r by (simp add: take_Suc_conv_app_nth reads_site_def site_fits_def)
    qed simp_all
    then show "\<exists>t'. ?f i t = Inr t' \<and> t' = (length (flat (take (Suc i) ms)), ?n (flat (take (Suc i) ms)))"
      using t i len n by (simp add: take_Suc_conv_app_nth m_def)
  qed simp_all
  then show ?thesis using len by (simp add: count_records_def)
qed

section \<open>Numbers of call sites\<close>

text \<open>
  The number of the \<open>k\<close>-th call site: its own for the sites at which unwinding stops, and otherwise its position among the
  ordinary sites, counted from the number the tool is told to start with.
\<close>

definition ordinary :: "function_record \<times> site_map \<Rightarrow> bool" where
  "ordinary x \<longleftrightarrow> \<not> first_frame (m_id (snd x))"

definition site_number :: "u64 \<Rightarrow> (function_record \<times> site_map) list \<Rightarrow> nat \<Rightarrow> u64" where
  "site_number start_id xs k =
     (if ordinary (xs ! k) then start_id + of_nat (length (filter ordinary (take k xs))) else m_id (snd (xs ! k)))"

lemma next_id_sites_done:
  "next_id (sites_done arch stale tab start_id xs) = start_id + of_nat (length (filter ordinary xs))"
  by (induction xs rule: rev_induct) (simp_all add: start_state_def ordinary_def add_ac)

lemma cs_id_nth:
  "k < length xs \<Longrightarrow> cs_id (out_sites (sites_done arch stale tab start_id xs) ! k) = site_number start_id xs k"
  by (simp add: sites_done_nth entry_of_def split_beta next_id_sites_done site_number_def ordinary_def)

text \<open>The numbers are different when those given are and the others do not reach them.\<close>

definition numbers_fit :: "u64 \<Rightarrow> (function_record \<times> site_map) list \<Rightarrow> bool" where
  "numbers_fit start_id xs \<longleftrightarrow>
     unat start_id + length (filter ordinary xs) \<le> 2 ^ 64 - 3 \<and>
     distinct (map (m_id \<circ> snd) (filter (\<lambda>x. \<not> ordinary x) xs))"

lemma filter_take_less:
  assumes "i < j" "j < length xs" "P (xs ! i)"
  shows "length (filter P (take i xs)) < length (filter P (take j xs))"
proof -
  have "take j xs = take i xs @ take (j - i) (drop i xs)" using assms(1) by (simp flip: take_add)
  moreover have "take (j - i) (drop i xs) = xs ! i # take (j - i - 1) (drop (Suc i) xs)"
    using assms by (simp add: Cons_nth_drop_Suc [symmetric] take_Cons' )
  ultimately show ?thesis using assms(3) by simp
qed

lemma ordinary_number:
  assumes "numbers_fit start_id xs" "k < length xs" "ordinary (xs ! k)"
  shows "unat (site_number start_id xs k) = unat start_id + length (filter ordinary (take k xs))"
    and "unat (site_number start_id xs k) < 2 ^ 64 - 3"
proof -
  have "length (filter ordinary (take k xs)) < length (filter ordinary xs)"
  proof -
    have "filter ordinary xs = filter ordinary (take k xs) @ filter ordinary (drop k xs)"
      by (metis append_take_drop_id filter_append)
    moreover have "drop k xs = xs ! k # drop (Suc k) xs" using assms(2) by (simp add: Cons_nth_drop_Suc)
    ultimately show ?thesis using assms(3) by simp
  qed
  then have lt: "unat start_id + length (filter ordinary (take k xs)) < 2 ^ 64 - 3"
    using assms(1) by (simp add: numbers_fit_def)
  then show "unat (site_number start_id xs k) = unat start_id + length (filter ordinary (take k xs))"
    using assms(3) by (simp add: site_number_def unat_word_ariths unat_of_nat take_bit_nat_eq_self)
  then show "unat (site_number start_id xs k) < 2 ^ 64 - 3" using lt by simp
qed

lemma special_number:
  assumes "\<not> ordinary x" shows "2 ^ 64 - 3 \<le> unat (m_id (snd x))"
  using assms by (auto simp: ordinary_def first_frame_def unsigned_minus_1_eq_mask mask_eq_exp_minus_1 split: if_splits)

lemma numbers_distinct:
  assumes fit: "numbers_fit start_id xs"
  shows "distinct (map (site_number start_id xs) [0..<length xs])"
proof -
  have "site_number start_id xs i \<noteq> site_number start_id xs j" if ij: "i < j" "j < length xs" for i j
  proof (cases "ordinary (xs ! i)"; cases "ordinary (xs ! j)")
    assume o: "ordinary (xs ! i)" "ordinary (xs ! j)"
    then show ?thesis
      using ordinary_number(1) [OF fit, of i] ordinary_number(1) [OF fit, of j] filter_take_less [of i j xs ordinary] ij by auto
  next
    assume o: "\<not> ordinary (xs ! i)" "\<not> ordinary (xs ! j)"
    let ?ys = "filter (\<lambda>x. \<not> ordinary x)"
    have "?ys xs = ?ys (take j xs) @ ?ys (drop j xs)" by (metis append_take_drop_id filter_append)
    moreover have "drop j xs = xs ! j # drop (Suc j) xs" using ij(2) by (simp add: Cons_nth_drop_Suc)
    moreover have "xs ! i \<in> set (?ys (take j xs))" using o(1) ij by (auto simp: in_set_conv_nth)
    ultimately have "m_id (snd (xs ! j)) \<notin> (m_id \<circ> snd) ` set (?ys (take j xs))"
      "m_id (snd (xs ! i)) \<in> (m_id \<circ> snd) ` set (?ys (take j xs))"
      using fit o(2) by (auto simp: numbers_fit_def simp del: set_filter intro: rev_image_eqI)
    then have "m_id (snd (xs ! i)) \<noteq> m_id (snd (xs ! j))" by metis
    then show ?thesis using o by (simp add: site_number_def)
  next
    assume o: "ordinary (xs ! i)" "\<not> ordinary (xs ! j)"
    then show ?thesis
      using ordinary_number(2) [OF fit, of i] special_number [OF o(2)] ij by (auto simp: site_number_def)
  next
    assume o: "\<not> ordinary (xs ! i)" "ordinary (xs ! j)"
    then show ?thesis
      using ordinary_number(2) [OF fit ij(2)] special_number [OF o(1)] by (auto simp: site_number_def)
  qed
  then show ?thesis
    by (auto simp: distinct_conv_nth) (metis linorder_neqE_nat)
qed

end
