(* ===== verification/Metadata_Pipeline.thy ===== *)
theory Metadata_Pipeline
  imports Stack_Metadata_Correct
begin

text \<open>
  From the compiler's stack maps to the run-time library: what \<open>tool/stack_metadata\<close> writes into a binary,
  \<open>lib/stack_transformation\<close> reads back as the tables that its searches need.
\<close>

section \<open>What the tool is given and what the library needs\<close>

text \<open>
  A binary as the compiler and the linker leave it: stack maps of its modules, the function table with
  one record per function in the order of the unwinding records, and the unwinding records. There is room for the tables
  to be added, and the numbers of things fit the fields that hold them.
\<close>

definition input_ok :: "nat \<Rightarrow> elf_file \<Rightarrow> u64 \<Rightarrow> module_map list \<Rightarrow> unwind_addr list \<Rightarrow> unwind_loc list \<Rightarrow> bool" where
  "input_ok base e start_id ms uas uls \<longleftrightarrow>
     wf_elf e \<and> 8 dvd base \<and> (\<exists>props. get_properties (e_machine e) = Some props) \<and>
     (\<exists>n. get_table e ''.llvm_pcn_stackmaps'' = Some (n, concat (map encode_module ms))) \<and>
     length (concat (map encode_module ms)) < 2 ^ 64 \<and>
     get_table e SECTION_ST_UNWIND_ADDR = Some (16, concat (map encode_unwind_addr uas)) \<and>
     get_table e SECTION_ST_UNWIND = Some (4, concat (map encode_unwind_loc uls)) \<and>
     room e SECTION_ST_ID 52 \<and> room e SECTION_ST_ADDR 52 \<and> room e SECTION_ST_LIVE 12 \<and> room e SECTION_ST_ARCH_LIVE 20 \<and>
     uas \<noteq> [] \<and> length uas < 2 ^ 56 \<and> distinct (map ua_addr uas) \<and>
     sum_list (map (unat \<circ> ua_num_unwind) uas) < 2 ^ 32 \<and>
     uls \<noteq> [] \<and> length uls < 2 ^ 56 \<and>
     (\<forall>m \<in> set ms. module_fits m \<and> (\<forall>s \<in> set (mm_sites m). unat (m_func s) < length (mm_functions m))) \<and>
     (\<forall>x \<in> set (flat ms). \<exists>u \<in> set uas. ua_addr u \<le> return_address x) \<and>
     flat ms \<noteq> [] \<and> length (flat ms) < 2 ^ 56 \<and> distinct (map return_address (flat ms)) \<and>
     length (all_locations (flat ms)) < 2 ^ 56 \<and> length (all_archs (flat ms)) < 2 ^ 56 \<and>
     numbers_fit start_id (flat ms)"

text \<open>
  What the library finds out about the \<open>k\<close>-th call site: from its return address and from its number the same record,
  with the size of its frame, its live values, and the unwinding records of the function that encloses it.
\<close>

definition unwind_total :: "unwind_addr list \<Rightarrow> nat \<Rightarrow> nat" where
  "unwind_total uas i = sum_list (map (unat \<circ> ua_num_unwind) (take i uas))"

definition encloses :: "unwind_addr list \<Rightarrow> nat \<Rightarrow> u64 \<Rightarrow> bool" where
  "encloses uas i addr \<longleftrightarrow> i < length uas \<and> ua_addr (uas ! i) \<le> addr \<and>
     (\<forall>u \<in> set uas. ua_addr u \<le> addr \<longrightarrow> ua_addr u \<le> ua_addr (uas ! i))"

definition finds_site :: "st_handle \<Rightarrow> u64 \<Rightarrow> (function_record \<times> site_map) list \<Rightarrow> unwind_addr list \<Rightarrow> nat \<Rightarrow> bool" where
  "finds_site h start_id xs uas k \<longleftrightarrow>
     (\<exists>cs i. get_site_by_addr h (return_address (xs ! k)) = Inr (Some cs) \<and>
        get_site_by_id h (site_number start_id xs k) = Inr (Some cs) \<and>
        cs_id cs = site_number start_id xs k \<and> cs_addr cs = return_address (xs ! k) \<and>
        frame_size cs = ucast (cfa_correction (h_arch h) (stack_size (fst (xs ! k)))) \<and>
        take (unat (num_live cs)) (drop (unat (live_offset cs)) (live_vals h)) = m_locations (snd (xs ! k)) \<and>
        take (unat (num_arch_live cs)) (drop (unat (arch_live_offset cs)) (arch_live_vals h)) = m_archs (snd (xs ! k)) \<and>
        encloses uas i (return_address (xs ! k)) \<and>
        cs_num_unwind cs = ucast (fr_num_unwind (fst (xs ! k))) \<and> unat (cs_unwind_offset cs) = unwind_total uas i)"

definition serves :: "st_handle \<Rightarrow> u64 \<Rightarrow> module_map list \<Rightarrow> unwind_addr list \<Rightarrow> unwind_loc list \<Rightarrow> bool" where
  "serves h start_id ms uas uls \<longleftrightarrow>
     wf_sites h \<and> wf_unwind_addrs h \<and> unwind_locs h = uls \<and>
     (\<forall>k<length (flat ms). finds_site h start_id (flat ms) uas k)"

section \<open>The tables that are written\<close>

lemma offset_before_total:
  assumes "sum_list (map (unat \<circ> ua_num_unwind) uas) < 2 ^ 32" "i \<le> length uas"
  shows "unat (ucast (ucast (offset_before uas i) :: u32) :: u64) = unwind_total uas i"
proof -
  have mono: "unwind_total uas i \<le> sum_list (map (unat \<circ> ua_num_unwind) uas)"
  proof -
    have "sum_list (map (unat \<circ> ua_num_unwind) uas) = unwind_total uas i + sum_list (map (unat \<circ> ua_num_unwind) (drop i uas))"
      unfolding unwind_total_def by (metis append_take_drop_id map_append sum_list_append)
    then show ?thesis by simp
  qed
  have "sum_list (map (\<lambda>u. ucast (ua_num_unwind u)) us) = (of_nat (sum_list (map (unat \<circ> ua_num_unwind) us)) :: u64)" for us
    by (induction us) simp_all
  then have "offset_before uas i = of_nat (unwind_total uas i)" by (simp add: offset_before_def unwind_total_def)
  moreover have "unwind_total uas i < 2 ^ 32" using mono assms(1) by simp
  ultimately show ?thesis
    by (simp add: unsigned_ucast_eq unsigned_take_bit_eq unat_of_nat take_bit_nat_eq_self)
qed

lemma addr_with_offsets: "map ua_addr (with_offsets uas) = map ua_addr uas"
  by (rule nth_equalityI) (simp_all add: with_offsets_def)

text \<open>The function table after sorting: the record that encloses an address is one of those given, with its offset.\<close>

lemma enclosing_sorted:
  assumes ps: "mset ps = mset (with_offsets uas)" "sorted_wrt (\<lambda>a b. ua_addr a < ua_addr b) ps"
    and some: "\<exists>u \<in> set uas. ua_addr u \<le> addr"
  obtains i where "encloses uas i addr" "enclosing ps addr = Some ((uas ! i)\<lparr>ua_unwind_offset := ucast (offset_before uas i)\<rparr>)"
proof -
  have set: "set ps = set (with_offsets uas)" using ps(1) by (metis set_mset_mset)
  have addrs: "ua_addr ` set ps = ua_addr ` set uas"
    unfolding set by (simp only: set_map [symmetric] addr_with_offsets)
  then have "\<exists>p \<in> set ps. ua_addr p \<le> addr" using some by (metis (no_types, lifting) image_iff)
  then have "enclosing ps addr \<noteq> None" by (auto simp: enclosing_def find_None_iff)
  then obtain p where p: "enclosing ps addr = Some p" by blast
  then obtain j where j: "j < length ps" "p = ps ! (length ps - Suc j)" "ua_addr p \<le> addr"
    "\<forall>l<j. \<not> ua_addr (ps ! (length ps - Suc l)) \<le> addr"
    by (auto simp: enclosing_def find_Some_iff rev_nth)
  have max: "ua_addr q \<le> ua_addr p" if q: "q \<in> set ps" "ua_addr q \<le> addr" for q
  proof -
    obtain l where l: "l < length ps" "q = ps ! l" using q(1) by (auto simp: in_set_conv_nth)
    have "\<not> length ps - Suc j < l"
    proof
      assume "length ps - Suc j < l"
      then have "length ps - Suc l < j" "l = length ps - Suc (length ps - Suc l)" using l(1) j(1) by linarith+
      then show False using j(4) q(2) l(2) by metis
    qed
    moreover have "length ps - Suc j < length ps" using j(1) by linarith
    ultimately show ?thesis using sorted_wrt_nth_less [OF ps(2), of l "length ps - Suc j"] l j(1,2)
      by (cases "l = length ps - Suc j") auto
  qed
  have "p \<in> set (with_offsets uas)" using j(1,2) set by (metis diff_less length_greater_0_conv list.size(3) not_less_zero nth_mem zero_less_Suc)
  then obtain i where i: "i < length uas" "p = (uas ! i)\<lparr>ua_unwind_offset := ucast (offset_before uas i)\<rparr>"
    by (auto simp: with_offsets_def)
  have "ua_addr u \<le> ua_addr (uas ! i)" if "u \<in> set uas" "ua_addr u \<le> addr" for u
  proof -
    have "ua_addr u \<in> ua_addr ` set ps" using addrs that(1) by blast
    then obtain q where "q \<in> set ps" "ua_addr q = ua_addr u" by auto
    then show ?thesis using max [of q] that(2) i(2) by simp
  qed
  then have "encloses uas i addr" using i j(3) by (simp add: encloses_def)
  then show thesis using that p i(2) by simp
qed

lemma init_stackmap_ok:
  assumes "wf_elf e" "8 dvd base" "get_table e ''.llvm_pcn_stackmaps'' = Some (n, concat (map encode_module ms))"
    and "length (concat (map encode_module ms)) < 2 ^ 64" "\<forall>m \<in> set ms. module_fits m" "ms \<noteq> []"
  obtains sms where "init_stackmap base e = Inr (Inr (concat (map encode_module ms), sms))"
    "list_all2 (reads_module (concat (map encode_module ms))) sms ms"
proof -
  let ?bs = "concat (map encode_module ms)"
  obtain i where i: "get_section_by_name e ''.llvm_pcn_stackmaps'' = Some i" "i < length (scns e)"
    "readable (scns e ! i)" "d_bufs (scns e ! i) = [Some ?bs]" "sh_size (scns e ! i) = of_nat (length ?bs)"
    by (rule get_tableE [OF assms(3,1)]) blast
  have size: "unat (of_nat (length ?bs) :: u64) = length ?bs"
    using assms(4) by (simp add: unat_of_nat take_bit_nat_eq_self)
  have "?bs \<noteq> []" using assms(6) length_module_pos by (cases ms) (auto simp: encode_module_def)
  then have "(of_nat (length ?bs) :: u64) \<noteq> 0" using size by (metis length_0_conv unat_0)
  moreover obtain sms where "read_stackmaps base ?bs (length ?bs) = Inr sms" "list_all2 (reads_module ?bs) sms ms"
    using read_stackmaps_modules [OF assms(5,2)] by blast
  ultimately show thesis
    using i size
    by (intro that [of sms]) (simp_all add: init_stackmap_def elf_getscn_def get_num_data_blocks_def elf_getdata_def)
qed

lemma gen_stackinfo_tables:
  assumes "input_ok base e start_id ms uas uls"
  obtains e' ps e1 a b c d where "gen_stackinfo base stale ''.stack_transform'' start_id e = Inr e'" "wf_elf e'" "laid_out e' 4"
    "e_machine e' = e_machine e" "mset ps = mset (with_offsets uas)" "sorted_wrt (\<lambda>a b. ua_addr a < ua_addr b) ps"
    "get_table e' SECTION_ST_UNWIND_ADDR = Some (16, concat (map encode_unwind_addr ps))"
    "get_table e' SECTION_ST_UNWIND = Some (4, concat (map encode_unwind_loc uls))"
    "get_table e' SECTION_ST_ID = Some (52, concat (map encode_call_site
       (qsort cs_id (out_sites (sites_done (e_machine e) stale ps start_id (flat ms))))))"
    "get_table e' SECTION_ST_ADDR = Some (52, concat (map encode_call_site
       (qsort cs_addr (qsort cs_id (out_sites (sites_done (e_machine e) stale ps start_id (flat ms)))))))"
    "get_table e' SECTION_ST_LIVE = Some (12, concat (map encode_live_value (all_locations (flat ms))))"
    "get_table e' SECTION_ST_ARCH_LIVE = Some (20, concat (map encode_arch_live_value (all_archs (flat ms))))"
    "\<exists>i bs. shstrndx e \<noteq> Some i \<and> i < length (scns e) \<and> e1 = put_scn e i ((scns e ! i)\<lparr>d_bufs := [Some bs]\<rparr>)"
    "wf_elf e1" "get_section_by_name e1 = get_section_by_name e"
    "put_section e1 SECTION_ST_ID 52 (concat (map encode_call_site
       (qsort cs_id (out_sites (sites_done (e_machine e) stale ps start_id (flat ms)))))) = Inr (SUCCESS, a)"
    "put_section a SECTION_ST_ADDR 52 (concat (map encode_call_site
       (qsort cs_addr (qsort cs_id (out_sites (sites_done (e_machine e) stale ps start_id (flat ms))))))) = Inr (SUCCESS, b)"
    "put_section b SECTION_ST_LIVE 12 (concat (map encode_live_value (all_locations (flat ms)))) = Inr (SUCCESS, c)"
    "put_section c SECTION_ST_ARCH_LIVE 20 (concat (map encode_arch_live_value (all_archs (flat ms)))) = Inr (SUCCESS, d)"
    "only_moved d e'" "\<forall>j<length (scns d) - 4. scns e' ! j = scns d ! j"
proof -
  note ok = assms [unfolded input_ok_def]
  let ?U = "SECTION_ST_UNWIND_ADDR" and ?bs = "concat (map encode_module ms)"
  let ?arch = "e_machine e" and ?xs = "flat ms"
  obtain n where n: "get_table e ''.llvm_pcn_stackmaps'' = Some (n, ?bs)" using ok by blast
  have "ms \<noteq> []" using ok by auto
  then obtain sms where sms: "init_stackmap base e = Inr (Inr (?bs, sms))" "list_all2 (reads_module ?bs) sms ms"
    using init_stackmap_ok [OF _ _ n] ok by metis
  have ulen: "length uas * 16 < 2 ^ 64" using ok by simp
  obtain e1 ps where e1: "update_function_addr e ?U = Inr (SUCCESS, e1)" "wf_elf e1"
    "mset ps = mset (with_offsets uas)" "sorted (map ua_addr ps)"
    "get_table e1 ?U = Some (16, concat (map encode_unwind_addr ps))"
    "\<And>m. m \<noteq> ?U \<Longrightarrow> get_table e1 m = get_table e m"
    "get_section_by_name e1 = get_section_by_name e" "e_machine e1 = e_machine e"
    "\<exists>i bs. shstrndx e \<noteq> Some i \<and> i < length (scns e) \<and> e1 = put_scn e i ((scns e ! i)\<lparr>d_bufs := [Some bs]\<rparr>)"
  proof (rule update_function_addr_ok [of e ?U uas])
    show "wf_elf e" "get_table e ?U = Some (16, concat (map encode_unwind_addr uas))" "uas \<noteq> []" "length uas * 16 < 2 ^ 64"
      using ok ulen by simp_all
  qed (rule that)
  have len: "length ps = length uas" using arg_cong [OF e1(3), of size] by simp
  have "mset (map ua_addr ps) = mset (map ua_addr uas)"
    using e1(3) by (metis addr_with_offsets mset_map)
  then have "distinct (map ua_addr ps)" using ok by (metis mset_eq_imp_distinct_iff)
  then have strict: "sorted_wrt (\<lambda>a b. ua_addr a < ua_addr b) ps"
    using e1(4) strict_sorted_iff [of "map ua_addr ps"] by (simp add: sorted_wrt_map)
  have "ua_addr ` set ps = ua_addr ` set uas"
    using \<open>mset (map ua_addr ps) = mset (map ua_addr uas)\<close> by (metis set_map set_mset_mset)
  then have "\<exists>u \<in> set ps. ua_addr u \<le> a" if "\<exists>u \<in> set uas. ua_addr u \<le> a" for a
    using that by (metis (no_types, lifting) image_iff)
  then have use: "usable ps ms" using ok strict len by (auto simp: usable_def)
  obtain i where i: "get_section_by_name e1 ?U = Some i" "i < length (scns e1)" "readable (scns e1 ! i)"
    "d_bufs (scns e1 ! i) = [Some (concat (map encode_unwind_addr ps))]"
    "sh_size (scns e1 ! i) = of_nat (length (concat (map encode_unwind_addr ps)))" "16 = unat (sh_entsize (scns e1 ! i))"
    by (rule get_tableE [OF e1(5,2)]) blast
  have ent: "sh_entsize (scns e1 ! i) = 16"
  proof -
    have "of_nat (unat (sh_entsize (scns e1 ! i))) = (of_nat 16 :: u64)" by (simp only: i(6) [symmetric])
    then show ?thesis by simp
  qed
  have num: "sh_size (scns e1 ! i) div 16 = of_nat (length ps)"
    using table_count [of ps] i(5) ulen len by simp
  have num': "unat (of_nat (length ps) :: u64) = length ps"
    using ok len by (simp add: unat_of_nat take_bit_nat_eq_self)
  have "sh_size (scns e1 ! i) \<noteq> 0"
  proof
    assume "sh_size (scns e1 ! i) = 0"
    then show False using num num' len ok by simp
  qed
  note create = create_ok [OF sms(2) use num' count_ok [OF sms(2)], of ?arch stale start_id]
  let ?st = "sites_done ?arch stale ps start_id ?xs"
  let ?ids = "qsort cs_id (out_sites ?st)" and ?addrs = "qsort cs_addr (qsort cs_id (out_sites ?st))"
  have rooms: "room e1 SECTION_ST_ID 52" "room e1 SECTION_ST_ADDR 52" "room e1 SECTION_ST_LIVE 12"
    "room e1 SECTION_ST_ARCH_LIVE 20"
    using ok e1(6,7) by (auto simp: room_def)
  have names: "good_name SECTION_ST_ID" "good_name SECTION_ST_ADDR" "good_name SECTION_ST_LIVE" "good_name SECTION_ST_ARCH_LIVE"
    by (simp_all add: good_name_def TOOL_BUF_SIZE_def)
  obtain a b c d where p: "put_section e1 SECTION_ST_ID 52 (concat (map encode_call_site ?ids)) = Inr (SUCCESS, a)"
    "put_section a SECTION_ST_ADDR 52 (concat (map encode_call_site ?addrs)) = Inr (SUCCESS, b)"
    "put_section b SECTION_ST_LIVE 12 (out_locs ?st) = Inr (SUCCESS, c)"
    "put_section c SECTION_ST_ARCH_LIVE 20 (out_archs ?st) = Inr (SUCCESS, d)" "wf_elf d"
    and t: "get_table d SECTION_ST_ID = Some (52, concat (map encode_call_site ?ids))"
    "get_table d SECTION_ST_ADDR = Some (52, concat (map encode_call_site ?addrs))"
    "get_table d SECTION_ST_LIVE = Some (12, out_locs ?st)" "get_table d SECTION_ST_ARCH_LIVE = Some (20, out_archs ?st)"
    and other: "\<forall>m. m \<notin> {SECTION_ST_ID, SECTION_ST_ADDR, SECTION_ST_LIVE, SECTION_ST_ARCH_LIVE} \<longrightarrow> get_table d m = get_table e1 m"
    and mach: "e_machine d = e_machine e1"
    using elf_tables.put_four [OF e1(2) _ names rooms, of "concat (map encode_call_site ?ids)"
        "concat (map encode_call_site ?addrs)" "out_locs ?st" "out_archs ?st"] by auto
  obtain e' where e': "layout_sections d 4 = (SUCCESS, e')" "only_moved d e'" "laid_out e' 4"
    "\<forall>j<length (scns d) - 4. scns e' ! j = scns d ! j"
    using layout_ok [OF p(5)] by blast
  note tables = only_moved_tables [OF e'(2) p(5)]
  have names': "buffer_name ''.stack_transform'' ''id'' = SECTION_ST_ID" "buffer_name ''.stack_transform'' ''addr'' = SECTION_ST_ADDR"
    "buffer_name ''.stack_transform'' ''live'' = SECTION_ST_LIVE" "buffer_name ''.stack_transform'' ''arch_const'' = SECTION_ST_ARCH_LIVE"
    by (simp_all add: buffer_name_def TOOL_BUF_SIZE_def)
  have recs: "records 16 decode_unwind_addr (concat (map encode_unwind_addr ps)) = ps"
    by (rule unwind_addr_packed.records_section)
  have fits: "\<forall>m \<in> set ms. module_fits m" using ok by blast
  have add: "add_sections ?arch stale e1 ?bs sms ''.stack_transform'' start_id ?U = Inr (SUCCESS, e')"
    using i(1,2,3,4) ent num recs create [OF fits] p(1,2,3,4) e'(1) \<open>sh_size (scns e1 ! i) \<noteq> 0\<close>
    unfolding add_sections_def
    by (simp add: elf_getscn_def section_data_def get_num_data_blocks_def elf_getdata_def Let_def names' succeed_def)
  show thesis
  proof
    show "gen_stackinfo base stale ''.stack_transform'' start_id e = Inr e'"
      using sms(1) e1(1,8) add by (simp add: gen_stackinfo_def Let_def check_ret_def)
    show "get_table e' ?U = Some (16, concat (map encode_unwind_addr ps))"
      "get_table e' SECTION_ST_UNWIND = Some (4, concat (map encode_unwind_loc uls))"
      using other e1(5,6) ok by (simp_all add: tables)
    show "put_section b SECTION_ST_LIVE 12 (concat (map encode_live_value (all_locations ?xs))) = Inr (SUCCESS, c)"
      "put_section c SECTION_ST_ARCH_LIVE 20 (concat (map encode_arch_live_value (all_archs ?xs))) = Inr (SUCCESS, d)"
      using p(3,4) by (simp_all add: sites_done_sizes)
  qed (use e' t mach e1 strict p in \<open>simp_all add: tables only_moved_def sites_done_sizes\<close>)
qed

section \<open>Where the sections are in the file\<close>

text \<open>The bytes of a section in the file; one of type \<open>SHT_NOBITS\<close> (8), like \<open>.bss\<close>, has none.\<close>

definition in_file :: "elf_scn \<Rightarrow> nat set" where
  "in_file s = (if sh_type s = 8 then {} else {unat (sh_offset s)..<unat (sh_offset s) + unat (sh_size s)})"

definition sections_apart :: "elf_file \<Rightarrow> bool" where
  "sections_apart e \<longleftrightarrow> (\<forall>i j. 0 < i \<longrightarrow> i < j \<longrightarrow> j < length (scns e) \<longrightarrow> in_file (scns e ! i) \<inter> in_file (scns e ! j) = {})"

text \<open>
  A binary that the tool has not been run on, whose sections do not overlap, with the table of section names behind
  all others. That the table comes last is needed: it grows in place, and the tool moves only its own sections.
\<close>

definition linked :: "elf_file \<Rightarrow> bool" where
  "linked e \<longleftrightarrow> sections_apart e \<and>
     (\<forall>name \<in> {SECTION_ST_ID, SECTION_ST_ADDR, SECTION_ST_LIVE, SECTION_ST_ARCH_LIVE}. get_section_by_name e name = None) \<and>
     (\<exists>tab. shstrndx e = Some (length (scns e) - 1) \<and> d_bufs (scns e ! (length (scns e) - 1)) = [Some tab] \<and>
        unat (sh_offset (scns e ! (length (scns e) - 1))) + length tab < 2 ^ 61) \<and>
     (\<forall>i. 0 < i \<longrightarrow> i < length (scns e) - 1 \<longrightarrow>
        in_file (scns e ! i) \<subseteq> {..<unat (sh_offset (scns e ! (length (scns e) - 1)))})"

lemma unat_add_small: "unat (x :: u64) + unat y < 2 ^ 64 \<Longrightarrow> unat (x + y) = unat x + unat y"
  by (simp add: unat_word_ariths)

text \<open>Sections one behind the other do not overlap.\<close>

lemma chain_apart:
  fixes lo sz :: "nat \<Rightarrow> nat"
  assumes "\<And>k. n \<le> k \<Longrightarrow> k < m \<Longrightarrow> lo k = lo (k - 1) + sz (k - 1)" "0 < n" "n - 1 \<le> i" "i < j" "j < m"
  shows "lo i + sz i \<le> lo j"
  using assms(4,5)
proof (induction j)
  case (Suc j)
  have "lo (Suc j) = lo j + sz j" using assms(1) [of "Suc j"] assms(2,3) Suc.prems by simp
  then show ?case using Suc by (cases "i = j") auto
qed simp

text \<open>The file while new sections are put behind its first \<open>n\<close> sections, of which number \<open>x\<close> is the table of names.\<close>

definition grown :: "nat \<Rightarrow> nat \<Rightarrow> elf_file \<Rightarrow> nat \<Rightarrow> elf_file \<Rightarrow> bool" where
  "grown x n e0 k e \<longleftrightarrow> wf_elf e \<and> shstrndx e = Some x \<and> x < n \<and> length (scns e) = n + k \<and>
     (\<forall>j<n. j \<noteq> x \<longrightarrow> scns e ! j = scns e0 ! j) \<and> sh_offset (scns e ! x) = sh_offset (scns e0 ! x) \<and>
     (\<exists>t t0. d_bufs (scns e0 ! x) = [Some t0] \<and> d_bufs (scns e ! x) = [Some t] \<and> length t \<le> length t0 + k * TOOL_BUF_SIZE \<and>
        (0 < k \<longrightarrow> sh_size (scns e ! x) = of_nat (length t))) \<and>
     (\<forall>j<k. unat (sh_size (scns e ! (n + j))) \<le> 52 * 2 ^ 56)"

lemma grown_put:
  assumes g: "grown x n e0 k e" and name: "good_name name" and new: "get_section_by_name e name = None"
    and put: "put_section e name m bytes = Inr (r, e')" and len: "length bytes \<le> 52 * 2 ^ 56"
  shows "grown x n e0 (Suc k) e'" "l \<noteq> name \<Longrightarrow> get_section_by_name e' l = get_section_by_name e l"
proof -
  obtain t t0 where t: "wf_elf e" "shstrndx e = Some x" "d_bufs (scns e ! x) = [Some t]" "d_bufs (scns e0 ! x) = [Some t0]"
    "length t \<le> length t0 + k * TOOL_BUF_SIZE"
    using g by (auto simp: grown_def)
  obtain t' where n: "wf_elf e'" "\<And>m. m \<noteq> name \<Longrightarrow> get_section_by_name e' m = get_section_by_name e m"
    "shstrndx e' = Some x" "length (scns e') = Suc (length (scns e))"
    "\<And>i. i < length (scns e) \<Longrightarrow> i \<noteq> x \<Longrightarrow> scns e' ! i = scns e ! i"
    "d_bufs (scns e' ! x) = [Some t']" "length t' = length t + length name + 1"
    "sh_offset (scns e' ! x) = sh_offset (scns e ! x)" "sh_size (scns e' ! x) = of_nat (length t')"
    "sh_size (scns e' ! length (scns e)) = of_nat (length bytes)"
    by (rule put_new [OF t(1) name new put t(2,3)]) blast
  have "unat (of_nat (length bytes) :: u64) = length bytes" using len by (simp add: unat_of_nat take_bit_nat_eq_self)
  moreover have "length name + 1 \<le> TOOL_BUF_SIZE" using name by (simp add: good_name_def)
  ultimately show "grown x n e0 (Suc k) e'"
    using g n t len by (auto simp: grown_def less_Suc_eq)
  show "l \<noteq> name \<Longrightarrow> get_section_by_name e' l = get_section_by_name e l" by (rule n(2))
qed

lemma gen_stackinfo_apart:
  assumes ok: "input_ok base e start_id ms uas uls" and lk: "linked e"
    and run: "gen_stackinfo base stale ''.stack_transform'' start_id e = Inr e'"
  shows "sections_apart e'"
proof -
  define n where "n = length (scns e)"
  define x where "x = n - 1"
  obtain ps e1 a b c d where f: "laid_out e' 4" "mset ps = mset (with_offsets uas)"
    "\<exists>i bs. shstrndx e \<noteq> Some i \<and> i < length (scns e) \<and> e1 = put_scn e i ((scns e ! i)\<lparr>d_bufs := [Some bs]\<rparr>)"
    "wf_elf e1" "get_section_by_name e1 = get_section_by_name e"
    "put_section e1 SECTION_ST_ID 52 (concat (map encode_call_site
       (qsort cs_id (out_sites (sites_done (e_machine e) stale ps start_id (flat ms)))))) = Inr (SUCCESS, a)"
    "put_section a SECTION_ST_ADDR 52 (concat (map encode_call_site
       (qsort cs_addr (qsort cs_id (out_sites (sites_done (e_machine e) stale ps start_id (flat ms))))))) = Inr (SUCCESS, b)"
    "put_section b SECTION_ST_LIVE 12 (concat (map encode_live_value (all_locations (flat ms)))) = Inr (SUCCESS, c)"
    "put_section c SECTION_ST_ARCH_LIVE 20 (concat (map encode_arch_live_value (all_archs (flat ms)))) = Inr (SUCCESS, d)"
    "only_moved d e'" "\<forall>j<length (scns d) - 4. scns e' ! j = scns d ! j"
    by (rule gen_stackinfo_tables [OF ok, of stale]) (use run in auto)
  have last_one: "length (scns e) - 1 = x" by (simp add: n_def x_def)
  have n: "0 < x" "n = Suc x" using ok by (auto simp: input_ok_def wf_elf_def n_def x_def)
  obtain tab where tab: "shstrndx e = Some x" "d_bufs (scns e ! x) = [Some tab]" "unat (sh_offset (scns e ! x)) + length tab < 2 ^ 61"
    and new: "get_section_by_name e SECTION_ST_ID = None" "get_section_by_name e SECTION_ST_ADDR = None"
      "get_section_by_name e SECTION_ST_LIVE = None" "get_section_by_name e SECTION_ST_ARCH_LIVE = None"
    and before: "\<And>i. 0 < i \<Longrightarrow> i < x \<Longrightarrow> in_file (scns e ! i) \<subseteq> {..<unat (sh_offset (scns e ! x))}"
    and ap: "sections_apart e"
    using lk unfolding linked_def last_one by auto
  obtain i bs where i0: "Some x \<noteq> Some i" "i < n" "e1 = put_scn e i ((scns e ! i)\<lparr>d_bufs := [Some bs]\<rparr>)"
    using f(3) unfolding tab(1) n_def [symmetric] by blast
  then have i: "i \<noteq> x" "i < n" "e1 = put_scn e i ((scns e ! i)\<lparr>d_bufs := [Some bs]\<rparr>)" by auto
  have e1: "shstrndx e1 = Some x" "length (scns e1) = n" "scns e1 ! x = scns e ! x"
    "in_file (scns e1 ! j) = in_file (scns e ! j)" for j
    using i tab(1) by (auto simp: put_scn_def n_def in_file_def nth_list_update)
  have names: "good_name SECTION_ST_ID" "good_name SECTION_ST_ADDR" "good_name SECTION_ST_LIVE" "good_name SECTION_ST_ARCH_LIVE"
    by (simp_all add: good_name_def TOOL_BUF_SIZE_def)
  have g0: "grown x n e1 0 e1" using f(4) e1 tab(2) n by (auto simp: grown_def)
  have len: "length ps = length uas" using arg_cong [OF f(2), of size] by simp
  let ?sites = "out_sites (sites_done (e_machine e) stale ps start_id (flat ms))"
  have small: "length (concat (map encode_call_site (qsort cs_id ?sites))) \<le> 52 * 2 ^ 56"
    "length (concat (map encode_call_site (qsort cs_addr (qsort cs_id ?sites)))) \<le> 52 * 2 ^ 56"
    "length (concat (map encode_live_value (all_locations (flat ms)))) \<le> 52 * 2 ^ 56"
    "length (concat (map encode_arch_live_value (all_archs (flat ms)))) \<le> 52 * 2 ^ 56"
    using ok by (simp_all add: input_ok_def call_site_packed.length_section live_value_packed.length_section
        arch_live_value_packed.length_section qsort.length_sort sites_done_sizes)
  have no: "get_section_by_name e1 m = get_section_by_name e m" for m using f(5) by simp
  note g1 = grown_put [OF g0 names(1) _ f(6) small(1)]
  have g1: "grown x n e1 1 a" "\<And>m. m \<noteq> SECTION_ST_ID \<Longrightarrow> get_section_by_name a m = get_section_by_name e m"
    using g1 no new(1) by simp_all
  note g2 = grown_put [OF g1(1) names(2) _ f(7) small(2)]
  have g2: "grown x n e1 2 b" "\<And>m. m \<notin> {SECTION_ST_ID, SECTION_ST_ADDR} \<Longrightarrow> get_section_by_name b m = get_section_by_name e m"
    using g2 g1(2) new(2) by (simp_all add: numeral_2_eq_2)
  note g3 = grown_put [OF g2(1) names(3) _ f(8) small(3)]
  have g3: "grown x n e1 3 c" "\<And>m. m \<notin> {SECTION_ST_ID, SECTION_ST_ADDR, SECTION_ST_LIVE} \<Longrightarrow> get_section_by_name c m = get_section_by_name e m"
    using g3 g2(2) new(3) by (simp_all add: numeral_3_eq_3 numeral_2_eq_2)
  note g4 = grown_put [OF g3(1) names(4) _ f(9) small(4)]
  have g4: "grown x n e1 4 d" using g4(1) g3(2) new(4) by (simp add: eval_nat_numeral)
  obtain t :: "u8 list" where t: "length (scns d) = n + 4" "\<And>j. j < n \<Longrightarrow> j \<noteq> x \<Longrightarrow> scns d ! j = scns e1 ! j"
    "sh_offset (scns d ! x) = sh_offset (scns e ! x)" "length t \<le> length tab + 4 * TOOL_BUF_SIZE"
    "sh_size (scns d ! x) = of_nat (length t)" "\<And>j. j < 4 \<Longrightarrow> unat (sh_size (scns d ! (n + j))) \<le> 52 * 2 ^ 56"
  proof -
    obtain t t0 where "d_bufs (scns e1 ! x) = [Some t0]" "d_bufs (scns d ! x) = [Some t]" "length t \<le> length t0 + 4 * TOOL_BUF_SIZE" "sh_size (scns d ! x) = of_nat (length t)"
      using g4 unfolding grown_def by fastforce
    then show thesis using g4 tab(2) e1(3) by (intro that [of t]) (simp_all add: grown_def)
  qed
  define lo where "lo k = unat (sh_offset (scns e' ! k))" for k
  define sz where "sz k = unat (sh_size (scns e' ! k))" for k
  have len': "length (scns e') = n + 4" using f(10) t(1) by (simp add: only_moved_def)
  have size: "sh_size (scns e' ! k) = sh_size (scns d ! k)" if "k < n + 4" for k
    using f(10) t(1) that by (auto simp: only_moved_def)
  have old: "scns e' ! k = scns d ! k" if "k < n" for k using f(11) t(1) that by simp
  have start: "lo x = unat (sh_offset (scns e ! x))" "lo x + sz x < 2 ^ 61 + 4 * TOOL_BUF_SIZE"
  proof -
    show lo: "lo x = unat (sh_offset (scns e ! x))" using old [of x] t(3) n by (simp add: lo_def)
    have "length t < 2 ^ 64" using t(4) tab(3) by (simp add: TOOL_BUF_SIZE_def)
    then have "sz x = length t" using size [of x] t(5) n by (simp add: sz_def unat_of_nat take_bit_nat_eq_self)
    then show "lo x + sz x < 2 ^ 61 + 4 * TOOL_BUF_SIZE" using lo t(4) tab(3) by simp
  qed
  have sizes: "sz (n + j) \<le> 52 * 2 ^ 56" if "j < 4" for j using t(6) [OF that] size [of "n + j"] that by (simp add: sz_def)
  have next_off: "sh_offset (scns e' ! k) = sh_offset (scns e' ! (k - 1)) + sh_size (scns e' ! (k - 1))" if "n \<le> k" "k < n + 4" for k
    using f(1) len' that by (auto simp: laid_out_def)
  have "lo (n + j) = lo (n + j - 1) + sz (n + j - 1) \<and> lo (n + j) + sz (n + j) < 2 ^ 61 + 4 * TOOL_BUF_SIZE + (j + 1) * (52 * 2 ^ 56) + 1"
    if "j < 4" for j
    using that
  proof (induction j)
    case 0
    have "n - 1 = x" using n by simp
    then show ?case
      using next_off [of n] start(2) sizes [of 0] unat_add_small [of "sh_offset (scns e' ! x)" "sh_size (scns e' ! x)"]
      by (simp add: lo_def sz_def TOOL_BUF_SIZE_def)
  next
    case (Suc j)
    have b: "lo (n + j) + sz (n + j) < 2 ^ 61 + 4 * TOOL_BUF_SIZE + (j + 1) * (52 * 2 ^ 56) + 1" "j < 3" using Suc by simp_all
    then have "(j + 1) * (52 * 2 ^ 56) \<le> 3 * (52 * 2 ^ 56 :: nat)" by (intro mult_le_mono1) simp
    then have "lo (n + j) + sz (n + j) < 2 ^ 64" using b(1) by (simp add: TOOL_BUF_SIZE_def)
    then have "lo (n + Suc j) = lo (n + j) + sz (n + j)"
      using next_off [of "n + Suc j"] unat_add_small [of "sh_offset (scns e' ! (n + j))" "sh_size (scns e' ! (n + j))"] Suc.prems
      by (simp add: lo_def sz_def)
    then show ?case using b sizes [of "Suc j"] Suc.prems by simp
  qed
  note chain = this
  have chain: "lo k = lo (k - 1) + sz (k - 1)" if "n \<le> k" "k < n + 4" for k
    using chain [of "k - n"] that by simp
  have bytes: "in_file (scns e' ! k) \<subseteq> {lo k..<lo k + sz k}" for k by (auto simp: in_file_def lo_def sz_def)
  have same: "in_file (scns e' ! k) = in_file (scns e ! k)" if "k < x" for k
    using old [of k] t(2) [of k] e1(4) [of k] that n by simp
  show ?thesis
    unfolding sections_apart_def len'
  proof (intro allI impI)
    fix i j assume ij: "0 < i" "i < j" "j < n + 4"
    consider "j < x" | "i < x" "x \<le> j" | "x \<le> i" by linarith
    then show "in_file (scns e' ! i) \<inter> in_file (scns e' ! j) = {}"
    proof cases
      case 1
      then show ?thesis using ap ij n by (simp add: sections_apart_def same n_def [symmetric])
    next
      case 2
      have "lo x + sz x \<le> lo j" if "x < j"
        by (rule chain_apart [of n "n + 4" lo sz x j, OF chain]) (use n ij that in simp_all)
      then have "lo x \<le> lo j" using 2(2) by (cases "x = j") simp_all
      then have "{..<lo x} \<inter> {lo j..<lo j + sz j} = {}" by auto
      moreover have "in_file (scns e' ! i) \<subseteq> {..<lo x}" using before [OF ij(1) 2(1)] same [OF 2(1)] start(1) by simp
      ultimately show ?thesis using bytes [of j] by blast
    next
      case 3
      have "lo i + sz i \<le> lo j"
        by (rule chain_apart [of n "n + 4" lo sz i j, OF chain]) (use n ij 3 in simp_all)
      then have "{lo i..<lo i + sz i} \<inter> {lo j..<lo j + sz j} = {}" by auto
      then show ?thesis using bytes [of i] bytes [of j] by blast
    qed
  qed
qed

section \<open>Reading the tables back\<close>

lemma unat_of_nat_small [simp]: "n < 2 ^ 64 \<Longrightarrow> unat (of_nat n :: u64) = n"
  by (simp add: unat_of_nat take_bit_nat_eq_self)

lemma all_split:
  assumes "k < length xs"
  shows "all_locations xs = all_locations (take k xs) @ m_locations (snd (xs ! k)) @ all_locations (drop (Suc k) xs)"
    and "all_archs xs = all_archs (take k xs) @ m_archs (snd (xs ! k)) @ all_archs (drop (Suc k) xs)"
  using arg_cong [OF id_take_nth_drop [OF assms], of all_locations]
    arg_cong [OF id_take_nth_drop [OF assms], of all_archs] by simp_all

lemma flat_fits:
  assumes "\<forall>m \<in> set ms. module_fits m" "x \<in> set (flat ms)"
  shows "site_fits (snd x)"
  using assms by (auto simp: flat_def module_fits_def)

lemma slices:
  assumes "k < length xs" "length (all_locations xs) < 2 ^ 56" "length (all_archs xs) < 2 ^ 56" "site_fits (snd (xs ! k))"
    and cs_def: "cs = out_sites (sites_done arch stale tab start_id xs) ! k"
  shows "take (unat (num_live cs)) (drop (unat (live_offset cs)) (all_locations xs)) = m_locations (snd (xs ! k))"
    and "take (unat (num_arch_live cs)) (drop (unat (arch_live_offset cs)) (all_archs xs)) = m_archs (snd (xs ! k))"
proof -
  note split = all_split [OF assms(1)]
  have le: "length (all_locations (take k xs)) < 2 ^ 64" "length (all_archs (take k xs)) < 2 ^ 64"
    using assms(2,3) arg_cong [OF split(1), of length] arg_cong [OF split(2), of length] by simp_all
  have cs: "num_live cs = of_nat (length (m_locations (snd (xs ! k))))"
    "live_offset cs = of_nat (length (all_locations (take k xs)))"
    "num_arch_live cs = of_nat (length (m_archs (snd (xs ! k))))"
    "arch_live_offset cs = of_nat (length (all_archs (take k xs)))"
    using sites_done_nth [OF assms(1)] by (simp_all add: cs_def entry_of_def split_beta sites_done_sizes)
  have n: "unat (num_live cs) = length (m_locations (snd (xs ! k)))" "unat (num_arch_live cs) = length (m_archs (snd (xs ! k)))"
    using assms(4) cs by (simp_all add: site_fits_def)
  have o: "unat (live_offset cs) = length (all_locations (take k xs))"
    "unat (arch_live_offset cs) = length (all_archs (take k xs))"
    using le cs by simp_all
  show "take (unat (num_live cs)) (drop (unat (live_offset cs)) (all_locations xs)) = m_locations (snd (xs ! k))"
    unfolding n o by (subst split(1)) simp
  show "take (unat (num_arch_live cs)) (drop (unat (arch_live_offset cs)) (all_archs xs)) = m_archs (snd (xs ! k))"
    unfolding n o by (subst split(2)) simp
qed

lemma sites_keys:
  "map cs_id (out_sites (sites_done arch stale tab start_id xs)) = map (site_number start_id xs) [0..<length xs]"
  "map cs_addr (out_sites (sites_done arch stale tab start_id xs)) = map return_address xs"
  by (rule nth_equalityI; simp add: sites_done_sizes cs_id_nth)
    (rule nth_equalityI; simp add: sites_done_sizes sites_done_nth entry_of_def split_beta)

text \<open>A handle with the tables of the tool serves the unwinder.\<close>

lemma tables_serve:
  assumes ok: "input_ok base e start_id ms uas uls"
    and ps: "mset ps = mset (with_offsets uas)" "sorted_wrt (\<lambda>a b. ua_addr a < ua_addr b) ps"
    and st: "st = sites_done (h_arch h) stale ps start_id (flat ms)"
    and h: "unwind_addrs h = ps" "unwind_addr_count h = of_nat (length ps)" "unwind_locs h = uls"
      "sites_id h = qsort cs_id (out_sites st)" "sites_addr h = qsort cs_addr (qsort cs_id (out_sites st))"
      "sites_count h = of_nat (length (out_sites st))" "live_vals h = all_locations (flat ms)"
      "arch_live_vals h = all_archs (flat ms)"
  shows "serves h start_id ms uas uls"
proof -
  note ok = ok [unfolded input_ok_def]
  let ?xs = "flat ms" and ?sites = "out_sites st"
  have len: "length ps = length uas" using arg_cong [OF ps(1), of size] by simp
  have lenS: "length ?sites = length ?xs" by (simp add: st sites_done_sizes)
  have ids: "distinct (map cs_id ?sites)" using numbers_distinct [of start_id ?xs] ok by (simp add: st sites_keys)
  have addrs: "distinct (map cs_addr ?sites)" using ok by (simp add: st sites_keys)
  have "mset (map cs_addr (qsort cs_id ?sites)) = mset (map cs_addr ?sites)" by (simp add: qsort.mset_sort)
  then have addrs': "distinct (map cs_addr (qsort cs_id ?sites))" using addrs by (metis mset_eq_imp_distinct_iff)
  have "unat (of_nat (length ?sites) :: u64) = length ?sites" using lenS ok by simp
  then have cnt: "sint ((of_nat (length ?sites) :: u64) - 1) = int (length ?sites) - 1"
    using sint_pred [of "of_nat (length ?sites)"] lenS ok by simp
  have wf: "wf_sites h"
    using h cnt qsort.strict_sort [OF ids] qsort.strict_sort [OF addrs'] by (simp add: wf_sites_def qsort.length_sort)
  have wfu: "wf_unwind_addrs h"
    using h ps(2) len ok by (simp add: wf_unwind_addrs_def)
  have "finds_site h start_id ?xs uas k" if k: "k < length ?xs" for k
  proof -
    define cs where "cs = ?sites ! k"
    have mem: "cs \<in> set (sites_addr h)" "cs \<in> set (sites_id h)"
      using k lenS h by (simp_all add: qsort.set_sort cs_def)
    have key: "cs_id cs = site_number start_id ?xs k" "cs_addr cs = return_address (?xs ! k)"
      using cs_id_nth [OF k] k by (simp_all add: cs_def st) (simp add: sites_done_nth entry_of_def split_beta)
    have x: "?xs ! k \<in> set ?xs" using k by simp
    then obtain i where i: "encloses uas i (return_address (?xs ! k))"
      "enclosing ps (return_address (?xs ! k)) = Some ((uas ! i)\<lparr>ua_unwind_offset := ucast (offset_before uas i)\<rparr>)"
      using enclosing_sorted [OF ps] ok by metis
    have "i \<le> length uas" using i(1) by (simp add: encloses_def)
    then have off: "unat (cs_unwind_offset cs) = unwind_total uas i"
      using offset_before_total [of uas i] ok k i(2) by (simp add: cs_def st sites_done_nth entry_of_def split_beta)
    have sf: "site_fits (snd (?xs ! k))" using flat_fits x ok by blast
    have "get_site_by_addr h (return_address (?xs ! k)) = Inr (Some cs)"
      "get_site_by_id h (site_number start_id ?xs k) = Inr (Some cs)"
      using by_addr.search_own_key [OF wf mem(1)] by_id.search_own_key [OF wf mem(2)] key by simp_all
    moreover have "frame_size cs = ucast (cfa_correction (h_arch h) (stack_size (fst (?xs ! k))))"
      "cs_num_unwind cs = ucast (fr_num_unwind (fst (?xs ! k)))"
      using k by (simp_all add: cs_def st sites_done_nth entry_of_def split_beta)
    moreover have "take (unat (num_live cs)) (drop (unat (live_offset cs)) (live_vals h)) = m_locations (snd (?xs ! k))"
      "take (unat (num_arch_live cs)) (drop (unat (arch_live_offset cs)) (arch_live_vals h)) = m_archs (snd (?xs ! k))"
      using slices [OF k _ _ sf] ok h by (simp_all add: cs_def st)
    ultimately show ?thesis using key i(1) off unfolding finds_site_def by blast
  qed
  then show ?thesis using wf wfu h by (simp add: serves_def)
qed

text \<open>
  What the tool leaves to libelf: a file whose sections do not overlap is read back as it was written. (The tool has set the flag by
  which the layout is its own business; sections that overlap overwrite one another.)
\<close>

definition reads_back :: "elf_lib \<Rightarrow> nat \<Rightarrow> elf_file \<Rightarrow> bool" where
  "reads_back lib d e \<longleftrightarrow> (sections_apart e \<longrightarrow> sees lib d e)"

lemma tool_serves:
  assumes "input_ok base e start_id ms uas uls" "linked e"
  obtains e' where "gen_stackinfo base stale ''.stack_transform'' start_id e = Inr e'" "laid_out e' 4" "sections_apart e'"
    "\<And>lib fn d r. lib_malloc lib \<Longrightarrow> 0 \<le> lib_open lib fn \<Longrightarrow> lib_begin lib (lib_open lib fn) = Some d \<Longrightarrow> reads_back lib d e' \<Longrightarrow>
       \<exists>h. fst (st_init lib (Some fn) r) = Some h \<and> h_arch h = e_machine e \<and> serves h start_id ms uas uls"
proof -
  obtain e' ps where e': "gen_stackinfo base stale ''.stack_transform'' start_id e = Inr e'" "wf_elf e'" "laid_out e' 4"
    "e_machine e' = e_machine e" "mset ps = mset (with_offsets uas)" "sorted_wrt (\<lambda>a b. ua_addr a < ua_addr b) ps"
    "get_table e' SECTION_ST_UNWIND_ADDR = Some (16, concat (map encode_unwind_addr ps))"
    "get_table e' SECTION_ST_UNWIND = Some (4, concat (map encode_unwind_loc uls))"
    "get_table e' SECTION_ST_ID = Some (52, concat (map encode_call_site
       (qsort cs_id (out_sites (sites_done (e_machine e) stale ps start_id (flat ms))))))"
    "get_table e' SECTION_ST_ADDR = Some (52, concat (map encode_call_site
       (qsort cs_addr (qsort cs_id (out_sites (sites_done (e_machine e) stale ps start_id (flat ms)))))))"
    "get_table e' SECTION_ST_LIVE = Some (12, concat (map encode_live_value (all_locations (flat ms))))"
    "get_table e' SECTION_ST_ARCH_LIVE = Some (20, concat (map encode_arch_live_value (all_archs (flat ms))))"
    by (rule gen_stackinfo_tables [OF assms(1), of stale], rule that)
  note ok = assms(1) [unfolded input_ok_def]
  let ?st = "sites_done (e_machine e) stale ps start_id (flat ms)"
  have len: "length ps = length uas" "length (out_sites ?st) = length (flat ms)"
    using arg_cong [OF e'(5), of size] by (simp_all add: sites_done_sizes)
  have ne: "ps \<noteq> []" "qsort cs_id (out_sites ?st) \<noteq> []"
    using len ok qsort.length_sort [of cs_id "out_sites ?st"] by auto
  obtain props ops where mach: "get_properties (e_machine e) = Some props" "get_regops (e_machine e) = Some ops"
    using ok by (auto simp: get_properties_def get_regops_def split: if_splits)
  have ap: "sections_apart e'" by (rule gen_stackinfo_apart [OF assms e'(1)])
  have "\<exists>h. fst (st_init lib (Some fn) r) = Some h \<and> h_arch h = e_machine e \<and> serves h start_id ms uas uls"
    if lib: "lib_malloc lib" "0 \<le> lib_open lib fn" "lib_begin lib (lib_open lib fn) = Some d" "reads_back lib d e'" for lib fn d r
  proof -
    have sees: "sees lib d e'" using lib(4) ap by (simp add: reads_back_def)
    have small: "length ps * 16 < 2 ^ 64" "length uls * 4 < 2 ^ 64" "length (qsort cs_id (out_sites ?st)) * 52 < 2 ^ 64"
      "length (qsort cs_addr (qsort cs_id (out_sites ?st))) * 52 < 2 ^ 64"
      "length (all_locations (flat ms)) * 12 < 2 ^ 64" "length (all_archs (flat ms)) * 20 < 2 ^ 64"
      using ok len by (simp_all add: qsort.length_sort)
    have holds: "holds lib d SECTION_ST_UNWIND_ADDR 16 encode_unwind_addr ps"
      "holds lib d SECTION_ST_UNWIND 4 encode_unwind_loc uls"
      "holds lib d SECTION_ST_ID 52 encode_call_site (qsort cs_id (out_sites ?st))"
      "holds lib d SECTION_ST_ADDR 52 encode_call_site (qsort cs_addr (qsort cs_id (out_sites ?st)))"
      "holds lib d SECTION_ST_LIVE 12 encode_live_value (all_locations (flat ms))"
      "holds lib d SECTION_ST_ARCH_LIVE 20 encode_arch_live_value (all_archs (flat ms))"
      by (rule holds_view [OF e'(2) sees e'(7) unwind_addr_packed.length_enc small(1)]
          holds_view [OF e'(2) sees e'(8) unwind_loc_packed.length_enc small(2)]
          holds_view [OF e'(2) sees e'(9) call_site_packed.length_enc small(3)]
          holds_view [OF e'(2) sees e'(10) call_site_packed.length_enc small(4)]
          holds_view [OF e'(2) sees e'(11) live_value_packed.length_enc small(5)]
          holds_view [OF e'(2) sees e'(12) arch_live_value_packed.length_enc small(6)]; simp)+
    have m: "lib_machine lib d = Some (e_machine e)" "lib_class lib d = Some 2" using sees e'(4) by (simp_all add: sees_def)
    have "uls \<noteq> []" using ok by blast
    note opened = st_init_handle [OF lib(1-3) m mach(2,1) holds(1) ne(1) holds(2) this holds(3,4) ne(2) holds(5,6), of r]
    show ?thesis
      unfolding opened
      by (intro exI conjI, rule refl, simp, rule tables_serve [OF assms(1) e'(5,6)])
        (simp_all add: qsort.length_sort)
  qed
  then show thesis using e'(1,3) ap that by blast
qed

text \<open>
  C11: The tool and the run-time library fit together. On a binary as the compiler and the linker leave it, with the table of
  section names behind all other sections, the tool succeeds, and in the file no two sections overlap; the new ones lie one behind
  the other at its end. When the library then opens the file, and libelf reads back what was written, it gets a
  handle whose tables are strictly sorted, as its binary searches need them, and for every call site of every module it finds one
  record, from the return address and from the number alike: with the size of the frame, exactly the
  live values and architecture-specific values that the compiler recorded, and the first unwinding record of the
  function that encloses the return address.
\<close>

theorem metadata_tool_serves_library:
  assumes "input_ok base e start_id ms uas uls" "linked e"
  shows "\<exists>e'. gen_stackinfo base stale ''.stack_transform'' start_id e = Inr e' \<and> laid_out e' 4 \<and> sections_apart e' \<and>
    (\<forall>lib fn d r. lib_malloc lib \<and> 0 \<le> lib_open lib fn \<and> lib_begin lib (lib_open lib fn) = Some d \<and> reads_back lib d e' \<longrightarrow>
       (\<exists>h. fst (st_init lib (Some fn) r) = Some h \<and> h_arch h = e_machine e \<and> serves h start_id ms uas uls))"
proof -
  obtain e' where "gen_stackinfo base stale ''.stack_transform'' start_id e = Inr e'" "laid_out e' 4" "sections_apart e'"
    "\<And>lib fn d r. lib_malloc lib \<Longrightarrow> 0 \<le> lib_open lib fn \<Longrightarrow> lib_begin lib (lib_open lib fn) = Some d \<Longrightarrow> reads_back lib d e' \<Longrightarrow>
       \<exists>h. fst (st_init lib (Some fn) r) = Some h \<and> h_arch h = e_machine e \<and> serves h start_id ms uas uls"
    by (rule tool_serves [OF assms]) blast
  then show ?thesis by blast
qed

section \<open>The same call site in two binaries\<close>

lemma handles_correspond:
  assumes "serves h start_id ms uas uls" "serves h' start_id ms' uas' uls'"
    and "map (m_id \<circ> snd) (flat ms) = map (m_id \<circ> snd) (flat ms')" "k < length (flat ms)"
  shows "\<exists>a b. get_site_by_addr h (return_address (flat ms ! k)) = Inr (Some a) \<and>
    get_site_by_id h' (cs_id a) = Inr (Some b) \<and> cs_addr b = return_address (flat ms' ! k) \<and>
    take (unat (num_live a)) (drop (unat (live_offset a)) (live_vals h)) = m_locations (snd (flat ms ! k)) \<and>
    take (unat (num_live b)) (drop (unat (live_offset b)) (live_vals h')) = m_locations (snd (flat ms' ! k))"
proof -
  have len: "length (flat ms') = length (flat ms)" using assms(3) by (metis length_map)
  have ids: "m_id (snd (flat ms ! j)) = m_id (snd (flat ms' ! j))" if "j < length (flat ms)" for j
    using that len arg_cong [OF assms(3), of "\<lambda>l. l ! j"] by simp
  have "length (filter ordinary (take j (flat ms))) = length (filter ordinary (take j (flat ms')))"
    if "j \<le> length (flat ms)" for j
    using that len ids by (induction j) (simp_all add: take_Suc_conv_app_nth ordinary_def)
  then have num: "site_number start_id (flat ms) k = site_number start_id (flat ms') k"
    using ids [OF assms(4)] assms(4) by (simp add: site_number_def ordinary_def)
  have "finds_site h start_id (flat ms) uas k" "finds_site h' start_id (flat ms') uas' k"
    using assms len by (simp_all add: serves_def)
  then show ?thesis unfolding finds_site_def num by metis
qed

text \<open>
  C12: A call site is the same in every binary of a program. Two binaries, for two machines, come from modules with the
  same sequence of call sites; the tool is run on both with the same first number, and the library opens both. Then looking up the
  return address of the \<open>k\<close>-th call site in the one, and the number found there in the other, gives the \<open>k\<close>-th call
  site of the other, with its own return address, and the live values found with both are those the compilers recorded.
\<close>

theorem call_sites_correspond:
  assumes "input_ok base e start_id ms uas uls" "linked e" "input_ok base' e' start_id ms' uas' uls'" "linked e'"
    and "map (m_id \<circ> snd) (flat ms) = map (m_id \<circ> snd) (flat ms')" "k < length (flat ms)"
    and "gen_stackinfo base stale ''.stack_transform'' start_id e = Inr out"
    and "gen_stackinfo base' stale' ''.stack_transform'' start_id e' = Inr out'"
    and "lib_malloc lib" "0 \<le> lib_open lib fn" "lib_begin lib (lib_open lib fn) = Some d" "reads_back lib d out"
    and "0 \<le> lib_open lib fn'" "lib_begin lib (lib_open lib fn') = Some d'" "reads_back lib d' out'"
    and "fst (st_init lib (Some fn) r) = Some h" "fst (st_init lib (Some fn') r') = Some h'"
  shows "h_arch h = e_machine e \<and> h_arch h' = e_machine e' \<and>
    (\<exists>a b. get_site_by_addr h (return_address (flat ms ! k)) = Inr (Some a) \<and>
       get_site_by_id h' (cs_id a) = Inr (Some b) \<and> cs_addr b = return_address (flat ms' ! k) \<and>
       take (unat (num_live a)) (drop (unat (live_offset a)) (live_vals h)) = m_locations (snd (flat ms ! k)) \<and>
       take (unat (num_live b)) (drop (unat (live_offset b)) (live_vals h')) = m_locations (snd (flat ms' ! k)))"
proof -
  have "h_arch h = e_machine e \<and> serves h start_id ms uas uls"
  proof (rule tool_serves [OF assms(1,2), of stale])
    fix f
    assume f: "gen_stackinfo base stale ''.stack_transform'' start_id e = Inr f"
      "\<And>lib fn d r. lib_malloc lib \<Longrightarrow> 0 \<le> lib_open lib fn \<Longrightarrow> lib_begin lib (lib_open lib fn) = Some d \<Longrightarrow> reads_back lib d f \<Longrightarrow>
         \<exists>h. fst (st_init lib (Some fn) r) = Some h \<and> h_arch h = e_machine e \<and> serves h start_id ms uas uls"
    have "f = out" using f(1) assms(7) by simp
    then show "h_arch h = e_machine e \<and> serves h start_id ms uas uls" using f(2) [OF assms(9-11), of r] assms(12,16) by auto
  qed
  moreover have "h_arch h' = e_machine e' \<and> serves h' start_id ms' uas' uls'"
  proof (rule tool_serves [OF assms(3,4), of stale'])
    fix f
    assume f: "gen_stackinfo base' stale' ''.stack_transform'' start_id e' = Inr f"
      "\<And>lib fn d r. lib_malloc lib \<Longrightarrow> 0 \<le> lib_open lib fn \<Longrightarrow> lib_begin lib (lib_open lib fn) = Some d \<Longrightarrow> reads_back lib d f \<Longrightarrow>
         \<exists>h. fst (st_init lib (Some fn) r) = Some h \<and> h_arch h = e_machine e' \<and> serves h start_id ms' uas' uls'"
    have "f = out'" using f(1) assms(8) by simp
    then show "h_arch h' = e_machine e' \<and> serves h' start_id ms' uas' uls'" using f(2) [OF assms(9,13,14), of r'] assms(15,17) by auto
  qed
  ultimately show ?thesis using handles_correspond [OF _ _ assms(5,6)] by blast
qed

section \<open>A small binary\<close>

definition example_names :: "string list" where
  "example_names = ['''', ''.text'', ''.llvm_pcn_stackmaps'', SECTION_ST_UNWIND_ADDR, SECTION_ST_UNWIND, ''.shstrtab'']"

definition example_scn :: "nat \<Rightarrow> u32 \<Rightarrow> u64 \<Rightarrow> nat \<Rightarrow> u8 list \<Rightarrow> elf_scn" where
  "example_scn k ty off n bs = \<lparr>readable = True, sh_name = length (concat (map (\<lambda>s. s @ [CHR ''.'']) (take k example_names))),
     sh_type = ty, sh_offset = off, sh_size = of_nat (length bs), sh_entsize = of_nat n, d_bufs = [Some bs]\<rparr>"

definition example_functions :: "unwind_addr list" where
  "example_functions = [\<lparr>ua_addr = 0x400000, ua_num_unwind = 1, ua_unwind_offset = 0\<rparr>]"

definition example_slots :: "unwind_loc list" where
  "example_slots = [\<lparr>ul_reg = 6, ul_offset = - 16\<rparr>]"

definition example_elf :: elf_file where
  "example_elf = \<lparr>e_machine = EM_X86_64, shstrndx = Some 5,
     scns = [example_scn 0 0 0 0 [],
             example_scn 1 SHT_PROGBITS 64 0 [0xc3],
             example_scn 2 SHT_PROGBITS 72 0 (encode_module example_module),
             example_scn 3 SHT_PROGBITS 160 16 (concat (map encode_unwind_addr example_functions)),
             example_scn 4 SHT_PROGBITS 176 4 (concat (map encode_unwind_loc example_slots)),
             example_scn 5 SHT_STRTAB 180 0 (concat (map (\<lambda>s. chars s @ [0]) example_names))],
     e_shoff = 280, can_add = True, can_write = True\<rparr>"

lemma strptr_names:
  assumes "elf_getscn e ndx = Some scn" "ndx \<noteq> 0" "sh_type scn = SHT_STRTAB"
    and "d_bufs scn = [Some (concat (map (\<lambda>s. chars s @ [0]) names))]" "k < length names" "CHR 0x00 \<notin> set (names ! k)"
  shows "elf_strptr e ndx (length (concat (map (\<lambda>s. s @ [c]) (take k names)))) = Some (names ! k)"
proof -
  let ?enc = "\<lambda>s. chars s @ [0 :: u8]"
  have len: "length (concat (map (\<lambda>s. s @ [c]) (take k names))) = length (concat (map ?enc (take k names)))"
    by (simp add: length_concat comp_def chars_def)
  have "concat (map ?enc names) = concat (map ?enc (take k names)) @ ?enc (names ! k) @ concat (map ?enc (drop (Suc k) names))"
    using map_split [OF assms(5), of ?enc] by simp
  then show ?thesis
    using assms cstr_chars [OF assms(6), of "concat (map ?enc (drop (Suc k) names))"]
    by (simp add: elf_strptr_def elf_getdata_def len)
qed

lemma example_scns:
  "shstrndx example_elf = Some 5" "can_add example_elf" "can_write example_elf" "e_machine example_elf = EM_X86_64"
  "scns example_elf = [example_scn 0 0 0 0 [],
             example_scn 1 SHT_PROGBITS 64 0 [0xc3],
             example_scn 2 SHT_PROGBITS 72 0 (encode_module example_module),
             example_scn 3 SHT_PROGBITS 160 16 (concat (map encode_unwind_addr example_functions)),
             example_scn 4 SHT_PROGBITS 176 4 (concat (map encode_unwind_loc example_slots)),
             example_scn 5 SHT_STRTAB 180 0 (concat (map (\<lambda>s. chars s @ [0]) example_names))]"
  by (simp_all add: example_elf_def)

lemma example_strptr:
  "k < 6 \<Longrightarrow> elf_strptr example_elf 5 (sh_name (example_scn k ty off n bs)) = Some (example_names ! k)"
proof -
  assume "k < 6"
  then have k: "k = 0 \<or> k = 1 \<or> k = 2 \<or> k = 3 \<or> k = 4 \<or> k = 5" by linarith
  have "CHR 0x00 \<notin> set (example_names ! k)" using k by (elim disjE) (simp_all add: example_names_def)
  moreover have "length example_names = 6" by (simp add: example_names_def)
  ultimately show ?thesis
    using strptr_names [of example_elf 5 "example_scn 5 SHT_STRTAB 180 0 (concat (map (\<lambda>s. chars s @ [0]) example_names))"
        example_names k "CHR ''.''"] \<open>k < 6\<close>
    by (simp add: elf_getscn_def example_scns example_scn_def)
qed

lemma example_sections:
  "get_section_by_name example_elf ''.llvm_pcn_stackmaps'' = Some 2"
  "get_section_by_name example_elf SECTION_ST_UNWIND_ADDR = Some 3"
  "get_section_by_name example_elf SECTION_ST_UNWIND = Some 4"
  "get_section_by_name example_elf SECTION_ST_ID = None"
  "get_section_by_name example_elf SECTION_ST_ADDR = None"
  "get_section_by_name example_elf SECTION_ST_LIVE = None"
  "get_section_by_name example_elf SECTION_ST_ARCH_LIVE = None"
proof -
  have r: "readable (example_scn k ty off n bs)" for k ty off n bs by (simp add: example_scn_def)
  show "get_section_by_name example_elf ''.llvm_pcn_stackmaps'' = Some 2"
    "get_section_by_name example_elf SECTION_ST_UNWIND_ADDR = Some 3"
    "get_section_by_name example_elf SECTION_ST_UNWIND = Some 4"
    "get_section_by_name example_elf SECTION_ST_ID = None"
    "get_section_by_name example_elf SECTION_ST_ADDR = None"
    "get_section_by_name example_elf SECTION_ST_LIVE = None"
    "get_section_by_name example_elf SECTION_ST_ARCH_LIVE = None"
    by (simp_all add: get_section_by_name_def example_scns example_strptr r example_names_def)
qed

lemma example_wf: "wf_elf example_elf"
proof -
  have "\<forall>s \<in> set (tl (scns example_elf)). \<exists>n. elf_strptr example_elf 5 (sh_name s) = Some n"
    by (simp add: example_scns example_strptr)
  moreover have "concat (map (\<lambda>s. chars s @ [0]) example_names) \<noteq> []" by (simp add: example_names_def)
  ultimately show ?thesis
    unfolding wf_elf_def by (intro conjI exI [of _ 5] exI) (auto simp: example_scns example_scn_def)
qed

lemma example_tables:
  "get_table example_elf ''.llvm_pcn_stackmaps'' = Some (0, encode_module example_module)"
  "get_table example_elf SECTION_ST_UNWIND_ADDR = Some (16, concat (map encode_unwind_addr example_functions))"
  "get_table example_elf SECTION_ST_UNWIND = Some (4, concat (map encode_unwind_loc example_slots))"
  by (simp_all add: get_table_def example_sections example_scns example_scn_def scn_table_single)

lemma example_flat:
  "flat [example_module] = [(mm_functions example_module ! 0, mm_sites example_module ! 0)]"
  "length (mm_functions example_module) = 1" "length (mm_constants example_module) = 1" "length (mm_sites example_module) = 1"
  "m_func (mm_sites example_module ! 0) = 0" "func_addr (mm_functions example_module ! 0) = 0x400000"
  "m_offset (mm_sites example_module ! 0) = 20" "m_locations (mm_sites example_module ! 0) = []"
  "m_live_outs (mm_sites example_module ! 0) = []" "m_archs (mm_sites example_module ! 0) = []"
  "m_id (mm_sites example_module ! 0) = 3" "set (mm_sites example_module) = {mm_sites example_module ! 0}"
  by (simp_all add: example_module_def function_of_def)

lemma example_length: "length (encode_module example_module) = 88"
  by (simp add: encode_module_def encode_site_def pad8_def example_module_def encode_function_record_def)

lemma example_input: "input_ok 4096 example_elf 1 [example_module] example_functions example_slots"
proof -
  have "numbers_fit 1 (flat [example_module])"
    by (simp add: numbers_fit_def example_flat ordinary_def first_frame_def del: flat_simps)
  then show ?thesis
    using example_wf example_length
    by (simp add: input_ok_def example_tables room_def example_sections example_scns example_flat
        module_fits_def site_fits_def return_address_def example_functions_def example_slots_def get_properties_def del: flat_simps)
qed

lemma example_files:
  "in_file (scns example_elf ! 1) = {64..<65}" "in_file (scns example_elf ! 2) = {72..<160}"
  "in_file (scns example_elf ! 3) = {160..<176}" "in_file (scns example_elf ! 4) = {176..<180}"
  "in_file (scns example_elf ! 5) \<subseteq> {180..}" "sh_offset (scns example_elf ! 5) = 180" "length (scns example_elf) = 6"
  by (auto simp: example_scns example_scn_def in_file_def example_length unwind_addr_packed.length_enc
      unwind_loc_packed.length_enc example_functions_def example_slots_def)

lemma example_linked: "linked example_elf"
proof -
  have upto: "i < 5 \<Longrightarrow> 0 < i \<Longrightarrow> i = 1 \<or> i = 2 \<or> i = 3 \<or> i = 4" for i :: nat by linarith
  have "sections_apart example_elf"
    unfolding sections_apart_def example_files(7)
  proof (intro allI impI)
    fix i j :: nat
    assume ij: "0 < i" "i < j" "j < 6"
    have "i = 1 \<or> i = 2 \<or> i = 3 \<or> i = 4" "j = 5 \<or> j = 1 \<or> j = 2 \<or> j = 3 \<or> j = 4" using upto [of i] upto [of j] ij by auto
    then show "in_file (scns example_elf ! i) \<inter> in_file (scns example_elf ! j) = {}"
      using ij(2) example_files by (elim disjE) auto
  qed
  moreover have "in_file (scns example_elf ! i) \<subseteq> {..<unat (sh_offset (scns example_elf ! 5))}" if "0 < i" "i < 5" for i
    using upto [OF that(2,1)] by (elim disjE) (auto simp: example_files simp del: One_nat_def)
  moreover have "d_bufs (scns example_elf ! 5) = [Some (concat (map (\<lambda>s. chars s @ [0]) example_names))]"
    by (simp add: example_scns example_scn_def)
  moreover have "length (concat (map (\<lambda>s. chars s @ [0 :: u8]) example_names)) < 2 ^ 60"
    by (simp add: example_names_def chars_def)
  ultimately show ?thesis
    by (simp add: linked_def example_files example_sections example_scns(1))
qed

text \<open>A libelf that has the file under every name, as it was written.\<close>

definition example_lib :: "elf_file \<Rightarrow> elf_lib" where
  "example_lib e = \<lparr>lib_malloc = True, lib_open = (\<lambda>_. 3), lib_begin = (\<lambda>_. Some 0), lib_machine = (\<lambda>_. Some (e_machine e)),
     lib_class = (\<lambda>_. Some 2), lib_shdrstrndx = (\<lambda>_. shstrndx e), lib_sections = (\<lambda>_. map (view_section e) (tl (scns e)))\<rparr>"

lemma example_reads_back: "reads_back (example_lib e) 0 e"
  by (simp add: reads_back_def sees_def example_lib_def)

theorem metadata_tool_serves_library_witness:
  "\<exists>e' h. gen_stackinfo 4096 (\<lambda>_. 0) ''.stack_transform'' 1 example_elf = Inr e' \<and> laid_out e' 4 \<and> sections_apart e' \<and>
     fst (st_init (example_lib e') (Some ''a.out'') \<lparr>open_fds = [], open_elfs = [], handle_blocks = 0\<rparr>) = Some h \<and> h_arch h = EM_X86_64 \<and>
     serves h 1 [example_module] example_functions example_slots"
proof -
  obtain e' where e': "gen_stackinfo 4096 (\<lambda>_. 0) ''.stack_transform'' 1 example_elf = Inr e'" "laid_out e' 4" "sections_apart e'"
    "\<forall>lib fn d r. lib_malloc lib \<and> 0 \<le> lib_open lib fn \<and> lib_begin lib (lib_open lib fn) = Some d \<and> reads_back lib d e' \<longrightarrow>
       (\<exists>h. fst (st_init lib (Some fn) r) = Some h \<and> h_arch h = e_machine example_elf \<and>
          serves h 1 [example_module] example_functions example_slots)"
    using metadata_tool_serves_library [OF example_input example_linked] by blast
  have "lib_malloc (example_lib e') \<and> 0 \<le> lib_open (example_lib e') ''a.out'' \<and>
      lib_begin (example_lib e') (lib_open (example_lib e') ''a.out'') = Some 0"
    by (simp add: example_lib_def)
  then show ?thesis using e' example_reads_back [of e'] unfolding example_scns(4) by blast
qed

theorem call_sites_correspond_witness:
  "\<exists>out h a b. gen_stackinfo 4096 (\<lambda>_. 0) ''.stack_transform'' 1 example_elf = Inr out \<and>
     fst (st_init (example_lib out) (Some ''a.out'') \<lparr>open_fds = [], open_elfs = [], handle_blocks = 0\<rparr>) = Some h \<and>
     get_site_by_addr h 0x400014 = Inr (Some a) \<and> get_site_by_id h (cs_id a) = Inr (Some b) \<and> cs_addr b = 0x400014"
proof -
  obtain out where out: "gen_stackinfo 4096 (\<lambda>_. 0) ''.stack_transform'' 1 example_elf = Inr out"
    "\<And>lib fn d r. lib_malloc lib \<Longrightarrow> 0 \<le> lib_open lib fn \<Longrightarrow> lib_begin lib (lib_open lib fn) = Some d \<Longrightarrow> reads_back lib d out \<Longrightarrow>
       \<exists>h. fst (st_init lib (Some fn) r) = Some h \<and> h_arch h = e_machine example_elf \<and>
         serves h 1 [example_module] example_functions example_slots"
    by (rule tool_serves [OF example_input example_linked, of "\<lambda>_. 0"]) blast
  let ?lib = "example_lib out"
  have lib: "lib_malloc ?lib" "0 \<le> lib_open ?lib ''a.out''" "lib_begin ?lib (lib_open ?lib ''a.out'') = Some 0"
    by (simp_all add: example_lib_def)
  obtain h where h: "fst (st_init ?lib (Some ''a.out'') \<lparr>open_fds = [], open_elfs = [], handle_blocks = 0\<rparr>) = Some h"
    using out(2) [OF lib example_reads_back] by blast
  show ?thesis
    using call_sites_correspond [OF example_input example_linked example_input example_linked refl _ out(1) out(1)
        lib example_reads_back lib(2,3) example_reads_back h h, of 0] out(1) h
    by (auto simp: example_flat return_address_def simp del: flat_simps)
qed

section \<open>Running the tool again\<close>

lemma ucast_u64_u32: "ucast (ucast (x :: u32) :: u64) = x"
  by (rule bit_word_eqI) (auto simp: bit_simps)

lemma two_sorted:
  assumes "mset ps = {#x, y#}" "sorted (map ua_addr ps)" "ua_addr x < ua_addr y"
  shows "ps = [x, y]"
proof -
  have "length ps = 2" using arg_cong [OF assms(1), of size] by simp
  then obtain p q where ps: "ps = [p, q]" by (auto simp: length_Suc_conv numeral_2_eq_2)
  then have "p = x \<and> q = y \<or> p = y \<and> q = x"
    using assms(1) by (auto simp: add_eq_conv_ex)
  then show ?thesis using ps assms(2,3) by auto
qed

text \<open>
  C40: The tool must not be run twice on a binary, although it replaces the sections of an earlier run. It computes
  the offsets of the functions into the unwinding records in the order of the table, and then sorts the table. For a table
  that was not sorted, a second run computes the offsets anew from the sorted table: the function \<open>f\<close>, whose records come after those of
  \<open>g\<close>, has the right offset after the first run and offset 0 after the second, and \<open>g\<close> has the offset that skips as many records as
  \<open>f\<close> has.
\<close>

theorem second_run_moves_offsets:
  assumes "wf_elf e" "get_table e sec = Some (16, concat (map encode_unwind_addr [g, f]))" "ua_addr f < ua_addr g"
  shows "\<exists>e1 e2. update_function_addr e sec = Inr (SUCCESS, e1) \<and> update_function_addr e1 sec = Inr (SUCCESS, e2) \<and>
    get_table e1 sec = Some (16, concat (map encode_unwind_addr
      [f\<lparr>ua_unwind_offset := ua_num_unwind g\<rparr>, g\<lparr>ua_unwind_offset := 0\<rparr>])) \<and>
    get_table e2 sec = Some (16, concat (map encode_unwind_addr
      [f\<lparr>ua_unwind_offset := 0\<rparr>, g\<lparr>ua_unwind_offset := ua_num_unwind f\<rparr>]))"
proof -
  let ?f = "f\<lparr>ua_unwind_offset := ua_num_unwind g\<rparr>" and ?g = "g\<lparr>ua_unwind_offset := 0\<rparr>"
  have w1: "with_offsets [g, f] = [?g, ?f]"
    by (simp add: with_offsets_def offset_before_def ucast_u64_u32)
  have w2: "with_offsets [?f, ?g] = [f\<lparr>ua_unwind_offset := 0\<rparr>, g\<lparr>ua_unwind_offset := ua_num_unwind f\<rparr>]"
    by (simp add: with_offsets_def offset_before_def ucast_u64_u32)
  obtain e1 ps where e1: "update_function_addr e sec = Inr (SUCCESS, e1)" "wf_elf e1"
    "mset ps = mset (with_offsets [g, f])" "sorted (map ua_addr ps)"
    "get_table e1 sec = Some (16, concat (map encode_unwind_addr ps))"
    by (rule update_function_addr_ok [OF assms(1,2)]) auto
  have ps: "ps = [?f, ?g]"
    by (rule two_sorted) (use e1(3,4) assms(3) in \<open>simp_all add: w1 add_mset_commute\<close>)
  obtain e2 qs where e2: "update_function_addr e1 sec = Inr (SUCCESS, e2)"
    "mset qs = mset (with_offsets [?f, ?g])" "sorted (map ua_addr qs)"
    "get_table e2 sec = Some (16, concat (map encode_unwind_addr qs))"
    by (rule update_function_addr_ok [OF e1(2,5) [unfolded ps]]) auto
  have "qs = [f\<lparr>ua_unwind_offset := 0\<rparr>, g\<lparr>ua_unwind_offset := ua_num_unwind f\<rparr>]"
    by (rule two_sorted) (use e2(2,3) assms(3) in \<open>simp_all add: w2\<close>)
  then show ?thesis using e1 e2 ps by blast
qed

theorem second_run_moves_offsets_witness:
  "\<exists>e e1 e2. update_function_addr e SECTION_ST_UNWIND_ADDR = Inr (SUCCESS, e1) \<and>
     update_function_addr e1 SECTION_ST_UNWIND_ADDR = Inr (SUCCESS, e2) \<and>
     get_table e1 SECTION_ST_UNWIND_ADDR = Some (16, concat (map encode_unwind_addr
       [\<lparr>ua_addr = 0x400000, ua_num_unwind = 2, ua_unwind_offset = 3\<rparr>, \<lparr>ua_addr = 0x400100, ua_num_unwind = 3, ua_unwind_offset = 0\<rparr>])) \<and>
     get_table e2 SECTION_ST_UNWIND_ADDR = Some (16, concat (map encode_unwind_addr
       [\<lparr>ua_addr = 0x400000, ua_num_unwind = 2, ua_unwind_offset = 0\<rparr>, \<lparr>ua_addr = 0x400100, ua_num_unwind = 3, ua_unwind_offset = 2\<rparr>]))"
proof -
  define f where "f = \<lparr>ua_addr = 0x400000, ua_num_unwind = 2, ua_unwind_offset = 0\<rparr>"
  define g where "g = \<lparr>ua_addr = 0x400100, ua_num_unwind = 3, ua_unwind_offset = 0\<rparr>"
  obtain e where "wf_elf e" "get_table e SECTION_ST_UNWIND_ADDR = Some (16, concat (map encode_unwind_addr [g, f]))"
    by (rule update_table [OF example_wf example_tables(2) example_sections(2)]) blast
  moreover have "ua_addr f < ua_addr g" by (simp add: f_def g_def)
  ultimately show ?thesis
    using second_run_moves_offsets [of e SECTION_ST_UNWIND_ADDR g f] by (auto simp: f_def g_def)
qed

end
