(* ===== verification/Check_Stackmaps.thy ===== *)
theory Check_Stackmaps
  imports Stackmap_Correct
begin

text \<open>
  The checker that compares the stack maps of two binaries before the metadata tool is run on them
  (\<open>tool/stack_metadata/utils/check_stackmaps.c\<close>): what it compares, that it is exact on call sites without duplicate
  records, and what it misses on others. The warnings it prints are not modelled.
\<close>

section \<open>The checker\<close>

text \<open>Location records that describe a value of their own, and not where else one lies.\<close>

definition count_values :: "u8 list \<Rightarrow> call_site_record \<Rightarrow> nat result" where
  "count_values bs r =
     for_loop 0 (unat (num_locations r)) (\<lambda>k num.
       bindE (location_at bs r k) (\<lambda>v. Inr (if \<not> is_duplicate v then num + 1 else num))) 0"

text \<open>
  \<open>while(locations[k+1].is_duplicate) k++\<close>. The array has no end mark: the loop reads on behind it in the section, and is
  undefined once it leaves the section's data.
\<close>

function skip_dups :: "u8 list \<Rightarrow> call_site_record \<Rightarrow> nat \<Rightarrow> nat result" where
  "skip_dups bs r k =
     bindE (location_at bs r (k + 1)) (\<lambda>v. if is_duplicate v then skip_dups bs r (k + 1) else Inr k)"
  by pat_completeness auto
termination
  by (relation "measure (\<lambda>(bs, r, k). length bs - (locations r + 12 * k))")
    (auto simp: location_at_def slice_def bindE_eq_Inr split: if_splits)

declare skip_dups.simps [simp del]

lemma skip_dups_le: "skip_dups bs r k = Inr k' \<Longrightarrow> k \<le> k'"
  by (induction bs r k rule: skip_dups.induct)
    (subst (asm) (2) skip_dups.simps, auto elim!: bindE_InrE split: if_splits intro: Suc_leD)

text \<open>The comparison of two location records; the result says whether they differ.\<close>

definition values_differ :: "live_value \<Rightarrow> live_value \<Rightarrow> bool" where
  "values_differ a b \<longleftrightarrow>
     lv_size a \<noteq> lv_size b \<or> is_ptr a \<noteq> is_ptr b \<or> is_alloca a \<noteq> is_alloca b \<or>
     (is_alloca a \<and> is_alloca b \<and> alloca_size a \<noteq> alloca_size b)"

text \<open>The loop over the locations of two call sites; \<open>bad\<close> is whether an inconsistency was found.\<close>

function compare_values :: "u8 list \<Rightarrow> call_site_record \<Rightarrow> u8 list \<Rightarrow> call_site_record \<Rightarrow> nat \<Rightarrow> nat \<Rightarrow>
    nat \<Rightarrow> nat \<Rightarrow> bool \<Rightarrow> bool result" where
  "compare_values bsa ra bsb rb num_a num_b k l bad =
     (if k < num_a \<and> l < num_b then
        bindE (location_at bsa ra k) (\<lambda>a. bindE (location_at bsb rb l) (\<lambda>b.
        let bad = (bad \<or> values_differ a b) in
        bindE (skip_dups bsa ra k) (\<lambda>k. bindE (skip_dups bsb rb l) (\<lambda>l.
          compare_values bsa ra bsb rb num_a num_b (k + 1) (l + 1) bad))))
      else Inr bad)"
  by pat_completeness auto
termination
  by (relation "measure (\<lambda>(bsa, ra, bsb, rb, num_a, num_b, k, l, bad). num_a - k)")
    (auto dest!: skip_dups_le)

declare compare_values.simps [simp del]

definition check_site :: "u8 list \<Rightarrow> call_site_record \<Rightarrow> u8 list \<Rightarrow> call_site_record \<Rightarrow> bool result" where
  "check_site bsa ra bsb rb =
     bindE (count_values bsa ra) (\<lambda>num_a. bindE (count_values bsb rb) (\<lambda>num_b.
       compare_values bsa ra bsb rb num_a num_b 0 0 (num_a \<noteq> num_b)))"

definition check_record :: "u8 list \<Rightarrow> stack_map_section \<Rightarrow> u8 list \<Rightarrow> stack_map_section \<Rightarrow> nat \<Rightarrow> bool \<Rightarrow> bool result" where
  "check_record bsa sa bsb sb j bad =
     bindE (arr (call_sites sa) j) (\<lambda>ra. bindE (function_record_at bsa sa (unat (func_idx ra))) (\<lambda>fa.
     bindE (arr (call_sites sb) j) (\<lambda>rb. bindE (function_record_at bsb sb (unat (func_idx rb))) (\<lambda>fb.
       if func_addr fa \<noteq> func_addr fb then Inr True
       else bindE (check_site bsa ra bsb rb) (\<lambda>d. Inr (bad \<or> d))))))"

definition check_stackmaps :: "u8 list \<times> stack_map_section list \<Rightarrow> u8 list \<times> stack_map_section list \<Rightarrow> ret_t result" where
  "check_stackmaps = (\<lambda>(bsa, smsa) (bsb, smsb).
     bindE (for_loop 0 (min (length smsa) (length smsb)) (\<lambda>i bad.
              bindE (arr smsa i) (\<lambda>sa. bindE (arr smsb i) (\<lambda>sb.
                for_loop 0 (min (unat (num_records sa)) (unat (num_records sb))) (check_record bsa sa bsb sb)
                  (bad \<or> num_records sa \<noteq> num_records sb))))
              (length smsa \<noteq> length smsb))
       (\<lambda>bad. Inr (if bad then INVALID_METADATA else SUCCESS)))"

text \<open>\<open>main\<close>: all pairs of the binaries given, in the order AArch64, PowerPC64, x86-64; the first bad pair ends the program.\<close>

definition check_all :: "(u8 list \<times> stack_map_section list) option list \<Rightarrow> unit result" where
  "check_all bins =
     for_loop 0 (length bins) (\<lambda>i u. for_loop (i + 1) (length bins) (\<lambda>j u.
       bindE (arr bins i) (\<lambda>a. bindE (arr bins j) (\<lambda>b.
         case (a, b) of (Some a, Some b) \<Rightarrow>
             bindE (check_stackmaps a b) (\<lambda>ret. if ret \<noteq> SUCCESS then Inl (Exit 1) else Inr ())
         | _ \<Rightarrow> Inr ()))) u) ()"

section \<open>What it finds\<close>

lemma location_at_nth:
  assumes "reads_site bs r s" "k < length (m_locations s)"
  shows "location_at bs r k = Inr (m_locations s ! k)"
proof -
  have "block_at bs (locations r) (concat (map encode_live_value (m_locations s)))" using assms(1) by (simp add: reads_site_def)
  from block_at_nth [OF this _ assms(2), of 12] show ?thesis
    by (simp add: location_at_def slice_block live_value_packed.length_enc live_value_packed.dec_enc)
qed

lemma count_values_ok:
  assumes "reads_site bs r s" "length (m_locations s) < 2 ^ 16"
  shows "count_values bs r = Inr (length (filter (\<lambda>v. \<not> is_duplicate v) (m_locations s)))"
proof -
  let ?ls = "m_locations s" and ?P = "\<lambda>k n. n = length (filter (\<lambda>v. \<not> is_duplicate v) (take k (m_locations s)))"
  have n: "unat (num_locations r) = length ?ls" using assms by (simp add: reads_site_def)
  have "\<exists>t. for_loop 0 (length ?ls) (\<lambda>k num.
       bindE (location_at bs r k) (\<lambda>v. Inr (if \<not> is_duplicate v then num + 1 else num))) 0 = Inr t \<and> ?P (length ?ls) t"
    by (rule for_loop_total [where P = ?P]) (simp_all add: location_at_nth [OF assms(1)] take_Suc_conv_app_nth)
  then show ?thesis by (simp add: count_values_def n)
qed

text \<open>What lies behind the locations of a call site reads as a record that is not a duplicate.\<close>

definition ends_plain :: "u8 list \<Rightarrow> call_site_record \<Rightarrow> site_map \<Rightarrow> bool" where
  "ends_plain bs r s \<longleftrightarrow> (\<exists>v. location_at bs r (length (m_locations s)) = Inr v \<and> \<not> is_duplicate v)"

lemma skip_none:
  assumes "reads_site bs r s" "ends_plain bs r s" "k < length (m_locations s)" "\<forall>v \<in> set (m_locations s). \<not> is_duplicate v"
  shows "skip_dups bs r k = Inr k"
proof (cases "k + 1 < length (m_locations s)")
  case True
  then show ?thesis
    using assms(4) by (subst skip_dups.simps) (simp add: location_at_nth [OF assms(1)])
next
  case False
  then have "k + 1 = length (m_locations s)" using assms(3) by simp
  then show ?thesis
    using assms(2) by (subst skip_dups.simps) (auto simp: ends_plain_def)
qed

lemma compare_plain:
  assumes a: "reads_site bsa ra a" "ends_plain bsa ra a" "\<forall>v \<in> set (m_locations a). \<not> is_duplicate v"
    and b: "reads_site bsb rb b" "ends_plain bsb rb b" "\<forall>v \<in> set (m_locations b). \<not> is_duplicate v"
  shows "compare_values bsa ra bsb rb (length (m_locations a)) (length (m_locations b)) k k bad =
    Inr (bad \<or> (\<exists>i \<ge> k. i < length (m_locations a) \<and> i < length (m_locations b) \<and>
      values_differ (m_locations a ! i) (m_locations b ! i)))"
proof (induction "length (m_locations a) - k" arbitrary: k bad)
  case 0
  then show ?case by (subst compare_values.simps) auto
next
  case (Suc n)
  show ?case
  proof (cases "k < length (m_locations a) \<and> k < length (m_locations b)")
    case True
    have IH: "compare_values bsa ra bsb rb (length (m_locations a)) (length (m_locations b)) (k + 1) (k + 1) bad' =
      Inr (bad' \<or> (\<exists>i \<ge> k + 1. i < length (m_locations a) \<and> i < length (m_locations b) \<and>
        values_differ (m_locations a ! i) (m_locations b ! i)))" for bad'
      using Suc(2) by (intro Suc(1)) simp
    have "(\<exists>i \<ge> k. i < length (m_locations a) \<and> i < length (m_locations b) \<and> values_differ (m_locations a ! i) (m_locations b ! i)) \<longleftrightarrow>
      values_differ (m_locations a ! k) (m_locations b ! k) \<or>
      (\<exists>i \<ge> k + 1. i < length (m_locations a) \<and> i < length (m_locations b) \<and> values_differ (m_locations a ! i) (m_locations b ! i))"
      using True by (metis add_leD1 le_eq_less_or_eq Suc_eq_plus1 Suc_leI le_refl)
    then show ?thesis
      using True IH a b
      by (subst compare_values.simps) (simp add: location_at_nth skip_none Let_def)
  qed (subst compare_values.simps, auto)
qed


text \<open>
  Where it goes wrong. The numbers of values bound the positions of records, although duplicates have positions too:
  a call site whose first value has a duplicate passes whatever its second value is. And after the last value the
  loop that skips duplicates reads behind the array: for the last call site of a section that ends there, this is outside the data.
\<close>

theorem check_site_misses:
  assumes "reads_site bsa ra a" "m_locations a = [x, d, y]" "\<not> is_duplicate x" "is_duplicate d" "\<not> is_duplicate y"
    and "reads_site bsb rb b" "m_locations b = [x', y']" "\<not> is_duplicate x'" "\<not> is_duplicate y'" "\<not> values_differ x x'"
    and "reads_site bsc rc c" "m_locations c = [y]" "length bsc < locations rc + 24"
  shows "check_site bsa ra bsb rb = Inr False \<and> check_site bsc rc bsc rc = Inl Undef"
proof -
  have a: "location_at bsa ra 0 = Inr x" "location_at bsa ra 1 = Inr d" "location_at bsa ra 2 = Inr y" "count_values bsa ra = Inr 2"
    using location_at_nth [OF assms(1)] count_values_ok [OF assms(1)] assms(2-5) by simp_all
  have b: "location_at bsb rb 0 = Inr x'" "location_at bsb rb 1 = Inr y'" "count_values bsb rb = Inr 2"
    using location_at_nth [OF assms(6)] count_values_ok [OF assms(6)] assms(7-9) by simp_all
  have "skip_dups bsa ra 1 = Inr 1"
    using a(3) assms(5) by (subst skip_dups.simps) (simp add: numeral_2_eq_2)
  then have sa: "skip_dups bsa ra 0 = Inr 1"
    using a(2) assms(4) by (subst skip_dups.simps) simp
  have sb: "skip_dups bsb rb 0 = Inr 0"
    using b(2) assms(9) by (subst skip_dups.simps) simp
  have "compare_values bsa ra bsb rb 2 2 2 1 False = Inr False" by (subst compare_values.simps) simp
  then have "compare_values bsa ra bsb rb 2 2 0 0 False = Inr False"
    using a(1) b(1) sa sb assms(10) by (subst compare_values.simps) (simp add: numeral_2_eq_2)
  then have one: "check_site bsa ra bsb rb = Inr False" using a(4) b(3) by (simp add: check_site_def)
  have c: "location_at bsc rc 0 = Inr y" "count_values bsc rc = Inr 1"
    using location_at_nth [OF assms(11)] count_values_ok [OF assms(11)] assms(5,12) by simp_all
  have "location_at bsc rc 1 = Inl Undef" using assms(13) by (simp add: location_at_def slice_def)
  then have "skip_dups bsc rc 0 = Inl Undef" by (subst skip_dups.simps) simp
  then have "compare_values bsc rc bsc rc 1 1 0 0 False = Inl Undef"
    using c(1) by (subst compare_values.simps) simp
  then show ?thesis using one c(2) by (simp add: check_site_def)
qed

section \<open>Examples\<close>

text \<open>A section that holds a single call site, and the record that the parser makes of it.\<close>

definition record_of :: "site_map \<Rightarrow> call_site_record" where
  "record_of s = \<lparr>sr_id = m_id s, func_idx = m_func s, sr_offset = m_offset s, sr_reserved = m_reserved s,
     num_locations = of_nat (length (m_locations s)), locations = 20, num_live_outs = of_nat (length (m_live_outs s)),
     live_outs = 24 + 12 * length (m_locations s), sr_num_arch_live = of_nat (length (m_archs s)),
     sr_arch_live = 28 + 12 * length (m_locations s) + 4 * length (m_live_outs s)\<rparr>"

lemma record_of_reads: "site_fits s \<Longrightarrow> reads_site (encode_site s) (record_of s) s"
  using record_blocks [of "encode_site s" 0 s] by (simp add: reads_site_def record_of_def)

definition sample_value :: "u8 \<Rightarrow> bool \<Rightarrow> live_value" where
  "sample_value sz dup = \<lparr>is_temporary = False, is_duplicate = dup, is_alloca = False, is_ptr = False, lv_type = SM_REGISTER,
     lv_size = sz, regnum = 3, offset_or_constant = 0, alloca_size = 0\<rparr>"

definition sample_site :: "live_value list \<Rightarrow> site_map" where
  "sample_site ls = \<lparr>m_id = 1, m_func = 0, m_offset = 16, m_reserved = 0, m_locations = ls, m_pad = 0, m_live_outs = [],
     m_pad2 = 0, m_archs = []\<rparr>"

lemma sample_simps [simp]:
  "is_duplicate (sample_value sz dup) = dup" "lv_size (sample_value sz dup) = sz"
  "is_ptr (sample_value sz dup) = False" "is_alloca (sample_value sz dup) = False"
  "m_locations (sample_site ls) = ls" "m_live_outs (sample_site ls) = []" "m_archs (sample_site ls) = []"
  by (simp_all add: sample_value_def sample_site_def)

lemma sample_site_reads:
  "length ls < 2 ^ 16 \<Longrightarrow> reads_site (encode_site (sample_site ls)) (record_of (sample_site ls)) (sample_site ls)"
  by (rule record_of_reads) (simp add: site_fits_def)

lemma sample_ends_plain:
  "ends_plain (encode_site (sample_site [v, w])) (record_of (sample_site [v, w])) (sample_site [v, w])"
proof -
  let ?s = "sample_site [v, w]"
  define pre where "pre = bytes_of 8 (m_id ?s) @ bytes_of 4 (m_func ?s) @ bytes_of 4 (m_offset ?s) @ bytes_of 2 (m_reserved ?s) @
      bytes_of 2 (of_nat 2 :: u16) @ encode_live_value v @ encode_live_value w"
  have l: "length (encode_live_value v) = 12" for v by (rule live_value_packed.length_enc)
  have z: "bytes_of 2 (0 :: u16) = [0, 0]" by (simp add: bytes_of_def numeral_2_eq_2)
  have "encode_site ?s = pre @ [0, 0] @ [0, 0] @ [0, 0] @ [0, 0] @ replicate 4 0"
    by (simp add: encode_site_def pad8_def l z pre_def) (simp add: sample_site_def z)
  moreover have "replicate 12 (0 :: u8) = [0, 0] @ [0, 0] @ [0, 0] @ [0, 0] @ replicate 4 0"
    by (simp add: numeral_eq_Suc)
  ultimately have enc: "encode_site ?s = pre @ replicate 12 0" by (simp only:)
  have "length pre = 44" by (simp add: pre_def l)
  then have "slice (encode_site ?s) 44 12 = Inr (replicate 12 0)" by (simp add: enc slice_def)
  moreover have "\<not> is_duplicate (decode_live_value (replicate 12 0))"
    by (simp add: decode_live_value_def Let_def numeral_eq_Suc)
  ultimately show ?thesis by (simp add: ends_plain_def location_at_def record_of_def)
qed


theorem check_site_misses_witness:
  "check_site (encode_site (sample_site [sample_value 8 False, sample_value 8 True, sample_value 4 False]))
      (record_of (sample_site [sample_value 8 False, sample_value 8 True, sample_value 4 False]))
      (encode_site (sample_site [sample_value 8 False, sample_value 8 False]))
      (record_of (sample_site [sample_value 8 False, sample_value 8 False])) = Inr False"
proof -
  let ?x = "sample_value 8 False" and ?d = "sample_value 8 True" and ?y = "sample_value 4 False"
  have "length (encode_site (sample_site [?y])) < locations (record_of (sample_site [?y])) + 24"
    by (simp add: encode_site_def pad8_def record_of_def live_value_packed.length_enc)
  from check_site_misses [OF sample_site_reads [of "[?x, ?d, ?y]"] _ _ _ _ sample_site_reads [of "[?x, ?x]"] _ _ _ _
      sample_site_reads [of "[?y]"] _ this, of ?x ?d ?y ?x ?x]
  show ?thesis by (simp add: values_differ_def)
qed

end
