(* ===== verification/C_Int.thy ===== *)
theory C_Int
  imports Prelude "HOL-Library.Signed_Division"
begin

text \<open>
  C integer types of the OpenMP run time as integers with the wrap-around written out. The functions
  of \<open>kmp.c\<close> are macros over the type of the loop variable; a \<open>ctype\<close> is the type a macro is
  instantiated with, \<open>wrapc\<close> the conversion to it, and \<open>fits\<close> says that no wrap-around happens.
  \<open>loop_iters\<close> is the meaning of a C loop with an inclusive bound, against which the schedules are
  compared.
\<close>

datatype ctype = I32 | U32 | I64 | U64

definition ctype_min :: "ctype \<Rightarrow> int" where
  "ctype_min ty = (case ty of I32 \<Rightarrow> - (2 ^ 31) | U32 \<Rightarrow> 0 | I64 \<Rightarrow> - (2 ^ 63) | U64 \<Rightarrow> 0)"

definition ctype_max :: "ctype \<Rightarrow> int" where
  "ctype_max ty = (case ty of I32 \<Rightarrow> 2 ^ 31 - 1 | U32 \<Rightarrow> 2 ^ 32 - 1 | I64 \<Rightarrow> 2 ^ 63 - 1 | U64 \<Rightarrow> 2 ^ 64 - 1)"

definition wrapc :: "ctype \<Rightarrow> int \<Rightarrow> int" where
  "wrapc ty x = (case ty of
     I32 \<Rightarrow> signed_take_bit 31 x | U32 \<Rightarrow> take_bit 32 x
   | I64 \<Rightarrow> signed_take_bit 63 x | U64 \<Rightarrow> take_bit 64 x)"

definition fits :: "ctype \<Rightarrow> int \<Rightarrow> bool" where
  "fits ty x \<longleftrightarrow> ctype_min ty \<le> x \<and> x \<le> ctype_max ty"

lemma wrapc_id [simp]: "fits ty x \<Longrightarrow> wrapc ty x = x"
  by (cases ty)
    (auto simp: fits_def ctype_min_def ctype_max_def wrapc_def signed_take_bit_int_eq_self
      intro!: take_bit_int_eq_self)

lemma fits_wrapc [simp]: "fits ty (wrapc ty x)"
  using signed_take_bit_int_greater_eq_minus_exp [of 31 x] signed_take_bit_int_less_exp [of 31 x]
    signed_take_bit_int_greater_eq_minus_exp [of 63 x] signed_take_bit_int_less_exp [of 63 x]
    take_bit_int_less_exp [of 32 x] take_bit_int_less_exp [of 64 x]
  by (cases ty) (simp_all add: fits_def ctype_min_def ctype_max_def wrapc_def)

text \<open>Converting to 64 bits before converting to the type changes nothing.\<close>

lemma wrapc_wrapc64 [simp]: "wrapc ty (wrapc U64 x) = wrapc ty x"
  by (cases ty) (simp_all add: wrapc_def signed_take_bit_take_bit)

lemma wrapc_same [simp]: "wrapc ty (wrapc ty x) = wrapc ty x"
  by simp

lemma wrapc_eq_mod:
  "wrapc ty x = wrapc ty y \<longleftrightarrow> x mod 2 ^ (if ty = I32 \<or> ty = U32 then 32 else 64) = y mod 2 ^ (if ty = I32 \<or> ty = U32 then 32 else 64)"
  by (cases ty)
    (simp_all add: wrapc_def take_bit_eq_mod signed_take_bit_eq_iff_take_bit_eq)

lemma wrapc_add_left [simp]: "wrapc ty (wrapc ty x + y) = wrapc ty (x + y)"
  and wrapc_add_right [simp]: "wrapc ty (x + wrapc ty y) = wrapc ty (x + y)"
  and wrapc_diff_left [simp]: "wrapc ty (wrapc ty x - y) = wrapc ty (x - y)"
  and wrapc_diff_right [simp]: "wrapc ty (x - wrapc ty y) = wrapc ty (x - y)"
  and wrapc_mult_left [simp]: "wrapc ty (wrapc ty x * y) = wrapc ty (x * y)"
  and wrapc_mult_right [simp]: "wrapc ty (x * wrapc ty y) = wrapc ty (x * y)"
proof -
  have w: "wrapc ty x mod 2 ^ (if ty = I32 \<or> ty = U32 then 32 else 64) = x mod 2 ^ (if ty = I32 \<or> ty = U32 then 32 else 64)" for x
    using wrapc_same [of ty x] by (simp only: wrapc_eq_mod)
  show "wrapc ty (wrapc ty x + y) = wrapc ty (x + y)" "wrapc ty (x + wrapc ty y) = wrapc ty (x + y)"
    "wrapc ty (wrapc ty x - y) = wrapc ty (x - y)" "wrapc ty (x - wrapc ty y) = wrapc ty (x - y)"
    "wrapc ty (wrapc ty x * y) = wrapc ty (x * y)" "wrapc ty (x * wrapc ty y) = wrapc ty (x * y)"
    unfolding wrapc_eq_mod using w by (metis mod_add_eq mod_diff_eq mod_mult_eq)+
qed

lemma wrapc_lin:
  "wrapc ty (x + wrapc ty y * z) = wrapc ty (x + y * z)"
  "wrapc ty (x + wrapc ty y * z - w) = wrapc ty (x + y * z - w)"
  by (metis wrapc_add_right wrapc_mult_left, metis wrapc_add_right wrapc_mult_left wrapc_diff_left)

lemma fits_mono: "fits ty x \<Longrightarrow> fits ty z \<Longrightarrow> x \<le> y \<Longrightarrow> y \<le> z \<Longrightarrow> fits ty y"
  by (auto simp: fits_def)

lemma fits_U64 [simp]: "fits U64 x \<longleftrightarrow> 0 \<le> x \<and> x < 2 ^ 64"
  by (auto simp: fits_def ctype_min_def ctype_max_def)

lemma fits_I64: "fits I64 x \<longleftrightarrow> - (2 ^ 63) \<le> x \<and> x < 2 ^ 63"
  by (auto simp: fits_def ctype_min_def ctype_max_def)

lemma fits_I32: "fits I32 x \<longleftrightarrow> - (2 ^ 31) \<le> x \<and> x < 2 ^ 31"
  by (auto simp: fits_def ctype_min_def ctype_max_def)

lemma fits_upto_64: "fits ty x \<Longrightarrow> 0 \<le> x \<Longrightarrow> x < 2 ^ 64"
  by (cases ty) (auto simp: fits_def ctype_max_def)

lemma fits_0 [simp]: "fits ty 0" and fits_1 [simp]: "fits ty 1"
  by (cases ty; simp add: fits_def ctype_min_def ctype_max_def)+

lemma le_div_iff_mult_le:
  fixes c x k :: int
  assumes "0 < c"
  shows "x \<le> k div c \<longleftrightarrow> x * c \<le> k"
proof
  assume "x \<le> k div c"
  then have "x * c \<le> k div c * c" using assms by (intro mult_right_mono) auto
  also have "\<dots> = k - k mod c" by (simp add: minus_mod_eq_div_mult)
  also have "\<dots> \<le> k" using assms by simp
  finally show "x * c \<le> k" .
next
  assume "x * c \<le> k"
  then have "x * c div c \<le> k div c" using assms by (intro zdiv_mono1)
  then show "x \<le> k div c" using assms by simp
qed

section \<open>Loops with an inclusive bound\<close>

definition loop_trips :: "int \<Rightarrow> int \<Rightarrow> int \<Rightarrow> nat" where
  "loop_trips lb ub inc =
     (if 0 < inc then (if ub < lb then 0 else nat ((ub - lb) div inc + 1))
      else if inc < 0 then (if lb < ub then 0 else nat ((lb - ub) div (- inc) + 1))
      else 0)"

definition loop_iters :: "int \<Rightarrow> int \<Rightarrow> int \<Rightarrow> int list" where
  "loop_iters lb ub inc = map (\<lambda>k. lb + inc * int k) [0..<loop_trips lb ub inc]"

text \<open>The iterations with numbers from \<open>a\<close> to \<open>b\<close> exclusive, as a loop of its own.\<close>

lemma loop_trips_block:
  assumes "inc \<noteq> 0" "a \<le> b"
  shows "loop_trips (lb + inc * a) (lb + inc * (b - 1)) inc = nat (b - a)"
proof -
  have pos: "loop_trips (l + i * a) (l + i * (b - 1)) i = nat (b - a)" if "0 < i" for l i :: int
  proof -
    have "(l + i * (b - 1)) - (l + i * a) = i * (b - 1 - a)" by (simp add: algebra_simps)
    moreover have "l + i * (b - 1) < l + i * a \<longleftrightarrow> b - 1 < a" using that by simp
    ultimately show ?thesis using that assms(2) by (auto simp: loop_trips_def)
  qed
  show ?thesis
  proof (cases "0 < inc")
    case True
    then show ?thesis by (rule pos)
  next
    case False
    have "loop_trips (lb + inc * a) (lb + inc * (b - 1)) inc
      = loop_trips (- lb + (- inc) * a) (- lb + (- inc) * (b - 1)) (- inc)"
      using False assms(1) by (auto simp: loop_trips_def)
    then show ?thesis using pos [of "- inc" "- lb"] False assms(1) by simp
  qed
qed

lemma loop_iters_block:
  assumes "inc \<noteq> 0" "a \<le> b"
  shows "loop_iters (lb + inc * int a) (lb + inc * (int b - 1)) inc = map (\<lambda>k. lb + inc * int k) [a..<b]"
proof -
  have "map (\<lambda>k. lb + inc * int a + inc * int k) [0..<b - a] = map (\<lambda>k. lb + inc * int k) (map (\<lambda>k. k + a) [0..<b - a])"
    by (simp add: algebra_simps)
  also have "map (\<lambda>k. k + a) [0..<b - a] = [a..<b]" using assms by (simp add: map_add_upt)
  finally show ?thesis
    using loop_trips_block [of inc "int a" "int b" lb] assms by (simp add: loop_iters_def nat_diff_distrib)
qed

lemma loop_iters_none: "inc \<noteq> 0 \<Longrightarrow> loop_iters (ub + inc) ub inc = []"
  by (auto simp: loop_iters_def loop_trips_def)

lemma loop_iters_eq:
  "inc \<noteq> 0 \<Longrightarrow> loop_iters lb ub inc = map (\<lambda>k. lb + inc * int k) [0..<loop_trips lb ub inc]"
  by (simp add: loop_iters_def)

text \<open>Consecutive blocks make up the whole range.\<close>

lemma concat_blocks:
  fixes s :: "nat \<Rightarrow> nat"
  assumes "\<And>i. i < n \<Longrightarrow> s i \<le> s (Suc i)"
  shows "concat (map (\<lambda>i. map h [s i..<s (Suc i)]) [0..<n]) = map h [s 0..<s n]"
  using assms
proof (induction n)
  case (Suc n)
  have "s 0 \<le> s n"
    using Suc.prems by (induction n) (auto intro: order_trans)
  then have "[s 0..<s (Suc n)] = [s 0..<s n] @ [s n..<s (Suc n)]"
    using Suc.prems [of n] by (metis le_add_diff_inverse lessI upt_add_eq_append)
  then show ?case using Suc by simp
qed simp

end
