(* ===== verification/Omp_Nodes.thy ===== *)
theory Omp_Nodes
  imports C_Int Migration
begin

text \<open>
  Where the threads of an OpenMP team run (\<open>src/lib/libopenpop\<close>): the read-mostly page of the run
  time's global state (\<open>hierarchy.h\<close>), its getters and setters and the assignment of threads to
  nodes (\<open>hierarchy.c\<close>), the placement given by the user (\<open>affinity.c\<close>) and the loops of \<open>gomp_team_start\<close> that number the threads (\<open>team.c\<close>). The arrays have \<open>MAX_POPCORN_NODES\<close> entries and
  are lists; \<open>unsigned long\<close> values are integers kept in range by \<open>wrapc U64\<close>.
\<close>

section \<open>The global state\<close>

record global_info =
  distributed :: bool
  finished :: bool
  hybrid_barrier :: bool
  hybrid_reduce :: bool
  het_workshare :: bool
  popcorn_killswitch :: bool
  avail_nodes :: int
  node_places :: "int list"
  threads_per_node :: "int list"
  core_speed_rating :: "int list"
  scaled_thread_range :: int

abbreviation max_nodes :: nat where "max_nodes \<equiv> nat MAX_POPCORN_NODES"

text \<open>\<open>initialize_env\<close> clears the state before it looks at the environment.\<close>

definition global_zero :: global_info where
  "global_zero = \<lparr>distributed = False, finished = False, hybrid_barrier = False, hybrid_reduce = False,
     het_workshare = False, popcorn_killswitch = False, avail_nodes = 0,
     node_places = replicate max_nodes 0, threads_per_node = replicate max_nodes 0,
     core_speed_rating = replicate max_nodes 0, scaled_thread_range = 0\<rparr>"

definition wf_global :: "global_info \<Rightarrow> bool" where
  "wf_global g \<longleftrightarrow> length (node_places g) = max_nodes \<and> length (threads_per_node g) = max_nodes \<and>
     length (core_speed_rating g) = max_nodes \<and>
     (\<forall>x \<in> set (node_places g). fits U64 x) \<and> (\<forall>x \<in> set (threads_per_node g). fits U64 x) \<and>
     (\<forall>x \<in> set (core_speed_rating g). fits U64 x)"

definition omp_popcorn_threads :: "global_info \<Rightarrow> int" where
  "omp_popcorn_threads g = foldl (\<lambda>num t. wrapc U64 (num + t)) 0 (threads_per_node g)"

definition omp_popcorn_threads_per_node :: "global_info \<Rightarrow> int \<Rightarrow> int" where
  "omp_popcorn_threads_per_node g n =
     (if n \<ge> 0 \<and> n < MAX_POPCORN_NODES then threads_per_node g ! nat n else 2 ^ 64 - 1)"

definition omp_popcorn_core_speed :: "global_info \<Rightarrow> int \<Rightarrow> int" where
  "omp_popcorn_core_speed g n =
     (if n \<ge> 0 \<and> n < MAX_POPCORN_NODES then core_speed_rating g ! nat n else 2 ^ 64 - 1)"

definition popcorn_set_distributed :: "bool \<Rightarrow> global_info \<Rightarrow> global_info" where
  "popcorn_set_distributed flag g = g\<lparr>distributed := flag\<rparr>"

definition popcorn_set_finished :: "bool \<Rightarrow> global_info \<Rightarrow> global_info" where
  "popcorn_set_finished flag g = g\<lparr>finished := flag\<rparr>"

definition popcorn_set_hybrid_barrier :: "bool \<Rightarrow> global_info \<Rightarrow> global_info" where
  "popcorn_set_hybrid_barrier flag g = g\<lparr>hybrid_barrier := flag\<rparr>"

definition popcorn_set_hybrid_reduce :: "bool \<Rightarrow> global_info \<Rightarrow> global_info" where
  "popcorn_set_hybrid_reduce flag g = g\<lparr>hybrid_reduce := flag\<rparr>"

definition popcorn_set_het_workshare :: "bool \<Rightarrow> global_info \<Rightarrow> global_info" where
  "popcorn_set_het_workshare flag g = g\<lparr>het_workshare := flag\<rparr>"

section \<open>Assigning threads to nodes\<close>

text \<open>The sum is kept in an \<open>unsigned\<close> and returned as an \<open>int\<close>.\<close>

definition hierarchy_node_first_thread :: "global_info \<Rightarrow> int \<Rightarrow> int result" where
  "hierarchy_node_first_thread g n =
     bindE (require (n \<ge> 0 \<and> n < MAX_POPCORN_NODES) Abort) (\<lambda>_.
     Inr (wrapc I32 (foldl (\<lambda>cur p. wrapc U32 (cur + p)) 0 (take (nat n) (node_places g)))))"

text \<open>The loop of \<open>hierarchy_assign_node\<close> from node \<open>cur\<close> on, over the places of the remaining nodes.\<close>

fun node_of_thread :: "int \<Rightarrow> int list \<Rightarrow> nat \<Rightarrow> int \<Rightarrow> nat" where
  "node_of_thread tnum [] cur thr_total = 0"
| "node_of_thread tnum (p # ps) cur thr_total =
     (let thr_total = wrapc U32 (thr_total + p) in
      if tnum < thr_total then cur else node_of_thread tnum ps (Suc cur) thr_total)"

definition hierarchy_assign_node :: "int \<Rightarrow> global_info \<Rightarrow> nat \<times> global_info" where
  "hierarchy_assign_node tnum g =
     (let n = node_of_thread tnum (node_places g) 0 0 in
      (n, g\<lparr>threads_per_node := (threads_per_node g)[n := wrapc U64 (threads_per_node g ! n + 1)]\<rparr>))"

text \<open>
  \<open>gomp_team_start\<close> clears the counts, assigns the main thread and then each further thread in the
  order of their numbers, whether the thread is reused or created. The result lists the node of each
  thread.
\<close>

fun assign_threads :: "nat \<Rightarrow> nat \<Rightarrow> global_info \<Rightarrow> nat list \<times> global_info" where
  "assign_threads i 0 g = ([], g)"
| "assign_threads i (Suc n) g =
     (let (k, g) = hierarchy_assign_node (int i) g; (ks, g) = assign_threads (Suc i) n g in (k # ks, g))"

definition team_start_places :: "nat \<Rightarrow> global_info \<Rightarrow> nat list \<times> global_info" where
  "team_start_places nthreads g = assign_threads 0 nthreads (g\<lparr>threads_per_node := replicate max_nodes 0\<rparr>)"

text \<open>The nodes that take part, whose synchronization data the main thread then initializes.\<close>

definition team_nodes :: "global_info \<Rightarrow> nat list" where
  "team_nodes g = filter (\<lambda>n. threads_per_node g ! n \<noteq> 0) [0..<max_nodes]"

section \<open>The placement and the ratings given by the user\<close>

text \<open>
  \<open>popcorn_affinity_init_nodes\<close>: the available nodes get the counts in turn, as long as there are any.
  \<open>avail\<close> is the answer of \<open>node_available\<close> for each node.
\<close>

fun place_nodes :: "bool list \<Rightarrow> int list \<Rightarrow> global_info \<Rightarrow> nat \<Rightarrow> global_info" where
  "place_nodes [] cs g i = g"
| "place_nodes (True # avail) (c # cs) g i =
     place_nodes avail cs
       (g\<lparr>avail_nodes := wrapc U64 (avail_nodes g + 1), node_places := (node_places g)[i := c]\<rparr>) (Suc i)"
| "place_nodes (a # avail) cs g i = place_nodes avail cs g (Suc i)"

definition finish_nodes :: "global_info \<Rightarrow> bool \<times> global_info" where
  "finish_nodes g =
     (if avail_nodes g \<noteq> 0
      then (True, g\<lparr>distributed := True, hybrid_barrier := True, hybrid_reduce := True\<rparr>)
      else (False, g))"

definition popcorn_affinity_init_nodes :: "bool list \<Rightarrow> int list \<Rightarrow> global_info \<Rightarrow> bool \<times> global_info" where
  "popcorn_affinity_init_nodes avail cs g = finish_nodes (place_nodes avail cs g 0)"

definition popcorn_affinity_init_nodes_uniform :: "bool list \<Rightarrow> int \<Rightarrow> global_info \<Rightarrow> bool \<times> global_info" where
  "popcorn_affinity_init_nodes_uniform avail c g =
     finish_nodes (place_nodes avail (replicate max_nodes c) g 0)"

fun rate_nodes :: "int list \<Rightarrow> int list \<Rightarrow> nat \<Rightarrow> nat \<Rightarrow> global_info \<Rightarrow> nat \<times> global_info" where
  "rate_nodes [] ratings i cur g = (cur, g)"
| "rate_nodes (p # places) ratings i cur g =
     (if p = 0 then rate_nodes places ratings (Suc i) cur g
      else case ratings of
        r # rs \<Rightarrow> rate_nodes places rs (Suc i) (Suc cur)
          (g\<lparr>scaled_thread_range := wrapc U64 (scaled_thread_range g + p * r),
             core_speed_rating := (core_speed_rating g)[i := r]\<rparr>)
      | [] \<Rightarrow> rate_nodes places [] (Suc i) cur
          (g\<lparr>scaled_thread_range := wrapc U64 (scaled_thread_range g + p),
             core_speed_rating := (core_speed_rating g)[i := 1]\<rparr>))"

definition popcorn_affinity_init_node_ratings :: "int list \<Rightarrow> global_info \<Rightarrow> bool \<times> global_info" where
  "popcorn_affinity_init_node_ratings ratings g =
     (let (cur, g) = rate_nodes (node_places g) ratings 0 0 g in (cur > 0, g))"


section \<open>What the assignment does\<close>

text \<open>The node of each place, in the order of the nodes.\<close>

fun slots :: "int list \<Rightarrow> nat \<Rightarrow> nat list" where
  "slots [] i = []"
| "slots (p # ps) i = replicate (nat p) i @ slots ps (Suc i)"

lemma length_slots: "(\<forall>p \<in> set ps. 0 \<le> p) \<Longrightarrow> int (length (slots ps i)) = sum_list ps"
  by (induction ps arbitrary: i) auto

lemma set_slots: "k \<in> set (slots ps i) \<Longrightarrow> i \<le> k \<and> k < i + length ps"
  by (induction ps arbitrary: i) (fastforce split: if_splits)+

lemma count_slots: "k < length ps \<Longrightarrow> count_list (slots ps i) (i + k) = nat (ps ! k)"
proof (induction ps arbitrary: i k)
  case (Cons p ps)
  have c: "count_list (replicate m x) y = (if x = y then m else 0)" for m and x y :: nat
    by (induction m) auto
  show ?case
  proof (cases k)
    case 0
    have "count_list (slots ps (Suc i)) i = 0"
      using set_slots [of i ps "Suc i"] by (auto simp: count_list_0_iff)
    then show ?thesis using 0 by (simp add: c)
  next
    case (Suc j)
    then show ?thesis using Cons.IH [of j "Suc i"] Cons.prems by (simp add: c)
  qed
qed simp

lemma node_of_thread_slots:
  assumes "\<forall>p \<in> set ps. 0 \<le> p" "0 \<le> tot" "tot \<le> t" "tot + sum_list ps < 2 ^ 32"
  shows "node_of_thread t ps cur tot = (if t < tot + sum_list ps then slots ps cur ! nat (t - tot) else 0)"
  using assms
proof (induction ps arbitrary: cur tot)
  case (Cons p ps)
  have s: "0 \<le> sum_list ps" using Cons.prems(1) by (intro sum_list_nonneg) auto
  have f: "wrapc U32 (tot + p) = tot + p"
    using Cons.prems s by (intro wrapc_id) (auto simp: fits_def ctype_min_def ctype_max_def)
  show ?case
  proof (cases "t < tot + p")
    case True
    then show ?thesis using Cons.prems s by (simp add: f nth_append)
  next
    case False
    then have "node_of_thread t (p # ps) cur tot = node_of_thread t ps (Suc cur) (tot + p)"
      by (simp add: f Let_def)
    also have "\<dots> = (if t < tot + p + sum_list ps then slots ps (Suc cur) ! nat (t - (tot + p)) else 0)"
      using Cons.prems s False by (intro Cons.IH) (auto simp: algebra_simps)
    moreover have "nat (t - (tot + p)) = nat (t - tot) - nat p" "\<not> nat (t - tot) < nat p"
      using False Cons.prems(1) by auto
    ultimately show ?thesis
      using False Cons.prems(1) by (simp add: nth_append add.assoc)
  qed
qed simp

lemma node_of_thread_max:
  assumes "length ps = max_nodes"
  shows "node_of_thread t ps 0 tot < max_nodes"
proof -
  have "node_of_thread t qs cur tot < cur + length qs \<or> node_of_thread t qs cur tot = 0" for qs cur tot
    by (induction qs arbitrary: cur tot) (simp_all add: Let_def, metis add_Suc)
  from this [of ps 0 tot] show ?thesis using assms by (auto simp: MAX_POPCORN_NODES_def)
qed

definition thread_nodes :: "global_info \<Rightarrow> nat \<Rightarrow> nat \<Rightarrow> nat list" where
  "thread_nodes g i n = map (\<lambda>t. node_of_thread (int t) (node_places g) 0 0) [i..<i + n]"

lemma assign_threads_eq:
  assumes "length (node_places g) = max_nodes" "length (threads_per_node g) = max_nodes"
    and "\<forall>x \<in> set (threads_per_node g). 0 \<le> x \<and> x + int n < 2 ^ 64"
  shows "assign_threads i n g = (thread_nodes g i n,
    g\<lparr>threads_per_node := map (\<lambda>k. threads_per_node g ! k + int (count_list (thread_nodes g i n) k)) [0..<max_nodes]\<rparr>)"
  using assms
proof (induction n arbitrary: i g)
  case 0
  have "map (\<lambda>k. threads_per_node g ! k) [0..<max_nodes] = threads_per_node g"
    using 0 by (metis map_nth)
  then show ?case by (simp add: thread_nodes_def)
next
  case (Suc n)
  define k where "k = node_of_thread (int i) (node_places g) 0 0"
  have k: "k < max_nodes" unfolding k_def using Suc.prems by (intro node_of_thread_max)
  define h where "h = g\<lparr>threads_per_node := (threads_per_node g)[k := threads_per_node g ! k + 1]\<rparr>"
  have "0 \<le> threads_per_node g ! k" "threads_per_node g ! k + int (Suc n) < 2 ^ 64"
    using Suc.prems k by (auto simp: all_set_conv_all_nth)
  then have a: "hierarchy_assign_node (int i) g = (k, h)"
    by (simp add: hierarchy_assign_node_def k_def [symmetric] h_def Let_def)
  have h: "length (node_places h) = max_nodes" "length (threads_per_node h) = max_nodes"
    "\<forall>x \<in> set (threads_per_node h). 0 \<le> x \<and> x + int n < 2 ^ 64" "node_places h = node_places g"
    using Suc.prems k by (auto simp: h_def all_set_conv_all_nth nth_list_update)
  have u: "[i..<i + Suc n] = i # [Suc i..<Suc i + n]" by (metis add_Suc add_Suc_right less_add_Suc1 upt_conv_Cons)
  have t: "thread_nodes h (Suc i) n = thread_nodes g (Suc i) n" "thread_nodes g i (Suc n) = k # thread_nodes g (Suc i) n"
    by (simp_all only: thread_nodes_def k_def u h(4) list.map)
  have m: "map (\<lambda>j. threads_per_node h ! j + int (count_list (thread_nodes g (Suc i) n) j)) [0..<max_nodes]
    = map (\<lambda>j. threads_per_node g ! j + int (count_list (thread_nodes g i (Suc n)) j)) [0..<max_nodes]"
    using Suc.prems k by (auto simp: t(2) h_def nth_list_update)
  show ?case
    using Suc.IH [OF h(1-3), of "Suc i"] by (simp add: a t(1) m Let_def) (simp add: t(2) h_def)
qed

text \<open>The users' placement is honoured: places are filled in the order of the nodes, then node 0 takes the rest.\<close>

definition placement_ok :: "global_info \<Rightarrow> nat \<Rightarrow> bool" where
  "placement_ok g n \<longleftrightarrow> wf_global g \<and> sum_list (node_places g) < 2 ^ 31 \<and> n < 2 ^ 31"

lemma placement_okD:
  assumes "placement_ok g n"
  shows "length (node_places g) = max_nodes" "\<forall>p \<in> set (node_places g). 0 \<le> p" "sum_list (node_places g) < 2 ^ 31" "n < 2 ^ 31"
  using assms by (auto simp: placement_ok_def wf_global_def)

lemma thread_nodes_slots:
  assumes "placement_ok g n"
  shows "thread_nodes g 0 n = take n (slots (node_places g) 0 @ replicate n 0)"
proof (rule nth_equalityI)
  note p = placement_okD [OF assms]
  fix t assume t: "t < length (thread_nodes g 0 n)"
  then have "thread_nodes g 0 n ! t = node_of_thread (int t) (node_places g) 0 0" by (simp add: thread_nodes_def)
  also have "\<dots> = (if int t < sum_list (node_places g) then slots (node_places g) 0 ! t else 0)"
    using node_of_thread_slots [of "node_places g" 0 "int t" 0] p by simp
  also have "\<dots> = take n (slots (node_places g) 0 @ replicate n 0) ! t"
    using t length_slots [OF p(2), of 0] by (auto simp: nth_append thread_nodes_def simp del: of_nat_less_iff simp add: of_nat_less_iff [symmetric])
  finally show "thread_nodes g 0 n ! t = take n (slots (node_places g) 0 @ replicate n 0) ! t" .
qed (simp add: thread_nodes_def)

lemma team_start_places_eq:
  assumes "placement_ok g n"
  shows "team_start_places n g = (take n (slots (node_places g) 0 @ replicate n 0),
    g\<lparr>threads_per_node := map (\<lambda>k. int (count_list (take n (slots (node_places g) 0 @ replicate n 0)) k)) [0..<max_nodes]\<rparr>)"
proof -
  define h where "h = g\<lparr>threads_per_node := replicate max_nodes 0\<rparr>"
  have ok: "placement_ok h n" using assms by (auto simp: h_def placement_ok_def wf_global_def)
  have t: "thread_nodes h 0 n = take n (slots (node_places g) 0 @ replicate n 0)"
    using thread_nodes_slots [OF ok] by (simp add: h_def)
  have "\<forall>x \<in> set (threads_per_node h). 0 \<le> x \<and> x + int n < 2 ^ 64"
    using placement_okD(4) [OF ok] by (simp add: h_def)
  from assign_threads_eq [OF _ _ this, of 0] show ?thesis
    using placement_okD(1) [OF ok] t by (simp add: team_start_places_def h_def)
qed


lemma slots_nth:
  assumes "\<forall>p \<in> set ps. 0 \<le> p" "t < length (slots ps i)" "k < length ps"
  shows "slots ps i ! t = i + k \<longleftrightarrow> sum_list (take k ps) \<le> int t \<and> int t < sum_list (take (Suc k) ps)"
  using assms
proof (induction ps arbitrary: i t k)
  case (Cons p ps)
  have s: "0 \<le> sum_list (take j ps)" for j
    using Cons.prems(1) by (intro sum_list_nonneg) (auto dest: in_set_takeD)
  show ?case
  proof (cases "t < nat p")
    case True
    then have "slots (p # ps) i ! t = i" by (simp add: nth_append)
    moreover have "int t < p" using True by simp
    ultimately show ?thesis using s [of "k - 1"] by (cases k) auto
  next
    case False
    define u where "u = t - nat p"
    have u: "int t = p + int u" "u < length (slots ps (Suc i))" "slots (p # ps) i ! t = slots ps (Suc i) ! u"
      using False Cons.prems(1,2) by (auto simp: u_def nth_append)
    show ?thesis
    proof (cases k)
      case 0
      have "slots ps (Suc i) ! u \<noteq> i"
        using set_slots [of i ps "Suc i"] nth_mem [OF u(2)] by auto
      then show ?thesis using 0 u by simp
    next
      case (Suc j)
      then show ?thesis using Cons.IH [of u "Suc i" j] Cons.prems u by simp
    qed
  qed
qed simp

lemma foldl_wrap_sum:
  assumes "\<forall>p \<in> set ps. 0 \<le> p" "0 \<le> c" "fits ty (c + sum_list ps)"
  shows "foldl (\<lambda>cur p. wrapc ty (cur + p)) c ps = c + sum_list ps"
  using assms
proof (induction ps arbitrary: c)
  case (Cons p ps)
  have "0 \<le> sum_list ps" using Cons.prems(1) by (intro sum_list_nonneg) auto
  then have "fits ty (c + p)"
    using Cons.prems(1,2) by (intro fits_mono [OF fits_0 Cons.prems(3)]) simp_all
  moreover have "foldl (\<lambda>cur p. wrapc ty (cur + p)) (c + p) ps = c + p + sum_list ps"
    using Cons.prems by (intro Cons.IH) (simp_all add: add.assoc)
  ultimately show ?case by simp
qed simp

lemma sum_list_take_le:
  fixes ps :: "int list"
  assumes "\<forall>p \<in> set ps. 0 \<le> p"
  shows "0 \<le> sum_list (take k ps)" "sum_list (take k ps) \<le> sum_list ps"
proof -
  have "0 \<le> sum_list (take k ps)" "0 \<le> sum_list (drop k ps)"
    using assms by (auto intro!: sum_list_nonneg dest: in_set_takeD in_set_dropD)
  moreover have "sum_list ps = sum_list (take k ps) + sum_list (drop k ps)"
    by (metis append_take_drop_id sum_list_append)
  ultimately show "0 \<le> sum_list (take k ps)" "sum_list (take k ps) \<le> sum_list ps" by auto
qed

lemma hierarchy_node_first_thread_eq:
  assumes "placement_ok g n" "k < max_nodes"
  shows "hierarchy_node_first_thread g (int k) = Inr (sum_list (take k (node_places g)))"
proof -
  note p = placement_okD [OF assms(1)]
  have t: "\<forall>p \<in> set (take k (node_places g)). 0 \<le> p" using p(2) by (auto dest: in_set_takeD)
  note s = sum_list_take_le [OF p(2), of k]
  have f: "fits U32 (sum_list (take k (node_places g)))" "fits I32 (sum_list (take k (node_places g)))"
    using s p(3) by (auto simp: fits_I32) (auto simp: fits_def ctype_min_def ctype_max_def)
  have "foldl (\<lambda>cur p. wrapc U32 (cur + p)) 0 (take k (node_places g)) = sum_list (take k (node_places g))"
    using foldl_wrap_sum [OF t, of 0 U32] f by simp
  then show ?thesis
    using f assms(2) by (simp add: hierarchy_node_first_thread_def MAX_POPCORN_NODES_def)
qed

lemma count_list_interval:
  assumes "\<And>t. t < length xs \<Longrightarrow> xs ! t = k \<longleftrightarrow> a \<le> t \<and> t < b"
  shows "count_list xs k = min (length xs) b - a"
proof -
  have "count_list xs k = length (filter ((=) k) (map ((!) xs) [0..<length xs]))"
    by (simp only: count_list_eq_length_filter map_nth)
  also have "\<dots> = length (filter (\<lambda>t. k = xs ! t) [0..<length xs])"
    by (simp add: filter_map comp_def)
  also have "filter (\<lambda>t. k = xs ! t) [0..<length xs] = filter (\<lambda>t. a \<le> t \<and> t < b) [0..<length xs]"
    using assms by (intro filter_cong) fastforce+
  also have "length \<dots> = card {t \<in> {0..<length xs}. a \<le> t \<and> t < b}"
    by (simp add: distinct_length_filter Int_def conj_commute)
  also have "{t \<in> {0..<length xs}. a \<le> t \<and> t < b} = {a..<min (length xs) b}" by auto
  finally show ?thesis by simp
qed

lemma placement_ok_team_start:
  assumes "placement_ok g n"
  shows "placement_ok (snd (team_start_places n g)) n"
proof -
  have "int (count_list (take n xs) k) < 2 ^ 64" for xs and k :: nat
    using count_le_length [of "take n xs" k] placement_okD(4) [OF assms] by simp
  then show ?thesis
    using assms by (auto simp: team_start_places_eq placement_ok_def wf_global_def simp del: take_append)
qed


end
