(* ===== verification/Omp_Env.thy ===== *)
theory Omp_Env
  imports Omp_Nodes Thread_Schedule_Correct
begin

text \<open>
  The environment variables that place the threads of a distributed OpenMP program
  (\<open>src/lib/libopenpop/env.c\<close>): \<open>POPCORN_PLACES\<close> and \<open>POPCORN_HET_WORKSHARE\<close> with their parsers, the
  boolean switches, and the Popcorn part of \<open>initialize_env\<close>. Pointers into the strings are the rest
  of the string, with the terminating character as its end; \<open>strtoul\<close> is that of the musl sources.
\<close>

section \<open>The C library's part\<close>

definition skip :: "string \<Rightarrow> string" where
  "skip s = dropWhile is_space s"

text \<open>\<open>strtoul(s, &end, 10)\<close>: the value, whether \<open>errno\<close> is set, and the end.\<close>

definition strtoul :: "string \<Rightarrow> int \<times> bool \<times> string" where
  "strtoul s =
     (let cs = skip s;
          neg = (cs \<noteq> [] \<and> hd cs = CHR ''-'');
          ds = (if cs \<noteq> [] \<and> (hd cs = CHR ''+'' \<or> hd cs = CHR ''-'') then tl cs else cs) in
      if ds = [] \<or> \<not> is_digit (hd ds) then (0, True, s)
      else
        let (n, rest) = scan_digits 0 ds in
        if n < 2 ^ 64 then (wrapc U64 (if neg then - int n else int n), False, rest)
        else (2 ^ 64 - 1, True, rest))"

definition lower_char :: "char \<Rightarrow> char" where
  "lower_char c = (if 65 \<le> (of_char c :: nat) \<and> of_char c \<le> (90 :: nat) then char_of (of_char c + 32 :: nat) else c)"

text \<open>\<open>strncasecmp(s, word, strlen(word)) == 0\<close>\<close>

definition starts_with :: "string \<Rightarrow> string \<Rightarrow> bool" where
  "starts_with word s \<longleftrightarrow> map lower_char (take (length word) s) = word"

section \<open>The parsers\<close>

text \<open>
  The loop of both parsers over items \<open>{num}\<close>, with room for \<open>k\<close> more: \<open>None\<close> is the jump to
  \<open>invalid\<close>. When the room is used up behind a comma, the loop ends without looking at the rest.
\<close>

fun parse_items :: "nat \<Rightarrow> string \<Rightarrow> int list option" where
  "parse_items 0 s = Some []"
| "parse_items (Suc k) s =
     (if s = [] \<or> hd s \<noteq> CHR ''{'' then None
      else
        let s = skip (tl s); (v, err, num_end) = strtoul s in
        if err \<or> wrapc I64 v < 0 \<or> num_end = s then None
        else
          let e = skip num_end in
          if e = [] \<or> hd e \<noteq> CHR ''}'' then None
          else
            let e = skip (tl e) in
            if e = [] then Some [v]
            else if hd e \<noteq> CHR '','' then None
            else map_option (Cons v) (parse_items k (skip (tl e))))"

text \<open>The form \<open>nodes(num)\<close>, behind its first word.\<close>

definition parse_uniform :: "string \<Rightarrow> int option" where
  "parse_uniform s =
     (let s = skip s in
      if s = [] \<or> hd s \<noteq> CHR ''('' then None
      else
        let (v, err, e) = strtoul (skip (tl s)) in
        if err then None
        else
          let e = skip e in
          if e = [] \<or> hd e \<noteq> CHR '')'' \<or> skip (tl e) \<noteq> [] then None else Some v)"

definition parse_popcorn_nodes_var :: "bool list \<Rightarrow> string option \<Rightarrow> global_info \<Rightarrow> bool \<times> global_info" where
  "parse_popcorn_nodes_var avail env g =
     (case env of
        None \<Rightarrow> (False, g)
      | Some s \<Rightarrow>
          let s = skip s in
          if starts_with ''nodes'' s then
            (case parse_uniform (drop 5 s) of
               None \<Rightarrow> (False, g)
             | Some v \<Rightarrow> popcorn_affinity_init_nodes_uniform avail v g)
          else
            (case parse_items max_nodes s of
               None \<Rightarrow> (False, g)
             | Some cs \<Rightarrow> popcorn_affinity_init_nodes avail cs g))"

definition parse_het_workshare_var :: "string option \<Rightarrow> global_info \<Rightarrow> bool \<times> global_info" where
  "parse_het_workshare_var env g =
     (case env of
        None \<Rightarrow> (False, g)
      | Some s \<Rightarrow>
          (case parse_items max_nodes (skip s) of
             None \<Rightarrow> (False, g)
           | Some cs \<Rightarrow> popcorn_affinity_init_node_ratings cs g))"

text \<open>\<open>parse_boolean\<close>: the value, and whether the variable is reported as invalid; it is set all the same.\<close>

definition parse_boolean :: "string option \<Rightarrow> bool \<Rightarrow> bool \<times> bool" where
  "parse_boolean env value =
     (case env of
        None \<Rightarrow> (value, False)
      | Some s \<Rightarrow>
          let s = skip s in
          if starts_with ''true'' s then (True, skip (drop 4 s) \<noteq> [])
          else if starts_with ''false'' s then (False, skip (drop 5 s) \<noteq> [])
          else (value, True))"

text \<open>The Popcorn part of \<open>initialize_env\<close>, run when no binding of threads to places is requested.\<close>

definition init_popcorn_env :: "(string \<Rightarrow> string option) \<Rightarrow> bool list \<Rightarrow> global_info" where
  "init_popcorn_env getenv avail =
     (let g = snd (parse_popcorn_nodes_var avail (getenv ''POPCORN_PLACES'') global_zero) in
      if \<not> distributed g then g
      else
        let g = g\<lparr>hybrid_barrier := fst (parse_boolean (getenv ''POPCORN_HYBRID_BARRIER'') (hybrid_barrier g))\<rparr>;
            g = g\<lparr>hybrid_reduce := fst (parse_boolean (getenv ''POPCORN_HYBRID_REDUCE'') (hybrid_reduce g))\<rparr>;
            (h, g) = parse_het_workshare_var (getenv ''POPCORN_HET_WORKSHARE'') g in
        g\<lparr>het_workshare := h\<rparr>)"

section \<open>Round trip\<close>

text \<open>How a user writes a list of numbers; any white space may stand between the tokens.\<close>

definition show_item :: "string \<Rightarrow> nat \<Rightarrow> string" where
  "show_item ws n = CHR ''{'' # ws @ show_nat n @ ws @ CHR ''}'' # ws"

fun show_items :: "string \<Rightarrow> nat list \<Rightarrow> string" where
  "show_items ws [] = []"
| "show_items ws [n] = show_item ws n"
| "show_items ws (n # ns) = show_item ws n @ CHR '','' # ws @ show_items ws ns"

lemma skip_nil [simp]: "skip [] = []"
  by (simp add: skip_def)

lemma skip_spaces [simp]: "\<forall>c \<in> set ws. is_space c \<Longrightarrow> skip (ws @ s) = skip s"
  by (induction ws) (simp_all add: skip_def)

lemma skip_all [simp]: "\<forall>c \<in> set ws. is_space c \<Longrightarrow> skip ws = []"
  by (simp add: skip_def dropWhile_eq_Nil_conv)

lemma skip_stop [simp]: "\<not> is_space c \<Longrightarrow> skip (c # s) = c # s"
  by (simp add: skip_def)

lemma skip_show_nat [simp]: "skip (show_nat n @ s) = show_nat n @ s"
proof -
  obtain k :: nat where k: "k < 10" "hd (show_nat n @ s) = char_of (48 + k)" using hd_show_nat by blast
  have "\<not> is_space (hd (show_nat n @ s))" using digit_char(3) [OF k(1)] k(2) by simp
  then show ?thesis by (cases "show_nat n @ s") (simp_all add: skip_def)
qed

lemma punctuation [simp]:
  "\<not> is_space CHR ''{''" "\<not> is_space CHR ''}''" "\<not> is_space CHR '',''" "\<not> is_digit CHR ''}''" "\<not> is_digit CHR '')''"
  by (simp_all add: is_space_def is_digit_def)

lemma strtoul_show_nat:
  assumes "n < 2 ^ 64" "ends s"
  shows "strtoul (show_nat n @ s) = (int n, False, s)"
proof -
  obtain k :: nat where k: "k < 10" "hd (show_nat n @ s) = char_of (48 + k)" using hd_show_nat by blast
  have "fits U64 (int n)" using assms(1) by simp
  then show ?thesis
    using digit_char [OF k(1)] k(2) scan_digits_show [of 0 n s] assms
    by (auto simp: strtoul_def Let_def)
qed

lemma space_ends: "\<forall>c \<in> set ws. is_space c \<Longrightarrow> ends s \<Longrightarrow> ends (ws @ s)"
  by (cases ws) (auto simp: ends_def is_space_def is_digit_def)

lemma parse_item:
  assumes "\<forall>c \<in> set ws. is_space c" "n < 2 ^ 63"
  shows "parse_items (Suc k) (show_item ws n @ s) =
    (let e = skip s in
     if e = [] then Some [int n]
     else if hd e \<noteq> CHR '','' then None
     else map_option (Cons (int n)) (parse_items k (skip (tl e))))"
proof -
  have e: "ends (ws @ CHR ''}'' # ws @ s)" using assms(1) by (intro space_ends) (simp_all add: ends_def)
  have n: "fits I64 (int n)" using assms(2) by (simp add: fits_I64)
  have l: "ws @ CHR ''}'' # ws @ s \<noteq> show_nat n @ ws @ CHR ''}'' # ws @ s" by (metis append_self_conv2 show_nat_not_nil)
  show ?thesis
    using strtoul_show_nat [OF _ e, of n] assms n l by (simp add: show_item_def Let_def)
qed

lemma parse_items_show:
  assumes "\<forall>c \<in> set ws. is_space c" "\<forall>n \<in> set ns. n < 2 ^ 63" "ns \<noteq> []" "length ns \<le> k"
  shows "parse_items k (show_items ws ns) = Some (map int ns)"
  using assms
proof (induction ws ns arbitrary: k rule: show_items.induct)
  case (2 ws n)
  then obtain j where "k = Suc j" by (cases k) auto
  then show ?case using parse_item [of ws n j "[]"] 2 by (simp del: parse_items.simps)
next
  case (3 ws n m ns)
  then obtain j where j: "k = Suc j" by (cases k) auto
  have "hd (show_items ws (m # ns)) = CHR ''{''" "show_items ws (m # ns) \<noteq> []"
    by (cases ns; simp add: show_item_def)+
  then have s: "skip (show_items ws (m # ns)) = show_items ws (m # ns)"
    by (cases "show_items ws (m # ns)") auto
  show ?case
    using parse_item [of ws n j "CHR '','' # ws @ show_items ws (m # ns)"] 3 j s by (simp del: parse_items.simps)
qed simp


text \<open>The counts of the nodes: the available nodes take them in turn.\<close>

fun spread :: "bool list \<Rightarrow> int list \<Rightarrow> int list" where
  "spread [] cs = []"
| "spread (True # avail) (c # cs) = c # spread avail cs"
| "spread (a # avail) cs = 0 # spread avail cs"

lemma length_spread [simp]: "length (spread avail cs) = length avail"
  by (induction avail cs rule: spread.induct) auto

lemma set_spread: "set (spread avail cs) \<subseteq> insert 0 (set cs)"
  by (induction avail cs rule: spread.induct) auto

lemma place_nodes_eq:
  assumes "length done = i" "node_places g = done @ replicate (length avail) 0"
    and "0 \<le> avail_nodes g" "avail_nodes g + int (length avail) < 2 ^ 64"
  shows "place_nodes avail cs g i = g\<lparr>node_places := done @ spread avail cs,
     avail_nodes := avail_nodes g + int (min (length cs) (length (filter (\<lambda>a. a) avail)))\<rparr>"
  using assms
proof (induction avail cs g i arbitrary: "done" rule: place_nodes.induct [case_names none place no_count away])
  case (place avail c cs g i)
  have f: "fits U64 (avail_nodes g + 1)" using place.prems by simp
  have "place_nodes avail cs (g\<lparr>avail_nodes := wrapc U64 (avail_nodes g + 1), node_places := (node_places g)[i := c]\<rparr>) (Suc i)
    = g\<lparr>node_places := (done @ [c]) @ spread avail cs,
        avail_nodes := avail_nodes g + 1 + int (min (length cs) (length (filter (\<lambda>a. a) avail)))\<rparr>"
    using place.prems f by (subst place.IH [of "done @ [c]"]) (auto simp: list_update_append)
  then show ?case by (simp add: ac_simps)
next
  case (no_count avail cs g i)
  then show ?case using no_count.IH [of "done @ [0]"] by simp
next
  case (away a avail g i)
  then show ?case using away.IH [of "done @ [0]"] by simp
qed simp


text \<open>The ratings: the nodes with places take those given in turn, and 1 when there are no more.\<close>

fun rated :: "int list \<Rightarrow> int list \<Rightarrow> int list" where
  "rated [] ratings = []"
| "rated (p # places) ratings =
     (if p = 0 then 0 # rated places ratings
      else case ratings of r # rs \<Rightarrow> r # rated places rs | [] \<Rightarrow> 1 # rated places [])"

definition weight :: "int list \<Rightarrow> int list \<Rightarrow> int" where
  "weight places ratings = sum_list (map2 (*) places ratings)"

lemma weight_Nil [simp]: "weight [] rs = 0"
  and weight_Cons [simp]: "weight (p # ps) (r # rs) = p * r + weight ps rs"
  by (simp_all add: weight_def)

lemma length_rated [simp]: "length (rated ps rs) = length ps"
  by (induction ps rs rule: rated.induct) (auto split: list.splits)

lemma set_rated: "set (rated ps rs) \<subseteq> {0, 1} \<union> set rs"
proof (induction ps rs rule: rated.induct)
  case (2 p ps rs)
  then show ?case by (cases rs) auto
qed simp

lemma rated_nonneg: "\<forall>r \<in> set rs. 0 \<le> r \<Longrightarrow> r \<in> set (rated ps rs) \<Longrightarrow> 0 \<le> r"
  using set_rated [of ps rs] by auto

lemma weight_nonneg:
  assumes "\<forall>p \<in> set ps. (0 :: int) \<le> p" "\<forall>r \<in> set rs. 0 \<le> r"
  shows "0 \<le> weight ps rs"
  unfolding weight_def using assms
  by (intro sum_list_nonneg) (auto dest: set_zip_leftD set_zip_rightD intro!: mult_nonneg_nonneg)

lemma rate_nodes_eq:
  assumes "length done = i" "core_speed_rating g = done @ replicate (length ps) 0"
    and "\<forall>p \<in> set ps. 0 \<le> p" "\<forall>r \<in> set rs. 0 \<le> r" "0 \<le> scaled_thread_range g"
    and "scaled_thread_range g + weight ps (rated ps rs) < 2 ^ 64"
  shows "rate_nodes ps rs i cur g = (cur + min (length rs) (length (filter (\<lambda>p. p \<noteq> 0) ps)),
    g\<lparr>scaled_thread_range := scaled_thread_range g + weight ps (rated ps rs),
      core_speed_rating := done @ rated ps rs\<rparr>)"
  using assms
proof (induction ps arbitrary: rs i cur g "done")
  case (Cons p ps)
  show ?case
  proof (cases "p = 0")
    case True
    then show ?thesis using Cons.prems Cons.IH [of "done @ [0]"] by simp
  next
    case False
    define r where "r = (case rs of [] \<Rightarrow> 1 | r # _ \<Rightarrow> r)"
    define h where "h = g\<lparr>scaled_thread_range := scaled_thread_range g + p * r, core_speed_rating := (core_speed_rating g)[i := r]\<rparr>"
    define cur' where "cur' = (if rs = [] then cur else Suc cur)"
    have r: "rated (p # ps) rs = r # rated ps (tl rs)" "0 \<le> r" "\<forall>r \<in> set (tl rs). 0 \<le> r"
      using False Cons.prems(4) by (cases rs; simp add: r_def)+
    have w: "0 \<le> weight ps (rated ps (tl rs))" "0 \<le> p * r"
      using Cons.prems(3) rated_nonneg r by (auto intro!: weight_nonneg mult_nonneg_nonneg)
    then have f: "fits U64 (scaled_thread_range g + p * r)" using Cons.prems r(1) by simp
    then have "rate_nodes (p # ps) rs i cur g = rate_nodes ps (tl rs) (Suc i) cur' h"
      using False by (cases rs) (simp_all add: r_def h_def cur'_def)
    also have "\<dots> = (cur' + min (length (tl rs)) (length (filter (\<lambda>p. p \<noteq> 0) ps)),
        h\<lparr>scaled_thread_range := scaled_thread_range h + weight ps (rated ps (tl rs)),
          core_speed_rating := (done @ [r]) @ rated ps (tl rs)\<rparr>)"
      using Cons.prems w r by (intro Cons.IH) (auto simp: h_def list_update_append)
    finally show ?thesis using False r(1) by (cases rs) (simp_all add: h_def cur'_def ac_simps)
  qed
qed simp

end
