(* ===== verification/Omp_Static.thy ===== *)
theory Omp_Static
  imports Omp_Env
begin

text \<open>
  Static loop schedules (\<open>src/lib/libopenpop/kmp.c\<close>): \<open>get_scaled_range\<close>, the macro
  \<open>for_static_skewed_init\<close>, which gives every thread iterations in proportion to the rating of its
  node, and the macro \<open>__kmpc_for_static_init\<close>, which uses it or divides the iterations evenly. A
  macro is a definition with the type it is instantiated with as its first argument; conversions
  between the types are written out. What a thread executes is compared with the loop itself.
\<close>

section \<open>The code\<close>

datatype sched_type =
    kmp_sch_static_chunked | kmp_sch_static | kmp_sch_dynamic_chunked | kmp_sch_runtime | kmp_sch_hetprobe
  | kmp_sch_static_hierarchy | kmp_sch_dynamic_chunked_hierarchy

text \<open>
  What the functions write through their pointers; \<open>lastiter\<close> is \<open>None\<close> when the caller passed a null
  pointer.
\<close>

record static_bounds =
  lower :: int
  upper :: int
  stride :: int
  lastiter :: "bool option"

text \<open>The loop of \<open>get_scaled_range\<close> over the nodes: their thread counts and ratings.\<close>

fun scaled_range :: "int \<Rightarrow> (int \<times> int) list \<Rightarrow> int \<Rightarrow> int \<Rightarrow> int \<times> int" where
  "scaled_range gtid [] tcount cur_range = (2 ^ 64 - 1, 0)"
| "scaled_range gtid ((t, r) # ns) tcount cur_range =
     (if gtid < wrapc I32 (tcount + t) then (wrapc U64 (cur_range + wrapc I32 (gtid - tcount) * r), r)
      else scaled_range gtid ns (wrapc I32 (tcount + t)) (wrapc U64 (cur_range + t * r)))"

definition get_scaled_range :: "global_info \<Rightarrow> int \<Rightarrow> int \<times> int" where
  "get_scaled_range g gtid = scaled_range gtid (zip (threads_per_node g) (core_speed_rating g)) 0 0"

text \<open>
  \<open>for_static_skewed_init\<close>. An operand of type \<open>TYPE\<close> next to an \<open>unsigned long\<close> is converted to
  \<open>unsigned long\<close> first (\<open>wrapc U64\<close>); every assignment converts back to \<open>TYPE\<close>.
\<close>

definition skewed_init ::
  "ctype \<Rightarrow> global_info \<Rightarrow> int \<Rightarrow> int \<Rightarrow> sched_type \<Rightarrow> int \<Rightarrow> int \<Rightarrow> int \<Rightarrow> static_bounds \<Rightarrow> static_bounds result" where
  "skewed_init ty g nthreads gtid sched inc chunk trips b =
     (let scaled_thr = scaled_thread_range g; (start, range) = get_scaled_range g gtid; utrips = wrapc U64 trips in
      if range = 0 then Inr (b\<lparr>lower := wrapc ty (upper b + inc)\<rparr>)
      else case sched of
        kmp_sch_static \<Rightarrow>
          if utrips < scaled_thr then
            let b = (if start < utrips then
                  let lo = wrapc ty (lower b + inc * start) in
                  b\<lparr>lower := lo,
                    upper := wrapc ty (lo + inc * min (wrapc U64 (range - 1)) (wrapc U64 (wrapc ty (trips - 1) - start)))\<rparr>
                else b\<lparr>lower := wrapc ty (upper b + inc)\<rparr>) in
            Inr (b\<lparr>lastiter := map_option (\<lambda>_. wrapc U64 (wrapc ty (trips - 1)) \<le> wrapc U64 (start + range)) (lastiter b)\<rparr>)
          else if scaled_thr = 0 then Inl Undef
          else
            let chunk = wrapc ty (utrips div scaled_thr); extras = wrapc ty (utrips mod scaled_thr);
                my_extras = (if extras \<noteq> 0 \<and> start < wrapc U64 extras
                  then wrapc ty (min range (wrapc U64 (extras - start))) else 0);
                lo = wrapc ty (lower b + inc * (start * chunk + (if start < wrapc U64 extras then start else extras))) in
            Inr (b\<lparr>lower := lo, upper := wrapc ty (lo + inc * (chunk * range + my_extras - 1)),
              lastiter := map_option (\<lambda>_. gtid = wrapc I32 (nthreads - 1)) (lastiter b)\<rparr>)
      | kmp_sch_static_chunked \<Rightarrow>
          if scaled_thr = 0 \<and> lastiter b \<noteq> None then Inl Undef
          else
            let chunk = (if chunk < 1 then 1 else chunk); span = wrapc ty (chunk * inc);
                lo = wrapc ty (lower b + span * start) in
            Inr (b\<lparr>stride := wrapc ty (span * scaled_thr), lower := lo, upper := wrapc ty (lo + span * range - inc),
              lastiter := map_option (\<lambda>_. start = wrapc U64 (wrapc ty (trips - 1) sdiv chunk) mod scaled_thr) (lastiter b)\<rparr>)
      | _ \<Rightarrow> Inl Abort)"

text \<open>The number of iterations, as \<open>__kmpc_for_static_init\<close> computes it; dividing by zero is undefined.\<close>

definition total_trips :: "ctype \<Rightarrow> int \<Rightarrow> int \<Rightarrow> int \<Rightarrow> int result" where
  "total_trips ty lb ub inc =
     (if inc = 1 then Inr (wrapc ty (wrapc ty (ub - lb) + 1))
      else if inc = wrapc ty (- 1) then Inr (wrapc ty (wrapc ty (lb - ub) + 1))
      else if inc > 1 then Inr (wrapc ty (wrapc ty (ub - lb) sdiv inc + 1))
      else if inc = 0 then Inl Undef
      else Inr (wrapc ty (wrapc ty (lb - ub) sdiv wrapc ty (- inc) + 1)))"

text \<open>
  The even division of \<open>__kmpc_for_static_init\<close>. The number of threads and the thread number are
  positive \<open>int\<close>s, which every \<open>TYPE\<close> represents.
\<close>

definition even_init ::
  "ctype \<Rightarrow> int \<Rightarrow> int \<Rightarrow> sched_type \<Rightarrow> int \<Rightarrow> int \<Rightarrow> int \<Rightarrow> static_bounds \<Rightarrow> static_bounds result" where
  "even_init ty nthreads gtid sched inc chunk trips b =
     (case sched of
        kmp_sch_static \<Rightarrow>
          if trips < nthreads then
            let b = (if gtid < trips then
                  let lo = wrapc ty (lower b + gtid * inc) in b\<lparr>lower := lo, upper := lo\<rparr>
                else b\<lparr>lower := wrapc ty (upper b + inc)\<rparr>) in
            Inr (b\<lparr>lastiter := map_option (\<lambda>_. gtid = wrapc ty (trips - 1)) (lastiter b)\<rparr>)
          else if nthreads = 0 then Inl Undef
          else
            let chunk = trips sdiv nthreads; extras = trips smod nthreads;
                lo = wrapc ty (lower b + inc * (gtid * chunk + (if gtid < extras then gtid else extras))) in
            Inr (b\<lparr>lower := lo, upper := wrapc ty (lo + chunk * inc - (if gtid < extras then 0 else inc)),
              lastiter := map_option (\<lambda>_. gtid = nthreads - 1) (lastiter b)\<rparr>)
      | kmp_sch_static_chunked \<Rightarrow>
          if nthreads = 0 \<and> lastiter b \<noteq> None then Inl Undef
          else
            let chunk = (if chunk < 1 then 1 else chunk); span = wrapc ty (chunk * inc);
                lo = wrapc ty (lower b + span * gtid) in
            Inr (b\<lparr>stride := wrapc ty (span * nthreads), lower := lo, upper := wrapc ty (lo + span - inc),
              lastiter := map_option (\<lambda>_. gtid = wrapc ty (trips - 1) sdiv chunk smod nthreads) (lastiter b)\<rparr>)
      | _ \<Rightarrow> Inl Abort)"

definition kmpc_for_static_init ::
  "ctype \<Rightarrow> global_info \<Rightarrow> int \<Rightarrow> int \<Rightarrow> sched_type \<Rightarrow> int \<Rightarrow> int \<Rightarrow> static_bounds \<Rightarrow> static_bounds result" where
  "kmpc_for_static_init ty g nthreads gtid sched inc chunk b =
     bindE (total_trips ty (lower b) (upper b) inc) (\<lambda>trips.
       if het_workshare g then skewed_init ty g nthreads gtid sched inc chunk trips b
       else even_init ty nthreads gtid sched inc chunk trips b)"

section \<open>Shares\<close>

text \<open>The rating of every thread, in the order of the thread numbers.\<close>

definition shares :: "global_info \<Rightarrow> int list" where
  "shares g = concat (map (\<lambda>(t, r). replicate (nat t) r) (zip (threads_per_node g) (core_speed_rating g)))"

definition share_before :: "global_info \<Rightarrow> nat \<Rightarrow> int" where
  "share_before g n = sum_list (take n (shares g))"


definition team_ok :: "global_info \<Rightarrow> bool" where
  "team_ok g \<longleftrightarrow> (\<forall>t \<in> set (threads_per_node g). 0 \<le> t) \<and> (\<forall>r \<in> set (core_speed_rating g). 0 \<le> r) \<and>
     length (core_speed_rating g) = length (threads_per_node g) \<and> sum_list (threads_per_node g) < 2 ^ 31 \<and>
     weight (threads_per_node g) (core_speed_rating g) < 2 ^ 64"

definition shares_of :: "(int \<times> int) list \<Rightarrow> int list" where
  "shares_of ns = concat (map (\<lambda>(t, r). replicate (nat t) r) ns)"

lemma shares_of_simps [simp]:
  "shares_of [] = []" "shares_of ((t, r) # ns) = replicate (nat t) r @ shares_of ns"
  by (simp_all add: shares_of_def)

lemma sum_replicate: "sum_list (replicate n (x :: int)) = int n * x"
  by (induction n) (simp_all add: algebra_simps)

lemma shares_of_sums:
  assumes "\<forall>(t, r) \<in> set ns. 0 \<le> t \<and> 0 \<le> r"
  shows "int (length (shares_of ns)) = sum_list (map fst ns)" "sum_list (shares_of ns) = sum_list (map (\<lambda>(t, r). t * r) ns)"
    "\<forall>x \<in> set (shares_of ns). 0 \<le> x"
proof -
  have "int (length (shares_of ns)) = sum_list (map fst ns) \<and> sum_list (shares_of ns) = sum_list (map (\<lambda>(t, r). t * r) ns) \<and>
    (\<forall>x \<in> set (shares_of ns). 0 \<le> x)"
    using assms
  proof (induction ns)
    case (Cons n ns)
    then show ?case by (cases n) (simp add: sum_replicate ball_Un)
  qed simp
  then show "int (length (shares_of ns)) = sum_list (map fst ns)" "sum_list (shares_of ns) = sum_list (map (\<lambda>(t, r). t * r) ns)"
    "\<forall>x \<in> set (shares_of ns). 0 \<le> x" by simp_all
qed

lemma scaled_range_eq:
  assumes "\<forall>(t, r) \<in> set ns. 0 \<le> t \<and> 0 \<le> r" "0 \<le> tcount" "0 \<le> cur" "m < length (shares_of ns)"
    and "tcount + sum_list (map fst ns) < 2 ^ 31" "cur + sum_list (map (\<lambda>(t, r). t * r) ns) < 2 ^ 64"
  shows "scaled_range (tcount + int m) ns tcount cur = (cur + sum_list (take m (shares_of ns)), shares_of ns ! m)"
  using assms
proof (induction ns arbitrary: tcount cur m)
  case (Cons n ns)
  obtain t r where n: "n = (t, r)" by (cases n)
  have tr: "0 \<le> t" "0 \<le> r" "0 \<le> t * r" using Cons.prems(1) n by auto
  have ns: "\<forall>(t, r) \<in> set ns. 0 \<le> t \<and> 0 \<le> r" using Cons.prems(1) by simp
  note s = shares_of_sums [OF ns]
  have nn: "0 \<le> sum_list (map fst ns)" "0 \<le> sum_list (map (\<lambda>(t, r). t * r) ns)"
    using s(1) s(2) s(3) by (simp, simp flip: s(2) add: sum_list_nonneg)
  have f: "fits I32 (tcount + t)" "fits U64 (cur + t * r)"
    using Cons.prems nn tr by (auto simp: n fits_I32)
  show ?case
  proof (cases "int m < t")
    case True
    then have m: "m < nat t" "fits I32 (int m)" using f Cons.prems tr by (auto simp: fits_I32)
    have "int m * r \<le> t * r" using True tr by (intro mult_right_mono) auto
    then have "fits U64 (cur + int m * r)" using f Cons.prems tr by auto
    then show ?thesis using True m f by (simp add: n nth_append sum_replicate min_absorb1)
  next
    case False
    define j where "j = m - nat t"
    have j: "int m = t + int j" "j < length (shares_of ns)" "m = nat t + j" using False Cons.prems tr by (auto simp: j_def n)
    have "scaled_range (tcount + int m) (n # ns) tcount cur = scaled_range (tcount + t + int j) ns (tcount + t) (cur + t * r)"
      using False f j by (simp add: n algebra_simps)
    also have "\<dots> = (cur + t * r + sum_list (take j (shares_of ns)), shares_of ns ! j)"
      using Cons.prems(2,3,5,6) tr(1,3) ns j(2) by (intro Cons.IH) (simp_all add: n add.assoc add_nonneg_nonneg del: int_nat_eq)
    finally show ?thesis using j tr by (simp add: n nth_append sum_replicate)
  qed
qed simp

lemma shares_zip: "shares g = shares_of (zip (threads_per_node g) (core_speed_rating g))"
  by (simp add: shares_def shares_of_def)

lemma zip_nonneg:
  "team_ok g \<Longrightarrow> \<forall>(t, r) \<in> set (zip (threads_per_node g) (core_speed_rating g)). 0 \<le> t \<and> 0 \<le> r"
  by (auto simp: team_ok_def dest: set_zip_leftD set_zip_rightD)

lemma shares_facts:
  assumes "team_ok g"
  shows "int (length (shares g)) = sum_list (threads_per_node g)"
    "sum_list (shares g) = weight (threads_per_node g) (core_speed_rating g)" "\<forall>x \<in> set (shares g). 0 \<le> x"
  using shares_of_sums [OF zip_nonneg [OF assms]] assms
  by (auto simp: shares_zip weight_def team_ok_def case_prod_unfold)

lemma get_scaled_range_eq:
  assumes "team_ok g" "n < length (shares g)"
  shows "get_scaled_range g (int n) = (share_before g n, shares g ! n)"
proof -
  have "sum_list (map fst (zip (threads_per_node g) (core_speed_rating g))) < 2 ^ 31"
    "sum_list (map (\<lambda>(t, r). t * r) (zip (threads_per_node g) (core_speed_rating g))) < 2 ^ 64"
    using assms(1) by (auto simp: team_ok_def weight_def case_prod_unfold)
  then show ?thesis
    using scaled_range_eq [OF zip_nonneg [OF assms(1)], of 0 0 n] assms(2)
    by (simp add: get_scaled_range_def share_before_def shares_zip)
qed

lemma share_before_mono:
  assumes "team_ok g"
  shows "0 \<le> share_before g n" "share_before g n \<le> share_before g (Suc n)" "share_before g n \<le> weight (threads_per_node g) (core_speed_rating g)"
proof -
  note s = shares_facts [OF assms]
  show "0 \<le> share_before g n" "share_before g n \<le> weight (threads_per_node g) (core_speed_rating g)"
    using sum_list_take_le [OF s(3)] by (auto simp: share_before_def s(2) [symmetric])
  show "share_before g n \<le> share_before g (Suc n)"
  proof (cases "n < length (shares g)")
    case True
    then show ?thesis using s(3) by (simp add: share_before_def take_Suc_conv_app_nth)
  qed (simp add: share_before_def)
qed

lemma share_before_Suc: "n < length (shares g) \<Longrightarrow> share_before g (Suc n) = share_before g n + shares g ! n"
  by (simp add: share_before_def take_Suc_conv_app_nth)

section \<open>Where the blocks of a schedule start\<close>

text \<open>Of \<open>trips\<close> iterations for \<open>parts\<close> equal parts, the first \<open>x\<close> parts get \<open>split_point trips parts x\<close>.\<close>

definition split_point :: "int \<Rightarrow> int \<Rightarrow> int \<Rightarrow> int" where
  "split_point trips parts x = x * (trips div parts) + min x (trips mod parts)"

lemma split_point_0 [simp]: "0 \<le> trips \<Longrightarrow> 0 < parts \<Longrightarrow> split_point trips parts 0 = 0"
  by (simp add: split_point_def)

lemma split_point_all [simp]: "0 < parts \<Longrightarrow> split_point trips parts parts = trips"
  using pos_mod_bound [of parts trips] by (simp add: split_point_def mult.commute)

lemma split_point_mono:
  assumes "0 \<le> trips" "0 < parts" "x \<le> y"
  shows "split_point trips parts x \<le> split_point trips parts y"
proof -
  have "x * (trips div parts) \<le> y * (trips div parts)"
    using assms by (intro mult_right_mono) (auto simp: pos_imp_zdiv_nonneg_iff)
  then show ?thesis using assms(3) by (auto simp: split_point_def)
qed

lemma split_point_less: "0 \<le> trips \<Longrightarrow> trips < parts \<Longrightarrow> split_point trips parts x = min x trips"
  by (simp add: split_point_def)


section \<open>Loops the types can represent\<close>

text \<open>
  This is not a check of the code, which takes any loop: a loop of at least one iteration, rising or, for a signed type,
  falling, whose bounds and length and the value one step behind its end are values of the type.
\<close>

definition loop_ok :: "ctype \<Rightarrow> int \<Rightarrow> int \<Rightarrow> int \<Rightarrow> bool" where
  "loop_ok ty lb ub inc \<longleftrightarrow> fits ty lb \<and> fits ty ub \<and> fits ty (ub + inc) \<and> fits ty inc \<and> fits ty (\<bar>ub - lb\<bar> + 1) \<and>
     (if 0 < inc then lb \<le> ub \<and> (inc = wrapc ty (- 1) \<longrightarrow> inc = 1) else inc < 0 \<and> ub \<le> lb \<and> fits ty (- inc) \<and> fits ty (- 1))"

lemma loop_okD:
  assumes "loop_ok ty lb ub inc"
  shows "inc \<noteq> 0" "fits ty lb" "fits ty (ub + inc)"
  using assms by (auto simp: loop_ok_def split: if_splits)

lemma div_bounds:
  fixes x y :: int
  assumes "0 \<le> x" "0 < y"
  shows "0 \<le> x div y" "x div y \<le> x" "y * (x div y) \<le> x" "x sdiv y = x div y"
proof -
  show "0 \<le> x div y" "x div y \<le> x"
    using assms zdiv_mono2 [of x 1 y] by (auto simp: pos_imp_zdiv_nonneg_iff)
  have "y * (x div y) = x - x mod y" by (simp add: minus_mod_eq_mult_div)
  then show "y * (x div y) \<le> x" using pos_mod_sign [of y x] assms by linarith
  show "x sdiv y = x div y" using assms by (cases "x = 0") (simp_all add: signed_divide_int_def)
qed

text \<open>Distance and step of a loop, upwards or downwards.\<close>

lemma loop_ok_cases:
  assumes "loop_ok ty lb ub inc"
  obtains (up) "0 < inc" "0 \<le> ub - lb" "loop_trips lb ub inc = nat ((ub - lb) div inc + 1)" "fits ty (ub - lb + 1)"
      "inc = wrapc ty (- 1) \<longrightarrow> inc = 1"
    | (down) "inc < 0" "0 \<le> lb - ub" "loop_trips lb ub inc = nat ((lb - ub) div (- inc) + 1)" "fits ty (lb - ub + 1)"
      "fits ty (- inc)" "fits ty (- 1)"
proof (cases "0 < inc")
  case True
  then show ?thesis using assms by (intro up) (auto simp: loop_ok_def loop_trips_def abs_if split: if_splits)
next
  case False
  then show ?thesis using assms by (intro down) (auto simp: loop_ok_def loop_trips_def abs_if split: if_splits)
qed

lemma total_trips_eq:
  assumes "loop_ok ty lb ub inc"
  shows "total_trips ty lb ub inc = Inr (int (loop_trips lb ub inc))"
    "1 \<le> loop_trips lb ub inc" "fits ty (int (loop_trips lb ub inc))"
proof -
  have "total_trips ty lb ub inc = Inr (int (loop_trips lb ub inc)) \<and> 1 \<le> loop_trips lb ub inc \<and> fits ty (int (loop_trips lb ub inc))"
    using assms
  proof (cases rule: loop_ok_cases)
    case up
    note d = div_bounds [OF up(2) up(1)]
    have f: "fits ty (ub - lb)" "fits ty ((ub - lb) div inc + 1)"
      using d up(2) by (intro fits_mono [OF fits_0 up(4)]; linarith)+
    then show ?thesis using up(1,3,5) d by (auto simp: total_trips_def)
  next
    case down
    have p: "0 < - inc" using down(1) by simp
    note d = div_bounds [OF down(2) p]
    have f: "fits ty (lb - ub)" "fits ty ((lb - ub) div (- inc) + 1)"
      using d down(2) by (intro fits_mono [OF fits_0 down(4)]; linarith)+
    then show ?thesis using down(1,3,5,6) d by (auto simp: total_trips_def)
  qed
  then show "total_trips ty lb ub inc = Inr (int (loop_trips lb ub inc))"
    "1 \<le> loop_trips lb ub inc" "fits ty (int (loop_trips lb ub inc))" by auto
qed

lemma fits_between:
  assumes "fits ty lb" "fits ty (lb + inc * t)" "0 \<le> k" "k \<le> t"
  shows "fits ty (lb + inc * k)"
proof (cases "0 \<le> inc")
  case True
  then have "0 \<le> inc * k" "inc * k \<le> inc * t" using assms by (auto intro: mult_left_mono)
  then show ?thesis using assms by (auto simp: fits_def)
next
  case False
  then have "inc * k \<le> 0" "inc * t \<le> inc * k" using assms by (auto intro: mult_left_mono_neg mult_nonpos_nonneg)
  then show ?thesis using assms by (auto simp: fits_def)
qed

text \<open>The first iteration behind the loop is between its bounds too.\<close>

lemma loop_end_fits:
  assumes "loop_ok ty lb ub inc"
  shows "fits ty (lb + inc * int (loop_trips lb ub inc))"
  using assms
proof (cases rule: loop_ok_cases)
  case up
  note d = div_bounds [OF up(2) up(1)]
  have "int (loop_trips lb ub inc) = (ub - lb) div inc + 1" using up(3) d by simp
  moreover have "0 \<le> inc * ((ub - lb) div inc)" using up(1) d by simp
  ultimately have "lb \<le> lb + inc * int (loop_trips lb ub inc)" "lb + inc * int (loop_trips lb ub inc) \<le> ub + inc"
    using up(1) d(3) by (simp_all add: distrib_left)
  then show ?thesis using loop_okD [OF assms] by (auto simp: fits_def)
next
  case down
  have p: "0 < - inc" using down(1) by simp
  note d = div_bounds [OF down(2) p]
  have "int (loop_trips lb ub inc) = (lb - ub) div (- inc) + 1" using down(3) d by simp
  moreover have "0 \<le> (- inc) * ((lb - ub) div (- inc))" using down(1) d by (intro mult_nonneg_nonneg) auto
  ultimately have "lb + inc * int (loop_trips lb ub inc) \<le> lb" "ub + inc \<le> lb + inc * int (loop_trips lb ub inc)"
    using down(1) d(3) by (simp_all add: distrib_left)
  then show ?thesis using loop_okD [OF assms] by (auto simp: fits_def)
qed


section \<open>What a thread gets\<close>

text \<open>The iterations between two split points.\<close>

definition part :: "int \<Rightarrow> int \<Rightarrow> int \<Rightarrow> int \<Rightarrow> int \<Rightarrow> int \<Rightarrow> int list" where
  "part lb inc trips parts x y =
     map (\<lambda>k. lb + inc * int k) [nat (split_point trips parts x)..<nat (split_point trips parts y)]"

lemma part_loop_iters:
  assumes "inc \<noteq> 0" "0 \<le> trips" "0 < parts" "0 \<le> x" "x \<le> y"
  shows "loop_iters (lb + inc * split_point trips parts x) (lb + inc * (split_point trips parts y - 1)) inc = part lb inc trips parts x y"
proof -
  note m = split_point_mono [OF assms(2,3,4)] split_point_mono [OF assms(2,3,5)]
  have "0 \<le> split_point trips parts x" "0 \<le> split_point trips parts y" using m assms(2,3) by auto
  then show ?thesis
    using loop_iters_block [OF assms(1), of "nat (split_point trips parts x)" "nat (split_point trips parts y)" lb] m(2)
    by (simp add: part_def nat_mono)
qed

lemma part_none:
  assumes "inc \<noteq> 0" "split_point trips parts y \<le> split_point trips parts x"
  shows "part lb inc trips parts x y = loop_iters (ub + inc) ub inc"
  using assms by (simp add: part_def loop_iters_none nat_mono)

lemma split_point_step:
  assumes "0 \<le> trips" "0 < parts" "0 \<le> x" "0 \<le> r"
  shows "split_point trips parts (x + r) - split_point trips parts x
    = trips div parts * r + (if trips mod parts \<noteq> 0 \<and> x < trips mod parts then min r (trips mod parts - x) else 0)"
proof -
  have "0 \<le> trips mod parts" using assms by simp
  then show ?thesis using assms by (simp add: split_point_def algebra_simps min_def)
qed

lemma skewed_static:
  assumes "loop_ok ty lb ub inc" "team_ok g" "n < length (shares g)"
    and "0 < scaled_thread_range g" "scaled_thread_range g < 2 ^ 64"
    and "fits ty (lb + inc * split_point (int (loop_trips lb ub inc)) (scaled_thread_range g)
           (weight (threads_per_node g) (core_speed_rating g)))"
    and "lower b = lb" "upper b = ub"
  shows "\<exists>b'. skewed_init ty g nthreads (int n) kmp_sch_static inc chunk (int (loop_trips lb ub inc)) b = Inr b' \<and>
    loop_iters (lower b') (upper b') inc
      = part lb inc (int (loop_trips lb ub inc)) (scaled_thread_range g) (share_before g n) (share_before g (Suc n))"
proof -
  define T where "T = int (loop_trips lb ub inc)"
  define S where "S = scaled_thread_range g"
  define W where "W = weight (threads_per_node g) (core_speed_rating g)"
  define s where "s = share_before g n"
  define r where "r = shares g ! n"
  have T: "1 \<le> T" "fits ty T" using total_trips_eq [OF assms(1)] unfolding T_def by simp_all
  have S: "0 < S" "S < 2 ^ 64" using assms(4,5) unfolding S_def by simp_all
  note [simp] = T_def [symmetric] S_def [symmetric]
  have gr: "get_scaled_range g (int n) = (s, r)" using get_scaled_range_eq [OF assms(2,3)] by (simp add: s_def r_def)
  have sr: "share_before g (Suc n) = s + r" using share_before_Suc [OF assms(3)] by (simp add: s_def r_def)
  have "0 \<le> r" using shares_facts(3) [OF assms(2)] assms(3) by (simp add: r_def)
  moreover have "W < 2 ^ 64" using assms(2) unfolding W_def team_ok_def by blast
  ultimately have b: "0 \<le> s" "0 \<le> r" "s + r \<le> W" "W < 2 ^ 64"
    using share_before_mono(1) [OF assms(2), of n] share_before_mono(3) [OF assms(2), of "Suc n"]
    by (simp_all only: s_def [symmetric] sr W_def)
  have inc: "inc \<noteq> 0" "fits ty lb" "fits ty (ub + inc)" using loop_okD [OF assms(1)] by auto
  have T64: "T < 2 ^ 64" "fits ty (T - 1)" "T - 1 < 2 ^ 64"
    using T fits_upto_64 [of ty T] by (auto intro: fits_mono [OF fits_0 T(2)])
  have F: "fits ty (lb + inc * k)" if "0 \<le> k" "k \<le> split_point T S W" for k
    using fits_between [OF inc(2) _ that] assms(6) by (simp add: W_def)
  have Fs: "0 \<le> split_point T S s" "split_point T S s \<le> split_point T S (s + r)" "split_point T S (s + r) \<le> split_point T S W"
    using split_point_mono [of T S 0 s] split_point_mono [of T S s "s + r"] split_point_mono [of T S "s + r" W] T S b by auto
  have lo: "fits ty (lb + inc * split_point T S s)" using F Fs by simp
  have hi: "fits ty (lb + inc * (split_point T S (s + r) - 1))" if "split_point T S s < split_point T S (s + r)"
    using F [of "split_point T S (s + r) - 1"] Fs that by simp
  have P: "loop_iters (lb + inc * split_point T S s) (lb + inc * (split_point T S (s + r) - 1)) inc = part lb inc T S s (s + r)"
    using part_loop_iters [of inc T S s "s + r" lb] inc T S b by simp
  have N: "part lb inc T S s (s + r) = loop_iters (ub + inc) ub inc" if "split_point T S (s + r) \<le> split_point T S s"
    using part_none [OF inc(1) that] .
  consider (none) "r = 0" | (few) "r \<noteq> 0" "T < S" "s < T" | (late) "r \<noteq> 0" "T < S" "T \<le> s" | (many) "r \<noteq> 0" "S \<le> T"
    by linarith
  then have "\<exists>b'. skewed_init ty g nthreads (int n) kmp_sch_static inc chunk T b = Inr b' \<and>
    loop_iters (lower b') (upper b') inc = part lb inc T S s (s + r)"
  proof cases
    case none
    then show ?thesis using N inc assms(7,8) by (simp add: skewed_init_def gr Let_def)
  next
    case few
    have e: "split_point T S s = s" "split_point T S (s + r) = s + min r (T - s)"
      using few b T by (simp_all add: split_point_less min_def)
    have u: "lb + inc * s + inc * min (r - 1) (T - 1 - s) = lb + inc * (split_point T S (s + r) - 1)"
      unfolding e(2) by (simp add: min_def algebra_simps)
    have "fits U64 (r - 1)" "fits U64 (T - 1 - s)" using few b T64 by auto
    moreover have "fits ty (lb + inc * s + inc * min (r - 1) (T - 1 - s))"
      unfolding u using few b by (intro hi) (simp add: e)
    ultimately show ?thesis
      using P few T T64 b lo assms(7,8) by (simp add: skewed_init_def gr Let_def e(1) u)
  next
    case late
    then have "split_point T S (s + r) \<le> split_point T S s" using b T by (simp add: split_point_less min_def)
    then show ?thesis using N late inc T64 T assms(7,8) by (simp add: skewed_init_def gr Let_def)
  next
    case many
    define c where "c = T div S"
    define e where "e = T mod S"
    define x where "x = (if e \<noteq> 0 \<and> s < e then min r (e - s) else 0)"
    have ce: "1 \<le> c" "c \<le> T" "0 \<le> e" "e < S" "e \<le> T"
      using many S T div_bounds [of T S] pos_imp_zdiv_pos_iff [of S T] zmod_le_nonneg_dividend [of T S]
      by (auto simp: c_def e_def)
    have fc: "fits ty c" "fits ty e" "fits U64 e" "fits U64 T"
      using ce T T64 S by (auto intro: fits_mono [OF fits_0 T(2)])
    have fx: "(if e \<noteq> 0 \<and> s < e then wrapc ty (min r (wrapc U64 (e - s))) else 0) = x"
    proof (cases "e \<noteq> 0 \<and> s < e")
      case True
      then have "fits U64 (e - s)" "fits ty (min r (e - s))"
        using b ce T64 fc(3) by (auto intro!: fits_mono [OF fits_0 T(2)])
      then show ?thesis using True by (simp add: x_def)
    qed (auto simp: x_def)
    have st: "split_point T S (s + r) = split_point T S s + (c * r + x)"
      using split_point_step [of T S s r] T S b unfolding c_def e_def x_def by linarith
    have l: "s * c + (if s < e then s else e) = split_point T S s"
      by (simp add: split_point_def c_def e_def min_def)
    have "1 * 1 \<le> c * r" using ce many b by (intro mult_mono) auto
    moreover have "0 \<le> x" using b ce by (simp add: x_def)
    ultimately have less: "split_point T S s < split_point T S (s + r)" using st by simp
    have u: "lb + inc * split_point T S s + inc * (c * r + x - 1) = lb + inc * (split_point T S (s + r) - 1)"
      unfolding st by (simp add: algebra_simps)
    have "\<not> T < S" "S \<noteq> 0" using many S by auto
    then have sk: "skewed_init ty g nthreads (int n) kmp_sch_static inc chunk T b
      = Inr (b\<lparr>lower := lb + inc * split_point T S s, upper := wrapc ty (lb + inc * split_point T S s + inc * (c * r + x - 1)),
          lastiter := map_option (\<lambda>_. int n = wrapc I32 (nthreads - 1)) (lastiter b)\<rparr>)"
      using many(1) fc lo assms(7) by (simp add: skewed_init_def gr Let_def c_def [symmetric] e_def [symmetric] l fx)
    show ?thesis using sk P hi [OF less] by (simp add: u)
  qed
  then show ?thesis by (simp add: sr s_def)
qed


lemma even_static:
  assumes "loop_ok ty lb ub inc" "n < N" "lower b = lb" "upper b = ub"
  shows "\<exists>b'. even_init ty (int N) (int n) kmp_sch_static inc chunk (int (loop_trips lb ub inc)) b = Inr b' \<and>
    loop_iters (lower b') (upper b') inc = part lb inc (int (loop_trips lb ub inc)) (int N) (int n) (int n + 1) \<and>
    lastiter b' = map_option (\<lambda>_. n = min N (loop_trips lb ub inc) - 1) (lastiter b)"
proof -
  define T where "T = int (loop_trips lb ub inc)"
  have T: "1 \<le> T" "fits ty T" using total_trips_eq [OF assms(1)] unfolding T_def by simp_all
  have L: "(int n = T - 1) = (n = loop_trips lb ub inc - 1)" using T unfolding T_def by linarith
  note [simp] = T_def [symmetric]
  have inc: "inc \<noteq> 0" "fits ty lb" "fits ty (ub + inc)" using loop_okD [OF assms(1)] by auto
  have N: "0 < int N" using assms(2) by simp
  have T1: "fits ty (T - 1)" using T by (auto intro: fits_mono [OF fits_0 T(2)])
  have F: "fits ty (lb + inc * k)" if "0 \<le> k" "k \<le> T" for k
    using fits_between [OF inc(2) _ that] loop_end_fits [OF assms(1)] by simp
  have Fs: "0 \<le> split_point T (int N) (int n)" "split_point T (int N) (int n) \<le> split_point T (int N) (int n + 1)"
      "split_point T (int N) (int n + 1) \<le> T"
    using split_point_mono [of T "int N" 0 "int n"] split_point_mono [of T "int N" "int n" "int n + 1"]
      split_point_mono [of T "int N" "int n + 1" "int N"] T N assms(2) by auto
  have lo: "fits ty (lb + inc * split_point T (int N) (int n))" using F Fs by simp
  have P: "loop_iters (lb + inc * split_point T (int N) (int n)) (lb + inc * (split_point T (int N) (int n + 1) - 1)) inc
      = part lb inc T (int N) (int n) (int n + 1)"
    using part_loop_iters [of inc T "int N" "int n" "int n + 1" lb] inc T N by simp
  consider (few) "T < int N" "int n < T" | (late) "T < int N" "T \<le> int n" | (many) "int N \<le> T" by linarith
  then show ?thesis
  proof cases
    case few
    then have e: "split_point T (int N) (int n) = int n" "split_point T (int N) (int n + 1) = int n + 1"
      using T by (simp_all add: split_point_less)
    have m: "min N (loop_trips lb ub inc) = loop_trips lb ub inc" using few(1) unfolding T_def by linarith
    show ?thesis using few P T1 lo assms(3,4) L by (simp add: even_init_def Let_def e mult.commute m)
  next
    case late
    then have "split_point T (int N) (int n + 1) \<le> split_point T (int N) (int n)" using T by (simp add: split_point_less)
    then have N0: "part lb inc T (int N) (int n) (int n + 1) = loop_iters (ub + inc) ub inc" by (rule part_none [OF inc(1)])
    have m: "min N (loop_trips lb ub inc) = loop_trips lb ub inc" using late(1) unfolding T_def by linarith
    show ?thesis using late N0 inc T1 assms(3,4) L by (simp add: even_init_def Let_def m)
  next
    case many
    define c where "c = T div int N"
    define e where "e = T mod int N"
    have q: "T sdiv int N = c" "T smod int N = e"
      using T N by (auto simp: c_def e_def div_bounds(4) signed_modulo_int_def)
    have m: "min N (loop_trips lb ub inc) = N" using many unfolding T_def by linarith
    have c: "1 \<le> c" "0 \<le> e" using many N pos_imp_zdiv_pos_iff [of "int N" T] by (auto simp: c_def e_def)
    have st: "split_point T (int N) (int n + 1) = split_point T (int N) (int n) + c + (if int n < e then 1 else 0)"
      using split_point_step [of T "int N" "int n" 1] T N c unfolding c_def e_def by (auto split: if_splits)
    have l: "int n * c + (if int n < e then int n else e) = split_point T (int N) (int n)"
      by (simp add: split_point_def c_def e_def min_def)
    have u: "lb + inc * split_point T (int N) (int n) + c * inc - (if int n < e then 0 else inc)
      = lb + inc * (split_point T (int N) (int n + 1) - 1)"
      unfolding st by (simp add: algebra_simps)
    have hi: "fits ty (lb + inc * (split_point T (int N) (int n + 1) - 1))"
      using F [of "split_point T (int N) (int n + 1) - 1"] Fs st c by (auto split: if_splits)
    have nt: "\<not> T < int N" "N \<noteq> 0" "(int n = int N - 1) = (n = N - 1)" using many assms(2) by auto
    have "even_init ty (int N) (int n) kmp_sch_static inc chunk T b
      = Inr (b\<lparr>lower := lb + inc * split_point T (int N) (int n),
          upper := wrapc ty (lb + inc * split_point T (int N) (int n) + c * inc - (if int n < e then 0 else inc)),
          lastiter := map_option (\<lambda>_. n = N - 1) (lastiter b)\<rparr>)"
      using nt lo assms(3) by (simp add: even_init_def Let_def q l)
    then show ?thesis using P hi by (simp add: u m)
  qed
qed

section \<open>Static schedules hand out the loop\<close>

definition static_iters ::
  "ctype \<Rightarrow> global_info \<Rightarrow> nat \<Rightarrow> int \<Rightarrow> int \<Rightarrow> int \<Rightarrow> int \<Rightarrow> nat \<Rightarrow> int list result" where
  "static_iters ty g N inc chunk lb ub n =
     bindE (kmpc_for_static_init ty g (int N) (int n) kmp_sch_static inc chunk
       \<lparr>lower = lb, upper = ub, stride = 1, lastiter = Some False\<rparr>) (\<lambda>b. Inr (loop_iters (lower b) (upper b) inc))"

lemma static_iters_eq:
  assumes "loop_ok ty lb ub inc" "n < N" "het_workshare g \<Longrightarrow> team_ok g \<and> length (shares g) = N"
    and "het_workshare g \<Longrightarrow> 0 < scaled_thread_range g \<and> scaled_thread_range g < 2 ^ 64"
    and "het_workshare g \<Longrightarrow> fits ty (lb + inc * split_point (int (loop_trips lb ub inc)) (scaled_thread_range g)
           (weight (threads_per_node g) (core_speed_rating g)))"
  shows "static_iters ty g N inc chunk lb ub n = Inr (
    if het_workshare g then part lb inc (int (loop_trips lb ub inc)) (scaled_thread_range g) (share_before g n) (share_before g (Suc n))
    else part lb inc (int (loop_trips lb ub inc)) (int N) (int n) (int n + 1))"
proof -
  let ?b = "\<lparr>lower = lb, upper = ub, stride = 1, lastiter = Some False\<rparr>"
  show ?thesis
  proof (cases "het_workshare g")
    case True
    with assms obtain b' where "skewed_init ty g (int N) (int n) kmp_sch_static inc chunk (int (loop_trips lb ub inc)) ?b = Inr b'"
      "loop_iters (lower b') (upper b') inc
        = part lb inc (int (loop_trips lb ub inc)) (scaled_thread_range g) (share_before g n) (share_before g (Suc n))"
      using skewed_static [of ty lb ub inc g n ?b "int N" chunk] by auto
    then show ?thesis using True by (simp add: static_iters_def kmpc_for_static_init_def total_trips_eq [OF assms(1)])
  next
    case False
    from even_static [of ty lb ub inc n N ?b chunk] assms obtain b' where
      "even_init ty (int N) (int n) kmp_sch_static inc chunk (int (loop_trips lb ub inc)) ?b = Inr b'"
      "loop_iters (lower b') (upper b') inc = part lb inc (int (loop_trips lb ub inc)) (int N) (int n) (int n + 1)"
      by auto
    then show ?thesis using False by (simp add: static_iters_def kmpc_for_static_init_def total_trips_eq [OF assms(1)])
  qed
qed


lemma concat_parts:
  assumes "\<And>n. n < N \<Longrightarrow> split_point trips parts (f n) \<le> split_point trips parts (f (Suc n))"
  shows "concat (map (\<lambda>n. part lb inc trips parts (f n) (f (Suc n))) [0..<N]) = part lb inc trips parts (f 0) (f N)"
  using concat_blocks [of N "\<lambda>n. nat (split_point trips parts (f n))"] assms
  by (simp add: part_def nat_mono)

lemma part_whole:
  "0 < parts \<Longrightarrow> loop_ok ty lb ub inc \<Longrightarrow>
    part lb inc (int (loop_trips lb ub inc)) parts 0 parts = loop_iters lb ub inc"
  by (simp add: part_def loop_iters_eq loop_okD(1))

lemma weight_split_fits:
  assumes "loop_ok ty lb ub inc" "0 < S" "0 \<le> w" "w \<le> S"
  shows "fits ty (lb + inc * split_point (int (loop_trips lb ub inc)) S w)"
  using assms split_point_mono [of "int (loop_trips lb ub inc)" S 0 w] split_point_mono [of "int (loop_trips lb ub inc)" S w S]
  by (intro fits_between [OF loop_okD(2) [OF assms(1)] loop_end_fits [OF assms(1)]]) auto

text \<open>The iterations of a whole team on a skewed schedule, whatever range the ratings were scaled to.\<close>

lemma skewed_team:
  assumes "loop_ok ty lb ub inc" "het_workshare g" "team_ok g" "0 < scaled_thread_range g" "scaled_thread_range g < 2 ^ 64"
    and "fits ty (lb + inc * split_point (int (loop_trips lb ub inc)) (scaled_thread_range g)
           (weight (threads_per_node g) (core_speed_rating g)))"
  shows "\<exists>rs. map (static_iters ty g (length (shares g)) inc chunk lb ub) [0..<length (shares g)] = map Inr rs \<and>
    concat rs = part lb inc (int (loop_trips lb ub inc)) (scaled_thread_range g) 0 (weight (threads_per_node g) (core_speed_rating g))"
proof -
  let ?r = "\<lambda>n. part lb inc (int (loop_trips lb ub inc)) (scaled_thread_range g) (share_before g n) (share_before g (Suc n))"
  have "map (static_iters ty g (length (shares g)) inc chunk lb ub) [0..<length (shares g)]
      = map Inr (map ?r [0..<length (shares g)])"
    using static_iters_eq [OF assms(1)] assms(2-) by simp
  moreover have "concat (map ?r [0..<length (shares g)])
      = part lb inc (int (loop_trips lb ub inc)) (scaled_thread_range g) 0 (weight (threads_per_node g) (core_speed_rating g))"
    using concat_parts [of "length (shares g)" _ _ "share_before g"] share_before_mono [OF assms(3)] assms(4)
      shares_facts(2) [OF assms(3)]
    by (simp add: split_point_mono share_before_def)
  ultimately show ?thesis by blast
qed

lemma even_team:
  assumes "loop_ok ty lb ub inc" "\<not> het_workshare g" "0 < N"
  shows "\<exists>rs. map (static_iters ty g N inc chunk lb ub) [0..<N] = map Inr rs \<and> concat rs = loop_iters lb ub inc"
proof -
  let ?r = "\<lambda>n. part lb inc (int (loop_trips lb ub inc)) (int N) (int n) (int (Suc n))"
  have "map (static_iters ty g N inc chunk lb ub) [0..<N] = map Inr (map ?r [0..<N])"
    using static_iters_eq [OF assms(1), of _ N g chunk] assms(2) by (simp add: add.commute)
  moreover have "concat (map ?r [0..<N]) = loop_iters lb ub inc"
    using concat_parts [of N _ _ int] part_whole [OF _ assms(1), of "int N"] assms(3) by (simp add: split_point_mono)
  ultimately show ?thesis by blast
qed


text \<open>
  C25: The skewed schedule is the even schedule for a larger team: a thread of rating \<open>r\<close> gets, in order,
  what \<open>r\<close> consecutive threads would get on an even schedule with as many threads as the range the
  ratings are scaled to.
\<close>

theorem skewed_is_even_for_virtual_threads:
  assumes "loop_ok ty lb ub inc" "het_workshare g" "team_ok g" "n < length (shares g)"
    and "scaled_thread_range g = weight (threads_per_node g) (core_speed_rating g)"
  shows "\<exists>rs. map (static_iters ty (g\<lparr>het_workshare := False\<rparr>) (nat (scaled_thread_range g)) inc chunk lb ub)
      [nat (share_before g n)..<nat (share_before g n + shares g ! n)] = map Inr rs \<and>
    static_iters ty g (length (shares g)) inc chunk lb ub n = Inr (concat rs)"
proof -
  define T where "T = int (loop_trips lb ub inc)"
  define S where "S = scaled_thread_range g"
  define s where "s = nat (share_before g n)"
  define r where "r = nat (shares g ! n)"
  have r0: "0 \<le> shares g ! n" using shares_facts(3) [OF assms(3)] assms(4) by simp
  have sr: "int s = share_before g n" "int (s + r) = share_before g (Suc n)" "int (s + r) \<le> S"
    using share_before_mono [OF assms(3)] share_before_Suc [OF assms(4)] r0 assms(5)
    by (auto simp: s_def r_def S_def) (metis share_before_mono(3) assms(3))
  let ?r = "\<lambda>v. part lb inc T S (int v) (int (Suc v))"
  have S: "S < 2 ^ 64" using assms(3,5) by (simp add: S_def team_ok_def)
  have v: "static_iters ty (g\<lparr>het_workshare := False\<rparr>) (nat S) inc chunk lb ub v = Inr (?r v)" if "v < s + r" for v
    using static_iters_eq [OF assms(1), of v "nat S" "g\<lparr>het_workshare := False\<rparr>" chunk] that sr
    by (simp add: T_def add.commute)
  have c: "concat (map ?r [s..<s + r]) = part lb inc T S (int s) (int (s + r))" if "0 < S"
  proof -
    have "concat (map (\<lambda>i. ?r (i + s)) [0..<r]) = part lb inc T S (int s) (int (s + r))"
      using concat_parts [of r T S "\<lambda>i. int (i + s)" lb inc] that
      by (simp add: split_point_mono T_def add.commute)
    moreover have "[s..<s + r] = map (\<lambda>i. i + s) [0..<r]" by (simp add: map_add_upt add.commute)
    ultimately show ?thesis by (simp only: map_map comp_def)
  qed
  have "static_iters ty g (length (shares g)) inc chunk lb ub n = Inr (concat (map ?r [s..<s + r]))" if "shares g ! n \<noteq> 0"
  proof -
    have "0 < S" using that r0 sr(1,3) share_before_mono(1) [OF assms(3), of n] by (simp add: r_def)
    then show ?thesis
      using static_iters_eq [OF assms(1,4), of g chunk] assms(2,3,5) S c sr
        weight_split_fits [OF assms(1), of S S] by (simp add: S_def T_def)
  qed
  moreover have "static_iters ty g (length (shares g)) inc chunk lb ub n = Inr (concat (map ?r [s..<s + r]))" if "shares g ! n = 0"
    using that get_scaled_range_eq [OF assms(3,4)] loop_okD [OF assms(1)] assms(2)
    by (simp add: static_iters_def kmpc_for_static_init_def skewed_init_def total_trips_eq [OF assms(1)] r_def loop_iters_none)
  ultimately have "static_iters ty g (length (shares g)) inc chunk lb ub n = Inr (concat (map ?r [s..<s + r]))"
    by blast
  then show ?thesis
    using v by (intro exI [of _ "map ?r [s..<s + r]"]) (simp add: S_def s_def r_def nat_add_distrib r0 share_before_mono(1) [OF assms(3)])
qed


section \<open>Teams of another size\<close>

text \<open>
  C32: The ratings are scaled to the places the user gave, not to the threads of the team. When a team has
  fewer threads, the loop's last iteration is executed by none of them; when it has more, an iteration
  behind the end of the loop is executed.
\<close>

theorem other_team_sizes_lose_iterations:
  assumes "loop_ok ty lb ub inc" "het_workshare g" "team_ok g"
    and "0 < scaled_thread_range g" "scaled_thread_range g < 2 ^ 64"
    and "scaled_thread_range g \<le> int (loop_trips lb ub inc)"
    and "fits ty (lb + inc * split_point (int (loop_trips lb ub inc)) (scaled_thread_range g)
           (weight (threads_per_node g) (core_speed_rating g)))"
    and "map (static_iters ty g (length (shares g)) inc chunk lb ub) [0..<length (shares g)] = map Inr rs"
  shows "(weight (threads_per_node g) (core_speed_rating g) < scaled_thread_range g \<longrightarrow>
      last (loop_iters lb ub inc) \<notin> set (concat rs)) \<and>
    (weight (threads_per_node g) (core_speed_rating g) > scaled_thread_range g \<longrightarrow>
      last (loop_iters lb ub inc) + inc \<in> set (concat rs))"
proof -
  define T where "T = int (loop_trips lb ub inc)"
  define S where "S = scaled_thread_range g"
  define W where "W = weight (threads_per_node g) (core_speed_rating g)"
  have inc: "inc \<noteq> 0" using loop_okD [OF assms(1)] by simp
  have T: "1 \<le> T" "S \<le> T" "0 < S" using total_trips_eq(2) [OF assms(1)] assms(4,6) unfolding T_def S_def by auto
  have "0 \<le> W" using share_before_mono(1,3) [OF assms(3), of 0] by (simp add: W_def)
  obtain rs' where rs': "map (static_iters ty g (length (shares g)) inc chunk lb ub) [0..<length (shares g)] = map Inr rs'"
      "concat rs' = part lb inc T S 0 W"
    using skewed_team [OF assms(1-5,7), of chunk] by (auto simp: T_def S_def W_def)
  have "map Inr rs = (map Inr rs' :: int list result list)" using assms(8) rs'(1) by simp
  then have "rs = rs'" by (simp add: inj_map_eq_map inj_def)
  then have c: "set (concat rs) = (\<lambda>k. lb + inc * int k) ` {0..<nat (split_point T S W)}"
    using rs'(2) T by (auto simp: part_def)
  have l: "last (loop_iters lb ub inc) = lb + inc * (T - 1)"
    using T total_trips_eq(2) [OF assms(1)] by (simp add: loop_iters_def last_map T_def of_nat_diff)
  have c1: "1 \<le> T div S" using T pos_imp_zdiv_pos_iff [of S T] by auto
  have less: "weight (threads_per_node g) (core_speed_rating g) < scaled_thread_range g \<longrightarrow> last (loop_iters lb ub inc) \<notin> set (concat rs)"
  proof
    assume w: "weight (threads_per_node g) (core_speed_rating g) < scaled_thread_range g"
    then have "split_point T S (W + 1) \<le> T" using split_point_mono [of T S "W + 1" S] T by (simp add: W_def S_def)
    moreover have "split_point T S W < split_point T S (W + 1)"
      using split_point_step [of T S W 1] T \<open>0 \<le> W\<close> c1 by (auto split: if_splits)
    ultimately show "last (loop_iters lb ub inc) \<notin> set (concat rs)"
      unfolding c l using inc by (auto simp: zless_nat_eq_int_zless)
  qed
  have greater: "weight (threads_per_node g) (core_speed_rating g) > scaled_thread_range g \<longrightarrow> last (loop_iters lb ub inc) + inc \<in> set (concat rs)"
  proof
    assume w: "weight (threads_per_node g) (core_speed_rating g) > scaled_thread_range g"
    then have "split_point T S (S + 1) \<le> split_point T S W" using split_point_mono [of T S "S + 1" W] T by (simp add: W_def S_def)
    moreover have "T < split_point T S (S + 1)"
      using split_point_step [of T S S 1] T c1 by (auto split: if_splits)
    ultimately have "nat T \<in> {0..<nat (split_point T S W)}" using T by (simp add: nat_mono_iff)
    moreover have "last (loop_iters lb ub inc) + inc = lb + inc * int (nat T)" using T unfolding l by (simp add: algebra_simps)
    ultimately show "last (loop_iters lb ub inc) + inc \<in> set (concat rs)" unfolding c by blast
  qed
  show ?thesis using less greater by blast
qed

section \<open>Falling loops of unsigned types\<close>

lemma unsigned_neg:
  assumes "ty = U32 \<or> ty = U64" "0 < k" "fits ty k"
  shows "wrapc ty (- k) = ctype_max ty + 1 - k"
proof -
  have "wrapc ty (- k) = wrapc ty (ctype_max ty + 1 - k)"
    unfolding wrapc_eq_mod using assms(1) by (auto simp: ctype_max_def mod_diff_left_eq [symmetric, of "2 ^ _"] minus_mod_self1)
  also have "\<dots> = ctype_max ty + 1 - k"
    using assms by (intro wrapc_id) (auto simp: fits_def ctype_min_def ctype_max_def)
  finally show ?thesis .
qed

lemma unsigned_falling_trips:
  assumes "ty = U32 \<or> ty = U64" "2 \<le> k" "0 \<le> ub" "ub + k < lb" "fits ty lb"
  shows "total_trips ty lb ub (wrapc ty (- k)) = Inr 1"
proof -
  have f: "fits ty k" "fits ty (lb - ub)" "fits ty 1" using assms by (auto simp: fits_def ctype_min_def ctype_max_def)
  have inc: "wrapc ty (- k) = ctype_max ty + 1 - k" using unsigned_neg [OF assms(1) _ f(1)] assms(2) by simp
  have m: "wrapc ty (- 1) = ctype_max ty" using unsigned_neg [OF assms(1) _ f(3)] by simp
  have d: "wrapc ty (ub - lb) = ctype_max ty + 1 - (lb - ub)" using unsigned_neg [OF assms(1) _ f(2)] assms by simp
  have "lb \<le> ctype_max ty" using assms(5) by (simp add: fits_def)
  then have r: "1 < wrapc ty (- k)" "wrapc ty (- k) \<noteq> wrapc ty (- 1)" "0 \<le> wrapc ty (ub - lb)" "wrapc ty (ub - lb) < wrapc ty (- k)"
    unfolding inc m d using assms(2-4) by linarith+
  then have "wrapc ty (ub - lb) sdiv wrapc ty (- k) = 0" by (simp add: signed_divide_int_def)
  then show ?thesis using r(1,2) by (simp add: total_trips_def f(3))
qed

text \<open>
  A falling loop over an unsigned type is miscounted when its step is not -1: the step passes for a large rising one.
  A loop whose end is more than a step away is taken to have one iteration, and the team executes no other.
\<close>

theorem unsigned_falling_loop_lost:
  assumes "ty = U32 \<or> ty = U64" "2 \<le> k" "k \<le> ub" "ub + k < lb" "fits ty lb" "n < N" "\<not> het_workshare g"
  shows "2 \<le> loop_trips lb ub (- k) \<and>
    (\<exists>b. kmpc_for_static_init ty g (int N) (int n) kmp_sch_static (wrapc ty (- k)) chunk
           \<lparr>lower = lb, upper = ub, stride = 1, lastiter = Some False\<rparr> = Inr b \<and>
         loop_iters (lower b) (upper b) (- k) = (if n = 0 then [lb] else []))"
proof -
  have t: "total_trips ty lb ub (wrapc ty (- k)) = Inr 1"
    using assms by (intro unsigned_falling_trips) auto
  have "1 \<le> (lb - ub) div k" using assms(2,4) by (simp add: le_div_iff_mult_le)
  then have trips: "2 \<le> loop_trips lb ub (- k)" using assms(2,4) by (simp add: loop_trips_def)
  have f: "fits ty (ub - k)" "fits ty lb" using assms by (auto simp: fits_def ctype_min_def)
  have none: "loop_iters (ub - k) ub (- k) = []" and one: "loop_iters lb lb (- k) = [lb]"
    using assms(2) by (simp_all add: loop_iters_def loop_trips_def)
  have again: "wrapc ty (lb + wrapc ty (- k) + k) = lb"
    using wrapc_add_right [of ty "lb + k" "- k"] f by (simp add: algebra_simps)
  show ?thesis
    using trips assms(6,7) f none one again
    by (cases "n = 0"; cases "N = 1") (simp_all add: kmpc_for_static_init_def t even_init_def Let_def signed_modulo_int_def)
qed

theorem unsigned_falling_loop_lost_witness:
  "2 \<le> loop_trips 20 4 (- 4) \<and>
    (\<exists>b. kmpc_for_static_init U32 global_zero 2 1 kmp_sch_static (wrapc U32 (- 4)) 0
           \<lparr>lower = 20, upper = 4, stride = 1, lastiter = Some False\<rparr> = Inr b \<and>
         loop_iters (lower b) (upper b) (- 4) = [])"
  using unsigned_falling_loop_lost [of U32 4 4 20 1 2 global_zero 0]
  by (simp add: fits_def ctype_min_def ctype_max_def global_zero_def)

end
