(* ===== verification/Omp_Schedules.thy ===== *)
theory Omp_Schedules
  imports Omp_Static
begin

text \<open>
  Static schedules from end to end: from the environment variables that place and rate the nodes, over
  the start of a team, to the iterations of its threads; the chunked schedule; the flag that tells a
  thread that it executes the last iteration; and concrete teams.
\<close>

section \<open>From the environment to the iterations\<close>

definition placed :: "bool list \<Rightarrow> nat list \<Rightarrow> int list" where
  "placed avail ps = spread avail (map int ps)"

definition env_ok :: "(string \<Rightarrow> string option) \<Rightarrow> bool list \<Rightarrow> nat list \<Rightarrow> nat list \<Rightarrow> bool" where
  "env_ok getenv avail ps rs \<longleftrightarrow>
     (\<exists>ws. (\<forall>c \<in> set ws. is_space c) \<and> getenv ''POPCORN_PLACES'' = Some (ws @ show_items ws ps)) \<and>
     (\<exists>ws. (\<forall>c \<in> set ws. is_space c) \<and> getenv ''POPCORN_HET_WORKSHARE'' = Some (ws @ show_items ws rs)) \<and>
     length avail = max_nodes \<and> True \<in> set avail \<and>
     ps \<noteq> [] \<and> length ps \<le> max_nodes \<and> rs \<noteq> [] \<and> length rs \<le> max_nodes \<and> (\<forall>r \<in> set rs. r < 2 ^ 63) \<and>
     0 < weight (placed avail ps) (rated (placed avail ps) (map int rs)) \<and>
     weight (placed avail ps) (rated (placed avail ps) (map int rs)) < 2 ^ 64 \<and>
     sum_list (map int ps) < 2 ^ 31"

lemma sum_spread_le: "\<forall>c \<in> set cs. 0 \<le> c \<Longrightarrow> sum_list (spread avail cs) \<le> sum_list cs"
proof (induction avail cs rule: spread.induct)
  case (1 cs)
  then show ?case by (simp add: sum_list_nonneg)
qed auto

lemma spread_nil [simp]: "spread avail [] = replicate (length avail) 0"
  by (induction avail) (simp_all)

lemma weight_zero: "\<forall>p \<in> set ps. p = 0 \<Longrightarrow> weight ps rs = 0"
proof (induction ps arbitrary: rs)
  case (Cons p ps)
  then show ?case by (cases rs) (auto simp: weight_def)
qed simp

lemma placed_facts:
  assumes "env_ok getenv avail ps rs"
  shows "length (placed avail ps) = max_nodes" "\<forall>p \<in> set (placed avail ps). 0 \<le> p \<and> p < 2 ^ 31"
    "0 \<le> sum_list (placed avail ps)" "sum_list (placed avail ps) < 2 ^ 31" "\<exists>p \<in> set (placed avail ps). p \<noteq> 0"
proof -
  show l: "length (placed avail ps) = max_nodes" using assms by (simp add: placed_def env_ok_def)
  have nn: "\<forall>p \<in> set (placed avail ps). 0 \<le> p" using set_spread [of avail "map int ps"] by (auto simp: placed_def)
  show "0 \<le> sum_list (placed avail ps)" using nn by (intro sum_list_nonneg) auto
  show s: "sum_list (placed avail ps) < 2 ^ 31"
    using sum_spread_le [of "map int ps" avail] assms by (auto simp: placed_def env_ok_def)
  show "\<forall>p \<in> set (placed avail ps). 0 \<le> p \<and> p < 2 ^ 31"
    using nn s member_le_sum_list [of _ "placed avail ps"] by (metis le_less_trans)
  show "\<exists>p \<in> set (placed avail ps). p \<noteq> 0"
  proof (rule ccontr)
    assume "\<not> (\<exists>p \<in> set (placed avail ps). p \<noteq> 0)"
    then have "weight (placed avail ps) r = 0" for r by (intro weight_zero) auto
    then show False using assms by (simp add: env_ok_def)
  qed
qed

lemma parse_shown:
  assumes "\<forall>c \<in> set ws. is_space c" "\<forall>n \<in> set ns. n < 2 ^ 63" "ns \<noteq> []" "length ns \<le> max_nodes"
  shows "parse_items max_nodes (skip (ws @ show_items ws ns)) = Some (map int ns)"
    "\<not> starts_with ''nodes'' (skip (ws @ show_items ws ns))"
proof -
  have "hd (show_items ws ns) = CHR ''{'' \<and> show_items ws ns \<noteq> []"
    using assms(3) by (cases "(ws, ns)" rule: show_items.cases) (auto simp: show_item_def)
  then have s: "skip (ws @ show_items ws ns) = show_items ws ns" "\<exists>s. show_items ws ns = CHR ''{'' # s"
    using assms(1) by (cases "show_items ws ns"; simp)+
  then show "parse_items max_nodes (skip (ws @ show_items ws ns)) = Some (map int ns)"
    using parse_items_show [OF assms] by simp
  show "\<not> starts_with ''nodes'' (skip (ws @ show_items ws ns))"
    using s by (auto simp: starts_with_def lower_char_def)
qed

lemma rated_cur:
  assumes "\<exists>p \<in> set ps. p \<noteq> (0 :: int)" "rs \<noteq> []"
  shows "min (length rs) (length (filter (\<lambda>p. p \<noteq> 0) ps)) > 0"
  using assms by (auto simp: filter_empty_conv)

text \<open>The state after reading the environment.\<close>

lemma init_popcorn_env_eq:
  assumes "env_ok getenv avail ps rs"
  defines "P \<equiv> placed avail ps"
  shows "node_places (init_popcorn_env getenv avail) = P"
    "core_speed_rating (init_popcorn_env getenv avail) = rated P (map int rs)"
    "scaled_thread_range (init_popcorn_env getenv avail) = weight P (rated P (map int rs))"
    "het_workshare (init_popcorn_env getenv avail)" "wf_global (init_popcorn_env getenv avail)"
proof -
  note p = placed_facts [OF assms(1), folded P_def]
  obtain ws ws' where e: "\<forall>c \<in> set ws. is_space c" "getenv ''POPCORN_PLACES'' = Some (ws @ show_items ws ps)"
      "\<forall>c \<in> set ws'. is_space c" "getenv ''POPCORN_HET_WORKSHARE'' = Some (ws' @ show_items ws' rs)"
    using assms(1) by (auto simp: env_ok_def)
  have l: "length avail = max_nodes" "ps \<noteq> []" "length ps \<le> max_nodes" "rs \<noteq> []" "length rs \<le> max_nodes"
      "\<forall>r \<in> set rs. r < 2 ^ 63" "True \<in> set avail" "weight P (rated P (map int rs)) < 2 ^ 64"
    using assms(1) by (auto simp: env_ok_def P_def)
  have ps63: "\<forall>n \<in> set ps. n < 2 ^ 63"
  proof
    fix n assume "n \<in> set ps"
    then have "int n \<le> sum_list (map int ps)" by (intro member_le_sum_list) auto
    then show "n < 2 ^ 63" using assms(1) by (simp add: env_ok_def)
  qed
  let ?k = "int (min (length ps) (length (filter (\<lambda>a. a) avail)))"
  let ?g1 = "global_zero\<lparr>node_places := P, avail_nodes := ?k\<rparr>"
  have k: "0 < ?k" using l by (auto simp: filter_empty_conv)
  have g1: "place_nodes avail (map int ps) global_zero 0 = ?g1"
    using place_nodes_eq [of "[]" 0 global_zero avail "map int ps"] l by (simp add: global_zero_def P_def placed_def MAX_POPCORN_NODES_def)
  have pn: "parse_popcorn_nodes_var avail (getenv ''POPCORN_PLACES'') global_zero
      = (True, ?g1\<lparr>distributed := True, hybrid_barrier := True, hybrid_reduce := True\<rparr>)"
    using parse_shown [OF e(1) ps63 l(2,3)] k g1
    by (simp add: parse_popcorn_nodes_var_def e(2) popcorn_affinity_init_nodes_def finish_nodes_def Let_def)
  have ph: "parse_het_workshare_var (getenv ''POPCORN_HET_WORKSHARE'') h
      = (True, h\<lparr>scaled_thread_range := weight P (rated P (map int rs)), core_speed_rating := rated P (map int rs)\<rparr>)"
    if "node_places h = P" "core_speed_rating h = replicate max_nodes 0" "scaled_thread_range h = 0" for h
    using parse_shown [OF e(3) l(6,4,5)] rate_nodes_eq [of "[]" 0 h P "map int rs" 0] rated_cur [OF p(5), of "map int rs"] that p l
    by (simp add: parse_het_workshare_var_def e(4) popcorn_affinity_init_node_ratings_def)
  have z: "core_speed_rating global_zero = replicate max_nodes 0" "scaled_thread_range global_zero = 0"
    by (simp_all add: global_zero_def)
  define b where "b = fst (parse_boolean (getenv ''POPCORN_HYBRID_BARRIER'') True)"
  define c where "c = fst (parse_boolean (getenv ''POPCORN_HYBRID_REDUCE'') True)"
  have g: "init_popcorn_env getenv avail = ?g1\<lparr>distributed := True, hybrid_barrier := b, hybrid_reduce := c,
      scaled_thread_range := weight P (rated P (map int rs)), core_speed_rating := rated P (map int rs), het_workshare := True\<rparr>"
    by (simp add: init_popcorn_env_def pn ph z Let_def b_def c_def)
  show "node_places (init_popcorn_env getenv avail) = P"
    "core_speed_rating (init_popcorn_env getenv avail) = rated P (map int rs)"
    "scaled_thread_range (init_popcorn_env getenv avail) = weight P (rated P (map int rs))"
    "het_workshare (init_popcorn_env getenv avail)"
    using g by auto
  have "\<forall>r \<in> set (rated P (map int rs)). 0 \<le> r \<and> r < 2 ^ 64"
    using set_rated [of P "map int rs"] l(6) by fastforce
  then show "wf_global (init_popcorn_env getenv avail)"
    using g p by (auto simp: wf_global_def global_zero_def)
qed

lemma team_from_env:
  assumes "env_ok getenv avail ps rs"
  defines "P \<equiv> placed avail ps"
  defines "g \<equiv> snd (team_start_places (nat (sum_list P)) (init_popcorn_env getenv avail))"
  shows "team_ok g" "het_workshare g" "length (shares g) = nat (sum_list P)"
    "scaled_thread_range g = weight (threads_per_node g) (core_speed_rating g)" "0 < scaled_thread_range g"
proof -
  note p = placed_facts [OF assms(1), folded P_def]
  note i = init_popcorn_env_eq [OF assms(1), folded P_def]
  have ok: "placement_ok (init_popcorn_env getenv avail) (nat (sum_list P))"
    using i p by (simp add: placement_ok_def)
  have ls: "length (slots P 0) = nat (sum_list P)" using length_slots [of P 0] p by auto
  have "map (\<lambda>k. int (count_list (slots P 0) k)) [0..<max_nodes] = P"
    using count_slots [of _ P 0] p by (intro nth_equalityI) auto
  then have g: "g = (init_popcorn_env getenv avail)\<lparr>threads_per_node := P\<rparr>"
    using team_start_places_eq [OF ok] i(1) ls by (simp add: g_def)
  have w: "0 < weight P (rated P (map int rs))" "weight P (rated P (map int rs)) < 2 ^ 64"
    using assms(1) by (auto simp: env_ok_def P_def)
  have nn: "\<forall>r \<in> set (rated P (map int rs)). 0 \<le> r" using rated_nonneg [of "map int rs" _ P] by auto
  show ok': "team_ok g" using i p w nn by (auto simp: g team_ok_def)
  show "het_workshare g" "scaled_thread_range g = weight (threads_per_node g) (core_speed_rating g)" "0 < scaled_thread_range g"
    using i w by (auto simp: g)
  show "length (shares g) = nat (sum_list P)" using shares_facts(1) [OF ok'] by (simp add: g)
qed



section \<open>Two nodes with two places each, all rated alike\<close>

definition example_env :: "string \<Rightarrow> string option" where
  "example_env name =
     (if name = ''POPCORN_PLACES'' then Some (show_items [] [2, 2])
      else if name = ''POPCORN_HET_WORKSHARE'' then Some (show_items [] [1, 1]) else None)"

definition example_avail :: "bool list" where
  "example_avail = [True, True] @ replicate 30 False"

lemma spread_replicate_False [simp]: "spread (replicate n False) cs = replicate n 0"
  by (induction n) auto

lemma rated_replicate_0 [simp]: "rated (replicate n 0) cs = replicate n 0"
  by (induction n) auto

lemma weight_replicate_0 [simp]: "weight (replicate n 0) rs = 0"
  by (rule weight_zero) auto

lemma example_placed: "placed example_avail [2, 2] = [2, 2] @ replicate 30 0"
  by (simp add: placed_def example_avail_def)

lemma example_rated: "rated ([2, 2] @ replicate 30 0) [1, 1] = [1, 1] @ replicate 30 0"
  by simp

lemma example_env_ok: "env_ok example_env example_avail [2, 2] [1, 1]"
proof -
  have "weight ([2, 2] @ replicate 30 0) ([1, 1] @ replicate 30 0) = 4" by simp
  moreover have "\<exists>ws. (\<forall>c \<in> set ws. is_space c) \<and> example_env ''POPCORN_PLACES'' = Some (ws @ show_items ws [2, 2])"
    "\<exists>ws. (\<forall>c \<in> set ws. is_space c) \<and> example_env ''POPCORN_HET_WORKSHARE'' = Some (ws @ show_items ws [1, 1])"
    by (rule exI [of _ "[]"], simp add: example_env_def)+
  ultimately show ?thesis
    by (simp add: env_ok_def example_placed example_rated MAX_POPCORN_NODES_def del: append.simps) (simp add: example_avail_def)
qed

text \<open>A team of three threads on the places of the example.\<close>

definition example_team :: global_info where
  "example_team = snd (team_start_places 3 (init_popcorn_env example_env example_avail))"

lemma slots_replicate_0 [simp]: "slots (replicate n 0) i = []"
  by (induction n arbitrary: i) auto

lemma example_team_facts:
  "threads_per_node example_team = [2, 1] @ replicate 30 0" "core_speed_rating example_team = [1, 1] @ replicate 30 0"
  "scaled_thread_range example_team = 4" "het_workshare example_team"
proof -
  note i = init_popcorn_env_eq [OF example_env_ok, unfolded example_placed list.map of_nat_numeral of_nat_1 example_rated]
  have ok: "placement_ok (init_popcorn_env example_env example_avail) 3"
    using i by (simp add: placement_ok_def sum_replicate)
  have s: "take 3 (slots ([2, 2] @ replicate 30 0) 0 @ replicate 3 0) = [0, 0, 1]"
    by (simp add: numeral_2_eq_2 numeral_3_eq_3)
  have m: "map (\<lambda>k. int (count_list [0, 0, 1] k)) [0..<max_nodes] = [2, 1] @ replicate 30 0"
  proof -
    have "[0..<max_nodes] = [0, 1] @ [2..<32]" by (simp add: MAX_POPCORN_NODES_def upt_conv_Cons)
    moreover have "map (\<lambda>k. int (count_list [0, 0, 1] k)) [2..<32] = map (\<lambda>k. 0) [2..<32]"
      by (intro map_cong) auto
    moreover have "map (\<lambda>k. 0 :: int) [2..<32 :: nat] = replicate 30 0" by (simp only: map_replicate_const length_upt) simp
    ultimately show ?thesis by simp
  qed
  have e: "example_team = (init_popcorn_env example_env example_avail)\<lparr>threads_per_node := [2, 1] @ replicate 30 0\<rparr>"
    unfolding example_team_def team_start_places_eq [OF ok] i(1) s m by simp
  show "threads_per_node example_team = [2, 1] @ replicate 30 0" "core_speed_rating example_team = [1, 1] @ replicate 30 0"
    "scaled_thread_range example_team = 4" "het_workshare example_team"
    using i by (simp_all add: e)
qed



text \<open>Of the eight iterations of a loop, the three threads execute six.\<close>

theorem other_team_sizes_lose_iterations_witness:
  "length (shares example_team) = 3 \<and>
   map (static_iters I32 example_team 3 1 0 0 7) [0..<3] = map Inr [[0, 1], [2, 3], [4, 5]] \<and>
   last (loop_iters 0 7 1) = 7 \<and> last (loop_iters 0 7 1) \<notin> set (concat [[0, 1], [2, 3], [4, 5 :: int]])"
proof -
  have t: "team_ok example_team"
    by (auto simp: team_ok_def example_team_facts sum_replicate)
  have w: "weight (threads_per_node example_team) (core_speed_rating example_team) = 3"
    by (simp add: example_team_facts)
  have l: "length (shares example_team) = 3"
    using shares_facts(1) [OF t] by (simp add: example_team_facts sum_replicate)
  have ok: "loop_ok I32 0 7 1" by (simp add: loop_ok_def fits_I32)
  have trips: "loop_trips 0 7 1 = 8" by (simp add: loop_trips_def)
  have m: "map (static_iters I32 example_team 3 1 0 0 7) [0..<3] = map Inr [[0, 1], [2, 3], [4, 5]]"
  proof -
    have gr: "get_scaled_range example_team 0 = (0, 1)" "get_scaled_range example_team 1 = (1, 1)"
        "get_scaled_range example_team 2 = (2, 1)"
      by (simp_all add: get_scaled_range_def example_team_facts fits_I32)
    have "static_iters I32 example_team 3 1 0 0 7 n = Inr [2 * int n, 2 * int n + 1]" if "n \<in> {0, 1, 2}" for n
      using that gr
      by (auto simp: static_iters_def kmpc_for_static_init_def skewed_init_def total_trips_def example_team_facts
          fits_I32 Let_def loop_iters_def loop_trips_def upt_rec)
    then show ?thesis by (simp add: upt_rec)
  qed
  have "last (loop_iters 0 7 1) \<notin> set (concat [[0, 1], [2, 3], [4, 5 :: int]])"
    using other_team_sizes_lose_iterations [OF ok example_team_facts(4) t, of 0 "[[0, 1], [2, 3], [4, 5]]"] m l w trips
    by (simp add: example_team_facts(3) fits_I32 split_point_def)
  then show ?thesis using l m by (simp add: loop_iters_def trips upt_rec)
qed


section \<open>Chunked schedules\<close>

text \<open>
  The loop the compiler emits around a chunk: in round \<open>j\<close> the bounds have moved by \<open>j\<close> strides, and the
  upper bound is capped by that of the whole loop.
\<close>

definition chunk_round :: "static_bounds \<Rightarrow> int \<Rightarrow> int \<Rightarrow> nat \<Rightarrow> int list" where
  "chunk_round b ub inc j =
     loop_iters (lower b + int j * stride b)
       (if 0 < inc then min ub (upper b + int j * stride b) else max ub (upper b + int j * stride b)) inc"

lemma mem_loop_iters:
  assumes "inc \<noteq> 0"
  shows "x \<in> set (loop_iters l u inc) \<longleftrightarrow> (\<exists>k :: nat. x = l + inc * int k) \<and> (if 0 < inc then x \<le> u else u \<le> x)"
proof -
  have up: "k < (if d < 0 then 0 else nat (d div i + 1)) \<longleftrightarrow> i * int k \<le> d" if "0 < i" for d i :: int and k :: nat
  proof (cases "d < 0")
    case True
    then have "\<not> i * int k \<le> d" using mult_nonneg_nonneg [of i "int k"] that by linarith
    then show ?thesis using True by simp
  next
    case False
    have "k < nat (d div i + 1) \<longleftrightarrow> int k \<le> d div i" by (auto simp: zless_nat_eq_int_zless)
    also have "\<dots> \<longleftrightarrow> i * int k \<le> d" using le_div_iff_mult_le [OF that, of "int k" d] by (simp add: mult.commute)
    finally show ?thesis using False by simp
  qed
  have m: "k < loop_trips l u inc \<longleftrightarrow> (if 0 < inc then l + inc * int k \<le> u else u \<le> l + inc * int k)" for k
  proof (cases "0 < inc")
    case True
    then show ?thesis using up [OF True, of k "u - l"] by (auto simp: loop_trips_def)
  next
    case False
    then have i: "0 < - inc" "loop_trips l u inc = (if l - u < 0 then 0 else nat ((l - u) div (- inc) + 1))"
      using assms by (simp_all add: loop_trips_def)
    have "k < loop_trips l u inc \<longleftrightarrow> - inc * int k \<le> l - u" by (simp only: i(2) up [OF i(1)])
    also have "\<dots> \<longleftrightarrow> u \<le> l + inc * int k" by linarith
    finally show ?thesis by (simp only: if_not_P [OF False])
  qed
  have "x \<in> set (loop_iters l u inc) \<longleftrightarrow> (\<exists>k. k < loop_trips l u inc \<and> x = l + inc * int k)"
    by (auto simp: loop_iters_def)
  then show ?thesis unfolding m by (cases "0 < inc") (simp_all, blast+)
qed

lemma mem_chunk_round:
  assumes "inc \<noteq> 0" "stride b = inc * d" "lower b = lb + inc * s" "upper b = lb + inc * (e - 1)" "0 \<le> d" "0 \<le> s"
  shows "lb + inc * int k \<in> set (chunk_round b ub inc j) \<longleftrightarrow>
    k < loop_trips lb ub inc \<and> int j * d + s \<le> int k \<and> int k < int j * d + e"
proof -
  have T: "k < loop_trips lb ub inc \<longleftrightarrow> (if 0 < inc then lb + inc * int k \<le> ub else ub \<le> lb + inc * int k)"
    using mem_loop_iters [OF assms(1), of "lb + inc * int k" lb ub] assms(1) by (auto simp: loop_iters_def)
  have l: "lower b + int j * stride b = lb + inc * (int j * d + s)" "upper b + int j * stride b = lb + inc * (int j * d + e - 1)"
    by (simp_all add: assms(2-4) algebra_simps)
  have nn: "0 \<le> int j * d + s" using assms(5,6) by simp
  have "(\<exists>i :: nat. lb + inc * int k = lb + inc * (int j * d + s) + inc * int i) \<longleftrightarrow> (\<exists>i :: nat. int k = int j * d + s + int i)"
    using assms(1) by (auto simp: distrib_left [symmetric] add.assoc)
  also have "\<dots> \<longleftrightarrow> int j * d + s \<le> int k" using zle_iff_zadd [of "int j * d + s" "int k"] by auto
  finally have ex: "(\<exists>i :: nat. lb + inc * int k = lb + inc * (int j * d + s) + inc * int i) \<longleftrightarrow> int j * d + s \<le> int k" .
  have up: "(if 0 < inc then lb + inc * int k \<le> lb + inc * (int j * d + e - 1) else lb + inc * (int j * d + e - 1) \<le> lb + inc * int k)
      \<longleftrightarrow> int k < int j * d + e"
    using assms(1) by (auto simp: mult_le_cancel_left)
  show ?thesis
    unfolding chunk_round_def mem_loop_iters [OF assms(1)] l ex using T up by (auto split: if_splits)
qed

text \<open>Which blocks of \<open>c\<close> iterations lie in a round.\<close>

lemma round_blocks:
  fixes k j c S s r :: int
  assumes "0 < c" "0 < S" "0 \<le> s" "0 \<le> r" "s + r \<le> S" "0 \<le> k" "0 \<le> j"
  shows "j * (c * S) + c * s \<le> k \<and> k < j * (c * S) + c * (s + r) \<longleftrightarrow>
    j = k div c div S \<and> s \<le> k div c mod S \<and> k div c mod S < s + r"
proof -
  have "j * (c * S) + c * s \<le> k \<longleftrightarrow> j * S + s \<le> k div c" "k < j * (c * S) + c * (s + r) \<longleftrightarrow> k div c < j * S + (s + r)"
    using le_div_iff_mult_le [OF assms(1), of "j * S + s" k] le_div_iff_mult_le [OF assms(1), of "j * S + (s + r)" k]
    by (auto simp: algebra_simps)
  moreover have "k div c = k div c div S * S + k div c mod S" by simp
  moreover have "0 \<le> k div c mod S" "k div c mod S < S" using assms(2) by simp_all
  moreover have "q = j" if "j * S + s \<le> q * S + m" "q * S + m < j * S + (s + r)" "0 \<le> m" "m < S" for q m
  proof -
    have "j * S < (q + 1) * S" "q * S < (j + 1) * S" using that assms by (auto simp: algebra_simps)
    then show ?thesis using assms(2) by (simp add: mult_less_cancel_right)
  qed
  ultimately show ?thesis by (smt (verit))
qed


text \<open>The first part of a thread, the number of its parts, and the number of all parts.\<close>

definition thread_parts :: "global_info \<Rightarrow> nat \<Rightarrow> nat \<Rightarrow> int \<times> int \<times> int" where
  "thread_parts g N n =
     (if het_workshare g then (share_before g n, shares g ! n, scaled_thread_range g) else (int n, 1, int N))"

lemma chunked_init:
  assumes "loop_ok ty lb ub inc" "n < N" "c = (if chunk < 1 then 1 else chunk)"
    and "het_workshare g \<Longrightarrow> team_ok g \<and> length (shares g) = N \<and>
           scaled_thread_range g = weight (threads_per_node g) (core_speed_rating g)"
    and "thread_parts g N n = (s, r, S)" "r \<noteq> 0" "fits ty (inc * (c * S))" "fits ty (lb + inc * (c * S))"
  shows "\<exists>b. kmpc_for_static_init ty g (int N) (int n) kmp_sch_static_chunked inc chunk
      \<lparr>lower = lb, upper = ub, stride = 1, lastiter = Some False\<rparr> = Inr b \<and>
    lower b = lb + inc * (c * s) \<and> upper b = lb + inc * (c * (s + r) - 1) \<and> stride b = inc * (c * S)"
    and "0 \<le> s" "0 < r" "s + r \<le> S" "0 < c"
proof -
  have tp: "0 \<le> s \<and> 0 < r \<and> s + r \<le> S \<and> (het_workshare g \<longrightarrow> get_scaled_range g (int n) = (s, r) \<and> scaled_thread_range g = S)
      \<and> (\<not> het_workshare g \<longrightarrow> s = int n \<and> r = 1 \<and> S = int N)"
  proof (cases "het_workshare g")
    case True
    note g = assms(4) [OF True]
    then have n: "n < length (shares g)" using assms(2) by simp
    have "s = share_before g n" "r = shares g ! n" "S = scaled_thread_range g" using assms(5) True by (auto simp: thread_parts_def)
    then show ?thesis
      using True g n assms(6) get_scaled_range_eq [of g n] share_before_Suc [OF n] share_before_mono(1) [of g n]
        share_before_mono(3) [of g "Suc n"] shares_facts(3) [of g] nth_mem [OF n] by (auto simp: order.strict_iff_order)
  next
    case False
    then show ?thesis using assms(2,5) by (auto simp: thread_parts_def)
  qed
  show "0 \<le> s" "0 < r" "s + r \<le> S" "0 < c" using tp assms(3) by auto
  have inc: "inc \<noteq> 0" "fits ty lb" using loop_okD [OF assms(1)] by auto
  have F: "fits ty (lb + inc * x)" if "0 \<le> x" "x \<le> c * S" for x
    using fits_between [OF inc(2) assms(8) that] .
  have c: "0 < c" using assms(3) by simp
  have "0 < s + r" using tp by auto
  then have "0 < c * (s + r)" using c by simp
  then have "1 \<le> c * (s + r)" by linarith
  moreover have "0 \<le> c * s" "c * s \<le> c * S" "c * (s + r) \<le> c * S"
    using tp c by (auto intro!: mult_left_mono)
  ultimately have cs: "0 \<le> c * s" "c * s \<le> c * S" "c * (s + r) \<le> c * S" "1 \<le> c * (s + r)" by blast+
  have lo: "fits ty (lb + inc * (c * s))" using F cs by simp
  have hi: "fits ty (lb + inc * (c * (s + r) - 1))" using F cs by simp
  have e: "lb + c * inc * s = lb + inc * (c * s)" "lb + inc * (c * s) + c * inc * r - inc = lb + inc * (c * (s + r) - 1)"
      "c * inc * S = inc * (c * S)"
    by (simp_all add: algebra_simps)
  have lo': "wrapc ty (lb + wrapc ty (c * inc) * s) = lb + inc * (c * s)"
    using lo by (simp only: wrapc_lin e(1) wrapc_id)
  have hi': "wrapc ty (lb + inc * (c * s) + wrapc ty (c * inc) * r - inc) = lb + inc * (c * (s + r) - 1)"
    using hi by (simp only: wrapc_lin e(2) wrapc_id)
  have st: "wrapc ty (wrapc ty (c * inc) * S) = inc * (c * S)" using assms(7) by (simp add: e(3))
  show "\<exists>b. kmpc_for_static_init ty g (int N) (int n) kmp_sch_static_chunked inc chunk
      \<lparr>lower = lb, upper = ub, stride = 1, lastiter = Some False\<rparr> = Inr b \<and>
    lower b = lb + inc * (c * s) \<and> upper b = lb + inc * (c * (s + r) - 1) \<and> stride b = inc * (c * S)"
  proof (cases "het_workshare g")
    case True
    have "0 < S" using tp by auto
    then show ?thesis
      using True tp assms(6) lo' hi' st
      by (simp add: kmpc_for_static_init_def total_trips_eq [OF assms(1)] skewed_init_def Let_def assms(3) [symmetric])
  next
    case False
    have "N \<noteq> 0" using assms(2) by simp
    then show ?thesis
      using False tp lo' hi' st
      by (simp add: kmpc_for_static_init_def total_trips_eq [OF assms(1)] even_init_def Let_def assms(3) [symmetric])
  qed
qed



section \<open>The flag for the last iteration\<close>

text \<open>
  On a skewed schedule of fewer iterations than parts, the flag for the last iteration is set for every
  thread whose parts end at or behind the last iteration, also for those that do not execute it; a
  \<open>lastprivate\<close> variable is then written by several threads.
\<close>

theorem skewed_last_flag:
  assumes "loop_ok ty lb ub inc" "het_workshare g" "team_ok g" "n < length (shares g)" "shares g ! n \<noteq> 0"
    and "scaled_thread_range g = weight (threads_per_node g) (core_speed_rating g)"
    and "int (loop_trips lb ub inc) < scaled_thread_range g"
  shows "\<exists>b. kmpc_for_static_init ty g nthreads (int n) kmp_sch_static inc chunk
      \<lparr>lower = lb, upper = ub, stride = 1, lastiter = Some False\<rparr> = Inr b \<and>
    (lastiter b = Some True \<longleftrightarrow> int (loop_trips lb ub inc) - 1 \<le> share_before g (Suc n)) \<and>
    (last (loop_iters lb ub inc) \<in> set (loop_iters (lower b) (upper b) inc) \<longleftrightarrow>
       share_before g n < int (loop_trips lb ub inc) \<and> int (loop_trips lb ub inc) \<le> share_before g (Suc n))"
proof -
  define T where "T = int (loop_trips lb ub inc)"
  let ?b = "\<lparr>lower = lb, upper = ub, stride = 1, lastiter = Some False\<rparr>"
  have T: "1 \<le> T" "fits ty T" "T < scaled_thread_range g"
    using total_trips_eq(2,3) [OF assms(1)] assms(7) unfolding T_def by auto
  have inc: "inc \<noteq> 0" using loop_okD [OF assms(1)] by simp
  have S: "0 < scaled_thread_range g" "scaled_thread_range g < 2 ^ 64" using T assms(3,6) by (auto simp: team_ok_def)
  obtain b where b: "skewed_init ty g nthreads (int n) kmp_sch_static inc chunk T ?b = Inr b"
      "loop_iters (lower b) (upper b) inc = part lb inc T (scaled_thread_range g) (share_before g n) (share_before g (Suc n))"
    using skewed_static [OF assms(1,3,4) S, of ?b nthreads chunk] weight_split_fits [OF assms(1) S(1), of "scaled_thread_range g"] S assms(6)
    by (auto simp: T_def)
  note gr = get_scaled_range_eq [OF assms(3,4)]
  note sb = share_before_mono [OF assms(3)] share_before_Suc [OF assms(4)]
  have f: "fits ty (T - 1)" "fits U64 (T - 1)" "fits U64 T" "fits U64 (share_before g n + shares g ! n)"
    using T S sb(3) [of "Suc n"] sb(1) [of "Suc n"] sb(4) assms(6) by (auto intro: fits_mono [OF fits_0 T(2)])
  have l: "lastiter b = Some (T - 1 \<le> share_before g (Suc n))"
    using b(1) T(3) f assms(5) by (auto simp: skewed_init_def gr Let_def sb(4))
  have e: "split_point T (scaled_thread_range g) x = min x T" for x using T by (simp add: split_point_less)
  have last: "last (loop_iters lb ub inc) = lb + inc * (T - 1)"
    using T total_trips_eq(2) [OF assms(1)] by (simp add: loop_iters_def last_map T_def of_nat_diff)
  have "lb + inc * (T - 1) \<in> set (part lb inc T (scaled_thread_range g) x y) \<longleftrightarrow> x < T \<and> T \<le> y"
    if "0 \<le> x" "0 \<le> y" for x y
  proof -
    have "lb + inc * (T - 1) \<in> set (part lb inc T (scaled_thread_range g) x y)
      \<longleftrightarrow> (\<exists>k. int k = T - 1 \<and> nat (min x T) \<le> k \<and> k < nat (min y T))"
    proof -
      have i: "lb + inc * (T - 1) = lb + inc * int k \<longleftrightarrow> int k = T - 1" for k using inc by auto
      show ?thesis unfolding part_def e set_map set_upt image_iff i Bex_def atLeastLessThan_iff by blast
    qed
    also have "\<dots> \<longleftrightarrow> x < T \<and> T \<le> y"
      using T(1) that by (auto intro!: exI [of _ "nat (T - 1)"] simp: nat_le_iff zless_nat_eq_int_zless)
    finally show ?thesis .
  qed
  then show ?thesis
    using b l last sb(1) [of n] sb(1) [of "Suc n"] assms(2)
    by (simp add: kmpc_for_static_init_def total_trips_eq [OF assms(1)] T_def)
qed

theorem skewed_last_flag_witness:
  "\<exists>b. kmpc_for_static_init I32 (example_team\<lparr>scaled_thread_range := 3\<rparr>) 3 (int 0) kmp_sch_static 1 0
      \<lparr>lower = 0, upper = 1, stride = 1, lastiter = Some False\<rparr> = Inr b \<and>
    lastiter b = Some True \<and> last (loop_iters 0 1 1) \<notin> set (loop_iters (lower b) (upper b) 1)"
proof -
  let ?g = "example_team\<lparr>scaled_thread_range := 3\<rparr>"
  have t: "team_ok ?g" by (auto simp: team_ok_def example_team_facts sum_replicate)
  have s: "shares ?g = [1, 1, 1] @ shares_of (zip (replicate 30 0) (replicate 30 0))"
    by (simp add: shares_zip example_team_facts numeral_2_eq_2)
  have ok: "loop_ok I32 0 1 1" by (simp add: loop_ok_def fits_I32)
  have trips: "loop_trips 0 1 1 = 2" by (simp add: loop_trips_def)
  show ?thesis
    using skewed_last_flag [OF ok _ t, of 0 3 0] s trips by (auto simp: example_team_facts share_before_def)
qed



section \<open>A skewed team\<close>

text \<open>Two threads of rating two on the first node and one of rating one on the second.\<close>

definition skewed_example :: global_info where
  "skewed_example = example_team\<lparr>core_speed_rating := [2, 1] @ replicate 30 0, scaled_thread_range := 5\<rparr>"

lemma skewed_example_facts:
  "team_ok skewed_example" "het_workshare skewed_example" "scaled_thread_range skewed_example = 5"
  "weight (threads_per_node skewed_example) (core_speed_rating skewed_example) = 5"
  "shares skewed_example = [2, 2, 1] @ shares_of (zip (replicate 30 0) (replicate 30 0))" "length (shares skewed_example) = 3"
proof -
  show t: "team_ok skewed_example"
    by (auto simp: skewed_example_def team_ok_def example_team_facts sum_replicate)
  show "het_workshare skewed_example" "scaled_thread_range skewed_example = 5"
    "weight (threads_per_node skewed_example) (core_speed_rating skewed_example) = 5"
    by (simp_all add: skewed_example_def example_team_facts)
  show "shares skewed_example = [2, 2, 1] @ shares_of (zip (replicate 30 0) (replicate 30 0))"
    by (simp add: shares_zip skewed_example_def example_team_facts numeral_2_eq_2)
  show "length (shares skewed_example) = 3"
    using shares_facts(1) [OF t] by (simp add: skewed_example_def example_team_facts sum_replicate)
qed


theorem skewed_is_even_for_virtual_threads_witness:
  "\<exists>its. map (static_iters I32 (skewed_example\<lparr>het_workshare := False\<rparr>) 5 1 0 0 11) [2..<4] = map Inr its \<and>
    static_iters I32 skewed_example 3 1 0 0 11 1 = Inr (concat its)"
proof -
  have "loop_ok I32 0 11 1" by (simp add: loop_ok_def fits_I32)
  from skewed_is_even_for_virtual_threads [OF this skewed_example_facts(2,1), of 1 0] show ?thesis
    using skewed_example_facts by (simp add: share_before_def numeral_3_eq_3)
qed




end
