(* ===== verification/Omp_Workshare.thy ===== *)
theory Omp_Workshare
  imports Omp_Static
begin

unbundle bit_operations_syntax

text \<open>
  Work shares, from which the threads of a team take the iterations of a dynamically scheduled loop
  (\<open>src/lib/libopenpop\<close>): the structure (\<open>libgomp.h\<close>), taking the next chunk (\<open>iter.c\<close>,
  \<open>iter_ull.c\<close>), and the two levels of work shares of a distributed program, one for every node that is
  replenished from a global one (\<open>hierarchy.c\<close>). An operation returns what it writes through its
  pointers and the work share it leaves. The variants for \<open>long\<close> and \<open>unsigned long long\<close> loops are
  separate functions in the code and here; the interface they share is a locale in
  \<open>Omp_Dynamic\<close>.
\<close>

section \<open>Work shares\<close>

datatype gomp_schedule_type =
    GFS_RUNTIME | GFS_STATIC | GFS_DYNAMIC | GFS_GUIDED | GFS_AUTO | GFS_HETPROBE | GFS_HIERARCHY_STATIC | GFS_HIERARCHY_DYNAMIC

text \<open>
  The members that schedule loops; the unions of \<open>long\<close> and \<open>unsigned long long\<close> members are one member,
  since a loop uses one of the two types throughout.
\<close>

record gomp_work_share =
  ws_sched :: gomp_schedule_type
  ws_mode :: int
  ws_chunk_size :: int
  ws_end :: int
  ws_incr :: int
  ws_next :: int
  ws_threads_completed :: bool

abbreviation LONG_MAX :: int where "LONG_MAX \<equiv> 2 ^ 63 - 1"
abbreviation ULLONG_MAX :: int where "ULLONG_MAX \<equiv> 2 ^ 64 - 1"

text \<open>
  \<open>loop_init\<close>, behind \<open>gomp_init_work_share\<close>, for a node with \<open>nthreads\<close> threads. The first test is one
  of an \<open>unsigned long\<close>, so that negative operands are large.
\<close>

definition loop_init :: "int \<Rightarrow> int \<Rightarrow> int \<Rightarrow> gomp_schedule_type \<Rightarrow> int \<Rightarrow> int \<Rightarrow> gomp_work_share" where
  "loop_init start end' inc sched chunk nthreads =
     (let cs = wrapc I64 (chunk * inc);
          e = (if inc > 0 \<and> start > end' \<or> inc < 0 \<and> start < end' then start else end');
          small = (\<lambda>c. wrapc U64 (nthreads OR c) < 2 ^ 31);
          m = (if inc > 0 then small cs \<and> e < wrapc I64 (LONG_MAX - wrapc I64 ((nthreads + 1) * cs))
               else small (wrapc I64 (- cs)) \<and> e > wrapc I64 (wrapc I64 ((nthreads + 1) * wrapc I64 (- cs)) - LONG_MAX)) in
      \<lparr>ws_sched = sched, ws_mode = of_bool m, ws_chunk_size = cs, ws_end = e, ws_incr = inc, ws_next = start,
       ws_threads_completed = False\<rparr>)"

definition loop_init_ull :: "bool \<Rightarrow> int \<Rightarrow> int \<Rightarrow> int \<Rightarrow> gomp_schedule_type \<Rightarrow> int \<Rightarrow> int \<Rightarrow> gomp_work_share" where
  "loop_init_ull up start end' inc sched chunk nthreads =
     (let cs = wrapc U64 (chunk * inc);
          e = (if up \<and> start > end' \<or> \<not> up \<and> start < end' then start else end');
          small = (\<lambda>c. wrapc U64 (nthreads OR c) < 2 ^ 31);
          m = (if up then small cs \<and> e < wrapc U64 (ULLONG_MAX - wrapc U64 ((nthreads + 1) * cs))
               else small (wrapc U64 (- cs)) \<and> e > wrapc U64 (wrapc U64 ((nthreads + 1) * wrapc U64 (- cs)) - ULLONG_MAX)) in
      \<lparr>ws_sched = sched, ws_mode = (if up then of_bool m else of_bool m OR 2), ws_chunk_size = cs, ws_end = e, ws_incr = inc,
       ws_next = start, ws_threads_completed = False\<rparr>)"

section \<open>Taking the next chunk\<close>

text \<open>With the lock of the work share held.\<close>

definition gomp_iter_dynamic_next_locked_raw :: "gomp_work_share \<Rightarrow> int \<Rightarrow> (int \<times> int) option \<times> gomp_work_share" where
  "gomp_iter_dynamic_next_locked_raw ws chunk =
     (let start = ws_next ws in
      if start = ws_end ws then (None, ws)
      else
        let left = wrapc I64 (ws_end ws - start);
            chunk = (if ws_incr ws < 0 then (if chunk < left then left else chunk) else (if chunk > left then left else chunk));
            e = wrapc I64 (start + chunk) in
        (Some (start, e), ws\<lparr>ws_next := e\<rparr>))"

definition gomp_iter_dynamic_next_locked_ws :: "gomp_work_share \<Rightarrow> (int \<times> int) option \<times> gomp_work_share" where
  "gomp_iter_dynamic_next_locked_ws ws = gomp_iter_dynamic_next_locked_raw ws (ws_chunk_size ws)"

definition gomp_iter_ull_dynamic_next_locked_raw :: "gomp_work_share \<Rightarrow> int \<Rightarrow> (int \<times> int) option \<times> gomp_work_share" where
  "gomp_iter_ull_dynamic_next_locked_raw ws chunk =
     (let start = ws_next ws in
      if start = ws_end ws then (None, ws)
      else
        let left = wrapc U64 (ws_end ws - start);
            chunk = (if ws_mode ws AND 2 \<noteq> 0 then (if chunk < left then left else chunk) else (if chunk > left then left else chunk));
            e = wrapc U64 (start + chunk) in
        (Some (start, e), ws\<lparr>ws_next := e\<rparr>))"

definition gomp_iter_ull_dynamic_next_locked_ws :: "gomp_work_share \<Rightarrow> (int \<times> int) option \<times> gomp_work_share" where
  "gomp_iter_ull_dynamic_next_locked_ws ws = gomp_iter_ull_dynamic_next_locked_raw ws (ws_chunk_size ws)"

text \<open>
  Without the lock. The loop around the compare-and-swap: \<open>start\<close> is the value loaded first, and the list
  holds what the memory contained at each compare-and-swap. The result is \<open>None\<close> when the loop has not
  ended with the list, \<open>Some None\<close> when it finds no work, and otherwise the chunk taken by the
  compare-and-swap that succeeded. The chunk size a failed attempt was capped to is kept.
\<close>

fun cas_loop :: "ctype \<Rightarrow> bool \<Rightarrow> int \<Rightarrow> int \<Rightarrow> int \<Rightarrow> int list \<Rightarrow> (int \<times> int) option option" where
  "cas_loop ty down e chunk start mem =
     (if start = e then Some None
      else case mem of
        [] \<Rightarrow> None
      | tmp # mem \<Rightarrow>
          let left = wrapc ty (e - start);
              chunk = (if down then (if chunk < left then left else chunk) else (if chunk > left then left else chunk));
              nend = wrapc ty (start + chunk) in
          if tmp = start then Some (Some (start, nend)) else cas_loop ty down e chunk tmp mem)"

declare cas_loop.simps [simp del]

text \<open>
  The whole operation as one step: the fetch-and-add, or the compare-and-swap that succeeds, which finds
  the value it was prepared for (\<open>Omp_Dynamic.cas_loop_atomic\<close>).
\<close>

definition gomp_iter_dynamic_next_raw :: "gomp_work_share \<Rightarrow> int \<Rightarrow> (int \<times> int) option \<times> gomp_work_share" where
  "gomp_iter_dynamic_next_raw ws chunk =
     (if ws_mode ws \<noteq> 0 then
        let tmp = ws_next ws; ws' = ws\<lparr>ws_next := wrapc I64 (tmp + chunk)\<rparr>; nend = wrapc I64 (tmp + chunk) in
        if ws_incr ws > 0 then
          (if tmp \<ge> ws_end ws then (None, ws') else (Some (tmp, if nend > ws_end ws then ws_end ws else nend), ws'))
        else
          (if tmp \<le> ws_end ws then (None, ws') else (Some (tmp, if nend < ws_end ws then ws_end ws else nend), ws'))
      else
        (case cas_loop I64 (ws_incr ws < 0) (ws_end ws) chunk (ws_next ws) [ws_next ws] of
           Some (Some (s, nend)) \<Rightarrow> (Some (s, nend), ws\<lparr>ws_next := nend\<rparr>)
         | _ \<Rightarrow> (None, ws)))"

definition gomp_iter_ull_dynamic_next_raw :: "gomp_work_share \<Rightarrow> int \<Rightarrow> (int \<times> int) option \<times> gomp_work_share" where
  "gomp_iter_ull_dynamic_next_raw ws chunk =
     (if ws_mode ws AND 1 \<noteq> 0 then
        let tmp = ws_next ws; ws' = ws\<lparr>ws_next := wrapc U64 (tmp + chunk)\<rparr>; nend = wrapc U64 (tmp + chunk) in
        if ws_mode ws AND 2 = 0 then
          (if tmp \<ge> ws_end ws then (None, ws') else (Some (tmp, if nend > ws_end ws then ws_end ws else nend), ws'))
        else
          (if tmp \<le> ws_end ws then (None, ws') else (Some (tmp, if nend < ws_end ws then ws_end ws else nend), ws'))
      else
        (case cas_loop U64 (ws_mode ws AND 2 \<noteq> 0) (ws_end ws) chunk (ws_next ws) [ws_next ws] of
           Some (Some (s, nend)) \<Rightarrow> (Some (s, nend), ws\<lparr>ws_next := nend\<rparr>)
         | _ \<Rightarrow> (None, ws)))"

end
