(* ===== verification/Omp_Dynamic.thy ===== *)
theory Omp_Dynamic
  imports Omp_Workshare "HOL-Library.Multiset"
begin

text \<open>
  The hierarchical dynamic schedule (\<open>hierarchy_init_workshare_dynamic\<close>, \<open>hierarchy_next_dynamic\<close> and
  their \<open>ull\<close> variants in \<open>src/lib/libopenpop/hierarchy.c\<close>) under every interleaving of the nodes. What
  taking a chunk promises is the locale \<open>iteration_pool\<close>; the two variants of \<open>iter.c\<close> and
  \<open>iter_ull.c\<close> interpret it, and the schedule is proved correct once, inside the locale.
\<close>

section \<open>The interface of a work share\<close>

text \<open>Loops that count upwards and have not reached the end of their range.\<close>

definition ranged :: "ctype \<Rightarrow> gomp_work_share \<Rightarrow> bool" where
  "ranged ty ws \<longleftrightarrow> fits ty (ws_next ws) \<and> fits ty (ws_end ws) \<and> fits ty (ws_end ws - ws_next ws) \<and> ws_next ws \<le> ws_end ws"

locale iteration_pool =
  fixes ty :: ctype
    and upward :: "gomp_work_share \<Rightarrow> bool"
    and adds :: "gomp_work_share \<Rightarrow> bool"
    and locked :: "gomp_work_share \<Rightarrow> int \<Rightarrow> (int \<times> int) option \<times> gomp_work_share"
    and raw :: "gomp_work_share \<Rightarrow> int \<Rightarrow> (int \<times> int) option \<times> gomp_work_share"
  assumes kinds: "upward (ws\<lparr>ws_next := x\<rparr>) = upward ws" "adds (ws\<lparr>ws_next := x\<rparr>) = adds ws"
    "upward (ws\<lparr>ws_end := x\<rparr>) = upward ws" "upward (ws\<lparr>ws_threads_completed := b\<rparr>) = upward ws"
    and locked: "upward ws \<Longrightarrow> ranged ty ws \<Longrightarrow> 0 < c \<Longrightarrow>
      locked ws c = (if ws_next ws = ws_end ws then (None, ws)
        else (Some (ws_next ws, min (ws_next ws + c) (ws_end ws)), ws\<lparr>ws_next := min (ws_next ws + c) (ws_end ws)\<rparr>))"
    and raw_adds: "upward ws \<Longrightarrow> adds ws \<Longrightarrow> 0 < c \<Longrightarrow> fits ty (ws_next ws + c) \<Longrightarrow>
      raw ws c = (if ws_end ws \<le> ws_next ws then None else Some (ws_next ws, min (ws_next ws + c) (ws_end ws)),
        ws\<lparr>ws_next := ws_next ws + c\<rparr>)"
    and raw_cas: "upward ws \<Longrightarrow> \<not> adds ws \<Longrightarrow> ranged ty ws \<Longrightarrow> 0 < c \<Longrightarrow> raw ws c = locked ws c"
begin

text \<open>What both ways of taking a chunk without the lock have in common.\<close>

lemma raw_result:
  assumes "upward ws" "adds ws \<or> ranged ty ws" "0 < c" "adds ws \<Longrightarrow> fits ty (ws_next ws + c)"
  shows "\<exists>x. raw ws c = (if ws_end ws \<le> ws_next ws then None else Some (ws_next ws, min (ws_next ws + c) (ws_end ws)), ws\<lparr>ws_next := x\<rparr>) \<and>
    (adds ws \<and> x = ws_next ws + c \<or> \<not> adds ws \<and> x = min (ws_next ws + c) (ws_end ws))"
proof (cases "adds ws")
  case True
  then show ?thesis using raw_adds assms by auto
next
  case False
  then have r: "ranged ty ws" using assms(2) by simp
  have "raw ws c = locked ws c" using raw_cas assms False r by simp
  moreover have "ws_next ws \<le> ws_end ws" using r by (simp add: ranged_def)
  ultimately show ?thesis
    using locked [OF assms(1) r assms(3)] False assms(3)
    by (cases "ws_next ws = ws_end ws") (auto intro!: exI [of _ "min (ws_next ws + c) (ws_end ws)"])
qed

end

section \<open>The two variants\<close>

text \<open>
  A compare-and-swap loop of an upward loop takes, whatever the failed attempts saw on the way, what it
  would have taken at once from the value it finally replaced.
\<close>

lemma cas_loop_atomic:
  assumes "cas_loop ty False e c start mem = Some (Some (s, nend))" "0 < c"
    and "\<forall>x \<in> set (start # mem). fits ty x \<and> x \<le> e \<and> fits ty (e - x)" "fits ty e" "sorted (start # mem)"
  shows "s < e \<and> nend = min (s + c) e \<and> s \<in> set (start # mem)"
proof -
  have "s < e \<and> nend = min (s + c) e \<and> s \<in> set (start # mem)"
    if "cas_loop ty False e d start mem = Some (Some (s, nend))" "0 < d" "d \<le> c" "d < c \<longrightarrow> e - start \<le> d"
      "\<forall>x \<in> set (start # mem). fits ty x \<and> x \<le> e \<and> fits ty (e - x)" "sorted (start # mem)" for d
    using that
  proof (induction mem arbitrary: start d)
    case Nil
    then show ?case by (auto simp: cas_loop.simps split: if_splits)
  next
    case (Cons x mem)
    have ne: "start \<noteq> e" using Cons.prems(1) by (auto simp: cas_loop.simps split: if_splits)
    have f: "fits ty start" "start \<le> e" "fits ty (e - start)" using Cons.prems(5) by auto
    define d' where "d' = min d (e - start)"
    have d': "(if e - start < d then e - start else d) = d'" by (auto simp: d'_def)
    have fn: "fits ty (start + d')"
      using f(1,2) assms(4) Cons.prems(2) by (intro fits_mono [OF f(1) assms(4)]) (auto simp: d'_def)
    have c: "cas_loop ty False e d start (x # mem)
        = (if x = start then Some (Some (start, start + d')) else cas_loop ty False e d' x mem)"
      using ne f fn by (subst cas_loop.simps) (simp add: Let_def d' del: min_def)
    show ?case
    proof (cases "x = start")
      case True
      then show ?thesis using c Cons.prems(1-4) ne f(2) by (auto simp: d'_def)
    next
      case False
      have s: "start < x" using Cons.prems(6) False by auto
      have r: "cas_loop ty False e d' x mem = Some (Some (s, nend))" using c False Cons.prems(1) by simp
      have "0 < d'" "d' \<le> c" "d' < c \<longrightarrow> e - x \<le> d'"
        using Cons.prems(2-4) s f(2) ne by (auto simp: d'_def min_def)
      from Cons.IH [OF r this] show ?thesis using Cons.prems(5,6) by simp
    qed
  qed
  from this [OF assms(1,2) order_refl] assms(3,5) show ?thesis by simp
qed

lemma cas_loop_once:
  assumes "fits ty start" "fits ty e" "start \<le> e" "fits ty (e - start)" "0 < c"
  shows "cas_loop ty False e c start [start] = Some (if start = e then None else Some (start, min (start + c) e))"
proof -
  have "fits ty (min (start + c) e)" using assms by (intro fits_mono [OF assms(1,2)]) auto
  then show ?thesis using assms by (auto simp: cas_loop.simps Let_def min_def)
qed

text \<open>One attempt with and without the lock, as the code of both variants computes it.\<close>

lemma min_fits:
  assumes "ranged ty ws" "0 < c"
  shows "fits ty (min (ws_next ws + c) (ws_end ws))"
proof (rule fits_mono)
  show "fits ty (ws_next ws)" "fits ty (ws_end ws)" using assms(1) by (simp_all add: ranged_def)
  show "ws_next ws \<le> min (ws_next ws + c) (ws_end ws)" using assms by (simp add: ranged_def)
qed simp

lemma capped_step:
  assumes "ranged ty ws" "0 < c"
  shows "wrapc ty (ws_next ws + (if c > wrapc ty (ws_end ws - ws_next ws) then wrapc ty (ws_end ws - ws_next ws) else c))
    = min (ws_next ws + c) (ws_end ws)"
proof -
  have "wrapc ty (ws_end ws - ws_next ws) = ws_end ws - ws_next ws" using assms(1) by (simp add: ranged_def)
  moreover have "ws_next ws + (if c > ws_end ws - ws_next ws then ws_end ws - ws_next ws else c) = min (ws_next ws + c) (ws_end ws)"
    by (simp add: min_def)
  ultimately show ?thesis using min_fits [OF assms] by (simp only: wrapc_id)
qed

lemma cas_loop_ranged:
  "ranged ty ws \<Longrightarrow> 0 < c \<Longrightarrow> cas_loop ty False (ws_end ws) c (ws_next ws) [ws_next ws] =
    Some (if ws_next ws = ws_end ws then None else Some (ws_next ws, min (ws_next ws + c) (ws_end ws)))"
  by (rule cas_loop_once) (simp_all add: ranged_def)

interpretation long_pool: iteration_pool I64 "\<lambda>ws. 0 < ws_incr ws" "\<lambda>ws. ws_mode ws \<noteq> 0"
  gomp_iter_dynamic_next_locked_raw gomp_iter_dynamic_next_raw
proof
  fix ws :: gomp_work_share and c :: int
  assume u: "0 < ws_incr ws" and r: "ranged I64 ws" and c: "0 < c"
  show l: "gomp_iter_dynamic_next_locked_raw ws c = (if ws_next ws = ws_end ws then (None, ws)
        else (Some (ws_next ws, min (ws_next ws + c) (ws_end ws)), ws\<lparr>ws_next := min (ws_next ws + c) (ws_end ws)\<rparr>))"
    using u by (simp add: gomp_iter_dynamic_next_locked_raw_def Let_def capped_step [OF r c])
  assume m: "\<not> ws_mode ws \<noteq> 0"
  show "gomp_iter_dynamic_next_raw ws c = gomp_iter_dynamic_next_locked_raw ws c"
    using u m unfolding l by (simp add: gomp_iter_dynamic_next_raw_def cas_loop_ranged [OF r c])
next
  fix ws :: gomp_work_share and c :: int
  assume "0 < ws_incr ws" "ws_mode ws \<noteq> 0" "0 < c" "fits I64 (ws_next ws + c)"
  then show "gomp_iter_dynamic_next_raw ws c =
      (if ws_end ws \<le> ws_next ws then None else Some (ws_next ws, min (ws_next ws + c) (ws_end ws)), ws\<lparr>ws_next := ws_next ws + c\<rparr>)"
    by (simp add: gomp_iter_dynamic_next_raw_def Let_def min_def)
qed simp_all

interpretation ull_pool: iteration_pool U64 "\<lambda>ws. ws_mode ws AND 2 = 0" "\<lambda>ws. ws_mode ws AND 1 \<noteq> 0"
  gomp_iter_ull_dynamic_next_locked_raw gomp_iter_ull_dynamic_next_raw
proof
  fix ws :: gomp_work_share and c :: int
  assume u: "ws_mode ws AND 2 = 0" and r: "ranged U64 ws" and c: "0 < c"
  show l: "gomp_iter_ull_dynamic_next_locked_raw ws c = (if ws_next ws = ws_end ws then (None, ws)
        else (Some (ws_next ws, min (ws_next ws + c) (ws_end ws)), ws\<lparr>ws_next := min (ws_next ws + c) (ws_end ws)\<rparr>))"
    using u by (simp add: gomp_iter_ull_dynamic_next_locked_raw_def Let_def capped_step [OF r c])
  assume m: "\<not> ws_mode ws AND 1 \<noteq> 0"
  show "gomp_iter_ull_dynamic_next_raw ws c = gomp_iter_ull_dynamic_next_locked_raw ws c"
    using u m unfolding l by (simp add: gomp_iter_ull_dynamic_next_raw_def cas_loop_ranged [OF r c])
next
  fix ws :: gomp_work_share and c :: int
  assume "ws_mode ws AND 2 = 0" "ws_mode ws AND 1 \<noteq> 0" "0 < c" "fits U64 (ws_next ws + c)"
  then show "gomp_iter_ull_dynamic_next_raw ws c =
      (if ws_end ws \<le> ws_next ws then None else Some (ws_next ws, min (ws_next ws + c) (ws_end ws)), ws\<lparr>ws_next := ws_next ws + c\<rparr>)"
    by (simp add: gomp_iter_ull_dynamic_next_raw_def Let_def min_def)
qed simp_all


section \<open>The two-level schedule\<close>

text \<open>
  The work shares of the nodes and the global one. A null \<open>ws_lock\<close> is \<open>None\<close>: \<open>gomp_ptrlock_get\<close>
  returns null to exactly one thread, which initializes the work share while the others wait. A node's
  work share is only touched with its lock held; \<open>dpc\<close> says how far the holder of the lock has got.
\<close>

datatype dyn_pc = Idle | Refill | Retake

record dyn_state =
  dws :: "nat \<Rightarrow> gomp_work_share option"
  dglob :: "gomp_work_share option"
  dpc :: "nat \<Rightarrow> dyn_pc"

definition dyn_start :: dyn_state where
  "dyn_start = \<lparr>dws = (\<lambda>_. None), dglob = None, dpc = (\<lambda>_. Idle)\<rparr>"

text \<open>
  A node's work share starts empty, so that its threads go to the global one at once; \<open>mk a b\<close> is
  \<open>loop_init\<close> on the range from \<open>a\<close> to \<open>b\<close>.
\<close>

definition init_workshare_dynamic ::
  "(nat \<Rightarrow> int \<Rightarrow> int \<Rightarrow> gomp_work_share) \<Rightarrow> int \<Rightarrow> int \<Rightarrow> nat \<Rightarrow> dyn_state \<Rightarrow> dyn_state" where
  "init_workshare_dynamic mk lb ub n s =
     (case dws s n of
        Some _ \<Rightarrow> s
      | None \<Rightarrow>
          let s = (case dglob s of None \<Rightarrow> s\<lparr>dglob := Some (mk n lb ub)\<rparr> | Some _ \<Rightarrow> s) in
          s\<lparr>dws := (dws s)(n \<mapsto> mk n lb lb)\<rparr>)"

definition dynamic_share :: "(nat \<Rightarrow> int) \<Rightarrow> int \<Rightarrow> int \<Rightarrow> nat \<Rightarrow> int \<Rightarrow> int \<Rightarrow> gomp_work_share" where
  "dynamic_share tpn inc chunk n a b = loop_init a b inc GFS_HIERARCHY_DYNAMIC chunk (tpn n)"

definition dynamic_share_ull :: "(nat \<Rightarrow> int) \<Rightarrow> int \<Rightarrow> int \<Rightarrow> nat \<Rightarrow> int \<Rightarrow> int \<Rightarrow> gomp_work_share" where
  "dynamic_share_ull tpn inc chunk n a b = loop_init_ull True a b inc GFS_HIERARCHY_DYNAMIC chunk (tpn n)"

definition hierarchy_init_workshare_dynamic ::
  "(nat \<Rightarrow> int) \<Rightarrow> int \<Rightarrow> int \<Rightarrow> int \<Rightarrow> int \<Rightarrow> nat \<Rightarrow> dyn_state \<Rightarrow> dyn_state" where
  "hierarchy_init_workshare_dynamic tpn lb ub inc chunk = init_workshare_dynamic (dynamic_share tpn inc chunk) lb ub"

definition hierarchy_init_workshare_dynamic_ull ::
  "(nat \<Rightarrow> int) \<Rightarrow> int \<Rightarrow> int \<Rightarrow> int \<Rightarrow> int \<Rightarrow> nat \<Rightarrow> dyn_state \<Rightarrow> dyn_state" where
  "hierarchy_init_workshare_dynamic_ull tpn lb ub inc chunk = init_workshare_dynamic (dynamic_share_ull tpn inc chunk) lb ub"

text \<open>
  One call of \<open>hierarchy_next_dynamic\<close> on a node with \<open>t\<close> threads, from locking the node's work share
  to unlocking it: the chunk, the node's work share and the global one.
\<close>

definition next_dynamic ::
  "ctype \<Rightarrow> (gomp_work_share \<Rightarrow> int \<Rightarrow> (int \<times> int) option \<times> gomp_work_share) \<Rightarrow>
   (gomp_work_share \<Rightarrow> int \<Rightarrow> (int \<times> int) option \<times> gomp_work_share) \<Rightarrow> int \<Rightarrow> gomp_work_share \<Rightarrow> gomp_work_share \<Rightarrow>
   (int \<times> int) option \<times> gomp_work_share \<times> gomp_work_share" where
  "next_dynamic ty locked raw t ws glob =
     (let (r, ws) = locked ws (ws_chunk_size ws) in
      if r = None \<and> \<not> ws_threads_completed ws then
        let (r, glob) = raw glob (wrapc ty (ws_chunk_size ws * t)) in
        case r of
          Some (a, b) \<Rightarrow>
            let ws = ws\<lparr>ws_next := a, ws_end := b\<rparr>; (r, ws) = locked ws (ws_chunk_size ws) in (r, ws, glob)
        | None \<Rightarrow> (None, ws\<lparr>ws_threads_completed := True\<rparr>, glob)
      else (r, ws, glob))"

definition hierarchy_next_dynamic ::
  "int \<Rightarrow> gomp_work_share \<Rightarrow> gomp_work_share \<Rightarrow> (int \<times> int) option \<times> gomp_work_share \<times> gomp_work_share" where
  "hierarchy_next_dynamic = next_dynamic I64 gomp_iter_dynamic_next_locked_raw gomp_iter_dynamic_next_raw"

definition hierarchy_next_dynamic_ull ::
  "int \<Rightarrow> gomp_work_share \<Rightarrow> gomp_work_share \<Rightarrow> (int \<times> int) option \<times> gomp_work_share \<times> gomp_work_share" where
  "hierarchy_next_dynamic_ull = next_dynamic U64 gomp_iter_ull_dynamic_next_locked_raw gomp_iter_ull_dynamic_next_raw"

text \<open>
  The interleavings. A call of a thread on node \<open>n\<close> consists of the attempt on the node's work share,
  the access to the global one and the second attempt; other nodes may do anything in between. Events
  are what threads see: \<open>Enter n\<close> when the loop is initialized on \<open>n\<close>, \<open>Got n a b\<close> when a call returns
  the chunk from \<open>a\<close> to \<open>b\<close>, and \<open>Exhausted n\<close> when a call returns false.
\<close>

datatype dyn_event = Enter nat | Got nat int int | Exhausted nat | Internal

inductive dyn_step ::
  "ctype \<Rightarrow> (gomp_work_share \<Rightarrow> int \<Rightarrow> (int \<times> int) option \<times> gomp_work_share) \<Rightarrow>
   (gomp_work_share \<Rightarrow> int \<Rightarrow> (int \<times> int) option \<times> gomp_work_share) \<Rightarrow> (nat \<Rightarrow> int \<Rightarrow> int \<Rightarrow> gomp_work_share) \<Rightarrow>
   (nat \<Rightarrow> int) \<Rightarrow> nat set \<Rightarrow> int \<Rightarrow> int \<Rightarrow> dyn_state \<Rightarrow> dyn_event \<Rightarrow> dyn_state \<Rightarrow> bool"
  for ty locked raw mk tpn P lb ub where
  enter: "n \<in> P \<Longrightarrow> dyn_step ty locked raw mk tpn P lb ub s (Enter n) (init_workshare_dynamic mk lb ub n s)"
| got: "dpc s n = Idle \<Longrightarrow> dws s n = Some ws \<Longrightarrow> locked ws (ws_chunk_size ws) = (Some (a, b), ws') \<Longrightarrow>
    dyn_step ty locked raw mk tpn P lb ub s (Got n a b) (s\<lparr>dws := (dws s)(n \<mapsto> ws')\<rparr>)"
| exhausted: "dpc s n = Idle \<Longrightarrow> dws s n = Some ws \<Longrightarrow> locked ws (ws_chunk_size ws) = (None, ws') \<Longrightarrow>
    ws_threads_completed ws' \<Longrightarrow>
    dyn_step ty locked raw mk tpn P lb ub s (Exhausted n) (s\<lparr>dws := (dws s)(n \<mapsto> ws')\<rparr>)"
| empty: "dpc s n = Idle \<Longrightarrow> dws s n = Some ws \<Longrightarrow> locked ws (ws_chunk_size ws) = (None, ws') \<Longrightarrow>
    \<not> ws_threads_completed ws' \<Longrightarrow>
    dyn_step ty locked raw mk tpn P lb ub s Internal (s\<lparr>dws := (dws s)(n \<mapsto> ws'), dpc := (dpc s)(n := Refill)\<rparr>)"
| replenish: "dpc s n = Refill \<Longrightarrow> dws s n = Some ws \<Longrightarrow> dglob s = Some g \<Longrightarrow>
    raw g (wrapc ty (ws_chunk_size ws * tpn n)) = (Some (a, b), g') \<Longrightarrow>
    dyn_step ty locked raw mk tpn P lb ub s Internal
      (s\<lparr>dws := (dws s)(n \<mapsto> ws\<lparr>ws_next := a, ws_end := b\<rparr>), dglob := Some g', dpc := (dpc s)(n := Retake)\<rparr>)"
| drained: "dpc s n = Refill \<Longrightarrow> dws s n = Some ws \<Longrightarrow> dglob s = Some g \<Longrightarrow>
    raw g (wrapc ty (ws_chunk_size ws * tpn n)) = (None, g') \<Longrightarrow>
    dyn_step ty locked raw mk tpn P lb ub s (Exhausted n)
      (s\<lparr>dws := (dws s)(n \<mapsto> ws\<lparr>ws_threads_completed := True\<rparr>), dglob := Some g', dpc := (dpc s)(n := Idle)\<rparr>)"
| retake: "dpc s n = Retake \<Longrightarrow> dws s n = Some ws \<Longrightarrow> locked ws (ws_chunk_size ws) = (Some (a, b), ws') \<Longrightarrow>
    dyn_step ty locked raw mk tpn P lb ub s (Got n a b) (s\<lparr>dws := (dws s)(n \<mapsto> ws'), dpc := (dpc s)(n := Idle)\<rparr>)"
| retake_none: "dpc s n = Retake \<Longrightarrow> dws s n = Some ws \<Longrightarrow> locked ws (ws_chunk_size ws) = (None, ws') \<Longrightarrow>
    dyn_step ty locked raw mk tpn P lb ub s (Exhausted n) (s\<lparr>dws := (dws s)(n \<mapsto> ws'), dpc := (dpc s)(n := Idle)\<rparr>)"

inductive dyn_run ::
  "(dyn_state \<Rightarrow> dyn_event \<Rightarrow> dyn_state \<Rightarrow> bool) \<Rightarrow> dyn_state \<Rightarrow> dyn_event list \<Rightarrow> dyn_state \<Rightarrow> bool"
  for step s where
  run_nil: "dyn_run step s [] s"
| run_snoc: "dyn_run step s es t \<Longrightarrow> step t e u \<Longrightarrow> dyn_run step s (es @ [e]) u"

text \<open>The iterations the compiler's loop over a chunk executes.\<close>

fun event_iters :: "int \<Rightarrow> dyn_event \<Rightarrow> int list" where
  "event_iters inc (Got n a b) = loop_iters a (b - 1) inc"
| "event_iters inc _ = []"

definition handed_out :: "int \<Rightarrow> dyn_event list \<Rightarrow> int list" where
  "handed_out inc es = concat (map (event_iters inc) es)"

text \<open>A call that is not interrupted is a run of the steps.\<close>

lemma next_dynamic_run:
  assumes "dpc s n = Idle" "dws s n = Some ws" "dglob s = Some g" "next_dynamic ty locked raw (tpn n) ws g = (r, ws', g')"
  shows "\<exists>es. dyn_run (dyn_step ty locked raw mk tpn P lb ub) s
      (es @ [case r of Some (a, b) \<Rightarrow> Got n a b | None \<Rightarrow> Exhausted n])
      (s\<lparr>dws := (dws s)(n \<mapsto> ws'), dglob := Some g', dpc := (dpc s)(n := Idle)\<rparr>)
    \<and> set es \<subseteq> {Internal}"
proof -
  let ?step = "dyn_step ty locked raw mk tpn P lb ub"
  let ?run = "dyn_run (dyn_step ty locked raw mk tpn P lb ub) s"
  have idle: "(dpc s)(n := Idle) = dpc s" using assms(1) by auto
  have same: "s\<lparr>dglob := Some g\<rparr> = s" using assms(3) by simp
  obtain r1 ws1 where l1: "locked ws (ws_chunk_size ws) = (r1, ws1)" by fastforce
  show ?thesis
  proof (cases "r1 = None \<and> \<not> ws_threads_completed ws1")
    case False
    have s: "s\<lparr>dws := (dws s)(n \<mapsto> ws1), dglob := Some g, dpc := (dpc s)(n := Idle)\<rparr> = s\<lparr>dws := (dws s)(n \<mapsto> ws1)\<rparr>"
      unfolding idle using assms(3) by simp
    have "r = r1" "ws' = ws1" "g' = g" using assms(4) False by (auto simp: next_dynamic_def l1 Let_def)
    moreover have "?step s (case r1 of Some (a, b) \<Rightarrow> Got n a b | None \<Rightarrow> Exhausted n) (s\<lparr>dws := (dws s)(n \<mapsto> ws1)\<rparr>)"
      using dyn_step.got [OF assms(1,2)] dyn_step.exhausted [OF assms(1,2)] l1 False by (cases r1) auto
    from run_snoc [of ?step, OF run_nil this]
    have "?run [case r1 of Some (a, b) \<Rightarrow> Got n a b | None \<Rightarrow> Exhausted n] (s\<lparr>dws := (dws s)(n \<mapsto> ws1)\<rparr>)" by simp
    ultimately show ?thesis using s by (intro exI [of _ "[]"]) simp
  next
    case True
    let ?t = "s\<lparr>dws := (dws s)(n \<mapsto> ws1), dpc := (dpc s)(n := Refill)\<rparr>"
    have "?step s Internal ?t" using dyn_step.empty [OF assms(1,2)] l1 True by simp
    from run_snoc [of ?step, OF run_nil this] have t: "?run [Internal] ?t" by simp
    obtain r2 g2 where l2: "raw g (wrapc ty (ws_chunk_size ws1 * tpn n)) = (r2, g2)" by fastforce
    have st: "dpc ?t n = Refill" "dws ?t n = Some ws1" "dglob ?t = Some g" using assms(3) by auto
    show ?thesis
    proof (cases r2)
      case None
      let ?u = "s\<lparr>dws := (dws s)(n \<mapsto> ws1\<lparr>ws_threads_completed := True\<rparr>), dglob := Some g2, dpc := (dpc s)(n := Idle)\<rparr>"
      have "r = None" "ws' = ws1\<lparr>ws_threads_completed := True\<rparr>" "g' = g2"
        using assms(4) True None by (auto simp: next_dynamic_def l1 l2 Let_def)
      moreover have "?step ?t (Exhausted n) ?u" using dyn_step.drained [OF st] l2 None by simp
      from run_snoc [OF t this] have "?run [Internal, Exhausted n] ?u" by simp
      ultimately show ?thesis by (intro exI [of _ "[Internal]"]) simp
    next
      case (Some ab)
      obtain a b where ab: "ab = (a, b)" by (cases ab)
      let ?w = "ws1\<lparr>ws_next := a, ws_end := b\<rparr>"
      let ?u = "s\<lparr>dws := (dws s)(n \<mapsto> ?w), dglob := Some g2, dpc := (dpc s)(n := Retake)\<rparr>"
      have "?step ?t Internal ?u" using dyn_step.replenish [OF st] l2 Some ab by simp
      from run_snoc [OF t this] have u: "?run [Internal, Internal] ?u" by simp
      obtain r3 ws3 where l3: "locked ?w (ws_chunk_size ?w) = (r3, ws3)" by fastforce
      let ?v = "s\<lparr>dws := (dws s)(n \<mapsto> ws3), dglob := Some g2, dpc := (dpc s)(n := Idle)\<rparr>"
      have su: "dpc ?u n = Retake" "dws ?u n = Some ?w" by auto
      have v: "?u\<lparr>dws := (dws ?u)(n \<mapsto> ws3), dpc := (dpc ?u)(n := Idle)\<rparr> = ?v" by (rule dyn_state.equality) simp_all
      have r: "r = r3" "ws' = ws3" "g' = g2"
        using assms(4) True Some ab l3 by (auto simp: next_dynamic_def l1 l2 Let_def)
      have "?step ?u (case r3 of Some (a, b) \<Rightarrow> Got n a b | None \<Rightarrow> Exhausted n) ?v"
        using dyn_step.retake [OF su, of locked _ _ ws3, unfolded v] dyn_step.retake_none [OF su, of locked ws3, unfolded v] l3
        by (cases r3) auto
      from run_snoc [OF u this] show ?thesis using r by (intro exI [of _ "[Internal, Internal]"]) simp
    qed
  qed
qed

end
