(* ===== verification/Omp_Dynamic_Correct.thy ===== *)
theory Omp_Dynamic_Correct
  imports Omp_Dynamic
begin

text \<open>
  Correctness of the hierarchical dynamic schedule: in every interleaving the chunks handed out, what is
  left in the work shares of the nodes and what is left in the global one make up the loop, so that no
  iteration is handed out twice, none is invented, and all have been handed out when every node that
  takes part has been told that there is no more work.
\<close>

section \<open>The invariant\<close>

text \<open>
  A loop that counts upwards, whose bounds, length and chunks are values of the type. \<open>room_ok\<close> is what \<open>loop_init\<close> means
  its test for overflow to ensure: when it chooses the access to the global work share that adds without a check, the
  type has room for what all nodes can add behind the end of the loop.
\<close>

definition dyn_params ::
  "ctype \<Rightarrow> int \<Rightarrow> int \<Rightarrow> int \<Rightarrow> int \<Rightarrow> (nat \<Rightarrow> int) \<Rightarrow> nat set \<Rightarrow> bool" where
  "dyn_params ty lb E inc cs tpn P \<longleftrightarrow> finite P \<and> 0 < inc \<and> 0 < cs \<and> cs mod inc = 0 \<and> (\<forall>n \<in> P. 0 < tpn n) \<and> lb \<le> E \<and>
     fits ty lb \<and> fits ty E \<and> fits ty (E - lb) \<and> (\<forall>n \<in> P. fits ty (cs * tpn n))"

definition room_ok ::
  "ctype \<Rightarrow> (gomp_work_share \<Rightarrow> bool) \<Rightarrow> (nat \<Rightarrow> int \<Rightarrow> int \<Rightarrow> gomp_work_share) \<Rightarrow> int \<Rightarrow> int \<Rightarrow> int \<Rightarrow> (nat \<Rightarrow> int) \<Rightarrow> nat set \<Rightarrow> bool" where
  "room_ok ty adds mk lb ub cs tpn P \<longleftrightarrow>
     (\<forall>n \<in> P. adds (mk n lb ub) \<longrightarrow> fits ty (max lb ub + 2 * (\<Sum>m\<in>P. cs * tpn m)))"

definition share_ok :: "ctype \<Rightarrow> (gomp_work_share \<Rightarrow> bool) \<Rightarrow> int \<Rightarrow> int \<Rightarrow> int \<Rightarrow> int \<Rightarrow> gomp_work_share \<Rightarrow> bool" where
  "share_ok ty upward lb E inc cs ws \<longleftrightarrow> upward ws \<and> ws_chunk_size ws = cs \<and> lb \<le> ws_next ws \<and> ws_next ws \<le> ws_end ws \<and>
     ws_end ws \<le> E \<and> (ws_next ws < ws_end ws \<longrightarrow> (ws_next ws - lb) mod inc = 0)"

definition node_inv ::
  "ctype \<Rightarrow> (gomp_work_share \<Rightarrow> bool) \<Rightarrow> int \<Rightarrow> int \<Rightarrow> int \<Rightarrow> int \<Rightarrow> gomp_work_share option \<Rightarrow> dyn_pc \<Rightarrow> bool" where
  "node_inv ty upward lb E inc cs w pc \<longleftrightarrow>
     (case w of
        None \<Rightarrow> pc = Idle
      | Some ws \<Rightarrow> share_ok ty upward lb E inc cs ws \<and>
          (ws_threads_completed ws \<longrightarrow> ws_next ws = ws_end ws \<and> pc = Idle) \<and>
          (pc = Refill \<longrightarrow> ws_next ws = ws_end ws) \<and> (pc = Retake \<longrightarrow> ws_next ws < ws_end ws))"

text \<open>The nodes that have been told that the global work share is used up.\<close>

definition told :: "dyn_state \<Rightarrow> nat set" where
  "told s = {n. \<exists>ws. dws s n = Some ws \<and> ws_threads_completed ws}"

definition glob_inv ::
  "ctype \<Rightarrow> (gomp_work_share \<Rightarrow> bool) \<Rightarrow> (gomp_work_share \<Rightarrow> bool) \<Rightarrow> int \<Rightarrow> int \<Rightarrow> int \<Rightarrow> int \<Rightarrow> (nat \<Rightarrow> int) \<Rightarrow> nat set \<Rightarrow> dyn_state \<Rightarrow> bool" where
  "glob_inv ty upward adds lb E inc cs tpn P s \<longleftrightarrow>
     (case dglob s of
        None \<Rightarrow> \<forall>n. dws s n = None
      | Some g \<Rightarrow> upward g \<and> ws_end g = E \<and> lb \<le> ws_next g \<and> (adds g \<or> ws_next g \<le> E) \<and>
          (adds g \<longrightarrow> fits ty (E + 2 * (\<Sum>n\<in>P. cs * tpn n))) \<and>
          ws_next g \<le> E + (\<Sum>n\<in>P. cs * tpn n) + (\<Sum>n\<in>P \<inter> told s. cs * tpn n) \<and>
          (ws_next g < E \<longrightarrow> (ws_next g - lb) mod inc = 0) \<and> (told s \<noteq> {} \<longrightarrow> E \<le> ws_next g))"

text \<open>Iterations as numbers: what is left in a work share, and what an event handed out.\<close>

definition left :: "gomp_work_share option \<Rightarrow> int multiset" where
  "left w = (case w of None \<Rightarrow> {#} | Some ws \<Rightarrow> mset_set {ws_next ws..<ws_end ws})"

definition glob_left :: "int \<Rightarrow> int \<Rightarrow> gomp_work_share option \<Rightarrow> int multiset" where
  "glob_left lb E w = (case w of None \<Rightarrow> mset_set {lb..<E} | Some g \<Rightarrow> mset_set {ws_next g..<E})"

fun event_range :: "dyn_event \<Rightarrow> int multiset" where
  "event_range (Got n a b) = mset_set {a..<b}"
| "event_range _ = {#}"

fun event_ok :: "int \<Rightarrow> int \<Rightarrow> dyn_event \<Rightarrow> bool" where
  "event_ok lb inc (Got n a b) \<longleftrightarrow> a < b \<and> (a - lb) mod inc = 0"
| "event_ok lb inc _ \<longleftrightarrow> True"

definition dyn_inv ::
  "ctype \<Rightarrow> (gomp_work_share \<Rightarrow> bool) \<Rightarrow> (gomp_work_share \<Rightarrow> bool) \<Rightarrow> int \<Rightarrow> int \<Rightarrow> int \<Rightarrow> int \<Rightarrow> (nat \<Rightarrow> int) \<Rightarrow> nat set \<Rightarrow>
   dyn_event list \<Rightarrow> dyn_state \<Rightarrow> bool" where
  "dyn_inv ty upward adds lb E inc cs tpn P es s \<longleftrightarrow>
     (\<forall>n. node_inv ty upward lb E inc cs (dws s n) (dpc s n)) \<and> (\<forall>n. n \<notin> P \<longrightarrow> dws s n = None) \<and>
     glob_inv ty upward adds lb E inc cs tpn P s \<and> (\<forall>e \<in> set es. event_ok lb inc e) \<and>
     sum_list (map event_range es) + (\<Sum>n\<in>P. left (dws s n)) + glob_left lb E (dglob s) = mset_set {lb..<E}"

section \<open>Arithmetic of the invariant\<close>

lemma split_range:
  fixes a m b :: int
  assumes "a \<le> m" "m \<le> b"
  shows "mset_set {a..<b} = mset_set {a..<m} + mset_set {m..<b}"
proof -
  have "{a..<b} = {a..<m} \<union> {m..<b}" "{a..<m} \<inter> {m..<b} = {}" using assms by auto
  then show ?thesis by (simp add: mset_set_Union)
qed

lemma left_update:
  assumes "finite P" "n \<in> P"
  shows "(\<Sum>m\<in>P. left (((dws s)(n := w)) m)) = (\<Sum>m\<in>P - {n}. left (dws s m)) + left w"
    and "(\<Sum>m\<in>P. left (dws s m)) = (\<Sum>m\<in>P - {n}. left (dws s m)) + left (dws s n)"
  using assms by (simp_all add: sum.remove [of P n])

lemma aligned_step: "(x - lb) mod inc = 0 \<Longrightarrow> c mod inc = 0 \<Longrightarrow> (x + c - lb) mod (inc :: int) = 0"
  by (metis add_diff_eq diff_add_eq mod_add_self2 add.commute dvd_add mod_0_imp_dvd dvd_imp_mod_0)

lemma dyn_paramsD:
  assumes "dyn_params ty lb E inc cs tpn P"
  shows "finite P" "0 < inc" "0 < cs" "cs mod inc = 0" "lb \<le> E" "fits ty lb" "fits ty E" "fits ty (E - lb)"
    "n \<in> P \<Longrightarrow> 0 < cs * tpn n" "n \<in> P \<Longrightarrow> cs * tpn n \<le> (\<Sum>n\<in>P. cs * tpn n)" "n \<in> P \<Longrightarrow> wrapc ty (cs * tpn n) = cs * tpn n"
    "cs * tpn n mod inc = 0" "Q \<subseteq> P \<Longrightarrow> 0 \<le> (\<Sum>n\<in>Q. cs * tpn n)" "Q \<subseteq> P \<Longrightarrow> (\<Sum>n\<in>Q. cs * tpn n) \<le> (\<Sum>n\<in>P. cs * tpn n)"
proof -
  show p: "finite P" "0 < inc" "0 < cs" "cs mod inc = 0" "lb \<le> E" "fits ty lb" "fits ty E" "fits ty (E - lb)"
    using assms unfolding dyn_params_def by blast+
  have pos: "0 < cs * tpn n" if "n \<in> P" for n using assms that by (simp add: dyn_params_def)
  show pos': "n \<in> P \<Longrightarrow> 0 < cs * tpn n" using pos .
  show sums: "0 \<le> (\<Sum>n\<in>Q. cs * tpn n)" "(\<Sum>n\<in>Q. cs * tpn n) \<le> (\<Sum>n\<in>P. cs * tpn n)" if "Q \<subseteq> P" for Q
  proof -
    have "0 \<le> cs * tpn n" if "n \<in> P" for n using pos [OF that] by simp
    then show "0 \<le> (\<Sum>n\<in>Q. cs * tpn n)" "(\<Sum>n\<in>Q. cs * tpn n) \<le> (\<Sum>n\<in>P. cs * tpn n)"
      using that p(1) by (auto intro!: sum_nonneg sum_mono2)
  qed
  show le: "n \<in> P \<Longrightarrow> cs * tpn n \<le> (\<Sum>n\<in>P. cs * tpn n)" using sums(2) [of "{n}"] by simp
  show "n \<in> P \<Longrightarrow> wrapc ty (cs * tpn n) = cs * tpn n" using assms by (simp add: dyn_params_def)
  show "cs * tpn n mod inc = 0" using p(4) by (metis mod_mult_left_eq mult_zero_left mod_0)
qed

lemma share_ranged:
  assumes "dyn_params ty lb E inc cs tpn P" "lb \<le> ws_next ws" "ws_next ws \<le> ws_end ws" "ws_end ws \<le> E"
  shows "ranged ty ws"
proof -
  note d = dyn_paramsD [OF assms(1)]
  have "fits ty (ws_next ws)" "fits ty (ws_end ws)" using assms by (auto intro: fits_mono [OF d(6,7)])
  moreover have "fits ty (ws_end ws - ws_next ws)" using assms by (intro fits_mono [OF fits_0 d(8)]) auto
  ultimately show ?thesis using assms(3) by (simp add: ranged_def)
qed


section \<open>Every step keeps the invariant\<close>

lemma told_update: "dws t = (dws s)(n := Some w) \<Longrightarrow> told t = (if ws_threads_completed w then insert n (told s) else told s - {n})"
  by (auto simp: told_def)

lemma told_subset: "\<forall>n. n \<notin> P \<longrightarrow> dws s n = None \<Longrightarrow> told s \<subseteq> P"
  by (force simp: told_def)

lemma left_Some [simp]: "left (Some w) = mset_set {ws_next w..<ws_end w}"
  and left_None [simp]: "left None = {#}"
  by (simp_all add: left_def)

definition mk_ok ::
  "(gomp_work_share \<Rightarrow> bool) \<Rightarrow> (nat \<Rightarrow> int \<Rightarrow> int \<Rightarrow> gomp_work_share) \<Rightarrow> nat set \<Rightarrow> int \<Rightarrow> int \<Rightarrow> int \<Rightarrow> bool" where
  "mk_ok upward mk P lb ub cs \<longleftrightarrow> (\<forall>n \<in> P. \<forall>x \<in> {lb, ub}. upward (mk n lb x) \<and> ws_chunk_size (mk n lb x) = cs \<and>
     ws_next (mk n lb x) = lb \<and> ws_end (mk n lb x) = max lb x \<and> \<not> ws_threads_completed (mk n lb x))"

context iteration_pool
begin

lemma dyn_inv_enter:
  assumes d: "dyn_params ty lb E inc cs tpn P" and mk: "mk_ok upward mk P lb ub cs" and E: "E = max lb ub"
    and room: "room_ok ty adds mk lb ub cs tpn P" and inv: "dyn_inv ty upward adds lb E inc cs tpn P es s" and n: "n \<in> P"
  shows "dyn_inv ty upward adds lb E inc cs tpn P (es @ [Enter n]) (init_workshare_dynamic mk lb ub n s)"
proof (cases "dws s n")
  case (Some w)
  then show ?thesis using inv by (auto simp: init_workshare_dynamic_def dyn_inv_def)
next
  case None
  note p = dyn_paramsD [OF d]
  have m: "upward (mk n lb x)" "ws_chunk_size (mk n lb x) = cs" "ws_next (mk n lb x) = lb" "ws_end (mk n lb x) = max lb x"
      "\<not> ws_threads_completed (mk n lb x)" if "x \<in> {lb, ub}" for x
    using mk n that by (auto simp: mk_ok_def)
  let ?t = "init_workshare_dynamic mk lb ub n s"
  have t: "dws ?t = (dws s)(n := Some (mk n lb lb))" "dpc ?t = dpc s"
      "dglob ?t = (case dglob s of None \<Rightarrow> Some (mk n lb ub) | Some g \<Rightarrow> Some g)"
    using None by (simp_all add: init_workshare_dynamic_def split: option.split)
  have idle: "dpc s n = Idle" using inv None by (auto simp: dyn_inv_def node_inv_def dest: spec [of _ n])
  have told: "told ?t = told s" using told_update [OF t(1)] m(5) [of lb] None by (auto simp: told_def)
  have node: "node_inv ty upward lb E inc cs (dws ?t k) (dpc ?t k)" for k
    using inv m [of lb] idle p(5) by (auto simp: dyn_inv_def t node_inv_def share_ok_def)
  have glob: "glob_inv ty upward adds lb E inc cs tpn P ?t"
  proof (cases "dglob s")
    case (Some g)
    then show ?thesis using inv by (simp add: dyn_inv_def glob_inv_def t(3) told)
  next
    case None
    then have "told s = {}" using inv by (auto simp: dyn_inv_def glob_inv_def told_def)
    then show ?thesis using None m [of ub] E p(5) p(13) [of P] room n by (auto simp: glob_inv_def t(3) told room_ok_def)
  qed
  have l: "(\<Sum>k\<in>P. left (dws ?t k)) = (\<Sum>k\<in>P. left (dws s k))"
    using left_update(1) [OF p(1) n, of s] left_update(2) [OF p(1) n, of s] None m [of lb] by (simp add: t(1))
  have "glob_left lb E (dglob ?t) = glob_left lb E (dglob s)"
    using m [of ub] E by (cases "dglob s") (simp_all add: t(3) glob_left_def)
  then show ?thesis using inv n node glob l by (auto simp: dyn_inv_def t(1))
qed

text \<open>Taking from the work share of a node, in either attempt.\<close>

lemma dyn_inv_take:
  assumes d: "dyn_params ty lb E inc cs tpn P" and inv: "dyn_inv ty upward adds lb E inc cs tpn P es s"
    and w: "dws s n = Some ws" and l: "locked ws (ws_chunk_size ws) = (Some (a, b), ws')"
    and t: "dws t = (dws s)(n \<mapsto> ws')" "dglob t = dglob s" "dpc t = (dpc s)(n := Idle)"
  shows "dyn_inv ty upward adds lb E inc cs tpn P (es @ [Got n a b]) t"
proof -
  note p = dyn_paramsD [OF d]
  have n: "n \<in> P" using inv w by (auto simp: dyn_inv_def)
  have node: "node_inv ty upward lb E inc cs (Some ws) (dpc s n)" using inv w by (metis dyn_inv_def)
  then have ok: "share_ok ty upward lb E inc cs ws" by (simp add: node_inv_def)
  have r: "ranged ty ws" using share_ranged [OF d] ok by (simp add: share_ok_def)
  have lk: "locked ws cs = (if ws_next ws = ws_end ws then (None, ws)
        else (Some (ws_next ws, min (ws_next ws + cs) (ws_end ws)), ws\<lparr>ws_next := min (ws_next ws + cs) (ws_end ws)\<rparr>))"
    using locked [OF _ r p(3)] ok by (simp add: share_ok_def)
  have ab: "ws_next ws < ws_end ws" "a = ws_next ws" "b = min (ws_next ws + cs) (ws_end ws)" "ws' = ws\<lparr>ws_next := b\<rparr>"
    using l lk ok by (auto simp: share_ok_def split: if_splits)
  have b: "a < b" "b \<le> ws_end ws" "b < ws_end ws \<longrightarrow> (b - lb) mod inc = 0" "(a - lb) mod inc = 0" "lb \<le> b"
    using ab p(3) ok aligned_step [of "ws_next ws" lb inc cs] p(4) by (auto simp: share_ok_def min_def)
  have nc: "\<not> ws_threads_completed ws" using node ab(1) by (auto simp: node_inv_def)
  have told: "told t = told s" using told_update [OF t(1)] nc w by (auto simp: ab(4) told_def)
  have "node_inv ty upward lb E inc cs (dws t k) (dpc t k)" for k
    using inv ok b nc kinds(1) [of b ws] by (auto simp: t dyn_inv_def node_inv_def share_ok_def ab(4))
  moreover have "glob_inv ty upward adds lb E inc cs tpn P t"
    using inv w by (auto simp: dyn_inv_def glob_inv_def t(2) told split: option.splits)
  moreover have "left (dws s n) = mset_set {a..<b} + left (dws t n)"
    using split_range [of a b "ws_end ws"] b(1,2) by (simp add: w t(1) ab(4)) (simp add: ab(2))
  ultimately show ?thesis
    using inv n b left_update(1) [OF p(1) n, of s "Some ws'"] left_update(2) [OF p(1) n, of s] by (auto simp: dyn_inv_def t(1,2) ac_simps)
qed

lemma dyn_inv_none:
  assumes d: "dyn_params ty lb E inc cs tpn P" and inv: "dyn_inv ty upward adds lb E inc cs tpn P es s"
    and w: "dws s n = Some ws" and l: "locked ws (ws_chunk_size ws) = (None, ws')"
  shows "ws' = ws" "ws_next ws = ws_end ws" "dpc s n \<noteq> Retake"
proof -
  have node: "node_inv ty upward lb E inc cs (Some ws) (dpc s n)" using inv w by (metis dyn_inv_def)
  then have ok: "share_ok ty upward lb E inc cs ws" by (simp add: node_inv_def)
  have r: "ranged ty ws" using share_ranged [OF d] ok by (simp add: share_ok_def)
  show "ws' = ws" "ws_next ws = ws_end ws"
    using locked [OF _ r dyn_paramsD(3) [OF d]] ok l by (auto simp: share_ok_def split: if_splits)
  then show "dpc s n \<noteq> Retake" using node by (auto simp: node_inv_def)
qed

lemma dyn_inv_quiet:
  assumes inv: "dyn_inv ty upward adds lb E inc cs tpn P es s"
    and t: "dws t = dws s" "dglob t = dglob s" "dpc t = (dpc s)(n := pc)"
    and w: "dws s n = Some ws" "ws_next ws = ws_end ws" "pc = Idle \<or> pc = Refill \<and> \<not> ws_threads_completed ws"
    and e: "event_range e = {#}" "event_ok lb inc e"
  shows "dyn_inv ty upward adds lb E inc cs tpn P (es @ [e]) t"
proof -
  have "told t = told s" using t(1) by (simp add: told_def)
  moreover have "node_inv ty upward lb E inc cs (dws t k) (dpc t k)" for k
    using inv w by (cases "k = n") (auto simp: t dyn_inv_def node_inv_def dest: spec [of _ n] spec [of _ k])
  ultimately show ?thesis using inv e by (cases "dglob s") (auto simp: dyn_inv_def t(1,2) glob_inv_def)
qed

end


context iteration_pool
begin

text \<open>What an access to the global work share finds and leaves.\<close>

lemma dyn_inv_raw:
  assumes d: "dyn_params ty lb E inc cs tpn P" and inv: "dyn_inv ty upward adds lb E inc cs tpn P es s"
    and w: "dws s n = Some ws" and pc: "dpc s n = Refill" and g: "dglob s = Some g"
    and r: "raw g (wrapc ty (ws_chunk_size ws * tpn n)) = (res, g')"
  obtains x where "n \<in> P" "g' = g\<lparr>ws_next := x\<rparr>" "n \<notin> told s" "ws_next ws = ws_end ws" "ws_end g = E"
    "res = (if E \<le> ws_next g then None else Some (ws_next g, min (ws_next g + cs * tpn n) E))"
    "adds g \<and> x = ws_next g + cs * tpn n \<or> \<not> adds g \<and> x = min (ws_next g + cs * tpn n) E"
proof -
  note p = dyn_paramsD [OF d]
  have n: "n \<in> P" using inv w by (auto simp: dyn_inv_def)
  have node: "node_inv ty upward lb E inc cs (Some ws) Refill" using inv w pc by (metis dyn_inv_def)
  have nt: "n \<notin> told s" using node w by (auto simp: told_def node_inv_def)
  have gi: "upward g" "ws_end g = E" "lb \<le> ws_next g" "adds g \<or> ws_next g \<le> E"
      "ws_next g \<le> E + (\<Sum>n\<in>P. cs * tpn n) + (\<Sum>n\<in>P \<inter> told s. cs * tpn n)"
    using inv g by (auto simp: dyn_inv_def glob_inv_def)
  have hr: "adds g \<Longrightarrow> fits ty (E + 2 * (\<Sum>n\<in>P. cs * tpn n))"
    using inv g by (auto simp: dyn_inv_def glob_inv_def)
  have "(\<Sum>n\<in>P \<inter> told s. cs * tpn n) + cs * tpn n = (\<Sum>n\<in>insert n (P \<inter> told s). cs * tpn n)"
    using nt p(1) by simp
  also have "\<dots> \<le> (\<Sum>n\<in>P. cs * tpn n)" using n by (intro p(14)) auto
  finally have b: "ws_next g + cs * tpn n \<le> E + 2 * (\<Sum>n\<in>P. cs * tpn n)" using gi(5) by simp
  have f: "fits ty (ws_next g + cs * tpn n)" if "adds g"
    using b gi(3) p(9) [OF n] by (intro fits_mono [OF p(6) hr [OF that]]) auto
  have rg: "adds g \<or> ranged ty g" using share_ranged [OF d, of g] gi by auto
  have c: "wrapc ty (ws_chunk_size ws * tpn n) = cs * tpn n"
    using node p(11) [OF n] by (simp add: node_inv_def share_ok_def)
  obtain x where x: "raw g (cs * tpn n) = (if ws_end g \<le> ws_next g then None else Some (ws_next g, min (ws_next g + cs * tpn n) (ws_end g)),
      g\<lparr>ws_next := x\<rparr>)" "adds g \<and> x = ws_next g + cs * tpn n \<or> \<not> adds g \<and> x = min (ws_next g + cs * tpn n) (ws_end g)"
    using raw_result [OF gi(1) rg p(9) [OF n] f] by blast
  have "ws_next ws = ws_end ws" using node by (simp add: node_inv_def)
  then show ?thesis
    using x r unfolding c gi(2) by (intro that [OF n _ nt _ gi(2), of x]) simp_all
qed

lemma dyn_inv_replenish:
  assumes d: "dyn_params ty lb E inc cs tpn P" and inv: "dyn_inv ty upward adds lb E inc cs tpn P es s"
    and w: "dws s n = Some ws" and pc: "dpc s n = Refill" and g: "dglob s = Some g"
    and r: "raw g (wrapc ty (ws_chunk_size ws * tpn n)) = (Some (a, b), g')"
    and t: "dws t = (dws s)(n \<mapsto> ws\<lparr>ws_next := a, ws_end := b\<rparr>)" "dglob t = Some g'" "dpc t = (dpc s)(n := Retake)"
  shows "dyn_inv ty upward adds lb E inc cs tpn P (es @ [Internal]) t"
proof -
  note p = dyn_paramsD [OF d]
  obtain x where x0: "n \<in> P" "g' = g\<lparr>ws_next := x\<rparr>" "n \<notin> told s" "ws_next ws = ws_end ws" "ws_end g = E"
      "Some (a, b) = (if E \<le> ws_next g then None else Some (ws_next g, min (ws_next g + cs * tpn n) E))"
      "adds g \<and> x = ws_next g + cs * tpn n \<or> \<not> adds g \<and> x = min (ws_next g + cs * tpn n) E"
    by (rule dyn_inv_raw [OF d inv w pc g r])
  have "ws_next g < E" "a = ws_next g" "b = min (ws_next g + cs * tpn n) E" using x0(6) by (simp_all split: if_splits)
  note x = x0(1-5) this x0(7)
  have gi: "upward g" "lb \<le> ws_next g" "adds g \<or> ws_next g \<le> E" "(ws_next g - lb) mod inc = 0" "told s = {}"
      "adds g \<longrightarrow> fits ty (E + 2 * (\<Sum>n\<in>P. cs * tpn n))"
    using inv g x(6) by (auto simp: dyn_inv_def glob_inv_def)
  note c = p(9,10) [OF x(1)]
  have ab: "lb \<le> a" "a < b" "b \<le> E" "(a - lb) mod inc = 0" using gi x(6,7,8) c by auto
  have nc: "\<not> ws_threads_completed ws" using x(3) w by (auto simp: told_def)
  have told: "told t = {}" using told_update [OF t(1)] nc gi(5) by simp
  have al: "(ws_next g + cs * tpn n - lb) mod inc = 0" using aligned_step [OF gi(4) p(12)] .
  have "node_inv ty upward lb E inc cs (dws t k) (dpc t k)" for k
  proof (cases "k = n")
    case True
    have "share_ok ty upward lb E inc cs ws" using inv w by (auto simp: dyn_inv_def node_inv_def dest: spec [of _ n])
    then show ?thesis using True ab nc kinds by (simp add: t node_inv_def share_ok_def)
  qed (use inv in \<open>simp add: t dyn_inv_def\<close>)
  moreover have "glob_inv ty upward adds lb E inc cs tpn P t"
    using x gi c al kinds told by (auto simp: glob_inv_def t(2) min_def split: if_splits)
  moreover have "(\<Sum>k\<in>P. left (dws t k)) + glob_left lb E (dglob t) = (\<Sum>k\<in>P. left (dws s k)) + glob_left lb E (dglob s)"
  proof -
    have "mset_set {x..<E} = mset_set {b..<E}" using x(8,9) by (auto simp: min_def)
    then have "left (dws t n) + glob_left lb E (dglob t) = glob_left lb E (dglob s) + left (dws s n)"
      using split_range [of a b E] ab x(4,7) by (simp add: t(1,2) w g x(2) glob_left_def)
    then show ?thesis
      unfolding t(1) left_update(1) [OF p(1) x(1)] left_update(2) [OF p(1) x(1), of s] by (simp add: add.assoc add.commute)
  qed
  ultimately show ?thesis
    using inv x(1) by (simp add: dyn_inv_def t(1) add.assoc)
qed

lemma dyn_inv_drained:
  assumes d: "dyn_params ty lb E inc cs tpn P" and inv: "dyn_inv ty upward adds lb E inc cs tpn P es s"
    and w: "dws s n = Some ws" and pc: "dpc s n = Refill" and g: "dglob s = Some g"
    and r: "raw g (wrapc ty (ws_chunk_size ws * tpn n)) = (None, g')"
    and t: "dws t = (dws s)(n \<mapsto> ws\<lparr>ws_threads_completed := True\<rparr>)" "dglob t = Some g'" "dpc t = (dpc s)(n := Idle)"
  shows "dyn_inv ty upward adds lb E inc cs tpn P (es @ [Exhausted n]) t"
proof -
  note p = dyn_paramsD [OF d]
  obtain x where x0: "n \<in> P" "g' = g\<lparr>ws_next := x\<rparr>" "n \<notin> told s" "ws_next ws = ws_end ws" "ws_end g = E"
      "None = (if E \<le> ws_next g then None else Some (ws_next g, min (ws_next g + cs * tpn n) E))"
      "adds g \<and> x = ws_next g + cs * tpn n \<or> \<not> adds g \<and> x = min (ws_next g + cs * tpn n) E"
    by (rule dyn_inv_raw [OF d inv w pc g r])
  have "E \<le> ws_next g" using x0(6) by (simp split: if_splits)
  note x = x0(1-5) this x0(7)
  have gi: "upward g" "lb \<le> ws_next g" "adds g \<or> ws_next g \<le> E"
      "ws_next g \<le> E + (\<Sum>n\<in>P. cs * tpn n) + (\<Sum>n\<in>P \<inter> told s. cs * tpn n)"
      "adds g \<longrightarrow> fits ty (E + 2 * (\<Sum>n\<in>P. cs * tpn n))"
    using inv g by (auto simp: dyn_inv_def glob_inv_def)
  note c = p(9) [OF x(1)]
  have xs: "E \<le> x" "x \<le> ws_next g + cs * tpn n" "adds g \<or> x \<le> E" "lb \<le> x" using x(6,7) c gi by auto
  have told: "told t = insert n (told s)" using told_update [OF t(1)] by simp
  have "P \<inter> told t = insert n (P \<inter> told s)" using x(1) told by auto
  then have s: "(\<Sum>n\<in>P \<inter> told t. cs * tpn n) = (\<Sum>n\<in>P \<inter> told s. cs * tpn n) + cs * tpn n"
    using x(3) p(1) by simp
  have "node_inv ty upward lb E inc cs (dws t k) (dpc t k)" for k
  proof (cases "k = n")
    case True
    have "share_ok ty upward lb E inc cs ws" using inv w by (auto simp: dyn_inv_def node_inv_def dest: spec [of _ n])
    then show ?thesis using True x(4) kinds by (simp add: t node_inv_def share_ok_def)
  qed (use inv in \<open>simp add: t dyn_inv_def\<close>)
  moreover have "glob_inv ty upward adds lb E inc cs tpn P t"
    using x gi xs kinds s by (simp add: glob_inv_def t(2))
  moreover have "glob_left lb E (dglob t) = glob_left lb E (dglob s)" using xs x(6) by (simp add: t(2) g x(2) glob_left_def)
  moreover have "left (dws t n) = left (dws s n)" by (simp add: t(1) w)
  ultimately show ?thesis
    using inv x(1) left_update(1) [OF p(1) x(1), of s] left_update(2) [OF p(1) x(1), of s] by (auto simp: dyn_inv_def t(1))
qed

lemma dyn_inv_step:
  assumes "dyn_step ty locked raw mk tpn P lb ub s e t" "dyn_params ty lb (max lb ub) inc cs tpn P" "mk_ok upward mk P lb ub cs"
    and "dyn_inv ty upward adds lb (max lb ub) inc cs tpn P es s" "room_ok ty adds mk lb ub cs tpn P"
  shows "dyn_inv ty upward adds lb (max lb ub) inc cs tpn P (es @ [e]) t"
  using assms(1)
proof cases
  case (enter n)
  then show ?thesis using dyn_inv_enter [OF assms(2,3) refl assms(5,4)] by simp
next
  case (got n ws a b ws')
  then show ?thesis using dyn_inv_take [OF assms(2,4) got(4,5)] by (simp add: fun_upd_idem)
next
  case (exhausted n ws ws')
  note z = dyn_inv_none [OF assms(2,4) exhausted(4,5)]
  then show ?thesis using dyn_inv_quiet [OF assms(4), of t n Idle ws e] exhausted by (simp add: fun_upd_idem)
next
  case (empty n ws ws')
  note z = dyn_inv_none [OF assms(2,4) empty(4,5)]
  then show ?thesis using dyn_inv_quiet [OF assms(4), of t n Refill ws e] empty by (simp add: fun_upd_idem)
next
  case (replenish n ws g a b g')
  then show ?thesis using dyn_inv_replenish [OF assms(2,4) replenish(4,3,5,6)] by simp
next
  case (drained n ws g g')
  then show ?thesis using dyn_inv_drained [OF assms(2,4) drained(4,3,5,6)] by simp
next
  case (retake n ws a b ws')
  then show ?thesis using dyn_inv_take [OF assms(2,4) retake(4,5)] by simp
next
  case (retake_none n ws ws')
  then show ?thesis using dyn_inv_none(3) [OF assms(2,4) retake_none(4,5)] by simp
qed

lemma dyn_inv_run:
  assumes "dyn_run (dyn_step ty locked raw mk tpn P lb ub) dyn_start es t" "dyn_params ty lb (max lb ub) inc cs tpn P"
    and "mk_ok upward mk P lb ub cs" "room_ok ty adds mk lb ub cs tpn P"
  shows "dyn_inv ty upward adds lb (max lb ub) inc cs tpn P es t"
  using assms(1)
proof (induction es t rule: dyn_run.induct)
  case run_nil
  show ?case
    by (simp add: dyn_inv_def dyn_start_def node_inv_def glob_inv_def glob_left_def)
next
  case (run_snoc es t e u)
  then show ?case using dyn_inv_step [OF _ assms(2,3) _ assms(4)] by blast
qed

end

section \<open>From numbers to iterations\<close>

text \<open>The iterations of a loop are the numbers of its range at a distance from its start that is a multiple of the increment.\<close>

lemma mset_loop_iters:
  assumes "0 < inc"
  shows "mset (loop_iters a (b - 1) inc) = mset_set {x \<in> {a..<b}. (x - a) mod inc = 0}"
proof -
  have inj: "inj (\<lambda>k. a + inc * int k)" using assms by (auto simp: inj_on_def)
  have "distinct (loop_iters a (b - 1) inc)"
    using assms by (simp add: loop_iters_def distinct_map inj_on_subset [OF inj])
  moreover have "set (loop_iters a (b - 1) inc) = {x \<in> {a..<b}. (x - a) mod inc = 0}"
  proof (intro set_eqI iffI)
    fix x assume "x \<in> set (loop_iters a (b - 1) inc)"
    then obtain k where k: "x = a + inc * int k" "k < loop_trips a (b - 1) inc" using assms by (auto simp: loop_iters_def)
    then have "int k \<le> (b - 1 - a) div inc" using assms by (simp add: loop_trips_def nat_less_iff split: if_splits)
    then have "inc * int k \<le> b - 1 - a" using assms by (simp add: le_div_iff_mult_le mult.commute)
    then show "x \<in> {x \<in> {a..<b}. (x - a) mod inc = 0}" using k assms by simp
  next
    fix x assume x: "x \<in> {x \<in> {a..<b}. (x - a) mod inc = 0}"
    then obtain q where q: "x - a = inc * q" by (auto simp: mod_eq_0_iff_dvd elim: dvdE)
    moreover have "0 \<le> x - a" using x by simp
    ultimately have q0: "0 \<le> q" using assms by (simp add: zero_le_mult_iff)
    have "q * inc \<le> b - 1 - a" using q x by (simp add: mult.commute)
    then have "q \<le> (b - 1 - a) div inc" using assms by (simp add: le_div_iff_mult_le)
    then have "nat q < loop_trips a (b - 1) inc" using q0 x assms by (simp add: loop_trips_def nat_less_iff)
    moreover have "x = a + inc * int (nat q)" using q q0 by simp
    ultimately show "x \<in> set (loop_iters a (b - 1) inc)"
      unfolding loop_iters_def set_map by (intro image_eqI [of _ _ "nat q"]) auto
  qed
  ultimately show ?thesis by (metis mset_set_set)
qed

lemma mset_loop_iters_aligned:
  assumes "0 < inc" "(a - lb) mod inc = 0"
  shows "mset (loop_iters a (b - 1) inc) = filter_mset (\<lambda>x. (x - lb) mod inc = 0) (mset_set {a..<b})"
proof -
  have "(x - a) mod inc = 0 \<longleftrightarrow> (x - lb) mod inc = 0" for x
    using assms(2) by (metis diff_add_cancel add_diff_eq mod_add_self2 dvd_add_left_iff mod_0_imp_dvd dvd_imp_mod_0)
  then show ?thesis by (simp add: mset_loop_iters [OF assms(1)] filter_mset_mset_set)
qed

lemma mset_handed_out:
  assumes "0 < inc" "\<forall>e \<in> set es. event_ok lb inc e"
  shows "mset (handed_out inc es) = filter_mset (\<lambda>x. (x - lb) mod inc = 0) (sum_list (map event_range es))"
  using assms(2)
proof (induction es)
  case (Cons e es)
  have "mset (event_iters inc e) = filter_mset (\<lambda>x. (x - lb) mod inc = 0) (event_range e)"
    using Cons.prems mset_loop_iters_aligned [OF assms(1), of _ lb] by (cases e) auto
  then show ?case using Cons by (simp add: handed_out_def)
qed (simp add: handed_out_def)

lemma mset_whole_loop:
  assumes "0 < inc"
  shows "mset (loop_iters lb (ub - 1) inc) = filter_mset (\<lambda>x. (x - lb) mod inc = 0) (mset_set {lb..<max lb ub})"
proof (cases "lb \<le> ub")
  case True
  then show ?thesis using mset_loop_iters_aligned [OF assms, of lb lb ub] by simp
next
  case False
  then show ?thesis by (simp add: loop_iters_def loop_trips_def assms)
qed

context iteration_pool
begin

text \<open>Whatever the interleaving, no iteration is handed out twice and none that is not of the loop.\<close>

lemma handed_out_subset:
  assumes "dyn_run (dyn_step ty locked raw mk tpn P lb ub) dyn_start es t" "dyn_params ty lb (max lb ub) inc cs tpn P"
    and "mk_ok upward mk P lb ub cs" "room_ok ty adds mk lb ub cs tpn P"
  shows "mset (handed_out inc es) \<subseteq># mset (loop_iters lb (ub - 1) inc)"
proof -
  note i = dyn_inv_run [OF assms, unfolded dyn_inv_def]
  have "sum_list (map event_range es) \<subseteq># mset_set {lb..<max lb ub}"
    using i by (metis mset_subset_eq_add_left add.assoc)
  from multiset_filter_mono [OF this, of "\<lambda>x. (x - lb) mod inc = 0"] show ?thesis
    using i dyn_paramsD(2) [OF assms(2)] by (simp add: mset_handed_out [of inc es lb] mset_whole_loop del: filter_mset_mset_set)
qed

text \<open>Once every node that has begun the loop has been told that it is used up, all of it has been handed out.\<close>

lemma handed_out_complete:
  assumes "dyn_run (dyn_step ty locked raw mk tpn P lb ub) dyn_start es t" "dyn_params ty lb (max lb ub) inc cs tpn P"
    and "mk_ok upward mk P lb ub cs" "room_ok ty adds mk lb ub cs tpn P"
    and fin: "told t \<noteq> {}" "\<forall>n ws. dws t n = Some ws \<longrightarrow> ws_threads_completed ws"
  shows "mset (handed_out inc es) = mset (loop_iters lb (ub - 1) inc)"
proof -
  note i = dyn_inv_run [OF assms(1-4), unfolded dyn_inv_def]
  have "left (dws t n) = {#}" for n
  proof (cases "dws t n")
    case (Some ws)
    then have "ws_next ws = ws_end ws" using fin(2) i by (auto simp: node_inv_def dest!: spec [of _ n])
    then show ?thesis by (simp add: Some)
  qed simp
  moreover have "glob_left lb (max lb ub) (dglob t) = {#}"
    using i fin(1) by (auto simp: glob_inv_def glob_left_def told_def split: option.splits)
  ultimately have "sum_list (map event_range es) = mset_set {lb..<max lb ub}" using i by simp
  then show ?thesis
    using i dyn_paramsD(2) [OF assms(2)] by (simp add: mset_handed_out [of inc es lb] mset_whole_loop)
qed

end

section \<open>The two variants\<close>

definition dynamic_loop :: "(nat \<Rightarrow> int) \<Rightarrow> nat set \<Rightarrow> int \<Rightarrow> int \<Rightarrow> int \<Rightarrow> int \<Rightarrow> dyn_event list \<Rightarrow> dyn_state \<Rightarrow> bool" where
  "dynamic_loop tpn P lb ub inc chunk =
     dyn_run (dyn_step I64 gomp_iter_dynamic_next_locked_raw gomp_iter_dynamic_next_raw (dynamic_share tpn inc chunk) tpn P lb ub) dyn_start"

definition dynamic_loop_ull :: "(nat \<Rightarrow> int) \<Rightarrow> nat set \<Rightarrow> int \<Rightarrow> int \<Rightarrow> int \<Rightarrow> int \<Rightarrow> dyn_event list \<Rightarrow> dyn_state \<Rightarrow> bool" where
  "dynamic_loop_ull tpn P lb ub inc chunk =
     dyn_run (dyn_step U64 gomp_iter_ull_dynamic_next_locked_raw gomp_iter_ull_dynamic_next_raw (dynamic_share_ull tpn inc chunk) tpn P lb ub)
       dyn_start"

lemma dynamic_share_ok:
  assumes "0 < inc" "fits I64 (chunk * inc)"
  shows "mk_ok (\<lambda>ws. 0 < ws_incr ws) (dynamic_share tpn inc chunk) P lb ub (chunk * inc)"
  using assms by (auto simp: mk_ok_def dynamic_share_def loop_init_def Let_def max_def)

lemma dynamic_share_ull_ok:
  assumes "fits U64 (chunk * inc)"
  shows "mk_ok (\<lambda>ws. ws_mode ws AND 2 = 0) (dynamic_share_ull tpn inc chunk) P lb ub (chunk * inc)"
proof -
  have "of_bool m AND 2 = (0 :: int)" for m by (cases m) simp_all
  then show ?thesis using assms by (auto simp: mk_ok_def dynamic_share_ull_def loop_init_ull_def Let_def max_def simp del: fits_U64)
qed

lemma dyn_params_fits:
  assumes "dyn_params ty lb E inc cs tpn P" "P \<noteq> {}"
  shows "fits ty cs"
proof -
  obtain n where n: "n \<in> P" using assms(2) by blast
  note p = dyn_paramsD [OF assms(1)]
  have "0 < tpn n" "fits ty (cs * tpn n)" using assms(1) n by (simp_all add: dyn_params_def)
  moreover have "cs \<le> cs * tpn n" using p(3) \<open>0 < tpn n\<close> by simp
  ultimately show ?thesis using fits_mono [OF fits_0, of ty "cs * tpn n" cs] p(3) by simp
qed

lemma dynamic_loop_empty: "dyn_run (dyn_step ty locked raw mk tpn {} lb ub) dyn_start es t \<Longrightarrow> es = [] \<and> t = dyn_start"
proof (induction es t rule: dyn_run.induct)
  case (run_snoc es t e u)
  then show ?case by (auto simp: dyn_start_def elim: dyn_step.cases)
qed simp



section \<open>Threads that call one after the other\<close>

text \<open>The calls of threads on the given nodes, none interrupted by another: what they see and the state they leave.\<close>

definition called :: "nat \<Rightarrow> (int \<times> int) option \<Rightarrow> dyn_event" where
  "called n r = (case r of Some (a, b) \<Rightarrow> Got n a b | None \<Rightarrow> Exhausted n)"

fun dynamic_calls ::
  "(int \<Rightarrow> gomp_work_share \<Rightarrow> gomp_work_share \<Rightarrow> (int \<times> int) option \<times> gomp_work_share \<times> gomp_work_share) \<Rightarrow> (nat \<Rightarrow> int) \<Rightarrow>
   nat list \<Rightarrow> dyn_state \<Rightarrow> dyn_event list \<times> dyn_state" where
  "dynamic_calls nd tpn [] s = ([], s)"
| "dynamic_calls nd tpn (n # ns) s =
     (case (dws s n, dglob s) of
        (Some ws, Some g) \<Rightarrow>
          (case nd (tpn n) ws g of
             (r, ws', g') \<Rightarrow>
               (case dynamic_calls nd tpn ns (s\<lparr>dws := (dws s)(n \<mapsto> ws'), dglob := Some g', dpc := (dpc s)(n := Idle)\<rparr>) of
                  (es, t) \<Rightarrow> (called n r # es, t)))
      | _ \<Rightarrow> dynamic_calls nd tpn ns s)"

lemma dyn_run_append: "dyn_run step t fs u \<Longrightarrow> dyn_run step s es t \<Longrightarrow> dyn_run step s (es @ fs) u"
  by (induction fs u rule: dyn_run.induct) (auto intro: run_snoc simp flip: append_assoc)

text \<open>They are a run of the steps, with the same events but for the internal ones.\<close>

lemma dynamic_calls_run:
  assumes "dynamic_calls (next_dynamic ty locked raw) tpn ns s = (es, t)" "\<forall>n. dpc s n = Idle"
  shows "\<exists>fs. dyn_run (dyn_step ty locked raw mk tpn P lb ub) s fs t \<and> filter (\<lambda>e. e \<noteq> Internal) fs = es"
  using assms
proof (induction ns arbitrary: s es)
  case Nil
  then show ?case by (auto intro: run_nil)
next
  case (Cons n ns)
  show ?case
  proof (cases "\<exists>ws g. dws s n = Some ws \<and> dglob s = Some g")
    case False
    then show ?thesis using Cons by (auto split: option.splits)
  next
    case True
    then obtain ws g where w: "dws s n = Some ws" "dglob s = Some g" by blast
    obtain r ws' g' where r: "next_dynamic ty locked raw (tpn n) ws g = (r, ws', g')" by (cases "next_dynamic ty locked raw (tpn n) ws g")
    let ?s = "s\<lparr>dws := (dws s)(n \<mapsto> ws'), dglob := Some g', dpc := (dpc s)(n := Idle)\<rparr>"
    obtain es' where es: "dynamic_calls (next_dynamic ty locked raw) tpn ns ?s = (es', t)" "es = called n r # es'"
      using Cons.prems(1) by (auto simp: w r split: prod.splits)
    have "\<forall>m. dpc ?s m = Idle" using Cons.prems(2) by simp
    from Cons.IH [OF es(1) this]
    obtain fs where fs: "dyn_run (dyn_step ty locked raw mk tpn P lb ub) ?s fs t" "filter (\<lambda>e. e \<noteq> Internal) fs = es'"
      by blast
    obtain ds where ds: "dyn_run (dyn_step ty locked raw mk tpn P lb ub) s (ds @ [called n r]) ?s" "set ds \<subseteq> {Internal}"
      using next_dynamic_run [of s n ws g ty locked raw tpn r ws' g' mk P lb ub] Cons.prems(2) w r by (auto simp: called_def)
    have "filter (\<lambda>e. e \<noteq> Internal) ds = []" using ds(2) by (auto simp: filter_empty_conv)
    moreover have "called n r \<noteq> Internal" by (simp add: called_def split: option.split)
    ultimately show ?thesis
      using dyn_run_append [OF fs(1) ds(1)] fs(2) es(2) by (intro exI [of _ "(ds @ [called n r]) @ fs"]) simp
  qed
qed

lemma handed_out_filter: "handed_out inc (filter (\<lambda>e. e \<noteq> Internal) es) = handed_out inc es"
  by (induction es) (auto simp: handed_out_def)


text \<open>
  A run of whole calls: the nodes begin the loop, and then threads call one after the other. What such a
  run hands out is therefore what the property above says.
\<close>

lemma whole_calls_run:
  assumes "finite P" "n \<in> P" "m \<in> P"
    and "dynamic_calls (next_dynamic ty locked raw) tpn ns (init_workshare_dynamic mk lb ub m (init_workshare_dynamic mk lb ub n dyn_start)) = (es, t)"
  shows "\<exists>fs. dyn_run (dyn_step ty locked raw mk tpn P lb ub) dyn_start fs t \<and> handed_out inc fs = handed_out inc es"
proof -
  let ?step = "dyn_step ty locked raw mk tpn P lb ub"
  let ?s = "init_workshare_dynamic mk lb ub m (init_workshare_dynamic mk lb ub n dyn_start)"
  have "dyn_run ?step dyn_start [Enter n] (init_workshare_dynamic mk lb ub n dyn_start)"
    using run_snoc [of ?step, OF run_nil dyn_step.enter [OF assms(2)]] by simp
  from run_snoc [of ?step, OF this dyn_step.enter [OF assms(3)]] have e: "dyn_run ?step dyn_start [Enter n, Enter m] ?s" by simp
  have "\<forall>k. dpc ?s k = Idle" by (simp add: init_workshare_dynamic_def dyn_start_def Let_def split: option.split)
  from dynamic_calls_run [OF assms(4) this] obtain fs
    where fs: "dyn_run ?step ?s fs t" "filter (\<lambda>e. e \<noteq> Internal) fs = es" by blast
  have "handed_out inc ([Enter n, Enter m] @ fs) = handed_out inc es"
    using handed_out_filter [of inc fs] fs(2) by (simp add: handed_out_def)
  then show ?thesis using dyn_run_append [OF fs(1) e] by blast
qed

text \<open>Two nodes with one thread each and a loop of five iterations in chunks of two.\<close>

definition example_calls :: "dyn_event list \<times> dyn_state" where
  "example_calls = dynamic_calls hierarchy_next_dynamic (\<lambda>_. 1) [0, 1, 1, 0, 1]
     (hierarchy_init_workshare_dynamic (\<lambda>_. 1) 0 5 1 2 1 (hierarchy_init_workshare_dynamic (\<lambda>_. 1) 0 5 1 2 0 dyn_start))"

definition example_calls_ull :: "dyn_event list \<times> dyn_state" where
  "example_calls_ull = dynamic_calls hierarchy_next_dynamic_ull (\<lambda>_. 1) [0, 1, 1, 0, 1]
     (hierarchy_init_workshare_dynamic_ull (\<lambda>_. 1) 0 5 1 2 1 (hierarchy_init_workshare_dynamic_ull (\<lambda>_. 1) 0 5 1 2 0 dyn_start))"

lemma example_calls_events:
  "fst example_calls = [Got 0 0 2, Got 1 2 4, Got 1 4 5, Exhausted 0, Exhausted 1]"
  "fst example_calls_ull = [Got 0 0 2, Got 1 2 4, Got 1 4 5, Exhausted 0, Exhausted 1]"
  by code_simp+


lemma example_calls_told:
  "map_option ws_threads_completed (dws (snd example_calls) 0) = Some True"
  "map_option ws_threads_completed (dws (snd example_calls) 1) = Some True"
  "map_option ws_threads_completed (dws (snd example_calls_ull) 0) = Some True"
  "map_option ws_threads_completed (dws (snd example_calls_ull) 1) = Some True"
  by code_simp+

lemma example_params: "dyn_params I64 0 (max 0 5) 1 (2 * 1) (\<lambda>_. 1) {0, 1}" "dyn_params U64 0 (max 0 5) 1 (2 * 1) (\<lambda>_. 1) {0, 1}"
  by (simp_all add: dyn_params_def fits_def ctype_min_def ctype_max_def)

lemma example_room:
  "room_ok I64 (\<lambda>ws. ws_mode ws \<noteq> 0) (dynamic_share (\<lambda>_. 1) 1 2) 0 5 (2 * 1) (\<lambda>_. 1) {0, 1}"
  "room_ok U64 (\<lambda>ws. ws_mode ws AND 1 \<noteq> 0) (dynamic_share_ull (\<lambda>_. 1) 1 2) 0 5 (2 * 1) (\<lambda>_. 1) {0, 1}"
  by (simp_all add: room_ok_def fits_I64)

lemma told_all:
  assumes "\<forall>n. n \<notin> {0, 1} \<longrightarrow> dws t n = None" "map_option ws_threads_completed (dws t 0) = Some True"
    "map_option ws_threads_completed (dws t 1) = Some True"
  shows "told t \<noteq> {} \<and> (\<forall>n ws. dws t n = Some ws \<longrightarrow> ws_threads_completed ws)"
proof -
  have "0 \<in> told t" using assms(2) by (auto simp: told_def)
  moreover have "ws_threads_completed ws" if "dws t n = Some ws" for n ws using that assms by (cases "n = 0"; cases "n = 1") auto
  ultimately show ?thesis by blast
qed

lemma example_dynamic_loop:
  "\<exists>es. dynamic_loop (\<lambda>_. 1) {0, 1} 0 5 1 2 es (snd example_calls) \<and> handed_out 1 es = handed_out 1 (fst example_calls) \<and>
     (\<forall>n. n \<notin> {0, 1} \<longrightarrow> dws (snd example_calls) n = None)"
proof -
  obtain es where es: "dynamic_loop (\<lambda>_. 1) {0, 1} 0 5 1 2 es (snd example_calls)" "handed_out 1 es = handed_out 1 (fst example_calls)"
    using whole_calls_run [of "{0, 1}" 0 1 I64 gomp_iter_dynamic_next_locked_raw gomp_iter_dynamic_next_raw "\<lambda>_. 1" "[0, 1, 1, 0, 1]"
        "dynamic_share (\<lambda>_. 1) 1 2" 0 5 "fst example_calls" "snd example_calls" 1]
    by (auto simp: dynamic_loop_def example_calls_def hierarchy_next_dynamic_def hierarchy_init_workshare_dynamic_def)
  have "fits I64 (2 * 1)" by (simp add: fits_I64)
  from long_pool.dyn_inv_run [OF es(1) [unfolded dynamic_loop_def] example_params(1) dynamic_share_ok [OF zero_less_one this] example_room(1)] es show ?thesis
    by (auto simp: dyn_inv_def)
qed

lemma example_dynamic_loop_ull:
  "\<exists>es. dynamic_loop_ull (\<lambda>_. 1) {0, 1} 0 5 1 2 es (snd example_calls_ull) \<and> handed_out 1 es = handed_out 1 (fst example_calls_ull) \<and>
     (\<forall>n. n \<notin> {0, 1} \<longrightarrow> dws (snd example_calls_ull) n = None)"
proof -
  obtain es where es: "dynamic_loop_ull (\<lambda>_. 1) {0, 1} 0 5 1 2 es (snd example_calls_ull)"
      "handed_out 1 es = handed_out 1 (fst example_calls_ull)"
    using whole_calls_run [of "{0, 1}" 0 1 U64 gomp_iter_ull_dynamic_next_locked_raw gomp_iter_ull_dynamic_next_raw "\<lambda>_. 1" "[0, 1, 1, 0, 1]"
        "dynamic_share_ull (\<lambda>_. 1) 1 2" 0 5 "fst example_calls_ull" "snd example_calls_ull" 1]
    by (auto simp: dynamic_loop_ull_def example_calls_ull_def hierarchy_next_dynamic_ull_def hierarchy_init_workshare_dynamic_ull_def)
  have "fits U64 (2 * 1)" by simp
  from ull_pool.dyn_inv_run [OF es(1) [unfolded dynamic_loop_ull_def] example_params(2) dynamic_share_ull_ok [OF this] example_room(2)] es show ?thesis
    by (auto simp: dyn_inv_def)
qed



section \<open>Without the room\<close>

text \<open>
  Two nodes of 1 and 16 threads, and a loop of one chunk of $2^{20}$ iterations that ends three chunks below the largest value
  of its type. The node of one thread begins the loop; then a thread on the other node calls, and one on the first.
\<close>

definition overflow_team :: "nat \<Rightarrow> int" where
  "overflow_team n = (if n = 0 then 1 else 16)"

definition overflow_calls :: "dyn_event list \<times> dyn_state" where
  "overflow_calls = dynamic_calls hierarchy_next_dynamic overflow_team [1, 0]
     (hierarchy_init_workshare_dynamic overflow_team (2 ^ 63 - 1 - 4 * 2 ^ 20) (2 ^ 63 - 1 - 3 * 2 ^ 20) 1 (2 ^ 20) 1
       (hierarchy_init_workshare_dynamic overflow_team (2 ^ 63 - 1 - 4 * 2 ^ 20) (2 ^ 63 - 1 - 3 * 2 ^ 20) 1 (2 ^ 20) 0 dyn_start))"

definition overflow_calls_ull :: "dyn_event list \<times> dyn_state" where
  "overflow_calls_ull = dynamic_calls hierarchy_next_dynamic_ull overflow_team [1, 0]
     (hierarchy_init_workshare_dynamic_ull overflow_team (2 ^ 64 - 1 - 4 * 2 ^ 20) (2 ^ 64 - 1 - 3 * 2 ^ 20) 1 (2 ^ 20) 1
       (hierarchy_init_workshare_dynamic_ull overflow_team (2 ^ 64 - 1 - 4 * 2 ^ 20) (2 ^ 64 - 1 - 3 * 2 ^ 20) 1 (2 ^ 20) 0 dyn_start))"

lemma overflow_events:
  "fst overflow_calls = [Got 1 (2 ^ 63 - 1 - 4 * 2 ^ 20) (2 ^ 63 - 1 - 3 * 2 ^ 20),
     Got 0 (- (2 ^ 63) + 12 * 2 ^ 20 - 1) (- (2 ^ 63) + 13 * 2 ^ 20 - 1)]"
  "fst overflow_calls_ull = [Got 1 (2 ^ 64 - 1 - 4 * 2 ^ 20) (2 ^ 64 - 1 - 3 * 2 ^ 20), Got 0 (12 * 2 ^ 20 - 1) (13 * 2 ^ 20 - 1)]"
  by code_simp+

lemma first_iter: "a \<le> b \<Longrightarrow> a \<in> set (loop_iters a b 1)"
  by (auto simp: loop_iters_def loop_trips_def image_iff intro!: bexI [of _ 0])

lemma not_below: "x < a \<Longrightarrow> x \<notin> set (loop_iters a b 1)"
  by (auto simp: loop_iters_def)

text \<open>
  The test of \<open>loop_init\<close> against overflow counts the threads of one node only. On a team of several nodes the
  counter of the global work share can wrap around, and a thread is then handed iterations that are not of the loop, for
  \<open>long\<close> and for \<open>unsigned long long\<close>.
\<close>

theorem overflow_test_insufficient:
  "(\<exists>es t. dynamic_loop overflow_team {0, 1} (2 ^ 63 - 1 - 4 * 2 ^ 20) (2 ^ 63 - 1 - 3 * 2 ^ 20) 1 (2 ^ 20) es t \<and>
     - (2 ^ 63) + 12 * 2 ^ 20 - 1 \<in> set (handed_out 1 es) - set (loop_iters (2 ^ 63 - 1 - 4 * 2 ^ 20) (2 ^ 63 - 2 - 3 * 2 ^ 20) 1)) \<and>
   (\<exists>es t. dynamic_loop_ull overflow_team {0, 1} (2 ^ 64 - 1 - 4 * 2 ^ 20) (2 ^ 64 - 1 - 3 * 2 ^ 20) 1 (2 ^ 20) es t \<and>
     12 * 2 ^ 20 - 1 \<in> set (handed_out 1 es) - set (loop_iters (2 ^ 64 - 1 - 4 * 2 ^ 20) (2 ^ 64 - 2 - 3 * 2 ^ 20) 1))"
proof -
  have out: "- (2 ^ 63) + 12 * 2 ^ 20 - 1 \<in> set (handed_out 1 (fst overflow_calls))"
      "12 * 2 ^ 20 - 1 \<in> set (handed_out 1 (fst overflow_calls_ull))"
    unfolding overflow_events handed_out_def by (simp_all add: first_iter)
  obtain es where es: "dynamic_loop overflow_team {0, 1} (2 ^ 63 - 1 - 4 * 2 ^ 20) (2 ^ 63 - 1 - 3 * 2 ^ 20) 1 (2 ^ 20) es (snd overflow_calls)"
      "handed_out 1 es = handed_out 1 (fst overflow_calls)"
    using whole_calls_run [of "{0, 1}" 0 1 I64 gomp_iter_dynamic_next_locked_raw gomp_iter_dynamic_next_raw overflow_team "[1, 0]"
        "dynamic_share overflow_team 1 (2 ^ 20)" "2 ^ 63 - 1 - 4 * 2 ^ 20" "2 ^ 63 - 1 - 3 * 2 ^ 20" "fst overflow_calls" "snd overflow_calls" 1]
    by (auto simp: dynamic_loop_def overflow_calls_def hierarchy_next_dynamic_def hierarchy_init_workshare_dynamic_def)
  obtain fs where fs: "dynamic_loop_ull overflow_team {0, 1} (2 ^ 64 - 1 - 4 * 2 ^ 20) (2 ^ 64 - 1 - 3 * 2 ^ 20) 1 (2 ^ 20) fs (snd overflow_calls_ull)"
      "handed_out 1 fs = handed_out 1 (fst overflow_calls_ull)"
    using whole_calls_run [of "{0, 1}" 0 1 U64 gomp_iter_ull_dynamic_next_locked_raw gomp_iter_ull_dynamic_next_raw overflow_team "[1, 0]"
        "dynamic_share_ull overflow_team 1 (2 ^ 20)" "2 ^ 64 - 1 - 4 * 2 ^ 20" "2 ^ 64 - 1 - 3 * 2 ^ 20" "fst overflow_calls_ull" "snd overflow_calls_ull" 1]
    by (auto simp: dynamic_loop_ull_def overflow_calls_ull_def hierarchy_next_dynamic_ull_def hierarchy_init_workshare_dynamic_ull_def)
  show ?thesis
    using es fs out by (intro conjI exI [of _ es] exI [of _ "snd overflow_calls"] exI [of _ fs] exI [of _ "snd overflow_calls_ull"])
      (simp_all add: not_below)
qed

end
