(* ===== verification/Omp_Barrier.thy ===== *)
theory Omp_Barrier
  imports C_Int
begin

unbundle bit_operations_syntax

text \<open>
  Barriers of distributed teams (\<open>src/lib/libopenpop\<close>): \<open>gomp_barrier_t\<close> and waiting at it
  (\<open>config/linux/bar.h\<close>, \<open>bar.c\<close>), the selection of a leader among the threads of a node, and
  \<open>hierarchy_hybrid_barrier\<close>, where the leaders of the nodes meet at a global barrier while the other threads of
  their nodes wait at the barrier of the node (\<open>hierarchy.c\<close>). Every access to shared memory is a step of its
  own. A step of a thread is a function, and an interleaving is a list of threads, so that a run can be evaluated.
\<close>

section \<open>One barrier\<close>

record gomp_barrier =
  bar_total :: int
  bar_generation :: int
  bar_awaited :: int
  bar_awaited_final :: int

abbreviation (input) BAR_WAS_LAST :: int where "BAR_WAS_LAST \<equiv> 1"
abbreviation (input) BAR_CANCELLED :: int where "BAR_CANCELLED \<equiv> 4"
abbreviation (input) BAR_INCR :: int where "BAR_INCR \<equiv> 8"

definition gomp_barrier_reinit_all :: "int \<Rightarrow> gomp_barrier \<Rightarrow> gomp_barrier" where
  "gomp_barrier_reinit_all count b = b\<lparr>bar_total := count, bar_awaited := count, bar_awaited_final := count\<rparr>"

text \<open>
  Where a thread is within \<open>gomp_team_barrier_wait\<close>: before the load of the generation in
  \<open>gomp_barrier_wait_start\<close>, with the value loaded before \<open>awaited\<close> is decremented, with the state at the
  test of \<open>gomp_team_barrier_wait_end\<close>, as the last thread before the generation is stored, and in the
  loop of the waiting threads. \<open>None\<close> as a position is past the barrier. A thread that finds the
  generation unchanged goes on waiting: it has no step. There are no tasks, so that the flags for them are never set.
\<close>

datatype bar_pos = Bar_start | Bar_dec int | Bar_end int | Bar_release int | Bar_wait int

fun gomp_team_barrier_wait :: "gomp_barrier \<Rightarrow> bar_pos \<Rightarrow> (gomp_barrier \<times> bar_pos option) option" where
  "gomp_team_barrier_wait b Bar_start = Some (b, Some (Bar_dec (bar_generation b AND (- BAR_INCR OR BAR_CANCELLED))))"
| "gomp_team_barrier_wait b (Bar_dec ret) =
     (let a = wrapc U32 (bar_awaited b - 1) in
      Some (b\<lparr>bar_awaited := a\<rparr>, Some (Bar_end (if a = 0 then ret OR BAR_WAS_LAST else ret))))"
| "gomp_team_barrier_wait b (Bar_end state) =
     (if state AND BAR_WAS_LAST \<noteq> 0 then Some (b\<lparr>bar_awaited := bar_total b\<rparr>, Some (Bar_release state))
      else Some (b, Some (Bar_wait state)))"
| "gomp_team_barrier_wait b (Bar_release state) =
     Some (b\<lparr>bar_generation := wrapc U32 ((state AND NOT BAR_CANCELLED) + (BAR_INCR - BAR_WAS_LAST))\<rparr>, None)"
| "gomp_team_barrier_wait b (Bar_wait state) =
     (if bar_generation b = wrapc U32 ((state AND NOT BAR_CANCELLED) + BAR_INCR) then Some (b, None) else None)"

section \<open>Generations\<close>

text \<open>The generation after \<open>k\<close> releases; it wraps around, but two in succession differ.\<close>

definition gen_after :: "int \<Rightarrow> nat \<Rightarrow> int" where
  "gen_after g0 k = wrapc U32 (g0 + 8 * int k)"

lemma fits_U32: "fits U32 x \<longleftrightarrow> 0 \<le> x \<and> x < 2 ^ 32"
  by (auto simp: fits_def ctype_min_def ctype_max_def)

lemma gen_after_range: "0 \<le> gen_after g0 k" "gen_after g0 k < 2 ^ 32"
  using fits_wrapc [of U32 "g0 + 8 * int k", unfolded fits_U32] by (simp_all add: gen_after_def)

lemma gen_after_0: "fits U32 g0 \<Longrightarrow> gen_after g0 0 = g0"
  by (simp add: gen_after_def)

lemma gen_after_Suc: "wrapc U32 (gen_after g0 k + 8) = gen_after g0 (Suc k)"
  by (simp add: gen_after_def algebra_simps)

lemma gen_after_8:
  assumes "g0 mod 8 = 0"
  shows "gen_after g0 k mod 8 = 0"
proof -
  have "(g0 + 8 * int k) mod 2 ^ 32 mod 8 = (g0 + 8 * int k) mod 8"
    by (rule mod_mod_cancel) (auto intro: le_imp_power_dvd [of 3 32 "2 :: int", simplified])
  then show ?thesis using assms by (simp add: gen_after_def wrapc_def take_bit_eq_mod)
qed

lemma gen_after_neq: "gen_after g0 k \<noteq> gen_after g0 (Suc k)"
proof
  assume "gen_after g0 k = gen_after g0 (Suc k)"
  then have "wrapc U32 (g0 + 8 * int k) = wrapc U32 (g0 + 8 * int k + 8)" by (simp add: gen_after_def algebra_simps)
  then have "(g0 + 8 * int k) mod 2 ^ 32 = (g0 + 8 * int k + 8) mod 2 ^ 32" by (simp add: wrapc_def take_bit_eq_mod)
  then have "(8 :: int) mod 2 ^ 32 = 0" by (metis add_diff_cancel_left' mod_diff_cong diff_self mod_0)
  then show False by simp
qed

text \<open>The flags are outside the bits of a generation.\<close>

lemma low_bits:
  assumes "(x :: int) mod 8 = 0" "n < 3"
  shows "\<not> bit x n"
proof -
  have "take_bit 3 x = 0" using assms(1) by (simp add: take_bit_eq_mod)
  then show ?thesis using assms(2) by (metis bit_0_eq bot_apply bot_bool_def bit_take_bit_iff)
qed

lemma mask_bits: "bit (- 4 :: int) n \<longleftrightarrow> 2 \<le> n"
proof -
  have "(- 4 :: int) = push_bit 2 (- 1)" by (simp add: push_bit_eq_mult)
  then show ?thesis by (simp only: bit_push_bit_iff bit_minus_1_iff) simp
qed

lemma state_masks:
  assumes "(x :: int) mod 8 = 0"
  shows "x AND (- 8 OR 4) = x" "x OR 1 = x + 1" "x AND 1 = 0" "(x + 1) AND 1 = 1" "x AND NOT 4 = x" "(x + 1) AND NOT 4 = x + 1"
proof -
  have "2 \<le> n" if "bit x n" for n using low_bits [OF assms, of n] that by (cases "2 \<le> n") auto
  then show "x AND (- 8 OR 4) = x" by (intro bit_eqI) (auto simp: bit_and_iff mask_bits)
  have e: "even x" using assms by presburger
  show o: "x OR 1 = x + 1" using e by (simp add: or_one_eq)
  show "x AND 1 = 0" "(x + 1) AND 1 = 1" using e by (simp_all add: and_one_eq) presburger+
  have five: "bit (- 5 :: int) n \<longleftrightarrow> n \<noteq> 2" for n
  proof -
    have "bit (push_bit 2 (1 :: int)) n \<longleftrightarrow> n = 2" unfolding bit_push_bit_iff bit_1_iff by auto
    then show ?thesis using bit_not_int_iff [of "4 :: int" n] by (simp add: push_bit_eq_mult)
  qed
  show "x AND NOT 4 = x"
    using low_bits [OF assms, of 2] by (intro bit_eqI) (auto simp: bit_and_iff five)
  have "(x OR 1) AND NOT 4 = x OR 1"
    using low_bits [OF assms, of 2] by (intro bit_eqI) (auto simp: bit_and_iff bit_or_iff five bit_1_iff)
  then show "(x + 1) AND NOT 4 = x + 1" by (simp only: o)
qed


section \<open>What a barrier promises its participants\<close>

text \<open>
  The participants \<open>P\<close> of a barrier that has been released \<open>k\<close> times: how often each has passed it, and
  where it is now. A participant that has arrived has decremented \<open>awaited\<close> since the last release.
\<close>

fun pos_ok :: "int \<Rightarrow> nat \<Rightarrow> nat \<Rightarrow> bar_pos option \<Rightarrow> bool" where
  "pos_ok g0 k c None \<longleftrightarrow> c = k"
| "pos_ok g0 k c (Some Bar_start) \<longleftrightarrow> c = k"
| "pos_ok g0 k c (Some (Bar_dec s)) \<longleftrightarrow> c = k \<and> s = gen_after g0 k"
| "pos_ok g0 k c (Some (Bar_end s)) \<longleftrightarrow> s = gen_after g0 c \<and> (c = k \<or> Suc c = k) \<or> s = gen_after g0 k + 1 \<and> c = k"
| "pos_ok g0 k c (Some (Bar_release s)) \<longleftrightarrow> s = gen_after g0 k + 1 \<and> c = k"
| "pos_ok g0 k c (Some (Bar_wait s)) \<longleftrightarrow> s = gen_after g0 c \<and> (c = k \<or> Suc c = k)"

fun counted :: "bar_pos option \<Rightarrow> bool" where
  "counted (Some (Bar_end s)) \<longleftrightarrow> True"
| "counted (Some (Bar_wait s)) \<longleftrightarrow> True"
| "counted (Some (Bar_release s)) \<longleftrightarrow> True"
| "counted _ \<longleftrightarrow> False"

fun is_last :: "bar_pos option \<Rightarrow> bool" where
  "is_last (Some (Bar_end s)) \<longleftrightarrow> odd s"
| "is_last (Some (Bar_release s)) \<longleftrightarrow> True"
| "is_last _ \<longleftrightarrow> False"

fun releasing :: "bar_pos option \<Rightarrow> bool" where
  "releasing (Some (Bar_release s)) \<longleftrightarrow> True"
| "releasing _ \<longleftrightarrow> False"

definition arrived :: "nat \<Rightarrow> (nat \<Rightarrow> nat) \<Rightarrow> (nat \<Rightarrow> bar_pos option) \<Rightarrow> nat \<Rightarrow> bool" where
  "arrived k c q p \<longleftrightarrow> c p = k \<and> counted (q p)"

definition bar_inv :: "int \<Rightarrow> nat set \<Rightarrow> gomp_barrier \<Rightarrow> nat \<Rightarrow> (nat \<Rightarrow> nat) \<Rightarrow> (nat \<Rightarrow> bar_pos option) \<Rightarrow> bool" where
  "bar_inv g0 P b k c q \<longleftrightarrow> finite P \<and> P \<noteq> {} \<and> card P < 2 ^ 32 \<and> g0 mod 8 = 0 \<and>
     bar_total b = int (card P) \<and> bar_generation b = gen_after g0 k \<and> (\<forall>p \<in> P. pos_ok g0 k (c p) (q p)) \<and>
     ((\<exists>p \<in> P. is_last (q p)) \<longleftrightarrow> (\<forall>p \<in> P. arrived k c q p)) \<and>
     (\<forall>p \<in> P. \<forall>p' \<in> P. is_last (q p) \<longrightarrow> is_last (q p') \<longrightarrow> p = p') \<and>
     bar_awaited b = int (card P) - (if \<exists>p \<in> P. releasing (q p) then 0 else int (card {p \<in> P. arrived k c q p}))"

lemma gen_even:
  assumes "g0 mod 8 = 0"
  shows "even (gen_after g0 k)"
  using gen_after_8 [OF assms, of k] by presburger

lemma bar_inv_cong:
  assumes "\<And>p. p \<in> P \<Longrightarrow> c p = c' p" "\<And>p. p \<in> P \<Longrightarrow> q p = q' p"
  shows "bar_inv g0 P b k c q = bar_inv g0 P b k c' q'"
proof -
  have "{p \<in> P. arrived k c q p} = {p \<in> P. arrived k c' q' p}" using assms by (auto simp: arrived_def)
  then show ?thesis using assms by (simp add: bar_inv_def arrived_def)
qed

lemma bar_inv_start:
  assumes "finite P" "P \<noteq> {}" "card P < 2 ^ 32" "g0 mod 8 = 0" "fits U32 g0"
    and "bar_total b = int (card P)" "bar_generation b = g0" "bar_awaited b = int (card P)"
    and "\<And>p. p \<in> P \<Longrightarrow> c p = 0" "\<And>p. p \<in> P \<Longrightarrow> q p = None"
  shows "bar_inv g0 P b 0 c q"
proof -
  have "{p \<in> P. arrived 0 c q p} = {}" "\<not> (\<forall>p \<in> P. arrived 0 c q p)" using assms(2,10) by (auto simp: arrived_def)
  then show ?thesis using assms by (simp add: bar_inv_def gen_after_0)
qed

lemma bar_inv_enter:
  assumes inv: "bar_inv g0 P b k c q" and p: "p \<in> P" "q p = None"
  shows "bar_inv g0 P b k c (q(p := Some Bar_start))"
proof -
  let ?q = "q(p := Some Bar_start)"
  have a: "arrived k c ?q x = arrived k c q x" "is_last (?q x) = is_last (q x)" "releasing (?q x) = releasing (q x)" for x
    using p(2) by (auto simp: arrived_def)
  have "\<forall>x \<in> P. pos_ok g0 k (c x) (?q x)" using inv p by (auto simp: bar_inv_def)
  then show ?thesis using inv by (simp add: bar_inv_def a del: fun_upd_apply)
qed

text \<open>Every step of \<open>gomp_team_barrier_wait\<close> keeps the invariant; the last thread's store is the release.\<close>

fun releases :: "bar_pos \<Rightarrow> bool" where
  "releases (Bar_release s) \<longleftrightarrow> True"
| "releases _ \<longleftrightarrow> False"

lemma bar_inv_step:
  assumes inv: "bar_inv g0 P b k c q" and p: "p \<in> P" "q p = Some x" and s: "gomp_team_barrier_wait b x = Some (b', y)"
  shows "bar_inv g0 P b' (if releases x then Suc k else k) (if y = None then c(p := Suc (c p)) else c) (q(p := y))"
proof -
  note i = inv [unfolded bar_inv_def]
  have g0: "g0 mod 8 = 0" using i by simp
  note g8 = gen_after_8 [OF g0] and ev = gen_even [OF g0]
  note m = state_masks [OF g8]
  have gen: "bar_generation b = gen_after g0 k" and tot: "bar_total b = int (card P)" using i by simp_all
  have ok: "pos_ok g0 k (c p) (Some x)" using i p by metis
  show ?thesis
  proof (cases x)
    case Bar_start
    then have b': "b' = b" "y = Some (Bar_dec (gen_after g0 k))" using s m(1) by (simp_all add: gen)
    let ?q = "q(p := y)"
    have a: "arrived k c ?q z = arrived k c q z" "is_last (?q z) = is_last (q z)" "releasing (?q z) = releasing (q z)" for z
      using p(2) Bar_start b' by (auto simp: arrived_def)
    have "\<forall>z \<in> P. pos_ok g0 k (c z) (?q z)" using i ok Bar_start by (auto simp: b')
    then show ?thesis using i by (simp add: bar_inv_def a Bar_start b'(1) del: fun_upd_apply) (simp add: b')
  next
    case (Bar_dec ret)
    let ?A = "{z \<in> P. arrived k c q z}"
    have ret: "ret = gen_after g0 k" "c p = k" using ok Bar_dec by simp_all
    have pA: "p \<notin> ?A" using p Bar_dec by (simp add: arrived_def)
    have fin: "finite ?A" using i by simp
    have nr: "\<not> (\<exists>z \<in> P. is_last (q z))" using i pA p(1) by auto
    then have "\<not> (\<exists>z \<in> P. releasing (q z))" by (metis is_last.simps(2) releasing.elims(2))
    then have aw: "bar_awaited b = int (card P) - int (card ?A)" using i by simp
    have "card (insert p ?A) \<le> card P" using i p(1) by (intro card_mono) auto
    then have cA: "card ?A < card P" using pA fin by simp
    have w: "wrapc U32 (bar_awaited b - 1) = int (card P) - int (card ?A) - 1"
      using cA i by (intro trans [OF wrapc_id]) (auto simp: aw fits_U32)
    have b': "b' = b\<lparr>bar_awaited := int (card P) - int (card ?A) - 1\<rparr>"
        "y = Some (Bar_end (if int (card P) - int (card ?A) - 1 = 0 then gen_after g0 k + 1 else gen_after g0 k))"
      using s Bar_dec by (auto simp: w ret Let_def m(2))
    let ?q = "q(p := y)"
    have A': "{z \<in> P. arrived k c ?q z} = insert p ?A" using p(1) ret by (auto simp: arrived_def b'(2))
    have all: "(\<forall>z \<in> P. arrived k c ?q z) \<longleftrightarrow> card ?A + 1 = card P"
    proof
      assume "\<forall>z \<in> P. arrived k c ?q z"
      then have "insert p ?A = P" using A' by auto
      then show "card ?A + 1 = card P" using pA fin by (metis Suc_eq_plus1 card_insert_disjoint)
    next
      assume "card ?A + 1 = card P"
      then have "card (insert p ?A) = card P" using pA fin by simp
      then have "insert p ?A = P" using i p(1) by (intro card_subset_eq) auto
      then show "\<forall>z \<in> P. arrived k c ?q z" using A' by blast
    qed
    have last: "is_last (?q z) \<longleftrightarrow> z = p \<and> card ?A + 1 = card P" if "z \<in> P" for z
      using nr that cA ev i by (auto simp: b'(2))
    have "\<not> releasing (?q z)" if "z \<in> P" for z
      using \<open>\<not> (\<exists>z \<in> P. releasing (q z))\<close> that by (simp add: b'(2))
    moreover have "\<forall>z \<in> P. pos_ok g0 k (c z) (?q z)" using i ret by (auto simp: b'(2))
    moreover have "int (card (insert p ?A)) = int (card ?A) + 1" using pA fin by simp
    ultimately show ?thesis
      using i last all p(1) cA A' by (simp add: bar_inv_def Bar_dec b'(1) del: fun_upd_apply) (auto simp: b'(2))
  next
    case (Bar_end st)
    show ?thesis
    proof (cases "odd st")
      case True
      have st: "st = gen_after g0 k + 1" "c p = k" using ok Bar_end True ev i by auto
      then have b': "b' = b\<lparr>bar_awaited := int (card P)\<rparr>" "y = Some (Bar_release st)"
        using s Bar_end m(4) by (simp_all add: tot)
      let ?q = "q(p := y)"
      have a: "arrived k c ?q z = arrived k c q z" "is_last (?q z) = is_last (q z)" for z
        using p(2) Bar_end True by (auto simp: arrived_def b'(2))
      have "\<forall>z \<in> P. pos_ok g0 k (c z) (?q z)" "\<exists>z \<in> P. releasing (?q z)" using i st p(1) by (auto simp: b'(2))
      then show ?thesis using i by (simp add: bar_inv_def a Bar_end b'(1) del: fun_upd_apply) (simp add: b'(2))
    next
      case False
      then have st: "st = gen_after g0 (c p)" "c p = k \<or> Suc (c p) = k" using ok Bar_end ev i by auto
      then have b': "b' = b" "y = Some (Bar_wait st)" using s Bar_end m(3) by simp_all
      let ?q = "q(p := y)"
      have a: "arrived k c ?q z = arrived k c q z" "is_last (?q z) = is_last (q z)" "releasing (?q z) = releasing (q z)" for z
        using p(2) Bar_end False by (auto simp: arrived_def b'(2))
      have "\<forall>z \<in> P. pos_ok g0 k (c z) (?q z)" using i st by (auto simp: b'(2))
      then show ?thesis using i by (simp add: bar_inv_def a Bar_end b'(1) del: fun_upd_apply) (simp add: b'(2))
    qed
  next
    case (Bar_release st)
    have st: "st = gen_after g0 k + 1" "c p = k" using ok Bar_release by simp_all
    have "wrapc U32 ((st AND NOT 4) + 7) = gen_after g0 (Suc k)"
      using m(6) [of k] gen_after_Suc [of g0 k] by (simp add: st(1) add.assoc)
    then have b': "b' = b\<lparr>bar_generation := gen_after g0 (Suc k)\<rparr>" "y = None" using s Bar_release by simp_all
    let ?q = "q(p := y)" and ?c = "c(p := Suc (c p))"
    have lp: "is_last (q p)" "releasing (q p)" using p(2) Bar_release by simp_all
    then have all: "\<forall>z \<in> P. arrived k c q z" and others: "\<forall>z \<in> P. is_last (q z) \<longrightarrow> z = p" using i p(1) by auto
    have na: "\<not> arrived (Suc k) ?c ?q z" if "z \<in> P" for z
      using all that st(2) by (auto simp: arrived_def b'(2))
    have nl: "\<not> is_last (?q z)" if "z \<in> P" for z using others that by (auto simp: b'(2))
    then have nr: "\<not> releasing (?q z)" if "z \<in> P" for z using that by (metis is_last.simps(2) releasing.elims(2))
    have ok': "pos_ok g0 (Suc k) (?c z) (?q z)" if "z \<in> P" for z
    proof (cases "z = p")
      case False
      have "arrived k c q z" "pos_ok g0 k (c z) (q z)" "\<not> is_last (q z)" using all i others that False by auto
      then show ?thesis using False ev i by (cases "q z" rule: counted.cases) (auto simp: arrived_def)
    qed (simp add: b'(2) st(2))
    have "{z \<in> P. arrived (Suc k) ?c ?q z} = {}" using na by blast
    moreover have "bar_awaited b = int (card P)" using i lp(2) p(1) by auto
    ultimately show ?thesis
      using i na nl nr ok' by (simp add: bar_inv_def Bar_release b'(1) del: fun_upd_apply) (auto simp: b'(2))
  next
    case (Bar_wait st)
    have st: "st = gen_after g0 (c p)" "c p = k \<or> Suc (c p) = k" using ok Bar_wait by simp_all
    have "wrapc U32 ((st AND NOT 4) + 8) = gen_after g0 (Suc (c p))"
      using m(5) [of "c p"] gen_after_Suc [of g0 "c p"] by (simp add: st(1))
    then have b': "b' = b" "y = None" "gen_after g0 k = gen_after g0 (Suc (c p))" using s Bar_wait gen by (auto split: if_splits)
    then have k: "Suc (c p) = k" using st(2) gen_after_neq [of g0 k] by auto
    let ?q = "q(p := y)" and ?c = "c(p := Suc (c p))"
    have npa: "\<not> arrived k c q p" "\<not> arrived k ?c ?q p" using k by (auto simp: arrived_def b'(2))
    have a: "arrived k ?c ?q z = arrived k c q z" for z
    proof (cases "z = p")
      case True
      then show ?thesis by (simp only: npa)
    qed (simp add: arrived_def)
    have l: "is_last (?q z) = is_last (q z)" "releasing (?q z) = releasing (q z)" for z
      using p(2) Bar_wait by (auto simp: b'(2))
    have "\<forall>z \<in> P. pos_ok g0 k (?c z) (?q z)" using i k by (auto simp: b'(2))
    then show ?thesis
      using i a [unfolded b'(2)] l [unfolded b'(2)] by (simp add: bar_inv_def Bar_wait b'(1,2) del: fun_upd_apply)
  qed
qed


section \<open>The interface\<close>

text \<open>
  What the hierarchical barrier relies on, with \<open>okay P b k c q\<close> for a barrier \<open>b\<close> of the participants \<open>P\<close> that
  has been released \<open>k\<close> times: a participant is let through only after a release, which takes all of them; one that
  the release has not yet reached is never held up; and not all of them can be held up at once.
\<close>

locale team_barrier =
  fixes wait :: "gomp_barrier \<Rightarrow> bar_pos \<Rightarrow> (gomp_barrier \<times> bar_pos option) option"
    and okay :: "nat set \<Rightarrow> gomp_barrier \<Rightarrow> nat \<Rightarrow> (nat \<Rightarrow> nat) \<Rightarrow> (nat \<Rightarrow> bar_pos option) \<Rightarrow> bool"
    and rank :: "bar_pos \<Rightarrow> nat"
  assumes cong: "(\<And>p. p \<in> P \<Longrightarrow> c p = c' p) \<Longrightarrow> (\<And>p. p \<in> P \<Longrightarrow> q p = q' p) \<Longrightarrow> okay P b k c q \<Longrightarrow> okay P b k c' q'"
    and enter: "okay P b k c q \<Longrightarrow> p \<in> P \<Longrightarrow> q p = None \<Longrightarrow> okay P b k c (q(p := Some Bar_start))"
    and step: "okay P b k c q \<Longrightarrow> p \<in> P \<Longrightarrow> q p = Some x \<Longrightarrow> wait b x = Some (b', y) \<Longrightarrow>
      \<exists>k'. okay P b' k' (if y = None then c(p := Suc (c p)) else c) (q(p := y)) \<and>
        (k' = k \<or> k' = Suc k \<and> y = None \<and> (\<forall>z \<in> P. c z = k \<and> q z \<noteq> None))"
    and passed: "okay P b k c q \<Longrightarrow> p \<in> P \<Longrightarrow> c p = k \<or> Suc (c p) = k \<and> q p \<noteq> None"
    and held_up: "okay P b k c q \<Longrightarrow> p \<in> P \<Longrightarrow> q p = Some x \<Longrightarrow> wait b x = None \<Longrightarrow> c p = k"
    and not_all_held_up: "okay P b k c q \<Longrightarrow> \<exists>p \<in> P. \<forall>x. q p = Some x \<longrightarrow> wait b x \<noteq> None"
    and one_missing: "okay P b k c q \<Longrightarrow> p \<in> P \<Longrightarrow> q p = None \<Longrightarrow> \<forall>z \<in> P - {p}. \<exists>x. q z = Some x \<and> wait b x = None \<Longrightarrow>
      bar_awaited b = 1"
    and progress: "wait b x = Some (b', Some x') \<Longrightarrow> rank x' < rank x"

fun bar_rank :: "bar_pos \<Rightarrow> nat" where
  "bar_rank Bar_start = 4"
| "bar_rank (Bar_dec s) = 3"
| "bar_rank (Bar_end s) = 2"
| "bar_rank (Bar_release s) = 1"
| "bar_rank (Bar_wait s) = 1"

text \<open>Only a waiting thread can be held up, and only before the release that it waits for.\<close>

lemma held_up_wait:
  assumes "gomp_team_barrier_wait b x = None"
  obtains s where "x = Bar_wait s" "bar_generation b \<noteq> wrapc U32 ((s AND NOT 4) + 8)"
  using assms by (cases x) (auto simp: Let_def split: if_splits)

lemma bar_inv_held_up:
  assumes inv: "bar_inv g0 P b k c q" and p: "p \<in> P" "q p = Some x" and w: "gomp_team_barrier_wait b x = None"
  shows "arrived k c q p \<and> \<not> is_last (q p) \<and> \<not> releasing (q p)"
proof -
  note i = inv [unfolded bar_inv_def]
  obtain s where s: "x = Bar_wait s" "bar_generation b \<noteq> wrapc U32 ((s AND NOT 4) + 8)" using held_up_wait [OF w] .
  have g0: "g0 mod 8 = 0" using i by simp
  have "pos_ok g0 k (c p) (Some x)" using i p by metis
  then have ok: "s = gen_after g0 (c p)" "c p = k \<or> Suc (c p) = k" by (simp_all add: s(1))
  have "wrapc U32 ((s AND NOT 4) + 8) = gen_after g0 (Suc (c p))"
    using state_masks(5) [OF gen_after_8 [OF g0], of "c p"] gen_after_Suc [of g0 "c p"] by (simp add: ok(1))
  then have "Suc (c p) \<noteq> k" using s(2) i by auto
  then show ?thesis using ok p(2) s(1) by (simp add: arrived_def)
qed

text \<open>The starting value of the generation does not matter.\<close>

definition bar_ok :: "nat set \<Rightarrow> gomp_barrier \<Rightarrow> nat \<Rightarrow> (nat \<Rightarrow> nat) \<Rightarrow> (nat \<Rightarrow> bar_pos option) \<Rightarrow> bool" where
  "bar_ok P b k c q \<longleftrightarrow> (\<exists>g0. bar_inv g0 P b k c q)"

interpretation team_bar: team_barrier gomp_team_barrier_wait bar_ok bar_rank
proof
  fix P b k c q p x b' y
  assume "bar_ok P b k c q" and p: "p \<in> P" "q p = Some x" and s: "gomp_team_barrier_wait b x = Some (b', y)"
  then obtain g0 where inv: "bar_inv g0 P b k c q" by (auto simp: bar_ok_def)
  note i = inv [unfolded bar_inv_def]
  have "c z = k \<and> q z \<noteq> None" if "releases x" "z \<in> P" for z
  proof -
    have "is_last (q p)" using that(1) p(2) by (cases x) auto
    then have "arrived k c q z" using i p(1) that(2) by auto
    then show ?thesis by (cases "q z") (auto simp: arrived_def)
  qed
  moreover have "releases x \<Longrightarrow> y = None" using s by (cases x) auto
  ultimately show "\<exists>k'. bar_ok P b' k' (if y = None then c(p := Suc (c p)) else c) (q(p := y)) \<and>
        (k' = k \<or> k' = Suc k \<and> y = None \<and> (\<forall>z \<in> P. c z = k \<and> q z \<noteq> None))"
    using bar_inv_step [OF inv p s] unfolding bar_ok_def by (intro exI [of _ "if releases x then Suc k else k"]) auto
next
  fix P b k c q
  assume "bar_ok P b k c q"
  then obtain g0 where inv: "bar_inv g0 P b k c q" by (auto simp: bar_ok_def)
  note i = inv [unfolded bar_inv_def]
  show "\<exists>p \<in> P. \<forall>x. q p = Some x \<longrightarrow> gomp_team_barrier_wait b x \<noteq> None"
  proof (rule ccontr)
    assume "\<not> ?thesis"
    then have "\<forall>p \<in> P. arrived k c q p \<and> \<not> is_last (q p)" using bar_inv_held_up [OF inv] by blast
    then show False using i by auto
  qed
next
  fix P b k c q p
  assume "bar_ok P b k c q" and p: "p \<in> P" "q p = None"
    and w: "\<forall>z \<in> P - {p}. \<exists>x. q z = Some x \<and> gomp_team_barrier_wait b x = None"
  then obtain g0 where inv: "bar_inv g0 P b k c q" by (auto simp: bar_ok_def)
  note i = inv [unfolded bar_inv_def]
  have z: "arrived k c q z \<and> \<not> releasing (q z)" if "z \<in> P - {p}" for z using bar_inv_held_up [OF inv, of z] w that by blast
  have np: "\<not> arrived k c q p" "\<not> releasing (q p)" using p(2) by (simp_all add: arrived_def)
  have "{z \<in> P. arrived k c q z} = P - {p}" using z np(1) by blast
  moreover have "\<not> (\<exists>z \<in> P. releasing (q z))" using z np(2) by blast
  moreover have "Suc (card (P - {p})) = card P" using i p(1) by (intro card_Suc_Diff1) auto
  then have "int (card (P - {p})) = int (card P) - 1" by simp
  ultimately show "bar_awaited b = 1" using i by simp
next
  fix P b k c q p
  assume "bar_ok P b k c q" and p: "p \<in> P"
  then obtain g0 where "pos_ok g0 k (c p) (q p)" by (auto simp: bar_ok_def bar_inv_def)
  then show "c p = k \<or> Suc (c p) = k \<and> q p \<noteq> None" by (cases "q p" rule: counted.cases) auto
next
  fix P b k c q p x
  assume "bar_ok P b k c q" and p: "p \<in> P" "q p = Some x" "gomp_team_barrier_wait b x = None"
  then obtain g0 where "bar_inv g0 P b k c q" by (auto simp: bar_ok_def)
  from bar_inv_held_up [OF this p] show "c p = k" by (simp add: arrived_def)
next
  fix b x b' y
  assume "gomp_team_barrier_wait b x = Some (b', Some y)"
  then show "bar_rank y < bar_rank x" by (cases x) (auto simp: Let_def split: if_splits)
next
  fix P b k c c' q q'
  assume "\<And>p. p \<in> P \<Longrightarrow> c p = c' p" "\<And>p. p \<in> P \<Longrightarrow> q p = q' p" "bar_ok P b k c q"
  then show "bar_ok P b k c' q'" using bar_inv_cong [of P c c' q q'] by (simp add: bar_ok_def)
next
  fix P b k c q p
  assume "bar_ok P b k c q" "p \<in> P" "q p = None"
  then show "bar_ok P b k c (q(p := Some Bar_start))" using bar_inv_enter unfolding bar_ok_def by blast
qed

end
