(* ===== verification/Omp_Hybrid.thy ===== *)
theory Omp_Hybrid
  imports Omp_Barrier
begin

text \<open>
  The hierarchical barrier (\<open>src/lib/libopenpop/hierarchy.c\<close>): the threads of a node select a leader, the last one to
  come; the leaders meet at the global barrier; and each leader then joins the others of its node at the node's
  barrier. The theorems are about every interleaving of the threads of a team through any number of barriers in a row.
\<close>

section \<open>The code\<close>

record leader_select =
  ls_num :: int
  ls_remaining :: int

text \<open>Where a thread is: outside, as a leader spinning until the others of its node wait, and so on.\<close>

datatype hyb_pc = Away | Leader_spin | In_global bar_pos | Leader_cleanup | In_node bar_pos

text \<open>The barriers and selections of the nodes, the global ones, and where every thread is.\<close>

record hyb_state =
  hb_bar :: "nat \<Rightarrow> gomp_barrier"
  hb_sync :: "nat \<Rightarrow> leader_select"
  hb_opt :: "nat \<Rightarrow> leader_select"
  hb_global :: gomp_barrier
  hb_global_sync :: leader_select
  hb_global_opt :: leader_select
  hb_pc :: "nat \<Rightarrow> hyb_pc"

definition all_remaining :: "int \<Rightarrow> leader_select" where
  "all_remaining num = \<lparr>ls_num = num, ls_remaining = num\<rparr>"

definition hierarchy_init_node :: "nat \<Rightarrow> int \<Rightarrow> hyb_state \<Rightarrow> hyb_state" where
  "hierarchy_init_node n num s =
     s\<lparr>hb_sync := (hb_sync s)(n := all_remaining num), hb_opt := (hb_opt s)(n := all_remaining num),
       hb_bar := (hb_bar s)(n := gomp_barrier_reinit_all num (hb_bar s n))\<rparr>"

definition hierarchy_init_global :: "int \<Rightarrow> hyb_state \<Rightarrow> hyb_state" where
  "hierarchy_init_global nodes s =
     s\<lparr>hb_global_sync := all_remaining nodes, hb_global_opt := all_remaining nodes,
       hb_global := gomp_barrier_reinit_all nodes (hb_global s)\<rparr>"

text \<open>The decrement of \<open>select_leader_synchronous\<close>; a thread that leaves 0 is the leader.\<close>

definition select_leader :: "leader_select \<Rightarrow> int \<times> leader_select" where
  "select_leader l = (let rem = wrapc U64 (ls_remaining l - 1) in (rem, l\<lparr>ls_remaining := rem\<rparr>))"

definition hierarchy_leader_cleanup :: "leader_select \<Rightarrow> leader_select" where
  "hierarchy_leader_cleanup l = l\<lparr>ls_remaining := ls_num l\<rparr>"

text \<open>
  One step of thread \<open>t\<close> of node \<open>n\<close>, or \<open>None\<close> while it is held up. The event is \<open>Arrive t\<close> for calling the barrier,
  \<open>Cross n\<close> for the leader of a node getting past the global barrier, and \<open>Depart t\<close> for returning.
\<close>

datatype hyb_event = Arrive nat | Cross nat | Depart nat | Quiet

fun hierarchy_hybrid_barrier ::
  "(gomp_barrier \<Rightarrow> bar_pos \<Rightarrow> (gomp_barrier \<times> bar_pos option) option) \<Rightarrow> nat \<Rightarrow> nat \<Rightarrow> hyb_pc \<Rightarrow> hyb_state \<Rightarrow> (hyb_event \<times> hyb_state) option" where
  "hierarchy_hybrid_barrier wait n t Away s =
     (let (rem, l) = select_leader (hb_sync s n) in
      Some (Arrive t, s\<lparr>hb_sync := (hb_sync s)(n := l),
        hb_pc := (hb_pc s)(t := (if rem \<noteq> 0 then In_node Bar_start else Leader_spin))\<rparr>))"
| "hierarchy_hybrid_barrier wait n t Leader_spin s =
     (if bar_awaited (hb_bar s n) = 1 then Some (Quiet, s\<lparr>hb_pc := (hb_pc s)(t := In_global Bar_start)\<rparr>) else None)"
| "hierarchy_hybrid_barrier wait n t (In_global x) s =
     (case wait (hb_global s) x of
        None \<Rightarrow> None
      | Some (b, Some y) \<Rightarrow> Some (Quiet, s\<lparr>hb_global := b, hb_pc := (hb_pc s)(t := In_global y)\<rparr>)
      | Some (b, None) \<Rightarrow> Some (Cross n, s\<lparr>hb_global := b, hb_pc := (hb_pc s)(t := Leader_cleanup)\<rparr>))"
| "hierarchy_hybrid_barrier wait n t Leader_cleanup s =
     Some (Quiet, s\<lparr>hb_sync := (hb_sync s)(n := hierarchy_leader_cleanup (hb_sync s n)), hb_pc := (hb_pc s)(t := In_node Bar_start)\<rparr>)"
| "hierarchy_hybrid_barrier wait n t (In_node x) s =
     (case wait (hb_bar s n) x of
        None \<Rightarrow> None
      | Some (b, Some y) \<Rightarrow> Some (Quiet, s\<lparr>hb_bar := (hb_bar s)(n := b), hb_pc := (hb_pc s)(t := In_node y)\<rparr>)
      | Some (b, None) \<Rightarrow> Some (Depart t, s\<lparr>hb_bar := (hb_bar s)(n := b), hb_pc := (hb_pc s)(t := Away)\<rparr>))"

text \<open>A run in which the threads take steps in the given order; a thread that is held up when its turn comes does nothing.\<close>

fun hyb_run ::
  "(gomp_barrier \<Rightarrow> bar_pos \<Rightarrow> (gomp_barrier \<times> bar_pos option) option) \<Rightarrow> (nat \<Rightarrow> nat) \<Rightarrow> nat list \<Rightarrow> hyb_state \<Rightarrow>
   hyb_event list \<times> hyb_state" where
  "hyb_run wait home [] s = ([], s)"
| "hyb_run wait home (t # ts) s =
     (case hierarchy_hybrid_barrier wait (home t) t (hb_pc s t) s of
        None \<Rightarrow> hyb_run wait home ts s
      | Some (e, s) \<Rightarrow> (case hyb_run wait home ts s of (es, s) \<Rightarrow> (e # es, s)))"

text \<open>Before a team starts, the main thread initializes the nodes that take part, and the global barrier for their number.\<close>

definition init_team :: "nat list \<Rightarrow> (nat \<Rightarrow> int) \<Rightarrow> hyb_state \<Rightarrow> hyb_state" where
  "init_team nodes threads_per_node s =
     hierarchy_init_global (int (length nodes)) (fold (\<lambda>n. hierarchy_init_node n (threads_per_node n)) nodes s)"

text \<open>What it finds: no thread is at a barrier, and the generations, which are not reset, have no flags set.\<close>

definition clean_generation :: "gomp_barrier \<Rightarrow> bool" where
  "clean_generation b \<longleftrightarrow> fits U32 (bar_generation b) \<and> bar_generation b mod 8 = 0"

definition team_idle :: "nat set \<Rightarrow> hyb_state \<Rightarrow> bool" where
  "team_idle T s \<longleftrightarrow> (\<forall>t \<in> T. hb_pc s t = Away) \<and> clean_generation (hb_global s) \<and> (\<forall>n. clean_generation (hb_bar s n))"

end
