(* ===== verification/Omp_Reduce.thy ===== *)
theory Omp_Reduce
  imports Omp_Hybrid Omp_Nodes
begin

text \<open>
  Hierarchical reductions (\<open>hierarchy_reduce\<close> in \<open>src/lib/libopenpop/hierarchy.c\<close>): the threads of a node hand
  pointers to their data to the first of them to come, which combines them; the leaders of the nodes do the same among
  them, and the first leader ends up with the data of all. As for barriers, every access to shared memory is a step,
  and a run is a list of threads. A pointer to the data of a thread is the number of the thread.
\<close>

section \<open>The code\<close>

abbreviation (input) REDUCTION_ENTRIES :: int where "REDUCTION_ENTRIES \<equiv> 48"

text \<open>
  Where a leader is within the loops over the entries: at the test of the outer loop, at the head of the inner loop,
  with a pointer it has read, and before clearing the entry. The number is that of the data combined so far.
\<close>

datatype gather = G_while nat | G_entry nat nat | G_combine nat nat nat | G_clear nat nat

text \<open>
  Where a thread is within \<open>hierarchy_reduce\<close>: at the selection of a leader, with a ticket at the exchange of its entry,
  in the loop of a leader over its node, at the selection among the leaders, at the store for the leader of all, and so on, up to the value returned.
\<close>

datatype red_pc =
  Red_enter | Red_put int | Red_node gather | Red_elect | Red_publish | Red_global gather | Red_global_cleanup |
  Red_cleanup bool | Red_done bool

record 'a red_state =
  rd_opt :: "nat \<Rightarrow> leader_select"
  rd_reductions :: "nat \<Rightarrow> nat \<Rightarrow> nat option"
  rd_global_opt :: leader_select
  rd_global_reductions :: "nat \<Rightarrow> nat option"
  rd_data :: "nat \<Rightarrow> 'a"
  rd_pc :: "nat \<Rightarrow> red_pc"

text \<open>Whether the thread is the leader, the ticket, and the selection afterwards.\<close>

definition select_leader_optimistic :: "leader_select \<Rightarrow> bool \<times> int \<times> leader_select" where
  "select_leader_optimistic l =
     (let rem = ls_remaining l in (rem = ls_num l, wrapc U64 (rem - 1), l\<lparr>ls_remaining := wrapc U64 (rem - 1)\<rparr>))"

text \<open>A step of thread \<open>me\<close> in the loop over \<open>lim\<close> entries for \<open>cnt\<close> data; the loop has ended with \<open>None\<close>.\<close>

fun gather_step ::
  "('a \<Rightarrow> 'a \<Rightarrow> 'a) \<Rightarrow> nat \<Rightarrow> (nat \<Rightarrow> bool) \<Rightarrow> nat \<Rightarrow> int \<Rightarrow> gather \<Rightarrow> (nat \<Rightarrow> nat option) \<times> (nat \<Rightarrow> 'a) \<Rightarrow>
   gather option \<times> (nat \<Rightarrow> nat option) \<times> (nat \<Rightarrow> 'a)" where
  "gather_step reduce_func me skip lim cnt (G_while reduced) (entries, d) =
     (if int reduced < cnt then Some (G_entry 0 reduced) else None, entries, d)"
| "gather_step reduce_func me skip lim cnt (G_entry i reduced) (entries, d) =
     (if i < lim then
        (if skip i then Some (G_entry (Suc i) reduced)
         else case entries i of None \<Rightarrow> Some (G_entry (Suc i) reduced) | Some p \<Rightarrow> Some (G_combine i reduced p))
      else Some (G_while reduced), entries, d)"
| "gather_step reduce_func me skip lim cnt (G_combine i reduced p) (entries, d) =
     (Some (G_clear i reduced), entries, d(me := reduce_func (d me) (d p)))"
| "gather_step reduce_func me skip lim cnt (G_clear i reduced) (entries, d) =
     (Some (G_entry (Suc i) (Suc reduced)), entries(i := None), d)"

text \<open>
  One step of thread \<open>t\<close> of node \<open>n\<close>, or \<open>None\<close> while its entry is taken, and when it has returned. The nodes with
  threads are those where \<open>threads\<close> (\<open>threads_per_node\<close>) is not 0.
\<close>

fun hierarchy_reduce ::
  "('a \<Rightarrow> 'a \<Rightarrow> 'a) \<Rightarrow> (nat \<Rightarrow> int) \<Rightarrow> nat \<Rightarrow> nat \<Rightarrow> red_pc \<Rightarrow> 'a red_state \<Rightarrow> 'a red_state option" where
  "hierarchy_reduce reduce_func threads n t Red_enter s =
     (let (leader, ticket, l) = select_leader_optimistic (rd_opt s n) in
      Some (s\<lparr>rd_opt := (rd_opt s)(n := l),
        rd_pc := (rd_pc s)(t := (if leader then Red_node (G_while 1) else Red_put ticket))\<rparr>))"
| "hierarchy_reduce reduce_func threads n t (Red_put ticket) s =
     (let e = nat (ticket mod REDUCTION_ENTRIES) in
      case rd_reductions s n e of
        None \<Rightarrow> Some (s\<lparr>rd_reductions := (rd_reductions s)(n := (rd_reductions s n)(e := Some t)), rd_pc := (rd_pc s)(t := Red_done False)\<rparr>)
      | Some p \<Rightarrow> None)"
| "hierarchy_reduce reduce_func threads n t (Red_node g) s =
     (let nthreads = ls_num (rd_opt s n);
          max_entry = nat (if nthreads < REDUCTION_ENTRIES then nthreads else REDUCTION_ENTRIES);
          (g, entries, d) = gather_step reduce_func t (\<lambda>i. False) max_entry nthreads g (rd_reductions s n, rd_data s) in
      Some (s\<lparr>rd_reductions := (rd_reductions s)(n := entries), rd_data := d,
        rd_pc := (rd_pc s)(t := (case g of None \<Rightarrow> Red_elect | Some g \<Rightarrow> Red_node g))\<rparr>))"
| "hierarchy_reduce reduce_func threads n t Red_elect s =
     (let (leader, ticket, l) = select_leader_optimistic (rd_global_opt s) in
      Some (s\<lparr>rd_global_opt := l, rd_pc := (rd_pc s)(t := (if leader then Red_global (G_while 1) else Red_publish))\<rparr>))"
| "hierarchy_reduce reduce_func threads n t Red_publish s =
     Some (s\<lparr>rd_global_reductions := (rd_global_reductions s)(n := Some t), rd_pc := (rd_pc s)(t := Red_cleanup False)\<rparr>)"
| "hierarchy_reduce reduce_func threads n t (Red_global g) s =
     (let (g, entries, d) = gather_step reduce_func t (\<lambda>i. threads i = 0) max_nodes (ls_num (rd_global_opt s)) g
            (rd_global_reductions s, rd_data s) in
      Some (s\<lparr>rd_global_reductions := entries, rd_data := d,
        rd_pc := (rd_pc s)(t := (case g of None \<Rightarrow> Red_global_cleanup | Some g \<Rightarrow> Red_global g))\<rparr>))"
| "hierarchy_reduce reduce_func threads n t Red_global_cleanup s =
     Some (s\<lparr>rd_global_opt := hierarchy_leader_cleanup (rd_global_opt s), rd_pc := (rd_pc s)(t := Red_cleanup True)\<rparr>)"
| "hierarchy_reduce reduce_func threads n t (Red_cleanup leader) s =
     Some (s\<lparr>rd_opt := (rd_opt s)(n := hierarchy_leader_cleanup (rd_opt s n)), rd_pc := (rd_pc s)(t := Red_done leader)\<rparr>)"
| "hierarchy_reduce reduce_func threads n t (Red_done leader) s = None"

text \<open>A run in which the threads take steps in the given order.\<close>

fun red_run :: "('a \<Rightarrow> 'a \<Rightarrow> 'a) \<Rightarrow> (nat \<Rightarrow> int) \<Rightarrow> (nat \<Rightarrow> nat) \<Rightarrow> nat list \<Rightarrow> 'a red_state \<Rightarrow> 'a red_state" where
  "red_run reduce_func threads home [] s = s"
| "red_run reduce_func threads home (t # ts) s =
     red_run reduce_func threads home ts
       (case hierarchy_reduce reduce_func threads (home t) t (rd_pc s t) s of None \<Rightarrow> s | Some s' \<Rightarrow> s')"

text \<open>A reduction over \<open>d\<close> begins with the selections as the start of the team left them.\<close>

definition begin_reduction :: "hyb_state \<Rightarrow> (nat \<Rightarrow> 'a) \<Rightarrow> 'a red_state" where
  "begin_reduction h d = \<lparr>rd_opt = hb_opt h, rd_reductions = (\<lambda>_ _. None), rd_global_opt = hb_global_opt h,
     rd_global_reductions = (\<lambda>_. None), rd_data = d, rd_pc = (\<lambda>_. Red_enter)\<rparr>"

end
