(* ===== verification/Omp_Hybrid_Correct.thy ===== *)
theory Omp_Hybrid_Correct
  imports Omp_Hybrid Omp_Nodes
begin

text \<open>
  Correctness of the hierarchical barrier: no thread returns from its \<open>k\<close>-th barrier before every thread of the
  team has called it \<open>k\<close> times, and wherever the threads are, they can all get out of the barriers they have called.
\<close>

section \<open>The invariant of a node\<close>

fun node_pos :: "hyb_pc \<Rightarrow> bar_pos option" where
  "node_pos (In_node x) = Some x"
| "node_pos _ = None"

fun within :: "hyb_pc \<Rightarrow> bool" where
  "within (In_node x) \<longleftrightarrow> True"
| "within _ \<longleftrightarrow> False"

fun leading :: "hyb_pc \<Rightarrow> bool" where
  "leading Away \<longleftrightarrow> False"
| "leading (In_node x) \<longleftrightarrow> False"
| "leading _ \<longleftrightarrow> True"

text \<open>
  Of the threads \<open>M\<close> of a node, with \<open>d\<close> barriers departed from, \<open>k\<close> releases of the node's barrier and \<open>g\<close>
  crossings of its leaders: either the current barrier has no leader yet, or it has one and all threads have come, or its leader has
  joined the others.
\<close>

definition open_node :: "nat set \<Rightarrow> leader_select \<Rightarrow> (nat \<Rightarrow> hyb_pc) \<Rightarrow> (nat \<Rightarrow> nat) \<Rightarrow> nat \<Rightarrow> nat \<Rightarrow> bool" where
  "open_node M l pc d k g \<longleftrightarrow> (\<forall>t \<in> M. \<not> leading (pc t)) \<and> 0 < ls_remaining l \<and> g = k \<and>
     ls_remaining l = int (card M) - int (card {t \<in> M. pc t \<noteq> Away \<and> d t = k})"

definition led_node :: "nat set \<Rightarrow> leader_select \<Rightarrow> (nat \<Rightarrow> hyb_pc) \<Rightarrow> (nat \<Rightarrow> nat) \<Rightarrow> nat \<Rightarrow> nat \<Rightarrow> nat \<Rightarrow> bool" where
  "led_node M l pc d k g t \<longleftrightarrow> t \<in> M \<and> leading (pc t) \<and> (\<forall>u \<in> M - {t}. within (pc u)) \<and> (\<forall>u \<in> M. d u = k) \<and>
     ls_remaining l = 0 \<and> g = (if pc t = Leader_cleanup then Suc k else k)"

definition closed_node :: "nat set \<Rightarrow> leader_select \<Rightarrow> (nat \<Rightarrow> hyb_pc) \<Rightarrow> (nat \<Rightarrow> nat) \<Rightarrow> nat \<Rightarrow> nat \<Rightarrow> bool" where
  "closed_node M l pc d k g \<longleftrightarrow> (\<forall>u \<in> M. within (pc u)) \<and> (\<forall>u \<in> M. d u = k) \<and>
     ls_remaining l = int (card M) \<and> g = Suc k"

definition node_link :: "nat set \<Rightarrow> leader_select \<Rightarrow> (nat \<Rightarrow> hyb_pc) \<Rightarrow> (nat \<Rightarrow> nat) \<Rightarrow> nat \<Rightarrow> nat \<Rightarrow> bool" where
  "node_link M l pc d k g \<longleftrightarrow> finite M \<and> M \<noteq> {} \<and> card M < 2 ^ 32 \<and> ls_num l = int (card M) \<and>
     (open_node M l pc d k g \<or> (\<exists>t. led_node M l pc d k g t) \<or> closed_node M l pc d k g)"

lemma node_pos_Some: "node_pos p = Some x \<longleftrightarrow> p = In_node x"
  and node_pos_None: "node_pos p = None \<longleftrightarrow> \<not> within p"
  and within_iff: "within p \<longleftrightarrow> \<not> leading p \<and> p \<noteq> Away"
  by (cases p; simp)+

lemma node_link_cong:
  assumes "\<And>t. t \<in> M \<Longrightarrow> pc t = pc' t" "\<And>t. t \<in> M \<Longrightarrow> d t = d' t"
  shows "node_link M l pc d k g = node_link M l pc' d' k g"
proof -
  have "{t \<in> M. pc t \<noteq> Away \<and> d t = k} = {t \<in> M. pc' t \<noteq> Away \<and> d' t = k}" using assms by auto
  then have "open_node M l pc d k g = open_node M l pc' d' k g" using assms by (simp add: open_node_def)
  moreover have "led_node M l pc d k g t = led_node M l pc' d' k g t" for t using assms by (auto simp: led_node_def)
  moreover have "closed_node M l pc d k g = closed_node M l pc' d' k g" using assms by (auto simp: closed_node_def)
  ultimately show ?thesis by (simp add: node_link_def)
qed

text \<open>A thread comes; the last one becomes the leader.\<close>

lemma node_link_arrive:
  assumes link: "node_link M l pc d k g" and t: "t \<in> M" "pc t = Away" "d t = k" and s: "select_leader l = (rem, l')"
  shows "node_link M l' (pc(t := (if rem \<noteq> 0 then In_node Bar_start else Leader_spin))) d k g"
proof -
  let ?I = "{u \<in> M. pc u \<noteq> Away \<and> d u = k}" and ?pc = "pc(t := (if rem \<noteq> 0 then In_node Bar_start else Leader_spin))"
  have "\<not> within (pc t)" "\<not> leading (pc t)" using t(2) by simp_all
  then have "\<not> led_node M l pc d k g u" "\<not> closed_node M l pc d k g" for u
    unfolding led_node_def closed_node_def using t(1) by blast+
  then have o: "open_node M l pc d k g" using link by (auto simp: node_link_def)
  have M: "finite M" "card M < 2 ^ 32" using link by (simp_all add: node_link_def)
  have r: "rem = int (card M) - int (card ?I) - 1" "l' = l\<lparr>ls_remaining := rem\<rparr>"
    using s o M by (auto simp: select_leader_def open_node_def Let_def intro!: wrapc_id)
  have I: "{u \<in> M. ?pc u \<noteq> Away \<and> d u = k} = insert t ?I" "t \<notin> ?I" using t by auto
  then have c: "card (insert t ?I) = card ?I + 1" using M by simp
  have "0 \<le> rem" using o r(1) by (simp add: open_node_def)
  show ?thesis
  proof (cases "rem = 0")
    case False
    then have "open_node M l' ?pc d k g"
      using o r I c \<open>0 \<le> rem\<close> by (auto simp: open_node_def)
    then show ?thesis using link r(2) by (simp add: node_link_def)
  next
    case True
    then have "card (insert t ?I) = card M" using c r(1) by simp
    then have "insert t ?I = M" using M t(1) by (intro card_subset_eq) auto
    then have a: "pc u \<noteq> Away \<and> d u = k" if "u \<in> M - {t}" for u using that by blast
    have "led_node M l' ?pc d k g t"
      using o a t True r(2) by (auto simp: led_node_def open_node_def within_iff)
    then show ?thesis using link r(2) by (auto simp: node_link_def)
  qed
qed

text \<open>The leader of a node is the only one, and moves on until it joins the others.\<close>

lemma node_link_leader:
  assumes "node_link M l pc d k g" "t \<in> M" "leading (pc t)"
  shows "led_node M l pc d k g t" "u \<in> M \<Longrightarrow> leading (pc u) \<Longrightarrow> u = t"
proof -
  have "\<not> open_node M l pc d k g" "\<not> closed_node M l pc d k g"
    using assms(2,3) by (auto simp: open_node_def closed_node_def within_iff)
  then obtain v where v: "led_node M l pc d k g v" using assms(1) by (auto simp: node_link_def)
  have only: "u = v" if "u \<in> M" "leading (pc u)" for u using v that by (auto simp: led_node_def within_iff)
  show "led_node M l pc d k g t" using v only [OF assms(2,3)] by simp
  show "u \<in> M \<Longrightarrow> leading (pc u) \<Longrightarrow> u = t" using only only [OF assms(2,3)] by blast
qed

lemma node_link_lead:
  assumes "node_link M l pc d k g" "t \<in> M" "leading (pc t)" "pc t \<noteq> Leader_cleanup" "leading p"
  shows "node_link M l (pc(t := p)) d k (if p = Leader_cleanup then Suc g else g)"
proof -
  have "led_node M l (pc(t := p)) d k (if p = Leader_cleanup then Suc g else g) t"
    using node_link_leader(1) [OF assms(1-3)] assms(4,5) by (auto simp: led_node_def)
  then show ?thesis using assms(1) by (auto simp: node_link_def)
qed

lemma node_link_cleanup:
  assumes "node_link M l pc d k g" "t \<in> M" "pc t = Leader_cleanup"
  shows "node_link M (hierarchy_leader_cleanup l) (pc(t := In_node x)) d k g"
proof -
  have "leading (pc t)" using assms(3) by simp
  then have "led_node M l pc d k g t" using node_link_leader(1) assms by blast
  then have "closed_node M (hierarchy_leader_cleanup l) (pc(t := In_node x)) d k g"
    using assms by (auto simp: led_node_def closed_node_def hierarchy_leader_cleanup_def node_link_def)
  then show ?thesis using assms(1) by (simp add: node_link_def hierarchy_leader_cleanup_def)
qed

text \<open>At the barrier of the node.\<close>

lemma node_link_in_node:
  assumes "node_link M l pc d k g" "pc t = In_node x"
  shows "node_link M l (pc(t := In_node y)) d k g"
proof -
  let ?pc = "pc(t := In_node y)"
  have p: "leading (?pc u) = leading (pc u)" "?pc u = Away \<longleftrightarrow> pc u = Away" "within (?pc u) = within (pc u)"
      "?pc u = Leader_cleanup \<longleftrightarrow> pc u = Leader_cleanup" for u
    using assms(2) by auto
  show ?thesis
    using assms(1) unfolding node_link_def open_node_def led_node_def closed_node_def p .
qed

lemma node_link_depart:
  assumes "node_link M l pc d k g" "t \<in> M" "pc t = In_node x" "Suc (d t) = k"
  shows "node_link M l (pc(t := Away)) (d(t := k)) k g"
proof -
  have "\<not> led_node M l pc d k g u" "\<not> closed_node M l pc d k g" for u
    unfolding led_node_def closed_node_def using assms(2,4) by (metis n_not_Suc_n)+
  then have o: "open_node M l pc d k g" using assms(1) by (auto simp: node_link_def)
  have "{u \<in> M. (pc(t := Away)) u \<noteq> Away \<and> (d(t := k)) u = k} = {u \<in> M. pc u \<noteq> Away \<and> d u = k}"
    using assms(4) by auto
  then have "open_node M l (pc(t := Away)) (d(t := k)) k g" using o by (simp add: open_node_def)
  then show ?thesis using assms(1) by (simp add: node_link_def)
qed

lemma node_link_release:
  assumes "node_link M l pc d k g" "t \<in> M" "\<forall>u \<in> M. d u = k \<and> within (pc u)"
  shows "node_link M l (pc(t := Away)) (d(t := Suc k)) (Suc k) g"
proof -
  have "\<not> led_node M l pc d k g u" for u using assms(3) by (auto simp: led_node_def within_iff)
  moreover have "\<not> open_node M l pc d k g"
  proof
    assume o: "open_node M l pc d k g"
    have "{u \<in> M. pc u \<noteq> Away \<and> d u = k} = M" using assms(3) by (auto simp: within_iff)
    then show False using o by (auto simp: open_node_def)
  qed
  ultimately have c: "closed_node M l pc d k g" using assms(1) by (auto simp: node_link_def)
  have "card {u \<in> M. (pc(t := Away)) u \<noteq> Away \<and> (d(t := Suc k)) u = Suc k} = 0" using assms(3) by (auto simp: card_eq_0_iff)
  moreover have "0 < card M" using assms(1) by (auto simp: node_link_def card_gt_0_iff)
  ultimately have "open_node M l (pc(t := Away)) (d(t := Suc k)) (Suc k) g"
    using c unfolding open_node_def by (simp add: closed_node_def within_iff del: fun_upd_apply) simp
  then show ?thesis using assms(1) by (simp add: node_link_def)
qed


section \<open>The invariant of a run\<close>

definition members :: "nat set \<Rightarrow> (nat \<Rightarrow> nat) \<Rightarrow> nat \<Rightarrow> nat set" where
  "members T home n = {t \<in> T. home t = n}"

abbreviation departs :: "hyb_event list \<Rightarrow> nat \<Rightarrow> nat" where "departs es t \<equiv> count_list es (Depart t)"
abbreviation arrives :: "hyb_event list \<Rightarrow> nat \<Rightarrow> nat" where "arrives es t \<equiv> count_list es (Arrive t)"
abbreviation crosses :: "hyb_event list \<Rightarrow> nat \<Rightarrow> nat" where "crosses es n \<equiv> count_list es (Cross n)"

definition node_ok ::
  "(nat set \<Rightarrow> gomp_barrier \<Rightarrow> nat \<Rightarrow> (nat \<Rightarrow> nat) \<Rightarrow> (nat \<Rightarrow> bar_pos option) \<Rightarrow> bool) \<Rightarrow> nat set \<Rightarrow> (nat \<Rightarrow> nat) \<Rightarrow>
   hyb_event list \<Rightarrow> hyb_state \<Rightarrow> nat \<Rightarrow> nat \<Rightarrow> bool" where
  "node_ok okay T home es s k n \<longleftrightarrow>
     okay (members T home n) (hb_bar s n) k (departs es) (\<lambda>t. node_pos (hb_pc s t)) \<and>
     node_link (members T home n) (hb_sync s n) (hb_pc s) (departs es) k (crosses es n)"

definition global_ok ::
  "(nat set \<Rightarrow> gomp_barrier \<Rightarrow> nat \<Rightarrow> (nat \<Rightarrow> nat) \<Rightarrow> (nat \<Rightarrow> bar_pos option) \<Rightarrow> bool) \<Rightarrow> nat set \<Rightarrow> (nat \<Rightarrow> nat) \<Rightarrow>
   hyb_event list \<Rightarrow> hyb_state \<Rightarrow> nat \<Rightarrow> (nat \<Rightarrow> bar_pos option) \<Rightarrow> bool" where
  "global_ok okay T home es s k q \<longleftrightarrow>
     okay (home ` T) (hb_global s) k (crosses es) q \<and> (\<forall>n x. q n = Some x \<longleftrightarrow> (\<exists>t \<in> members T home n. hb_pc s t = In_global x))"

definition hyb_inv ::
  "(nat set \<Rightarrow> gomp_barrier \<Rightarrow> nat \<Rightarrow> (nat \<Rightarrow> nat) \<Rightarrow> (nat \<Rightarrow> bar_pos option) \<Rightarrow> bool) \<Rightarrow> nat set \<Rightarrow> (nat \<Rightarrow> nat) \<Rightarrow>
   hyb_event list \<Rightarrow> hyb_state \<Rightarrow> bool" where
  "hyb_inv okay T home es s \<longleftrightarrow>
     (\<forall>n \<in> home ` T. \<exists>k. node_ok okay T home es s k n) \<and> (\<exists>k q. global_ok okay T home es s k q) \<and>
     (\<forall>t \<in> T. arrives es t = departs es t + (if hb_pc s t = Away then 0 else 1))"

lemma memberI: "t \<in> T \<Longrightarrow> t \<in> members T home (home t)"
  by (simp add: members_def)

lemma count_snoc [simp]: "count_list (es @ [e]) x = count_list es x + (if e = x then 1 else 0)"
  by (induction es) auto

context team_barrier
begin

text \<open>What a step of one thread leaves alone.\<close>

lemma node_ok_other:
  assumes "node_ok okay T home es s k n" "home t \<noteq> n" "e \<noteq> Cross n" "\<forall>u. e = Depart u \<longrightarrow> u = t"
    and "hb_bar s' n = hb_bar s n" "hb_sync s' n = hb_sync s n" "hb_pc s' = (hb_pc s)(t := p)"
  shows "node_ok okay T home (es @ [e]) s' k n"
proof -
  have u: "u \<noteq> t \<and> e \<noteq> Depart u" if "u \<in> members T home n" for u using that assms(2,4) by (auto simp: members_def)
  have "okay (members T home n) (hb_bar s' n) k (departs (es @ [e])) (\<lambda>t. node_pos (hb_pc s' t))"
  proof (rule cong)
    show "okay (members T home n) (hb_bar s' n) k (departs es) (\<lambda>t. node_pos (hb_pc s t))"
      using assms(1,5) by (simp add: node_ok_def)
  qed (use u assms(7) in auto)
  moreover have "node_link (members T home n) (hb_sync s' n) (hb_pc s') (departs (es @ [e])) k (crosses (es @ [e]) n)
      = node_link (members T home n) (hb_sync s n) (hb_pc s) (departs es) k (crosses es n)"
    using assms(3,6) by (subst node_link_cong [of _ "hb_pc s'" "hb_pc s" "departs (es @ [e])" "departs es"]) (use u assms(7) in auto)
  ultimately show ?thesis using assms(1) by (simp add: node_ok_def)
qed

lemma global_ok_other:
  assumes "global_ok okay T home es s k q" "\<forall>n. e \<noteq> Cross n" "hb_global s' = hb_global s" "hb_pc s' = (hb_pc s)(t := p)"
    and "\<forall>x. hb_pc s t \<noteq> In_global x" "\<forall>x. p \<noteq> In_global x"
  shows "global_ok okay T home (es @ [e]) s' k q"
proof -
  have "crosses (es @ [e]) = crosses es" using assms(2) by (intro ext) simp
  moreover have "hb_pc s' u = In_global x \<longleftrightarrow> hb_pc s u = In_global x" for u x using assms(4,5,6) by auto
  ultimately show ?thesis using assms(1,3) by (simp add: global_ok_def)
qed

text \<open>The step of a thread, node by node: it is enough to look at its own.\<close>

lemma hyb_inv_stepI:
  assumes "hyb_inv okay T home es s" "t \<in> T" "node_ok okay T home (es @ [e]) s' k (home t)" "global_ok okay T home (es @ [e]) s' kg q"
    and "\<forall>u. e = Depart u \<longrightarrow> u = t" "\<forall>u. e = Arrive u \<longrightarrow> u = t" "\<forall>n. e = Cross n \<longrightarrow> n = home t"
    and "\<forall>n. n \<noteq> home t \<longrightarrow> hb_bar s' n = hb_bar s n" "\<forall>n. n \<noteq> home t \<longrightarrow> hb_sync s' n = hb_sync s n" "hb_pc s' = (hb_pc s)(t := p)"
    and "arrives (es @ [e]) t = departs (es @ [e]) t + (if p = Away then 0 else 1)"
  shows "hyb_inv okay T home (es @ [e]) s'"
proof -
  have "\<exists>k. node_ok okay T home (es @ [e]) s' k n" if n: "n \<in> home ` T" for n
  proof (cases "n = home t")
    case False
    obtain k where "node_ok okay T home es s k n" using assms(1) n by (auto simp: hyb_inv_def)
    from node_ok_other [OF this, of t e s' p] show ?thesis using False assms(5,7-10) by auto
  qed (use assms(3) in blast)
  moreover have "arrives (es @ [e]) u = departs (es @ [e]) u + (if hb_pc s' u = Away then 0 else 1)" if "u \<in> T" for u
  proof (cases "u = t")
    case False
    then have "e \<noteq> Depart u" "e \<noteq> Arrive u" using assms(5,6) by auto
    then show ?thesis using assms(1,10) that False by (simp add: hyb_inv_def)
  qed (use assms(10,11) in simp)
  ultimately show ?thesis using assms(4) by (auto simp: hyb_inv_def)
qed

lemma hyb_step_away:
  assumes inv: "hyb_inv okay T home es s" and t: "t \<in> T" "hb_pc s t = Away"
    and s: "hierarchy_hybrid_barrier wait (home t) t (hb_pc s t) s = Some (e, s')"
  shows "hyb_inv okay T home (es @ [e]) s'"
proof -
  let ?n = "home t" and ?M = "members T home (home t)"
  obtain k where k: "node_ok okay T home es s k ?n" using inv t(1) by (auto simp: hyb_inv_def)
  obtain kg q where g: "global_ok okay T home es s kg q" using inv by (auto simp: hyb_inv_def)
  obtain rem l where l: "select_leader (hb_sync s ?n) = (rem, l)" by fastforce
  define p where "p = (if rem \<noteq> 0 then In_node Bar_start else Leader_spin)"
  have s': "e = Arrive t" "s' = s\<lparr>hb_sync := (hb_sync s)(?n := l), hb_pc := (hb_pc s)(t := p)\<rparr>"
    using s by (simp_all add: t(2) l p_def)
  have d: "departs es t = k"
    using passed [of ?M "hb_bar s ?n" k "departs es" "\<lambda>u. node_pos (hb_pc s u)" t] k t memberI by (auto simp: node_ok_def)
  have i: "okay ?M (hb_bar s ?n) k (departs es) (\<lambda>u. node_pos (hb_pc s u))" using k by (simp add: node_ok_def)
  have "okay ?M (hb_bar s ?n) k (departs es) (\<lambda>u. node_pos (((hb_pc s)(t := p)) u))"
  proof (cases "rem = 0")
    case True
    then show ?thesis using i by (rule_tac cong [OF _ _ i]) (auto simp: p_def t(2))
  next
    case False
    have "okay ?M (hb_bar s ?n) k (departs es) ((\<lambda>u. node_pos (hb_pc s u))(t := Some Bar_start))"
      using enter [OF i memberI [where home = home, OF t(1)]] t(2) by simp
    then show ?thesis by (rule cong [rotated 2]) (use False in \<open>auto simp: p_def\<close>)
  qed
  moreover have nl: "node_link ?M (hb_sync s ?n) (hb_pc s) (departs es) k (crosses es ?n)" using k by (simp add: node_ok_def)
  have "node_link ?M l ((hb_pc s)(t := p)) (departs es) k (crosses es ?n)"
    using node_link_arrive [OF nl memberI [where home = home, OF t(1)] t(2) d l] by (simp only: p_def)
  ultimately have "node_ok okay T home (es @ [e]) s' k ?n" by (simp add: node_ok_def s' fun_upd_same del: fun_upd_apply)
  moreover have "global_ok okay T home (es @ [e]) s' kg q"
    by (rule global_ok_other [OF g, of _ _ t p]) (use t(2) in \<open>auto simp: s' p_def\<close>)
  ultimately show ?thesis
    using inv t by (rule_tac hyb_inv_stepI [where p = p]) (auto simp: s' p_def hyb_inv_def)
qed

end


context team_barrier
begin

lemma hyb_step_spin:
  assumes inv: "hyb_inv okay T home es s" and t: "t \<in> T" "hb_pc s t = Leader_spin"
    and s: "hierarchy_hybrid_barrier wait (home t) t (hb_pc s t) s = Some (e, s')"
  shows "hyb_inv okay T home (es @ [e]) s'"
proof -
  let ?n = "home t" and ?M = "members T home (home t)" and ?p = "In_global Bar_start"
  obtain k where k: "node_ok okay T home es s k ?n" using inv t(1) by (auto simp: hyb_inv_def)
  obtain kg q where g: "global_ok okay T home es s kg q" using inv by (auto simp: hyb_inv_def)
  have s': "e = Quiet" "s' = s\<lparr>hb_pc := (hb_pc s)(t := ?p)\<rparr>" using s by (simp_all add: t(2) split: if_splits)
  have nl: "node_link ?M (hb_sync s ?n) (hb_pc s) (departs es) k (crosses es ?n)" using k by (simp add: node_ok_def)
  have tM: "t \<in> ?M" using t(1) by (rule memberI)
  have only: "u = t" if "u \<in> ?M" "leading (hb_pc s u)" for u using node_link_leader(2) [OF nl tM _ that] t(2) by simp
  have "node_link ?M (hb_sync s ?n) ((hb_pc s)(t := ?p)) (departs es) k (crosses es ?n)"
    using node_link_lead [OF nl tM, of ?p] t(2) by simp
  moreover have "okay ?M (hb_bar s ?n) k (departs es) (\<lambda>u. node_pos (hb_pc s u))" using k by (simp add: node_ok_def)
  then have "okay ?M (hb_bar s ?n) k (departs es) (\<lambda>u. node_pos (((hb_pc s)(t := ?p)) u))"
    by (rule cong [rotated 2]) (auto simp: t(2))
  ultimately have nok: "node_ok okay T home (es @ [e]) s' k ?n" by (simp add: node_ok_def s' del: fun_upd_apply)
  have qn: "q ?n = None"
  proof (rule ccontr)
    assume "q ?n \<noteq> None"
    then obtain u x where u: "u \<in> ?M" "hb_pc s u = In_global x" using g by (auto simp: global_ok_def)
    then show False using only [of u] t(2) by auto
  qed
  have "okay (home ` T) (hb_global s) kg (crosses es) (q(?n := Some Bar_start))"
    using enter [of "home ` T" "hb_global s" kg "crosses es" q ?n, OF _ _ qn] g t(1) by (auto simp: global_ok_def)
  moreover have "crosses (es @ [e]) = crosses es" by (intro ext) (simp add: s'(1))
  moreover have "(q(?n := Some Bar_start)) m = Some x \<longleftrightarrow> (\<exists>u \<in> members T home m. ((hb_pc s)(t := ?p)) u = In_global x)" for m x
  proof (cases "m = ?n")
    case True
    have "(\<exists>u \<in> ?M. ((hb_pc s)(t := ?p)) u = In_global x) \<longleftrightarrow> x = Bar_start"
      using tM only by (auto split: if_splits)
    then show ?thesis by (auto simp: True)
  next
    case False
    then have "t \<notin> members T home m" by (auto simp: members_def)
    then show ?thesis using g False by (auto simp: global_ok_def)
  qed
  ultimately have "global_ok okay T home (es @ [e]) s' kg (q(?n := Some Bar_start))" by (simp add: global_ok_def s'(2) del: fun_upd_apply)
  with nok show ?thesis
    using inv t by (rule_tac hyb_inv_stepI [where p = ?p]) (auto simp: s' hyb_inv_def)
qed

lemma hyb_step_global:
  assumes inv: "hyb_inv okay T home es s" and t: "t \<in> T" "hb_pc s t = In_global x"
    and s: "hierarchy_hybrid_barrier wait (home t) t (hb_pc s t) s = Some (e, s')"
  shows "hyb_inv okay T home (es @ [e]) s'"
proof -
  let ?n = "home t" and ?M = "members T home (home t)"
  obtain k where k: "node_ok okay T home es s k ?n" using inv t(1) by (auto simp: hyb_inv_def)
  obtain kg q where g: "global_ok okay T home es s kg q" using inv by (auto simp: hyb_inv_def)
  obtain b y where w: "wait (hb_global s) x = Some (b, y)" using s t(2) by (auto split: option.splits)
  define p where "p = (case y of Some y \<Rightarrow> In_global y | None \<Rightarrow> Leader_cleanup)"
  have s': "e = (if y = None then Cross ?n else Quiet)" "s' = s\<lparr>hb_global := b, hb_pc := (hb_pc s)(t := p)\<rparr>"
    using s by (auto simp: t(2) w p_def split: option.splits)
  have nl: "node_link ?M (hb_sync s ?n) (hb_pc s) (departs es) k (crosses es ?n)" using k by (simp add: node_ok_def)
  have tM: "t \<in> ?M" using t(1) by (rule memberI)
  have only: "u = t" if "u \<in> ?M" "leading (hb_pc s u)" for u using node_link_leader(2) [OF nl tM _ that] t(2) by simp
  have dep: "departs (es @ [e]) = departs es" by (intro ext) (simp add: s'(1))
  have "node_link ?M (hb_sync s ?n) ((hb_pc s)(t := p)) (departs es) k (crosses (es @ [e]) ?n)"
    using node_link_lead [OF nl tM, of p] t(2) by (cases y) (simp_all add: p_def s'(1))
  moreover have "okay ?M (hb_bar s ?n) k (departs es) (\<lambda>u. node_pos (hb_pc s u))" using k by (simp add: node_ok_def)
  then have "okay ?M (hb_bar s ?n) k (departs es) (\<lambda>u. node_pos (((hb_pc s)(t := p)) u))"
    by (rule cong [rotated 2]) (auto simp: t(2) p_def split: option.split)
  ultimately have nok: "node_ok okay T home (es @ [e]) s' k ?n" by (simp add: node_ok_def dep s'(2) del: fun_upd_apply count_snoc count_list_append)
  have qn: "q ?n = Some x" using g tM t(2) by (auto simp: global_ok_def)
  obtain kg' where "okay (home ` T) b kg' (if y = None then (crosses es)(?n := Suc (crosses es ?n)) else crosses es) (q(?n := y))"
    using step [of "home ` T" "hb_global s" kg "crosses es" q ?n x b y, OF _ _ qn w] g t(1) by (auto simp: global_ok_def)
  moreover have "crosses (es @ [e]) = (if y = None then (crosses es)(?n := Suc (crosses es ?n)) else crosses es)"
    by (intro ext) (simp add: s'(1))
  moreover have "(q(?n := y)) m = Some z \<longleftrightarrow> (\<exists>u \<in> members T home m. ((hb_pc s)(t := p)) u = In_global z)" for m z
  proof (cases "m = ?n")
    case True
    have "(\<exists>u \<in> ?M. ((hb_pc s)(t := p)) u = In_global z) \<longleftrightarrow> p = In_global z"
      using tM only by (auto split: if_splits)
    then show ?thesis by (auto simp: True p_def split: option.split)
  next
    case False
    then have "t \<notin> members T home m" by (auto simp: members_def)
    then show ?thesis using g False by (auto simp: global_ok_def)
  qed
  ultimately have "global_ok okay T home (es @ [e]) s' kg' (q(?n := y))" by (simp add: global_ok_def s'(2) del: fun_upd_apply count_snoc count_list_append)
  with nok show ?thesis
    using inv t by (rule_tac hyb_inv_stepI [where p = p]) (auto simp: s' p_def hyb_inv_def split: option.split)
qed

lemma hyb_step_cleanup:
  assumes inv: "hyb_inv okay T home es s" and t: "t \<in> T" "hb_pc s t = Leader_cleanup"
    and s: "hierarchy_hybrid_barrier wait (home t) t (hb_pc s t) s = Some (e, s')"
  shows "hyb_inv okay T home (es @ [e]) s'"
proof -
  let ?n = "home t" and ?M = "members T home (home t)" and ?p = "In_node Bar_start"
  obtain k where k: "node_ok okay T home es s k ?n" using inv t(1) by (auto simp: hyb_inv_def)
  obtain kg q where g: "global_ok okay T home es s kg q" using inv by (auto simp: hyb_inv_def)
  have s': "e = Quiet" "s' = s\<lparr>hb_sync := (hb_sync s)(?n := hierarchy_leader_cleanup (hb_sync s ?n)), hb_pc := (hb_pc s)(t := ?p)\<rparr>"
    using s by (simp_all add: t(2))
  have nl: "node_link ?M (hb_sync s ?n) (hb_pc s) (departs es) k (crosses es ?n)" using k by (simp add: node_ok_def)
  have tM: "t \<in> ?M" using t(1) by (rule memberI)
  have "node_link ?M (hierarchy_leader_cleanup (hb_sync s ?n)) ((hb_pc s)(t := ?p)) (departs es) k (crosses es ?n)"
    by (rule node_link_cleanup [OF nl tM t(2)])
  moreover have i: "okay ?M (hb_bar s ?n) k (departs es) (\<lambda>u. node_pos (hb_pc s u))" using k by (simp add: node_ok_def)
  have "okay ?M (hb_bar s ?n) k (departs es) ((\<lambda>u. node_pos (hb_pc s u))(t := Some Bar_start))"
    using enter [OF i tM] t(2) by simp
  then have "okay ?M (hb_bar s ?n) k (departs es) (\<lambda>u. node_pos (((hb_pc s)(t := ?p)) u))"
    by (rule cong [rotated 2]) auto
  ultimately have nok: "node_ok okay T home (es @ [e]) s' k ?n" by (simp add: node_ok_def s' fun_upd_same del: fun_upd_apply)
  have "global_ok okay T home (es @ [e]) s' kg q"
    by (rule global_ok_other [OF g, of _ _ t ?p]) (use t(2) in \<open>auto simp: s'\<close>)
  with nok show ?thesis
    using inv t by (rule_tac hyb_inv_stepI [where p = ?p]) (auto simp: s' hyb_inv_def)
qed

lemma hyb_step_node:
  assumes inv: "hyb_inv okay T home es s" and t: "t \<in> T" "hb_pc s t = In_node x"
    and s: "hierarchy_hybrid_barrier wait (home t) t (hb_pc s t) s = Some (e, s')"
  shows "hyb_inv okay T home (es @ [e]) s'"
proof -
  let ?n = "home t" and ?M = "members T home (home t)"
  obtain k where k: "node_ok okay T home es s k ?n" using inv t(1) by (auto simp: hyb_inv_def)
  obtain kg q where g: "global_ok okay T home es s kg q" using inv by (auto simp: hyb_inv_def)
  obtain b y where w: "wait (hb_bar s ?n) x = Some (b, y)" using s t(2) by (auto split: option.splits)
  define p where "p = (case y of Some y \<Rightarrow> In_node y | None \<Rightarrow> Away)"
  have s': "e = (if y = None then Depart t else Quiet)" "s' = s\<lparr>hb_bar := (hb_bar s)(?n := b), hb_pc := (hb_pc s)(t := p)\<rparr>"
    using s by (auto simp: t(2) w p_def split: option.splits)
  have nl: "node_link ?M (hb_sync s ?n) (hb_pc s) (departs es) k (crosses es ?n)" using k by (simp add: node_ok_def)
  have tM: "t \<in> ?M" using t(1) by (rule memberI)
  have i: "okay ?M (hb_bar s ?n) k (departs es) (\<lambda>u. node_pos (hb_pc s u))" using k by (simp add: node_ok_def)
  have dep: "departs (es @ [e]) = (if y = None then (departs es)(t := Suc (departs es t)) else departs es)"
    by (intro ext) (simp add: s'(1))
  have cr: "crosses (es @ [e]) ?n = crosses es ?n" by (simp add: s'(1))
  obtain k' where k': "okay ?M b k' (departs (es @ [e])) ((\<lambda>u. node_pos (hb_pc s u))(t := y))"
      "k' = k \<or> k' = Suc k \<and> y = None \<and> (\<forall>z \<in> ?M. departs es z = k \<and> node_pos (hb_pc s z) \<noteq> None)"
    using step [OF i tM _ w] t(2) dep by auto
  have "okay ?M b k' (departs (es @ [e])) (\<lambda>u. node_pos (((hb_pc s)(t := p)) u))"
    using k'(1) by (rule cong [rotated 2]) (auto simp: p_def split: option.split)
  moreover have "node_link ?M (hb_sync s ?n) ((hb_pc s)(t := p)) (departs (es @ [e])) k' (crosses es ?n)"
  proof (cases y)
    case (Some z)
    then have "k' = k" using k'(2) by simp
    then show ?thesis using node_link_in_node [OF nl t(2), of z] by (simp add: p_def Some dep del: count_snoc count_list_append)
  next
    case None
    show ?thesis
    proof (cases "k' = k")
      case True
      moreover have "departs (es @ [e]) t = Suc (departs es t)" by (simp add: s'(1) None)
      ultimately have "Suc (departs es t) = k" using passed [OF k'(1) tM] None by (simp del: count_snoc count_list_append)
      then show ?thesis using node_link_depart [OF nl tM t(2)] by (simp add: True p_def None dep del: count_snoc count_list_append)
    next
      case False
      then have r: "k' = Suc k" "\<forall>z \<in> ?M. departs es z = k \<and> within (hb_pc s z)" using k'(2) by (auto simp: node_pos_None)
      then show ?thesis using node_link_release [OF nl tM r(2)] tM by (simp add: p_def None dep del: count_snoc count_list_append)
    qed
  qed
  ultimately have nok: "node_ok okay T home (es @ [e]) s' k' ?n"
    by (simp add: node_ok_def s'(2) cr fun_upd_same del: fun_upd_apply count_snoc count_list_append)
  have "global_ok okay T home (es @ [e]) s' kg q"
    by (rule global_ok_other [OF g, of _ _ t p]) (use t(2) in \<open>auto simp: s' p_def split: option.splits\<close>)
  with nok show ?thesis
    using inv t by (rule_tac hyb_inv_stepI [where p = p]) (auto simp: s' p_def hyb_inv_def split: option.splits)
qed

lemma hyb_inv_step:
  assumes "hyb_inv okay T home es s" "t \<in> T" "hierarchy_hybrid_barrier wait (home t) t (hb_pc s t) s = Some (e, s')"
  shows "hyb_inv okay T home (es @ [e]) s'"
proof (cases "hb_pc s t")
  case Away
  then show ?thesis using hyb_step_away assms by blast
next
  case Leader_spin
  then show ?thesis using hyb_step_spin assms by blast
next
  case (In_global x)
  then show ?thesis using hyb_step_global assms by blast
next
  case Leader_cleanup
  then show ?thesis using hyb_step_cleanup assms by blast
next
  case (In_node x)
  then show ?thesis using hyb_step_node assms by blast
qed

lemma hyb_inv_run:
  assumes "hyb_inv okay T home es s" "set ts \<subseteq> T" "hyb_run wait home ts s = (fs, u)"
  shows "hyb_inv okay T home (es @ fs) u"
  using assms
proof (induction ts arbitrary: es s fs)
  case (Cons t ts)
  show ?case
  proof (cases "hierarchy_hybrid_barrier wait (home t) t (hb_pc s t) s")
    case None
    then show ?thesis using Cons by simp
  next
    case (Some r)
    obtain e s' where r: "r = (e, s')" by fastforce
    obtain gs where g: "hyb_run wait home ts s' = (gs, u)" "fs = e # gs" using Cons.prems(3) Some r by (auto split: prod.splits)
    have "hyb_inv okay T home (es @ [e]) s'" using hyb_inv_step [OF Cons.prems(1), of t e s'] Cons.prems(2) Some r by simp
    then show ?thesis using Cons.IH [of "es @ [e]" s' gs] Cons.prems(2) g by simp
  qed
qed simp

end


section \<open>Nobody returns early\<close>

lemma node_link_rounds:
  assumes "node_link M l pc d k g" "u \<in> M" "d u = k \<or> Suc (d u) = k \<and> node_pos (pc u) \<noteq> None"
    and "a = d u + (if pc u = Away then 0 else 1)"
  shows "k \<le> g" "g \<le> a" "t \<in> M \<Longrightarrow> leading (pc t) \<Longrightarrow> pc t \<noteq> Leader_cleanup \<Longrightarrow> a = Suc g \<and> g = k"
proof -
  have in': "pc u \<noteq> Away" if "node_pos (pc u) \<noteq> None" using that by auto
  have "k \<le> g \<and> g \<le> a"
    using assms(1) unfolding node_link_def
  proof (elim conjE disjE exE)
    assume "open_node M l pc d k g"
    then show ?thesis using assms(3,4) in' by (auto simp: open_node_def)
  next
    fix t assume t: "led_node M l pc d k g t"
    then have "pc u \<noteq> Away" using assms(2) by (cases "u = t") (auto simp: led_node_def within_iff)
    then show ?thesis using t assms(2,4) by (auto simp: led_node_def)
  next
    assume c: "closed_node M l pc d k g"
    then have "pc u \<noteq> Away" using assms(2) by (auto simp: closed_node_def within_iff)
    then show ?thesis using c assms(2,4) by (auto simp: closed_node_def)
  qed
  then show "k \<le> g" "g \<le> a" by simp_all
  assume t: "t \<in> M" "leading (pc t)" "pc t \<noteq> Leader_cleanup"
  have l: "led_node M l pc d k g t" by (rule node_link_leader(1) [OF assms(1) t(1,2)])
  then have "pc u \<noteq> Away" using assms(2) by (cases "u = t") (auto simp: led_node_def within_iff)
  then show "a = Suc g \<and> g = k" using l assms(2,4) t(3) by (auto simp: led_node_def)
qed

context team_barrier
begin

lemma node_rounds:
  assumes "hyb_inv okay T home es s" "node_ok okay T home es s k n" "u \<in> members T home n"
  shows "departs es u \<le> k" "k \<le> crosses es n" "crosses es n \<le> arrives es u"
    "t \<in> members T home n \<Longrightarrow> leading (hb_pc s t) \<Longrightarrow> hb_pc s t \<noteq> Leader_cleanup \<Longrightarrow>
       arrives es u = Suc (crosses es n) \<and> crosses es n = k"
proof -
  have l: "node_link (members T home n) (hb_sync s n) (hb_pc s) (departs es) k (crosses es n)" using assms(2) by (simp add: node_ok_def)
  have p: "departs es u = k \<or> Suc (departs es u) = k \<and> node_pos (hb_pc s u) \<noteq> None"
    using passed assms(2,3) by (fastforce simp: node_ok_def)
  have a: "arrives es u = departs es u + (if hb_pc s u = Away then 0 else 1)"
    using assms(1,3) by (simp add: hyb_inv_def members_def)
  show "departs es u \<le> k" using p by auto
  show "k \<le> crosses es n" "crosses es n \<le> arrives es u"
    "t \<in> members T home n \<Longrightarrow> leading (hb_pc s t) \<Longrightarrow> hb_pc s t \<noteq> Leader_cleanup \<Longrightarrow>
       arrives es u = Suc (crosses es n) \<and> crosses es n = k"
    using node_link_rounds [OF l assms(3) p a] by blast+
qed

lemma hyb_safe:
  assumes inv: "hyb_inv okay T home es s" and t: "t \<in> T" and u: "u \<in> T"
  shows "departs es t \<le> arrives es u"
proof -
  obtain k where k: "node_ok okay T home es s k (home t)" using inv t by (auto simp: hyb_inv_def)
  obtain j where j: "node_ok okay T home es s j (home u)" using inv u by (auto simp: hyb_inv_def)
  obtain kg q where g: "global_ok okay T home es s kg q" using inv by (auto simp: hyb_inv_def)
  note rt = node_rounds [OF inv k memberI [OF t]] and ru = node_rounds [OF inv j memberI [OF u]]
  have gi: "okay (home ` T) (hb_global s) kg (crosses es) q" using g by (simp add: global_ok_def)
  have p: "crosses es n = kg \<or> Suc (crosses es n) = kg \<and> q n \<noteq> None" if "n \<in> home ` T" for n
    using passed [OF gi that] .
  have "departs es t \<le> kg" using rt(1,2) p [of "home t"] t by force
  moreover have "kg \<le> arrives es u"
  proof (cases "crosses es (home u) = kg")
    case False
    then obtain x where x: "Suc (crosses es (home u)) = kg" "q (home u) = Some x" using p [of "home u"] u by auto
    then obtain v where "v \<in> members T home (home u)" "hb_pc s v = In_global x" using g by (auto simp: global_ok_def)
    then show ?thesis using ru(4) [of v] x(1) by simp
  qed (use ru(3) in simp)
  ultimately show ?thesis by simp
qed

end

section \<open>Nobody is held up for good\<close>

context team_barrier
begin

text \<open>A thread that cannot go on is waiting for one of the barriers, or for the others of its node.\<close>

lemma hyb_stuck_cases:
  assumes "hierarchy_hybrid_barrier wait n t (hb_pc s t) s = None"
  obtains (spin) "hb_pc s t = Leader_spin" "bar_awaited (hb_bar s n) \<noteq> 1"
    | (global) x where "hb_pc s t = In_global x" "wait (hb_global s) x = None"
    | (home) x where "hb_pc s t = In_node x" "wait (hb_bar s n) x = None"
  using assms by (cases "hb_pc s t") (auto simp: Let_def split: if_splits prod.splits option.splits)

lemma stuck_node:
  assumes inv: "hyb_inv okay T home es s" and k: "node_ok okay T home es s k n"
    and all: "\<forall>t \<in> T. arrives es t = m"
    and stuck: "\<forall>t \<in> T. hb_pc s t \<noteq> Away \<longrightarrow> hierarchy_hybrid_barrier wait (home t) t (hb_pc s t) s = None"
    and u: "u \<in> members T home n" "hb_pc s u \<noteq> Away"
  shows "Suc (crosses es n) = m" "\<exists>v \<in> members T home n. \<exists>x. hb_pc s v = In_global x \<and> wait (hb_global s) x = None"
proof -
  let ?M = "members T home n"
  have l: "node_link ?M (hb_sync s n) (hb_pc s) (departs es) k (crosses es n)"
    and i: "okay ?M (hb_bar s n) k (departs es) (\<lambda>t. node_pos (hb_pc s t))" using k by (simp_all add: node_ok_def)
  have a: "m = departs es v + (if hb_pc s v = Away then 0 else 1)" if "v \<in> ?M" for v
    using inv all that by (simp add: hyb_inv_def members_def)
  have st: "hierarchy_hybrid_barrier wait n v (hb_pc s v) s = None" if "v \<in> ?M" "hb_pc s v \<noteq> Away" for v
    using stuck that by (auto simp: members_def)
  have du: "departs es u = k"
  proof (cases "leading (hb_pc s u)")
    case True
    then show ?thesis using node_link_leader(1) [OF l u(1)] u(1) by (auto simp: led_node_def)
  next
    case False
    then obtain x where x: "hb_pc s u = In_node x" using u(2) by (cases "hb_pc s u") auto
    then have "wait (hb_bar s n) x = None" using hyb_stuck_cases [OF st [OF u]] by auto
    then show ?thesis using held_up [OF i u(1)] x by simp
  qed
  then have m: "m = Suc k" using a [OF u(1)] u(2) by simp
  have away: "hb_pc s v \<noteq> Away" "departs es v = k" if "v \<in> ?M" for v
  proof -
    have "departs es v \<le> k" using node_rounds(1) [OF inv k that] .
    then show "hb_pc s v \<noteq> Away" "departs es v = k" using a [OF that] m by (auto split: if_splits)
  qed
  have "\<not> open_node ?M (hb_sync s n) (hb_pc s) (departs es) k (crosses es n)"
  proof
    assume o: "open_node ?M (hb_sync s n) (hb_pc s) (departs es) k (crosses es n)"
    have "{v \<in> ?M. hb_pc s v \<noteq> Away \<and> departs es v = k} = ?M" using away by blast
    then show False using o by (auto simp: open_node_def)
  qed
  moreover have w: "\<exists>x. node_pos (hb_pc s v) = Some x \<and> wait (hb_bar s n) x = None" if "v \<in> ?M" "within (hb_pc s v)" for v
    using st [OF that(1) away(1) [OF that(1)]] by (cases rule: hyb_stuck_cases) (use that(2) in auto)
  have "\<not> closed_node ?M (hb_sync s n) (hb_pc s) (departs es) k (crosses es n)"
  proof
    assume c: "closed_node ?M (hb_sync s n) (hb_pc s) (departs es) k (crosses es n)"
    obtain v where v: "v \<in> ?M" "\<forall>x. node_pos (hb_pc s v) = Some x \<longrightarrow> wait (hb_bar s n) x \<noteq> None"
      using not_all_held_up [OF i] by blast
    have "within (hb_pc s v)" using c v(1) by (simp add: closed_node_def)
    from w [OF v(1) this] v(2) show False by blast
  qed
  ultimately obtain v where v: "led_node ?M (hb_sync s n) (hb_pc s) (departs es) k (crosses es n) v"
    using l by (auto simp: node_link_def)
  have vM: "v \<in> ?M" "leading (hb_pc s v)" using v by (simp_all add: led_node_def)
  from st [OF vM(1) away(1) [OF vM(1)]] have gx: "\<exists>x. hb_pc s v = In_global x \<and> wait (hb_global s) x = None"
  proof (cases rule: hyb_stuck_cases)
    case spin
    have "bar_awaited (hb_bar s n) = 1"
    proof (rule one_missing [OF i vM(1)])
      show "node_pos (hb_pc s v) = None" by (simp add: spin)
      show "\<forall>z \<in> ?M - {v}. \<exists>x. node_pos (hb_pc s z) = Some x \<and> wait (hb_bar s n) x = None"
        using v w by (auto simp: led_node_def)
    qed
    then show ?thesis using spin by simp
  next
    case home
    then show ?thesis using vM(2) by simp
  qed blast
  then show "\<exists>v \<in> ?M. \<exists>x. hb_pc s v = In_global x \<and> wait (hb_global s) x = None" using vM(1) by blast
  show "Suc (crosses es n) = m" using v m gx by (auto simp: led_node_def)
qed

lemma hyb_not_stuck:
  assumes inv: "hyb_inv okay T home es s" and all: "\<forall>t \<in> T. arrives es t = m" and u: "u \<in> T" "hb_pc s u \<noteq> Away"
  shows "\<exists>t \<in> T. hb_pc s t \<noteq> Away \<and> hierarchy_hybrid_barrier wait (home t) t (hb_pc s t) s \<noteq> None"
proof (rule ccontr)
  assume "\<not> ?thesis"
  then have stuck: "\<forall>t \<in> T. hb_pc s t \<noteq> Away \<longrightarrow> hierarchy_hybrid_barrier wait (home t) t (hb_pc s t) s = None" by blast
  obtain kg q where g: "global_ok okay T home es s kg q" using inv by (auto simp: hyb_inv_def)
  then have i: "okay (home ` T) (hb_global s) kg (crosses es) q" by (simp add: global_ok_def)
  have sn: "Suc (crosses es n) = m \<and> (\<exists>x. q n = Some x \<and> wait (hb_global s) x = None)"
    if "v \<in> members T home n" "hb_pc s v \<noteq> Away" for n v
  proof -
    have "n \<in> home ` T" using that(1) by (auto simp: members_def)
    then obtain k where k: "node_ok okay T home es s k n" using inv by (auto simp: hyb_inv_def)
    from stuck_node [OF inv k all stuck that] show ?thesis using g by (auto simp: global_ok_def)
  qed
  obtain x where x: "q (home u) = Some x" "wait (hb_global s) x = None" "Suc (crosses es (home u)) = m"
    using sn [OF memberI [OF u(1)] u(2)] by blast
  have kg: "Suc kg = m" using held_up [OF i _ x(1,2)] u(1) x(3) by simp
  have "\<exists>x. q n = Some x \<and> wait (hb_global s) x = None" if n: "n \<in> home ` T" for n
  proof (cases "\<exists>v \<in> members T home n. hb_pc s v \<noteq> Away")
    case True
    then show ?thesis using sn by blast
  next
    case False
    obtain v where v: "v \<in> T" "home v = n" using n by auto
    obtain k where k: "node_ok okay T home es s k n" using inv n by (auto simp: hyb_inv_def)
    have vM: "v \<in> members T home n" using v by (simp add: members_def)
    have "m = departs es v" using inv all v(1) False vM by (simp add: hyb_inv_def)
    also have "\<dots> \<le> crosses es n" using node_rounds(1,2) [OF inv k vM] by simp
    also have "\<dots> \<le> kg" using passed [OF i n] by auto
    finally show ?thesis using kg by simp
  qed
  then have held: "\<exists>x. q n = Some x \<and> wait (hb_global s) x = None" if "n \<in> home ` T" for n using that by blast
  obtain n where n: "n \<in> home ` T" "\<forall>x. q n = Some x \<longrightarrow> wait (hb_global s) x \<noteq> None"
    using not_all_held_up [OF i] by blast
  from held [OF n(1)] n(2) show False by blast
qed

text \<open>Every step of a thread within the barrier takes it further.\<close>

fun hyb_rank :: "hyb_pc \<Rightarrow> nat" where
  "hyb_rank Away = 0"
| "hyb_rank (In_node x) = Suc (rank x)"
| "hyb_rank Leader_cleanup = 2 + rank Bar_start"
| "hyb_rank (In_global x) = 3 + rank Bar_start + rank x"
| "hyb_rank Leader_spin = 4 + rank Bar_start + rank Bar_start"

lemma hyb_step_rank:
  assumes "hierarchy_hybrid_barrier wait n t (hb_pc s t) s = Some (e, s')" "hb_pc s t \<noteq> Away"
  shows "\<exists>p. hb_pc s' = (hb_pc s)(t := p) \<and> hyb_rank p < hyb_rank (hb_pc s t) \<and> (\<forall>u. e \<noteq> Arrive u)"
  using assms progress
  by (cases "hb_pc s t") (fastforce simp: Let_def split: if_splits option.splits)+

lemma hyb_completes:
  assumes "hyb_inv okay T home es s" "finite T" "\<forall>t \<in> T. arrives es t = m"
  shows "\<exists>ts fs u. set ts \<subseteq> T \<and> hyb_run wait home ts s = (fs, u) \<and> (\<forall>t \<in> T. hb_pc u t = Away \<and> departs (es @ fs) t = m)"
  using assms
proof (induction "\<Sum>t\<in>T. hyb_rank (hb_pc s t)" arbitrary: es s rule: less_induct)
  case less
  show ?case
  proof (cases "\<forall>t \<in> T. hb_pc s t = Away")
    case True
    have "departs es t = m" if "t \<in> T" for t using less.prems(1,3) True that by (simp add: hyb_inv_def)
    then show ?thesis using True by (intro exI [of _ "[]"]) simp
  next
    case False
    then obtain t e s' where t: "t \<in> T" "hb_pc s t \<noteq> Away" and st: "hierarchy_hybrid_barrier wait (home t) t (hb_pc s t) s = Some (e, s')"
      using hyb_not_stuck [OF less.prems(1,3)] by fast
    obtain p where p: "hb_pc s' = (hb_pc s)(t := p)" "hyb_rank p < hyb_rank (hb_pc s t)" "\<forall>u. e \<noteq> Arrive u"
      using hyb_step_rank [OF st t(2)] by blast
    have "(\<Sum>u\<in>T - {t}. hyb_rank (hb_pc s' u)) = (\<Sum>u\<in>T - {t}. hyb_rank (hb_pc s u))"
      by (rule sum.cong) (auto simp: p(1))
    then have "(\<Sum>u\<in>T. hyb_rank (hb_pc s' u)) < (\<Sum>u\<in>T. hyb_rank (hb_pc s u))"
      using p(1,2) less.prems(2) t(1) by (simp add: sum.remove [of T t])
    moreover have "hyb_inv okay T home (es @ [e]) s'" by (rule hyb_inv_step [OF less.prems(1) t(1) st])
    moreover have "\<forall>u \<in> T. arrives (es @ [e]) u = m" using less.prems(3) p(3) by simp
    ultimately obtain ts fs u where r: "set ts \<subseteq> T" "hyb_run wait home ts s' = (fs, u)"
        "\<forall>t \<in> T. hb_pc u t = Away \<and> departs ((es @ [e]) @ fs) t = m"
      using less.hyps [of s' "es @ [e]"] less.prems(2) by blast
    then show ?thesis
      using t(1) st by (intro exI [of _ "t # ts"] exI [of _ "e # fs"] exI [of _ u]) simp
  qed
qed

end


section \<open>Teams\<close>

text \<open>The nodes that take part, each once, and the number of threads on each.\<close>

definition forms_team :: "nat set \<Rightarrow> (nat \<Rightarrow> nat) \<Rightarrow> nat list \<Rightarrow> (nat \<Rightarrow> int) \<Rightarrow> bool" where
  "forms_team T home nodes threads \<longleftrightarrow> finite T \<and> T \<noteq> {} \<and> card T < 2 ^ 32 \<and> distinct nodes \<and> set nodes = home ` T \<and>
     (\<forall>n \<in> set nodes. threads n = int (card (members T home n)))"

text \<open>Starting a team as \<open>gomp_team_start\<close> does forms one.\<close>

lemma started_team:
  assumes "placement_ok g n" "0 < n"
  shows "forms_team {0..<n} (\<lambda>t. fst (team_start_places n g) ! t) (team_nodes (snd (team_start_places n g)))
    (\<lambda>k. threads_per_node (snd (team_start_places n g)) ! k)"
proof -
  define ks where "ks = fst (team_start_places n g)"
  define h where "h = snd (team_start_places n g)"
  have e: "ks = thread_nodes (g\<lparr>threads_per_node := replicate max_nodes 0\<rparr>) 0 n"
    "threads_per_node h = map (\<lambda>k. int (count_list ks k)) [0..<max_nodes]"
    using assign_threads_eq [of "g\<lparr>threads_per_node := replicate max_nodes 0\<rparr>" n 0] assms(1)
    by (auto simp: ks_def h_def team_start_places_def placement_ok_def wf_global_def)
  have len: "length ks = n" by (simp add: e(1) thread_nodes_def)
  have mx: "k < max_nodes" if "k \<in> set ks" for k
    using that node_of_thread_max assms(1) by (auto simp: e(1) thread_nodes_def placement_ok_def wf_global_def)
  have c: "count_list ks k = card (members {0..<n} ((!) ks) k)" for k
  proof -
    have "count_list ks k = length (filter ((=) k) (map ((!) ks) [0..<n]))"
      by (simp only: count_list_eq_length_filter len [symmetric] map_nth)
    also have "\<dots> = length (filter (\<lambda>t. k = ks ! t) [0..<n])" by (simp add: filter_map comp_def)
    also have "\<dots> = card {t \<in> {0..<n}. k = ks ! t}" by (simp add: distinct_length_filter Int_def conj_commute)
    also have "{t \<in> {0..<n}. k = ks ! t} = members {0..<n} ((!) ks) k" by (auto simp: members_def)
    finally show ?thesis .
  qed
  have tn: "set (team_nodes h) = set ks"
    using mx count_list_0_iff [of ks] by (auto simp: team_nodes_def e(2))
  have im: "(!) ks ` {0..<n} = set ks" using len by (auto simp: set_conv_nth)
  show ?thesis
    unfolding forms_team_def ks_def [symmetric] h_def [symmetric]
    using assms tn im c mx by (auto simp: e(2) team_nodes_def placement_ok_def)
qed

lemma fold_init_node:
  assumes "distinct nodes"
  shows "hb_bar (fold (\<lambda>n. hierarchy_init_node n (threads n)) nodes s) n =
      (if n \<in> set nodes then gomp_barrier_reinit_all (threads n) (hb_bar s n) else hb_bar s n)"
    "hb_sync (fold (\<lambda>n. hierarchy_init_node n (threads n)) nodes s) n =
      (if n \<in> set nodes then all_remaining (threads n) else hb_sync s n)"
    "hb_opt (fold (\<lambda>n. hierarchy_init_node n (threads n)) nodes s) n =
      (if n \<in> set nodes then all_remaining (threads n) else hb_opt s n)"
    "hb_pc (fold (\<lambda>n. hierarchy_init_node n (threads n)) nodes s) = hb_pc s"
    "hb_global (fold (\<lambda>n. hierarchy_init_node n (threads n)) nodes s) = hb_global s"
  using assms by (induction nodes arbitrary: s) (auto simp: hierarchy_init_node_def)

lemma reinit_bar_ok:
  assumes "clean_generation b" "finite P" "P \<noteq> {}" "card P < 2 ^ 32" "\<And>p. p \<in> P \<Longrightarrow> c p = 0" "\<And>p. p \<in> P \<Longrightarrow> q p = None"
  shows "bar_ok P (gomp_barrier_reinit_all (int (card P)) b) 0 c q"
proof -
  have "bar_inv (bar_generation b) P (gomp_barrier_reinit_all (int (card P)) b) 0 c q"
    using assms by (intro bar_inv_start) (auto simp: clean_generation_def gomp_barrier_reinit_all_def)
  then show ?thesis by (auto simp: bar_ok_def)
qed

lemma hyb_inv_start:
  assumes team: "forms_team T home nodes threads" and idle: "team_idle T s0"
  shows "hyb_inv bar_ok T home [] (init_team nodes threads s0)"
proof -
  let ?s = "init_team nodes threads s0"
  have t: "finite T" "T \<noteq> {}" "card T < 2 ^ 32" "distinct nodes" "set nodes = home ` T"
      "\<And>n. n \<in> home ` T \<Longrightarrow> threads n = int (card (members T home n))"
    using team by (auto simp: forms_team_def)
  note f = fold_init_node [OF t(4), of threads s0]
  have pc: "hb_pc ?s = hb_pc s0" by (simp add: init_team_def hierarchy_init_global_def f)
  have "node_ok bar_ok T home [] ?s 0 n" if n: "n \<in> home ` T" for n
  proof -
    let ?M = "members T home n"
    have M: "finite ?M" "?M \<noteq> {}" "card ?M < 2 ^ 32"
      using t(1,3) n card_mono [OF t(1), of ?M] by (auto simp: members_def)
    have "bar_ok ?M (gomp_barrier_reinit_all (int (card ?M)) (hb_bar s0 n)) 0 (departs []) (\<lambda>u. node_pos (hb_pc ?s u))"
      using idle M by (intro reinit_bar_ok) (auto simp: team_idle_def pc members_def)
    moreover have "open_node ?M (all_remaining (int (card ?M))) (hb_pc ?s) (departs []) 0 0"
    proof -
      have "card {u \<in> ?M. hb_pc ?s u \<noteq> Away \<and> departs [] u = 0} = 0"
        using idle by (auto simp: team_idle_def pc members_def card_eq_0_iff)
      moreover have "0 < card ?M" using M by (simp add: card_gt_0_iff)
      moreover have "\<not> leading (hb_pc ?s u)" if "u \<in> ?M" for u using idle that by (auto simp: team_idle_def pc members_def)
      ultimately show ?thesis by (simp add: open_node_def all_remaining_def)
    qed
    ultimately show ?thesis
      using n t(5,6) M by (simp add: node_ok_def node_link_def init_team_def hierarchy_init_global_def f all_remaining_def)
  qed
  moreover have "global_ok bar_ok T home [] ?s 0 (\<lambda>_. None)"
  proof -
    have c: "card (home ` T) = length nodes" using t(4,5) by (metis distinct_card)
    have "card (home ` T) < 2 ^ 32" using card_image_le [OF t(1), of home] t(3) by simp
    then have "bar_ok (home ` T) (gomp_barrier_reinit_all (int (card (home ` T))) (hb_global s0)) 0 (crosses []) (\<lambda>_. None)"
      using t(1,2) idle by (intro reinit_bar_ok) (auto simp: team_idle_def)
    moreover have "hb_global ?s = gomp_barrier_reinit_all (int (card (home ` T))) (hb_global s0)"
      by (simp add: init_team_def hierarchy_init_global_def f c)
    ultimately show ?thesis using idle by (auto simp: global_ok_def pc team_idle_def members_def)
  qed
  ultimately show ?thesis using idle by (auto simp: hyb_inv_def pc team_idle_def)
qed

text \<open>
  C28: No thread gets past a barrier early: in every interleaving of the threads of a team, a thread has returned from
  \<open>hierarchy_hybrid_barrier\<close> at most as often as every thread of every node has called it.
\<close>

theorem hybrid_barrier_safe:
  assumes "forms_team T home nodes threads" "team_idle T s0" "set ts \<subseteq> T" "t \<in> T" "u \<in> T"
    and "hyb_run gomp_team_barrier_wait home ts (init_team nodes threads s0) = (es, s)"
  shows "count_list es (Depart t) \<le> count_list es (Arrive u)"
  using team_bar.hyb_safe [OF team_bar.hyb_inv_run [OF hyb_inv_start [OF assms(1,2)] assms(3,6)] assms(4,5)] by simp

text \<open>
  C29: And no thread is held up for good: whenever all threads of the team have called the barrier the same number of
  times, there are steps after which all have returned from every call, so that it can be used again.
\<close>

theorem hybrid_barrier_completes:
  assumes "forms_team T home nodes threads" "team_idle T s0" "set ts \<subseteq> T"
    and "hyb_run gomp_team_barrier_wait home ts (init_team nodes threads s0) = (es, s)"
    and "\<forall>t \<in> T. count_list es (Arrive t) = m"
  shows "\<exists>ts' fs u. set ts' \<subseteq> T \<and> hyb_run gomp_team_barrier_wait home ts' s = (fs, u) \<and>
    (\<forall>t \<in> T. hb_pc u t = Away \<and> count_list (es @ fs) (Depart t) = m)"
proof -
  have f: "finite T" using assms(1) by (simp add: forms_team_def)
  show ?thesis
    using team_bar.hyb_completes [OF team_bar.hyb_inv_run [OF hyb_inv_start [OF assms(1,2)] assms(3,4)] f] assms(5) by simp
qed

section \<open>Three threads on two nodes\<close>

definition example_idle :: hyb_state where
  "example_idle = \<lparr>hb_bar = (\<lambda>_. \<lparr>bar_total = 0, bar_generation = 2 ^ 32 - 8, bar_awaited = 0, bar_awaited_final = 0\<rparr>),
     hb_sync = (\<lambda>_. all_remaining 0), hb_opt = (\<lambda>_. all_remaining 0),
     hb_global = \<lparr>bar_total = 0, bar_generation = 0, bar_awaited = 0, bar_awaited_final = 0\<rparr>,
     hb_global_sync = all_remaining 0, hb_global_opt = all_remaining 0, hb_pc = (\<lambda>_. Away)\<rparr>"

definition example_turns :: "nat \<Rightarrow> nat list" where
  "example_turns n = concat (replicate n [0, 1, 2])"

definition example_barriers :: "nat \<Rightarrow> hyb_event list \<times> hyb_state" where
  "example_barriers n =
     hyb_run gomp_team_barrier_wait (\<lambda>t. t div 2) (example_turns n) (init_team [0, 1] (\<lambda>n. if n = 0 then 2 else 1) example_idle)"

lemma example_turns_set: "set (example_turns n) \<subseteq> {0, 1, 2}"
  by (auto simp: example_turns_def)

lemma example_forms_team: "forms_team {0, 1, 2} (\<lambda>t. t div 2) [0, 1] (\<lambda>n. if n = 0 then 2 else 1)"
proof -
  have "members {0, 1, 2} (\<lambda>t. t div 2) 0 = {0, 1}" "members {0, 1, 2} (\<lambda>t. t div 2) (Suc 0) = {2}"
    by (auto simp: members_def)
  then show ?thesis by (simp add: forms_team_def)
qed

lemma example_team_idle: "team_idle {0, 1, 2} example_idle"
  by (simp add: team_idle_def example_idle_def clean_generation_def fits_U32)

lemma example_barriers_events:
  "count_list (fst (example_barriers 20)) (Depart 0) = 1" "count_list (fst (example_barriers 1)) (Arrive 0) = 1"
  "count_list (fst (example_barriers 1)) (Arrive 1) = 1" "count_list (fst (example_barriers 1)) (Arrive 2) = 1"
  by code_simp+

theorem hybrid_barrier_safe_witness:
  "count_list (fst (example_barriers 20)) (Depart 0) = 1 \<and> 1 \<le> count_list (fst (example_barriers 20)) (Arrive 2)"
  using hybrid_barrier_safe [OF example_forms_team example_team_idle example_turns_set, of 0 2 20 "fst (example_barriers 20)" "snd (example_barriers 20)"]
    example_barriers_events(1)
  by (simp add: example_barriers_def)

theorem hybrid_barrier_completes_witness:
  "\<exists>ts' fs u. set ts' \<subseteq> {0, 1, 2} \<and> hyb_run gomp_team_barrier_wait (\<lambda>t. t div 2) ts' (snd (example_barriers 1)) = (fs, u) \<and>
    (\<forall>t \<in> {0, 1, 2}. hb_pc u t = Away \<and> count_list (fst (example_barriers 1) @ fs) (Depart t) = 1)"
  by (rule hybrid_barrier_completes [OF example_forms_team example_team_idle example_turns_set [of 1]])
    (use example_barriers_events(2-4) in \<open>simp_all add: example_barriers_def\<close>)

end
