(* ===== verification/Omp_Reduce_Correct.thy ===== *)
theory Omp_Reduce_Correct
  imports Omp_Reduce Omp_Hybrid_Correct
begin

text \<open>
  Correctness of hierarchical reductions: the one thread for which \<open>hierarchy_reduce\<close> returns true has the data of all
  threads of the team combined, each once, whatever the interleaving; all threads can return; and the selections and
  the entries are then as they were before.
\<close>

section \<open>Combinations\<close>

text \<open>The values that are the data of the threads of a set, combined by the function, each used once.\<close>

inductive combines :: "('a \<Rightarrow> 'a \<Rightarrow> 'a) \<Rightarrow> (nat \<Rightarrow> 'a) \<Rightarrow> nat set \<Rightarrow> 'a \<Rightarrow> bool"
  for f :: "'a \<Rightarrow> 'a \<Rightarrow> 'a" and d :: "nat \<Rightarrow> 'a" where
  single: "combines f d {t} (d t)"
| join: "combines f d A x \<Longrightarrow> combines f d B y \<Longrightarrow> A \<inter> B = {} \<Longrightarrow> combines f d (A \<union> B) (f x y)"

lemma combines_finite: "combines f d A x \<Longrightarrow> finite A \<and> A \<noteq> {}"
  by (induction rule: combines.induct) auto

text \<open>With a function that adds, this is the sum.\<close>

lemma combines_sum:
  fixes w :: "'a \<Rightarrow> 'm :: comm_monoid_add"
  assumes "combines f d A x" "\<And>x y. w (f x y) = w x + w y"
  shows "w x = (\<Sum>t \<in> A. w (d t))"
  using assms(1)
proof (induction rule: combines.induct)
  case (join A x B y)
  then show ?case using assms(2) combines_finite [OF join.hyps(1)] combines_finite [OF join.hyps(2)] by (simp add: sum.union_disjoint)
qed simp

section \<open>Gathering\<close>

text \<open>
  Of the contributors \<open>C\<close>, a leader has combined the data of \<open>A\<close>. An entry belongs to the contributor \<open>who\<close> of
  the thread whose number is in it; those in \<open>A\<close> have been cleared, except one that is about to be.
\<close>

fun gathered :: "gather \<Rightarrow> nat" where
  "gathered (G_while r) = r"
| "gathered (G_entry i r) = r"
| "gathered (G_combine i r p) = r"
| "gathered (G_clear i r) = Suc r"

fun clearing :: "gather \<Rightarrow> nat option" where
  "clearing (G_clear i r) = Some i"
| "clearing _ = None"

fun has_read :: "gather \<Rightarrow> (nat \<times> nat) option" where
  "has_read (G_combine i r p) = Some (i, p)"
| "has_read _ = None"

definition entries_ok :: "(nat \<Rightarrow> nat) \<Rightarrow> nat set \<Rightarrow> (nat \<Rightarrow> nat option) \<Rightarrow> nat option \<Rightarrow> nat set \<Rightarrow> bool" where
  "entries_ok who C entries c A \<longleftrightarrow>
     (\<forall>i t. entries i = Some t \<longrightarrow> who t \<in> C \<and> (who t \<in> A \<longleftrightarrow> c = Some i)) \<and>
     (\<forall>i j t u. entries i = Some t \<longrightarrow> entries j = Some u \<longrightarrow> who t = who u \<longrightarrow> i = j)"

definition gathering :: "(nat \<Rightarrow> nat) \<Rightarrow> nat set \<Rightarrow> (nat \<Rightarrow> nat option) \<Rightarrow> gather \<Rightarrow> nat set \<Rightarrow> bool" where
  "gathering who C entries g A \<longleftrightarrow> finite C \<and> A \<subseteq> C \<and> card A = gathered g \<and> entries_ok who C entries (clearing g) A \<and>
     (\<forall>i p. has_read g = Some (i, p) \<longrightarrow> entries i = Some p) \<and> (\<forall>i. clearing g = Some i \<longrightarrow> entries i \<noteq> None)"

lemma entries_okD:
  assumes "entries_ok who C entries c A" "entries i = Some t"
  shows "who t \<in> C" "who t \<in> A \<longleftrightarrow> c = Some i" "entries j = Some u \<Longrightarrow> who t = who u \<Longrightarrow> i = j"
  using assms unfolding entries_ok_def by blast+

lemma entries_ok_put:
  assumes ok: "entries_ok who C entries c A" and e: "entries i = None" "c \<noteq> Some i"
    and t: "who t \<in> C" "who t \<notin> A" "\<And>j u. entries j = Some u \<Longrightarrow> who u \<noteq> who t"
  shows "entries_ok who C (entries(i := Some t)) c A"
  unfolding entries_ok_def
proof (intro conjI allI impI)
  fix j u assume u: "(entries(i := Some t)) j = Some u"
  show "who u \<in> C" using u t(1) entries_okD(1) [OF ok, of j u] by (auto split: if_splits)
  show "who u \<in> A \<longleftrightarrow> c = Some j" using u t(2) e(2) entries_okD(2) [OF ok, of j u] by (auto split: if_splits)
  fix k v assume v: "(entries(i := Some t)) k = Some v" "who u = who v"
  show "j = k"
  proof (cases "j = i \<or> k = i")
    case True
    have "u = t" if "j = i" using u that by simp
    moreover have "v = t" if "k = i" using v(1) that by simp
    moreover have "entries j = Some u" if "j \<noteq> i" using u that by simp
    moreover have "entries k = Some v" if "k \<noteq> i" using v(1) that by simp
    ultimately show ?thesis using True v(2) t(3) by metis
  next
    case False
    then have "entries j = Some u" "entries k = Some v" using u v(1) by simp_all
    then show ?thesis using v(2) by (rule entries_okD(3) [OF ok])
  qed
qed

lemma entries_ok_take:
  assumes ok: "entries_ok who C entries None A" and p: "entries i = Some p"
  shows "entries_ok who C entries (Some i) (insert (who p) A)"
  unfolding entries_ok_def
proof (intro conjI allI impI)
  fix j u assume u: "entries j = Some u"
  show "who u \<in> C" by (rule entries_okD(1) [OF ok u])
  have "who u \<notin> A" using entries_okD(2) [OF ok u] by simp
  moreover have "who u = who p \<longleftrightarrow> i = j" using entries_okD(3) [OF ok p u] u p by fastforce
  ultimately show "who u \<in> insert (who p) A \<longleftrightarrow> Some i = Some j" by simp
  fix k v assume "entries k = Some v" "who u = who v"
  then show "j = k" by (rule entries_okD(3) [OF ok u])
qed

lemma entries_ok_clear:
  assumes ok: "entries_ok who C entries (Some i) A"
  shows "entries_ok who C (entries(i := None)) None A"
  unfolding entries_ok_def
proof (intro conjI allI impI)
  fix j u assume "(entries(i := None)) j = Some u"
  then have u: "entries j = Some u" "j \<noteq> i" by (auto split: if_splits)
  show "who u \<in> C" by (rule entries_okD(1) [OF ok u(1)])
  show "who u \<in> A \<longleftrightarrow> None = Some j" using entries_okD(2) [OF ok u(1)] u(2) by simp
  fix k v assume "(entries(i := None)) k = Some v" "who u = who v"
  then show "j = k" using entries_okD(3) [OF ok u(1), of k v] by (auto split: if_splits)
qed

text \<open>The contributors whose data is in an entry or combined.\<close>

definition received :: "(nat \<Rightarrow> nat) \<Rightarrow> (nat \<Rightarrow> nat option) \<Rightarrow> nat set \<Rightarrow> nat set" where
  "received who entries A = A \<union> {c. \<exists>i t. entries i = Some t \<and> who t = c}"

lemma received_clear:
  assumes "\<And>t. entries j = Some t \<Longrightarrow> who t \<in> A"
  shows "received who (entries(j := None)) A = received who entries A"
proof (intro set_eqI iffI)
  fix c assume "c \<in> received who entries A"
  then consider "c \<in> A" | i t where "entries i = Some t" "who t = c" "c \<notin> A" by (auto simp: received_def)
  then show "c \<in> received who (entries(j := None)) A"
  proof cases
    case 2
    then have "(entries(j := None)) i = Some t" using assms by auto
    then show ?thesis using 2(2) unfolding received_def by blast
  qed (simp add: received_def)
next
  fix c assume "c \<in> received who (entries(j := None)) A"
  then show "c \<in> received who entries A" by (auto simp: received_def split: if_splits)
qed

lemma gathering_start:
  assumes "finite C" "c \<in> C" "\<And>i. entries i = None"
  shows "gathering who C entries (G_while 1) {c}"
  using assms by (simp add: gathering_def entries_ok_def)

lemma gathering_bound: "gathering who C entries g A \<Longrightarrow> gathered g \<le> card C"
  by (metis card_mono gathering_def)

lemma gathering_put:
  assumes inv: "gathering who C entries g A" and t: "entries i = None" "who t \<in> C" "who t \<notin> received who entries A"
  shows "gathering who C (entries(i := Some t)) g A"
    and "received who (entries(i := Some t)) A = insert (who t) (received who entries A)"
proof -
  note i = inv [unfolded gathering_def]
  have "entries_ok who C (entries(i := Some t)) (clearing g) A"
    using i t by (intro entries_ok_put) (auto simp: received_def)
  then show "gathering who C (entries(i := Some t)) g A" using i t(1) by (auto simp: gathering_def)
  show "received who (entries(i := Some t)) A = insert (who t) (received who entries A)"
    using t(1) by (auto simp: received_def split: if_splits) (metis option.distinct(1))
qed

text \<open>A step takes the data of one more contributor, or none.\<close>

fun taken :: "gather \<Rightarrow> nat option" where
  "taken (G_combine i r p) = Some p"
| "taken _ = None"

definition with_taken :: "(nat \<Rightarrow> nat) \<Rightarrow> gather \<Rightarrow> nat set \<Rightarrow> nat set" where
  "with_taken who g A = (case taken g of None \<Rightarrow> A | Some p \<Rightarrow> insert (who p) A)"

lemma gathering_step:
  assumes inv: "gathering who C entries g A" and cnt: "cnt = int (card C)"
    and s: "gather_step f me skip lim cnt g (entries, d) = (g', entries', d')"
  shows "case g' of
      Some h \<Rightarrow> gathering who C entries' h (with_taken who g A)
    | None \<Rightarrow> A = C \<and> (\<forall>i. entries' i = None)"
    and "received who entries' (with_taken who g A) = received who entries A"
    and "\<And>i. entries' i = None \<or> entries' i = entries i"
    and "d' = (case taken g of None \<Rightarrow> d | Some p \<Rightarrow> d(me := f (d me) (d p)))"
proof -
  note i = inv [unfolded gathering_def]
  have fA: "finite A" using i by (meson finite_subset)
  show "case g' of Some h \<Rightarrow> gathering who C entries' h (with_taken who g A) | None \<Rightarrow> A = C \<and> (\<forall>i. entries' i = None)"
  proof (cases g)
    case (G_while r)
    show ?thesis
    proof (cases "int r < cnt")
      case True
      then show ?thesis using s i G_while by (auto simp: gathering_def with_taken_def)
    next
      case False
      then have "card C \<le> card A" using i cnt G_while by simp
      then have "A = C" using i by (intro card_seteq) auto
      moreover have "entries j = None" for j
        using entries_okD(1,2) [of who C entries "clearing g" A j] i \<open>A = C\<close> G_while by (cases "entries j") auto
      ultimately show ?thesis using s False G_while by auto
    qed
  next
    case (G_entry j r)
    then show ?thesis using s inv by (auto simp: gathering_def with_taken_def split: if_splits option.splits)
  next
    case (G_combine j r p)
    have p: "entries j = Some p" and ok: "entries_ok who C entries None A" using i G_combine by auto
    have "who p \<in> C" "who p \<notin> A" using entries_okD(1,2) [OF ok p] by simp_all
    moreover have "card (insert (who p) A) = Suc r" using i G_combine \<open>who p \<notin> A\<close> fA by simp
    ultimately have "gathering who C entries (G_clear j r) (insert (who p) A)"
      using i entries_ok_take [OF ok p] p by (simp add: gathering_def)
    then show ?thesis using s G_combine by (auto simp: with_taken_def)
  next
    case (G_clear j r)
    then have "gathering who C (entries(j := None)) (G_entry (Suc j) (Suc r)) A"
      using i entries_ok_clear [of who C entries j A] by (simp add: gathering_def)
    then show ?thesis using s G_clear by (auto simp: with_taken_def)
  qed
  show "received who entries' (with_taken who g A) = received who entries A"
  proof (cases g)
    case (G_combine j r p)
    then have "entries j = Some p" using i by auto
    then show ?thesis using s G_combine by (auto simp: received_def with_taken_def)
  next
    case (G_clear j r)
    have "who t \<in> A" if "entries j = Some t" for t using entries_okD(2) [of who C entries "Some j" A j t] i G_clear that by auto
    then show ?thesis using s G_clear received_clear [of entries j who A] by (simp add: with_taken_def)
  qed (use s in \<open>auto simp: received_def with_taken_def split: if_splits option.splits\<close>)
  show "\<And>i. entries' i = None \<or> entries' i = entries i"
    using s by (cases g) (auto split: if_splits option.splits)
  show "d' = (case taken g of None \<Rightarrow> d | Some p \<Rightarrow> d(me := f (d me) (d p)))"
    using s by (cases g) (auto split: if_splits option.splits)
qed

section \<open>The invariant of a node\<close>

fun leads :: "red_pc \<Rightarrow> bool" where
  "leads Red_enter \<longleftrightarrow> False"
| "leads (Red_put k) \<longleftrightarrow> False"
| "leads (Red_done b) \<longleftrightarrow> False"
| "leads _ \<longleftrightarrow> True"

fun owns_node :: "red_pc \<Rightarrow> bool" where
  "owns_node (Red_node g) \<longleftrightarrow> True"
| "owns_node Red_elect \<longleftrightarrow> True"
| "owns_node Red_publish \<longleftrightarrow> True"
| "owns_node _ \<longleftrightarrow> False"

text \<open>
  Of the threads \<open>M\<close> of a node none has come, or one of them is the leader and has combined the data of \<open>A\<close>, or all
  have returned.
\<close>

definition node_fresh where
  "node_fresh d0 M l entries pc d \<longleftrightarrow> (\<forall>t \<in> M. pc t = Red_enter \<and> d t = d0 t) \<and> ls_remaining l = int (card M) \<and>
     (\<forall>i. entries i = None)"

definition node_gathered where
  "node_gathered M entries p A \<longleftrightarrow> (case p of Red_node g \<Rightarrow> gathering id M entries g A | _ \<Rightarrow> A = M \<and> (\<forall>i. entries i = None))"

definition node_led where
  "node_led f d0 M l entries pc d me A \<longleftrightarrow> me \<in> A \<and> A \<subseteq> M \<and> leads (pc me) \<and>
     (\<forall>t \<in> M - {me}. \<not> leads (pc t) \<and> pc t \<noteq> Red_done True \<and> d t = d0 t) \<and>
     ls_remaining l = int (card M) - int (card {t \<in> M. pc t \<noteq> Red_enter}) \<and>
     received id entries A = insert me {t \<in> M. pc t = Red_done False} \<and> node_gathered M entries (pc me) A \<and>
     (owns_node (pc me) \<longrightarrow> combines f d0 A (d me)) \<and>
     (\<forall>t \<in> M. \<forall>k. pc t = Red_put k \<longrightarrow> 0 \<le> k \<and> k < int (card M)) \<and> (\<forall>i. entries i \<noteq> None \<longrightarrow> i < min (card M) 48)"

definition node_closed where
  "node_closed M l entries pc \<longleftrightarrow> (\<forall>t \<in> M. \<exists>b. pc t = Red_done b) \<and> ls_remaining l = int (card M) \<and> (\<forall>i. entries i = None)"

definition node_inv where
  "node_inv f d0 M l entries pc d \<longleftrightarrow> finite M \<and> M \<noteq> {} \<and> card M < 2 ^ 32 \<and> ls_num l = int (card M) \<and>
     (node_fresh d0 M l entries pc d \<or> (\<exists>me A. node_led f d0 M l entries pc d me A) \<or> node_closed M l entries pc)"

lemma node_inv_cong:
  assumes "\<And>t. t \<in> M \<Longrightarrow> pc t = pc' t" "\<And>t. t \<in> M \<Longrightarrow> d t = d' t"
  shows "node_inv f d0 M l entries pc d = node_inv f d0 M l entries pc' d'"
proof -
  have s: "{t \<in> M. pc t \<noteq> Red_enter} = {t \<in> M. pc' t \<noteq> Red_enter}" "{t \<in> M. pc t = Red_done False} = {t \<in> M. pc' t = Red_done False}"
    using assms(1) by auto
  have "node_led f d0 M l entries pc d me A = node_led f d0 M l entries pc' d' me A" if "me \<in> M" for me A
    using assms that by (simp add: node_led_def s)
  moreover have "node_led f d0 M l entries pc d me A \<Longrightarrow> me \<in> M" for me A pc d by (auto simp: node_led_def)
  ultimately have "(\<exists>me A. node_led f d0 M l entries pc d me A) = (\<exists>me A. node_led f d0 M l entries pc' d' me A)" by metis
  moreover have "node_fresh d0 M l entries pc d = node_fresh d0 M l entries pc' d'" "node_closed M l entries pc = node_closed M l entries pc'"
    using assms by (simp_all add: node_fresh_def node_closed_def)
  ultimately show ?thesis by (simp add: node_inv_def)
qed

text \<open>The thread that is in the part of the leader is the leader.\<close>

lemma node_leader:
  assumes "node_inv f d0 M l entries pc d" "t \<in> M" "leads (pc t)"
  obtains A where "node_led f d0 M l entries pc d t A" "finite M" "card M < 2 ^ 32" "ls_num l = int (card M)"
proof -
  have "\<not> node_fresh d0 M l entries pc d" "\<not> node_closed M l entries pc"
    using assms(2,3) by (force simp: node_fresh_def node_closed_def)+
  then obtain me A where "node_led f d0 M l entries pc d me A" using assms(1) by (auto simp: node_inv_def)
  moreover then have "me = t" using assms(2,3) by (auto simp: node_led_def)
  ultimately show ?thesis using that assms(1) by (auto simp: node_inv_def)
qed

lemma node_follower:
  assumes "node_inv f d0 M l entries pc d" "t \<in> M" "pc t = Red_put k"
  obtains me A where "node_led f d0 M l entries pc d me A" "me \<noteq> t"
proof -
  have "\<not> node_fresh d0 M l entries pc d" "\<not> node_closed M l entries pc"
    using assms(2,3) by (force simp: node_fresh_def node_closed_def)+
  then obtain me A where "node_led f d0 M l entries pc d me A" using assms(1) by (auto simp: node_inv_def)
  moreover then have "me \<noteq> t" using assms(3) by (auto simp: node_led_def)
  ultimately show ?thesis using that by blast
qed


text \<open>The steps of the threads of a node.\<close>

lemma entered_card:
  assumes "finite M" "t \<in> M" "pc t = Red_enter" "p \<noteq> Red_enter"
  shows "card {u \<in> M. (pc(t := p)) u \<noteq> Red_enter} = Suc (card {u \<in> M. pc u \<noteq> Red_enter})"
    and "card {u \<in> M. pc u \<noteq> Red_enter} < card M"
proof -
  have "{u \<in> M. (pc(t := p)) u \<noteq> Red_enter} = insert t {u \<in> M. pc u \<noteq> Red_enter}" using assms by auto
  then show "card {u \<in> M. (pc(t := p)) u \<noteq> Red_enter} = Suc (card {u \<in> M. pc u \<noteq> Red_enter})" using assms by simp
  show "card {u \<in> M. pc u \<noteq> Red_enter} < card M" using assms by (intro psubset_card_mono) auto
qed

lemma entered_same:
  assumes "pc t \<noteq> Red_enter" "p \<noteq> Red_enter"
  shows "{u \<in> M. (pc(t := p)) u \<noteq> Red_enter} = {u \<in> M. pc u \<noteq> Red_enter}"
  using assms by auto

lemma node_enter:
  assumes inv: "node_inv f d0 M l entries pc d" and t: "t \<in> M" "pc t = Red_enter"
    and s: "select_leader_optimistic l = (leader, ticket, l')"
  shows "node_inv f d0 M l' entries (pc(t := (if leader then Red_node (G_while 1) else Red_put ticket))) d"
proof -
  have M: "finite M" "M \<noteq> {}" "card M < 2 ^ 32" "ls_num l = int (card M)" using inv by (auto simp: node_inv_def)
  have "\<not> node_closed M l entries pc" using t by (force simp: node_closed_def)
  then consider "node_fresh d0 M l entries pc d" | me A where "node_led f d0 M l entries pc d me A"
    using inv by (auto simp: node_inv_def)
  then show ?thesis
  proof cases
    case 1
    let ?pc = "pc(t := Red_node (G_while 1))"
    have c: "0 < card M" using M by (simp add: card_gt_0_iff)
    have r: "leader" "ls_remaining l' = int (card M) - 1" "ls_num l' = ls_num l"
      using s 1 M c by (auto simp: node_fresh_def select_leader_optimistic_def Let_def intro!: wrapc_id simp: fits_def ctype_min_def ctype_max_def)
    have "{u \<in> M. ?pc u \<noteq> Red_enter} = {t}" "{u \<in> M. ?pc u = Red_done False} = {}" using 1 t(1) by (auto simp: node_fresh_def)
    moreover have "received id entries {t} = {t}" using 1 by (simp add: node_fresh_def received_def)
    moreover have "gathering id M entries (G_while 1) {t}" using 1 t(1) M by (intro gathering_start) (auto simp: node_fresh_def)
    moreover have "combines f d0 {t} (d t)" using 1 t(1) combines.single [of f d0 t] by (simp add: node_fresh_def)
    ultimately have "node_led f d0 M l' entries ?pc d t {t}"
      using 1 t(1) r(2) by (simp add: node_led_def node_fresh_def node_gathered_def) auto
    then show ?thesis using M r by (auto simp: node_inv_def)
  next
    case (2 me A)
    note i = 2 [unfolded node_led_def]
    have me: "me \<in> M" "me \<noteq> t" using i t(2) by auto
    let ?E = "{u \<in> M. pc u \<noteq> Red_enter}"
    have E: "card ?E < card M" using M(1) t by (intro entered_card(2) [where p = Red_elect]) simp_all
    have "me \<in> ?E" using i me by (cases "pc me") auto
    then have "0 < card ?E" using M(1) by (auto simp: card_gt_0_iff)
    then have r: "\<not> leader" "ls_remaining l' = int (card M) - int (card ?E) - 1" "ticket = int (card M) - int (card ?E) - 1"
        "ls_num l' = ls_num l"
      using s i M E by (auto simp: select_leader_optimistic_def Let_def intro!: wrapc_id simp: fits_def ctype_min_def ctype_max_def)
    let ?pc = "pc(t := Red_put ticket)"
    have "{u \<in> M. ?pc u = Red_done False} = {u \<in> M. pc u = Red_done False}" using t(2) by auto
    moreover have "card {u \<in> M. ?pc u \<noteq> Red_enter} = Suc (card ?E)" using t M by (intro entered_card(1)) auto
    ultimately have "node_led f d0 M l' entries ?pc d me A" using i me r E \<open>0 < card ?E\<close> by (simp add: node_led_def)
    then show ?thesis using M r by (auto simp: node_inv_def)
  qed
qed

lemma node_put:
  assumes inv: "node_inv f d0 M l entries pc d" and t: "t \<in> M" "pc t = Red_put k"
    and e: "e = nat (k mod 48)" "entries e = None"
  shows "node_inv f d0 M l (entries(e := Some t)) (pc(t := Red_done False)) d"
    and "\<exists>u \<in> M. u \<noteq> t \<and> leads (pc u)"
proof -
  obtain me A where led: "node_led f d0 M l entries pc d me A" and me: "me \<noteq> t" using node_follower [OF inv t] .
  note i = led [unfolded node_led_def]
  have meM: "me \<in> M" using i by auto
  then show "\<exists>u \<in> M. u \<noteq> t \<and> leads (pc u)" using i me by auto
  have nt: "t \<notin> received id entries A" using i me t by auto
  then have "A \<noteq> M" using t(1) by (auto simp: received_def)
  then obtain g where g: "pc me = Red_node g" "gathering id M entries g A"
    using i by (cases "pc me") (auto simp: node_gathered_def)
  let ?pc = "pc(t := Red_done False)"
  have k: "0 \<le> k" "k < int (card M)" using i t by auto
  have "e < min (card M) 48"
  proof -
    have "k mod 48 \<le> k" "k mod 48 < 48" "0 \<le> k mod 48" using k by (simp_all add: zmod_le_nonneg_dividend)
    then show ?thesis using k e(1) by (auto simp: nat_less_iff)
  qed
  moreover have "gathering id M (entries(e := Some t)) g A" "received id (entries(e := Some t)) A = insert t (received id entries A)"
    using gathering_put [OF g(2) e(2), of t] t(1) nt by simp_all
  moreover have "{u \<in> M. ?pc u = Red_done False} = insert t {u \<in> M. pc u = Red_done False}" using t(1) by auto
  moreover have "{u \<in> M. ?pc u \<noteq> Red_enter} = {u \<in> M. pc u \<noteq> Red_enter}" using t(2) by (intro entered_same) simp_all
  ultimately have "node_led f d0 M l (entries(e := Some t)) ?pc d me A"
    using i me g by (simp add: node_led_def node_gathered_def insert_commute)
  then show "node_inv f d0 M l (entries(e := Some t)) ?pc d" using inv by (auto simp: node_inv_def)
qed


lemma node_gather:
  assumes inv: "node_inv f d0 M l entries pc d" and t: "t \<in> M" "pc t = Red_node g"
    and s: "gather_step f t skip lim (ls_num l) g (entries, d) = (g', entries', d')"
  shows "node_inv f d0 M l entries' (pc(t := (case g' of None \<Rightarrow> Red_elect | Some g \<Rightarrow> Red_node g))) d'"
    and "\<And>u. u \<noteq> t \<Longrightarrow> d' u = d u"
proof -
  have "leads (pc t)" using t by simp
  then obtain A where led: "node_led f d0 M l entries pc d t A" and M: "finite M" "card M < 2 ^ 32" "ls_num l = int (card M)"
    by (rule node_leader [OF inv t(1)])
  note i = led [unfolded node_led_def]
  have ga: "gathering id M entries g A" using i t by (simp add: node_gathered_def)
  note st = gathering_step [OF ga M(3) s]
  let ?A = "with_taken id g A" and ?p = "case g' of None \<Rightarrow> Red_elect | Some g \<Rightarrow> Red_node g"
  show d': "\<And>u. u \<noteq> t \<Longrightarrow> d' u = d u" using st(4) by (simp split: option.splits)
  have AM: "?A \<subseteq> M \<and> combines f d0 ?A (d' t)"
  proof (cases "taken g")
    case None
    then show ?thesis using i t st(4) by (simp add: with_taken_def)
  next
    case (Some p)
    then obtain j r where gp: "g = G_combine j r p" by (cases g) auto
    then have p: "entries j = Some p" and ok: "entries_ok id M entries None A" using ga by (auto simp: gathering_def)
    then have pM: "p \<in> M" "p \<notin> A" using entries_okD(1,2) [OF ok p] by simp_all
    then have "d p = d0 p" using i by auto
    then have "combines f d0 (A \<union> {p}) (f (d t) (d p))"
      using i t pM combines.join [of f d0 A "d t" "{p}" "d p"] combines.single [of f d0 p] by auto
    then show ?thesis using i pM st(4) Some by (simp add: with_taken_def)
  qed
  have "node_gathered M entries' ?p ?A"
  proof (cases g')
    case None
    then have "taken g = None" using s by (cases g) auto
    then show ?thesis using st(1) None by (simp add: node_gathered_def with_taken_def)
  next
    case (Some h)
    then show ?thesis using st(1) by (simp add: node_gathered_def)
  qed
  moreover have "{u \<in> M. (pc(t := ?p)) u = Red_done False} = {u \<in> M. pc u = Red_done False}"
    using t(2) by (auto split: option.splits)
  moreover have "{u \<in> M. (pc(t := ?p)) u \<noteq> Red_enter} = {u \<in> M. pc u \<noteq> Red_enter}"
    using t(2) by (intro entered_same) (auto split: option.splits)
  moreover have "leads ?p" by (simp split: option.splits)
  moreover have "t \<in> ?A" using i by (auto simp: with_taken_def split: option.splits)
  moreover have "received id entries' ?A = received id entries A" by (rule st(2))
  moreover have "\<forall>i. entries' i \<noteq> None \<longrightarrow> i < min (card M) 48" using i st(3) by metis
  ultimately have "node_led f d0 M l entries' (pc(t := ?p)) d' t ?A"
    using i AM d' by (simp add: node_led_def split: option.splits)
  then show "node_inv f d0 M l entries' (pc(t := ?p)) d'" using inv by (auto simp: node_inv_def)
qed

lemma node_ahead:
  assumes inv: "node_inv f d0 M l entries pc d" and t: "t \<in> M" "leads (pc t)" "\<And>g. pc t \<noteq> Red_node g"
    and p: "leads p" "\<And>g. p \<noteq> Red_node g" "owns_node p \<Longrightarrow> owns_node (pc t) \<and> d' t = d t" and d: "\<And>u. u \<noteq> t \<Longrightarrow> d' u = d u"
  shows "node_inv f d0 M l entries (pc(t := p)) d'"
proof -
  obtain A where led: "node_led f d0 M l entries pc d t A" by (rule node_leader [OF inv t(1,2)])
  note i = led [unfolded node_led_def]
  have ga: "node_gathered M entries q A = node_gathered M entries (pc t) A" if "leads q" "\<And>g. q \<noteq> Red_node g" for q
    using that t(2,3) by (cases q; cases "pc t") (auto simp: node_gathered_def)
  have "{u \<in> M. (pc(t := p)) u = Red_done False} = {u \<in> M. pc u = Red_done False}" using t(2) p(1) by auto
  moreover have "{u \<in> M. (pc(t := p)) u \<noteq> Red_enter} = {u \<in> M. pc u \<noteq> Red_enter}"
    using t(2) p(1) by (intro entered_same) auto
  ultimately have "node_led f d0 M l entries (pc(t := p)) d' t A"
    using i p d ga [OF p(1,2)] by (auto simp: node_led_def)
  then show ?thesis using inv by (auto simp: node_inv_def)
qed

lemma node_cleanup:
  assumes inv: "node_inv f d0 M l entries pc d" and t: "t \<in> M" "pc t = Red_cleanup b"
  shows "node_inv f d0 M (hierarchy_leader_cleanup l) entries (pc(t := Red_done b)) d"
    and "\<And>u. u \<in> M \<Longrightarrow> u \<noteq> t \<Longrightarrow> pc u = Red_done False"
proof -
  have "leads (pc t)" using t by simp
  then obtain A where led: "node_led f d0 M l entries pc d t A" by (rule node_leader [OF inv t(1)])
  note i = led [unfolded node_led_def]
  have A: "A = M" "\<forall>i. entries i = None" using i t by (simp_all add: node_gathered_def)
  then have "M \<subseteq> insert t {u \<in> M. pc u = Red_done False}" using i by (auto simp: received_def)
  then show others: "\<And>u. u \<in> M \<Longrightarrow> u \<noteq> t \<Longrightarrow> pc u = Red_done False" by auto
  have "\<exists>c. (pc(t := Red_done b)) u = Red_done c" if "u \<in> M" for u using others [OF that] by (cases "u = t") auto
  then have "node_closed M (hierarchy_leader_cleanup l) entries (pc(t := Red_done b))"
    using A(2) inv by (simp add: node_closed_def node_inv_def hierarchy_leader_cleanup_def)
  then show "node_inv f d0 M (hierarchy_leader_cleanup l) entries (pc(t := Red_done b)) d"
    using inv by (auto simp: node_inv_def hierarchy_leader_cleanup_def)
qed

text \<open>A leader that is through with its node has the data of all its threads.\<close>

lemma node_combined:
  assumes "node_inv f d0 M l entries pc d" "t \<in> M" "pc t = Red_elect \<or> pc t = Red_publish"
  shows "combines f d0 M (d t)"
proof -
  have "leads (pc t)" using assms(3) by auto
  then obtain A where led: "node_led f d0 M l entries pc d t A" by (rule node_leader [OF assms(1,2)])
  then show ?thesis using assms(3) by (auto simp: node_led_def node_gathered_def)
qed


section \<open>The invariant of the leaders\<close>

fun elected_pc :: "red_pc \<Rightarrow> bool" where
  "elected_pc Red_publish \<longleftrightarrow> True"
| "elected_pc (Red_global g) \<longleftrightarrow> True"
| "elected_pc Red_global_cleanup \<longleftrightarrow> True"
| "elected_pc (Red_cleanup b) \<longleftrightarrow> True"
| "elected_pc _ \<longleftrightarrow> False"

fun is_top :: "red_pc \<Rightarrow> bool" where
  "is_top (Red_global g) \<longleftrightarrow> True"
| "is_top Red_global_cleanup \<longleftrightarrow> True"
| "is_top (Red_cleanup b) \<longleftrightarrow> b"
| "is_top (Red_done b) \<longleftrightarrow> b"
| "is_top _ \<longleftrightarrow> False"

definition elected :: "nat set \<Rightarrow> (nat \<Rightarrow> red_pc) \<Rightarrow> bool" where
  "elected M pc \<longleftrightarrow> (\<exists>t \<in> M. elected_pc (pc t)) \<or> (\<forall>t \<in> M. \<exists>b. pc t = Red_done b)"

definition publishing :: "nat set \<Rightarrow> (nat \<Rightarrow> red_pc) \<Rightarrow> bool" where
  "publishing M pc \<longleftrightarrow> (\<exists>t \<in> M. pc t = Red_publish)"

definition elected_nodes :: "nat set \<Rightarrow> (nat \<Rightarrow> nat) \<Rightarrow> (nat \<Rightarrow> red_pc) \<Rightarrow> nat set" where
  "elected_nodes T home pc = {n \<in> home ` T. elected (members T home n) pc}"

definition published_nodes :: "nat set \<Rightarrow> (nat \<Rightarrow> nat) \<Rightarrow> (nat \<Rightarrow> red_pc) \<Rightarrow> nat set" where
  "published_nodes T home pc = {n \<in> elected_nodes T home pc. \<not> publishing (members T home n) pc}"

text \<open>
  Of the leaders none has come, or one of them is the leader of all and has combined the data of the nodes \<open>B\<close>, or it is
  about to return or has.
\<close>

definition leaders_fresh where
  "leaders_fresh T home l entries pc \<longleftrightarrow> elected_nodes T home pc = {} \<and> (\<forall>t \<in> T. \<not> is_top (pc t)) \<and>
     ls_remaining l = int (card (home ` T)) \<and> (\<forall>i. entries i = None)"

definition on_nodes :: "nat set \<Rightarrow> (nat \<Rightarrow> nat) \<Rightarrow> nat set \<Rightarrow> nat set" where
  "on_nodes T home B = {t \<in> T. home t \<in> B}"

definition leaders_led where
  "leaders_led f d0 T home l entries pc d me B \<longleftrightarrow> me \<in> T \<and> (\<forall>t \<in> T. is_top (pc t) \<longleftrightarrow> t = me) \<and>
     ls_remaining l = int (card (home ` T)) - int (card (elected_nodes T home pc)) \<and>
     received home entries B = published_nodes T home pc \<and> combines f d0 (on_nodes T home B) (d me) \<and>
     (case pc me of
        Red_global g \<Rightarrow> gathering home (home ` T) entries g B
      | p \<Rightarrow> p = Red_global_cleanup \<and> B = home ` T \<and> (\<forall>i. entries i = None))"

definition leaders_closed where
  "leaders_closed f d0 T home l entries pc d me \<longleftrightarrow> me \<in> T \<and> (\<forall>t \<in> T. is_top (pc t) \<longleftrightarrow> t = me) \<and>
     pc me \<in> {Red_cleanup True, Red_done True} \<and> ls_remaining l = int (card (home ` T)) \<and> (\<forall>i. entries i = None) \<and>
     published_nodes T home pc = home ` T \<and> combines f d0 T (d me)"

definition global_inv where
  "global_inv f d0 T home l entries pc d \<longleftrightarrow> finite T \<and> T \<noteq> {} \<and> card (home ` T) < 2 ^ 32 \<and> ls_num l = int (card (home ` T)) \<and>
     (\<forall>i t. entries i = Some t \<longrightarrow> t \<in> T \<and> home t = i \<and> combines f d0 (members T home i) (d t) \<and> pc t \<in> {Red_cleanup False, Red_done False}) \<and>
     (leaders_fresh T home l entries pc \<or> (\<exists>me B. leaders_led f d0 T home l entries pc d me B) \<or>
      (\<exists>me. leaders_closed f d0 T home l entries pc d me))"

lemma on_nodes_facts:
  "on_nodes T home {n} = members T home n" "on_nodes T home (home ` T) = T"
  "on_nodes T home (insert n B) = on_nodes T home B \<union> members T home n"
  "n \<notin> B \<Longrightarrow> on_nodes T home B \<inter> members T home n = {}"
  by (auto simp: on_nodes_def members_def)

text \<open>What the leaders see of a step: nothing, as long as its node does not come to be elected or to publish.\<close>

lemma elected_other: "home t \<noteq> n \<Longrightarrow> elected (members T home n) (pc(t := p)) = elected (members T home n) pc"
  and publishing_other: "home t \<noteq> n \<Longrightarrow> publishing (members T home n) (pc(t := p)) = publishing (members T home n) pc"
  by (auto simp: elected_def publishing_def members_def)

lemma elected_nodes_same:
  assumes "elected (members T home (home t)) (pc(t := p)) = elected (members T home (home t)) pc"
  shows "elected_nodes T home (pc(t := p)) = elected_nodes T home pc"
  using assms elected_other [of home t _ T pc p] unfolding elected_nodes_def by metis

lemma published_nodes_same:
  assumes "elected (members T home (home t)) (pc(t := p)) = elected (members T home (home t)) pc"
    and "publishing (members T home (home t)) (pc(t := p)) = publishing (members T home (home t)) pc"
  shows "published_nodes T home (pc(t := p)) = published_nodes T home pc"
proof -
  have "publishing (members T home n) (pc(t := p)) = publishing (members T home n) pc" for n
    using assms(2) publishing_other [of home t n T pc p] by metis
  then show ?thesis by (simp add: published_nodes_def elected_nodes_same [OF assms(1)])
qed

lemma global_inv_quiet:
  assumes inv: "global_inv f d0 T home l entries pc d" and t: "t \<in> T"
    and e: "elected (members T home (home t)) (pc(t := p)) = elected (members T home (home t)) pc"
    and q: "publishing (members T home (home t)) (pc(t := p)) = publishing (members T home (home t)) pc"
    and top: "is_top p \<longleftrightarrow> is_top (pc t)" "is_top (pc t) \<Longrightarrow> pc t = Red_cleanup True \<and> p = Red_done True"
    and data: "\<And>u. d' u = d u \<or> u = t \<and> \<not> is_top (pc t) \<and> pc t \<notin> {Red_cleanup False, Red_done False}"
    and out: "pc t \<in> {Red_cleanup False, Red_done False} \<Longrightarrow> p \<in> {Red_cleanup False, Red_done False}"
  shows "global_inv f d0 T home l entries (pc(t := p)) d'"
proof -
  note i = inv [unfolded global_inv_def]
  note same = elected_nodes_same [OF e] published_nodes_same [OF e q]
  have tops: "is_top ((pc(t := p)) u) \<longleftrightarrow> is_top (pc u)" for u using top(1) by simp
  have "d' u = d u \<and> (pc(t := p)) u \<in> {Red_cleanup False, Red_done False}" if "pc u \<in> {Red_cleanup False, Red_done False}" for u
    using data [of u] out that by (cases "u = t") auto
  then have ent: "\<forall>i u. entries i = Some u \<longrightarrow> u \<in> T \<and> home u = i \<and> combines f d0 (members T home i) (d' u) \<and>
      (pc(t := p)) u \<in> {Red_cleanup False, Red_done False}"
    using i by metis
  have topd: "d' u = d u" if "is_top (pc u)" for u using data [of u] that by auto
  consider "leaders_fresh T home l entries pc" | me B where "leaders_led f d0 T home l entries pc d me B"
    | me where "leaders_closed f d0 T home l entries pc d me" using i by blast
  then have "leaders_fresh T home l entries (pc(t := p)) \<or> (\<exists>me B. leaders_led f d0 T home l entries (pc(t := p)) d' me B) \<or>
      (\<exists>me. leaders_closed f d0 T home l entries (pc(t := p)) d' me)"
  proof cases
    case 1
    then have "leaders_fresh T home l entries (pc(t := p))" by (simp add: leaders_fresh_def same tops del: fun_upd_apply)
    then show ?thesis by blast
  next
    case (2 me B)
    note j = 2 [unfolded leaders_led_def]
    have "is_top (pc me)" using j by blast
    have "t \<noteq> me"
    proof
      assume "t = me"
      then have "pc me = Red_cleanup True" using top(2) \<open>is_top (pc me)\<close> by simp
      then show False using j by simp
    qed
    then have "(pc(t := p)) me = pc me" by simp
    then have "leaders_led f d0 T home l entries (pc(t := p)) d' me B"
      using j topd [OF \<open>is_top (pc me)\<close>] by (simp add: leaders_led_def same tops del: fun_upd_apply)
    then show ?thesis by blast
  next
    case (3 me)
    note j = 3 [unfolded leaders_closed_def]
    have m: "is_top (pc me)" using j by blast
    have "(pc(t := p)) me \<in> {Red_cleanup True, Red_done True}" using j top(2) m by (cases "t = me") auto
    then have "leaders_closed f d0 T home l entries (pc(t := p)) d' me"
      using j topd [OF m] by (simp add: leaders_closed_def same tops del: fun_upd_apply)
    then show ?thesis by blast
  qed
  then show ?thesis using i ent by (simp add: global_inv_def del: fun_upd_apply)
qed


lemma elected_at: "t \<in> T \<Longrightarrow> elected_pc p \<Longrightarrow> elected (members T home (home t)) (pc(t := p))"
  by (auto simp: elected_def members_def)

lemma elected_nodes_insert:
  assumes "t \<in> T" "elected_pc p"
  shows "elected_nodes T home (pc(t := p)) = insert (home t) (elected_nodes T home pc)"
proof (rule set_eqI)
  fix n
  show "n \<in> elected_nodes T home (pc(t := p)) \<longleftrightarrow> n \<in> insert (home t) (elected_nodes T home pc)"
    using assms elected_at [OF assms] elected_other [of home t n T pc p]
    by (cases "n = home t") (auto simp: elected_nodes_def)
qed

lemma published_nodes_update:
  assumes "t \<in> T" "elected_pc p"
  shows "published_nodes T home (pc(t := p)) = published_nodes T home pc - {home t} \<union>
    (if publishing (members T home (home t)) (pc(t := p)) then {} else {home t})"
proof (rule set_eqI)
  fix n
  show "n \<in> published_nodes T home (pc(t := p)) \<longleftrightarrow> n \<in> published_nodes T home pc - {home t} \<union>
    (if publishing (members T home (home t)) (pc(t := p)) then {} else {home t})"
    using publishing_other [of home t n T pc p]
    by (cases "n = home t") (auto simp: published_nodes_def elected_nodes_insert [OF assms])
qed

lemma top_elected: "t \<in> T \<Longrightarrow> elected_pc (pc t) \<Longrightarrow> home t \<in> elected_nodes T home pc"
  by (auto simp: elected_nodes_def elected_def members_def)

lemma finite_elected: "finite T \<Longrightarrow> finite (elected_nodes T home pc)"
  by (simp add: elected_nodes_def)

lemma global_entry:
  assumes "global_inv f d0 T home l entries pc d" "entries j = Some u"
  shows "u \<in> T" "home u = j" "combines f d0 (members T home j) (d u)" "pc u \<in> {Red_cleanup False, Red_done False}"
  using assms unfolding global_inv_def by metis+

lemma global_invI:
  assumes "global_inv f d0 T home l entries pc d" "ls_num l' = ls_num l"
    and "\<And>j u. entries' j = Some u \<Longrightarrow> u \<in> T \<and> home u = j \<and> combines f d0 (members T home j) (d' u) \<and>
      pc' u \<in> {Red_cleanup False, Red_done False}"
    and "leaders_led f d0 T home l' entries' pc' d' me B"
  shows "global_inv f d0 T home l' entries' pc' d'"
  using assms unfolding global_inv_def by metis

lemma global_elect:
  assumes inv: "global_inv f d0 T home l entries pc d" and t: "t \<in> T" "pc t = Red_elect"
    and fresh: "\<not> elected (members T home (home t)) pc" and data: "combines f d0 (members T home (home t)) (d t)"
    and s: "select_leader_optimistic l = (leader, ticket, l')"
  shows "global_inv f d0 T home l' entries (pc(t := (if leader then Red_global (G_while 1) else Red_publish))) d"
proof -
  note i = inv [unfolded global_inv_def]
  let ?N = "home ` T" and ?n = "home t" and ?E = "elected_nodes T home pc"
  have nE: "?n \<notin> ?E" using fresh by (simp add: elected_nodes_def)
  have np: "pc u \<noteq> Red_publish" if "u \<in> members T home ?n" for u using fresh that by (force simp: elected_def)
  have EN: "?E \<subset> ?N" using nE t(1) by (auto simp: elected_nodes_def)
  then have cE: "card ?E < card ?N" using i by (intro psubset_card_mono) auto
  have cI: "card (insert ?n ?E) = Suc (card ?E)" using nE i by (simp add: finite_elected)
  have pub: "published_nodes T home pc \<subseteq> ?E" by (auto simp: published_nodes_def)
  have w: "wrapc U64 (int (card ?N) - int (card ?E) - 1) = int (card ?N) - int (card ?E) - 1"
    using cE i by (intro wrapc_id) (auto simp: fits_def ctype_min_def ctype_max_def)
  have keep: "u \<in> T \<and> home u = j \<and> combines f d0 (members T home j) (d u) \<and> (pc(t := p)) u \<in> {Red_cleanup False, Red_done False}"
    if "entries j = Some u" for j u p
    using global_entry [OF inv that] t(2) by auto
  consider (fresh) "leaders_fresh T home l entries pc" | (led) me B where "leaders_led f d0 T home l entries pc d me B"
    | (closed) me where "leaders_closed f d0 T home l entries pc d me" using i by blast
  then show ?thesis
  proof cases
    case fresh
    let ?pc = "pc(t := Red_global (G_while 1))"
    note j = fresh [unfolded leaders_fresh_def]
    have r: "leader" "ls_remaining l' = int (card ?N) - 1" "ls_num l' = ls_num l"
      using s i j w by (auto simp: select_leader_optimistic_def Let_def)
    have E': "elected_nodes T home ?pc = {?n}" using elected_nodes_insert [of t T] t(1) j by simp
    have "\<not> publishing (members T home ?n) ?pc" using np t by (auto simp: publishing_def)
    then have P': "published_nodes T home ?pc = {?n}" by (simp only: published_nodes_def E') blast
    have "gathering home ?N entries (G_while 1) {?n}" using i j t(1) by (intro gathering_start) auto
    moreover have "received home entries {?n} = {?n}" using j by (simp add: received_def)
    ultimately have "leaders_led f d0 T home l' entries ?pc d t {?n}"
      unfolding leaders_led_def E' P' on_nodes_facts(1) using j t(1) data r by auto
    then show ?thesis using i keep r by (auto simp: global_inv_def)
  next
    case (led me B)
    let ?pc = "pc(t := Red_publish)"
    note j = led [unfolded leaders_led_def]
    have m: "me \<in> T" "elected_pc (pc me)" "me \<noteq> t" "is_top (pc me)" using j t(2) by (auto split: red_pc.splits)
    have "0 < card ?E" using top_elected [of me T pc home] m(1,2) i by (auto simp: card_gt_0_iff finite_elected)
    then have r: "\<not> leader" "ls_remaining l' = int (card ?N) - int (card ?E) - 1" "ls_num l' = ls_num l"
      using s i j w by (auto simp: select_leader_optimistic_def Let_def)
    have E': "elected_nodes T home ?pc = insert ?n ?E" using t(1) by (intro elected_nodes_insert) simp_all
    have "publishing (members T home ?n) ?pc" using t(1) by (auto simp: publishing_def members_def)
    then have "published_nodes T home ?pc = published_nodes T home pc"
      using nE pub published_nodes_update [of t T Red_publish home pc] t(1) by auto
    moreover have "is_top (?pc u) \<longleftrightarrow> is_top (pc u)" for u using t(2) by simp
    ultimately have "leaders_led f d0 T home l' entries ?pc d me B"
      using j m(3) r cI by (simp add: leaders_led_def E' del: fun_upd_apply) (simp split: red_pc.splits)
    then show ?thesis using i keep r by (auto simp: global_inv_def)
  next
    case (closed me)
    then have "?n \<in> ?E" using t(1) by (auto simp: leaders_closed_def published_nodes_def)
    then show ?thesis using nE by simp
  qed
qed


lemma global_publish:
  assumes inv: "global_inv f d0 T home l entries pc d" and t: "t \<in> T" "pc t = Red_publish"
    and alone: "\<And>u. u \<in> members T home (home t) \<Longrightarrow> u \<noteq> t \<Longrightarrow> \<not> leads (pc u)" and data: "combines f d0 (members T home (home t)) (d t)"
  shows "global_inv f d0 T home l (entries(home t := Some t)) (pc(t := Red_cleanup False)) d"
proof -
  note i = inv [unfolded global_inv_def]
  let ?N = "home ` T" and ?n = "home t" and ?E = "elected_nodes T home pc" and ?P = "published_nodes T home pc"
    and ?pc = "pc(t := Red_cleanup False)" and ?entries = "entries(home t := Some t)"
  have nE: "?n \<in> ?E" using top_elected [of t T pc home] t by simp
  have "publishing (members T home ?n) pc" using t by (auto simp: publishing_def members_def)
  then have nP: "?n \<notin> ?P" by (simp add: published_nodes_def)
  have E': "elected_nodes T home ?pc = ?E" using elected_nodes_insert [of t T "Red_cleanup False" home pc] t(1) nE by auto
  have "pc u \<noteq> Red_publish" if "u \<in> members T home ?n" "u \<noteq> t" for u using alone [OF that] by auto
  then have "\<not> publishing (members T home ?n) ?pc" by (auto simp: publishing_def)
  then have P': "published_nodes T home ?pc = insert ?n ?P"
    using nP published_nodes_update [of t T "Red_cleanup False" home pc] t(1) by auto
  have top: "is_top (?pc u) \<longleftrightarrow> is_top (pc u)" for u using t(2) by simp
  have keep: "u \<in> T \<and> home u = j \<and> combines f d0 (members T home j) (d u) \<and> ?pc u \<in> {Red_cleanup False, Red_done False}"
    if "?entries j = Some u" for j u
  proof (cases "j = ?n")
    case True
    then show ?thesis using that t(1) data by auto
  next
    case False
    then show ?thesis using that global_entry [OF inv, of j u] by (cases "u = t") auto
  qed
  consider (fresh) "leaders_fresh T home l entries pc" | (led) me B where "leaders_led f d0 T home l entries pc d me B"
    | (closed) me where "leaders_closed f d0 T home l entries pc d me" using i by blast
  then show ?thesis
  proof cases
    case fresh
    then show ?thesis using nE by (simp add: leaders_fresh_def)
  next
    case (led me B)
    note j = led [unfolded leaders_led_def]
    have me: "me \<noteq> t" using j t(2) by auto
    have nr: "?n \<notin> received home entries B" using j nP by simp
    then have "B \<noteq> ?N" using t(1) by (auto simp: received_def)
    then obtain g where g: "pc me = Red_global g" "gathering home ?N entries g B" using j by (auto split: red_pc.splits)
    have "entries ?n = None"
    proof (cases "entries ?n")
      case (Some u)
      then have "home u = ?n" using global_entry(2) [OF inv] by simp
      then show ?thesis using Some nr by (auto simp: received_def)
    qed simp
    then have "gathering home ?N ?entries g B" "received home ?entries B = insert ?n (received home entries B)"
      using gathering_put [OF g(2), of ?n t] t(1) nr by simp_all
    then have led': "leaders_led f d0 T home l ?entries ?pc d me B"
      using j me g unfolding leaders_led_def E' P' top by simp
    show ?thesis by (rule global_invI [OF inv refl _ led']) (rule keep)
  next
    case (closed me)
    then show ?thesis using nP t(1) by (simp add: leaders_closed_def)
  qed
qed

lemma global_leader:
  assumes inv: "global_inv f d0 T home l entries pc d" and t: "t \<in> T" "(\<exists>g. pc t = Red_global g) \<or> pc t = Red_global_cleanup"
  obtains B where "leaders_led f d0 T home l entries pc d t B"
proof -
  have top: "is_top (pc t)" using t(2) by auto
  have "\<not> leaders_fresh T home l entries pc" using top t(1) by (auto simp: leaders_fresh_def)
  moreover have "\<not> leaders_closed f d0 T home l entries pc d me" for me
  proof
    assume j: "leaders_closed f d0 T home l entries pc d me"
    then have "t = me" using top t(1) unfolding leaders_closed_def by blast
    then show False using j t(2) by (auto simp: leaders_closed_def)
  qed
  ultimately obtain me B where "leaders_led f d0 T home l entries pc d me B" using inv unfolding global_inv_def by blast
  moreover from this have "me = t" using top t(1) by (auto simp: leaders_led_def)
  ultimately show ?thesis using that by blast
qed

lemma global_cleanup:
  assumes inv: "global_inv f d0 T home l entries pc d" and t: "t \<in> T" "pc t = Red_global_cleanup"
  shows "global_inv f d0 T home (hierarchy_leader_cleanup l) entries (pc(t := Red_cleanup True)) d"
proof -
  note i = inv [unfolded global_inv_def]
  let ?pc = "pc(t := Red_cleanup True)"
  obtain B where "leaders_led f d0 T home l entries pc d t B" using global_leader [OF inv t(1)] t(2) by blast
  note j = this [unfolded leaders_led_def]
  have B: "B = home ` T" "\<forall>i. entries i = None" using j t(2) by simp_all
  have "elected (members T home (home t)) ?pc = elected (members T home (home t)) pc"
    using elected_at [of t T "Red_cleanup True" home pc] elected_at [of t T "pc t" home pc] t by (simp add: fun_upd_idem)
  moreover have "?pc u = Red_publish \<longleftrightarrow> pc u = Red_publish" for u using t(2) by simp
  then have "publishing (members T home (home t)) ?pc = publishing (members T home (home t)) pc"
    by (simp add: publishing_def del: fun_upd_apply)
  ultimately have "published_nodes T home ?pc = published_nodes T home pc" by (rule published_nodes_same)
  also have "\<dots> = home ` T" using j B by (simp add: received_def)
  finally have "published_nodes T home ?pc = home ` T" .
  moreover have "is_top (?pc u) \<longleftrightarrow> is_top (pc u)" for u using t(2) by simp
  ultimately have "leaders_closed f d0 T home (hierarchy_leader_cleanup l) entries ?pc d t"
    using j B i by (simp add: leaders_closed_def hierarchy_leader_cleanup_def on_nodes_facts(2) del: fun_upd_apply) simp
  then show ?thesis using i B by (auto simp: global_inv_def hierarchy_leader_cleanup_def)
qed


lemma global_gather:
  assumes inv: "global_inv f d0 T home l entries pc d" and t: "t \<in> T" "pc t = Red_global g"
    and s: "gather_step f t skip lim (ls_num l) g (entries, d) = (g', entries', d')"
  shows "global_inv f d0 T home l entries' (pc(t := (case g' of None \<Rightarrow> Red_global_cleanup | Some g \<Rightarrow> Red_global g))) d'"
    and "\<And>u. u \<noteq> t \<Longrightarrow> d' u = d u"
proof -
  note i = inv [unfolded global_inv_def]
  obtain B where led: "leaders_led f d0 T home l entries pc d t B" using global_leader [OF inv t(1)] t(2) by blast
  note j = led [unfolded leaders_led_def]
  have ga: "gathering home (home ` T) entries g B" using j t(2) by simp
  note st = gathering_step [OF ga _ s]
  have cnt: "ls_num l = int (card (home ` T))" using i by simp
  note st = st [OF cnt]
  let ?B = "with_taken home g B" and ?p = "case g' of None \<Rightarrow> Red_global_cleanup | Some g \<Rightarrow> Red_global g"
  show d': "\<And>u. u \<noteq> t \<Longrightarrow> d' u = d u" using st(4) by (simp split: option.splits)
  have data: "combines f d0 (on_nodes T home ?B) (d' t)"
  proof (cases "taken g")
    case None
    then show ?thesis using j st(4) by (simp add: with_taken_def)
  next
    case (Some p)
    then obtain k r where gp: "g = G_combine k r p" by (cases g) auto
    then have p: "entries k = Some p" and ok: "entries_ok home (home ` T) entries None B" using ga by (auto simp: gathering_def)
    then have "home p \<notin> B" using entries_okD(2) [OF ok p] by simp
    moreover have "home p = k" "combines f d0 (members T home k) (d p)" using global_entry [OF inv p] by simp_all
    ultimately have "combines f d0 (on_nodes T home B \<union> members T home k) (f (d t) (d p))"
      using j on_nodes_facts(4) [of k B T home] by (intro combines.join) auto
    then show ?thesis using st(4) Some \<open>home p = k\<close> on_nodes_facts(3) [of T home k B] by (simp add: with_taken_def)
  qed
  have e: "elected_pc ?p" "elected_pc (pc t)" using t(2) by (simp_all split: option.splits)
  have np: "?p \<noteq> Red_publish" by (simp split: option.splits)
  have "elected_nodes T home (pc(t := ?p)) = elected_nodes T home pc"
    using elected_nodes_insert [OF t(1) e(1)] top_elected [OF t(1), of pc home] e(2) by auto
  moreover have "elected (members T home (home t)) (pc(t := ?p)) = elected (members T home (home t)) pc"
    using elected_at [OF t(1) e(1)] elected_at [OF t(1) e(2), of home pc] by (simp add: fun_upd_idem)
  moreover have "(pc(t := ?p)) u = Red_publish \<longleftrightarrow> pc u = Red_publish" for u using t(2) np by simp
  then have "publishing (members T home (home t)) (pc(t := ?p)) = publishing (members T home (home t)) pc"
    by (simp add: publishing_def del: fun_upd_apply)
  moreover note published_nodes_same [OF calculation(2) this]
  moreover have "is_top ((pc(t := ?p)) u) \<longleftrightarrow> is_top (pc u)" for u using t(2) by (simp split: option.splits)
  moreover have "case ?p of Red_global g \<Rightarrow> gathering home (home ` T) entries' g ?B
      | p \<Rightarrow> p = Red_global_cleanup \<and> ?B = home ` T \<and> (\<forall>i. entries' i = None)"
  proof (cases g')
    case None
    then have "taken g = None" using s by (cases g) auto
    then show ?thesis using st(1) None by (simp add: with_taken_def)
  next
    case (Some h)
    then show ?thesis using st(1) by simp
  qed
  ultimately have led': "leaders_led f d0 T home l entries' (pc(t := ?p)) d' t ?B"
    using j t data st(2) unfolding leaders_led_def by simp
  show "global_inv f d0 T home l entries' (pc(t := ?p)) d'"
  proof (rule global_invI [OF inv refl _ led'])
    fix k u assume "entries' k = Some u"
    then have u: "entries k = Some u" using st(3) [of k] by simp
    then have "u \<noteq> t" using global_entry(4) [OF inv u] t(2) by auto
    then show "u \<in> T \<and> home u = k \<and> combines f d0 (members T home k) (d' u) \<and> (pc(t := ?p)) u \<in> {Red_cleanup False, Red_done False}"
      using global_entry [OF inv u] d' by simp
  qed
qed

section \<open>The invariant of a run\<close>

definition red_inv where
  "red_inv f d0 T home s \<longleftrightarrow>
     (\<forall>n \<in> home ` T. node_inv f d0 (members T home n) (rd_opt s n) (rd_reductions s n) (rd_pc s) (rd_data s)) \<and>
     global_inv f d0 T home (rd_global_opt s) (rd_global_reductions s) (rd_pc s) (rd_data s)"

lemma red_invI:
  assumes inv: "red_inv f d0 T home s" and t: "t \<in> T"
    and "node_inv f d0 (members T home (home t)) (rd_opt s' (home t)) (rd_reductions s' (home t)) (rd_pc s') (rd_data s')"
    and "global_inv f d0 T home (rd_global_opt s') (rd_global_reductions s') (rd_pc s') (rd_data s')"
    and same: "\<And>n. n \<noteq> home t \<Longrightarrow> rd_opt s' n = rd_opt s n \<and> rd_reductions s' n = rd_reductions s n"
      "\<And>u. u \<noteq> t \<Longrightarrow> rd_pc s' u = rd_pc s u \<and> rd_data s' u = rd_data s u"
  shows "red_inv f d0 T home s'"
proof -
  have "node_inv f d0 (members T home n) (rd_opt s' n) (rd_reductions s' n) (rd_pc s') (rd_data s')" if n: "n \<in> home ` T" for n
  proof (cases "n = home t")
    case False
    have "u \<noteq> t" if "u \<in> members T home n" for u using that False by (auto simp: members_def)
    then have "node_inv f d0 (members T home n) (rd_opt s n) (rd_reductions s n) (rd_pc s') (rd_data s') =
        node_inv f d0 (members T home n) (rd_opt s n) (rd_reductions s n) (rd_pc s) (rd_data s)"
      using same(2) by (intro node_inv_cong) simp_all
    moreover have "node_inv f d0 (members T home n) (rd_opt s n) (rd_reductions s n) (rd_pc s) (rd_data s)"
      using inv n unfolding red_inv_def by blast
    ultimately show ?thesis using same(1) [OF False] by simp
  qed (use assms(3) in simp)
  then show ?thesis using assms(4) unfolding red_inv_def by blast
qed

text \<open>A leader that is not through with its node, and its followers, are no leaders of an elected node.\<close>

lemma not_elected:
  assumes inv: "node_inv f d0 M l entries pc d" and t: "t \<in> M" "leads (pc t)" "\<not> elected_pc (pc t)"
  shows "\<not> elected M pc"
proof
  assume e: "elected M pc"
  obtain A where led: "node_led f d0 M l entries pc d t A" by (rule node_leader [OF inv t(1,2)])
  have "\<not> (\<exists>b. pc t = Red_done b)" using t(2) by auto
  then have "\<exists>u \<in> M. elected_pc (pc u)" using e t(1) unfolding elected_def by blast
  then obtain u where u: "u \<in> M" "elected_pc (pc u)" by blast
  then have "leads (pc u)" by (cases "pc u") auto
  then have "u = t" using led u(1) by (auto simp: node_led_def)
  then show False using u(2) t(3) by simp
qed


lemma red_inv_node: "red_inv f d0 T home s \<Longrightarrow> t \<in> T \<Longrightarrow>
    node_inv f d0 (members T home (home t)) (rd_opt s (home t)) (rd_reductions s (home t)) (rd_pc s) (rd_data s)"
  by (auto simp: red_inv_def)

lemma red_inv_global: "red_inv f d0 T home s \<Longrightarrow>
    global_inv f d0 T home (rd_global_opt s) (rd_global_reductions s) (rd_pc s) (rd_data s)"
  by (simp add: red_inv_def)

text \<open>Before the leaders are concerned, a step changes nothing for them.\<close>

lemma elected_quiet:
  assumes "t \<in> M" "\<not> elected_pc (pc t)" "\<not> elected_pc p" "\<And>b. pc t \<noteq> Red_done b"
    and "\<exists>b. p = Red_done b \<Longrightarrow> \<exists>u \<in> M. u \<noteq> t \<and> leads (pc u)"
  shows "elected M (pc(t := p)) = elected M pc"
proof -
  have "\<not> (\<forall>u \<in> M. \<exists>b. pc u = Red_done b)" using assms(1,4) by blast
  moreover have "\<not> (\<forall>u \<in> M. \<exists>b. (pc(t := p)) u = Red_done b)"
  proof (cases "\<exists>b. p = Red_done b")
    case True
    then obtain u where "u \<in> M" "u \<noteq> t" "leads (pc u)" using assms(5) by blast
    then have "(pc(t := p)) u \<noteq> Red_done b" for b by auto
    then show ?thesis using \<open>u \<in> M\<close> by blast
  next
    case False
    then show ?thesis using assms(1) by auto
  qed
  moreover have "elected_pc ((pc(t := p)) u) \<longleftrightarrow> elected_pc (pc u)" for u using assms(2,3) by simp
  ultimately show ?thesis unfolding elected_def by blast
qed

lemma publishing_quiet:
  assumes "pc t \<noteq> Red_publish" "p \<noteq> Red_publish"
  shows "publishing M (pc(t := p)) = publishing M pc"
  using assms by (auto simp: publishing_def)

lemma red_step_enter:
  assumes inv: "red_inv f d0 T home s" and t: "t \<in> T" "rd_pc s t = Red_enter"
    and s: "hierarchy_reduce f threads (home t) t (rd_pc s t) s = Some s'"
  shows "red_inv f d0 T home s'"
proof -
  obtain leader ticket l where l: "select_leader_optimistic (rd_opt s (home t)) = (leader, ticket, l)" by (metis prod_cases3)
  let ?p = "if leader then Red_node (G_while 1) else Red_put ticket"
  have s': "s' = s\<lparr>rd_opt := (rd_opt s)(home t := l), rd_pc := (rd_pc s)(t := ?p)\<rparr>" using s t(2) l by simp
  have "elected (members T home (home t)) ((rd_pc s)(t := ?p)) = elected (members T home (home t)) (rd_pc s)"
    using t by (intro elected_quiet) (auto simp: members_def split: if_splits)
  moreover have "publishing (members T home (home t)) ((rd_pc s)(t := ?p)) = publishing (members T home (home t)) (rd_pc s)"
    using t by (intro publishing_quiet) auto
  ultimately have "global_inv f d0 T home (rd_global_opt s) (rd_global_reductions s) ((rd_pc s)(t := ?p)) (rd_data s)"
    using t by (intro global_inv_quiet [OF red_inv_global [OF inv]]) auto
  moreover note node_enter [OF red_inv_node [OF inv t(1)] memberI [OF t(1)] t(2) l]
  ultimately show ?thesis by (intro red_invI [OF inv t(1)]) (simp_all add: s')
qed

lemma red_step_put:
  assumes inv: "red_inv f d0 T home s" and t: "t \<in> T" "rd_pc s t = Red_put k"
    and s: "hierarchy_reduce f threads (home t) t (rd_pc s t) s = Some s'"
  shows "red_inv f d0 T home s'"
proof -
  define e where "e = nat (k mod 48)"
  let ?M = "members T home (home t)" and ?pc = "(rd_pc s)(t := Red_done False)"
  have e: "rd_reductions s (home t) e = None" using s t(2) by (cases "rd_reductions s (home t) e") (auto simp: e_def Let_def)
  then have s': "s' = s\<lparr>rd_reductions := (rd_reductions s)(home t := (rd_reductions s (home t))(e := Some t)), rd_pc := ?pc\<rparr>"
    using s t(2) by (simp add: e_def Let_def)
  note put = node_put [OF red_inv_node [OF inv t(1)] memberI [OF t(1)] t(2) e_def e]
  have "elected ?M ?pc = elected ?M (rd_pc s)"
    using t put(2) by (intro elected_quiet) (auto simp: memberI)
  moreover have "publishing ?M ?pc = publishing ?M (rd_pc s)" using t by (intro publishing_quiet) auto
  ultimately have "global_inv f d0 T home (rd_global_opt s) (rd_global_reductions s) ?pc (rd_data s)"
    using t by (intro global_inv_quiet [OF red_inv_global [OF inv]]) auto
  then show ?thesis using put(1) by (intro red_invI [OF inv t(1)]) (simp_all add: s')
qed

lemma red_step_node:
  assumes inv: "red_inv f d0 T home s" and t: "t \<in> T" "rd_pc s t = Red_node g"
    and s: "hierarchy_reduce f threads (home t) t (rd_pc s t) s = Some s'"
  shows "red_inv f d0 T home s'"
proof -
  let ?M = "members T home (home t)" and ?l = "rd_opt s (home t)"
  obtain g' entries d where g: "gather_step f t (\<lambda>i. False) (nat (if ls_num ?l < 48 then ls_num ?l else 48)) (ls_num ?l) g
      (rd_reductions s (home t), rd_data s) = (g', entries, d)" by (metis prod_cases3)
  let ?p = "case g' of None \<Rightarrow> Red_elect | Some g \<Rightarrow> Red_node g"
  have s': "s' = s\<lparr>rd_reductions := (rd_reductions s)(home t := entries), rd_data := d, rd_pc := (rd_pc s)(t := ?p)\<rparr>"
    using s t(2) g by (simp add: Let_def)
  note node = node_gather [OF red_inv_node [OF inv t(1)] memberI [OF t(1)] t(2) g]
  have "elected ?M ((rd_pc s)(t := ?p)) = elected ?M (rd_pc s)"
    using t by (intro elected_quiet) (auto simp: memberI split: option.splits)
  moreover have "publishing ?M ((rd_pc s)(t := ?p)) = publishing ?M (rd_pc s)"
    using t by (intro publishing_quiet) (auto split: option.splits)
  ultimately have "global_inv f d0 T home (rd_global_opt s) (rd_global_reductions s) ((rd_pc s)(t := ?p)) d"
    using t node(2) by (intro global_inv_quiet [OF red_inv_global [OF inv]]) (auto split: option.splits)
  then show ?thesis using node by (intro red_invI [OF inv t(1)]) (simp_all add: s')
qed


lemma red_step_elect:
  assumes inv: "red_inv f d0 T home s" and t: "t \<in> T" "rd_pc s t = Red_elect"
    and s: "hierarchy_reduce f threads (home t) t (rd_pc s t) s = Some s'"
  shows "red_inv f d0 T home s'"
proof -
  let ?M = "members T home (home t)"
  note node = red_inv_node [OF inv t(1)]
  obtain leader ticket l where l: "select_leader_optimistic (rd_global_opt s) = (leader, ticket, l)" by (metis prod_cases3)
  let ?p = "if leader then Red_global (G_while 1) else Red_publish"
  have s': "s' = s\<lparr>rd_global_opt := l, rd_pc := (rd_pc s)(t := ?p)\<rparr>" using s t(2) l by simp
  have "\<not> elected ?M (rd_pc s)" using t by (intro not_elected [OF node memberI [OF t(1)]]) simp_all
  moreover have "combines f d0 ?M (rd_data s t)" using t by (intro node_combined [OF node memberI [OF t(1)]]) simp
  ultimately have "global_inv f d0 T home l (rd_global_reductions s) ((rd_pc s)(t := ?p)) (rd_data s)"
    using l by (intro global_elect [OF red_inv_global [OF inv] t])
  moreover have "node_inv f d0 ?M (rd_opt s (home t)) (rd_reductions s (home t)) ((rd_pc s)(t := ?p)) (rd_data s)"
    using t by (intro node_ahead [OF node memberI [OF t(1)]]) (auto split: if_splits)
  ultimately show ?thesis by (intro red_invI [OF inv t(1)]) (simp_all add: s')
qed

lemma red_step_publish:
  assumes inv: "red_inv f d0 T home s" and t: "t \<in> T" "rd_pc s t = Red_publish"
    and s: "hierarchy_reduce f threads (home t) t (rd_pc s t) s = Some s'"
  shows "red_inv f d0 T home s'"
proof -
  let ?M = "members T home (home t)" and ?pc = "(rd_pc s)(t := Red_cleanup False)"
  note node = red_inv_node [OF inv t(1)]
  have s': "s' = s\<lparr>rd_global_reductions := (rd_global_reductions s)(home t := Some t), rd_pc := ?pc\<rparr>" using s t(2) by simp
  have lt: "leads (rd_pc s t)" using t(2) by simp
  obtain A where led: "node_led f d0 ?M (rd_opt s (home t)) (rd_reductions s (home t)) (rd_pc s) (rd_data s) t A"
    by (rule node_leader [OF node memberI [OF t(1)] lt])
  have "combines f d0 ?M (rd_data s t)" using t by (intro node_combined [OF node memberI [OF t(1)]]) simp
  moreover have "\<not> leads (rd_pc s u)" if "u \<in> ?M" "u \<noteq> t" for u using led that by (simp add: node_led_def)
  ultimately have "global_inv f d0 T home (rd_global_opt s) ((rd_global_reductions s)(home t := Some t)) ?pc (rd_data s)"
    by (intro global_publish [OF red_inv_global [OF inv] t])
  moreover have "node_inv f d0 ?M (rd_opt s (home t)) (rd_reductions s (home t)) ?pc (rd_data s)"
    using t by (intro node_ahead [OF node memberI [OF t(1)]]) auto
  ultimately show ?thesis by (intro red_invI [OF inv t(1)]) (simp_all add: s')
qed

lemma red_step_global:
  assumes inv: "red_inv f d0 T home s" and t: "t \<in> T" "rd_pc s t = Red_global g"
    and s: "hierarchy_reduce f threads (home t) t (rd_pc s t) s = Some s'"
  shows "red_inv f d0 T home s'"
proof -
  let ?M = "members T home (home t)"
  obtain g' entries d where g: "gather_step f t (\<lambda>i. threads i = 0) max_nodes (ls_num (rd_global_opt s)) g
      (rd_global_reductions s, rd_data s) = (g', entries, d)" by (metis prod_cases3)
  let ?p = "case g' of None \<Rightarrow> Red_global_cleanup | Some g \<Rightarrow> Red_global g"
  have s': "s' = s\<lparr>rd_global_reductions := entries, rd_data := d, rd_pc := (rd_pc s)(t := ?p)\<rparr>"
    using s t(2) g by (simp add: Let_def)
  note global = global_gather [OF red_inv_global [OF inv] t g]
  have "node_inv f d0 ?M (rd_opt s (home t)) (rd_reductions s (home t)) ((rd_pc s)(t := ?p)) d"
    using t global(2) by (intro node_ahead [OF red_inv_node [OF inv t(1)] memberI [OF t(1)]]) (auto split: option.splits)
  then show ?thesis using global by (intro red_invI [OF inv t(1)]) (simp_all add: s')
qed

lemma red_step_global_cleanup:
  assumes inv: "red_inv f d0 T home s" and t: "t \<in> T" "rd_pc s t = Red_global_cleanup"
    and s: "hierarchy_reduce f threads (home t) t (rd_pc s t) s = Some s'"
  shows "red_inv f d0 T home s'"
proof -
  have s': "s' = s\<lparr>rd_global_opt := hierarchy_leader_cleanup (rd_global_opt s), rd_pc := (rd_pc s)(t := Red_cleanup True)\<rparr>"
    using s t(2) by simp
  have "node_inv f d0 (members T home (home t)) (rd_opt s (home t)) (rd_reductions s (home t)) ((rd_pc s)(t := Red_cleanup True)) (rd_data s)"
    using t by (intro node_ahead [OF red_inv_node [OF inv t(1)] memberI [OF t(1)]]) auto
  then show ?thesis
    using global_cleanup [OF red_inv_global [OF inv] t] by (intro red_invI [OF inv t(1)]) (simp_all add: s')
qed

lemma red_step_cleanup:
  assumes inv: "red_inv f d0 T home s" and t: "t \<in> T" "rd_pc s t = Red_cleanup b"
    and s: "hierarchy_reduce f threads (home t) t (rd_pc s t) s = Some s'"
  shows "red_inv f d0 T home s'"
proof -
  let ?M = "members T home (home t)" and ?pc = "(rd_pc s)(t := Red_done b)"
  note node = node_cleanup [OF red_inv_node [OF inv t(1)] memberI [OF t(1)] t(2)]
  have s': "s' = s\<lparr>rd_opt := (rd_opt s)(home t := hierarchy_leader_cleanup (rd_opt s (home t))), rd_pc := ?pc\<rparr>"
    using s t(2) by simp
  have "elected_pc (rd_pc s t)" using t(2) by simp
  then have "elected ?M (rd_pc s)" using memberI [OF t(1), of home] unfolding elected_def by blast
  moreover have "\<forall>u \<in> ?M. \<exists>b. ?pc u = Red_done b" using node(2) by auto
  then have "elected ?M ?pc" unfolding elected_def by blast
  moreover have "publishing ?M ?pc = publishing ?M (rd_pc s)" using t by (intro publishing_quiet) auto
  ultimately have "global_inv f d0 T home (rd_global_opt s) (rd_global_reductions s) ?pc (rd_data s)"
    using t by (intro global_inv_quiet [OF red_inv_global [OF inv]]) auto
  then show ?thesis using node(1) by (intro red_invI [OF inv t(1)]) (simp_all add: s')
qed

lemmas red_steps = red_step_enter red_step_put red_step_node red_step_elect red_step_publish red_step_global
  red_step_global_cleanup red_step_cleanup

lemma red_inv_step:
  assumes "red_inv f d0 T home s" "t \<in> T" "hierarchy_reduce f threads (home t) t (rd_pc s t) s = Some s'"
  shows "red_inv f d0 T home s'"
proof (cases "rd_pc s t")
  case (Red_done b)
  then show ?thesis using assms(3) by simp
qed (use red_steps [OF assms(1,2) _ assms(3)] in blast)+

lemma red_inv_run:
  assumes "red_inv f d0 T home s" "set ts \<subseteq> T"
  shows "red_inv f d0 T home (red_run f threads home ts s)"
  using assms by (induction ts arbitrary: s) (auto split: option.splits dest: red_inv_step)

text \<open>At the end: whoever is told that it has the result has the data of all, and nobody else is told so.\<close>

lemma red_result:
  assumes inv: "red_inv f d0 T home s" and t: "t \<in> T" "rd_pc s t = Red_done True"
  shows "combines f d0 T (rd_data s t)" and "\<And>u. u \<in> T \<Longrightarrow> rd_pc s u = Red_done True \<Longrightarrow> u = t"
proof -
  note g = red_inv_global [OF inv]
  have top: "is_top (rd_pc s t)" using t(2) by simp
  have "\<not> leaders_fresh T home (rd_global_opt s) (rd_global_reductions s) (rd_pc s)"
    using top t(1) by (auto simp: leaders_fresh_def)
  moreover have "\<not> leaders_led f d0 T home (rd_global_opt s) (rd_global_reductions s) (rd_pc s) (rd_data s) me B" for me B
  proof
    assume j: "leaders_led f d0 T home (rd_global_opt s) (rd_global_reductions s) (rd_pc s) (rd_data s) me B"
    then have "t = me" using top t(1) unfolding leaders_led_def by blast
    then show False using j t(2) by (simp add: leaders_led_def)
  qed
  ultimately obtain me where j: "leaders_closed f d0 T home (rd_global_opt s) (rd_global_reductions s) (rd_pc s) (rd_data s) me"
    using g unfolding global_inv_def by blast
  then have top_iff: "is_top (rd_pc s u) \<longleftrightarrow> u = me" if "u \<in> T" for u using that unfolding leaders_closed_def by blast
  then have "t = me" using top t(1) by blast
  then show "combines f d0 T (rd_data s t)" using j by (simp add: leaders_closed_def)
  show "\<And>u. u \<in> T \<Longrightarrow> rd_pc s u = Red_done True \<Longrightarrow> u = t" using top_iff \<open>t = me\<close> by force
qed


section \<open>All threads can return\<close>

text \<open>A leader that goes over the entries without finding anything.\<close>

definition scans where
  "scans f me skip lim cnt entries d g h \<longleftrightarrow> gather_step f me skip lim cnt g (entries, d) = (Some h, entries, d)"

lemma scans_up:
  assumes "i \<le> j" "j \<le> lim" "\<forall>k. i \<le> k \<and> k < j \<longrightarrow> skip k \<or> entries k = None"
  shows "(scans f me skip lim cnt entries d)\<^sup>*\<^sup>* (G_entry i r) (G_entry j r)"
  using assms
proof (induction "j - i" arbitrary: i)
  case (Suc m)
  then have "scans f me skip lim cnt entries d (G_entry i r) (G_entry (Suc i) r)" by (auto simp: scans_def)
  moreover have "(scans f me skip lim cnt entries d)\<^sup>*\<^sup>* (G_entry (Suc i) r) (G_entry j r)" using Suc by (intro Suc(1)) auto
  ultimately show ?case by (rule converse_rtranclp_into_rtranclp)
qed simp

lemma scans_finds:
  assumes "i \<le> j" "j < lim" "\<not> skip j" "entries j \<noteq> None"
  shows "\<exists>k p. (scans f me skip lim cnt entries d)\<^sup>*\<^sup>* (G_entry i r) (G_combine k r p)"
proof -
  define k where "k = (LEAST k. i \<le> k \<and> \<not> skip k \<and> entries k \<noteq> None)"
  have k: "i \<le> k" "\<not> skip k" "entries k \<noteq> None" "k \<le> j"
    using LeastI [of "\<lambda>k. i \<le> k \<and> \<not> skip k \<and> entries k \<noteq> None" j] Least_le [of "\<lambda>k. i \<le> k \<and> \<not> skip k \<and> entries k \<noteq> None" j] assms
    by (simp_all add: k_def)
  have "skip m \<or> entries m = None" if "i \<le> m" "m < k" for m
    using not_less_Least [of m "\<lambda>k. i \<le> k \<and> \<not> skip k \<and> entries k \<noteq> None"] that by (auto simp: k_def)
  then have "(scans f me skip lim cnt entries d)\<^sup>*\<^sup>* (G_entry i r) (G_entry k r)" using k assms by (intro scans_up) auto
  moreover obtain p where "entries k = Some p" using k(3) by blast
  then have "scans f me skip lim cnt entries d (G_entry k r) (G_combine k r p)" using k assms by (simp add: scans_def)
  ultimately show ?thesis by (meson rtranclp.rtrancl_into_rtrancl)
qed

lemma scans_wrap:
  assumes "\<forall>k. i \<le> k \<and> k < lim \<longrightarrow> skip k \<or> entries k = None"
  shows "(scans f me skip lim cnt entries d)\<^sup>*\<^sup>* (G_entry i r) (G_while r)"
proof (cases "i < lim")
  case True
  have "(scans f me skip lim cnt entries d)\<^sup>*\<^sup>* (G_entry i r) (G_entry lim r)" using assms True by (intro scans_up) auto
  moreover have "scans f me skip lim cnt entries d (G_entry lim r) (G_while r)" by (simp add: scans_def)
  ultimately show ?thesis by (rule rtranclp.rtrancl_into_rtrancl)
qed (auto simp: scans_def)

lemma scans_round:
  assumes "g = G_while r \<or> (\<exists>i. g = G_entry i r)" "int r < cnt" "j < lim" "\<not> skip j" "entries j \<noteq> None"
  shows "\<exists>k p. (scans f me skip lim cnt entries d)\<^sup>*\<^sup>* g (G_combine k r p)"
proof -
  let ?s = "scans f me skip lim cnt entries d"
  have w: "\<exists>k p. ?s\<^sup>*\<^sup>* (G_while r) (G_combine k r p)"
  proof -
    have "?s (G_while r) (G_entry 0 r)" using assms(2) by (simp add: scans_def)
    then show ?thesis
      using scans_finds [of 0 j lim skip entries f me cnt d r] assms(3-5) by (meson converse_rtranclp_into_rtranclp le0)
  qed
  show ?thesis
  proof (cases g)
    case (G_entry i r')
    then have r: "r' = r" using assms(1) by simp
    show ?thesis
    proof (cases "\<exists>k. i \<le> k \<and> k < lim \<and> \<not> skip k \<and> entries k \<noteq> None")
      case True
      then show ?thesis using scans_finds [of i _ lim skip entries f me cnt d r] G_entry r by blast
    next
      case False
      then have "?s\<^sup>*\<^sup>* (G_entry i r) (G_while r)" by (intro scans_wrap) auto
      then show ?thesis using w G_entry r by (meson rtranclp_trans)
    qed
  qed (use w assms(1) in auto)
qed

lemma scans_out:
  assumes "g = G_while r \<or> (\<exists>i. g = G_entry i r)" "\<And>i. entries i = None"
  shows "(scans f me skip lim cnt entries d)\<^sup>*\<^sup>* g (G_while r)"
  using assms scans_wrap [of _ lim skip entries f me cnt d r] by auto

text \<open>Lifted to runs: as many steps of the leader alone.\<close>

lemma red_run_append: "red_run f threads home (ts @ us) s = red_run f threads home us (red_run f threads home ts s)"
  by (induction ts arbitrary: s) auto

lemma node_scans_run:
  assumes "(scans f t (\<lambda>i. False) (nat (if ls_num (rd_opt s (home t)) < 48 then ls_num (rd_opt s (home t)) else 48))
      (ls_num (rd_opt s (home t))) (rd_reductions s (home t)) (rd_data s))\<^sup>*\<^sup>* g h"
    and "rd_pc s t = Red_node g"
  shows "\<exists>k. red_run f threads home (replicate k t) s = s\<lparr>rd_pc := (rd_pc s)(t := Red_node h)\<rparr>"
  using assms(1)
proof (induction rule: rtranclp_induct)
  case base
  have "red_run f threads home (replicate 0 t) s = s\<lparr>rd_pc := (rd_pc s)(t := Red_node g)\<rparr>"
    using assms(2) by (simp add: fun_upd_idem)
  then show ?case by blast
next
  case (step g1 g2)
  then obtain k where k: "red_run f threads home (replicate k t) s = s\<lparr>rd_pc := (rd_pc s)(t := Red_node g1)\<rparr>" by blast
  have "red_run f threads home (replicate (Suc k) t) s = s\<lparr>rd_pc := (rd_pc s)(t := Red_node g2)\<rparr>"
    using step.hyps(2) unfolding replicate_Suc replicate_append_same [symmetric] red_run_append k
    by (simp add: scans_def Let_def)
  then show ?case by blast
qed

lemma global_scans_run:
  assumes "(scans f t (\<lambda>i. threads i = 0) max_nodes (ls_num (rd_global_opt s)) (rd_global_reductions s) (rd_data s))\<^sup>*\<^sup>* g h"
    and "rd_pc s t = Red_global g"
  shows "\<exists>k. red_run f threads home (replicate k t) s = s\<lparr>rd_pc := (rd_pc s)(t := Red_global h)\<rparr>"
  using assms(1)
proof (induction rule: rtranclp_induct)
  case base
  have "red_run f threads home (replicate 0 t) s = s\<lparr>rd_pc := (rd_pc s)(t := Red_global g)\<rparr>"
    using assms(2) by (simp add: fun_upd_idem)
  then show ?case by blast
next
  case (step g1 g2)
  then obtain k where k: "red_run f threads home (replicate k t) s = s\<lparr>rd_pc := (rd_pc s)(t := Red_global g1)\<rparr>" by blast
  have "red_run f threads home (replicate (Suc k) t) s = s\<lparr>rd_pc := (rd_pc s)(t := Red_global g2)\<rparr>"
    using step.hyps(2) unfolding replicate_Suc replicate_append_same [symmetric] red_run_append k
    by (simp add: scans_def Let_def)
  then show ?case by blast
qed

text \<open>A measure of what is left; only scanning does not decrease it.\<close>

fun gather_rank :: "nat \<Rightarrow> gather \<Rightarrow> nat" where
  "gather_rank K (G_while r) = 3 * (K - r) + 2"
| "gather_rank K (G_entry i r) = 3 * (K - r) + 2"
| "gather_rank K (G_combine i r p) = 3 * (K - r) + 1"
| "gather_rank K (G_clear i r) = 3 * (K - r)"

fun red_rank :: "nat \<Rightarrow> red_pc \<Rightarrow> nat" where
  "red_rank K Red_enter = 6 * K + 20"
| "red_rank K (Red_put k) = 1"
| "red_rank K (Red_node g) = gather_rank K g + 3 * K + 10"
| "red_rank K Red_elect = 3 * K + 9"
| "red_rank K Red_publish = 2"
| "red_rank K (Red_global g) = gather_rank K g + 3"
| "red_rank K Red_global_cleanup = 2"
| "red_rank K (Red_cleanup b) = 1"
| "red_rank K (Red_done b) = 0"

fun scanning :: "gather \<Rightarrow> bool" where
  "scanning (G_while r) \<longleftrightarrow> True"
| "scanning (G_entry i r) \<longleftrightarrow> True"
| "scanning _ \<longleftrightarrow> False"

fun idle_scan :: "red_pc \<Rightarrow> bool" where
  "idle_scan (Red_node g) = scanning g"
| "idle_scan (Red_global g) = scanning g"
| "idle_scan _ \<longleftrightarrow> False"

lemma gather_step_rank:
  assumes "gather_step f me skip lim cnt g (entries, d) = (Some h, entries', d')" "\<not> scanning g" "gathered g < K"
  shows "gather_rank K h < gather_rank K g"
  using assms by (cases g) auto

lemma gather_rank_le: "gather_rank K g \<le> 3 * K + 2"
  by (cases g) auto

lemma node_gathering:
  assumes "node_inv f d0 M l entries pc d" "t \<in> M" "pc t = Red_node g"
  obtains A where "gathering id M entries g A" "node_led f d0 M l entries pc d t A" "ls_num l = int (card M)"
proof -
  have "leads (pc t)" using assms(3) by simp
  then obtain A where "node_led f d0 M l entries pc d t A" "ls_num l = int (card M)" by (rule node_leader [OF assms(1,2)])
  moreover from this have "gathering id M entries g A" using assms(3) by (simp add: node_led_def node_gathered_def)
  ultimately show ?thesis using that by blast
qed

lemma leaders_gathering:
  assumes "global_inv f d0 T home l entries pc d" "t \<in> T" "pc t = Red_global g"
  obtains B where "gathering home (home ` T) entries g B" "leaders_led f d0 T home l entries pc d t B"
proof -
  obtain B where "leaders_led f d0 T home l entries pc d t B" using global_leader [OF assms(1,2)] assms(3) by blast
  moreover from this have "gathering home (home ` T) entries g B" using assms(3) by (simp add: leaders_led_def)
  ultimately show ?thesis using that by blast
qed

text \<open>The progress of a thread in the steps \<open>ts\<close> it takes alone.\<close>

definition progresses where
  "progresses f threads T home s t \<longleftrightarrow> (\<exists>ts p. set ts \<subseteq> {t} \<and> rd_pc (red_run f threads home ts s) = (rd_pc s)(t := p) \<and>
     red_rank (Suc (card T)) p < red_rank (Suc (card T)) (rd_pc s t))"

lemma step_progresses:
  assumes inv: "red_inv f d0 T home s" and t: "t \<in> T"
    and s: "hierarchy_reduce f threads (home t) t (rd_pc s t) s = Some s'" and busy: "\<not> idle_scan (rd_pc s t)"
  shows "progresses f threads T home s t"
proof -
  let ?K = "Suc (card T)" and ?M = "members T home (home t)"
  have fT: "finite T" using red_inv_global [OF inv] by (simp add: global_inv_def)
  have "\<exists>p. rd_pc s' = (rd_pc s)(t := p) \<and> red_rank ?K p < red_rank ?K (rd_pc s t)"
  proof (cases "rd_pc s t")
    case Red_enter
    obtain leader ticket l where l: "select_leader_optimistic (rd_opt s (home t)) = (leader, ticket, l)" by (metis prod_cases3)
    then show ?thesis using s Red_enter by auto
  next
    case (Red_put k)
    then show ?thesis using s by (auto simp: Let_def split: option.splits)
  next
    case (Red_node g)
    obtain A where A: "gathering id ?M (rd_reductions s (home t)) g A"
      by (rule node_gathering [OF red_inv_node [OF inv t] memberI [OF t] Red_node])
    have "card ?M \<le> card T" using fT by (intro card_mono) (auto simp: members_def)
    then have K: "gathered g < ?K" using gathering_bound [OF A] by simp
    obtain g' entries d where g: "gather_step f t (\<lambda>i. False) (nat (if ls_num (rd_opt s (home t)) < 48 then ls_num (rd_opt s (home t)) else 48))
        (ls_num (rd_opt s (home t))) g (rd_reductions s (home t), rd_data s) = (g', entries, d)" by (metis prod_cases3)
    then have "rd_pc s' = (rd_pc s)(t := (case g' of None \<Rightarrow> Red_elect | Some g \<Rightarrow> Red_node g))"
      using s Red_node by (auto simp: Let_def)
    moreover have "red_rank ?K (case g' of None \<Rightarrow> Red_elect | Some g \<Rightarrow> Red_node g) < red_rank ?K (Red_node g)"
      using gather_step_rank [of f t] g busy Red_node K by (cases g') auto
    ultimately show ?thesis using Red_node by metis
  next
    case Red_elect
    obtain leader ticket l where l: "select_leader_optimistic (rd_global_opt s) = (leader, ticket, l)" by (metis prod_cases3)
    then show ?thesis using s Red_elect by auto
  next
    case (Red_global g)
    obtain B where B: "gathering home (home ` T) (rd_global_reductions s) g B"
      by (rule leaders_gathering [OF red_inv_global [OF inv] t Red_global])
    then have K: "gathered g < ?K" using gathering_bound [OF B] card_image_le [OF fT, of home] by simp
    obtain g' entries d where g: "gather_step f t (\<lambda>i. threads i = 0) max_nodes (ls_num (rd_global_opt s)) g
        (rd_global_reductions s, rd_data s) = (g', entries, d)" by (metis prod_cases3)
    then have "rd_pc s' = (rd_pc s)(t := (case g' of None \<Rightarrow> Red_global_cleanup | Some g \<Rightarrow> Red_global g))"
      using s Red_global by (auto simp: Let_def)
    moreover have "red_rank ?K (case g' of None \<Rightarrow> Red_global_cleanup | Some g \<Rightarrow> Red_global g) < red_rank ?K (Red_global g)"
      using gather_step_rank [of f t] g busy Red_global K by (cases g') auto
    ultimately show ?thesis using Red_global by metis
  qed (use s in auto)
  then obtain p where "rd_pc s' = (rd_pc s)(t := p)" "red_rank ?K p < red_rank ?K (rd_pc s t)" by blast
  moreover have "red_run f threads home [t] s = s'" using s by simp
  ultimately show ?thesis unfolding progresses_def by (metis empty_set list.simps(15) order_refl)
qed

lemma run_progresses:
  assumes "red_run f threads home (replicate k t) s = s\<lparr>rd_pc := (rd_pc s)(t := p)\<rparr>"
    and "red_rank (Suc (card T)) p < red_rank (Suc (card T)) (rd_pc s t)"
  shows "progresses f threads T home s t"
  unfolding progresses_def using assms by (intro exI [of _ "replicate k t"] exI [of _ p]) auto

lemma scanning_iff: "scanning g \<longleftrightarrow> g = G_while (gathered g) \<or> (\<exists>i. g = G_entry i (gathered g))"
  by (cases g) auto

lemma scanning_rank: "scanning g \<Longrightarrow> gather_rank K g = 3 * (K - gathered g) + 2"
  by (cases g) auto

lemma node_scan_progresses:
  assumes inv: "red_inv f d0 T home s" and t: "t \<in> T" "rd_pc s t = Red_node g" "scanning g"
    and full: "gathered g = card (members T home (home t)) \<or> (\<exists>i. rd_reductions s (home t) i \<noteq> None)"
  shows "progresses f threads T home s t"
proof -
  let ?M = "members T home (home t)" and ?e = "rd_reductions s (home t)" and ?l = "rd_opt s (home t)" and ?K = "Suc (card T)"
  let ?lim = "nat (if ls_num ?l < 48 then ls_num ?l else 48)"
  obtain A where A: "gathering id ?M ?e g A" and led: "node_led f d0 ?M ?l ?e (rd_pc s) (rd_data s) t A" and cnt: "ls_num ?l = int (card ?M)"
    by (rule node_gathering [OF red_inv_node [OF inv t(1)] memberI [OF t(1)] t(2)])
  have g: "g = G_while (gathered g) \<or> (\<exists>i. g = G_entry i (gathered g))" using t(3) scanning_iff by blast
  show ?thesis
  proof (cases "gathered g < card ?M")
    case True
    then obtain j where j: "?e j \<noteq> None" using full by auto
    then have "j < ?lim" using led cnt by (auto simp: node_led_def)
    then obtain k p where "(scans f t (\<lambda>i. False) ?lim (ls_num ?l) ?e (rd_data s))\<^sup>*\<^sup>* g (G_combine k (gathered g) p)"
      using scans_round [OF g, of "ls_num ?l" j ?lim "\<lambda>i. False" ?e f t "rd_data s"] j True cnt by auto
    from node_scans_run [where f = f and t = t and s = s and home = home, OF this t(2)] obtain n where
      "red_run f threads home (replicate n t) s = s\<lparr>rd_pc := (rd_pc s)(t := Red_node (G_combine k (gathered g) p))\<rparr>" by blast
    then show ?thesis by (rule run_progresses) (use t(2) scanning_rank [OF t(3)] in simp)
  next
    case False
    then have AM: "card ?M \<le> card A" "A \<subseteq> ?M" "finite ?M" using A by (auto simp: gathering_def)
    then have "A = ?M" by (intro card_seteq) auto
    moreover have "clearing g = None" using t(3) by (cases g) auto
    ultimately have e: "?e i = None" for i
      using A entries_okD(1,2) [of id ?M ?e "clearing g" A i] unfolding gathering_def by (cases "?e i") auto
    from node_scans_run [where f = f and t = t and s = s and home = home, OF scans_out [OF g e] t(2)] obtain n where
      n: "red_run f threads home (replicate n t) s = s\<lparr>rd_pc := (rd_pc s)(t := Red_node (G_while (gathered g)))\<rparr>" by blast
    have "red_run f threads home (replicate (Suc n) t) s = s\<lparr>rd_pc := (rd_pc s)(t := Red_elect)\<rparr>"
      using False cnt unfolding replicate_Suc replicate_append_same [symmetric] red_run_append n by (simp add: Let_def)
    then show ?thesis by (rule run_progresses) (use t(2) scanning_rank [OF t(3)] in simp)
  qed
qed


lemma global_scan_progresses:
  assumes inv: "red_inv f d0 T home s" and t: "t \<in> T" "rd_pc s t = Red_global g" "scanning g"
    and full: "gathered g = card (home ` T) \<or> (\<exists>i. rd_global_reductions s i \<noteq> None)"
    and nodes: "\<And>n. n \<in> home ` T \<Longrightarrow> n < max_nodes \<and> threads n \<noteq> 0"
  shows "progresses f threads T home s t"
proof -
  let ?N = "home ` T" and ?e = "rd_global_reductions s" and ?l = "rd_global_opt s"
  have cnt: "ls_num ?l = int (card ?N)" using red_inv_global [OF inv] by (simp add: global_inv_def)
  obtain B where B: "gathering home ?N ?e g B"
    by (rule leaders_gathering [OF red_inv_global [OF inv] t(1,2)])
  have g: "g = G_while (gathered g) \<or> (\<exists>i. g = G_entry i (gathered g))" using t(3) scanning_iff by blast
  show ?thesis
  proof (cases "gathered g < card ?N")
    case True
    then obtain j u where j: "?e j = Some u" using full by auto
    then have "j \<in> ?N" using global_entry(1,2) [OF red_inv_global [OF inv] j] by auto
    then obtain k p where "(scans f t (\<lambda>i. threads i = 0) max_nodes (ls_num ?l) ?e (rd_data s))\<^sup>*\<^sup>* g (G_combine k (gathered g) p)"
      using scans_round [OF g, of "ls_num ?l" j max_nodes "\<lambda>i. threads i = 0" ?e f t "rd_data s"] j True cnt nodes [of j] by auto
    from global_scans_run [where f = f and t = t and s = s and threads = threads, OF this t(2), of home] obtain n where
      "red_run f threads home (replicate n t) s = s\<lparr>rd_pc := (rd_pc s)(t := Red_global (G_combine k (gathered g) p))\<rparr>" by blast
    then show ?thesis by (rule run_progresses) (use t(2) scanning_rank [OF t(3)] in simp)
  next
    case False
    then have BN: "card ?N \<le> card B" "B \<subseteq> ?N" "finite ?N" using B by (auto simp: gathering_def)
    then have "B = ?N" by (intro card_seteq) auto
    moreover have "clearing g = None" using t(3) by (cases g) auto
    ultimately have e: "?e i = None" for i
      using B entries_okD(1,2) [of home ?N ?e "clearing g" B i] unfolding gathering_def by (cases "?e i") auto
    from global_scans_run [where f = f and t = t and s = s and threads = threads, OF scans_out [OF g e] t(2), of home] obtain n where
      n: "red_run f threads home (replicate n t) s = s\<lparr>rd_pc := (rd_pc s)(t := Red_global (G_while (gathered g)))\<rparr>" by blast
    have "red_run f threads home (replicate (Suc n) t) s = s\<lparr>rd_pc := (rd_pc s)(t := Red_global_cleanup)\<rparr>"
      using False cnt unfolding replicate_Suc replicate_append_same [symmetric] red_run_append n by (simp add: Let_def)
    then show ?thesis by (rule run_progresses) (use t(2) scanning_rank [OF t(3)] in simp)
  qed
qed

text \<open>As long as not all threads have returned, one of them can make progress.\<close>

definition at_entry :: "red_pc \<Rightarrow> bool" where
  "at_entry p \<longleftrightarrow> (\<exists>k. p = Red_put k)"

lemma busy_step:
  assumes "\<not> idle_scan (rd_pc s t)" "\<not> at_entry (rd_pc s t)" "rd_pc s t \<noteq> Red_done True" "rd_pc s t \<noteq> Red_done False"
  shows "hierarchy_reduce f threads (home t) t (rd_pc s t) s \<noteq> None"
proof (cases "rd_pc s t")
  case Red_enter
  then show ?thesis by (simp add: Let_def split: prod.splits)
next
  case (Red_node g)
  then show ?thesis by (simp add: Let_def split: prod.splits)
next
  case Red_elect
  then show ?thesis by (simp add: Let_def split: prod.splits)
next
  case (Red_global g)
  then show ?thesis by (simp add: Let_def split: prod.splits)
next
  case (Red_done b)
  then show ?thesis using assms by (cases b) auto
qed (use assms in \<open>auto simp: at_entry_def\<close>)

lemma put_progresses:
  assumes inv: "red_inv f d0 T home s" and t: "t \<in> T" "rd_pc s t = Red_put k" and e: "\<And>i. rd_reductions s (home t) i = None"
  shows "progresses f threads T home s t"
proof -
  obtain s' where s': "hierarchy_reduce f threads (home t) t (rd_pc s t) s = Some s'" using t(2) e by (simp add: Let_def)
  show ?thesis by (rule step_progresses [OF inv t(1) s']) (simp add: t(2))
qed

lemma red_not_stuck:
  assumes inv: "red_inv f d0 T home s" and nodes: "\<And>n. n \<in> home ` T \<Longrightarrow> n < max_nodes \<and> threads n \<noteq> 0"
    and todo: "\<not> (\<forall>t \<in> T. \<exists>b. rd_pc s t = Red_done b)"
  shows "\<exists>t \<in> T. progresses f threads T home s t"
proof (rule ccontr)
  assume "\<not> ?thesis"
  then have stuck: "\<not> progresses f threads T home s t" if "t \<in> T" for t using that by blast
  have pcs: "idle_scan (rd_pc s t) \<or> at_entry (rd_pc s t) \<or> (\<exists>b. rd_pc s t = Red_done b)" if "t \<in> T" for t
  proof (rule ccontr)
    assume n: "\<not> ?thesis"
    then have "hierarchy_reduce f threads (home t) t (rd_pc s t) s \<noteq> None" by (intro busy_step) blast+
    then show False using step_progresses [OF inv that] n stuck [OF that] by blast
  qed
  have no_node: "rd_pc s t \<noteq> Red_node g" if tT: "t \<in> T" for t g
  proof
    assume g: "rd_pc s t = Red_node g"
    then have sc: "scanning g" using pcs [OF tT] by (auto simp: at_entry_def)
    let ?M = "members T home (home t)" and ?e = "rd_reductions s (home t)"
    obtain A where A: "gathering id ?M ?e g A" and led: "node_led f d0 ?M (rd_opt s (home t)) ?e (rd_pc s) (rd_data s) t A"
      by (rule node_gathering [OF red_inv_node [OF inv tT] memberI [OF tT] g])
    note np = node_scan_progresses [OF inv tT g sc]
    have e: "?e i = None" for i using np stuck [OF tT] by blast
    have c: "gathered g \<noteq> card ?M" using np stuck [OF tT] by blast
    have "received id ?e A = A" using e by (simp add: received_def)
    then have A': "A = insert t {u \<in> ?M. rd_pc s u = Red_done False}" using led by (simp add: node_led_def)
    have "A \<subseteq> ?M" "A \<noteq> ?M" using A c by (auto simp: gathering_def)
    then obtain u where u: "u \<in> ?M" "u \<notin> A" by blast
    then have uT: "u \<in> T" "home u = home t" by (auto simp: members_def)
    have "\<not> leads (rd_pc s u)" "rd_pc s u \<noteq> Red_done True" "rd_pc s u \<noteq> Red_done False"
      using led u A' by (auto simp: node_led_def)
    then obtain k where "rd_pc s u = Red_put k" using pcs [OF uT(1)] by (cases "rd_pc s u") (auto simp: at_entry_def)
    then show False using put_progresses [OF inv uT(1), of k] e uT(2) stuck [OF uT(1)] by simp
  qed
  have no_put: "rd_pc s t \<noteq> Red_put k" if tT: "t \<in> T" for t k
  proof
    assume k: "rd_pc s t = Red_put k"
    let ?M = "members T home (home t)" and ?e = "rd_reductions s (home t)"
    obtain me A where led: "node_led f d0 ?M (rd_opt s (home t)) ?e (rd_pc s) (rd_data s) me A" "me \<noteq> t"
      by (rule node_follower [OF red_inv_node [OF inv tT] memberI [OF tT] k])
    then have me: "me \<in> T" "leads (rd_pc s me)" by (auto simp: node_led_def members_def)
    have "A = ?M"
      using led(1) me no_node [OF me(1)] by (cases "rd_pc s me") (auto simp: node_led_def node_gathered_def)
    then have "t \<in> received id ?e A" using memberI [OF tT] by (auto simp: received_def)
    then show False using led k by (auto simp: node_led_def)
  qed
  obtain t where t: "t \<in> T" "\<not> (\<exists>b. rd_pc s t = Red_done b)" using todo by blast
  then obtain g where g: "rd_pc s t = Red_global g" "scanning g"
    using pcs [OF t(1)] no_node [OF t(1)] no_put [OF t(1)] by (cases "rd_pc s t") (auto simp: at_entry_def)
  obtain B where B: "gathering home (home ` T) (rd_global_reductions s) g B"
      and led: "leaders_led f d0 T home (rd_global_opt s) (rd_global_reductions s) (rd_pc s) (rd_data s) t B"
    by (rule leaders_gathering [OF red_inv_global [OF inv] t(1) g(1)])
  note np = global_scan_progresses [OF inv t(1) g _ nodes]
  have e: "rd_global_reductions s i = None" for i using np stuck [OF t(1)] by blast
  have c: "gathered g \<noteq> card (home ` T)" using np stuck [OF t(1)] by blast
  have "received home (rd_global_reductions s) B = B" using e by (simp add: received_def)
  then have P: "B = published_nodes T home (rd_pc s)" using led by (simp add: leaders_led_def)
  have "B \<subseteq> home ` T" "B \<noteq> home ` T" using B c by (auto simp: gathering_def)
  then obtain n where n: "n \<in> home ` T" "n \<notin> B" by blast
  have pub: "rd_pc s u \<noteq> Red_publish" if "u \<in> T" for u using pcs [OF that] by (auto simp: at_entry_def)
  have el: "elected (members T home n) (rd_pc s)"
  proof (cases "n = home t")
    case True
    then show ?thesis using top_elected [of t T "rd_pc s" home] t(1) g(1) by (simp add: elected_nodes_def)
  next
    case False
    have "\<exists>b. rd_pc s u = Red_done b" if u: "u \<in> members T home n" for u
    proof -
      have uT: "u \<in> T" "u \<noteq> t" using u False by (auto simp: members_def)
      have "\<not> is_top (rd_pc s u)" using led uT by (simp add: leaders_led_def)
      then show ?thesis using pcs [OF uT(1)] no_node [OF uT(1)] no_put [OF uT(1)]
        by (cases "rd_pc s u") (auto simp: at_entry_def)
    qed
    then show ?thesis by (auto simp: elected_def)
  qed
  moreover have "\<not> publishing (members T home n) (rd_pc s)" using pub by (auto simp: publishing_def members_def)
  ultimately have "n \<in> B" using n(1) by (simp add: P published_nodes_def elected_nodes_def)
  then show False using n(2) by simp
qed

lemma red_completes:
  assumes "red_inv f d0 T home s" "\<And>n. n \<in> home ` T \<Longrightarrow> n < max_nodes \<and> threads n \<noteq> 0"
  shows "\<exists>ts. set ts \<subseteq> T \<and> (\<forall>t \<in> T. \<exists>b. rd_pc (red_run f threads home ts s) t = Red_done b)"
  using assms(1)
proof (induction "\<Sum>t\<in>T. red_rank (Suc (card T)) (rd_pc s t)" arbitrary: s rule: less_induct)
  case less
  have fT: "finite T" using red_inv_global [OF less.prems] by (simp add: global_inv_def)
  show ?case
  proof (cases "\<forall>t \<in> T. \<exists>b. rd_pc s t = Red_done b")
    case True
    then show ?thesis by (intro exI [of _ "[]"]) simp
  next
    case False
    obtain t where t: "t \<in> T" "progresses f threads T home s t" using red_not_stuck [OF less.prems assms(2) False] by blast
    then obtain us p where p: "set us \<subseteq> {t}" "rd_pc (red_run f threads home us s) = (rd_pc s)(t := p)"
        "red_rank (Suc (card T)) p < red_rank (Suc (card T)) (rd_pc s t)" unfolding progresses_def by blast
    let ?s = "red_run f threads home us s"
    have uT: "set us \<subseteq> T" using p(1) t(1) by blast
    have "(\<Sum>u\<in>T - {t}. red_rank (Suc (card T)) (rd_pc ?s u)) = (\<Sum>u\<in>T - {t}. red_rank (Suc (card T)) (rd_pc s u))"
      by (rule sum.cong) (auto simp: p(2))
    then have "(\<Sum>u\<in>T. red_rank (Suc (card T)) (rd_pc ?s u)) < (\<Sum>u\<in>T. red_rank (Suc (card T)) (rd_pc s u))"
      using p(2,3) fT t(1) by (simp add: sum.remove [of T t])
    then obtain ts where "set ts \<subseteq> T" "\<forall>t \<in> T. \<exists>b. rd_pc (red_run f threads home ts ?s) t = Red_done b"
      using less.hyps [of ?s] red_inv_run [OF less.prems uT] by blast
    then show ?thesis using uT by (intro exI [of _ "us @ ts"]) (simp add: red_run_append)
  qed
qed


section \<open>Reductions of a team\<close>

lemma red_inv_start:
  assumes team: "forms_team T home nodes threads"
  shows "red_inv f d T home (begin_reduction (init_team nodes threads h) d)"
proof -
  have t: "finite T" "T \<noteq> {}" "card T < 2 ^ 32" "distinct nodes" "set nodes = home ` T"
      "\<And>n. n \<in> home ` T \<Longrightarrow> threads n = int (card (members T home n))"
    using team by (auto simp: forms_team_def)
  have opt: "rd_opt (begin_reduction (init_team nodes threads h) d) n = all_remaining (threads n)" if "n \<in> home ` T" for n
    using that t(5) fold_init_node(3) [OF t(4), of threads h n] by (simp add: begin_reduction_def init_team_def hierarchy_init_global_def)
  have "node_inv f d (members T home n) (all_remaining (threads n)) (\<lambda>_. None) (\<lambda>_. Red_enter) d" if n: "n \<in> home ` T" for n
  proof -
    have "finite (members T home n)" "members T home n \<noteq> {}" "card (members T home n) < 2 ^ 32"
      using t(1,3) n card_mono [OF t(1), of "members T home n"] by (auto simp: members_def)
    then show ?thesis using t(6) [OF n] by (simp add: node_inv_def node_fresh_def all_remaining_def)
  qed
  moreover have "elected_nodes T home (\<lambda>_. Red_enter) = {}" by (auto simp: elected_nodes_def elected_def members_def)
  moreover have "card (home ` T) < 2 ^ 32" using card_image_le [OF t(1), of home] t(3) by simp
  moreover have "length nodes = card (home ` T)" using t(4,5) by (metis distinct_card)
  ultimately show ?thesis
    using opt t(1,2)
    by (simp add: red_inv_def global_inv_def leaders_fresh_def)
      (simp add: begin_reduction_def init_team_def hierarchy_init_global_def all_remaining_def)
qed

text \<open>When all have returned, the next reduction finds everything as the first did.\<close>

definition reduction_over :: "nat set \<Rightarrow> nat list \<Rightarrow> (nat \<Rightarrow> int) \<Rightarrow> 'a red_state \<Rightarrow> bool" where
  "reduction_over T nodes threads s \<longleftrightarrow> (\<forall>t \<in> T. \<exists>b. rd_pc s t = Red_done b) \<and> (\<exists>!t. t \<in> T \<and> rd_pc s t = Red_done True) \<and>
     (\<forall>n \<in> set nodes. rd_opt s n = all_remaining (threads n) \<and> (\<forall>i. rd_reductions s n i = None)) \<and>
     rd_global_opt s = all_remaining (int (length nodes)) \<and> (\<forall>i. rd_global_reductions s i = None)"

lemma all_remainingI: "ls_num l = k \<Longrightarrow> ls_remaining l = k \<Longrightarrow> l = all_remaining k"
  by (simp add: all_remaining_def)

lemma red_over:
  assumes inv: "red_inv f d T home s" and team: "forms_team T home nodes threads" and all_done: "\<forall>t \<in> T. \<exists>b. rd_pc s t = Red_done b"
  shows "reduction_over T nodes threads s"
proof -
  have t: "finite T" "T \<noteq> {}" "distinct nodes" "set nodes = home ` T"
      "\<And>n. n \<in> home ` T \<Longrightarrow> threads n = int (card (members T home n))"
    using team by (auto simp: forms_team_def)
  note g = red_inv_global [OF inv]
  have len: "int (length nodes) = int (card (home ` T))" using t(3,4) by (metis distinct_card)
  have nodes: "rd_opt s n = all_remaining (threads n) \<and> (\<forall>i. rd_reductions s n i = None)" if n: "n \<in> set nodes" for n
  proof -
    let ?M = "members T home n"
    have M: "\<exists>u. u \<in> ?M" "\<forall>u \<in> ?M. \<exists>b. rd_pc s u = Red_done b" using n t(4) all_done by (auto simp: members_def)
    have i: "node_inv f d ?M (rd_opt s n) (rd_reductions s n) (rd_pc s) (rd_data s)" using inv n t(4) unfolding red_inv_def by blast
    have "\<not> node_fresh d ?M (rd_opt s n) (rd_reductions s n) (rd_pc s) (rd_data s)" using M by (auto simp: node_fresh_def)
    moreover have "\<not> node_led f d ?M (rd_opt s n) (rd_reductions s n) (rd_pc s) (rd_data s) me A" for me A
    proof
      assume "node_led f d ?M (rd_opt s n) (rd_reductions s n) (rd_pc s) (rd_data s) me A"
      then have "me \<in> ?M" "leads (rd_pc s me)" by (auto simp: node_led_def)
      then show False using M(2) by force
    qed
    ultimately have "node_closed ?M (rd_opt s n) (rd_reductions s n) (rd_pc s)" using i unfolding node_inv_def by blast
    then show ?thesis using i n t(4,5) by (auto simp: node_closed_def node_inv_def intro!: all_remainingI)
  qed
  have "\<exists>me. leaders_closed f d T home (rd_global_opt s) (rd_global_reductions s) (rd_pc s) (rd_data s) me"
  proof -
    obtain t0 where t0: "t0 \<in> T" using t(2) by blast
    have "home t0 \<in> elected_nodes T home (rd_pc s)" using t0 all_done by (auto simp: elected_nodes_def elected_def members_def)
    then have "\<not> leaders_fresh T home (rd_global_opt s) (rd_global_reductions s) (rd_pc s)" by (auto simp: leaders_fresh_def)
    moreover have "\<not> leaders_led f d T home (rd_global_opt s) (rd_global_reductions s) (rd_pc s) (rd_data s) me B" for me B
    proof
      assume j: "leaders_led f d T home (rd_global_opt s) (rd_global_reductions s) (rd_pc s) (rd_data s) me B"
      then have "me \<in> T" by (simp add: leaders_led_def)
      then obtain b where "rd_pc s me = Red_done b" using all_done by blast
      then show False using j by (simp add: leaders_led_def)
    qed
    ultimately show ?thesis using g unfolding global_inv_def by blast
  qed
  then obtain me where j: "leaders_closed f d T home (rd_global_opt s) (rd_global_reductions s) (rd_pc s) (rd_data s) me" by blast
  then have me: "me \<in> T" "is_top (rd_pc s me)" and alone: "\<And>u. u \<in> T \<Longrightarrow> is_top (rd_pc s u) \<Longrightarrow> u = me"
    by (simp_all add: leaders_closed_def)
  obtain b where "rd_pc s me = Red_done b" using all_done me(1) by blast
  then have "rd_pc s me = Red_done True" using me(2) by simp
  moreover have "u = me" if "u \<in> T" "rd_pc s u = Red_done True" for u using alone [OF that(1)] that(2) by simp
  ultimately have "\<exists>!t. t \<in> T \<and> rd_pc s t = Red_done True" using me(1) by blast
  moreover have "rd_global_opt s = all_remaining (int (length nodes))"
    using j g len by (intro all_remainingI) (simp_all add: leaders_closed_def global_inv_def)
  moreover have "\<forall>i. rd_global_reductions s i = None" using j by (simp add: leaders_closed_def)
  ultimately show ?thesis using all_done nodes by (simp add: reduction_over_def)
qed

text \<open>
  C30: In every interleaving of a reduction, a thread for which \<open>hierarchy_reduce\<close> returns true has in its data the data of
  all threads of the team, each combined once; and it is the only thread for which it does.
\<close>

theorem reduction_exact:
  assumes "forms_team T home nodes threads" "set ts \<subseteq> T" "t \<in> T"
    and "s = red_run f threads home ts (begin_reduction (init_team nodes threads h) d)" "rd_pc s t = Red_done True"
  shows "combines f d T (rd_data s t) \<and> (\<forall>u \<in> T. rd_pc s u = Red_done True \<longrightarrow> u = t)"
  using red_result [OF red_inv_run [OF red_inv_start [OF assms(1)] assms(2)] assms(3), of f threads h d] assms(4,5) by blast

text \<open>
  C31: From every point of a reduction there are steps after which all threads have returned; exactly one has the result,
  and the selections and entries of all nodes are as they were at the start, so that the next reduction can begin.
\<close>

theorem reduction_completes:
  assumes "forms_team T home nodes threads" "\<forall>n \<in> set nodes. n < max_nodes" "set ts \<subseteq> T"
  shows "\<exists>ts'. set ts' \<subseteq> T \<and>
    reduction_over T nodes threads (red_run f threads home (ts @ ts') (begin_reduction (init_team nodes threads h) d))"
proof -
  let ?s = "red_run f threads home ts (begin_reduction (init_team nodes threads h) d)"
  have inv: "red_inv f d T home ?s" by (rule red_inv_run [OF red_inv_start [OF assms(1)] assms(3)])
  have "n < max_nodes \<and> threads n \<noteq> 0" if n: "n \<in> home ` T" for n
  proof -
    have "members T home n \<noteq> {}" "finite (members T home n)" using n assms(1) by (auto simp: members_def forms_team_def)
    then show ?thesis using n assms(1,2) by (auto simp: forms_team_def)
  qed
  then obtain ts' where ts': "set ts' \<subseteq> T" "\<forall>t \<in> T. \<exists>b. rd_pc (red_run f threads home ts' ?s) t = Red_done b"
    using red_completes [OF inv, of threads] by blast
  then show ?thesis using red_over [OF red_inv_run [OF inv ts'(1)] assms(1) ts'(2)] by (auto simp: red_run_append)
qed


section \<open>A sum over three threads on two nodes\<close>

definition example_reduction :: "nat \<Rightarrow> int red_state" where
  "example_reduction n = red_run (+) (\<lambda>n. if n = 0 then 2 else 1) (\<lambda>t. t div 2) (example_turns n)
     (begin_reduction (init_team [0, 1] (\<lambda>n. if n = 0 then 2 else 1) example_idle) (\<lambda>t. 2 ^ t))"

lemma example_reduction_result:
  "rd_pc (example_reduction 80) 2 = Red_done True" "rd_data (example_reduction 80) 2 = 7"
  by code_simp+

theorem reduction_exact_witness:
  "rd_pc (example_reduction 80) 2 = Red_done True \<and> combines (+) (\<lambda>t. 2 ^ t) {0, 1, 2} (7 :: int)"
proof -
  have "combines (+) (\<lambda>t. 2 ^ t) {0, 1, 2} (rd_data (example_reduction 80) 2) \<and>
      (\<forall>u \<in> {0, 1, 2}. rd_pc (example_reduction 80) u = Red_done True \<longrightarrow> u = 2)"
    by (rule reduction_exact [OF example_forms_team example_turns_set _ _ example_reduction_result(1)])
      (simp_all add: example_reduction_def)
  then show ?thesis using example_reduction_result by simp
qed

theorem reduction_completes_witness:
  "\<exists>ts'. set ts' \<subseteq> {0, 1, 2} \<and> reduction_over {0, 1, 2} [0, 1] (\<lambda>n. if n = 0 then 2 else 1)
    (red_run (+) (\<lambda>n. if n = 0 then 2 else 1) (\<lambda>t. t div 2) (example_turns 3 @ ts')
      (begin_reduction (init_team [0, 1] (\<lambda>n. if n = 0 then 2 else 1) example_idle) (\<lambda>t. 2 ^ t :: int)))"
  by (rule reduction_completes [OF example_forms_team _ example_turns_set]) (simp add: MAX_POPCORN_NODES_def)


section \<open>Reductions without a barrier\<close>

text \<open>
  A nowait reduction is the same function, but a thread that has put its data into an entry goes on and may use the
  memory for something else: here thread 1 writes 100 after it has returned, and the sum changes.
\<close>

definition example_nowait :: "int red_state" where
  "example_nowait =
     (let s = red_run (+) (\<lambda>n. if n = 0 then 2 else 1) (\<lambda>t. t div 2) [0, 1, 1]
            (begin_reduction (init_team [0, 1] (\<lambda>n. if n = 0 then 2 else 1) example_idle) (\<lambda>t. 2 ^ t)) in
      red_run (+) (\<lambda>n. if n = 0 then 2 else 1) (\<lambda>t. t div 2) (example_turns 80) (s\<lparr>rd_data := (rd_data s)(1 := 100)\<rparr>))"

lemma nowait_result_changes:
  "rd_pc example_nowait 2 = Red_done True" "rd_data example_nowait 2 = 105"
  by code_simp+


end
