(* ===== verification/Node_Heap.thy ===== *)
theory Node_Heap
  imports C_Int
begin

unbundle bit_operations_syntax

text \<open>
  The heaps of the nodes (\<open>popcorn_malloc.c\<close> and \<open>expand_heap.c\<close> in \<open>src/lib/musl-1.1.18/src/malloc\<close>): a program that is
  spread over nodes takes memory for a node from the arena of that node, so that nodes do not share pages. An arena is a
  sequence of chunks; the sizes of a chunk and of the one before it are in the chunk's header, with flags in the two
  lowest bits, and free chunks are in 64 circular lists (bins) by size. The model is of one thread: \<open>lock\<close> does nothing
  unless there are others.
\<close>

section \<open>State\<close>

abbreviation (input) PAGE_SIZE :: int where "PAGE_SIZE \<equiv> 4096"
abbreviation (input) ARENA_SIZE :: int where "ARENA_SIZE \<equiv> 2 ^ 30"
abbreviation (input) SIZE_ALIGN :: int where "SIZE_ALIGN \<equiv> 32"
abbreviation (input) OVERHEAD :: int where "OVERHEAD \<equiv> 16"
abbreviation (input) MMAP_THRESHOLD :: int where "MMAP_THRESHOLD \<equiv> 229376"
abbreviation (input) DONTCARE :: int where "DONTCARE \<equiv> 16"
abbreviation (input) RECLAIM :: int where "RECLAIM \<equiv> 163840"
abbreviation (input) HEAP_NODES :: int where "HEAP_NODES \<equiv> 32"

abbreviation (input) u64 :: "int \<Rightarrow> int" where "u64 \<equiv> wrapc U64"

datatype heap_errno = EINVAL | ENOMEM

text \<open>Calls that are not modelled further: to the kernel, to \<open>free\<close> for other memory, and copies of contents.\<close>

datatype heap_call = Munmap int int | Madvise int int | Plain_free int | Memcpy int int int

text \<open>
  The fields of the chunks by the address of the chunk; the head and tail of a bin are the fields \<open>next\<close> and \<open>prev\<close> of the
  pseudo-chunk \<open>BIN_TO_CHUNK\<close>. \<open>mal_at\<close> is the address of \<open>mal\<close>.
\<close>

record heap_state =
  mal_at :: int
  ck_psize :: "int \<Rightarrow> int"
  ck_csize :: "int \<Rightarrow> int"
  ck_next :: "int \<Rightarrow> int"
  ck_prev :: "int \<Rightarrow> int"
  binmap :: "nat \<Rightarrow> int"
  initialized :: "nat \<Rightarrow> bool"
  heap_end :: "nat \<Rightarrow> int"
  arena_start :: int
  node_arenas :: "nat \<Rightarrow> int"
  node_sizes :: "nat \<Rightarrow> int"
  heap_errno :: "heap_errno option"
  heap_calls :: "heap_call list"

text \<open>What the kernel and the general allocator do: the program break, whether mappings at a fixed place succeed, where others are, and so on.\<close>

record heap_os =
  os_brk :: int
  os_mmap_fixed :: "int \<Rightarrow> int \<Rightarrow> bool"
  os_mremap_fixed :: "int \<Rightarrow> int \<Rightarrow> int \<Rightarrow> bool"
  os_mmap :: "int \<Rightarrow> int option"
  os_mremap :: "int \<Rightarrow> int \<Rightarrow> int \<Rightarrow> int option"
  plain_malloc :: "int \<Rightarrow> int"
  plain_realloc :: "int \<Rightarrow> int \<Rightarrow> int"

definition heap_call :: "heap_call \<Rightarrow> heap_state \<Rightarrow> heap_state" where
  "heap_call c s = s\<lparr>heap_calls := heap_calls s @ [c]\<rparr>"

definition CHUNK_SIZE :: "heap_state \<Rightarrow> int \<Rightarrow> int" where
  "CHUNK_SIZE s c = ck_csize s c AND - 4"

definition CHUNK_PSIZE :: "heap_state \<Rightarrow> int \<Rightarrow> int" where
  "CHUNK_PSIZE s c = ck_psize s c AND - 4"

definition PREV_CHUNK :: "heap_state \<Rightarrow> int \<Rightarrow> int" where
  "PREV_CHUNK s c = c - CHUNK_PSIZE s c"

definition NEXT_CHUNK :: "heap_state \<Rightarrow> int \<Rightarrow> int" where
  "NEXT_CHUNK s c = c + CHUNK_SIZE s c"

definition MEM_TO_CHUNK :: "int \<Rightarrow> int" where
  "MEM_TO_CHUNK p = p - OVERHEAD"

definition CHUNK_TO_MEM :: "int \<Rightarrow> int" where
  "CHUNK_TO_MEM c = c + OVERHEAD"

text \<open>The element of \<open>mal\<close> for a node has a page; its bins, of 24 bytes, begin at offset 8, and \<open>head\<close> is at offset 8 of a bin.\<close>

definition BIN_TO_CHUNK :: "heap_state \<Rightarrow> nat \<Rightarrow> nat \<Rightarrow> int" where
  "BIN_TO_CHUNK s i n = MEM_TO_CHUNK (mal_at s + 4096 * int n + 8 + 24 * int i + 8)"

abbreviation (input) C_INUSE :: int where "C_INUSE \<equiv> 1"
abbreviation (input) C_POPCORN :: int where "C_POPCORN \<equiv> 2"

definition IS_MMAPPED :: "heap_state \<Rightarrow> int \<Rightarrow> bool" where
  "IS_MMAPPED s c \<longleftrightarrow> ck_csize s c AND C_INUSE = 0"

section \<open>Bins\<close>

definition bin_tab :: "nat list" where
  "bin_tab = [
                32,33,34,35,36,36,37,37,38,38,39,39,
    40,40,40,40,41,41,41,41,42,42,42,42,43,43,43,43,
    44,44,44,44,44,44,44,44,45,45,45,45,45,45,45,45,
    46,46,46,46,46,46,46,46,47,47,47,47,47,47,47,47]"

definition bin_index :: "int \<Rightarrow> nat" where
  "bin_index x =
     (let x = u64 (x div SIZE_ALIGN - 1) in
      if x \<le> 32 then nat x
      else if x < 512 then bin_tab ! nat (x div 8 - 4)
      else if x > 0x1c00 then 63
      else bin_tab ! nat (x div 128 - 4) + 16)"

definition bin_index_up :: "int \<Rightarrow> nat" where
  "bin_index_up x =
     (let x = u64 (x div SIZE_ALIGN - 1) in
      if x \<le> 32 then nat x
      else
        (let x = x - 1 in
         if x < 512 then bin_tab ! nat (x div 8 - 4) + 1
         else bin_tab ! nat (x div 128 - 4) + 17))"

definition lock_bin :: "nat \<Rightarrow> nat \<Rightarrow> heap_state \<Rightarrow> heap_state" where
  "lock_bin i n s =
     (let b = BIN_TO_CHUNK s i n in
      if ck_next s b = 0 then s\<lparr>ck_next := (ck_next s)(b := b), ck_prev := (ck_prev s)(b := b)\<rparr> else s)"

definition unbin :: "int \<Rightarrow> nat \<Rightarrow> nat \<Rightarrow> heap_state \<Rightarrow> heap_state" where
  "unbin c i n s =
     (let s = (if ck_prev s c = ck_next s c then s\<lparr>binmap := (binmap s)(n := binmap s n AND NOT (push_bit i 1))\<rparr> else s);
          s = s\<lparr>ck_next := (ck_next s)(ck_prev s c := ck_next s c)\<rparr>;
          s = s\<lparr>ck_prev := (ck_prev s)(ck_next s c := ck_prev s c)\<rparr>;
          s = s\<lparr>ck_csize := (ck_csize s)(c := ck_csize s c OR (C_INUSE OR C_POPCORN))\<rparr>;
          nc = NEXT_CHUNK s c in
      s\<lparr>ck_psize := (ck_psize s)(nc := ck_psize s nc OR (C_INUSE OR C_POPCORN))\<rparr>)"

text \<open>Taking the chunk after or before another off its bin, if it is free. The loops are for other threads that were quicker.\<close>

definition alloc_fwd :: "int \<Rightarrow> nat \<Rightarrow> heap_state \<Rightarrow> bool \<times> heap_state" where
  "alloc_fwd c n s =
     (let k = ck_csize s c in
      if k AND C_INUSE = 0 then let i = bin_index k in (True, unbin c i n (lock_bin i n s)) else (False, s))"

definition alloc_rev :: "int \<Rightarrow> nat \<Rightarrow> heap_state \<Rightarrow> bool \<times> heap_state" where
  "alloc_rev c n s =
     (let k = ck_psize s c in
      if k AND C_INUSE = 0 then let i = bin_index k; s = lock_bin i n s in (True, unbin (PREV_CHUNK s c) i n s) else (False, s))"

text \<open>The condition is that the rest stays in its bin.\<close>

definition pretrim :: "int \<Rightarrow> int \<Rightarrow> nat \<Rightarrow> nat \<Rightarrow> heap_state \<Rightarrow> bool \<times> heap_state" where
  "pretrim self n i j s =
     (if j < 40 then (False, s)
      else
        (let n1 = CHUNK_SIZE s self in
         if j < i + 3 \<and> (j \<noteq> 63 \<or> u64 (n1 - n) \<le> MMAP_THRESHOLD) then (False, s)
         else if bin_index (u64 (n1 - n)) \<noteq> j then (False, s)
         else
           (let nc = NEXT_CHUNK s self; split = self + n;
                s = s\<lparr>ck_prev := (ck_prev s)(split := ck_prev s self)\<rparr>;
                s = s\<lparr>ck_next := (ck_next s)(split := ck_next s self)\<rparr>;
                s = s\<lparr>ck_next := (ck_next s)(ck_prev s split := split)\<rparr>;
                s = s\<lparr>ck_prev := (ck_prev s)(ck_next s split := split)\<rparr>;
                s = s\<lparr>ck_psize := (ck_psize s)(split := n OR (C_INUSE OR C_POPCORN))\<rparr>;
                s = s\<lparr>ck_csize := (ck_csize s)(split := u64 (n1 - n))\<rparr>;
                s = s\<lparr>ck_psize := (ck_psize s)(nc := u64 (n1 - n))\<rparr>;
                s = s\<lparr>ck_csize := (ck_csize s)(self := n OR (C_INUSE OR C_POPCORN))\<rparr> in
            (True, s))))"

section \<open>Arenas\<close>

definition set_arena_start :: "heap_os \<Rightarrow> heap_state \<Rightarrow> heap_state" where
  "set_arena_start os s =
     (if arena_start s = 0
      then s\<lparr>arena_start := u64 (os_brk os + (u64 (- os_brk os) AND (PAGE_SIZE - 1)) + 4 * ARENA_SIZE)\<rparr> else s)"

definition ARENA_START :: "heap_state \<Rightarrow> nat \<Rightarrow> int" where
  "ARENA_START s n = arena_start s + int n * ARENA_SIZE"

definition popcorn_get_arena :: "heap_os \<Rightarrow> int \<Rightarrow> heap_state \<Rightarrow> int \<times> heap_state" where
  "popcorn_get_arena os p s =
     (let s = set_arena_start os s; arena = wrapc I32 (u64 (p - arena_start s) div ARENA_SIZE) in
      (if arena \<ge> HEAP_NODES then - 1 else arena, s))"

text \<open>The address and size of new memory for the arena of a node, with address 0 for none.\<close>

definition expand_heap_node :: "heap_os \<Rightarrow> int \<Rightarrow> int \<Rightarrow> heap_state \<Rightarrow> int \<times> int \<times> heap_state" where
  "expand_heap_node os n nid s =
     (if nid < 0 \<or> nid \<ge> HEAP_NODES then (0, n, s\<lparr>heap_errno := Some EINVAL\<rparr>)
      else if n > (2 ^ 64 - 1) div 2 - PAGE_SIZE then (0, n, s\<lparr>heap_errno := Some ENOMEM\<rparr>)
      else
        (let len = u64 (n + (u64 (- n) AND (PAGE_SIZE - 1))); k = nat nid; s = set_arena_start os s in
         if u64 (node_sizes s k + len) \<le> ARENA_SIZE then
           (let len = ARENA_SIZE in
            if node_arenas s k = 0 then
              if os_mmap_fixed os (ARENA_START s k) len then
                (let e = ARENA_START s k + len;
                     s = s\<lparr>node_arenas := (node_arenas s)(k := e), node_sizes := (node_sizes s)(k := u64 (node_sizes s k + len))\<rparr> in
                 (e - len, len, s))
              else (0, n, s)
            else if os_mremap_fixed os (ARENA_START s k) (node_sizes s k) (u64 (node_sizes s k + len)) then
              (let e = node_arenas s k + len;
                   s = s\<lparr>node_arenas := (node_arenas s)(k := e), node_sizes := (node_sizes s)(k := u64 (node_sizes s k + len))\<rparr> in
               (e - len, len, s))
            else (0, n, s))
         else (0, 0, s)))"

definition expand_heap :: "heap_os \<Rightarrow> int \<Rightarrow> int \<Rightarrow> heap_state \<Rightarrow> int \<times> heap_state" where
  "expand_heap os n nid s =
     (if nid < 0 \<or> nid \<ge> HEAP_NODES then (0, s\<lparr>heap_errno := Some EINVAL\<rparr>)
      else
        (case expand_heap_node os (u64 (n + SIZE_ALIGN)) nid s of
           (p, n, s) \<Rightarrow>
             if p = 0 then (0, s)
             else
               (let k = nat nid;
                    (n, p, s) =
                      (if p \<noteq> heap_end s k then
                         (n - SIZE_ALIGN, p + SIZE_ALIGN,
                          s\<lparr>ck_psize := (ck_psize s)(MEM_TO_CHUNK (p + SIZE_ALIGN) := 0 OR (C_INUSE OR C_POPCORN))\<rparr>)
                       else (n, p, s));
                    e = p + n;
                    s = s\<lparr>heap_end := (heap_end s)(k := e)\<rparr>;
                    s = s\<lparr>ck_psize := (ck_psize s)(MEM_TO_CHUNK e := n OR (C_INUSE OR C_POPCORN)),
                          ck_csize := (ck_csize s)(MEM_TO_CHUNK e := 0 OR (C_INUSE OR C_POPCORN))\<rparr>;
                    s = s\<lparr>ck_csize := (ck_csize s)(MEM_TO_CHUNK p := n OR (C_INUSE OR C_POPCORN))\<rparr> in
                (MEM_TO_CHUNK p, s))))"

text \<open>Whether a size is possible, the size of the chunk it takes, and the state.\<close>

definition adjust_size :: "int \<Rightarrow> heap_state \<Rightarrow> bool \<times> int \<times> heap_state" where
  "adjust_size n s =
     (if u64 (n - 1) > 2 ^ 63 - 1 - SIZE_ALIGN - PAGE_SIZE then
        if n \<noteq> 0 then (False, n, s\<lparr>heap_errno := Some ENOMEM\<rparr>) else (True, SIZE_ALIGN, s)
      else (True, u64 (n + OVERHEAD + SIZE_ALIGN - 1) AND - SIZE_ALIGN, s))"

section \<open>Freeing\<close>

text \<open>
  The loop of \<open>popcorn_free\<close>: as long as a neighbour is free it is taken off its bin and merged. The result is the chunk
  with its successor, the size, whether to give pages back, and the bin for it. A round without free neighbours is the
  last one, and the first round leaves none in a heap where free chunks are never adjacent.
\<close>

definition reclaims :: "int \<Rightarrow> int \<Rightarrow> bool" where
  "reclaims new_size sz \<longleftrightarrow> u64 (new_size + sz) > RECLAIM \<and> (u64 (new_size + sz) XOR sz) > sz"

fun free_loop :: "nat \<Rightarrow> nat \<Rightarrow> int \<Rightarrow> int \<Rightarrow> int \<Rightarrow> int \<Rightarrow> bool \<Rightarrow> heap_state \<Rightarrow> (int \<times> int \<times> int \<times> bool \<times> nat \<times> heap_state) result" where
  "free_loop 0 n self nc final_size new_size reclaim s = Inl Diverge"
| "free_loop (Suc fuel) n self nc final_size new_size reclaim s =
     (if ck_psize s self AND ck_csize s nc AND C_INUSE \<noteq> 0 then
        (let s = s\<lparr>ck_csize := (ck_csize s)(self := final_size OR (C_INUSE OR C_POPCORN))\<rparr>;
             s = s\<lparr>ck_psize := (ck_psize s)(nc := final_size OR (C_INUSE OR C_POPCORN))\<rparr>;
             i = bin_index final_size in
         Inr (self, nc, final_size, reclaim, i, lock_bin i n s))
      else
        (let (prev_free, s) = alloc_rev self n s;
             (self, final_size, reclaim) =
               (if prev_free then
                  let self = PREV_CHUNK s self; sz = CHUNK_SIZE s self in
                  (self, u64 (final_size + sz), reclaim \<or> reclaims new_size sz)
                else (self, final_size, reclaim));
             (next_free, s) = alloc_fwd nc n s;
             (nc, final_size, reclaim) =
               (if next_free then
                  let sz = CHUNK_SIZE s nc in
                  (NEXT_CHUNK s nc, u64 (final_size + sz), reclaim \<or> reclaims new_size sz)
                else (nc, final_size, reclaim)) in
         free_loop fuel n self nc final_size new_size reclaim s))"

text \<open>Putting the free chunk at the end of its bin.\<close>

definition bin_chunk :: "int \<Rightarrow> int \<Rightarrow> int \<Rightarrow> nat \<Rightarrow> nat \<Rightarrow> heap_state \<Rightarrow> heap_state" where
  "bin_chunk self nc final_size i n s =
     (let b = BIN_TO_CHUNK s i n;
          s = (if binmap s n AND push_bit i 1 = 0 then s\<lparr>binmap := (binmap s)(n := binmap s n OR push_bit i 1)\<rparr> else s);
          s = s\<lparr>ck_csize := (ck_csize s)(self := final_size)\<rparr>;
          s = s\<lparr>ck_psize := (ck_psize s)(nc := final_size)\<rparr>;
          s = s\<lparr>ck_next := (ck_next s)(self := b)\<rparr>;
          s = s\<lparr>ck_prev := (ck_prev s)(self := ck_prev s b)\<rparr>;
          s = s\<lparr>ck_prev := (ck_prev s)(ck_next s self := self)\<rparr> in
      s\<lparr>ck_next := (ck_next s)(ck_prev s self := self)\<rparr>)"

definition popcorn_free :: "heap_os \<Rightarrow> int \<Rightarrow> heap_state \<Rightarrow> heap_state result" where
  "popcorn_free os p s =
     (if p = 0 then Inr s
      else
        (let self = MEM_TO_CHUNK p in
         if IS_MMAPPED s self then
           (let extra = ck_psize s self; base = self - extra; len = u64 (CHUNK_SIZE s self + extra) in
            if extra AND 1 \<noteq> 0 then Inl Abort else Inr (heap_call (Munmap base len) s))
         else
           (let (n, s) = popcorn_get_arena os self s in
            if \<not> (ck_csize s self AND C_POPCORN \<noteq> 0 \<and> n \<noteq> - 1) then Inr (heap_call (Plain_free p) s)
            else if n < 0 then Inl Undef
            else
              (let final_size = CHUNK_SIZE s self; nc = NEXT_CHUNK s self in
               if ck_psize s nc \<noteq> ck_csize s self then Inl Abort
               else
                 bindE (free_loop 3 (nat n) self nc final_size final_size False s) (\<lambda>(self, nc, final_size, reclaim, i, s).
                 let s = bin_chunk self nc final_size i (nat n) s in
                 Inr (if reclaim then
                        let a = (self + SIZE_ALIGN + PAGE_SIZE - 1) AND - PAGE_SIZE; b = (nc - SIZE_ALIGN) AND - PAGE_SIZE in
                        heap_call (Madvise a (b - a)) s
                      else s))))))"

section \<open>Allocating\<close>

definition trim :: "heap_os \<Rightarrow> int \<Rightarrow> int \<Rightarrow> heap_state \<Rightarrow> heap_state result" where
  "trim os self n s =
     (let n1 = CHUNK_SIZE s self in
      if n \<ge> u64 (n1 - DONTCARE) then Inr s
      else
        (let nc = NEXT_CHUNK s self; split = self + n;
             s = s\<lparr>ck_psize := (ck_psize s)(split := n OR (C_INUSE OR C_POPCORN))\<rparr>;
             s = s\<lparr>ck_csize := (ck_csize s)(split := u64 (n1 - n) OR (C_INUSE OR C_POPCORN))\<rparr>;
             s = s\<lparr>ck_psize := (ck_psize s)(nc := u64 (n1 - n) OR (C_INUSE OR C_POPCORN))\<rparr>;
             s = s\<lparr>ck_csize := (ck_csize s)(self := n OR (C_INUSE OR C_POPCORN))\<rparr> in
         popcorn_free os (CHUNK_TO_MEM split) s))"

text \<open>The lowest bit of a mask of 64 bits.\<close>

definition first_set :: "int \<Rightarrow> nat" where
  "first_set m = (case filter (\<lambda>i. bit m i) [0..<64] of [] \<Rightarrow> 64 | i # _ \<Rightarrow> i)"

text \<open>
  The search of \<open>popcorn_malloc\<close>: a chunk, or 0 when the arena has none and memory is to come from \<open>malloc\<close>, and whether
  the node is to be marked as initialized. A round that finds the list of a bin empty although its bit is set changes
  nothing but the bin's own head, so that the loop would not end.
\<close>

fun search_loop :: "nat \<Rightarrow> heap_os \<Rightarrow> int \<Rightarrow> nat \<Rightarrow> nat \<Rightarrow> heap_state \<Rightarrow> (int \<times> bool \<times> heap_state) result" where
  "search_loop 0 os n i k s = Inl Diverge"
| "search_loop (Suc fuel) os n i k s =
     (let m = binmap s k AND u64 (- push_bit i 1) in
      if m = 0 then
        (let init_node = \<not> initialized s k; (c, s) = expand_heap os n (int k) s in
         if c = 0 then Inr (0, False, s)
         else
           (let (prev_free, s) = alloc_rev c k s in
            if prev_free then
              (let x = c; c = PREV_CHUNK s c; sz = u64 (ck_csize s x + CHUNK_SIZE s c);
                   s = s\<lparr>ck_csize := (ck_csize s)(c := sz)\<rparr> in
               Inr (c, init_node, s\<lparr>ck_psize := (ck_psize s)(NEXT_CHUNK s x := sz)\<rparr>))
            else Inr (c, init_node, s)))
      else
        (let j = first_set m; s = lock_bin j k s; c = ck_next s (BIN_TO_CHUNK s j k) in
         if c \<noteq> BIN_TO_CHUNK s j k then
           (case pretrim c n i j s of (True, s) \<Rightarrow> Inr (c, False, s) | (False, s) \<Rightarrow> Inr (c, False, unbin c j k s))
         else search_loop fuel os n i k s))"

definition popcorn_malloc :: "heap_os \<Rightarrow> int \<Rightarrow> int \<Rightarrow> heap_state \<Rightarrow> (int \<times> heap_state) result" where
  "popcorn_malloc os n nid s =
     (if nid < 0 \<or> nid \<ge> HEAP_NODES then Inr (plain_malloc os n, s)
      else
        (case adjust_size n s of
           (False, n, s) \<Rightarrow> Inr (0, s)
         | (True, n, s) \<Rightarrow>
             if n > MMAP_THRESHOLD then
               (let len = u64 (n + OVERHEAD + PAGE_SIZE - 1) AND - PAGE_SIZE in
                case os_mmap os len of
                  None \<Rightarrow> Inr (0, s)
                | Some base \<Rightarrow>
                    (let c = base + SIZE_ALIGN - OVERHEAD;
                         s = s\<lparr>ck_csize := (ck_csize s)(c := len - (SIZE_ALIGN - OVERHEAD)),
                               ck_psize := (ck_psize s)(c := SIZE_ALIGN - OVERHEAD)\<rparr> in
                     Inr (CHUNK_TO_MEM c, s)))
             else
               bindE (search_loop 2 os n (bin_index_up n) (nat nid) s) (\<lambda>(c, init_node, s).
               if c = 0 then Inr (plain_malloc os n, s)
               else
                 bindE (trim os c n s) (\<lambda>s.
                 Inr (CHUNK_TO_MEM c, if init_node then s\<lparr>initialized := (initialized s)(nat nid := True)\<rparr> else s)))))"

definition popcorn_realloc :: "heap_os \<Rightarrow> int \<Rightarrow> int \<Rightarrow> int \<Rightarrow> heap_state \<Rightarrow> (int \<times> heap_state) result" where
  "popcorn_realloc os p n nid s =
     (if p = 0 then popcorn_malloc os n nid s
      else if nid < 0 \<or> nid \<ge> HEAP_NODES then Inr (plain_realloc os p n, s)
      else
        (case adjust_size n s of
           (False, n, s) \<Rightarrow> Inr (0, s)
         | (True, n, s) \<Rightarrow>
             (let self = MEM_TO_CHUNK p; n0 = CHUNK_SIZE s self;
                  copy_realloc = (\<lambda>self s.
                    bindE (popcorn_malloc os (n - OVERHEAD) nid s) (\<lambda>(new, s).
                    if new = 0 then Inr (0, s)
                    else bindE (popcorn_free os (CHUNK_TO_MEM self) (heap_call (Memcpy new p (u64 (n0 - OVERHEAD))) s)) (\<lambda>s. Inr (new, s)))) in
              if IS_MMAPPED s self then
                (let extra = ck_psize s self; base = self - extra; oldlen = u64 (n0 + extra); newlen = u64 (n + extra);
                     enlarge = (\<lambda>s.
                       let newlen = u64 (newlen + PAGE_SIZE - 1) AND - PAGE_SIZE in
                       if oldlen = newlen then Inr (p, s)
                       else
                         (case os_mremap os base oldlen newlen of
                            None \<Rightarrow> copy_realloc self s
                          | Some base \<Rightarrow>
                              Inr (CHUNK_TO_MEM (base + extra), s\<lparr>ck_csize := (ck_csize s)(base + extra := u64 (newlen - extra))\<rparr>))) in
                 if extra AND 1 \<noteq> 0 then Inl Abort
                 else if newlen < PAGE_SIZE then
                   bindE (popcorn_malloc os n nid s) (\<lambda>(new, s).
                   if new \<noteq> 0 then
                     bindE (popcorn_free os p (heap_call (Memcpy new p (n - OVERHEAD)) s)) (\<lambda>s. Inr (new, s))
                   else enlarge s)
                 else enlarge s)
              else
                (let (cur_nid, s) = popcorn_get_arena os p s in
                 if cur_nid \<noteq> nid then
                   bindE (popcorn_malloc os n nid s) (\<lambda>(new, s).
                   if new = 0 then Inr (0, s)
                   else
                     (let n0 = u64 (n0 - OVERHEAD) in
                      bindE (popcorn_free os p (heap_call (Memcpy new p (if n < n0 then n else n0)) s)) (\<lambda>s. Inr (new, s))))
                 else
                   (let nc = NEXT_CHUNK s self in
                    if ck_psize s nc \<noteq> ck_csize s self then Inl Abort
                    else
                      (let (grown, s) = (if n > n0 then alloc_fwd nc (nat nid) s else (False, s));
                           (n1, nc) = (if grown then (u64 (n0 + CHUNK_SIZE s nc), NEXT_CHUNK s nc) else (n0, nc));
                           s = s\<lparr>ck_csize := (ck_csize s)(self := n1 OR (C_INUSE OR C_POPCORN))\<rparr>;
                           s = s\<lparr>ck_psize := (ck_psize s)(nc := n1 OR (C_INUSE OR C_POPCORN))\<rparr> in
                       if n \<le> n1 then bindE (trim os self n s) (\<lambda>s. Inr (CHUNK_TO_MEM self, s))
                       else copy_realloc self s))))))"

end
