(* ===== verification/Node_Heap_Bins.thy ===== *)
theory Node_Heap_Bins
  imports Node_Heap
begin

text \<open>
  The bins by size: a chunk from the bin that a search for a size begins with, or from a later one, is large enough,
  although the bins are wider than the difference between two sizes.
\<close>

lemma bin_tab_facts: "length bin_tab = 60" "sorted bin_tab" "\<forall>x \<in> set bin_tab. 32 \<le> x \<and> x \<le> 47" "\<forall>k < 52. bin_tab ! k \<le> 46"
  by code_simp+

lemma bin_tab_mono: "i \<le> j \<Longrightarrow> j < 60 \<Longrightarrow> bin_tab ! i \<le> bin_tab ! j"
  using sorted_nth_mono [OF bin_tab_facts(2)] bin_tab_facts(1) by simp

lemma bin_tab_range:
  assumes "k < 60"
  shows "32 \<le> bin_tab ! k" "bin_tab ! k \<le> 47"
  using nth_mem [of k bin_tab] bin_tab_facts(1,3) assms by auto

text \<open>The number of a size among the possible ones.\<close>

definition rank_of :: "int \<Rightarrow> int" where
  "rank_of x = x div 32 - 1"

lemma rank_of_facts:
  assumes "32 \<le> x" "x < 2 ^ 63"
  shows "0 \<le> rank_of x" "u64 (x div 32 - 1) = rank_of x"
proof -
  have "1 \<le> x div 32" "x div 32 \<le> x" using assms(1) by presburger+
  then show "0 \<le> rank_of x" "u64 (x div 32 - 1) = rank_of x" using assms(2) by (simp_all add: rank_of_def)
qed

lemma rank_of_less: "32 dvd x \<Longrightarrow> 32 dvd y \<Longrightarrow> x < y \<Longrightarrow> rank_of x \<le> rank_of y - 1"
  by (auto simp: rank_of_def dvd_def)

lemma rank_of_le: "32 dvd x \<Longrightarrow> x \<le> 229376 \<Longrightarrow> rank_of x \<le> 7167"
  by (auto simp: rank_of_def dvd_def)

lemma bin_index_rank:
  assumes "32 \<le> x" "x < 2 ^ 63"
  shows "bin_index x = (let r = rank_of x in
    if r \<le> 32 then nat r else if r < 512 then bin_tab ! nat (r div 8 - 4) else if r > 7168 then 63 else bin_tab ! nat (r div 128 - 4) + 16)"
  by (simp add: bin_index_def rank_of_facts [OF assms] Let_def)

lemma bin_index_up_rank:
  assumes "32 \<le> x" "x < 2 ^ 63"
  shows "bin_index_up x = (let r = rank_of x in
    if r \<le> 32 then nat r else if r - 1 < 512 then bin_tab ! nat ((r - 1) div 8 - 4) + 1 else bin_tab ! nat ((r - 1) div 128 - 4) + 17)"
  by (simp add: bin_index_up_def rank_of_facts [OF assms] Let_def)

lemma bin_index_less:
  assumes "32 \<le> x" "x < 2 ^ 63"
  shows "bin_index x < 64"
proof -
  let ?r = "rank_of x"
  have "bin_tab ! nat (?r div 8 - 4) \<le> 47" if "32 < ?r" "?r < 512" using that by (intro bin_tab_range(2)) auto
  moreover have "bin_tab ! nat (?r div 128 - 4) \<le> 47" if "512 \<le> ?r" "?r \<le> 7168" using that by (intro bin_tab_range(2)) auto
  ultimately show ?thesis by (auto simp: bin_index_rank [OF assms] Let_def)
qed

lemma bin_index_small:
  assumes "32 \<le> x" "x \<le> 229376" "32 dvd x"
  shows "bin_index x \<le> 62"
proof -
  let ?r = "rank_of x"
  have r: "?r \<le> 7167" by (rule rank_of_le [OF assms(3,2)])
  have "bin_tab ! nat (?r div 8 - 4) \<le> 47" if "32 < ?r" "?r < 512" using that by (intro bin_tab_range(2)) auto
  moreover have "bin_tab ! nat (?r div 128 - 4) \<le> 46" if "512 \<le> ?r" using that r bin_tab_facts(4) by auto
  ultimately show ?thesis using assms r by (auto simp: bin_index_rank Let_def)
qed

lemma bin_index_up_less:
  assumes "32 \<le> x" "x \<le> 229376" "32 dvd x"
  shows "bin_index_up x < 64"
proof -
  let ?r = "rank_of x - 1"
  have r: "?r \<le> 7166" using rank_of_le [OF assms(3,2)] by simp
  have "bin_tab ! nat (?r div 8 - 4) \<le> 47" if "32 \<le> ?r" "?r < 512" using that by (intro bin_tab_range(2)) auto
  moreover have "bin_tab ! nat (?r div 128 - 4) \<le> 46" if "512 \<le> ?r" using that r bin_tab_facts(4) by auto
  ultimately show ?thesis using assms by (auto simp: bin_index_up_rank Let_def)
qed

text \<open>A smaller chunk is in an earlier bin than the one the search begins with.\<close>

lemma bin_fits:
  assumes n: "32 \<le> n" "n \<le> 229376" "32 dvd n" and m: "32 \<le> m" "m < 2 ^ 63" "32 dvd m" and "bin_index_up n \<le> bin_index m"
  shows "n \<le> m"
proof (rule ccontr)
  assume "\<not> n \<le> m"
  then have le: "rank_of m \<le> rank_of n - 1" using rank_of_less [OF m(3) n(3)] by simp
  have n63: "n < 2 ^ 63" using n by simp
  let ?m = "rank_of m" and ?n = "rank_of n - 1"
  have r: "0 \<le> ?m" "?n \<le> 7166" using rank_of_facts [OF m(1,2)] rank_of_le [OF n(3,2)] by simp_all
  have t: "bin_tab ! nat (?m div 8 - 4) \<le> bin_tab ! nat (?n div 8 - 4)" if "32 < ?m" "?n < 512"
    using that le by (intro bin_tab_mono nat_mono diff_right_mono zdiv_mono1) auto
  have u: "bin_tab ! nat (?m div 128 - 4) \<le> bin_tab ! nat (?n div 128 - 4)" if "512 \<le> ?m"
    using that le r by (intro bin_tab_mono nat_mono diff_right_mono zdiv_mono1) auto
  have lo: "32 \<le> bin_tab ! nat (?n div 8 - 4)" if "32 \<le> ?n" "?n < 512" using that by (intro bin_tab_range(1)) auto
  have lo': "32 \<le> bin_tab ! nat (?n div 128 - 4)" if "512 \<le> ?n" using that r by (intro bin_tab_range(1)) auto
  have hi: "bin_tab ! nat (?m div 8 - 4) \<le> 47" if "32 < ?m" "?m < 512" using that by (intro bin_tab_range(2)) auto
  have "bin_index m < bin_index_up n"
    unfolding bin_index_rank [OF m(1,2)] bin_index_up_rank [OF n(1) n63] Let_def
    using le r t u lo lo' hi by (auto split: if_splits)
  then show False using assms(7) by simp
qed

end
