(* ===== verification/Node_Heap_Inv.thy ===== *)
theory Node_Heap_Inv
  imports Node_Heap_Bins
begin

text \<open>
  The invariant of the heap of a node: its chunks lie one after the other from the beginning to the end of the arena, the size and the
  flags of a chunk are the same in its own header and in that of the next one, no two free chunks are adjacent,
  and the bins are circular lists that hold exactly the free chunks of their sizes. Each elementary change of the code -
  taking a chunk off its bin, merging, splitting, putting a chunk into its bin - preserves it.
\<close>

section \<open>Sizes with flags\<close>

definition tag :: "int \<Rightarrow> bool \<Rightarrow> int" where
  "tag sz used = (if used then sz + 3 else sz)"

lemma and_minus_exp: "(x :: int) AND - (2 ^ n) = x - x mod 2 ^ n"
proof -
  have "x AND NOT (mask n) = push_bit n (drop_bit n x)"
    by (rule bit_eqI) (auto simp: bit_and_iff bit_not_iff bit_mask_iff bit_push_bit_iff bit_drop_bit_eq)
  also have "\<dots> = x - take_bit n x" using bits_ident [of n x] by simp
  finally show ?thesis by (simp only: minus_exp_eq_not_mask take_bit_eq_mod)
qed

lemma and_minus_4: "(x :: int) AND - 4 = x - x mod 4"
  using and_minus_exp [of x 2] by simp

lemma mod_4_or_3:
  assumes "(x :: int) mod 4 = 0"
  shows "x OR 3 = x + 3"
proof -
  have "take_bit 2 x = 0" using assms by (simp add: take_bit_eq_mod)
  then have b: "n < 2 \<Longrightarrow> \<not> bit x n" for n by (metis bit_0_eq bot_apply bot_bool_def bit_take_bit_iff)
  have three: "bit (3 :: int) n \<longleftrightarrow> n < 2" for n using bit_mask_iff [where 'a = int, of 2 n] by (simp add: mask_eq_exp_minus_1)
  have "x AND 3 = 0" using b by (intro bit_eqI) (auto simp: bit_and_iff three)
  then show ?thesis by (simp add: disjunctive_add_eq_or)
qed

lemma tag_simps:
  assumes "32 dvd sz"
  shows "tag sz u AND - 4 = sz" "tag sz u AND 1 = (if u then 1 else 0)" "tag sz u AND 2 = (if u then 2 else 0)"
    "tag sz u OR 3 = tag sz True" "sz OR 3 = tag sz True"
proof -
  have m: "sz mod 4 = 0" "even sz" using assms by presburger+
  show "tag sz u AND - 4 = sz" using m by (simp add: tag_def and_minus_4) presburger
  show "tag sz u AND 1 = (if u then 1 else 0)" using m by (simp add: tag_def and_one_eq) presburger
  show "sz OR 3 = tag sz True" using mod_4_or_3 [OF m(1)] by (simp add: tag_def)
  then show "tag sz u OR 3 = tag sz True"
    using mod_4_or_3 [OF m(1)] by (simp add: tag_def or.assoc [symmetric]) (metis or.assoc or.idem)
  have nb: "\<not> bit sz 1" using m(1) by (simp add: bit_iff_odd) presburger
  have two: "bit (2 :: int) n \<longleftrightarrow> n = 1" for n using bit_exp_iff [where 'a = int, of 1 n] by simp
  have three: "bit (3 :: int) 1" by (simp add: bit_iff_odd)
  have "sz AND 2 = 0" using nb by (intro bit_eqI) (auto simp: bit_and_iff two)
  moreover have "(sz OR 3) AND 2 = 2" using three by (intro bit_eqI) (auto simp: bit_and_iff bit_or_iff two)
  ultimately show "tag sz u AND 2 = (if u then 2 else 0)" using mod_4_or_3 [OF m(1)] by (simp add: tag_def)
qed

lemma tag_inj: "32 dvd a \<Longrightarrow> 32 dvd b \<Longrightarrow> tag a u = tag b v \<longleftrightarrow> a = b \<and> u = v"
  by (auto simp: tag_def) presburger+

section \<open>Chunks one after the other\<close>

type_synonym cells = "(int \<times> bool) list"

fun tiles :: "heap_state \<Rightarrow> int \<Rightarrow> cells \<Rightarrow> int \<Rightarrow> bool" where
  "tiles s a [] e \<longleftrightarrow> a = e"
| "tiles s a ((sz, u) # cs) e \<longleftrightarrow> 32 \<le> sz \<and> 32 dvd sz \<and> ck_csize s a = tag sz u \<and> ck_psize s (a + sz) = tag sz u \<and> tiles s (a + sz) cs e"

definition extent :: "cells \<Rightarrow> int" where
  "extent cs = sum_list (map fst cs)"

fun chunks :: "int \<Rightarrow> cells \<Rightarrow> (int \<times> int \<times> bool) list" where
  "chunks a [] = []"
| "chunks a ((sz, u) # cs) = (a, sz, u) # chunks (a + sz) cs"

lemma extent_simps [simp]: "extent [] = 0" "extent ((sz, u) # cs) = sz + extent cs" "extent (xs @ ys) = extent xs + extent ys"
  by (simp_all add: extent_def)

lemma tiles_append: "tiles s a (xs @ ys) e \<longleftrightarrow> tiles s a xs (a + extent xs) \<and> tiles s (a + extent xs) ys e"
  by (induction s a xs "a + extent xs" rule: tiles.induct) (auto simp: algebra_simps)

lemma chunks_append: "chunks a (xs @ ys) = chunks a xs @ chunks (a + extent xs) ys"
  by (induction a xs rule: chunks.induct) (auto simp: algebra_simps)

lemma tiles_end: "tiles s a cs e \<Longrightarrow> e = a + extent cs \<and> a \<le> e"
  by (induction s a cs e rule: tiles.induct) auto

text \<open>A chunk and what is before and after it.\<close>

lemma chunks_split:
  assumes "(c, sz, u) \<in> set (chunks a cs)"
  obtains xs ys where "cs = xs @ (sz, u) # ys" "c = a + extent xs"
  using assms
proof (induction a cs arbitrary: thesis rule: chunks.induct)
  case (2 a sz' u' cs)
  show ?case
  proof (cases "(c, sz, u) = (a, sz', u')")
    case True
    then show ?thesis using 2(2) [of "[]" cs] by simp
  next
    case False
    then obtain xs ys where "cs = xs @ (sz, u) # ys" "c = a + sz' + extent xs" using 2(1,3) by auto
    then show ?thesis using 2(2) [of "(sz', u') # xs" ys] by simp
  qed
qed simp

lemma chunks_range:
  assumes "tiles s a cs e" "(c, sz, u) \<in> set (chunks a cs)"
  shows "a \<le> c" "c + sz \<le> e" "32 \<le> sz" "32 dvd sz" "ck_csize s c = tag sz u" "ck_psize s (c + sz) = tag sz u"
proof -
  obtain xs ys where cs: "cs = xs @ (sz, u) # ys" "c = a + extent xs" by (rule chunks_split [OF assms(2)])
  then have "tiles s a xs c" "tiles s c ((sz, u) # ys) e" using assms(1) by (simp_all add: tiles_append)
  then show "a \<le> c" "c + sz \<le> e" "32 \<le> sz" "32 dvd sz" "ck_csize s c = tag sz u" "ck_psize s (c + sz) = tag sz u"
    using tiles_end [of s a xs c] tiles_end [of s "c + sz" ys e] by auto
qed

text \<open>Only headers within the range count.\<close>

lemma tiles_cong:
  assumes "\<And>c. a \<le> c \<Longrightarrow> c < e \<Longrightarrow> ck_csize s c = ck_csize s' c" "\<And>c. a < c \<Longrightarrow> c \<le> e \<Longrightarrow> ck_psize s c = ck_psize s' c"
  shows "tiles s a cs e = tiles s' a cs e"
  using assms
proof (induction cs arbitrary: a)
  case (Cons x cs)
  obtain sz u where x: "x = (sz, u)" by (cases x)
  show ?case
  proof (cases "32 \<le> sz \<and> a + sz \<le> e")
    case True
    then have "tiles s (a + sz) cs e = tiles s' (a + sz) cs e" using Cons by auto
    moreover have "ck_csize s a = ck_csize s' a" "ck_psize s (a + sz) = ck_psize s' (a + sz)" using Cons.prems True by auto
    ultimately show ?thesis by (simp add: x)
  next
    case False
    then show ?thesis using tiles_end [of s "a + sz" cs e] tiles_end [of s' "a + sz" cs e] by (auto simp: x)
  qed
qed simp

lemma chunks_disjoint:
  assumes "tiles s a cs e" "(c, sz, u) \<in> set (chunks a cs)" "(d, sd, v) \<in> set (chunks a cs)"
  shows "(c, sz, u) = (d, sd, v) \<or> c + sz \<le> d \<or> d + sd \<le> c"
  using assms
proof (induction a cs rule: chunks.induct)
  case (2 a sz' u' cs)
  have "tiles s (a + sz') cs e" using 2(2) by simp
  note r = chunks_range [OF this]
  show ?case
    using 2(1) [OF \<open>tiles s (a + sz') cs e\<close>] 2(3,4) r(1) [of c sz u] r(1) [of d sd v] by auto
qed simp

lemma chunks_same:
  assumes "tiles s a cs e" "(c, sz, u) \<in> set (chunks a cs)" "(c, sd, v) \<in> set (chunks a cs)"
  shows "sz = sd \<and> u = v"
  using chunks_disjoint [OF assms] chunks_range(3) [OF assms(1,2)] chunks_range(3) [OF assms(1,3)] by auto

text \<open>No two free chunks are adjacent.\<close>

fun spaced :: "cells \<Rightarrow> bool" where
  "spaced ((a, u) # (b, v) # cs) \<longleftrightarrow> (u \<or> v) \<and> spaced ((b, v) # cs)"
| "spaced cs \<longleftrightarrow> True"

lemma spaced_Cons: "spaced ((a, u) # cs) \<longleftrightarrow> (u \<or> cs = [] \<or> snd (hd cs)) \<and> spaced cs"
  by (cases cs) auto

lemma spaced_append: "spaced (xs @ ys) \<longleftrightarrow> spaced xs \<and> spaced ys \<and> (xs = [] \<or> ys = [] \<or> snd (last xs) \<or> snd (hd ys))"
proof (induction xs)
  case (Cons x xs)
  then show ?case by (cases x; cases xs; cases ys) (auto simp: spaced_Cons)
qed simp

section \<open>Circular lists\<close>

fun linked :: "heap_state \<Rightarrow> int list \<Rightarrow> bool" where
  "linked s (x # y # zs) \<longleftrightarrow> ck_next s x = y \<and> ck_prev s y = x \<and> linked s (y # zs)"
| "linked s zs \<longleftrightarrow> True"

lemma linked_append: "linked s (xs @ y # ys) \<longleftrightarrow> linked s (xs @ [y]) \<and> linked s (y # ys)"
proof (induction xs)
  case (Cons x xs)
  then show ?case by (cases xs) auto
qed simp

lemma linked_cong:
  assumes "\<And>x. x \<in> set (butlast xs) \<Longrightarrow> ck_next s x = ck_next s' x" "\<And>x. x \<in> set (tl xs) \<Longrightarrow> ck_prev s x = ck_prev s' x"
  shows "linked s xs = linked s' xs"
  using assms
proof (induction s xs rule: linked.induct)
  case (1 s x y zs)
  have "linked s (y # zs) = linked s' (y # zs)" using 1(2,3) by (intro 1(1)) (auto dest: in_set_butlastD list.set_sel(2))
  then show ?case using 1(2) [of x] 1(3) [of y] by simp
qed simp_all

lemma linked_frame:
  assumes "linked s xs" "\<And>x. x \<in> set (butlast xs) \<Longrightarrow> ck_next s' x = ck_next s x" "\<And>x. x \<in> set (tl xs) \<Longrightarrow> ck_prev s' x = ck_prev s x"
  shows "linked s' xs"
  using linked_cong [of xs s s'] assms by simp

lemma in_set_tlD: "x \<in> set (tl xs) \<Longrightarrow> x \<in> set xs"
  by (cases xs) auto

definition ring :: "heap_state \<Rightarrow> int \<Rightarrow> int list \<Rightarrow> bool" where
  "ring s b xs \<longleftrightarrow> b \<noteq> 0 \<and> distinct (b # xs) \<and> linked s (b # xs @ [b])"

lemma ring_cong:
  assumes "\<And>x. x \<in> insert b (set xs) \<Longrightarrow> ck_next s x = ck_next s' x \<and> ck_prev s x = ck_prev s' x"
  shows "ring s b xs = ring s' b xs"
proof -
  have "linked s (b # xs @ [b]) = linked s' (b # xs @ [b])"
    using assms by (intro linked_cong) (auto simp: butlast_append)
  then show ?thesis by (simp add: ring_def)
qed

text \<open>The neighbours of an element, taking it out, replacing it, and putting one at the end.\<close>

lemma ring_neighbours:
  assumes "ring s b (xs @ c # ys)"
  shows "ck_prev s c = last (b # xs)" "ck_next s c = hd (ys @ [b])" "ck_next s (last (b # xs)) = c" "ck_prev s (hd (ys @ [b])) = c"
proof -
  have l: "linked s ((b # xs) @ c # (ys @ [b]))" using assms by (simp add: ring_def)
  note 1 = linked_append [THEN iffD1, OF l, THEN conjunct1] and 2 = linked_append [THEN iffD1, OF l, THEN conjunct2]
  have "b # xs = butlast (b # xs) @ [last (b # xs)]" by (simp only: append_butlast_last_id list.distinct(2) not_False_eq_True)
  then have "(b # xs) @ [c] = butlast (b # xs) @ last (b # xs) # [c]" by (metis append.assoc append_Cons append_Nil)
  then have "linked s (butlast (b # xs) @ last (b # xs) # [c])" using 1 by simp
  from linked_append [THEN iffD1, OF this] have "linked s (last (b # xs) # [c])" by blast
  then show "ck_prev s c = last (b # xs)" "ck_next s (last (b # xs)) = c" by simp_all
  show "ck_next s c = hd (ys @ [b])" "ck_prev s (hd (ys @ [b])) = c" using 2 by (cases ys; simp)+
qed

lemma linked_glue: "linked s (us @ [p]) \<Longrightarrow> linked s (q # vs) \<Longrightarrow> ck_next s p = q \<Longrightarrow> ck_prev s q = p \<Longrightarrow> linked s (us @ p # q # vs)"
proof (induction us)
  case (Cons u us)
  then show ?case by (cases us) auto
qed simp

lemma linked_parts:
  assumes "linked s (us @ p # q # vs)"
  shows "linked s (us @ [p])" "linked s (q # vs)"
  using linked_append [THEN iffD1, OF assms] by auto

text \<open>A list in the heap split at an element: what is before it up to its predecessor, and what is after it from its successor.\<close>

lemma ring_split:
  assumes "ring s b (xs @ c # ys)"
  obtains us vs where "b # xs = us @ [ck_prev s c]" "ys @ [b] = ck_next s c # vs" "linked s (us @ [ck_prev s c])" "linked s (ck_next s c # vs)"
    "distinct (us @ [ck_prev s c])" "distinct (ck_next s c # vs)" "ck_prev s c \<notin> set (butlast (ck_next s c # vs))" "ck_next s c \<notin> set (tl (us @ [ck_prev s c]))"
    "c \<notin> set us" "c \<noteq> ck_prev s c" "c \<notin> set vs" "c \<noteq> ck_next s c"
proof -
  note n = ring_neighbours [OF assms]
  define us vs where "us = butlast (b # xs)" and "vs = tl (ys @ [b])"
  have u: "b # xs = us @ [ck_prev s c]"
    unfolding n(1) us_def by (simp only: append_butlast_last_id list.distinct(2) not_False_eq_True)
  have v: "ys @ [b] = ck_next s c # vs" unfolding n(2) vs_def by simp
  have d: "distinct (b # xs @ c # ys)" using assms by (simp add: ring_def)
  have "linked s ((b # xs) @ c # (ys @ [b]))" using assms by (simp add: ring_def)
  then have l: "linked s (us @ ck_prev s c # c # ck_next s c # vs)" unfolding u v by simp
  have l1: "linked s (us @ [ck_prev s c])" by (rule linked_parts(1) [OF l])
  have "linked s ((us @ [ck_prev s c]) @ c # ck_next s c # vs)" using l by simp
  from linked_parts(2) [OF this] have l2: "linked s (ck_next s c # vs)" .
  have d1: "distinct (us @ [ck_prev s c])" "c \<notin> set (us @ [ck_prev s c])" unfolding u [symmetric] using d by auto
  have d2: "distinct (ck_next s c # vs)" "c \<notin> set (ck_next s c # vs)" unfolding v [symmetric] using d by auto
  have "set (butlast (ys @ [b])) = set ys" "set (tl (b # xs)) = set xs" by simp_all
  moreover have "ck_prev s c \<in> insert b (set xs)" "ck_next s c \<in> insert b (set ys)"
    using arg_cong [OF u, of set] arg_cong [OF v, of set] by auto
  ultimately have "ck_prev s c \<notin> set (butlast (ck_next s c # vs))" "ck_next s c \<notin> set (tl (us @ [ck_prev s c]))"
    unfolding u [symmetric] v [symmetric] using d by auto
  then show ?thesis using that [OF u v l1 l2 d1(1) d2(1)] d1(2) d2(2) by auto
qed

lemma ring_remove:
  assumes r: "ring s b (xs @ c # ys)"
    and s': "ck_next s' = (ck_next s)(ck_prev s c := ck_next s c)" "ck_prev s' = (ck_prev s)(ck_next s c := ck_prev s c)"
  shows "ring s' b (xs @ ys)"
proof -
  obtain us vs where p: "b # xs = us @ [ck_prev s c]" "ys @ [b] = ck_next s c # vs" "linked s (us @ [ck_prev s c])" "linked s (ck_next s c # vs)"
    "distinct (us @ [ck_prev s c])" "distinct (ck_next s c # vs)" "ck_prev s c \<notin> set (butlast (ck_next s c # vs))" "ck_next s c \<notin> set (tl (us @ [ck_prev s c]))"
    by (rule ring_split [OF r])
  have "linked s' (us @ [ck_prev s c])"
    by (rule linked_frame [OF p(3)]) (use p(5,8) in \<open>auto simp: s'\<close>)
  moreover have "linked s' (ck_next s c # vs)"
    by (rule linked_frame [OF p(4)]) (use p(6,7) in \<open>auto simp: s'\<close>)
  ultimately have "linked s' (us @ ck_prev s c # ck_next s c # vs)" by (rule linked_glue) (simp_all add: s')
  moreover have "us @ ck_prev s c # ck_next s c # vs = (b # xs) @ (ys @ [b])" unfolding p(1,2) by simp
  ultimately have "linked s' (b # (xs @ ys) @ [b])" by simp
  then show ?thesis using r by (auto simp: ring_def)
qed

lemma ring_replace:
  assumes r: "ring s b (xs @ c # ys)" and d: "d \<notin> insert b (set (xs @ c # ys))"
    and s': "ck_next s' = (ck_next s)(d := ck_next s c, ck_prev s c := d)" "ck_prev s' = (ck_prev s)(d := ck_prev s c, ck_next s c := d)"
  shows "ring s' b (xs @ d # ys)"
proof -
  obtain us vs where p: "b # xs = us @ [ck_prev s c]" "ys @ [b] = ck_next s c # vs" "linked s (us @ [ck_prev s c])" "linked s (ck_next s c # vs)"
    "distinct (us @ [ck_prev s c])" "distinct (ck_next s c # vs)" "ck_prev s c \<notin> set (butlast (ck_next s c # vs))" "ck_next s c \<notin> set (tl (us @ [ck_prev s c]))"
    by (rule ring_split [OF r])
  have du: "d \<notin> set (us @ [ck_prev s c])" "d \<notin> set (ck_next s c # vs)" unfolding p(1,2) [symmetric] using d by auto
  then have dv: "d \<notin> set (butlast (ck_next s c # vs))" by (metis in_set_butlastD)
  have "linked s' (us @ [ck_prev s c])"
    by (rule linked_frame [OF p(3)]) (use p(5,8) du in \<open>auto simp: s' dest: in_set_tlD\<close>)
  moreover have "linked s' (ck_next s c # vs)"
    by (rule linked_frame [OF p(4)]) (use p(6,7) du dv in \<open>auto simp: s'\<close>)
  moreover have "ck_next s' (ck_prev s c) = d" "ck_prev s' d = ck_prev s c" "ck_next s' d = ck_next s c" "ck_prev s' (ck_next s c) = d"
    using du by (auto simp: s')
  ultimately have "linked s' (us @ ck_prev s c # d # ck_next s c # vs)" by (intro linked_glue) simp_all
  moreover have "us @ ck_prev s c # d # ck_next s c # vs = (b # xs) @ d # (ys @ [b])" unfolding p(1,2) by simp
  ultimately have "linked s' (b # (xs @ d # ys) @ [b])" by simp
  then show ?thesis using r d by (auto simp: ring_def)
qed

lemma ring_append:
  assumes r: "ring s b xs" and d: "d \<notin> insert b (set xs)"
    and s': "ck_next s' = (ck_next s)(d := b, ck_prev s b := d)" "ck_prev s' = (ck_prev s)(d := ck_prev s b, b := d)"
  shows "ring s' b (xs @ [d])"
proof -
  have l: "linked s ((b # xs) @ [b])" using r by (simp add: ring_def)
  define us p where "us = butlast (b # xs)" and "p = last (b # xs)"
  have u: "b # xs = us @ [p]" unfolding us_def p_def by (simp only: append_butlast_last_id list.distinct(2) not_False_eq_True)
  then have l': "linked s (us @ p # b # [])" using l by simp
  from linked_append [THEN iffD1, OF l'] have p: "ck_prev s b = p" by simp
  have dis: "distinct (us @ [p])" "d \<notin> set (us @ [p])" "b \<notin> set (tl (us @ [p]))" unfolding u [symmetric] using r d by (auto simp: ring_def)
  have "linked s' (us @ [p])"
    by (rule linked_frame [OF linked_parts(1) [OF l']]) (use dis in \<open>auto simp: s' p dest: in_set_tlD\<close>)
  moreover have "linked s' [d, b]" using d dis(2) by (auto simp: s' p)
  moreover have "ck_next s' p = d" "ck_prev s' d = p" using dis(2) d by (auto simp: s' p)
  ultimately have "linked s' (us @ p # d # [b])" by (intro linked_glue)
  moreover have "us @ p # d # [b] = (b # xs) @ d # [b]" unfolding u by simp
  ultimately have "linked s' (b # (xs @ [d]) @ [b])" by simp
  then show ?thesis using r d by (auto simp: ring_def)
qed

section \<open>The invariant\<close>

definition heap_lo :: "heap_state \<Rightarrow> nat \<Rightarrow> int" where
  "heap_lo s n = ARENA_START s n + 16"

definition heap_hi :: "heap_state \<Rightarrow> nat \<Rightarrow> int" where
  "heap_hi s n = ARENA_START s n + 2 ^ 30 - 16"

definition free_chunks :: "int \<Rightarrow> cells \<Rightarrow> nat \<Rightarrow> int set" where
  "free_chunks a cs i = {c. \<exists>sz. (c, sz, False) \<in> set (chunks a cs) \<and> bin_index sz = i}"

definition bin_ok :: "heap_state \<Rightarrow> nat \<Rightarrow> nat \<Rightarrow> int list \<Rightarrow> bool" where
  "bin_ok s n i xs \<longleftrightarrow> (if ck_next s (BIN_TO_CHUNK s i n) = 0 then xs = [] else ring s (BIN_TO_CHUNK s i n) xs) \<and>
     (bit (binmap s n) i \<longleftrightarrow> xs \<noteq> [])"

definition bins_ok :: "heap_state \<Rightarrow> nat \<Rightarrow> int \<Rightarrow> cells \<Rightarrow> (nat \<Rightarrow> int list) \<Rightarrow> bool" where
  "bins_ok s n lo cells B \<longleftrightarrow> (\<forall>i < 64. set (B i) = free_chunks lo cells i \<and> bin_ok s n i (B i)) \<and> 0 \<le> binmap s n \<and> binmap s n < 2 ^ 64"

definition places_ok :: "heap_state \<Rightarrow> bool" where
  "places_ok s \<longleftrightarrow> 0 < mal_at s \<and> mal_at s + 131072 \<le> arena_start s \<and> arena_start s + 2 ^ 35 < 2 ^ 63 \<and> 4096 dvd arena_start s"

definition heap_inv :: "heap_state \<Rightarrow> nat \<Rightarrow> cells \<Rightarrow> (nat \<Rightarrow> int list) \<Rightarrow> bool" where
  "heap_inv s n cells B \<longleftrightarrow> n < 32 \<and> places_ok s \<and> tiles s (heap_lo s n) cells (heap_hi s n) \<and>
     ck_psize s (heap_lo s n) = 3 \<and> ck_csize s (heap_hi s n) = 3 \<and> spaced cells \<and> bins_ok s n (heap_lo s n) cells B"

lemma free_chunks_simps [simp]:
  "free_chunks a [] i = {}"
  "free_chunks a ((sz, u) # cs) i = (if \<not> u \<and> bin_index sz = i then insert a (free_chunks (a + sz) cs i) else free_chunks (a + sz) cs i)"
  "free_chunks a (xs @ ys) i = free_chunks a xs i \<union> free_chunks (a + extent xs) ys i"
  by (auto simp: free_chunks_def chunks_append)

lemma free_chunks_range: "tiles s a cs e \<Longrightarrow> c \<in> free_chunks a cs i \<Longrightarrow> a \<le> c \<and> c + 32 \<le> e"
  using chunks_range by (fastforce simp: free_chunks_def)

lemma free_chunks_unique:
  assumes "tiles s a cs e" "c \<in> free_chunks a cs i" "c \<in> free_chunks a cs j"
  shows "i = j"
  using assms(2,3) chunks_same [OF assms(1)] unfolding free_chunks_def by blast

text \<open>Bins and chunks are different places.\<close>

lemma BIN_at: "BIN_TO_CHUNK s i n = mal_at s + 4096 * int n + 24 * int i"
  by (simp add: BIN_TO_CHUNK_def MEM_TO_CHUNK_def)

lemma BIN_inj:
  assumes "i < 64" "j < 64"
  shows "BIN_TO_CHUNK s i n = BIN_TO_CHUNK s j m \<longleftrightarrow> i = j \<and> n = m"
proof
  assume "BIN_TO_CHUNK s i n = BIN_TO_CHUNK s j m"
  then have e: "4096 * int n + 24 * int i = 4096 * int m + 24 * int j" by (simp add: BIN_at)
  have "n = m"
  proof (rule ccontr)
    assume "n \<noteq> m"
    then have "int n + 1 \<le> int m \<or> int m + 1 \<le> int n" by linarith
    then show False using e assms by linarith
  qed
  then show "i = j \<and> n = m" using e by simp
qed (simp add: BIN_at)

lemma BIN_place:
  assumes "places_ok s" "i < 64" "n < 32"
  shows "0 < BIN_TO_CHUNK s i n" "BIN_TO_CHUNK s i n < arena_start s"
  using assms by (auto simp: BIN_at places_ok_def)

lemma heap_place: "n < 32 \<Longrightarrow> arena_start s < heap_lo s n" "heap_lo s n < heap_hi s n"
  by (simp_all add: heap_lo_def heap_hi_def ARENA_START_def)

text \<open>The bins when one of them changes.\<close>

lemma bins_ok_update:
  assumes ok: "bins_ok s n lo cells B" and t: "tiles s lo cells e" and places: "places_ok s" "n < 32" "arena_start s \<le> lo"
    and i: "i < 64" and c: "lo \<le> c" "\<And>j. j \<noteq> i \<Longrightarrow> c \<notin> free_chunks lo cells j"
    and links: "\<And>x. x \<notin> insert (BIN_TO_CHUNK s i n) (insert c (set (B i))) \<Longrightarrow> ck_next s' x = ck_next s x \<and> ck_prev s' x = ck_prev s x"
    and same: "mal_at s' = mal_at s" "\<And>j. j \<noteq> i \<Longrightarrow> bit (binmap s' n) j = bit (binmap s n) j" "0 \<le> binmap s' n" "binmap s' n < 2 ^ 64"
    and free: "\<And>j. j \<noteq> i \<Longrightarrow> free_chunks lo cells' j = free_chunks lo cells j"
    and new: "set xs = free_chunks lo cells' i" "bin_ok s' n i xs"
  shows "bins_ok s' n lo cells' (B(i := xs))"
proof -
  have "set ((B(i := xs)) j) = free_chunks lo cells' j \<and> bin_ok s' n j ((B(i := xs)) j)" if j: "j < 64" for j
  proof (cases "j = i")
    case False
    let ?b = "BIN_TO_CHUNK s j n"
    have b: "BIN_TO_CHUNK s' j n = ?b" by (simp add: BIN_at same(1))
    have Bj: "set (B j) = free_chunks lo cells j" "bin_ok s n j (B j)" using ok j by (auto simp: bins_ok_def)
    have Bi: "set (B i) = free_chunks lo cells i" using ok i by (auto simp: bins_ok_def)
    have eq: "ck_next s' x = ck_next s x \<and> ck_prev s' x = ck_prev s x" if x: "x \<in> insert ?b (set (B j))" for x
    proof (rule links)
      have "BIN_TO_CHUNK s i n \<noteq> ?b" using BIN_inj [OF i j] False by simp
      moreover have "y \<noteq> ?b \<and> y \<noteq> BIN_TO_CHUNK s i n" if "lo \<le> y" for y
        using BIN_place [OF places(1) i places(2)] BIN_place [OF places(1) j places(2)] places(3) that by auto
      moreover have "lo \<le> y" if "y \<in> set (B i) \<union> set (B j)" for y
        using free_chunks_range [OF t] that Bi Bj by blast
      moreover have "set (B i) \<inter> set (B j) = {}" using free_chunks_unique [OF t] False Bi Bj by blast
      moreover have "c \<notin> set (B j)" using c(2) [OF False] Bj by simp
      ultimately show "x \<notin> insert (BIN_TO_CHUNK s i n) (insert c (set (B i)))" using x c(1) by fastforce
    qed
    have "ring s' ?b (B j) = ring s ?b (B j)" using eq by (intro ring_cong) simp
    moreover have "ck_next s' ?b = ck_next s ?b" using eq by simp
    ultimately show ?thesis using Bj False free [OF False] same(2) [OF False] by (simp add: bin_ok_def b)
  qed (use new in simp)
  then show ?thesis using same(3,4) by (simp add: bins_ok_def)
qed

end
