(* ===== verification/Node_Heap_Steps.thy ===== *)
theory Node_Heap_Steps
  imports Node_Heap_Inv
begin

text \<open>
  The elementary changes to the heap of a node - taking a free chunk off its bin, merging and splitting chunks in use,
  splitting a free chunk, and putting a chunk into its bin - and what each does to the sequence of chunks and to the bins.
\<close>

section \<open>What a change leaves alone\<close>

definition in_node :: "heap_state \<Rightarrow> nat \<Rightarrow> int \<Rightarrow> bool" where
  "in_node s n a \<longleftrightarrow> ARENA_START s n \<le> a \<and> a < ARENA_START s n + 2 ^ 30 \<or> (\<exists>i < 64. a = BIN_TO_CHUNK s i n)"

definition same_outside :: "nat \<Rightarrow> heap_state \<Rightarrow> heap_state \<Rightarrow> bool" where
  "same_outside n s s' \<longleftrightarrow> mal_at s' = mal_at s \<and> arena_start s' = arena_start s \<and> node_arenas s' = node_arenas s \<and>
     node_sizes s' = node_sizes s \<and> heap_end s' = heap_end s \<and> initialized s' = initialized s \<and> heap_errno s' = heap_errno s \<and>
     (\<forall>m. m \<noteq> n \<longrightarrow> binmap s' m = binmap s m) \<and>
     (\<forall>a. \<not> in_node s n a \<longrightarrow> ck_psize s' a = ck_psize s a \<and> ck_csize s' a = ck_csize s a \<and> ck_next s' a = ck_next s a \<and> ck_prev s' a = ck_prev s a)"

lemma same_outside_refl [simp]: "same_outside n s s"
  by (simp add: same_outside_def)

lemma same_outside_places:
  assumes "same_outside n s s'"
  shows "ARENA_START s' k = ARENA_START s k" "BIN_TO_CHUNK s' i k = BIN_TO_CHUNK s i k" "in_node s' k a = in_node s k a"
    "heap_lo s' k = heap_lo s k" "heap_hi s' k = heap_hi s k" "places_ok s' = places_ok s"
  using assms by (simp_all add: same_outside_def ARENA_START_def BIN_at in_node_def heap_lo_def heap_hi_def places_ok_def)

lemma same_outside_trans: "same_outside n s s' \<Longrightarrow> same_outside n s' s'' \<Longrightarrow> same_outside n s s''"
  by (simp add: same_outside_def in_node_def ARENA_START_def BIN_at)

text \<open>The same for the node's own variables that an expansion of its heap sets.\<close>

definition other_nodes_same :: "nat \<Rightarrow> heap_state \<Rightarrow> heap_state \<Rightarrow> bool" where
  "other_nodes_same n s s' \<longleftrightarrow> mal_at s' = mal_at s \<and> arena_start s' = arena_start s \<and>
     (\<forall>m. m \<noteq> n \<longrightarrow> binmap s' m = binmap s m \<and> node_arenas s' m = node_arenas s m \<and> node_sizes s' m = node_sizes s m \<and>
       heap_end s' m = heap_end s m \<and> initialized s' m = initialized s m) \<and>
     (\<forall>a. \<not> in_node s n a \<longrightarrow> ck_psize s' a = ck_psize s a \<and> ck_csize s' a = ck_csize s a \<and> ck_next s' a = ck_next s a \<and> ck_prev s' a = ck_prev s a)"

lemma same_outside_other_nodes: "same_outside n s s' \<Longrightarrow> other_nodes_same n s s'"
  by (simp add: same_outside_def other_nodes_same_def)

lemma other_nodes_same_refl [simp]: "other_nodes_same n s s"
  by (simp add: other_nodes_same_def)

lemma other_nodes_same_places:
  assumes "other_nodes_same n s s'"
  shows "ARENA_START s' k = ARENA_START s k" "BIN_TO_CHUNK s' i k = BIN_TO_CHUNK s i k" "in_node s' k a = in_node s k a"
    "heap_lo s' k = heap_lo s k" "heap_hi s' k = heap_hi s k" "places_ok s' = places_ok s"
  using assms by (simp_all add: other_nodes_same_def ARENA_START_def BIN_at in_node_def heap_lo_def heap_hi_def places_ok_def)

lemma other_nodes_same_trans: "other_nodes_same n s s' \<Longrightarrow> other_nodes_same n s' s'' \<Longrightarrow> other_nodes_same n s s''"
  by (simp add: other_nodes_same_def in_node_def ARENA_START_def BIN_at)

text \<open>The bins of a node are not in another's, nor are the addresses of its arena.\<close>

lemma not_in_node:
  assumes "places_ok s" "m \<noteq> n" "m < 32" "n < 32"
  shows "ARENA_START s m \<le> a \<Longrightarrow> a < ARENA_START s m + 2 ^ 30 \<Longrightarrow> \<not> in_node s n a" "i < 64 \<Longrightarrow> \<not> in_node s n (BIN_TO_CHUNK s i m)"
proof -
  have apart: "ARENA_START s m + 2 ^ 30 \<le> ARENA_START s n \<or> ARENA_START s n + 2 ^ 30 \<le> ARENA_START s m"
  proof -
    have "int m + 1 \<le> int n \<or> int n + 1 \<le> int m" using assms(2) by linarith
    then show ?thesis by (auto simp: ARENA_START_def)
  qed
  show "\<not> in_node s n a" if "ARENA_START s m \<le> a" "a < ARENA_START s m + 2 ^ 30"
  proof -
    have "arena_start s \<le> a" using that(1) by (simp add: ARENA_START_def)
    moreover have "BIN_TO_CHUNK s i n < arena_start s" if "i < 64" for i by (rule BIN_place(2) [OF assms(1) that assms(4)])
    ultimately show ?thesis using that apart by (fastforce simp: in_node_def)
  qed
  show "\<not> in_node s n (BIN_TO_CHUNK s i m)" if "i < 64"
  proof -
    have "BIN_TO_CHUNK s i m < ARENA_START s n" using BIN_place [OF assms(1) that assms(3)] by (simp add: ARENA_START_def)
    then show ?thesis using BIN_inj [OF that] assms(2) by (auto simp: in_node_def)
  qed
qed

text \<open>The heaps of other nodes stay as they are.\<close>

lemma other_heap:
  assumes "other_nodes_same n s s'" "m \<noteq> n" "n < 32" "heap_inv s m cells B"
  shows "heap_inv s' m cells B"
proof -
  note p = other_nodes_same_places [OF assms(1)]
  have "m < 32" "places_ok s" using assms(4) by (simp_all add: heap_inv_def)
  note range = not_in_node(1) [OF this(2) assms(2) this(1) assms(3)] and bins = not_in_node(2) [OF this(2) assms(2) this(1) assms(3)]
  note same = assms(1) [unfolded other_nodes_same_def]
  have t: "tiles s (heap_lo s m) cells (heap_hi s m)" using assms(4) by (simp add: heap_inv_def)
  then have "tiles s' (heap_lo s m) cells (heap_hi s m)"
    using range same by (intro iffD1 [OF tiles_cong t]) (auto simp: heap_lo_def heap_hi_def)
  moreover have "bins_ok s' m (heap_lo s m) cells B"
    unfolding bins_ok_def
  proof (intro conjI allI impI)
    fix i :: nat assume i64: "i < 64"
    have b: "set (B i) = free_chunks (heap_lo s m) cells i" "bin_ok s m i (B i)" using assms(4) i64 by (auto simp: heap_inv_def bins_ok_def)
    show "set (B i) = free_chunks (heap_lo s m) cells i" by (rule b(1))
    have e: "ck_next s' x = ck_next s x \<and> ck_prev s' x = ck_prev s x" if x: "x \<in> insert (BIN_TO_CHUNK s i m) (set (B i))" for x
    proof -
      have "\<not> in_node s n x"
      proof (cases "x = BIN_TO_CHUNK s i m")
        case False
        then have "x \<in> free_chunks (heap_lo s m) cells i" using x b(1) by simp
        from free_chunks_range [OF t this] show ?thesis by (intro range) (auto simp: heap_lo_def heap_hi_def)
      qed (use bins [OF i64] in simp)
      then show ?thesis using same by simp
    qed
    have "ring s' (BIN_TO_CHUNK s i m) (B i) = ring s (BIN_TO_CHUNK s i m) (B i)" using e by (intro ring_cong) simp
    moreover have "binmap s' m = binmap s m" using same assms(2) by simp
    ultimately show "bin_ok s' m i (B i)" using b(2) e by (simp add: bin_ok_def p)
  qed (use assms(2,4) same in \<open>auto simp: heap_inv_def bins_ok_def\<close>)
  moreover have "ck_psize s' (heap_lo s m) = ck_psize s (heap_lo s m)" "ck_csize s' (heap_hi s m) = ck_csize s (heap_hi s m)"
    using same range by (simp_all add: heap_lo_def heap_hi_def)
  ultimately show ?thesis using assms(4) by (simp add: heap_inv_def p)
qed

section \<open>Changing a part of the heap\<close>

lemma tiles_change:
  assumes t: "tiles s lo (xs @ mid @ ys) hi" and c: "c = lo + extent xs" "e = c + extent mid"
    and same: "\<And>a. a < c \<or> e \<le> a \<Longrightarrow> ck_csize s' a = ck_csize s a" "\<And>a. a \<le> c \<or> e < a \<Longrightarrow> ck_psize s' a = ck_psize s a"
    and new: "tiles s' c mid' e"
  shows "tiles s' lo (xs @ mid' @ ys) hi"
proof -
  have "tiles s lo xs c" "tiles s e ys hi" using t by (simp_all add: tiles_append c)
  then have "tiles s' lo xs c" "tiles s' e ys hi"
    using same tiles_cong [of lo c s s' xs] tiles_cong [of e hi s s' ys] by auto
  moreover have "c + extent mid' = e" using tiles_end [OF new] by simp
  ultimately show ?thesis using new by (simp add: tiles_append c(1) [symmetric])
qed

lemma heap_inv_change:
  assumes inv: "heap_inv s n (xs @ mid @ ys) B" and c: "c = heap_lo s n + extent xs" "e = c + extent mid" "mid \<noteq> []"
    and places: "mal_at s' = mal_at s" "arena_start s' = arena_start s"
    and same: "\<And>a. a < c \<or> e \<le> a \<Longrightarrow> ck_csize s' a = ck_csize s a" "\<And>a. a \<le> c \<or> e < a \<Longrightarrow> ck_psize s' a = ck_psize s a"
    and new: "tiles s' c mid' e" "spaced (xs @ mid' @ ys)" "bins_ok s' n (heap_lo s n) (xs @ mid' @ ys) B'"
  shows "heap_inv s' n (xs @ mid' @ ys) B'"
proof -
  have p: "heap_lo s' n = heap_lo s n" "heap_hi s' n = heap_hi s n" "places_ok s' = places_ok s"
    using places by (simp_all add: heap_lo_def heap_hi_def ARENA_START_def places_ok_def)
  have t: "tiles s (heap_lo s n) (xs @ mid @ ys) (heap_hi s n)" using inv by (simp add: heap_inv_def)
  then have "tiles s (heap_lo s n) xs c" "tiles s c mid e" "tiles s e ys (heap_hi s n)" by (simp_all add: tiles_append c)
  then have "heap_lo s n \<le> c" "e \<le> heap_hi s n" using tiles_end by blast+
  then show ?thesis
    using inv tiles_change [OF t c(1,2) same new(1)] same new by (simp add: heap_inv_def p)
qed

text \<open>What is known about a chunk.\<close>

lemma heap_chunk:
  assumes inv: "heap_inv s n (xs @ (sz, u) # ys) B" and c: "c = heap_lo s n + extent xs"
  shows "32 \<le> sz" "32 dvd sz" "sz < 2 ^ 30" "ck_csize s c = tag sz u" "ck_psize s (c + sz) = tag sz u" "CHUNK_SIZE s c = sz"
    "NEXT_CHUNK s c = c + sz" "heap_lo s n \<le> c" "c + sz \<le> heap_hi s n" "n < 32" "places_ok s" "0 < c"
    "tiles s (heap_lo s n) xs c" "tiles s (c + sz) ys (heap_hi s n)" "bin_index sz < 64"
proof -
  have t: "tiles s (heap_lo s n) (xs @ (sz, u) # ys) (heap_hi s n)" "n < 32" "places_ok s" using inv by (simp_all add: heap_inv_def)
  then have a: "tiles s (heap_lo s n) xs c" "tiles s c ((sz, u) # ys) (heap_hi s n)" by (simp_all add: tiles_append c)
  then show b: "32 \<le> sz" "32 dvd sz" "ck_csize s c = tag sz u" "ck_psize s (c + sz) = tag sz u" "tiles s (c + sz) ys (heap_hi s n)"
    "tiles s (heap_lo s n) xs c" "n < 32" "places_ok s" using t by simp_all
  then show "CHUNK_SIZE s c = sz" "NEXT_CHUNK s c = c + sz" by (simp_all add: CHUNK_SIZE_def NEXT_CHUNK_def tag_simps)
  show r: "heap_lo s n \<le> c" "c + sz \<le> heap_hi s n" using tiles_end [OF a(1)] tiles_end [OF b(5)] by simp_all
  then show "sz < 2 ^ 30" by (simp add: heap_lo_def heap_hi_def)
  then show "bin_index sz < 64" using b(1) by (intro bin_index_less) auto
  show "0 < c" using r heap_place(1) [OF t(2), of s] t(3) by (simp add: places_ok_def)
qed

text \<open>Taking a free chunk off its bin.\<close>

lemma ring_next: "ring s b xs \<Longrightarrow> ck_next s b \<in> insert b (set xs)"
  and ring_prev: "ring s b xs \<Longrightarrow> ck_prev s b \<in> insert b (set xs)"
proof -
  assume r: "ring s b xs"
  then show "ck_next s b \<in> insert b (set xs)" by (cases xs) (auto simp: ring_def)
  show "ck_prev s b \<in> insert b (set xs)"
  proof (cases xs rule: rev_cases)
    case (snoc ys y)
    then show ?thesis using ring_neighbours(2,4) [of s b ys y "[]"] r by simp
  qed (use r in \<open>simp add: ring_def\<close>)
qed

lemma unbin_fields:
  assumes r: "ck_prev s c \<noteq> c" and sz: "32 dvd sz" "ck_csize s c = tag sz u"
  shows "ck_next (unbin c i n s) = (ck_next s)(ck_prev s c := ck_next s c)" "ck_prev (unbin c i n s) = (ck_prev s)(ck_next s c := ck_prev s c)"
    "ck_csize (unbin c i n s) = (ck_csize s)(c := tag sz True)"
    "ck_psize (unbin c i n s) = (ck_psize s)(c + sz := ck_psize s (c + sz) OR 3)"
    "binmap (unbin c i n s) = (if ck_prev s c = ck_next s c then (binmap s)(n := binmap s n AND NOT (push_bit i 1)) else binmap s)"
    "mal_at (unbin c i n s) = mal_at s" "arena_start (unbin c i n s) = arena_start s" "node_arenas (unbin c i n s) = node_arenas s"
    "node_sizes (unbin c i n s) = node_sizes s" "heap_end (unbin c i n s) = heap_end s" "initialized (unbin c i n s) = initialized s"
    "heap_errno (unbin c i n s) = heap_errno s" "heap_calls (unbin c i n s) = heap_calls s"
  using r tag_simps [OF sz(1)] by (simp_all add: unbin_def Let_def NEXT_CHUNK_def CHUNK_SIZE_def sz(2))

lemma clear_bit_facts:
  assumes "0 \<le> (x :: int)" "x < 2 ^ 64"
  shows "bit (x AND NOT (push_bit i 1)) j \<longleftrightarrow> bit x j \<and> j \<noteq> i" "0 \<le> x AND NOT (push_bit i 1)" "x AND NOT (push_bit i 1) < 2 ^ 64"
proof -
  show b: "bit (x AND NOT (push_bit i 1)) j \<longleftrightarrow> bit x j \<and> j \<noteq> i" for j
    by (auto simp: bit_and_iff bit_not_iff bit_exp_iff)
  show n: "0 \<le> x AND NOT (push_bit i 1)" using assms(1) by simp
  have "x AND NOT (push_bit i 1) \<le> x" using assms(1) by (rule AND_upper1)
  then show "x AND NOT (push_bit i 1) < 2 ^ 64" using assms(2) by simp
qed

lemma take_free:
  assumes inv: "heap_inv s n (xs @ (sz, False) # ys) B" and c: "c = heap_lo s n + extent xs" and i: "i = bin_index sz"
    and s': "s' = unbin c i n (lock_bin i n s)"
  shows "heap_inv s' n (xs @ (sz, True) # ys) (B(i := remove1 c (B i)))" and "same_outside n s s'"
proof -
  note h = heap_chunk [OF inv c]
  let ?lo = "heap_lo s n" and ?b = "BIN_TO_CHUNK s i n"
  have t: "tiles s ?lo (xs @ (sz, False) # ys) (heap_hi s n)" and sp: "spaced (xs @ (sz, False) # ys)"
    and bins: "bins_ok s n ?lo (xs @ (sz, False) # ys) B" using inv by (simp_all add: heap_inv_def)
  have Bi: "set (B i) = free_chunks ?lo (xs @ (sz, False) # ys) i" "bin_ok s n i (B i)" and bm: "0 \<le> binmap s n" "binmap s n < 2 ^ 64"
    using bins h(15) i by (auto simp: bins_ok_def)
  have "c \<in> set (B i)" using Bi(1) i by (simp add: c)
  then obtain us vs where B: "B i = us @ c # vs" by (meson split_list)
  then have nz: "ck_next s ?b \<noteq> 0" and r: "ring s ?b (us @ c # vs)" using Bi(2) by (auto simp: bin_ok_def split: if_splits)
  then have lock: "lock_bin i n s = s" by (simp add: lock_bin_def Let_def)
  have d: "distinct (?b # us @ c # vs)" using r by (simp add: ring_def)
  note nb = ring_neighbours [OF r]
  have pc: "ck_prev s c \<noteq> c" using nb(1) d by (cases us rule: rev_cases) auto
  have single: "ck_prev s c = ck_next s c \<longleftrightarrow> us = [] \<and> vs = []"
    unfolding nb using d by (cases us rule: rev_cases; cases vs) auto
  note f = unbin_fields [OF pc h(2,4), of i n, folded s' [unfolded lock]]
  have ring': "ring s' ?b (us @ vs)" by (rule ring_remove [OF r f(1,2)])
  have nin: "ck_prev s c \<in> insert ?b (set (B i))" "ck_next s c \<in> insert ?b (set (B i))"
    unfolding nb B by (cases us rule: rev_cases; simp) (cases vs; simp)
  have lo: "?lo \<le> x \<and> x + 32 \<le> heap_hi s n" if "x \<in> set (B i)" for x using free_chunks_range [OF t] that Bi(1) by blast
  have arena: "?lo = ARENA_START s n + 16" "heap_hi s n = ARENA_START s n + 2 ^ 30 - 16" by (simp_all add: heap_lo_def heap_hi_def)
  have inn: "in_node s n x" if "x \<in> insert ?b (set (B i))" for x
    using that lo [of x] h(15) i arena by (auto simp: in_node_def)
  have psz: "ck_psize s (c + sz) OR 3 = tag sz True" using tag_simps(4) [OF h(2)] h(5) by simp
  have "heap_inv s' n (xs @ [(sz, True)] @ ys) (B(i := remove1 c (B i)))"
  proof (rule heap_inv_change [where mid = "[(sz, False)]" and c = c and e = "c + sz"])
    show "heap_inv s n (xs @ [(sz, False)] @ ys) B" using inv by simp
    show "spaced (xs @ [(sz, True)] @ ys)" using sp by (auto simp: spaced_append spaced_Cons)
    show "tiles s' c [(sz, True)] (c + sz)" using h(1,2) psz by (simp add: f)
    have rem: "remove1 c (B i) = us @ vs" using d by (simp add: B remove1_append)
    show "bins_ok s' n ?lo (xs @ [(sz, True)] @ ys) (B(i := remove1 c (B i)))"
    proof (rule bins_ok_update [OF bins t h(11,10) _ _ h(8)])
      show "arena_start s \<le> ?lo" using heap_place(1) [OF h(10), of s] by simp
      show "i < 64" using h(15) i by simp
      show "c \<notin> free_chunks ?lo (xs @ (sz, False) # ys) j" if "j \<noteq> i" for j
        using free_chunks_unique [OF t, of c j i] that \<open>c \<in> set (B i)\<close> Bi(1) by blast
      show "ck_next s' x = ck_next s x \<and> ck_prev s' x = ck_prev s x" if "x \<notin> insert ?b (insert c (set (B i)))" for x
        using that nin by (auto simp: f)
      show "bit (binmap s' n) j = bit (binmap s n) j" if "j \<noteq> i" for j using that clear_bit_facts [OF bm] by (simp add: f)
      show "0 \<le> binmap s' n" "binmap s' n < 2 ^ 64" using bm clear_bit_facts [OF bm] by (simp_all add: f)
      show "free_chunks ?lo (xs @ [(sz, True)] @ ys) j = free_chunks ?lo (xs @ (sz, False) # ys) j" if "j \<noteq> i" for j
        using that i by simp
      have "set (us @ vs) = set (B i) - {c}" using d by (auto simp: B)
      moreover have "c \<notin> free_chunks ?lo xs i" using free_chunks_range [OF h(13)] by fastforce
      moreover have "c \<notin> free_chunks (c + sz) ys i" using free_chunks_range [OF h(14)] h(1) by fastforce
      ultimately show "set (remove1 c (B i)) = free_chunks ?lo (xs @ [(sz, True)] @ ys) i"
        using i Bi(1) unfolding rem by (auto simp: c)
      have "bit (binmap s' n) i \<longleftrightarrow> us @ vs \<noteq> []"
        using single clear_bit_facts [OF bm] Bi(2) B by (auto simp: f bin_ok_def)
      moreover have "ck_next s' ?b \<noteq> 0"
      proof -
        have "ck_next s' ?b \<in> insert ?b (set (B i))" using ring_next [OF ring'] B by auto
        moreover have "0 < x" if "x \<in> insert ?b (set (B i))" for x
          using that lo [of x] BIN_place(1) [OF h(11) _ h(10), of i] h(15) i heap_place(1) [OF h(10), of s] h(11)
          by (auto simp: places_ok_def)
        ultimately show ?thesis by fastforce
      qed
      moreover have "BIN_TO_CHUNK s' i n = ?b" by (simp add: BIN_at f)
      ultimately show "bin_ok s' n i (remove1 c (B i))" using ring' unfolding rem by (simp add: bin_ok_def)
    qed (simp add: f)
  qed (use h(1) in \<open>auto simp: c f\<close>)
  then show "heap_inv s' n (xs @ (sz, True) # ys) (B(i := remove1 c (B i)))" by simp
  have "in_node s n c" "in_node s n (c + sz)" using h(1,8,9) arena by (auto simp: in_node_def)
  then show "same_outside n s s'"
    unfolding same_outside_def using inn [OF nin(1)] inn [OF nin(2)] by (auto simp: f)
qed

text \<open>Changing the headers of chunks in use: merging and splitting them.\<close>

lemma used_facts:
  assumes "\<forall>x \<in> set cs. snd x"
  shows "free_chunks a cs i = {}" "spaced cs" "cs \<noteq> [] \<Longrightarrow> snd (hd cs)" "cs \<noteq> [] \<Longrightarrow> snd (last cs)"
proof -
  show "free_chunks a cs i = {}" using assms
  proof (induction cs arbitrary: a)
    case (Cons x cs)
    then show ?case by (cases x) simp
  qed simp
  show "spaced cs" using assms
  proof (induction cs)
    case (Cons x cs)
    then show ?case by (cases x) (simp add: spaced_Cons)
  qed simp
qed (use assms in auto)

lemma in_node_range: "ARENA_START s n \<le> a \<Longrightarrow> a < ARENA_START s n + 2 ^ 30 \<Longrightarrow> in_node s n a"
  by (simp add: in_node_def)

lemma retile:
  assumes inv: "heap_inv s n (xs @ mid @ ys) B" and c: "c = heap_lo s n + extent xs" "e = c + extent mid" "mid \<noteq> []"
    and used: "\<forall>x \<in> set mid. snd x" "\<forall>x \<in> set mid'. snd x" "mid' \<noteq> []"
    and s': "s' = s\<lparr>ck_csize := cs, ck_psize := ps\<rparr>"
    and same: "\<And>a. a < c \<or> e \<le> a \<Longrightarrow> cs a = ck_csize s a" "\<And>a. a \<le> c \<or> e < a \<Longrightarrow> ps a = ck_psize s a"
    and new: "tiles s' c mid' e"
  shows "heap_inv s' n (xs @ mid' @ ys) B" and "same_outside n s s'"
proof -
  let ?lo = "heap_lo s n"
  have t: "tiles s ?lo (xs @ mid @ ys) (heap_hi s n)" and sp: "spaced (xs @ mid @ ys)"
    and bins: "bins_ok s n ?lo (xs @ mid @ ys) B" using inv by (simp_all add: heap_inv_def)
  have e: "extent mid' = extent mid" using tiles_end [OF new] c(2) by simp
  have "spaced (xs @ mid' @ ys)"
    using sp used_facts [OF used(1)] used_facts [OF used(2)] c(3) used(3) by (auto simp: spaced_append)
  moreover have "bins_ok s' n ?lo (xs @ mid' @ ys) B"
  proof -
    have "free_chunks ?lo (xs @ mid' @ ys) i = free_chunks ?lo (xs @ mid @ ys) i" for i
      using used_facts(1) [OF used(1)] used_facts(1) [OF used(2)] by (simp add: e)
    moreover have "ring s' b zs = ring s b zs" for b zs by (intro ring_cong) (simp add: s')
    moreover have "BIN_TO_CHUNK s' i n = BIN_TO_CHUNK s i n" for i by (simp add: BIN_at s')
    moreover have "ck_next s' = ck_next s" "binmap s' = binmap s" by (simp_all add: s')
    ultimately show ?thesis using bins by (simp add: bins_ok_def bin_ok_def)
  qed
  ultimately show "heap_inv s' n (xs @ mid' @ ys) B"
    using same new by (intro heap_inv_change [OF inv c]) (simp_all add: s')
  have "tiles s c mid e" "tiles s ?lo xs c" "tiles s e ys (heap_hi s n)" using t by (simp_all add: tiles_append c)
  then have "?lo \<le> c" "e \<le> heap_hi s n" using tiles_end by blast+
  then have r: "a < c \<or> e < a" if "\<not> in_node s n a" for a
    using that in_node_range [of s n a] unfolding heap_lo_def heap_hi_def by linarith
  have "ck_csize s' a = ck_csize s a \<and> ck_psize s' a = ck_psize s a" if "\<not> in_node s n a" for a
    using r [OF that] same [of a] by (auto simp: s')
  then show "same_outside n s s'" by (simp add: same_outside_def s')
qed

text \<open>Locking a bin makes its list if there is none.\<close>

lemma lock_bin_ok:
  assumes inv: "heap_inv s n cells B" and i: "i < 64"
  shows "heap_inv (lock_bin i n s) n cells B" "same_outside n s (lock_bin i n s)"
    "ring (lock_bin i n s) (BIN_TO_CHUNK s i n) (B i)" "ck_csize (lock_bin i n s) = ck_csize s" "ck_psize (lock_bin i n s) = ck_psize s"
    "binmap (lock_bin i n s) = binmap s"
proof -
  let ?b = "BIN_TO_CHUNK s i n" and ?lo = "heap_lo s n"
  have n: "n < 32" "places_ok s" and t: "tiles s ?lo cells (heap_hi s n)" and bins: "bins_ok s n ?lo cells B"
    using inv by (simp_all add: heap_inv_def)
  have Bi: "set (B i) = free_chunks ?lo cells i" "bin_ok s n i (B i)" and bm: "0 \<le> binmap s n" "binmap s n < 2 ^ 64"
    using bins i by (auto simp: bins_ok_def)
  show h: "ck_csize (lock_bin i n s) = ck_csize s" "ck_psize (lock_bin i n s) = ck_psize s" "binmap (lock_bin i n s) = binmap s"
    by (simp_all add: lock_bin_def Let_def)
  show "same_outside n s (lock_bin i n s)" using i by (auto simp: same_outside_def lock_bin_def Let_def in_node_def)
  have "0 < ?b" by (rule BIN_place(1) [OF n(2) i n(1)])
  show r: "ring (lock_bin i n s) ?b (B i)"
    using Bi(2) \<open>0 < ?b\<close> by (auto simp: lock_bin_def Let_def bin_ok_def ring_def)
  show "heap_inv (lock_bin i n s) n cells B"
  proof (cases "ck_next s ?b = 0")
    case True
    then have e: "B i = []" using Bi(2) by (simp add: bin_ok_def)
    have "bins_ok (lock_bin i n s) n ?lo cells (B(i := []))"
    proof (rule bins_ok_update [OF bins t n(2,1) _ i, of "heap_hi s n"])
      show "arena_start s \<le> ?lo" using heap_place(1) [OF n(1), of s] by simp
      show "?lo \<le> heap_hi s n" using heap_place(2) [of s n] by simp
      show "heap_hi s n \<notin> free_chunks ?lo cells j" if "j \<noteq> i" for j using free_chunks_range [OF t] by fastforce
      have "BIN_TO_CHUNK (lock_bin i n s) i n = ?b" by (simp add: BIN_at lock_bin_def Let_def)
      then show "bin_ok (lock_bin i n s) n i []" using e Bi(2) r by (simp add: bin_ok_def h)
    qed (use True e Bi bm in \<open>auto simp: lock_bin_def Let_def\<close>)
    then have "bins_ok (lock_bin i n s) n ?lo cells B" using e by (simp add: fun_upd_idem)
    moreover have "tiles (lock_bin i n s) ?lo cells (heap_hi s n)" using t tiles_cong [of ?lo _ s "lock_bin i n s"] h by simp
    ultimately show ?thesis
      using inv same_outside_places [OF \<open>same_outside n s (lock_bin i n s)\<close>] by (simp add: heap_inv_def h)
  qed (use inv in \<open>simp add: lock_bin_def Let_def\<close>)
qed

text \<open>Putting a chunk whose neighbours are in use into its bin.\<close>

lemma set_bit_facts:
  assumes "0 \<le> (x :: int)" "x < 2 ^ 64" "i < 64"
  shows "x AND push_bit i 1 = 0 \<longleftrightarrow> \<not> bit x i" "bit (x OR push_bit i 1) j \<longleftrightarrow> bit x j \<or> j = i"
    "0 \<le> x OR push_bit i 1" "x OR push_bit i 1 < 2 ^ 64"
proof -
  show "x AND push_bit i 1 = 0 \<longleftrightarrow> \<not> bit x i"
    using bit_eq_iff [of "x AND push_bit i 1" 0] by (auto simp: bit_and_iff bit_exp_iff)
  show "bit (x OR push_bit i 1) j \<longleftrightarrow> bit x j \<or> j = i" by (auto simp: bit_or_iff bit_exp_iff)
  show "0 \<le> x OR push_bit i 1" using assms(1) by simp
  have "(2 :: int) ^ i < 2 ^ 64" using assms(3) by (intro power_strict_increasing) simp_all
  then show "x OR push_bit i 1 < 2 ^ 64" using assms by (intro OR_upper) simp_all
qed

lemma bin_chunk_fields:
  assumes "c \<noteq> BIN_TO_CHUNK s i n"
  shows "ck_next (bin_chunk c nc sz i n s) = (ck_next s)(c := BIN_TO_CHUNK s i n, ck_prev s (BIN_TO_CHUNK s i n) := c)"
    "ck_prev (bin_chunk c nc sz i n s) = (ck_prev s)(c := ck_prev s (BIN_TO_CHUNK s i n), BIN_TO_CHUNK s i n := c)"
    "ck_csize (bin_chunk c nc sz i n s) = (ck_csize s)(c := sz)" "ck_psize (bin_chunk c nc sz i n s) = (ck_psize s)(nc := sz)"
    "binmap (bin_chunk c nc sz i n s) =
      (if binmap s n AND push_bit i 1 = 0 then (binmap s)(n := binmap s n OR push_bit i 1) else binmap s)"
    "mal_at (bin_chunk c nc sz i n s) = mal_at s" "arena_start (bin_chunk c nc sz i n s) = arena_start s"
    "node_arenas (bin_chunk c nc sz i n s) = node_arenas s" "node_sizes (bin_chunk c nc sz i n s) = node_sizes s"
    "heap_end (bin_chunk c nc sz i n s) = heap_end s" "initialized (bin_chunk c nc sz i n s) = initialized s"
    "heap_errno (bin_chunk c nc sz i n s) = heap_errno s" "heap_calls (bin_chunk c nc sz i n s) = heap_calls s"
  using assms by (simp_all add: bin_chunk_def Let_def)

lemma put_free:
  assumes inv: "heap_inv s n (xs @ (sz, True) # ys) B" and c: "c = heap_lo s n + extent xs" and i: "i = bin_index sz"
    and neighbours: "xs = [] \<or> snd (last xs)" "ys = [] \<or> snd (hd ys)" and locked: "ring s (BIN_TO_CHUNK s i n) (B i)"
    and s': "s' = bin_chunk c (c + sz) sz i n s"
  shows "heap_inv s' n (xs @ (sz, False) # ys) (B(i := B i @ [c]))" and "same_outside n s s'"
proof -
  note h = heap_chunk [OF inv c]
  let ?lo = "heap_lo s n" and ?b = "BIN_TO_CHUNK s i n"
  have t: "tiles s ?lo (xs @ (sz, True) # ys) (heap_hi s n)" and sp: "spaced (xs @ (sz, True) # ys)"
    and bins: "bins_ok s n ?lo (xs @ (sz, True) # ys) B" using inv by (simp_all add: heap_inv_def)
  have Bi: "set (B i) = free_chunks ?lo (xs @ (sz, True) # ys) i" "bin_ok s n i (B i)" and bm: "0 \<le> binmap s n" "binmap s n < 2 ^ 64"
    using bins h(15) i by (auto simp: bins_ok_def)
  have b: "0 < ?b" "?b < c" using BIN_place [OF h(11) _ h(10), of i] h(15) i heap_place(1) [OF h(10), of s] h(8) by auto
  have nx: "c \<notin> free_chunks ?lo xs j" for j using free_chunks_range [OF h(13)] by fastforce
  have ny: "c \<notin> free_chunks (c + sz) ys j" for j using free_chunks_range [OF h(14)] h(1) by fastforce
  have nf: "c \<notin> free_chunks ?lo (xs @ (sz, True) # ys) j" for j using nx ny by (simp add: c)
  have cb: "c \<noteq> ?b" using b by simp
  note f = bin_chunk_fields [OF cb, of "c + sz" sz, folded s']
  note sb = set_bit_facts [OF bm, of i]
  have i64: "i < 64" using h(15) i by simp
  have ring': "ring s' ?b (B i @ [c])" using nf [of i] Bi(1) cb by (intro ring_append [OF locked] f) auto
  have prev: "ck_prev s ?b \<in> insert ?b (set (B i))" by (rule ring_prev [OF locked])
  have arena: "?lo = ARENA_START s n + 16" "heap_hi s n = ARENA_START s n + 2 ^ 30 - 16" by (simp_all add: heap_lo_def heap_hi_def)
  have lo: "?lo \<le> x \<and> x + 32 \<le> heap_hi s n" if "x \<in> set (B i)" for x using free_chunks_range [OF t] that Bi(1) by blast
  have inn: "in_node s n x" if "x \<in> insert ?b (set (B i))" for x
    using that lo [of x] i64 arena by (auto simp: in_node_def)
  have "heap_inv s' n (xs @ [(sz, False)] @ ys) (B(i := B i @ [c]))"
  proof (rule heap_inv_change [where mid = "[(sz, True)]" and c = c and e = "c + sz"])
    show "heap_inv s n (xs @ [(sz, True)] @ ys) B" using inv by simp
    show "spaced (xs @ [(sz, False)] @ ys)" using sp neighbours by (auto simp: spaced_append spaced_Cons)
    show "tiles s' c [(sz, False)] (c + sz)" using h(1,2) by (simp add: f tag_def)
    show "bins_ok s' n ?lo (xs @ [(sz, False)] @ ys) (B(i := B i @ [c]))"
    proof (rule bins_ok_update [OF bins t h(11,10) _ i64 h(8) nf])
      show "arena_start s \<le> ?lo" using heap_place(1) [OF h(10), of s] by simp
      show "ck_next s' x = ck_next s x \<and> ck_prev s' x = ck_prev s x" if "x \<notin> insert ?b (insert c (set (B i)))" for x
        using that prev by (auto simp: f)
      show "bit (binmap s' n) j = bit (binmap s n) j" if "j \<noteq> i" for j using that sb [OF i64] by (simp add: f)
      show "0 \<le> binmap s' n" "binmap s' n < 2 ^ 64" using bm sb [OF i64] by (simp_all add: f)
      show "free_chunks ?lo (xs @ [(sz, False)] @ ys) j = free_chunks ?lo (xs @ (sz, True) # ys) j" if "j \<noteq> i" for j
        using that i by simp
      show "set (B i @ [c]) = free_chunks ?lo (xs @ [(sz, False)] @ ys) i" using i Bi(1) by (auto simp: c)
      have "ck_next s' ?b \<noteq> 0"
      proof -
        have "ck_next s' ?b \<in> insert ?b (set (B i @ [c]))" by (rule ring_next [OF ring'])
        moreover have "0 < x" if "x \<in> insert ?b (set (B i @ [c]))" for x
          using that lo [of x] b heap_place(1) [OF h(10), of s] h(11) by (auto simp: places_ok_def)
        ultimately show ?thesis by fastforce
      qed
      moreover have "bit (binmap s' n) i" using sb [OF i64] by (simp add: f)
      moreover have "BIN_TO_CHUNK s' i n = ?b" by (simp add: BIN_at f)
      ultimately show "bin_ok s' n i (B i @ [c])" using ring' by (simp add: bin_ok_def)
    qed (simp_all add: f)
  qed (use h(1) in \<open>auto simp: c f\<close>)
  then show "heap_inv s' n (xs @ (sz, False) # ys) (B(i := B i @ [c]))" by simp
  have "in_node s n c" "in_node s n (c + sz)" using h(1,8,9) arena by (auto simp: in_node_def)
  then show "same_outside n s s'"
    unfolding same_outside_def using inn [OF prev] i64 by (auto simp: f in_node_def)
qed

text \<open>Splitting a free chunk whose rest stays in its bin, in the place of the whole.\<close>

lemma pretrim_fields:
  assumes p: "pretrim c m i j s = (True, s')" and sz: "CHUNK_SIZE s c = n1" "NEXT_CHUNK s c = c + n1" and m: "32 dvd m"
    and diff: "u64 (n1 - m) = n1 - m" and d: "ck_prev s c \<noteq> c + m"
  shows "ck_next s' = (ck_next s)(c + m := ck_next s c, ck_prev s c := c + m)" "ck_prev s' = (ck_prev s)(c + m := ck_prev s c, ck_next s c := c + m)"
    "ck_csize s' = (ck_csize s)(c + m := n1 - m, c := tag m True)" "ck_psize s' = (ck_psize s)(c + m := tag m True, c + n1 := n1 - m)"
    "bin_index (n1 - m) = j" "binmap s' = binmap s"
    "mal_at s' = mal_at s" "arena_start s' = arena_start s" "node_arenas s' = node_arenas s" "node_sizes s' = node_sizes s"
    "heap_end s' = heap_end s" "initialized s' = initialized s" "heap_errno s' = heap_errno s" "heap_calls s' = heap_calls s"
proof -
  have c: "bin_index (n1 - m) = j" and s': "s' = (let nc = NEXT_CHUNK s c; split = c + m;
                s = s\<lparr>ck_prev := (ck_prev s)(split := ck_prev s c)\<rparr>;
                s = s\<lparr>ck_next := (ck_next s)(split := ck_next s c)\<rparr>;
                s = s\<lparr>ck_next := (ck_next s)(ck_prev s split := split)\<rparr>;
                s = s\<lparr>ck_prev := (ck_prev s)(ck_next s split := split)\<rparr>;
                s = s\<lparr>ck_psize := (ck_psize s)(split := m OR (C_INUSE OR C_POPCORN))\<rparr>;
                s = s\<lparr>ck_csize := (ck_csize s)(split := u64 (n1 - m))\<rparr>;
                s = s\<lparr>ck_psize := (ck_psize s)(nc := u64 (n1 - m))\<rparr>;
                s = s\<lparr>ck_csize := (ck_csize s)(c := m OR (C_INUSE OR C_POPCORN))\<rparr> in s)"
    using p sz(1) diff unfolding pretrim_def Let_def by (auto split: if_splits)
  show "bin_index (n1 - m) = j" by (rule c)
  show "ck_next s' = (ck_next s)(c + m := ck_next s c, ck_prev s c := c + m)" "ck_prev s' = (ck_prev s)(c + m := ck_prev s c, ck_next s c := c + m)"
    "ck_csize s' = (ck_csize s)(c + m := n1 - m, c := tag m True)" "ck_psize s' = (ck_psize s)(c + m := tag m True, c + n1 := n1 - m)"
    "binmap s' = binmap s" "mal_at s' = mal_at s" "arena_start s' = arena_start s" "node_arenas s' = node_arenas s" "node_sizes s' = node_sizes s"
    "heap_end s' = heap_end s" "initialized s' = initialized s" "heap_errno s' = heap_errno s" "heap_calls s' = heap_calls s"
    using tag_simps(5) [OF m] d by (simp_all add: s' Let_def sz(2) diff)
qed

lemma take_front:
  assumes inv: "heap_inv s n (xs @ (n1, False) # ys) B" and c: "c = heap_lo s n + extent xs" and j: "j = bin_index n1"
    and m: "32 \<le> m" "m < n1" "32 dvd m" and p: "pretrim c m i j s = (True, s')"
  shows "\<exists>B'. heap_inv s' n (xs @ (m, True) # (n1 - m, False) # ys) B'" and "same_outside n s s'"
proof -
  note h = heap_chunk [OF inv c]
  let ?lo = "heap_lo s n" and ?b = "BIN_TO_CHUNK s j n" and ?d = "c + m"
  have t: "tiles s ?lo (xs @ (n1, False) # ys) (heap_hi s n)" and sp: "spaced (xs @ (n1, False) # ys)"
    and bins: "bins_ok s n ?lo (xs @ (n1, False) # ys) B" using inv by (simp_all add: heap_inv_def)
  have Bj: "set (B j) = free_chunks ?lo (xs @ (n1, False) # ys) j" "bin_ok s n j (B j)" and bm: "0 \<le> binmap s n" "binmap s n < 2 ^ 64"
    using bins h(15) j by (auto simp: bins_ok_def)
  have j64: "j < 64" using h(15) j by simp
  have "c \<in> set (B j)" using Bj(1) j by (simp add: c)
  then obtain us vs where B: "B j = us @ c # vs" by (meson split_list)
  then have nz: "ck_next s ?b \<noteq> 0" and r: "ring s ?b (us @ c # vs)" using Bj(2) by (auto simp: bin_ok_def split: if_splits)
  have dis: "distinct (?b # us @ c # vs)" using r by (simp add: ring_def)
  have "?d \<notin> free_chunks ?lo xs k" for k using free_chunks_range [OF h(13), of ?d k] m(1) by linarith
  moreover have "?d \<notin> free_chunks (c + n1) ys k" for k using free_chunks_range [OF h(14), of ?d k] m(2) by linarith
  ultimately have nf: "?d \<notin> free_chunks ?lo (xs @ (n1, False) # ys) k" for k using m(1) by (simp add: c)
  have b: "0 < ?b" "?b < c" using BIN_place [OF h(11) j64 h(10)] heap_place(1) [OF h(10), of s] h(8) by auto
  have dB: "?d \<notin> insert ?b (set (us @ c # vs))" using nf [of j] Bj(1) B b m by auto
  note nb = ring_neighbours [OF r]
  have nin: "ck_prev s c \<in> insert ?b (set (B j))" "ck_next s c \<in> insert ?b (set (B j))"
    unfolding nb B by (cases us rule: rev_cases; simp) (cases vs; simp)
  have "ck_prev s c \<noteq> ?d" using nin(1) dB by (auto simp: B)
  moreover have "u64 (n1 - m) = n1 - m" using m h(3) by simp
  ultimately have f: "ck_next s' = (ck_next s)(?d := ck_next s c, ck_prev s c := ?d)" "ck_prev s' = (ck_prev s)(?d := ck_prev s c, ck_next s c := ?d)"
    "ck_csize s' = (ck_csize s)(?d := n1 - m, c := tag m True)" "ck_psize s' = (ck_psize s)(?d := tag m True, c + n1 := n1 - m)"
    "bin_index (n1 - m) = j" "binmap s' = binmap s" "mal_at s' = mal_at s" "arena_start s' = arena_start s"
    "node_arenas s' = node_arenas s" "node_sizes s' = node_sizes s" "heap_end s' = heap_end s" "initialized s' = initialized s"
    "heap_errno s' = heap_errno s" "heap_calls s' = heap_calls s"
    using pretrim_fields [OF p h(6,7) m(3)] by simp_all
  have ring': "ring s' ?b (us @ ?d # vs)" using dB by (intro ring_replace [OF r _ f(1,2)]) simp
  have lo: "?lo \<le> x \<and> x + 32 \<le> heap_hi s n" if "x \<in> set (B j)" for x using free_chunks_range [OF t] that Bj(1) by blast
  have arena: "?lo = ARENA_START s n + 16" "heap_hi s n = ARENA_START s n + 2 ^ 30 - 16" by (simp_all add: heap_lo_def heap_hi_def)
  have inn: "in_node s n x" if "x \<in> insert ?b (set (B j))" for x using that lo [of x] j64 arena by (auto simp: in_node_def)
  have "32 dvd n1 - m" using h(2) m(3) by (rule dvd_diff)
  moreover have "32 \<le> n1 - m" using calculation m(2) by (intro zdvd_imp_le) auto
  ultimately have rest: "32 dvd n1 - m" "32 \<le> n1 - m" by simp_all
  have "heap_inv s' n (xs @ [(m, True), (n1 - m, False)] @ ys) (B(j := us @ ?d # vs))"
  proof (rule heap_inv_change [where mid = "[(n1, False)]" and c = c and e = "c + n1"])
    show "heap_inv s n (xs @ [(n1, False)] @ ys) B" using inv by simp
    show "spaced (xs @ [(m, True), (n1 - m, False)] @ ys)" using sp by (auto simp: spaced_append spaced_Cons)
    show "tiles s' c [(m, True), (n1 - m, False)] (c + n1)" using m rest by (simp add: f tag_def)
    show "bins_ok s' n ?lo (xs @ [(m, True), (n1 - m, False)] @ ys) (B(j := us @ ?d # vs))"
    proof (rule bins_ok_update [OF bins t h(11,10) _ j64 _ nf])
      show "arena_start s \<le> ?lo" using heap_place(1) [OF h(10), of s] by simp
      show "?lo \<le> ?d" using h(8) m(1) by simp
      show "ck_next s' x = ck_next s x \<and> ck_prev s' x = ck_prev s x" if "x \<notin> insert ?b (insert ?d (set (B j)))" for x
        using that nin by (auto simp: f)
      show "free_chunks ?lo (xs @ [(m, True), (n1 - m, False)] @ ys) k = free_chunks ?lo (xs @ (n1, False) # ys) k" if "k \<noteq> j" for k
        using that j f(5) by (simp add: add.assoc)
      have "set (us @ ?d # vs) = insert ?d (set (B j) - {c})" using dis by (auto simp: B)
      moreover have "c \<notin> free_chunks ?lo xs j" using free_chunks_range [OF h(13)] by fastforce
      moreover have "c \<notin> free_chunks (c + n1) ys j" using free_chunks_range [OF h(14)] h(1) by fastforce
      ultimately show "set (us @ ?d # vs) = free_chunks ?lo (xs @ [(m, True), (n1 - m, False)] @ ys) j"
        using j f(5) Bj(1) by (auto simp: c add.assoc)
      have "ck_next s' ?b \<noteq> 0"
      proof -
        have "ck_next s' ?b \<in> insert ?b (set (us @ ?d # vs))" by (rule ring_next [OF ring'])
        then consider "ck_next s' ?b = ?b" | "ck_next s' ?b = ?d" | "ck_next s' ?b \<in> set (B j)" by (auto simp: B)
        then have "0 < ck_next s' ?b"
        proof cases
          case 3
          have "0 < ?lo" using heap_place(1) [OF h(10), of s] h(11) by (simp add: places_ok_def)
          then show ?thesis using lo [OF 3] by simp
        qed (use b m in simp_all)
        then show ?thesis by simp
      qed
      moreover have "BIN_TO_CHUNK s' j n = ?b" by (simp add: BIN_at f)
      ultimately show "bin_ok s' n j (us @ ?d # vs)" using ring' Bj(2) B by (simp add: bin_ok_def f)
    qed (use bm in \<open>simp_all add: f\<close>)
  qed (use m in \<open>auto simp: c f\<close>)
  then show "\<exists>B'. heap_inv s' n (xs @ (m, True) # (n1 - m, False) # ys) B'" by auto
  have "in_node s n c" "in_node s n ?d" "in_node s n (c + n1)" using h(1,8,9) m arena by (auto simp: in_node_def)
  then show "same_outside n s s'"
    unfolding same_outside_def using inn [OF nin(1)] inn [OF nin(2)] by (auto simp: f)
qed

end
