(* ===== verification/Node_Heap_Correct.thy ===== *)
theory Node_Heap_Correct
  imports Node_Heap_Steps
begin

text \<open>
  Correctness of the heaps of the nodes: what \<open>popcorn_malloc\<close> returns is memory of the arena of the node, large
  enough, aligned, and apart from all other chunks in use; \<open>popcorn_free\<close> takes exactly its chunk out of use
  and merges it with its neighbours; and neither touches another node's heap.
\<close>

declare free_loop.simps [simp del]

section \<open>Neighbours\<close>

definition prev_tag :: "cells \<Rightarrow> int" where
  "prev_tag xs = (if xs = [] then 3 else tag (fst (last xs)) (snd (last xs)))"

definition next_tag :: "cells \<Rightarrow> int" where
  "next_tag ys = (if ys = [] then 3 else tag (fst (hd ys)) (snd (hd ys)))"

lemma heap_prev_tag:
  assumes "heap_inv s n (xs @ ys) B"
  shows "ck_psize s (heap_lo s n + extent xs) = prev_tag xs"
proof (cases xs rule: rev_cases)
  case Nil
  then show ?thesis using assms by (simp add: heap_inv_def prev_tag_def)
next
  case (snoc zs x)
  obtain sz u where x: "x = (sz, u)" by (cases x)
  then have "heap_inv s n (zs @ (sz, u) # ys) B" using assms snoc by simp
  from heap_chunk(5) [OF this refl] show ?thesis by (simp add: prev_tag_def snoc x add.assoc)
qed

lemma heap_next_tag:
  assumes "heap_inv s n (xs @ ys) B"
  shows "ck_csize s (heap_lo s n + extent xs) = next_tag ys"
proof (cases ys)
  case Nil
  then have "heap_lo s n + extent xs = heap_hi s n"
    using assms tiles_end [of s "heap_lo s n" xs "heap_hi s n"] by (simp add: heap_inv_def)
  then show ?thesis using assms Nil by (simp add: heap_inv_def next_tag_def)
next
  case (Cons y zs)
  obtain sz u where y: "y = (sz, u)" by (cases y)
  then have "heap_inv s n (xs @ (sz, u) # zs) B" using assms Cons by simp
  from heap_chunk(4) [OF this refl] show ?thesis by (simp add: next_tag_def Cons y)
qed

lemma cell_size:
  assumes "heap_inv s n cells B" "x \<in> set cells"
  shows "32 \<le> fst x" "32 dvd fst x" "fst x < 2 ^ 30"
proof -
  obtain xs ys where c: "cells = xs @ x # ys" using assms(2) by (meson split_list)
  obtain sz u where x: "x = (sz, u)" by (cases x)
  have "heap_inv s n (xs @ (sz, u) # ys) B" using assms(1) c x by simp
  from heap_chunk(1,2,3) [OF this refl] show "32 \<le> fst x" "32 dvd fst x" "fst x < 2 ^ 30" by (simp_all add: x)
qed

lemma odd_prev_tag:
  assumes "heap_inv s n (xs @ ys) B"
  shows "odd (prev_tag xs) \<longleftrightarrow> xs = [] \<or> snd (last xs)" "odd (next_tag ys) \<longleftrightarrow> ys = [] \<or> snd (hd ys)"
proof -
  have "even (fst (last xs))" if "xs \<noteq> []" using cell_size(2) [OF assms, of "last xs"] that by (auto elim: dvd_trans [rotated])
  then show "odd (prev_tag xs) \<longleftrightarrow> xs = [] \<or> snd (last xs)" by (simp add: prev_tag_def tag_def)
  have "even (fst (hd ys))" if "ys \<noteq> []" using cell_size(2) [OF assms, of "hd ys"] that by (auto elim: dvd_trans [rotated])
  then show "odd (next_tag ys) \<longleftrightarrow> ys = [] \<or> snd (hd ys)" by (simp add: next_tag_def tag_def)
qed

lemma alloc_rev_used:
  assumes "heap_inv s n (xs @ ys) B" "c = heap_lo s n + extent xs" "xs = [] \<or> snd (last xs)"
  shows "alloc_rev c n s = (False, s)"
  using odd_prev_tag(1) [OF assms(1)] assms(3) by (simp add: alloc_rev_def Let_def heap_prev_tag [OF assms(1)] assms(2) and_one_eq odd_iff_mod_2_eq_one)

lemma alloc_fwd_used:
  assumes "heap_inv s n (xs @ ys) B" "c = heap_lo s n + extent xs" "ys = [] \<or> snd (hd ys)"
  shows "alloc_fwd c n s = (False, s)"
  using odd_prev_tag(2) [OF assms(1)] assms(3) by (simp add: alloc_fwd_def Let_def heap_next_tag [OF assms(1)] assms(2) and_one_eq odd_iff_mod_2_eq_one)

lemma alloc_rev_free:
  assumes inv: "heap_inv s n (xs @ (sz, False) # ys) B" and c: "c = heap_lo s n + extent xs + sz"
  obtains s' B' where "alloc_rev c n s = (True, s')" "heap_inv s' n (xs @ (sz, True) # ys) B'" "same_outside n s s'"
    "PREV_CHUNK s' c = c - sz" "CHUNK_SIZE s' (c - sz) = sz" "heap_calls s' = heap_calls s"
proof -
  note h = heap_chunk [OF inv refl]
  let ?i = "bin_index sz" and ?c = "heap_lo s n + extent xs"
  have k: "ck_psize s c = sz" using h(5) by (simp add: c tag_def)
  define s' where "s' = unbin ?c ?i n (lock_bin ?i n s)"
  have lk: "ck_psize (lock_bin ?i n s) = ck_psize s" by (simp add: lock_bin_def Let_def)
  have "PREV_CHUNK (lock_bin ?i n s) c = ?c"
    using tag_simps(1) [OF h(2), of False] k by (simp add: PREV_CHUNK_def CHUNK_PSIZE_def lk c tag_def)
  moreover have "sz AND 1 = 0" using tag_simps(2) [OF h(2), of False] by (simp add: tag_def)
  ultimately have r: "alloc_rev c n s = (True, s')" by (simp add: alloc_rev_def Let_def k s'_def)
  note t = take_free [OF inv refl refl s'_def]
  note h' = heap_chunk [OF t(1) refl]
  have lo: "heap_lo s' n = heap_lo s n" by (rule same_outside_places(4) [OF t(2)])
  have "PREV_CHUNK s' c = c - sz"
    using h'(5) tag_simps(1) [OF h(2), of True] by (simp add: PREV_CHUNK_def CHUNK_PSIZE_def c lo)
  moreover have "CHUNK_SIZE s' (c - sz) = sz" using h'(6) by (simp add: c lo)
  moreover have "heap_calls s' = heap_calls s" by (simp add: s'_def unbin_def lock_bin_def Let_def)
  ultimately show ?thesis using that r t by blast
qed

lemma alloc_fwd_free:
  assumes inv: "heap_inv s n (xs @ (sz, False) # ys) B" and c: "c = heap_lo s n + extent xs"
  obtains s' B' where "alloc_fwd c n s = (True, s')" "heap_inv s' n (xs @ (sz, True) # ys) B'" "same_outside n s s'"
    "CHUNK_SIZE s' c = sz" "NEXT_CHUNK s' c = c + sz" "heap_calls s' = heap_calls s"
proof -
  note h = heap_chunk [OF inv c]
  let ?i = "bin_index sz"
  have k: "ck_csize s c = sz" using h(4) by (simp add: tag_def)
  define s' where "s' = unbin c ?i n (lock_bin ?i n s)"
  have "sz AND 1 = 0" using tag_simps(2) [OF h(2), of False] by (simp add: tag_def)
  then have r: "alloc_fwd c n s = (True, s')" by (simp add: alloc_fwd_def Let_def k s'_def)
  note t = take_free [OF inv c refl s'_def]
  have lo: "heap_lo s' n = heap_lo s n" by (rule same_outside_places(4) [OF t(2)])
  note h' = heap_chunk [OF t(1), of c]
  have "heap_calls s' = heap_calls s" by (simp add: s'_def unbin_def lock_bin_def Let_def)
  then show ?thesis using that [OF r t] h'(6,7) c lo by simp
qed

section \<open>Freeing\<close>

lemma used_extent:
  assumes "\<forall>x \<in> set cs. 32 \<le> fst x \<and> 32 dvd fst x" "cs \<noteq> []"
  shows "32 \<le> extent cs" "32 dvd extent cs"
proof -
  show "32 dvd extent cs" using assms(1)
  proof (induction cs)
    case (Cons x cs)
    then show ?case by (cases x) auto
  qed simp
  obtain x ys where cs: "cs = x # ys" using assms(2) by (cases cs) auto
  have "0 \<le> sum_list (map fst ys)"
    by (rule sum_list_nonneg) (use assms(1) cs in fastforce)
  then show "32 \<le> extent cs" using assms(1) cs by (simp add: extent_def)
qed

text \<open>The last round: the chunks in the middle, all in use, become one.\<close>

lemma free_loop_last:
  assumes inv: "heap_inv s n (xs @ mid @ ys) B" and mid: "\<forall>x \<in> set mid. snd x" "mid \<noteq> []"
    and c: "c = heap_lo s n + extent xs" "e = c + extent mid"
    and neighbours: "xs = [] \<or> snd (last xs)" "ys = [] \<or> snd (hd ys)"
  obtains s' where "free_loop (Suc k) n c e (extent mid) new reclaim s = Inr (c, e, extent mid, reclaim, bin_index (extent mid), s')"
    "heap_inv s' n (xs @ (extent mid, True) # ys) B" "same_outside n s s'" "ring s' (BIN_TO_CHUNK s' (bin_index (extent mid)) n) (B (bin_index (extent mid)))"
    "heap_calls s' = heap_calls s" "bin_index (extent mid) < 64"
proof -
  let ?t = "extent mid" and ?i = "bin_index (extent mid)"
  have cells: "\<forall>x \<in> set mid. 32 \<le> fst x \<and> 32 dvd fst x" using cell_size [OF inv] by auto
  note t = used_extent [OF cells mid(2)]
  have p: "ck_psize s c = prev_tag xs" using heap_prev_tag [of s n xs "mid @ ys" B] inv by (simp add: c(1))
  have q: "ck_csize s e = next_tag ys" using heap_next_tag [of s n "xs @ mid" ys B] inv by (simp add: c add.assoc)
  have o: "odd (prev_tag xs)" "odd (next_tag ys)"
    using odd_prev_tag(1) [of s n xs "mid @ ys" B] odd_prev_tag(2) [of s n "xs @ mid" ys B] inv neighbours by simp_all
  have used: "ck_psize s c AND ck_csize s e AND C_INUSE \<noteq> 0"
  proof -
    have "prev_tag xs AND 1 = 1" "next_tag ys AND 1 = 1" using o by (simp_all add: and_one_eq odd_iff_mod_2_eq_one)
    then show ?thesis by (simp add: p q)
  qed
  define s1 where "s1 = s\<lparr>ck_csize := (ck_csize s)(c := tag ?t True), ck_psize := (ck_psize s)(e := tag ?t True)\<rparr>"
  have or3: "?t OR 3 = tag ?t True" by (rule tag_simps(5) [OF t(2)])
  define s' where "s' = lock_bin ?i n s1"
  have r: "free_loop (Suc k) n c e ?t new reclaim s = Inr (c, e, ?t, reclaim, ?i, s')"
    using used by (simp add: free_loop.simps or3 s1_def s'_def Let_def)
  have tl: "tiles s1 c [(?t, True)] e" using t c(2) by (simp add: s1_def)
  have ci: "ck_csize s1 a = ck_csize s a" if "a < c \<or> e \<le> a" for a using that t c(2) by (auto simp: s1_def)
  have pi: "ck_psize s1 a = ck_psize s a" if "a \<le> c \<or> e < a" for a using that t c(2) by (auto simp: s1_def)
  note re = retile [OF inv c mid(2,1) _ _ s1_def _ _ tl]
  have re': "heap_inv s1 n (xs @ [(?t, True)] @ ys) B" "same_outside n s s1"
    using re ci pi by (simp_all add: s1_def)
  then have inv1: "heap_inv s1 n (xs @ (?t, True) # ys) B" by simp
  note h = heap_chunk [OF inv1 refl]
  note lk = lock_bin_ok [OF inv1 h(15), folded s'_def]
  have b: "BIN_TO_CHUNK s' ?i n = BIN_TO_CHUNK s1 ?i n" by (rule same_outside_places(2) [OF lk(2)])
  have "heap_calls s' = heap_calls s" by (simp add: s'_def s1_def lock_bin_def Let_def)
  then show ?thesis using that [OF r lk(1) same_outside_trans [OF re'(2) lk(2)]] lk(3) b h(15) by simp
qed

text \<open>The chunks in use, by address and size.\<close>

definition used_chunks :: "int \<Rightarrow> cells \<Rightarrow> (int \<times> int) set" where
  "used_chunks a cs = {(c, sz). (c, sz, True) \<in> set (chunks a cs)}"

lemma used_chunks_simps [simp]:
  "used_chunks a [] = {}"
  "used_chunks a ((sz, u) # cs) = (if u then insert (a, sz) (used_chunks (a + sz) cs) else used_chunks (a + sz) cs)"
  "used_chunks a (xs @ ys) = used_chunks a xs \<union> used_chunks (a + extent xs) ys"
  by (auto simp: used_chunks_def chunks_append)

lemma used_chunks_range: "tiles s a cs e \<Longrightarrow> (c, sz) \<in> used_chunks a cs \<Longrightarrow> a \<le> c \<and> c + sz \<le> e \<and> 32 \<le> sz"
  using chunks_range by (fastforce simp: used_chunks_def)

text \<open>The first round: the neighbours that are free are taken off their bins.\<close>

lemma rev_stage:
  assumes inv: "heap_inv s n (xs @ rest) B" and c: "c = heap_lo s n + extent xs"
  obtains pf s1 xs0 pre B1 where "alloc_rev c n s = (pf, s1)" "heap_inv s1 n (xs0 @ pre @ rest) B1" "same_outside n s s1"
    "heap_calls s1 = heap_calls s" "pf \<longleftrightarrow> pre \<noteq> []" "pf \<Longrightarrow> PREV_CHUNK s1 c = c - extent pre \<and> CHUNK_SIZE s1 (c - extent pre) = extent pre"
    "\<forall>x \<in> set pre. snd x" "xs0 = [] \<or> snd (last xs0)" "extent xs = extent xs0 + extent pre" "used_chunks a xs = used_chunks a xs0"
    "0 \<le> extent pre" "extent pre < 2 ^ 30"
proof (cases "xs = [] \<or> snd (last xs)")
  case True
  show ?thesis using that [OF alloc_rev_used [OF inv c True], of xs "[]" B] inv True by simp
next
  case False
  then obtain zs p where xs: "xs = zs @ [(p, False)]" by (cases xs rule: rev_cases) auto
  have inv': "heap_inv s n (zs @ (p, False) # rest) B" using inv xs by simp
  have c': "c = heap_lo s n + extent zs + p" by (simp add: c xs)
  obtain s' B' where r: "alloc_rev c n s = (True, s')" "heap_inv s' n (zs @ (p, True) # rest) B'" "same_outside n s s'"
    "PREV_CHUNK s' c = c - p" "CHUNK_SIZE s' (c - p) = p" "heap_calls s' = heap_calls s" by (rule alloc_rev_free [OF inv' c'])
  have "spaced (zs @ (p, False) # rest)" using inv' by (simp add: heap_inv_def)
  then have "zs = [] \<or> snd (last zs)" by (auto simp: spaced_append)
  then show ?thesis using that [OF r(1), of zs "[(p, True)]" B'] r heap_chunk(1,3) [OF inv' refl] by (simp add: xs)
qed

lemma fwd_stage:
  assumes inv: "heap_inv s n (xs @ ys) B" and c: "c = heap_lo s n + extent xs"
  obtains nf s1 post ys0 B1 where "alloc_fwd c n s = (nf, s1)" "heap_inv s1 n (xs @ post @ ys0) B1" "same_outside n s s1"
    "heap_calls s1 = heap_calls s" "nf \<longleftrightarrow> post \<noteq> []" "nf \<Longrightarrow> NEXT_CHUNK s1 c = c + extent post \<and> CHUNK_SIZE s1 c = extent post"
    "\<forall>x \<in> set post. snd x" "ys0 = [] \<or> snd (hd ys0)" "extent ys = extent post + extent ys0"
    "\<And>a. used_chunks a ys = used_chunks (a + extent post) ys0" "0 \<le> extent post" "extent post < 2 ^ 30"
proof (cases "ys = [] \<or> snd (hd ys)")
  case True
  show ?thesis using that [OF alloc_fwd_used [OF inv c True], of "[]" ys B] inv True by simp
next
  case False
  then obtain zs q where ys: "ys = (q, False) # zs" by (cases ys) auto
  have inv': "heap_inv s n (xs @ (q, False) # zs) B" using inv ys by simp
  obtain s' B' where r: "alloc_fwd c n s = (True, s')" "heap_inv s' n (xs @ (q, True) # zs) B'" "same_outside n s s'"
    "CHUNK_SIZE s' c = q" "NEXT_CHUNK s' c = c + q" "heap_calls s' = heap_calls s" by (rule alloc_fwd_free [OF inv' c])
  have "spaced (xs @ (q, False) # zs)" using inv' by (simp add: heap_inv_def)
  then have "zs = [] \<or> snd (hd zs)" by (cases zs) (auto simp: spaced_append)
  then show ?thesis using that [OF r(1), of "[(q, True)]" zs B'] r heap_chunk(1,3) [OF inv' c] by (simp add: ys)
qed

lemma free_loop_round:
  assumes "ck_psize s self AND ck_csize s nc AND 1 = 0" "alloc_rev self n s = (pf, s1)" "alloc_fwd nc n s1 = (nf, s2)"
    and "pf \<Longrightarrow> PREV_CHUNK s1 self = self - p \<and> CHUNK_SIZE s1 (self - p) = p" "\<not> pf \<Longrightarrow> p = 0"
    and "nf \<Longrightarrow> NEXT_CHUNK s2 nc = nc + q \<and> CHUNK_SIZE s2 nc = q" "\<not> nf \<Longrightarrow> q = 0"
    and "0 \<le> sz" "0 \<le> p" "0 \<le> q" "sz < 2 ^ 30" "p < 2 ^ 30" "q < 2 ^ 30"
  shows "free_loop (Suc k) n self nc sz sz False s =
    free_loop k n (self - p) (nc + q) (sz + p + q) sz (pf \<and> reclaims sz p \<or> nf \<and> reclaims sz q) s2"
  using assms by (cases pf; cases nf) (simp_all add: free_loop.simps Let_def)

lemma reclaims_size: "reclaims sz p \<Longrightarrow> 0 \<le> sz \<Longrightarrow> 0 \<le> p \<Longrightarrow> sz < 2 ^ 30 \<Longrightarrow> p < 2 ^ 30 \<Longrightarrow> 163840 < sz + p"
  by (simp add: reclaims_def)

lemma and_and_1: "(a :: int) AND b AND 1 = 0 \<longleftrightarrow> a AND 1 = 0 \<or> b AND 1 = 0"
  by (cases "even b") (simp_all add: and_one_eq even_iff_mod_2_eq_zero odd_iff_mod_2_eq_one)

lemma alloc_flags:
  "alloc_rev c n s = (pf, s1) \<Longrightarrow> pf \<longleftrightarrow> ck_psize s c AND 1 = 0" "alloc_rev c n s = (False, s1) \<Longrightarrow> s1 = s"
  "alloc_fwd c n s = (nf, s1) \<Longrightarrow> nf \<longleftrightarrow> ck_csize s c AND 1 = 0" "alloc_fwd c n s = (False, s1) \<Longrightarrow> s1 = s"
  by (auto simp: alloc_rev_def alloc_fwd_def Let_def split: if_splits)

lemma free_loop_frees:
  assumes inv: "heap_inv s n (xs @ (sz, True) # ys) B" and c: "c = heap_lo s n + extent xs"
  obtains s' xs' ys' t B' fc reclaim where
    "free_loop 3 n c (c + sz) sz sz False s = Inr (fc, fc + t, t, reclaim, bin_index t, s')"
    "heap_inv s' n (xs' @ (t, True) # ys') B'" "fc = heap_lo s n + extent xs'" "xs' = [] \<or> snd (last xs')" "ys' = [] \<or> snd (hd ys')"
    "same_outside n s s'" "ring s' (BIN_TO_CHUNK s' (bin_index t) n) (B' (bin_index t))" "heap_calls s' = heap_calls s"
    "reclaim \<longrightarrow> 163840 < t" "used_chunks (heap_lo s n) xs' \<union> used_chunks (fc + t) ys' = used_chunks (heap_lo s n) xs \<union> used_chunks (c + sz) ys"
    "bin_index t < 64"
proof -
  let ?lo = "heap_lo s n"
  note h = heap_chunk [OF inv c]
  obtain pf s1 xs0 pre B1 where rev: "alloc_rev c n s = (pf, s1)" "heap_inv s1 n (xs0 @ pre @ (sz, True) # ys) B1" "same_outside n s s1"
    "heap_calls s1 = heap_calls s" "pf \<longleftrightarrow> pre \<noteq> []" "pf \<Longrightarrow> PREV_CHUNK s1 c = c - extent pre \<and> CHUNK_SIZE s1 (c - extent pre) = extent pre"
    "\<forall>x \<in> set pre. snd x" "xs0 = [] \<or> snd (last xs0)" "extent xs = extent xs0 + extent pre" "used_chunks ?lo xs = used_chunks ?lo xs0"
    "0 \<le> extent pre" "extent pre < 2 ^ 30"
    by (rule rev_stage [OF inv c, of ?lo]) blast
  have lo1: "heap_lo s1 n = ?lo" by (rule same_outside_places(4) [OF rev(3)])
  have inv1: "heap_inv s1 n ((xs0 @ pre @ [(sz, True)]) @ ys) B1" using rev(2) by simp
  have c1: "c + sz = heap_lo s1 n + extent (xs0 @ pre @ [(sz, True)])" using rev(9) by (simp add: lo1 c)
  obtain nf s2 post ys0 B2 where fwd: "alloc_fwd (c + sz) n s1 = (nf, s2)" "heap_inv s2 n ((xs0 @ pre @ [(sz, True)]) @ post @ ys0) B2"
    "same_outside n s1 s2" "heap_calls s2 = heap_calls s1" "nf \<longleftrightarrow> post \<noteq> []"
    "nf \<Longrightarrow> NEXT_CHUNK s2 (c + sz) = c + sz + extent post \<and> CHUNK_SIZE s2 (c + sz) = extent post"
    "\<forall>x \<in> set post. snd x" "ys0 = [] \<or> snd (hd ys0)" "extent ys = extent post + extent ys0"
    "\<And>a. used_chunks a ys = used_chunks (a + extent post) ys0" "0 \<le> extent post" "extent post < 2 ^ 30"
    by (rule fwd_stage [OF inv1 c1]) blast
  define mid where "mid = pre @ (sz, True) # post"
  have mid: "\<forall>x \<in> set mid. snd x" "mid \<noteq> []" "extent mid = sz + extent pre + extent post"
    using rev(7) fwd(7) by (auto simp: mid_def)
  have inv2: "heap_inv s2 n (xs0 @ mid @ ys0) B2" using fwd(2) by (simp add: mid_def)
  have so: "same_outside n s s2" by (rule same_outside_trans [OF rev(3) fwd(3)])
  have lo2: "heap_lo s2 n = ?lo" by (rule same_outside_places(4) [OF so])
  let ?fc = "c - extent pre" and ?e = "c + sz + extent post"
  have fc: "?fc = heap_lo s2 n + extent xs0" "?e = ?fc + extent mid" using rev(9) mid(3) by (simp_all add: lo2 c)
  have used: "used_chunks ?lo xs0 \<union> used_chunks (?fc + extent mid) ys0 = used_chunks ?lo xs \<union> used_chunks (c + sz) ys"
    using rev(10) fwd(10) [of "c + sz"] by (simp add: fc(2) [symmetric])
  have csz: "ck_csize s1 (c + sz) = ck_csize s (c + sz)"
    using heap_next_tag [OF inv1] heap_next_tag [of s n "xs @ [(sz, True)]" ys B] inv c1 rev(9) by (simp add: c add.assoc lo1)
  define reclaim where "reclaim = (pf \<and> reclaims sz (extent pre) \<or> nf \<and> reclaims sz (extent post))"
  have rec: "reclaim \<longrightarrow> 163840 < extent mid"
    using reclaims_size [of sz "extent pre"] reclaims_size [of sz "extent post"] h(1,3) rev(11,12) fwd(11,12) mid(3)
    by (auto simp: reclaim_def)
  obtain k where k: "free_loop 3 n c (c + sz) sz sz False s = free_loop (Suc k) n ?fc ?e (extent mid) sz reclaim s2"
  proof (cases "pf \<or> nf")
    case True
    have "ck_psize s c AND ck_csize s (c + sz) AND 1 = 0"
      using True alloc_flags(1) [OF rev(1)] alloc_flags(3) [OF fwd(1)] csz by (auto simp: and_and_1)
    from free_loop_round [OF this rev(1) fwd(1) rev(6) _ fwd(6), of sz 2] h(1,3) rev(5,11,12) fwd(5,11,12) mid(3)
    have "free_loop 3 n c (c + sz) sz sz False s = free_loop 2 n ?fc ?e (extent mid) sz reclaim s2"
      by (simp add: numeral_3_eq_3 numeral_2_eq_2 reclaim_def add.assoc)
    then show ?thesis using that [of 1] by (simp add: numeral_2_eq_2)
  next
    case False
    then have "s1 = s" "s2 = s1" using alloc_flags(2,4) rev(1) fwd(1) by auto
    moreover have "pre = []" "post = []" using False rev(5) fwd(5) by simp_all
    ultimately show ?thesis using that [of 2] False mid(3) by (simp add: reclaim_def numeral_3_eq_3 numeral_2_eq_2)
  qed
  obtain s' where last: "free_loop (Suc k) n ?fc ?e (extent mid) sz reclaim s2 = Inr (?fc, ?e, extent mid, reclaim, bin_index (extent mid), s')"
    "heap_inv s' n (xs0 @ (extent mid, True) # ys0) B2" "same_outside n s2 s'"
    "ring s' (BIN_TO_CHUNK s' (bin_index (extent mid)) n) (B2 (bin_index (extent mid)))"
    "heap_calls s' = heap_calls s2" "bin_index (extent mid) < 64"
    by (rule free_loop_last [OF inv2 mid(1,2) fc rev(8) fwd(8)]) blast
  show ?thesis
    using that [of ?fc "extent mid" reclaim s' xs0 ys0 B2] last k fc rec used rev(4,8) fwd(4,8) same_outside_trans [OF so last(3)]
    by (simp add: lo2)
qed

text \<open>The arena of an address.\<close>

lemma get_arena_in:
  assumes "places_ok s" "n < 32" "ARENA_START s n \<le> a" "a < ARENA_START s n + 2 ^ 30"
  shows "popcorn_get_arena os a s = (int n, s)"
proof -
  have "arena_start s \<noteq> 0" using assms(1) by (auto simp: places_ok_def)
  then have st: "set_arena_start os s = s" by (simp add: set_arena_start_def)
  define off where "off = a - ARENA_START s n"
  have off: "0 \<le> off" "off < 2 ^ 30" using assms(3,4) by (simp_all add: off_def)
  have d: "a - arena_start s = int n * 2 ^ 30 + off" by (simp add: off_def ARENA_START_def)
  have "0 \<le> a - arena_start s" "a - arena_start s < 2 ^ 64" using off assms(2) by (simp_all add: d)
  then have "u64 (a - arena_start s) div 2 ^ 30 = int n" using off by (simp add: d)
  moreover have "wrapc I32 (int n) = int n"
    using assms(2) by (intro wrapc_id) (simp add: fits_def ctype_min_def ctype_max_def)
  ultimately show ?thesis using assms(2) by (simp add: popcorn_get_arena_def st Let_def)
qed

definition advises_inside :: "int \<Rightarrow> cells \<Rightarrow> heap_call \<Rightarrow> bool" where
  "advises_inside lo cells call \<longleftrightarrow> (\<exists>f t a len. call = Madvise a len \<and> (f, t, False) \<in> set (chunks lo cells) \<and>
     f + 32 \<le> a \<and> 0 \<le> len \<and> a + len + 32 \<le> f + t)"

lemma same_outside_calls: "same_outside n s s' \<Longrightarrow> same_outside n s (heap_call c s')"
  and heap_inv_calls: "heap_inv (heap_call c s') n cells B = heap_inv s' n cells B"
proof -
  assume "same_outside n s s'"
  then show "same_outside n s (heap_call c s')" by (simp add: same_outside_def heap_call_def)
next
  have r: "ring (heap_call c s') b xs = ring s' b xs" for b xs by (intro ring_cong) (simp add: heap_call_def)
  have t: "tiles (heap_call c s') a cs e = tiles s' a cs e" for a cs e by (intro tiles_cong) (simp_all add: heap_call_def)
  have p: "BIN_TO_CHUNK (heap_call c s') i n = BIN_TO_CHUNK s' i n" "places_ok (heap_call c s') = places_ok s'"
    "heap_lo (heap_call c s') n = heap_lo s' n" "heap_hi (heap_call c s') n = heap_hi s' n" for i
    by (simp_all add: heap_call_def BIN_at places_ok_def heap_lo_def heap_hi_def ARENA_START_def)
  have f: "ck_next (heap_call c s') = ck_next s'" "ck_psize (heap_call c s') = ck_psize s'" "ck_csize (heap_call c s') = ck_csize s'"
    "binmap (heap_call c s') = binmap s'" by (simp_all add: heap_call_def)
  show "heap_inv (heap_call c s') n cells B = heap_inv s' n cells B"
    by (simp add: heap_inv_def bins_ok_def bin_ok_def r t p f)
qed

lemma popcorn_free_chunk:
  assumes inv: "heap_inv s n (xs @ (sz, True) # ys) B" and c: "c = heap_lo s n + extent xs"
  obtains s' cells' B' where "popcorn_free os (CHUNK_TO_MEM c) s = Inr s'" "heap_inv s' n cells' B'" "same_outside n s s'"
    "used_chunks (heap_lo s n) cells' = used_chunks (heap_lo s n) xs \<union> used_chunks (c + sz) ys"
    "heap_calls s' = heap_calls s \<or> (\<exists>call. heap_calls s' = heap_calls s @ [call] \<and> advises_inside (heap_lo s n) cells' call)"
proof -
  let ?lo = "heap_lo s n"
  note h = heap_chunk [OF inv c]
  obtain s1 xs' ys' t B' fc reclaim where loop:
    "free_loop 3 n c (c + sz) sz sz False s = Inr (fc, fc + t, t, reclaim, bin_index t, s1)"
    "heap_inv s1 n (xs' @ (t, True) # ys') B'" "fc = ?lo + extent xs'" "xs' = [] \<or> snd (last xs')" "ys' = [] \<or> snd (hd ys')"
    "same_outside n s s1" "ring s1 (BIN_TO_CHUNK s1 (bin_index t) n) (B' (bin_index t))" "heap_calls s1 = heap_calls s"
    "reclaim \<longrightarrow> 163840 < t" "used_chunks ?lo xs' \<union> used_chunks (fc + t) ys' = used_chunks ?lo xs \<union> used_chunks (c + sz) ys"
    "bin_index t < 64"
    by (rule free_loop_frees [OF inv c])
  have lo1: "heap_lo s1 n = ?lo" by (rule same_outside_places(4) [OF loop(6)])
  let ?i = "bin_index t" and ?cells = "xs' @ (t, False) # ys'"
  define s2 where "s2 = bin_chunk fc (fc + t) t ?i n s1"
  have fc1: "fc = heap_lo s1 n + extent xs'" using loop(3) lo1 by simp
  note put = put_free [OF loop(2) fc1 refl loop(4,5,7) s2_def]
  have so: "same_outside n s s2" by (rule same_outside_trans [OF loop(6) put(2)])
  have calls2: "heap_calls s2 = heap_calls s" using loop(8) by (simp add: s2_def bin_chunk_def Let_def)
  define s' where "s' = (if reclaim then
      let a = (fc + SIZE_ALIGN + PAGE_SIZE - 1) AND - PAGE_SIZE; b = (fc + t - SIZE_ALIGN) AND - PAGE_SIZE in heap_call (Madvise a (b - a)) s2
    else s2)"
  have "ARENA_START s n \<le> c" "c < ARENA_START s n + 2 ^ 30" using h(1,8,9) by (simp_all add: heap_lo_def heap_hi_def)
  note ga = get_arena_in [OF h(11,10) this, of os]
  have run: "popcorn_free os (CHUNK_TO_MEM c) s = Inr s'"
    using h(4,5,12) tag_simps(2,3) [OF h(2), of True] ga loop(1)
    by (simp add: popcorn_free_def CHUNK_TO_MEM_def MEM_TO_CHUNK_def IS_MMAPPED_def h(6,7) Let_def s2_def s'_def)
  have inv': "heap_inv s' n ?cells (B'(?i := B' ?i @ [fc]))" using put(1) by (simp add: s'_def Let_def heap_inv_calls)
  moreover have "same_outside n s s'" using so by (simp add: s'_def Let_def same_outside_calls)
  moreover have "used_chunks ?lo ?cells = used_chunks ?lo xs \<union> used_chunks (c + sz) ys" using loop(10) by (simp add: loop(3) add.assoc)
  moreover have "heap_calls s' = heap_calls s \<or> (\<exists>call. heap_calls s' = heap_calls s @ [call] \<and> advises_inside ?lo ?cells call)"
  proof (cases reclaim)
    case True
    let ?a = "(fc + SIZE_ALIGN + PAGE_SIZE - 1) AND - PAGE_SIZE" and ?b = "(fc + t - SIZE_ALIGN) AND - PAGE_SIZE"
    have m: "x AND - 4096 = x - x mod 4096" for x :: int using and_minus_exp [of x 12] by simp
    have "fc + 32 \<le> ?a" "?a \<le> fc + 32 + 4095" "?b \<le> fc + t - 32" "fc + t - 32 - 4095 \<le> ?b"
      unfolding m by (simp_all add: minus_mod_eq_mult_div)
    moreover have "163840 < t" using loop(9) True by simp
    moreover have "(fc, t, False) \<in> set (chunks ?lo ?cells)" by (simp add: chunks_append loop(3))
    ultimately have "advises_inside ?lo ?cells (Madvise ?a (?b - ?a))"
      unfolding advises_inside_def by (intro exI [of _ fc] exI [of _ t] exI [of _ ?a] exI [of _ "?b - ?a"]) simp
    moreover have "heap_calls s' = heap_calls s @ [Madvise ?a (?b - ?a)]" using True calls2 by (simp add: s'_def Let_def heap_call_def)
    ultimately show ?thesis by blast
  qed (simp add: s'_def calls2)
  ultimately show ?thesis using that [OF run] by blast
qed

end
