(* ===== verification/Node_Heap_Malloc.thy ===== *)
theory Node_Heap_Malloc
  imports Node_Heap_Correct
begin

text \<open>
  Allocation from the heap of a node: what \<open>popcorn_malloc\<close> does on every branch - the first call for a node, which maps its
  arena, the choice of a bin, the cases of a chunk that is split before or after it is taken, and an arena without room -
  and the heap it leaves.
\<close>

declare search_loop.simps [simp del]

section \<open>Cutting off what is not needed\<close>

lemma trim_chunk:
  assumes inv: "heap_inv s n (xs @ (k, True) # ys) B" and c: "c = heap_lo s n + extent xs" and m: "32 \<le> m" "m \<le> k" "32 dvd m"
  obtains s' cells' B' where "trim os c m s = Inr s'" "heap_inv s' n cells' B'" "same_outside n s s'"
    "used_chunks (heap_lo s n) cells' = insert (c, m) (used_chunks (heap_lo s n) xs \<union> used_chunks (c + k) ys)"
proof (cases "m = k")
  case True
  note h = heap_chunk [OF inv c]
  have "trim os c m s = Inr s" using h(1,3) by (simp add: trim_def h(6) True)
  then show ?thesis using that [OF _ inv same_outside_refl] c True by simp
next
  case False
  let ?lo = "heap_lo s n"
  note h = heap_chunk [OF inv c]
  have "32 dvd k - m" using h(2) m(3) by (rule dvd_diff)
  moreover have "0 < k - m" using m(2) False by simp
  ultimately have rest: "32 dvd k - m" "32 \<le> k - m" by (auto intro: zdvd_imp_le)
  define s1 where "s1 = s\<lparr>ck_csize := (ck_csize s)(c + m := tag (k - m) True, c := tag m True),
    ck_psize := (ck_psize s)(c + m := tag m True, c + k := tag (k - m) True)\<rparr>"
  have d: "u64 (k - 16) = k - 16" "u64 (k - m) = k - m" using h(1,3) m by simp_all
  have "\<not> k - 16 \<le> m" using rest(2) by simp
  then have run: "trim os c m s = popcorn_free os (CHUNK_TO_MEM (c + m)) s1"
    using m(1) rest(2) tag_simps(5) [OF m(3)] tag_simps(5) [OF rest(1)]
    by (simp add: trim_def h(6,7) d Let_def) (rule arg_cong, simp add: s1_def fun_upd_twist)
  have t: "tiles s1 c [(m, True), (k - m, True)] (c + k)" using m rest by (simp add: s1_def)
  have inv0: "heap_inv s n (xs @ [(k, True)] @ ys) B" using inv by simp
  have e: "c + k = c + extent [(k, True)]" by simp
  have ci: "ck_csize s1 a = ck_csize s a" if "a < c \<or> c + k \<le> a" for a using that m rest by (auto simp: s1_def)
  have pi: "ck_psize s1 a = ck_psize s a" if "a \<le> c \<or> c + k < a" for a using that m rest by (auto simp: s1_def)
  note re0 = retile [OF inv0 c e _ _ _ _ s1_def _ _ t]
  have re: "heap_inv s1 n (xs @ [(m, True), (k - m, True)] @ ys) B" "same_outside n s s1"
    using re0 ci pi by (simp_all add: s1_def)
  then have inv1: "heap_inv s1 n ((xs @ [(m, True)]) @ (k - m, True) # ys) B" by simp
  have lo1: "heap_lo s1 n = ?lo" by (rule same_outside_places(4) [OF re(2)])
  have c1: "c + m = heap_lo s1 n + extent (xs @ [(m, True)])" by (simp add: lo1 c)
  obtain s' cells' B' where f: "popcorn_free os (CHUNK_TO_MEM (c + m)) s1 = Inr s'" "heap_inv s' n cells' B'" "same_outside n s1 s'"
    "used_chunks (heap_lo s1 n) cells' = used_chunks (heap_lo s1 n) (xs @ [(m, True)]) \<union> used_chunks (c + m + (k - m)) ys"
    by (rule popcorn_free_chunk [OF inv1 c1, of os])
  then show ?thesis using that [OF _ f(2) same_outside_trans [OF re(2) f(3)]] run by (simp add: lo1 c add.assoc)
qed

section \<open>Choosing a bin\<close>

lemma first_set_facts:
  assumes "0 \<le> m" "m < 2 ^ 64" "m \<noteq> 0"
  shows "first_set m < 64" "bit m (first_set m)"
proof -
  have "\<exists>i < 64. bit m i"
  proof (rule ccontr)
    assume "\<not> (\<exists>i < 64. bit m i)"
    then have "take_bit 64 m = 0" by (intro bit_eqI) (simp add: bit_take_bit_iff)
    moreover have "take_bit 64 m = m" using assms(1,2) by (simp add: take_bit_eq_mod)
    ultimately show False using assms(3) by simp
  qed
  then have "filter (\<lambda>i. bit m i) [0..<64] \<noteq> []" by (auto simp: filter_empty_conv)
  then obtain j js where j: "filter (\<lambda>i. bit m i) [0..<64] = j # js" by (cases "filter (\<lambda>i. bit m i) [0..<64]") simp_all
  then have "j \<in> set (filter (\<lambda>i. bit m i) [0..<64])" by (simp only: list.set_intros)
  then have "j < 64" "bit m j" unfolding set_filter set_upt by auto
  then show "first_set m < 64" "bit m (first_set m)" by (simp_all only: first_set_def j list.case)
qed

lemma bins_from:
  assumes "0 \<le> b" "b < (2 :: int) ^ 64" "i < 64"
  shows "0 \<le> b AND u64 (- push_bit i 1)" "b AND u64 (- push_bit i 1) < 2 ^ 64" "bit (b AND u64 (- push_bit i 1)) j \<longleftrightarrow> bit b j \<and> i \<le> j \<and> j < 64"
proof -
  show "0 \<le> b AND u64 (- push_bit i 1)" using assms(1) by simp
  have "b AND u64 (- push_bit i 1) \<le> b" using assms(1) by (rule AND_upper1)
  then show "b AND u64 (- push_bit i 1) < 2 ^ 64" using assms(2) by simp
  have "u64 (- push_bit i 1) = take_bit 64 (NOT (mask i))"
    by (simp add: wrapc_def take_bit_eq_mod minus_exp_eq_not_mask [symmetric])
  then show "bit (b AND u64 (- push_bit i 1)) j \<longleftrightarrow> bit b j \<and> i \<le> j \<and> j < 64"
    by (auto simp: bit_and_iff bit_take_bit_iff bit_not_iff bit_mask_iff)
qed

lemma bin_hit:
  assumes inv: "heap_inv s n cells B" and j: "j < 64" "bit (binmap s n) j"
  obtains c sz xs ys where "lock_bin j n s = s" "ck_next s (BIN_TO_CHUNK s j n) = c" "c \<noteq> BIN_TO_CHUNK s j n" "cells = xs @ (sz, False) # ys"
    "c = heap_lo s n + extent xs" "bin_index sz = j"
proof -
  let ?b = "BIN_TO_CHUNK s j n"
  have Bj: "set (B j) = free_chunks (heap_lo s n) cells j" "bin_ok s n j (B j)" using inv j(1) by (auto simp: heap_inv_def bins_ok_def)
  then have ne: "B j \<noteq> []" using j(2) by (simp add: bin_ok_def)
  then have nz: "ck_next s ?b \<noteq> 0" and r: "ring s ?b (B j)" using Bj(2) by (auto simp: bin_ok_def split: if_splits)
  obtain c cs where B: "B j = c # cs" using ne by (cases "B j") auto
  have c: "ck_next s ?b = c" "c \<noteq> ?b" using r by (auto simp: B ring_def)
  have "c \<in> free_chunks (heap_lo s n) cells j" using Bj(1) B by auto
  then obtain sz where sz: "(c, sz, False) \<in> set (chunks (heap_lo s n) cells)" "bin_index sz = j" by (auto simp: free_chunks_def)
  obtain xs ys where "cells = xs @ (sz, False) # ys" "c = heap_lo s n + extent xs" by (rule chunks_split [OF sz(1)])
  then show ?thesis using that c sz(2) nz by (simp add: lock_bin_def)
qed

lemma pretrim_cases: "pretrim c m i j s = (False, s) \<or> (\<exists>s'. pretrim c m i j s = (True, s') \<and> bin_index (u64 (CHUNK_SIZE s c - m)) = j)"
  by (simp add: pretrim_def Let_def)

lemma bin_index_0: "bin_index 0 = 63"
  by code_simp

text \<open>A chunk of a bin from \<open>bin_index_up\<close> on is large enough.\<close>

lemma search_hit:
  assumes inv: "heap_inv s n cells B" and m: "32 \<le> m" "m \<le> 229376" "32 dvd m" and hit: "binmap s n AND u64 (- push_bit (bin_index_up m) 1) \<noteq> 0"
  obtains c s' xs k ys B' where "search_loop (Suc f) os m (bin_index_up m) n s = Inr (c, False, s')" "heap_inv s' n (xs @ (k, True) # ys) B'"
    "c = heap_lo s n + extent xs" "m \<le> k" "same_outside n s s'"
    "used_chunks (heap_lo s n) xs \<union> used_chunks (c + k) ys = used_chunks (heap_lo s n) cells"
proof -
  let ?i = "bin_index_up m" and ?lo = "heap_lo s n"
  let ?m = "binmap s n AND u64 (- push_bit ?i 1)"
  have bm: "0 \<le> binmap s n" "binmap s n < 2 ^ 64" using inv by (simp_all add: heap_inv_def bins_ok_def)
  note bf = bins_from [OF bm bin_index_up_less [OF m]]
  define j where "j = first_set ?m"
  have "bit ?m j" unfolding j_def by (rule first_set_facts(2) [OF bf(1,2) hit])
  then have j: "bit (binmap s n) j" "?i \<le> j" "j < 64" unfolding bf(3) by simp_all
  obtain c sz xs ys where b: "lock_bin j n s = s" "ck_next s (BIN_TO_CHUNK s j n) = c" "c \<noteq> BIN_TO_CHUNK s j n" "cells = xs @ (sz, False) # ys"
    "c = ?lo + extent xs" "bin_index sz = j" by (rule bin_hit [OF inv j(3,1)])
  have inv': "heap_inv s n (xs @ (sz, False) # ys) B" using inv b(4) by simp
  note h = heap_chunk [OF inv' b(5)]
  have "sz < 2 ^ 63" using h(3) by simp
  then have le: "m \<le> sz" using bin_fits [OF m h(1) _ h(2)] j(2) b(6) by simp
  have step: "search_loop (Suc f) os m ?i n s =
      (case pretrim c m ?i j s of (True, s) \<Rightarrow> Inr (c, False, s) | (False, s) \<Rightarrow> Inr (c, False, unbin c j n s))"
    by (simp only: search_loop.simps Let_def hit if_False if_True j_def [symmetric] b(1-3) not_False_eq_True)
  show ?thesis
  proof (cases "fst (pretrim c m ?i j s)")
    case True
    then obtain s' where p: "pretrim c m ?i j s = (True, s')" "bin_index (u64 (CHUNK_SIZE s c - m)) = j"
      using pretrim_cases [of c m ?i j s] by auto
    have "m \<noteq> sz"
    proof
      assume "m = sz"
      then have "j = 63" using p(2) by (simp add: h(6) bin_index_0)
      then show False using bin_index_small [of sz] m b(6) \<open>m = sz\<close> by simp
    qed
    then have lt: "m < sz" using le by simp
    obtain B' where t: "heap_inv s' n (xs @ (m, True) # (sz - m, False) # ys) B'"
      using take_front(1) [OF inv' b(5) b(6) [symmetric] m(1) lt m(3) p(1)] by blast
    have so: "same_outside n s s'" by (rule take_front(2) [OF inv' b(5) b(6) [symmetric] m(1) lt m(3) p(1)])
    have "search_loop (Suc f) os m ?i n s = Inr (c, False, s')" using step p(1) by simp
    then show ?thesis using that [OF _ t b(5) order_refl so] b(4,5) by (simp add: add.assoc)
  next
    case False
    then have p: "pretrim c m ?i j s = (False, s)" using pretrim_cases [of c m ?i j s] by auto
    define s' where "s' = unbin c j n s"
    have s': "s' = unbin c j n (lock_bin j n s)" by (simp add: s'_def b(1))
    note t = take_free [OF inv' b(5) b(6) [symmetric] s']
    have "search_loop (Suc f) os m ?i n s = Inr (c, False, s')" using step p by (simp add: s'_def)
    then show ?thesis using that [OF _ t(1) b(5) le t(2)] b(4,5) by (simp add: add.assoc)
  qed
qed

section \<open>Mapping the arena\<close>

text \<open>The heap of a node that has not been used: nothing is mapped, and the bins have no lists yet.\<close>

definition arena_fresh :: "heap_state \<Rightarrow> nat \<Rightarrow> bool" where
  "arena_fresh s n \<longleftrightarrow> n < 32 \<and> places_ok s \<and> node_arenas s n = 0 \<and> node_sizes s n = 0 \<and> heap_end s n = 0 \<and> binmap s n = 0 \<and>
     (\<forall>i < 64. ck_next s (BIN_TO_CHUNK s i n) = 0)"

lemma set_arena_start_again: "arena_start s \<noteq> 0 \<Longrightarrow> set_arena_start os s = s"
  by (simp add: set_arena_start_def)

lemma page_round:
  assumes "64 \<le> x" "x \<le> 229408"
  shows "64 \<le> u64 (x + (u64 (- x) AND 4095))" "u64 (x + (u64 (- x) AND 4095)) < 2 ^ 30"
proof -
  define y where "y = u64 (- x) AND 4095"
  have y: "0 \<le> y" "y \<le> 4095" by (simp_all add: y_def AND_upper2)
  then have "u64 (x + y) = x + y" using assms by (intro wrapc_id) (simp add: fits_def ctype_min_def ctype_max_def)
  then show "64 \<le> u64 (x + (u64 (- x) AND 4095))" "u64 (x + (u64 (- x) AND 4095)) < 2 ^ 30" using assms y by (simp_all flip: y_def)
qed

lemma expand_full:
  assumes "n < 32" "arena_start s \<noteq> 0" "node_sizes s n = 2 ^ 30" "32 \<le> m" "m \<le> 229376"
  shows "expand_heap os m (int n) s = (0, s)"
proof -
  have "64 \<le> m + 32" "m + 32 \<le> 229408" using assms(4,5) by simp_all
  note r = page_round [OF this]
  let ?len = "u64 (m + 32 + (u64 (- (m + 32)) AND 4095))"
  have "u64 (2 ^ 30 + ?len) = 2 ^ 30 + ?len" using r by (intro wrapc_id) (simp add: fits_def ctype_min_def ctype_max_def)
  then have "\<not> u64 (node_sizes s n + ?len) \<le> 2 ^ 30" using r assms(3) by simp
  then show ?thesis
    using assms by (simp add: expand_heap_def expand_heap_node_def set_arena_start_again Let_def)
qed

lemma expand_fresh:
  assumes fresh: "arena_fresh s n" and m: "32 \<le> m" "m \<le> 229376"
  shows "\<not> os_mmap_fixed os (ARENA_START s n) (2 ^ 30) \<Longrightarrow> expand_heap os m (int n) s = (0, s)"
    "os_mmap_fixed os (ARENA_START s n) (2 ^ 30) \<Longrightarrow>
      \<exists>s'. expand_heap os m (int n) s = (heap_lo s n, s') \<and> heap_inv s' n [(2 ^ 30 - 32, True)] (\<lambda>_. []) \<and> other_nodes_same n s s' \<and>
        node_sizes s' n = 2 ^ 30"
proof -
  have f: "n < 32" "places_ok s" "node_arenas s n = 0" "node_sizes s n = 0" "heap_end s n = 0" "binmap s n = 0"
    "\<And>i. i < 64 \<Longrightarrow> ck_next s (BIN_TO_CHUNK s i n) = 0" using fresh by (auto simp: arena_fresh_def)
  have st: "arena_start s \<noteq> 0" using f(2) by (auto simp: places_ok_def)
  let ?len = "u64 (m + 32 + (u64 (- (m + 32)) AND 4095))" and ?a = "ARENA_START s n"
  have "64 \<le> m + 32" "m + 32 \<le> 229408" using m by simp_all
  note r = page_round [OF this]
  have room: "u64 (node_sizes s n + ?len) \<le> 2 ^ 30" using r f(4) by simp
  have node: "expand_heap_node os (m + 32) (int n) s =
      (if os_mmap_fixed os ?a (2 ^ 30)
       then (?a, 2 ^ 30, s\<lparr>node_arenas := (node_arenas s)(n := ?a + 2 ^ 30), node_sizes := (node_sizes s)(n := 2 ^ 30)\<rparr>) else (0, m + 32, s))"
    using room f(1,3,4) m by (simp add: expand_heap_node_def set_arena_start_again [OF st] Let_def)
  have w: "u64 (m + 32) = m + 32" using m by simp
  show "expand_heap os m (int n) s = (0, s)" if "\<not> os_mmap_fixed os ?a (2 ^ 30)"
    using that f(1) by (simp add: expand_heap_def w node)
  have a: "0 < ?a" using f(2) by (simp add: ARENA_START_def places_ok_def)
  have lo: "heap_lo s n = ?a + 16" "heap_hi s n = ?a + 2 ^ 30 - 16" by (simp_all add: heap_lo_def heap_hi_def)
  define s' where "s' = s\<lparr>node_arenas := (node_arenas s)(n := ?a + 2 ^ 30), node_sizes := (node_sizes s)(n := 2 ^ 30),
    heap_end := (heap_end s)(n := ?a + 2 ^ 30), ck_psize := (ck_psize s)(heap_lo s n := 3, heap_hi s n := tag (2 ^ 30 - 32) True),
    ck_csize := (ck_csize s)(heap_hi s n := 3, heap_lo s n := tag (2 ^ 30 - 32) True)\<rparr>"
  have run: "expand_heap os m (int n) s = (heap_lo s n, s')" if "os_mmap_fixed os ?a (2 ^ 30)"
    using that f(1,5) a by (simp add: expand_heap_def w node Let_def MEM_TO_CHUNK_def tag_def s'_def lo add.commute [of ?a])
  have pl: "heap_lo s' n = heap_lo s n" "heap_hi s' n = heap_hi s n" "places_ok s' = places_ok s" "BIN_TO_CHUNK s' i n = BIN_TO_CHUNK s i n" for i
    by (simp_all add: s'_def heap_lo_def heap_hi_def ARENA_START_def places_ok_def BIN_at)
  have same: "ck_next s' = ck_next s" "binmap s' = binmap s" by (simp_all add: s'_def)
  have "tiles s' (heap_lo s n) [(2 ^ 30 - 32, True)] (heap_hi s n)" by (simp add: s'_def lo)
  moreover have "bins_ok s' n (heap_lo s n) [(2 ^ 30 - 32, True)] (\<lambda>_. [])" using f(6,7) by (simp add: bins_ok_def bin_ok_def pl same)
  ultimately have inv: "heap_inv s' n [(2 ^ 30 - 32, True)] (\<lambda>_. [])" using f(1,2) by (simp add: heap_inv_def pl) (simp add: s'_def lo)
  have "other_nodes_same n s s'" unfolding other_nodes_same_def by (auto simp: s'_def lo in_node_def)
  then show "\<exists>s'. expand_heap os m (int n) s = (heap_lo s n, s') \<and> heap_inv s' n [(2 ^ 30 - 32, True)] (\<lambda>_. []) \<and> other_nodes_same n s s' \<and>
      node_sizes s' n = 2 ^ 30" if "os_mmap_fixed os ?a (2 ^ 30)"
    using run [OF that] inv by (intro exI [of _ s']) (simp add: s'_def)
qed

section \<open>The search\<close>

text \<open>The heap of a node, used or not: its chunks, none if nothing is mapped.\<close>

definition node_heap :: "heap_os \<Rightarrow> heap_state \<Rightarrow> nat \<Rightarrow> cells \<Rightarrow> bool" where
  "node_heap os s n cells \<longleftrightarrow> cells = [] \<and> arena_fresh (set_arena_start os s) n \<or>
     arena_start s \<noteq> 0 \<and> node_sizes s n = 2 ^ 30 \<and> (\<exists>B. heap_inv s n cells B)"

lemma set_arena_start_fields [simp]:
  "binmap (set_arena_start os s) = binmap s" "initialized (set_arena_start os s) = initialized s" "node_sizes (set_arena_start os s) = node_sizes s"
  "mal_at (set_arena_start os s) = mal_at s" "set_arena_start os (set_arena_start os s) = set_arena_start os s"
  by (simp_all add: set_arena_start_def)

lemma node_heap_start: "node_heap os s n cells \<Longrightarrow> arena_start (set_arena_start os s) \<noteq> 0 \<and> places_ok (set_arena_start os s) \<and> n < 32"
  unfolding node_heap_def arena_fresh_def heap_inv_def by (auto simp: set_arena_start_again) (auto simp: places_ok_def)

lemma expand_heap_start:
  assumes "n < 32" "32 \<le> m" "m \<le> 229376"
  shows "expand_heap os m (int n) s = expand_heap os m (int n) (set_arena_start os s)"
  using assms by (simp add: expand_heap_def expand_heap_node_def Let_def)

lemma node_heap_other:
  assumes o: "other_nodes_same n (set_arena_start os s) s'" and m: "m \<noteq> n" "n < 32" and h: "node_heap os s m cells"
  shows "node_heap os s' m cells"
proof -
  let ?s = "set_arena_start os s"
  note st = node_heap_start [OF h]
  have a: "arena_start s' = arena_start ?s" using o by (simp add: other_nodes_same_def)
  then have s': "set_arena_start os s' = s'" "arena_start s' \<noteq> 0" using st by (simp_all add: set_arena_start_again)
  have same: "node_arenas s' m = node_arenas ?s m" "node_sizes s' m = node_sizes ?s m" "heap_end s' m = heap_end ?s m" "binmap s' m = binmap ?s m"
    using o m(1) by (auto simp: other_nodes_same_def)
  note pl = other_nodes_same_places [OF o]
  show ?thesis
  proof (cases "cells = [] \<and> arena_fresh ?s m")
    case True
    have "ck_next s' (BIN_TO_CHUNK s' i m) = 0" if "i < 64" for i
      using o True that not_in_node(2) [of ?s m n i] m st by (simp add: pl(2) other_nodes_same_def arena_fresh_def)
    then have "arena_fresh s' m" using True same by (simp add: arena_fresh_def pl(6))
    then show ?thesis using True by (simp add: node_heap_def s'(1))
  next
    case False
    then obtain B where B: "arena_start s \<noteq> 0" "node_sizes s m = 2 ^ 30" "heap_inv s m cells B" using h by (auto simp: node_heap_def)
    have "other_nodes_same n s s'" using o B(1) by (simp add: set_arena_start_again)
    then have "heap_inv s' m cells B" using other_heap m B(3) by blast
    then show ?thesis using s'(2) same(2) B(2) by (auto simp: node_heap_def)
  qed
qed

lemma search_node:
  assumes h: "node_heap os s n cells" and m: "32 \<le> m" "m \<le> 229376" "32 dvd m"
  obtains s' where "search_loop (Suc f) os m (bin_index_up m) n s = Inr (0, False, s')" "node_heap os s' n cells"
      "other_nodes_same n (set_arena_start os s) s'"
  | c init s' xs k ys B' where "search_loop (Suc f) os m (bin_index_up m) n s = Inr (c, init, s')" "heap_inv s' n (xs @ (k, True) # ys) B'"
      "c = heap_lo s' n + extent xs" "m \<le> k" "arena_start s' \<noteq> 0" "node_sizes s' n = 2 ^ 30" "other_nodes_same n (set_arena_start os s) s'"
      "used_chunks (heap_lo s' n) xs \<union> used_chunks (c + k) ys = used_chunks (heap_lo s' n) cells"
proof (cases "cells = [] \<and> arena_fresh (set_arena_start os s) n")
  case True
  let ?s = "set_arena_start os s"
  have f: "binmap s n = 0" "n < 32" "arena_start ?s \<noteq> 0" using True node_heap_start [OF h] by (simp_all add: arena_fresh_def)
  have e: "expand_heap os m (int n) s = expand_heap os m (int n) ?s" by (rule expand_heap_start [OF f(2) m(1,2)])
  note ex = expand_fresh [OF True [THEN conjunct2] m(1,2), of os]
  show ?thesis
  proof (cases "os_mmap_fixed os (ARENA_START ?s n) (2 ^ 30)")
    case False
    have "search_loop (Suc f) os m (bin_index_up m) n s = Inr (0, False, ?s)" using ex(1) [OF False] by (simp add: search_loop.simps f(1) e)
    moreover have "node_heap os ?s n cells" using True by (simp add: node_heap_def)
    ultimately show ?thesis using that(1) by simp
  next
    case mapped: True
    obtain s' where s': "expand_heap os m (int n) ?s = (heap_lo ?s n, s')" "heap_inv s' n [(2 ^ 30 - 32, True)] (\<lambda>_. [])"
      "other_nodes_same n ?s s'" "node_sizes s' n = 2 ^ 30" using ex(2) [OF mapped] by blast
    have lo: "heap_lo ?s n = heap_lo s' n" using other_nodes_same_places(4) [OF s'(3)] by simp
    have inv: "heap_inv s' n ([] @ (2 ^ 30 - 32, True) # []) (\<lambda>_. [])" using s'(2) by simp
    have pos: "heap_lo s' n \<noteq> 0" using heap_place(1) [OF f(2), of s'] heap_chunk(11) [OF inv refl] by (simp add: places_ok_def)
    have st: "arena_start s' \<noteq> 0" using s'(3) f(3) by (simp add: other_nodes_same_def)
    have "alloc_rev (heap_lo s' n) n s' = (False, s')" using alloc_rev_used [of s' n "[]" _ _ "heap_lo s' n"] s'(2) by simp
    then have "search_loop (Suc f) os m (bin_index_up m) n s = Inr (heap_lo s' n, \<not> initialized s n, s')"
      using pos by (simp add: search_loop.simps f(1) e s'(1) lo)
    then show ?thesis using that(2) [OF _ inv _ _ st s'(4,3)] m True by simp
  qed
next
  case False
  then obtain B where B: "arena_start s \<noteq> 0" "node_sizes s n = 2 ^ 30" "heap_inv s n cells B" using h by (auto simp: node_heap_def)
  have n: "n < 32" using B(3) by (simp add: heap_inv_def)
  have s: "set_arena_start os s = s" by (rule set_arena_start_again [OF B(1)])
  show ?thesis
  proof (cases "binmap s n AND u64 (- push_bit (bin_index_up m) 1) = 0")
    case True
    have "search_loop (Suc f) os m (bin_index_up m) n s = Inr (0, False, s)"
      using expand_full [OF n B(1,2) m(1,2)] True by (simp add: search_loop.simps)
    then show ?thesis using that(1) h s by simp
  next
    case hit: False
    obtain c s' xs k ys B' where r: "search_loop (Suc f) os m (bin_index_up m) n s = Inr (c, False, s')" "heap_inv s' n (xs @ (k, True) # ys) B'"
      "c = heap_lo s n + extent xs" "m \<le> k" "same_outside n s s'"
      "used_chunks (heap_lo s n) xs \<union> used_chunks (c + k) ys = used_chunks (heap_lo s n) cells" by (rule search_hit [OF B(3) m hit])
    have lo: "heap_lo s' n = heap_lo s n" by (rule same_outside_places(4) [OF r(5)])
    have "arena_start s' \<noteq> 0" "node_sizes s' n = 2 ^ 30" using r(5) B by (simp_all add: same_outside_def)
    then show ?thesis using that(2) [OF r(1,2) _ r(4)] r(3,6) same_outside_other_nodes [OF r(5)] by (simp add: lo s)
  qed
qed

end
