(* ===== verification/Node_Heap_Blocks.thy ===== *)
theory Node_Heap_Blocks
  imports Node_Heap_Malloc
begin

text \<open>
  The blocks of memory in use on a node, by address and length, and what \<open>popcorn_malloc\<close> and \<open>popcorn_free\<close> do to them.
\<close>

section \<open>Blocks\<close>

definition blocks :: "int \<Rightarrow> cells \<Rightarrow> (int \<times> int) set" where
  "blocks lo cells = (\<lambda>(c, sz). (c + 16, sz - 16)) ` used_chunks lo cells"

lemma blocks_iff: "(p, k) \<in> blocks lo cells \<longleftrightarrow> (p - 16, k + 16) \<in> used_chunks lo cells"
  by (force simp: blocks_def)

lemma blocks_Nil [simp]: "blocks lo [] = {}"
  by (simp add: blocks_def)

lemma blocks_cong: "used_chunks lo cells = used_chunks lo' cells' \<Longrightarrow> blocks lo cells = blocks lo' cells'"
  by (simp add: blocks_def)

lemma blocks_insert: "used_chunks lo cells' = insert (c, m) (used_chunks lo cells) \<Longrightarrow> blocks lo cells' = insert (c + 16, m - 16) (blocks lo cells)"
  by (simp add: blocks_def)

lemma blocks_remove:
  assumes "used_chunks lo cells' = used_chunks lo cells - {(p - 16, k + 16)}"
  shows "blocks lo cells' = blocks lo cells - {(p, k)}"
proof (rule set_eqI)
  fix x
  show "x \<in> blocks lo cells' \<longleftrightarrow> x \<in> blocks lo cells - {(p, k)}" by (cases x) (simp add: blocks_iff assms)
qed

lemma chunk_aligned: "tiles s a cs e \<Longrightarrow> (c, sz, u) \<in> set (chunks a cs) \<Longrightarrow> 32 dvd c - a"
proof (induction a cs rule: chunks.induct)
  case (2 a sz' u' cs)
  show ?case
  proof (cases "c = a")
    case False
    then have "32 dvd c - (a + sz')" using 2 by auto
    moreover have "32 dvd sz'" using 2(2) by simp
    ultimately have "32 dvd c - (a + sz') + sz'" by (rule dvd_add)
    then show ?thesis by simp
  qed simp
qed simp

lemma block_facts:
  assumes inv: "heap_inv s n cells B" and p: "(p, k) \<in> blocks (heap_lo s n) cells"
  shows "ARENA_START s n < p" "p + k < ARENA_START s n + 2 ^ 30" "16 \<le> k" "32 dvd p"
proof -
  have t: "tiles s (heap_lo s n) cells (heap_hi s n)" and pl: "places_ok s" using inv by (simp_all add: heap_inv_def)
  have u: "(p - 16, k + 16, True) \<in> set (chunks (heap_lo s n) cells)" using p by (simp add: blocks_iff used_chunks_def)
  note r = chunks_range [OF t u]
  show "ARENA_START s n < p" "p + k < ARENA_START s n + 2 ^ 30" "16 \<le> k" using r(1,2,3) by (simp_all add: heap_lo_def heap_hi_def)
  have "32 dvd p - 16 - heap_lo s n" by (rule chunk_aligned [OF t u])
  moreover have "32 dvd arena_start s" using pl by (auto simp: places_ok_def elim: dvd_trans [rotated])
  moreover have "p - 16 - heap_lo s n = p - (arena_start s + int n * 2 ^ 30 + 32)" by (simp add: heap_lo_def ARENA_START_def)
  ultimately have "32 dvd p - (arena_start s + int n * 2 ^ 30 + 32)" "32 dvd arena_start s + int n * 2 ^ 30 + 32" by simp_all
  then have "32 dvd p - (arena_start s + int n * 2 ^ 30 + 32) + (arena_start s + int n * 2 ^ 30 + 32)" by (rule dvd_add)
  then show "32 dvd p" by simp
qed

lemma block_apart:
  assumes inv: "heap_inv s n cells B" and p: "(p, k) \<in> blocks (heap_lo s n) cells" and q: "(q, l) \<in> blocks (heap_lo s n) cells"
  shows "(p, k) = (q, l) \<or> p + k \<le> q \<or> q + l \<le> p"
proof -
  have t: "tiles s (heap_lo s n) cells (heap_hi s n)" using inv by (simp add: heap_inv_def)
  show ?thesis using chunks_disjoint [OF t, of "p - 16" "k + 16" True "q - 16" "l + 16" True] p q by (auto simp: blocks_iff used_chunks_def)
qed

section \<open>Allocating\<close>

lemma heap_inv_cong:
  assumes "mal_at s' = mal_at s" "arena_start s' = arena_start s" "ck_psize s' = ck_psize s" "ck_csize s' = ck_csize s"
    "ck_next s' = ck_next s" "ck_prev s' = ck_prev s" "binmap s' = binmap s"
  shows "heap_inv s' n cells B = heap_inv s n cells B"
proof -
  have r: "ring s' b xs = ring s b xs" for b xs by (intro ring_cong) (simp add: assms)
  have t: "tiles s' a cs e = tiles s a cs e" for a cs e by (intro tiles_cong) (simp_all add: assms)
  have p: "BIN_TO_CHUNK s' i n = BIN_TO_CHUNK s i n" "places_ok s' = places_ok s" "heap_lo s' n = heap_lo s n" "heap_hi s' n = heap_hi s n" for i
    by (simp_all add: assms BIN_at places_ok_def heap_lo_def heap_hi_def ARENA_START_def)
  show ?thesis by (simp add: heap_inv_def bins_ok_def bin_ok_def r t p assms)
qed

definition chunk_for :: "int \<Rightarrow> int" where
  "chunk_for r = (r + 47) AND - 32"

lemma chunk_for_facts:
  assumes "0 \<le> r" "r \<le> 229360"
  shows "32 \<le> chunk_for r" "chunk_for r \<le> 229376" "32 dvd chunk_for r" "r + 16 \<le> chunk_for r" "adjust_size r s = (True, chunk_for r, s)"
proof -
  have c: "chunk_for r = r + 47 - (r + 47) mod 32" unfolding chunk_for_def using and_minus_exp [of "r + 47" 5] by simp
  show "32 \<le> chunk_for r" "chunk_for r \<le> 229376" "32 dvd chunk_for r" "r + 16 \<le> chunk_for r" using assms unfolding c by presburger+
  show "adjust_size r s = (True, chunk_for r, s)"
  proof (cases "r = 0")
    case True
    have "chunk_for 0 = 32" using c True by simp
    then show ?thesis by (simp add: adjust_size_def True wrapc_def)
  next
    case False
    then have "u64 (r - 1) = r - 1" "u64 (r + 16 + 32 - 1) = r + 47" using assms by simp_all
    then show ?thesis using assms by (simp add: adjust_size_def chunk_for_def add.commute [of r])
  qed
qed

lemma popcorn_malloc_node:
  assumes h: "node_heap os s n cells" and r: "0 \<le> r" "r \<le> 229360"
  obtains s' where "popcorn_malloc os r (int n) s = Inr (plain_malloc os (chunk_for r), s')" "node_heap os s' n cells"
      "other_nodes_same n (set_arena_start os s) s'"
  | p s' cells' where "popcorn_malloc os r (int n) s = Inr (p, s')" "node_heap os s' n cells'" "other_nodes_same n (set_arena_start os s) s'"
      "blocks (heap_lo s' n) cells' = insert (p, chunk_for r - 16) (blocks (heap_lo s' n) cells)" "(p, l) \<notin> blocks (heap_lo s' n) cells"
proof -
  let ?m = "chunk_for r"
  note m = chunk_for_facts [OF r]
  have n: "n < 32" using node_heap_start [OF h] by simp
  have run: "popcorn_malloc os r (int n) s = bindE (search_loop (Suc 1) os ?m (bin_index_up ?m) n s) (\<lambda>(c, init_node, s).
      if c = 0 then Inr (plain_malloc os ?m, s)
      else bindE (trim os c ?m s) (\<lambda>s. Inr (CHUNK_TO_MEM c, if init_node then s\<lparr>initialized := (initialized s)(n := True)\<rparr> else s)))"
    unfolding popcorn_malloc_def nat_int numeral_2_eq_2 using n m(2) by (simp add: m(5))
  show ?thesis
  proof (rule search_node [OF h m(1-3), of 1])
    fix s' assume "search_loop (Suc 1) os ?m (bin_index_up ?m) n s = Inr (0, False, s')" "node_heap os s' n cells"
      "other_nodes_same n (set_arena_start os s) s'"
    then show ?thesis using that(1) run by simp
  next
    fix c init s1 xs k ys B'
    assume a: "search_loop (Suc 1) os ?m (bin_index_up ?m) n s = Inr (c, init, s1)" "heap_inv s1 n (xs @ (k, True) # ys) B'"
      "c = heap_lo s1 n + extent xs" "?m \<le> k" "arena_start s1 \<noteq> 0" "node_sizes s1 n = 2 ^ 30" "other_nodes_same n (set_arena_start os s) s1"
      "used_chunks (heap_lo s1 n) xs \<union> used_chunks (c + k) ys = used_chunks (heap_lo s1 n) cells"
    note hc = heap_chunk [OF a(2,3)]
    obtain s2 cells' B2 where t: "trim os c ?m s1 = Inr s2" "heap_inv s2 n cells' B2" "same_outside n s1 s2"
      "used_chunks (heap_lo s1 n) cells' = insert (c, ?m) (used_chunks (heap_lo s1 n) xs \<union> used_chunks (c + k) ys)"
      by (rule trim_chunk [OF a(2,3) m(1) a(4) m(3)])
    define s' where "s' = (if init then s2\<lparr>initialized := (initialized s2)(n := True)\<rparr> else s2)"
    have "popcorn_malloc os r (int n) s = Inr (c + 16, s')" using run a(1) t(1) hc(12) by (simp add: s'_def CHUNK_TO_MEM_def)
    moreover have lo: "heap_lo s' n = heap_lo s1 n" using same_outside_places(4) [OF t(3)] by (simp add: s'_def heap_lo_def ARENA_START_def)
    moreover have "heap_inv s' n cells' B2" using t(2) heap_inv_cong [of s' s2 n cells' B2] by (simp add: s'_def)
    then have "node_heap os s' n cells'" using a(5,6) t(3) by (auto simp: node_heap_def s'_def same_outside_def)
    moreover have "other_nodes_same n s1 s'" using same_outside_other_nodes [OF t(3)] by (simp add: s'_def other_nodes_same_def)
    then have "other_nodes_same n (set_arena_start os s) s'" by (rule other_nodes_same_trans [OF a(7)])
    moreover have "blocks (heap_lo s' n) cells' = insert (c + 16, ?m - 16) (blocks (heap_lo s' n) cells)"
      using blocks_insert [of "heap_lo s1 n" cells' c ?m cells] t(4) a(8) by (simp add: lo)
    moreover have "(c, z) \<notin> used_chunks (heap_lo s1 n) xs" "(c, z) \<notin> used_chunks (c + k) ys" for z
      using used_chunks_range [OF hc(13)] used_chunks_range [OF hc(14)] hc(1) by fastforce+
    then have "(c + 16, l) \<notin> blocks (heap_lo s' n) cells" using a(8) by (auto simp: blocks_iff lo)
    ultimately show ?thesis using that(2) by blast
  qed
qed

section \<open>Freeing\<close>

lemma popcorn_free_node:
  assumes h: "node_heap os s n cells" and p: "(p, k) \<in> blocks (heap_lo s n) cells"
  obtains s' cells' calls where "popcorn_free os p s = Inr s'" "node_heap os s' n cells'" "other_nodes_same n (set_arena_start os s) s'"
    "blocks (heap_lo s' n) cells' = blocks (heap_lo s n) cells - {(p, k)}" "heap_calls s' = heap_calls s @ calls"
proof -
  let ?lo = "heap_lo s n"
  obtain B where B: "arena_start s \<noteq> 0" "node_sizes s n = 2 ^ 30" "heap_inv s n cells B" using h p by (auto simp: node_heap_def)
  have st: "set_arena_start os s = s" by (rule set_arena_start_again [OF B(1)])
  have "(p - 16, k + 16, True) \<in> set (chunks ?lo cells)" using p by (simp add: blocks_iff used_chunks_def)
  then obtain xs ys where c: "cells = xs @ (k + 16, True) # ys" "p - 16 = ?lo + extent xs" by (rule chunks_split)
  have inv: "heap_inv s n (xs @ (k + 16, True) # ys) B" using B(3) c(1) by simp
  note hc = heap_chunk [OF inv c(2)]
  obtain s' cells' B' where f: "popcorn_free os (CHUNK_TO_MEM (p - 16)) s = Inr s'" "heap_inv s' n cells' B'" "same_outside n s s'"
    "used_chunks ?lo cells' = used_chunks ?lo xs \<union> used_chunks (p - 16 + (k + 16)) ys"
    "heap_calls s' = heap_calls s \<or> (\<exists>call. heap_calls s' = heap_calls s @ [call] \<and> advises_inside ?lo cells' call)"
    by (rule popcorn_free_chunk [OF inv c(2)])
  obtain calls where calls: "heap_calls s' = heap_calls s @ calls" using f(5) by auto
  have lo: "heap_lo s' n = ?lo" by (rule same_outside_places(4) [OF f(3)])
  have nu: "(p - 16, z) \<notin> used_chunks ?lo xs" "(p - 16, z) \<notin> used_chunks (p - 16 + (k + 16)) ys" for z
    using used_chunks_range [OF hc(13)] used_chunks_range [OF hc(14)] hc(1) by fastforce+
  have "used_chunks ?lo cells' = used_chunks ?lo cells - {(p - 16, k + 16)}"
  proof -
    have "used_chunks ?lo cells = insert (p - 16, k + 16) (used_chunks ?lo xs \<union> used_chunks (p - 16 + (k + 16)) ys)"
      by (simp add: c add.assoc)
    then show ?thesis using nu by (simp add: f(4))
  qed
  then have "blocks (heap_lo s' n) cells' = blocks ?lo cells - {(p, k)}" unfolding lo by (rule blocks_remove)
  moreover have "node_heap os s' n cells'" using B f(2,3) by (auto simp: node_heap_def same_outside_def)
  ultimately show ?thesis using that f(1) same_outside_other_nodes [OF f(3)] calls by (simp add: st CHUNK_TO_MEM_def)
qed

section \<open>Growing in place\<close>

text \<open>What \<open>popcorn_realloc\<close> does to a chunk before it cuts off what is not needed: a free chunk behind it is merged.\<close>

lemma grow_chunk:
  assumes inv: "heap_inv s n (xs @ (k, True) # ys) B" and c: "c = heap_lo s n + extent xs"
  obtains g s1 k1 nc s2 ys' B2 where "(if k < m then alloc_fwd (c + k) n s else (False, s)) = (g, s1)"
    "(if g then (u64 (k + CHUNK_SIZE s1 (c + k)), NEXT_CHUNK s1 (c + k)) else (k, c + k)) = (k1, nc)"
    "s2 = s1\<lparr>ck_csize := (ck_csize s1)(c := k1 OR 3), ck_psize := (ck_psize s1)(nc := k1 OR 3)\<rparr>"
    "heap_inv s2 n (xs @ (k1, True) # ys') B2" "k \<le> k1" "same_outside n s s2" "used_chunks (c + k1) ys' = used_chunks (c + k) ys"
    "heap_calls s2 = heap_calls s" "32 dvd k1"
proof -
  note h = heap_chunk [OF inv c]
  have inv0: "heap_inv s n ((xs @ [(k, True)]) @ ys) B" and c0: "c + k = heap_lo s n + extent (xs @ [(k, True)])"
    using inv c by simp_all
  obtain nf s1 post ys' B1 where f: "(if k < m then alloc_fwd (c + k) n s else (False, s)) = (nf, s1)"
    "heap_inv s1 n ((xs @ [(k, True)]) @ post @ ys') B1" "same_outside n s s1" "heap_calls s1 = heap_calls s" "nf \<longleftrightarrow> post \<noteq> []"
    "nf \<Longrightarrow> NEXT_CHUNK s1 (c + k) = c + k + extent post \<and> CHUNK_SIZE s1 (c + k) = extent post" "\<forall>x \<in> set post. snd x"
    "\<And>a. used_chunks a ys = used_chunks (a + extent post) ys'" "0 \<le> extent post" "extent post < 2 ^ 30"
  proof (cases "k < m")
    case True
    obtain nf s1 post ys' B1 where f: "alloc_fwd (c + k) n s = (nf, s1)" "heap_inv s1 n ((xs @ [(k, True)]) @ post @ ys') B1"
      "same_outside n s s1" "heap_calls s1 = heap_calls s" "nf \<longleftrightarrow> post \<noteq> []"
      "nf \<Longrightarrow> NEXT_CHUNK s1 (c + k) = c + k + extent post \<and> CHUNK_SIZE s1 (c + k) = extent post" "\<forall>x \<in> set post. snd x"
      "\<And>a. used_chunks a ys = used_chunks (a + extent post) ys'" "0 \<le> extent post" "extent post < 2 ^ 30"
      by (rule fwd_stage [OF inv0 c0]) blast
    show ?thesis by (rule that [of nf s1 post ys' B1]) (use f True in simp_all)
  next
    case False
    show ?thesis using that [of False s "[]" ys B] False inv by simp
  qed
  define mid k1 where "mid = (k, True) # post" and "k1 = extent mid"
  have k1: "k1 = k + extent post" by (simp add: k1_def mid_def)
  have inv1: "heap_inv s1 n (xs @ mid @ ys') B1" using f(2) by (simp add: mid_def)
  have lo1: "heap_lo s1 n = heap_lo s n" by (rule same_outside_places(4) [OF f(3)])
  have c1: "c = heap_lo s1 n + extent xs" "c + k1 = c + extent mid" by (simp_all add: lo1 c k1_def)
  have used: "\<forall>x \<in> set mid. snd x" "mid \<noteq> []" using f(7) by (simp_all add: mid_def)
  have "\<forall>x \<in> set mid. 32 \<le> fst x \<and> 32 dvd fst x" using cell_size [OF inv1] by auto
  note t = used_extent [OF this used(2), folded k1_def]
  have next': "(if nf then (u64 (k + CHUNK_SIZE s1 (c + k)), NEXT_CHUNK s1 (c + k)) else (k, c + k)) = (k1, c + k1)"
    using f(5,6,9,10) h(1,3) by (cases nf) (simp_all add: k1)
  have or3: "k1 OR 3 = tag k1 True" by (rule tag_simps(5) [OF t(2)])
  define s2 where "s2 = s1\<lparr>ck_csize := (ck_csize s1)(c := k1 OR 3), ck_psize := (ck_psize s1)(c + k1 := k1 OR 3)\<rparr>"
  have tl: "tiles s2 c [(k1, True)] (c + k1)" using t by (simp add: s2_def or3)
  have ci: "ck_csize s2 a = ck_csize s1 a" if "a < c \<or> c + k1 \<le> a" for a using that t by (auto simp: s2_def)
  have pi: "ck_psize s2 a = ck_psize s1 a" if "a \<le> c \<or> c + k1 < a" for a using that t by (auto simp: s2_def)
  note re0 = retile [OF inv1 c1 used(2,1) _ _ s2_def _ _ tl]
  have re: "heap_inv s2 n (xs @ [(k1, True)] @ ys') B1" "same_outside n s1 s2" using re0 ci pi by (simp_all add: s2_def)
  have "heap_calls s2 = heap_calls s" by (simp add: s2_def f(4))
  moreover have "used_chunks (c + k1) ys' = used_chunks (c + k) ys" using f(8) [of "c + k"] by (simp add: k1 add.assoc)
  ultimately show ?thesis using that [OF f(1) next' s2_def _ _ same_outside_trans [OF f(3) re(2)]] re(1) f(9) t(2) by (simp add: k1)
qed

end
