(* ===== verification/Node_Heap_Store.thy ===== *)
theory Node_Heap_Store
  imports Node_Heap_Blocks
begin

text \<open>
  The heaps of all nodes together: the blocks in use on each, and what \<open>popcorn_malloc\<close>, \<open>popcorn_free\<close> and
  \<open>popcorn_realloc\<close> do to them.
\<close>

section \<open>The heaps of all nodes\<close>

text \<open>
  What is assumed of the general allocator: its memory (or 0) is not where the arenas of the nodes are, and addresses are
  within the range of user space.
\<close>

definition plain_elsewhere :: "heap_os \<Rightarrow> int \<Rightarrow> bool" where
  "plain_elsewhere os z \<longleftrightarrow> z < 2 ^ 61 \<and>
     (\<forall>r. 0 \<le> plain_malloc os r \<and> plain_malloc os r < 2 ^ 61 \<and> (plain_malloc os r < z \<or> z + 2 ^ 35 \<le> plain_malloc os r))"

definition heaps_ok :: "heap_os \<Rightarrow> heap_state \<Rightarrow> (nat \<Rightarrow> (int \<times> int) set) \<Rightarrow> bool" where
  "heaps_ok os s U \<longleftrightarrow> plain_elsewhere os (arena_start (set_arena_start os s)) \<and>
     (\<forall>n < 32. \<exists>cells. node_heap os s n cells \<and> U n = blocks (heap_lo s n) cells) \<and> (\<forall>n \<ge> 32. U n = {})"

definition home_of :: "heap_os \<Rightarrow> heap_state \<Rightarrow> int \<Rightarrow> int" where
  "home_of os s p = fst (popcorn_get_arena os p s)"

lemma get_arena_out:
  assumes "0 < z" "z < 2 ^ 61" "arena_start s = z" "0 \<le> a" "a < 2 ^ 61" "a < z \<or> z + 2 ^ 35 \<le> a"
  shows "home_of os s a < 0"
proof -
  have st: "set_arena_start os s = s" using assms(1,3) by (simp add: set_arena_start_again)
  let ?d = "u64 (a - z) div 2 ^ 30"
  have "wrapc I32 ?d < 0 \<or> 32 \<le> wrapc I32 ?d"
  proof (cases "a < z")
    case True
    have u: "u64 (a - z) = a - z + 2 ^ 64"
    proof -
      have "u64 (a - z) = u64 (a - z + 2 ^ 64)" by (simp add: wrapc_eq_mod)
      then show ?thesis using assms True by simp
    qed
    have "(a - z + 2 ^ 64) div 2 ^ 30 = (a - z) div 2 ^ 30 + 2 ^ 34" by simp
    moreover have "(x + 2 ^ 34) mod 2 ^ 32 = x mod 2 ^ 32" for x :: int using mod_mult_self1 [of x 4 "2 ^ 32"] by simp
    ultimately have "wrapc I32 ?d = wrapc I32 ((a - z) div 2 ^ 30)" unfolding u wrapc_eq_mod by simp
    moreover have "- (2 ^ 31) \<le> (a - z) div 2 ^ 30" "(a - z) div 2 ^ 30 < 0" using assms True by simp_all
    ultimately show ?thesis by (simp add: fits_def ctype_min_def ctype_max_def)
  next
    case False
    have u: "u64 (a - z) = a - z" using assms False by simp
    have "32 \<le> (a - z) div 2 ^ 30" "(a - z) div 2 ^ 30 < 2 ^ 31" using assms False by simp_all
    then show ?thesis by (simp add: u fits_def ctype_min_def ctype_max_def)
  qed
  then show ?thesis by (auto simp: home_of_def popcorn_get_arena_def st assms(3) Let_def)
qed

lemma node_heap_blocks: "node_heap os s n cells \<Longrightarrow> blocks (heap_lo (set_arena_start os s) n) cells = blocks (heap_lo s n) cells"
  by (auto simp: node_heap_def set_arena_start_again)

lemma heaps_ok_step:
  assumes ok: "heaps_ok os s U" and n: "n < 32" and o: "other_nodes_same n (set_arena_start os s) s'" and h: "node_heap os s' n cells'"
  shows "heaps_ok os s' (U(n := blocks (heap_lo s' n) cells'))"
proof -
  have "(0 :: nat) < 32" by simp
  then have "\<exists>cells. node_heap os s 0 cells" using ok unfolding heaps_ok_def by blast
  then have "arena_start (set_arena_start os s) \<noteq> 0" using node_heap_start by blast
  then have st: "arena_start (set_arena_start os s') = arena_start (set_arena_start os s)"
    using o by (simp add: other_nodes_same_def set_arena_start_again)
  have "\<exists>cells. node_heap os s' m cells \<and> (U(n := blocks (heap_lo s' n) cells')) m = blocks (heap_lo s' m) cells" if m: "m < 32" for m
  proof (cases "m = n")
    case False
    obtain cells where c: "node_heap os s m cells" "U m = blocks (heap_lo s m) cells" using ok m by (auto simp: heaps_ok_def)
    have "heap_lo s' m = heap_lo (set_arena_start os s) m" by (rule other_nodes_same_places(4) [OF o])
    then have "U m = blocks (heap_lo s' m) cells" using c node_heap_blocks [OF c(1)] by simp
    then show ?thesis using node_heap_other [OF o False n c(1)] False by auto
  qed (use h in auto)
  then show ?thesis using ok n by (auto simp: heaps_ok_def st)
qed

lemma heaps_ok_block:
  assumes "heaps_ok os s U" "(p, k) \<in> U n"
  obtains cells B where "n < 32" "node_heap os s n cells" "heap_inv s n cells B" "U n = blocks (heap_lo s n) cells" "arena_start s \<noteq> 0"
proof -
  have n: "n < 32" using assms by (cases "n < 32") (auto simp: heaps_ok_def)
  then obtain cells where c: "node_heap os s n cells" "U n = blocks (heap_lo s n) cells" using assms(1) by (auto simp: heaps_ok_def)
  then have "cells \<noteq> []" using assms(2) by auto
  then show ?thesis using that n c by (auto simp: node_heap_def)
qed

lemma arenas_apart:
  assumes "n < m"
  shows "ARENA_START s n + 2 ^ 30 \<le> ARENA_START s m"
proof -
  have "int n + 1 \<le> int m" using assms by simp
  then have "(int n + 1) * 2 ^ 30 \<le> int m * 2 ^ 30" by (intro mult_right_mono) simp_all
  then show ?thesis by (simp add: ARENA_START_def algebra_simps)
qed

lemma heaps_ok_pages:
  assumes ok: "heaps_ok os s U" and p: "(p, k) \<in> U n" "(q, l) \<in> U m" "n < m"
  shows "(p + k) div 4096 < q div 4096"
proof -
  obtain c B where h: "heap_inv s n c B" "U n = blocks (heap_lo s n) c" by (rule heaps_ok_block [OF ok p(1)])
  obtain d D where g: "heap_inv s m d D" "U m = blocks (heap_lo s m) d" by (rule heaps_ok_block [OF ok p(2)])
  note 1 = block_facts [OF h(1), of p k] and 2 = block_facts [OF g(1), of q l]
  have "p + k < ARENA_START s n + 2 ^ 30" "ARENA_START s m < q" using 1 2 p h g by simp_all
  then have b: "p + k + 1 \<le> ARENA_START s m" "ARENA_START s m \<le> q" using arenas_apart [OF p(3), of s] by simp_all
  have "4096 dvd arena_start s" using h(1) by (simp add: heap_inv_def places_ok_def)
  then obtain w where "arena_start s = 4096 * w" by (rule dvdE)
  then have z: "ARENA_START s m = 4096 * (w + int m * 2 ^ 18)" by (simp add: ARENA_START_def)
  have "x div 4096 < y div 4096" if "x + 1 \<le> 4096 * v" "4096 * v \<le> y" for x y v :: int
  proof -
    define X Y where "X = x div 4096" and "Y = y div 4096"
    have "x mod 4096 = x - 4096 * X" "y mod 4096 = y - 4096 * Y" by (simp_all add: X_def Y_def minus_mult_div_eq_mod)
    moreover have "0 \<le> x mod 4096" "y mod 4096 < 4096" by simp_all
    ultimately have "X < v" "v < Y + 1" using that by linarith+
    then have "X < Y" by simp
    then show ?thesis by (simp add: X_def Y_def)
  qed
  then show ?thesis using b unfolding z by blast
qed

lemma malloc_law:
  assumes ok: "heaps_ok os s U" and r: "0 \<le> r" "r \<le> 229360" and n: "n < 32"
  shows "\<exists>p s'. popcorn_malloc os r (int n) s = Inr (p, s') \<and>
    (if home_of os s' p = int n then \<exists>k. r \<le> k \<and> (p, k) \<notin> U n \<and> heaps_ok os s' (U(n := insert (p, k) (U n))) else heaps_ok os s' U)"
proof -
  obtain cells where h: "node_heap os s n cells" "U n = blocks (heap_lo s n) cells" using ok n by (auto simp: heaps_ok_def)
  have lo: "blocks (heap_lo s' n) cells = U n" if "other_nodes_same n (set_arena_start os s) s'" for s'
    using other_nodes_same_places(4) [OF that] node_heap_blocks [OF h(1)] h(2) by simp
  have z: "0 < arena_start (set_arena_start os s)" "arena_start (set_arena_start os s) < 2 ^ 61"
    using node_heap_start [OF h(1)] ok by (auto simp: places_ok_def heaps_ok_def plain_elsewhere_def)
  show ?thesis
  proof (rule popcorn_malloc_node [OF h(1) r])
    fix s' assume a: "popcorn_malloc os r (int n) s = Inr (plain_malloc os (chunk_for r), s')" "node_heap os s' n cells"
      "other_nodes_same n (set_arena_start os s) s'"
    have "heaps_ok os s' U" using heaps_ok_step [OF ok n a(3,2)] lo [OF a(3)] by (simp add: fun_upd_idem)
    moreover have "arena_start s' = arena_start (set_arena_start os s)" using a(3) by (simp add: other_nodes_same_def)
    then have "home_of os s' (plain_malloc os (chunk_for r)) < 0"
      using get_arena_out [OF z(1,2)] ok by (simp add: heaps_ok_def plain_elsewhere_def)
    ultimately show ?thesis using a(1) by simp
  next
    fix p s' cells' assume a: "popcorn_malloc os r (int n) s = Inr (p, s')" "node_heap os s' n cells'" "other_nodes_same n (set_arena_start os s) s'"
      "blocks (heap_lo s' n) cells' = insert (p, chunk_for r - 16) (blocks (heap_lo s' n) cells)" "(p, chunk_for r - 16) \<notin> blocks (heap_lo s' n) cells"
    have ok': "heaps_ok os s' (U(n := insert (p, chunk_for r - 16) (U n)))" using heaps_ok_step [OF ok n a(3,2)] lo [OF a(3)] a(4) by simp
    obtain B where inv: "heap_inv s' n cells' B" using a(2,4) by (auto simp: node_heap_def)
    have "(p, chunk_for r - 16) \<in> blocks (heap_lo s' n) cells'" using a(4) by simp
    note f = block_facts [OF inv this]
    have "home_of os s' p = int n" using get_arena_in [of s' n p os] inv f by (simp add: home_of_def heap_inv_def)
    moreover have "r \<le> chunk_for r - 16" using chunk_for_facts(4) [OF r] by simp
    ultimately show ?thesis using a(1,5) ok' lo [OF a(3)] by auto
  qed
qed

lemma home_of_cong: "arena_start (set_arena_start os s') = arena_start (set_arena_start os s) \<Longrightarrow> home_of os s' = home_of os s"
  by (rule ext) (simp add: home_of_def popcorn_get_arena_def Let_def)

lemma free_law:
  assumes ok: "heaps_ok os s U" and p: "(p, k) \<in> U n"
  shows "\<exists>s' calls. popcorn_free os p s = Inr s' \<and> heaps_ok os s' (U(n := U n - {(p, k)})) \<and> home_of os s' = home_of os s \<and>
    heap_calls s' = heap_calls s @ calls"
proof -
  obtain cells B where h: "n < 32" "node_heap os s n cells" "U n = blocks (heap_lo s n) cells" by (rule heaps_ok_block [OF ok p])
  have "(p, k) \<in> blocks (heap_lo s n) cells" using p h(3) by simp
  then obtain s' cells' calls where f: "popcorn_free os p s = Inr s'" "node_heap os s' n cells'" "other_nodes_same n (set_arena_start os s) s'"
    "blocks (heap_lo s' n) cells' = blocks (heap_lo s n) cells - {(p, k)}" "heap_calls s' = heap_calls s @ calls"
    by (rule popcorn_free_node [OF h(2)])
  have "heaps_ok os s' (U(n := U n - {(p, k)}))" using heaps_ok_step [OF ok h(1) f(3,2)] f(4) h(3) by simp
  moreover have "home_of os s' = home_of os s"
    using f(3) node_heap_start [OF h(2)] by (intro home_of_cong) (simp add: other_nodes_same_def set_arena_start_again)
  ultimately show ?thesis using f(1,5) by blast
qed

section \<open>Resizing\<close>

lemma heaps_ok_calls: "heaps_ok os (heap_call c s) U = heaps_ok os s U"
proof -
  have 1: "set_arena_start os (heap_call c s) = heap_call c (set_arena_start os s)" by (simp add: set_arena_start_def heap_call_def)
  have 2: "arena_start (heap_call c s) = arena_start s" "node_sizes (heap_call c s) = node_sizes s" "heap_lo (heap_call c s) n = heap_lo s n"
    "places_ok (heap_call c s) = places_ok s" for s n by (simp_all add: heap_call_def heap_lo_def ARENA_START_def places_ok_def)
  have "arena_fresh (heap_call c s) n = arena_fresh s n" for s n by (simp add: arena_fresh_def 2) (simp add: heap_call_def BIN_at)
  then have "node_heap os (heap_call c s) n cells = node_heap os s n cells" for n cells by (simp add: node_heap_def 1 2 heap_inv_calls)
  then show ?thesis by (simp add: heaps_ok_def 1 2)
qed

text \<open>
  A block of \<open>r\<close> bytes asked for on node \<open>n\<close> with the result \<open>p'\<close>, besides the blocks \<open>V\<close>; and what has become of a block
  \<open>(p, k)\<close> of node \<open>c\<close> after resizing: it is still there, possibly longer, if the result is 0, and else replaced, with its
  contents at the same place or copied.
\<close>

definition given :: "('s \<Rightarrow> (nat \<Rightarrow> (int \<times> int) set) \<Rightarrow> bool) \<Rightarrow> ('s \<Rightarrow> int \<Rightarrow> int) \<Rightarrow> (nat \<Rightarrow> (int \<times> int) set) \<Rightarrow> int \<Rightarrow> nat \<Rightarrow> int \<Rightarrow> 's \<Rightarrow> bool" where
  "given ok home V r n p' s' \<longleftrightarrow>
     (if home s' p' = int n then \<exists>k'. r \<le> k' \<and> (p', k') \<notin> V n \<and> ok s' (V(n := insert (p', k') (V n))) else ok s' V)"

definition resized :: "('s \<Rightarrow> (nat \<Rightarrow> (int \<times> int) set) \<Rightarrow> bool) \<Rightarrow> ('s \<Rightarrow> int \<Rightarrow> int) \<Rightarrow>
    (nat \<Rightarrow> (int \<times> int) set) \<Rightarrow> int \<Rightarrow> int \<Rightarrow> nat \<Rightarrow> int \<Rightarrow> nat \<Rightarrow> int \<Rightarrow> 's \<Rightarrow> bool" where
  "resized ok home U p k c r n p' s' \<longleftrightarrow>
     (if p' = 0 then \<exists>k'. k \<le> k' \<and> (p, k') \<notin> U c - {(p, k)} \<and> ok s' (U(c := insert (p, k') (U c - {(p, k)})))
      else given ok home (U(c := U c - {(p, k)})) r n p' s')"

definition copied :: "int \<Rightarrow> int \<Rightarrow> int \<Rightarrow> heap_state \<Rightarrow> bool" where
  "copied p p' len s \<longleftrightarrow> p' = 0 \<or> p' = p \<or> (\<exists>l. len \<le> l \<and> Memcpy p' p l \<in> set (heap_calls s))"

lemma copied_le: "copied p p' len s \<Longrightarrow> len' \<le> len \<Longrightarrow> copied p p' len' s"
  unfolding copied_def by (meson order_trans)

lemma resized_new: "p' \<noteq> 0 \<Longrightarrow> given ok home (U(c := U c - {(p, k)})) r n p' s' \<Longrightarrow> resized ok home U p k c r n p' s'"
  by (simp add: resized_def)

lemma resized_old:
  assumes "k \<le> k'" "(p, k') \<notin> U c - {(p, k)}" "ok s' (U(c := insert (p, k') (U c - {(p, k)})))"
  shows "resized ok home U p k c r n 0 s'"
  unfolding resized_def if_P [OF refl] using assms by blast

lemma given_here:
  assumes "home s' p' = int n" "r \<le> k'" "(p', k') \<notin> V n" "ok s' (V(n := insert (p', k') (V n)))"
  shows "given ok home V r n p' s'"
  unfolding given_def if_P [OF assms(1)] using assms(2-4) by blast

lemma heaps_ok_positive:
  assumes "heaps_ok os s U" "(p, k) \<in> U n"
  shows "0 < p" "16 \<le> k"
proof -
  obtain cells B where h: "heap_inv s n cells B" "U n = blocks (heap_lo s n) cells" by (rule heaps_ok_block [OF assms])
  have "(p, k) \<in> blocks (heap_lo s n) cells" using assms(2) h(2) by simp
  note f = block_facts [OF h(1) this]
  have "0 < ARENA_START s n" using h(1) by (simp add: heap_inv_def places_ok_def ARENA_START_def)
  then show "0 < p" "16 \<le> k" using f by simp_all
qed

lemma block_unique:
  assumes "heaps_ok os s U" "(p, k) \<in> U n" "(p, l) \<in> U n"
  shows "k = l"
proof -
  obtain cells B where h: "heap_inv s n cells B" "U n = blocks (heap_lo s n) cells" by (rule heaps_ok_block [OF assms(1,2)])
  then show ?thesis
    using block_apart [OF h(1), of p k p l] heaps_ok_positive(2) [OF assms(1,2)] heaps_ok_positive(2) [OF assms(1,3)] assms(2,3) by auto
qed

lemma home_of_block:
  assumes "heaps_ok os s U" "(p, k) \<in> U n"
  shows "home_of os s p = int n"
proof -
  obtain cells B where h: "n < 32" "heap_inv s n cells B" "U n = blocks (heap_lo s n) cells" by (rule heaps_ok_block [OF assms])
  have "(p, k) \<in> blocks (heap_lo s n) cells" using assms(2) h(3) by simp
  note f = block_facts [OF h(2) this]
  have "p < ARENA_START s n + 2 ^ 30" "places_ok s" using f h(2) by (simp_all add: heap_inv_def)
  then show ?thesis using get_arena_in [of s n p os] h(1) f(1) by (simp add: home_of_def)
qed

lemma copy_block:
  assumes ok: "heaps_ok os s U" and p: "(p, k) \<in> U c" and r: "0 \<le> r'" "r' \<le> 229360" "r \<le> r'" and n: "n < 32"
  shows "\<exists>p' s'. bindE (popcorn_malloc os r' (int n) s) (\<lambda>(new, s). if new = 0 then Inr (0, s)
      else bindE (popcorn_free os p (heap_call (Memcpy new p len) s)) (\<lambda>s. Inr (new, s))) = Inr (p', s') \<and>
    copied p p' len s' \<and> (if p' = 0 then heaps_ok os s' U else given (heaps_ok os) (home_of os) (U(c := U c - {(p, k)})) r n p' s')"
proof -
  obtain p' s1 where m: "popcorn_malloc os r' (int n) s = Inr (p', s1)"
    "if home_of os s1 p' = int n then \<exists>k. r' \<le> k \<and> (p', k) \<notin> U n \<and> heaps_ok os s1 (U(n := insert (p', k) (U n))) else heaps_ok os s1 U"
    using malloc_law [OF ok r(1,2) n] by blast
  show ?thesis
  proof (cases "home_of os s1 p' = int n")
    case True
    then obtain k' where k': "r' \<le> k'" "(p', k') \<notin> U n" "heaps_ok os s1 (U(n := insert (p', k') (U n)))" using m(2) by auto
    let ?U = "U(n := insert (p', k') (U n))" and ?s = "heap_call (Memcpy p' p len) s1"
    have new: "p' \<noteq> 0" using heaps_ok_positive(1) [OF k'(3), of p' k' n] by simp
    have "heaps_ok os ?s ?U" using k'(3) by (simp add: heaps_ok_calls)
    moreover have "(p, k) \<in> ?U c" using p by auto
    ultimately obtain s2 calls where f: "popcorn_free os p ?s = Inr s2" "heaps_ok os s2 (?U(c := ?U c - {(p, k)}))"
      "home_of os s2 = home_of os ?s" "heap_calls s2 = heap_calls ?s @ calls" using free_law by blast
    let ?V = "U(c := U c - {(p, k)})"
    have eq: "?U(c := ?U c - {(p, k)}) = ?V(n := insert (p', k') (?V n))"
      using k'(2) p by (cases "c = n") (auto simp: fun_eq_iff)
    have "home_of os ?s = home_of os s1" by (rule home_of_cong) (simp add: set_arena_start_def heap_call_def)
    then have home: "home_of os s2 p' = int n" using f(3) True by simp
    have cp: "copied p p' len s2" by (auto simp: copied_def f(4) heap_call_def)
    have "(p', k') \<notin> ?V n" "r \<le> k'" "heaps_ok os s2 (?V(n := insert (p', k') (?V n)))"
      using k'(1,2) r(3) f(2) unfolding eq by auto
    then have "given (heaps_ok os) (home_of os) ?V r n p' s2" using home by (intro given_here)
    then show ?thesis using m(1) f(1) new cp by simp
  next
    case False
    then have ok1: "heaps_ok os s1 U" using m(2) by simp
    show ?thesis
    proof (cases "p' = 0")
      case True
      show ?thesis using m(1) ok1 True by (simp add: copied_def)
    next
      case new: False
      let ?s = "heap_call (Memcpy p' p len) s1" and ?V = "U(c := U c - {(p, k)})"
      have "heaps_ok os ?s U" using ok1 by (simp add: heaps_ok_calls)
      then obtain s2 calls where f: "popcorn_free os p ?s = Inr s2" "heaps_ok os s2 (U(c := U c - {(p, k)}))"
        "home_of os s2 = home_of os ?s" "heap_calls s2 = heap_calls ?s @ calls" using free_law [of os ?s U p k c] p by blast
      have "home_of os ?s = home_of os s1" by (rule home_of_cong) (simp add: set_arena_start_def heap_call_def)
      then have home: "home_of os s2 p' \<noteq> int n" using f(3) False by simp
      have cp: "copied p p' len s2" by (auto simp: copied_def f(4) heap_call_def)
      have "given (heaps_ok os) (home_of os) ?V r n p' s2" unfolding given_def if_not_P [OF home] by (rule f(2))
      then show ?thesis using m(1) f(1) new cp by simp
    qed
  qed
qed

lemma blocks_replace:
  assumes inv: "heap_inv s n (xs @ (k, True) # ys) B" and c: "c = heap_lo s n + extent xs"
    and used: "used_chunks (heap_lo s n) cells' = insert (c, m) (used_chunks (heap_lo s n) xs \<union> used_chunks (c + k) ys)"
  shows "blocks (heap_lo s n) cells' = insert (c + 16, m - 16) (blocks (heap_lo s n) (xs @ (k, True) # ys) - {(c + 16, k - 16)})"
proof -
  let ?r = "used_chunks (heap_lo s n) xs \<union> used_chunks (c + k) ys"
  note hc = heap_chunk [OF inv c]
  have "(c, k) \<notin> ?r" using used_chunks_range [OF hc(13)] used_chunks_range [OF hc(14)] hc(1) by fastforce
  moreover have "used_chunks (heap_lo s n) (xs @ (k, True) # ys) = insert (c, k) ?r" by (simp add: c add.assoc)
  ultimately have "used_chunks (heap_lo s n) cells' = insert (c, m) (used_chunks (heap_lo s n) (xs @ (k, True) # ys) - {(c, k)})"
    using used by simp
  moreover have "inj (\<lambda>(c :: int, sz :: int). (c + 16, sz - 16))" by (auto intro: injI)
  ultimately show ?thesis by (simp add: blocks_def image_set_diff)
qed

lemma node_heap_outside:
  assumes "node_heap os s n cells" "arena_start s \<noteq> 0" "node_sizes s n = 2 ^ 30" "heap_inv s' n cells' B" "same_outside n s s'"
  shows "node_heap os s' n cells'" "other_nodes_same n (set_arena_start os s) s'"
  using assms same_outside_other_nodes [OF assms(5)] by (auto simp: node_heap_def same_outside_def set_arena_start_again)

lemma realloc_law:
  assumes ok: "heaps_ok os s U" and p: "(p, k) \<in> U c" and r: "0 \<le> r" "r \<le> 229328" and n: "n < 32"
  shows "\<exists>p' s'. popcorn_realloc os p r (int n) s = Inr (p', s') \<and> copied p p' (min r k) s' \<and>
    resized (heaps_ok os) (home_of os) U p k c r n p' s'"
proof -
  let ?m = "chunk_for r" and ?c = "p - 16" and ?k = "k + 16"
  have r': "r \<le> 229360" using r(2) by simp
  note m = chunk_for_facts [OF r(1) r']
  have m2: "?m \<le> 229344" unfolding chunk_for_def using and_minus_exp [of "r + 47" 5] r by simp presburger
  have pos: "0 < p" "16 \<le> k" using heaps_ok_positive [OF ok p] by simp_all
  obtain cells B where h: "c < 32" "node_heap os s c cells" "heap_inv s c cells B" "U c = blocks (heap_lo s c) cells" "arena_start s \<noteq> 0"
    by (rule heaps_ok_block [OF ok p])
  have pb: "(p, k) \<in> blocks (heap_lo s c) cells" using p h(4) by simp
  note f = block_facts [OF h(3) pb]
  have "(?c, ?k, True) \<in> set (chunks (heap_lo s c) cells)" using pb by (simp add: blocks_iff used_chunks_def)
  then obtain xs ys where cells: "cells = xs @ (?k, True) # ys" "?c = heap_lo s c + extent xs" by (rule chunks_split)
  have inv: "heap_inv s c (xs @ (?k, True) # ys) B" using h(3) cells(1) by simp
  note hc = heap_chunk [OF inv cells(2)]
  have ga: "popcorn_get_arena os p s = (int c, s)" using f h(1) hc(11) by (intro get_arena_in) simp_all
  have used: "\<not> IS_MMAPPED s ?c" using hc(4) tag_simps(2) [OF hc(2), of True] by (simp add: IS_MMAPPED_def)
  have footer: "ck_psize s (NEXT_CHUNK s ?c) = ck_csize s ?c" using hc(4,5,7) by simp
  have k: "u64 k = k" using pos hc(3) by simp
  show ?thesis
  proof (cases "c = n")
    case False
    have run: "popcorn_realloc os p r (int n) s = bindE (popcorn_malloc os ?m (int n) s) (\<lambda>(new, s). if new = 0 then Inr (0, s)
        else bindE (popcorn_free os p (heap_call (Memcpy new p (if ?m < k then ?m else k)) s)) (\<lambda>s. Inr (new, s)))"
      using False n pos ga used by (simp add: popcorn_realloc_def m(5) MEM_TO_CHUNK_def hc(6) k Let_def cong: if_cong)
    have "0 \<le> ?m" "?m \<le> 229360" "r \<le> ?m" using m m2 by simp_all
    from copy_block [OF ok p this n, of "if ?m < k then ?m else k"] obtain p' s' where
      x: "popcorn_realloc os p r (int n) s = Inr (p', s')" "copied p p' (if ?m < k then ?m else k) s'"
      "if p' = 0 then heaps_ok os s' U else given (heaps_ok os) (home_of os) (U(c := U c - {(p, k)})) r n p' s'"
      unfolding run by blast
    have "resized (heaps_ok os) (home_of os) U p k c r n p' s'"
    proof (cases "p' = 0")
      case True
      have "U(c := insert (p, k) (U c - {(p, k)})) = U" using p by (auto simp: fun_eq_iff)
      then show ?thesis using resized_old [of k k p U c "heaps_ok os" s'] x(3) True by simp
    qed (use x(3) in \<open>simp add: resized_new\<close>)
    moreover have "copied p p' (min r k) s'" using x(2) by (rule copied_le) (use m in auto)
    ultimately show ?thesis using x(1) by blast
  next
    case True
    obtain g s1 k1 nc s2 ys' B2 where gr: "(if ?k < ?m then alloc_fwd (?c + ?k) n s else (False, s)) = (g, s1)"
      "(if g then (u64 (?k + CHUNK_SIZE s1 (?c + ?k)), NEXT_CHUNK s1 (?c + ?k)) else (?k, ?c + ?k)) = (k1, nc)"
      "s2 = s1\<lparr>ck_csize := (ck_csize s1)(?c := k1 OR 3), ck_psize := (ck_psize s1)(nc := k1 OR 3)\<rparr>"
      "heap_inv s2 n (xs @ (k1, True) # ys') B2" "?k \<le> k1" "same_outside n s s2" "used_chunks (?c + k1) ys' = used_chunks (?c + ?k) ys"
      "heap_calls s2 = heap_calls s" "32 dvd k1"
      by (rule grow_chunk [of s n xs ?k ys B ?c ?m]) (use inv cells(2) True in simp_all)
    have run: "popcorn_realloc os p r (int n) s =
        (if ?m \<le> k1 then bindE (trim os ?c ?m s2) (\<lambda>s. Inr (CHUNK_TO_MEM ?c, s))
         else bindE (popcorn_malloc os (?m - 16) (int n) s2) (\<lambda>(new, s). if new = 0 then Inr (0, s)
           else bindE (popcorn_free os (CHUNK_TO_MEM ?c) (heap_call (Memcpy new p k) s)) (\<lambda>s. Inr (new, s))))"
    proof -
      have fw: "?k < ?m \<Longrightarrow> alloc_fwd (?c + ?k) n s = (g, s1)" "\<not> ?k < ?m \<Longrightarrow> \<not> g \<and> s1 = s"
        "g \<Longrightarrow> u64 (?k + CHUNK_SIZE s1 (?c + ?k)) = k1 \<and> NEXT_CHUNK s1 (?c + ?k) = nc" "\<not> g \<Longrightarrow> k1 = ?k \<and> nc = ?c + ?k"
        using gr(1,2) by (auto split: if_splits)
      show ?thesis using fw footer n pos ga used True
        by (cases "?k < ?m"; cases g) (simp_all add: popcorn_realloc_def m(5) MEM_TO_CHUNK_def hc(6,7) k gr(3) Let_def cong: if_cong)
    qed
    have lo2: "heap_lo s2 n = heap_lo s n" by (rule same_outside_places(4) [OF gr(6)])
    have c2: "?c = heap_lo s2 n + extent xs" using cells(2) True by (simp add: lo2)
    have inv': "heap_inv s n (xs @ (?k, True) # ys) B" and c': "?c = heap_lo s n + extent xs" using inv cells(2) True by simp_all
    have Un: "U n = blocks (heap_lo s n) (xs @ (?k, True) # ys)" using h(4) cells(1) True by simp
    have ok_after: "heaps_ok os s3 (U(n := insert (p, q - 16) (U n - {(p, k)})))"
      if a: "heap_inv s3 n cells3 B3" "same_outside n s s3"
        "used_chunks (heap_lo s n) cells3 = insert (?c, q) (used_chunks (heap_lo s n) xs \<union> used_chunks (?c + ?k) ys)" for s3 cells3 B3 q
    proof -
      have "node_sizes s n = 2 ^ 30" using h(2,5) True cells(1) by (auto simp: node_heap_def)
      note o = node_heap_outside [OF h(2) [unfolded True] h(5) this a(1,2)]
      have "heap_lo s3 n = heap_lo s n" by (rule same_outside_places(4) [OF a(2)])
      moreover have "blocks (heap_lo s n) cells3 = insert (p, q - 16) (U n - {(p, k)})" using blocks_replace [OF inv' c' a(3)] by (simp add: Un)
      ultimately show ?thesis using heaps_ok_step [OF ok n o(2,1)] by simp
    qed
    have "p \<noteq> 0" using pos by simp
    have pn: "(p, k) \<in> U n" using p True by simp
    have uniq: "x = k" if "(p, x) \<in> U n" for x by (rule block_unique [OF ok that pn])
    show ?thesis
    proof (cases "?m \<le> k1")
      case fits: True
      obtain s3 cells3 B3 where t: "trim os ?c ?m s2 = Inr s3" "heap_inv s3 n cells3 B3" "same_outside n s2 s3"
        "used_chunks (heap_lo s2 n) cells3 = insert (?c, ?m) (used_chunks (heap_lo s2 n) xs \<union> used_chunks (?c + k1) ys')"
        by (rule trim_chunk [OF gr(4) c2 m(1) fits m(3)])
      let ?V = "U(n := U n - {(p, k)})"
      have "heaps_ok os s3 (U(n := insert (p, ?m - 16) (U n - {(p, k)})))"
        using ok_after [OF t(2) same_outside_trans [OF gr(6) t(3)]] t(4) by (simp add: lo2 gr(7))
      then have ok3: "heaps_ok os s3 (?V(n := insert (p, ?m - 16) (?V n)))" by simp
      have "home_of os s3 p = int n" by (rule home_of_block [OF ok3, of _ "?m - 16"]) simp
      moreover have "(p, ?m - 16) \<notin> ?V n" unfolding fun_upd_same using uniq by blast
      moreover have "r \<le> ?m - 16" using m(4) by simp
      ultimately have "given (heaps_ok os) (home_of os) ?V r n p s3" using ok3 by (intro given_here)
      then have "resized (heaps_ok os) (home_of os) U p k c r n p s3" using \<open>p \<noteq> 0\<close> True by (simp add: resized_def)
      moreover have "popcorn_realloc os p r (int n) s = Inr (p, s3)" using run fits t(1) by (simp add: CHUNK_TO_MEM_def)
      ultimately show ?thesis by (auto simp: copied_def)
    next
      case False
      let ?U = "U(n := insert (p, k1 - 16) (U n - {(p, k)}))"
      have "used_chunks (heap_lo s n) (xs @ (k1, True) # ys') =
          insert (heap_lo s n + extent xs, k1) (used_chunks (heap_lo s n) xs \<union> used_chunks (heap_lo s n + extent xs + k1) ys')"
        by (simp add: add.assoc)
      then have ok2: "heaps_ok os s2 ?U" unfolding c' [symmetric] gr(7) by (rule ok_after [OF gr(4,6)])
      have new: "(p, k1 - 16) \<notin> U n - {(p, k)}" using uniq by blast
      then have V: "?U(n := ?U n - {(p, k1 - 16)}) = U(n := U n - {(p, k)})" by simp
      have mem: "(p, k1 - 16) \<in> ?U n" by simp
      have "CHUNK_TO_MEM ?c = p" by (simp add: CHUNK_TO_MEM_def)
      note run' = run [unfolded this if_not_P [OF False]]
      have "0 \<le> ?m - 16" "?m - 16 \<le> 229360" "r \<le> ?m - 16" using m by simp_all
      from copy_block [OF ok2 mem this n, of k] obtain p' s' where
        x: "popcorn_realloc os p r (int n) s = Inr (p', s')" "copied p p' k s'"
        "if p' = 0 then heaps_ok os s' ?U else given (heaps_ok os) (home_of os) (U(n := U n - {(p, k)})) r n p' s'"
        unfolding V run' by blast
      have le: "k \<le> k1 - 16" using gr(5) by simp
      have "resized (heaps_ok os) (home_of os) U p k c r n p' s'"
      proof (cases "p' = 0")
        case zero: True
        show ?thesis using resized_old [OF le, of p U n "heaps_ok os" s'] x(3) zero new True by simp
      qed (use x(3) True in \<open>simp add: resized_new\<close>)
      moreover have "copied p p' (min r k) s'" using x(2) by (rule copied_le) simp
      ultimately show ?thesis using x(1) by blast
    qed
  qed
qed

end
