(* ===== verification/Node_Heap_Programs.thy ===== *)
theory Node_Heap_Programs
  imports Node_Heap_Store
begin

text \<open>
  Programs over the heaps of the nodes. The locale \<open>node_store\<close> states what a program relies on: allocation on a node gives
  a block that is not in use, freeing takes exactly its block out of use, resizing replaces a block, blocks in use do not
  overlap, and those of different nodes have no page in common. It is interpreted on \<open>popcorn_malloc\<close>, \<open>popcorn_free\<close>
  and \<open>popcorn_realloc\<close>.
\<close>

section \<open>Programs\<close>

datatype request = Take int nat | Give nat | Resize nat int nat

text \<open>
  A program that allocates and frees, and its blocks: address, length asked for, and node. Memory that is not from the node
  asked for (from \<open>malloc\<close>) is not followed further. \<open>Give i\<close> frees the block at position \<open>i\<close>, and \<open>Resize i r n\<close> resizes it on node \<open>n\<close>;
  without success it keeps the block.
\<close>

fun serve :: "(int \<Rightarrow> nat \<Rightarrow> 's \<Rightarrow> (int \<times> 's) result) \<Rightarrow> (int \<Rightarrow> 's \<Rightarrow> 's result) \<Rightarrow> (int \<Rightarrow> int \<Rightarrow> nat \<Rightarrow> 's \<Rightarrow> (int \<times> 's) result) \<Rightarrow>
    ('s \<Rightarrow> int \<Rightarrow> int) \<Rightarrow> request list \<Rightarrow> 's \<Rightarrow> (int \<times> int \<times> nat) list \<Rightarrow> ('s \<times> (int \<times> int \<times> nat) list) result" where
  "serve alloc dealloc resize home [] s live = Inr (s, live)"
| "serve alloc dealloc resize home (Take r n # rs) s live =
     bindE (alloc r n s) (\<lambda>(p, s).
     serve alloc dealloc resize home rs s (if home s p = int n then live @ [(p, r, n)] else live))"
| "serve alloc dealloc resize home (Give i # rs) s live =
     (if i < length live then
        bindE (dealloc (fst (live ! i)) s) (\<lambda>s. serve alloc dealloc resize home rs s (take i live @ drop (Suc i) live))
      else serve alloc dealloc resize home rs s live)"
| "serve alloc dealloc resize home (Resize i r n # rs) s live =
     (if i < length live then
        bindE (resize (fst (live ! i)) r n s) (\<lambda>(p, s).
        let rest = take i live @ drop (Suc i) live in
        serve alloc dealloc resize home rs s (if p = 0 then live else if home s p = int n then rest @ [(p, r, n)] else rest))
      else serve alloc dealloc resize home rs s live)"

fun request_ok :: "int \<Rightarrow> request \<Rightarrow> bool" where
  "request_ok limit (Take r n) \<longleftrightarrow> 0 \<le> r \<and> r \<le> limit \<and> n < 32"
| "request_ok limit (Give i) \<longleftrightarrow> True"
| "request_ok limit (Resize i r n) \<longleftrightarrow> 0 \<le> r \<and> r \<le> limit \<and> n < 32"

text \<open>The blocks of a program as the heaps have them.\<close>

definition held :: "(nat \<Rightarrow> (int \<times> int) set) \<Rightarrow> (int \<times> int \<times> nat) list \<Rightarrow> bool" where
  "held U live \<longleftrightarrow> (\<exists>bl. list_all2 (\<lambda>(p, k, n) (q, r, m). p = q \<and> n = m \<and> r \<le> k) bl live \<and> distinct bl \<and>
     (\<forall>n. U n = {(p, k). (p, k, n) \<in> set bl}))"

lemma held_Nil: "held (\<lambda>_. {}) []"
  by (simp add: held_def)

lemma held_none: "held U [] \<Longrightarrow> U n = {}"
  by (auto simp: held_def)

lemma held_take:
  assumes "held U live" "(p, k) \<notin> U n" "r \<le> k"
  shows "held (U(n := insert (p, k) (U n))) (live @ [(p, r, n)])"
proof -
  obtain bl where bl: "list_all2 (\<lambda>(p, k, n) (q, r, m). p = q \<and> n = m \<and> r \<le> k) bl live" "distinct bl"
    "\<And>n. U n = {(p, k). (p, k, n) \<in> set bl}" using assms(1) by (auto simp: held_def)
  have "list_all2 (\<lambda>(p, k, n) (q, r, m). p = q \<and> n = m \<and> r \<le> k) (bl @ [(p, k, n)]) (live @ [(p, r, n)])"
    using bl(1) assms(3) by (simp add: list_all2_appendI)
  moreover have "(p, k, n) \<notin> set bl" using assms(2) bl(3) by simp
  then have "distinct (bl @ [(p, k, n)])" using bl(2) by simp
  moreover have "(U(n := insert (p, k) (U n))) m = {(q, l). (q, l, m) \<in> set (bl @ [(p, k, n)])}" for m using bl(3) by auto
  ultimately show ?thesis unfolding held_def by blast
qed

lemma held_given:
  assumes "given ok home V r n p s'" "held V live"
  shows "\<exists>U. ok s' U \<and> held U (if home s' p = int n then live @ [(p, r, n)] else live)"
proof (cases "home s' p = int n")
  case True
  then obtain k where "r \<le> k" "(p, k) \<notin> V n" "ok s' (V(n := insert (p, k) (V n)))" using assms(1) by (auto simp: given_def)
  then show ?thesis using held_take [OF assms(2)] True by auto
qed (use assms in \<open>auto simp: given_def\<close>)

lemma held_give:
  assumes "held U live" "i < length live"
  obtains k n where "(fst (live ! i), k) \<in> U n" "held (U(n := U n - {(fst (live ! i), k)})) (take i live @ drop (Suc i) live)"
    "\<And>k'. k \<le> k' \<Longrightarrow> (fst (live ! i), k') \<notin> U n - {(fst (live ! i), k)} \<Longrightarrow> held (U(n := insert (fst (live ! i), k') (U n - {(fst (live ! i), k)}))) live"
proof -
  obtain bl where bl: "list_all2 (\<lambda>(p, k, n) (q, r, m). p = q \<and> n = m \<and> r \<le> k) bl live" "distinct bl"
    "\<And>n. U n = {(p, k). (p, k, n) \<in> set bl}" using assms(1) by (auto simp: held_def)
  have len: "length bl = length live" by (rule list_all2_lengthD [OF bl(1)])
  obtain p k n where b: "bl ! i = (p, k, n)" by (cases "bl ! i") auto
  then have p: "p = fst (live ! i)" using list_all2_nthD [OF bl(1), of i] assms(2) len by (auto split: prod.splits)
  have split: "bl = take i bl @ (p, k, n) # drop (Suc i) bl" using id_take_nth_drop [of i bl] assms(2) len b by simp
  have mem: "(p, k, n) \<in> set bl" using nth_mem [of i bl] b assms(2) len by simp
  let ?bl = "take i bl @ drop (Suc i) bl"
  have "set bl = set (take i bl @ (p, k, n) # drop (Suc i) bl)" by (simp flip: split)
  then have "set bl = insert (p, k, n) (set ?bl)" by simp
  moreover have "distinct (take i bl @ (p, k, n) # drop (Suc i) bl)" using bl(2) split by simp
  then have d: "distinct ?bl" "(p, k, n) \<notin> set ?bl" by auto
  ultimately have set: "set ?bl = set bl - {(p, k, n)}" by blast
  have "list_all2 (\<lambda>(p, k, n) (q, r, m). p = q \<and> n = m \<and> r \<le> k) ?bl (take i live @ drop (Suc i) live)"
    using bl(1) by (intro list_all2_appendI list_all2_takeI list_all2_dropI)
  moreover have "(U(n := U n - {(p, k)})) m = {(q, l). (q, l, m) \<in> set ?bl}" for m unfolding set using bl(3) by auto
  ultimately have "held (U(n := U n - {(p, k)})) (take i live @ drop (Suc i) live)" unfolding held_def using d(1) by blast
  moreover have "(p, k) \<in> U n" using mem by (simp add: bl(3))
  moreover have "held (U(n := insert (p, k') (U n - {(p, k)}))) live" if k': "k \<le> k'" "(p, k') \<notin> U n - {(p, k)}" for k'
  proof -
    let ?new = "take i bl @ (p, k', n) # drop (Suc i) bl"
    have "live = take i live @ live ! i # drop (Suc i) live" by (rule id_take_nth_drop [OF assms(2)])
    moreover have "(\<lambda>(p, k, n) (q, r, m). p = q \<and> n = m \<and> r \<le> k) (p, k', n) (live ! i)"
      using list_all2_nthD [OF bl(1), of i] assms(2) len b k'(1) by (auto split: prod.splits)
    ultimately have "list_all2 (\<lambda>(p, k, n) (q, r, m). p = q \<and> n = m \<and> r \<le> k) ?new live"
      using bl(1) by (metis (no_types, lifting) list.rel_intros(2) list_all2_appendI list_all2_dropI list_all2_takeI)
    moreover have "(p, k', n) \<notin> set ?bl" using k'(2) set bl(3) by auto
    then have "distinct ?new" using d(1) by auto
    moreover have "set ?new = insert (p, k', n) (set ?bl)" by auto
    then have "(U(n := insert (p, k') (U n - {(p, k)}))) m = {(q, l). (q, l, m) \<in> set ?new}" for m unfolding set using bl(3) by auto
    ultimately show ?thesis unfolding held_def by blast
  qed
  ultimately show ?thesis using that [of k n] unfolding p by blast
qed

section \<open>What programs rely on\<close>

locale node_store =
  fixes ok :: "'s \<Rightarrow> (nat \<Rightarrow> (int \<times> int) set) \<Rightarrow> bool"
    and alloc :: "int \<Rightarrow> nat \<Rightarrow> 's \<Rightarrow> (int \<times> 's) result"
    and dealloc :: "int \<Rightarrow> 's \<Rightarrow> 's result"
    and resize :: "int \<Rightarrow> int \<Rightarrow> nat \<Rightarrow> 's \<Rightarrow> (int \<times> 's) result"
    and home :: "'s \<Rightarrow> int \<Rightarrow> int"
    and limit :: int
  assumes alloc: "ok s U \<Longrightarrow> 0 \<le> r \<Longrightarrow> r \<le> limit \<Longrightarrow> n < 32 \<Longrightarrow> \<exists>p s'. alloc r n s = Inr (p, s') \<and> given ok home U r n p s'"
    and dealloc: "ok s U \<Longrightarrow> (p, k) \<in> U n \<Longrightarrow> \<exists>s'. dealloc p s = Inr s' \<and> ok s' (U(n := U n - {(p, k)}))"
    and resize: "ok s U \<Longrightarrow> (p, k) \<in> U c \<Longrightarrow> 0 \<le> r \<Longrightarrow> r \<le> limit \<Longrightarrow> n < 32 \<Longrightarrow>
      \<exists>p' s'. resize p r n s = Inr (p', s') \<and> resized ok home U p k c r n p' s'"
    and apart: "ok s U \<Longrightarrow> (p, k) \<in> U n \<Longrightarrow> (q, l) \<in> U m \<Longrightarrow> (p, k, n) = (q, l, m) \<or> p + k \<le> q \<or> q + l \<le> p"
    and pages: "ok s U \<Longrightarrow> (p, k) \<in> U n \<Longrightarrow> (q, l) \<in> U m \<Longrightarrow> n \<noteq> m \<Longrightarrow> (p + k) div 4096 < q div 4096 \<or> (q + l) div 4096 < p div 4096"
begin

lemma serves:
  assumes "ok s U" "held U live" "\<forall>q \<in> set rs. request_ok limit q"
  shows "\<exists>s' live' U'. serve alloc dealloc resize home rs s live = Inr (s', live') \<and> ok s' U' \<and> held U' live'"
  using assms
proof (induction rs arbitrary: s U live)
  case (Cons x rs)
  have rs: "\<forall>q \<in> set rs. request_ok limit q" using Cons.prems(3) by simp
  note IH = Cons.IH [OF _ _ rs]
  show ?case
  proof (cases x)
    case (Take r n)
    then obtain p s' where a: "alloc r n s = Inr (p, s')" "given ok home U r n p s'"
      using alloc [OF Cons.prems(1), of r n] Cons.prems(3) by auto
    obtain V where "ok s' V" "held V (if home s' p = int n then live @ [(p, r, n)] else live)"
      using held_given [OF a(2) Cons.prems(2)] by blast
    from IH [OF this] show ?thesis by (simp add: Take a(1))
  next
    case (Give i)
    show ?thesis
    proof (cases "i < length live")
      case True
      obtain k n where h: "(fst (live ! i), k) \<in> U n" "held (U(n := U n - {(fst (live ! i), k)})) (take i live @ drop (Suc i) live)"
        by (rule held_give [OF Cons.prems(2) True])
      obtain s' where d: "dealloc (fst (live ! i)) s = Inr s'" "ok s' (U(n := U n - {(fst (live ! i), k)}))"
        using dealloc [OF Cons.prems(1) h(1)] by blast
      from IH [OF d(2) h(2)] show ?thesis using True by (simp add: Give d(1))
    qed (use IH [OF Cons.prems(1,2)] in \<open>simp add: Give\<close>)
  next
    case (Resize i r n)
    show ?thesis
    proof (cases "i < length live")
      case True
      let ?rest = "take i live @ drop (Suc i) live"
      obtain k c where h: "(fst (live ! i), k) \<in> U c" "held (U(c := U c - {(fst (live ! i), k)})) ?rest"
        "\<And>k'. k \<le> k' \<Longrightarrow> (fst (live ! i), k') \<notin> U c - {(fst (live ! i), k)} \<Longrightarrow> held (U(c := insert (fst (live ! i), k') (U c - {(fst (live ! i), k)}))) live"
        by (rule held_give [OF Cons.prems(2) True]) blast
      have "0 \<le> r" "r \<le> limit" "n < 32" using Cons.prems(3) Resize by simp_all
      from resize [OF Cons.prems(1) h(1) this] obtain p s' where d: "resize (fst (live ! i)) r n s = Inr (p, s')"
        "resized ok home U (fst (live ! i)) k c r n p s'" by blast
      obtain V where "ok s' V" "held V (if p = 0 then live else if home s' p = int n then ?rest @ [(p, r, n)] else ?rest)"
        using d(2) h(3) held_given [OF _ h(2), of ok home r n p s'] by (cases "p = 0") (auto simp: resized_def)
      from IH [OF this] show ?thesis using True by (simp add: Resize d(1) Let_def)
    qed (use IH [OF Cons.prems(1,2)] in \<open>simp add: Resize\<close>)
  qed
qed auto

lemma held_apart:
  assumes "ok s U" "held U live" "i < j" "j < length live" "live ! i = (p, r, n)" "live ! j = (q, l, m)"
  shows "p + r \<le> q \<or> q + l \<le> p" "n \<noteq> m \<Longrightarrow> (p + r) div 4096 < q div 4096 \<or> (q + l) div 4096 < p div 4096"
proof -
  obtain bl where bl: "list_all2 (\<lambda>(p, k, n) (q, r, m). p = q \<and> n = m \<and> r \<le> k) bl live" "distinct bl"
    "\<And>n. U n = {(p, k). (p, k, n) \<in> set bl}" using assms(2) by (auto simp: held_def)
  have len: "length bl = length live" by (rule list_all2_lengthD [OF bl(1)])
  obtain k where k: "bl ! i = (p, k, n)" "r \<le> k" using list_all2_nthD [OF bl(1), of i] assms(3,4,5) len by (auto split: prod.splits)
  obtain h where h: "bl ! j = (q, h, m)" "l \<le> h" using list_all2_nthD [OF bl(1), of j] assms(4,6) len by (auto split: prod.splits)
  have "(p, k, n) \<in> set bl" "(q, h, m) \<in> set bl" using nth_mem [of i bl] nth_mem [of j bl] k h assms(3,4) len by auto
  then have U: "(p, k) \<in> U n" "(q, h) \<in> U m" by (simp_all add: bl(3))
  have "(p, k, n) \<noteq> (q, h, m)" using nth_eq_iff_index_eq [OF bl(2), of i j] assms(3,4) k(1) h(1) len by auto
  then show "p + r \<le> q \<or> q + l \<le> p" using apart [OF assms(1) U] k(2) h(2) by auto
  have "(p + r) div 4096 \<le> (p + k) div 4096" "(q + l) div 4096 \<le> (q + h) div 4096" using k(2) h(2) by (simp_all add: zdiv_mono1)
  then show "(p + r) div 4096 < q div 4096 \<or> (q + l) div 4096 < p div 4096" if "n \<noteq> m"
    using pages [OF assms(1) U that] by linarith
qed

end

section \<open>The heaps of the nodes as such a store\<close>

interpretation nh: node_store "heaps_ok os" "\<lambda>r n. popcorn_malloc os r (int n)" "popcorn_free os" "\<lambda>p r n. popcorn_realloc os p r (int n)"
  "home_of os" 229328 for os
proof
  show "\<exists>p s'. popcorn_malloc os r (int n) s = Inr (p, s') \<and> given (heaps_ok os) (home_of os) U r n p s'"
    if "heaps_ok os s U" "0 \<le> r" "r \<le> 229328" "n < 32" for s U r n
    unfolding given_def by (rule malloc_law [OF that(1,2) _ that(4)]) (use that(3) in simp)
  show "\<exists>s'. popcorn_free os p s = Inr s' \<and> heaps_ok os s' (U(n := U n - {(p, k)}))" if "heaps_ok os s U" "(p, k) \<in> U n" for s U p k n
    using free_law [OF that] by blast
  show "\<exists>p' s'. popcorn_realloc os p r (int n) s = Inr (p', s') \<and> resized (heaps_ok os) (home_of os) U p k c r n p' s'"
    if "heaps_ok os s U" "(p, k) \<in> U c" "0 \<le> r" "r \<le> 229328" "n < 32" for s U p k c r n
    using realloc_law [OF that] by blast
  show pg: "(p + k) div 4096 < q div 4096 \<or> (q + l) div 4096 < p div 4096" if "heaps_ok os s U" "(p, k) \<in> U n" "(q, l) \<in> U m" "n \<noteq> m"
    for s U p k q l n m using heaps_ok_pages [OF that(1)] that(2-4) by (cases "n < m") auto
  show "(p, k, n) = (q, l, m) \<or> p + k \<le> q \<or> q + l \<le> p" if a: "heaps_ok os s U" "(p, k) \<in> U n" "(q, l) \<in> U m" for s U p k q l n m
  proof (cases "n = m")
    case True
    obtain c B where "heap_inv s n c B" "U n = blocks (heap_lo s n) c" by (rule heaps_ok_block [OF a(1,2)])
    then show ?thesis using block_apart a(2,3) True by auto
  next
    case False
    have le: "x div 4096 < y div 4096 \<Longrightarrow> x \<le> y" for x y :: int using zdiv_mono1 [of y x 4096] by linarith
    from pg [OF a False] show ?thesis by (elim disjE) (blast dest: le)+
  qed
qed

end
