(* ===== verification/Node_Heap_Claims.thy ===== *)
theory Node_Heap_Claims
  imports Node_Heap_Programs
begin

text \<open>
  What programs get from the heaps of the nodes: blocks that never overlap and of which those of different nodes share no page,
  heaps that are whole again when everything is freed, and contents that survive resizing.
\<close>

section \<open>The beginning\<close>

text \<open>The heaps when a program starts: static variables are 0, and \<open>__init_malloc\<close> clears \<open>mal\<close>.\<close>

definition heap_init :: "int \<Rightarrow> heap_state" where
  "heap_init mal = \<lparr>mal_at = mal, ck_psize = (\<lambda>_. 0), ck_csize = (\<lambda>_. 0), ck_next = (\<lambda>_. 0), ck_prev = (\<lambda>_. 0), binmap = (\<lambda>_. 0),
     initialized = (\<lambda>_. False), heap_end = (\<lambda>_. 0), arena_start = 0, node_arenas = (\<lambda>_. 0), node_sizes = (\<lambda>_. 0),
     heap_errno = None, heap_calls = []\<rparr>"

text \<open>Where the kernel and the general allocator put things: \<open>mal\<close> is below the program break, which is not at the end of the address space.\<close>

definition kernel_ok :: "heap_os \<Rightarrow> int \<Rightarrow> bool" where
  "kernel_ok os mal \<longleftrightarrow> 0 < mal \<and> mal + 131072 \<le> os_brk os \<and> os_brk os < 2 ^ 60 \<and>
     plain_elsewhere os (arena_start (set_arena_start os (heap_init mal)))"

lemma page_rest: "u64 (- x) AND 4095 = - x mod 4096"
proof -
  have "u64 (- x) AND 4095 = take_bit 12 (take_bit 64 (- x))"
    using take_bit_eq_mask [of 12 "take_bit 64 (- x)"] by (simp add: wrapc_def mask_eq_exp_minus_1)
  then show ?thesis by (simp add: take_bit_eq_mod mod_mod_cancel)
qed

lemma heaps_ok_init:
  assumes "kernel_ok os mal"
  shows "heaps_ok os (heap_init mal) (\<lambda>_. {})"
proof -
  let ?s = "set_arena_start os (heap_init mal)" and ?b = "os_brk os"
  have b: "0 < mal" "mal + 131072 \<le> ?b" "?b < 2 ^ 60" using assms by (simp_all add: kernel_ok_def)
  define d where "d = - ?b mod 4096"
  have r: "0 \<le> d" "d < 4096" "4096 dvd ?b + d" unfolding d_def
    by (simp, simp, metis add.right_inverse dvd_eq_mod_eq_0 mod_0 mod_add_right_eq)
  have "u64 (?b + d + 4 * 2 ^ 30) = ?b + d + 4 * 2 ^ 30"
    using b r(1,2) by (intro wrapc_id) (simp add: fits_def ctype_min_def ctype_max_def)
  then have s: "?s = heap_init mal\<lparr>arena_start := ?b + d + 4 * 2 ^ 30\<rparr>"
    by (simp add: set_arena_start_def heap_init_def page_rest d_def)
  have "4096 dvd ?b + d + 4 * 2 ^ 30" using r(3) by (rule dvd_add) simp
  then have pl: "places_ok ?s" unfolding places_ok_def s using b r by (simp add: heap_init_def)
  have "arena_fresh ?s n" if "n < 32" for n unfolding arena_fresh_def s using that pl [unfolded s] by (simp add: heap_init_def)
  then show ?thesis using assms by (auto simp: heaps_ok_def node_heap_def kernel_ok_def)
qed

definition heap_serve :: "heap_os \<Rightarrow> request list \<Rightarrow> heap_state \<Rightarrow> (int \<times> int \<times> nat) list \<Rightarrow> (heap_state \<times> (int \<times> int \<times> nat) list) result" where
  "heap_serve os = serve (\<lambda>r n. popcorn_malloc os r (int n)) (popcorn_free os) (\<lambda>p r n. popcorn_realloc os p r (int n)) (home_of os)"

lemma heap_serves:
  assumes "kernel_ok os mal" "\<forall>q \<in> set rs. request_ok 229328 q"
  obtains s live U where "heap_serve os rs (heap_init mal) [] = Inr (s, live)" "heaps_ok os s U" "held U live"
  using nh.serves [OF heaps_ok_init [OF assms(1)] held_Nil assms(2)] by (auto simp: heap_serve_def)

lemma held_in_arena:
  assumes "heaps_ok os s U" "held U live" "(p, r, n) \<in> set live"
  shows "32 dvd p" "ARENA_START s n < p" "p + r < ARENA_START s n + 2 ^ 30"
proof -
  obtain bl where bl: "list_all2 (\<lambda>(p, k, n) (q, r, m). p = q \<and> n = m \<and> r \<le> k) bl live" "\<And>n. U n = {(p, k). (p, k, n) \<in> set bl}"
    using assms(2) by (auto simp: held_def)
  obtain i where i: "i < length live" "live ! i = (p, r, n)" using assms(3) by (auto simp: in_set_conv_nth)
  have len: "length bl = length live" by (rule list_all2_lengthD [OF bl(1)])
  obtain k where k: "bl ! i = (p, k, n)" "r \<le> k" using list_all2_nthD [OF bl(1), of i] i len by (auto split: prod.splits)
  have "(p, k, n) \<in> set bl" using nth_mem [of i bl] i len k(1) by simp
  then have U: "(p, k) \<in> U n" by (simp add: bl(2))
  obtain cells B where h: "heap_inv s n cells B" "U n = blocks (heap_lo s n) cells" by (rule heaps_ok_block [OF assms(1) U])
  note f = block_facts [OF h(1), of p k]
  show "32 dvd p" "ARENA_START s n < p" "p + r < ARENA_START s n + 2 ^ 30" using f U h(2) k(2) by simp_all
qed

text \<open>A kernel for examples, whose mappings succeed and whose general allocator has no memory.\<close>

definition example_os :: heap_os where
  "example_os = \<lparr>os_brk = 2 ^ 20, os_mmap_fixed = (\<lambda>_ _. True), os_mremap_fixed = (\<lambda>_ _ _. False), os_mmap = (\<lambda>_. None),
     os_mremap = (\<lambda>_ _ _. None), plain_malloc = (\<lambda>_. 0), plain_realloc = (\<lambda>_ _. 0)\<rparr>"

lemma example_kernel: "kernel_ok example_os 4096"
  unfolding kernel_ok_def plain_elsewhere_def by (intro conjI allI) (code_simp | simp add: example_os_def)+

lemma example_malloc:
  "map_sum id (\<lambda>(p, s). (p, home_of example_os s p)) (popcorn_malloc example_os 100 0 (heap_init 4096)) = Inr (2 ^ 32 + 2 ^ 20 + 32, 0)"
  by code_simp

lemma example_block:
  obtains s k where "popcorn_malloc example_os 100 0 (heap_init 4096) = Inr (2 ^ 32 + 2 ^ 20 + 32, s)" "100 \<le> k"
    "heaps_ok example_os s ((\<lambda>_. {})(0 := {(2 ^ 32 + 2 ^ 20 + 32, k)}))" "home_of example_os s (2 ^ 32 + 2 ^ 20 + 32) = 0"
proof -
  have "\<exists>p s'. popcorn_malloc example_os 100 (int 0) (heap_init 4096) = Inr (p, s') \<and>
      given (heaps_ok example_os) (home_of example_os) (\<lambda>_. {}) 100 0 p s'"
    by (rule nh.alloc [OF heaps_ok_init [OF example_kernel]]) simp_all
  then obtain p s where m: "popcorn_malloc example_os 100 0 (heap_init 4096) = Inr (p, s)"
    "given (heaps_ok example_os) (home_of example_os) (\<lambda>_. {}) 100 0 p s" by auto
  have p: "p = 2 ^ 32 + 2 ^ 20 + 32" "home_of example_os s p = 0" using example_malloc unfolding m(1) by auto
  obtain k where "100 \<le> k" "heaps_ok example_os s ((\<lambda>_. {})(0 := {(p, k)}))" using m(2) p(2) by (auto simp: given_def)
  then show ?thesis using that m(1) p by simp
qed

section \<open>Claims\<close>

text \<open>
  C0: Whatever a program allocates, resizes and frees on the nodes, in any order (with requests up to the threshold for
  mappings of their own), no call fails on a check, blocks in use are in the arenas of their nodes and do not overlap, and
  blocks of different nodes share no page.
\<close>
theorem heap_blocks_apart:
  assumes "kernel_ok os mal" "\<forall>q \<in> set rs. request_ok 229328 q"
  shows "\<exists>s live. heap_serve os rs (heap_init mal) [] = Inr (s, live) \<and>
    (\<forall>(p, r, n) \<in> set live. 32 dvd p \<and> ARENA_START s n < p \<and> p + r < ARENA_START s n + 2 ^ 30) \<and>
    (\<forall>i j p r n q l m. i < j \<longrightarrow> j < length live \<longrightarrow> live ! i = (p, r, n) \<longrightarrow> live ! j = (q, l, m) \<longrightarrow>
      (p + r \<le> q \<or> q + l \<le> p) \<and> (n \<noteq> m \<longrightarrow> (p + r) div 4096 < q div 4096 \<or> (q + l) div 4096 < p div 4096))"
proof -
  obtain s live U where h: "heap_serve os rs (heap_init mal) [] = Inr (s, live)" "heaps_ok os s U" "held U live"
    by (rule heap_serves [OF assms])
  have 1: "\<forall>(p, r, n) \<in> set live. 32 dvd p \<and> ARENA_START s n < p \<and> p + r < ARENA_START s n + 2 ^ 30"
    using held_in_arena [OF h(2,3)] by blast
  have 2: "\<forall>i j p r n q l m. i < j \<longrightarrow> j < length live \<longrightarrow> live ! i = (p, r, n) \<longrightarrow> live ! j = (q, l, m) \<longrightarrow>
      (p + r \<le> q \<or> q + l \<le> p) \<and> (n \<noteq> m \<longrightarrow> (p + r) div 4096 < q div 4096 \<or> (q + l) div 4096 < p div 4096)"
    using nh.held_apart [OF h(2,3)] by (intro allI impI conjI)
  show ?thesis using h(1) 1 2 by blast
qed

theorem heap_blocks_apart_witness:
  "\<exists>s live. heap_serve example_os [Take 100 0, Take 5000 1, Resize 0 300 1, Give 1, Take 0 31] (heap_init 4096) [] = Inr (s, live) \<and>
    (\<forall>(p, r, n) \<in> set live. 32 dvd p \<and> ARENA_START s n < p \<and> p + r < ARENA_START s n + 2 ^ 30)"
  using heap_blocks_apart [OF example_kernel, of "[Take 100 0, Take 5000 1, Resize 0 300 1, Give 1, Take 0 31]"] by auto

section \<open>Heaps that are whole again\<close>

lemma unused_free: "used_chunks lo cells = {} \<Longrightarrow> \<forall>x \<in> set cells. \<not> snd x"
proof (induction cells arbitrary: lo)
  case (Cons x cells)
  obtain sz u where x: "x = (sz, u)" by (cases x)
  then have "\<not> u" "used_chunks (lo + sz) cells = {}" using Cons.prems by (simp_all split: if_splits)
  then show ?case using Cons.IH [of "lo + sz"] x by simp
qed simp

lemma whole_heap:
  assumes inv: "heap_inv s n cells B" and none: "blocks (heap_lo s n) cells = {}"
  shows "ck_csize s (heap_lo s n) = 2 ^ 30 - 32" "ck_next s (BIN_TO_CHUNK s 63 n) = heap_lo s n" "ck_prev s (BIN_TO_CHUNK s 63 n) = heap_lo s n"
    "binmap s n = 2 ^ 63"
proof -
  let ?lo = "heap_lo s n" and ?b = "BIN_TO_CHUNK s 63 n"
  have t: "tiles s ?lo cells (heap_hi s n)" and sp: "spaced cells" and bins: "bins_ok s n ?lo cells B" using inv by (simp_all add: heap_inv_def)
  have size: "heap_hi s n = ?lo + (2 ^ 30 - 32)" by (simp add: heap_lo_def heap_hi_def)
  have free: "\<forall>x \<in> set cells. \<not> snd x" using none by (intro unused_free [of ?lo]) (simp add: blocks_def)
  have "cells = [(2 ^ 30 - 32, False)]"
  proof (cases cells)
    case Nil
    then show ?thesis using t size by simp
  next
    case (Cons x xs)
    obtain sz u where x: "x = (sz, u)" by (cases x)
    have u: "\<not> u" using free Cons x by simp
    have "xs = []"
    proof (cases xs)
      case (Cons y ys)
      then show ?thesis using sp free \<open>cells = x # xs\<close> x by (cases y) auto
    qed
    then show ?thesis using t size Cons x u by simp
  qed
  then have cells: "cells = [] @ (2 ^ 30 - 32, False) # []" by simp
  have inv': "heap_inv s n ([] @ (2 ^ 30 - 32, False) # []) B" using inv cells by simp
  note hc = heap_chunk [OF inv' refl]
  show "ck_csize s ?lo = 2 ^ 30 - 32" using hc(4) by (simp add: tag_def)
  have bi: "bin_index (2 ^ 30 - 32) = 63" by code_simp
  have B: "set (B i) = (if i = 63 then {?lo} else {})" "bin_ok s n i (B i)" if "i < 64" for i
    using bins that bi by (auto simp: bins_ok_def cells)
  have ok: "bin_ok s n 63 (B 63)" and B63: "set (B 63) = {?lo}" using B [of 63] by simp_all
  then have r: "ring s ?b (B 63)" by (auto simp: bin_ok_def split: if_splits)
  then have "distinct (B 63)" by (simp add: ring_def)
  then have "B 63 = [?lo]" using B63
  proof (cases "B 63")
    case (Cons y ys)
    then have "y = ?lo" "set ys \<subseteq> {?lo}" "?lo \<notin> set ys" using B63 \<open>distinct (B 63)\<close> by auto
    then have "ys = []" by (cases ys) auto
    then show ?thesis using Cons \<open>y = ?lo\<close> by simp
  qed simp
  then have "ring s ?b [?lo]" using r by simp
  then show "ck_next s ?b = ?lo" "ck_prev s ?b = ?lo" by (simp_all add: ring_def)
  have bm: "0 \<le> binmap s n" "binmap s n < 2 ^ 64" using bins by (simp_all add: bins_ok_def)
  have "bit (binmap s n) i \<longleftrightarrow> i = 63" if "i < 64" for i using B [OF that] by (cases "i = 63") (auto simp: bin_ok_def)
  moreover have "bit (9223372036854775808 :: int) i \<longleftrightarrow> i = 63" for i using bit_exp_iff [where 'a = int, of 63 i] by simp
  ultimately have "take_bit 64 (binmap s n) = take_bit 64 (2 ^ 63)"
    by (intro bit_eqI) (auto simp: bit_take_bit_iff)
  then show "binmap s n = 2 ^ 63" using bm by (simp add: take_bit_eq_mod)
qed

text \<open>
  C0: When a program has freed all blocks, the heap of every node it has used is one free chunk again, the only one in the bins of
  the node, whatever the order in which the blocks were allocated, resized and freed.
\<close>
theorem all_freed_heap_whole:
  assumes "kernel_ok os mal" "\<forall>q \<in> set rs. request_ok 229328 q" "heap_serve os rs (heap_init mal) [] = Inr (s, [])" "n < 32"
  shows "node_sizes s n = 0 \<or>
    (let c = ARENA_START s n + 16; b = BIN_TO_CHUNK s 63 n in
     ck_csize s c = 2 ^ 30 - 32 \<and> ck_next s b = c \<and> ck_prev s b = c \<and> binmap s n = 2 ^ 63)"
proof -
  obtain s' live U where h: "heap_serve os rs (heap_init mal) [] = Inr (s', live)" "heaps_ok os s' U" "held U live"
    by (rule heap_serves [OF assms(1,2)])
  then have s: "s' = s" and "U n = {}" using assms(3) held_none by auto
  then obtain cells where c: "node_heap os s n cells" "blocks (heap_lo s n) cells = {}" using h(2) assms(4) by (auto simp: heaps_ok_def)
  show ?thesis
  proof (cases "arena_fresh (set_arena_start os s) n")
    case True
    then show ?thesis by (simp add: arena_fresh_def)
  next
    case False
    then obtain B where "heap_inv s n cells B" using c(1) by (auto simp: node_heap_def)
    from whole_heap [OF this c(2)] show ?thesis by (simp add: Let_def heap_lo_def)
  qed
qed

theorem all_freed_heap_whole_witness:
  "\<exists>s. heap_serve example_os [Take 100 0, Give 0] (heap_init 4096) [] = Inr (s, []) \<and>
    (node_sizes s 0 = 0 \<or> ck_csize s (ARENA_START s 0 + 16) = 2 ^ 30 - 32)"
proof -
  let ?p = "2 ^ 32 + 2 ^ 20 + 32 :: int"
  obtain s k where b: "popcorn_malloc example_os 100 0 (heap_init 4096) = Inr (?p, s)" "100 \<le> k"
    "heaps_ok example_os s ((\<lambda>_. {})(0 := {(?p, k)}))" "home_of example_os s ?p = 0" by (rule example_block)
  obtain s' where f: "popcorn_free example_os ?p s = Inr s'" using free_law [OF b(3), of ?p k 0] by auto
  have run: "heap_serve example_os [Take 100 0, Give 0] (heap_init 4096) [] = Inr (s', [])"
    using b(1,4) f by (simp add: heap_serve_def)
  then show ?thesis using all_freed_heap_whole [OF example_kernel _ run, of 0] by (auto simp: Let_def)
qed

section \<open>Resizing\<close>

text \<open>
  C0: \<open>popcorn_realloc\<close> of a block in use, to any node and up to the threshold for mappings of their own, returns: 0 and
  the block still in use, no shorter; or memory of the new length (on the node asked for, or from \<open>malloc\<close> when the arena has no room) in
  place of the block, to which at least the smaller of both lengths has been copied if it is elsewhere. All other blocks stay in use as they are.
\<close>
theorem realloc_keeps_contents:
  assumes "heaps_ok os s U" "(p, k) \<in> U c" "0 \<le> r" "r \<le> 229328" "n < 32"
  shows "\<exists>p' s'. popcorn_realloc os p r (int n) s = Inr (p', s') \<and>
    (if p' = 0 then \<exists>k'. k \<le> k' \<and> heaps_ok os s' (U(c := insert (p, k') (U c - {(p, k)})))
     else (p' = p \<or> (\<exists>l. min r k \<le> l \<and> Memcpy p' p l \<in> set (heap_calls s'))) \<and>
       (let V = U(c := U c - {(p, k)}) in
        if home_of os s' p' = int n then \<exists>k'. r \<le> k' \<and> (p', k') \<notin> V n \<and> heaps_ok os s' (V(n := insert (p', k') (V n)))
        else heaps_ok os s' V))"
proof -
  obtain p' s' where r: "popcorn_realloc os p r (int n) s = Inr (p', s')" "copied p p' (min r k) s'"
    "resized (heaps_ok os) (home_of os) U p k c r n p' s'" using realloc_law [OF assms] by blast
  show ?thesis
    by (intro exI [of _ p'] exI [of _ s']) (use r in \<open>cases "p' = 0"; auto simp: copied_def resized_def given_def Let_def\<close>)
qed

theorem realloc_keeps_contents_witness:
  "\<exists>s p' s'. popcorn_malloc example_os 100 0 (heap_init 4096) = Inr (2 ^ 32 + 2 ^ 20 + 32, s) \<and>
    popcorn_realloc example_os (2 ^ 32 + 2 ^ 20 + 32) 5000 1 s = Inr (p', s') \<and>
    (p' = 0 \<or> p' = 2 ^ 32 + 2 ^ 20 + 32 \<or> (\<exists>l. 100 \<le> l \<and> Memcpy p' (2 ^ 32 + 2 ^ 20 + 32) l \<in> set (heap_calls s')))"
proof -
  let ?p = "2 ^ 32 + 2 ^ 20 + 32 :: int"
  obtain s k where b: "popcorn_malloc example_os 100 0 (heap_init 4096) = Inr (?p, s)" "100 \<le> k"
    "heaps_ok example_os s ((\<lambda>_. {})(0 := {(?p, k)}))" "home_of example_os s ?p = 0" by (rule example_block)
  have mem: "(?p, k) \<in> ((\<lambda>_. {})(0 := {(?p, k)})) 0" by simp
  obtain p' s' where r: "popcorn_realloc example_os ?p 5000 (int 1) s = Inr (p', s')"
    "p' = 0 \<or> p' = ?p \<or> (\<exists>l. min 5000 k \<le> l \<and> Memcpy p' ?p l \<in> set (heap_calls s'))"
    using realloc_keeps_contents [OF b(3) mem, of 5000 1] by (auto split: if_splits)
  have "100 \<le> l" if "min 5000 k \<le> l" for l using that b(2) by simp
  then show ?thesis using b(1) r by (intro exI [of _ s] exI [of _ p'] exI [of _ s'] conjI) auto
qed

end
