(* ===== verification/Spec2Isabelle.thy ===== *)
theory Spec2Isabelle
  imports Prefetch_Correct Migration_Correct Thread_Schedule_Correct Metadata_Pipeline Check_Stackmaps
    Omp_Schedules Omp_Dynamic_Correct Omp_Reduce_Correct Node_Heap_Claims
begin

text \<open>
  A model of the run-time system of the Popcorn compiler tool chain: the C code that moves a running
  thread from a machine of one instruction set to a machine of another.

  \<^bold>\<open>How the parts work together.\<close> The compiler leaves, for every call site, a record of where the live values
  of the function are; the tool \<open>tool/stack_metadata\<close> turns these records into tables that it adds to
  the binary for each instruction set. A call site has the same number in every binary.
  \<open>lib/migration\<close> checks at migration points whether the thread is to move. If the
  destination has another instruction set, \<open>lib/stack_transformation\<close> opens the tables of both binaries, unwinds the
  thread's stack frame by frame, finds for each frame the call site of the same number in the other
  binary, sizes the frames of the destination, and copies the live values into the other half of
  the stack, with pointers into the stack adjusted. The migration library then sets the thread pointer and
  enters the kernel, and the thread goes on at the destination in a fix-up routine that loads its registers.
  \<open>lib/dsm-prefetch\<close> batches what the program says about the memory it is going to touch after it has moved, and
  passes it to the kernel as page ranges per node. \<open>lib/libopenpop\<close> is the OpenMP run time of programs whose threads
  are spread over several nodes: it places the threads as the environment says, and divides loops among them.

  \<^bold>\<open>Conventions.\<close> A C function that can go wrong returns \<open>fault + 'a\<close> (\<open>Prelude\<close>): \<open>Exit\<close> for the
  library's error macro, \<open>Abort\<close> for a failed assertion, \<open>Undef\<close> for a step that C leaves undefined, and
  \<open>Diverge\<close> for a loop that used up its fuel. Assertions are taken as compiled in; with \<open>NDEBUG\<close> the
  \<open>Abort\<close> results are what the code relies on not happening. Machine integers are words of their width. Memory is a
  map from 64-bit addresses to bytes; register sets lie in byte blocks at the offsets of the C
  structs. What the operating system, libelf and the kernel's migration call do is an argument: a record of what
  their calls return (\<open>elf_lib\<close>, \<open>process\<close>), or a function, and never fixed by the model.

  \<^bold>\<open>Theories and what they model.\<close>

  \<^item> \<open>Prelude\<close>: words, results, counting loops (\<open>for_loop\<close>), array reads, byte storage,
    little-endian integers. \<open>Platform\<close> (\<open>common/include/arch.h\<close>, \<open>platform.h\<close>): architectures as a
    linear order, nodes, pages and their rounding.
  \<^item> \<open>Regs\<close>, \<open>Regs_X86_64\<close>, \<open>Regs_AArch64\<close>, \<open>Regs_PowerPC64\<close>, \<open>Architectures\<close>, \<open>Abi\<close>
    (\<open>include/regs.h\<close>, \<open>include/properties.h\<close>, \<open>src/arch/*\<close>, \<open>src/util.c\<close>): the tables of register
    operations and of stack properties. The locale \<open>regset_iface\<close> states the laws between reading and writing
    registers, \<open>regset_sized\<close> adds that registers of their full sizes do not overlap, and \<open>abi\<close> ties operations to
    properties. All three architectures are interpretations of \<open>regset_iface\<close> and \<open>abi\<close>; PowerPC64 is not one of
    \<open>regset_sized\<close>, because its size function has no case for some registers.
  \<^item> \<open>Bitmap\<close> (\<open>bitmap.h\<close>, \<open>bitmap.c\<close>): bitmaps as bytes of a pool, an interpretation of the locale \<open>bit_set\<close>.
  \<^item> \<open>Metadata\<close>, \<open>Metadata_Layout\<close>, \<open>St_Init\<close> (\<open>common/include/call_site.h\<close>, \<open>include/definitions.h\<close>,
    \<open>src/init.c\<close>, \<open>src/util.c\<close>): the records, their packed layout with the locale \<open>packed\<close> interpreted on each record type,
    the rewriting state, and opening and closing a binary with the resources this takes.
  \<^item> \<open>Search\<close> (\<open>src/util.c\<close>): the three binary searches. The locale \<open>key_lookup\<close> states that a search
    returns the entry with the key; the tables by address and by number are interpretations of it.
  \<^item> \<open>Unwind\<close>, \<open>Frame_Data\<close>, \<open>Rewrite\<close>, \<open>Rewrite_Unwind\<close>, \<open>Rewrite_Frames\<close> (\<open>src/unwind.c\<close>,
    \<open>src/data.c\<close>, \<open>src/rewrite.c\<close>): the transformation itself. \<open>Userspace\<close> (\<open>src/userspace.c\<close>): its use from
    within the program, with the two halves of the stack.
  \<^item> \<open>Spans\<close>, \<open>Node_List\<close>, \<open>Node_List_Refine\<close>, \<open>Node_List_Ops\<close> (\<open>lib/dsm-prefetch/src/list.c\<close>): the same
    operations on lists of spans and on doubly linked nodes in a heap with a cache of free nodes; the linked lists
    refine the lists of spans, and these the sets of their addresses. The contract is the locale \<open>span_store\<close>.
  \<^item> \<open>Prefetch\<close>, \<open>Prefetch_Correct\<close> (\<open>lib/dsm-prefetch/src/dsm-prefetch.c\<close>): requests and their execution; every run of
    the library is a run of the step relation \<open>prefetch_step\<close>.
  \<^item> \<open>Thread_Schedule\<close>, \<open>Thread_Schedule_Correct\<close> (\<open>lib/migration/src/mapping.c\<close>): reading the file that
    places threads on nodes, and looking a thread up in it.
  \<^item> \<open>Migration\<close>, \<open>Migration_Correct\<close> (\<open>lib/migration/src/migrate.c\<close>, its macros and fix-up routines per
    architecture): migrating a thread, from the request to the callback on the destination.

  \<^item> \<open>Elf_File\<close>, \<open>Stackmap\<close>, \<open>Stackmap_Correct\<close>, \<open>Stack_Metadata\<close>, \<open>Elf_Sections\<close>, \<open>Stack_Metadata_Correct\<close>
    (\<open>tool/stack_metadata/src\<close>): the tool that makes the tables: files as sections with their bytes, the two scans over the
    stack maps of the compiler, generating the tables, and adding them as sections. The locale \<open>sorting\<close> states what is used of
    \<open>qsort\<close>, and \<open>table_store\<close> how sections are added and found. \<open>Metadata_Pipeline\<close> puts the tool and the
    run-time library together. \<open>Check_Stackmaps\<close> (\<open>utils/check_stackmaps.c\<close>): the checker of two binaries.
  \<^item> \<open>C_Int\<close>: the integer types of C, as integers that are wrapped to the width of their type, and loops over them.
    \<open>Omp_Nodes\<close>, \<open>Omp_Env\<close> (\<open>lib/libopenpop/hierarchy.c\<close>, \<open>affinity.c\<close>, \<open>env.c\<close>, \<open>team.c\<close>): the nodes of
    the threads, from the environment variables on. \<open>Omp_Static\<close>, \<open>Omp_Schedules\<close> (\<open>kmp.c\<close>): static schedules, even
    and skewed by ratings. \<open>Omp_Workshare\<close>, \<open>Omp_Dynamic\<close>, \<open>Omp_Dynamic_Correct\<close> (\<open>iter.c\<close>, \<open>iter_ull.c\<close>,
    \<open>hierarchy.c\<close>): the dynamic schedule on two levels, as the step relation \<open>dyn_step\<close>. What taking a chunk promises is the locale
    \<open>iteration_pool\<close>, of which the \<open>long\<close> and the \<open>unsigned long long\<close> functions are interpretations.
    \<open>Omp_Barrier\<close>, \<open>Omp_Hybrid\<close>, \<open>Omp_Hybrid_Correct\<close> (\<open>config/linux/bar.h\<close>, \<open>bar.c\<close>, \<open>hierarchy.c\<close>): team barriers, with
    what they promise their participants as the locale \<open>team_barrier\<close>, and the hierarchical barrier, every access to
    shared memory a step; a run is a list of the threads in the order of their steps. \<open>Omp_Reduce\<close>, \<open>Omp_Reduce_Correct\<close>
    (\<open>hierarchy.c\<close>): hierarchical reductions, modelled in the same way.

  \<^bold>\<open>What the lemmas show.\<close> The lemmas about the searches, the layout and opening a binary say that the run-time library sees
  the tables as they were written and finds exactly the records asked for. The lemmas about unwinding say
  that the registers of a caller are restored from their save slots, that unwinding stops, that it pairs each
  frame with the call site of its number, and that the destination frames fit. The lemmas about
  data access say which bytes are copied where, and where callee-saved registers are found. Those about the
  lists and requests end in the statement that the kernel is told exactly the pages that the program
  asked for, once, with the strongest access. Those about migration say what a thread looks like after a migration that the kernel
  carried out and after one that it refused. Those about loops say that the threads of a team together execute the
  iterations of a loop, each once: on static schedules from the strings of the environment to the bounds of every thread, with
  the skewed schedule equivalent to the even one of a larger team, and on the dynamic schedule under every interleaving of the nodes, by
  an invariant that accounts for every iteration; that no thread gets past a barrier early, and that all can get past it; and that a
  reduction combines the data of every thread once. A number of theorems are about errors: each states
  what the code does on an input where this is not what it should do.

  \<^bold>\<open>Fuel and bounds.\<close> Loops over indices are structural or have a measure. Fuel is used where the code follows
  pointers or may run on: \<open>unwind_loop\<close> has as much as there are activations (\<open>MAX_FRAMES\<close> is 512), each
  iteration uses one, and more would leave the array, so that running out is impossible (shown for every
  stack and all metadata). The walks of the linked lists have one unit more than the list has nodes, and well-formed lists never run out.
  The search for the record of the frame pointer (\<open>savedfbp_index\<close>) has one more than there are records before it. \<open>local_loop\<close> is shown
  to need no more than the number of fix-ups when it ends, and not to end for any fuel in the case that the code does not handle.

  \<^bold>\<open>Not modelled.\<close> Variants of the stack transformation library that are not its default
  (thread-local storage through pthread keys, timing, debug output); the signal-driven triggers of \<open>lib/migration/src/trigger.c\<close>;
  assembly other than the register loads of the fix-up routines; \<open>tool/alignment\<close>, whose core is Python; the compiler
  passes under \<open>patches\<close>, which are patches of LLVM; the commands of \<open>tool/stack_metadata/utils\<close> that dump or compress tables; the vendored libraries musl and libelf, of
  which only the functions are modelled that the code above uses and whose source is needed (\<open>bsearch\<close>, the integer scanner); and of
  \<open>lib/libopenpop\<close> what comes from libgomp unchanged (tasks, locks, offloading, guided schedules), the cancellable and final
  variants of the barriers, and the probing schedule, whose splits are computed in floating point from measured times.
\<close>

end
